(* ===== verification/WMPrelude.thy ===== *)
theory WMPrelude
  imports Main "HOL-Library.Word" "HOL-Library.Monad_Syntax"
begin

text \<open>
  Shared by every theory of the development: C pointers as options, blocks of memory as
  lists of cells, and the lemmas on them that the component theories rewrite with.

  A C function that may touch memory returns an \<open>option\<close>: \<open>None\<close> says that the call
  performs an invalid access (outside its block, or of a cell nobody has written), \<open>Some\<close>
  holds the result. So an equation \<open>f x = Some y\<close> includes memory safety of the call.
\<close>

section \<open>Pointers\<close>

text \<open>A \<open>void *\<close> that designates an object of the model's type \<open>'a\<close>, or is NULL.\<close>

type_synonym 'a ptr = "'a option"

abbreviation (input) NULL :: "'a ptr" where
  "NULL \<equiv> None"

section \<open>Blocks of memory\<close>

text \<open>
  A block is a list of cells. \<open>Undef\<close> is a cell that \<open>realloc\<close> has added and nobody has
  written yet: reading it is an error, copying it (\<open>memcpy\<close>) is not.
\<close>

datatype 'a cell = Undef | Cell (cell_val: 'a)

type_synonym 'a block = "'a cell list"

text \<open>\<open>wmalloc\<close>: a block whose cells all hold the zero value of their type.\<close>

definition wmalloc_block :: "'a \<Rightarrow> int \<Rightarrow> 'a block" where
  "wmalloc_block z n = replicate (nat n) (Cell z)"

text \<open>\<open>wrealloc\<close>: keeps the common prefix, new cells are undefined.\<close>

definition wrealloc_block :: "'a block \<Rightarrow> int \<Rightarrow> 'a block" where
  "wrealloc_block b n = take (nat n) b @ replicate (nat n - length b) Undef"

definition cell_read :: "'a block \<Rightarrow> int \<Rightarrow> 'a option" where
  "cell_read b i =
     (if 0 \<le> i \<and> i < int (length b)
      then (case b ! nat i of Undef \<Rightarrow> None | Cell v \<Rightarrow> Some v)
      else None)"

definition cell_write :: "'a block \<Rightarrow> int \<Rightarrow> 'a \<Rightarrow> 'a block option" where
  "cell_write b i v =
     (if 0 \<le> i \<and> i < int (length b) then Some (b[nat i := Cell v]) else None)"

text \<open>
  \<open>memcpy(dst + d, src + s, n)\<close> in cells; with \<open>src = dst\<close> it is \<open>memmove\<close> (the source
  cells are read before the destination is written).
\<close>

definition mem_copy :: "'a block \<Rightarrow> int \<Rightarrow> 'a block \<Rightarrow> int \<Rightarrow> int \<Rightarrow> 'a block option" where
  "mem_copy dst d src s n =
     (if 0 \<le> d \<and> 0 \<le> s \<and> 0 \<le> n \<and> d + n \<le> int (length dst) \<and> s + n \<le> int (length src)
      then Some (take (nat d) dst @ take (nat n) (drop (nat s) src) @ drop (nat (d + n)) dst)
      else None)"

text \<open>\<open>memset(b + d, v, n)\<close>.\<close>

definition mem_set :: "'a block \<Rightarrow> int \<Rightarrow> 'a \<Rightarrow> int \<Rightarrow> 'a block option" where
  "mem_set b d v n =
     (if 0 \<le> d \<and> 0 \<le> n \<and> d + n \<le> int (length b)
      then Some (take (nat d) b @ replicate (nat n) (Cell v) @ drop (nat (d + n)) b)
      else None)"

section \<open>Lemmas on blocks\<close>

named_theorems block_simps \<open>accesses to a block that starts with known cells\<close>

lemma cell_read_map_Cell [block_simps]:
  "0 \<le> i \<Longrightarrow> i < int (length xs) \<Longrightarrow> cell_read (map Cell xs @ junk) i = Some (xs ! nat i)"
  by (simp add: cell_read_def nth_append nat_less_iff)

lemma cell_write_prefix [block_simps]:
  "0 \<le> i \<Longrightarrow> i < int (length xs) \<Longrightarrow>
   cell_write (map Cell xs @ junk) i v = Some (map Cell (xs[nat i := v]) @ junk)"
  by (simp add: cell_write_def list_update_append nat_less_iff map_update)

lemma cell_write_end [block_simps]:
  "cell_write (map Cell xs @ c # junk) (int (length xs)) v = Some (map Cell (xs @ [v]) @ junk)"
  by (simp add: cell_write_def list_update_append)

lemma length_wrealloc_block [simp]: "length (wrealloc_block b n) = nat n"
  by (simp add: wrealloc_block_def)

lemma wrealloc_block_grow:
  "int (length b) \<le> n \<Longrightarrow> wrealloc_block b n = b @ replicate (nat n - length b) Undef"
  by (simp add: wrealloc_block_def)

lemma length_wmalloc_block [simp]: "length (wmalloc_block z n) = nat n"
  by (simp add: wmalloc_block_def)

lemma length_mem_copy: "mem_copy dst d src s n = Some b \<Longrightarrow> length b = length dst"
  by (auto simp: mem_copy_def split: if_splits)

lemma cell_write_length [simp]: "cell_write b i v = Some b' \<Longrightarrow> length b' = length b"
  by (auto simp: cell_write_def split: if_splits)

section \<open>Lemmas on lists\<close>

lemma sorted_wrt_concat:
  "\<forall>c \<in> set css. sorted_wrt P c \<Longrightarrow>
   sorted_wrt (\<lambda>c d. \<forall>x \<in> set c. \<forall>y \<in> set d. P x y) css \<Longrightarrow> sorted_wrt P (concat css)"
  by (induction css) (auto simp: sorted_wrt_append)

lemma sorted_wrt_distinct_map: "sorted_wrt (\<lambda>x y. f x \<noteq> f y) xs \<Longrightarrow> distinct (map f xs)"
  by (induction xs) auto

lemma nth_take_drop_split:
  "i < length xs \<Longrightarrow> xs = take i xs @ xs ! i # drop (Suc i) xs"
  by (rule id_take_nth_drop)

lemma find_index_split:
  "(\<exists>x \<in> set xs. P x) \<longleftrightarrow> (\<exists>i < length xs. P (xs ! i) \<and> (\<forall>j < i. \<not> P (xs ! j)))"
proof
  assume "\<exists>x \<in> set xs. P x"
  then have ex: "\<exists>i. i < length xs \<and> P (xs ! i)"
    by (auto simp: in_set_conv_nth)
  define i where "i = (LEAST i. i < length xs \<and> P (xs ! i))"
  from ex have "i < length xs \<and> P (xs ! i)"
    unfolding i_def by (rule LeastI_ex)
  moreover have "\<not> P (xs ! j)" if "j < i" for j
    using that not_less_Least [of j "\<lambda>i. i < length xs \<and> P (xs ! i)"] calculation
    unfolding i_def by (meson less_trans)
  ultimately show "\<exists>i < length xs. P (xs ! i) \<and> (\<forall>j < i. \<not> P (xs ! j))" by blast
qed (metis nth_mem)

end
