(* ===== verification/WMArrays.thy ===== *)
theory WMArrays
  imports WMPrelude "HOL-Library.Multiset"
begin

text \<open>
  The dynamically resized array of \<open>WMcore/array.c\<close>. The record is the C struct, its block
  of items included, so that growth, the reads and the writes are the ones of the code. A
  function that takes a \<open>WMArray *\<close> takes a \<open>ptr\<close> here (most of them return early on NULL).
  The items are pointers of any type. A destructor is a flag: the functions that call it return
  the items it was called on, in the order of the calls. A match callback is given applied to
  its \<open>cdata\<close>. The C \<open>int\<close> counters are unbounded integers.

  \<open>array_rep a xs\<close> is the abstraction: \<open>a\<close> is a well-formed array that holds the list \<open>xs\<close>.
\<close>

section \<open>The structure\<close>

record 'a W_Array =
  items :: "'a ptr block"
  itemCount :: int
  allocSize :: int
  destructor :: bool

record WMRange =
  position :: int
  count :: int

definition INITIAL_SIZE :: int where "INITIAL_SIZE = 8"

definition RESIZE_INCREMENT :: int where "RESIZE_INCREMENT = 8"

definition WANotFound :: int where "WANotFound = -1"

section \<open>Creating and destroying\<close>

definition WMCreateArrayWithDestructor :: "int \<Rightarrow> bool \<Rightarrow> 'a W_Array" where
  "WMCreateArrayWithDestructor initialSize d =
     (let n = (if initialSize \<le> 0 then INITIAL_SIZE else initialSize)
      in \<lparr>items = wmalloc_block NULL n, itemCount = 0, allocSize = n, destructor = d\<rparr>)"

definition WMCreateArray :: "int \<Rightarrow> 'a W_Array" where
  "WMCreateArray initialSize = WMCreateArrayWithDestructor initialSize False"

definition WMCreateArrayWithArray :: "'a W_Array \<Rightarrow> 'a W_Array option" where
  "WMCreateArrayWithArray array = do {
     b \<leftarrow> mem_copy (wmalloc_block NULL (allocSize array)) 0 (items array) 0 (itemCount array);
     Some \<lparr>items = b, itemCount = itemCount array, allocSize = allocSize array,
       destructor = False\<rparr> }"

text \<open>The loop of \<open>WMEmptyArray\<close>: from the last item to the first.\<close>

fun destroy_items :: "'a ptr block \<Rightarrow> nat \<Rightarrow> 'a ptr list option" where
  "destroy_items b 0 = Some []"
| "destroy_items b (Suc n) = do {
     x \<leftarrow> cell_read b (int n);
     xs \<leftarrow> destroy_items b n;
     Some (x # xs) }"

definition WMEmptyArray :: "'a W_Array \<Rightarrow> ('a W_Array \<times> 'a ptr list) option" where
  "WMEmptyArray array = do {
     destroyed \<leftarrow> (if destructor array then destroy_items (items array) (nat (itemCount array))
                   else Some []);
     Some (array\<lparr>itemCount := 0\<rparr>, destroyed) }"

text \<open>The array is freed; what is left of the call is the items its destructor was called on.\<close>

definition WMFreeArray :: "'a W_Array ptr \<Rightarrow> 'a ptr list option" where
  "WMFreeArray array = (case array of
     None \<Rightarrow> Some []
   | Some a \<Rightarrow> do { (_, destroyed) \<leftarrow> WMEmptyArray a; Some destroyed })"

definition WMGetArrayItemCount :: "'a W_Array ptr \<Rightarrow> int" where
  "WMGetArrayItemCount array = (case array of None \<Rightarrow> 0 | Some a \<Rightarrow> itemCount a)"

section \<open>Adding\<close>

definition WMAppendArray :: "'a W_Array ptr \<Rightarrow> 'a W_Array ptr \<Rightarrow> 'a W_Array ptr option" where
  "WMAppendArray array other = (case (array, other) of
     (Some a, Some b) \<Rightarrow>
       if itemCount b = 0 then Some (Some a)
       else do {
         let a1 = (if itemCount a + itemCount b > allocSize a
                   then a\<lparr>allocSize := allocSize a + allocSize b,
                          items := wrealloc_block (items a) (allocSize a + allocSize b)\<rparr>
                   else a);
         bl \<leftarrow> mem_copy (items a1) (itemCount a1) (items b) 0 (itemCount b);
         Some (Some (a1\<lparr>items := bl, itemCount := itemCount a1 + itemCount b\<rparr>)) }
   | _ \<Rightarrow> Some array)"

definition grow_array :: "'a W_Array \<Rightarrow> 'a W_Array" where
  "grow_array a =
     (if itemCount a \<ge> allocSize a
      then a\<lparr>allocSize := allocSize a + RESIZE_INCREMENT,
             items := wrealloc_block (items a) (allocSize a + RESIZE_INCREMENT)\<rparr>
      else a)"

definition WMAddToArray :: "'a W_Array ptr \<Rightarrow> 'a ptr \<Rightarrow> 'a W_Array ptr option" where
  "WMAddToArray array item = (case array of
     None \<Rightarrow> Some NULL
   | Some a0 \<Rightarrow> do {
       let a = grow_array a0;
       b \<leftarrow> cell_write (items a) (itemCount a) item;
       Some (Some (a\<lparr>items := b, itemCount := itemCount a + 1\<rparr>)) })"

definition WMInsertInArray :: "'a W_Array ptr \<Rightarrow> int \<Rightarrow> 'a ptr \<Rightarrow> 'a W_Array ptr option" where
  "WMInsertInArray array index item = (case array of
     None \<Rightarrow> Some NULL
   | Some a0 \<Rightarrow>
       if \<not> (0 \<le> index \<and> index \<le> itemCount a0) then Some (Some a0)
       else do {
         let a = grow_array a0;
         b \<leftarrow> (if index < itemCount a
               then mem_copy (items a) (index + 1) (items a) index (itemCount a - index)
               else Some (items a));
         b' \<leftarrow> cell_write b index item;
         Some (Some (a\<lparr>items := b', itemCount := itemCount a + 1\<rparr>)) })"

definition WMReplaceInArray ::
  "'a W_Array ptr \<Rightarrow> int \<Rightarrow> 'a ptr \<Rightarrow> ('a W_Array ptr \<times> 'a ptr) option" where
  "WMReplaceInArray array index item = (case array of
     None \<Rightarrow> Some (NULL, NULL)
   | Some a \<Rightarrow>
       if \<not> (0 \<le> index \<and> index \<le> itemCount a) then Some (Some a, NULL)
       else if index = itemCount a then do {
         array' \<leftarrow> WMAddToArray (Some a) item;
         Some (array', NULL) }
       else do {
         old \<leftarrow> cell_read (items a) index;
         b \<leftarrow> cell_write (items a) index item;
         Some (Some (a\<lparr>items := b\<rparr>), old) })"

section \<open>Removing\<close>

text \<open>The results: the array, the returned \<open>int\<close>, the items the destructor was called on.\<close>

definition WMDeleteFromArray ::
  "'a W_Array ptr \<Rightarrow> int \<Rightarrow> ('a W_Array ptr \<times> int \<times> 'a ptr list) option" where
  "WMDeleteFromArray array index = (case array of
     None \<Rightarrow> Some (NULL, 0, [])
   | Some a \<Rightarrow>
       if \<not> (0 \<le> index \<and> index < itemCount a) then Some (Some a, 0, [])
       else do {
         destroyed \<leftarrow> (if destructor a then do { x \<leftarrow> cell_read (items a) index; Some [x] }
                       else Some []);
         b \<leftarrow> (if index < itemCount a - 1
               then mem_copy (items a) index (items a) (index + 1) (itemCount a - index - 1)
               else Some (items a));
         Some (Some (a\<lparr>items := b, itemCount := itemCount a - 1\<rparr>), 1, destroyed) })"

text \<open>The condition of the search loops: the callback, or the identity of the pointers.\<close>

definition item_matches :: "('a ptr \<Rightarrow> bool) option \<Rightarrow> 'a ptr \<Rightarrow> 'a ptr \<Rightarrow> bool" where
  "item_matches match cdata x = (case match of Some m \<Rightarrow> m x | None \<Rightarrow> x = cdata)"

text \<open>The loop \<open>for (i = 0; i < itemCount; i++)\<close> that stops at the first match.\<close>

function find_from :: "'a W_Array \<Rightarrow> ('a ptr \<Rightarrow> bool) \<Rightarrow> int \<Rightarrow> int option" where
  "find_from a m i =
     (if i < itemCount a
      then do { x \<leftarrow> cell_read (items a) i; if m x then Some i else find_from a m (i + 1) }
      else Some WANotFound)"
  by pat_completeness auto
termination
  by (relation "measure (\<lambda>(a, m, i). nat (itemCount a - i))") auto

declare find_from.simps [simp del]

definition WMFindInArray ::
  "'a W_Array ptr \<Rightarrow> ('a ptr \<Rightarrow> bool) option \<Rightarrow> 'a ptr \<Rightarrow> int option" where
  "WMFindInArray array match cdata = (case array of
     None \<Rightarrow> Some WANotFound
   | Some a \<Rightarrow> find_from a (item_matches match cdata) 0)"

definition WMRemoveFromArrayMatching ::
  "'a W_Array ptr \<Rightarrow> ('a ptr \<Rightarrow> bool) option \<Rightarrow> 'a ptr \<Rightarrow>
   ('a W_Array ptr \<times> int \<times> 'a ptr list) option" where
  "WMRemoveFromArrayMatching array match cdata = (case array of
     None \<Rightarrow> Some (NULL, 1, [])
   | Some a \<Rightarrow> do {
       i \<leftarrow> find_from a (item_matches match cdata) 0;
       if i = WANotFound then Some (Some a, 0, [])
       else do {
         (array', _, destroyed) \<leftarrow> WMDeleteFromArray (Some a) i;
         Some (array', 1, destroyed) } })"

definition WMPopFromArray :: "'a W_Array ptr \<Rightarrow> ('a W_Array ptr \<times> 'a ptr) option" where
  "WMPopFromArray array = (case array of
     None \<Rightarrow> Some (NULL, NULL)
   | Some a \<Rightarrow>
       if itemCount a \<le> 0 then Some (Some a, NULL)
       else do {
         let a' = a\<lparr>itemCount := itemCount a - 1\<rparr>;
         x \<leftarrow> cell_read (items a') (itemCount a');
         Some (Some a', x) })"

section \<open>Reading\<close>

definition WMGetFromArray :: "'a W_Array ptr \<Rightarrow> int \<Rightarrow> 'a ptr option" where
  "WMGetFromArray array index = (case array of
     None \<Rightarrow> Some NULL
   | Some a \<Rightarrow>
       if index < 0 \<or> index \<ge> itemCount a then Some NULL
       else cell_read (items a) index)"

text \<open>The loops that visit every item: the items read at indexes \<open>i, i + 1, \<dots>\<close>.\<close>

function items_from :: "'a W_Array \<Rightarrow> int \<Rightarrow> 'a ptr list option" where
  "items_from a i =
     (if i < itemCount a
      then do { x \<leftarrow> cell_read (items a) i; xs \<leftarrow> items_from a (i + 1); Some (x # xs) }
      else Some [])"
  by pat_completeness auto
termination
  by (relation "measure (\<lambda>(a, i). nat (itemCount a - i))") auto

declare items_from.simps [simp del]

definition WMCountInArray :: "'a W_Array ptr \<Rightarrow> 'a ptr \<Rightarrow> int option" where
  "WMCountInArray array item = (case array of
     None \<Rightarrow> Some 0
   | Some a \<Rightarrow> do {
       xs \<leftarrow> items_from a 0;
       Some (fold (\<lambda>x c. if x = item then c + 1 else c) xs 0) })"

text \<open>
  \<open>qsort\<close> of the C library is the parameter \<open>qs\<close>: it gets the items and returns them in the
  order it leaves them in. What the code relies on is \<open>sorts_by\<close>: a permutation of the items,
  sorted for the comparison function.
\<close>

definition sorts_by :: "('a ptr \<Rightarrow> 'a ptr \<Rightarrow> int) \<Rightarrow> ('a ptr list \<Rightarrow> 'a ptr list) \<Rightarrow> bool" where
  "sorts_by cmp qs \<longleftrightarrow>
     (\<forall>xs. mset (qs xs) = mset xs \<and> sorted_wrt (\<lambda>x y. cmp x y \<le> 0) (qs xs))"

definition WMSortArray ::
  "('a ptr list \<Rightarrow> 'a ptr list) \<Rightarrow> 'a W_Array ptr \<Rightarrow> 'a W_Array ptr option" where
  "WMSortArray qs array = (case array of
     None \<Rightarrow> Some NULL
   | Some a \<Rightarrow>
       if itemCount a > 1 then do {
         xs \<leftarrow> items_from a 0;
         b \<leftarrow> mem_copy (items a) 0 (map Cell (qs xs)) 0 (itemCount a);
         Some (Some (a\<lparr>items := b\<rparr>)) }
       else Some (Some a))"

text \<open>The callback of \<open>WMMapArray\<close> transforms a state of its own; it does not change the array.\<close>

definition WMMapArray ::
  "'a W_Array ptr \<Rightarrow> ('a ptr \<Rightarrow> 's \<Rightarrow> 's) \<Rightarrow> 's \<Rightarrow> 's option" where
  "WMMapArray array f s = (case array of
     None \<Rightarrow> Some s
   | Some a \<Rightarrow> do { xs \<leftarrow> items_from a 0; Some (fold f xs s) })"

definition WMGetSubarrayWithRange :: "'a W_Array ptr \<Rightarrow> WMRange \<Rightarrow> 'a W_Array option" where
  "WMGetSubarrayWithRange array aRange = (case array of
     None \<Rightarrow> Some (WMCreateArray 0)
   | Some a \<Rightarrow>
       if count aRange \<le> 0 then Some (WMCreateArray 0)
       else do {
         let p = (if position aRange < 0 then 0 else position aRange);
         let p = (if p \<ge> itemCount a then itemCount a - 1 else p);
         let n = (if p + count aRange > itemCount a then itemCount a - p else count aRange);
         let newArray = WMCreateArray n;
         b \<leftarrow> mem_copy (items newArray) 0 (items a) p n;
         Some (newArray\<lparr>items := b, itemCount := n\<rparr>) })"

section \<open>Iterators\<close>

text \<open>The results: the new value of the iterator and the returned pointer.\<close>

definition WMArrayFirst :: "'a W_Array ptr \<Rightarrow> (int \<times> 'a ptr) option" where
  "WMArrayFirst array = (case array of
     None \<Rightarrow> Some (WANotFound, NULL)
   | Some a \<Rightarrow>
       if itemCount a = 0 then Some (WANotFound, NULL)
       else do { x \<leftarrow> cell_read (items a) 0; Some (0, x) })"

definition WMArrayLast :: "'a W_Array ptr \<Rightarrow> (int \<times> 'a ptr) option" where
  "WMArrayLast array = (case array of
     None \<Rightarrow> Some (WANotFound, NULL)
   | Some a \<Rightarrow>
       if itemCount a = 0 then Some (WANotFound, NULL)
       else do { x \<leftarrow> cell_read (items a) (itemCount a - 1); Some (itemCount a - 1, x) })"

definition WMArrayNext :: "'a W_Array ptr \<Rightarrow> int \<Rightarrow> (int \<times> 'a ptr) option" where
  "WMArrayNext array iter = (case array of
     None \<Rightarrow> Some (WANotFound, NULL)
   | Some a \<Rightarrow>
       if 0 \<le> iter \<and> iter < itemCount a - 1
       then do { x \<leftarrow> cell_read (items a) (iter + 1); Some (iter + 1, x) }
       else Some (WANotFound, NULL))"

definition WMArrayPrevious :: "'a W_Array ptr \<Rightarrow> int \<Rightarrow> (int \<times> 'a ptr) option" where
  "WMArrayPrevious array iter = (case array of
     None \<Rightarrow> Some (WANotFound, NULL)
   | Some a \<Rightarrow>
       if 0 < iter \<and> iter < itemCount a
       then do { x \<leftarrow> cell_read (items a) (iter - 1); Some (iter - 1, x) }
       else Some (WANotFound, NULL))"

section \<open>The abstraction\<close>

text \<open>
  The block starts with the items, as many as \<open>itemCount\<close> says, and is as long as \<open>allocSize\<close>
  says; what is behind the items does not matter.
\<close>

definition array_rep :: "'a W_Array \<Rightarrow> 'a ptr list \<Rightarrow> bool" where
  "array_rep a xs \<longleftrightarrow>
     (\<exists>junk. items a = map Cell xs @ junk \<and> itemCount a = int (length xs) \<and>
        allocSize a = int (length xs) + int (length junk) \<and> 0 < allocSize a)"

named_theorems array_laws \<open>what each operation does to the list an array holds\<close>

lemma array_repI:
  "items a = map Cell xs @ junk \<Longrightarrow> itemCount a = int (length xs) \<Longrightarrow>
   allocSize a = int (length xs) + int (length junk) \<Longrightarrow> 0 < allocSize a \<Longrightarrow> array_rep a xs"
  by (auto simp: array_rep_def)

lemma array_repE:
  assumes "array_rep a xs"
  obtains junk where "items a = map Cell xs @ junk" "itemCount a = int (length xs)"
    "allocSize a = int (length xs) + int (length junk)" "0 < allocSize a"
  using assms by (auto simp: array_rep_def)

lemma array_rep_count [array_laws]: "array_rep a xs \<Longrightarrow> itemCount a = int (length xs)"
  by (auto simp: array_rep_def)

text \<open>An array holds one list only.\<close>

lemma array_rep_unique: "array_rep a xs \<Longrightarrow> array_rep a ys \<Longrightarrow> xs = ys"
  by (auto simp: array_rep_def append_eq_append_conv inj_def dest: map_injective)

lemma array_rep_read [array_laws]:
  "array_rep a xs \<Longrightarrow> 0 \<le> i \<Longrightarrow> i < int (length xs) \<Longrightarrow>
   cell_read (items a) i = Some (xs ! nat i)"
  by (auto elim!: array_repE simp: block_simps)

lemma array_rep_create [array_laws]: "array_rep (WMCreateArray n) []"
  by (auto intro!: array_repI
      simp: WMCreateArray_def WMCreateArrayWithDestructor_def Let_def INITIAL_SIZE_def)

lemma array_rep_create_destructor [array_laws]:
  "array_rep (WMCreateArrayWithDestructor n d) []"
  "destructor (WMCreateArrayWithDestructor n d) = d"
  by (auto intro!: array_repI
      simp: WMCreateArrayWithDestructor_def Let_def INITIAL_SIZE_def)

section \<open>Growing and adding\<close>

lemma grow_array_rep:
  assumes "array_rep a xs"
  obtains c junk where "items (grow_array a) = map Cell xs @ c # junk"
    "itemCount (grow_array a) = int (length xs)"
    "allocSize (grow_array a) = int (length xs) + 1 + int (length junk)"
    "destructor (grow_array a) = destructor a"
proof -
  from assms obtain junk where a: "items a = map Cell xs @ junk" "itemCount a = int (length xs)"
    "allocSize a = int (length xs) + int (length junk)" "0 < allocSize a" by (rule array_repE)
  show ?thesis
  proof (cases junk)
    case Nil
    have "replicate 8 Undef = Undef # replicate 7 (Undef :: 'a ptr cell)"
      by (simp add: eval_nat_numeral)
    with Nil a show ?thesis
      by (intro that [of Undef "replicate 7 Undef"])
        (simp_all add: grow_array_def RESIZE_INCREMENT_def wrealloc_block_grow nat_add_distrib)
  next
    case (Cons c junk')
    with a show ?thesis by (intro that [of c junk']) (simp_all add: grow_array_def)
  qed
qed

lemma WMAddToArray_rep:
  assumes "array_rep a xs"
  obtains a' where "WMAddToArray (Some a) x = Some (Some a')" "array_rep a' (xs @ [x])"
    "destructor a' = destructor a"
proof -
  from assms obtain c junk where g: "items (grow_array a) = map Cell xs @ c # junk"
    "itemCount (grow_array a) = int (length xs)"
    "allocSize (grow_array a) = int (length xs) + 1 + int (length junk)"
    "destructor (grow_array a) = destructor a" by (rule grow_array_rep)
  define a' where "a' = (grow_array a)\<lparr>items := map Cell (xs @ [x]) @ junk,
    itemCount := int (length xs) + 1\<rparr>"
  have "WMAddToArray (Some a) x = Some (Some a')"
    using g by (simp add: WMAddToArray_def a'_def cell_write_end del: map_append)
  moreover have "array_rep a' (xs @ [x])"
    using g by (intro array_repI [where junk = junk]) (auto simp: a'_def)
  moreover have "destructor a' = destructor a" using g by (simp add: a'_def)
  ultimately show ?thesis by (rule that)
qed

lemma mem_copy_shift_up:
  assumes "i \<le> length xs"
  shows "\<exists>d. mem_copy (map Cell xs @ c # junk) (int i + 1) (map Cell xs @ c # junk) (int i)
           (int (length xs) - int i)
         = Some (map Cell (take i xs) @ d # map Cell (drop i xs) @ junk)"
proof -
  let ?b = "map Cell xs @ c # junk"
  have n: "nat (int (length xs) - int i) = length xs - i" "nat (int i + 1) = Suc i"
    "nat (int i + 1 + (int (length xs) - int i)) = Suc (length xs)" using assms by auto
  have "take (length xs - i) (drop i ?b) = map Cell (drop i xs)"
    using assms by (simp add: take_map drop_map)
  moreover have "drop (Suc (length xs)) ?b = junk" by simp
  moreover have "take (Suc i) ?b = map Cell (take i xs) @ [?b ! i]"
  proof -
    have "take (Suc i) ?b = take i ?b @ [?b ! i]" using assms by (intro take_Suc_conv_app_nth) simp
    then show ?thesis using assms by (simp add: take_map)
  qed
  ultimately show ?thesis using assms n by (simp add: mem_copy_def)
qed

lemma mem_copy_shift_down:
  assumes "i < length xs"
  shows "\<exists>c. mem_copy (map Cell xs @ junk) (int i) (map Cell xs @ junk) (int i + 1)
           (int (length xs) - int i - 1)
         = Some (map Cell (take i xs @ drop (Suc i) xs) @ c # junk)"
proof -
  let ?b = "map Cell xs @ junk"
  have n: "nat (int (length xs) - int i - 1) = length xs - Suc i" "nat (int i + 1) = Suc i"
    "nat (int i + (int (length xs) - int i - 1)) = length xs - 1" using assms by auto
  have "take (length xs - Suc i) (drop (Suc i) ?b) = map Cell (drop (Suc i) xs)"
    using assms by (simp add: take_map drop_map)
  moreover have "drop (length xs - 1) ?b = Cell (xs ! (length xs - 1)) # junk"
  proof -
    have "drop (length xs - 1) xs = [xs ! (length xs - 1)]"
      using assms by (simp add: Cons_nth_drop_Suc [symmetric])
    then show ?thesis by (simp add: drop_map)
  qed
  moreover have "take i ?b = map Cell (take i xs)" using assms by (simp add: take_map)
  ultimately show ?thesis using assms n by (simp add: mem_copy_def)
qed

lemma WMInsertInArray_rep:
  assumes "array_rep a xs" "i \<le> length xs"
  obtains a' where "WMInsertInArray (Some a) (int i) x = Some (Some a')"
    "array_rep a' (take i xs @ x # drop i xs)" "destructor a' = destructor a"
proof -
  from assms(1) obtain c junk where g: "items (grow_array a) = map Cell xs @ c # junk"
    "itemCount (grow_array a) = int (length xs)"
    "allocSize (grow_array a) = int (length xs) + 1 + int (length junk)"
    "destructor (grow_array a) = destructor a" by (rule grow_array_rep)
  from mem_copy_shift_up [OF assms(2)] obtain d where
    d: "mem_copy (map Cell xs @ c # junk) (int i + 1) (map Cell xs @ c # junk) (int i)
          (int (length xs) - int i) = Some (map Cell (take i xs) @ d # map Cell (drop i xs) @ junk)"
    by blast
  define a' where "a' = (grow_array a)\<lparr>items := map Cell (take i xs @ x # drop i xs) @ junk,
    itemCount := int (length xs) + 1\<rparr>"
  note count = array_rep_count [OF assms(1)]
  have w: "cell_write (map Cell (take i xs) @ e # rest) (int i) x
      = Some (map Cell (take i xs) @ Cell x # rest)" for e rest
    using cell_write_end [of "take i xs" e rest x] assms(2) by (simp add: min_absorb2)
  have "WMInsertInArray (Some a) (int i) x = Some (Some a')"
  proof (cases "i < length xs")
    case True
    then show ?thesis
      by (simp add: WMInsertInArray_def a'_def count g d w del: drop_map take_map)
  next
    case False
    with assms(2) have "i = length xs" by simp
    then show ?thesis
      by (simp add: WMInsertInArray_def a'_def count g cell_write_end)
  qed
  moreover have "array_rep a' (take i xs @ x # drop i xs)"
    using g assms(2) by (intro array_repI [where junk = junk]) (auto simp: a'_def)
  moreover have "destructor a' = destructor a" using g by (simp add: a'_def)
  ultimately show ?thesis by (rule that)
qed

lemma WMInsertInArray_out_of_range:
  "array_rep a xs \<Longrightarrow> i < 0 \<or> int (length xs) < i \<Longrightarrow>
   WMInsertInArray (Some a) i x = Some (Some a)"
  by (auto simp: WMInsertInArray_def array_rep_count)

lemma WMReplaceInArray_rep:
  assumes "array_rep a xs" "i < length xs"
  obtains a' where "WMReplaceInArray (Some a) (int i) x = Some (Some a', xs ! i)"
    "array_rep a' (xs[i := x])" "destructor a' = destructor a"
proof -
  from assms(1) obtain junk where a: "items a = map Cell xs @ junk"
    "itemCount a = int (length xs)" "allocSize a = int (length xs) + int (length junk)"
    "0 < allocSize a" by (rule array_repE)
  define a' where "a' = a\<lparr>items := map Cell (xs[i := x]) @ junk\<rparr>"
  have "WMReplaceInArray (Some a) (int i) x = Some (Some a', xs ! i)"
    using a assms(2) by (simp add: WMReplaceInArray_def a'_def block_simps)
  moreover have "array_rep a' (xs[i := x])"
    using a by (intro array_repI [where junk = junk]) (auto simp: a'_def)
  moreover have "destructor a' = destructor a" by (simp add: a'_def)
  ultimately show ?thesis by (rule that)
qed

section \<open>Removing\<close>

lemma WMDeleteFromArray_rep:
  assumes "array_rep a xs" "i < length xs"
  obtains a' where
    "WMDeleteFromArray (Some a) (int i) =
       Some (Some a', 1, if destructor a then [xs ! i] else [])"
    "array_rep a' (take i xs @ drop (Suc i) xs)" "destructor a' = destructor a"
proof -
  from assms(1) obtain junk where a: "items a = map Cell xs @ junk"
    "itemCount a = int (length xs)" "allocSize a = int (length xs) + int (length junk)"
    "0 < allocSize a" by (rule array_repE)
  from mem_copy_shift_down [OF assms(2)] obtain c where
    c: "mem_copy (map Cell xs @ junk) (int i) (map Cell xs @ junk) (int i + 1)
          (int (length xs) - int i - 1) = Some (map Cell (take i xs @ drop (Suc i) xs) @ c # junk)"
    by blast
  show ?thesis
  proof (cases "Suc i < length xs")
    case True
    define a' where "a' = a\<lparr>items := map Cell (take i xs @ drop (Suc i) xs) @ c # junk,
      itemCount := itemCount a - 1\<rparr>"
    have "WMDeleteFromArray (Some a) (int i) =
        Some (Some a', 1, if destructor a then [xs ! i] else [])"
      using a c True by (simp add: WMDeleteFromArray_def a'_def block_simps)
    moreover have "array_rep a' (take i xs @ drop (Suc i) xs)"
      using a assms(2) by (intro array_repI [where junk = "c # junk"]) (auto simp: a'_def)
    moreover have "destructor a' = destructor a" by (simp add: a'_def)
    ultimately show ?thesis by (rule that)
  next
    case False
    with assms(2) have i: "length xs = Suc i" by simp
    then have xs: "xs = take i xs @ [xs ! i]" by (simp add: take_Suc_conv_app_nth [symmetric])
    define a' where "a' = a\<lparr>itemCount := itemCount a - 1\<rparr>"
    have "WMDeleteFromArray (Some a) (int i) =
        Some (Some a', 1, if destructor a then [xs ! i] else [])"
      using a i by (simp add: WMDeleteFromArray_def a'_def block_simps)
    moreover have "items a = map Cell (take i xs) @ Cell (xs ! i) # junk"
      using a xs by (metis (no_types) append.assoc append_Cons append_Nil list.simps(8,9) map_append)
    then have "array_rep a' (take i xs)"
      using a i by (intro array_repI [where junk = "Cell (xs ! i) # junk"]) (auto simp: a'_def)
    then have "array_rep a' (take i xs @ drop (Suc i) xs)" using i by simp
    moreover have "destructor a' = destructor a" by (simp add: a'_def)
    ultimately show ?thesis by (rule that)
  qed
qed

lemma WMDeleteFromArray_out_of_range:
  "array_rep a xs \<Longrightarrow> i < 0 \<or> int (length xs) \<le> i \<Longrightarrow>
   WMDeleteFromArray (Some a) i = Some (Some a, 0, [])"
  by (auto simp: WMDeleteFromArray_def array_rep_count)

lemma WMPopFromArray_rep:
  assumes "array_rep a (xs @ [x])"
  obtains a' where "WMPopFromArray (Some a) = Some (Some a', x)" "array_rep a' xs"
    "destructor a' = destructor a"
proof -
  from assms obtain junk where a: "items a = map Cell (xs @ [x]) @ junk"
    "itemCount a = int (length (xs @ [x]))"
    "allocSize a = int (length (xs @ [x])) + int (length junk)" "0 < allocSize a"
    by (rule array_repE)
  define a' where "a' = a\<lparr>itemCount := itemCount a - 1\<rparr>"
  have "cell_read (items a) (int (length xs)) = Some x"
    using array_rep_read [OF assms, of "int (length xs)"] by (simp add: nth_append)
  then have "WMPopFromArray (Some a) = Some (Some a', x)"
    using a(2) by (simp add: WMPopFromArray_def a'_def)
  moreover have "array_rep a' xs"
    using a by (intro array_repI [where junk = "Cell x # junk"]) (auto simp: a'_def)
  moreover have "destructor a' = destructor a" by (simp add: a'_def)
  ultimately show ?thesis by (rule that)
qed

lemma WMPopFromArray_empty: "array_rep a [] \<Longrightarrow> WMPopFromArray (Some a) = Some (Some a, NULL)"
  by (simp add: WMPopFromArray_def array_rep_count)

section \<open>Searching\<close>

text \<open>The index the search loops return: of the first match, or \<open>WANotFound\<close>.\<close>

definition first_index :: "('x \<Rightarrow> bool) \<Rightarrow> 'x list \<Rightarrow> int" where
  "first_index m xs =
     (if \<exists>x \<in> set xs. m x then int (length (takeWhile (\<lambda>x. \<not> m x) xs)) else WANotFound)"

lemma takeWhile_length_less: "\<exists>x \<in> set xs. m x \<Longrightarrow> length (takeWhile (\<lambda>x. \<not> m x) xs) < length xs"
  by (induction xs) auto

lemma first_index_found:
  assumes "first_index m xs \<noteq> WANotFound"
  shows "\<exists>i < length xs. first_index m xs = int i \<and> m (xs ! i) \<and> (\<forall>j < i. \<not> m (xs ! j))"
proof -
  from assms have ex: "\<exists>x \<in> set xs. m x" by (auto simp: first_index_def split: if_splits)
  let ?i = "length (takeWhile (\<lambda>x. \<not> m x) xs)"
  have i: "?i < length xs" using ex by (rule takeWhile_length_less)
  moreover have "m (xs ! ?i)" using nth_length_takeWhile [OF i] by simp
  moreover have "\<forall>j < ?i. \<not> m (xs ! j)"
    using nth_mem takeWhile_nth set_takeWhileD by metis
  ultimately show ?thesis using ex by (auto simp: first_index_def)
qed

lemma first_index_not_found: "first_index m xs = WANotFound \<longleftrightarrow> (\<forall>x \<in> set xs. \<not> m x)"
  by (auto simp: first_index_def WANotFound_def)

lemma first_index_Cons:
  "first_index m (x # xs) =
     (if m x then 0 else if first_index m xs = WANotFound then WANotFound
      else first_index m xs + 1)"
  by (auto simp: first_index_def WANotFound_def)

lemma first_index_ge: "- 1 \<le> first_index m xs"
  by (simp add: first_index_def WANotFound_def)

lemma find_from_rep:
  assumes "array_rep a xs"
  shows "i \<le> length xs \<Longrightarrow> find_from a m (int i) =
     Some (if first_index m (drop i xs) = WANotFound then WANotFound
           else int i + first_index m (drop i xs))"
proof (induction "length xs - i" arbitrary: i)
  case 0
  then show ?case
    using assms by (simp add: find_from.simps array_rep_count first_index_def)
next
  case (Suc n)
  then have i: "i < length xs" by simp
  then have d: "drop i xs = xs ! i # drop (Suc i) xs" by (simp add: Cons_nth_drop_Suc)
  have r: "cell_read (items a) (int i) = Some (xs ! i)"
    using array_rep_read [OF assms, of "int i"] i by simp
  have IH: "find_from a m (int (Suc i)) =
     Some (if first_index m (drop (Suc i) xs) = WANotFound then WANotFound
           else int (Suc i) + first_index m (drop (Suc i) xs))"
    using Suc i by (intro Suc.hyps) auto
  show ?case
    using i r IH assms first_index_ge [of m "drop (Suc i) xs"]
    by (subst find_from.simps)
      (auto simp: array_rep_count d first_index_Cons WANotFound_def add.commute)
qed

lemma WMFindInArray_rep:
  "array_rep a xs \<Longrightarrow>
   WMFindInArray (Some a) match cdata = Some (first_index (item_matches match cdata) xs)"
  using find_from_rep [of a xs 0] by (simp add: WMFindInArray_def)

lemma WMRemoveFromArrayMatching_found:
  assumes "array_rep a (ys @ x # zs)" "item_matches match cdata x"
    "\<forall>y \<in> set ys. \<not> item_matches match cdata y"
  obtains a' where
    "WMRemoveFromArrayMatching (Some a) match cdata =
       Some (Some a', 1, if destructor a then [x] else [])"
    "array_rep a' (ys @ zs)" "destructor a' = destructor a"
proof -
  let ?m = "item_matches match cdata"
  have "first_index ?m (ys @ x # zs) = int (length ys)"
    using assms(2,3) by (simp add: first_index_def takeWhile_append2)
  then have f: "find_from a ?m 0 = Some (int (length ys))"
    using find_from_rep [OF assms(1), of 0 ?m] by simp
  from assms(1) obtain a' where
    a': "WMDeleteFromArray (Some a) (int (length ys)) =
       Some (Some a', 1, if destructor a then [(ys @ x # zs) ! length ys] else [])"
    "array_rep a' (take (length ys) (ys @ x # zs) @ drop (Suc (length ys)) (ys @ x # zs))"
    "destructor a' = destructor a"
    by (rule WMDeleteFromArray_rep [where i = "length ys"]) simp_all
  show ?thesis
    using a' f by (intro that [of a']) (simp_all add: WMRemoveFromArrayMatching_def WANotFound_def)
qed

lemma WMRemoveFromArrayMatching_none:
  assumes "array_rep a xs" "\<forall>y \<in> set xs. \<not> item_matches match cdata y"
  shows "WMRemoveFromArrayMatching (Some a) match cdata = Some (Some a, 0, [])"
proof -
  have "find_from a (item_matches match cdata) 0 = Some WANotFound"
    using find_from_rep [OF assms(1), of 0] assms(2) by (simp add: first_index_def)
  then show ?thesis by (simp add: WMRemoveFromArrayMatching_def)
qed

section \<open>Reading and visiting\<close>

lemma WMGetFromArray_rep:
  "array_rep a xs \<Longrightarrow> WMGetFromArray (Some a) i =
     Some (if 0 \<le> i \<and> i < int (length xs) then xs ! nat i else NULL)"
  by (auto simp: WMGetFromArray_def array_rep_count array_rep_read)

lemma items_from_rep:
  assumes "array_rep a xs"
  shows "i \<le> length xs \<Longrightarrow> items_from a (int i) = Some (drop i xs)"
proof (induction "length xs - i" arbitrary: i)
  case 0
  then show ?case using assms by (simp add: items_from.simps array_rep_count)
next
  case (Suc n)
  then have i: "i < length xs" by simp
  have r: "cell_read (items a) (int i) = Some (xs ! i)"
    using array_rep_read [OF assms, of "int i"] i by simp
  have IH: "items_from a (int (Suc i)) = Some (drop (Suc i) xs)"
    using Suc i by (intro Suc.hyps) auto
  show ?case
    using i r IH assms
    by (subst items_from.simps) (simp add: array_rep_count add.commute Cons_nth_drop_Suc)
qed

lemma items_from_0: "array_rep a xs \<Longrightarrow> items_from a 0 = Some xs"
  using items_from_rep [of a xs 0] by simp

lemma fold_count: "fold (\<lambda>x c. if x = y then c + 1 else c) xs c = c + int (count_list xs y)"
  by (induction xs arbitrary: c) auto

lemma WMCountInArray_rep:
  "array_rep a xs \<Longrightarrow> WMCountInArray (Some a) y = Some (int (count_list xs y))"
  by (simp add: WMCountInArray_def items_from_0 fold_count)

lemma WMMapArray_rep: "array_rep a xs \<Longrightarrow> WMMapArray (Some a) f s = Some (fold f xs s)"
  by (simp add: WMMapArray_def items_from_0)

lemma mem_copy_whole_prefix:
  "length ys = length xs \<Longrightarrow>
   mem_copy (map Cell xs @ junk) 0 (map Cell ys) 0 (int (length xs)) = Some (map Cell ys @ junk)"
  by (simp add: mem_copy_def)

lemma WMSortArray_rep:
  assumes "array_rep a xs" "sorts_by cmp qs"
  obtains a' ys where "WMSortArray qs (Some a) = Some (Some a')" "array_rep a' ys"
    "mset ys = mset xs" "sorted_wrt (\<lambda>x y. cmp x y \<le> 0) ys" "destructor a' = destructor a"
proof (cases "length xs > 1")
  case True
  from assms(1) obtain junk where a: "items a = map Cell xs @ junk"
    "itemCount a = int (length xs)" "allocSize a = int (length xs) + int (length junk)"
    "0 < allocSize a" by (rule array_repE)
  from assms(2) have q: "mset (qs xs) = mset xs" "sorted_wrt (\<lambda>x y. cmp x y \<le> 0) (qs xs)"
    by (simp_all add: sorts_by_def)
  from q(1) have len: "length (qs xs) = length xs" by (rule mset_eq_length)
  define a' where "a' = a\<lparr>items := map Cell (qs xs) @ junk\<rparr>"
  have "WMSortArray qs (Some a) = Some (Some a')"
    using True a len items_from_0 [OF assms(1)]
    by (simp add: WMSortArray_def a'_def mem_copy_whole_prefix)
  moreover have "array_rep a' (qs xs)"
    using a len by (intro array_repI [where junk = junk]) (auto simp: a'_def)
  moreover have "destructor a' = destructor a" by (simp add: a'_def)
  ultimately show ?thesis using q by (intro that [of a' "qs xs"])
next
  case False
  then have "sorted_wrt (\<lambda>x y. cmp x y \<le> 0) xs" by (cases xs rule: list.exhaust) auto
  moreover have "WMSortArray qs (Some a) = Some (Some a)"
    using False assms(1) by (simp add: WMSortArray_def array_rep_count)
  ultimately show ?thesis using assms(1) by (intro that [of a xs]) simp_all
qed

section \<open>Appending, copying, emptying, sub-arrays\<close>

lemma mem_copy_append_items:
  "mem_copy (map Cell xs @ ja) (int (length xs)) (map Cell ys @ jb) 0 (int (length ys)) =
   (if length ys \<le> length ja then Some (map Cell (xs @ ys) @ drop (length ys) ja) else None)"
  by (auto simp: mem_copy_def nat_add_distrib)

lemma WMAppendArray_rep:
  assumes "array_rep a xs" "array_rep b ys"
  obtains a' where "WMAppendArray (Some a) (Some b) = Some (Some a')" "array_rep a' (xs @ ys)"
    "destructor a' = destructor a"
proof (cases "ys = []")
  case True
  then show ?thesis using assms by (intro that [of a]) (simp_all add: WMAppendArray_def array_rep_count)
next
  case False
  from assms(1) obtain ja where a: "items a = map Cell xs @ ja" "itemCount a = int (length xs)"
    "allocSize a = int (length xs) + int (length ja)" "0 < allocSize a" by (rule array_repE)
  from assms(2) obtain jb where b: "items b = map Cell ys @ jb" "itemCount b = int (length ys)"
    "allocSize b = int (length ys) + int (length jb)" "0 < allocSize b" by (rule array_repE)
  define grow where "grow \<longleftrightarrow> itemCount a + itemCount b > allocSize a"
  define ja' where "ja' = (if grow then ja @ replicate (length ys + length jb) Undef else ja)"
  define a' where "a' = a\<lparr>items := map Cell (xs @ ys) @ drop (length ys) ja',
    itemCount := itemCount a + itemCount b,
    allocSize := (if grow then allocSize a + allocSize b else allocSize a)\<rparr>"
  have long: "length ys \<le> length ja'" using a b by (auto simp: ja'_def grow_def)
  have blk: "wrealloc_block (items a) (allocSize a + allocSize b)
      = map Cell xs @ ja @ replicate (length ys + length jb) Undef"
    using a b by (simp add: wrealloc_block_grow nat_add_distrib)
  have "WMAppendArray (Some a) (Some b) = Some (Some a')"
  proof (cases grow)
    case True
    then show ?thesis
      using False a(2) b long blk
        mem_copy_append_items [of xs "ja @ replicate (length ys + length jb) Undef" ys jb]
      by (simp add: WMAppendArray_def a'_def ja'_def grow_def)
  next
    case g: False
    then show ?thesis
      using False a b long mem_copy_append_items [of xs ja ys jb]
      by (simp add: WMAppendArray_def a'_def ja'_def grow_def)
  qed
  moreover have "array_rep a' (xs @ ys)"
    using a b long by (intro array_repI [where junk = "drop (length ys) ja'"])
      (auto simp: a'_def ja'_def)
  moreover have "destructor a' = destructor a" by (simp add: a'_def)
  ultimately show ?thesis by (rule that)
qed

lemma WMCreateArrayWithArray_rep:
  assumes "array_rep a xs"
  obtains a' where "WMCreateArrayWithArray a = Some a'" "array_rep a' xs" "\<not> destructor a'"
proof -
  from assms obtain junk where a: "items a = map Cell xs @ junk"
    "itemCount a = int (length xs)" "allocSize a = int (length xs) + int (length junk)"
    "0 < allocSize a" by (rule array_repE)
  let ?junk = "replicate (length junk) (Cell NULL)"
  have "mem_copy (wmalloc_block NULL (allocSize a)) 0 (items a) 0 (itemCount a)
      = Some (map Cell xs @ ?junk)"
    using a by (simp add: mem_copy_def wmalloc_block_def nat_add_distrib)
  then show ?thesis
    using a by (intro that [of "\<lparr>items = map Cell xs @ ?junk, itemCount = itemCount a,
        allocSize = allocSize a, destructor = False\<rparr>"])
      (auto simp: WMCreateArrayWithArray_def intro!: array_repI)
qed

lemma destroy_items_rep:
  "n \<le> length xs \<Longrightarrow> destroy_items (map Cell xs @ junk) n = Some (rev (take n xs))"
  by (induction n) (auto simp: block_simps take_Suc_conv_app_nth)

lemma WMEmptyArray_rep:
  assumes "array_rep a xs"
  obtains a' where "WMEmptyArray a = Some (a', if destructor a then rev xs else [])"
    "array_rep a' []" "destructor a' = destructor a"
proof -
  from assms obtain junk where a: "items a = map Cell xs @ junk"
    "itemCount a = int (length xs)" "allocSize a = int (length xs) + int (length junk)"
    "0 < allocSize a" by (rule array_repE)
  show ?thesis
    using a by (intro that [of "a\<lparr>itemCount := 0\<rparr>"])
      (auto simp: WMEmptyArray_def destroy_items_rep intro!: array_repI [where junk = "items a"])
qed

lemma WMFreeArray_rep:
  assumes "array_rep a xs"
  shows "WMFreeArray (Some a) = Some (if destructor a then rev xs else [])"
proof -
  from assms obtain a' where "WMEmptyArray a = Some (a', if destructor a then rev xs else [])"
    by (rule WMEmptyArray_rep)
  then show ?thesis by (simp add: WMFreeArray_def)
qed

text \<open>The range is clipped to the array, which has to hold something.\<close>

definition clip_range :: "int \<Rightarrow> int \<Rightarrow> 'x list \<Rightarrow> 'x list" where
  "clip_range p n xs =
     (let q = min (max p 0) (int (length xs) - 1) in take (nat n) (drop (nat q) xs))"

lemma mem_copy_fresh:
  assumes "k + l \<le> length xs"
  shows "mem_copy (wmalloc_block NULL (int l)) 0 (map Cell xs @ junk) (int k) (int l) =
    Some (map Cell (take l (drop k xs)))"
proof -
  have "take l (drop k (map Cell xs @ junk)) = map Cell (take l (drop k xs))"
    using assms by (simp add: take_map drop_map)
  then show ?thesis using assms by (simp add: mem_copy_def wmalloc_block_def)
qed

lemma clipped_start:
  "1 \<le> (n :: int) \<Longrightarrow>
   (if (if p < 0 then 0 else p) \<ge> n then n - 1 else (if p < 0 then 0 else p))
     = min (max p 0) (n - 1)"
  by auto

lemma clipped_length:
  "(if q + c > (n :: int) then n - q else c) = min c (n - q)"
  by auto

lemma WMGetSubarrayWithRange_rep:
  assumes "array_rep a xs" "xs \<noteq> []" "0 < count r"
  obtains a' where "WMGetSubarrayWithRange (Some a) r = Some a'"
    "array_rep a' (clip_range (position r) (count r) xs)" "\<not> destructor a'"
proof -
  from assms(1) obtain junk where a: "items a = map Cell xs @ junk"
    "itemCount a = int (length xs)" by (rule array_repE)
  from assms(2) have pos: "1 \<le> int (length xs)" by (cases xs) auto
  define k where "k = nat (min (max (position r) 0) (int (length xs) - 1))"
  have k: "int k = min (max (position r) 0) (int (length xs) - 1)" "k < length xs"
    using pos by (auto simp: k_def)
  define l where "l = nat (min (count r) (int (length xs) - int k))"
  have l: "int l = min (count r) (int (length xs) - int k)" "0 < l" "k + l \<le> length xs"
    using k(2) assms(3) by (auto simp: l_def)
  have ys: "clip_range (position r) (count r) xs = take l (drop k xs)"
    by (cases "count r \<le> int (length xs) - int k")
      (simp_all add: clip_range_def Let_def k(1) [symmetric] l_def del: of_nat_min)
  define a' where "a' = (WMCreateArray (int l))\<lparr>items := map Cell (take l (drop k xs)),
    itemCount := int l\<rparr>"
  have c: "items (WMCreateArray (int l)) = (wmalloc_block NULL (int l) :: 'a ptr block)"
    "allocSize (WMCreateArray (int l)) = int l" "\<not> destructor (WMCreateArray (int l))"
    using l(2) by (simp_all add: WMCreateArray_def WMCreateArrayWithDestructor_def Let_def)
  note start = clipped_start [OF pos, where p = "position r", folded k(1)]
  note len = clipped_length [where q = "int k" and c = "count r" and n = "int (length xs)",
      folded l(1)]
  have "mem_copy (items (WMCreateArray (int l))) 0 (items a) (int k) (int l)
      = Some (map Cell (take l (drop k xs)))"
    using a(1) c(1) l(3) by (simp add: mem_copy_fresh)
  then have "WMGetSubarrayWithRange (Some a) r = Some a'"
    using assms(3) unfolding WMGetSubarrayWithRange_def Let_def a(2) option.case start len
    by (simp add: a'_def)
  moreover have "array_rep a' (take l (drop k xs))"
    using c l by (intro array_repI [where junk = "[]"]) (auto simp: a'_def)
  moreover have "\<not> destructor a'" using c by (simp add: a'_def)
  ultimately show ?thesis using ys by (intro that [of a']) simp_all
qed

text \<open>On an array that holds nothing the clipped start is index \<open>-1\<close>, outside the block.\<close>

lemma WMGetSubarrayWithRange_empty:
  assumes "array_rep a []" "0 < count r"
  shows "WMGetSubarrayWithRange (Some a) r = None"
  using assms by (simp add: WMGetSubarrayWithRange_def array_rep_count Let_def mem_copy_def)

section \<open>Iterating\<close>

text \<open>\<open>WM_ITERATE_ARRAY\<close> and \<open>WM_ETARETI_ARRAY\<close>: the pointers the loop variable goes through.\<close>

function iterate_from :: "'a W_Array \<Rightarrow> (int \<times> 'a ptr) option \<Rightarrow> 'a ptr list option" where
  "iterate_from a r = (case r of
     None \<Rightarrow> None
   | Some (i, var) \<Rightarrow>
       if i = WANotFound then Some []
       else do { rest \<leftarrow> iterate_from a (WMArrayNext (Some a) i); Some (var # rest) })"
  by pat_completeness auto
termination
  by (relation "measure (\<lambda>(a, r). case r of None \<Rightarrow> 0 | Some (i, var) \<Rightarrow>
        if i = WANotFound then 0 else Suc (nat (itemCount a - i)))")
    (auto simp: WMArrayNext_def WANotFound_def bind_eq_Some_conv split: option.splits if_splits)

declare iterate_from.simps [simp del]

function etareti_from :: "'a W_Array \<Rightarrow> (int \<times> 'a ptr) option \<Rightarrow> 'a ptr list option" where
  "etareti_from a r = (case r of
     None \<Rightarrow> None
   | Some (i, var) \<Rightarrow>
       if i = WANotFound then Some []
       else do { rest \<leftarrow> etareti_from a (WMArrayPrevious (Some a) i); Some (var # rest) })"
  by pat_completeness auto
termination
  by (relation "measure (\<lambda>(a, r). case r of None \<Rightarrow> 0 | Some (i, var) \<Rightarrow>
        if i = WANotFound then 0 else Suc (nat (i + 1)))")
    (auto simp: WMArrayPrevious_def WANotFound_def bind_eq_Some_conv split: option.splits if_splits)

declare etareti_from.simps [simp del]

definition WM_ITERATE_ARRAY :: "'a W_Array \<Rightarrow> 'a ptr list option" where
  "WM_ITERATE_ARRAY a = iterate_from a (WMArrayFirst (Some a))"

definition WM_ETARETI_ARRAY :: "'a W_Array \<Rightarrow> 'a ptr list option" where
  "WM_ETARETI_ARRAY a = etareti_from a (WMArrayLast (Some a))"

lemma iterate_from_rep:
  assumes "array_rep a xs"
  shows "i < length xs \<Longrightarrow> iterate_from a (Some (int i, xs ! i)) = Some (drop i xs)"
proof (induction "length xs - i" arbitrary: i)
  case 0
  then show ?case by simp
next
  case (Suc n)
  have d: "drop i xs = xs ! i # drop (Suc i) xs" using Suc.prems by (simp add: Cons_nth_drop_Suc)
  show ?case
  proof (cases "Suc i < length xs")
    case True
    have r: "cell_read (items a) (int i + 1) = Some (xs ! Suc i)"
      using array_rep_read [OF assms, of "int i + 1"] True by (simp add: nat_add_distrib)
    have "iterate_from a (Some (int (Suc i), xs ! Suc i)) = Some (drop (Suc i) xs)"
      using Suc True by (intro Suc.hyps) auto
    then show ?thesis
      using True r assms
      by (subst iterate_from.simps)
        (simp add: WMArrayNext_def array_rep_count WANotFound_def d add.commute)
  next
    case False
    then show ?thesis
      using Suc.prems assms
      by (subst iterate_from.simps)
        (simp add: WMArrayNext_def array_rep_count WANotFound_def d iterate_from.simps)
  qed
qed

lemma etareti_from_rep:
  assumes "array_rep a xs"
  shows "i < length xs \<Longrightarrow> etareti_from a (Some (int i, xs ! i)) = Some (rev (take (Suc i) xs))"
proof (induction i)
  case 0
  then show ?case
    using assms by (subst etareti_from.simps)
      (simp add: WMArrayPrevious_def array_rep_count WANotFound_def etareti_from.simps
        take_Suc_conv_app_nth)
next
  case (Suc i)
  have r: "cell_read (items a) (int i) = Some (xs ! i)"
    using array_rep_read [OF assms, of "int i"] Suc.prems by simp
  from Suc show ?case
    using r assms
    by (subst etareti_from.simps)
      (simp add: WMArrayPrevious_def array_rep_count WANotFound_def take_Suc_conv_app_nth [of "Suc i"])
qed

lemma WM_ITERATE_ARRAY_rep: "array_rep a xs \<Longrightarrow> WM_ITERATE_ARRAY a = Some xs"
  using iterate_from_rep [of a xs 0] array_rep_read [of a xs 0]
  by (cases "xs = []")
    (simp_all add: WM_ITERATE_ARRAY_def WMArrayFirst_def array_rep_count iterate_from.simps
      [of a "Some (WANotFound, NULL)"])

lemma WM_ETARETI_ARRAY_rep:
  assumes "array_rep a xs"
  shows "WM_ETARETI_ARRAY a = Some (rev xs)"
proof (cases "xs = []")
  case True
  then show ?thesis
    using assms by (simp add: WM_ETARETI_ARRAY_def WMArrayLast_def array_rep_count
        etareti_from.simps [of a "Some (WANotFound, NULL)"])
next
  case False
  define n where "n = length xs - 1"
  have n: "n < length xs" "int (length xs) - 1 = int n" "take (Suc n) xs = xs"
    using False by (cases xs; simp add: n_def)+
  show ?thesis
    using False n etareti_from_rep [OF assms n(1)] array_rep_read [OF assms, of "int n"] assms
    by (simp add: WM_ETARETI_ARRAY_def WMArrayLast_def array_rep_count)
qed

section \<open>Sequences of operations\<close>

text \<open>The operations of a client that adds, inserts, replaces, deletes, pops and empties.\<close>

datatype 'a array_op =
    Add "'a ptr"
  | Insert int "'a ptr"
  | Replace int "'a ptr"
  | Delete int
  | Pop
  | Empty

fun array_step :: "'a array_op \<Rightarrow> 'a W_Array \<Rightarrow> 'a W_Array option" where
  "array_step (Add x) a = WMAddToArray (Some a) x \<bind> id"
| "array_step (Insert i x) a = WMInsertInArray (Some a) i x \<bind> id"
| "array_step (Replace i x) a = do { (a', _) \<leftarrow> WMReplaceInArray (Some a) i x; a' }"
| "array_step (Delete i) a = do { (a', _, _) \<leftarrow> WMDeleteFromArray (Some a) i; a' }"
| "array_step Pop a = do { (a', _) \<leftarrow> WMPopFromArray (Some a); a' }"
| "array_step Empty a = do { (a', _) \<leftarrow> WMEmptyArray a; Some a' }"

fun array_run :: "'a array_op list \<Rightarrow> 'a W_Array \<Rightarrow> 'a W_Array option" where
  "array_run [] a = Some a"
| "array_run (f # fs) a = array_step f a \<bind> array_run fs"

text \<open>The same operations on a list; an index out of range changes nothing.\<close>

fun list_step :: "'a array_op \<Rightarrow> 'a ptr list \<Rightarrow> 'a ptr list" where
  "list_step (Add x) xs = xs @ [x]"
| "list_step (Insert i x) xs =
     (if 0 \<le> i \<and> i \<le> int (length xs) then take (nat i) xs @ x # drop (nat i) xs else xs)"
| "list_step (Replace i x) xs =
     (if 0 \<le> i \<and> i < int (length xs) then xs[nat i := x]
      else if i = int (length xs) then xs @ [x] else xs)"
| "list_step (Delete i) xs =
     (if 0 \<le> i \<and> i < int (length xs) then take (nat i) xs @ drop (Suc (nat i)) xs else xs)"
| "list_step Pop xs = butlast xs"
| "list_step Empty xs = []"

lemma WMReplaceInArray_end:
  "array_rep a xs \<Longrightarrow> WMReplaceInArray (Some a) (int (length xs)) x =
     do { a' \<leftarrow> WMAddToArray (Some a) x; Some (a', NULL) }"
  by (simp add: WMReplaceInArray_def array_rep_count)

lemma WMReplaceInArray_out_of_range:
  "array_rep a xs \<Longrightarrow> i < 0 \<or> int (length xs) < i \<Longrightarrow>
   WMReplaceInArray (Some a) i x = Some (Some a, NULL)"
  by (auto simp: WMReplaceInArray_def array_rep_count)

lemma array_step_refines:
  assumes "array_rep a xs"
  shows "\<exists>a'. array_step f a = Some a' \<and> array_rep a' (list_step f xs)"
proof (cases f)
  case (Add x)
  from assms show ?thesis by (rule WMAddToArray_rep [of a xs x]) (simp add: Add)
next
  case (Insert i x)
  show ?thesis
  proof (cases "0 \<le> i \<and> i \<le> int (length xs)")
    case True
    then have "nat i \<le> length xs" "int (nat i) = i" by auto
    with assms True show ?thesis
      by (auto elim!: WMInsertInArray_rep [of a xs "nat i" x] simp: Insert)
  next
    case False
    with assms show ?thesis by (auto simp: Insert WMInsertInArray_out_of_range)
  qed
next
  case (Replace i x)
  consider "0 \<le> i" "i < int (length xs)" | "i = int (length xs)" | "i < 0 \<or> int (length xs) < i"
    by linarith
  then show ?thesis
  proof cases
    case 1
    then have "nat i < length xs" "int (nat i) = i" by auto
    with assms 1 show ?thesis
      by (auto elim!: WMReplaceInArray_rep [of a xs "nat i" x] simp: Replace)
  next
    case 2
    from assms show ?thesis
      by (rule WMAddToArray_rep [of a xs x]) (simp add: Replace 2 WMReplaceInArray_end [OF assms])
  next
    case 3
    with assms show ?thesis by (auto simp: Replace WMReplaceInArray_out_of_range)
  qed
next
  case (Delete i)
  show ?thesis
  proof (cases "0 \<le> i \<and> i < int (length xs)")
    case True
    then have "nat i < length xs" "int (nat i) = i" by auto
    with assms True show ?thesis
      by (auto elim!: WMDeleteFromArray_rep [of a xs "nat i"] simp: Delete)
  next
    case False
    with assms show ?thesis by (auto simp: Delete WMDeleteFromArray_out_of_range)
  qed
next
  case Pop
  show ?thesis
  proof (cases xs rule: rev_cases)
    case Nil
    with assms show ?thesis by (auto simp: Pop WMPopFromArray_empty)
  next
    case (snoc ys y)
    with assms have "array_rep a (ys @ [y])" by simp
    then show ?thesis by (rule WMPopFromArray_rep) (simp add: Pop snoc)
  qed
next
  case Empty
  from assms show ?thesis by (rule WMEmptyArray_rep) (simp add: Empty)
qed

section \<open>Properties\<close>

text \<open>
  C1: the array implements a list. Whatever sequence of additions, insertions, replacements,
  deletions, pops and emptyings a client performs on a new array, in range or not, no call
  reads or writes outside the block or reads a cell that was never written, and the array
  holds in the end the list that the same operations make on the empty list.
\<close>

theorem array_run_refines_list:
  "\<exists>a. array_run fs (WMCreateArrayWithDestructor n d) = Some a \<and>
       array_rep a (fold list_step fs [])"
proof -
  have "array_rep a xs \<Longrightarrow> \<exists>a'. array_run fs a = Some a' \<and> array_rep a' (fold list_step fs xs)"
    for a :: "'a W_Array" and xs
  proof (induction fs arbitrary: a xs)
    case (Cons f fs)
    from array_step_refines [OF Cons.prems] obtain a' where
      a': "array_step f a = Some a'" "array_rep a' (list_step f xs)" by blast
    from Cons.IH [OF a'(2)] a'(1) show ?case by simp
  qed simp
  then show ?thesis using array_rep_create_destructor(1) by blast
qed

text \<open>
  the two iteration macros visit the items of an array, every one once: from the first to
  the last, and from the last to the first.
\<close>

theorem array_iteration:
  assumes "array_rep a xs"
  shows "WM_ITERATE_ARRAY a = Some xs \<and> WM_ETARETI_ARRAY a = Some (rev xs)"
  using assms by (simp add: WM_ITERATE_ARRAY_rep WM_ETARETI_ARRAY_rep)

theorem array_iteration_witness:
  "\<exists>a. WMAddToArray (Some (WMCreateArray 1)) (Some (7 :: nat)) = Some (Some a) \<and>
       WM_ITERATE_ARRAY a = Some [Some 7] \<and> WM_ETARETI_ARRAY a = Some [Some 7]"
proof -
  obtain a where a: "WMAddToArray (Some (WMCreateArray 1)) (Some (7 :: nat)) = Some (Some a)"
    "array_rep a ([] @ [Some 7])" using array_rep_create by (rule WMAddToArray_rep)
  with array_iteration [of a "[Some 7]"] show ?thesis by simp
qed

text \<open>
  \<open>WMRemoveFromArrayMatching\<close> removes the first item that matches and no other, calls the
  destructor once, on that item, and returns 1; the items behind it move down by one.
\<close>

theorem remove_matching_first:
  assumes "array_rep a (ys @ x # zs)" and "item_matches match cdata x"
    and "\<forall>y \<in> set ys. \<not> item_matches match cdata y"
  shows "\<exists>a'. WMRemoveFromArrayMatching (Some a) match cdata =
                Some (Some a', 1, if destructor a then [x] else []) \<and>
              array_rep a' (ys @ zs) \<and> destructor a' = destructor a"
  using assms by (auto elim: WMRemoveFromArrayMatching_found)

theorem remove_matching_first_witness:
  "\<exists>a a'. array_rep a [Some 1, Some (2 :: nat), Some 2] \<and>
     WMRemoveFromArrayMatching (Some a) NULL (Some 2) = Some (Some a', 1, []) \<and>
     array_rep a' [Some 1, Some 2]"
proof -
  define a :: "nat W_Array" where
    "a = \<lparr>items = [Cell (Some 1), Cell (Some 2), Cell (Some 2), Undef], itemCount = 3,
          allocSize = 4, destructor = False\<rparr>"
  have a: "array_rep a ([Some 1] @ Some 2 # [Some 2])"
    by (intro array_repI [where junk = "[Undef]"]) (simp_all add: a_def)
  show ?thesis
    using a remove_matching_first [OF a, of None "Some 2"]
    by (auto simp: item_matches_def a_def)
qed

text \<open>
  \<open>WMSortArray\<close> with a \<open>qsort\<close> that keeps its contract leaves a permutation of the items,
  in the order of the comparison function, without an access outside the block.
\<close>

theorem sort_array_sorted:
  assumes "array_rep a xs" and "sorts_by cmp qs"
  shows "\<exists>a' ys. WMSortArray qs (Some a) = Some (Some a') \<and> array_rep a' ys \<and>
           mset ys = mset xs \<and> sorted_wrt (\<lambda>x y. cmp x y \<le> 0) ys"
  by (rule WMSortArray_rep [OF assms]) blast

text \<open>A \<open>qsort\<close> for the witness: insertion by the key behind the pointer.\<close>

definition key_of :: "nat ptr \<Rightarrow> nat" where
  "key_of p = (case p of None \<Rightarrow> 0 | Some k \<Rightarrow> k)"

definition key_cmp :: "nat ptr \<Rightarrow> nat ptr \<Rightarrow> int" where
  "key_cmp x y = int (key_of x) - int (key_of y)"

lemma sorts_by_sort_key: "sorts_by key_cmp (sort_key key_of)"
  using sorted_sort_key [of key_of] by (simp add: sorts_by_def key_cmp_def sorted_map)

theorem sort_array_sorted_witness:
  "\<exists>a a' ys. array_rep a [Some 3, Some 1] \<and> WMSortArray (sort_key key_of) (Some a) = Some (Some a') \<and>
     array_rep a' ys \<and> mset ys = mset [Some 3, Some 1] \<and> sorted_wrt (\<lambda>x y. key_cmp x y \<le> 0) ys"
proof -
  define a :: "nat W_Array" where
    "a = \<lparr>items = [Cell (Some 3), Cell (Some 1)], itemCount = 2, allocSize = 2, destructor = False\<rparr>"
  have a: "array_rep a [Some 3, Some 1]"
    by (intro array_repI [where junk = "[]"]) (simp_all add: a_def)
  from a sort_array_sorted [OF a sorts_by_sort_key] show ?thesis by blast
qed

text \<open>
  \<open>WMGetSubarrayWithRange\<close> reads outside the block of items of an empty array, whatever
  range of positive length it is asked for: the clipped start is index -1.
\<close>

theorem subarray_of_empty_out_of_bounds:
  "0 < count r \<Longrightarrow> WMGetSubarrayWithRange (Some (WMCreateArray n)) r = None"
  by (rule WMGetSubarrayWithRange_empty) (rule array_rep_create)

theorem subarray_of_empty_out_of_bounds_witness:
  "WMGetSubarrayWithRange (Some (WMCreateArray 4 :: nat W_Array)) \<lparr>position = 0, count = 2\<rparr> = None"
  by (rule subarray_of_empty_out_of_bounds) simp

end
