(* ===== verification/WMHashTables.thy ===== *)
theory WMHashTables
  imports WMPrelude "HOL-Library.Multiset"
begin

text \<open>
  The hash table of \<open>WMcore/hashtable.c\<close>: an array of collision lists, with callbacks for the
  hash value, the equality, the copying and the releasing of keys. A chain of \<open>HashItem\<close>s
  linked by \<open>next\<close> is the list of its items. The callbacks are a parameter of the operations
  instead of a field (they never change after the creation), so that the table itself is a
  datatype and property lists can nest in it. A function that releases keys also returns the
  list of the keys it released. \<open>unsigned\<close> hash values are 32-bit words; the table size and
  the item count are natural numbers (doubling 23 reaches \<open>2^31\<close> only beyond \<open>3 * 10^9\<close> items).
\<close>

unbundle bit_operations_syntax

section \<open>The structures\<close>

text \<open>
  \<open>keyPtr\<close> is not a field of the C structure: it gives the numeric value of a key pointer, on
  which the table falls back where a callback is NULL.
\<close>

record 'k WMHashTableCallbacks =
  hash :: "('k \<Rightarrow> 32 word) option"
  keyIsEqual :: "('k \<Rightarrow> 'k \<Rightarrow> bool) option"
  retainKey :: "('k \<Rightarrow> 'k) option"
  releaseKey :: bool
  keyPtr :: "'k \<Rightarrow> 64 word"

datatype ('k, 'v) HashItem = HashItem (itemKey: 'k) (itemData: "'v ptr")

datatype ('k, 'v) W_HashTable =
  W_HashTable (tItemCount: nat) (tSize: nat) (tTable: "('k, 'v) HashItem list list")

record ('k, 'v) WMHashEnumerator =
  eTable :: "('k, 'v) W_HashTable"
  eIndex :: nat
  eNextItem :: "('k, 'v) HashItem list"

definition INITIAL_CAPACITY :: nat where "INITIAL_CAPACITY = 23"

section \<open>Hash functions\<close>

text \<open>A C \<open>char\<close> is signed: its value is sign-extended to \<open>int\<close>. Strings end before the NUL.\<close>

definition char_to_int :: "char \<Rightarrow> 32 word" where
  "char_to_int c = signed_take_bit 7 (of_char c)"

fun hashString_loop :: "string \<Rightarrow> 32 word \<Rightarrow> nat \<Rightarrow> 32 word" where
  "hashString_loop [] ret ctr = ret"
| "hashString_loop (c # key) ret ctr =
     hashString_loop key (ret XOR push_bit ctr (char_to_int c)) ((ctr + 1) mod 8)"

definition hashString :: "string \<Rightarrow> 32 word" where
  "hashString key = hashString_loop key 0 0"

definition hashPtr :: "64 word \<Rightarrow> 32 word" where
  "hashPtr key = ucast (key div 8)"

definition hash_value :: "'k WMHashTableCallbacks \<Rightarrow> 'k \<Rightarrow> 32 word" where
  "hash_value cb key = (case hash cb of Some h \<Rightarrow> h key | None \<Rightarrow> hashPtr (keyPtr cb key))"

definition HASH :: "'k WMHashTableCallbacks \<Rightarrow> ('k, 'v) W_HashTable \<Rightarrow> 'k \<Rightarrow> nat" where
  "HASH cb table key = unat (hash_value cb key) mod tSize table"

definition DUPKEY :: "'k WMHashTableCallbacks \<Rightarrow> 'k \<Rightarrow> 'k" where
  "DUPKEY cb key = (case retainKey cb of Some f \<Rightarrow> f key | None \<Rightarrow> key)"

definition RELKEY :: "'k WMHashTableCallbacks \<Rightarrow> 'k \<Rightarrow> 'k list" where
  "RELKEY cb key = (if releaseKey cb then [key] else [])"

definition KEYEQ :: "'k WMHashTableCallbacks \<Rightarrow> 'k \<Rightarrow> 'k \<Rightarrow> bool" where
  "KEYEQ cb key k' = (case keyIsEqual cb of Some eq \<Rightarrow> eq key k'
     | None \<Rightarrow> keyPtr cb key = keyPtr cb k')"

section \<open>Building and rebuilding\<close>

definition WMCreateHashTable :: "('k, 'v) W_HashTable" where
  "WMCreateHashTable = W_HashTable 0 INITIAL_CAPACITY (replicate INITIAL_CAPACITY [])"

definition rellocateItem ::
  "'k WMHashTableCallbacks \<Rightarrow> ('k, 'v) W_HashTable \<Rightarrow> ('k, 'v) HashItem \<Rightarrow> ('k, 'v) W_HashTable" where
  "rellocateItem cb table item =
     (let h = HASH cb table (itemKey item)
      in W_HashTable (tItemCount table) (tSize table)
           ((tTable table)[h := item # tTable table ! h]))"

text \<open>The two loops of \<open>rebuildTable\<close>: over the old array, and over each of its chains.\<close>

fun move_chain ::
  "'k WMHashTableCallbacks \<Rightarrow> ('k, 'v) W_HashTable \<Rightarrow> ('k, 'v) HashItem list \<Rightarrow> ('k, 'v) W_HashTable"
where
  "move_chain cb table [] = table"
| "move_chain cb table (item # next) = move_chain cb (rellocateItem cb table item) next"

fun move_chains ::
  "'k WMHashTableCallbacks \<Rightarrow> ('k, 'v) W_HashTable \<Rightarrow> ('k, 'v) HashItem list list \<Rightarrow>
   ('k, 'v) W_HashTable"
where
  "move_chains cb table [] = table"
| "move_chains cb table (c # cs) = move_chains cb (move_chain cb table c) cs"

definition rebuildTable ::
  "'k WMHashTableCallbacks \<Rightarrow> ('k, 'v) W_HashTable \<Rightarrow> ('k, 'v) W_HashTable" where
  "rebuildTable cb table =
     (let newSize = tSize table * 2
      in move_chains cb (W_HashTable (tItemCount table) newSize (replicate newSize []))
           (tTable table))"

fun release_chain :: "'k WMHashTableCallbacks \<Rightarrow> ('k, 'v) HashItem list \<Rightarrow> 'k list" where
  "release_chain cb [] = []"
| "release_chain cb (item # next) = RELKEY cb (itemKey item) @ release_chain cb next"

definition WMResetHashTable ::
  "'k WMHashTableCallbacks \<Rightarrow> ('k, 'v) W_HashTable \<Rightarrow> ('k, 'v) W_HashTable \<times> 'k list" where
  "WMResetHashTable cb table =
     (let released = concat (map (release_chain cb) (tTable table))
      in (if tSize table > INITIAL_CAPACITY
          then W_HashTable 0 INITIAL_CAPACITY (replicate INITIAL_CAPACITY [])
          else W_HashTable 0 (tSize table) (replicate (tSize table) []),
          released))"

definition WMFreeHashTable :: "'k WMHashTableCallbacks \<Rightarrow> ('k, 'v) W_HashTable \<Rightarrow> 'k list" where
  "WMFreeHashTable cb table = concat (map (release_chain cb) (tTable table))"

definition WMCountHashTable :: "('k, 'v) W_HashTable \<Rightarrow> nat" where
  "WMCountHashTable table = tItemCount table"

section \<open>Looking up, inserting, removing\<close>

fun chain_find ::
  "'k WMHashTableCallbacks \<Rightarrow> 'k \<Rightarrow> ('k, 'v) HashItem list \<Rightarrow> ('k, 'v) HashItem ptr" where
  "chain_find cb key [] = NULL"
| "chain_find cb key (item # next) =
     (if KEYEQ cb key (itemKey item) then Some item else chain_find cb key next)"

definition hashGetItem ::
  "'k WMHashTableCallbacks \<Rightarrow> ('k, 'v) W_HashTable \<Rightarrow> 'k \<Rightarrow> ('k, 'v) HashItem ptr" where
  "hashGetItem cb table key = chain_find cb key (tTable table ! HASH cb table key)"

definition WMHashGet :: "'k WMHashTableCallbacks \<Rightarrow> ('k, 'v) W_HashTable \<Rightarrow> 'k \<Rightarrow> 'v ptr" where
  "WMHashGet cb table key =
     (case hashGetItem cb table key of None \<Rightarrow> NULL | Some item \<Rightarrow> itemData item)"

definition WMHashGetItemAndKey ::
  "'k WMHashTableCallbacks \<Rightarrow> ('k, 'v) W_HashTable \<Rightarrow> 'k \<Rightarrow> ('v ptr \<times> 'k) option" where
  "WMHashGetItemAndKey cb table key =
     (case hashGetItem cb table key of
        None \<Rightarrow> None
      | Some item \<Rightarrow> Some (itemData item, itemKey item))"

text \<open>
  The replacing branch of \<open>WMHashInsert\<close>, on the item that the search stopped at: the new
  chain, the old data and the released keys.
\<close>

fun chain_replace ::
  "'k WMHashTableCallbacks \<Rightarrow> 'k \<Rightarrow> 'v ptr \<Rightarrow> ('k, 'v) HashItem list \<Rightarrow>
   (('k, 'v) HashItem list \<times> 'v ptr \<times> 'k list) option"
where
  "chain_replace cb key data [] = None"
| "chain_replace cb key data (item # next) =
     (if KEYEQ cb key (itemKey item)
      then Some (HashItem (DUPKEY cb key) data # next, itemData item, RELKEY cb (itemKey item))
      else (case chain_replace cb key data next of
              None \<Rightarrow> None
            | Some (next', old, released) \<Rightarrow> Some (item # next', old, released)))"

definition WMHashInsert ::
  "'k WMHashTableCallbacks \<Rightarrow> ('k, 'v) W_HashTable \<Rightarrow> 'k \<Rightarrow> 'v ptr \<Rightarrow>
   ('k, 'v) W_HashTable \<times> 'v ptr \<times> 'k list" where
  "WMHashInsert cb table key data =
     (let h = HASH cb table key
      in case chain_replace cb key data (tTable table ! h) of
           Some (chain, old, released) \<Rightarrow>
             (W_HashTable (tItemCount table) (tSize table) ((tTable table)[h := chain]),
              old, released)
         | None \<Rightarrow>
             let nitem = HashItem (DUPKEY cb key) data;
                 table' = W_HashTable (tItemCount table + 1) (tSize table)
                   ((tTable table)[h := nitem # tTable table ! h])
             in (if tItemCount table' > tSize table' then rebuildTable cb table' else table',
                 NULL, []))"

text \<open>The chain without the first item of that key, its length, and the released keys.\<close>

fun deleteFromList ::
  "'k WMHashTableCallbacks \<Rightarrow> ('k, 'v) HashItem list \<Rightarrow> 'k \<Rightarrow>
   ('k, 'v) HashItem list \<times> nat \<times> 'k list"
where
  "deleteFromList cb [] key = ([], 0, [])"
| "deleteFromList cb (item # next) key =
     (if KEYEQ cb key (itemKey item) then (next, 1, RELKEY cb (itemKey item))
      else (let (next', n, released) = deleteFromList cb next key
            in (item # next', n, released)))"

definition WMHashRemove ::
  "'k WMHashTableCallbacks \<Rightarrow> ('k, 'v) W_HashTable \<Rightarrow> 'k \<Rightarrow> ('k, 'v) W_HashTable \<times> 'k list" where
  "WMHashRemove cb table key =
     (let h = HASH cb table key;
          (chain, n, released) = deleteFromList cb (tTable table ! h) key
      in (W_HashTable (tItemCount table - n) (tSize table) ((tTable table)[h := chain]),
          released))"

section \<open>Enumerating\<close>

definition WMEnumerateHashTable :: "('k, 'v) W_HashTable \<Rightarrow> ('k, 'v) WMHashEnumerator" where
  "WMEnumerateHashTable table = \<lparr>eTable = table, eIndex = 0, eNextItem = tTable table ! 0\<rparr>"

text \<open>The loop \<open>while (++index < size)\<close> to the next chain that is not empty.\<close>

function skip_empty :: "('k, 'v) W_HashTable \<Rightarrow> nat \<Rightarrow> nat \<times> ('k, 'v) HashItem list" where
  "skip_empty table i =
     (if i + 1 < tSize table
      then (if tTable table ! (i + 1) \<noteq> [] then (i + 1, tTable table ! (i + 1))
            else skip_empty table (i + 1))
      else (i + 1, []))"
  by pat_completeness auto
termination
  by (relation "measure (\<lambda>(table, i). tSize table - i)") auto

declare skip_empty.simps [simp del]

text \<open>What the three functions below share: advance when the chain is used up.\<close>

definition enum_advance ::
  "('k, 'v) WMHashEnumerator \<Rightarrow> ('k, 'v) WMHashEnumerator" where
  "enum_advance e =
     (if eNextItem e = []
      then (let (i, chain) = skip_empty (eTable e) (eIndex e)
            in e\<lparr>eIndex := i, eNextItem := chain\<rparr>)
      else e)"

definition WMNextHashEnumeratorItem ::
  "('k, 'v) WMHashEnumerator \<Rightarrow> ('k, 'v) WMHashEnumerator \<times> 'v ptr" where
  "WMNextHashEnumeratorItem enumerator =
     (let e = enum_advance enumerator
      in case eNextItem e of
           [] \<Rightarrow> (e, NULL)
         | item # next \<Rightarrow> (e\<lparr>eNextItem := next\<rparr>, itemData item))"

definition WMNextHashEnumeratorKey ::
  "('k, 'v) WMHashEnumerator \<Rightarrow> ('k, 'v) WMHashEnumerator \<times> 'k ptr" where
  "WMNextHashEnumeratorKey enumerator =
     (let e = enum_advance enumerator
      in case eNextItem e of
           [] \<Rightarrow> (e, NULL)
         | item # next \<Rightarrow> (e\<lparr>eNextItem := next\<rparr>, Some (itemKey item)))"

definition WMNextHashEnumeratorItemAndKey ::
  "('k, 'v) WMHashEnumerator \<Rightarrow> ('k, 'v) WMHashEnumerator \<times> ('v ptr \<times> 'k) option" where
  "WMNextHashEnumeratorItemAndKey enumerator =
     (let e = enum_advance enumerator
      in case eNextItem e of
           [] \<Rightarrow> (e, None)
         | item # next \<Rightarrow> (e\<lparr>eNextItem := next\<rparr>, Some (itemData item, itemKey item)))"

section \<open>The predefined callbacks\<close>

definition compareStrings :: "string \<Rightarrow> string \<Rightarrow> bool" where
  "compareStrings key1 key2 \<longleftrightarrow> key1 = key2"

definition WMIntHashCallbacks :: "64 word WMHashTableCallbacks" where
  "WMIntHashCallbacks =
     \<lparr>hash = None, keyIsEqual = None, retainKey = None, releaseKey = False, keyPtr = id\<rparr>"

text \<open>Keys that are strings stand for their contents; their addresses are never looked at.\<close>

definition WMStringHashCallbacks :: "string WMHashTableCallbacks" where
  "WMStringHashCallbacks =
     \<lparr>hash = Some hashString, keyIsEqual = Some compareStrings, retainKey = Some id,
      releaseKey = True, keyPtr = (\<lambda>_. 0)\<rparr>"

definition WMStringPointerHashCallbacks :: "string WMHashTableCallbacks" where
  "WMStringPointerHashCallbacks =
     \<lparr>hash = Some hashString, keyIsEqual = Some compareStrings, retainKey = None,
      releaseKey = False, keyPtr = (\<lambda>_. 0)\<rparr>"

section \<open>The invariant and the abstraction\<close>

definition items_of :: "('k, 'v) W_HashTable \<Rightarrow> ('k, 'v) HashItem list" where
  "items_of table = concat (tTable table)"

definition chain_ok :: "'k WMHashTableCallbacks \<Rightarrow> ('k, 'v) HashItem list \<Rightarrow> bool" where
  "chain_ok cb chain \<longleftrightarrow> sorted_wrt (\<lambda>x y. \<not> KEYEQ cb (itemKey x) (itemKey y)) chain"

text \<open>
  The array has \<open>size\<close> chains, an item is in the chain of its hash value, no chain has two items
  with equal keys. \<open>ht_wf\<close> adds the item count, which never exceeds the size.
\<close>

definition ht_shape ::
  "'k WMHashTableCallbacks \<Rightarrow> ('k \<Rightarrow> bool) \<Rightarrow> ('k, 'v) W_HashTable \<Rightarrow> bool" where
  "ht_shape cb valid table \<longleftrightarrow>
     0 < tSize table \<and> length (tTable table) = tSize table \<and>
     (\<forall>i < tSize table. chain_ok cb (tTable table ! i) \<and>
        (\<forall>x \<in> set (tTable table ! i). valid (itemKey x) \<and> HASH cb table (itemKey x) = i))"

definition ht_wf ::
  "'k WMHashTableCallbacks \<Rightarrow> ('k \<Rightarrow> bool) \<Rightarrow> ('k, 'v) W_HashTable \<Rightarrow> bool" where
  "ht_wf cb valid table \<longleftrightarrow>
     ht_shape cb valid table \<and> tItemCount table = length (items_of table) \<and>
     tItemCount table \<le> tSize table"

text \<open>The map that a table stands for.\<close>

definition ht_map :: "'k WMHashTableCallbacks \<Rightarrow> ('k, 'v) W_HashTable \<Rightarrow> 'k \<Rightarrow> 'v ptr option" where
  "ht_map cb table key = map_option itemData (hashGetItem cb table key)"

lemma WMHashGet_ht_map:
  "WMHashGet cb table key = (case ht_map cb table key of None \<Rightarrow> NULL | Some d \<Rightarrow> d)"
  by (simp add: WMHashGet_def ht_map_def split: option.splits)

text \<open>\<open>HASH\<close> only looks at the size.\<close>

lemma HASH_size: "HASH cb (W_HashTable n (tSize table) css) key = HASH cb table key"
  by (simp add: HASH_def)

lemma HASH_less: "0 < tSize table \<Longrightarrow> HASH cb table key < tSize table"
  by (simp add: HASH_def)

lemma ht_shapeD:
  assumes "ht_shape cb valid table"
  shows "0 < tSize table" "length (tTable table) = tSize table"
    "i < tSize table \<Longrightarrow> chain_ok cb (tTable table ! i)"
    "i < tSize table \<Longrightarrow> x \<in> set (tTable table ! i) \<Longrightarrow> valid (itemKey x)"
    "i < tSize table \<Longrightarrow> x \<in> set (tTable table ! i) \<Longrightarrow> HASH cb table (itemKey x) = i"
    "HASH cb table key < tSize table"
  using assms by (auto simp: ht_shape_def HASH_less)

text \<open>Writing one chain keeps the shape if the new chain keeps it.\<close>

lemma ht_shape_update:
  assumes "ht_shape cb valid table" "h < tSize table" "chain_ok cb chain"
    "\<forall>x \<in> set chain. valid (itemKey x) \<and> HASH cb table (itemKey x) = h"
  shows "ht_shape cb valid (W_HashTable n (tSize table) ((tTable table)[h := chain]))"
  using assms unfolding ht_shape_def by (auto simp: HASH_size nth_list_update)

lemma items_of_update:
  assumes "h < length (tTable table)"
  shows "length (items_of (W_HashTable n s ((tTable table)[h := chain]))) + length (tTable table ! h)
    = length (items_of table) + length chain"
proof -
  let ?t = "tTable table"
  have "?t = take h ?t @ ?t ! h # drop (Suc h) ?t" using assms by (rule id_take_nth_drop)
  then have "concat ?t = concat (take h ?t) @ ?t ! h @ concat (drop (Suc h) ?t)"
    by (metis concat.simps(2) concat_append)
  then show ?thesis using assms by (simp add: items_of_def upd_conv_take_nth_drop)
qed

lemma set_items_of:
  "x \<in> set (items_of table) \<longleftrightarrow> (\<exists>i < length (tTable table). x \<in> set (tTable table ! i))"
  unfolding items_of_def by (simp add: set_conv_nth [of "tTable table"]) blast

lemma ht_shape_item:
  assumes "ht_shape cb valid table"
  shows "x \<in> set (items_of table) \<longleftrightarrow> x \<in> set (tTable table ! HASH cb table (itemKey x))"
  using ht_shapeD(2,5,6) [OF assms] unfolding set_items_of by metis

lemma chain_find_set: "chain_find cb key chain = Some x \<Longrightarrow> x \<in> set chain \<and> KEYEQ cb key (itemKey x)"
  by (induction chain) (auto split: if_splits)

lemma chain_find_None: "chain_find cb key chain = None \<longleftrightarrow> (\<forall>x \<in> set chain. \<not> KEYEQ cb key (itemKey x))"
  by (induction chain) auto

lemma keys_update:
  assumes "h < length (tTable t)"
  shows "mset (map itemKey (items_of (W_HashTable c m ((tTable t)[h := chain])))) + mset (map itemKey (tTable t ! h)) =
    mset (map itemKey (items_of t)) + mset (map itemKey chain)"
proof -
  have t: "tTable t = take h (tTable t) @ tTable t ! h # drop (Suc h) (tTable t)" using assms by (rule id_take_nth_drop)
  have "items_of t = concat (take h (tTable t)) @ tTable t ! h @ concat (drop (Suc h) (tTable t))"
    unfolding items_of_def by (subst t) simp
  moreover have "items_of (W_HashTable c m ((tTable t)[h := chain])) =
      concat (take h (tTable t)) @ chain @ concat (drop (Suc h) (tTable t))"
    using assms by (simp add: items_of_def upd_conv_take_nth_drop)
  ultimately show ?thesis by (simp add: add_ac)
qed

section \<open>The contract of the callbacks\<close>

text \<open>
  What the table relies on, for the keys that are \<open>valid\<close>: the equality is an equivalence, equal
  keys have the same hash value, and a retained key is equal to the key it was made from.
\<close>

locale hash_contract =
  fixes cb :: "'k WMHashTableCallbacks"
    and valid :: "'k \<Rightarrow> bool"
  assumes eq_refl: "valid k \<Longrightarrow> KEYEQ cb k k"
    and eq_sym: "valid k \<Longrightarrow> valid l \<Longrightarrow> KEYEQ cb k l \<Longrightarrow> KEYEQ cb l k"
    and eq_trans: "valid k \<Longrightarrow> valid l \<Longrightarrow> valid m \<Longrightarrow> KEYEQ cb k l \<Longrightarrow> KEYEQ cb l m \<Longrightarrow> KEYEQ cb k m"
    and eq_hash: "valid k \<Longrightarrow> valid l \<Longrightarrow> KEYEQ cb k l \<Longrightarrow> hash_value cb k = hash_value cb l"
    and dup_valid: "valid k \<Longrightarrow> valid (DUPKEY cb k)"
    and dup_eq: "valid k \<Longrightarrow> KEYEQ cb k (DUPKEY cb k)"
begin

lemma eq_HASH: "valid k \<Longrightarrow> valid l \<Longrightarrow> KEYEQ cb k l \<Longrightarrow> HASH cb table k = HASH cb table l"
  by (simp add: HASH_def eq_hash)

lemma chain_unique:
  assumes "chain_ok cb chain" "x \<in> set chain" "y \<in> set chain"
    "\<forall>z \<in> set chain. valid (itemKey z)" "KEYEQ cb (itemKey x) (itemKey y)"
  shows "x = y"
  using assms
proof (induction chain)
  case (Cons z chain)
  have z: "\<not> KEYEQ cb (itemKey z) (itemKey w)" if "w \<in> set chain" for w
    using Cons.prems(1) that by (simp add: chain_ok_def)
  have "\<not> KEYEQ cb (itemKey w) (itemKey z)" if "w \<in> set chain" for w
    using z [OF that] Cons.prems(4) that eq_sym [of "itemKey w" "itemKey z"] by auto
  with z Cons show ?case by (auto simp: chain_ok_def)
qed simp

text \<open>A lookup finds an item exactly if the table holds it under an equal key.\<close>

lemma hashGetItem_iff:
  assumes wf: "ht_shape cb valid table" and k: "valid key"
  shows "hashGetItem cb table key = Some x \<longleftrightarrow>
    x \<in> set (items_of table) \<and> KEYEQ cb key (itemKey x)"
proof
  let ?h = "HASH cb table key"
  assume "hashGetItem cb table key = Some x"
  then have "x \<in> set (tTable table ! ?h)" "KEYEQ cb key (itemKey x)"
    by (auto simp: hashGetItem_def dest: chain_find_set)
  then show "x \<in> set (items_of table) \<and> KEYEQ cb key (itemKey x)"
    using ht_shapeD(2,6) [OF wf] unfolding set_items_of by metis
next
  let ?h = "HASH cb table key"
  assume x: "x \<in> set (items_of table) \<and> KEYEQ cb key (itemKey x)"
  then obtain i where "i < tSize table" "x \<in> set (tTable table ! i)"
    using ht_shapeD(2) [OF wf] by (auto simp: set_items_of)
  then have vx: "valid (itemKey x)" using ht_shapeD(4) [OF wf] by blast
  have "HASH cb table key = HASH cb table (itemKey x)" using x k vx by (blast intro: eq_HASH)
  then have xh: "x \<in> set (tTable table ! ?h)" using x ht_shape_item [OF wf] by simp
  then obtain y where y: "chain_find cb key (tTable table ! ?h) = Some y"
    using x chain_find_None by (metis option.exhaust)
  then have yh: "y \<in> set (tTable table ! ?h)" "KEYEQ cb key (itemKey y)"
    by (auto dest: chain_find_set)
  have val: "\<forall>z \<in> set (tTable table ! ?h). valid (itemKey z)"
    using ht_shapeD(4,6) [OF wf] by blast
  then have vy: "valid (itemKey y)" using yh(1) by blast
  have "KEYEQ cb (itemKey x) key" using x vx k by (blast intro: eq_sym)
  then have "KEYEQ cb (itemKey x) (itemKey y)"
    using yh(2) vx vy k by (blast intro: eq_trans)
  then have "x = y"
    using chain_unique [OF _ xh yh(1) val] ht_shapeD(3,6) [OF wf] by blast
  with y show "hashGetItem cb table key = Some x" by (simp add: hashGetItem_def)
qed

lemma ht_map_iff:
  assumes "ht_shape cb valid table" "valid key"
  shows "ht_map cb table key = Some d \<longleftrightarrow>
    (\<exists>x \<in> set (items_of table). KEYEQ cb key (itemKey x) \<and> itemData x = d)"
  using hashGetItem_iff [OF assms] by (auto simp: ht_map_def)

lemma ht_map_eqI:
  assumes "ht_shape cb valid t" "ht_shape cb valid t'" "valid key"
    "set (items_of t) = set (items_of t')"
  shows "ht_map cb t key = ht_map cb t' key"
  using ht_map_iff [OF assms(1,3)] ht_map_iff [OF assms(2,3)] assms(4)
  by (metis option.exhaust)

text \<open>Adding an item under a key that no item has, at the head of its chain.\<close>

lemma shape_push:
  assumes wf: "ht_shape cb valid t" and v: "valid (itemKey x)"
    and new: "\<forall>y \<in> set (items_of t). \<not> KEYEQ cb (itemKey x) (itemKey y)"
    and h: "h = HASH cb t (itemKey x)"
  shows "ht_shape cb valid (W_HashTable n (tSize t) ((tTable t)[h := x # tTable t ! h]))"
proof (rule ht_shape_update [OF wf])
  note D = ht_shapeD [OF wf]
  show hl: "h < tSize t" using D(6) h by simp
  have "\<forall>y \<in> set (tTable t ! h). \<not> KEYEQ cb (itemKey x) (itemKey y)"
    using new hl D(2) by (auto simp: set_items_of)
  then show "chain_ok cb (x # tTable t ! h)" using D(3) [OF hl] by (simp add: chain_ok_def)
  show "\<forall>y \<in> set (x # tTable t ! h). valid (itemKey y) \<and> HASH cb t (itemKey y) = h"
    using v h D(4,5) [OF hl] by auto
qed

lemma set_items_push:
  assumes "h < length (tTable t)"
  shows "set (items_of (W_HashTable n s ((tTable t)[h := x # tTable t ! h]))) =
    insert x (set (items_of t))"
  using assms by (auto simp: set_items_of nth_list_update split: if_splits)

lemma rellocateItem_shape:
  assumes wf: "ht_shape cb valid t" and v: "valid (itemKey x)"
    and new: "\<forall>y \<in> set (items_of t). \<not> KEYEQ cb (itemKey x) (itemKey y)"
  shows "ht_shape cb valid (rellocateItem cb t x)"
    "set (items_of (rellocateItem cb t x)) = insert x (set (items_of t))"
    "length (items_of (rellocateItem cb t x)) = Suc (length (items_of t))"
    "tItemCount (rellocateItem cb t x) = tItemCount t" "tSize (rellocateItem cb t x) = tSize t"
proof -
  have h: "HASH cb t (itemKey x) < length (tTable t)" using ht_shapeD(2,6) [OF wf] by simp
  show "ht_shape cb valid (rellocateItem cb t x)"
    unfolding rellocateItem_def Let_def by (rule shape_push [OF wf v new refl])
  show "set (items_of (rellocateItem cb t x)) = insert x (set (items_of t))"
    unfolding rellocateItem_def Let_def by (rule set_items_push [OF h])
  show "length (items_of (rellocateItem cb t x)) = Suc (length (items_of t))"
    using items_of_update [OF h, of "tItemCount t" "tSize t" "x # tTable t ! HASH cb t (itemKey x)"]
    by (simp add: rellocateItem_def Let_def)
qed (simp_all add: rellocateItem_def Let_def)

text \<open>The loops of the rebuilding are one loop over the items.\<close>

lemma move_chain_fold: "move_chain cb t chain = fold (\<lambda>x t. rellocateItem cb t x) chain t"
  by (induction chain arbitrary: t) auto

lemma move_chains_fold: "move_chains cb t css = fold (\<lambda>x t. rellocateItem cb t x) (concat css) t"
  by (induction css arbitrary: t) (auto simp: move_chain_fold)

lemma move_items:
  assumes "ht_shape cb valid t" "\<forall>x \<in> set xs. valid (itemKey x)"
    "sorted_wrt (\<lambda>x y. \<not> KEYEQ cb (itemKey x) (itemKey y)) xs"
    "\<forall>x \<in> set xs. \<forall>y \<in> set (items_of t). \<not> KEYEQ cb (itemKey x) (itemKey y)"
  shows "let t' = fold (\<lambda>x t. rellocateItem cb t x) xs t in
    ht_shape cb valid t' \<and> set (items_of t') = set xs \<union> set (items_of t) \<and>
    length (items_of t') = length xs + length (items_of t) \<and>
    tItemCount t' = tItemCount t \<and> tSize t' = tSize t"
  using assms
proof (induction xs arbitrary: t)
  case (Cons x xs)
  have x: "valid (itemKey x)" "\<forall>y \<in> set (items_of t). \<not> KEYEQ cb (itemKey x) (itemKey y)"
    using Cons.prems by auto
  note R = rellocateItem_shape [OF Cons.prems(1) x]
  have "\<not> KEYEQ cb (itemKey y) (itemKey x)" if "y \<in> set xs" for y
    using Cons.prems(2,3) that eq_sym [of "itemKey y" "itemKey x"] by auto
  then have "\<forall>y \<in> set xs. \<forall>z \<in> set (items_of (rellocateItem cb t x)).
      \<not> KEYEQ cb (itemKey y) (itemKey z)"
    using Cons.prems(4) R(2) by auto
  with Cons.IH [OF R(1)] Cons.prems R show ?case by (auto simp: Let_def)
qed (simp add: Let_def)

text \<open>No two items of a table have equal keys, wherever they are.\<close>

lemma items_distinct:
  assumes wf: "ht_shape cb valid t"
  shows "sorted_wrt (\<lambda>x y. \<not> KEYEQ cb (itemKey x) (itemKey y)) (items_of t)"
  unfolding items_of_def
proof (rule sorted_wrt_concat)
  note D = ht_shapeD [OF wf]
  show "\<forall>c \<in> set (tTable t). sorted_wrt (\<lambda>x y. \<not> KEYEQ cb (itemKey x) (itemKey y)) c"
    using D(2,3) by (auto simp: in_set_conv_nth chain_ok_def)
  have "\<not> KEYEQ cb (itemKey x) (itemKey y)"
    if "i < j" "j < tSize t" "x \<in> set (tTable t ! i)" "y \<in> set (tTable t ! j)" for i j x y
  proof
    have i: "i < tSize t" using that by simp
    assume "KEYEQ cb (itemKey x) (itemKey y)"
    then have "HASH cb t (itemKey x) = HASH cb t (itemKey y)"
      using D(4) i that by (blast intro: eq_HASH)
    then show False using D(5) i that by auto
  qed
  then show "sorted_wrt (\<lambda>c d. \<forall>x \<in> set c. \<forall>y \<in> set d.
      \<not> KEYEQ cb (itemKey x) (itemKey y)) (tTable t)"
    using D(2) by (auto simp: sorted_wrt_iff_nth_less)
qed

lemma items_valid: "ht_shape cb valid t \<Longrightarrow> x \<in> set (items_of t) \<Longrightarrow> valid (itemKey x)"
  using ht_shapeD(2,4) by (metis set_items_of)

lemma empty_shape: "0 < s \<Longrightarrow> ht_shape cb valid (W_HashTable n s (replicate s []))"
  by (auto simp: ht_shape_def chain_ok_def)

lemma items_of_empty: "items_of (W_HashTable n s (replicate m [])) = []"
  by (simp add: items_of_def)

lemma rebuildTable_shape:
  fixes t :: "('k, 'v) W_HashTable"
  assumes wf: "ht_shape cb valid t"
  shows "ht_shape cb valid (rebuildTable cb t)"
    "set (items_of (rebuildTable cb t)) = set (items_of t)"
    "length (items_of (rebuildTable cb t)) = length (items_of t)"
    "tItemCount (rebuildTable cb t) = tItemCount t" "tSize (rebuildTable cb t) = 2 * tSize t"
proof -
  let ?t0 = "W_HashTable (tItemCount t) (tSize t * 2) (replicate (tSize t * 2) []) ::
    ('k, 'v) W_HashTable"
  have e: "ht_shape cb valid ?t0" "items_of ?t0 = []"
    using empty_shape [of "tSize t * 2"] ht_shapeD(1) [OF wf] by (auto simp: items_of_empty)
  have r: "rebuildTable cb t = fold (\<lambda>x t. rellocateItem cb t x) (items_of t) ?t0"
    by (simp add: rebuildTable_def Let_def move_chains_fold items_of_def)
  have "let t' = rebuildTable cb t in
    ht_shape cb valid t' \<and> set (items_of t') = set (items_of t) \<union> set (items_of ?t0) \<and>
    length (items_of t') = length (items_of t) + length (items_of ?t0) \<and>
    tItemCount t' = tItemCount ?t0 \<and> tSize t' = tSize ?t0"
    unfolding r
    by (rule move_items [OF e(1) _ items_distinct [OF wf]]) (simp_all add: items_valid [OF wf] e(2))
  then show "ht_shape cb valid (rebuildTable cb t)"
    "set (items_of (rebuildTable cb t)) = set (items_of t)"
    "length (items_of (rebuildTable cb t)) = length (items_of t)"
    "tItemCount (rebuildTable cb t) = tItemCount t" "tSize (rebuildTable cb t) = 2 * tSize t"
    by (simp_all add: Let_def e(2))
qed

lemma rebuildTable_wf:
  assumes "ht_shape cb valid t" "tItemCount t = length (items_of t)" "tItemCount t \<le> 2 * tSize t"
  shows "ht_wf cb valid (rebuildTable cb t)"
  using assms rebuildTable_shape [of t] by (simp add: ht_wf_def)

lemma rebuildTable_map:
  assumes "ht_shape cb valid t" "valid key"
  shows "ht_map cb (rebuildTable cb t) key = ht_map cb t key"
  using assms rebuildTable_shape [of t] by (intro ht_map_eqI) auto

text \<open>The search of \<open>WMHashInsert\<close> and what it finds.\<close>

lemma chain_replace_None:
  "chain_replace cb key data chain = None \<longleftrightarrow> chain_find cb key chain = None"
  by (induction chain) (auto split: option.splits)

lemma chain_replace_Some:
  assumes "chain_replace cb key data chain = Some (chain', old, released)"
  shows "\<exists>xs x ys. chain = xs @ x # ys \<and> chain' = xs @ HashItem (DUPKEY cb key) data # ys \<and>
    chain_find cb key chain = Some x \<and> KEYEQ cb key (itemKey x) \<and> old = itemData x \<and>
    released = RELKEY cb (itemKey x)"
  using assms
proof (induction chain arbitrary: chain')
  case (Cons x chain)
  show ?case
  proof (cases "KEYEQ cb key (itemKey x)")
    case True
    with Cons.prems show ?thesis by (intro exI [of _ "[]"]) auto
  next
    case False
    with Cons.prems obtain next' where n: "chain_replace cb key data chain = Some (next', old, released)"
      "chain' = x # next'" by (auto split: option.splits)
    from Cons.IH [OF n(1)] obtain xs y ys where
      "chain = xs @ y # ys" "next' = xs @ HashItem (DUPKEY cb key) data # ys"
      "chain_find cb key chain = Some y" "KEYEQ cb key (itemKey y)" "old = itemData y"
      "released = RELKEY cb (itemKey y)" by blast
    with False n show ?thesis by (intro exI [of _ "x # xs"] exI [of _ y] exI [of _ ys]) simp
  qed
qed simp

text \<open>How the items change decides how the map changes.\<close>

lemma ht_map_replaced:
  assumes wf: "ht_shape cb valid t" "ht_shape cb valid t'" and v: "valid key" "valid key'" "valid k"
    and e: "KEYEQ cb key key'"
    and items: "set (items_of t') =
      insert (HashItem key' d) {y \<in> set (items_of t). \<not> KEYEQ cb key (itemKey y)}"
  shows "ht_map cb t' k = (if KEYEQ cb k key then Some d else ht_map cb t k)"
proof (cases "KEYEQ cb k key")
  case True
  then have "KEYEQ cb k key'" using v e eq_trans by blast
  then have "ht_map cb t' k = Some d"
    using ht_map_iff [OF wf(2) v(3)] items by force
  with True show ?thesis by simp
next
  case False
  have nk: "\<not> KEYEQ cb k key'" using False v e eq_trans eq_sym by blast
  have ny: "\<not> KEYEQ cb key (itemKey y)"
    if "y \<in> set (items_of t)" "KEYEQ cb k (itemKey y)" for y
    using False v that items_valid [OF wf(1)] eq_trans eq_sym by blast
  have "ht_map cb t' k = Some w \<longleftrightarrow> ht_map cb t k = Some w" for w
    unfolding ht_map_iff [OF wf(2) v(3)] ht_map_iff [OF wf(1) v(3)] items using nk ny by auto
  with False show ?thesis by (metis option.exhaust)
qed

lemma ht_map_removed:
  assumes wf: "ht_shape cb valid t" "ht_shape cb valid t'" and v: "valid key" "valid k"
    and items: "set (items_of t') = {y \<in> set (items_of t). \<not> KEYEQ cb key (itemKey y)}"
  shows "ht_map cb t' k = (if KEYEQ cb k key then None else ht_map cb t k)"
proof -
  have "KEYEQ cb k key \<longleftrightarrow> KEYEQ cb key (itemKey y)"
    if "y \<in> set (items_of t)" "KEYEQ cb k (itemKey y)" for y
    using v that items_valid [OF wf(1)] eq_trans eq_sym by metis
  then have "ht_map cb t' k = Some w \<longleftrightarrow> \<not> KEYEQ cb k key \<and> ht_map cb t k = Some w" for w
    unfolding ht_map_iff [OF wf(2) v(2)] ht_map_iff [OF wf(1) v(2)] items by auto
  then show ?thesis by (metis option.exhaust)
qed

lemma ht_map_None:
  assumes "ht_shape cb valid t" "valid key"
  shows "ht_map cb t key = None \<longleftrightarrow> (\<forall>y \<in> set (items_of t). \<not> KEYEQ cb key (itemKey y))"
  using ht_map_iff [OF assms] by (metis not_None_eq)

lemma chain_find_map:
  "chain_find cb key (tTable t ! HASH cb t key) = hashGetItem cb t key"
  by (simp add: hashGetItem_def)

text \<open>Splitting a chain at the item of a key.\<close>

lemma chain_split:
  assumes wf: "ht_shape cb valid t" and k: "valid key" and c: "tTable t ! HASH cb t key = xs @ x # ys"
    and e: "KEYEQ cb key (itemKey x)"
  shows "valid (itemKey x)" "\<forall>y \<in> set (xs @ ys). \<not> KEYEQ cb key (itemKey y) \<and>
      valid (itemKey y) \<and> HASH cb t (itemKey y) = HASH cb t key"
    "chain_ok cb (xs @ ys)"
    "\<forall>y \<in> set (items_of t). KEYEQ cb key (itemKey y) \<longrightarrow> y = x"
proof -
  note D = ht_shapeD [OF wf]
  let ?h = "HASH cb t key"
  have ok: "chain_ok cb (xs @ x # ys)" using D(3) [OF D(6)] c by metis
  have val: "\<forall>y \<in> set (xs @ x # ys). valid (itemKey y) \<and> HASH cb t (itemKey y) = ?h"
    using D(4,5) [OF D(6)] c by metis
  then show vx: "valid (itemKey x)" by simp
  have "\<not> KEYEQ cb key (itemKey y)" if y: "y \<in> set (xs @ ys)" for y
  proof
    assume "KEYEQ cb key (itemKey y)"
    moreover have vy: "valid (itemKey y)" using val y by auto
    ultimately have "KEYEQ cb (itemKey y) (itemKey x)" "KEYEQ cb (itemKey x) (itemKey y)"
      using vx k e eq_sym eq_trans by blast+
    then show False using ok y by (auto simp: chain_ok_def sorted_wrt_append)
  qed
  then show "\<forall>y \<in> set (xs @ ys). \<not> KEYEQ cb key (itemKey y) \<and>
      valid (itemKey y) \<and> HASH cb t (itemKey y) = ?h"
    using val by auto
  show "chain_ok cb (xs @ ys)" using ok by (auto simp: chain_ok_def sorted_wrt_append)
  have "x \<in> set (tTable t ! ?h)" using c by simp
  then have "x \<in> set (items_of t)" using D(2,6) set_items_of by metis
  then have "hashGetItem cb t key = Some x" using hashGetItem_iff [OF wf k] e by simp
  then show "\<forall>y \<in> set (items_of t). KEYEQ cb key (itemKey y) \<longrightarrow> y = x"
    using hashGetItem_iff [OF wf k] by (metis option.inject)
qed

text \<open>The items of a table with one chain rewritten.\<close>

lemma items_rewritten:
  assumes wf: "ht_shape cb valid t" and k: "valid key" and c: "tTable t ! HASH cb t key = xs @ x # ys"
    and e: "KEYEQ cb key (itemKey x)"
    and new: "set chain = A \<union> set (xs @ ys)"
  shows "set (items_of (W_HashTable n s ((tTable t)[HASH cb t key := chain]))) =
    A \<union> {y \<in> set (items_of t). \<not> KEYEQ cb key (itemKey y)}"
proof -
  note D = ht_shapeD [OF wf] and C = chain_split [OF wf k c e]
  let ?h = "HASH cb t key" let ?t' = "W_HashTable n s ((tTable t)[?h := chain])"
  have other: "\<not> KEYEQ cb key (itemKey y)" if "i < tSize t" "i \<noteq> ?h" "y \<in> set (tTable t ! i)" for i y
    using that D(4,5) k eq_HASH by metis
  have "y \<in> set (items_of ?t') \<longleftrightarrow> y \<in> set chain \<or> (\<exists>i < tSize t. i \<noteq> ?h \<and> y \<in> set (tTable t ! i))" for y
    using D(2,6) by (auto simp: set_items_of nth_list_update)
  moreover have "y \<in> set (items_of t) \<longleftrightarrow> y \<in> set (xs @ x # ys) \<or>
      (\<exists>i < tSize t. i \<noteq> ?h \<and> y \<in> set (tTable t ! i))" for y
    unfolding set_items_of D(2) c [symmetric] using D(6) by metis
  ultimately show ?thesis using C(2) e new other by auto
qed

text \<open>\<open>WMHashInsert\<close>, by its two branches.\<close>

lemma insert_new_item:
  assumes wf: "ht_wf cb valid t" and k: "valid key" and none: "hashGetItem cb t key = None"
    and t1: "t1 = W_HashTable (tItemCount t + 1) (tSize t)
      ((tTable t)[HASH cb t key := HashItem (DUPKEY cb key) data # tTable t ! HASH cb t key])"
  shows "ht_shape cb valid t1" "tItemCount t1 = length (items_of t1)"
    "tItemCount t1 \<le> tSize t1 + 1" "tSize t1 = tSize t"
    "valid k \<Longrightarrow> ht_map cb t1 k = (if KEYEQ cb k key then Some data else ht_map cb t k)"
proof -
  have shape: "ht_shape cb valid t" using wf by (simp add: ht_wf_def)
  note D = ht_shapeD [OF shape]
  let ?x = "HashItem (DUPKEY cb key) data"
  have new: "\<forall>y \<in> set (items_of t). \<not> KEYEQ cb key (itemKey y)"
    using none ht_map_None [OF shape k] by (simp add: ht_map_def)
  have dup: "valid (DUPKEY cb key)" "KEYEQ cb key (DUPKEY cb key)"
    using k dup_valid dup_eq by auto
  have new': "\<forall>y \<in> set (items_of t). \<not> KEYEQ cb (itemKey ?x) (itemKey y)"
    using new dup k items_valid [OF shape] eq_trans by (metis HashItem.sel(1))
  have h: "HASH cb t key = HASH cb t (itemKey ?x)" using dup k by (simp add: eq_HASH)
  show sh1: "ht_shape cb valid t1"
    unfolding t1 by (rule shape_push [OF shape _ new' h]) (simp add: dup(1))
  have hl: "HASH cb t key < length (tTable t)" using D(2,6) by simp
  show "tItemCount t1 = length (items_of t1)"
    using items_of_update [OF hl, of "tItemCount t + 1" "tSize t" "?x # tTable t ! HASH cb t key"] wf
    by (simp add: t1 ht_wf_def)
  show "tItemCount t1 \<le> tSize t1 + 1" "tSize t1 = tSize t" using wf by (simp_all add: t1 ht_wf_def)
  have "set (items_of t1) = insert ?x (set (items_of t))"
    unfolding t1 by (rule set_items_push [OF hl])
  also have "\<dots> = insert ?x {y \<in> set (items_of t). \<not> KEYEQ cb key (itemKey y)}" using new by auto
  finally show "valid k \<Longrightarrow> ht_map cb t1 k = (if KEYEQ cb k key then Some data else ht_map cb t k)"
    using ht_map_replaced [OF shape sh1 k dup(1) _ dup(2)] by simp
qed

lemma insert_replacing:
  assumes wf: "ht_wf cb valid t" and k: "valid key"
    and rep: "chain_replace cb key data (tTable t ! HASH cb t key) = Some (chain, old, released)"
    and t1: "t1 = W_HashTable (tItemCount t) (tSize t) ((tTable t)[HASH cb t key := chain])"
  shows "ht_wf cb valid t1"
    "valid k \<Longrightarrow> ht_map cb t1 k = (if KEYEQ cb k key then Some data else ht_map cb t k)"
proof -
  have shape: "ht_shape cb valid t" using wf by (simp add: ht_wf_def)
  note D = ht_shapeD [OF shape]
  obtain xs x ys where c: "tTable t ! HASH cb t key = xs @ x # ys"
    "chain = xs @ HashItem (DUPKEY cb key) data # ys" "KEYEQ cb key (itemKey x)"
    using chain_replace_Some [OF rep] by blast
  note C = chain_split [OF shape k c(1,3)]
  let ?x = "HashItem (DUPKEY cb key) data"
  have dup: "valid (DUPKEY cb key)" "KEYEQ cb key (DUPKEY cb key)"
    using k dup_valid dup_eq by auto
  have no: "\<not> KEYEQ cb (itemKey y) (DUPKEY cb key)" "\<not> KEYEQ cb (DUPKEY cb key) (itemKey y)"
    if "y \<in> set (xs @ ys)" for y
    using C(2) that dup k eq_sym eq_trans by blast+
  have ok: "chain_ok cb chain"
    using C(3) no unfolding c(2) chain_ok_def by (auto simp: sorted_wrt_append)
  have sh1: "ht_shape cb valid t1"
    unfolding t1
  proof (rule ht_shape_update [OF shape D(6) ok])
    show "\<forall>y \<in> set chain. valid (itemKey y) \<and> HASH cb t (itemKey y) = HASH cb t key"
      using C(2) dup k eq_HASH [of "DUPKEY cb key" key] eq_sym unfolding c(2) by auto
  qed
  have "length (items_of t1) = length (items_of t)"
    using items_of_update [of "HASH cb t key" t "tItemCount t" "tSize t" chain] D(2,6) c
    by (simp add: t1)
  with sh1 wf show "ht_wf cb valid t1" by (simp add: ht_wf_def t1)
  have "set (items_of t1) = {?x} \<union> {y \<in> set (items_of t). \<not> KEYEQ cb key (itemKey y)}"
    unfolding t1 by (rule items_rewritten [OF shape k c(1,3)]) (auto simp: c(2))
  then show "valid k \<Longrightarrow> ht_map cb t1 k = (if KEYEQ cb k key then Some data else ht_map cb t k)"
    using ht_map_replaced [OF shape sh1 k dup(1) _ dup(2)] by simp
qed

lemma WMHashInsert_spec:
  assumes wf: "ht_wf cb valid t" and k: "valid key"
    and ins: "WMHashInsert cb t key data = (t', old, released)"
  shows "ht_wf cb valid t'"
    "valid k \<Longrightarrow> ht_map cb t' k = (if KEYEQ cb k key then Some data else ht_map cb t k)"
    "old = WMHashGet cb t key"
    "released = (case hashGetItem cb t key of None \<Rightarrow> [] | Some x \<Rightarrow> RELKEY cb (itemKey x))"
    "WMCountHashTable t' = WMCountHashTable t + (if ht_map cb t key = None then 1 else 0)"
proof -
  let ?c = "chain_replace cb key data (tTable t ! HASH cb t key)"
  have "ht_wf cb valid t' \<and>
    (valid k \<longrightarrow> ht_map cb t' k = (if KEYEQ cb k key then Some data else ht_map cb t k)) \<and>
    old = WMHashGet cb t key \<and>
    released = (case hashGetItem cb t key of None \<Rightarrow> [] | Some x \<Rightarrow> RELKEY cb (itemKey x)) \<and>
    WMCountHashTable t' = WMCountHashTable t + (if ht_map cb t key = None then 1 else 0)"
  proof (cases ?c)
    case None
    then have none: "hashGetItem cb t key = None"
      using chain_replace_None chain_find_map by metis
    note N = insert_new_item [OF wf k none refl, where data = data]
    let ?t1 = "W_HashTable (tItemCount t + 1) (tSize t)
      ((tTable t)[HASH cb t key := HashItem (DUPKEY cb key) data # tTable t ! HASH cb t key])"
    have s0: "0 < tSize t" using wf by (auto simp: ht_wf_def ht_shape_def)
    have t': "t' = (if tSize t < tItemCount t + 1 then rebuildTable cb ?t1 else ?t1)"
      "old = NULL" "released = []"
      using ins None by (auto simp: WMHashInsert_def Let_def split: if_splits)
    have wf': "ht_wf cb valid t'"
    proof (cases "tSize t < tItemCount t + 1")
      case True
      then show ?thesis using t'(1) rebuildTable_wf [OF N(1,2)] N(3) s0 by simp
    next
      case False
      then show ?thesis using t'(1) N(1,2) by (simp add: ht_wf_def)
    qed
    have "valid k \<longrightarrow> ht_map cb t' k = (if KEYEQ cb k key then Some data else ht_map cb t k)"
      using N(5) rebuildTable_map [OF N(1)] t'(1) by simp
    moreover have "tItemCount t' = tItemCount t + 1"
      using t'(1) rebuildTable_shape(4) [OF N(1)] by simp
    ultimately show ?thesis
      using wf' t'(2,3) none by (simp add: ht_map_def WMHashGet_def WMCountHashTable_def)
  next
    case (Some r)
    obtain chain old' released' where r: "r = (chain, old', released')" by (cases r) auto
    have c: "?c = Some (chain, old', released')" using Some r by simp
    have t': "t' = W_HashTable (tItemCount t) (tSize t) ((tTable t)[HASH cb t key := chain])"
      "old = old'" "released = released'"
      using ins c by (auto simp: WMHashInsert_def Let_def)
    obtain x where x: "hashGetItem cb t key = Some x" "old' = itemData x"
      "released' = RELKEY cb (itemKey x)"
      using chain_replace_Some [OF c] chain_find_map by metis
    show ?thesis
      using insert_replacing [OF wf k c t'(1)] x t'
      by (simp add: ht_map_def WMHashGet_def WMCountHashTable_def)
  qed
  then show "ht_wf cb valid t'"
    "valid k \<Longrightarrow> ht_map cb t' k = (if KEYEQ cb k key then Some data else ht_map cb t k)"
    "old = WMHashGet cb t key"
    "released = (case hashGetItem cb t key of None \<Rightarrow> [] | Some x \<Rightarrow> RELKEY cb (itemKey x))"
    "WMCountHashTable t' = WMCountHashTable t + (if ht_map cb t key = None then 1 else 0)"
    by auto
qed

text \<open>\<open>WMHashRemove\<close> and \<open>WMResetHashTable\<close>.\<close>

lemma deleteFromList_cases:
  "case chain_find cb key chain of
     None \<Rightarrow> deleteFromList cb chain key = (chain, 0, [])
   | Some x \<Rightarrow> (\<exists>xs ys. chain = xs @ x # ys \<and> KEYEQ cb key (itemKey x) \<and>
       deleteFromList cb chain key = (xs @ ys, 1, RELKEY cb (itemKey x)))"
proof (induction chain)
  case (Cons y chain)
  show ?case
  proof (cases "KEYEQ cb key (itemKey y)")
    case True
    then show ?thesis by (auto intro: exI [of _ "[]"])
  next
    case False
    with Cons.IH show ?thesis
      by (auto split: option.splits) (metis append_Cons)
  qed
qed simp

lemma WMHashRemove_spec:
  assumes wf: "ht_wf cb valid t" and k: "valid key"
    and rem: "WMHashRemove cb t key = (t', released)"
  shows "ht_wf cb valid t'"
    "valid k \<Longrightarrow> ht_map cb t' k = (if KEYEQ cb k key then None else ht_map cb t k)"
    "released = (case hashGetItem cb t key of None \<Rightarrow> [] | Some x \<Rightarrow> RELKEY cb (itemKey x))"
    "WMCountHashTable t = WMCountHashTable t' + (if ht_map cb t key = None then 0 else 1)"
proof -
  have shape: "ht_shape cb valid t" using wf by (simp add: ht_wf_def)
  note D = ht_shapeD [OF shape]
  let ?h = "HASH cb t key"
  note del = deleteFromList_cases [where key = key and chain = "tTable t ! ?h", unfolded chain_find_map]
  have "ht_wf cb valid t' \<and>
    (valid k \<longrightarrow> ht_map cb t' k = (if KEYEQ cb k key then None else ht_map cb t k)) \<and>
    released = (case hashGetItem cb t key of None \<Rightarrow> [] | Some x \<Rightarrow> RELKEY cb (itemKey x)) \<and>
    WMCountHashTable t = WMCountHashTable t' + (if ht_map cb t key = None then 0 else 1)"
  proof (cases "hashGetItem cb t key")
    case None
    then have same: "t' = t" "released = []"
      using rem del D(2) by (cases t; auto simp: WMHashRemove_def)+
    have "ht_map cb t k = None" if "valid k" "KEYEQ cb k key"
      using None that ht_map_None [OF shape] k items_valid [OF shape] eq_trans eq_sym
      by (metis ht_map_def option.simps(8))
    then show ?thesis using same wf None by (simp add: ht_map_def)
  next
    case (Some x)
    then obtain xs ys where c: "tTable t ! ?h = xs @ x # ys" "KEYEQ cb key (itemKey x)"
      "deleteFromList cb (tTable t ! ?h) key = (xs @ ys, 1, RELKEY cb (itemKey x))"
      using del by auto
    have t': "t' = W_HashTable (tItemCount t - 1) (tSize t) ((tTable t)[?h := xs @ ys])"
      "released = RELKEY cb (itemKey x)"
      using rem c(3) by (auto simp: WMHashRemove_def)
    note C = chain_split [OF shape k c(1,2)]
    have sh': "ht_shape cb valid t'"
      unfolding t'(1) by (rule ht_shape_update [OF shape D(6) C(3)]) (use C(2) in auto)
    have len: "length (items_of t') + 1 = length (items_of t)"
      using items_of_update [of ?h t "tItemCount t - 1" "tSize t" "xs @ ys"] D(2,6) c(1)
      by (simp add: t'(1))
    have cs: "tItemCount t' = tItemCount t - 1" "tSize t' = tSize t" by (simp_all add: t'(1))
    have wf': "ht_wf cb valid t'" using sh' wf len cs by (auto simp: ht_wf_def)
    have "set (items_of t') = {} \<union> {y \<in> set (items_of t). \<not> KEYEQ cb key (itemKey y)}"
      unfolding t'(1) by (rule items_rewritten [OF shape k c(1,2)]) auto
    then have "valid k \<longrightarrow> ht_map cb t' k = (if KEYEQ cb k key then None else ht_map cb t k)"
      using ht_map_removed [OF shape sh' k] by simp
    then show ?thesis
      using wf' Some t'(2) cs wf len by (simp add: ht_map_def WMCountHashTable_def ht_wf_def)
  qed
  then show "ht_wf cb valid t'"
    "valid k \<Longrightarrow> ht_map cb t' k = (if KEYEQ cb k key then None else ht_map cb t k)"
    "released = (case hashGetItem cb t key of None \<Rightarrow> [] | Some x \<Rightarrow> RELKEY cb (itemKey x))"
    "WMCountHashTable t = WMCountHashTable t' + (if ht_map cb t key = None then 0 else 1)"
    by auto
qed

lemma WMCreateHashTable_wf: "ht_wf cb valid WMCreateHashTable"
  by (simp add: ht_wf_def WMCreateHashTable_def empty_shape items_of_empty INITIAL_CAPACITY_def)

lemma WMCreateHashTable_map: "ht_map cb WMCreateHashTable key = None"
  by (simp add: ht_map_def hashGetItem_def WMCreateHashTable_def HASH_def INITIAL_CAPACITY_def)

lemma ht_map_empty_chains: "0 < s \<Longrightarrow> ht_map cb (W_HashTable n s (replicate s [])) key = None"
  by (simp add: ht_map_def hashGetItem_def HASH_def)

lemma WMResetHashTable_spec:
  assumes "ht_wf cb valid t" "WMResetHashTable cb t = (t', released)"
  shows "ht_wf cb valid t'" "ht_map cb t' k = None" "WMCountHashTable t' = 0"
    "released = WMFreeHashTable cb t"
  using assms
  by (auto simp: WMResetHashTable_def WMFreeHashTable_def ht_wf_def ht_shape_def chain_ok_def
      items_of_def INITIAL_CAPACITY_def ht_map_empty_chains WMCountHashTable_def split: if_splits)

text \<open>The keys of a table before and after an operation, with those that were released and copied.\<close>

lemma items_mset:
  assumes "ht_shape cb valid t" "ht_shape cb valid t'" "set (items_of t) = set (items_of t')"
  shows "mset (items_of t) = mset (items_of t')"
proof -
  have "distinct (items_of u)" if u: "ht_shape cb valid u" for u
  proof -
    have "sorted_wrt (\<noteq>) (items_of u)"
      by (rule sorted_wrt_mono_rel [OF _ items_distinct [OF u]]) (use items_valid [OF u] eq_refl in auto)
    then show ?thesis by (auto simp: sorted_wrt_iff_nth_less distinct_conv_nth) (metis linorder_neqE_nat)
  qed
  then show ?thesis using assms set_eq_iff_mset_eq_distinct by blast
qed

lemma WMHashInsert_keys:
  assumes wf: "ht_wf cb valid t" and k: "valid key" and rel: "releaseKey cb"
    and ins: "WMHashInsert cb t key data = (t', old, released)"
  shows "mset (map itemKey (items_of t')) + mset released = add_mset (DUPKEY cb key) (mset (map itemKey (items_of t)))"
proof -
  let ?h = "HASH cb t key"
  have shape: "ht_shape cb valid t" using wf by (simp add: ht_wf_def)
  note D = ht_shapeD [OF shape]
  have h: "?h < length (tTable t)" using D(2,6) by simp
  have upd: "mset (map itemKey (items_of (W_HashTable c (tSize t) ((tTable t)[?h := chain])))) +
      mset (map itemKey (tTable t ! ?h)) = mset (map itemKey (items_of t)) + mset (map itemKey chain)" for c chain
    by (rule keys_update [OF h])
  show ?thesis
  proof (cases "chain_replace cb key data (tTable t ! ?h)")
    case None
    then have none: "hashGetItem cb t key = None" using chain_replace_None chain_find_map by metis
    note N = insert_new_item [OF wf k none refl, where data = data]
    let ?t1 = "W_HashTable (tItemCount t + 1) (tSize t)
      ((tTable t)[?h := HashItem (DUPKEY cb key) data # tTable t ! ?h])"
    have t': "t' = (if tSize t < tItemCount t + 1 then rebuildTable cb ?t1 else ?t1)" "released = []"
      using ins None by (auto simp: WMHashInsert_def Let_def split: if_splits)
    have "mset (items_of t') = mset (items_of ?t1)"
      using items_mset [OF rebuildTable_shape(1) [OF N(1)] N(1) rebuildTable_shape(2) [OF N(1)]] t'(1) by simp
    then have "mset (map itemKey (items_of t')) = mset (map itemKey (items_of ?t1))" by (simp add: mset_map)
    then show ?thesis using upd [of "tItemCount t + 1" "HashItem (DUPKEY cb key) data # tTable t ! ?h"] t'(2) by simp
  next
    case (Some r)
    then obtain chain old' rel' where c: "chain_replace cb key data (tTable t ! ?h) = Some (chain, old', rel')"
      by (cases r) auto
    obtain xs x ys where x: "tTable t ! ?h = xs @ x # ys" "chain = xs @ HashItem (DUPKEY cb key) data # ys"
      "rel' = RELKEY cb (itemKey x)"
      using chain_replace_Some [OF c] by blast
    have t': "t' = W_HashTable (tItemCount t) (tSize t) ((tTable t)[?h := chain])" "released = [itemKey x]"
      using ins c x(3) rel by (auto simp: WMHashInsert_def Let_def RELKEY_def)
    show ?thesis using upd [of "tItemCount t" chain] unfolding t' x(1,2) by simp
  qed
qed

lemma WMHashRemove_keys:
  assumes wf: "ht_wf cb valid t" and rel: "releaseKey cb" and rem: "WMHashRemove cb t key = (t', released)"
  shows "mset (map itemKey (items_of t')) + mset released = mset (map itemKey (items_of t))"
proof -
  let ?h = "HASH cb t key"
  have shape: "ht_shape cb valid t" using wf by (simp add: ht_wf_def)
  have h: "?h < length (tTable t)" using ht_shapeD(2,6) [OF shape] by simp
  obtain chain n rl where d: "deleteFromList cb (tTable t ! ?h) key = (chain, n, rl)" by (metis prod_cases3)
  then have t': "t' = W_HashTable (tItemCount t - n) (tSize t) ((tTable t)[?h := chain])" "released = rl"
    using rem by (auto simp: WMHashRemove_def)
  have "mset (map itemKey chain) + mset rl = mset (map itemKey (tTable t ! ?h))"
    using d deleteFromList_cases [where key = key and chain = "tTable t ! ?h"] rel by (auto simp: RELKEY_def split: option.splits)
  then show ?thesis
    using keys_update [OF h, of "tItemCount t - n" "tSize t" chain] unfolding t'
    by (metis (no_types, lifting) add.assoc add.commute add_right_cancel)
qed

end

text \<open>Releasing all chains releases the key of every item, once.\<close>

lemma release_chain_map:
  "release_chain cb chain = (if releaseKey cb then map itemKey chain else [])"
  by (induction chain) (auto simp: RELKEY_def)

lemma WMFreeHashTable_items:
  fixes t :: "('k, 'v) W_HashTable"
  shows
  "WMFreeHashTable cb t = (if releaseKey cb then map itemKey (items_of t) else [])"
proof -
  have "release_chain cb =
      (\<lambda>chain :: ('k, 'v) HashItem list. if releaseKey cb then map itemKey chain else [])"
    by (rule ext) (rule release_chain_map)
  then have "WMFreeHashTable cb t =
      concat (map (\<lambda>chain. if releaseKey cb then map itemKey chain else []) (tTable t))"
    by (simp only: WMFreeHashTable_def)
  then show ?thesis by (simp add: items_of_def map_concat)
qed

section \<open>Enumeration\<close>

declare concat_eq_Nil_conv [simp del] Nil_eq_concat_conv [simp del]

text \<open>The items that an enumerator has still to give.\<close>

definition enum_rest :: "('k, 'v) WMHashEnumerator \<Rightarrow> ('k, 'v) HashItem list" where
  "enum_rest e = eNextItem e @ concat (drop (eIndex e + 1) (tTable (eTable e)))"

definition enum_ok :: "('k, 'v) WMHashEnumerator \<Rightarrow> bool" where
  "enum_ok e \<longleftrightarrow> length (tTable (eTable e)) = tSize (eTable e)"

lemma skip_empty_rest:
  assumes "length (tTable t) = tSize t"
  shows "case skip_empty t i of (j, chain) \<Rightarrow>
    concat (drop (i + 1) (tTable t)) = chain @ concat (drop (j + 1) (tTable t)) \<and>
    (chain = [] \<longrightarrow> concat (drop (i + 1) (tTable t)) = [])"
  using assms
proof (induction t i rule: skip_empty.induct)
  case (1 t i)
  show ?case
  proof (cases "i + 1 < tSize t")
    case True
    then have d: "drop (i + 1) (tTable t) = tTable t ! (i + 1) # drop (i + 2) (tTable t)"
      using 1(2) by (simp add: Cons_nth_drop_Suc [symmetric])
    show ?thesis
      using 1 True d by (subst skip_empty.simps) (auto split: prod.splits)
  next
    case False
    then show ?thesis using 1(2) by (subst skip_empty.simps) simp
  qed
qed

lemma enum_advance_rest:
  assumes "enum_ok e"
  shows "enum_rest (enum_advance e) = enum_rest e" "enum_ok (enum_advance e)"
    "eNextItem (enum_advance e) = [] \<longleftrightarrow> enum_rest e = []"
  using assms skip_empty_rest [of "eTable e" "eIndex e"]
  by (auto simp: enum_advance_def enum_rest_def enum_ok_def
      split: prod.splits)

text \<open>Each of the three functions takes the next item of the rest.\<close>

lemma WMNextHashEnumeratorItemAndKey_rest:
  assumes "enum_ok e" "WMNextHashEnumeratorItemAndKey e = (e', r)"
  shows "enum_ok e'"
    "case enum_rest e of
       [] \<Rightarrow> r = None \<and> enum_rest e' = []
     | x # rest \<Rightarrow> r = Some (itemData x, itemKey x) \<and> enum_rest e' = rest"
  using assms enum_advance_rest [OF assms(1)]
  by (auto simp: WMNextHashEnumeratorItemAndKey_def Let_def enum_rest_def enum_ok_def
      split: list.splits)

lemma WMNextHashEnumerator_projections:
  "WMNextHashEnumeratorItem e = (let (e', r) = WMNextHashEnumeratorItemAndKey e
     in (e', case r of None \<Rightarrow> NULL | Some (d, k) \<Rightarrow> d))"
  "WMNextHashEnumeratorKey e = (let (e', r) = WMNextHashEnumeratorItemAndKey e
     in (e', case r of None \<Rightarrow> NULL | Some (d, k) \<Rightarrow> Some k))"
  by (simp_all add: WMNextHashEnumeratorItem_def WMNextHashEnumeratorKey_def
      WMNextHashEnumeratorItemAndKey_def Let_def split: list.splits)

declare concat_eq_Nil_conv [simp] Nil_eq_concat_conv [simp]

text \<open>
  The loop of the clients, \<open>while (WMNextHashEnumeratorItemAndKey(&e, &item, &key))\<close>, with the
  number of calls it may make: the pairs it sees, and whether it came to the end.
\<close>

fun enum_loop ::
  "nat \<Rightarrow> ('k, 'v) WMHashEnumerator \<Rightarrow> ('v ptr \<times> 'k) list \<times> bool" where
  "enum_loop 0 e = ([], False)"
| "enum_loop (Suc n) e =
     (case WMNextHashEnumeratorItemAndKey e of
        (e', None) \<Rightarrow> ([], True)
      | (e', Some r) \<Rightarrow> (let (rs, done) = enum_loop n e' in (r # rs, done)))"

lemma enum_loop_rest:
  assumes "enum_ok e" "length (enum_rest e) < n"
  shows "enum_loop n e = (map (\<lambda>x. (itemData x, itemKey x)) (enum_rest e), True)"
  using assms
proof (induction n arbitrary: e)
  case (Suc n)
  obtain e' r where e': "WMNextHashEnumeratorItemAndKey e = (e', r)" by fastforce
  note R = WMNextHashEnumeratorItemAndKey_rest [OF Suc.prems(1) e']
  show ?case
    using Suc.IH [OF R(1)] Suc.prems R(2) e' by (auto split: list.splits)
qed simp

lemma WMEnumerateHashTable_rest:
  assumes "0 < tSize t" "length (tTable t) = tSize t"
  shows "enum_rest (WMEnumerateHashTable t) = items_of t" "enum_ok (WMEnumerateHashTable t)"
  using assms
  by (cases "tTable t"; simp add: WMEnumerateHashTable_def enum_rest_def items_of_def enum_ok_def)+

lemma enumeration_items:
  assumes "ht_wf cb valid t"
  shows "enum_loop (Suc (WMCountHashTable t)) (WMEnumerateHashTable t) =
    (map (\<lambda>x. (itemData x, itemKey x)) (items_of t), True)"
  using assms enum_loop_rest [of "WMEnumerateHashTable t"] WMEnumerateHashTable_rest [of t]
  by (simp add: ht_wf_def ht_shape_def WMCountHashTable_def del: enum_loop.simps)

section \<open>Runs of operations and the map they implement\<close>

datatype ('k, 'v) hash_op =
  is_HInsert: HInsert 'k "'v ptr" | HRemove 'k | HGet 'k | HCount | HReset

datatype 'v hash_out = HDone | HData "'v ptr" | HNumber nat

text \<open>One operation: the new table, the result, the keys retained and the keys released.\<close>

definition RETAINED :: "'k WMHashTableCallbacks \<Rightarrow> 'k \<Rightarrow> 'k list" where
  "RETAINED cb key = (case retainKey cb of None \<Rightarrow> [] | Some f \<Rightarrow> [f key])"

fun hash_step ::
  "'k WMHashTableCallbacks \<Rightarrow> ('k, 'v) hash_op \<Rightarrow> ('k, 'v) W_HashTable \<Rightarrow>
   ('k, 'v) W_HashTable \<times> 'v hash_out \<times> 'k list \<times> 'k list" where
  "hash_step cb (HInsert key data) t =
     (let (t', old, released) = WMHashInsert cb t key data
      in (t', HData old, RETAINED cb key, released))"
| "hash_step cb (HRemove key) t =
     (let (t', released) = WMHashRemove cb t key in (t', HDone, [], released))"
| "hash_step cb (HGet key) t = (t, HData (WMHashGet cb t key), [], [])"
| "hash_step cb HCount t = (t, HNumber (WMCountHashTable t), [], [])"
| "hash_step cb HReset t =
     (let (t', released) = WMResetHashTable cb t in (t', HDone, [], released))"

fun hash_run ::
  "'k WMHashTableCallbacks \<Rightarrow> ('k, 'v) hash_op list \<Rightarrow> ('k, 'v) W_HashTable \<Rightarrow>
   ('k, 'v) W_HashTable \<times> 'v hash_out list \<times> 'k list \<times> 'k list" where
  "hash_run cb [] t = (t, [], [], [])"
| "hash_run cb (op # ops) t =
     (let (t', out, kept, released) = hash_step cb op t;
          (t'', outs, kept', released') = hash_run cb ops t'
      in (t'', out # outs, kept @ kept', released @ released'))"

text \<open>The same operations on a finite map.\<close>

fun map_step ::
  "('k, 'v) hash_op \<Rightarrow> ('k \<rightharpoonup> 'v ptr) \<Rightarrow> ('k \<rightharpoonup> 'v ptr) \<times> 'v hash_out" where
  "map_step (HInsert key data) m =
     (m(key \<mapsto> data), HData (case m key of None \<Rightarrow> NULL | Some d \<Rightarrow> d))"
| "map_step (HRemove key) m = (m(key := None), HDone)"
| "map_step (HGet key) m = (m, HData (case m key of None \<Rightarrow> NULL | Some d \<Rightarrow> d))"
| "map_step HCount m = (m, HNumber (card (dom m)))"
| "map_step HReset m = (Map.empty, HDone)"

fun map_run ::
  "('k, 'v) hash_op list \<Rightarrow> ('k \<rightharpoonup> 'v ptr) \<Rightarrow> ('k \<rightharpoonup> 'v ptr) \<times> 'v hash_out list" where
  "map_run [] m = (m, [])"
| "map_run (op # ops) m =
     (let (m', out) = map_step op m; (m'', outs) = map_run ops m' in (m'', out # outs))"

text \<open>Callbacks whose equality is the identity of the model's keys: all the predefined ones.\<close>

locale hash_identity = hash_contract cb "\<lambda>_. True"
  for cb :: "'k WMHashTableCallbacks" +
  assumes eq_id: "KEYEQ cb k l \<longleftrightarrow> k = l"
begin

lemma dup_id: "DUPKEY cb k = k"
  using dup_eq eq_id by metis

abbreviation wf :: "('k, 'v) W_HashTable \<Rightarrow> bool" where
  "wf \<equiv> ht_wf cb (\<lambda>_. True)"

lemma itemKey_inj_items:
  assumes "wf t" shows "distinct (map itemKey (items_of t))"
proof -
  have "sorted_wrt (\<lambda>x y. itemKey x \<noteq> itemKey y) (items_of t)"
    using assms items_distinct [of t] eq_id by (simp add: ht_wf_def)
  then show ?thesis by (rule sorted_wrt_distinct_map)
qed

lemma dom_ht_map:
  assumes "wf t" shows "dom (ht_map cb t) = itemKey ` set (items_of t)"
  using ht_map_None [of t] assms eq_id by (fastforce simp: ht_wf_def dom_def)

lemma count_dom: "wf t \<Longrightarrow> card (dom (ht_map cb t)) = WMCountHashTable t"
  using itemKey_inj_items [of t] dom_ht_map [of t] distinct_card [of "map itemKey (items_of t)"]
  by (simp add: ht_wf_def WMCountHashTable_def)

lemma found_key: "wf t \<Longrightarrow> hashGetItem cb t key = Some x \<Longrightarrow> itemKey x = key"
  using hashGetItem_iff eq_id by (metis ht_wf_def)

lemma insert_map:
  "wf t \<Longrightarrow> WMHashInsert cb t key data = (t', old, released) \<Longrightarrow>
   wf t' \<and> ht_map cb t' = (ht_map cb t)(key \<mapsto> data) \<and> old = WMHashGet cb t key \<and>
   released = (if ht_map cb t key = None then [] else RELKEY cb key)"
  using WMHashInsert_spec [of t key data t' old released] eq_id found_key [of t key]
  by (auto simp: fun_upd_def ht_map_def split: option.splits)

lemma remove_map:
  "wf t \<Longrightarrow> WMHashRemove cb t key = (t', released) \<Longrightarrow>
   wf t' \<and> ht_map cb t' = (ht_map cb t)(key := None) \<and>
   released = (if ht_map cb t key = None then [] else RELKEY cb key)"
  using WMHashRemove_spec [of t key t' released] eq_id found_key [of t key]
  by (auto simp: fun_upd_def ht_map_def split: option.splits)

lemma step_refines:
  assumes "wf t" "hash_step cb op t = (t', out, kept, released)"
  shows "wf t'" "map_step op (ht_map cb t) = (ht_map cb t', out)"
proof -
  have "wf t' \<and> map_step op (ht_map cb t) = (ht_map cb t', out)"
  proof (cases op)
    case (HInsert key data)
    then obtain old where i: "WMHashInsert cb t key data = (t', old, released)" "out = HData old"
      using assms(2) by (auto split: prod.splits)
    show ?thesis using insert_map [OF assms(1) i(1)] i(2) HInsert by (simp add: WMHashGet_ht_map)
  next
    case (HRemove key)
    then have r: "WMHashRemove cb t key = (t', released)" "out = HDone"
      using assms(2) by (auto split: prod.splits)
    show ?thesis using remove_map [OF assms(1) r(1)] r(2) HRemove by simp
  next
    case HReset
    then have r: "WMResetHashTable cb t = (t', released)" "out = HDone"
      using assms(2) by (auto split: prod.splits)
    show ?thesis using WMResetHashTable_spec [OF assms(1) r(1)] r(2) HReset by auto
  qed (use assms in \<open>auto simp: WMHashGet_ht_map count_dom\<close>)
  then show "wf t'" "map_step op (ht_map cb t) = (ht_map cb t', out)" by auto
qed

lemma run_refines:
  assumes "wf t" "hash_run cb ops t = (t', outs, kept, released)"
  shows "wf t' \<and> map_run ops (ht_map cb t) = (ht_map cb t', outs)"
  using assms
proof (induction ops arbitrary: t outs kept released)
  case (Cons op ops)
  obtain t1 out kept1 rel1 where s: "hash_step cb op t = (t1, out, kept1, rel1)"
    by (metis prod_cases4)
  note S = step_refines [OF Cons.prems(1) s]
  obtain outs2 kept2 rel2 where r: "hash_run cb ops t1 = (t', outs2, kept2, rel2)" "outs = out # outs2"
    using Cons.prems(2) s by (auto split: prod.splits)
  from Cons.IH [OF S(1) r(1)] S r show ?case by simp
qed simp

lemma create_refines:
  "hash_run cb ops WMCreateHashTable = (t', outs, kept, released) \<Longrightarrow>
   wf t' \<and> map_run ops Map.empty = (ht_map cb t', outs)"
  using run_refines [OF WMCreateHashTable_wf] WMCreateHashTable_map
  by (metis (no_types, lifting) ext)

text \<open>An enumeration gives every binding of the map once.\<close>

lemma enumeration_map:
  assumes "wf t"
    "enum_loop (Suc (WMCountHashTable t)) (WMEnumerateHashTable t) = (pairs, ended)"
  shows "ended" "distinct (map snd pairs)" "(d, k) \<in> set pairs \<longleftrightarrow> ht_map cb t k = Some d"
proof -
  have p: "pairs = map (\<lambda>x. (itemData x, itemKey x)) (items_of t)" "ended"
    using assms enumeration_items by force+
  show "ended" by (rule p(2))
  show "distinct (map snd pairs)"
    using itemKey_inj_items [OF assms(1)] by (simp add: p(1) comp_def)
  have "ht_map cb t k = Some d \<longleftrightarrow> (\<exists>x \<in> set (items_of t). k = itemKey x \<and> itemData x = d)"
    using ht_map_iff [of t k d] assms(1) eq_id by (simp add: ht_wf_def)
  then show "(d, k) \<in> set pairs \<longleftrightarrow> ht_map cb t k = Some d" by (auto simp: p(1))
qed

end

section \<open>The predefined tables\<close>

interpretation string_table: hash_identity WMStringHashCallbacks
  by unfold_locales
    (auto simp: KEYEQ_def DUPKEY_def WMStringHashCallbacks_def compareStrings_def)

interpretation string_pointer_table: hash_identity WMStringPointerHashCallbacks
  by unfold_locales
    (auto simp: KEYEQ_def DUPKEY_def WMStringPointerHashCallbacks_def compareStrings_def)

interpretation pointer_table: hash_identity WMIntHashCallbacks
  by unfold_locales
    (auto simp: KEYEQ_def DUPKEY_def hash_value_def WMIntHashCallbacks_def)

section \<open>Keys in blocks of memory\<close>

text \<open>
  What the table does with the memory of its keys shows when a key carries the block it is stored in. A key of the
  caller has no block of the table's; \<open>wstrdup\<close> copies the characters to a new block, here the number of the call, so
  that two copies of the same text are different keys for \<open>wfree\<close>, and equal ones for \<open>hashString\<close> and
  \<open>compareStrings\<close>, which only look at the characters.
\<close>

type_synonym stored_key = "nat option \<times> string"

definition WMStoredStringCallbacks :: "nat \<Rightarrow> stored_key WMHashTableCallbacks" where
  "WMStoredStringCallbacks block =
     \<lparr>hash = Some (\<lambda>k. hashString (snd k)), keyIsEqual = Some (\<lambda>k l. compareStrings (snd k) (snd l)),
      retainKey = Some (\<lambda>k. (Some block, snd k)), releaseKey = True, keyPtr = (\<lambda>_. 0)\<rparr>"

text \<open>A run: the table, the number of blocks allocated, and the blocks given to \<open>wfree\<close>, in their order.\<close>

fun stored_step ::
  "(string, 'v) hash_op \<Rightarrow> (stored_key, 'v) W_HashTable \<times> nat \<times> nat option list \<Rightarrow>
   (stored_key, 'v) W_HashTable \<times> nat \<times> nat option list" where
  "stored_step (HInsert key data) (t, n, freed) =
     (let (t', old, released) = WMHashInsert (WMStoredStringCallbacks n) t (None, key) data
      in (t', n + 1, freed @ map fst released))"
| "stored_step (HRemove key) (t, n, freed) =
     (let (t', released) = WMHashRemove (WMStoredStringCallbacks n) t (None, key)
      in (t', n, freed @ map fst released))"
| "stored_step HReset (t, n, freed) =
     (let (t', released) = WMResetHashTable (WMStoredStringCallbacks n) t
      in (t', n, freed @ map fst released))"
| "stored_step op (t, n, freed) = (t, n, freed)"

definition stored_run ::
  "(string, 'v) hash_op list \<Rightarrow> (stored_key, 'v) W_HashTable \<times> nat \<times> nat option list" where
  "stored_run ops = fold stored_step ops (WMCreateHashTable, 0, [])"

text \<open>Every set of callbacks of a run satisfies the contract, and the invariant does not depend on the next block.\<close>

interpretation stored_string_table: hash_contract "WMStoredStringCallbacks n" "\<lambda>_. True" for n
  by unfold_locales
    (auto simp: KEYEQ_def DUPKEY_def hash_value_def WMStoredStringCallbacks_def compareStrings_def)

lemma stored_wf: "ht_wf (WMStoredStringCallbacks n) valid t = ht_wf (WMStoredStringCallbacks m) valid t"
proof -
  have "KEYEQ (WMStoredStringCallbacks n) = KEYEQ (WMStoredStringCallbacks m)"
    "HASH (WMStoredStringCallbacks n) t = HASH (WMStoredStringCallbacks m) t"
    by (auto simp: fun_eq_iff KEYEQ_def HASH_def hash_value_def WMStoredStringCallbacks_def)
  then show ?thesis by (simp add: ht_wf_def ht_shape_def chain_ok_def)
qed

text \<open>The blocks of the keys that a table holds.\<close>

definition blocks_of :: "(stored_key, 'v) W_HashTable \<Rightarrow> nat option multiset" where
  "blocks_of t = mset (map (\<lambda>x. fst (itemKey x)) (concat (tTable t)))"

definition blocks_kept :: "(stored_key, 'v) W_HashTable \<times> nat \<times> nat option list \<Rightarrow> bool" where
  "blocks_kept = (\<lambda>(t, n, freed). ht_wf (WMStoredStringCallbacks n) (\<lambda>_. True) t \<and>
     blocks_of t + mset freed = mset (map Some [0..<n]))"

lemma stored_step_kept: "blocks_kept s \<Longrightarrow> blocks_kept (stored_step op s)"
proof -
  assume kept: "blocks_kept s"
  obtain t n freed where s: "s = (t, n, freed)" by (cases s) auto
  let ?cb = "WMStoredStringCallbacks n"
  have wf: "ht_wf ?cb (\<lambda>_. True) t" and b: "blocks_of t + mset freed = mset (map Some [0..<n])"
    using kept by (auto simp: blocks_kept_def s)
  have own: "releaseKey ?cb" "DUPKEY ?cb (None, k) = (Some n, k)" for k
    by (simp_all add: WMStoredStringCallbacks_def DUPKEY_def)
  have bm: "blocks_of u = image_mset fst (mset (map itemKey (items_of u)))" for u :: "(stored_key, 'a) W_HashTable"
    by (simp add: blocks_of_def items_of_def mset_map multiset.map_comp comp_def)
  show ?thesis
  proof (cases op)
    case (HInsert key data)
    obtain t' old released where r: "WMHashInsert ?cb t (None, key) data = (t', old, released)" by (metis prod_cases3)
    note K = stored_string_table.WMHashInsert_keys [OF wf TrueI own(1) r, unfolded own(2)]
    have "blocks_of t' + mset (map fst released) = add_mset (Some n) (blocks_of t)"
      using arg_cong [OF K, of "image_mset fst"] unfolding bm by (simp add: mset_map)
    then have "blocks_of t' + mset (freed @ map fst released) = mset (map Some [0..<n + 1])"
      using b by (simp add: add.assoc [symmetric]) (metis (no_types, lifting) add.assoc add.commute union_mset_add_mset_left)
    moreover have "ht_wf (WMStoredStringCallbacks (n + 1)) (\<lambda>_. True) t'"
      using stored_string_table.WMHashInsert_spec(1) [OF wf TrueI r] stored_wf by blast
    ultimately show ?thesis using r by (simp add: s HInsert blocks_kept_def atLeast0_lessThan_Suc)
  next
    case (HRemove key)
    obtain t' released where r: "WMHashRemove ?cb t (None, key) = (t', released)" by fastforce
    note K = stored_string_table.WMHashRemove_keys [OF wf own(1) r]
    have "blocks_of t' + mset (map fst released) = blocks_of t"
      using arg_cong [OF K, of "image_mset fst"] unfolding bm by (simp add: mset_map)
    then have "blocks_of t' + mset (freed @ map fst released) = mset (map Some [0..<n])"
      using b by (metis add.assoc add.commute mset_append)
    then show ?thesis using r stored_string_table.WMHashRemove_spec(1) [OF wf TrueI r] by (simp add: s HRemove blocks_kept_def)
  next
    case HReset
    obtain t' released where r: "WMResetHashTable ?cb t = (t', released)" by fastforce
    note R = stored_string_table.WMResetHashTable_spec [OF wf r]
    have "mset (map fst released) = blocks_of t"
      unfolding R(4) WMFreeHashTable_items bm using own(1) by (simp add: mset_map multiset.map_comp)
    moreover have "blocks_of t' = {#}" using r by (auto simp: WMResetHashTable_def blocks_of_def split: if_splits)
    ultimately show ?thesis using r R(1) b by (simp add: s HReset blocks_kept_def add.commute)
  qed (use kept s in auto)
qed

lemma stored_run_kept: "blocks_kept (stored_run ops)"
proof -
  have "blocks_kept (fold stored_step ops s)" if "blocks_kept s" for s
    using that by (induction ops arbitrary: s) (simp_all add: stored_step_kept)
  moreover have "blocks_kept (WMCreateHashTable, 0, [])"
    by (simp add: blocks_kept_def stored_string_table.WMCreateHashTable_wf) (simp add: blocks_of_def WMCreateHashTable_def)
  ultimately show ?thesis unfolding stored_run_def .
qed

lemma stored_run_blocks: "fst (snd (stored_run ops)) = length (filter is_HInsert ops)"
proof -
  have "fst (snd (fold stored_step ops s)) = fst (snd s) + length (filter is_HInsert ops)" for s
  proof (induction ops arbitrary: s)
    case (Cons op ops)
    have "fst (snd (stored_step op s)) = fst (snd s) + (if is_HInsert op then 1 else 0)"
      by (cases s; cases op) (auto split: prod.splits)
    then show ?case using Cons.IH [of "stored_step op s"] by simp
  qed simp
  then show ?thesis by (simp add: stored_run_def)
qed

section \<open>Properties\<close>

text \<open>
  C2: A table created with the string callbacks, the string pointer callbacks or the pointer
  callbacks answers every run of insertions, removals, lookups, counts and resets the way a
  finite map does: each insertion returns the data it replaced, each lookup the data last
  inserted under an equal key, the count is the number of keys, whatever chains the keys
  collide in and whenever the table is rebuilt.
\<close>

theorem hash_table_implements_map:
  "fst (snd (hash_run WMStringHashCallbacks ops WMCreateHashTable)) = snd (map_run ops Map.empty) \<and>
   fst (snd (hash_run WMStringPointerHashCallbacks ops WMCreateHashTable)) =
     snd (map_run ops Map.empty) \<and>
   fst (snd (hash_run WMIntHashCallbacks pops WMCreateHashTable)) = snd (map_run pops Map.empty)"
proof (intro conjI)
  obtain t outs kept released
    where r: "hash_run WMStringHashCallbacks ops WMCreateHashTable = (t, outs, kept, released)"
    by (metis prod_cases4)
  show "fst (snd (hash_run WMStringHashCallbacks ops WMCreateHashTable)) =
      snd (map_run ops Map.empty)"
    using string_table.create_refines [OF r] r by simp
next
  obtain t outs kept released
    where r: "hash_run WMStringPointerHashCallbacks ops WMCreateHashTable = (t, outs, kept, released)"
    by (metis prod_cases4)
  show "fst (snd (hash_run WMStringPointerHashCallbacks ops WMCreateHashTable)) =
      snd (map_run ops Map.empty)"
    using string_pointer_table.create_refines [OF r] r by simp
next
  obtain t outs kept released
    where r: "hash_run WMIntHashCallbacks pops WMCreateHashTable = (t, outs, kept, released)"
    by (metis prod_cases4)
  show "fst (snd (hash_run WMIntHashCallbacks pops WMCreateHashTable)) =
      snd (map_run pops Map.empty)"
    using pointer_table.create_refines [OF r] r by simp
qed

text \<open>
  C3: A table with \<open>WMStringHashCallbacks\<close> never leaks a key, never frees one twice and never holds one
  that was freed: after any run of operations with keys of the caller, the blocks of the keys in the table
  and the blocks released so far are together exactly the blocks that the insertions allocated with \<open>wstrdup\<close>,
  each once; and \<open>WMFreeHashTable\<close> then releases those that remain.
\<close>

theorem string_keys_released_once:
  "case stored_run ops of (t, n, freed) \<Rightarrow>
     n = length (filter is_HInsert ops) \<and>
     mset (map (\<lambda>x. fst (itemKey x)) (concat (tTable t))) + mset freed = mset (map Some [0..<n]) \<and>
     mset (freed @ map fst (WMFreeHashTable (WMStoredStringCallbacks n) t)) = mset (map Some [0..<n])"
proof -
  obtain t n freed where r: "stored_run ops = (t, n, freed)" by (metis prod_cases3)
  have "mset (map fst (WMFreeHashTable (WMStoredStringCallbacks n) t)) = blocks_of t"
    by (simp add: WMFreeHashTable_items WMStoredStringCallbacks_def blocks_of_def items_of_def comp_def)
  then show ?thesis
    using stored_run_kept [of ops] stored_run_blocks [of ops] r
    by (simp add: blocks_kept_def blocks_of_def add.commute)
qed

text \<open>
  Enumerating a table that any run of operations built (the loop over
  \<open>WMNextHashEnumeratorItemAndKey\<close>) ends within one call more than the item count, gives no key
  twice, and gives exactly the bindings of the map that the operations describe.
\<close>

theorem enumeration_complete:
  "case hash_run WMStringHashCallbacks ops WMCreateHashTable of (t, outs, kept, released) \<Rightarrow>
   case enum_loop (Suc (WMCountHashTable t)) (WMEnumerateHashTable t) of (pairs, ended) \<Rightarrow>
     ended \<and> distinct (map snd pairs) \<and>
     (\<forall>d k. (d, k) \<in> set pairs \<longleftrightarrow> fst (map_run ops Map.empty) k = Some d)"
proof -
  obtain t outs kept released
    where r: "hash_run WMStringHashCallbacks ops WMCreateHashTable = (t, outs, kept, released)"
    by (metis prod_cases4)
  obtain pairs ended
    where e: "enum_loop (Suc (WMCountHashTable t)) (WMEnumerateHashTable t) = (pairs, ended)"
    by fastforce
  note R = string_table.create_refines [OF r]
  show ?thesis
    using string_table.enumeration_map [OF conjunct1 [OF R] e] R r e by simp
qed

text \<open>
  C4: The structural invariant of the table: after any run of operations the array has as many
  chains as \<open>size\<close> says, every item is in the chain of its hash value, no two items have equal
  keys, \<open>itemCount\<close> is the number of items and the load never exceeds one item per chain.
\<close>

theorem hash_table_invariant:
  "case hash_run WMStringHashCallbacks ops WMCreateHashTable of (t, outs, kept, released) \<Rightarrow>
     length (tTable t) = tSize t \<and> tItemCount t = length (concat (tTable t)) \<and>
     tItemCount t \<le> tSize t \<and> distinct (map itemKey (concat (tTable t))) \<and>
     (\<forall>i < tSize t. \<forall>x \<in> set (tTable t ! i). HASH WMStringHashCallbacks t (itemKey x) = i)"
proof -
  obtain t outs kept released
    where r: "hash_run WMStringHashCallbacks ops WMCreateHashTable = (t, outs, kept, released)"
    by (metis prod_cases4)
  note W = conjunct1 [OF string_table.create_refines [OF r]]
  show ?thesis
    using W string_table.itemKey_inj_items [OF W] r by (auto simp: ht_wf_def ht_shape_def items_of_def)
qed

theorem hash_table_invariant_witness:
  "let (t, outs, kept, released) =
     hash_run WMStringHashCallbacks [HInsert ''a'' (Some (1::nat))] WMCreateHashTable
   in tTable t ! 5 = [HashItem ''a'' (Some 1)] \<and> HASH WMStringHashCallbacks t ''a'' = 5"
proof -
  obtain t outs kept released where r: "hash_run WMStringHashCallbacks
      [HInsert ''a'' (Some (1::nat))] WMCreateHashTable = (t, outs, kept, released)"
    by (metis prod_cases4)
  have "tTable (fst (hash_run WMStringHashCallbacks [HInsert ''a'' (Some (1::nat))]
      WMCreateHashTable)) ! 5 = [HashItem ''a'' (Some 1)] \<and>
    tSize (fst (hash_run WMStringHashCallbacks [HInsert ''a'' (Some (1::nat))]
      WMCreateHashTable)) = 23"
    by code_simp
  then have t: "tTable t ! 5 = [HashItem ''a'' (Some 1)]" "tSize t = 23" using r by simp_all
  have "\<forall>i < tSize t. \<forall>x \<in> set (tTable t ! i). HASH WMStringHashCallbacks t (itemKey x) = i"
    using hash_table_invariant [of "[HInsert ''a'' (Some (1::nat))]", unfolded r] by simp
  then have "HASH WMStringHashCallbacks t ''a'' = 5"
    using t by (elim allE [of _ 5]) simp
  then show ?thesis using t r by (simp only: Let_def case_prod_conv simp_thms)
qed

text \<open>
  The table keeps its promises under any callbacks that satisfy the contract (an equality that is
  an equivalence on the valid keys, hash values that respect it, copies that are equal): an
  insertion binds exactly the keys equal to its own, returns the old data, and keeps the table
  well formed, through the rebuilding when the table overflows.
\<close>

theorem hash_insert_correct:
  assumes "hash_contract cb valid" "ht_wf cb valid t" "valid key" "valid k"
    and "WMHashInsert cb t key data = (t', old, released)"
  shows "ht_wf cb valid t' \<and> old = WMHashGet cb t key \<and>
    WMHashGet cb t' k = (if KEYEQ cb k key then data else WMHashGet cb t k)"
  using hash_contract.WMHashInsert_spec [OF assms(1,2,3,5)] assms(4)
  by (simp add: WMHashGet_ht_map)

theorem hash_insert_correct_witness:
  "(let (t', old, released) = WMHashInsert WMStringHashCallbacks WMCreateHashTable ''key'' (Some 7)
    in ht_wf WMStringHashCallbacks (\<lambda>_. True) t' \<and> old = NULL \<and>
       WMHashGet WMStringHashCallbacks t' ''key'' = Some (7::nat))"
proof -
  obtain t' old released where r: "WMHashInsert WMStringHashCallbacks WMCreateHashTable ''key''
      (Some (7::nat)) = (t', old, released)" by (metis prod_cases3)
  show ?thesis
    using hash_insert_correct [OF string_table.hash_contract_axioms
        string_table.WMCreateHashTable_wf _ _ r, where k = "''key''"] r
    by (simp add: WMHashGet_ht_map string_table.WMCreateHashTable_map string_table.eq_id)
qed

end
