(* ===== verification/WMMemory.thy ===== *)
theory WMMemory
  imports WMHashTables
begin

text \<open>
  \<open>WMcore/memory.c\<close>: the allocation wrappers, which retry once and abort, and the reference
  counts of \<open>wretain\<close> and \<open>wrelease\<close>, kept in a hash table from pointers to counters that
  are themselves allocated. What \<open>malloc\<close> and \<open>realloc\<close> return is an argument (the result of the
  first and of the second call).
\<close>

section \<open>Allocation\<close>

text \<open>How a call ends: it returns, or the process exits through \<open>exit\<close> or \<open>wAbort\<close>.\<close>

datatype 'p alloc_result = Returned "'p ptr" | AssertFailed | ExitFailure | WAborted

text \<open>
  The two attempts of both functions. The file-level variable \<open>Aborting\<close> is read and set.
\<close>

definition alloc_twice :: "'p ptr \<Rightarrow> 'p ptr \<Rightarrow> bool \<Rightarrow> 'p alloc_result \<times> bool" where
  "alloc_twice alloc1 alloc2 Aborting =
     (case alloc1 of
        Some p \<Rightarrow> (Returned (Some p), Aborting)
      | None \<Rightarrow>
          (case alloc2 of
             Some p \<Rightarrow> (Returned (Some p), Aborting)
           | None \<Rightarrow> if Aborting then (ExitFailure, Aborting) else (WAborted, True)))"

definition wmalloc ::
  "nat \<Rightarrow> 'p ptr \<Rightarrow> 'p ptr \<Rightarrow> bool \<Rightarrow> 'p alloc_result \<times> bool" where
  "wmalloc sz malloc1 malloc2 Aborting =
     (if sz = 0 then (AssertFailed, Aborting) else alloc_twice malloc1 malloc2 Aborting)"

text \<open>\<open>wfree\<close>, and \<open>wrealloc\<close>, which frees: also the list of the blocks freed.\<close>

definition wfree :: "'p ptr \<Rightarrow> 'p list" where
  "wfree p = (case p of None \<Rightarrow> [] | Some a \<Rightarrow> [a])"

definition wrealloc ::
  "'p ptr \<Rightarrow> nat \<Rightarrow> 'p ptr \<Rightarrow> 'p ptr \<Rightarrow> bool \<Rightarrow> ('p alloc_result \<times> bool) \<times> 'p list" where
  "wrealloc p newsize alloc1 alloc2 Aborting =
     (if p = NULL then (wmalloc newsize alloc1 alloc2 Aborting, [])
      else if newsize = 0 then ((Returned NULL, Aborting), wfree p)
      else (alloc_twice alloc1 alloc2 Aborting, []))"

section \<open>Reference counts\<close>

text \<open>
  The file-level \<open>table\<close> (NULL until the first \<open>wretain\<close>), and the counters: \<open>int\<close> cells at
  addresses handed out in order. \<open>freed\<close> lists the pointers that \<open>wrelease\<close> has freed.
\<close>

record memory =
  mTable :: "(64 word, nat) W_HashTable ptr"
  mCells :: "nat \<rightharpoonup> int"
  mNext :: nat

definition memory_init :: memory where
  "memory_init = \<lparr>mTable = NULL, mCells = Map.empty, mNext = 0\<rparr>"

definition wretain_table :: "memory \<Rightarrow> (64 word, nat) W_HashTable" where
  "wretain_table s = (case mTable s of None \<Rightarrow> WMCreateHashTable | Some t \<Rightarrow> t)"

definition wretain :: "64 word \<Rightarrow> memory \<Rightarrow> memory option" where
  "wretain p s =
     (let t = wretain_table s
      in case WMHashGet WMIntHashCallbacks t p of
           None \<Rightarrow>
             (let a = mNext s;
                  t' = fst (WMHashInsert WMIntHashCallbacks t p (Some a))
              in Some (s\<lparr>mTable := Some t', mCells := (mCells s)(a \<mapsto> 1), mNext := Suc a\<rparr>))
         | Some a \<Rightarrow> do {
             n \<leftarrow> mCells s a;
             Some (s\<lparr>mTable := Some t, mCells := (mCells s)(a \<mapsto> n + 1)\<rparr>) })"

datatype release_result = Warned | Decremented | Freed

text \<open>
  With no table yet, \<open>WMHashGet\<close> is called on a null pointer: an invalid access.
\<close>

definition wrelease :: "64 word \<Rightarrow> memory \<Rightarrow> (memory \<times> release_result) option" where
  "wrelease p s = do {
     t \<leftarrow> mTable s;
     (case WMHashGet WMIntHashCallbacks t p of
        None \<Rightarrow> Some (s, Warned)
      | Some a \<Rightarrow> do {
          n \<leftarrow> mCells s a;
          (if n - 1 < 1
           then (let t' = fst (WMHashRemove WMIntHashCallbacks t p)
                 in Some (s\<lparr>mTable := Some t', mCells := (mCells s)(a := None)\<rparr>, Freed))
           else Some (s\<lparr>mCells := (mCells s)(a \<mapsto> n - 1)\<rparr>, Decremented)) }) }"

section \<open>Invariant and abstraction\<close>

abbreviation "int_map \<equiv> ht_map WMIntHashCallbacks"

text \<open>
  The table is well formed; every pointer in it has a counter of its own, that has been
  allocated and is at least 1.
\<close>

definition memory_ok :: "memory \<Rightarrow> bool" where
  "memory_ok s \<longleftrightarrow>
     (let t = wretain_table s
      in ht_wf WMIntHashCallbacks (\<lambda>_. True) t \<and>
         (\<forall>p d. int_map t p = Some d \<longrightarrow>
            (\<exists>a n. d = Some a \<and> a < mNext s \<and> mCells s a = Some n \<and> 1 \<le> n)) \<and>
         (\<forall>p q a. int_map t p = Some (Some a) \<longrightarrow> int_map t q = Some (Some a) \<longrightarrow> p = q))"

text \<open>The number of references to a pointer; 0 when the table does not know it.\<close>

definition refcount :: "memory \<Rightarrow> 64 word \<Rightarrow> int" where
  "refcount s p =
     (case WMHashGet WMIntHashCallbacks (wretain_table s) p of
        None \<Rightarrow> 0
      | Some a \<Rightarrow> (case mCells s a of None \<Rightarrow> 0 | Some n \<Rightarrow> n))"

lemma memory_init_ok: "memory_ok memory_init" "refcount memory_init p = 0"
  by (simp_all add: memory_ok_def memory_init_def wretain_table_def refcount_def WMHashGet_ht_map
      pointer_table.WMCreateHashTable_wf pointer_table.WMCreateHashTable_map)

lemma memory_okD:
  assumes "memory_ok s" "t = wretain_table s"
  shows "ht_wf WMIntHashCallbacks (\<lambda>_. True) t"
    "int_map t p = Some d \<Longrightarrow> \<exists>a n. d = Some a \<and> a < mNext s \<and> mCells s a = Some n \<and> 1 \<le> n"
    "int_map t p = Some (Some a) \<Longrightarrow> int_map t q = Some (Some a) \<Longrightarrow> p = q"
  using assms by (auto simp: memory_ok_def Let_def)

lemma memory_okI:
  assumes "wretain_table s = t" "ht_wf WMIntHashCallbacks (\<lambda>_. True) t"
    "\<And>p d. int_map t p = Some d \<Longrightarrow> \<exists>a n. d = Some a \<and> a < mNext s \<and> mCells s a = Some n \<and> 1 \<le> n"
    "\<And>p q a. int_map t p = Some (Some a) \<Longrightarrow> int_map t q = Some (Some a) \<Longrightarrow> p = q"
  shows "memory_ok s"
  unfolding memory_ok_def assms(1) Let_def using assms(2-4) by blast

text \<open>The table knows a pointer exactly if its count is positive.\<close>

lemma refcount_cases:
  assumes "memory_ok s"
  obtains (unknown) "WMHashGet WMIntHashCallbacks (wretain_table s) p = None"
      "int_map (wretain_table s) p = None" "refcount s p = 0"
    | (known) a n where "WMHashGet WMIntHashCallbacks (wretain_table s) p = Some a"
      "int_map (wretain_table s) p = Some (Some a)" "a < mNext s" "mCells s a = Some n" "1 \<le> n"
      "refcount s p = n"
  using memory_okD(2) [OF assms refl, of p]
  by (cases "int_map (wretain_table s) p") (auto simp: refcount_def WMHashGet_ht_map)

text \<open>Writing a positive value to the counter of a known pointer.\<close>

lemma counter_write:
  assumes ok: "memory_ok s" and a: "int_map (wretain_table s) p = Some (Some a)" and m: "1 \<le> m"
    and t: "wretain_table s' = wretain_table s"
    and c: "mCells s' = (mCells s)(a \<mapsto> m)" "mNext s' = mNext s"
  shows "memory_ok s'" "refcount s' q = (if q = p then m else refcount s q)"
proof -
  note D = memory_okD [OF ok refl]
  have "\<exists>b n. d = Some b \<and> b < mNext s' \<and> mCells s' b = Some n \<and> 1 \<le> n"
    if q: "int_map (wretain_table s) q = Some d" for q d
  proof -
    obtain b n where "d = Some b" "b < mNext s" "mCells s b = Some n" "1 \<le> n"
      using D(2) [OF q] by blast
    then show ?thesis using m unfolding c by (cases "b = a") auto
  qed
  then show "memory_ok s'" using D(1,3) unfolding memory_ok_def t Let_def by blast
  have "b \<noteq> a" if "int_map (wretain_table s) q = Some (Some b)" "q \<noteq> p" for q b
    using that D(3) a by blast
  then show "refcount s' q = (if q = p then m else refcount s q)"
    using a unfolding refcount_def t WMHashGet_ht_map c by (auto split: option.splits)
qed

lemma wretain_correct:
  assumes ok: "memory_ok s"
  shows "\<exists>s'. wretain p s = Some s' \<and> memory_ok s' \<and> mTable s' \<noteq> NULL \<and>
    (\<forall>q. refcount s' q = (if q = p then refcount s p + 1 else refcount s q))"
proof -
  let ?t = "wretain_table s"
  note D = memory_okD [OF ok refl]
  show ?thesis
  proof (cases rule: refcount_cases [OF ok, of p, case_names unknown known])
    case unknown
    let ?a = "mNext s"
    obtain t' old rel where i: "WMHashInsert WMIntHashCallbacks ?t p (Some ?a) = (t', old, rel)"
      by (metis prod_cases3)
    note I = pointer_table.insert_map [OF D(1) i]
    let ?s = "s\<lparr>mTable := Some t', mCells := (mCells s)(?a \<mapsto> 1), mNext := Suc ?a\<rparr>"
    have w: "wretain p s = Some ?s" using unknown i by (simp add: wretain_def Let_def)
    have t: "wretain_table ?s = t'" by (simp add: wretain_table_def)
    have A: "\<exists>b n. d = Some b \<and> b < mNext ?s \<and> mCells ?s b = Some n \<and> 1 \<le> n"
      if q: "int_map t' q = Some d" for q d
    proof (cases "q = p")
      case True
      then have "d = Some ?a" using q I by simp
      then show ?thesis by (intro exI [of _ ?a] exI [of _ 1]) simp
    next
      case False
      then obtain b n where "d = Some b" "b < ?a" "mCells s b = Some n" "1 \<le> n"
        using q I D(2) [of q d] by auto
      then show ?thesis by (intro exI [of _ b] exI [of _ n]) simp
    qed
    have B: "q = r"
      if qr: "int_map t' q = Some (Some b)" "int_map t' r = Some (Some b)" for q r b
    proof -
      have new: "int_map ?t x \<noteq> Some (Some ?a)" for x using D(2) [of x "Some ?a"] by auto
      have "q = p \<longleftrightarrow> b = ?a" "r = p \<longleftrightarrow> b = ?a" using qr I new by (auto split: if_splits)
      moreover have "q = r" if "q \<noteq> p" "r \<noteq> p"
        by (rule D(3) [of q b]) (use qr I that in auto)
      ultimately show ?thesis by blast
    qed
    have "memory_ok ?s"
      by (rule memory_okI [OF t conjunct1 [OF I]]) (erule A, erule (1) B)
    moreover have "refcount ?s q = (if q = p then refcount s p + 1 else refcount s q)" for q
    proof (cases "q = p")
      case True
      then show ?thesis using I unknown(3) by (simp add: refcount_def t WMHashGet_ht_map)
    next
      case False
      then have same: "int_map t' q = int_map ?t q" using I by simp
      show ?thesis
      proof (cases "int_map ?t q")
        case None
        then show ?thesis using same False by (simp add: refcount_def t WMHashGet_ht_map)
      next
        case (Some d)
        then obtain b m where "d = Some b" "b < ?a" "mCells s b = Some m" using D(2) by blast
        then show ?thesis using Some same False by (simp add: refcount_def t WMHashGet_ht_map)
      qed
    qed
    ultimately show ?thesis using w by auto
  next
    case (known a n)
    let ?s = "s\<lparr>mTable := Some ?t, mCells := (mCells s)(a \<mapsto> n + 1)\<rparr>"
    have w: "wretain p s = Some ?s" using known by (simp add: wretain_def Let_def)
    have t: "wretain_table ?s = ?t" by (simp add: wretain_table_def)
    have "memory_ok ?s" "refcount ?s q = (if q = p then refcount s p + 1 else refcount s q)" for q
      using counter_write [OF ok known(2), of "n + 1" ?s] known(5,6) t by auto
    then show ?thesis using w by auto
  qed
qed

lemma wrelease_correct:
  assumes ok: "memory_ok s" and tb: "mTable s \<noteq> NULL"
  shows "\<exists>s' r. wrelease p s = Some (s', r) \<and> memory_ok s' \<and> mTable s' \<noteq> NULL \<and>
    r = (if refcount s p = 0 then Warned else if refcount s p = 1 then Freed else Decremented) \<and>
    (\<forall>q. refcount s' q = (if q = p then max 0 (refcount s p - 1) else refcount s q))"
proof -
  let ?t = "wretain_table s"
  have tt: "mTable s = Some ?t" using tb by (auto simp: wretain_table_def)
  note D = memory_okD [OF ok refl]
  show ?thesis
  proof (cases rule: refcount_cases [OF ok, of p, case_names unknown known])
    case unknown
    then have "wrelease p s = Some (s, Warned)" using tt by (simp add: wrelease_def)
    with unknown ok tb show ?thesis by auto
  next
    case (known a n)
    have other: "b \<noteq> a" if "int_map ?t q = Some (Some b)" "q \<noteq> p" for q b
      using that D(3) known(2) by blast
    show ?thesis
    proof (cases "n = 1")
      case True
      obtain t' rel where i: "WMHashRemove WMIntHashCallbacks ?t p = (t', rel)" by fastforce
      note I = pointer_table.remove_map [OF D(1) i]
      let ?s = "s\<lparr>mTable := Some t', mCells := (mCells s)(a := None)\<rparr>"
      have w: "wrelease p s = Some (?s, Freed)"
        using known True tt i by (simp add: wrelease_def)
      have t: "wretain_table ?s = t'" by (simp add: wretain_table_def)
      have A: "\<exists>b n. d = Some b \<and> b < mNext ?s \<and> mCells ?s b = Some n \<and> 1 \<le> n"
        if "int_map t' q = Some d" for q d
      proof -
        have q: "q \<noteq> p" "int_map ?t q = Some d" using that I by (auto split: if_splits)
        then obtain b n where b: "d = Some b" "b < mNext s" "mCells s b = Some n" "1 \<le> n"
          using D(2) [of q d] by auto
        then show ?thesis using other [of q b] q by auto
      qed
      have B: "q = r" if "int_map t' q = Some (Some b)" "int_map t' r = Some (Some b)" for q r b
        by (rule D(3) [of q b]) (use that I in \<open>auto split: if_splits\<close>)
      have "memory_ok ?s"
        by (rule memory_okI [OF t conjunct1 [OF I]]) (erule A, erule (1) B)
      moreover have "refcount ?s q = (if q = p then max 0 (refcount s p - 1) else refcount s q)" for q
      proof (cases "q = p")
        case True
        then show ?thesis using I known \<open>n = 1\<close> by (simp add: refcount_def t WMHashGet_ht_map)
      next
        case False
        then have same: "int_map t' q = int_map ?t q" using I by simp
        show ?thesis
        proof (cases "int_map ?t q")
          case None
          then show ?thesis using same False by (simp add: refcount_def t WMHashGet_ht_map)
        next
          case (Some d)
          then obtain b m where b: "d = Some b" "mCells s b = Some m" using D(2) by blast
          then show ?thesis
            using Some same False other [of q b] by (simp add: refcount_def t WMHashGet_ht_map)
        qed
      qed
      ultimately show ?thesis using w known True by auto
    next
      case False
      let ?s = "s\<lparr>mCells := (mCells s)(a \<mapsto> n - 1)\<rparr>"
      have w: "wrelease p s = Some (?s, Decremented)"
        using known False tt by (simp add: wrelease_def)
      have t: "wretain_table ?s = ?t" by (simp add: wretain_table_def)
      have "memory_ok ?s"
        "refcount ?s q = (if q = p then max 0 (refcount s p - 1) else refcount s q)" for q
        using counter_write [OF ok known(2), of "n - 1" ?s] known(5,6) False t by auto
      then show ?thesis using w known False tb by auto
    qed
  qed
qed

section \<open>Runs\<close>

datatype memory_op = Retain "64 word" | Release "64 word"

fun memory_run :: "memory_op list \<Rightarrow> memory \<Rightarrow> (memory \<times> 64 word list) option" where
  "memory_run [] s = Some (s, [])"
| "memory_run (Retain p # ops) s = do { s' \<leftarrow> wretain p s; memory_run ops s' }"
| "memory_run (Release p # ops) s = do {
     (s', r) \<leftarrow> wrelease p s;
     (s'', freed) \<leftarrow> memory_run ops s';
     Some (s'', (if r = Freed then [p] else []) @ freed) }"

text \<open>The same on plain counters.\<close>

fun count_run :: "memory_op list \<Rightarrow> (64 word \<Rightarrow> int) \<Rightarrow> (64 word \<Rightarrow> int) \<times> 64 word list" where
  "count_run [] c = (c, [])"
| "count_run (Retain p # ops) c = count_run ops (c(p := c p + 1))"
| "count_run (Release p # ops) c =
     (let (c', freed) = count_run ops (c(p := max 0 (c p - 1)))
      in (c', (if c p = 1 then [p] else []) @ freed))"

lemma memory_run_refines:
  assumes "memory_ok s" "mTable s \<noteq> NULL"
  shows "\<exists>s' freed. memory_run ops s = Some (s', freed) \<and> memory_ok s' \<and>
    count_run ops (refcount s) = (refcount s', freed)"
  using assms
proof (induction ops arbitrary: s)
  case (Cons op ops)
  show ?case
  proof (cases op)
    case (Retain p)
    obtain s1 where s1: "wretain p s = Some s1" "memory_ok s1" "mTable s1 \<noteq> NULL"
      "\<forall>q. refcount s1 q = (if q = p then refcount s p + 1 else refcount s q)"
      using wretain_correct [OF Cons.prems(1)] by blast
    have "refcount s1 = (refcount s)(p := refcount s p + 1)" using s1(4) by auto
    with Cons.IH [OF s1(2,3)] have "\<exists>s' freed. memory_run ops s1 = Some (s', freed) \<and> memory_ok s' \<and>
        count_run ops ((refcount s)(p := refcount s p + 1)) = (refcount s', freed)" by metis
    with Retain s1(1) show ?thesis by simp
  next
    case (Release p)
    obtain s1 r where s1: "wrelease p s = Some (s1, r)" "memory_ok s1" "mTable s1 \<noteq> NULL"
      "r = (if refcount s p = 0 then Warned else if refcount s p = 1 then Freed else Decremented)"
      "\<forall>q. refcount s1 q = (if q = p then max 0 (refcount s p - 1) else refcount s q)"
      using wrelease_correct [OF Cons.prems] by blast
    have "refcount s1 = (refcount s)(p := max 0 (refcount s p - 1))" using s1(5) by auto
    with Cons.IH [OF s1(2,3)] have "\<exists>s' freed. memory_run ops s1 = Some (s', freed) \<and> memory_ok s' \<and>
        count_run ops ((refcount s)(p := max 0 (refcount s p - 1))) = (refcount s', freed)" by metis
    with Release s1(1,4) show ?thesis by auto
  qed
qed (simp)

section \<open>Properties\<close>

text \<open>
  C5: Reference counting: after a first \<open>wretain\<close>, every sequence of \<open>wretain\<close> and \<open>wrelease\<close> runs
  without an invalid access, keeps in the hash table exactly the counters that plain counting
  gives, and frees a pointer exactly at the releases that bring its count from 1 to 0.
\<close>

theorem reference_counts_correct:
  "\<exists>s freed. memory_run (Retain p # ops) memory_init = Some (s, freed) \<and>
     count_run (Retain p # ops) (\<lambda>_. 0) = (refcount s, freed)"
proof -
  obtain s1 where s1: "wretain p memory_init = Some s1" "memory_ok s1" "mTable s1 \<noteq> NULL"
    "\<forall>q. refcount s1 q = (if q = p then refcount memory_init p + 1 else refcount memory_init q)"
    using wretain_correct [OF memory_init_ok(1)] by blast
  have "refcount s1 = (\<lambda>_. 0)(p := 1)" using s1(4) memory_init_ok(2) by auto
  with memory_run_refines [OF s1(2,3), of ops] s1(1) show ?thesis by auto
qed

text \<open>
  \<open>wrelease\<close> before any \<open>wretain\<close> is an invalid access, whatever the pointer: the table
  variable is still NULL and is handed to \<open>WMHashGet\<close>, while with a table an unknown
  pointer only gives a warning.
\<close>

theorem wrelease_needs_table:
  "wrelease p memory_init = None \<and>
   (\<exists>s. wretain q memory_init = Some s \<and>
     (q \<noteq> p \<longrightarrow> (\<exists>s'. wrelease p s = Some (s', Warned))))"
proof -
  obtain s1 where s1: "wretain q memory_init = Some s1" "memory_ok s1" "mTable s1 \<noteq> NULL"
    "\<forall>r. refcount s1 r = (if r = q then refcount memory_init q + 1 else refcount memory_init r)"
    using wretain_correct [OF memory_init_ok(1)] by blast
  moreover have "\<exists>s'. wrelease p s1 = Some (s', Warned)" if "q \<noteq> p"
    using wrelease_correct [OF s1(2,3), of p] s1(4) that memory_init_ok(2) by auto
  ultimately show ?thesis by (auto simp: wrelease_def memory_init_def)
qed

text \<open>
  \<open>wmalloc\<close> and \<open>wrealloc\<close> return only with a block, except that \<open>wrealloc\<close> of a block to
  size 0 frees it and returns NULL: a caller never sees an allocation fail.
\<close>

theorem allocation_never_null:
  "(fst (wmalloc sz m1 m2 aborting) = Returned r \<longrightarrow> r \<noteq> NULL) \<and>
   (fst (fst (wrealloc p sz m1 m2 aborting)) = Returned r \<longrightarrow>
      (r = NULL \<longleftrightarrow> p \<noteq> NULL \<and> sz = 0)) \<and>
   snd (wrealloc p sz m1 m2 aborting) =
     (if sz = 0 then (case p of None \<Rightarrow> [] | Some a \<Rightarrow> [a]) else [])"
  by (auto simp: wmalloc_def wrealloc_def wfree_def alloc_twice_def split: option.splits if_splits)

text \<open>The previous two at concrete inputs.\<close>

theorem wrelease_needs_table_witness:
  "\<exists>s s'. wretain 8 memory_init = Some s \<and> wrelease 16 s = Some (s', Warned)"
  using wrelease_needs_table [of 16 8] by auto

theorem allocation_never_null_witness:
  "fst (wmalloc 4 NULL (Some (5::nat)) False) = Returned (Some 5) \<and> Some (5::nat) \<noteq> NULL"
proof -
  have r: "fst (wmalloc 4 NULL (Some (5::nat)) False) = Returned (Some 5)"
    by (simp add: wmalloc_def alloc_twice_def)
  then show ?thesis using allocation_never_null [of 4 NULL "Some 5" False "Some 5" NULL] by simp
qed

end
