(* ===== verification/WMData.thy ===== *)
theory WMData
  imports WMArrays
begin

text \<open>
  \<open>WMcore/data.c\<close>: byte buffers with a length, a capacity and a growth. The \<open>unsigned\<close> fields
  are natural numbers below \<open>2^32\<close>, and every C addition on them is written with its
  wrap-around (\<open>u32_add\<close>). The bytes are a block (empty for the NULL pointer). \<open>None\<close> is an
  invalid access or a reallocation loop that does not end.
\<close>

section \<open>The structure\<close>

record W_Data =
  dLength :: nat
  dCapacity :: nat
  dGrowth :: nat
  dBytes :: "8 word block ptr"
  dRetainCount :: nat
  dDestructor :: bool
  dFormat :: nat

text \<open>Conversions to \<open>unsigned\<close>, and its wrapping operations.\<close>

definition u32_add :: "nat \<Rightarrow> nat \<Rightarrow> nat" where
  "u32_add a b = (a + b) mod 2 ^ 32"

definition u32_of_int :: "int \<Rightarrow> nat" where
  "u32_of_int i = nat (i mod 2 ^ 32)"

definition half_growth :: "nat \<Rightarrow> nat" where
  "half_growth capacity = (if capacity div 2 > 0 then capacity div 2 else 1)"

text \<open>The bytes behind a pointer; NULL has none.\<close>

definition bytes_block :: "8 word block ptr \<Rightarrow> 8 word block" where
  "bytes_block p = (case p of None \<Rightarrow> [] | Some b \<Rightarrow> b)"

definition put_block :: "8 word block ptr \<Rightarrow> 8 word block \<Rightarrow> 8 word block ptr" where
  "put_block p b = (case p of None \<Rightarrow> NULL | Some _ \<Rightarrow> Some b)"

text \<open>\<open>memcpy\<close> from a buffer of the caller into the bytes of the object.\<close>

definition copy_in ::
  "8 word block ptr \<Rightarrow> nat \<Rightarrow> 8 word block \<Rightarrow> nat \<Rightarrow> 8 word block ptr option" where
  "copy_in p at src n = do {
     b \<leftarrow> mem_copy (bytes_block p) (int at) src 0 (int n);
     Some (put_block p b) }"

section \<open>Creating and destroying\<close>

definition WMCreateDataWithCapacity :: "nat \<Rightarrow> W_Data" where
  "WMCreateDataWithCapacity capacity =
     \<lparr>dLength = 0, dCapacity = capacity, dGrowth = half_growth capacity,
      dBytes = (if capacity > 0 then Some (wmalloc_block 0 (int capacity)) else NULL),
      dRetainCount = 1, dDestructor = True, dFormat = 0\<rparr>"

definition WMCreateDataWithLength :: "nat \<Rightarrow> W_Data" where
  "WMCreateDataWithLength len =
     (let aData = WMCreateDataWithCapacity len
      in if len > 0 then aData\<lparr>dLength := len\<rparr> else aData)"

definition WMCreateDataWithBytes :: "8 word block \<Rightarrow> nat \<Rightarrow> W_Data option" where
  "WMCreateDataWithBytes bytes len = do {
     let aData = (WMCreateDataWithCapacity len)\<lparr>dLength := len\<rparr>;
     p \<leftarrow> copy_in (dBytes aData) 0 bytes len;
     Some (aData\<lparr>dBytes := p\<rparr>) }"

definition WMCreateDataWithBytesNoCopy :: "8 word block ptr \<Rightarrow> nat \<Rightarrow> bool \<Rightarrow> W_Data" where
  "WMCreateDataWithBytesNoCopy bytes len has_destructor =
     \<lparr>dLength = len, dCapacity = len, dGrowth = half_growth len, dBytes = bytes,
      dRetainCount = 1, dDestructor = has_destructor, dFormat = 0\<rparr>"

definition WMCreateDataWithData :: "W_Data \<Rightarrow> W_Data option" where
  "WMCreateDataWithData aData = do {
     newData \<leftarrow> (if dLength aData > 0
                then WMCreateDataWithBytes (bytes_block (dBytes aData)) (dLength aData)
                else Some (WMCreateDataWithCapacity 0));
     Some (newData\<lparr>dFormat := dFormat aData\<rparr>) }"

definition WMRetainData :: "W_Data \<Rightarrow> W_Data" where
  "WMRetainData aData = aData\<lparr>dRetainCount := u32_add (dRetainCount aData) 1\<rparr>"

text \<open>
  The object after the release (NULL once it is freed), and the buffer that the destructor was
  called on. Decrementing an \<open>unsigned\<close> adds \<open>2^32 - 1\<close>.
\<close>

definition WMReleaseData :: "W_Data \<Rightarrow> W_Data ptr \<times> 8 word block ptr" where
  "WMReleaseData aData =
     (let rc = u32_add (dRetainCount aData) (2 ^ 32 - 1)
      in if rc > 0 then (Some (aData\<lparr>dRetainCount := rc\<rparr>), NULL)
         else (NULL, if dBytes aData \<noteq> NULL \<and> dDestructor aData then dBytes aData else NULL))"

section \<open>Capacity and length\<close>

text \<open>\<open>wrealloc\<close>; with NULL and size 0 the assertion in \<open>wmalloc\<close> fails (\<open>None\<close>).\<close>

definition data_wrealloc :: "8 word block ptr \<Rightarrow> nat \<Rightarrow> 8 word block ptr option" where
  "data_wrealloc p n =
     (case p of
        None \<Rightarrow> if n = 0 then None else Some (Some (wmalloc_block 0 (int n)))
      | Some b \<Rightarrow> Some (if n = 0 then NULL else Some (wrealloc_block b (int n))))"

definition WMSetDataCapacity :: "W_Data \<Rightarrow> nat \<Rightarrow> W_Data option" where
  "WMSetDataCapacity aData capacity = do {
     a \<leftarrow> (if dCapacity aData \<noteq> capacity
          then do {
            p \<leftarrow> data_wrealloc (dBytes aData) capacity;
            Some (aData\<lparr>dBytes := p, dCapacity := capacity, dGrowth := half_growth capacity\<rparr>) }
          else Some aData);
     Some (if dLength a > capacity then a\<lparr>dLength := capacity\<rparr> else a) }"

definition WMSetDataLength :: "W_Data \<Rightarrow> nat \<Rightarrow> W_Data option" where
  "WMSetDataLength aData len = do {
     a \<leftarrow> (if len > dCapacity aData then WMSetDataCapacity aData len else Some aData);
     p \<leftarrow> (if len > dLength a
          then do {
            b \<leftarrow> mem_set (bytes_block (dBytes a)) (int (dLength a)) 0 (int (len - dLength a));
            Some (put_block (dBytes a) b) }
          else Some (dBytes a));
     Some (a\<lparr>dBytes := p, dLength := len\<rparr>) }"

definition WMSetDataFormat :: "W_Data \<Rightarrow> nat \<Rightarrow> W_Data" where
  "WMSetDataFormat aData format = aData\<lparr>dFormat := format\<rparr>"

definition WMIncreaseDataLengthBy :: "W_Data \<Rightarrow> nat \<Rightarrow> W_Data option" where
  "WMIncreaseDataLengthBy aData extraLength =
     WMSetDataLength aData (u32_add (dLength aData) extraLength)"

section \<open>Reading\<close>

definition WMDataBytes :: "W_Data \<Rightarrow> 8 word block ptr" where
  "WMDataBytes aData = dBytes aData"

definition WMGetDataFormat :: "W_Data \<Rightarrow> nat" where
  "WMGetDataFormat aData = dFormat aData"

definition WMGetDataLength :: "W_Data \<Rightarrow> nat" where
  "WMGetDataLength aData = dLength aData"

text \<open>A failed \<open>wassertr\<close> warns and returns: the buffer stays as it is.\<close>

definition WMGetDataBytes :: "W_Data \<Rightarrow> 8 word block \<Rightarrow> 8 word block option" where
  "WMGetDataBytes aData buffer =
     (if \<not> dLength aData > 0 then Some buffer
      else mem_copy buffer 0 (bytes_block (dBytes aData)) 0 (int (dLength aData)))"

definition WMGetDataBytesWithLength ::
  "W_Data \<Rightarrow> 8 word block \<Rightarrow> nat \<Rightarrow> 8 word block option" where
  "WMGetDataBytesWithLength aData buffer len =
     (if \<not> dLength aData > 0 then Some buffer
      else if \<not> len \<le> dLength aData then Some buffer
      else mem_copy buffer 0 (bytes_block (dBytes aData)) 0 (int len))"

text \<open>
  Position and count are \<open>int\<close>s compared with an \<open>unsigned\<close>: a negative one counts as a
  huge one. The subtraction is only reached when it does not wrap.
\<close>

definition range_ok :: "W_Data \<Rightarrow> WMRange \<Rightarrow> bool" where
  "range_ok aData aRange \<longleftrightarrow>
     u32_of_int (position aRange) < dLength aData \<and>
     u32_of_int (WMRange.count aRange) \<le> dLength aData - u32_of_int (position aRange)"

definition WMGetDataBytesWithRange ::
  "W_Data \<Rightarrow> 8 word block \<Rightarrow> WMRange \<Rightarrow> 8 word block option" where
  "WMGetDataBytesWithRange aData buffer aRange =
     (if \<not> range_ok aData aRange then Some buffer
      else mem_copy buffer 0 (bytes_block (dBytes aData)) (position aRange) (WMRange.count aRange))"

definition WMGetSubdataWithRange :: "W_Data \<Rightarrow> WMRange \<Rightarrow> W_Data option" where
  "WMGetSubdataWithRange aData aRange =
     (if WMRange.count aRange \<le> 0 then Some (WMCreateDataWithCapacity 0)
      else do {
        buffer \<leftarrow> WMGetDataBytesWithRange aData (wmalloc_block 0 (WMRange.count aRange)) aRange;
        let newData = WMCreateDataWithBytesNoCopy (Some buffer) (nat (WMRange.count aRange)) True;
        Some (newData\<lparr>dFormat := dFormat aData\<rparr>) })"

text \<open>\<open>memcmp\<close> reads both buffers; it stops at nothing it may not read.\<close>

fun cells_equal :: "8 word block \<Rightarrow> 8 word block \<Rightarrow> nat \<Rightarrow> bool option" where
  "cells_equal b c 0 = Some True"
| "cells_equal b c (Suc n) = do {
     x \<leftarrow> cell_read b (int n);
     y \<leftarrow> cell_read c (int n);
     r \<leftarrow> cells_equal b c n;
     Some (r \<and> x = y) }"

definition WMIsDataEqualToData :: "W_Data \<Rightarrow> W_Data \<Rightarrow> bool option" where
  "WMIsDataEqualToData aData anotherData =
     (if dLength aData \<noteq> dLength anotherData then Some False
      else if dBytes aData = NULL \<and> dBytes anotherData = NULL then Some True
      else if dBytes aData = NULL \<or> dBytes anotherData = NULL then Some False
      else cells_equal (bytes_block (dBytes aData)) (bytes_block (dBytes anotherData))
             (dLength aData))"

section \<open>Adding and modifying\<close>

text \<open>
  The loop that computes the next capacity, on the \<open>unsigned\<close> values (\<open>nextCapacity\<close>,
  \<open>nextGrowth\<close>): it could run forever if the sums wrapped around.
\<close>

partial_function (option) grow_loop :: "nat \<Rightarrow> nat \<Rightarrow> nat \<Rightarrow> (nat \<times> nat) option" where
  "grow_loop newLength nextCapacity nextGrowth =
     (if nextCapacity < newLength
      then grow_loop newLength (u32_add nextCapacity nextGrowth) nextCapacity
      else Some (nextCapacity, nextGrowth))"

definition WMAppendDataBytes :: "W_Data \<Rightarrow> 8 word block \<Rightarrow> nat \<Rightarrow> W_Data option" where
  "WMAppendDataBytes aData bytes len = do {
     let oldLength = dLength aData;
     let newLength = u32_add oldLength len;
     a \<leftarrow> (if newLength > dCapacity aData
          then do {
            (nextCapacity, nextGrowth) \<leftarrow> grow_loop newLength
              (u32_add (dCapacity aData) (dGrowth aData))
              (if dCapacity aData \<noteq> 0 then dCapacity aData else 1);
            a \<leftarrow> WMSetDataCapacity aData nextCapacity;
            Some (a\<lparr>dGrowth := nextGrowth\<rparr>) }
          else Some aData);
     p \<leftarrow> copy_in (dBytes a) oldLength bytes len;
     Some (a\<lparr>dBytes := p, dLength := newLength\<rparr>) }"

definition WMAppendData :: "W_Data \<Rightarrow> W_Data \<Rightarrow> W_Data option" where
  "WMAppendData aData anotherData =
     (if dLength anotherData > 0
      then WMAppendDataBytes aData (bytes_block (dBytes anotherData)) (dLength anotherData)
      else Some aData)"

definition WMReplaceDataBytesInRange ::
  "W_Data \<Rightarrow> WMRange \<Rightarrow> 8 word block \<Rightarrow> W_Data option" where
  "WMReplaceDataBytesInRange aData aRange bytes =
     (if \<not> range_ok aData aRange then Some aData
      else do {
        b \<leftarrow> mem_copy (bytes_block (dBytes aData)) (position aRange) bytes 0 (WMRange.count aRange);
        Some (aData\<lparr>dBytes := put_block (dBytes aData) b\<rparr>) })"

definition WMResetDataBytesInRange :: "W_Data \<Rightarrow> WMRange \<Rightarrow> W_Data option" where
  "WMResetDataBytesInRange aData aRange =
     (if \<not> range_ok aData aRange then Some aData
      else do {
        b \<leftarrow> mem_set (bytes_block (dBytes aData)) (position aRange) 0 (WMRange.count aRange);
        Some (aData\<lparr>dBytes := put_block (dBytes aData) b\<rparr>) })"

definition WMSetData :: "W_Data \<Rightarrow> W_Data \<Rightarrow> W_Data option" where
  "WMSetData aData anotherData = do {
     let len = dLength anotherData;
     a \<leftarrow> WMSetDataCapacity aData len;
     p \<leftarrow> (if len > 0 then copy_in (dBytes a) 0 (bytes_block (dBytes anotherData)) len
          else Some (dBytes a));
     Some (a\<lparr>dBytes := p, dLength := len\<rparr>) }"

section \<open>What an object stands for\<close>

text \<open>
  An object represents a list of bytes: its first \<open>length\<close> cells hold them, and the block is as
  large as \<open>capacity\<close> says (the pointer is NULL exactly if that is 0).
\<close>

definition data_rep :: "W_Data \<Rightarrow> 8 word list \<Rightarrow> bool" where
  "data_rep a xs \<longleftrightarrow>
     dLength a = length xs \<and> length (bytes_block (dBytes a)) = dCapacity a \<and>
     (dBytes a = NULL \<longleftrightarrow> dCapacity a = 0) \<and> 0 < dGrowth a \<and> dGrowth a \<le> max 1 (dCapacity a) \<and>
     (\<exists>junk. bytes_block (dBytes a) = map Cell xs @ junk)"

lemma bytes_block_put: "p \<noteq> NULL \<or> b = [] \<Longrightarrow> bytes_block (put_block p b) = b"
  by (auto simp: bytes_block_def put_block_def split: option.splits)

lemma data_repI:
  assumes "bytes_block (dBytes a) = map Cell xs @ junk" "dLength a = length xs"
    "length (bytes_block (dBytes a)) = dCapacity a" "dBytes a = NULL \<longleftrightarrow> dCapacity a = 0"
    "0 < dGrowth a" "dGrowth a \<le> max 1 (dCapacity a)"
  shows "data_rep a xs"
  using assms unfolding data_rep_def by blast

lemma data_repE:
  assumes "data_rep a xs"
  obtains junk where "bytes_block (dBytes a) = map Cell xs @ junk" "dLength a = length xs"
    "dCapacity a = length xs + length junk" "dBytes a = NULL \<longleftrightarrow> xs = [] \<and> junk = []"
    "0 < dGrowth a" "dGrowth a \<le> max 1 (dCapacity a)"
proof -
  obtain junk where j: "bytes_block (dBytes a) = map Cell xs @ junk"
    using assms by (auto simp: data_rep_def)
  moreover have "length (bytes_block (dBytes a)) = length xs + length junk" by (simp add: j)
  ultimately show thesis using assms that by (auto simp: data_rep_def)
qed

lemma half_growth_pos [simp]: "0 < half_growth c" "half_growth c \<le> max 1 c"
  by (auto simp: half_growth_def)

text \<open>Only the bytes and the sizes matter.\<close>

lemma data_rep_cong:
  "dBytes a = dBytes b \<Longrightarrow> dLength a = dLength b \<Longrightarrow> dCapacity a = dCapacity b \<Longrightarrow>
   dGrowth a = dGrowth b \<Longrightarrow> data_rep a xs = data_rep b xs"
  by (simp add: data_rep_def)

text \<open>Copies to and from a prefix of known cells.\<close>

lemma mem_copy_in:
  assumes "at + length ys \<le> length xs + length junk" "at \<le> length xs"
  shows "mem_copy (map Cell xs @ junk) (int at) (map Cell ys @ junk') 0 (int (length ys)) =
    Some (map Cell (take at xs @ ys @ drop (at + length ys) xs) @
      drop (at + length ys - length xs) junk)"
proof -
  have e: "nat (int at + int (length ys)) = at + length ys" by (simp add: nat_add_distrib)
  have b: "int at + int (length ys) \<le> int (length xs) + int (length junk)"
    using assms(1) by linarith
  show ?thesis using assms(2) b by (simp add: mem_copy_def e take_map drop_map)
qed

lemma mem_set_in:
  assumes "at + n \<le> length xs + length junk" "at \<le> length xs"
  shows "mem_set (map Cell xs @ junk) (int at) v (int n) =
    Some (map Cell (take at xs @ replicate n v @ drop (at + n) xs) @ drop (at + n - length xs) junk)"
proof -
  have e: "nat (int at + int n) = at + n" by (simp add: nat_add_distrib)
  have b: "int at + int n \<le> int (length xs) + int (length junk)" using assms(1) by linarith
  show ?thesis using assms(2) b by (simp add: mem_set_def e take_map drop_map)
qed

lemma mem_copy_out:
  assumes "at + n \<le> length xs" "n \<le> length buf"
  shows "mem_copy buf 0 (map Cell xs @ junk) (int at) (int n) =
    Some (map Cell (take n (drop at xs)) @ drop n buf)"
  using assms by (simp add: mem_copy_def take_map drop_map)

text \<open>Changing the capacity truncates.\<close>

lemma WMSetDataCapacity_rep:
  assumes rep: "data_rep a xs"
  shows "\<exists>a'. WMSetDataCapacity a c = Some a' \<and> data_rep a' (take c xs) \<and> dCapacity a' = c"
proof -
  obtain junk where j: "bytes_block (dBytes a) = map Cell xs @ junk" "dLength a = length xs"
    "dCapacity a = length xs + length junk" "dBytes a = NULL \<longleftrightarrow> xs = [] \<and> junk = []"
    "0 < dGrowth a" "dGrowth a \<le> max 1 (dCapacity a)"
    using data_repE [OF rep] by blast
  show ?thesis
  proof (cases "dCapacity a = c")
    case True
    then show ?thesis using rep j by (intro exI [of _ a]) (simp add: WMSetDataCapacity_def)
  next
    case False
    have "\<exists>p junk'. data_wrealloc (dBytes a) c = Some p \<and> bytes_block p = map Cell (take c xs) @ junk' \<and>
        length (bytes_block p) = c \<and> (p = NULL \<longleftrightarrow> c = 0)"
    proof (cases "dBytes a")
      case None
      then have "c \<noteq> 0" "xs = []" using False j(3,4) by auto
      with None show ?thesis by (simp add: data_wrealloc_def bytes_block_def)
    next
      case (Some b)
      then have b: "b = map Cell xs @ junk" using j(1) by (simp add: bytes_block_def)
      show ?thesis
      proof (cases "c = 0")
        case True
        with Some show ?thesis by (simp add: data_wrealloc_def bytes_block_def)
      next
        case False
        then show ?thesis
          using Some by (simp add: data_wrealloc_def bytes_block_def wrealloc_block_def b take_map)
      qed
    qed
    then obtain p junk' where p: "data_wrealloc (dBytes a) c = Some p"
      "bytes_block p = map Cell (take c xs) @ junk'" "length (bytes_block p) = c" "p = NULL \<longleftrightarrow> c = 0"
      by blast
    let ?a = "a\<lparr>dBytes := p, dCapacity := c, dGrowth := half_growth c\<rparr>"
    let ?a' = "if length xs > c then ?a\<lparr>dLength := c\<rparr> else ?a"
    have s: "WMSetDataCapacity a c = Some ?a'" using False p(1) j(2) by (simp add: WMSetDataCapacity_def)
    have r: "data_rep ?a' (take c xs)"
      by (rule data_repI [of _ _ junk']) (use p j(2) in \<open>auto simp: half_growth_def\<close>)
    have "dCapacity ?a' = c" by simp
    with s r show ?thesis by blast
  qed
qed

text \<open>The capacity loop ends, without wrapping, for lengths up to \<open>2^31\<close>.\<close>

lemma grow_loop_ends:
  assumes "newLength \<le> 2 ^ 31" "0 < g" "g \<le> c" "c \<le> 2 ^ 32 - 1"
  shows "\<exists>c' g'. grow_loop newLength c g = Some (c', g') \<and> newLength \<le> c' \<and> 0 < g' \<and> g' \<le> c' \<and>
    c \<le> c' \<and> c' \<le> 2 ^ 32 - 1"
  using assms
proof (induction "newLength - c" arbitrary: c g rule: less_induct)
  case less
  show ?case
  proof (cases "c < newLength")
    case True
    have le: "c + g \<le> 2 ^ 32 - 1" using True less.prems by simp
    then have s: "u32_add c g = c + g" by (simp add: u32_add_def)
    have "newLength - (c + g) < newLength - c" using True less.prems by linarith
    moreover have "0 < c" "c \<le> c + g" using less.prems(2,3) by simp_all
    ultimately obtain c' g' where i: "grow_loop newLength (c + g) c = Some (c', g')" "newLength \<le> c'"
      "0 < g'" "g' \<le> c'" "c + g \<le> c'" "c' \<le> 2 ^ 32 - 1"
      using less.hyps [OF _ less.prems(1) _ _ le] by blast
    have "grow_loop newLength c g = Some (c', g')"
      using True i(1) by (subst grow_loop.simps) (simp add: s)
    then show ?thesis using i(2-6) by auto
  next
    case False
    then show ?thesis using less.prems by (subst grow_loop.simps) auto
  qed
qed

lemma WMAppendDataBytes_rep:
  assumes rep: "data_rep a xs" and len: "length xs + length ys \<le> 2 ^ 31"
  shows "\<exists>a'. WMAppendDataBytes a (map Cell ys @ junk') (length ys) = Some a' \<and> data_rep a' (xs @ ys)"
proof -
  obtain junk where j: "bytes_block (dBytes a) = map Cell xs @ junk" "dLength a = length xs"
    "dCapacity a = length xs + length junk" "dBytes a = NULL \<longleftrightarrow> xs = [] \<and> junk = []"
    "0 < dGrowth a" "dGrowth a \<le> max 1 (dCapacity a)"
    using data_repE [OF rep] by blast
  let ?new = "length xs + length ys"
  have new: "u32_add (length xs) (length ys) = ?new" using len by (simp add: u32_add_def)
  have "\<exists>a1. (if ?new > dCapacity a
      then do {
        (nextCapacity, nextGrowth) \<leftarrow> grow_loop ?new (u32_add (dCapacity a) (dGrowth a))
          (if dCapacity a \<noteq> 0 then dCapacity a else 1);
        a \<leftarrow> WMSetDataCapacity a nextCapacity;
        Some (a\<lparr>dGrowth := nextGrowth\<rparr>) }
      else Some a) = Some a1 \<and> data_rep a1 xs \<and> ?new \<le> dCapacity a1"
  proof (cases "?new > dCapacity a")
    case True
    have le: "dCapacity a + dGrowth a \<le> 2 ^ 32 - 1"
      using True len j(5,6) by (cases "dCapacity a = 0") auto
    then have s: "u32_add (dCapacity a) (dGrowth a) = dCapacity a + dGrowth a"
      by (simp add: u32_add_def)
    let ?g = "if dCapacity a \<noteq> 0 then dCapacity a else 1"
    obtain c' g' where g: "grow_loop ?new (dCapacity a + dGrowth a) ?g = Some (c', g')"
      "?new \<le> c'" "0 < g'" "g' \<le> c'" "dCapacity a + dGrowth a \<le> c'" "c' \<le> 2 ^ 32 - 1"
      using grow_loop_ends [OF len _ _ le, of ?g] j(5) by (cases "dCapacity a = 0") auto
    obtain a2 where a2: "WMSetDataCapacity a c' = Some a2" "data_rep a2 (take c' xs)" "dCapacity a2 = c'"
      using WMSetDataCapacity_rep [OF rep] by blast
    have t: "take c' xs = xs" using g(2) by simp
    have "data_rep (a2\<lparr>dGrowth := g'\<rparr>) xs"
      using a2(2,3) g(3,4) by (auto simp: data_rep_def t)
    then show ?thesis using True a2(1,3) g(1,2) by (simp add: s)
  next
    case False
    then show ?thesis using rep by auto
  qed
  then obtain a1 where a1: "(if ?new > dCapacity a
      then do {
        (nextCapacity, nextGrowth) \<leftarrow> grow_loop ?new (u32_add (dCapacity a) (dGrowth a))
          (if dCapacity a \<noteq> 0 then dCapacity a else 1);
        a \<leftarrow> WMSetDataCapacity a nextCapacity;
        Some (a\<lparr>dGrowth := nextGrowth\<rparr>) }
      else Some a) = Some a1" "data_rep a1 xs" "?new \<le> dCapacity a1"
    by blast
  obtain junk1 where k: "bytes_block (dBytes a1) = map Cell xs @ junk1" "dLength a1 = length xs"
    "dCapacity a1 = length xs + length junk1" "dBytes a1 = NULL \<longleftrightarrow> xs = [] \<and> junk1 = []"
    "0 < dGrowth a1" "dGrowth a1 \<le> max 1 (dCapacity a1)"
    using data_repE [OF a1(2)] by blast
  let ?b = "map Cell (xs @ ys) @ drop (length ys) junk1"
  have c: "mem_copy (map Cell xs @ junk1) (int (length xs)) (map Cell ys @ junk') 0 (int (length ys)) =
      Some ?b"
    using mem_copy_in [of "length xs" ys xs junk1 junk'] a1(3) k(3) by simp
  have ci: "copy_in (dBytes a1) (length xs) (map Cell ys @ junk') (length ys) =
      Some (put_block (dBytes a1) ?b)"
    by (simp add: copy_in_def k(1) c)
  let ?a' = "a1\<lparr>dBytes := put_block (dBytes a1) ?b, dLength := ?new\<rparr>"
  have "dBytes a1 \<noteq> NULL \<or> ?b = []" using k(3,4) a1(3) by auto
  then have bb: "bytes_block (dBytes ?a') = ?b" using bytes_block_put by simp
  have "data_rep ?a' (xs @ ys)"
  proof (rule data_repI [OF bb])
    show "length (bytes_block (dBytes ?a')) = dCapacity ?a'" using bb k(3) a1(3) by simp
    show "dBytes ?a' = NULL \<longleftrightarrow> dCapacity ?a' = 0"
      using k(3,4) by (auto simp: put_block_def split: option.splits)
  qed (use k(5,6) in auto)
  moreover have "WMAppendDataBytes a (map Cell ys @ junk') (length ys) = Some ?a'"
    unfolding WMAppendDataBytes_def Let_def j(2) new a1(1) by (simp add: ci)
  ultimately show ?thesis by blast
qed

text \<open>Writing a known prefix of the block: what the remaining operations have in common.\<close>

lemma data_rep_write:
  assumes rep: "data_rep a xs" and b: "b = map Cell ys @ junk"
    "length b = dCapacity a" and l: "length ys = n"
  shows "data_rep (a\<lparr>dBytes := put_block (dBytes a) b, dLength := n\<rparr>) ys"
proof -
  obtain junk0 where j: "dBytes a = NULL \<longleftrightarrow> dCapacity a = 0" "0 < dGrowth a"
    "dGrowth a \<le> max 1 (dCapacity a)"
    using rep by (auto simp: data_rep_def)
  have bb: "bytes_block (put_block (dBytes a) b) = b"
    using bytes_block_put [of "dBytes a" b] b j(1) by auto
  show ?thesis
    by (rule data_repI [of _ _ junk])
      (use j bb b l in \<open>auto simp: put_block_def split: option.splits\<close>)
qed

lemma data_rep_bytes:
  assumes "data_rep a xs"
  obtains junk where "bytes_block (dBytes a) = map Cell xs @ junk" "dLength a = length xs"
    "dCapacity a = length xs + length junk"
  using data_repE [OF assms] by metis

lemma WMSetDataLength_rep:
  assumes rep: "data_rep a xs"
  shows "\<exists>a'. WMSetDataLength a n = Some a' \<and>
    data_rep a' (take n xs @ replicate (n - length xs) 0)"
proof -
  have "\<exists>a1. (if n > dCapacity a then WMSetDataCapacity a n else Some a) = Some a1 \<and>
      data_rep a1 xs \<and> n \<le> dCapacity a1"
  proof (cases "n > dCapacity a")
    case True
    then have "take n xs = xs" using data_rep_bytes [OF rep] by (metis add_leD1 less_imp_le_nat take_all)
    with True show ?thesis using WMSetDataCapacity_rep [OF rep, of n] by auto
  qed (use rep in auto)
  then obtain a1 where a1: "(if n > dCapacity a then WMSetDataCapacity a n else Some a) = Some a1"
    "data_rep a1 xs" "n \<le> dCapacity a1" by blast
  obtain junk where j: "bytes_block (dBytes a1) = map Cell xs @ junk" "dLength a1 = length xs"
    "dCapacity a1 = length xs + length junk" using data_rep_bytes [OF a1(2)] by metis
  show ?thesis
  proof (cases "n > length xs")
    case True
    let ?k = "n - length xs"
    let ?b = "map Cell (xs @ replicate ?k 0) @ drop ?k junk"
    have "mem_set (map Cell xs @ junk) (int (length xs)) 0 (int ?k) = Some ?b"
      using mem_set_in [of "length xs" ?k xs junk 0] True a1(3) j(3) by simp
    then have s: "WMSetDataLength a n =
        Some (a1\<lparr>dBytes := put_block (dBytes a1) ?b, dLength := n\<rparr>)"
      unfolding WMSetDataLength_def Let_def a1(1) using True j by simp
    have "data_rep (a1\<lparr>dBytes := put_block (dBytes a1) ?b, dLength := n\<rparr>) (xs @ replicate ?k 0)"
      by (rule data_rep_write [OF a1(2) refl]) (use True a1(3) j(3) in auto)
    with s True show ?thesis by simp
  next
    case False
    have "WMSetDataLength a n = Some (a1\<lparr>dLength := n\<rparr>)"
      unfolding WMSetDataLength_def Let_def a1(1) using False j by simp
    moreover have "data_rep (a1\<lparr>dLength := n\<rparr>) (take n xs)"
    proof -
      have "bytes_block (dBytes a1) = map Cell (take n xs) @ map Cell (drop n xs) @ junk"
        by (simp add: j(1) flip: map_append append_assoc)
      then show ?thesis
        using a1(2) False by (intro data_repI) (auto simp: data_rep_def)
    qed
    ultimately show ?thesis using False by simp
  qed
qed

text \<open>The range test, when positions and counts are 32-bit signed values.\<close>

definition is_int :: "int \<Rightarrow> bool" where
  "is_int i \<longleftrightarrow> - (2 ^ 31) \<le> i \<and> i < 2 ^ 31"

definition in_list :: "int \<Rightarrow> int \<Rightarrow> 'x list \<Rightarrow> bool" where
  "in_list p n xs \<longleftrightarrow> 0 \<le> p \<and> 0 \<le> n \<and> p < int (length xs) \<and> p + n \<le> int (length xs)"

lemma u32_of_int_less:
  assumes "is_int i" "n \<le> 2 ^ 31"
  shows "u32_of_int i < n \<longleftrightarrow> 0 \<le> i \<and> i < int n"
proof (cases "0 \<le> i")
  case True
  then show ?thesis using assms by (simp add: u32_of_int_def is_int_def nat_less_iff)
next
  case False
  have "i mod 2 ^ 32 = i + 2 ^ 32"
    using assms(1) False by (subst mod_add_self2 [symmetric], subst mod_pos_pos_trivial) (auto simp: is_int_def)
  then show ?thesis using assms False by (simp add: u32_of_int_def is_int_def nat_less_iff)
qed

lemma range_ok_list:
  assumes rep: "data_rep a xs" and i: "is_int (position r)" "is_int (WMRange.count r)"
    and l: "length xs < 2 ^ 31"
  shows "range_ok a r \<longleftrightarrow> in_list (position r) (WMRange.count r) xs"
proof -
  have d: "dLength a = length xs" using rep by (simp add: data_rep_def)
  show ?thesis
  proof (cases "u32_of_int (position r) < length xs")
    case True
    then have p: "0 \<le> position r" "position r < int (length xs)"
      using u32_of_int_less [OF i(1) less_imp_le [OF l]] by auto
    then have u: "u32_of_int (position r) = nat (position r)"
      using i(1) by (simp add: u32_of_int_def is_int_def)
    have "u32_of_int (WMRange.count r) \<le> length xs - nat (position r) \<longleftrightarrow>
        u32_of_int (WMRange.count r) < length xs - nat (position r) + 1" by arith
    also have "\<dots> \<longleftrightarrow> 0 \<le> WMRange.count r \<and> WMRange.count r < int (length xs - nat (position r) + 1)"
      by (rule u32_of_int_less [OF i(2)]) (use l in linarith)
    finally show ?thesis using p d u by (auto simp: range_ok_def in_list_def)
  next
    case False
    then show ?thesis using u32_of_int_less [OF i(1) less_imp_le [OF l]] d by (auto simp: range_ok_def in_list_def)
  qed
qed

text \<open>Creation, and the operations with a range or a second object.\<close>

lemma WMCreateDataWithCapacity_rep: "data_rep (WMCreateDataWithCapacity c) []"
  by (rule data_repI [of _ _ "wmalloc_block 0 (int c)"])
    (auto simp: WMCreateDataWithCapacity_def bytes_block_def wmalloc_block_def half_growth_def)

lemma copy_in_whole:
  assumes rep: "data_rep a xs" and c: "length ys \<le> dCapacity a" "length xs \<le> length ys"
  shows "\<exists>p. copy_in (dBytes a) 0 (map Cell ys @ junk) (length ys) = Some p \<and>
    data_rep (a\<lparr>dBytes := p, dLength := length ys\<rparr>) ys"
proof -
  obtain junk0 where j: "bytes_block (dBytes a) = map Cell xs @ junk0"
    "dCapacity a = length xs + length junk0" using data_rep_bytes [OF rep] by metis
  let ?b = "map Cell ys @ drop (length ys - length xs) junk0"
  have "mem_copy (map Cell xs @ junk0) 0 (map Cell ys @ junk) 0 (int (length ys)) = Some ?b"
    using mem_copy_in [of 0 ys xs junk0 junk] c j(2) by simp
  then have "copy_in (dBytes a) 0 (map Cell ys @ junk) (length ys) = Some (put_block (dBytes a) ?b)"
    by (simp add: copy_in_def j(1))
  moreover have "data_rep (a\<lparr>dBytes := put_block (dBytes a) ?b, dLength := length ys\<rparr>) ys"
    by (rule data_rep_write [OF rep refl]) (use c j(2) in auto)
  ultimately show ?thesis by blast
qed

lemma WMCreateDataWithBytes_rep:
  "\<exists>a. WMCreateDataWithBytes (map Cell ys @ junk) (length ys) = Some a \<and> data_rep a ys"
proof -
  let ?a = "WMCreateDataWithCapacity (length ys)"
  have "dCapacity ?a = length ys" by (simp add: WMCreateDataWithCapacity_def)
  then obtain p where p: "copy_in (dBytes ?a) 0 (map Cell ys @ junk) (length ys) = Some p"
    "data_rep (?a\<lparr>dBytes := p, dLength := length ys\<rparr>) ys"
    using copy_in_whole [OF WMCreateDataWithCapacity_rep, of ys "length ys" junk] by auto
  have u: "?a\<lparr>dLength := length ys, dBytes := p\<rparr> = ?a\<lparr>dBytes := p, dLength := length ys\<rparr>" by simp
  show ?thesis
    unfolding WMCreateDataWithBytes_def using p by (simp add: u)
qed

lemma WMAppendData_rep:
  assumes a: "data_rep a xs" and b: "data_rep b ys" and l: "length xs + length ys \<le> 2 ^ 31"
  shows "\<exists>a'. WMAppendData a b = Some a' \<and> data_rep a' (xs @ ys)"
proof -
  obtain junk where j: "bytes_block (dBytes b) = map Cell ys @ junk" "dLength b = length ys"
    using data_rep_bytes [OF b] by metis
  show ?thesis
  proof (cases "ys = []")
    case True
    then show ?thesis using a j by (simp add: WMAppendData_def)
  next
    case False
    then show ?thesis using WMAppendDataBytes_rep [OF a l, of junk] j by (simp add: WMAppendData_def)
  qed
qed

lemma WMSetData_rep:
  assumes a: "data_rep a xs" and b: "data_rep b ys"
  shows "\<exists>a'. WMSetData a b = Some a' \<and> data_rep a' ys"
proof -
  obtain junk where j: "bytes_block (dBytes b) = map Cell ys @ junk" "dLength b = length ys"
    using data_rep_bytes [OF b] by metis
  obtain a1 where a1: "WMSetDataCapacity a (length ys) = Some a1" "data_rep a1 (take (length ys) xs)"
    "dCapacity a1 = length ys" using WMSetDataCapacity_rep [OF a] by blast
  show ?thesis
  proof (cases "ys = []")
    case True
    then show ?thesis using a1 j by (auto simp: WMSetData_def data_rep_def)
  next
    case False
    obtain p where "copy_in (dBytes a1) 0 (map Cell ys @ junk) (length ys) = Some p"
      "data_rep (a1\<lparr>dBytes := p, dLength := length ys\<rparr>) ys"
      using copy_in_whole [OF a1(2), of ys junk] a1(3) by auto
    with False show ?thesis using a1 j by (simp add: WMSetData_def)
  qed
qed

lemma range_cases:
  assumes rep: "data_rep a xs" and i: "is_int (position r)" "is_int (WMRange.count r)"
    and l: "length xs < 2 ^ 31"
  obtains (outside) "\<not> range_ok a r" "\<not> in_list (position r) (WMRange.count r) xs"
    | (inside) q n where "range_ok a r" "in_list (position r) (WMRange.count r) xs"
      "position r = int q" "WMRange.count r = int n" "q < length xs" "q + n \<le> length xs"
proof (cases "range_ok a r")
  case True
  then have il: "in_list (position r) (WMRange.count r) xs" using range_ok_list [OF assms] by simp
  then obtain q n where "position r = int q" "WMRange.count r = int n"
    unfolding in_list_def by (metis nonneg_int_cases)
  with inside True il show thesis by (simp add: in_list_def)
next
  case False
  with outside range_ok_list [OF assms] show thesis by simp
qed

lemma WMReplaceDataBytesInRange_rep:
  assumes rep: "data_rep a xs" and i: "is_int (position r)" "is_int (WMRange.count r)"
    and l: "length xs < 2 ^ 31" and ys: "int (length ys) = WMRange.count r"
  shows "\<exists>a'. WMReplaceDataBytesInRange a r (map Cell ys) = Some a' \<and> data_rep a'
    (if in_list (position r) (WMRange.count r) xs
     then take (nat (position r)) xs @ ys @ drop (nat (position r) + length ys) xs else xs)"
proof (cases rule: range_cases [OF rep i l, case_names outside inside])
  case outside
  then show ?thesis using rep by (simp add: WMReplaceDataBytesInRange_def)
next
  case (inside q n)
  obtain junk where j: "bytes_block (dBytes a) = map Cell xs @ junk" "dLength a = length xs"
    "dCapacity a = length xs + length junk" using data_rep_bytes [OF rep] by metis
  have n: "n = length ys" using ys inside(4) by simp
  let ?zs = "take q xs @ ys @ drop (q + length ys) xs"
  let ?b = "map Cell ?zs @ junk"
  have "mem_copy (map Cell xs @ junk) (int q) (map Cell ys) 0 (int (length ys)) = Some ?b"
    using mem_copy_in [of q ys xs junk "[]"] inside(5,6) n by simp
  then have s: "WMReplaceDataBytesInRange a r (map Cell ys) =
      Some (a\<lparr>dBytes := put_block (dBytes a) ?b\<rparr>)"
    using inside n by (simp add: WMReplaceDataBytesInRange_def j)
  have "data_rep (a\<lparr>dBytes := put_block (dBytes a) ?b, dLength := dLength a\<rparr>) ?zs"
    by (rule data_rep_write [OF rep refl]) (use inside(5,6) n j in auto)
  then have "data_rep (a\<lparr>dBytes := put_block (dBytes a) ?b\<rparr>) ?zs" by simp
  with s inside show ?thesis by simp
qed

lemma WMResetDataBytesInRange_rep:
  assumes rep: "data_rep a xs" and i: "is_int (position r)" "is_int (WMRange.count r)"
    and l: "length xs < 2 ^ 31"
  shows "\<exists>a'. WMResetDataBytesInRange a r = Some a' \<and> data_rep a'
    (if in_list (position r) (WMRange.count r) xs
     then take (nat (position r)) xs @ replicate (nat (WMRange.count r)) 0 @
       drop (nat (position r) + nat (WMRange.count r)) xs else xs)"
proof (cases rule: range_cases [OF rep i l, case_names outside inside])
  case outside
  then show ?thesis using rep by (simp add: WMResetDataBytesInRange_def)
next
  case (inside q n)
  obtain junk where j: "bytes_block (dBytes a) = map Cell xs @ junk" "dLength a = length xs"
    "dCapacity a = length xs + length junk" using data_rep_bytes [OF rep] by metis
  let ?zs = "take q xs @ replicate n 0 @ drop (q + n) xs"
  let ?b = "map Cell ?zs @ junk"
  have "mem_set (map Cell xs @ junk) (int q) 0 (int n) = Some ?b"
    using mem_set_in [of q n xs junk 0] inside(5,6) by simp
  then have s: "WMResetDataBytesInRange a r = Some (a\<lparr>dBytes := put_block (dBytes a) ?b\<rparr>)"
    using inside by (simp add: WMResetDataBytesInRange_def j)
  have "data_rep (a\<lparr>dBytes := put_block (dBytes a) ?b, dLength := dLength a\<rparr>) ?zs"
    by (rule data_rep_write [OF rep refl]) (use inside(5,6) j in auto)
  then have "data_rep (a\<lparr>dBytes := put_block (dBytes a) ?b\<rparr>) ?zs" by simp
  with s inside show ?thesis by simp
qed

text \<open>An invalid range of a positive count gives zeros, not an error.\<close>

lemma WMGetSubdataWithRange_rep:
  assumes rep: "data_rep a xs" and i: "is_int (position r)" "is_int (WMRange.count r)"
    and l: "length xs < 2 ^ 31"
  shows "\<exists>b. WMGetSubdataWithRange a r = Some b \<and> data_rep b
    (if WMRange.count r \<le> 0 then []
     else if in_list (position r) (WMRange.count r) xs
     then take (nat (WMRange.count r)) (drop (nat (position r)) xs)
     else replicate (nat (WMRange.count r)) 0)"
proof (cases "WMRange.count r \<le> 0")
  case True
  then show ?thesis by (simp add: WMGetSubdataWithRange_def WMCreateDataWithCapacity_rep)
next
  case False
  let ?buf = "wmalloc_block (0::8 word) (WMRange.count r)" let ?n = "nat (WMRange.count r)"
  have nocopy: "data_rep (WMCreateDataWithBytesNoCopy (Some (map Cell ys)) (length ys) d\<lparr>dFormat := f\<rparr>) ys"
    if "ys \<noteq> []" for ys d f
    by (rule data_repI [of _ _ "[]"])
      (use that in \<open>auto simp: WMCreateDataWithBytesNoCopy_def bytes_block_def half_growth_def Suc_le_eq\<close>)
  have buf: "?buf = map Cell (replicate ?n 0)" by (simp add: wmalloc_block_def)
  show ?thesis
  proof (cases rule: range_cases [OF rep i l, case_names outside inside])
    case outside
    then have "WMGetSubdataWithRange a r = Some
        (WMCreateDataWithBytesNoCopy (Some (map Cell (replicate ?n 0))) (length (replicate ?n (0::8 word)))
          True\<lparr>dFormat := dFormat a\<rparr>)"
      using False by (simp add: WMGetSubdataWithRange_def WMGetDataBytesWithRange_def buf Let_def)
    then show ?thesis using nocopy [of "replicate ?n 0"] False outside by (simp add: not_le)
  next
    case (inside q n)
    obtain junk where j: "bytes_block (dBytes a) = map Cell xs @ junk" "dLength a = length xs"
      using data_rep_bytes [OF rep] by metis
    let ?ys = "take n (drop q xs)"
    have ly: "length ?ys = n" using inside(6) by simp
    have "mem_copy ?buf 0 (map Cell xs @ junk) (int q) (int n) = Some (map Cell ?ys)"
      using mem_copy_out [of q n xs "?buf" junk] inside(4,6) by simp
    then have "WMGetSubdataWithRange a r =
        Some (WMCreateDataWithBytesNoCopy (Some (map Cell ?ys)) (length ?ys) True\<lparr>dFormat := dFormat a\<rparr>)"
      using False inside ly by (simp add: WMGetSubdataWithRange_def WMGetDataBytesWithRange_def j)
    then show ?thesis using nocopy [of ?ys] False inside ly by auto
  qed
qed

text \<open>Equality of the bytes, except for two empty objects of which only one has a buffer.\<close>

lemma cells_equal_prefix:
  "n \<le> length xs \<Longrightarrow> n \<le> length ys \<Longrightarrow>
   cells_equal (map Cell xs @ junk) (map Cell ys @ junk') n = Some (take n xs = take n ys)"
  by (induction n) (auto simp: cell_read_map_Cell take_Suc_conv_app_nth)

lemma WMIsDataEqualToData_rep:
  assumes a: "data_rep a xs" and b: "data_rep b ys"
  shows "WMIsDataEqualToData a b =
    Some (xs = ys \<and> (dCapacity a = 0 \<longleftrightarrow> dCapacity b = 0))"
proof -
  obtain j where j: "bytes_block (dBytes a) = map Cell xs @ j" "dLength a = length xs"
    "dCapacity a = length xs + length j" using data_rep_bytes [OF a] by metis
  obtain k where k: "bytes_block (dBytes b) = map Cell ys @ k" "dLength b = length ys"
    "dCapacity b = length ys + length k" using data_rep_bytes [OF b] by metis
  have n: "dBytes a = NULL \<longleftrightarrow> dCapacity a = 0" "dBytes b = NULL \<longleftrightarrow> dCapacity b = 0"
    using a b by (auto simp: data_rep_def)
  show ?thesis
  proof (cases "length xs = length ys")
    case True
    then have "cells_equal (map Cell xs @ j) (map Cell ys @ k) (length xs) = Some (xs = ys)"
      using cells_equal_prefix [of "length xs" xs ys j k] by simp
    then show ?thesis
      unfolding WMIsDataEqualToData_def n j(1,2) k(1,2) using True j(3) k(3) by auto
  next
    case False
    then show ?thesis using j k by (auto simp: WMIsDataEqualToData_def)
  qed
qed

section \<open>Runs of operations\<close>

datatype data_op =
  DAppend "8 word list" | DAppendData "8 word list" | DSetData "8 word list" | DLength nat
  | DCapacity nat | DReplace int "8 word list" | DReset int int

fun data_step :: "data_op \<Rightarrow> W_Data \<Rightarrow> W_Data option" where
  "data_step (DAppend ys) a = WMAppendDataBytes a (map Cell ys) (length ys)"
| "data_step (DAppendData ys) a = do {
     b \<leftarrow> WMCreateDataWithBytes (map Cell ys) (length ys);
     WMAppendData a b }"
| "data_step (DSetData ys) a = do {
     b \<leftarrow> WMCreateDataWithBytes (map Cell ys) (length ys);
     WMSetData a b }"
| "data_step (DLength n) a = WMSetDataLength a n"
| "data_step (DCapacity n) a = WMSetDataCapacity a n"
| "data_step (DReplace p ys) a =
     WMReplaceDataBytesInRange a \<lparr>position = p, count = int (length ys)\<rparr> (map Cell ys)"
| "data_step (DReset p n) a = WMResetDataBytesInRange a \<lparr>position = p, count = n\<rparr>"

fun data_run :: "data_op list \<Rightarrow> W_Data \<Rightarrow> W_Data option" where
  "data_run [] a = Some a"
| "data_run (op # ops) a = do { a' \<leftarrow> data_step op a; data_run ops a' }"

text \<open>The same on a list of bytes.\<close>

fun bytes_step :: "data_op \<Rightarrow> 8 word list \<Rightarrow> 8 word list" where
  "bytes_step (DAppend ys) xs = xs @ ys"
| "bytes_step (DAppendData ys) xs = xs @ ys"
| "bytes_step (DSetData ys) xs = ys"
| "bytes_step (DLength n) xs = take n xs @ replicate (n - length xs) 0"
| "bytes_step (DCapacity n) xs = take n xs"
| "bytes_step (DReplace p ys) xs =
     (if in_list p (int (length ys)) xs
      then take (nat p) xs @ ys @ drop (nat p + length ys) xs else xs)"
| "bytes_step (DReset p n) xs =
     (if in_list p n xs
      then take (nat p) xs @ replicate (nat n) 0 @ drop (nat p + nat n) xs else xs)"

text \<open>The arguments are C \<open>int\<close>s, and the contents stay below \<open>2^31\<close> bytes.\<close>

fun int_args :: "data_op \<Rightarrow> bool" where
  "int_args (DReplace p ys) \<longleftrightarrow> is_int p \<and> is_int (int (length ys))"
| "int_args (DReset p n) \<longleftrightarrow> is_int p \<and> is_int n"
| "int_args _ \<longleftrightarrow> True"

fun bytes_run :: "data_op list \<Rightarrow> 8 word list \<Rightarrow> 8 word list option" where
  "bytes_run [] xs = Some xs"
| "bytes_run (op # ops) xs =
     (if int_args op \<and> length (bytes_step op xs) < 2 ^ 31 then bytes_run ops (bytes_step op xs)
      else None)"

lemma data_step_rep:
  assumes rep: "data_rep a xs" and l: "length xs < 2 ^ 31"
    and args: "int_args op" and l': "length (bytes_step op xs) < 2 ^ 31"
  shows "\<exists>a'. data_step op a = Some a' \<and> data_rep a' (bytes_step op xs)"
proof (cases op)
  case (DAppend ys)
  then show ?thesis using WMAppendDataBytes_rep [OF rep, of ys "[]"] l' by simp
next
  case (DAppendData ys)
  obtain b where "WMCreateDataWithBytes (map Cell ys) (length ys) = Some b" "data_rep b ys"
    using WMCreateDataWithBytes_rep [of ys "[]"] by auto
  with WMAppendData_rep [OF rep, of b ys] l' DAppendData show ?thesis by simp
next
  case (DSetData ys)
  obtain b where "WMCreateDataWithBytes (map Cell ys) (length ys) = Some b" "data_rep b ys"
    using WMCreateDataWithBytes_rep [of ys "[]"] by auto
  with WMSetData_rep [OF rep, of b ys] DSetData show ?thesis by simp
next
  case (DLength n)
  then show ?thesis using WMSetDataLength_rep [OF rep] by simp
next
  case (DCapacity n)
  then show ?thesis using WMSetDataCapacity_rep [OF rep, of n] by auto
next
  case (DReplace p ys)
  then show ?thesis
    using WMReplaceDataBytesInRange_rep [OF rep, of "\<lparr>position = p, count = int (length ys)\<rparr>" ys] args l
    by (cases "in_list p (int (length ys)) xs") simp_all
next
  case (DReset p n)
  then show ?thesis
    using WMResetDataBytesInRange_rep [OF rep, of "\<lparr>position = p, count = n\<rparr>"] args l
    by (cases "in_list p n xs") simp_all
qed

lemma data_run_rep:
  "data_rep a xs \<Longrightarrow> length xs < 2 ^ 31 \<Longrightarrow> bytes_run ops xs = Some ys \<Longrightarrow>
   \<exists>a'. data_run ops a = Some a' \<and> data_rep a' ys"
proof (induction ops arbitrary: a xs)
  case (Cons op ops)
  from Cons.prems(3) have f: "int_args op" "length (bytes_step op xs) < 2 ^ 31"
    "bytes_run ops (bytes_step op xs) = Some ys" by (auto split: if_splits)
  with data_step_rep [OF Cons.prems(1,2)] Cons.IH [OF _ f(2,3)] show ?case by fastforce
qed simp

section \<open>Properties\<close>

text \<open>
  C6: Every sequence of operations on a data object whose contents stay below \<open>2^31\<close> bytes does
  on the buffer what the same operations do on a list of bytes, without an invalid access and
  with the capacity loops ending: appending, truncating or extending with zeros,
  replacing or clearing a range (ignored when it is not inside), copying another object.
\<close>

theorem data_run_refines_bytes:
  assumes "bytes_run ops [] = Some ys"
  shows "\<exists>a. data_run ops (WMCreateDataWithCapacity capacity) = Some a \<and> data_rep a ys"
  using data_run_rep [OF WMCreateDataWithCapacity_rep _ assms] by simp

theorem data_run_refines_bytes_witness:
  "\<exists>a. data_run [DAppend [1, 2, 3], DReplace 1 [7], DLength 4] (WMCreateDataWithCapacity 2) = Some a \<and>
     data_rep a [1, 7, 3, 0]"
  by (rule data_run_refines_bytes) (simp add: in_list_def is_int_def)

text \<open>
  \<open>WMGetSubdataWithRange\<close> on every branch: no bytes for a count that is not positive, the
  bytes of the range when it is inside the object, and that many zero bytes when it is not (the
  failed assertion only leaves the fresh buffer unfilled).
\<close>

theorem subdata_correct:
  assumes "data_rep a xs" "is_int (position r)" "is_int (WMRange.count r)" "length xs < 2 ^ 31"
  shows "\<exists>b. WMGetSubdataWithRange a r = Some b \<and> data_rep b
    (if WMRange.count r \<le> 0 then []
     else if in_list (position r) (WMRange.count r) xs
     then take (nat (WMRange.count r)) (drop (nat (position r)) xs)
     else replicate (nat (WMRange.count r)) 0)"
  by (rule WMGetSubdataWithRange_rep [OF assms])

theorem subdata_correct_witness:
  "\<exists>b. WMGetSubdataWithRange (WMCreateDataWithCapacity 4) \<lparr>position = 0, count = 2\<rparr> = Some b \<and>
     data_rep b [0, 0]"
  using subdata_correct [OF WMCreateDataWithCapacity_rep, of "\<lparr>position = 0, count = 2\<rparr>" 4]
  by (simp add: is_int_def in_list_def numeral_2_eq_2)

text \<open>
  \<open>WMIsDataEqualToData\<close> compares the bytes, with one exception: two objects without any bytes
  are reported different when exactly one of them has a buffer, although neither holds data.
\<close>

theorem data_equality_characterised:
  assumes "data_rep a xs" "data_rep b ys"
  shows "WMIsDataEqualToData a b = Some (xs = ys \<and> (dCapacity a = 0 \<longleftrightarrow> dCapacity b = 0))"
  by (rule WMIsDataEqualToData_rep [OF assms])

theorem data_equality_characterised_witness:
  "WMIsDataEqualToData (WMCreateDataWithCapacity 0) (WMCreateDataWithCapacity 8) = Some False"
  using data_equality_characterised [OF WMCreateDataWithCapacity_rep WMCreateDataWithCapacity_rep, of 0 8]
  by (simp add: WMCreateDataWithCapacity_def)

end
