(* ===== verification/WMPlist.thy ===== *)
theory WMPlist
  imports WMHashTables
begin

text \<open>
  Property lists (\<open>WMcore/proplist.c\<close>): their values, the hash value and the equality that
  dictionaries use for their keys, and the operations on dictionaries and arrays. A value is a tree:
  the reference counts of the C objects are not part of it. The bytes of a data value stand for a
  data object whose buffer is NULL exactly when it is empty, which is what the parser and
  \<open>WMCreateDataWithBytes\<close> build. The global variable \<open>caseSensitive\<close> is a parameter.
\<close>

section \<open>Values\<close>

datatype W_PropList =
  PLString string
| PLData "8 word list"
| PLArray "W_PropList list"
| PLDictionary "(W_PropList, W_PropList) W_HashTable"

text \<open>The classification of characters in the C locale.\<close>

definition isalnum :: "char \<Rightarrow> bool" where
  "isalnum c \<longleftrightarrow> (let n = of_char c :: nat in
     (48 \<le> n \<and> n \<le> 57) \<or> (65 \<le> n \<and> n \<le> 90) \<or> (97 \<le> n \<and> n \<le> 122))"

definition isspace :: "char \<Rightarrow> bool" where
  "isspace c \<longleftrightarrow> (let n = of_char c :: nat in (9 \<le> n \<and> n \<le> 13) \<or> n = 32)"

definition tolower :: "char \<Rightarrow> char" where
  "tolower c = (let n = of_char c :: nat in
     if 65 \<le> n \<and> n \<le> 90 then char_of (n + 32) else c)"

text \<open>\<open>strcmp\<close> and \<open>strcasecmp\<close> against 0.\<close>

definition strings_equal :: "bool \<Rightarrow> string \<Rightarrow> string \<Rightarrow> bool" where
  "strings_equal caseSensitive a b \<longleftrightarrow>
     (if caseSensitive then a = b else map tolower a = map tolower b)"

section \<open>The hash value of a key\<close>

definition MaxHashLength :: nat where "MaxHashLength = 64"

fun hash_words :: "32 word list \<Rightarrow> 32 word \<Rightarrow> nat \<Rightarrow> 32 word" where
  "hash_words [] ret ctr = ret"
| "hash_words (w # ws) ret ctr = hash_words ws (ret XOR push_bit ctr w) ((ctr + 1) mod 8)"

text \<open>Bytes are read through a \<open>char *\<close>: sign-extended. Arrays and dictionaries hash to 0.\<close>

definition hashPropList :: "W_PropList \<Rightarrow> 32 word" where
  "hashPropList plist =
     (case plist of
        PLString s \<Rightarrow> hash_words (map (\<lambda>c. char_to_int (tolower c)) (take MaxHashLength s)) 0 0
      | PLData bs \<Rightarrow> hash_words (map scast (take MaxHashLength bs)) 0 0
      | _ \<Rightarrow> 0)"

section \<open>Equality\<close>

text \<open>The chain that \<open>WMHashGet\<close> searches for a key.\<close>

definition chain_for ::
  "(W_PropList, W_PropList) W_HashTable \<Rightarrow> W_PropList \<Rightarrow> (W_PropList, W_PropList) HashItem list"
where
  "chain_for t key = (let h = unat (hashPropList key) mod tSize t
     in if h < length (tTable t) then tTable t ! h else [])"

text \<open>Sizes of the parts of a value, for the termination of the functions over it.\<close>

lemma size_array_elem: "x \<in> set xs \<Longrightarrow> size x < size (PLArray xs)"
  by (induction xs) auto

lemma size_list_mono: "x \<in> set xs \<Longrightarrow> f x \<le> size_list f xs"
  by (induction xs) auto

lemma size_table_item:
  assumes "x \<in> set (concat (tTable t))"
  shows "size (itemKey x) < size (PLDictionary t)"
    "itemData x = Some v \<Longrightarrow> size v < size (PLDictionary t)"
    "size_HashItem size size x < size (PLDictionary t)"
proof -
  obtain c where c: "c \<in> set (tTable t)" "x \<in> set c" using assms by auto
  have "size_HashItem size size x \<le> size_list (size_HashItem size size) c"
    using size_list_mono [OF c(2)] by metis
  also have "\<dots> \<le> size_list (size_list (size_HashItem size size)) (tTable t)"
    using size_list_mono [OF c(1)] by metis
  also have "\<dots> < size (PLDictionary t)" by (cases t) simp
  finally show s: "size_HashItem size size x < size (PLDictionary t)" .
  have "size (itemKey x) \<le> size_HashItem size size x" by (cases x) simp
  with s show "size (itemKey x) < size (PLDictionary t)" by linarith
  have "size v \<le> size_HashItem size size x" if "itemData x = Some v" using that by (cases x) simp
  with s show "itemData x = Some v \<Longrightarrow> size v < size (PLDictionary t)" by fastforce
qed

lemma chain_for_items: "x \<in> set (chain_for t key) \<Longrightarrow> x \<in> set (concat (tTable t))"
  by (auto simp: chain_for_def Let_def split: if_splits intro: nth_mem)

lemma size_list_concat: "size_list f (concat css) \<le> size_list (size_list f) css"
  by (induction css) (auto simp: size_list_append)

lemma size_table_items:
  "size_list (size_HashItem size size) (concat (tTable t)) < size (PLDictionary t)"
proof -
  have "size_list (size_HashItem size size) (concat (tTable t)) \<le>
      size_list (size_list (size_HashItem size size)) (tTable t)"
    by (rule size_list_concat)
  also have "\<dots> < size (PLDictionary t)" by (cases t) simp
  finally show ?thesis .
qed

lemma size_chain: "size_list (size_HashItem size size) (chain_for t key) < size (PLDictionary t)"
proof -
  have "size_list (size_HashItem size size) (chain_for t key) \<le>
      size_list (size_list (size_HashItem size size)) (tTable t)"
    by (cases t) (auto simp: chain_for_def Let_def intro!: size_list_mono nth_mem)
  also have "\<dots> < size (PLDictionary t)" by (cases t) simp
  finally show ?thesis .
qed

lemma size_item_parts:
  "size (itemKey x) < size_HashItem size size x"
  "itemData x = Some v \<Longrightarrow> size v < size_HashItem size size x"
  by (cases x; simp)+

text \<open>
  \<open>WMIsPropListEqualTo\<close>. Dictionaries are compared by their counts and by looking up every key
  of the first in the second: \<open>lookup_equal\<close> is the search of the chain, followed at the item found
  by the comparison of the two data.
\<close>

function (sequential)
  WMIsPropListEqualTo :: "bool \<Rightarrow> W_PropList \<Rightarrow> W_PropList \<Rightarrow> bool"
  and elements_equal :: "bool \<Rightarrow> W_PropList list \<Rightarrow> W_PropList list \<Rightarrow> bool"
  and items_equal ::
    "bool \<Rightarrow> (W_PropList, W_PropList) HashItem list \<Rightarrow> (W_PropList, W_PropList) W_HashTable \<Rightarrow> bool"
  and lookup_equal ::
    "bool \<Rightarrow> (W_PropList, W_PropList) HashItem \<Rightarrow> (W_PropList, W_PropList) HashItem list \<Rightarrow> bool"
where
  "WMIsPropListEqualTo cs (PLString a) (PLString b) = strings_equal cs a b"
| "WMIsPropListEqualTo cs (PLData a) (PLData b) = (a = b)"
| "WMIsPropListEqualTo cs (PLArray xs) (PLArray ys) =
     (length xs = length ys \<and> elements_equal cs xs ys)"
| "WMIsPropListEqualTo cs (PLDictionary t) (PLDictionary u) =
     (tItemCount t = tItemCount u \<and> items_equal cs (concat (tTable t)) u)"
| "WMIsPropListEqualTo cs p q = False"
| "elements_equal cs (x # xs) (y # ys) = (WMIsPropListEqualTo cs x y \<and> elements_equal cs xs ys)"
| "elements_equal cs _ _ = True"
| "items_equal cs [] u = True"
| "items_equal cs (x # xs) u =
     (lookup_equal cs x (chain_for u (itemKey x)) \<and> items_equal cs xs u)"
| "lookup_equal cs x [] = False"
| "lookup_equal cs x (y # ys) =
     (if WMIsPropListEqualTo cs (itemKey x) (itemKey y)
      then (case (itemData x, itemData y) of
              (Some a, Some b) \<Rightarrow> WMIsPropListEqualTo cs a b
            | _ \<Rightarrow> False)
      else lookup_equal cs x ys)"
  by pat_completeness auto

termination
proof (relation "measure (\<lambda>a. case a of
     Inl (Inl (cs, p, q)) \<Rightarrow> size p + size q
   | Inl (Inr (cs, xs, ys)) \<Rightarrow> size_list size xs + size_list size ys
   | Inr (Inl (cs, xs, u)) \<Rightarrow> size_list (size_HashItem size size) xs + size (PLDictionary u)
   | Inr (Inr (cs, x, ys)) \<Rightarrow> size_HashItem size size x + size_list (size_HashItem size size) ys)",
   goal_cases)
  case (3 cs t u)
  show ?case using size_table_items [of t] by simp
next
  case (6 cs x xs u)
  show ?case using size_chain [of u "itemKey x"] by (cases x) simp
next
  case (8 cs x y ys)
  show ?case using size_item_parts(1) [of x] size_item_parts(1) [of y] by simp
next
  case (9 cs x y ys d e a b)
  then have "size a < size_HashItem size size x" "size b < size_HashItem size size y"
    using size_item_parts(2) [of x] size_item_parts(2) [of y] by auto
  then show ?case by simp
qed auto

section \<open>The callbacks of dictionaries\<close>

definition WMPropListHashCallbacks :: "bool \<Rightarrow> W_PropList WMHashTableCallbacks" where
  "WMPropListHashCallbacks cs =
     \<lparr>hash = Some hashPropList, keyIsEqual = Some (WMIsPropListEqualTo cs), retainKey = None,
      releaseKey = False, keyPtr = (\<lambda>_. 0)\<rparr>"

text \<open>The values that the library accepts as keys: only strings and data have hash values.\<close>

fun is_key :: "W_PropList \<Rightarrow> bool" where
  "is_key (PLString s) \<longleftrightarrow> True"
| "is_key (PLData bs) \<longleftrightarrow> True"
| "is_key _ \<longleftrightarrow> False"

lemma KEYEQ_plist: "KEYEQ (WMPropListHashCallbacks cs) = WMIsPropListEqualTo cs"
  by (rule ext)+ (simp add: KEYEQ_def WMPropListHashCallbacks_def)

lemma DUPKEY_plist: "DUPKEY (WMPropListHashCallbacks cs) k = k"
  by (simp add: DUPKEY_def WMPropListHashCallbacks_def)

lemma hash_value_plist: "hash_value (WMPropListHashCallbacks cs) = hashPropList"
  by (rule ext) (simp add: hash_value_def WMPropListHashCallbacks_def)

lemma strings_equal_tolower: "strings_equal cs a b \<Longrightarrow> map tolower a = map tolower b"
  by (simp add: strings_equal_def split: if_splits)

lemma key_equal_cases:
  assumes "is_key k" "WMIsPropListEqualTo cs k l"
  obtains (strings) a b where "k = PLString a" "l = PLString b" "strings_equal cs a b"
    | (data) bs where "k = PLData bs" "l = PLData bs"
  using assms by (cases k; cases l) auto

lemma key_equal_hash:
  assumes "is_key k" "WMIsPropListEqualTo cs k l"
  shows "hashPropList k = hashPropList l"
  using assms
proof (cases rule: key_equal_cases)
  case (strings a b)
  have "take MaxHashLength (map tolower a) = take MaxHashLength (map tolower b)"
    using strings(3) by (simp add: strings_equal_tolower)
  then have "map char_to_int (take MaxHashLength (map tolower a)) =
      map char_to_int (take MaxHashLength (map tolower b))" by simp
  then show ?thesis by (simp add: strings hashPropList_def take_map comp_def)
qed simp

lemma key_equal_trans:
  assumes "is_key k" "WMIsPropListEqualTo cs k l" "WMIsPropListEqualTo cs l m"
  shows "WMIsPropListEqualTo cs k m"
  using assms(1,2)
proof (cases rule: key_equal_cases)
  case (strings a b)
  then show ?thesis using assms(3) by (cases m) (auto simp: strings_equal_def split: if_splits)
qed (use assms(3) in simp)

interpretation plist_keys: hash_contract "WMPropListHashCallbacks cs" is_key for cs
proof (unfold_locales, goal_cases)
  case (1 k)
  then show ?case by (cases k) (auto simp: KEYEQ_plist strings_equal_def)
next
  case (2 k l)
  then show ?case by (cases k; cases l) (auto simp: KEYEQ_plist strings_equal_def split: if_splits)
next
  case (3 k l m)
  then show ?case using key_equal_trans by (auto simp: KEYEQ_plist)
next
  case (4 k l)
  then show ?case using key_equal_hash by (simp add: KEYEQ_plist hash_value_plist)
next
  case (6 k)
  then show ?case by (cases k) (auto simp: KEYEQ_plist DUPKEY_plist strings_equal_def)
qed (simp add: DUPKEY_plist)

section \<open>Well-formed values\<close>

text \<open>
  What every value built by the library satisfies: the dictionaries are well-formed tables whose
  keys are strings or data, no value is NULL, and strings have no NUL character inside.
\<close>

abbreviation dict_wf :: "bool \<Rightarrow> (W_PropList, 'v) W_HashTable \<Rightarrow> bool" where
  "dict_wf cs \<equiv> ht_wf (WMPropListHashCallbacks cs) is_key"

function valid_plist :: "bool \<Rightarrow> W_PropList \<Rightarrow> bool" where
  "valid_plist cs (PLString s) \<longleftrightarrow> CHR 0x00 \<notin> set s"
| "valid_plist cs (PLData bs) \<longleftrightarrow> True"
| "valid_plist cs (PLArray xs) \<longleftrightarrow> (\<forall>x \<in> set xs. valid_plist cs x)"
| "valid_plist cs (PLDictionary t) \<longleftrightarrow> dict_wf cs t \<and>
     (\<forall>x \<in> set (concat (tTable t)). valid_plist cs (itemKey x) \<and>
        (case itemData x of None \<Rightarrow> False | Some v \<Rightarrow> valid_plist cs v))"
  by pat_completeness auto
termination
proof (relation "measure (\<lambda>(cs, p). size p)", goal_cases)
  case (2 cs xs x)
  then show ?case using size_array_elem by simp
next
  case (3 cs t x)
  then show ?case using size_table_item(1) [OF 3] by simp
next
  case (4 cs t x v)
  then show ?case using size_table_item(2) [OF 4(1)] by simp
qed auto

text \<open>An induction over values that gives the hypotheses for the items of a dictionary.\<close>

lemma plist_induct [case_names PLString PLData PLArray PLDictionary]:
  assumes "\<And>s. P (PLString s)" "\<And>bs. P (PLData bs)"
    and "\<And>xs. (\<And>x. x \<in> set xs \<Longrightarrow> P x) \<Longrightarrow> P (PLArray xs)"
    and "\<And>t. (\<And>x. x \<in> set (items_of t) \<Longrightarrow> P (itemKey x)) \<Longrightarrow>
      (\<And>x v. x \<in> set (items_of t) \<Longrightarrow> itemData x = Some v \<Longrightarrow> P v) \<Longrightarrow> P (PLDictionary t)"
  shows "P p"
proof (induction p rule: measure_induct_rule [of size])
  case (less p)
  show ?case
  proof (cases p)
    case (PLArray xs)
    then show ?thesis using assms(3) less size_array_elem by metis
  next
    case (PLDictionary t)
    show ?thesis
      unfolding PLDictionary
    proof (rule assms(4))
      fix x assume x: "x \<in> set (items_of t)"
      then show "P (itemKey x)"
        using less size_table_item(1) PLDictionary unfolding items_of_def by blast
      show "P v" if "itemData x = Some v" for v
        using x that less size_table_item(2) PLDictionary unfolding items_of_def by blast
    qed
  qed (use assms(1,2) in simp_all)
qed

text \<open>What the comparison of two dictionaries comes to.\<close>

lemma chain_for_HASH:
  assumes "dict_wf cs u"
  shows "chain_for u k = tTable u ! HASH (WMPropListHashCallbacks cs) u k"
  using assms by (simp add: chain_for_def HASH_def hash_value_plist ht_wf_def ht_shape_def Let_def)

lemma lookup_equal_find:
  "lookup_equal cs x chain \<longleftrightarrow>
     (case chain_find (WMPropListHashCallbacks cs) (itemKey x) chain of
        None \<Rightarrow> False
      | Some y \<Rightarrow> (case (itemData x, itemData y) of
                     (Some a, Some b) \<Rightarrow> WMIsPropListEqualTo cs a b | _ \<Rightarrow> False))"
  by (induction chain) (auto simp: KEYEQ_plist)

lemma items_equal_iff:
  assumes u: "dict_wf cs u"
  shows "items_equal cs xs u \<longleftrightarrow> (\<forall>x \<in> set xs.
     \<exists>a b. itemData x = Some a \<and> WMHashGet (WMPropListHashCallbacks cs) u (itemKey x) = Some b \<and>
       WMIsPropListEqualTo cs a b)"
proof (induction xs)
  case (Cons x xs)
  have "lookup_equal cs x (chain_for u (itemKey x)) \<longleftrightarrow> (\<exists>a b. itemData x = Some a \<and>
      WMHashGet (WMPropListHashCallbacks cs) u (itemKey x) = Some b \<and> WMIsPropListEqualTo cs a b)"
    by (simp add: lookup_equal_find chain_for_HASH [OF u] WMHashGet_def hashGetItem_def
        split: option.splits)
  with Cons show ?case by simp
qed simp

lemma elements_equal_iff:
  "length xs = length ys \<Longrightarrow> elements_equal cs xs ys \<longleftrightarrow> list_all2 (WMIsPropListEqualTo cs) xs ys"
  by (induction xs ys rule: list_induct2) auto

lemma arrays_equal:
  "WMIsPropListEqualTo cs (PLArray xs) (PLArray ys) \<longleftrightarrow> list_all2 (WMIsPropListEqualTo cs) xs ys"
  using elements_equal_iff list_all2_lengthD by (metis WMIsPropListEqualTo.simps(3))

lemma dictionaries_equal:
  assumes "dict_wf cs u"
  shows "WMIsPropListEqualTo cs (PLDictionary t) (PLDictionary u) \<longleftrightarrow>
    WMCountHashTable t = WMCountHashTable u \<and> (\<forall>x \<in> set (items_of t). \<exists>a b. itemData x = Some a \<and>
      WMHashGet (WMPropListHashCallbacks cs) u (itemKey x) = Some b \<and> WMIsPropListEqualTo cs a b)"
  using items_equal_iff [OF assms, of "items_of t"] by (simp add: items_of_def WMCountHashTable_def)

text \<open>Every well-formed value equals itself.\<close>

lemma plist_equal_refl: "valid_plist cs p \<Longrightarrow> WMIsPropListEqualTo cs p p"
proof (induction p rule: plist_induct)
  case (PLDictionary t)
  then have wf: "dict_wf cs t" by simp
  show ?case
    unfolding dictionaries_equal [OF wf]
  proof (intro conjI ballI refl)
    fix x assume x: "x \<in> set (items_of t)"
    then obtain v where v: "itemData x = Some v" "valid_plist cs v" "valid_plist cs (itemKey x)"
      using PLDictionary.prems by (fastforce simp: items_of_def split: option.splits)
    have shape: "ht_shape (WMPropListHashCallbacks cs) is_key t" using wf by (simp add: ht_wf_def)
    have k: "is_key (itemKey x)" using plist_keys.items_valid [OF shape x] .
    have "hashGetItem (WMPropListHashCallbacks cs) t (itemKey x) = Some x"
      using plist_keys.hashGetItem_iff [OF shape k] x plist_keys.eq_refl [OF k] by simp
    then show "\<exists>a b. itemData x = Some a \<and>
        WMHashGet (WMPropListHashCallbacks cs) t (itemKey x) = Some b \<and> WMIsPropListEqualTo cs a b"
      using v PLDictionary.IH(2) [OF x v(1) v(2)] by (simp add: WMHashGet_def)
  qed
next
  case (PLArray xs)
  then show ?case unfolding arrays_equal by (intro list.rel_refl_strong) auto
qed (auto simp: strings_equal_def)

section \<open>Operations on dictionaries\<close>

text \<open>
  The operations return the new value of the list they change. The reference counts that
  \<open>retainPropListByCount\<close> and \<open>releasePropListByCount\<close> adjust are not part of the values.
\<close>

definition WMCreatePLDictionary :: "W_PropList" where
  "WMCreatePLDictionary = PLDictionary WMCreateHashTable"

definition WMGetFromPLDictionary :: "bool \<Rightarrow> W_PropList \<Rightarrow> W_PropList \<Rightarrow> W_PropList ptr" where
  "WMGetFromPLDictionary cs plist key =
     (case plist of
        PLDictionary t \<Rightarrow> WMHashGet (WMPropListHashCallbacks cs) t key
      | _ \<Rightarrow> NULL)"

definition remove_key ::
  "bool \<Rightarrow> (W_PropList, 'v) W_HashTable \<Rightarrow> W_PropList \<Rightarrow>
   (W_PropList, 'v) W_HashTable" where
  "remove_key cs t key =
     (case WMHashGetItemAndKey (WMPropListHashCallbacks cs) t key of
        None \<Rightarrow> t
      | Some (v, k) \<Rightarrow> fst (WMHashRemove (WMPropListHashCallbacks cs) t k))"

definition WMRemoveFromPLDictionary :: "bool \<Rightarrow> W_PropList \<Rightarrow> W_PropList \<Rightarrow> W_PropList" where
  "WMRemoveFromPLDictionary cs plist key =
     (case plist of PLDictionary t \<Rightarrow> PLDictionary (remove_key cs t key) | _ \<Rightarrow> plist)"

definition put_key ::
  "bool \<Rightarrow> (W_PropList, 'v) W_HashTable \<Rightarrow> W_PropList \<Rightarrow> 'v \<Rightarrow>
   (W_PropList, 'v) W_HashTable" where
  "put_key cs t key value =
     fst (WMHashInsert (WMPropListHashCallbacks cs) (remove_key cs t key) key (Some value))"

definition WMPutInPLDictionary ::
  "bool \<Rightarrow> W_PropList \<Rightarrow> W_PropList \<Rightarrow> W_PropList \<Rightarrow> W_PropList" where
  "WMPutInPLDictionary cs plist key value =
     (case plist of PLDictionary t \<Rightarrow> PLDictionary (put_key cs t key value) | _ \<Rightarrow> plist)"

definition WMGetPLDictionaryKeys :: "W_PropList \<Rightarrow> W_PropList ptr" where
  "WMGetPLDictionaryKeys plist =
     (case plist of
        PLDictionary t \<Rightarrow>
          Some (PLArray (map snd (fst (enum_loop (Suc (WMCountHashTable t)) (WMEnumerateHashTable t)))))
      | _ \<Rightarrow> NULL)"

definition WMGetPropListItemCount :: "W_PropList \<Rightarrow> nat" where
  "WMGetPropListItemCount plist =
     (case plist of PLArray xs \<Rightarrow> length xs | PLDictionary t \<Rightarrow> WMCountHashTable t | _ \<Rightarrow> 0)"

text \<open>The bindings of a dictionary, and what the operations do to them.\<close>

abbreviation plist_map ::
  "bool \<Rightarrow> (W_PropList, 'v) W_HashTable \<Rightarrow> W_PropList \<Rightarrow> 'v ptr option" where
  "plist_map cs \<equiv> ht_map (WMPropListHashCallbacks cs)"

lemma remove_key_spec:
  assumes wf: "dict_wf cs t" and k: "is_key key"
  shows "dict_wf cs (remove_key cs t key)"
    "is_key l \<Longrightarrow> plist_map cs (remove_key cs t key) l =
       (if WMIsPropListEqualTo cs l key then None else plist_map cs t l)"
    "WMCountHashTable (remove_key cs t key) =
       WMCountHashTable t - (if plist_map cs t key = None then 0 else 1)"
proof -
  let ?cb = "WMPropListHashCallbacks cs"
  have shape: "ht_shape ?cb is_key t" using wf by (simp add: ht_wf_def)
  have *: "dict_wf cs (remove_key cs t key) \<and>
    (is_key l \<longrightarrow> plist_map cs (remove_key cs t key) l =
       (if WMIsPropListEqualTo cs l key then None else plist_map cs t l)) \<and>
    WMCountHashTable (remove_key cs t key) =
       WMCountHashTable t - (if plist_map cs t key = None then 0 else 1)" for l
  proof (cases "hashGetItem ?cb t key")
    case None
    then have same: "remove_key cs t key = t" "plist_map cs t key = None"
      by (simp_all add: remove_key_def WMHashGetItemAndKey_def ht_map_def)
    have "plist_map cs t l = None" if "is_key l" "WMIsPropListEqualTo cs l key"
    proof -
      have "\<not> WMIsPropListEqualTo cs l (itemKey y)" if "y \<in> set (items_of t)" for y
      proof
        assume "WMIsPropListEqualTo cs l (itemKey y)"
        moreover have "WMIsPropListEqualTo cs key l"
          using plist_keys.eq_sym \<open>is_key l\<close> k \<open>WMIsPropListEqualTo cs l key\<close> unfolding KEYEQ_plist by blast
        ultimately have "WMIsPropListEqualTo cs key (itemKey y)" using key_equal_trans k by blast
        then show False
          using plist_keys.ht_map_None [OF shape k] same(2) \<open>y \<in> set (items_of t)\<close>
          unfolding KEYEQ_plist by blast
      qed
      then show ?thesis using plist_keys.ht_map_None [OF shape that(1)] unfolding KEYEQ_plist by blast
    qed
    then show ?thesis using wf same by auto
  next
    case (Some x)
    have x: "x \<in> set (items_of t)" "WMIsPropListEqualTo cs key (itemKey x)"
      using plist_keys.hashGetItem_iff [OF shape k] Some unfolding KEYEQ_plist by auto
    have kx: "is_key (itemKey x)" using plist_keys.items_valid [OF shape x(1)] .
    have r: "remove_key cs t key = fst (WMHashRemove ?cb t (itemKey x))"
      using Some by (simp add: remove_key_def WMHashGetItemAndKey_def)
    obtain t' rel where t': "WMHashRemove ?cb t (itemKey x) = (t', rel)" by fastforce
    note R = plist_keys.WMHashRemove_spec [OF wf kx t']
    have bound: "plist_map cs t (itemKey x) \<noteq> None" "plist_map cs t key \<noteq> None"
      using plist_keys.ht_map_None [OF shape kx] plist_keys.ht_map_None [OF shape k] x
        plist_keys.eq_refl [OF kx] unfolding KEYEQ_plist by blast+
    have "WMIsPropListEqualTo cs l (itemKey x) \<longleftrightarrow> WMIsPropListEqualTo cs l key" if "is_key l"
      using that key_equal_trans plist_keys.eq_sym kx k x(2) unfolding KEYEQ_plist by blast
    then show ?thesis using R bound r t' unfolding KEYEQ_plist by simp
  qed
  show "dict_wf cs (remove_key cs t key)"
    "is_key l \<Longrightarrow> plist_map cs (remove_key cs t key) l =
       (if WMIsPropListEqualTo cs l key then None else plist_map cs t l)"
    "WMCountHashTable (remove_key cs t key) =
       WMCountHashTable t - (if plist_map cs t key = None then 0 else 1)"
    using * by auto
qed

lemma put_key_spec:
  assumes wf: "dict_wf cs t" and k: "is_key key"
  shows "dict_wf cs (put_key cs t key v)"
    "is_key l \<Longrightarrow> plist_map cs (put_key cs t key v) l =
       (if WMIsPropListEqualTo cs l key then Some (Some v) else plist_map cs t l)"
    "plist_map cs t key = None \<Longrightarrow> WMCountHashTable (put_key cs t key v) = WMCountHashTable t + 1"
proof -
  let ?cb = "WMPropListHashCallbacks cs" let ?r = "remove_key cs t key"
  obtain t' old rel where t': "WMHashInsert ?cb ?r key (Some v) = (t', old, rel)" by (metis prod_cases3)
  note R = remove_key_spec [OF wf k] and I = plist_keys.WMHashInsert_spec [OF remove_key_spec(1) [OF wf k] k t']
  have p: "put_key cs t key v = t'" using t' by (simp add: put_key_def)
  have kk: "plist_map cs ?r key = None"
    using R(2) [OF k] plist_keys.eq_refl [OF k] by (simp add: KEYEQ_plist)
  show "dict_wf cs (put_key cs t key v)" using I(1) p by simp
  show "is_key l \<Longrightarrow> plist_map cs (put_key cs t key v) l =
       (if WMIsPropListEqualTo cs l key then Some (Some v) else plist_map cs t l)"
    using I(2) R(2) p by (simp add: KEYEQ_plist)
  show "plist_map cs t key = None \<Longrightarrow> WMCountHashTable (put_key cs t key v) = WMCountHashTable t + 1"
    using I(5) R(3) p kk by simp
qed

end
