(* ===== verification/WMPlistText.thy ===== *)
theory WMPlistText
  imports WMPlist
begin

text \<open>
  The printers of \<open>WMcore/proplist.c\<close>: \<open>stringDescription\<close>, \<open>dataDescription\<close>, \<open>description\<close>
  and \<open>indentedDescription\<close>, with the buffer sizes that the first two compute. A string of the
  model has no terminating NUL. The NULL values that a dictionary of the C library can never hold
  print as nothing.
\<close>

section \<open>Classes of characters\<close>

abbreviation code :: "char \<Rightarrow> nat" where "code c \<equiv> of_char c"

definition inrange :: "char \<Rightarrow> nat \<Rightarrow> nat \<Rightarrow> bool" where
  "inrange c lo hi \<longleftrightarrow> lo \<le> code c \<and> code c \<le> hi"

definition noquote :: "char \<Rightarrow> bool" where
  "noquote c \<longleftrightarrow> inrange c 0x61 0x7A \<or> inrange c 0x41 0x5A \<or> inrange c 0x30 0x39 \<or>
     c = CHR ''_'' \<or> c = CHR ''.'' \<or> c = CHR ''$''"

definition charesc :: "char \<Rightarrow> bool" where
  "charesc c \<longleftrightarrow> inrange c 0x07 0x0C \<or> c = CHR 0x22 \<or> c = CHR 0x5C"

definition numesc :: "char \<Rightarrow> bool" where
  "numesc c \<longleftrightarrow> code c \<le> 0x06 \<or> inrange c 0x0D 0x1F \<or> code c > 0x7E"

definition ishexdigit :: "char \<Rightarrow> bool" where
  "ishexdigit c \<longleftrightarrow> inrange c 0x61 0x66 \<or> inrange c 0x41 0x46 \<or> inrange c 0x30 0x39"

definition num2char :: "nat \<Rightarrow> char" where
  "num2char n = (if n < 10 then char_of (n + 0x30) else char_of (n + 0x57))"

definition char2num :: "char \<Rightarrow> nat" where
  "char2num c =
     (if inrange c 0x30 0x39 then code c - 0x30
      else if inrange c 0x61 0x66 then code c - 0x57
      else code c - 0x37)"

section \<open>Strings\<close>

text \<open>The letter after the backslash: \<open>\a \b \t \n \v \f\<close>, or the character itself.\<close>

definition escape_letter :: "char \<Rightarrow> char" where
  "escape_letter c =
     (if code c = 7 then CHR ''a'' else if code c = 8 then CHR ''b''
      else if code c = 9 then CHR ''t'' else if code c = 10 then CHR ''n''
      else if code c = 11 then CHR ''v'' else if code c = 12 then CHR ''f'' else c)"

definition octal_digit :: "nat \<Rightarrow> char" where
  "octal_digit n = char_of (0x30 + n mod 8)"

definition escape_char :: "char \<Rightarrow> string" where
  "escape_char c =
     (if charesc c then [CHR 0x5C, escape_letter c]
      else if numesc c
      then [CHR 0x5C, octal_digit (code c div 64), octal_digit (code c div 8), octal_digit (code c)]
      else [c])"

definition needs_quote :: "string \<Rightarrow> bool" where
  "needs_quote s \<longleftrightarrow> (\<exists>c \<in> set s. \<not> noquote c)"

definition stringDescription :: "string \<Rightarrow> string" where
  "stringDescription s =
     (if s = [] then [CHR 0x22, CHR 0x22]
      else (let q = (if needs_quote s then [CHR 0x22] else [])
            in q @ concat (map escape_char s) @ q))"

text \<open>The length that the first loop computes for \<open>wmalloc(len + 1)\<close>.\<close>

definition char_len :: "char \<Rightarrow> nat" where
  "char_len c = (if \<not> noquote c then (if charesc c then 1 else if numesc c then 3 else 0) else 0) + 1"

definition stringDescription_len :: "string \<Rightarrow> nat" where
  "stringDescription_len s = sum_list (map char_len s) + (if needs_quote s then 2 else 0)"

section \<open>Data\<close>

fun data_digits :: "nat \<Rightarrow> 8 word list \<Rightarrow> string" where
  "data_digits i [] = []"
| "data_digits i (b # bs) =
     [num2char (unat b div 16), num2char (unat b mod 16)] @
     (if i mod 4 = 3 \<and> bs \<noteq> [] then [CHR '' '' ] else []) @ data_digits (i + 1) bs"

definition dataDescription :: "8 word list \<Rightarrow> string" where
  "dataDescription bs = [CHR ''<''] @ data_digits 0 bs @ [CHR ''>'']"

text \<open>The size given to \<open>wmalloc\<close>, terminating NUL included.\<close>

definition dataDescription_size :: "8 word list \<Rightarrow> nat" where
  "dataDescription_size bs = 2 * length bs + length bs div 4 + 3"

section \<open>Values\<close>

fun separate :: "string \<Rightarrow> string list \<Rightarrow> string" where
  "separate sep [] = []"
| "separate sep [x] = x"
| "separate sep (x # xs) = x @ sep @ separate sep xs"

function description :: "W_PropList \<Rightarrow> string" where
  "description (PLString s) = stringDescription s"
| "description (PLData bs) = dataDescription bs"
| "description (PLArray xs) = ''('' @ separate '', '' (map description xs) @ '')''"
| "description (PLDictionary t) = ''{'' @ concat (map (\<lambda>x.
     description (itemKey x) @ '' = '' @
     (case itemData x of None \<Rightarrow> [] | Some v \<Rightarrow> description v) @ '';'') (concat (tTable t))) @ ''}''"
  by pat_completeness auto
termination
proof (relation "measure size", goal_cases)
  case (2 xs x)
  then show ?case using size_array_elem by simp
next
  case (3 t x)
  then show ?case using size_table_item(1) by simp
next
  case (4 t x v)
  then show ?case using size_table_item(2) by simp
qed auto

definition spaces :: "nat \<Rightarrow> string" where
  "spaces n = replicate n (CHR '' '')"

function indentedDescription :: "W_PropList \<Rightarrow> nat \<Rightarrow> string" where
  "indentedDescription (PLString s) level = stringDescription s"
| "indentedDescription (PLData bs) level = dataDescription bs"
| "indentedDescription (PLArray xs) level =
     (if 2 * (level + 1) + length (description (PLArray xs)) \<le> 77 then description (PLArray xs)
      else [CHR ''('', CHR 0x0A] @
        separate [CHR '','', CHR 0x0A]
          (map (\<lambda>x. spaces (2 * (level + 1)) @ indentedDescription x (level + 1)) xs) @
        [CHR 0x0A] @ spaces (2 * level) @ '')'')"
| "indentedDescription (PLDictionary t) level =
     [CHR ''{'', CHR 0x0A] @ concat (map (\<lambda>x.
       spaces (2 * (level + 1)) @ indentedDescription (itemKey x) (level + 1) @ '' = '' @
       (case itemData x of None \<Rightarrow> [] | Some v \<Rightarrow> indentedDescription v (level + 1)) @
       [CHR '';'', CHR 0x0A]) (concat (tTable t))) @ spaces (2 * level) @ ''}''"
  by pat_completeness auto
termination
proof (relation "measure (\<lambda>(p, level). size p)", goal_cases)
  case (2 xs level x)
  then show ?case using size_array_elem by simp
next
  case (3 t level x)
  then show ?case using size_table_item(1) by simp
next
  case (4 t level x v)
  then show ?case using size_table_item(2) by simp
qed auto

definition WMGetPropListDescription :: "W_PropList \<Rightarrow> bool \<Rightarrow> string" where
  "WMGetPropListDescription plist indented =
     (if indented then indentedDescription plist 0 else description plist)"

section \<open>The buffers are large enough\<close>

lemma char_len_escape: "length (escape_char c) = char_len c"
proof -
  have "\<not> charesc c" "\<not> numesc c" if "noquote c"
    using that by (auto simp: noquote_def charesc_def numesc_def inrange_def)
  then show ?thesis by (auto simp: escape_char_def char_len_def)
qed

lemma stringDescription_length:
  "s \<noteq> [] \<Longrightarrow> length (stringDescription s) = stringDescription_len s"
  by (simp add: stringDescription_def stringDescription_len_def length_concat comp_def
      char_len_escape Let_def)

lemma data_digits_length: "length (data_digits i bs) \<le> 2 * length bs + (length bs + i mod 4) div 4"
proof (induction i bs rule: data_digits.induct)
  case (2 i b bs)
  have "i mod 4 < 4" by simp
  then consider "i mod 4 = 3" "(i + 1) mod 4 = 0" | "i mod 4 < 3" "(i + 1) mod 4 = i mod 4 + 1"
    by (cases "i mod 4 = 3") (auto simp: mod_Suc)
  then show ?case using 2 by cases auto
qed simp

text \<open>
  The printers never write outside the buffers they allocate: \<open>stringDescription\<close> fills exactly
  the \<open>len\<close> characters that its first loop counts, and \<open>dataDescription\<close>, with its terminating NUL,
  stays within \<open>2 * length + length / 4 + 3\<close> bytes.
\<close>

theorem description_buffers_fit:
  "(length (stringDescription (c # cs)) = stringDescription_len (c # cs)) \<and>
   length (dataDescription bs) + 1 \<le> dataDescription_size bs"
  using data_digits_length [of 0 bs] stringDescription_length [of "c # cs"]
  by (simp add: dataDescription_def dataDescription_size_def)

section \<open>Texts that spell a value\<close>

text \<open>
  The parser accepts more than what the printers write. \<open>spells\<close> relates a value to its texts up to
  white space, in the order in which the tables list their items: both printers write such texts,
  and the parser reads every one of them.
\<close>

definition blank :: "string \<Rightarrow> bool" where
  "blank w \<longleftrightarrow> (\<forall>c \<in> set w. isspace c)"

text \<open>Strings that print unquoted must not hold a dollar sign, which the parser rejects.\<close>

definition ISSTRINGABLE :: "char \<Rightarrow> bool" where
  "ISSTRINGABLE c \<longleftrightarrow> isalnum c \<or> c = CHR ''.'' \<or> c = CHR ''_'' \<or> c = CHR ''/'' \<or> c = CHR ''+''"

definition readable_string :: "string \<Rightarrow> bool" where
  "readable_string s \<longleftrightarrow> CHR 0x00 \<notin> set s \<and> (needs_quote s \<or> CHR ''$'' \<notin> set s)"

inductive spells :: "W_PropList \<Rightarrow> string \<Rightarrow> bool"
  and spells_elems :: "W_PropList list \<Rightarrow> string \<Rightarrow> bool"
  and spells_items :: "(W_PropList, W_PropList) HashItem list \<Rightarrow> string \<Rightarrow> bool"
where
  spells_string: "readable_string s \<Longrightarrow> spells (PLString s) (stringDescription s)"
| spells_data: "spells (PLData bs) (dataDescription bs)"
| spells_array_empty: "blank w \<Longrightarrow> spells (PLArray []) (''('' @ w @ '')'')"
| spells_array: "spells_elems xs w \<Longrightarrow> spells (PLArray xs) (''('' @ w @ '')'')"
| spells_dictionary: "spells_items (concat (tTable t)) w \<Longrightarrow> spells (PLDictionary t) (''{'' @ w @ ''}'')"
| elems_last: "blank b \<Longrightarrow> spells x w \<Longrightarrow> blank b' \<Longrightarrow> spells_elems [x] (b @ w @ b')"
| elems_more: "blank b \<Longrightarrow> spells x w \<Longrightarrow> spells_elems (y # ys) ws \<Longrightarrow>
    spells_elems (x # y # ys) (b @ w @ '','' @ ws)"
| items_end: "blank b \<Longrightarrow> spells_items [] b"
| items_more: "blank b \<Longrightarrow> is_key (itemKey x) \<Longrightarrow> spells (itemKey x) wk \<Longrightarrow>
    itemData x = Some v \<Longrightarrow> spells v wv \<Longrightarrow> spells_items xs ws \<Longrightarrow>
    spells_items (x # xs) (b @ wk @ '' = '' @ wv @ '';'' @ ws)"

inductive_cases spells_arrayE: "spells (PLArray xs) w"
inductive_cases spells_dictionaryE: "spells (PLDictionary t) w"

text \<open>The values for which the parser can be expected to read the printed text back.\<close>

function readable :: "W_PropList \<Rightarrow> bool" where
  "readable (PLString s) \<longleftrightarrow> readable_string s"
| "readable (PLData bs) \<longleftrightarrow> True"
| "readable (PLArray xs) \<longleftrightarrow> (\<forall>x \<in> set xs. readable x)"
| "readable (PLDictionary t) \<longleftrightarrow> (\<forall>x \<in> set (concat (tTable t)). readable (itemKey x) \<and>
     (case itemData x of None \<Rightarrow> True | Some v \<Rightarrow> readable v))"
  by pat_completeness auto
termination
proof (relation "measure size", goal_cases)
  case (2 xs x)
  then show ?case using size_array_elem by simp
next
  case (3 t x)
  then show ?case using size_table_item(1) by simp
next
  case (4 t x v)
  then show ?case using size_table_item(2) by simp
qed auto

lemma blank_spaces: "blank (spaces n)" "blank []" "blank [CHR 0x0A]" "blank ('' '')"
  by (auto simp: blank_def spaces_def isspace_def)

lemma blank_Cons: "blank (c # w) \<longleftrightarrow> isspace c \<and> blank w" "isspace (CHR 0x0A)" "isspace (CHR '' '')"
  by (auto simp: blank_def isspace_def)

lemma blank_append: "blank (a @ b) \<longleftrightarrow> blank a \<and> blank b"
  by (auto simp: blank_def)

text \<open>The elements of an array, printed with any separator that is a comma and white space.\<close>

lemma spells_separate:
  assumes "xs \<noteq> []" "\<forall>x \<in> set xs. spells x (f x)" "blank b" "blank ind" "blank e"
  shows "spells_elems xs (ind @ separate (CHR '','' # b @ ind) (map f xs) @ e)"
proof -
  have g: "spells_elems xs (i @ separate (CHR '','' # b @ ind) (map f xs) @ e)" if "blank i" for i
    using assms(1,2) that
  proof (induction xs arbitrary: i rule: induct_list012)
    case (2 x)
    show ?case using elems_last [of i x "f x" e] 2 assms(5) by simp
  next
    case (3 x y ys)
    have "spells_elems (y # ys) ((b @ ind) @ separate (CHR '','' # b @ ind) (map f (y # ys)) @ e)"
      by (rule 3(2)) (use 3 assms(3,4) in \<open>auto simp: blank_append\<close>)
    then have "spells_elems (x # y # ys) (i @ f x @ '','' @
        (b @ ind) @ separate (CHR '','' # b @ ind) (map f (y # ys)) @ e)"
      by (intro elems_more) (use 3 in auto)
    then show ?case by simp
  qed simp
  show ?thesis by (rule g) (rule assms(4))
qed

lemma separate_indent:
  "xs \<noteq> [] \<Longrightarrow> separate sep (map (\<lambda>x. i @ f x) xs) = i @ separate (sep @ i) (map f xs)"
  by (induction xs rule: induct_list012) auto

lemma spells_description:
  "valid_plist cs p \<Longrightarrow> readable p \<Longrightarrow> spells p (description p)"
proof (induction p rule: plist_induct)
  case (PLString s)
  then show ?case by (simp add: spells_string)
next
  case (PLData bs)
  show ?case by (simp add: spells_data)
next
  case (PLArray xs)
  show ?case
  proof (cases "xs = []")
    case True
    then show ?thesis using spells_array_empty [OF blank_spaces(2)] by simp
  next
    case False
    have "spells_elems xs ([] @ separate (CHR '','' # '' '' @ []) (map description xs) @ [])"
      by (rule spells_separate [OF False]) (use PLArray blank_spaces in auto)
    then show ?thesis using spells_array [of xs] by simp
  qed
next
  case (PLDictionary t)
  let ?w = "\<lambda>x. description (itemKey x) @ '' = '' @
     (case itemData x of None \<Rightarrow> [] | Some v \<Rightarrow> description v) @ '';''"
  have "spells_items xs (concat (map ?w xs))" if "set xs \<subseteq> set (items_of t)" for xs
    using that
  proof (induction xs)
    case Nil
    then show ?case using items_end [OF blank_spaces(2)] by simp
  next
    case (Cons x xs)
    then have x: "x \<in> set (items_of t)" by simp
    obtain v where v: "itemData x = Some v" "valid_plist cs v" "valid_plist cs (itemKey x)"
      "readable v" "readable (itemKey x)" "is_key (itemKey x)"
      using x PLDictionary.prems plist_keys.items_valid [of cs t x]
      by (fastforce simp: items_of_def ht_wf_def split: option.splits)
    have "spells_items (x # xs) ([] @ description (itemKey x) @ '' = '' @ description v @ '';'' @
        concat (map ?w xs))"
      by (rule items_more [OF blank_spaces(2)]) (use v x Cons PLDictionary.IH in auto)
    then show ?case using v(1) by simp
  qed
  from spells_dictionary [OF this [of "items_of t", unfolded items_of_def]] show ?case
    by (simp add: items_of_def)
qed

lemma spells_indentedDescription:
  "valid_plist cs p \<Longrightarrow> readable p \<Longrightarrow> spells p (indentedDescription p level)"
proof (induction p arbitrary: level rule: plist_induct)
  case (PLString s)
  then show ?case by (simp add: spells_string)
next
  case (PLData bs)
  show ?case by (simp add: spells_data)
next
  case (PLArray xs)
  show ?case
  proof (cases "2 * (level + 1) + length (description (PLArray xs)) \<le> 77")
    case True
    then show ?thesis using spells_description [OF PLArray.prems] by simp
  next
    case long: False
    let ?ind = "spaces (2 * (level + 1))"
    let ?e = "[CHR 0x0A] @ spaces (2 * level)"
    show ?thesis
    proof (cases "xs = []")
      case True
      have "blank ([CHR 0x0A] @ ?e)" using blank_spaces by (simp add: blank_append blank_Cons)
      from spells_array_empty [OF this] show ?thesis using True long by simp
    next
      case False
      have se: "spells_elems xs (([CHR 0x0A] @ ?ind) @
          separate (CHR '','' # [CHR 0x0A] @ ?ind)
            (map (\<lambda>x. indentedDescription x (level + 1)) xs) @ ?e)"
        using spells_separate [OF False, of "\<lambda>x. indentedDescription x (level + 1)" "[]"
            "[CHR 0x0A] @ ?ind" ?e] PLArray blank_spaces by (simp add: blank_append blank_Cons)
      moreover have "separate [CHR '','', CHR 0x0A]
          (map (\<lambda>x. ?ind @ indentedDescription x (level + 1)) xs) = ?ind @
          separate (CHR '','' # [CHR 0x0A] @ ?ind) (map (\<lambda>x. indentedDescription x (level + 1)) xs)"
        using separate_indent [OF False, of "[CHR '','', CHR 0x0A]"] by simp
      ultimately show ?thesis using spells_array [OF se] long by simp
    qed
  qed
next
  case (PLDictionary t)
  let ?ind = "spaces (2 * (level + 1))" and ?e = "spaces (2 * level)"
  let ?w = "\<lambda>x. ?ind @ indentedDescription (itemKey x) (level + 1) @ '' = '' @
       (case itemData x of None \<Rightarrow> [] | Some v \<Rightarrow> indentedDescription v (level + 1)) @
       [CHR '';'', CHR 0x0A]"
  have "spells_items xs (b @ concat (map ?w xs) @ ?e)" if "set xs \<subseteq> set (items_of t)" "blank b" for xs b
    using that
  proof (induction xs arbitrary: b)
    case Nil
    then show ?case using items_end blank_spaces(1) by (simp add: blank_append)
  next
    case (Cons x xs)
    then have x: "x \<in> set (items_of t)" by simp
    obtain v where v: "itemData x = Some v" "valid_plist cs v" "valid_plist cs (itemKey x)"
      "readable v" "readable (itemKey x)" "is_key (itemKey x)"
      using x PLDictionary.prems plist_keys.items_valid [of cs t x]
      by (fastforce simp: items_of_def ht_wf_def split: option.splits)
    have "spells_items (x # xs) ((b @ ?ind) @ indentedDescription (itemKey x) (level + 1) @ '' = '' @
        indentedDescription v (level + 1) @ '';'' @ ([CHR 0x0A] @ concat (map ?w xs) @ ?e))"
      by (rule items_more)
        (use v x Cons.prems Cons.IH [of "[CHR 0x0A]"] blank_spaces PLDictionary.IH in
          \<open>auto simp: blank_append\<close>)
    then show ?case using v(1) by simp
  qed
  from spells_dictionary [OF this [of "items_of t" "[CHR 0x0A]", unfolded items_of_def, OF subset_refl]]
  show ?case using blank_spaces by simp
qed

end
