(* ===== verification/WMPlistParser.thy ===== *)
theory WMPlistParser
  imports WMPlistText
begin

text \<open>
  The parser of \<open>WMcore/proplist.c\<close>. The parser state holds the text from \<open>ptr + pos\<close> on, so that
  \<open>pos--\<close> puts back the character just read, the line number, and the complaints printed so far
  with their line numbers. The string buffer, which grows as needed, is a list of characters.
  Reading at the end of the text gives the NUL character and does not advance. The mutually
  recursive functions take fuel, and \<open>getPropList_total\<close> shows how much is always enough.
\<close>

section \<open>Characters\<close>

record PLData =
  pl_text :: string
  pl_line :: nat
  pl_log :: "(nat \<times> string) list"

abbreviation NUL :: char where "NUL \<equiv> CHR 0x00"
abbreviation NL :: char where "NL \<equiv> CHR 0x0A"
abbreviation BSL :: char where "BSL \<equiv> CHR 0x5C"
abbreviation DQUOTE :: char where "DQUOTE \<equiv> CHR 0x22"

definition COMPLAIN :: "string \<Rightarrow> PLData \<Rightarrow> PLData" where
  "COMPLAIN msg s = s\<lparr>pl_log := pl_log s @ [(pl_line s, msg)]\<rparr>"

definition getChar :: "PLData \<Rightarrow> char \<times> PLData" where
  "getChar s =
     (case pl_text s of
        [] \<Rightarrow> (NUL, s)
      | c # r \<Rightarrow>
          if c = NUL then (NUL, s)
          else (c, s\<lparr>pl_text := r, pl_line := pl_line s + (if c = NL then 1 else 0)\<rparr>))"

definition unget :: "char \<Rightarrow> PLData \<Rightarrow> PLData" where
  "unget c s = s\<lparr>pl_text := c # pl_text s\<rparr>"

fun skip_space :: "string \<Rightarrow> nat \<Rightarrow> char \<times> string \<times> nat" where
  "skip_space [] l = (NUL, [], l)"
| "skip_space (c # r) l =
     (if c = NUL then (NUL, c # r, l)
      else if c = NL then skip_space r (l + 1)
      else if \<not> isspace c then (c, r, l)
      else skip_space r l)"

definition getNonSpaceChar :: "PLData \<Rightarrow> char \<times> PLData" where
  "getNonSpaceChar s =
     (let (c, r, l) = skip_space (pl_text s) (pl_line s) in (c, s\<lparr>pl_text := r, pl_line := l\<rparr>))"

section \<open>Strings\<close>

definition is_octal :: "char \<Rightarrow> bool" where
  "is_octal c \<longleftrightarrow> inrange c 0x30 0x37"

definition unescape_letter :: "char \<Rightarrow> char" where
  "unescape_letter c =
     (if c = CHR ''a'' then CHR 0x07 else if c = CHR ''b'' then CHR 0x08
      else if c = CHR ''t'' then CHR 0x09 else if c = CHR ''r'' then CHR 0x0D
      else if c = CHR ''n'' then CHR 0x0A else if c = CHR ''v'' then CHR 0x0B
      else if c = CHR ''f'' then CHR 0x0C else c)"

text \<open>The octal digits after a backslash (one to three): their value and the rest of the text.\<close>

definition octal_value :: "char \<Rightarrow> string \<Rightarrow> char \<times> string" where
  "octal_value c r =
     (let w = code c mod 8 in
      case r of
        [] \<Rightarrow> (char_of w, r)
      | d # r' \<Rightarrow>
          if is_octal d
          then (let w = w * 8 + code d mod 8 in
                case r' of
                  [] \<Rightarrow> (char_of w, r')
                | e # r'' \<Rightarrow> if is_octal e then (char_of (w * 8 + code e mod 8), r'')
                             else (char_of w, r'))
          else (char_of w, r))"

lemma octal_value_length: "length (snd (octal_value c r)) \<le> length r"
  by (auto simp: octal_value_def Let_def split: list.splits)

text \<open>
  A backslash at the very end is stored and then overwritten by the terminating NUL: it is lost.
\<close>

function unescapestr :: "string \<Rightarrow> string" where
  "unescapestr [] = []"
| "unescapestr (c # r) =
     (if c \<noteq> BSL then c # unescapestr r
      else (case r of
              [] \<Rightarrow> []
            | d # r' \<Rightarrow>
                if is_octal d then (let (v, r'') = octal_value d r' in v # unescapestr r'')
                else unescape_letter d # unescapestr r'))"
  by pat_completeness auto
termination
proof (relation "measure length", goal_cases)
  case (3 c r d r' x v r'')
  then have "r'' = snd (octal_value d r')" by (metis snd_conv)
  with 3 show ?case using octal_value_length [of d r'] by simp
qed auto

text \<open>What \<open>wstrdup\<close> sees of a buffer: the characters before the first NUL.\<close>

definition c_string :: "string \<Rightarrow> string" where
  "c_string s = takeWhile (\<lambda>c. c \<noteq> NUL) s"

definition WMCreatePLString :: "string \<Rightarrow> W_PropList" where
  "WMCreatePLString s = PLString (c_string s)"

text \<open>Reading a character that is not the end shortens the text.\<close>

lemma getChar_shorter: "getChar s = (c, s') \<Longrightarrow> c \<noteq> NUL \<Longrightarrow> length (pl_text s') < length (pl_text s)"
  by (auto simp: getChar_def split: list.splits if_splits)

lemma ISSTRINGABLE_not_NUL: "ISSTRINGABLE c \<Longrightarrow> c \<noteq> NUL"
  by (auto simp: ISSTRINGABLE_def isalnum_def)

function string_loop :: "PLData \<Rightarrow> string \<Rightarrow> string \<times> PLData" where
  "string_loop s buf =
     (let (c, s') = getChar s in
      if ISSTRINGABLE c then string_loop s' (buf @ [c])
      else (buf, if c \<noteq> NUL then unget c s' else s'))"
  by pat_completeness auto
termination
  by (relation "measure (\<lambda>(s, buf). length (pl_text s))")
    (auto dest: getChar_shorter [OF sym] ISSTRINGABLE_not_NUL)

definition getPLString :: "PLData \<Rightarrow> W_PropList ptr \<times> PLData" where
  "getPLString s =
     (let (buf, s') = string_loop s []
      in (if buf = [] then NULL else Some (WMCreatePLString (unescapestr buf)), s'))"

function qstring_loop :: "PLData \<Rightarrow> bool \<Rightarrow> string \<Rightarrow> bool \<times> string \<times> PLData" where
  "qstring_loop s escaping buf =
     (let (c, s') = getChar s in
      if \<not> escaping \<and> c = BSL then qstring_loop s' True buf
      else if \<not> escaping \<and> c = DQUOTE then (True, buf, s')
      else (let buf' = (if escaping then buf @ [BSL] else buf) in
            if c = NUL then (False, buf', COMPLAIN ''unterminated PropList string'' s')
            else qstring_loop s' False (buf' @ [c])))"
  by pat_completeness auto
termination
  by (relation "measure (\<lambda>(s, e, buf). length (pl_text s))") (auto dest: getChar_shorter [OF sym])

definition getPLQString :: "PLData \<Rightarrow> W_PropList ptr \<times> PLData" where
  "getPLQString s =
     (let (ok, buf, s') = qstring_loop s False []
      in (if \<not> ok then NULL else Some (WMCreatePLString (unescapestr buf)), s'))"

declare string_loop.simps [simp del] qstring_loop.simps [simp del]

section \<open>Data\<close>

lemma skip_space_length:
  "skip_space t l = (c, r, l') \<Longrightarrow> length r \<le> length t \<and> (c \<noteq> NUL \<longrightarrow> length r < length t)"
  by (induction t l rule: skip_space.induct) (auto split: if_splits)

lemma getNonSpaceChar_shorter:
  "getNonSpaceChar s = (c, s') \<Longrightarrow> length (pl_text s') \<le> length (pl_text s)"
  "getNonSpaceChar s = (c, s') \<Longrightarrow> c \<noteq> NUL \<Longrightarrow> length (pl_text s') < length (pl_text s)"
  using skip_space_length by (fastforce simp: getNonSpaceChar_def split: prod.splits)+

text \<open>
  The bytes collected in \<open>buf\<close> and flushed to the data object with \<open>WMAppendDataBytes\<close> whenever
  the buffer is full are one list of bytes.
\<close>

lemma ishexdigit_not_NUL: "ishexdigit c \<Longrightarrow> c \<noteq> NUL"
  by (auto simp: ishexdigit_def inrange_def)

function data_loop :: "PLData \<Rightarrow> 8 word list \<Rightarrow> 8 word list option \<times> PLData" where
  "data_loop s bytes =
     (let (c1, s1) = getNonSpaceChar s in
      if c1 = NUL then (None, COMPLAIN ''unterminated PropList data'' s1)
      else if c1 = CHR ''>'' then (Some bytes, s1)
      else if ishexdigit c1
      then (let (c2, s2) = getNonSpaceChar s1 in
            if c2 = NUL \<or> c2 = CHR ''>''
            then (None, COMPLAIN ''unterminated PropList data (missing hexdigit)'' s2)
            else if ishexdigit c2
            then data_loop s2 (bytes @ [push_bit 4 (of_nat (char2num c1)) OR of_nat (char2num c2)])
            else (None, COMPLAIN ''non hexdigit character in PropList data'' s2))
      else (None, COMPLAIN ''non hexdigit character in PropList data'' s1))"
  by pat_completeness auto
termination
  by (relation "measure (\<lambda>(s, bytes). length (pl_text s))")
    (auto dest!: getNonSpaceChar_shorter(2) [OF sym])

definition getPLData :: "PLData \<Rightarrow> W_PropList ptr \<times> PLData" where
  "getPLData s = (let (r, s') = data_loop s [] in (map_option PLData r, s'))"

declare data_loop.simps [simp del]

section \<open>Values\<close>

text \<open>The part of \<open>getPLDictionary\<close> that reads a key, after its first character.\<close>

definition getPLKey :: "char \<Rightarrow> PLData \<Rightarrow> W_PropList ptr \<times> PLData" where
  "getPLKey c s =
     (if c = CHR ''<'' then getPLData s
      else if c = DQUOTE then getPLQString s
      else getPLString (unget c s))"

fun getPropList :: "nat \<Rightarrow> bool \<Rightarrow> PLData \<Rightarrow> (W_PropList ptr \<times> PLData) option"
  and getPLArray ::
    "nat \<Rightarrow> bool \<Rightarrow> bool \<Rightarrow> W_PropList list \<Rightarrow> PLData \<Rightarrow> (W_PropList ptr \<times> PLData) option"
  and getPLDictionary ::
    "nat \<Rightarrow> bool \<Rightarrow> (W_PropList, W_PropList) W_HashTable \<Rightarrow> PLData \<Rightarrow>
     (W_PropList ptr \<times> PLData) option"
where
  "getPropList 0 cs s = None"
| "getPropList (Suc n) cs s =
     (let (c, s1) = getNonSpaceChar s in
      if c = NUL then Some (NULL, s1)
      else if c = CHR ''{'' then getPLDictionary n cs WMCreateHashTable s1
      else if c = CHR ''('' then getPLArray n cs True [] s1
      else if c = CHR ''<'' then Some (getPLData s1)
      else if c = DQUOTE then Some (getPLQString s1)
      else if ISSTRINGABLE c then Some (getPLString (unget c s1))
      else Some (NULL, COMPLAIN ''was expecting a string, data, array or dictionary'' s1))"
| "getPLArray 0 cs first array s = None"
| "getPLArray (Suc n) cs first array s =
     (let (c, s1) = getNonSpaceChar s in
      if c = NUL then Some (NULL, COMPLAIN ''unterminated PropList array'' s1)
      else if c = CHR '')'' then Some (Some (PLArray array), s1)
      else if c \<noteq> CHR '','' \<and> \<not> first
      then Some (NULL, COMPLAIN ''missing or unterminated PropList array'' s1)
      else (case getPropList n cs (if c = CHR '','' then s1 else unget c s1) of
              None \<Rightarrow> None
            | Some (None, s2) \<Rightarrow> Some (NULL, COMPLAIN ''could not get PropList array element'' s2)
            | Some (Some obj, s2) \<Rightarrow> getPLArray n cs False (array @ [obj]) s2))"
| "getPLDictionary 0 cs dict s = None"
| "getPLDictionary (Suc n) cs dict s =
     (let (c, s1) = getNonSpaceChar s in
      if c = NUL then Some (NULL, COMPLAIN ''unterminated PropList dictionary'' s1)
      else if c = CHR ''}'' then Some (Some (PLDictionary dict), s1)
      else if \<not> (c = CHR ''<'' \<or> c = DQUOTE \<or> ISSTRINGABLE c)
      then Some (NULL, COMPLAIN (if c = CHR ''='' then ''missing PropList dictionary key''
             else ''missing PropList dictionary entry key or unterminated dictionary'') s1)
      else (case getPLKey c s1 of
              (None, s2) \<Rightarrow> Some (NULL, COMPLAIN ''error parsing PropList dictionary key'' s2)
            | (Some key, s2) \<Rightarrow>
                (let (c, s3) = getNonSpaceChar s2 in
                 if c \<noteq> CHR ''=''
                 then Some (NULL, COMPLAIN ''missing = in PropList dictionary entry'' s3)
                 else (case getPropList n cs s3 of
                         None \<Rightarrow> None
                       | Some (None, s4) \<Rightarrow>
                           Some (NULL, COMPLAIN ''error parsing PropList dictionary entry value'' s4)
                       | Some (Some value, s4) \<Rightarrow>
                           (let (c, s5) = getNonSpaceChar s4 in
                            if c \<noteq> CHR '';''
                            then Some (NULL, COMPLAIN ''missing ; in PropList dictionary entry'' s5)
                            else getPLDictionary n cs (put_key cs dict key value) s5)))))"

definition pl_start :: "string \<Rightarrow> PLData" where
  "pl_start desc = \<lparr>pl_text = desc, pl_line = 1, pl_log = []\<rparr>"

text \<open>The whole text must be used up: garbage after the value makes the result NULL.\<close>

definition WMCreatePropListFromDescription ::
  "bool \<Rightarrow> string \<Rightarrow> (W_PropList ptr \<times> PLData) option" where
  "WMCreatePropListFromDescription cs desc =
     (case getPropList (2 * length desc + 1) cs (pl_start desc) of
        None \<Rightarrow> None
      | Some (plist, s) \<Rightarrow>
          (let (c, s') = getNonSpaceChar s in
           if c \<noteq> NUL \<and> plist \<noteq> NULL
           then Some (NULL, COMPLAIN ''extra data after end of property list'' s')
           else Some (plist, s')))"

text \<open>
  Reading a file: its contents, or nothing when it cannot be opened or read. \<open>fread\<close> of no bytes
  returns 0, so an empty file gives NULL as well.
\<close>

definition WMReadPropListFromFile ::
  "bool \<Rightarrow> string option \<Rightarrow> (W_PropList ptr \<times> PLData option) option" where
  "WMReadPropListFromFile cs contents =
     (case contents of
        None \<Rightarrow> Some (NULL, None)
      | Some text \<Rightarrow>
          if text = [] then Some (NULL, None)
          else map_option (\<lambda>(p, s). (p, Some s)) (WMCreatePropListFromDescription cs text))"

text \<open>What \<open>WMWritePropListToFile\<close> writes to the temporary file that it renames.\<close>

definition written_text :: "W_PropList \<Rightarrow> string" where
  "written_text plist = indentedDescription plist 0 @ [NL]"

section \<open>The parser ends\<close>

text \<open>Reading never lengthens the text, and a value uses at least one character.\<close>

lemma unget_getNonSpaceChar:
  "getNonSpaceChar s = (c, s1) \<Longrightarrow> c \<noteq> NUL \<Longrightarrow> length (pl_text (unget c s1)) \<le> length (pl_text s)"
  using getNonSpaceChar_shorter(2) by (fastforce simp: unget_def)

lemma COMPLAIN_text [simp]: "pl_text (COMPLAIN msg s) = pl_text s"
  by (simp add: COMPLAIN_def)

lemma getChar_length: "getChar s = (c, s') \<Longrightarrow> length (pl_text s') \<le> length (pl_text s)"
  by (auto simp: getChar_def split: list.splits if_splits)

lemma string_loop_length:
  "string_loop s buf = (b, s') \<Longrightarrow> length (pl_text s') \<le> length (pl_text s) \<and>
   (length b > length buf \<longrightarrow> length (pl_text s') < length (pl_text s)) \<and> length b \<ge> length buf"
proof (induction s buf arbitrary: b s' rule: string_loop.induct)
  case (1 s buf)
  obtain c s1 where c: "getChar s = (c, s1)" by fastforce
  show ?case
  proof (cases "ISSTRINGABLE c")
    case True
    then have l: "string_loop s1 (buf @ [c]) = (b, s')"
      using 1(2) c by (subst (asm) string_loop.simps) simp
    show ?thesis
      using 1(1) [OF c [symmetric] refl True l] getChar_shorter [OF c ISSTRINGABLE_not_NUL [OF True]]
      by auto
  next
    case False
    then have "b = buf" "s' = (if c \<noteq> NUL then unget c s1 else s1)"
      using 1(2) c by (subst (asm) string_loop.simps; simp)+
    then show ?thesis using c getChar_shorter [OF c] getChar_length [OF c] by (auto simp: unget_def)
  qed
qed

lemma qstring_loop_length:
  "qstring_loop s e buf = (ok, b, s') \<Longrightarrow> length (pl_text s') \<le> length (pl_text s) \<and>
   (ok \<longrightarrow> length (pl_text s') < length (pl_text s))"
proof (induction s e buf arbitrary: ok b s' rule: qstring_loop.induct)
  case (1 s e buf)
  obtain c s1 where c: "getChar s = (c, s1)" by fastforce
  note q = 1(3) [unfolded qstring_loop.simps [of s e buf]]
  consider (escape) "\<not> e" "c = BSL" | (close) "\<not> e" "c = DQUOTE" | (fin) "c = NUL"
    | (more) "c \<noteq> NUL" "e \<or> (c \<noteq> BSL \<and> c \<noteq> DQUOTE)" by blast
  then show ?case
  proof cases
    case escape
    then have "qstring_loop s1 True buf = (ok, b, s')" using q c by simp
    from 1(1) [OF c [symmetric] refl _ this] show ?thesis
      using escape getChar_shorter [OF c] by auto
  next
    case close
    then have "s' = s1" using q c by simp
    then show ?thesis using close getChar_shorter [OF c] by simp
  next
    case fin
    then have "s' = COMPLAIN ''unterminated PropList string'' s1" "\<not> ok" using q c by (auto simp: Let_def)
    then show ?thesis using getChar_length [OF c] by simp
  next
    case more
    then have "qstring_loop s1 False ((if e then buf @ [BSL] else buf) @ [c]) = (ok, b, s')"
      using q c by (auto simp: Let_def split: if_splits)
    from 1(2) [OF c [symmetric] refl _ _ refl _ this] show ?thesis
      using more getChar_shorter [OF c] by auto
  qed
qed

lemma data_loop_length:
  "data_loop s bytes = (r, s') \<Longrightarrow> length (pl_text s') \<le> length (pl_text s) \<and>
   (r \<noteq> None \<longrightarrow> length (pl_text s') < length (pl_text s))"
proof (induction s bytes arbitrary: r s' rule: data_loop.induct)
  case (1 s bytes)
  obtain c1 s1 where c1: "getNonSpaceChar s = (c1, s1)" by fastforce
  obtain c2 s2 where c2: "getNonSpaceChar s1 = (c2, s2)" by fastforce
  note q = 1(2) [unfolded data_loop.simps [of s bytes]]
  note L = getNonSpaceChar_shorter [OF c1] getNonSpaceChar_shorter [OF c2]
  show ?case
  proof (cases "ishexdigit c1 \<and> c1 \<noteq> CHR ''>'' \<and> ishexdigit c2 \<and> c2 \<noteq> CHR ''>''")
    case True
    then have n: "c1 \<noteq> NUL" "c2 \<noteq> NUL" using ishexdigit_not_NUL by auto
    then have "data_loop s2 (bytes @ [push_bit 4 (of_nat (char2num c1)) OR of_nat (char2num c2)]) = (r, s')"
      using q c1 c2 True by simp
    then have "length (pl_text s') \<le> length (pl_text s2) \<and>
        (r \<noteq> None \<longrightarrow> length (pl_text s') < length (pl_text s2))"
      using 1(1) [OF c1 [symmetric] refl _ _ _ c2 [symmetric] refl] n True by blast
    then show ?thesis using L n by auto
  next
    case False
    then have "s' \<in> {COMPLAIN ''unterminated PropList data'' s1,
        COMPLAIN ''unterminated PropList data (missing hexdigit)'' s2,
        COMPLAIN ''non hexdigit character in PropList data'' s2,
        COMPLAIN ''non hexdigit character in PropList data'' s1} \<and> r = None \<or>
        s' = s1 \<and> c1 = CHR ''>''"
      using q c1 c2 by (auto split: if_splits)
    then show ?thesis using L by auto
  qed
qed

lemma getPLString_length:
  "getPLString s = (p, s') \<Longrightarrow> length (pl_text s') \<le> length (pl_text s) \<and>
   (p \<noteq> NULL \<longrightarrow> length (pl_text s') < length (pl_text s))"
  using string_loop_length [of s "[]"] by (fastforce simp: getPLString_def split: prod.splits if_splits)

lemma getPLQString_length:
  "getPLQString s = (p, s') \<Longrightarrow> length (pl_text s') \<le> length (pl_text s)"
  using qstring_loop_length [of s False "[]"] by (fastforce simp: getPLQString_def split: prod.splits)

lemma getPLData_length:
  "getPLData s = (p, s') \<Longrightarrow> length (pl_text s') \<le> length (pl_text s)"
  using data_loop_length [of s "[]"] by (fastforce simp: getPLData_def split: prod.splits)

abbreviation tlen :: "PLData \<Rightarrow> nat" where "tlen s \<equiv> length (pl_text s)"

lemma getPLKey_length:
  assumes "getNonSpaceChar s = (c, s1)" "c \<noteq> NUL" "getPLKey c s1 = (p, s2)"
  shows "tlen s2 \<le> tlen s \<and> (p \<noteq> NULL \<longrightarrow> tlen s2 < tlen s)"
  using assms getNonSpaceChar_shorter [OF assms(1)] unget_getNonSpaceChar [OF assms(1,2)]
    getPLString_length [of "unget c s1" p s2] getPLQString_length [of s1 p s2] getPLData_length [of s1 p s2]
  by (fastforce simp: getPLKey_def split: if_splits)

text \<open>With this much fuel a value, an array and a dictionary are always read to an end.\<close>

definition ends :: "PLData \<Rightarrow> (W_PropList ptr \<times> PLData) option \<Rightarrow> bool" where
  "ends s r \<longleftrightarrow> (\<exists>p s'. r = Some (p, s') \<and> tlen s' \<le> tlen s \<and> (p \<noteq> NULL \<longrightarrow> tlen s' < tlen s))"

lemma ends_NULL: "tlen s' \<le> tlen s \<Longrightarrow> ends s (Some (NULL, s'))"
  by (simp add: ends_def)

lemma endsE:
  assumes "ends s r"
  obtains (fails) s' where "r = Some (NULL, s')" "tlen s' \<le> tlen s"
    | (reads) p s' where "r = Some (Some p, s')" "tlen s' < tlen s"
proof -
  obtain p s' where "r = Some (p, s')" "tlen s' \<le> tlen s" "p \<noteq> NULL \<longrightarrow> tlen s' < tlen s"
    using assms by (auto simp: ends_def)
  then show thesis using fails reads by (cases p) auto
qed

lemma ends_shorter: "ends s' r \<Longrightarrow> tlen s' \<le> tlen s \<Longrightarrow> ends s r"
  by (auto simp: ends_def)

lemma parser_ends:
  "(\<forall>s. 2 * tlen s + 1 \<le> n \<longrightarrow> ends s (getPropList n cs s)) \<and>
   (\<forall>s first array. 2 * tlen s + 2 \<le> n \<longrightarrow> ends s (getPLArray n cs first array s)) \<and>
   (\<forall>s dict. 2 * tlen s + 2 \<le> n \<longrightarrow> ends s (getPLDictionary n cs dict s))"
proof (induction n)
  case (Suc n)
  then have P: "2 * tlen s + 1 \<le> n \<Longrightarrow> ends s (getPropList n cs s)"
    and A: "2 * tlen s + 2 \<le> n \<Longrightarrow> ends s (getPLArray n cs first array s)"
    and D: "2 * tlen s + 2 \<le> n \<Longrightarrow> ends s (getPLDictionary n cs dict s)" for s first array dict
    by auto
  have PS: "ends s (getPropList (Suc n) cs s)" if n: "2 * tlen s + 1 \<le> Suc n" for s
  proof -
    obtain c s1 where c: "getNonSpaceChar s = (c, s1)" by fastforce
    note L = getNonSpaceChar_shorter [OF c]
    show ?thesis
    proof (cases "c = NUL")
      case True
      then show ?thesis using c L by (simp add: ends_NULL)
    next
      case nn: False
      then have s1: "2 * tlen s1 + 2 \<le> n" "tlen s1 \<le> tlen s" using n L(2) by auto
      have key: "ends s (Some (getPLKey c s1))"
        using getPLKey_length [OF c nn] by (cases "getPLKey c s1") (auto simp: ends_def)
      consider "c = CHR ''{''" | "c = CHR ''(''" | "c = CHR ''<''" | "c = DQUOTE"
        | "c \<notin> {CHR ''{'', CHR ''('', CHR ''<'', DQUOTE}" by blast
      then show ?thesis
        using nn c ends_shorter [OF D [OF s1(1)] s1(2)] ends_shorter [OF A [OF s1(1)] s1(2)] key s1(2)
        by cases (auto simp: getPLKey_def ends_NULL)
    qed
  qed
  have AS: "ends s (getPLArray (Suc n) cs first array s)" if n: "2 * tlen s + 2 \<le> Suc n" for s first array
  proof -
    obtain c s1 where c: "getNonSpaceChar s = (c, s1)" by fastforce
    note L = getNonSpaceChar_shorter [OF c]
    show ?thesis
    proof (cases "c = NUL \<or> c = CHR '')'' \<or> c \<noteq> CHR '','' \<and> \<not> first")
      case True
      then show ?thesis using c L by (auto simp: ends_def)
    next
      case False
      let ?s = "if c = CHR '','' then s1 else unget c s1"
      have ls: "tlen ?s \<le> tlen s" using False L unget_getNonSpaceChar [OF c] by auto
      have e: "ends ?s (getPropList n cs ?s)" by (rule P) (use ls n in linarith)
      then show ?thesis
      proof (cases rule: endsE [case_names fails reads])
        case (fails s')
        then show ?thesis using False c ls by (auto simp: ends_def)
      next
        case (reads p s')
        have "ends s' (getPLArray n cs False (array @ [p]) s')" by (rule A) (use reads ls n in linarith)
        then have "ends s (getPLArray n cs False (array @ [p]) s')"
          by (rule ends_shorter) (use reads ls in linarith)
        then show ?thesis using False c reads(1) by auto
      qed
    qed
  qed
  have DS: "ends s (getPLDictionary (Suc n) cs dict s)" if n: "2 * tlen s + 2 \<le> Suc n" for s dict
  proof -
    obtain c s1 where c: "getNonSpaceChar s = (c, s1)" by fastforce
    note L = getNonSpaceChar_shorter [OF c]
    show ?thesis
    proof (cases "c = NUL \<or> c = CHR ''}'' \<or> \<not> (c = CHR ''<'' \<or> c = DQUOTE \<or> ISSTRINGABLE c)")
      case True
      then show ?thesis using c L by (auto simp: ends_def Let_def)
    next
      case False
      obtain k s2 where k: "getPLKey c s1 = (k, s2)" by fastforce
      note K = getPLKey_length [OF c _ k]
      show ?thesis
      proof (cases k)
        case None
        then show ?thesis using False c k K by (auto simp: ends_def)
      next
        case (Some key)
        obtain c3 s3 where c3: "getNonSpaceChar s2 = (c3, s3)" by fastforce
        note L3 = getNonSpaceChar_shorter [OF c3]
        have s3: "tlen s3 < tlen s" using K False L3(1) Some by auto
        show ?thesis
        proof (cases "c3 = CHR ''=''")
          case False
          then show ?thesis using \<open>\<not> (c = NUL \<or> _)\<close> c k Some c3 s3 by (auto simp: ends_def Let_def)
        next
          case eq: True
          have "ends s3 (getPropList n cs s3)" by (rule P) (use s3 n in linarith)
          then show ?thesis
          proof (cases rule: endsE [case_names fails reads])
            case (fails s')
            then show ?thesis using False c k Some c3 s3 eq by (auto simp: ends_def Let_def)
          next
            case (reads v s4)
            obtain c5 s5 where c5: "getNonSpaceChar s4 = (c5, s5)" by fastforce
            note L5 = getNonSpaceChar_shorter [OF c5]
            have "ends s5 (getPLDictionary n cs (put_key cs dict key v) s5)"
              by (rule D) (use reads s3 n L5(1) in linarith)
            then have "ends s (getPLDictionary n cs (put_key cs dict key v) s5)"
              by (rule ends_shorter) (use reads s3 L5(1) in linarith)
            moreover have "ends s (Some (NULL, COMPLAIN msg s5))" for msg
              by (rule ends_NULL) (use reads s3 L5(1) in simp)
            ultimately show ?thesis using False c k Some c3 eq reads(1) c5 by (simp add: Let_def)
          qed
        qed
      qed
    qed
  qed
  from PS AS DS show ?case by blast
qed simp

text \<open>More fuel gives the same result.\<close>

declare getPropList.simps [simp del] getPLArray.simps [simp del] getPLDictionary.simps [simp del]

lemma parser_fuel_Suc:
  "(\<forall>s r. getPropList n cs s = Some r \<longrightarrow> getPropList (Suc n) cs s = Some r) \<and>
   (\<forall>s first array r. getPLArray n cs first array s = Some r \<longrightarrow>
      getPLArray (Suc n) cs first array s = Some r) \<and>
   (\<forall>s dict r. getPLDictionary n cs dict s = Some r \<longrightarrow> getPLDictionary (Suc n) cs dict s = Some r)"
proof (induction n)
  case (Suc n)
  then have P: "getPropList n cs s = Some r \<Longrightarrow> getPropList (Suc n) cs s = Some r"
    and A: "getPLArray n cs first array s = Some r \<Longrightarrow> getPLArray (Suc n) cs first array s = Some r"
    and D: "getPLDictionary n cs dict s = Some r \<Longrightarrow> getPLDictionary (Suc n) cs dict s = Some r"
    for s first array dict r by blast+
  have "getPropList (Suc (Suc n)) cs s = Some r" if r: "getPropList (Suc n) cs s = Some r" for s r
  proof -
    obtain c s1 where c: "getNonSpaceChar s = (c, s1)" by fastforce
    note u = getPropList.simps(2) [of n] getPropList.simps(2) [of "Suc n"]
    show ?thesis
      using r [unfolded u(1)] A [of True "[]" s1 r] D [of WMCreateHashTable s1 r] unfolding u(2) c Let_def prod.case
      by (simp split: if_splits)
  qed
  moreover have "getPLArray (Suc (Suc n)) cs first array s = Some r"
    if r: "getPLArray (Suc n) cs first array s = Some r" for s first array r
  proof -
    obtain c s1 where c: "getNonSpaceChar s = (c, s1)" by fastforce
    let ?s = "if c = CHR '','' then s1 else unget c s1"
    note u = getPLArray.simps(2) [of n] getPLArray.simps(2) [of "Suc n"]
    show ?thesis
    proof (cases "c = NUL \<or> c = CHR '')'' \<or> c \<noteq> CHR '','' \<and> \<not> first")
      case True
      then show ?thesis using r [unfolded u(1)] unfolding u(2) c Let_def prod.case by (auto split: if_splits)
    next
      case go: False
      show ?thesis
      proof (cases "getPropList n cs ?s")
        case None
        then show ?thesis using r [unfolded u(1)] go unfolding u(2) c Let_def prod.case by (cases "c = CHR '',''") auto
      next
        case (Some v2)
        obtain v s2 where v2: "v2 = (v, s2)" by fastforce
        note P' = P [OF Some]
        show ?thesis
        proof (cases v)
          case None
          then show ?thesis using r [unfolded u(1)] go Some P' v2 unfolding u(2) c Let_def prod.case
            by (cases first; cases "c = CHR '',''"; simp)
        next
          case (Some obj)
          have "getPLArray n cs False (array @ [obj]) s2 = Some r"
            using r [unfolded u(1)] go \<open>getPropList n cs ?s = Some v2\<close> Some v2 unfolding u(2) c Let_def prod.case
            by (cases first; cases "c = CHR '',''"; simp)
          from A [OF this] show ?thesis using go Some P' v2 unfolding u(2) c Let_def prod.case
            by (cases first; cases "c = CHR '',''"; simp)
        qed
      qed
    qed
  qed
  moreover have "getPLDictionary (Suc (Suc n)) cs dict s = Some r"
    if r: "getPLDictionary (Suc n) cs dict s = Some r" for s dict r
  proof -
    obtain c s1 where c: "getNonSpaceChar s = (c, s1)" by fastforce
    obtain k s2 where k: "getPLKey c s1 = (k, s2)" by fastforce
    obtain c3 s3 where c3: "getNonSpaceChar s2 = (c3, s3)" by fastforce
    note u = getPLDictionary.simps(2) [of n] getPLDictionary.simps(2) [of "Suc n"]
    show ?thesis
    proof (cases "c = NUL \<or> c = CHR ''}'' \<or> \<not> (c = CHR ''<'' \<or> c = DQUOTE \<or> ISSTRINGABLE c) \<or>
        k = None \<or> c3 \<noteq> CHR ''=''")
      case True
      then show ?thesis using r [unfolded u(1)] unfolding u(2) c k Let_def prod.case by (auto simp: c3 split: if_splits option.splits)
    next
      case go: False
      then obtain key where key: "k = Some key" by auto
      show ?thesis
      proof (cases "getPropList n cs s3")
        case None
        then show ?thesis using r [unfolded u(1)] go key unfolding u(2) c k Let_def prod.case
          by (simp add: c3 split: if_splits)
      next
        case (Some v4)
        obtain v s4 where v4: "v4 = (v, s4)" by fastforce
        note P' = P [OF Some]
        obtain c5 s5 where c5: "getNonSpaceChar s4 = (c5, s5)" by fastforce
        show ?thesis
        proof (cases v)
          case None
          then show ?thesis using r [unfolded u(1)] go key unfolding u(2) c k Let_def prod.case
            by (simp add: c3 Some P' v4)
        next
          case (Some val)
          have "(if c5 \<noteq> CHR '';'' then Some (NULL, COMPLAIN ''missing ; in PropList dictionary entry'' s5)
              else getPLDictionary n cs (put_key cs dict key val) s5) = Some r"
            using r [unfolded u(1)] go key \<open>getPropList n cs s3 = Some v4\<close> Some v4 unfolding u(2) c k Let_def prod.case
            by (simp add: c3 c5)
          then have "(if c5 \<noteq> CHR '';'' then Some (NULL, COMPLAIN ''missing ; in PropList dictionary entry'' s5)
              else getPLDictionary (Suc n) cs (put_key cs dict key val) s5) = Some r"
            using D [of "put_key cs dict key val" s5 r] by (simp split: if_splits)
          then show ?thesis using go key Some unfolding u(2) c k Let_def prod.case
            by (simp add: c3 P' v4 c5)
        qed
      qed
    qed
  qed
  ultimately show ?case by blast
qed (simp add: getPropList.simps getPLArray.simps getPLDictionary.simps)

lemma parser_fuel:
  assumes "n \<le> m"
  shows "getPropList n cs s = Some r \<Longrightarrow> getPropList m cs s = Some r"
    "getPLArray n cs first array s = Some r \<Longrightarrow> getPLArray m cs first array s = Some r"
    "getPLDictionary n cs dict s = Some r \<Longrightarrow> getPLDictionary m cs dict s = Some r"
  using assms by (induction rule: dec_induct) (use parser_fuel_Suc in blast)+

section \<open>Properties\<close>

lemma description_returns:
  "\<exists>p s'. WMCreatePropListFromDescription cs desc = Some (p, s') \<and>
     length (pl_text s') \<le> length desc"
proof -
  have "ends (pl_start desc) (getPropList (2 * length desc + 1) cs (pl_start desc))"
    using parser_ends [of "2 * length desc + 1" cs] by (simp add: pl_start_def)
  then obtain p s1 where p: "getPropList (2 * length desc + 1) cs (pl_start desc) = Some (p, s1)"
    "tlen s1 \<le> length desc"
    by (auto simp: ends_def pl_start_def)
  obtain c s2 where c: "getNonSpaceChar s1 = (c, s2)" by fastforce
  show ?thesis
    using p getNonSpaceChar_shorter(1) [OF c] c
    by (auto simp: WMCreatePropListFromDescription_def Let_def)
qed

text \<open>
  C11: The parser ends on every text: with \<open>2 * n + 1\<close> units of fuel for a text of \<open>n\<close> characters
  (any larger amount gives the same result) it returns, with a value or with NULL, and
  so \<open>WMCreatePropListFromDescription\<close> returns for every description.
\<close>

theorem parser_terminates:
  "\<exists>p s'. WMCreatePropListFromDescription cs desc = Some (p, s') \<and>
     length (pl_text s') \<le> length desc"
  by (rule description_returns)

end
