(* ===== verification/WMPlistRoundTrip.thy ===== *)
theory WMPlistRoundTrip
  imports WMPlistParser
begin

text \<open>
  The parser reads every text that spells a value, hence what both printers write: the round trip
  of property lists through their descriptions and through files.
\<close>

section \<open>Reading characters\<close>

text \<open>The state after reading up to a rest of the text without complaint, whatever the line count.\<close>

definition at_rest :: "PLData \<Rightarrow> string \<Rightarrow> PLData \<Rightarrow> bool" where
  "at_rest s rest s' \<longleftrightarrow> pl_text s' = rest \<and> pl_log s' = pl_log s"

lemma at_rest_text: "at_rest s rest s' \<Longrightarrow> pl_text s' = rest"
  by (auto simp: at_rest_def)

lemma at_rest_trans: "at_rest s r s1 \<Longrightarrow> at_rest s1 r' s2 \<Longrightarrow> at_rest s r' s2"
  by (auto simp: at_rest_def)

lemma getChar_Cons:
  "pl_text s = c # r \<Longrightarrow> c \<noteq> NUL \<Longrightarrow> \<exists>s'. getChar s = (c, s') \<and> at_rest s r s'"
  by (auto simp: getChar_def at_rest_def)

lemma skip_space_blank:
  "blank b \<Longrightarrow> c \<noteq> NUL \<Longrightarrow> \<not> isspace c \<Longrightarrow> \<exists>l'. skip_space (b @ c # r) l = (c, r, l')"
proof (induction b arbitrary: l)
  case Nil
  have "c \<noteq> NL" using Nil blank_Cons(2) by auto
  then show ?case using Nil by simp
next
  case (Cons d b)
  have "d \<noteq> NUL" using Cons.prems(1) by (auto simp: blank_def isspace_def)
  then show ?case using Cons by (auto simp: blank_def)
qed

lemma getNonSpaceChar_blank:
  assumes "pl_text s = b @ c # r" "blank b" "c \<noteq> NUL" "\<not> isspace c"
  obtains s' where "getNonSpaceChar s = (c, s')" "at_rest s r s'"
proof -
  obtain l' where "skip_space (b @ c # r) (pl_line s) = (c, r, l')"
    using skip_space_blank [OF assms(2-4)] by blast
  then have "getNonSpaceChar s = (c, s\<lparr>pl_text := r, pl_line := l'\<rparr>)"
    using assms(1) by (simp add: getNonSpaceChar_def)
  then show thesis by (rule that) (auto simp: at_rest_def)
qed

lemma getNonSpaceChar_end:
  "pl_text s = b \<Longrightarrow> blank b \<Longrightarrow> fst (getNonSpaceChar s) = NUL"
proof -
  have "blank b \<Longrightarrow> \<exists>r l'. skip_space b l = (NUL, r, l')" for l
    by (induction b arbitrary: l) (auto simp: blank_def)
  moreover assume "pl_text s = b" "blank b"
  ultimately obtain r l' where "skip_space (pl_text s) (pl_line s) = (NUL, r, l')" by blast
  then show ?thesis by (simp add: getNonSpaceChar_def)
qed

section \<open>Quoted strings\<close>

lemma qstring_char:
  assumes "pl_text s = c # r" "c \<notin> {NUL, BSL, DQUOTE}"
  shows "\<exists>s'. qstring_loop s False buf = qstring_loop s' False (buf @ [c]) \<and> at_rest s r s'"
proof -
  obtain s' where s': "getChar s = (c, s')" "at_rest s r s'" using assms getChar_Cons by blast
  have "qstring_loop s False buf = qstring_loop s' False (buf @ [c])"
    by (subst qstring_loop.simps) (use s' assms in \<open>simp add: Let_def\<close>)
  with s'(2) show ?thesis by blast
qed

lemma qstring_escape:
  assumes "pl_text s = BSL # c # r" "c \<noteq> NUL"
  shows "\<exists>s'. qstring_loop s False buf = qstring_loop s' False (buf @ [BSL, c]) \<and> at_rest s r s'"
proof -
  obtain s1 where s1: "getChar s = (BSL, s1)" "at_rest s (c # r) s1"
    using getChar_Cons [OF assms(1)] by auto
  obtain s2 where s2: "getChar s1 = (c, s2)" "at_rest s1 r s2"
    using getChar_Cons [OF at_rest_text [OF s1(2)] assms(2)] by blast
  have "qstring_loop s False buf = qstring_loop s1 True buf"
    by (subst qstring_loop.simps) (use s1 in simp)
  also have "\<dots> = qstring_loop s2 False (buf @ [BSL, c])"
    by (subst qstring_loop.simps) (use s2 assms in \<open>simp add: Let_def\<close>)
  finally show ?thesis using at_rest_trans [OF s1(2) s2(2)] by blast
qed

lemma code_octal_digit: "code (octal_digit n) = 48 + n mod 8"
proof -
  have "48 + n mod 8 < 256" by (rule le_less_trans [of _ "48 + 7"]) simp_all
  then show ?thesis by (simp add: octal_digit_def)
qed

lemma octal_digit_plain: "octal_digit n \<notin> {NUL, BSL, DQUOTE}"
proof
  assume "octal_digit n \<in> {NUL, BSL, DQUOTE}"
  then have "code (octal_digit n) \<in> {0, 92, 34}" by auto
  moreover have "n mod 8 < 8" by simp
  ultimately show False unfolding code_octal_digit by auto
qed

text \<open>The characters that an escaped character consists of, read back into the buffer.\<close>

lemma qstring_escape_char:
  assumes t: "pl_text s = escape_char c @ r" and c: "c \<noteq> NUL"
  shows "\<exists>s'. qstring_loop s False buf = qstring_loop s' False (buf @ escape_char c) \<and> at_rest s r s'"
proof -
  consider "charesc c" | "\<not> charesc c" "numesc c" | "\<not> charesc c" "\<not> numesc c" by blast
  then show ?thesis
  proof cases
    case 1
    then have "escape_letter c \<noteq> NUL" using c by (auto simp: escape_letter_def)
    with 1 t qstring_escape [of s "escape_letter c" r buf] show ?thesis by (simp add: escape_char_def)
  next
    case 2
    let ?a = "octal_digit (code c div 64)" and ?b = "octal_digit (code c div 8)"
      and ?d = "octal_digit (code c)"
    have e: "escape_char c = [BSL, ?a, ?b, ?d]" using 2 by (simp add: escape_char_def)
    obtain s1 where s1: "qstring_loop s False buf = qstring_loop s1 False (buf @ [BSL, ?a])"
      "at_rest s (?b # ?d # r) s1"
      using qstring_escape [of s ?a "?b # ?d # r" buf] t e octal_digit_plain by auto
    obtain s2 where s2: "qstring_loop s1 False (buf @ [BSL, ?a]) =
        qstring_loop s2 False ((buf @ [BSL, ?a]) @ [?b])" "at_rest s1 (?d # r) s2"
      using qstring_char [OF at_rest_text [OF s1(2)] octal_digit_plain] by blast
    obtain s3 where s3: "qstring_loop s2 False ((buf @ [BSL, ?a]) @ [?b]) =
        qstring_loop s3 False (((buf @ [BSL, ?a]) @ [?b]) @ [?d])" "at_rest s2 r s3"
      using qstring_char [OF at_rest_text [OF s2(2)] octal_digit_plain] by blast
    have "at_rest s r s3" using s1(2) s2(2) s3(2) at_rest_trans by blast
    then show ?thesis using s1(1) s2(1) s3(1) e by auto
  next
    case 3
    then have "c \<notin> {NUL, BSL, DQUOTE}" using c by (auto simp: charesc_def)
    with 3 t qstring_char [of s c r buf] show ?thesis by (simp add: escape_char_def)
  qed
qed

lemma qstring_escaped:
  "pl_text s = concat (map escape_char a) @ DQUOTE # r \<Longrightarrow> NUL \<notin> set a \<Longrightarrow>
   \<exists>s'. qstring_loop s False buf = (True, buf @ concat (map escape_char a), s') \<and> at_rest s r s'"
proof (induction a arbitrary: s buf)
  case Nil
  then obtain s' where "getChar s = (DQUOTE, s')" "at_rest s r s'"
    using getChar_Cons [of s DQUOTE r] by auto
  then show ?case by (subst qstring_loop.simps) simp
next
  case (Cons c a)
  obtain s1 where s1: "qstring_loop s False buf = qstring_loop s1 False (buf @ escape_char c)"
    "at_rest s (concat (map escape_char a) @ DQUOTE # r) s1"
    using qstring_escape_char [of s c _ buf] Cons.prems by fastforce
  obtain s2 where "qstring_loop s1 False (buf @ escape_char c) =
      (True, (buf @ escape_char c) @ concat (map escape_char a), s2)" "at_rest s1 r s2"
    using Cons.IH [OF at_rest_text [OF s1(2)]] Cons.prems by fastforce
  then show ?case using s1 at_rest_trans by auto
qed

text \<open>Undoing the escapes.\<close>

lemma unescape_escape_letter:
  "charesc c \<Longrightarrow> \<not> is_octal (escape_letter c) \<and> unescape_letter (escape_letter c) = c"
proof -
  assume c: "charesc c"
  have "code c \<in> code ` {CHR 0x07, CHR 0x08, CHR 0x09, CHR 0x0A, CHR 0x0B, CHR 0x0C, DQUOTE, BSL}"
    using c by (auto simp: charesc_def inrange_def)
  then obtain d where d: "d \<in> {CHR 0x07, CHR 0x08, CHR 0x09, CHR 0x0A, CHR 0x0B, CHR 0x0C, DQUOTE, BSL}"
    "code c = code d" by blast
  then have "c = d" by simp
  with d(1) have "c \<in> {CHR 0x07, CHR 0x08, CHR 0x09, CHR 0x0A, CHR 0x0B, CHR 0x0C, DQUOTE, BSL}" by (simp only:)
  then show ?thesis
    by (elim insertE emptyE) (simp_all add: escape_letter_def unescape_letter_def is_octal_def inrange_def)
qed

lemma code_less: "code c < 256"
  by (rule nat_of_char_less_256)

lemma octal_value_digits:
  "octal_value (octal_digit (code c div 64)) (octal_digit (code c div 8) # octal_digit (code c) # r) = (c, r)"
proof -
  have o: "is_octal (octal_digit n)" for n
  proof -
    have "n mod 8 < 8" by simp
    then show ?thesis unfolding is_octal_def inrange_def code_octal_digit by linarith
  qed
  have d: "code (octal_digit n) mod 8 = n mod 8" for n
    unfolding code_octal_digit by (simp add: mod_add_eq [symmetric, of 48])
  have q: "code c div 64 < 8" by (rule less_mult_imp_div_less) (rule less_trans [OF code_less], simp)
  have "(code c div 64 * 8 + code c div 8 mod 8) * 8 + code c mod 8 = code c"
  proof -
    have "code c div 64 * 8 + code c div 8 mod 8 = code c div 8"
      using div_mult_mod_eq [of "code c div 8" 8] by (simp add: div_mult2_eq [symmetric])
    then show ?thesis using div_mult_mod_eq [of "code c" 8] by simp
  qed
  then have "char_of ((code c div 64 * 8 + code c div 8 mod 8) * 8 + code c mod 8) = c"
    by (simp only: char_of_char)
  then show ?thesis using q by (simp add: octal_value_def Let_def o d)
qed

lemma unescape_escape_char: "unescapestr (escape_char c @ r) = c # unescapestr r"
proof -
  consider "charesc c" | "\<not> charesc c" "numesc c" | "\<not> charesc c" "\<not> numesc c" by blast
  then show ?thesis
  proof cases
    case 1
    then show ?thesis using unescape_escape_letter [of c] by (simp add: escape_char_def)
  next
    case 2
    have "is_octal (octal_digit n)" for n
    proof -
      have "n mod 8 < 8" by simp
      then show ?thesis unfolding is_octal_def inrange_def code_octal_digit by linarith
    qed
    then show ?thesis using 2 octal_value_digits [of c r] by (simp add: escape_char_def)
  next
    case 3
    then show ?thesis by (simp add: escape_char_def charesc_def)
  qed
qed

lemma unescape_escaped: "unescapestr (concat (map escape_char a)) = a"
  by (induction a) (simp_all add: unescape_escape_char)

lemma c_string_id: "NUL \<notin> set a \<Longrightarrow> c_string a = a"
  by (auto simp: c_string_def takeWhile_eq_all_conv)

lemma getPLQString_escaped:
  assumes "pl_text s = concat (map escape_char a) @ DQUOTE # r" "NUL \<notin> set a"
  shows "\<exists>s'. getPLQString s = (Some (PLString a), s') \<and> at_rest s r s'"
  using qstring_escaped [OF assms, of "[]"] assms(2)
  by (auto simp: getPLQString_def WMCreatePLString_def unescape_escaped c_string_id)

section \<open>Unquoted strings\<close>

definition stops :: "string \<Rightarrow> bool" where
  "stops r \<longleftrightarrow> r = [] \<or> \<not> ISSTRINGABLE (hd r)"

lemma string_loop_read:
  "pl_text s = a @ r \<Longrightarrow> \<forall>c \<in> set a. ISSTRINGABLE c \<Longrightarrow> stops r \<Longrightarrow>
   \<exists>s'. string_loop s buf = (buf @ a, s') \<and> at_rest s r s'"
proof (induction a arbitrary: s buf)
  case Nil
  show ?case
  proof (cases r)
    case Nil
    then show ?thesis using Nil.prems
      by (subst string_loop.simps) (simp add: getChar_def at_rest_def ISSTRINGABLE_def isalnum_def)
  next
    case (Cons c r')
    then have "\<not> ISSTRINGABLE c" using Nil.prems(3) by (simp add: stops_def)
    then show ?thesis using Nil.prems(1) Cons
      by (subst string_loop.simps) (auto simp: getChar_def at_rest_def unget_def)
  qed
next
  case (Cons c a)
  then have c: "ISSTRINGABLE c" by simp
  obtain s1 where s1: "getChar s = (c, s1)" "at_rest s (a @ r) s1"
    using getChar_Cons [of s c "a @ r"] Cons.prems(1) ISSTRINGABLE_not_NUL [OF c] by auto
  obtain s2 where "string_loop s1 (buf @ [c]) = ((buf @ [c]) @ a, s2)" "at_rest s1 r s2"
    using Cons.IH [OF at_rest_text [OF s1(2)]] Cons.prems by fastforce
  then show ?case
    using s1 c at_rest_trans by (subst string_loop.simps) auto
qed

lemma unescape_plain: "BSL \<notin> set a \<Longrightarrow> unescapestr a = a"
  by (induction a) auto

lemma noquote_stringable: "noquote c \<Longrightarrow> c \<noteq> CHR ''$'' \<Longrightarrow> ISSTRINGABLE c"
  by (auto simp: noquote_def ISSTRINGABLE_def isalnum_def inrange_def Let_def)

lemma ISSTRINGABLE_not: "ISSTRINGABLE c \<Longrightarrow> c \<notin> {NUL, BSL, DQUOTE, CHR ''<'', CHR ''('', CHR ''{'',
    CHR '')'', CHR ''}'', CHR '','', CHR '';'', CHR ''=''} \<and> \<not> isspace c"
  by (auto simp: ISSTRINGABLE_def isalnum_def isspace_def Let_def)

lemma getPLString_read:
  assumes "pl_text s = a @ r" "\<forall>c \<in> set a. ISSTRINGABLE c" "a \<noteq> []" "stops r"
  shows "\<exists>s'. getPLString s = (Some (PLString a), s') \<and> at_rest s r s'"
proof -
  have "BSL \<notin> set a" "NUL \<notin> set a" using assms(2) ISSTRINGABLE_not by blast+
  then show ?thesis
    using string_loop_read [OF assms(1,2,4), of "[]"] assms(3)
    by (auto simp: getPLString_def WMCreatePLString_def unescape_plain c_string_id)
qed

section \<open>Data\<close>

lemma num2char_digit:
  assumes "v < 16"
  shows "ishexdigit (num2char v)" "char2num (num2char v) = v" "num2char v \<noteq> CHR ''>''"
    "num2char v \<noteq> NUL" "\<not> isspace (num2char v)"
proof -
  have c: "code (num2char v) = (if v < 10 then v + 0x30 else v + 0x57)"
    using assms by (simp add: num2char_def)
  show "ishexdigit (num2char v)" "char2num (num2char v) = v"
    using assms by (auto simp: ishexdigit_def char2num_def inrange_def c)
  show "num2char v \<noteq> CHR ''>''" "num2char v \<noteq> NUL" "\<not> isspace (num2char v)"
    using assms c by (auto simp: isspace_def Let_def split: if_splits dest: arg_cong [of _ _ code])
qed

lemma unat_byte: "unat (b :: 8 word) < 256"
  by (rule order_less_le_trans [OF unsigned_less]) simp

lemma nibbles: "push_bit 4 (of_nat (unat b div 16)) OR of_nat (unat b mod 16) = (b :: 8 word)"
proof -
  have "unat b div 16 < 256" using unat_byte [of b] by (simp add: less_mult_imp_div_less)
  then have "of_nat (unat b div 16) = drop_bit 4 b"
    by (intro word_unat_eq_iff [THEN iffD2]) (simp add: drop_bit_eq_div unat_of_nat unat_div_distrib)
  moreover have "of_nat (unat b mod 16) = take_bit 4 b"
    by (intro word_unat_eq_iff [THEN iffD2])
      (simp add: take_bit_eq_mod unat_of_nat unat_mod_distrib mod_mod_cancel)
  ultimately show ?thesis by (auto simp: bit_eq_iff bit_simps)
qed

lemma data_loop_digits:
  "pl_text s = d @ data_digits i bs @ CHR ''>'' # r \<Longrightarrow> blank d \<Longrightarrow>
   \<exists>s'. data_loop s bytes = (Some (bytes @ bs), s') \<and> at_rest s r s'"
proof (induction i bs arbitrary: s bytes d rule: data_digits.induct)
  case (1 i)
  then have t: "pl_text s = d @ CHR ''>'' # r" by simp
  obtain s1 where "getNonSpaceChar s = (CHR ''>'', s1)" "at_rest s r s1"
    by (rule getNonSpaceChar_blank [OF t 1(2)]) (auto simp: isspace_def)
  then show ?case by (subst data_loop.simps) simp
next
  case (2 i b bs)
  let ?h = "num2char (unat b div 16)" and ?l = "num2char (unat b mod 16)"
  let ?sp = "if i mod 4 = 3 \<and> bs \<noteq> [] then [CHR '' ''] else []"
  have v: "unat b div 16 < 16" "unat b mod 16 < 16"
    using unat_byte [of b] by (simp_all add: less_mult_imp_div_less)
  note H = num2char_digit [OF v(1)] and L = num2char_digit [OF v(2)]
  let ?r1 = "?l # ?sp @ data_digits (i + 1) bs @ CHR ''>'' # r"
  have t: "pl_text s = d @ ?h # ?r1" using 2(2) by simp
  obtain s1 where s1: "getNonSpaceChar s = (?h, s1)" "at_rest s ?r1 s1"
    by (rule getNonSpaceChar_blank [OF t 2(3) H(4,5)])
  have t1: "pl_text s1 = [] @ ?l # ?sp @ data_digits (i + 1) bs @ CHR ''>'' # r"
    using at_rest_text [OF s1(2)] by simp
  obtain s2 where s2: "getNonSpaceChar s1 = (?l, s2)"
    "at_rest s1 (?sp @ data_digits (i + 1) bs @ CHR ''>'' # r) s2"
    by (rule getNonSpaceChar_blank [OF t1 blank_spaces(2) L(4,5)])
  have "blank ?sp" using blank_spaces by simp
  from 2(1) [OF at_rest_text [OF s2(2)] this, of "bytes @ [b]"] obtain s'
    where s': "data_loop s2 (bytes @ [b]) = (Some ((bytes @ [b]) @ bs), s')" "at_rest s2 r s'" by blast
  have "data_loop s bytes =
      data_loop s2 (bytes @ [push_bit 4 (of_nat (char2num ?h)) OR of_nat (char2num ?l)])"
    by (subst data_loop.simps) (simp only: s1(1) s2(1) H L Let_def prod.case if_True if_False simp_thms)
  also have "\<dots> = data_loop s2 (bytes @ [b])" by (simp only: H(2) L(2) nibbles)
  finally have "data_loop s bytes = data_loop s2 (bytes @ [b])" .
  then have "data_loop s bytes = (Some (bytes @ b # bs), s')" using s'(1) by simp
  moreover have "at_rest s r s'"
    using at_rest_trans [OF at_rest_trans [OF s1(2) s2(2)] s'(2)] .
  ultimately show ?case by blast
qed

lemma getPLData_read:
  "pl_text s = data_digits 0 bs @ CHR ''>'' # r \<Longrightarrow>
   \<exists>s'. getPLData s = (Some (PLData bs), s') \<and> at_rest s r s'"
  using data_loop_digits [of s "[]" 0 bs r "[]"] blank_spaces(2) by (auto simp: getPLData_def)

section \<open>Keys and scalar values\<close>

lemma stringDescription_hd:
  "s \<noteq> [] \<Longrightarrow> \<not> needs_quote s \<Longrightarrow> stringDescription s = s"
proof -
  assume a: "s \<noteq> []" "\<not> needs_quote s"
  have "escape_char c = [c]" if "c \<in> set s" for c
    using that a(2) by (auto simp: needs_quote_def escape_char_def noquote_def charesc_def numesc_def inrange_def)
  then have "concat (map escape_char s) = s" by (induction s) auto
  then show ?thesis using a by (simp add: stringDescription_def Let_def)
qed

inductive_cases spells_stringE: "spells (PLString s) w"
inductive_cases spells_dataE: "spells (PLData bs) w"

text \<open>Reading a string or data value through its first character.\<close>

lemma getPLKey_read:
  assumes k: "is_key k" and sp: "spells k w" and st: "stops r"
    and t: "pl_text s = b @ w @ r" and b: "blank b"
  shows "\<exists>c s1 s2. getNonSpaceChar s = (c, s1) \<and> (c = CHR ''<'' \<or> c = DQUOTE \<or> ISSTRINGABLE c) \<and>
    getPLKey c s1 = (Some k, s2) \<and> at_rest s r s2"
proof (cases k)
  case (PLData bs)
  then have w: "w = CHR ''<'' # data_digits 0 bs @ [CHR ''>'']"
    using sp by (auto elim: spells_dataE simp: dataDescription_def)
  have t': "pl_text s = b @ CHR ''<'' # data_digits 0 bs @ CHR ''>'' # r" using t w by simp
  obtain s1 where s1: "getNonSpaceChar s = (CHR ''<'', s1)" "at_rest s (data_digits 0 bs @ CHR ''>'' # r) s1"
    by (rule getNonSpaceChar_blank [OF t' b]) (auto simp: isspace_def)
  obtain s2 where s2: "getPLData s1 = (Some (PLData bs), s2)" "at_rest s1 r s2"
    using getPLData_read [OF at_rest_text [OF s1(2)]] by blast
  have "at_rest s r s2" by (rule at_rest_trans [OF s1(2) s2(2)])
  then show ?thesis using s1(1) s2(1) PLData by (simp add: getPLKey_def)
next
  case (PLString a)
  then have w: "w = stringDescription a" "readable_string a"
    using sp by (auto elim: spells_stringE)
  show ?thesis
  proof (cases "a = [] \<or> needs_quote a")
    case True
    then have "w = DQUOTE # concat (map escape_char a) @ [DQUOTE]"
      using w(1) by (auto simp: stringDescription_def Let_def)
    then have t': "pl_text s = b @ DQUOTE # concat (map escape_char a) @ DQUOTE # r" using t by simp
    obtain s1 where s1: "getNonSpaceChar s = (DQUOTE, s1)"
      "at_rest s (concat (map escape_char a) @ DQUOTE # r) s1"
      by (rule getNonSpaceChar_blank [OF t' b]) (auto simp: isspace_def)
    obtain s2 where s2: "getPLQString s1 = (Some (PLString a), s2)" "at_rest s1 r s2"
      using getPLQString_escaped [OF at_rest_text [OF s1(2)]] w(2) by (auto simp: readable_string_def)
    have "at_rest s r s2" by (rule at_rest_trans [OF s1(2) s2(2)])
    then show ?thesis using s1(1) s2(1) PLString by (simp add: getPLKey_def)
  next
    case False
    then have wa: "w = a" using w(1) stringDescription_hd by simp
    have str: "\<forall>c \<in> set a. ISSTRINGABLE c"
      using False w(2) noquote_stringable by (auto simp: needs_quote_def readable_string_def)
    obtain c a' where a: "a = c # a'" using False by (cases a) auto
    have c: "ISSTRINGABLE c" using str a by simp
    have t': "pl_text s = b @ c # a' @ r" using t wa a by simp
    obtain s1 where s1: "getNonSpaceChar s = (c, s1)" "at_rest s (a' @ r) s1"
      by (rule getNonSpaceChar_blank [OF t' b]) (use ISSTRINGABLE_not [OF c] in auto)
    have u: "pl_text (unget c s1) = a @ r" using at_rest_text [OF s1(2)] a by (simp add: unget_def)
    obtain s2 where s2: "getPLString (unget c s1) = (Some (PLString a), s2)" "at_rest (unget c s1) r s2"
      using getPLString_read [OF u str _ st] False by blast
    have "at_rest s r s2" using s2(2) s1(2) by (simp add: at_rest_def unget_def)
    moreover have "c \<noteq> CHR ''<''" "c \<noteq> DQUOTE" using ISSTRINGABLE_not [OF c] by auto
    ultimately show ?thesis using s1(1) s2(1) PLString c by (auto simp: getPLKey_def)
  qed
qed (use k in simp_all)

lemma getPropList_key:
  assumes "getNonSpaceChar s = (c, s1)" "c = CHR ''<'' \<or> c = DQUOTE \<or> ISSTRINGABLE c"
  shows "getPropList (Suc n) cs s = Some (getPLKey c s1)"
  using assms ISSTRINGABLE_not [of c] by (auto simp: getPropList.simps getPLKey_def)

section \<open>Arrays and dictionaries\<close>

text \<open>
  What a value is read back as: an equal one, and the same one if it is a string or data. For
  dictionaries the comparison needs the tables to be well formed.
\<close>

definition read_as :: "bool \<Rightarrow> W_PropList \<Rightarrow> W_PropList \<Rightarrow> bool" where
  "read_as cs p q \<longleftrightarrow> WMIsPropListEqualTo cs p q \<and> (is_key p \<longrightarrow> q = p)"

text \<open>The table that the parser builds from the items it reads.\<close>

fun put_items ::
  "bool \<Rightarrow> (W_PropList, W_PropList) W_HashTable \<Rightarrow> (W_PropList, W_PropList) HashItem list \<Rightarrow>
   W_PropList list \<Rightarrow> (W_PropList, W_PropList) W_HashTable" where
  "put_items cs t (x # xs) (v # vs) = put_items cs (put_key cs t (itemKey x) v) xs vs"
| "put_items cs t _ _ = t"

lemma spells_key_start:
  "spells p w \<Longrightarrow> \<exists>c w'. w = c # w' \<and> (c \<in> {CHR ''<'', DQUOTE, CHR ''('', CHR ''{''} \<or> ISSTRINGABLE c)"
proof (cases p)
  case (PLString a)
  assume "spells p w"
  then have w: "w = stringDescription a" "readable_string a"
    using PLString by (auto elim: spells_stringE)
  show ?thesis
  proof (cases "a = [] \<or> needs_quote a")
    case False
    then have "w = a" using w(1) stringDescription_hd by simp
    moreover have "\<forall>c \<in> set a. ISSTRINGABLE c"
      using False w(2) noquote_stringable by (auto simp: needs_quote_def readable_string_def)
    ultimately show ?thesis using False by (cases a) auto
  qed (auto simp: w(1) stringDescription_def Let_def)
next
  case (PLData bs)
  assume "spells p w"
  then show ?thesis using PLData by (auto elim: spells_dataE simp: dataDescription_def)
next
  case (PLArray xs)
  assume "spells p w"
  then show ?thesis using PLArray by (auto elim: spells_arrayE)
next
  case (PLDictionary t)
  assume "spells p w"
  then show ?thesis using PLDictionary by (auto elim: spells_dictionaryE)
qed

lemma value_start:
  assumes "c \<in> {CHR ''<'', DQUOTE, CHR ''('', CHR ''{''} \<or> ISSTRINGABLE c"
  shows "c \<notin> {NUL, CHR '')'', CHR ''}'', CHR '','', CHR '';'', CHR ''=''}" "\<not> isspace c"
proof -
  have "c \<notin> {NUL, CHR '')'', CHR ''}'', CHR '','', CHR '';'', CHR ''=''} \<and> \<not> isspace c"
    using assms
  proof
    assume "c \<in> {CHR ''<'', DQUOTE, CHR ''('', CHR ''{''}"
    then show ?thesis by (elim insertE emptyE) (simp_all add: isspace_def)
  next
    assume "ISSTRINGABLE c"
    from ISSTRINGABLE_not [OF this] show ?thesis by simp
  qed
  then show "c \<notin> {NUL, CHR '')'', CHR ''}'', CHR '','', CHR '';'', CHR ''=''}" "\<not> isspace c"
    by (rule conjunct1, rule conjunct2)
qed

text \<open>Putting the first character back changes nothing for \<open>getPropList\<close>.\<close>

lemma getPropList_unget:
  assumes "getNonSpaceChar s = (c, s1)" "c \<noteq> NUL" "\<not> isspace c"
  shows "getPropList n cs (unget c s1) = getPropList n cs s"
proof -
  have nl: "c \<noteq> NL" using assms(3) by (auto simp: isspace_def)
  have "getNonSpaceChar (unget c s1) = (c, s1)"
    using assms nl by (simp add: getNonSpaceChar_def unget_def)
  then show ?thesis using assms(1) by (cases n) (simp_all add: getPropList.simps)
qed

lemma put_items_spec:
  assumes "dict_wf cs u" "\<forall>x \<in> set xs. is_key (itemKey x)" "length vs = length xs"
    "sorted_wrt (\<lambda>x y. \<not> WMIsPropListEqualTo cs (itemKey x) (itemKey y)) xs"
    "\<forall>x \<in> set xs. plist_map cs u (itemKey x) = None"
  shows "dict_wf cs (put_items cs u xs vs) \<and>
    WMCountHashTable (put_items cs u xs vs) = WMCountHashTable u + length xs \<and>
    (\<forall>(x, v) \<in> set (zip xs vs). plist_map cs (put_items cs u xs vs) (itemKey x) = Some (Some v)) \<and>
    (\<forall>k. is_key k \<and> (\<forall>x \<in> set xs. \<not> WMIsPropListEqualTo cs k (itemKey x)) \<longrightarrow>
       plist_map cs (put_items cs u xs vs) k = plist_map cs u k)"
  using assms
proof (induction xs arbitrary: u vs)
  case (Cons x xs)
  then obtain v vs' where vs: "vs = v # vs'" "length vs' = length xs" by (cases vs) auto
  have k: "is_key (itemKey x)" using Cons.prems by simp
  let ?u = "put_key cs u (itemKey x) v"
  note P = put_key_spec [OF Cons.prems(1) k]
  have ne: "\<not> WMIsPropListEqualTo cs (itemKey y) (itemKey x)" if "y \<in> set xs" for y
    using that Cons.prems(2,4) k plist_keys.eq_sym [of "itemKey y" "itemKey x" cs]
    unfolding KEYEQ_plist by auto
  have free: "\<forall>y \<in> set xs. plist_map cs ?u (itemKey y) = None"
    using P(2) ne Cons.prems(2,5) by auto
  have d: "\<forall>y \<in> set xs. is_key (itemKey y)"
    "sorted_wrt (\<lambda>x y. \<not> WMIsPropListEqualTo cs (itemKey x) (itemKey y)) xs"
    using Cons.prems(2,4) by auto
  note IH = Cons.IH [OF P(1) d(1) vs(2) d(2) free]
  have "plist_map cs (put_items cs ?u xs vs') (itemKey x) = plist_map cs ?u (itemKey x)"
    using IH k Cons.prems(4) by auto
  moreover have "plist_map cs ?u (itemKey x) = Some (Some v)"
    using P(2) [OF k] plist_keys.eq_refl [OF k, of cs] by (simp add: KEYEQ_plist)
  moreover have "plist_map cs (put_items cs ?u xs vs') l = plist_map cs u l"
    if "is_key l" "\<not> WMIsPropListEqualTo cs l (itemKey x)"
      "\<forall>y \<in> set xs. \<not> WMIsPropListEqualTo cs l (itemKey y)" for l
    using IH P(2) [OF that(1)] that by auto
  moreover have "WMCountHashTable ?u = WMCountHashTable u + 1" using P(3) Cons.prems(5) by simp
  ultimately show ?case using IH by (simp add: vs(1))
qed simp

lemma put_items_read:
  assumes v: "valid_plist cs (PLDictionary t)"
    and r: "list_all2 (\<lambda>x q. \<exists>v. itemData x = Some v \<and> read_as cs v q) (items_of t) vs"
  shows "read_as cs (PLDictionary t) (PLDictionary (put_items cs WMCreateHashTable (items_of t) vs))"
proof -
  let ?u = "put_items cs WMCreateHashTable (items_of t) vs"
  have wf: "dict_wf cs t" using v by simp
  then have shape: "ht_shape (WMPropListHashCallbacks cs) is_key t" by (simp add: ht_wf_def)
  have len: "length vs = length (items_of t)" using list_all2_lengthD [OF r] by simp
  note S = put_items_spec [OF plist_keys.WMCreateHashTable_wf _ len
      plist_keys.items_distinct [OF shape, unfolded KEYEQ_plist]]
  have c0: "WMCountHashTable (WMCreateHashTable :: (W_PropList, W_PropList) W_HashTable) = 0"
    by (simp add: WMCountHashTable_def WMCreateHashTable_def)
  have S': "dict_wf cs ?u" "WMCountHashTable ?u = length (items_of t)"
    "\<forall>(x, v) \<in> set (zip (items_of t) vs). plist_map cs ?u (itemKey x) = Some (Some v)"
    using S plist_keys.items_valid [OF shape] by (auto simp: plist_keys.WMCreateHashTable_map c0)
  have "WMCountHashTable t = WMCountHashTable ?u"
    using S'(2) wf by (simp add: ht_wf_def WMCountHashTable_def)
  moreover have "\<exists>a b. itemData x = Some a \<and> WMHashGet (WMPropListHashCallbacks cs) ?u (itemKey x) = Some b \<and>
      WMIsPropListEqualTo cs a b" if x: "x \<in> set (items_of t)" for x
  proof -
    obtain i where i: "i < length (items_of t)" "x = items_of t ! i" using x by (auto simp: in_set_conv_nth)
    then obtain a where a: "itemData x = Some a" "read_as cs a (vs ! i)"
      using list_all2_nthD [OF r] by blast
    have "(x, vs ! i) \<in> set (zip (items_of t) vs)" using i len by (force simp: set_zip)
    then have "plist_map cs ?u (itemKey x) = Some (Some (vs ! i))" using S'(3) by auto
    then show ?thesis using a by (simp add: WMHashGet_ht_map read_as_def)
  qed
  ultimately show ?thesis
    unfolding read_as_def dictionaries_equal [OF S'(1)] by simp
qed

lemma stops_blank: "blank b \<Longrightarrow> \<not> ISSTRINGABLE c \<Longrightarrow> stops (b @ c # r)"
  using ISSTRINGABLE_not by (cases b) (auto simp: stops_def blank_def)

lemma not_stringable: "\<not> ISSTRINGABLE (CHR '')'')" "\<not> ISSTRINGABLE (CHR ''}'')"
  "\<not> ISSTRINGABLE (CHR '','')" "\<not> ISSTRINGABLE (CHR '';'')" "\<not> ISSTRINGABLE (CHR '' '')"
  by (simp_all add: ISSTRINGABLE_def isalnum_def)

lemma elems_start:
  assumes "spells_elems xs w"
  shows "\<exists>b c w'. w = b @ c # w' \<and> blank b \<and>
    (c \<in> {CHR ''<'', DQUOTE, CHR ''('', CHR ''{''} \<or> ISSTRINGABLE c)"
  using assms
proof cases
  case (elems_last b x v b')
  then show ?thesis using spells_key_start [of x v] by force
next
  case (elems_more b x v y ys ws)
  then show ?thesis using spells_key_start [of x v] by force
qed

section \<open>The parser reads every text of a value\<close>

definition value_reads :: "bool \<Rightarrow> W_PropList \<Rightarrow> string \<Rightarrow> bool" where
  "value_reads cs p w \<longleftrightarrow> (\<forall>b r s. blank b \<longrightarrow> stops r \<longrightarrow> pl_text s = b @ w @ r \<longrightarrow>
     (\<exists>n q s'. getPropList n cs s = Some (Some q, s') \<and> at_rest s r s' \<and> read_as cs p q))"

definition elems_read :: "bool \<Rightarrow> W_PropList list \<Rightarrow> string \<Rightarrow> bool" where
  "elems_read cs xs w \<longleftrightarrow> (\<forall>r s acc. pl_text s = w @ CHR '')'' # r \<longrightarrow>
     (\<exists>n obj s2 qs s'. getPropList n cs s = Some (Some obj, s2) \<and>
        getPLArray n cs False (acc @ [obj]) s2 = Some (Some (PLArray (acc @ qs)), s') \<and>
        at_rest s r s' \<and> list_all2 (read_as cs) xs qs))"

definition items_read :: "bool \<Rightarrow> (W_PropList, W_PropList) HashItem list \<Rightarrow> string \<Rightarrow> bool" where
  "items_read cs xs w \<longleftrightarrow> (\<forall>r s acc. pl_text s = w @ CHR ''}'' # r \<longrightarrow>
     (\<exists>n vs s'. getPLDictionary n cs acc s = Some (Some (PLDictionary (put_items cs acc xs vs)), s') \<and>
        at_rest s r s' \<and> list_all2 (\<lambda>x q. \<exists>v. itemData x = Some v \<and> read_as cs v q) xs vs))"

lemma value_reads_key:
  assumes "valid_plist cs p" "is_key p" "spells p w"
  shows "value_reads cs p w"
  unfolding value_reads_def
proof (intro allI impI)
  fix b r and s :: PLData
  assume b: "blank b" "stops r" "pl_text s = b @ w @ r"
  obtain c s1 s2 where k: "getNonSpaceChar s = (c, s1)" "c = CHR ''<'' \<or> c = DQUOTE \<or> ISSTRINGABLE c"
    "getPLKey c s1 = (Some p, s2)" "at_rest s r s2"
    using getPLKey_read [OF assms(2,3) b(2,3,1)] by blast
  have "getPropList (Suc 0) cs s = Some (Some p, s2)" using getPropList_key [OF k(1,2)] k(3) by simp
  moreover have "read_as cs p p" using plist_equal_refl [OF assms(1)] by (simp add: read_as_def)
  ultimately show "\<exists>n q s'. getPropList n cs s = Some (Some q, s') \<and> at_rest s r s' \<and> read_as cs p q"
    using k(4) by blast
qed

lemma read_bracket:
  assumes "pl_text s = b @ c # r" "blank b" "c \<in> {CHR ''('', CHR '')'', CHR ''{'', CHR ''}'', CHR '','', CHR '';'', CHR ''=''}"
  obtains s' where "getNonSpaceChar s = (c, s')" "at_rest s r s'"
proof (rule getNonSpaceChar_blank [OF assms(1,2)])
  show "c \<noteq> NUL" using assms(3) by auto
  show "\<not> isspace c" using assms(3) by (elim insertE emptyE) (simp_all add: isspace_def)
qed

lemma array_end:
  assumes "pl_text s = b @ CHR '')'' # r" "blank b"
  shows "\<exists>s'. getPLArray (Suc n) cs first acc s = Some (Some (PLArray acc), s') \<and> at_rest s r s'"
proof -
  obtain s' where "getNonSpaceChar s = (CHR '')'', s')" "at_rest s r s'"
    using read_bracket [OF assms] by auto
  then show ?thesis by (simp add: getPLArray.simps)
qed

lemma elems_read_last:
  assumes x: "value_reads cs x w" and b: "blank b" "blank b'"
  shows "elems_read cs [x] (b @ w @ b')"
  unfolding elems_read_def
proof (intro allI impI)
  fix r acc and s :: PLData
  assume "pl_text s = (b @ w @ b') @ CHR '')'' # r"
  then have t: "pl_text s = b @ w @ (b' @ CHR '')'' # r)" by simp
  obtain n q s2 where q: "getPropList n cs s = Some (Some q, s2)" "at_rest s (b' @ CHR '')'' # r) s2"
    "read_as cs x q"
    using x b(1) t stops_blank [OF b(2) not_stringable(1)] unfolding value_reads_def by blast
  obtain s' where s': "getPLArray (Suc n) cs False (acc @ [q]) s2 = Some (Some (PLArray (acc @ [q])), s')"
    "at_rest s2 r s'" using array_end [OF at_rest_text [OF q(2)] b(2)] by blast
  have "getPropList (Suc n) cs s = Some (Some q, s2)" by (rule parser_fuel(1) [OF _ q(1)]) simp
  moreover have "at_rest s r s'" by (rule at_rest_trans [OF q(2) s'(2)])
  ultimately show "\<exists>n obj s2 qs s'. getPropList n cs s = Some (Some obj, s2) \<and>
      getPLArray n cs False (acc @ [obj]) s2 = Some (Some (PLArray (acc @ qs)), s') \<and>
      at_rest s r s' \<and> list_all2 (read_as cs) [x] qs"
    using s'(1) q(3) by (intro exI [of _ "Suc n"] exI [of _ q] exI [of _ s2] exI [of _ "[q]"] exI [of _ s']) simp
qed

lemma elems_read_more:
  assumes x: "value_reads cs x w" and b: "blank b" and ys: "elems_read cs ys ws"
  shows "elems_read cs (x # ys) (b @ w @ '','' @ ws)"
  unfolding elems_read_def
proof (intro allI impI)
  fix r acc and s :: PLData
  assume "pl_text s = (b @ w @ '','' @ ws) @ CHR '')'' # r"
  then have t: "pl_text s = b @ w @ (CHR '','' # ws @ CHR '')'' # r)" by simp
  have st: "stops (CHR '','' # ws @ CHR '')'' # r)" by (simp add: stops_def not_stringable)
  obtain n q s2 where q: "getPropList n cs s = Some (Some q, s2)"
    "at_rest s (CHR '','' # ws @ CHR '')'' # r) s2" "read_as cs x q"
    using x b t st unfolding value_reads_def by blast
  have t2: "pl_text s2 = [] @ CHR '','' # ws @ CHR '')'' # r" using at_rest_text [OF q(2)] by simp
  obtain s3 where s3: "getNonSpaceChar s2 = (CHR '','', s3)" "at_rest s2 (ws @ CHR '')'' # r) s3"
    using read_bracket [OF t2 blank_spaces(2)] by auto
  obtain m o2 s4 qs s' where m: "getPropList m cs s3 = Some (Some o2, s4)"
    "getPLArray m cs False ((acc @ [q]) @ [o2]) s4 = Some (Some (PLArray ((acc @ [q]) @ qs)), s')"
    "at_rest s3 r s'" "list_all2 (read_as cs) ys qs"
    using ys at_rest_text [OF s3(2)] unfolding elems_read_def by blast
  have a: "getPLArray (Suc m) cs False (acc @ [q]) s2 = Some (Some (PLArray (acc @ q # qs)), s')"
    using s3(1) m(1,2) by (simp add: getPLArray.simps)
  let ?n = "max n (Suc m)"
  have "getPropList ?n cs s = Some (Some q, s2)" by (rule parser_fuel(1) [OF _ q(1)]) simp
  moreover have "getPLArray ?n cs False (acc @ [q]) s2 = Some (Some (PLArray (acc @ q # qs)), s')"
    by (rule parser_fuel(2) [OF _ a]) simp
  moreover have "at_rest s r s'" by (rule at_rest_trans [OF at_rest_trans [OF q(2) s3(2)] m(3)])
  ultimately show "\<exists>n obj s2 qs s'. getPropList n cs s = Some (Some obj, s2) \<and>
      getPLArray n cs False (acc @ [obj]) s2 = Some (Some (PLArray (acc @ qs)), s') \<and>
      at_rest s r s' \<and> list_all2 (read_as cs) (x # ys) qs"
    using q(3) m(4)
    by (intro exI [of _ ?n] exI [of _ q] exI [of _ s2] exI [of _ "q # qs"] exI [of _ s']) simp
qed

lemma items_read_more:
  assumes b: "blank b" and k: "is_key (itemKey x)" "spells (itemKey x) wk"
    and v: "itemData x = Some v" "value_reads cs v wv" and xs: "items_read cs xs ws"
  shows "items_read cs (x # xs) (b @ wk @ '' = '' @ wv @ '';'' @ ws)"
  unfolding items_read_def
proof (intro allI impI)
  fix r acc and s :: PLData
  let ?r3 = "ws @ CHR ''}'' # r" let ?r2 = "wv @ CHR '';'' # ?r3"
  assume "pl_text s = (b @ wk @ '' = '' @ wv @ '';'' @ ws) @ CHR ''}'' # r"
  then have t: "pl_text s = b @ wk @ ('' '' @ CHR ''='' # '' '' @ ?r2)" by simp
  have st: "stops ('' '' @ CHR ''='' # '' '' @ ?r2)" by (simp add: stops_def not_stringable)
  obtain c s1 s2 where c: "getNonSpaceChar s = (c, s1)" "c = CHR ''<'' \<or> c = DQUOTE \<or> ISSTRINGABLE c"
    "getPLKey c s1 = (Some (itemKey x), s2)" "at_rest s ('' '' @ CHR ''='' # '' '' @ ?r2) s2"
    using getPLKey_read [OF k st t b] by blast
  have cs: "c \<noteq> NUL" "c \<noteq> CHR ''}''" using value_start(1) [of c] c(2) by auto
  obtain s3 where s3: "getNonSpaceChar s2 = (CHR ''='', s3)" "at_rest s2 ('' '' @ ?r2) s3"
    using read_bracket [OF at_rest_text [OF c(4)] blank_spaces(4)] by auto
  have "stops (CHR '';'' # ?r3)" by (simp add: stops_def not_stringable)
  then obtain n q s4 where q: "getPropList n cs s3 = Some (Some q, s4)" "at_rest s3 (CHR '';'' # ?r3) s4"
    "read_as cs v q"
    using v(2) blank_spaces(4) at_rest_text [OF s3(2)] unfolding value_reads_def by blast
  have t4: "pl_text s4 = [] @ CHR '';'' # ?r3" using at_rest_text [OF q(2)] by simp
  obtain s5 where s5: "getNonSpaceChar s4 = (CHR '';'', s5)" "at_rest s4 ?r3 s5"
    using read_bracket [OF t4 blank_spaces(2)] by auto
  let ?acc = "put_key cs acc (itemKey x) q"
  obtain m vs s' where m: "getPLDictionary m cs ?acc s5 = Some (Some (PLDictionary (put_items cs ?acc xs vs)), s')"
    "at_rest s5 r s'" "list_all2 (\<lambda>x q. \<exists>v. itemData x = Some v \<and> read_as cs v q) xs vs"
    using xs at_rest_text [OF s5(2)] unfolding items_read_def by blast
  let ?n = "max n m"
  have q': "getPropList ?n cs s3 = Some (Some q, s4)" by (rule parser_fuel(1) [OF _ q(1)]) simp
  have m': "getPLDictionary ?n cs ?acc s5 = Some (Some (PLDictionary (put_items cs ?acc xs vs)), s')"
    by (rule parser_fuel(3) [OF _ m(1)]) simp
  have "getPLDictionary (Suc ?n) cs acc s = Some (Some (PLDictionary (put_items cs acc (x # xs) (q # vs))), s')"
    using c cs s3(1) s5(1) q' m' by (simp add: getPLDictionary.simps)
  moreover have "at_rest s r s'"
    by (rule at_rest_trans [OF at_rest_trans [OF at_rest_trans [OF at_rest_trans [OF c(4) s3(2)] q(2)] s5(2)] m(2)])
  ultimately show "\<exists>n vs s'. getPLDictionary n cs acc s = Some (Some (PLDictionary (put_items cs acc (x # xs) vs)), s') \<and>
      at_rest s r s' \<and> list_all2 (\<lambda>x q. \<exists>v. itemData x = Some v \<and> read_as cs v q) (x # xs) vs"
    using v(1) q(3) m(3) by (intro exI [of _ "Suc ?n"] exI [of _ "q # vs"] exI [of _ s']) simp
qed

lemma value_reads_array_empty:
  assumes "blank w" shows "value_reads cs (PLArray []) (''('' @ w @ '')'')"
  unfolding value_reads_def
proof (intro allI impI)
  fix b r and s :: PLData
  assume b: "blank b" and "pl_text s = b @ (''('' @ w @ '')'') @ r"
  then have t: "pl_text s = b @ CHR ''('' # w @ CHR '')'' # r" by simp
  obtain s1 where s1: "getNonSpaceChar s = (CHR ''('', s1)" "at_rest s (w @ CHR '')'' # r) s1"
    using read_bracket [OF t b] by auto
  obtain s' where s': "getPLArray (Suc 0) cs True [] s1 = Some (Some (PLArray []), s')" "at_rest s1 r s'"
    using array_end [OF at_rest_text [OF s1(2)] assms] by blast
  have "getPropList (Suc (Suc 0)) cs s = Some (Some (PLArray []), s')"
    using s1(1) s'(1) by (simp add: getPropList.simps(2))
  moreover have "at_rest s r s'" by (rule at_rest_trans [OF s1(2) s'(2)])
  moreover have "read_as cs (PLArray []) (PLArray [])" by (simp add: read_as_def)
  ultimately show "\<exists>n q s'. getPropList n cs s = Some (Some q, s') \<and> at_rest s r s' \<and>
      read_as cs (PLArray []) q" by blast
qed

lemma value_reads_array:
  assumes e: "spells_elems xs w" and x: "elems_read cs xs w"
  shows "value_reads cs (PLArray xs) (''('' @ w @ '')'')"
  unfolding value_reads_def
proof (intro allI impI)
  fix b r and s :: PLData
  assume b: "blank b" and "pl_text s = b @ (''('' @ w @ '')'') @ r"
  then have t: "pl_text s = b @ CHR ''('' # w @ CHR '')'' # r" by simp
  obtain s1 where s1: "getNonSpaceChar s = (CHR ''('', s1)" "at_rest s (w @ CHR '')'' # r) s1"
    using read_bracket [OF t b] by auto
  obtain n obj s2 qs s' where n: "getPropList n cs s1 = Some (Some obj, s2)"
    "getPLArray n cs False ([] @ [obj]) s2 = Some (Some (PLArray ([] @ qs)), s')"
    "at_rest s1 r s'" "list_all2 (read_as cs) xs qs"
    using x at_rest_text [OF s1(2)] unfolding elems_read_def by blast
  obtain b' c w' where w: "w = b' @ c # w'" "blank b'"
    "c \<in> {CHR ''<'', DQUOTE, CHR ''('', CHR ''{''} \<or> ISSTRINGABLE c"
    using elems_start [OF e] by blast
  note C = value_start [OF w(3)]
  have t1: "pl_text s1 = b' @ c # w' @ CHR '')'' # r" using at_rest_text [OF s1(2)] w(1) by simp
  have cN: "c \<noteq> NUL" using C(1) by simp
  obtain s1' where s1': "getNonSpaceChar s1 = (c, s1')"
    by (rule getNonSpaceChar_blank [OF t1 w(2) cN C(2)])
  have "getPLArray (Suc n) cs True [] s1 = Some (Some (PLArray qs), s')"
    using C(1) s1' n(1,2) getPropList_unget [OF s1' cN C(2)] by (simp add: getPLArray.simps(2))
  then have "getPropList (Suc (Suc n)) cs s = Some (Some (PLArray qs), s')"
    using s1(1) by (simp add: getPropList.simps(2))
  moreover have "at_rest s r s'" by (rule at_rest_trans [OF s1(2) n(3)])
  moreover have "read_as cs (PLArray xs) (PLArray qs)"
    using n(4) unfolding read_as_def arrays_equal by (auto elim: list_all2_mono)
  ultimately show "\<exists>n q s'. getPropList n cs s = Some (Some q, s') \<and> at_rest s r s' \<and>
      read_as cs (PLArray xs) q" by blast
qed

lemma items_read_end: "blank b \<Longrightarrow> items_read cs [] b"
  unfolding items_read_def
proof (intro allI impI)
  fix r acc and s :: PLData
  assume "blank b" "pl_text s = b @ CHR ''}'' # r"
  then obtain s' where s': "getNonSpaceChar s = (CHR ''}'', s')" "at_rest s r s'"
    using read_bracket by blast
  then have "getPLDictionary (Suc 0) cs acc s = Some (Some (PLDictionary (put_items cs acc [] [])), s')"
    by (simp add: getPLDictionary.simps)
  then show "\<exists>n vs s'. getPLDictionary n cs acc s = Some (Some (PLDictionary (put_items cs acc [] vs)), s') \<and>
      at_rest s r s' \<and> list_all2 (\<lambda>x q. \<exists>v. itemData x = Some v \<and> read_as cs v q) [] vs"
    using s'(2) by blast
qed

lemma value_reads_dictionary:
  assumes v: "valid_plist cs (PLDictionary t)" and i: "items_read cs (concat (tTable t)) w"
  shows "value_reads cs (PLDictionary t) (''{'' @ w @ ''}'')"
  unfolding value_reads_def
proof (intro allI impI)
  fix b r and s :: PLData
  assume b: "blank b" and "pl_text s = b @ (''{'' @ w @ ''}'') @ r"
  then have t: "pl_text s = b @ CHR ''{'' # w @ CHR ''}'' # r" by simp
  obtain s1 where s1: "getNonSpaceChar s = (CHR ''{'', s1)" "at_rest s (w @ CHR ''}'' # r) s1"
    using read_bracket [OF t b] by auto
  obtain n vs s' where n: "getPLDictionary n cs WMCreateHashTable s1 =
      Some (Some (PLDictionary (put_items cs WMCreateHashTable (concat (tTable t)) vs)), s')"
    "at_rest s1 r s'"
    "list_all2 (\<lambda>x q. \<exists>v. itemData x = Some v \<and> read_as cs v q) (concat (tTable t)) vs"
    using i at_rest_text [OF s1(2)] unfolding items_read_def by blast
  have "getPropList (Suc n) cs s =
      Some (Some (PLDictionary (put_items cs WMCreateHashTable (concat (tTable t)) vs)), s')"
    using s1(1) n(1) by (simp add: getPropList.simps(2))
  moreover have "at_rest s r s'" by (rule at_rest_trans [OF s1(2) n(2)])
  ultimately show "\<exists>n q s'. getPropList n cs s = Some (Some q, s') \<and> at_rest s r s' \<and>
      read_as cs (PLDictionary t) q"
    using put_items_read [OF v, unfolded items_of_def, OF n(3)] by blast
qed

theorem spells_reads:
  shows "spells p w \<Longrightarrow> valid_plist cs p \<Longrightarrow> value_reads cs p w"
    and "spells_elems xs w \<Longrightarrow> \<forall>x \<in> set xs. valid_plist cs x \<Longrightarrow> elems_read cs xs w"
    and "spells_items ys w \<Longrightarrow> \<forall>x \<in> set ys. valid_plist cs (itemKey x) \<and>
      (case itemData x of None \<Rightarrow> False | Some v \<Rightarrow> valid_plist cs v) \<Longrightarrow> items_read cs ys w"
proof (induction rule: spells_spells_elems_spells_items.inducts)
  case (spells_string s)
  then show ?case using value_reads_key [of cs "PLString s"] spells_spells_elems_spells_items.spells_string by simp
next
  case (spells_data bs)
  then show ?case using value_reads_key [of cs "PLData bs"] spells_spells_elems_spells_items.spells_data by simp
next
  case (spells_array_empty w)
  show ?case by (rule value_reads_array_empty [OF spells_array_empty(1)])
next
  case (spells_array xs w)
  then show ?case using value_reads_array by simp
next
  case (spells_dictionary t w)
  then show ?case using value_reads_dictionary by auto
next
  case (elems_last b x w b')
  then show ?case using elems_read_last by simp
next
  case (elems_more b x w y ys ws)
  then show ?case using elems_read_more by simp
next
  case (items_end b)
  then show ?case using items_read_end by simp
next
  case (items_more b x wk v wv xs ws)
  then show ?case using items_read_more by simp
qed

text \<open>Reading a whole text: with enough fuel, white space around it is ignored.\<close>

lemma description_read:
  assumes "value_reads cs p w" "blank e"
  shows "\<exists>q s'. WMCreatePropListFromDescription cs (w @ e) = Some (Some q, s') \<and>
    WMIsPropListEqualTo cs p q \<and> pl_log s' = []"
proof -
  let ?s = "pl_start (w @ e)"
  have "stops e"
    using assms(2) ISSTRINGABLE_not by (cases e) (auto simp: stops_def blank_def)
  moreover have "pl_text ?s = [] @ w @ e" by (simp add: pl_start_def)
  ultimately obtain n q s1 where q: "getPropList n cs ?s = Some (Some q, s1)" "at_rest ?s e s1" "read_as cs p q"
    using assms(1) blank_spaces(2) unfolding value_reads_def by blast
  let ?n = "2 * length (w @ e) + 1"
  have "ends ?s (getPropList ?n cs ?s)"
    using parser_ends [of ?n cs] by (simp add: pl_start_def)
  then obtain r where r: "getPropList ?n cs ?s = Some r" by (auto simp: ends_def)
  have "getPropList (max n ?n) cs ?s = Some r" "getPropList (max n ?n) cs ?s = Some (Some q, s1)"
    by (rule parser_fuel(1) [OF _ r], simp) (rule parser_fuel(1) [OF _ q(1)], simp)
  then have r': "getPropList ?n cs ?s = Some (Some q, s1)" using r by simp
  obtain c s2 where c: "getNonSpaceChar s1 = (c, s2)" by fastforce
  have "c = NUL" using getNonSpaceChar_end [OF at_rest_text [OF q(2)] assms(2)] c by simp
  moreover have "pl_log s2 = pl_log s1" using c by (auto simp: getNonSpaceChar_def split: prod.splits)
  ultimately show ?thesis
    using r' c q(2,3) by (simp add: WMCreatePropListFromDescription_def at_rest_def read_as_def pl_start_def)
qed

section \<open>Properties\<close>

lemma description_reads_back:
  assumes "valid_plist cs p" "readable p"
  shows "\<exists>q s. WMCreatePropListFromDescription cs (WMGetPropListDescription p indented) = Some (Some q, s) \<and>
    WMIsPropListEqualTo cs p q \<and> pl_log s = []"
proof -
  have "spells p (WMGetPropListDescription p indented)"
    using assms spells_description spells_indentedDescription by (simp add: WMGetPropListDescription_def)
  from description_read [OF spells_reads(1) [OF this assms(1)] blank_spaces(2)] show ?thesis by simp
qed

definition example_plist :: W_PropList where
  "example_plist = PLDictionary (put_key True WMCreateHashTable (PLString ''a key'')
     (PLArray [PLString ''x'', PLData [1, 255], PLArray []]))"

lemma example_items:
  "concat (tTable (put_key True WMCreateHashTable (PLString ''a key'')
     (PLArray [PLString ''x'', PLData [1, 255], PLArray []]))) =
   [HashItem (PLString ''a key'') (Some (PLArray [PLString ''x'', PLData [1, 255], PLArray []]))]"
  by code_simp

lemma example_valid: "valid_plist True example_plist" "readable example_plist"
proof -
  have "dict_wf True (put_key True WMCreateHashTable (PLString ''a key'')
     (PLArray [PLString ''x'', PLData [1, 255], PLArray []]))"
    by (rule put_key_spec(1) [OF plist_keys.WMCreateHashTable_wf]) simp
  then show "valid_plist True example_plist" unfolding example_plist_def by (simp add: example_items)
  show "readable example_plist"
    unfolding example_plist_def
    by (simp add: example_items readable_string_def needs_quote_def noquote_def inrange_def)
qed

lemma file_reads_back:
  assumes "valid_plist cs p" "readable p"
  shows "\<exists>q s. WMReadPropListFromFile cs (Some (written_text p)) = Some (Some q, Some s) \<and>
    WMIsPropListEqualTo cs p q \<and> pl_log s = []"
proof -
  from description_read [OF spells_reads(1) [OF spells_indentedDescription [OF assms] assms(1)] blank_spaces(3)]
  obtain q s where "WMCreatePropListFromDescription cs (indentedDescription p 0 @ [NL]) = Some (Some q, s)"
    "WMIsPropListEqualTo cs p q" "pl_log s = []" by blast
  then show ?thesis by (simp add: WMReadPropListFromFile_def written_text_def)
qed

text \<open>
  What \<open>WMWritePropListToFile\<close> writes, \<open>WMReadPropListFromFile\<close> reads back as an equal value,
  under the same conditions; a file that is empty or cannot be read gives NULL.
\<close>

theorem file_round_trip:
  assumes "valid_plist cs p" "readable p"
  shows "(\<exists>q s. WMReadPropListFromFile cs (Some (written_text p)) = Some (Some q, Some s) \<and>
      WMIsPropListEqualTo cs p q \<and> pl_log s = []) \<and>
    WMReadPropListFromFile cs None = Some (NULL, None) \<and>
    WMReadPropListFromFile cs (Some []) = Some (NULL, None)"
  using file_reads_back [OF assms] by (simp add: WMReadPropListFromFile_def)

theorem file_round_trip_witness:
  "\<exists>q s. WMReadPropListFromFile True (Some (written_text example_plist)) = Some (Some q, Some s) \<and>
     WMIsPropListEqualTo True example_plist q \<and> pl_log s = []"
  using file_round_trip [OF example_valid] by blast

text \<open>
  Strings with a dollar sign do not survive: when every character of a string passes \<open>noquote\<close>,
  the printer leaves it unquoted, and if one of them is a dollar sign, which \<open>noquote\<close> admits but
  \<open>ISSTRINGABLE\<close> does not, parsing the description gives NULL and a complaint.
\<close>

theorem dollar_string_unreadable:
  assumes "\<not> needs_quote a" "CHR ''$'' \<in> set a"
  shows "description (PLString a) = a \<and>
    (\<exists>s. WMCreatePropListFromDescription cs (description (PLString a)) = Some (NULL, s) \<and> pl_log s \<noteq> [])"
proof -
  have d: "description (PLString a) = a" using assms stringDescription_hd [of a] by (cases a) simp_all
  obtain u v where uv: "a = u @ CHR ''$'' # v" "CHR ''$'' \<notin> set u"
    using split_list_first [OF assms(2)] by blast
  have str: "\<forall>c \<in> set u. ISSTRINGABLE c"
    using assms(1) uv noquote_stringable by (auto simp: needs_quote_def)
  have nd: "\<not> ISSTRINGABLE (CHR ''$'')" "\<not> isspace (CHR ''$'')"
    by (simp_all add: ISSTRINGABLE_def isalnum_def isspace_def)
  let ?s = "pl_start a" and ?n = "2 * length a + 1"
  have n: "?n = Suc (2 * length a)" by simp
  show ?thesis
  proof (cases u)
    case Nil
    then have t: "pl_text ?s = [] @ CHR ''$'' # v" using uv by (simp add: pl_start_def)
    obtain s1 where s1: "getNonSpaceChar ?s = (CHR ''$'', s1)"
      by (rule getNonSpaceChar_blank [OF t blank_spaces(2) _ nd(2)]) auto
    obtain s2 where "getPropList ?n cs ?s = Some (NULL, s2)" "pl_log s2 \<noteq> []"
      unfolding n using s1 nd by (simp add: getPropList.simps(2) COMPLAIN_def)
    then show ?thesis using d
      by (auto simp: WMCreatePropListFromDescription_def getNonSpaceChar_def split: prod.splits)
  next
    case (Cons c u')
    have c: "ISSTRINGABLE c" using str Cons by simp
    note C = value_start [OF disjI2 [OF c]]
    have t: "pl_text ?s = [] @ c # u' @ CHR ''$'' # v" using uv Cons by (simp add: pl_start_def)
    obtain s1 where s1: "getNonSpaceChar ?s = (c, s1)" "at_rest ?s (u' @ CHR ''$'' # v) s1"
      by (rule getNonSpaceChar_blank [OF t blank_spaces(2) _ C(2)]) (use C(1) in simp)
    have u: "pl_text (unget c s1) = u @ CHR ''$'' # v"
      using at_rest_text [OF s1(2)] Cons by (simp add: unget_def)
    obtain s2 where s2: "getPLString (unget c s1) = (Some (PLString u), s2)"
      "at_rest (unget c s1) (CHR ''$'' # v) s2"
      using getPLString_read [OF u str] Cons nd(1) by (auto simp: stops_def)
    have g: "getPropList ?n cs ?s = Some (Some (PLString u), s2)"
      unfolding n using s1(1) s2(1) c C(1) ISSTRINGABLE_not [OF c] by (simp add: getPropList.simps(2))
    have t2: "pl_text s2 = [] @ CHR ''$'' # v" using at_rest_text [OF s2(2)] by simp
    obtain s3 where "getNonSpaceChar s2 = (CHR ''$'', s3)"
      by (rule getNonSpaceChar_blank [OF t2 blank_spaces(2) _ nd(2)]) auto
    then show ?thesis using d g by (simp add: WMCreatePropListFromDescription_def COMPLAIN_def)
  qed
qed

theorem dollar_string_unreadable_witness:
  "\<exists>s. WMCreatePropListFromDescription True (description (PLString ''$HOME'')) = Some (NULL, s) \<and> pl_log s \<noteq> []"
  using dollar_string_unreadable [of "''$HOME''" True]
  by (auto simp: needs_quote_def noquote_def inrange_def)

text \<open>
  A newline that ends an unquoted string is counted twice: \<open>getPLString\<close> reads it, increments the
  line number and steps back over it, so it is read (and counted) again: the line numbers
  of later complaints are too large.
\<close>

theorem newline_after_string_counted_twice:
  assumes "pl_text s = a @ NL # r" "\<forall>c \<in> set a. ISSTRINGABLE c" "a \<noteq> []"
  shows "pl_text (snd (getPLString s)) = NL # r \<and> pl_line (snd (getPLString s)) = pl_line s + 1"
proof -
  have "pl_text s = a @ NL # r \<Longrightarrow> \<forall>c \<in> set a. ISSTRINGABLE c \<Longrightarrow>
    \<exists>s'. string_loop s buf = (buf @ a, s') \<and> pl_text s' = NL # r \<and> pl_line s' = pl_line s + 1" for s buf
  proof (induction a arbitrary: s buf)
    case Nil
    then show ?case
      by (subst string_loop.simps) (simp add: getChar_def unget_def ISSTRINGABLE_def isalnum_def)
  next
    case (Cons c a)
    then have c: "ISSTRINGABLE c" "c \<noteq> NUL" using ISSTRINGABLE_not_NUL by auto
    have cl: "c \<noteq> NL" using ISSTRINGABLE_not [OF c(1)] blank_Cons(2) by metis
    obtain s1 where s1: "getChar s = (c, s1)" "pl_text s1 = a @ NL # r" "pl_line s1 = pl_line s"
      using Cons.prems(1) c(2) cl by (simp add: getChar_def)
    obtain s' where "string_loop s1 (buf @ [c]) = ((buf @ [c]) @ a, s')" "pl_text s' = NL # r"
      "pl_line s' = pl_line s1 + 1" using Cons.IH [OF s1(2)] Cons.prems(2) by fastforce
    then show ?case using s1 c(1) by (subst string_loop.simps) simp
  qed
  from this [OF assms(1,2), of "[]"] show ?thesis by (auto simp: getPLString_def split: prod.splits)
qed

theorem newline_after_string_counted_twice_witness:
  "pl_line (snd (getPLString (pl_start [CHR ''a'', NL, CHR ''b'']))) = 2"
  using newline_after_string_counted_twice [of "pl_start [CHR ''a'', NL, CHR ''b'']" "''a''" "''b''"]
  by (simp add: pl_start_def ISSTRINGABLE_def isalnum_def)

text \<open>
  Dictionaries keep their bindings: after \<open>WMPutInPLDictionary\<close> a key equal to the given one gives
  the new value and every other key what it gave before; after \<open>WMRemoveFromPLDictionary\<close> it gives
  NULL; for string and data keys, compared with or without regard to case.
\<close>

theorem dictionary_put_get:
  assumes "dict_wf cs t" "is_key key" "is_key l"
  shows "WMGetFromPLDictionary cs (WMPutInPLDictionary cs (PLDictionary t) key v) l =
      (if WMIsPropListEqualTo cs l key then Some v else WMGetFromPLDictionary cs (PLDictionary t) l) \<and>
    WMGetFromPLDictionary cs (WMRemoveFromPLDictionary cs (PLDictionary t) key) l =
      (if WMIsPropListEqualTo cs l key then NULL else WMGetFromPLDictionary cs (PLDictionary t) l)"
  using put_key_spec(2) [OF assms] remove_key_spec(2) [OF assms]
  by (simp add: WMGetFromPLDictionary_def WMPutInPLDictionary_def WMRemoveFromPLDictionary_def WMHashGet_ht_map)

theorem dictionary_put_get_witness:
  "WMGetFromPLDictionary False (WMPutInPLDictionary False WMCreatePLDictionary (PLString ''Key'') (PLData [1]))
     (PLString ''kEY'') = Some (PLData [1])"
proof -
  have "WMIsPropListEqualTo False (PLString ''kEY'') (PLString ''Key'')" by code_simp
  then show ?thesis
    using dictionary_put_get [OF plist_keys.WMCreateHashTable_wf,
        of "PLString ''Key''" "PLString ''kEY''" False "PLData [1]"]
    by (simp add: WMCreatePLDictionary_def del: WMIsPropListEqualTo.simps)
qed

end
