(* ===== verification/WMPlistUnreadable.thy ===== *)
theory WMPlistUnreadable
  imports WMPlistRoundTrip
begin

text \<open>
  The other side of the round trip: a string whose characters all pass \<open>noquote\<close> is printed without quotes, and when one
  of them is a dollar sign, which \<open>ISSTRINGABLE\<close> does not admit, the parser stops there. This theory follows such
  a string through arrays and dictionaries of any depth: whatever holds it cannot be read back.
\<close>

section \<open>Texts with an unquoted dollar sign\<close>

inductive misspells :: "bool \<Rightarrow> string \<Rightarrow> bool"
  and misspells_elems :: "bool \<Rightarrow> string \<Rightarrow> bool"
  and misspells_items :: "bool \<Rightarrow> string \<Rightarrow> bool"
  for cs :: bool
where
  bad_string: "\<not> needs_quote a \<Longrightarrow> CHR ''$'' \<in> set a \<Longrightarrow> misspells cs a"
| bad_array: "misspells_elems cs w \<Longrightarrow> misspells cs (''('' @ w @ rest)"
| bad_dictionary: "misspells_items cs w \<Longrightarrow> misspells cs (''{'' @ w @ rest)"
| bad_elem: "blank b \<Longrightarrow> misspells cs w \<Longrightarrow> misspells_elems cs (b @ w @ rest)"
| later_elem: "blank b \<Longrightarrow> spells x w \<Longrightarrow> valid_plist cs x \<Longrightarrow> misspells_elems cs ws \<Longrightarrow>
    misspells_elems cs (b @ w @ '','' @ ws)"
| bad_key: "blank b \<Longrightarrow> \<not> needs_quote a \<Longrightarrow> CHR ''$'' \<in> set a \<Longrightarrow> misspells_items cs (b @ a @ rest)"
| bad_value: "blank b \<Longrightarrow> is_key k \<Longrightarrow> spells k wk \<Longrightarrow> misspells cs w \<Longrightarrow>
    misspells_items cs (b @ wk @ '' = '' @ w @ rest)"
| later_item: "blank b \<Longrightarrow> is_key k \<Longrightarrow> spells k wk \<Longrightarrow> spells v wv \<Longrightarrow> valid_plist cs v \<Longrightarrow> misspells_items cs ws \<Longrightarrow>
    misspells_items cs (b @ wk @ '' = '' @ wv @ '';'' @ ws)"

lemma dollar: "\<not> ISSTRINGABLE (CHR ''$'')" "\<not> isspace (CHR ''$'')" "CHR ''$'' \<noteq> NUL"
  by (simp_all add: ISSTRINGABLE_def isalnum_def isspace_def)

lemma COMPLAIN_log [simp]: "pl_log (COMPLAIN msg s) \<noteq> []"
  by (simp add: COMPLAIN_def)

text \<open>A dollar sign comes next: it is the next character that is not a blank.\<close>

lemma at_dollar:
  assumes "pl_text s = CHR ''$'' # u"
  obtains s' where "getNonSpaceChar s = (CHR ''$'', s')"
  using getNonSpaceChar_blank [of s "[]" "CHR ''$''" u] assms blank_spaces(2) dollar by auto

text \<open>The parser at an unquoted string with a dollar sign: it is on it at once, or after the characters before it.\<close>

lemma bad_string_read:
  assumes a: "\<not> needs_quote a" "CHR ''$'' \<in> set a" and b: "blank b" and t: "pl_text s = b @ a @ r"
  shows "\<exists>c s1. getNonSpaceChar s = (c, s1) \<and> c \<noteq> NUL \<and> \<not> isspace c \<and>
    (c = CHR ''$'' \<or> ISSTRINGABLE c \<and> (\<exists>q s2 v. getPLString (unget c s1) = (Some q, s2) \<and> pl_text s2 = CHR ''$'' # v))"
proof -
  obtain u v where uv: "a = u @ CHR ''$'' # v" "CHR ''$'' \<notin> set u" using split_list_first [OF a(2)] by blast
  have str: "\<forall>c \<in> set u. ISSTRINGABLE c" using a(1) uv noquote_stringable by (auto simp: needs_quote_def)
  show ?thesis
  proof (cases u)
    case Nil
    then have "pl_text s = b @ CHR ''$'' # v @ r" using t uv by simp
    then obtain s1 where "getNonSpaceChar s = (CHR ''$'', s1)" using getNonSpaceChar_blank [OF _ b dollar(3,2)] by metis
    then show ?thesis using dollar by blast
  next
    case (Cons c u')
    have c: "ISSTRINGABLE c" using str Cons by simp
    note C = ISSTRINGABLE_not [OF c]
    have t': "pl_text s = b @ c # u' @ CHR ''$'' # v @ r" using t uv Cons by simp
    obtain s1 where s1: "getNonSpaceChar s = (c, s1)" "at_rest s (u' @ CHR ''$'' # v @ r) s1"
      by (rule getNonSpaceChar_blank [OF t' b]) (use C in auto)
    have u: "pl_text (unget c s1) = u @ CHR ''$'' # v @ r" using at_rest_text [OF s1(2)] Cons by (simp add: unget_def)
    obtain s2 where "getPLString (unget c s1) = (Some (PLString u), s2)" "at_rest (unget c s1) (CHR ''$'' # v @ r) s2"
      using getPLString_read [OF u str] Cons dollar(1) by (auto simp: stops_def)
    then show ?thesis using s1(1) c C at_rest_text by blast
  qed
qed

section \<open>The parser fails on them\<close>

text \<open>A complaint and no value, or a value before a dollar sign.\<close>

definition value_fails :: "bool \<Rightarrow> string \<Rightarrow> bool" where
  "value_fails cs w \<longleftrightarrow> (\<forall>b r s. blank b \<longrightarrow> pl_text s = b @ w @ r \<longrightarrow>
     (\<exists>n s'. getPropList n cs s = Some (NULL, s') \<and> pl_log s' \<noteq> []) \<or>
     (\<exists>n q s' u. getPropList n cs s = Some (Some q, s') \<and> pl_text s' = CHR ''$'' # u))"

definition elems_fail :: "bool \<Rightarrow> string \<Rightarrow> bool" where
  "elems_fail cs w \<longleftrightarrow> (\<forall>r s acc. pl_text s = w @ r \<longrightarrow>
     (\<exists>n s'. getPropList n cs s = Some (NULL, s')) \<or>
     (\<exists>n obj s2 s'. getPropList n cs s = Some (Some obj, s2) \<and>
        getPLArray n cs False (acc @ [obj]) s2 = Some (NULL, s') \<and> pl_log s' \<noteq> []))"

definition items_fail :: "bool \<Rightarrow> string \<Rightarrow> bool" where
  "items_fail cs w \<longleftrightarrow> (\<forall>r s acc. pl_text s = w @ r \<longrightarrow>
     (\<exists>n s'. getPLDictionary n cs acc s = Some (NULL, s') \<and> pl_log s' \<noteq> []))"

lemma value_failsE:
  assumes "value_fails cs w" "blank b" "pl_text s = b @ w @ r"
  obtains n s' where "getPropList n cs s = Some (NULL, s')" "pl_log s' \<noteq> []"
  | n q s' u where "getPropList n cs s = Some (Some q, s')" "pl_text s' = CHR ''$'' # u"
  using assms unfolding value_fails_def by blast

lemma bad_string_fails: "\<not> needs_quote a \<Longrightarrow> CHR ''$'' \<in> set a \<Longrightarrow> value_fails cs a"
  unfolding value_fails_def
proof (intro allI impI)
  fix b r and s :: PLData
  assume "\<not> needs_quote a" "CHR ''$'' \<in> set a" "blank b" "pl_text s = b @ a @ r"
  then obtain c s1 where c: "getNonSpaceChar s = (c, s1)" "c \<noteq> NUL"
    "c = CHR ''$'' \<or> ISSTRINGABLE c \<and> (\<exists>q s2 v. getPLString (unget c s1) = (Some q, s2) \<and> pl_text s2 = CHR ''$'' # v)"
    using bad_string_read by blast
  from c(3) show "(\<exists>n s'. getPropList n cs s = Some (NULL, s') \<and> pl_log s' \<noteq> []) \<or>
      (\<exists>n q s' u. getPropList n cs s = Some (Some q, s') \<and> pl_text s' = CHR ''$'' # u)"
  proof
    assume "c = CHR ''$''"
    then have "getPropList (Suc 0) cs s = Some (NULL, COMPLAIN ''was expecting a string, data, array or dictionary'' s1)"
      using c(1) dollar by (simp add: getPropList.simps(2))
    then show ?thesis using COMPLAIN_log by blast
  next
    assume i: "ISSTRINGABLE c \<and> (\<exists>q s2 v. getPLString (unget c s1) = (Some q, s2) \<and> pl_text s2 = CHR ''$'' # v)"
    then obtain q s2 v where "getPLString (unget c s1) = (Some q, s2)" "pl_text s2 = CHR ''$'' # v" by blast
    moreover have "getPropList (Suc 0) cs s = Some (getPLString (unget c s1))"
      using c(1) i ISSTRINGABLE_not [of c] by (auto simp: getPropList.simps(2))
    ultimately show ?thesis by (metis (no_types, lifting))
  qed
qed

lemma value_fails_NULL: "(\<And>b r s. blank b \<Longrightarrow> pl_text s = b @ w @ r \<Longrightarrow>
    \<exists>n s'. getPropList n cs s = Some (NULL, s') \<and> pl_log s' \<noteq> []) \<Longrightarrow> value_fails cs w"
  unfolding value_fails_def by blast

lemma bad_elem_fails:
  assumes "blank b" "value_fails cs w"
  shows "elems_fail cs (b @ w @ rest)"
  unfolding elems_fail_def
proof (intro allI impI)
  fix r acc and s :: PLData
  assume "pl_text s = (b @ w @ rest) @ r"
  then have "pl_text s = b @ w @ (rest @ r)" by simp
  from value_failsE [OF assms(2,1) this]
  show "(\<exists>n s'. getPropList n cs s = Some (NULL, s')) \<or>
     (\<exists>n obj s2 s'. getPropList n cs s = Some (Some obj, s2) \<and>
        getPLArray n cs False (acc @ [obj]) s2 = Some (NULL, s') \<and> pl_log s' \<noteq> [])"
  proof cases
    case (2 n q s' u)
    obtain s3 where "getNonSpaceChar s' = (CHR ''$'', s3)" using at_dollar [OF 2(2)] .
    then have "getPLArray (Suc n) cs False (acc @ [q]) s' =
        Some (NULL, COMPLAIN ''missing or unterminated PropList array'' s3)" by (simp add: getPLArray.simps)
    moreover have "getPropList (Suc n) cs s = Some (Some q, s')" by (rule parser_fuel(1) [OF _ 2(1)]) simp
    ultimately show ?thesis using COMPLAIN_log by blast
  qed blast
qed

lemma later_elem_fails:
  assumes b: "blank b" and x: "spells x w" "valid_plist cs x" and ws: "elems_fail cs ws"
  shows "elems_fail cs (b @ w @ '','' @ ws)"
  unfolding elems_fail_def
proof (intro allI impI)
  fix r acc and s :: PLData
  assume "pl_text s = (b @ w @ '','' @ ws) @ r"
  then have t: "pl_text s = b @ w @ (CHR '','' # ws @ r)" by simp
  have st: "stops (CHR '','' # ws @ r)" by (simp add: stops_def not_stringable)
  obtain n q s2 where q: "getPropList n cs s = Some (Some q, s2)" "at_rest s (CHR '','' # ws @ r) s2"
    using spells_reads(1) [OF x] b t st unfolding value_reads_def by blast
  have t2: "pl_text s2 = [] @ CHR '','' # ws @ r" using at_rest_text [OF q(2)] by simp
  obtain s3 where s3: "getNonSpaceChar s2 = (CHR '','', s3)" "at_rest s2 (ws @ r) s3"
    using read_bracket [OF t2 blank_spaces(2)] by auto
  have "\<exists>m s'. getPLArray (Suc m) cs False (acc @ [q]) s2 = Some (NULL, s') \<and> pl_log s' \<noteq> []"
    using ws [unfolded elems_fail_def, rule_format, OF at_rest_text [OF s3(2)], of "acc @ [q]"]
  proof (elim disjE exE conjE)
    fix m s'
    assume "getPropList m cs s3 = Some (NULL, s')"
    then have "getPLArray (Suc m) cs False (acc @ [q]) s2 = Some (NULL, COMPLAIN ''could not get PropList array element'' s')"
      using s3(1) by (simp add: getPLArray.simps)
    then show ?thesis using COMPLAIN_log by blast
  next
    fix m obj s4 s'
    assume "getPropList m cs s3 = Some (Some obj, s4)" "getPLArray m cs False ((acc @ [q]) @ [obj]) s4 = Some (NULL, s')"
      "pl_log s' \<noteq> []"
    moreover from this have "getPLArray (Suc m) cs False (acc @ [q]) s2 = Some (NULL, s')"
      using s3(1) by (simp add: getPLArray.simps)
    ultimately show ?thesis by blast
  qed
  then obtain m s' where m: "getPLArray (Suc m) cs False (acc @ [q]) s2 = Some (NULL, s')" "pl_log s' \<noteq> []" by blast
  let ?n = "max n (Suc m)"
  have "getPropList ?n cs s = Some (Some q, s2)" by (rule parser_fuel(1) [OF _ q(1)]) simp
  moreover have "getPLArray ?n cs False (acc @ [q]) s2 = Some (NULL, s')" by (rule parser_fuel(2) [OF _ m(1)]) simp
  ultimately show "(\<exists>n s'. getPropList n cs s = Some (NULL, s')) \<or>
     (\<exists>n obj s2 s'. getPropList n cs s = Some (Some obj, s2) \<and>
        getPLArray n cs False (acc @ [obj]) s2 = Some (NULL, s') \<and> pl_log s' \<noteq> [])" using m(2) by blast
qed

text \<open>The first character of such a text.\<close>

lemma misspells_start:
  assumes "misspells cs w"
  shows "\<exists>c w'. w = c # w' \<and> (c \<in> {CHR ''$'', CHR ''('', CHR ''{''} \<or> ISSTRINGABLE c)"
  using assms
proof (cases rule: misspells.cases)
  case bad_string
  then show ?thesis using noquote_stringable by (cases w) (auto simp: needs_quote_def)
qed auto

lemma misspells_elems_start:
  assumes "misspells_elems cs w"
  shows "\<exists>b c w'. w = b @ c # w' \<and> blank b \<and> c \<noteq> NUL \<and> \<not> isspace c \<and> c \<noteq> CHR '')'' \<and> c \<noteq> CHR '',''"
  using assms
proof (cases rule: misspells_elems.cases)
  case (bad_elem b v rest)
  obtain c v' where v: "v = c # v'" "c \<in> {CHR ''$'', CHR ''('', CHR ''{''} \<or> ISSTRINGABLE c"
    using misspells_start [OF bad_elem(3)] by blast
  have "c \<noteq> NUL \<and> \<not> isspace c \<and> c \<noteq> CHR '')'' \<and> c \<noteq> CHR '',''"
    using v(2) ISSTRINGABLE_not [of c] dollar by (auto simp: isspace_def)
  then show ?thesis using bad_elem(1,2) v(1) by (intro exI [of _ b] exI [of _ c] exI [of _ "v' @ rest"]) simp
next
  case (later_elem b x v ws)
  obtain c v' where v: "v = c # v'" "c \<in> {CHR ''<'', DQUOTE, CHR ''('', CHR ''{''} \<or> ISSTRINGABLE c"
    using spells_key_start [OF later_elem(3)] by blast
  note value_start [OF v(2)]
  then show ?thesis using later_elem(1,2) v(1) by (intro exI [of _ b] exI [of _ c] exI [of _ "v' @ '','' @ ws"]) simp
qed

lemma bad_array_fails:
  assumes w: "misspells_elems cs w" "elems_fail cs w"
  shows "value_fails cs (''('' @ w @ rest)"
proof (rule value_fails_NULL)
  fix b r and s :: PLData
  assume b: "blank b" and "pl_text s = b @ (''('' @ w @ rest) @ r"
  then have t: "pl_text s = b @ CHR ''('' # w @ rest @ r" by simp
  obtain s1 where s1: "getNonSpaceChar s = (CHR ''('', s1)" "at_rest s (w @ rest @ r) s1"
    using read_bracket [OF t b] by auto
  obtain b' c w' where c: "w = b' @ c # w'" "blank b'" "c \<noteq> NUL" "\<not> isspace c" "c \<noteq> CHR '')''" "c \<noteq> CHR '',''"
    using misspells_elems_start [OF w(1)] by blast
  have t1: "pl_text s1 = b' @ c # w' @ rest @ r" using at_rest_text [OF s1(2)] c(1) by simp
  obtain s1' where s1': "getNonSpaceChar s1 = (c, s1')" by (rule getNonSpaceChar_blank [OF t1 c(2-4)])
  have arr: "getPLArray (Suc n) cs True [] s1 =
      (case getPropList n cs s1 of None \<Rightarrow> None
       | Some (None, s2) \<Rightarrow> Some (NULL, COMPLAIN ''could not get PropList array element'' s2)
       | Some (Some obj, s2) \<Rightarrow> getPLArray n cs False ([] @ [obj]) s2)" for n
    using s1' c(3,5,6) getPropList_unget [OF s1' c(3,4)] by (simp add: getPLArray.simps(2))
  have "\<exists>n s'. getPLArray (Suc n) cs True [] s1 = Some (NULL, s') \<and> pl_log s' \<noteq> []"
    using w(2) [unfolded elems_fail_def, rule_format, OF at_rest_text [OF s1(2)], of "[]"]
  proof (elim disjE exE conjE)
    fix n s'
    assume "getPropList n cs s1 = Some (NULL, s')"
    then have "getPLArray (Suc n) cs True [] s1 = Some (NULL, COMPLAIN ''could not get PropList array element'' s')"
      by (simp add: arr)
    then show ?thesis using COMPLAIN_log by blast
  next
    fix n obj s2 s'
    assume "getPropList n cs s1 = Some (Some obj, s2)" "getPLArray n cs False ([] @ [obj]) s2 = Some (NULL, s')" "pl_log s' \<noteq> []"
    moreover from this have "getPLArray (Suc n) cs True [] s1 = Some (NULL, s')" by (simp add: arr)
    ultimately show ?thesis by blast
  qed
  then obtain n s' where n: "getPLArray (Suc n) cs True [] s1 = Some (NULL, s')" "pl_log s' \<noteq> []" by blast
  have "getPropList (Suc (Suc n)) cs s = Some (NULL, s')"
    unfolding getPropList.simps(2) using s1(1) n(1) by simp
  then show "\<exists>n s'. getPropList n cs s = Some (NULL, s') \<and> pl_log s' \<noteq> []" using n(2) by blast
qed

text \<open>A dictionary: the equation for an entry whose first character \<open>c\<close> starts a key.\<close>

lemma bad_key_fails:
  assumes b: "blank b" and a: "\<not> needs_quote a" "CHR ''$'' \<in> set a"
  shows "items_fail cs (b @ a @ rest)"
  unfolding items_fail_def
proof (intro allI impI)
  fix r acc and s :: PLData
  assume "pl_text s = (b @ a @ rest) @ r"
  then have "pl_text s = b @ a @ (rest @ r)" by simp
  from bad_string_read [OF a b this] obtain c s1 where c: "getNonSpaceChar s = (c, s1)" "c \<noteq> NUL"
    "c = CHR ''$'' \<or> ISSTRINGABLE c \<and> (\<exists>q s2 v. getPLString (unget c s1) = (Some q, s2) \<and> pl_text s2 = CHR ''$'' # v)"
    by blast
  from c(3) show "\<exists>n s'. getPLDictionary n cs acc s = Some (NULL, s') \<and> pl_log s' \<noteq> []"
  proof
    assume "c = CHR ''$''"
    then have "\<exists>s'. getPLDictionary (Suc 0) cs acc s = Some (NULL, s') \<and> pl_log s' \<noteq> []"
      using c(1) dollar by (simp add: getPLDictionary.simps)
    then show ?thesis by blast
  next
    assume "ISSTRINGABLE c \<and> (\<exists>q s2 v. getPLString (unget c s1) = (Some q, s2) \<and> pl_text s2 = CHR ''$'' # v)"
    then obtain q s2 v where q: "ISSTRINGABLE c" "getPLString (unget c s1) = (Some q, s2)" "pl_text s2 = CHR ''$'' # v" by blast
    obtain s3 where "getNonSpaceChar s2 = (CHR ''$'', s3)" using at_dollar [OF q(3)] .
    then have "\<exists>s'. getPLDictionary (Suc 0) cs acc s = Some (NULL, s') \<and> pl_log s' \<noteq> []"
      using c(1) q(1,2) ISSTRINGABLE_not [OF q(1)] by (simp add: getPLDictionary.simps getPLKey_def)
    then show ?thesis by blast
  qed
qed

text \<open>The value of an entry and what follows it, from the state after the equals sign.\<close>

definition entry_rest ::
  "nat \<Rightarrow> bool \<Rightarrow> (W_PropList, W_PropList) W_HashTable \<Rightarrow> W_PropList \<Rightarrow> PLData \<Rightarrow> (W_PropList ptr \<times> PLData) option" where
  "entry_rest n cs acc k s3 =
       (case getPropList n cs s3 of
          None \<Rightarrow> None
        | Some (None, s4) \<Rightarrow> Some (NULL, COMPLAIN ''error parsing PropList dictionary entry value'' s4)
        | Some (Some value, s4) \<Rightarrow>
            (let (c, s5) = getNonSpaceChar s4 in
             if c \<noteq> CHR '';'' then Some (NULL, COMPLAIN ''missing ; in PropList dictionary entry'' s5)
             else getPLDictionary n cs (put_key cs acc k value) s5))"

lemma entry_start:
  assumes "blank b" "is_key k" "spells k wk" "pl_text s = b @ wk @ '' = '' @ r"
  shows "\<exists>s3. at_rest s ('' '' @ r) s3 \<and> (\<forall>n acc. getPLDictionary (Suc n) cs acc s = entry_rest n cs acc k s3)"
proof -
  have t: "pl_text s = b @ wk @ ('' '' @ CHR ''='' # '' '' @ r)" using assms(4) by simp
  have st: "stops ('' '' @ CHR ''='' # '' '' @ r)" by (simp add: stops_def not_stringable)
  obtain c s1 s2 where c: "getNonSpaceChar s = (c, s1)" "c = CHR ''<'' \<or> c = DQUOTE \<or> ISSTRINGABLE c"
    "getPLKey c s1 = (Some k, s2)" "at_rest s ('' '' @ CHR ''='' # '' '' @ r) s2"
    using getPLKey_read [OF assms(2,3) st t assms(1)] by blast
  have cs: "c \<noteq> NUL" "c \<noteq> CHR ''}''" using value_start(1) [of c] c(2) by auto
  obtain s3 where s3: "getNonSpaceChar s2 = (CHR ''='', s3)" "at_rest s2 ('' '' @ r) s3"
    using read_bracket [OF at_rest_text [OF c(4)] blank_spaces(4)] by auto
  have "getPLDictionary (Suc n) cs acc s = entry_rest n cs acc k s3" for n acc
    using c(1-3) cs s3(1) by (simp add: getPLDictionary.simps(2) entry_rest_def)
  then show ?thesis using at_rest_trans [OF c(4) s3(2)] by blast
qed

lemma bad_value_fails:
  assumes b: "blank b" and k: "is_key k" "spells k wk" and w: "value_fails cs w"
  shows "items_fail cs (b @ wk @ '' = '' @ w @ rest)"
  unfolding items_fail_def
proof (intro allI impI)
  fix r acc and s :: PLData
  assume "pl_text s = (b @ wk @ '' = '' @ w @ rest) @ r"
  then have t: "pl_text s = b @ wk @ '' = '' @ (w @ rest @ r)" by simp
  obtain s3 where s3: "at_rest s ('' '' @ w @ rest @ r) s3"
    "\<forall>n acc. getPLDictionary (Suc n) cs acc s = entry_rest n cs acc k s3"
    using entry_start [OF b k t] by blast
  note e = s3(2) [unfolded entry_rest_def]
  show "\<exists>n s'. getPLDictionary n cs acc s = Some (NULL, s') \<and> pl_log s' \<noteq> []"
    using value_failsE [OF w blank_spaces(4) at_rest_text [OF s3(1)]]
  proof cases
    case (1 n s')
    then have "\<exists>s'. getPLDictionary (Suc n) cs acc s = Some (NULL, s') \<and> pl_log s' \<noteq> []" by (simp add: e)
    then show ?thesis by blast
  next
    case (2 n q s' u)
    obtain s5 where "getNonSpaceChar s' = (CHR ''$'', s5)" using at_dollar [OF 2(2)] .
    then have "\<exists>s'. getPLDictionary (Suc n) cs acc s = Some (NULL, s') \<and> pl_log s' \<noteq> []" using 2(1) by (simp add: e)
    then show ?thesis by blast
  qed
qed

lemma later_item_fails:
  assumes b: "blank b" and k: "is_key k" "spells k wk" and v: "spells v wv" "valid_plist cs v" and ws: "items_fail cs ws"
  shows "items_fail cs (b @ wk @ '' = '' @ wv @ '';'' @ ws)"
  unfolding items_fail_def
proof (intro allI impI)
  fix r acc and s :: PLData
  assume "pl_text s = (b @ wk @ '' = '' @ wv @ '';'' @ ws) @ r"
  then have t: "pl_text s = b @ wk @ '' = '' @ (wv @ CHR '';'' # ws @ r)" by simp
  obtain s3 where s3: "at_rest s ('' '' @ wv @ CHR '';'' # ws @ r) s3"
    "\<forall>n acc. getPLDictionary (Suc n) cs acc s = entry_rest n cs acc k s3"
    using entry_start [OF b k t] by blast
  note e = s3(2) [unfolded entry_rest_def]
  have st: "stops (CHR '';'' # ws @ r)" by (simp add: stops_def not_stringable)
  obtain n q s4 where q: "getPropList n cs s3 = Some (Some q, s4)" "at_rest s3 (CHR '';'' # ws @ r) s4"
    using spells_reads(1) [OF v] blank_spaces(4) st at_rest_text [OF s3(1)] unfolding value_reads_def by blast
  have t4: "pl_text s4 = [] @ CHR '';'' # ws @ r" using at_rest_text [OF q(2)] by simp
  obtain s5 where s5: "getNonSpaceChar s4 = (CHR '';'', s5)" "at_rest s4 (ws @ r) s5"
    using read_bracket [OF t4 blank_spaces(2)] by auto
  obtain m s' where m: "getPLDictionary m cs (put_key cs acc k q) s5 = Some (NULL, s')" "pl_log s' \<noteq> []"
    using ws at_rest_text [OF s5(2)] unfolding items_fail_def by blast
  let ?n = "max n m"
  have q': "getPropList ?n cs s3 = Some (Some q, s4)" by (rule parser_fuel(1) [OF _ q(1)]) simp
  have m': "getPLDictionary ?n cs (put_key cs acc k q) s5 = Some (NULL, s')" by (rule parser_fuel(3) [OF _ m(1)]) simp
  have "getPLDictionary (Suc ?n) cs acc s = Some (NULL, s')" using q' s5(1) m' by (simp add: e)
  then show "\<exists>n s'. getPLDictionary n cs acc s = Some (NULL, s') \<and> pl_log s' \<noteq> []" using m(2) by blast
qed

lemma bad_dictionary_fails:
  assumes "items_fail cs w" shows "value_fails cs (''{'' @ w @ rest)"
proof (rule value_fails_NULL)
  fix b r and s :: PLData
  assume b: "blank b" and "pl_text s = b @ (''{'' @ w @ rest) @ r"
  then have t: "pl_text s = b @ CHR ''{'' # w @ rest @ r" by simp
  obtain s1 where s1: "getNonSpaceChar s = (CHR ''{'', s1)" "at_rest s (w @ rest @ r) s1"
    using read_bracket [OF t b] by auto
  obtain n s' where n: "getPLDictionary n cs WMCreateHashTable s1 = Some (NULL, s')" "pl_log s' \<noteq> []"
    using assms at_rest_text [OF s1(2)] unfolding items_fail_def by blast
  have "getPropList (Suc n) cs s = Some (NULL, s')"
    unfolding getPropList.simps(2) using s1(1) n(1) by simp
  then show "\<exists>n s'. getPropList n cs s = Some (NULL, s') \<and> pl_log s' \<noteq> []" using n(2) by blast
qed

theorem misspells_fails:
  shows "misspells cs w \<Longrightarrow> value_fails cs w"
    and "misspells_elems cs w' \<Longrightarrow> elems_fail cs w'"
    and "misspells_items cs w'' \<Longrightarrow> items_fail cs w''"
proof (induction rule: misspells_misspells_elems_misspells_items.inducts)
  case (bad_string a)
  then show ?case by (rule bad_string_fails)
next
  case (bad_array w rest)
  then show ?case by (rule bad_array_fails)
next
  case (bad_dictionary w rest)
  then show ?case by (blast intro: bad_dictionary_fails)
next
  case (bad_elem b w rest)
  then show ?case by (blast intro: bad_elem_fails)
next
  case (later_elem b x w ws)
  then show ?case by (blast intro: later_elem_fails)
next
  case (bad_key b a rest)
  then show ?case by (blast intro: bad_key_fails)
next
  case (bad_value b k wk w rest)
  then show ?case by (blast intro: bad_value_fails)
next
  case (later_item b k wk v wv ws)
  then show ?case by (blast intro: later_item_fails)
qed

lemma description_fails:
  assumes "misspells cs w"
  shows "\<exists>s. WMCreatePropListFromDescription cs (w @ e) = Some (NULL, s) \<and> pl_log s \<noteq> []"
proof -
  let ?s = "pl_start (w @ e)" and ?n = "2 * length (w @ e) + 1"
  have t: "pl_text ?s = [] @ w @ e" by (simp add: pl_start_def)
  have "ends ?s (getPropList ?n cs ?s)" using parser_ends [of ?n cs] by (simp add: pl_start_def)
  then obtain r where r: "getPropList ?n cs ?s = Some r" by (auto simp: ends_def)
  have eq: "r = x" if "getPropList n cs ?s = Some x" for n x
  proof -
    have "getPropList (max n ?n) cs ?s = Some r" "getPropList (max n ?n) cs ?s = Some x"
      by (rule parser_fuel(1) [OF _ r], simp) (rule parser_fuel(1) [OF _ that], simp)
    then show ?thesis by simp
  qed
  show ?thesis
    using value_failsE [OF misspells_fails(1) [OF assms] blank_spaces(2) t]
  proof cases
    case (1 n s')
    obtain c s2 where c: "getNonSpaceChar s' = (c, s2)" by fastforce
    then have "pl_log s2 = pl_log s'" by (auto simp: getNonSpaceChar_def split: prod.splits)
    then show ?thesis using r eq [OF 1(1)] 1(2) c by (simp add: WMCreatePropListFromDescription_def)
  next
    case (2 n q s' u)
    obtain s2 where "getNonSpaceChar s' = (CHR ''$'', s2)" using at_dollar [OF 2(2)] .
    then show ?thesis using r eq [OF 2(1)] by (simp add: WMCreatePropListFromDescription_def)
  qed
qed

section \<open>What the printers write of a value that is not readable\<close>

lemma unreadable_string:
  assumes "CHR 0x00 \<notin> set a" "\<not> readable_string a"
  shows "\<not> needs_quote a" "CHR ''$'' \<in> set a" "stringDescription a = a"
proof -
  show a: "\<not> needs_quote a" "CHR ''$'' \<in> set a" using assms by (auto simp: readable_string_def)
  show "stringDescription a = a" by (rule stringDescription_hd) (use a in auto)
qed

lemma misspells_separate:
  assumes "xs \<noteq> []" "blank b" "blank ind" "\<exists>x \<in> set xs. \<not> readable x"
    and f: "\<forall>x \<in> set xs. valid_plist cs x \<and> (if readable x then spells x (f x) else misspells cs (f x))"
  shows "misspells_elems cs (ind @ separate (CHR '','' # b @ ind) (map f xs) @ e)"
proof -
  have "misspells_elems cs (i @ separate (CHR '','' # b @ ind) (map f xs) @ e)" if "blank i" for i
    using assms(4) f that
  proof (induction xs arbitrary: i rule: induct_list012)
    case (2 x)
    then show ?case using misspells_misspells_elems_misspells_items.bad_elem [of i cs "f x" e] by simp
  next
    case (3 x y ys)
    let ?ws = "(b @ ind) @ separate (CHR '','' # b @ ind) (map f (y # ys)) @ e"
    show ?case
    proof (cases "readable x")
      case True
      have "misspells_elems cs ?ws" by (rule 3(2)) (use 3 True assms(2,3) in \<open>auto simp: blank_append\<close>)
      then have "misspells_elems cs (i @ f x @ '','' @ ?ws)" by (intro later_elem) (use 3 True in auto)
      then show ?thesis by simp
    next
      case False
      then show ?thesis
        using misspells_misspells_elems_misspells_items.bad_elem [of i cs "f x" "'','' @ ?ws"] 3(3-5) by simp
    qed
  qed simp
  then show ?thesis using assms(3) by blast
qed

text \<open>The entries of a dictionary, with the texts of its keys and values and any white space before and after.\<close>

lemma misspells_entries:
  assumes "blank b" "blank ind" "blank nl" "\<exists>x \<in> set xs. \<not> readable (itemKey x) \<or> \<not> readable (v x)"
    and f: "\<forall>x \<in> set xs. is_key (itemKey x) \<and> valid_plist cs (itemKey x) \<and> valid_plist cs (v x) \<and>
       (if readable (itemKey x) then spells (itemKey x) (key (itemKey x)) else True) \<and>
       (if readable (v x) then spells (v x) (f (v x)) else misspells cs (f (v x)))"
    and sd: "\<And>a. key (PLString a) = stringDescription a"
  shows "misspells_items cs (b @ concat (map (\<lambda>x. ind @ key (itemKey x) @ '' = '' @ f (v x) @ '';'' @ nl) xs) @ e)"
  using assms(4) f assms(1)
proof (induction xs arbitrary: b)
  case (Cons x xs)
  let ?g = "\<lambda>x. ind @ key (itemKey x) @ '' = '' @ f (v x) @ '';'' @ nl"
  have i: "blank (b @ ind)" using Cons.prems(3) assms(2) by (simp add: blank_append)
  have x: "is_key (itemKey x)" "valid_plist cs (itemKey x)" "valid_plist cs (v x)" using Cons.prems(2) by simp_all
  consider "\<not> readable (itemKey x)" | "readable (itemKey x)" "\<not> readable (v x)" | "readable (itemKey x)" "readable (v x)" by blast
  then show ?case
  proof cases
    case 1
    then obtain a where a: "itemKey x = PLString a" using x(1) by (cases "itemKey x") auto
    then have "CHR 0x00 \<notin> set a" "\<not> readable_string a" using x(2) 1 by simp_all
    note S = unreadable_string [OF this]
    have "misspells_items cs ((b @ ind) @ a @ '' = '' @ f (v x) @ '';'' @ nl @ concat (map ?g xs) @ e)"
      by (rule bad_key [OF i S(1,2)])
    then show ?thesis using a sd S(3) by simp
  next
    case 2
    have "misspells_items cs ((b @ ind) @ key (itemKey x) @ '' = '' @ f (v x) @ '';'' @ nl @ concat (map ?g xs) @ e)"
      by (rule bad_value [OF i x(1)]) (use 2 Cons.prems(2) in auto)
    then show ?thesis by simp
  next
    case 3
    have "misspells_items cs (nl @ concat (map ?g xs) @ e)"
      by (rule Cons.IH) (use 3 Cons.prems assms(3) in auto)
    then have "misspells_items cs ((b @ ind) @ key (itemKey x) @ '' = '' @ f (v x) @ '';'' @ nl @ concat (map ?g xs) @ e)"
      by (intro later_item [OF i x(1) _ _ x(3)]) (use 3 Cons.prems(2) in auto)
    then show ?thesis by simp
  qed
qed simp

text \<open>What the items of a valid dictionary are.\<close>

lemma valid_item:
  assumes "valid_plist cs (PLDictionary t)" "x \<in> set (items_of t)"
  shows "is_key (itemKey x)" "valid_plist cs (itemKey x)" "\<exists>v. itemData x = Some v \<and> valid_plist cs v"
proof -
  have "dict_wf cs t" using assms(1) by simp
  then show "is_key (itemKey x)" using plist_keys.items_valid [of cs t x] assms(2) by (simp add: ht_wf_def)
  show "valid_plist cs (itemKey x)" "\<exists>v. itemData x = Some v \<and> valid_plist cs v"
    using assms by (fastforce simp: items_of_def split: option.splits)+
qed

lemma unreadable_item:
  assumes "valid_plist cs (PLDictionary t)" "\<not> readable (PLDictionary t)"
  shows "\<exists>x \<in> set (items_of t). \<not> readable (itemKey x) \<or> \<not> readable (the (itemData x))"
proof -
  obtain x where x: "x \<in> set (items_of t)"
    "\<not> (readable (itemKey x) \<and> (case itemData x of None \<Rightarrow> True | Some v \<Rightarrow> readable v))"
    using assms(2) by (auto simp: items_of_def)
  then show ?thesis using valid_item(3) [OF assms(1) x(1)] by (intro bexI [OF _ x(1)]) auto
qed

lemma misspells_description:
  "valid_plist cs p \<Longrightarrow> \<not> readable p \<Longrightarrow> misspells cs (description p)"
proof (induction p rule: plist_induct)
  case (PLString a)
  then have "CHR 0x00 \<notin> set a" "\<not> readable_string a" by simp_all
  from unreadable_string [OF this] show ?case using bad_string [of a cs] by simp
next
  case (PLArray xs)
  then have ne: "xs \<noteq> []" "\<exists>x \<in> set xs. \<not> readable x" by auto
  have "misspells_elems cs ([] @ separate (CHR '','' # '' '' @ []) (map description xs) @ [])"
    by (rule misspells_separate [OF ne(1) blank_spaces(4,2) ne(2)])
      (use PLArray.prems(1) PLArray.IH spells_description [of cs] in simp)
  from bad_array [OF this, of "'')''"] show ?case by simp
next
  case (PLDictionary t)
  note P = PLDictionary.prems
  let ?w = "[] @ concat (map (\<lambda>x. [] @ description (itemKey x) @ '' = '' @ description (the (itemData x)) @ '';'' @ []) (items_of t)) @ []"
  have M: "misspells_items cs ?w"
    by (rule misspells_entries [OF blank_spaces(2) blank_spaces(2) blank_spaces(2) unreadable_item [OF P]])
      (use valid_item [OF P(1)] PLDictionary.IH spells_description [of cs] in fastforce)+
  have "(case itemData x of None \<Rightarrow> [] | Some v \<Rightarrow> description v) = description (the (itemData x))" if "x \<in> set (items_of t)" for x
    using valid_item(3) [OF P(1) that] by auto
  then have "map (\<lambda>x. description (itemKey x) @ '' = '' @ (case itemData x of None \<Rightarrow> [] | Some v \<Rightarrow> description v) @ '';'') (items_of t) =
      map (\<lambda>x. [] @ description (itemKey x) @ '' = '' @ description (the (itemData x)) @ '';'' @ []) (items_of t)"
    by (intro map_cong refl) simp
  then have "description (PLDictionary t) = ''{'' @ ?w @ ''}''" by (simp add: items_of_def del: map_eq_conv)
  then show ?case using bad_dictionary [OF M, of "''}''"] by (simp only:)
qed simp

lemma misspells_indentedDescription:
  "valid_plist cs p \<Longrightarrow> \<not> readable p \<Longrightarrow> misspells cs (indentedDescription p level)"
proof (induction p arbitrary: level rule: plist_induct)
  case (PLString a)
  then have "CHR 0x00 \<notin> set a" "\<not> readable_string a" by simp_all
  from unreadable_string [OF this] show ?case using bad_string [of a cs] by simp
next
  case (PLArray xs)
  show ?case
  proof (cases "2 * (level + 1) + length (description (PLArray xs)) \<le> 77")
    case True
    then show ?thesis using misspells_description [OF PLArray.prems] by simp
  next
    case False
    let ?ind = "spaces (2 * (level + 1))" and ?f = "\<lambda>x. indentedDescription x (level + 1)"
    have ne: "xs \<noteq> []" "\<exists>x \<in> set xs. \<not> readable x" using PLArray.prems(2) by auto
    have b: "blank ([CHR 0x0A] @ ?ind)" using blank_spaces by (simp add: blank_append blank_Cons)
    have M: "misspells_elems cs (([CHR 0x0A] @ ?ind) @ separate (CHR '','' # [] @ [CHR 0x0A] @ ?ind) (map ?f xs) @ [CHR 0x0A] @ spaces (2 * level))"
      by (rule misspells_separate [OF ne(1) blank_spaces(2) b ne(2)])
        (use PLArray.prems(1) PLArray.IH spells_indentedDescription [of cs] in simp)
    have "separate [CHR '','', CHR 0x0A] (map (\<lambda>x. ?ind @ ?f x) xs) = ?ind @ separate (CHR '','' # [CHR 0x0A] @ ?ind) (map ?f xs)"
      using separate_indent [OF ne(1), of "[CHR '','', CHR 0x0A]"] by simp
    then show ?thesis using bad_array [OF M, of "'')''"] False by simp
  qed
next
  case (PLDictionary t)
  note P = PLDictionary.prems
  let ?f = "\<lambda>p. indentedDescription p (level + 1)" and ?ind = "spaces (2 * (level + 1))"
  let ?w = "[CHR 0x0A] @ concat (map (\<lambda>x. ?ind @ ?f (itemKey x) @ '' = '' @ ?f (the (itemData x)) @ '';'' @ [CHR 0x0A]) (items_of t)) @
      spaces (2 * level)"
  have M: "misspells_items cs ?w"
    by (rule misspells_entries [OF blank_spaces(3) blank_spaces(1) blank_spaces(3) unreadable_item [OF P]])
      (use valid_item [OF P(1)] PLDictionary.IH spells_indentedDescription [of cs] in fastforce)+
  have "(case itemData x of None \<Rightarrow> [] | Some v \<Rightarrow> ?f v) = ?f (the (itemData x))" if "x \<in> set (items_of t)" for x
    using valid_item(3) [OF P(1) that] by auto
  then have "map (\<lambda>x. ?ind @ ?f (itemKey x) @ '' = '' @ (case itemData x of None \<Rightarrow> [] | Some v \<Rightarrow> ?f v) @ [CHR '';'', CHR 0x0A]) (items_of t) =
      map (\<lambda>x. ?ind @ ?f (itemKey x) @ '' = '' @ ?f (the (itemData x)) @ '';'' @ [CHR 0x0A]) (items_of t)"
    by (intro map_cong refl) simp
  then show ?case
    using bad_dictionary [OF M, of "''}''"] by (simp add: items_of_def del: map_eq_conv)
qed simp

lemma unreadable_fails:
  assumes "valid_plist cs p" "\<not> readable p"
  shows "\<exists>s. WMCreatePropListFromDescription cs (WMGetPropListDescription p indented @ e) = Some (NULL, s) \<and> pl_log s \<noteq> []"
  using description_fails misspells_description [OF assms] misspells_indentedDescription [OF assms]
  by (simp add: WMGetPropListDescription_def)

lemma unreadable_file:
  assumes "valid_plist cs p" "\<not> readable p"
  shows "\<exists>s. WMReadPropListFromFile cs (Some (written_text p)) = Some (NULL, Some s) \<and> pl_log s \<noteq> []"
  using description_fails [OF misspells_indentedDescription [OF assms], of 0 "[NL]"]
  by (auto simp: WMReadPropListFromFile_def written_text_def)

section \<open>The round trip\<close>

text \<open>
  C10: The round trip of property lists, for every well-formed value (strings, data, arrays and
  dictionaries nested in any way) and either of its two descriptions. When no string that is printed without quotes
  has a dollar sign (\<open>readable\<close>), parsing the description succeeds without a complaint and gives a value that
  \<open>WMIsPropListEqualTo\<close> reports equal to it; when one has, wherever it is in the value, parsing gives NULL and a complaint.
\<close>

theorem description_round_trip:
  assumes "valid_plist cs p"
  shows "if readable p
    then \<exists>q s. WMCreatePropListFromDescription cs (WMGetPropListDescription p indented) = Some (Some q, s) \<and>
      WMIsPropListEqualTo cs p q \<and> pl_log s = []
    else \<exists>s. WMCreatePropListFromDescription cs (WMGetPropListDescription p indented) = Some (NULL, s) \<and> pl_log s \<noteq> []"
  using description_reads_back [OF assms] unreadable_fails [OF assms, of indented "[]"] by simp

theorem description_round_trip_witness:
  "(\<exists>q s. WMCreatePropListFromDescription True (WMGetPropListDescription example_plist True) =
     Some (Some q, s) \<and> WMIsPropListEqualTo True example_plist q \<and> pl_log s = []) \<and>
   (\<exists>s. WMCreatePropListFromDescription True (WMGetPropListDescription (PLArray [PLData [1], PLString ''$HOME'']) False) =
     Some (NULL, s) \<and> pl_log s \<noteq> [])"
proof -
  have "valid_plist True (PLArray [PLData [1], PLString ''$HOME''])" "\<not> readable (PLArray [PLData [1], PLString ''$HOME''])"
    by (simp_all add: readable_string_def needs_quote_def noquote_def inrange_def)
  then show ?thesis
    using description_round_trip [OF example_valid(1), of True] description_round_trip [of True "PLArray [PLData [1], PLString ''$HOME'']" False]
      example_valid(2) by (simp del: readable.simps)
qed

text \<open>What \<open>WMReadPropListFromFile\<close> makes of the text that \<open>WMWritePropListToFile\<close> writes.\<close>

lemma written_file_read:
  assumes "valid_plist cs p"
  shows "if readable p
    then \<exists>q s. WMReadPropListFromFile cs (Some (written_text p)) = Some (Some q, Some s) \<and> WMIsPropListEqualTo cs p q \<and> pl_log s = []
    else \<exists>s. WMReadPropListFromFile cs (Some (written_text p)) = Some (NULL, Some s) \<and> pl_log s \<noteq> []"
  using file_reads_back [OF assms] unreadable_file [OF assms] by simp

end
