(* ===== verification/WMPlistOperations.thy ===== *)
theory WMPlistOperations
  imports WMPlistParser
begin

text \<open>
  The rest of the interface of \<open>proplist.c\<close> on values: creating, the tests and accessors, the
  operations on arrays, merging and subtracting dictionaries, and the copies. As in \<open>WMPlist\<close>, an
  operation returns the new value of the list it changes, and values are trees without reference
  counts.
\<close>

section \<open>Creating\<close>

text \<open>The variable arguments are lists that end at the first NULL.\<close>

definition WMCreatePLArray :: "W_PropList ptr list \<Rightarrow> W_PropList" where
  "WMCreatePLArray args = PLArray (map the (takeWhile (\<lambda>a. a \<noteq> NULL) args))"

fun put_args ::
  "bool \<Rightarrow> W_PropList ptr list \<Rightarrow> (W_PropList, W_PropList) W_HashTable \<Rightarrow> (W_PropList, W_PropList) W_HashTable"
where
  "put_args cs (Some k # Some v # args) t = put_args cs args (put_key cs t k v)"
| "put_args cs _ t = t"

definition WMCreatePLDictionaryWith :: "bool \<Rightarrow> W_PropList ptr list \<Rightarrow> W_PropList" where
  "WMCreatePLDictionaryWith cs args = PLDictionary (put_args cs args WMCreateHashTable)"

definition WMCreatePLData :: "8 word list ptr \<Rightarrow> W_PropList ptr" where
  "WMCreatePLData data = map_option PLData data"

definition WMCreatePLDataWithBytes :: "8 word list ptr \<Rightarrow> nat \<Rightarrow> W_PropList ptr" where
  "WMCreatePLDataWithBytes bytes n = map_option (\<lambda>bs. PLData (take n bs)) bytes"

section \<open>Types\<close>

definition WMIsPLString :: "W_PropList \<Rightarrow> bool" where
  "WMIsPLString plist = (case plist of PLString _ \<Rightarrow> True | _ \<Rightarrow> False)"

definition WMIsPLData :: "W_PropList \<Rightarrow> bool" where
  "WMIsPLData plist = (case plist of PLData _ \<Rightarrow> True | _ \<Rightarrow> False)"

definition WMIsPLArray :: "W_PropList \<Rightarrow> bool" where
  "WMIsPLArray plist = (case plist of PLArray _ \<Rightarrow> True | _ \<Rightarrow> False)"

definition WMIsPLDictionary :: "W_PropList \<Rightarrow> bool" where
  "WMIsPLDictionary plist = (case plist of PLDictionary _ \<Rightarrow> True | _ \<Rightarrow> False)"

text \<open>An accessor of the wrong type gives NULL (0 for a length).\<close>

definition WMGetFromPLString :: "W_PropList \<Rightarrow> string ptr" where
  "WMGetFromPLString plist = (case plist of PLString s \<Rightarrow> Some s | _ \<Rightarrow> NULL)"

definition WMGetFromPLData :: "W_PropList \<Rightarrow> 8 word list ptr" where
  "WMGetFromPLData plist = (case plist of PLData bs \<Rightarrow> Some bs | _ \<Rightarrow> NULL)"

definition WMGetPLDataBytes :: "W_PropList \<Rightarrow> 8 word list ptr" where
  "WMGetPLDataBytes plist = (case plist of PLData bs \<Rightarrow> (if bs = [] then NULL else Some bs) | _ \<Rightarrow> NULL)"

definition WMGetPLDataLength :: "W_PropList \<Rightarrow> nat" where
  "WMGetPLDataLength plist = (case plist of PLData bs \<Rightarrow> length bs | _ \<Rightarrow> 0)"

definition WMGetFromPLArray :: "W_PropList \<Rightarrow> int \<Rightarrow> W_PropList ptr" where
  "WMGetFromPLArray plist index =
     (case plist of
        PLArray xs \<Rightarrow> if index < 0 \<or> index \<ge> int (length xs) then NULL else Some (xs ! nat index)
      | _ \<Rightarrow> NULL)"

section \<open>Arrays\<close>

definition WMInsertInPLArray :: "W_PropList \<Rightarrow> int \<Rightarrow> W_PropList \<Rightarrow> W_PropList" where
  "WMInsertInPLArray plist index item =
     (case plist of
        PLArray xs \<Rightarrow>
          if 0 \<le> index \<and> index \<le> int (length xs)
          then PLArray (take (nat index) xs @ item # drop (nat index) xs) else plist
      | _ \<Rightarrow> plist)"

definition WMAddToPLArray :: "W_PropList \<Rightarrow> W_PropList \<Rightarrow> W_PropList" where
  "WMAddToPLArray plist item = (case plist of PLArray xs \<Rightarrow> PLArray (xs @ [item]) | _ \<Rightarrow> plist)"

definition delete_nth :: "int \<Rightarrow> 'x list \<Rightarrow> 'x list" where
  "delete_nth index xs =
     (if 0 \<le> index \<and> index < int (length xs) then take (nat index) xs @ drop (Suc (nat index)) xs else xs)"

definition WMDeleteFromPLArray :: "W_PropList \<Rightarrow> int \<Rightarrow> W_PropList" where
  "WMDeleteFromPLArray plist index =
     (case plist of
        PLArray xs \<Rightarrow>
          (case WMGetFromPLArray plist index of None \<Rightarrow> plist | Some _ \<Rightarrow> PLArray (delete_nth index xs))
      | _ \<Rightarrow> plist)"

text \<open>The loop over the indices, from \<open>i\<close> on.\<close>

function remove_loop :: "bool \<Rightarrow> W_PropList \<Rightarrow> nat \<Rightarrow> W_PropList list \<Rightarrow> W_PropList list" where
  "remove_loop cs item i xs =
     (if i < length xs
      then (if WMIsPropListEqualTo cs item (xs ! i) then delete_nth (int i) xs
            else remove_loop cs item (Suc i) xs)
      else xs)"
  by pat_completeness auto
termination by (relation "measure (\<lambda>(cs, item, i, xs). length xs - i)") auto

declare remove_loop.simps [simp del]

definition WMRemoveFromPLArray :: "bool \<Rightarrow> W_PropList \<Rightarrow> W_PropList \<Rightarrow> W_PropList" where
  "WMRemoveFromPLArray cs plist item =
     (case plist of PLArray xs \<Rightarrow> PLArray (remove_loop cs item 0 xs) | _ \<Rightarrow> plist)"

section \<open>Merging and subtracting\<close>

text \<open>
  A recursive call changes the dictionary that is the data of an item of \<open>dest\<close>: \<open>set_data\<close> is
  what that does to the table of \<open>dest\<close>. An item without data is an access through NULL, \<open>None\<close>.
\<close>

fun chain_set ::
  "bool \<Rightarrow> W_PropList \<Rightarrow> W_PropList \<Rightarrow> (W_PropList, W_PropList) HashItem list \<Rightarrow> (W_PropList, W_PropList) HashItem list"
where
  "chain_set cs key v [] = []"
| "chain_set cs key v (x # xs) =
     (if WMIsPropListEqualTo cs key (itemKey x) then HashItem (itemKey x) (Some v) # xs
      else x # chain_set cs key v xs)"

definition set_data ::
  "bool \<Rightarrow> (W_PropList, W_PropList) W_HashTable \<Rightarrow> W_PropList \<Rightarrow> W_PropList \<Rightarrow> (W_PropList, W_PropList) W_HashTable"
where
  "set_data cs t key v =
     (let h = HASH (WMPropListHashCallbacks cs) t key
      in W_HashTable (tItemCount t) (tSize t) ((tTable t)[h := chain_set cs key v (tTable t ! h)]))"

text \<open>
  The loops over the enumerator of \<open>source\<close> are functions of the items that it still gives.
\<close>

function (sequential)
  merge_values :: "bool \<Rightarrow> bool \<Rightarrow> W_PropList \<Rightarrow> W_PropList \<Rightarrow> W_PropList option"
  and merge_loop ::
    "bool \<Rightarrow> bool \<Rightarrow> (W_PropList, W_PropList) W_HashTable \<Rightarrow> (W_PropList, W_PropList) HashItem list \<Rightarrow>
     (W_PropList, W_PropList) W_HashTable option"
where
  "merge_values cs recursive (PLDictionary d) (PLDictionary t) =
     map_option PLDictionary (merge_loop cs recursive d (concat (tTable t)))"
| "merge_values cs recursive dest source = Some dest"
| "merge_loop cs recursive d [] = Some d"
| "merge_loop cs recursive d (HashItem key item # rest) = do {
     value \<leftarrow> item;
     d \<leftarrow> (if recursive \<and> WMIsPLDictionary value
           then (case WMHashGet (WMPropListHashCallbacks cs) d key of
                   Some dvalue \<Rightarrow>
                     if WMIsPLDictionary dvalue
                     then do { dvalue \<leftarrow> merge_values cs True dvalue value; Some (set_data cs d key dvalue) }
                     else Some (put_key cs d key value)
                 | None \<Rightarrow> Some (put_key cs d key value))
           else Some (put_key cs d key value));
     merge_loop cs recursive d rest }"
  by pat_completeness auto

termination
proof (relation "measure (\<lambda>a. case a of
     Inl (cs, r, p, q) \<Rightarrow> size q
   | Inr (cs, r, d, xs) \<Rightarrow> size_list (size_HashItem size size) xs)", goal_cases)
  case (2 cs r d t)
  then show ?case using size_table_items [of t] by simp
qed auto

function (sequential)
  subtract_values :: "bool \<Rightarrow> bool \<Rightarrow> W_PropList \<Rightarrow> W_PropList \<Rightarrow> W_PropList option"
  and subtract_loop ::
    "bool \<Rightarrow> bool \<Rightarrow> (W_PropList, W_PropList) W_HashTable \<Rightarrow> (W_PropList, W_PropList) HashItem list \<Rightarrow>
     (W_PropList, W_PropList) W_HashTable option"
where
  "subtract_values cs recursive (PLDictionary d) (PLDictionary t) =
     map_option PLDictionary (subtract_loop cs recursive d (concat (tTable t)))"
| "subtract_values cs recursive dest source = Some dest"
| "subtract_loop cs recursive d [] = Some d"
| "subtract_loop cs recursive d (HashItem key item # rest) =
     (case WMHashGet (WMPropListHashCallbacks cs) d key of
        None \<Rightarrow> subtract_loop cs recursive d rest
      | Some dvalue \<Rightarrow> do {
          value \<leftarrow> item;
          d \<leftarrow> (if WMIsPropListEqualTo cs value dvalue then Some (remove_key cs d key)
                else if recursive \<and> WMIsPLDictionary value \<and> WMIsPLDictionary dvalue
                then do { dvalue \<leftarrow> subtract_values cs True dvalue value; Some (set_data cs d key dvalue) }
                else Some d);
          subtract_loop cs recursive d rest })"
  by pat_completeness auto

termination
proof (relation "measure (\<lambda>a. case a of
     Inl (cs, r, p, q) \<Rightarrow> size q
   | Inr (cs, r, d, xs) \<Rightarrow> size_list (size_HashItem size size) xs)", goal_cases)
  case (2 cs r d t)
  then show ?case using size_table_items [of t] by simp
qed auto


text \<open>
  The functions themselves: the new \<open>dest\<close> and the result. \<open>same\<close> says that the two arguments are
  one object. The values are trees: an object that is part of both is copied.
\<close>

definition WMMergePLDictionaries ::
  "bool \<Rightarrow> bool \<Rightarrow> W_PropList \<Rightarrow> W_PropList \<Rightarrow> bool \<Rightarrow> (W_PropList \<times> W_PropList ptr) option"
where
  "WMMergePLDictionaries cs same dest source recursive =
     (if \<not> (WMIsPLDictionary source \<and> WMIsPLDictionary dest) then Some (dest, NULL)
      else if same then Some (dest, Some dest)
      else do { dest \<leftarrow> merge_values cs recursive dest source; Some (dest, Some dest) })"

definition WMSubtractPLDictionaries ::
  "bool \<Rightarrow> bool \<Rightarrow> W_PropList \<Rightarrow> W_PropList \<Rightarrow> bool \<Rightarrow> (W_PropList \<times> W_PropList ptr) option"
where
  "WMSubtractPLDictionaries cs same dest source recursive =
     (if \<not> (WMIsPLDictionary source \<and> WMIsPLDictionary dest) then Some (dest, NULL)
      else if same
      then (case WMGetPLDictionaryKeys dest of
              Some (PLArray keys) \<Rightarrow>
                (let dest = fold (\<lambda>key dest. WMRemoveFromPLDictionary cs dest key) keys dest
                 in Some (dest, Some dest))
            | _ \<Rightarrow> None)
      else do { dest \<leftarrow> subtract_values cs recursive dest source; Some (dest, Some dest) })"

section \<open>Copying\<close>

fun shallow_loop ::
  "bool \<Rightarrow> (W_PropList, W_PropList) HashItem list \<Rightarrow> (W_PropList, W_PropList) W_HashTable \<Rightarrow>
   (W_PropList, W_PropList) W_HashTable option"
where
  "shallow_loop cs [] ret = Some ret"
| "shallow_loop cs (HashItem key item # rest) ret = do {
     value \<leftarrow> item;
     shallow_loop cs rest (put_key cs ret key value) }"

definition WMShallowCopyPropList :: "bool \<Rightarrow> W_PropList \<Rightarrow> W_PropList option" where
  "WMShallowCopyPropList cs plist =
     (case plist of
        PLString s \<Rightarrow> Some (WMCreatePLString s)
      | PLData bs \<Rightarrow> Some (PLData bs)
      | PLArray xs \<Rightarrow> Some (PLArray xs)
      | PLDictionary t \<Rightarrow> map_option PLDictionary (shallow_loop cs (concat (tTable t)) WMCreateHashTable))"

function (sequential)
  WMDeepCopyPropList :: "bool \<Rightarrow> W_PropList \<Rightarrow> W_PropList option"
  and deep_elements :: "bool \<Rightarrow> W_PropList list \<Rightarrow> W_PropList list option"
  and deep_loop ::
    "bool \<Rightarrow> (W_PropList, W_PropList) HashItem list \<Rightarrow> (W_PropList, W_PropList) W_HashTable \<Rightarrow>
     (W_PropList, W_PropList) W_HashTable option"
where
  "WMDeepCopyPropList cs (PLString s) = Some (WMCreatePLString s)"
| "WMDeepCopyPropList cs (PLData bs) = Some (PLData bs)"
| "WMDeepCopyPropList cs (PLArray xs) = map_option PLArray (deep_elements cs xs)"
| "WMDeepCopyPropList cs (PLDictionary t) =
     map_option PLDictionary (deep_loop cs (concat (tTable t)) WMCreateHashTable)"
| "deep_elements cs [] = Some []"
| "deep_elements cs (x # xs) = do {
     y \<leftarrow> WMDeepCopyPropList cs x;
     ys \<leftarrow> deep_elements cs xs;
     Some (y # ys) }"
| "deep_loop cs [] ret = Some ret"
| "deep_loop cs (HashItem key item # rest) ret = do {
     k \<leftarrow> WMDeepCopyPropList cs key;
     value \<leftarrow> item;
     v \<leftarrow> WMDeepCopyPropList cs value;
     deep_loop cs rest (fst (WMHashInsert (WMPropListHashCallbacks cs) ret k (Some v))) }"
  by pat_completeness auto

termination
proof (relation "measure (\<lambda>a. case a of
     Inl (cs, p) \<Rightarrow> size p
   | Inr (Inl (cs, xs)) \<Rightarrow> size_list size xs
   | Inr (Inr (cs, xs, t)) \<Rightarrow> size_list (size_HashItem size size) xs)", goal_cases)
  case (3 cs t)
  then show ?case using size_table_items [of t] by simp
qed auto

end
