(* ===== verification/WMPlistBindings.thy ===== *)
theory WMPlistBindings
  imports WMPlistUnreadable WMPlistOperations
begin

text \<open>
  Dictionaries by their bindings. \<open>lookup\<close> after every operation; what merging and subtracting make of
  the bindings; the copies; and that the equality of valid values is an equivalence.
\<close>

section \<open>Valid dictionaries by their bindings\<close>

lemma tolower_NUL: "tolower c = CHR 0x00 \<longleftrightarrow> c = CHR 0x00"
proof
  assume "tolower c = CHR 0x00"
  moreover have "char_of (n + 32) \<noteq> CHR 0x00" if "65 \<le> n" "n \<le> 90" for n :: nat
  proof
    assume "char_of (n + 32) = CHR 0x00"
    then have "of_char (char_of (n + 32)) = (0 :: nat)" by simp
    then show False using that by (simp add: of_char_mod_256)
  qed
  ultimately show "c = CHR 0x00" by (auto simp: tolower_def Let_def split: if_splits)
qed (simp add: tolower_def)

lemma valid_key_equal:
  assumes "is_key k" "WMIsPropListEqualTo cs k l" "valid_plist cs' k"
  shows "valid_plist cs' l"
  using assms(1,2)
proof (cases rule: key_equal_cases)
  case (strings a b)
  have "CHR 0x00 \<in> set b \<longleftrightarrow> CHR 0x00 \<in> set (map tolower b)" by (metis image_iff list.set_map tolower_NUL)
  also have "map tolower b = map tolower a" using strings_equal_tolower [OF strings(3)] by simp
  also have "CHR 0x00 \<in> set (map tolower a) \<longleftrightarrow> CHR 0x00 \<in> set a" by (metis image_iff list.set_map tolower_NUL)
  finally show ?thesis using assms(3) strings by simp
qed simp

lemma plist_map_iff:
  assumes "dict_wf cs t" "is_key k"
  shows "plist_map cs t k = Some d \<longleftrightarrow> (\<exists>x \<in> set (items_of t). WMIsPropListEqualTo cs k (itemKey x) \<and> itemData x = d)"
  using plist_keys.ht_map_iff [of cs t k d] assms by (simp add: ht_wf_def KEYEQ_plist)

lemma item_key: "dict_wf cs t \<Longrightarrow> x \<in> set (items_of t) \<Longrightarrow> is_key (itemKey x)"
  using plist_keys.items_valid by (auto simp: ht_wf_def)

lemma key_refl: "is_key k \<Longrightarrow> WMIsPropListEqualTo cs k k"
  using plist_keys.eq_refl by (simp add: KEYEQ_plist)

lemma key_sym: "is_key k \<Longrightarrow> WMIsPropListEqualTo cs k l \<Longrightarrow> WMIsPropListEqualTo cs l k"
  by (erule key_equal_cases, assumption) (auto simp: strings_equal_def split: if_splits)

lemma key_equal_key: "is_key k \<Longrightarrow> WMIsPropListEqualTo cs k l \<Longrightarrow> is_key l"
  by (erule key_equal_cases, assumption) simp_all

lemma plist_map_item:
  "dict_wf cs t \<Longrightarrow> x \<in> set (items_of t) \<Longrightarrow> plist_map cs t (itemKey x) = Some (itemData x)"
  using plist_map_iff [of cs t "itemKey x" "itemData x"] item_key [of cs t x] key_refl [of "itemKey x" cs] by auto

lemma plist_map_equal:
  assumes "dict_wf cs t" "is_key k" "WMIsPropListEqualTo cs k l"
  shows "plist_map cs t k = plist_map cs t l"
proof -
  note l = key_equal_key [OF assms(2,3)] key_sym [OF assms(2,3)]
  have "plist_map cs t k = Some d \<longleftrightarrow> plist_map cs t l = Some d" for d
    unfolding plist_map_iff [OF assms(1,2)] plist_map_iff [OF assms(1) l(1)]
    using key_equal_trans [OF assms(2,3)] key_equal_trans [OF l] by metis
  then show ?thesis by (metis option.exhaust)
qed

lemma valid_dictionary_iff:
  "valid_plist cs (PLDictionary t) \<longleftrightarrow> dict_wf cs t \<and>
     (\<forall>l d. is_key l \<longrightarrow> plist_map cs t l = Some d \<longrightarrow> valid_plist cs l \<and> (\<exists>v. d = Some v \<and> valid_plist cs v))"
    (is "?l \<longleftrightarrow> ?r")
proof
  assume l: ?l
  then have wf: "dict_wf cs t" by simp
  have "valid_plist cs l \<and> (\<exists>v. d = Some v \<and> valid_plist cs v)" if d: "is_key l" "plist_map cs t l = Some d" for l d
  proof -
    obtain x where x: "x \<in> set (items_of t)" "WMIsPropListEqualTo cs l (itemKey x)" "itemData x = d"
      using d plist_map_iff [OF wf d(1)] by blast
    then have "valid_plist cs (itemKey x)" "\<exists>v. d = Some v \<and> valid_plist cs v"
      using l by (fastforce simp: items_of_def split: option.splits)+
    then show ?thesis
      using valid_key_equal [OF item_key [OF wf x(1)] key_sym [OF d(1) x(2)]] by blast
  qed
  then show ?r using wf by blast
next
  assume r: ?r
  then have wf: "dict_wf cs t" by blast
  have "valid_plist cs (itemKey x) \<and> (case itemData x of None \<Rightarrow> False | Some v \<Rightarrow> valid_plist cs v)"
    if "x \<in> set (concat (tTable t))" for x
    using r that item_key [OF wf] plist_map_item [OF wf] by (fastforce simp: items_of_def)
  then show ?l using wf by simp
qed

lemma valid_put:
  assumes "valid_plist cs (PLDictionary t)" "is_key k" "valid_plist cs k" "valid_plist cs v"
  shows "valid_plist cs (PLDictionary (put_key cs t k v))"
proof -
  have wf: "dict_wf cs t" using assms(1) by simp
  show ?thesis
    using assms(1,3,4) put_key_spec(1,2) [OF wf assms(2)] key_sym valid_key_equal [OF assms(2)]
    unfolding valid_dictionary_iff by (auto split: if_splits) blast
qed

lemma valid_remove:
  assumes "valid_plist cs (PLDictionary t)" "is_key k"
  shows "valid_plist cs (PLDictionary (remove_key cs t k))"
proof -
  have wf: "dict_wf cs t" using assms(1) by simp
  show ?thesis
    using assms(1) remove_key_spec(1,2) [OF wf assms(2)]
    unfolding valid_dictionary_iff by (auto split: if_splits)
qed

text \<open>\<open>set_data\<close> changes the value of a key that is there.\<close>

lemma chain_set_split:
  "chain_find (WMPropListHashCallbacks cs) key chain = Some x \<Longrightarrow>
   \<exists>xs ys. chain = xs @ x # ys \<and> chain_set cs key v chain = xs @ HashItem (itemKey x) (Some v) # ys"
proof (induction chain)
  case (Cons y chain)
  show ?case
  proof (cases "WMIsPropListEqualTo cs key (itemKey y)")
    case True
    then have "y = x" using Cons.prems by (simp add: KEYEQ_plist)
    then show ?thesis using True by (intro exI [of _ "[]"] exI [of _ chain]) simp
  next
    case False
    then obtain xs ys where "chain = xs @ x # ys" "chain_set cs key v chain = xs @ HashItem (itemKey x) (Some v) # ys"
      using Cons by (auto simp: KEYEQ_plist)
    then show ?thesis using False by (intro exI [of _ "y # xs"] exI [of _ ys]) simp
  qed
qed simp

lemma set_data_spec:
  assumes wf: "dict_wf cs t" and k: "is_key key" "plist_map cs t key = Some d"
  shows "dict_wf cs (set_data cs t key v)"
    "is_key l \<Longrightarrow> plist_map cs (set_data cs t key v) l =
       (if WMIsPropListEqualTo cs l key then Some (Some v) else plist_map cs t l)"
proof -
  let ?cb = "WMPropListHashCallbacks cs" and ?h = "HASH (WMPropListHashCallbacks cs) t key"
  have shape: "ht_shape ?cb is_key t" using wf by (simp add: ht_wf_def)
  note D = ht_shapeD [OF shape]
  obtain x where x: "hashGetItem ?cb t key = Some x" "WMIsPropListEqualTo cs key (itemKey x)"
    using k(2) plist_keys.hashGetItem_iff [OF shape k(1)] by (auto simp: ht_map_def KEYEQ_plist)
  then have "chain_find ?cb key (tTable t ! ?h) = Some x" by (simp add: hashGetItem_def)
  then obtain xs ys where c: "tTable t ! ?h = xs @ x # ys"
    "chain_set cs key v (tTable t ! ?h) = xs @ HashItem (itemKey x) (Some v) # ys"
    using chain_set_split by blast
  note C = plist_keys.chain_split [OF shape k(1) c(1), unfolded KEYEQ_plist, OF x(2)]
  have e: "set_data cs t key v = W_HashTable (tItemCount t) (tSize t) ((tTable t)[?h := xs @ HashItem (itemKey x) (Some v) # ys])"
    by (simp add: set_data_def c(2) Let_def)
  have ok: "chain_ok ?cb (xs @ HashItem (itemKey x) (Some v) # ys)"
    using D(3) [OF D(6), of key] c(1) by (auto simp: chain_ok_def sorted_wrt_append)
  have sh: "ht_shape ?cb is_key (set_data cs t key v)"
    unfolding e by (rule ht_shape_update [OF shape D(6) ok]) (use C(1,2) D(5) [OF D(6), of x key] c(1) in auto)
  have "length (items_of (set_data cs t key v)) = length (items_of t)"
    using items_of_update [of ?h t "tItemCount t" "tSize t" "xs @ HashItem (itemKey x) (Some v) # ys"] D(2,6) c(1)
    by (simp add: e)
  then show "dict_wf cs (set_data cs t key v)" using sh wf by (simp add: ht_wf_def e)
  have "set (items_of (set_data cs t key v)) = {HashItem (itemKey x) (Some v)} \<union> {y \<in> set (items_of t). \<not> KEYEQ ?cb key (itemKey y)}"
    unfolding e by (rule plist_keys.items_rewritten [OF shape k(1) c(1)]) (use x(2) in \<open>auto simp: KEYEQ_plist\<close>)
  then show "is_key l \<Longrightarrow> plist_map cs (set_data cs t key v) l =
       (if WMIsPropListEqualTo cs l key then Some (Some v) else plist_map cs t l)"
    using plist_keys.ht_map_replaced [OF shape sh k(1) C(1)] x(2) by (simp add: KEYEQ_plist)
qed

lemma valid_set_data:
  assumes "valid_plist cs (PLDictionary t)" "is_key k" "plist_map cs t k = Some d" "valid_plist cs v"
  shows "valid_plist cs (PLDictionary (set_data cs t k v))"
proof -
  have wf: "dict_wf cs t" using assms(1) by simp
  have "valid_plist cs l" if "is_key l" "WMIsPropListEqualTo cs l k" for l
    using that assms(1-3) plist_map_equal [OF wf that] unfolding valid_dictionary_iff by auto
  then show ?thesis
    using assms(1,4) set_data_spec [OF wf assms(2,3)]
    unfolding valid_dictionary_iff by (auto split: if_splits)
qed


section \<open>What the operations do to the bindings\<close>

abbreviation lookup :: "bool \<Rightarrow> (W_PropList, W_PropList) W_HashTable \<Rightarrow> W_PropList \<Rightarrow> W_PropList ptr" where
  "lookup cs t k \<equiv> WMHashGet (WMPropListHashCallbacks cs) t k"

abbreviation valid_dict :: "bool \<Rightarrow> (W_PropList, W_PropList) W_HashTable \<Rightarrow> bool" where
  "valid_dict cs t \<equiv> valid_plist cs (PLDictionary t)"

lemma valid_dict_wf: "valid_dict cs t \<Longrightarrow> dict_wf cs t"
  by simp

lemma plist_map_lookup:
  assumes "valid_dict cs t" "is_key l"
  shows "plist_map cs t l = map_option Some (lookup cs t l)"
proof (cases "plist_map cs t l")
  case (Some d)
  then obtain v where "d = Some v" using assms unfolding valid_dictionary_iff by blast
  then show ?thesis using Some by (simp add: WMHashGet_ht_map)
qed (simp add: WMHashGet_ht_map)

lemma lookup_valid:
  assumes "valid_dict cs t" "is_key l" "lookup cs t l = Some v"
  shows "valid_plist cs v" "valid_plist cs l"
  using plist_map_lookup [OF assms(1,2)] assms unfolding valid_dictionary_iff by auto

lemma lookup_equal_key:
  "valid_dict cs t \<Longrightarrow> is_key k \<Longrightarrow> WMIsPropListEqualTo cs k l \<Longrightarrow> lookup cs t k = lookup cs t l"
  using plist_map_equal [of cs t k l] valid_dict_wf by (auto simp: WMHashGet_ht_map)

lemma lookup_put:
  "valid_dict cs t \<Longrightarrow> is_key k \<Longrightarrow> is_key l \<Longrightarrow>
   lookup cs (put_key cs t k v) l = (if WMIsPropListEqualTo cs l k then Some v else lookup cs t l)"
  using put_key_spec(2) [OF valid_dict_wf] by (simp add: WMHashGet_ht_map)

lemma lookup_remove:
  "valid_dict cs t \<Longrightarrow> is_key k \<Longrightarrow> is_key l \<Longrightarrow>
   lookup cs (remove_key cs t k) l = (if WMIsPropListEqualTo cs l k then NULL else lookup cs t l)"
  using remove_key_spec(2) [OF valid_dict_wf] by (simp add: WMHashGet_ht_map)

lemma lookup_set_data:
  "valid_dict cs t \<Longrightarrow> is_key k \<Longrightarrow> lookup cs t k = Some w \<Longrightarrow> is_key l \<Longrightarrow>
   lookup cs (set_data cs t k v) l = (if WMIsPropListEqualTo cs l k then Some v else lookup cs t l)"
  using set_data_spec(2) [OF valid_dict_wf, of cs t k "Some w"] plist_map_lookup [of cs t k] by (simp add: WMHashGet_ht_map)

lemma valid_set_data_lookup:
  "valid_dict cs t \<Longrightarrow> is_key k \<Longrightarrow> lookup cs t k = Some w \<Longrightarrow> valid_plist cs v \<Longrightarrow> valid_dict cs (set_data cs t k v)"
  using valid_set_data [of cs t k "Some w" v] plist_map_lookup [of cs t k] by simp

text \<open>The items that an enumeration has still to give, and the binding of a key in them.\<close>

definition items_good :: "bool \<Rightarrow> (W_PropList, W_PropList) HashItem list \<Rightarrow> bool" where
  "items_good cs xs \<longleftrightarrow>
     (\<forall>x \<in> set xs. is_key (itemKey x) \<and> valid_plist cs (itemKey x) \<and> (\<exists>v. itemData x = Some v \<and> valid_plist cs v)) \<and>
     sorted_wrt (\<lambda>x y. \<not> WMIsPropListEqualTo cs (itemKey x) (itemKey y)) xs"

fun binding :: "bool \<Rightarrow> (W_PropList, W_PropList) HashItem list \<Rightarrow> W_PropList \<Rightarrow> W_PropList ptr" where
  "binding cs [] l = NULL"
| "binding cs (x # xs) l = (if WMIsPropListEqualTo cs l (itemKey x) then itemData x else binding cs xs l)"

lemma binding_None: "\<forall>x \<in> set xs. \<not> WMIsPropListEqualTo cs l (itemKey x) \<Longrightarrow> binding cs xs l = NULL"
  by (induction xs) auto

lemma items_good_Cons:
  assumes "items_good cs (HashItem k d # xs)"
  obtains v where "d = Some v" "is_key k" "valid_plist cs k" "valid_plist cs v" "items_good cs xs"
    "\<And>l. is_key l \<Longrightarrow> WMIsPropListEqualTo cs l k \<Longrightarrow> binding cs xs l = NULL"
proof -
  obtain v where v: "d = Some v" "is_key k" "valid_plist cs k" "valid_plist cs v" "items_good cs xs"
    "\<forall>x \<in> set xs. \<not> WMIsPropListEqualTo cs k (itemKey x)"
    using assms by (auto simp: items_good_def)
  have "binding cs xs l = NULL" if "is_key l" "WMIsPropListEqualTo cs l k" for l
  proof (rule binding_None)
    show "\<forall>x \<in> set xs. \<not> WMIsPropListEqualTo cs l (itemKey x)"
      using v(2,6) that key_sym key_equal_trans by blast
  qed
  then show ?thesis using that v by blast
qed

lemma table_items_good:
  assumes "valid_dict cs t"
  shows "items_good cs (concat (tTable t))" "is_key l \<Longrightarrow> binding cs (concat (tTable t)) l = lookup cs t l"
proof -
  have wf: "dict_wf cs t" using assms by simp
  have s: "sorted_wrt (\<lambda>x y. \<not> WMIsPropListEqualTo cs (itemKey x) (itemKey y)) (items_of t)"
    using plist_keys.items_distinct [of cs t] wf by (simp add: ht_wf_def KEYEQ_plist)
  have d: "\<forall>x \<in> set (items_of t). is_key (itemKey x) \<and> valid_plist cs (itemKey x) \<and> (\<exists>v. itemData x = Some v \<and> valid_plist cs v)"
    using assms item_key [OF wf] by (fastforce simp: items_of_def split: option.splits)
  show g: "items_good cs (concat (tTable t))" using s d by (simp add: items_good_def items_of_def)
  have b: "x \<in> set xs \<Longrightarrow> WMIsPropListEqualTo cs l (itemKey x) \<Longrightarrow> items_good cs xs \<Longrightarrow> is_key l \<Longrightarrow>
      binding cs xs l = itemData x" for x xs
  proof (induction xs)
    case (Cons y ys)
    obtain k e where y: "y = HashItem k e" by (cases y)
    obtain v where C: "items_good cs ys" "\<And>l. is_key l \<Longrightarrow> WMIsPropListEqualTo cs l k \<Longrightarrow> binding cs ys l = NULL"
      using items_good_Cons [OF Cons.prems(3) [unfolded y]] by metis
    show ?case
    proof (cases "x = y")
      case False
      then have x: "x \<in> set ys" using Cons.prems(1) by simp
      have "\<exists>v. itemData x = Some v" using C(1) x by (auto simp: items_good_def)
      then have "\<not> WMIsPropListEqualTo cs l k" using Cons.IH [OF x Cons.prems(2) C(1) Cons.prems(4)] C(2) Cons.prems(4) by auto
      then show ?thesis using Cons.IH [OF x Cons.prems(2) C(1) Cons.prems(4)] y by simp
    qed (use Cons.prems(2) in simp)
  qed simp
  assume l: "is_key l"
  show "binding cs (concat (tTable t)) l = lookup cs t l"
  proof (cases "lookup cs t l")
    case None
    then have "plist_map cs t l = None" using plist_map_lookup [OF assms l] by simp
    then have "\<forall>x \<in> set (items_of t). \<not> WMIsPropListEqualTo cs l (itemKey x)"
      using plist_map_iff [OF wf l] by (metis option.distinct(1))
    then show ?thesis using None binding_None by (simp add: items_of_def)
  next
    case (Some v)
    then have "plist_map cs t l = Some (Some v)" using plist_map_lookup [OF assms l] by simp
    then obtain x where "x \<in> set (items_of t)" "WMIsPropListEqualTo cs l (itemKey x)" "itemData x = Some v"
      using plist_map_iff [OF wf l] by blast
    then show ?thesis using b [OF _ _ g l] Some by (simp add: items_of_def)
  qed
qed

text \<open>What a merge makes of the values that the two dictionaries have for a key.\<close>

definition merged :: "bool \<Rightarrow> bool \<Rightarrow> W_PropList ptr \<Rightarrow> W_PropList ptr \<Rightarrow> W_PropList ptr" where
  "merged cs recursive dvalue value =
     (case (dvalue, value) of
        (_, None) \<Rightarrow> dvalue
      | (None, Some v) \<Rightarrow> Some v
      | (Some d, Some v) \<Rightarrow>
          if recursive \<and> WMIsPLDictionary d \<and> WMIsPLDictionary v then merge_values cs True d v else Some v)"

lemma merged_NULL [simp]: "merged cs r a NULL = a"
  by (simp add: merged_def split: option.splits)

lemma is_dictionary_iff: "WMIsPLDictionary p \<longleftrightarrow> (\<exists>t. p = PLDictionary t)"
  by (cases p) (auto simp: WMIsPLDictionary_def)

lemma merge_ok:
  shows "valid_plist cs p \<Longrightarrow> valid_plist cs q \<Longrightarrow>
      \<exists>w. merge_values cs r p q = Some w \<and> valid_plist cs w \<and> (WMIsPLDictionary p \<longrightarrow> WMIsPLDictionary w)"
    and "valid_dict cs d \<Longrightarrow> items_good cs xs \<Longrightarrow>
      \<exists>u. merge_loop cs r d xs = Some u \<and> valid_dict cs u \<and>
        (\<forall>l. is_key l \<longrightarrow> lookup cs u l = merged cs r (lookup cs d l) (binding cs xs l))"
proof (induction cs r p q and cs r d xs rule: merge_values_merge_loop.induct)
  case (1 cs r d t)
  then show ?case using table_items_good(1) [of cs t] by (auto simp: WMIsPLDictionary_def simp del: valid_plist.simps)
next
  case (3 cs r d)
  then show ?case by (auto simp: merged_def split: option.splits)
next
  case (4 cs r d key item rest)
  obtain vl where v: "item = Some vl" "is_key key" "valid_plist cs key" "valid_plist cs vl" "items_good cs rest"
    "\<And>l. is_key l \<Longrightarrow> WMIsPropListEqualTo cs l key \<Longrightarrow> binding cs rest l = NULL"
    using items_good_Cons [OF "4.prems"(2)] by metis
  have "\<exists>d'. (if r \<and> WMIsPLDictionary vl
           then (case lookup cs d key of
                   Some dvalue \<Rightarrow>
                     if WMIsPLDictionary dvalue
                     then do { dvalue \<leftarrow> merge_values cs True dvalue vl; Some (set_data cs d key dvalue) }
                     else Some (put_key cs d key vl)
                 | None \<Rightarrow> Some (put_key cs d key vl))
           else Some (put_key cs d key vl)) = Some d' \<and> valid_dict cs d' \<and>
       (\<forall>l. is_key l \<longrightarrow> lookup cs d' l = (if WMIsPropListEqualTo cs l key then merged cs r (lookup cs d key) item else lookup cs d l))"
  proof (cases "\<exists>dvalue. r \<and> WMIsPLDictionary vl \<and> lookup cs d key = Some dvalue \<and> WMIsPLDictionary dvalue")
    case True
    then obtain dvalue where dv: "r" "WMIsPLDictionary vl" "lookup cs d key = Some dvalue" "WMIsPLDictionary dvalue" by blast
    have val: "valid_plist cs dvalue" by (rule lookup_valid [OF "4.prems"(1) v(2) dv(3)])
    obtain w where w: "merge_values cs True dvalue vl = Some w" "valid_plist cs w"
      using "4.IH"(1) [OF v(1) _ dv(3,4) val v(4)] dv(1,2) by blast
    show ?thesis
      using dv v(1) w lookup_set_data [OF "4.prems"(1) v(2) dv(3)] valid_set_data_lookup [OF "4.prems"(1) v(2) dv(3) w(2)]
      by (auto simp: merged_def)
  next
    case False
    then have "merged cs r (lookup cs d key) item = Some vl" using v(1) by (auto simp: merged_def split: option.splits)
    then show ?thesis
      using False lookup_put [OF "4.prems"(1) v(2)] valid_put [OF "4.prems"(1) v(2-4)] by (auto split: option.splits)
  qed
  then obtain d' where d': "(if r \<and> WMIsPLDictionary vl
           then (case lookup cs d key of
                   Some dvalue \<Rightarrow>
                     if WMIsPLDictionary dvalue
                     then do { dvalue \<leftarrow> merge_values cs True dvalue vl; Some (set_data cs d key dvalue) }
                     else Some (put_key cs d key vl)
                 | None \<Rightarrow> Some (put_key cs d key vl))
           else Some (put_key cs d key vl)) = Some d'" "valid_dict cs d'"
       "\<forall>l. is_key l \<longrightarrow> lookup cs d' l = (if WMIsPropListEqualTo cs l key then merged cs r (lookup cs d key) item else lookup cs d l)"
    by blast
  obtain u where u: "merge_loop cs r d' rest = Some u" "valid_dict cs u"
    "\<forall>l. is_key l \<longrightarrow> lookup cs u l = merged cs r (lookup cs d' l) (binding cs rest l)"
    using "4.IH"(2) [OF v(1) d'(1,2) v(5)] by blast
  have "lookup cs u l = merged cs r (lookup cs d l) (binding cs (HashItem key item # rest) l)" if l: "is_key l" for l
  proof (cases "WMIsPropListEqualTo cs l key")
    case True
    then show ?thesis
      using u(3) d'(3) v(6) [OF l True] l lookup_equal_key [OF "4.prems"(1) l True] by simp
  qed (use u(3) d'(3) l in simp)
  then show ?case using u(1,2) d'(1) v(1) by simp
qed (simp_all add: WMIsPLDictionary_def)


text \<open>And what a subtraction makes of them.\<close>

definition subtracted :: "bool \<Rightarrow> bool \<Rightarrow> W_PropList ptr \<Rightarrow> W_PropList ptr \<Rightarrow> W_PropList ptr" where
  "subtracted cs recursive dvalue value =
     (case (dvalue, value) of
        (None, _) \<Rightarrow> NULL
      | (Some d, None) \<Rightarrow> Some d
      | (Some d, Some v) \<Rightarrow>
          if WMIsPropListEqualTo cs v d then NULL
          else if recursive \<and> WMIsPLDictionary v \<and> WMIsPLDictionary d then subtract_values cs True d v
          else Some d)"

lemma subtracted_NULL [simp]: "subtracted cs r a NULL = a" "subtracted cs r NULL b = NULL"
  by (simp_all add: subtracted_def split: option.splits)

lemma subtract_ok:
  shows "valid_plist cs p \<Longrightarrow> valid_plist cs q \<Longrightarrow>
      \<exists>w. subtract_values cs r p q = Some w \<and> valid_plist cs w \<and> (WMIsPLDictionary p \<longrightarrow> WMIsPLDictionary w)"
    and "valid_dict cs d \<Longrightarrow> items_good cs xs \<Longrightarrow>
      \<exists>u. subtract_loop cs r d xs = Some u \<and> valid_dict cs u \<and>
        (\<forall>l. is_key l \<longrightarrow> lookup cs u l = subtracted cs r (lookup cs d l) (binding cs xs l))"
proof (induction cs r p q and cs r d xs rule: subtract_values_subtract_loop.induct)
  case (1 cs r d t)
  then show ?case using table_items_good(1) [of cs t] by (auto simp: WMIsPLDictionary_def simp del: valid_plist.simps)
next
  case (4 cs r d key item rest)
  obtain vl where v: "item = Some vl" "is_key key" "valid_plist cs key" "valid_plist cs vl" "items_good cs rest"
    "\<And>l. is_key l \<Longrightarrow> WMIsPropListEqualTo cs l key \<Longrightarrow> binding cs rest l = NULL"
    using items_good_Cons [OF "4.prems"(2)] by metis
  note eqk = lookup_equal_key [OF "4.prems"(1)]
  show ?case
  proof (cases "lookup cs d key")
    case None
    obtain u where u: "subtract_loop cs r d rest = Some u" "valid_dict cs u"
      "\<forall>l. is_key l \<longrightarrow> lookup cs u l = subtracted cs r (lookup cs d l) (binding cs rest l)"
      using "4.IH"(1) [OF None "4.prems"(1) v(5)] by blast
    have "lookup cs u l = subtracted cs r (lookup cs d l) (binding cs (HashItem key item # rest) l)" if l: "is_key l" for l
      using u(3) l None eqk [of l key] by (cases "WMIsPropListEqualTo cs l key") auto
    then show ?thesis using u(1,2) None by simp
  next
    case (Some dv)
    have val: "valid_plist cs dv" by (rule lookup_valid [OF "4.prems"(1) v(2) Some])
    let ?step = "(if WMIsPropListEqualTo cs vl dv then Some (remove_key cs d key)
                else if r \<and> WMIsPLDictionary vl \<and> WMIsPLDictionary dv
                then do { dv \<leftarrow> subtract_values cs True dv vl; Some (set_data cs d key dv) }
                else Some d)"
    have "\<exists>d'. ?step = Some d' \<and> valid_dict cs d' \<and>
       (\<forall>l. is_key l \<longrightarrow> lookup cs d' l = (if WMIsPropListEqualTo cs l key then subtracted cs r (Some dv) item else lookup cs d l))"
    proof (cases "WMIsPropListEqualTo cs vl dv")
      case True
      then show ?thesis
        using lookup_remove [OF "4.prems"(1) v(2)] valid_remove [OF "4.prems"(1) v(2)] v(1) by (auto simp: subtracted_def)
    next
      case ne: False
      show ?thesis
      proof (cases "r \<and> WMIsPLDictionary vl \<and> WMIsPLDictionary dv")
        case True
        obtain w where w: "subtract_values cs True dv vl = Some w" "valid_plist cs w"
          using "4.IH"(2) [OF Some v(1) ne True val v(4)] by blast
        show ?thesis
          using True ne v(1) w lookup_set_data [OF "4.prems"(1) v(2) Some] valid_set_data_lookup [OF "4.prems"(1) v(2) Some w(2)]
          by (auto simp: subtracted_def)
      next
        case False
        then have "subtracted cs r (Some dv) item = Some dv" using v(1) ne by (auto simp: subtracted_def)
        then show ?thesis using False ne "4.prems"(1) Some eqk [of _ key] by auto
      qed
    qed
    then obtain d' where d': "?step = Some d'" "valid_dict cs d'"
       "\<forall>l. is_key l \<longrightarrow> lookup cs d' l = (if WMIsPropListEqualTo cs l key then subtracted cs r (Some dv) item else lookup cs d l)"
      by blast
    obtain u where u: "subtract_loop cs r d' rest = Some u" "valid_dict cs u"
      "\<forall>l. is_key l \<longrightarrow> lookup cs u l = subtracted cs r (lookup cs d' l) (binding cs rest l)"
      using "4.IH"(3) [OF Some v(1) d'(1,2) v(5)] by blast
    have "lookup cs u l = subtracted cs r (lookup cs d l) (binding cs (HashItem key item # rest) l)" if l: "is_key l" for l
    proof (cases "WMIsPropListEqualTo cs l key")
      case True
      then show ?thesis using u(3) d'(3) v(6) [OF l True] l eqk [OF l True] Some by simp
    qed (use u(3) d'(3) l in simp)
    then show ?thesis using u(1,2) d'(1) v(1) Some by simp
  qed
qed (simp_all add: WMIsPLDictionary_def)

section \<open>The equality is an equivalence\<close>

lemma dictionaries_equal_lookup:
  assumes "valid_dict cs t" "valid_dict cs u"
  shows "WMIsPropListEqualTo cs (PLDictionary t) (PLDictionary u) \<longleftrightarrow>
    WMCountHashTable t = WMCountHashTable u \<and>
    (\<forall>l a. is_key l \<longrightarrow> lookup cs t l = Some a \<longrightarrow> (\<exists>b. lookup cs u l = Some b \<and> WMIsPropListEqualTo cs a b))"
proof -
  note wf = valid_dict_wf [OF assms(1)] valid_dict_wf [OF assms(2)]
  have "(\<forall>x \<in> set (items_of t). \<exists>a b. itemData x = Some a \<and> lookup cs u (itemKey x) = Some b \<and> WMIsPropListEqualTo cs a b) \<longleftrightarrow>
    (\<forall>l a. is_key l \<longrightarrow> lookup cs t l = Some a \<longrightarrow> (\<exists>b. lookup cs u l = Some b \<and> WMIsPropListEqualTo cs a b))"
    (is "?l \<longleftrightarrow> ?r")
  proof
    assume l: ?l
    show ?r
    proof (intro allI impI)
      fix l a assume la: "is_key l" "lookup cs t l = Some a"
      then have "plist_map cs t l = Some (Some a)" using plist_map_lookup [OF assms(1)] by simp
      then obtain x where x: "x \<in> set (items_of t)" "WMIsPropListEqualTo cs l (itemKey x)" "itemData x = Some a"
        using plist_map_iff [OF wf(1) la(1)] by blast
      have "lookup cs u l = lookup cs u (itemKey x)" by (rule lookup_equal_key [OF assms(2) la(1) x(2)])
      then show "\<exists>b. lookup cs u l = Some b \<and> WMIsPropListEqualTo cs a b" using l x by auto
    qed
  next
    assume r: ?r
    show ?l
    proof
      fix x assume x: "x \<in> set (items_of t)"
      note k = item_key [OF wf(1) x]
      have "plist_map cs t (itemKey x) = Some (itemData x)" by (rule plist_map_item [OF wf(1) x])
      then have "\<exists>a. itemData x = Some a \<and> lookup cs t (itemKey x) = Some a"
        using plist_map_lookup [OF assms(1) k] by (metis map_option_eq_Some option.inject)
      then show "\<exists>a b. itemData x = Some a \<and> lookup cs u (itemKey x) = Some b \<and> WMIsPropListEqualTo cs a b"
        using r k by blast
    qed
  qed
  then show ?thesis unfolding dictionaries_equal [OF wf(2)] by blast
qed

text \<open>Two dictionaries of the same size of which one has the keys of the other have the same keys.\<close>

lemma same_keys:
  fixes t u :: "(W_PropList, W_PropList) W_HashTable"
  assumes wf: "dict_wf cs t" "dict_wf cs u" and c: "WMCountHashTable t = WMCountHashTable u"
    and sub: "\<And>l. is_key l \<Longrightarrow> plist_map cs t l \<noteq> None \<Longrightarrow> plist_map cs u l \<noteq> None"
    and k: "is_key k" "plist_map cs u k \<noteq> None"
  shows "plist_map cs t k \<noteq> None"
proof -
  have dis: "distinct (items_of v)" "inj_on (\<lambda>x. x) (set (items_of v))" if w: "dict_wf cs v"
    for v :: "(W_PropList, W_PropList) W_HashTable"
  proof -
    have "sorted_wrt (\<lambda>x y. \<not> WMIsPropListEqualTo cs (itemKey x) (itemKey y)) (items_of v)"
      using plist_keys.items_distinct [of cs v] w by (simp add: ht_wf_def KEYEQ_plist)
    then have "sorted_wrt (\<noteq>) (items_of v)"
      by (rule sorted_wrt_mono_rel [rotated]) (use key_refl item_key [OF w] in metis)
    then show "distinct (items_of v)" by (simp add: distinct_conv_nth sorted_wrt_iff_nth_less) (metis linorder_neqE_nat)
  qed simp
  have uniq: "x = y" if "dict_wf cs v" "x \<in> set (items_of v)" "y \<in> set (items_of v)" "WMIsPropListEqualTo cs (itemKey x) (itemKey y)"
    for v :: "(W_PropList, W_PropList) W_HashTable" and x y
    using plist_keys.hashGetItem_iff [of cs v "itemKey x" x] plist_keys.hashGetItem_iff [of cs v "itemKey x" y]
      that item_key [OF that(1,2)] key_refl by (auto simp: ht_wf_def KEYEQ_plist)
  have "\<forall>x \<in> set (items_of t). \<exists>y \<in> set (items_of u). WMIsPropListEqualTo cs (itemKey x) (itemKey y)"
    using sub plist_map_item [OF wf(1)] item_key [OF wf(1)] plist_map_iff [OF wf(2)] by (metis not_None_eq)
  then obtain f where f: "\<And>x. x \<in> set (items_of t) \<Longrightarrow> f x \<in> set (items_of u) \<and> WMIsPropListEqualTo cs (itemKey x) (itemKey (f x))"
    by metis
  have "inj_on f (set (items_of t))"
  proof (rule inj_onI)
    fix x y assume xy: "x \<in> set (items_of t)" "y \<in> set (items_of t)" "f x = f y"
    have "WMIsPropListEqualTo cs (itemKey x) (itemKey y)"
      using f [OF xy(1)] f [OF xy(2)] xy key_sym [OF item_key [OF wf(1) xy(2)]] key_equal_trans [OF item_key [OF wf(1) xy(1)]] by metis
    then show "x = y" by (rule uniq [OF wf(1) xy(1,2)])
  qed
  then have "card (f ` set (items_of t)) = card (set (items_of u))"
    using c dis wf by (simp add: card_image distinct_card WMCountHashTable_def ht_wf_def)
  then have surj: "f ` set (items_of t) = set (items_of u)"
    using f by (intro card_subset_eq) auto
  obtain y where y: "y \<in> set (items_of u)" "WMIsPropListEqualTo cs k (itemKey y)"
    using k plist_map_iff [OF wf(2) k(1)] by auto
  then obtain x where x: "x \<in> set (items_of t)" "y = f x" using surj by blast
  have "WMIsPropListEqualTo cs k (itemKey x)"
    using f [OF x(1)] x y k(1) key_sym [OF item_key [OF wf(1) x(1)]] key_equal_trans [OF k(1)] by metis
  then show ?thesis using plist_map_iff [OF wf(1) k(1)] x(1) by blast
qed

lemma plist_equal_sym: "valid_plist cs p \<Longrightarrow> valid_plist cs q \<Longrightarrow> WMIsPropListEqualTo cs p q \<Longrightarrow> WMIsPropListEqualTo cs q p"
proof (induction p arbitrary: q rule: plist_induct)
  case (PLString s)
  then show ?case by (cases q) (auto simp: strings_equal_def split: if_splits)
next
  case (PLData bs)
  then show ?case by (cases q) auto
next
  case (PLArray xs)
  then obtain ys where q: "q = PLArray ys" by (cases q) auto
  have "list_all2 (WMIsPropListEqualTo cs) xs ys" using PLArray.prems(3) unfolding q arrays_equal .
  then have "list_all2 (WMIsPropListEqualTo cs) ys xs"
    using PLArray.IH PLArray.prems(1,2) q by (simp add: list_all2_conv_all_nth)
  then show ?case unfolding q arrays_equal .
next
  case (PLDictionary t)
  then obtain u where q: "q = PLDictionary u" by (cases q) auto
  have v: "valid_dict cs t" "valid_dict cs u" using PLDictionary.prems(1,2) q by simp_all
  note wf = valid_dict_wf [OF v(1)] valid_dict_wf [OF v(2)]
  note E = PLDictionary.prems(3) [unfolded q dictionaries_equal_lookup [OF v]]
  have "\<exists>b. lookup cs t l = Some b \<and> WMIsPropListEqualTo cs a b" if l: "is_key l" "lookup cs u l = Some a" for l a
  proof -
    have "plist_map cs t l \<noteq> None"
    proof (rule same_keys [OF wf _ _ l(1)])
      show "WMCountHashTable t = WMCountHashTable u" using E by blast
      show "plist_map cs u l \<noteq> None" if p: "is_key l" "plist_map cs t l \<noteq> None" for l
      proof -
        obtain a where "lookup cs t l = Some a" using p plist_map_lookup [OF v(1) p(1)] by auto
        then show ?thesis using E p(1) plist_map_lookup [OF v(2) p(1)] by fastforce
      qed
      show "plist_map cs u l \<noteq> None" using l plist_map_lookup [OF v(2) l(1)] by simp
    qed
    then obtain b where b: "lookup cs t l = Some b" using plist_map_lookup [OF v(1) l(1)] by auto
    then have e: "WMIsPropListEqualTo cs b a" using E l by fastforce
    have "plist_map cs t l = Some (Some b)" using b plist_map_lookup [OF v(1) l(1)] by simp
    then obtain x where "x \<in> set (items_of t)" "itemData x = Some b" using plist_map_iff [OF wf(1) l(1)] by blast
    then show ?thesis using PLDictionary.IH(2) e b lookup_valid [OF v(1) l(1) b] lookup_valid [OF v(2) l] by blast
  qed
  then show ?case unfolding q dictionaries_equal_lookup [OF v(2,1)] using E by auto
qed

lemma plist_equal_trans:
  "valid_plist cs p \<Longrightarrow> valid_plist cs q \<Longrightarrow> valid_plist cs r \<Longrightarrow>
   WMIsPropListEqualTo cs p q \<Longrightarrow> WMIsPropListEqualTo cs q r \<Longrightarrow> WMIsPropListEqualTo cs p r"
proof (induction p arbitrary: q r rule: plist_induct)
  case (PLString s)
  then show ?case using key_equal_trans [of "PLString s"] by (meson is_key.simps(1))
next
  case (PLData bs)
  then show ?case using key_equal_trans [of "PLData bs"] by (meson is_key.simps(2))
next
  case (PLArray xs)
  then obtain ys where q: "q = PLArray ys" by (cases q) auto
  then obtain zs where r: "r = PLArray zs" using PLArray.prems(5) by (cases r) auto
  have "list_all2 (WMIsPropListEqualTo cs) xs ys" "list_all2 (WMIsPropListEqualTo cs) ys zs"
    using PLArray.prems(4,5) unfolding q r arrays_equal .
  then have "list_all2 (WMIsPropListEqualTo cs) xs zs"
    using PLArray q r by (simp add: list_all2_conv_all_nth in_set_conv_nth) (metis nth_mem)
  then show ?case unfolding r arrays_equal .
next
  case (PLDictionary t)
  then obtain u where q: "q = PLDictionary u" by (cases q) auto
  then obtain w where r: "r = PLDictionary w" using PLDictionary.prems(5) by (cases r) auto
  have v: "valid_dict cs t" "valid_dict cs u" "valid_dict cs w" using PLDictionary.prems(1-3) q r by simp_all
  note E = PLDictionary.prems(4) [unfolded q dictionaries_equal_lookup [OF v(1,2)]]
  note F = PLDictionary.prems(5) [unfolded q r dictionaries_equal_lookup [OF v(2,3)]]
  have "\<exists>c. lookup cs w l = Some c \<and> WMIsPropListEqualTo cs a c" if l: "is_key l" "lookup cs t l = Some a" for l a
  proof -
    obtain b where b: "lookup cs u l = Some b" "WMIsPropListEqualTo cs a b" using E l by blast
    obtain c where c: "lookup cs w l = Some c" "WMIsPropListEqualTo cs b c" using F l b by blast
    have "plist_map cs t l = Some (Some a)" using l plist_map_lookup [OF v(1) l(1)] by simp
    then obtain x where "x \<in> set (items_of t)" "itemData x = Some a"
      using plist_map_iff [OF valid_dict_wf [OF v(1)] l(1)] by blast
    then show ?thesis
      using PLDictionary.IH(2) b c lookup_valid [OF v(1) l] lookup_valid [OF v(2) l(1) b(1)] lookup_valid [OF v(3) l(1) c(1)] by blast
  qed
  then show ?case unfolding r dictionaries_equal_lookup [OF v(1,3)] using E F by auto
qed


section \<open>Copies\<close>

lemma WMHashInsert_dict:
  assumes "valid_dict cs t" "is_key k" "valid_plist cs k" "valid_plist cs v" "lookup cs t k = NULL"
    and "t' = fst (WMHashInsert (WMPropListHashCallbacks cs) t k (Some v))"
  shows "valid_dict cs t'"
    "is_key l \<Longrightarrow> lookup cs t' l = (if WMIsPropListEqualTo cs l k then Some v else lookup cs t l)"
    "WMCountHashTable t' = WMCountHashTable t + 1"
proof -
  obtain old rel where ins: "WMHashInsert (WMPropListHashCallbacks cs) t k (Some v) = (t', old, rel)"
    using assms(6) by (metis fst_conv prod_cases3)
  note I = plist_keys.WMHashInsert_spec [OF valid_dict_wf [OF assms(1)] assms(2) ins, unfolded KEYEQ_plist]
  have none: "plist_map cs t k = None" using plist_map_lookup [OF assms(1,2)] assms(5) by simp
  show "WMCountHashTable t' = WMCountHashTable t + 1" using I(5) none by simp
  show "is_key l \<Longrightarrow> lookup cs t' l = (if WMIsPropListEqualTo cs l k then Some v else lookup cs t l)"
    using I(2) by (simp add: WMHashGet_ht_map)
  show "valid_dict cs t'"
    using assms(1,3,4) I(1,2) key_sym valid_key_equal [OF assms(2)]
    unfolding valid_dictionary_iff by (auto split: if_splits) blast
qed

text \<open>A table filled with one item for every item of a list, with an equal key and an equal value.\<close>

definition copied ::
  "bool \<Rightarrow> (W_PropList, W_PropList) HashItem list \<Rightarrow> (W_PropList, W_PropList) W_HashTable \<Rightarrow>
   (W_PropList, W_PropList) W_HashTable \<Rightarrow> bool"
where
  "copied cs xs ret u \<longleftrightarrow> valid_dict cs u \<and> WMCountHashTable u = WMCountHashTable ret + length xs \<and>
     (\<forall>l. is_key l \<longrightarrow> (case binding cs xs l of
        None \<Rightarrow> lookup cs u l = lookup cs ret l
      | Some a \<Rightarrow> \<exists>b. lookup cs u l = Some b \<and> WMIsPropListEqualTo cs a b))"

lemma copied_Cons:
  assumes good: "items_good cs (HashItem k (Some v) # rest)" and ret: "valid_dict cs ret"
    and new: "\<forall>x \<in> set (HashItem k (Some v) # rest). lookup cs ret (itemKey x) = NULL"
    and k': "is_key k'" "WMIsPropListEqualTo cs k k'" and v': "valid_plist cs v'" "WMIsPropListEqualTo cs v v'"
    and r: "valid_dict cs r" "WMCountHashTable r = WMCountHashTable ret + 1"
      "\<And>l. is_key l \<Longrightarrow> lookup cs r l = (if WMIsPropListEqualTo cs l k' then Some v' else lookup cs ret l)"
  shows "\<forall>x \<in> set rest. lookup cs r (itemKey x) = NULL" "copied cs rest r u \<Longrightarrow> copied cs (HashItem k (Some v) # rest) ret u"
proof -
  obtain w where G: "is_key k" "items_good cs rest"
    "\<And>l. is_key l \<Longrightarrow> WMIsPropListEqualTo cs l k \<Longrightarrow> binding cs rest l = NULL"
    using items_good_Cons [OF good] by metis
  have kk: "WMIsPropListEqualTo cs l k' \<longleftrightarrow> WMIsPropListEqualTo cs l k" if "is_key l" for l
    using key_equal_trans [OF that] k'(2) key_sym [OF G(1) k'(2)] by blast
  show "\<forall>x \<in> set rest. lookup cs r (itemKey x) = NULL"
  proof
    fix x assume x: "x \<in> set rest"
    have xk: "is_key (itemKey x)" using G(2) x by (auto simp: items_good_def)
    have "\<not> WMIsPropListEqualTo cs k (itemKey x)" using good x by (auto simp: items_good_def)
    then have "\<not> WMIsPropListEqualTo cs (itemKey x) k" using key_sym [OF xk] by blast
    then show "lookup cs r (itemKey x) = NULL" using r(3) [OF xk] kk [OF xk] new x by simp
  qed
  assume c: "copied cs rest r u"
  have "case binding cs (HashItem k (Some v) # rest) l of
        None \<Rightarrow> lookup cs u l = lookup cs ret l
      | Some a \<Rightarrow> \<exists>b. lookup cs u l = Some b \<and> WMIsPropListEqualTo cs a b" if l: "is_key l" for l
  proof (cases "WMIsPropListEqualTo cs l k")
    case True
    have "binding cs rest l = NULL" by (rule G(3) [OF l True])
    moreover have "case binding cs rest l of None \<Rightarrow> lookup cs u l = lookup cs r l
      | Some a \<Rightarrow> \<exists>b. lookup cs u l = Some b \<and> WMIsPropListEqualTo cs a b"
      using c l unfolding copied_def by blast
    ultimately have "lookup cs u l = Some v'" using True r(3) [OF l] kk [OF l] by simp
    then show ?thesis using True v'(2) by simp
  next
    case False
    then show ?thesis using c l r(3) [OF l] kk [OF l] by (auto simp: copied_def split: option.splits)
  qed
  then show "copied cs (HashItem k (Some v) # rest) ret u" using c r(2) by (simp add: copied_def)
qed

lemma copied_table:
  assumes "valid_dict cs t" "copied cs (concat (tTable t)) WMCreateHashTable u"
  shows "WMIsPropListEqualTo cs (PLDictionary t) (PLDictionary u)" "valid_dict cs u"
proof -
  show u: "valid_dict cs u" using assms(2) by (simp add: copied_def)
  have "WMCountHashTable t = WMCountHashTable u"
    using assms(2) valid_dict_wf [OF assms(1)]
    by (simp add: copied_def ht_wf_def items_of_def WMCountHashTable_def WMCreateHashTable_def)
  moreover have "\<exists>b. lookup cs u l = Some b \<and> WMIsPropListEqualTo cs a b" if "is_key l" "lookup cs t l = Some a" for l a
    using that assms(2) table_items_good(2) [OF assms(1) that(1)] by (auto simp: copied_def)
  ultimately show "WMIsPropListEqualTo cs (PLDictionary t) (PLDictionary u)"
    unfolding dictionaries_equal_lookup [OF assms(1) u] by blast
qed

lemma empty_table: "valid_dict cs WMCreateHashTable" "lookup cs WMCreateHashTable l = NULL"
proof -
  show "lookup cs WMCreateHashTable l = NULL"
    by (simp add: WMHashGet_ht_map plist_keys.WMCreateHashTable_map)
  show "valid_dict cs WMCreateHashTable"
    unfolding valid_dictionary_iff by (simp add: plist_keys.WMCreateHashTable_wf plist_keys.WMCreateHashTable_map)
qed

lemma copied_Nil: "valid_dict cs ret \<Longrightarrow> copied cs [] ret ret"
  by (simp add: copied_def)

lemma shallow_loop_ok:
  "items_good cs xs \<Longrightarrow> valid_dict cs ret \<Longrightarrow> \<forall>x \<in> set xs. lookup cs ret (itemKey x) = NULL \<Longrightarrow>
   \<exists>u. shallow_loop cs xs ret = Some u \<and> copied cs xs ret u"
proof (induction cs xs ret rule: shallow_loop.induct)
  case (2 cs key item rest ret)
  obtain vl where v: "item = Some vl" "is_key key" "valid_plist cs key" "valid_plist cs vl" "items_good cs rest"
    using items_good_Cons [OF "2.prems"(1)] by metis
  have none: "plist_map cs ret key = None" using "2.prems"(2,3) v(2) plist_map_lookup by simp
  note C = copied_Cons [OF "2.prems"(1) [unfolded v(1)] "2.prems"(2,3) [unfolded v(1)] v(2) key_refl [OF v(2)] v(4) plist_equal_refl [OF v(4)]
    valid_put [OF "2.prems"(2) v(2-4)] put_key_spec(3) [OF valid_dict_wf [OF "2.prems"(2)] v(2) none] lookup_put [OF "2.prems"(2) v(2)]]
  obtain u where "shallow_loop cs rest (put_key cs ret key vl) = Some u" "copied cs rest (put_key cs ret key vl) u"
    using "2.IH" [OF v(1,5) valid_put [OF "2.prems"(2) v(2-4)] C(1)] by blast
  then show ?case using C(2) v(1) by auto
qed (simp add: copied_Nil)

lemma WMCreatePLString_valid: "valid_plist cs (PLString s) \<Longrightarrow> WMCreatePLString s = PLString s"
  by (simp add: WMCreatePLString_def c_string_id)

lemma deep_copy_ok:
  shows "valid_plist cs p \<Longrightarrow> \<exists>q. WMDeepCopyPropList cs p = Some q \<and> valid_plist cs q \<and> WMIsPropListEqualTo cs p q"
    and "\<forall>x \<in> set es. valid_plist cs x \<Longrightarrow>
      \<exists>ys. deep_elements cs es = Some ys \<and> (\<forall>y \<in> set ys. valid_plist cs y) \<and> list_all2 (WMIsPropListEqualTo cs) es ys"
    and "items_good cs xs \<Longrightarrow> valid_dict cs ret \<Longrightarrow> \<forall>x \<in> set xs. lookup cs ret (itemKey x) = NULL \<Longrightarrow>
      \<exists>u. deep_loop cs xs ret = Some u \<and> copied cs xs ret u"
proof (induction cs p and cs es and cs xs ret rule: WMDeepCopyPropList_deep_elements_deep_loop.induct)
  case (1 cs s)
  then show ?case using WMCreatePLString_valid [OF 1] by (auto simp: strings_equal_def)
next
  case (3 cs xs)
  then show ?case unfolding valid_plist.simps by (auto simp: arrays_equal simp del: WMIsPropListEqualTo.simps)
next
  case (4 cs t)
  then obtain u where "deep_loop cs (concat (tTable t)) WMCreateHashTable = Some u" "copied cs (concat (tTable t)) WMCreateHashTable u"
    using table_items_good(1) empty_table by blast
  then show ?case using copied_table [OF 4(2)] by (auto simp del: WMIsPropListEqualTo.simps valid_plist.simps)
next
  case (6 cs x xs)
  then obtain y where y: "WMDeepCopyPropList cs x = Some y" "valid_plist cs y" "WMIsPropListEqualTo cs x y" by auto
  obtain ys where ys: "deep_elements cs xs = Some ys" "\<forall>y \<in> set ys. valid_plist cs y" "list_all2 (WMIsPropListEqualTo cs) xs ys"
    using "6.IH"(2) [OF y(1)] "6.prems" by auto
  show ?case using y ys by (intro exI [of _ "y # ys"]) simp
next
  case (8 cs key item rest ret)
  obtain vl where v: "item = Some vl" "is_key key" "valid_plist cs key" "valid_plist cs vl" "items_good cs rest"
    using items_good_Cons [OF "8.prems"(1)] by metis
  obtain k where k: "WMDeepCopyPropList cs key = Some k" "valid_plist cs k" "WMIsPropListEqualTo cs key k"
    using "8.IH"(1) [OF v(3)] by blast
  obtain w where w: "WMDeepCopyPropList cs vl = Some w" "valid_plist cs w" "WMIsPropListEqualTo cs vl w"
    using "8.IH"(2) [OF k(1) v(1,4)] by blast
  note kk = key_equal_key [OF v(2) k(3)]
  have none: "lookup cs ret k = NULL"
    using "8.prems"(3) lookup_equal_key [OF "8.prems"(2) v(2) k(3)] by simp
  note I = WMHashInsert_dict [OF "8.prems"(2) kk k(2) w(2) none refl]
  note C = copied_Cons [OF "8.prems"(1) [unfolded v(1)] "8.prems"(2,3) [unfolded v(1)] kk k(3) w(2,3) I(1,3,2)]
  obtain u where "deep_loop cs rest (fst (WMHashInsert (WMPropListHashCallbacks cs) ret k (Some w))) = Some u"
    "copied cs rest (fst (WMHashInsert (WMPropListHashCallbacks cs) ret k (Some w))) u"
    using "8.IH"(3) [OF k(1) v(1) w(1) v(5) I(1) C(1)] by blast
  then show ?case using C(2) v(1) k(1) w(1) by auto
qed (simp_all add: copied_Nil)


section \<open>The properties\<close>

text \<open>
  C7: \<open>WMIsPropListEqualTo\<close> is an equivalence on the values that the library builds, with or without
  regard to case: dictionaries included, although it only looks up the keys of one in the other.
\<close>

theorem plist_equality_equivalence:
  assumes "valid_plist cs p" "valid_plist cs q" "valid_plist cs r"
  shows "WMIsPropListEqualTo cs p p \<and>
    (WMIsPropListEqualTo cs p q \<longleftrightarrow> WMIsPropListEqualTo cs q p) \<and>
    (WMIsPropListEqualTo cs p q \<longrightarrow> WMIsPropListEqualTo cs q r \<longrightarrow> WMIsPropListEqualTo cs p r)"
  using plist_equal_refl [OF assms(1)] plist_equal_sym [OF assms(1,2)] plist_equal_sym [OF assms(2,1)]
    plist_equal_trans [OF assms] by blast

lemma example_dictionaries:
  "valid_dict cs (put_key cs WMCreateHashTable (PLString ''a'') (PLString ''x''))"
  by (rule valid_put [OF empty_table(1)]) simp_all

theorem plist_equality_equivalence_witness:
  "WMIsPropListEqualTo False (PLString ''Ab'') (PLString ''aB'') \<and> WMIsPropListEqualTo False (PLString ''aB'') (PLString ''Ab'')"
proof -
  have "WMIsPropListEqualTo False (PLString ''Ab'') (PLString ''aB'')" by code_simp
  then show ?thesis
    using plist_equality_equivalence [of False "PLString ''Ab''" "PLString ''aB''" "PLString ''Ab''"] by auto
qed

text \<open>
  C8: merging gives a valid dictionary that has for every key the value of \<open>source\<close>, where it has
  one, and the value of \<open>dest\<close> elsewhere; with \<open>recursive\<close>, a key under which both have a
  dictionary gets the two merged. The result is \<open>dest\<close> itself, and NULL if one argument is not a
  dictionary.
\<close>

theorem merge_bindings:
  assumes "valid_plist cs dest" "valid_plist cs source"
  shows "(WMIsPLDictionary dest \<and> WMIsPLDictionary source \<longrightarrow>
      (\<exists>d. WMMergePLDictionaries cs False dest source recursive = Some (d, Some d) \<and>
        WMIsPLDictionary d \<and> valid_plist cs d \<and>
        (\<forall>l. is_key l \<longrightarrow> WMGetFromPLDictionary cs d l =
           merged cs recursive (WMGetFromPLDictionary cs dest l) (WMGetFromPLDictionary cs source l)))) \<and>
    (\<not> (WMIsPLDictionary dest \<and> WMIsPLDictionary source) \<longrightarrow>
      WMMergePLDictionaries cs same dest source recursive = Some (dest, NULL))"
proof -
  have "\<exists>d. WMMergePLDictionaries cs False dest source recursive = Some (d, Some d) \<and>
        WMIsPLDictionary d \<and> valid_plist cs d \<and>
        (\<forall>l. is_key l \<longrightarrow> WMGetFromPLDictionary cs d l =
           merged cs recursive (WMGetFromPLDictionary cs dest l) (WMGetFromPLDictionary cs source l))"
    if "dest = PLDictionary d" "source = PLDictionary t" for d t
  proof -
    have v: "valid_dict cs d" "valid_dict cs t" using assms that by simp_all
    obtain u where u: "merge_loop cs recursive d (concat (tTable t)) = Some u" "valid_dict cs u"
      "\<forall>l. is_key l \<longrightarrow> lookup cs u l = merged cs recursive (lookup cs d l) (binding cs (concat (tTable t)) l)"
      using merge_ok(2) [OF v(1) table_items_good(1) [OF v(2)]] by blast
    show ?thesis
      unfolding that using u table_items_good(2) [OF v(2)]
      by (intro exI [of _ "PLDictionary u"])
        (auto simp: WMMergePLDictionaries_def WMIsPLDictionary_def WMGetFromPLDictionary_def simp del: valid_plist.simps)
  qed
  then show ?thesis by (auto simp: is_dictionary_iff WMMergePLDictionaries_def)
qed

theorem merge_bindings_witness:
  "\<exists>d. WMMergePLDictionaries True False (PLDictionary WMCreateHashTable)
       (PLDictionary (put_key True WMCreateHashTable (PLString ''a'') (PLString ''x''))) True = Some (d, Some d) \<and>
     WMGetFromPLDictionary True d (PLString ''a'') = Some (PLString ''x'')"
proof -
  have "lookup True (put_key True WMCreateHashTable (PLString ''a'') (PLString ''x'')) (PLString ''a'') = Some (PLString ''x'')"
    using lookup_put [OF empty_table(1), of "PLString ''a''" "PLString ''a''" True] by (simp add: strings_equal_def)
  then show ?thesis
    using merge_bindings [OF empty_table(1) example_dictionaries, of True True]
    by (auto simp: WMGetFromPLDictionary_def WMIsPLDictionary_def merged_def empty_table(2) simp del: valid_plist.simps)
qed

text \<open>
  subtracting removes the keys under which the two dictionaries have equal values and no other;
  with \<open>recursive\<close>, a key under which they have different dictionaries gets their difference. A
  dictionary subtracted from itself has no bindings left.
\<close>

theorem subtract_bindings:
  assumes "valid_plist cs (PLDictionary d)" "valid_plist cs (PLDictionary t)" "is_key l"
  shows "(\<exists>u. WMSubtractPLDictionaries cs False (PLDictionary d) (PLDictionary t) recursive = Some (u, Some u) \<and>
      WMIsPLDictionary u \<and> valid_plist cs u \<and>
      WMGetFromPLDictionary cs u l = subtracted cs recursive (lookup cs d l) (lookup cs t l)) \<and>
    (\<exists>u. WMSubtractPLDictionaries cs True (PLDictionary d) (PLDictionary d) recursive = Some (u, Some u) \<and>
      WMIsPLDictionary u \<and> valid_plist cs u \<and> WMGetFromPLDictionary cs u l = NULL)"
proof
  obtain u where u: "subtract_loop cs recursive d (concat (tTable t)) = Some u" "valid_dict cs u"
    "\<forall>l. is_key l \<longrightarrow> lookup cs u l = subtracted cs recursive (lookup cs d l) (binding cs (concat (tTable t)) l)"
    using subtract_ok(2) [OF assms(1) table_items_good(1) [OF assms(2)]] by blast
  show "\<exists>u. WMSubtractPLDictionaries cs False (PLDictionary d) (PLDictionary t) recursive = Some (u, Some u) \<and>
      WMIsPLDictionary u \<and> valid_plist cs u \<and>
      WMGetFromPLDictionary cs u l = subtracted cs recursive (lookup cs d l) (lookup cs t l)"
    using u table_items_good(2) [OF assms(2,3)] assms(3)
    by (intro exI [of _ "PLDictionary u"])
      (auto simp: WMSubtractPLDictionaries_def WMIsPLDictionary_def WMGetFromPLDictionary_def simp del: valid_plist.simps)
next
  have fold: "\<exists>u. fold (\<lambda>k dest. WMRemoveFromPLDictionary cs dest k) ks (PLDictionary s) = PLDictionary u \<and> valid_dict cs u \<and>
      lookup cs u l = (if \<exists>k \<in> set ks. WMIsPropListEqualTo cs l k then NULL else lookup cs s l)"
    if "valid_dict cs s" "\<forall>k \<in> set ks. is_key k" for ks s
    using that
  proof (induction ks arbitrary: s)
    case (Cons k ks)
    have "\<exists>u. fold (\<lambda>k dest. WMRemoveFromPLDictionary cs dest k) ks (PLDictionary (remove_key cs s k)) = PLDictionary u \<and> valid_dict cs u \<and>
      lookup cs u l = (if \<exists>k \<in> set ks. WMIsPropListEqualTo cs l k then NULL else lookup cs (remove_key cs s k) l)"
      by (rule Cons.IH [OF valid_remove]) (use Cons.prems in auto)
    then show ?case
      using lookup_remove [OF Cons.prems(1) _ assms(3), of k] Cons.prems(2) by (auto simp: WMRemoveFromPLDictionary_def)
  qed simp
  note wf = valid_dict_wf [OF assms(1)]
  have keys: "WMGetPLDictionaryKeys (PLDictionary d) = Some (PLArray (map itemKey (items_of d)))"
    using enumeration_items [OF wf] by (simp add: WMGetPLDictionaryKeys_def comp_def del: enum_loop.simps)
  obtain u where u: "fold (\<lambda>k dest. WMRemoveFromPLDictionary cs dest k) (map itemKey (items_of d)) (PLDictionary d) = PLDictionary u"
    "valid_dict cs u" "lookup cs u l = (if \<exists>k \<in> set (map itemKey (items_of d)). WMIsPropListEqualTo cs l k then NULL else lookup cs d l)"
    using fold [OF assms(1), of "map itemKey (items_of d)"] item_key [OF wf] by auto
  have "lookup cs u l = NULL"
  proof (cases "lookup cs d l")
    case (Some v)
    then have "plist_map cs d l = Some (Some v)" using plist_map_lookup [OF assms(1,3)] by simp
    then show ?thesis using u(3) plist_map_iff [OF wf assms(3)] by auto
  qed (use u(3) in simp)
  then show "\<exists>u. WMSubtractPLDictionaries cs True (PLDictionary d) (PLDictionary d) recursive = Some (u, Some u) \<and>
      WMIsPLDictionary u \<and> valid_plist cs u \<and> WMGetFromPLDictionary cs u l = NULL"
    using u(1,2) keys
    by (simp add: WMSubtractPLDictionaries_def WMIsPLDictionary_def WMGetFromPLDictionary_def Let_def del: valid_plist.simps)
qed

theorem subtract_bindings_witness:
  "\<exists>u. WMSubtractPLDictionaries True True (PLDictionary (put_key True WMCreateHashTable (PLString ''a'') (PLString ''x'')))
       (PLDictionary (put_key True WMCreateHashTable (PLString ''a'') (PLString ''x''))) False = Some (u, Some u) \<and>
     WMGetFromPLDictionary True u (PLString ''a'') = NULL"
  using subtract_bindings [OF example_dictionaries empty_table(1), of "PLString ''a''" True False] by auto

text \<open>the deep and the shallow copy of a valid value are valid and equal to it.\<close>

theorem copies_equal:
  assumes "valid_plist cs p"
  shows "(\<exists>q. WMDeepCopyPropList cs p = Some q \<and> valid_plist cs q \<and> WMIsPropListEqualTo cs p q) \<and>
    (\<exists>q. WMShallowCopyPropList cs p = Some q \<and> valid_plist cs q \<and> WMIsPropListEqualTo cs p q)"
proof
  show "\<exists>q. WMDeepCopyPropList cs p = Some q \<and> valid_plist cs q \<and> WMIsPropListEqualTo cs p q"
    by (rule deep_copy_ok(1) [OF assms])
  show "\<exists>q. WMShallowCopyPropList cs p = Some q \<and> valid_plist cs q \<and> WMIsPropListEqualTo cs p q"
  proof (cases p)
    case (PLDictionary t)
    then obtain u where "shallow_loop cs (concat (tTable t)) WMCreateHashTable = Some u" "copied cs (concat (tTable t)) WMCreateHashTable u"
      using shallow_loop_ok table_items_good(1) empty_table assms by blast
    then show ?thesis
      using copied_table assms PLDictionary
      by (auto simp: WMShallowCopyPropList_def simp del: WMIsPropListEqualTo.simps valid_plist.simps)
  qed (use assms plist_equal_refl [OF assms] WMCreatePLString_valid in \<open>auto simp: WMShallowCopyPropList_def\<close>)
qed

theorem copies_equal_witness:
  "\<exists>q. WMDeepCopyPropList True (PLArray [PLString ''a'', PLData [1, 2]]) = Some q \<and>
     WMIsPropListEqualTo True (PLArray [PLString ''a'', PLData [1, 2]]) q"
  using copies_equal [of True "PLArray [PLString ''a'', PLData [1, 2]]"] by auto

text \<open>
  the operations keep values well-formed: whatever the types of their arguments, the list they
  change stays a value whose dictionaries are well-formed tables with string or data keys and without
  NULL, with strings that end at their first NUL.
\<close>

theorem operations_keep_valid:
  assumes "valid_plist cs p" "valid_plist cs q" "valid_plist cs k" "is_key k"
  shows "valid_plist cs (WMPutInPLDictionary cs p k q) \<and> valid_plist cs (WMRemoveFromPLDictionary cs p k) \<and>
    valid_plist cs (WMInsertInPLArray p i q) \<and> valid_plist cs (WMAddToPLArray p q) \<and>
    valid_plist cs (WMDeleteFromPLArray p i) \<and> valid_plist cs (WMRemoveFromPLArray cs p q) \<and>
    (case WMMergePLDictionaries cs False p q r of None \<Rightarrow> False | Some (d, _) \<Rightarrow> valid_plist cs d) \<and>
    (case WMSubtractPLDictionaries cs False p q r of None \<Rightarrow> False | Some (d, _) \<Rightarrow> valid_plist cs d)"
proof -
  have del: "set (delete_nth j xs) \<subseteq> set xs" for j and xs :: "W_PropList list"
    by (auto simp: delete_nth_def dest: in_set_takeD in_set_dropD)
  have rem: "set (remove_loop cs q j xs) \<subseteq> set xs" for j xs
  proof (induction cs q j xs rule: remove_loop.induct)
    case (1 cs q j xs)
    then show ?case using del by (subst remove_loop.simps) (simp del: WMIsPropListEqualTo.simps)
  qed
  obtain w where "merge_values cs r p q = Some w" "valid_plist cs w" using merge_ok(1) [OF assms(1,2)] by blast
  moreover obtain z where "subtract_values cs r p q = Some z" "valid_plist cs z" using subtract_ok(1) [OF assms(1,2)] by blast
  ultimately have "(case WMMergePLDictionaries cs False p q r of None \<Rightarrow> False | Some (d, _) \<Rightarrow> valid_plist cs d) \<and>
    (case WMSubtractPLDictionaries cs False p q r of None \<Rightarrow> False | Some (d, _) \<Rightarrow> valid_plist cs d)"
    using assms(1) by (simp add: WMMergePLDictionaries_def WMSubtractPLDictionaries_def)
  moreover have "valid_plist cs (WMPutInPLDictionary cs p k q)" "valid_plist cs (WMRemoveFromPLDictionary cs p k)"
    using valid_put [OF _ assms(4,3,2)] valid_remove [OF _ assms(4)] assms(1)
    by (auto simp add: WMPutInPLDictionary_def WMRemoveFromPLDictionary_def simp del: valid_plist.simps split: W_PropList.split)
  moreover have "valid_plist cs (WMInsertInPLArray p i q)" "valid_plist cs (WMAddToPLArray p q)"
  proof -
    have "valid_plist cs (PLArray (take j xs @ q # drop j xs))" if "p = PLArray xs" for j xs
      using assms(1,2) that by (auto dest: in_set_takeD in_set_dropD)
    then show "valid_plist cs (WMInsertInPLArray p i q)"
      using assms(1) by (auto simp: WMInsertInPLArray_def simp del: valid_plist.simps split: W_PropList.split)
    show "valid_plist cs (WMAddToPLArray p q)"
      using assms(1,2) by (cases p) (auto simp: WMAddToPLArray_def simp del: valid_plist.simps(4))
  qed
  moreover have "valid_plist cs (WMDeleteFromPLArray p i)" "valid_plist cs (WMRemoveFromPLArray cs p q)"
  proof -
    have array: "valid_plist cs (PLArray ys)" if "set ys \<subseteq> set xs" "p = PLArray xs" for xs ys
      using assms(1) that by auto
    show "valid_plist cs (WMDeleteFromPLArray p i)"
      using assms(1) array [OF del] by (auto simp: WMDeleteFromPLArray_def simp del: valid_plist.simps split: W_PropList.split option.split)
    show "valid_plist cs (WMRemoveFromPLArray cs p q)"
      using assms(1) array [OF rem] by (auto simp: WMRemoveFromPLArray_def simp del: valid_plist.simps split: W_PropList.split)
  qed
  ultimately show ?thesis by blast
qed

theorem operations_keep_valid_witness:
  "valid_plist True (WMPutInPLDictionary True (PLDictionary WMCreateHashTable) (PLString ''a'') (PLArray []))"
  using operations_keep_valid [OF empty_table(1), of True "PLArray []" "PLString ''a''"] by simp

section \<open>What the parser makes\<close>

text \<open>Every text that parses gives a well-formed value.\<close>

lemma created_string [simp]: "is_key (WMCreatePLString s)" "valid_plist cs (WMCreatePLString s)"
  by (simp_all add: WMCreatePLString_def c_string_def) (metis (mono_tags, lifting) set_takeWhileD)

lemma leaf_valid:
  "getPLString s = (Some p, s') \<Longrightarrow> valid_plist cs p \<and> is_key p"
  "getPLQString s = (Some p, s') \<Longrightarrow> valid_plist cs p \<and> is_key p"
  "getPLData s = (Some p, s') \<Longrightarrow> valid_plist cs p \<and> is_key p"
  "getPLKey c s = (Some p, s') \<Longrightarrow> valid_plist cs p \<and> is_key p"
proof -
  show s: "getPLString s = (Some p, s') \<Longrightarrow> valid_plist cs p \<and> is_key p" for s
    by (auto simp: getPLString_def split: prod.splits if_splits)
  show q: "getPLQString s = (Some p, s') \<Longrightarrow> valid_plist cs p \<and> is_key p"
    by (auto simp: getPLQString_def split: prod.splits if_splits)
  show d: "getPLData s = (Some p, s') \<Longrightarrow> valid_plist cs p \<and> is_key p"
    by (auto simp: getPLData_def split: prod.splits)
  show "getPLKey c s = (Some p, s') \<Longrightarrow> valid_plist cs p \<and> is_key p"
    using s q d by (auto simp: getPLKey_def split: if_splits)
qed

lemma empty_table_valid: "valid_plist cs (PLDictionary WMCreateHashTable)"
  by (simp add: plist_keys.WMCreateHashTable_wf) (simp add: WMCreateHashTable_def)

lemma parsed_valid:
  "getPropList n cs s = Some (Some p, s') \<Longrightarrow> valid_plist cs p"
  "getPLArray n cs first array s = Some (Some p, s') \<Longrightarrow> \<forall>x \<in> set array. valid_plist cs x \<Longrightarrow> valid_plist cs p"
  "getPLDictionary n cs dict s = Some (Some p, s') \<Longrightarrow> valid_plist cs (PLDictionary dict) \<Longrightarrow> valid_plist cs p"
proof (induction n arbitrary: s p s' first array dict)
  case 0
  { case 1 then show ?case by (simp add: getPropList.simps)
  next case 2 then show ?case by (simp add: getPLArray.simps)
  next case 3 then show ?case by (simp add: getPLDictionary.simps) }
next
  case (Suc n)
  { case 1
    then show ?case
      using Suc(2) [of True "[]"] Suc(3) [of WMCreateHashTable] empty_table_valid [of cs] leaf_valid
      by (auto simp: getPropList.simps(2) Let_def simp del: valid_plist.simps(4) split: prod.splits if_splits)
  next
    case 2
    then show ?case
      using Suc(1) Suc(2)
      by (fastforce simp: getPLArray.simps(2) Let_def split: prod.splits if_splits option.splits)
  next
    case 3
    obtain c s1 where c: "getNonSpaceChar s = (c, s1)" by fastforce
    show ?case
    proof (cases "c = CHR ''}''")
      case True
      then show ?thesis using 3 c by (simp add: getPLDictionary.simps(2))
    next
      case False
      then have "\<exists>k v s2 s5. getPLKey c s1 = (Some k, s2) \<and> (\<exists>s3 s4. getPropList n cs s3 = Some (Some v, s4)) \<and>
          getPLDictionary n cs (put_key cs dict k v) s5 = Some (Some p, s')"
        using 3(1) c
        by (simp add: getPLDictionary.simps(2) Let_def split: prod.splits if_splits option.splits) metis+
      then obtain k v s2 s5 s3 s4 where k: "getPLKey c s1 = (Some k, s2)" "getPropList n cs s3 = Some (Some v, s4)"
        "getPLDictionary n cs (put_key cs dict k v) s5 = Some (Some p, s')" by blast
      then show ?thesis
        using Suc(3) [OF k(3)] valid_put [OF 3(2)] leaf_valid(4) [OF k(1)] Suc(1) [OF k(2)] by blast
    qed }
qed

lemma description_valid:
  assumes "WMCreatePropListFromDescription cs desc = Some (Some p, s)"
  shows "valid_plist cs p"
  using assms parsed_valid(1) by (auto simp: WMCreatePropListFromDescription_def Let_def split: option.splits prod.splits if_splits)

lemma file_valid:
  "WMReadPropListFromFile cs data = Some (Some p, r) \<Longrightarrow> valid_plist cs p"
  using description_valid by (auto simp: WMReadPropListFromFile_def split: option.splits if_splits)

text \<open>
  C9: Whatever the text is, the value that the parser makes of it is well formed: no NUL in a string, keys of dictionaries
  that are strings or data and occur once, a hash table whose invariant holds. So is a value read from
  a file. Printed again, the value is parsed to an equal one, unless it has a string with a dollar sign that is
  printed without quotes: then the parser rejects the print.
\<close>

theorem parsed_values_valid:
  assumes "WMCreatePropListFromDescription cs desc = Some (Some p, s)"
  shows "valid_plist cs p \<and>
    (if readable p
     then \<exists>q s'. WMCreatePropListFromDescription cs (WMGetPropListDescription p indented) = Some (Some q, s') \<and> WMIsPropListEqualTo cs p q
     else \<exists>s'. WMCreatePropListFromDescription cs (WMGetPropListDescription p indented) = Some (NULL, s'))"
  using description_valid [OF assms] description_reads_back [of cs p indented] unreadable_fails [of cs p indented "[]"]
  by (auto split: if_splits)

theorem parsed_values_valid_witness:
  "\<exists>p s. WMCreatePropListFromDescription True (WMGetPropListDescription example_plist True) = Some (Some p, s) \<and>
     valid_plist True p"
  using description_reads_back [OF example_valid, of True] parsed_values_valid by blast

end
