(* ===== verification/WMStrings.thy ===== *)
theory WMStrings
  imports WMPlistText
begin

text \<open>
  \<open>WMcore/string.c\<close>: the tokenizer of command lines and its inverse, trimming, bounded
  concatenation and shell quoting. A string is the list of its characters before the NUL; the
  buffers of \<open>wstrlcat\<close> and \<open>wstrlcpy\<close> are blocks of characters, \<open>None\<close> is an invalid access.
  The predicate \<open>isspace\<close> comes from the property list theories.
\<close>

abbreviation (input) SQUOTE :: char where "SQUOTE \<equiv> CHR 0x27"
abbreviation (input) BACKSLASH :: char where "BACKSLASH \<equiv> CHR 0x5C"
abbreviation (input) DQUOTE' :: char where "DQUOTE' \<equiv> CHR 0x22"
abbreviation (input) EOS :: char where "EOS \<equiv> CHR 0x00"

section \<open>The tokenizer\<close>

text \<open>The classes of characters and the transition table, as (next state, output) pairs.\<close>

definition PRC_ALPHA :: nat where "PRC_ALPHA = 0"
definition PRC_BLANK :: nat where "PRC_BLANK = 1"
definition PRC_ESCAPE :: nat where "PRC_ESCAPE = 2"
definition PRC_DQUOTE :: nat where "PRC_DQUOTE = 3"
definition PRC_EOS :: nat where "PRC_EOS = 4"
definition PRC_SQUOTE :: nat where "PRC_SQUOTE = 5"

record DFA =
  nstate :: int
  outp :: int

abbreviation (input) D :: "int \<Rightarrow> int \<Rightarrow> DFA" where "D s x \<equiv> \<lparr>nstate = s, outp = x\<rparr>"

definition mtable :: "DFA list list" where
  "mtable =
     [[D 3 1, D 0 0, D 4 0, D 1 0, D 8 0, D 6 0],
      [D 1 1, D 1 1, D 2 0, D 3 0, D 5 0, D 1 1],
      [D 1 1, D 1 1, D 1 1, D 1 1, D 5 0, D 1 1],
      [D 3 1, D 5 0, D 4 0, D 1 0, D 5 0, D 6 0],
      [D 3 1, D 3 1, D 3 1, D 3 1, D 5 0, D 3 1],
      [D (-1) (-1), D 0 0, D 0 0, D 0 0, D 0 0, D 0 0],
      [D 6 1, D 6 1, D 7 0, D 6 1, D 5 0, D 3 0],
      [D 6 1, D 6 1, D 6 1, D 6 1, D 5 0, D 6 1],
      [D (-1) (-1), D 0 0, D 0 0, D 0 0, D 0 0, D 0 0]]"

definition char_class :: "char \<Rightarrow> nat" where
  "char_class c =
     (if c = EOS then PRC_EOS
      else if c = BACKSLASH then PRC_ESCAPE
      else if c = DQUOTE' then PRC_DQUOTE
      else if c = SQUOTE then PRC_SQUOTE
      else if c = CHR '' '' \<or> c = CHR 0x09 then PRC_BLANK
      else PRC_ALPHA)"

definition final_state :: "nat \<Rightarrow> bool" where
  "final_state state \<longleftrightarrow> outp (mtable ! state ! 0) < 0"

text \<open>
  The loop: the characters collected, the class of the last character read and the text after it.
  Going on after the end of the text would read past the NUL: \<open>None\<close>.
\<close>

fun token_loop :: "string \<Rightarrow> nat \<Rightarrow> string \<Rightarrow> (string \<times> nat \<times> string) option" where
  "token_loop [] state t =
     (let e = mtable ! state ! PRC_EOS
      in if final_state (nat (nstate e)) then Some (if outp e \<noteq> 0 then t @ [EOS] else t, PRC_EOS, [])
         else None)"
| "token_loop (c # ptr) state t =
     (let ctype = char_class c;
          e = mtable ! state ! ctype;
          t' = (if outp e \<noteq> 0 then t @ [c] else t)
      in if final_state (nat (nstate e)) then Some (t', ctype, ptr)
         else token_loop ptr (nat (nstate e)) t')"

text \<open>The token (NULL when it is empty) and the rest of the text (NULL at its end).\<close>

definition wtokennext :: "string \<Rightarrow> (string ptr \<times> string ptr) option" where
  "wtokennext word = do {
     (ret, ctype, ptr) \<leftarrow> token_loop word 0 [];
     Some (if ret = [] then NULL else Some ret, if ctype = PRC_EOS then NULL else Some ptr) }"

lemma token_loop_shorter:
  "token_loop w st t = Some (ret, ctype, ptr) \<Longrightarrow>
   length ptr \<le> length w \<and> (ctype \<noteq> PRC_EOS \<longrightarrow> length ptr < length w)"
proof (induction w arbitrary: st t)
  case (Cons c w)
  let ?e = "mtable ! st ! char_class c" and ?t = "if outp (mtable ! st ! char_class c) \<noteq> 0 then t @ [c] else t"
  show ?case
  proof (cases "final_state (nat (nstate ?e))")
    case False
    then have "token_loop w (nat (nstate ?e)) ?t = Some (ret, ctype, ptr)"
      using Cons.prems by (simp add: Let_def)
    from Cons.IH [OF this] show ?thesis by auto
  qed (use Cons.prems in \<open>auto simp: Let_def\<close>)
qed (auto simp: Let_def split: if_splits)

function wtokensplit :: "string \<Rightarrow> string list option" where
  "wtokensplit line = do {
     (token, next) \<leftarrow> wtokennext line;
     (case token of
        None \<Rightarrow> Some []
      | Some tok \<Rightarrow>
          (case next of
             None \<Rightarrow> Some [tok]
           | Some line' \<Rightarrow> do { argv \<leftarrow> wtokensplit line'; Some (tok # argv) })) }"
  by pat_completeness auto
termination
  by (relation "measure length")
    (auto simp: wtokennext_def dest!: token_loop_shorter split: Option.bind_splits prod.splits if_splits)

declare wtokensplit.simps [simp del]

section \<open>Buffers of characters\<close>

text \<open>\<open>wstrlcat\<close>: the search of the end, the copying loop, the new buffer and the returned length.\<close>

fun find_end :: "char block \<Rightarrow> nat \<Rightarrow> nat \<Rightarrow> nat option" where
  "find_end dst d 0 = Some d"
| "find_end dst d (Suc n) = do {
     c \<leftarrow> cell_read dst (int d);
     (if c \<noteq> EOS then find_end dst (Suc d) n else Some d) }"

fun cat_loop :: "char block \<Rightarrow> nat \<Rightarrow> nat \<Rightarrow> string \<Rightarrow> (char block \<times> nat) option" where
  "cat_loop dst d n [] = Some (dst, d)"
| "cat_loop dst d n (c # s) =
     (if n \<noteq> 1 then do { dst' \<leftarrow> cell_write dst (int d) c; cat_loop dst' (Suc d) (n - 1) s }
      else cat_loop dst d n s)"

definition wstrlcat :: "char block \<Rightarrow> string \<Rightarrow> nat \<Rightarrow> (char block \<times> nat) option" where
  "wstrlcat dst src siz = do {
     dlen \<leftarrow> find_end dst 0 siz;
     (if siz - dlen = 0 then Some (dst, dlen + length src)
      else do {
        (dst', d) \<leftarrow> cat_loop dst dlen (siz - dlen) src;
        dst'' \<leftarrow> cell_write dst' (int d) EOS;
        Some (dst'', dlen + length src) }) }"

text \<open>
  \<open>wstrlcpy\<close>: the first loop writes at most \<open>n\<close> characters, counting the NUL; it says
  whether it stopped at the NUL, and where.
\<close>

fun cpy_loop :: "char block \<Rightarrow> nat \<Rightarrow> nat \<Rightarrow> string \<Rightarrow> (char block \<times> nat \<times> bool) option" where
  "cpy_loop dst d 0 s = Some (dst, d, False)"
| "cpy_loop dst d (Suc n) [] = do { dst' \<leftarrow> cell_write dst (int d) EOS; Some (dst', Suc d, True) }"
| "cpy_loop dst d (Suc n) (c # s) = do {
     dst' \<leftarrow> cell_write dst (int d) c;
     cpy_loop dst' (Suc d) n s }"

definition wstrlcpy :: "char block \<Rightarrow> string \<Rightarrow> nat \<Rightarrow> (char block \<times> nat) option" where
  "wstrlcpy dst src siz =
     (if siz = 0 then Some (dst, length src)
      else do {
        (dst', d, stopped) \<leftarrow> cpy_loop dst 0 (siz - 1) src;
        dst'' \<leftarrow> (if stopped then Some dst' else cell_write dst' (int d) EOS);
        Some (dst'', length src) })"

text \<open>A buffer that holds a string, and the string read from a buffer.\<close>

definition holds :: "char block \<Rightarrow> string \<Rightarrow> bool" where
  "holds b s \<longleftrightarrow> EOS \<notin> set s \<and> (\<exists>junk. b = map Cell (s @ [EOS]) @ junk)"

fun read_string :: "char block \<Rightarrow> string option" where
  "read_string [] = None"
| "read_string (Undef # b) = None"
| "read_string (Cell c # b) =
     (if c = EOS then Some [] else do { s \<leftarrow> read_string b; Some (c # s) })"

lemma read_string_holds: "holds b s \<Longrightarrow> read_string b = Some s"
proof -
  have "EOS \<notin> set s \<Longrightarrow> read_string (map Cell (s @ [EOS]) @ junk) = Some s" for junk
    by (induction s) auto
  then show "holds b s \<Longrightarrow> read_string b = Some s" by (auto simp: holds_def)
qed

section \<open>Copying and joining strings\<close>

definition wstrdup :: "string \<Rightarrow> string" where
  "wstrdup str = str"

definition wstrndup :: "string \<Rightarrow> nat \<Rightarrow> string" where
  "wstrndup str len = take (min len (length str)) str"

text \<open>The outer option is undefined behaviour, the inner one the C pointer.\<close>

definition wstrconcat :: "string ptr \<Rightarrow> string ptr \<Rightarrow> string ptr option" where
  "wstrconcat str1 str2 =
     (case (str1, str2) of
        (None, Some s2) \<Rightarrow> Some (Some (wstrdup s2))
      | (Some s1, None) \<Rightarrow> Some (Some (wstrdup s1))
      | (None, None) \<Rightarrow> Some NULL
      | (Some s1, Some s2) \<Rightarrow> do {
          let slen = length s1 + length s2 + 1;
          (str, n) \<leftarrow> wstrlcpy (wmalloc_block EOS (int slen)) s1 slen;
          (if n \<ge> slen then Some NULL
           else do {
             (str', n') \<leftarrow> wstrlcat str s2 slen;
             (if n' \<ge> slen then Some NULL
              else do { s \<leftarrow> read_string str'; Some (Some s) }) }) })"

definition wstrappend :: "string ptr \<Rightarrow> string ptr \<Rightarrow> string ptr" where
  "wstrappend dst src =
     (case src of
        None \<Rightarrow> dst
      | Some s \<Rightarrow> if s = [] then dst
                  else (case dst of None \<Rightarrow> Some (wstrdup s) | Some d \<Rightarrow> Some (d @ s)))"

text \<open>\<open>strpbrk(s, " \t")\<close>.\<close>

definition has_blank :: "string \<Rightarrow> bool" where
  "has_blank s \<longleftrightarrow> (\<exists>c \<in> set s. c = CHR '' '' \<or> c = CHR 0x09)"

definition usable :: "string ptr \<Rightarrow> bool" where
  "usable p \<longleftrightarrow> (case p of None \<Rightarrow> False | Some s \<Rightarrow> s \<noteq> [])"

fun join_size :: "string ptr list \<Rightarrow> nat" where
  "join_size [] = 0"
| "join_size (p # ps) =
     (if usable p then length (the p) + (if has_blank (the p) then 2 else 0) else 0) + join_size ps"

text \<open>The appending steps of \<open>wtokenjoin\<close>; \<open>None\<close> inside is the jump to \<open>error\<close>.\<close>

definition append_to :: "nat \<Rightarrow> char block \<Rightarrow> string \<Rightarrow> char block option option" where
  "append_to siz b s = do {
     (b', n) \<leftarrow> wstrlcat b s siz;
     Some (if n \<ge> siz then None else Some b') }"

fun append_all :: "nat \<Rightarrow> char block \<Rightarrow> string list \<Rightarrow> char block option option" where
  "append_all siz b [] = Some (Some b)"
| "append_all siz b (s # ss) = do {
     r \<leftarrow> append_to siz b s;
     (case r of None \<Rightarrow> Some None | Some b' \<Rightarrow> append_all siz b' ss) }"

fun join_loop :: "nat \<Rightarrow> nat \<Rightarrow> string ptr list \<Rightarrow> char block \<Rightarrow> char block option option" where
  "join_loop siz i [] b = Some (Some b)"
| "join_loop siz i (p # ps) b =
     (if usable p
      then do {
        r \<leftarrow> append_all siz b
               ((if i > 0 then ['' ''] else []) @ (if has_blank (the p) then [[DQUOTE']] else []) @
                [the p] @ (if has_blank (the p) then [[DQUOTE']] else []));
        (case r of None \<Rightarrow> Some None | Some b' \<Rightarrow> join_loop siz (Suc i) ps b') }
      else join_loop siz (Suc i) ps b)"

definition wtokenjoin :: "string ptr list \<Rightarrow> string ptr option" where
  "wtokenjoin list = do {
     let siz = join_size list + length list + 1;
     r \<leftarrow> join_loop siz 0 list (wmalloc_block EOS (int siz));
     (case r of None \<Rightarrow> Some NULL | Some b \<Rightarrow> do { s \<leftarrow> read_string b; Some (Some s) }) }"

section \<open>Trimming and quoting\<close>

text \<open>The loop \<open>while (t > s && isspace( *t)) t--\<close> on the index of the last character.\<close>

fun trim_end :: "string \<Rightarrow> nat \<Rightarrow> nat" where
  "trim_end s 0 = 0"
| "trim_end s (Suc t) = (if isspace (s ! Suc t) then trim_end s t else Suc t)"

definition wtrimspace :: "string ptr \<Rightarrow> string ptr" where
  "wtrimspace s =
     (case s of
        None \<Rightarrow> NULL
      | Some str \<Rightarrow>
          (let s' = dropWhile (\<lambda>c. isspace c \<and> c \<noteq> EOS) str
           in Some (if s' = [] then wstrndup s' 0 else wstrndup s' (trim_end s' (length s' - 1) + 1))))"

text \<open>The characters that need no quoting.\<close>

definition shell_safe :: "char \<Rightarrow> bool" where
  "shell_safe c \<longleftrightarrow> isalnum c \<or> c \<in> {CHR ''+'', CHR ''/'', CHR ''.'', CHR '','', CHR ''-''}"

text \<open>
  The loop of \<open>wshellquote\<close>: \<open>start\<close> says that \<open>p\<close> is at the start of the string, the result also
  says whether \<open>last\<close> points to a single quote.
\<close>

function quote_loop :: "bool \<Rightarrow> string \<Rightarrow> bool \<Rightarrow> string \<times> bool" where
  "quote_loop start [] lq = ([], lq)"
| "quote_loop start (c # p) lq =
     (if c = SQUOTE
      then (let quotes = takeWhile (\<lambda>c. c = SQUOTE) p;
                rest = dropWhile (\<lambda>c. c = SQUOTE) p;
                (r, lq') = quote_loop False rest True
            in ((if start then [] else [SQUOTE]) @ [BACKSLASH, SQUOTE] @
                concat (map (\<lambda>_. [BACKSLASH, SQUOTE]) quotes) @
                (if rest \<noteq> [] then [SQUOTE] else []) @ r, lq'))
      else (let (r, lq') = quote_loop False p False in (c # r, lq')))"
  by pat_completeness auto
termination
  by (relation "measure (\<lambda>(start, p, lq). length p)") (auto simp: length_dropWhile_le less_Suc_eq_le)

definition wshellquote :: "string ptr \<Rightarrow> string ptr" where
  "wshellquote s =
     (case s of
        None \<Rightarrow> NULL
      | Some str \<Rightarrow>
          (let needs_quoting = (str = [] \<or> (\<exists>c \<in> set str. \<not> shell_safe c))
           in if \<not> needs_quoting then Some (wstrdup str)
              else (let (r, lq) = quote_loop True str False
                    in Some ((if str \<noteq> [] \<and> hd str = SQUOTE then [] else [SQUOTE]) @ r @
                             (if lq then [] else [SQUOTE])))))"

text \<open>The size of the buffer that \<open>wshellquote\<close> allocates.\<close>

definition shellquote_size :: "string \<Rightarrow> nat" where
  "shellquote_size s = sum_list (map (\<lambda>c. if c = SQUOTE then 4 else 1) s) + 3"

section \<open>The tokenizer is total\<close>

lemma transitions:
  "st \<in> {0, 1, 2, 3, 4, 6, 7} \<Longrightarrow> c < 6 \<Longrightarrow>
   nat (nstate (mtable ! st ! c)) \<in> {0, 1, 2, 3, 4, 6, 7} \<or> final_state (nat (nstate (mtable ! st ! c)))"
proof -
  have all: "\<forall>st \<in> {0, 1, 2, 3, 4, 6, 7}. \<forall>c \<in> {0, 1, 2, 3, 4, 5}.
      nat (nstate (mtable ! st ! c)) \<in> {0, 1, 2, 3, 4, 6, 7} \<or> final_state (nat (nstate (mtable ! st ! c)))"
    by code_simp
  assume st: "st \<in> {0, 1, 2, 3, 4, 6, 7}" and "c < 6"
  then have c: "c \<in> {0, 1, 2, 3, 4, 5}" by auto
  show ?thesis by (rule bspec [OF bspec [OF all st] c])
qed

lemma transitions_eos:
  "st \<in> {0, 1, 2, 3, 4, 6, 7} \<Longrightarrow> final_state (nat (nstate (mtable ! st ! PRC_EOS))) \<and> outp (mtable ! st ! PRC_EOS) = 0"
proof -
  have "\<forall>st \<in> {0, 1, 2, 3, 4, 6, 7}. final_state (nat (nstate (mtable ! st ! PRC_EOS))) \<and>
      outp (mtable ! st ! PRC_EOS) = 0" by code_simp
  then show "st \<in> {0, 1, 2, 3, 4, 6, 7} \<Longrightarrow> ?thesis" by (rule bspec)
qed

lemma char_class_less: "char_class c < 6"
  by (simp add: char_class_def PRC_EOS_def PRC_ESCAPE_def PRC_DQUOTE_def PRC_SQUOTE_def PRC_BLANK_def PRC_ALPHA_def)

lemma token_loop_total:
  "st \<in> {0, 1, 2, 3, 4, 6, 7} \<Longrightarrow>
   \<exists>ret ctype ptr. token_loop w st t = Some (ret, ctype, ptr) \<and> length ret \<le> length t + length w"
proof (induction w arbitrary: st t)
  case Nil
  then show ?case using transitions_eos by (simp add: Let_def)
next
  case (Cons c w)
  let ?e = "mtable ! st ! char_class c"
  let ?t = "if outp ?e \<noteq> 0 then t @ [c] else t"
  show ?case
  proof (cases "final_state (nat (nstate ?e))")
    case True
    then show ?thesis by (simp add: Let_def)
  next
    case False
    then have "nat (nstate ?e) \<in> {0, 1, 2, 3, 4, 6, 7}"
      using transitions [OF Cons.prems char_class_less] by blast
    from Cons.IH [OF this, of ?t] False show ?thesis
      by (auto simp: Let_def split: if_splits)
  qed
qed

lemma wtokennext_total: "\<exists>tok next. wtokennext w = Some (tok, next)"
  using token_loop_total [of 0 w "[]"] by (auto simp: wtokennext_def)

lemma wtokennext_shorter:
  "wtokennext w = Some (tok, Some w') \<Longrightarrow> length w' < length w"
  by (auto simp: wtokennext_def dest!: token_loop_shorter split: Option.bind_splits if_splits)

lemma wtokensplit_total: "wtokensplit w \<noteq> None"
proof (induction w rule: measure_induct_rule [of length])
  case (less w)
  obtain tok nxt where t: "wtokennext w = Some (tok, nxt)" using wtokennext_total by blast
  show ?case
  proof (cases nxt)
    case None
    then show ?thesis using t by (subst wtokensplit.simps) (auto split: option.splits)
  next
    case (Some w')
    then have "wtokensplit w' \<noteq> None" using less wtokennext_shorter t by blast
    then show ?thesis using t Some by (subst wtokensplit.simps) (auto split: option.splits)
  qed
qed

section \<open>Tokens and their quoted texts\<close>

text \<open>The tokens that a command line can carry without escapes, and how \<open>wtokenjoin\<close> writes them.\<close>

definition plain_token :: "string \<Rightarrow> bool" where
  "plain_token t \<longleftrightarrow> t \<noteq> [] \<and> EOS \<notin> set t \<and> BACKSLASH \<notin> set t \<and> DQUOTE' \<notin> set t \<and>
     (has_blank t \<or> SQUOTE \<notin> set t)"

definition quoted :: "string \<Rightarrow> string" where
  "quoted t = (if has_blank t then [DQUOTE'] @ t @ [DQUOTE'] else t)"

lemma mtable_0: "mtable ! 0 ! PRC_ALPHA = \<lparr>nstate = 3, outp = 1\<rparr>" "mtable ! 0 ! PRC_DQUOTE = \<lparr>nstate = 1, outp = 0\<rparr>"
  "mtable ! 0 ! PRC_EOS = \<lparr>nstate = 8, outp = 0\<rparr>"
  by code_simp+

lemma mtable_1: "mtable ! 1 ! PRC_ALPHA = \<lparr>nstate = 1, outp = 1\<rparr>" "mtable ! 1 ! PRC_BLANK = \<lparr>nstate = 1, outp = 1\<rparr>"
  "mtable ! 1 ! PRC_SQUOTE = \<lparr>nstate = 1, outp = 1\<rparr>" "mtable ! 1 ! PRC_DQUOTE = \<lparr>nstate = 3, outp = 0\<rparr>"
  by code_simp+

lemma mtable_3: "mtable ! 3 ! PRC_ALPHA = \<lparr>nstate = 3, outp = 1\<rparr>" "mtable ! 3 ! PRC_BLANK = \<lparr>nstate = 5, outp = 0\<rparr>"
  "mtable ! 3 ! PRC_EOS = \<lparr>nstate = 5, outp = 0\<rparr>"
  by code_simp+

lemma finals: "\<not> final_state 0" "\<not> final_state 1" "\<not> final_state 3" "final_state 5" "final_state 8"
  by code_simp+

lemma char_class_cases:
  "char_class DQUOTE' = PRC_DQUOTE" "char_class (CHR '' '') = PRC_BLANK"
  "c \<notin> {EOS, BACKSLASH, DQUOTE', SQUOTE, CHR '' '', CHR 0x09} \<Longrightarrow> char_class c = PRC_ALPHA"
  "c \<notin> {EOS, BACKSLASH, DQUOTE'} \<Longrightarrow> char_class c \<in> {PRC_ALPHA, PRC_BLANK, PRC_SQUOTE}"
  by (auto simp: char_class_def)

lemma token_plain:
  "\<forall>c \<in> set u. char_class c = PRC_ALPHA \<Longrightarrow> token_loop (u @ r) 3 t = token_loop r 3 (t @ u)"
  by (induction u arbitrary: t) (simp_all add: mtable_3 finals Let_def)

lemma token_quoted:
  "\<forall>c \<in> set u. char_class c \<in> {PRC_ALPHA, PRC_BLANK, PRC_SQUOTE} \<Longrightarrow>
   token_loop (u @ r) 1 t = token_loop r 1 (t @ u)"
proof (induction u arbitrary: t)
  case (Cons c u)
  then have "mtable ! 1 ! char_class c = \<lparr>nstate = 1, outp = 1\<rparr>" using mtable_1 by auto
  then show ?case using Cons finals by (simp add: Let_def)
qed simp

text \<open>After the token the automaton is in state 3, with the token collected.\<close>

lemma token_read:
  assumes "plain_token t"
  shows "token_loop (quoted t @ r) 0 [] = token_loop r 3 t"
proof (cases "has_blank t")
  case True
  have "\<forall>c \<in> set t. char_class c \<in> {PRC_ALPHA, PRC_BLANK, PRC_SQUOTE}"
    by (intro ballI char_class_cases(4)) (use assms in \<open>auto simp: plain_token_def\<close>)
  from token_quoted [OF this, of "DQUOTE' # r" "[]"]
  have body: "token_loop (t @ DQUOTE' # r) 1 [] = token_loop (DQUOTE' # r) 1 t" by simp
  have first: "token_loop (DQUOTE' # t @ DQUOTE' # r) 0 [] = token_loop (t @ DQUOTE' # r) 1 []"
    by (simp only: token_loop.simps char_class_cases(1) mtable_0 Let_def DFA.simps) (simp add: finals(2) [simplified])
  have final: "token_loop (DQUOTE' # r) 1 t = token_loop r 3 t"
    by (simp only: token_loop.simps char_class_cases(1) mtable_1 Let_def DFA.simps) (simp add: finals)
  show ?thesis using True first body final by (simp add: quoted_def)
next
  case False
  have a: "char_class c = PRC_ALPHA" if "c \<in> set t" for c
    by (rule char_class_cases(3)) (use that False assms in \<open>auto simp: plain_token_def has_blank_def\<close>)
  obtain c u where t: "t = c # u" using assms by (cases t) (auto simp: plain_token_def)
  have "token_loop (t @ r) 0 [] = token_loop (u @ r) 3 [c]"
    using a [of c] t by (simp add: mtable_0 finals Let_def)
  also have "\<dots> = token_loop r 3 t" using token_plain [of u r "[c]"] a t by simp
  finally show ?thesis using False by (simp add: quoted_def)
qed

lemma wtokennext_token:
  assumes "plain_token t"
  shows "wtokennext (quoted t) = Some (Some t, NULL)"
    "wtokennext (quoted t @ CHR '' '' # r) = Some (Some t, Some r)"
proof -
  have ne: "t \<noteq> []" using assms by (simp add: plain_token_def)
  have "token_loop [] 3 t = Some (t, PRC_EOS, [])" by (simp add: mtable_3 finals Let_def)
  then show "wtokennext (quoted t) = Some (Some t, NULL)"
    using token_read [OF assms, of "[]"] ne by (simp add: wtokennext_def)
  have "token_loop (CHR '' '' # r) 3 t = Some (t, PRC_BLANK, r)"
    by (simp add: char_class_cases(2) mtable_3 finals Let_def)
  then show "wtokennext (quoted t @ CHR '' '' # r) = Some (Some t, Some r)"
    using token_read [OF assms, of "CHR '' '' # r"] ne by (simp add: wtokennext_def PRC_BLANK_def PRC_EOS_def)
qed

lemma wtokensplit_joined:
  "\<forall>t \<in> set ts. plain_token t \<Longrightarrow> wtokensplit (separate '' '' (map quoted ts)) = Some ts"
proof (induction ts rule: induct_list012)
  case 1
  show ?case by (subst wtokensplit.simps) (simp add: wtokennext_def mtable_0 finals Let_def)
next
  case (2 t)
  then show ?case by (subst wtokensplit.simps) (simp add: wtokennext_token)
next
  case (3 t u ts)
  then show ?case by (subst wtokensplit.simps) (simp add: wtokennext_token)
qed

section \<open>Bounded concatenation\<close>

lemma find_end_holds:
  "EOS \<notin> set s \<Longrightarrow> d \<le> length s \<Longrightarrow>
   find_end (map Cell (s @ [EOS]) @ junk) d n = Some (min (d + n) (length s))"
proof (induction n arbitrary: d)
  case (Suc n)
  have r: "cell_read (map Cell (s @ [EOS]) @ junk) (int d) = Some ((s @ [EOS]) ! d)"
    using cell_read_map_Cell [of "int d" "s @ [EOS]" junk] Suc.prems by simp
  show ?case
  proof (cases "d = length s")
    case False
    then have "(s @ [EOS]) ! d \<noteq> EOS" using Suc.prems by (metis nat_less_le nth_append nth_mem)
    then show ?thesis using r Suc.IH [of "Suc d"] Suc.prems False by (simp del: map_append)
  qed (use r in \<open>simp del: map_append\<close>)
qed simp

lemma cat_loop_prefix:
  "1 \<le> n \<Longrightarrow> n \<le> length rest \<Longrightarrow>
   cat_loop (map Cell p @ rest) (length p) n src =
     Some (map Cell (p @ take (n - 1) src) @ drop (length (take (n - 1) src)) rest,
           length p + length (take (n - 1) src))"
proof (induction src arbitrary: n p rest)
  case (Cons c src)
  show ?case
  proof (cases "n = 1")
    case False
    then obtain m where n: "n = Suc (Suc m)" using Cons.prems(1) by (metis One_nat_def Suc_le_D old.nat.exhaust)
    then obtain x rest' where rest: "rest = x # rest'" using Cons.prems(2) by (cases rest) auto
    have "cell_write (map Cell p @ rest) (int (length p)) c = Some (map Cell (p @ [c]) @ rest')"
      unfolding rest by (rule cell_write_end)
    then show ?thesis using Cons.IH [of "Suc m" rest' "p @ [c]"] Cons.prems n rest by simp
  qed (use Cons in simp)
qed simp

lemma wstrlcat_holds:
  assumes "holds b s" and "siz \<le> length b" and "EOS \<notin> set src"
  shows "\<exists>b'. wstrlcat b src siz = Some (b', min siz (length s) + length src) \<and> length b' = length b \<and>
    (if length s < siz then holds b' (s @ take (siz - 1 - length s) src) else b' = b)"
proof -
  obtain junk where s: "EOS \<notin> set s" and b: "b = map Cell (s @ [EOS]) @ junk"
    using assms(1) by (auto simp: holds_def)
  have e: "find_end b 0 siz = Some (min siz (length s))"
    unfolding b using find_end_holds [OF s, of 0 junk siz] by simp
  show ?thesis
  proof (cases "length s < siz")
    case True
    let ?n = "siz - length s" and ?rest = "Cell EOS # junk"
    let ?u = "take (?n - 1) src"
    have len: "?n \<le> length ?rest" "1 \<le> ?n" using True assms(2) by (simp_all add: b)
    have l: "cat_loop b (length s) ?n src = Some (map Cell (s @ ?u) @ drop (length ?u) ?rest, length (s @ ?u))"
      using cat_loop_prefix [of ?n ?rest s src] len by (simp add: b)
    have "length ?u < length ?rest" using len by simp
    then obtain x junk' where d: "drop (length ?u) ?rest = x # junk'" by (metis Cons_nth_drop_Suc)
    from arg_cong [OF d, of length] len have "length ?u + length junk' = length junk" by simp
    moreover have "cell_write (map Cell (s @ ?u) @ x # junk') (int (length (s @ ?u))) EOS =
        Some (map Cell ((s @ ?u) @ [EOS]) @ junk')" by (rule cell_write_end)
    moreover have "holds (map Cell ((s @ ?u) @ [EOS]) @ junk') (s @ ?u)"
      using s assms(3) by (auto simp: holds_def dest: in_set_takeD)
    ultimately show ?thesis using True e l d
      by (simp add: wstrlcat_def b del: map_append append_assoc)
  qed (use e in \<open>simp add: wstrlcat_def\<close>)
qed

lemma cpy_loop_prefix:
  "n < length rest \<Longrightarrow>
   \<exists>rest'. cpy_loop (map Cell p @ rest) (length p) n src =
     Some (map Cell (p @ take n src) @ rest', length p + (if length src < n then length src + 1 else n), length src < n) \<and>
     length rest' + length (take n src) = length rest \<and> (length src < n \<longrightarrow> (\<exists>r. rest' = Cell EOS # r))"
proof (induction n arbitrary: src p rest)
  case (Suc n)
  obtain x r where rest: "rest = x # r" using Suc.prems by (cases rest) auto
  have w: "cell_write (map Cell p @ rest) (int (length p)) c = Some (map Cell (p @ [c]) @ r)" for c
    unfolding rest by (rule cell_write_end)
  show ?case
  proof (cases src)
    case Nil
    then show ?thesis using w [of EOS] rest by simp
  next
    case (Cons c u)
    from Suc.IH [of r "p @ [c]" u] Suc.prems w [of c] Cons rest show ?thesis by auto
  qed
qed simp

lemma wstrlcpy_holds:
  assumes "0 < siz" and "siz \<le> length b" and "EOS \<notin> set src"
  shows "\<exists>b'. wstrlcpy b src siz = Some (b', length src) \<and> length b' = length b \<and> holds b' (take (siz - 1) src)"
proof -
  let ?n = "siz - 1"
  have n: "?n < length b" using assms by simp
  obtain rest' where l: "cpy_loop b 0 ?n src =
     Some (map Cell (take ?n src) @ rest', if length src < ?n then length src + 1 else ?n, length src < ?n)"
    and len: "length rest' + length (take ?n src) = length b"
    and stop: "length src < ?n \<longrightarrow> (\<exists>r. rest' = Cell EOS # r)"
    using cpy_loop_prefix [OF n, of "[]" src] by auto
  have no: "EOS \<notin> set (take ?n src)" using assms(3) by (meson in_set_takeD)
  show ?thesis
  proof (cases "length src < ?n")
    case True
    then obtain r where "rest' = Cell EOS # r" using stop by blast
    then show ?thesis using True l len assms(1) no by (auto simp: wstrlcpy_def holds_def)
  next
    case False
    then have "rest' \<noteq> []" using len n by auto
    then obtain x r where r: "rest' = x # r" by (cases rest') auto
    have "cell_write (map Cell (take ?n src) @ x # r) (int (length (take ?n src))) EOS =
        Some (map Cell (take ?n src @ [EOS]) @ r)" by (rule cell_write_end)
    then show ?thesis using False l len assms(1) no r
      by (simp add: wstrlcpy_def min_def split: if_splits) (auto simp: holds_def)
  qed
qed

lemma wstrconcat_both:
  assumes "EOS \<notin> set a" "EOS \<notin> set b"
  shows "wstrconcat (Some a) (Some b) = Some (Some (a @ b))"
proof -
  let ?n = "length a + length b + 1"
  obtain s where s: "wstrlcpy (wmalloc_block EOS (int ?n)) a ?n = Some (s, length a)" "length s = ?n" "holds s (take (?n - 1) a)"
    using wstrlcpy_holds [of ?n "wmalloc_block EOS (int ?n)" a] assms(1)
    by (auto simp: nat_add_distrib)
  then have h: "holds s a" by simp
  obtain s' where s': "wstrlcat s b ?n = Some (s', length a + length b)" "holds s' (a @ b)"
    using wstrlcat_holds [OF h, of ?n b] s(2) assms(2) by auto
  show ?thesis using s(1) s' read_string_holds [OF s'(2)] by (simp add: wstrconcat_def Let_def)
qed

section \<open>Joining\<close>

text \<open>The text that \<open>wtokenjoin\<close> builds, \<open>i\<close> tokens after the first.\<close>

definition token_text :: "nat \<Rightarrow> string \<Rightarrow> string" where
  "token_text i t = (if i > 0 then '' '' else []) @ quoted t"

fun join_text :: "nat \<Rightarrow> string ptr list \<Rightarrow> string" where
  "join_text i [] = []"
| "join_text i (p # ps) = (if usable p then token_text i (the p) else []) @ join_text (Suc i) ps"

lemma join_text_size: "length (join_text i ps) \<le> join_size ps + length ps"
proof (induction ps arbitrary: i)
  case (Cons p ps)
  from Cons.IH [of "Suc i"] show ?case by (cases i) (auto simp: token_text_def quoted_def)
qed simp

lemma append_all_holds:
  "holds b s \<Longrightarrow> length s + length (concat ss) < siz \<Longrightarrow> siz \<le> length b \<Longrightarrow> EOS \<notin> set (concat ss) \<Longrightarrow>
   \<exists>b'. append_all siz b ss = Some (Some b') \<and> holds b' (s @ concat ss) \<and> length b' = length b"
proof (induction ss arbitrary: b s)
  case (Cons u ss)
  obtain b1 where c: "wstrlcat b u siz = Some (b1, length s + length u)"
    and b1: "holds b1 (s @ u)" "length b1 = length b"
    using wstrlcat_holds [OF Cons.prems(1,3), of u] Cons.prems by (auto simp: min_def)
  obtain b' where "append_all siz b1 ss = Some (Some b')" "holds b' ((s @ u) @ concat ss)" "length b' = length b1"
    using Cons.IH [OF b1(1)] Cons.prems b1 by auto
  then show ?case using c b1 Cons.prems(2) by (auto simp: append_to_def)
qed simp

lemma join_loop_holds:
  "holds b s \<Longrightarrow> length s + length (join_text i ps) < siz \<Longrightarrow> siz \<le> length b \<Longrightarrow>
   \<forall>t. Some t \<in> set ps \<longrightarrow> EOS \<notin> set t \<Longrightarrow>
   \<exists>b'. join_loop siz i ps b = Some (Some b') \<and> holds b' (s @ join_text i ps)"
proof (induction ps arbitrary: b s i)
  case (Cons p ps)
  show ?case
  proof (cases "usable p")
    case True
    then obtain t where p: "p = Some t" by (auto simp: usable_def split: option.splits)
    let ?ss = "(if i > 0 then ['' ''] else []) @ (if has_blank t then [[DQUOTE']] else []) @
        [t] @ (if has_blank t then [[DQUOTE']] else [])"
    have ss: "concat ?ss = token_text i t" by (simp add: token_text_def quoted_def)
    have "EOS \<notin> set t" using Cons.prems(4) p by auto
    then have "EOS \<notin> set (token_text i t)" by (auto simp: token_text_def quoted_def)
    moreover have "length s + length (token_text i t) < siz" using Cons.prems(2) True p by simp
    ultimately obtain b1 where b1: "append_all siz b ?ss = Some (Some b1)" "holds b1 (s @ token_text i t)"
      "length b1 = length b"
      using append_all_holds [OF Cons.prems(1) _ Cons.prems(3), of ?ss] unfolding ss by blast
    obtain b' where "join_loop siz (Suc i) ps b1 = Some (Some b')"
      "holds b' ((s @ token_text i t) @ join_text (Suc i) ps)"
      using Cons.IH [OF b1(2), of "Suc i"] Cons.prems b1(3) True p by auto
    then show ?thesis using True p b1(1) by auto
  qed (use Cons in auto)
qed simp

lemma wtokenjoin_text:
  assumes "\<forall>t. Some t \<in> set ps \<longrightarrow> EOS \<notin> set t"
  shows "wtokenjoin ps = Some (Some (join_text 0 ps))"
proof -
  let ?siz = "join_size ps + length ps + 1"
  have "holds (wmalloc_block EOS (int ?siz)) []" by (simp add: holds_def wmalloc_block_def nat_add_distrib)
  moreover have "length (join_text 0 ps) < ?siz" using join_text_size [of 0 ps] by simp
  moreover have "length (wmalloc_block EOS (int ?siz)) = ?siz" by (simp only: length_wmalloc_block nat_int)
  ultimately obtain b where "join_loop ?siz 0 ps (wmalloc_block EOS (int ?siz)) = Some (Some b)"
    "holds b (join_text 0 ps)"
    using join_loop_holds [of _ "[]" 0 ps ?siz] assms by (metis append_Nil le_refl list.size(3) add_0)
  then show ?thesis by (simp add: wtokenjoin_def Let_def read_string_holds)
qed

lemma join_text_later:
  "\<forall>t \<in> set ts. t \<noteq> [] \<Longrightarrow> i > 0 \<Longrightarrow> join_text i (map Some ts) = concat (map (\<lambda>t. '' '' @ quoted t) ts)"
  by (induction ts arbitrary: i) (auto simp: usable_def token_text_def)

lemma separate_later: "separate '' '' (t # ts) = t @ concat (map (\<lambda>t. '' '' @ t) ts)"
  by (induction ts arbitrary: t) auto

lemma join_text_separate:
  "\<forall>t \<in> set ts. t \<noteq> [] \<Longrightarrow> join_text 0 (map Some ts) = separate '' '' (map quoted ts)"
  by (cases ts) (auto simp: usable_def token_text_def separate_later join_text_later o_def)

lemma usable_iff: "usable p \<longleftrightarrow> (\<exists>t. p = Some t \<and> t \<noteq> [])"
  by (auto simp: usable_def split: option.splits)

text \<open>
  C12: splitting undoes joining. For every list of non-empty tokens without backslashes, double quotes or
  NUL (and with a single quote only where there is a blank, since then the token is written in
  double quotes), \<open>wtokenjoin\<close> stays in the buffer it allocates and succeeds, and \<open>wtokensplit\<close>
  of its result gives back the list.
\<close>

theorem split_join_round_trip:
  assumes "\<forall>t \<in> set ts. plain_token t"
  shows "\<exists>line. wtokenjoin (map Some ts) = Some (Some line) \<and> wtokensplit line = Some ts"
proof -
  have "wtokenjoin (map Some ts) = Some (Some (join_text 0 (map Some ts)))"
    by (rule wtokenjoin_text) (use assms in \<open>auto simp: plain_token_def\<close>)
  moreover have "join_text 0 (map Some ts) = separate '' '' (map quoted ts)"
    by (rule join_text_separate) (use assms in \<open>auto simp: plain_token_def\<close>)
  ultimately show ?thesis using wtokensplit_joined [OF assms] by simp
qed

lemma split_join_round_trip_witness:
  "\<exists>line. wtokenjoin (map Some [''xterm'', ''-e'', ''don't stop'']) = Some (Some line) \<and>
     wtokensplit line = Some [''xterm'', ''-e'', ''don't stop'']"
  by (rule split_join_round_trip) (simp add: plain_token_def has_blank_def)

lemma wtokensplit_prefix:
  "\<forall>t \<in> set ts. plain_token t \<Longrightarrow> wtokensplit r = Some us \<Longrightarrow>
   wtokensplit (concat (map (\<lambda>t. quoted t @ '' '') ts) @ r) = Some (ts @ us)"
proof (induction ts)
  case (Cons t ts)
  then have "wtokensplit (concat (map (\<lambda>t. quoted t @ '' '') ts) @ r) = Some (ts @ us)" by simp
  then show ?case using Cons.prems(1) by (subst wtokensplit.simps) (simp add: wtokennext_token)
qed simp

lemma empty_token_stops: "wtokensplit ([DQUOTE', DQUOTE', CHR '' ''] @ r) = Some []"
proof -
  have a: "token_loop (DQUOTE' # DQUOTE' # CHR '' '' # r) 0 [] = token_loop (DQUOTE' # CHR '' '' # r) 1 []"
    by (simp only: token_loop.simps char_class_cases(1) mtable_0 Let_def DFA.simps) (simp add: finals(2) [simplified])
  have b: "token_loop (DQUOTE' # CHR '' '' # r) 1 [] = token_loop (CHR '' '' # r) 3 []"
    by (simp only: token_loop.simps char_class_cases(1) mtable_1 Let_def DFA.simps) (simp add: finals)
  have c: "token_loop (CHR '' '' # r) 3 [] = Some ([], PRC_BLANK, r)"
    by (simp add: char_class_cases(2) mtable_3 finals Let_def)
  show ?thesis using a b c by (subst wtokensplit.simps) (simp add: wtokennext_def PRC_BLANK_def PRC_EOS_def)
qed

text \<open>
  an empty quoted argument ends the command line. Whatever follows an argument written
  \<open>""\<close>, \<open>wtokensplit\<close> returns only the tokens before it: \<open>wtokennext\<close> returns NULL for an empty
  token and the caller takes NULL for the end.
\<close>

theorem empty_argument_ends_line:
  assumes "\<forall>t \<in> set ts. plain_token t"
  shows "wtokensplit (concat (map (\<lambda>t. quoted t @ '' '') ts) @ [DQUOTE', DQUOTE', CHR '' ''] @ r) = Some ts"
  using wtokensplit_prefix [OF assms empty_token_stops] by simp

lemma empty_argument_ends_line_witness:
  "wtokensplit (concat (map (\<lambda>t. quoted t @ '' '') [''grep'']) @ [DQUOTE', DQUOTE', CHR '' ''] @ ''file'') = Some [''grep'']"
  by (rule empty_argument_ends_line) (simp add: plain_token_def has_blank_def)

text \<open>
  bounded concatenation. For a buffer of at least \<open>siz\<close> characters that holds a string
  shorter than \<open>siz\<close>, \<open>wstrlcat\<close> makes no invalid access, returns the length it tried to
  create, and leaves a terminated string of at most \<open>siz - 1\<close> characters: the old one followed by
  what fits of the source. A result below \<open>siz\<close> says that nothing was cut.
\<close>

theorem wstrlcat_bounded:
  assumes "holds b s" and "length s < siz" and "siz \<le> length b" and "EOS \<notin> set src"
  shows "\<exists>b'. wstrlcat b src siz = Some (b', length s + length src) \<and> length b' = length b \<and>
    holds b' (take (siz - 1) (s @ src))"
proof -
  have "take (siz - 1) (s @ src) = s @ take (siz - 1 - length s) src" using assms(2) by simp
  then show ?thesis using wstrlcat_holds [OF assms(1,3,4)] assms(2) by (auto simp: min_def)
qed

lemma wstrlcat_bounded_witness:
  "\<exists>b'. wstrlcat [Cell CHR ''a'', Cell EOS, Undef] ''bc'' 3 = Some (b', length ''a'' + length ''bc'') \<and>
     length b' = length [Cell CHR ''a'', Cell EOS, Undef] \<and> holds b' (take (3 - 1) (''a'' @ ''bc''))"
  by (rule wstrlcat_bounded) (simp_all add: holds_def)

section \<open>Quoting for the shell\<close>

text \<open>
  The reference: how a POSIX shell reads one word, outside (\<open>False\<close>) and inside (\<open>True\<close>) single
  quotes; \<open>None\<close> when the text is not one literal word.
\<close>

definition sh_special :: "char \<Rightarrow> bool" where
  "sh_special c \<longleftrightarrow> c \<in> set ''|&;<>()$`*?[#~=% '' \<or> c \<in> {DQUOTE', CHR 0x09, CHR 0x0A}"

fun sh_word :: "bool \<Rightarrow> string \<Rightarrow> string option" where
  "sh_word False [] = Some []"
| "sh_word True [] = None"
| "sh_word True (c # s) =
     (if c = SQUOTE then sh_word False s else map_option ((#) c) (sh_word True s))"
| "sh_word False (c # s) =
     (if c = SQUOTE then sh_word True s
      else if c = BACKSLASH
      then (case s of [] \<Rightarrow> None | d # s' \<Rightarrow> if d = CHR 0x0A then None else map_option ((#) d) (sh_word False s'))
      else if sh_special c then None
      else map_option ((#) c) (sh_word False s))"

lemma shell_safe_literal: "shell_safe c \<Longrightarrow> c \<noteq> SQUOTE \<and> c \<noteq> BACKSLASH \<and> \<not> sh_special c"
  by (auto simp: shell_safe_def sh_special_def isalnum_def)

lemma sh_word_safe: "\<forall>c \<in> set s. shell_safe c \<Longrightarrow> sh_word False s = Some s"
  by (induction s) (auto simp: shell_safe_literal)

lemma sh_word_escaped:
  "sh_word False (concat (map (\<lambda>_. [BACKSLASH, SQUOTE]) q) @ r) =
   map_option ((@) (map (\<lambda>_. SQUOTE) q)) (sh_word False r)"
  by (induction q) (auto simp: option.map_comp o_def option.map_ident)

lemma takeWhile_quotes: "map (\<lambda>_. SQUOTE) (takeWhile (\<lambda>c. c = SQUOTE) p) = takeWhile (\<lambda>c. c = SQUOTE) p"
  by (induction p) auto

lemma quote_loop_read:
  "(start \<longrightarrow> p \<noteq> [] \<and> hd p = SQUOTE) \<Longrightarrow> (p = [] \<longrightarrow> \<not> lq) \<Longrightarrow> quote_loop start p lq = (r, lq') \<Longrightarrow>
   sh_word (\<not> start) (r @ (if lq' then [] else [SQUOTE])) = Some p"
proof (induction start p lq arbitrary: r lq' rule: quote_loop.induct)
  case (2 start c p lq)
  let ?q = "takeWhile (\<lambda>c. c = SQUOTE) p" and ?rest = "dropWhile (\<lambda>c. c = SQUOTE) p"
  show ?case
  proof (cases "c = SQUOTE")
    case True
    obtain r1 l1 where l: "quote_loop False ?rest True = (r1, l1)" by fastforce
    let ?tail = "r1 @ (if l1 then [] else [SQUOTE])"
    have r: "r = (if start then [] else [SQUOTE]) @ [BACKSLASH, SQUOTE] @
        concat (map (\<lambda>_. [BACKSLASH, SQUOTE]) ?q) @ (if ?rest \<noteq> [] then [SQUOTE] else []) @ r1" "lq' = l1"
      using "2.prems"(3) True l by (simp_all add: Let_def)
    have t: "sh_word False ((if ?rest \<noteq> [] then [SQUOTE] else []) @ ?tail) = Some ?rest"
    proof (cases "?rest = []")
      case True
      from l have "r1 = [] \<and> l1" unfolding True by simp
      with True show ?thesis by (simp del: dropWhile_eq_Nil_conv)
    next
      case False
      then have "sh_word True ?tail = Some ?rest" using "2.IH"(1) [OF True refl refl _ _ l] False by simp
      then show ?thesis using False by simp
    qed
    have "sh_word (\<not> start) (r @ (if lq' then [] else [SQUOTE])) =
        sh_word False (concat (map (\<lambda>_. [BACKSLASH, SQUOTE]) (c # ?q)) @ (if ?rest \<noteq> [] then [SQUOTE] else []) @ ?tail)"
      unfolding r by (cases start) simp_all
    also have "\<dots> = Some (map (\<lambda>_. SQUOTE) (c # ?q) @ ?rest)" unfolding sh_word_escaped t by simp
    also have "\<dots> = Some (c # p)" using True takeWhile_quotes [of p] by simp
    finally show ?thesis .
  next
    case False
    obtain r1 l1 where l: "quote_loop False p False = (r1, l1)" by fastforce
    have "sh_word True (r1 @ (if l1 then [] else [SQUOTE])) = Some p"
      using "2.IH"(2) [OF False, of r1 l1] l by simp
    moreover have "r = c # r1" "lq' = l1" "\<not> start" using "2.prems" False l by (auto simp: Let_def)
    ultimately show ?thesis using False by simp
  qed
qed auto

lemma quote_loop_size:
  "quote_loop start p lq = (r, lq') \<Longrightarrow>
   length r \<le> sum_list (map (\<lambda>c. if c = SQUOTE then 4 else 1) p)"
proof (induction start p lq arbitrary: r lq' rule: quote_loop.induct)
  case (2 start c p lq)
  let ?q = "takeWhile (\<lambda>c. c = SQUOTE) p" and ?rest = "dropWhile (\<lambda>c. c = SQUOTE) p"
  let ?w = "\<lambda>p. sum_list (map (\<lambda>c. if c = SQUOTE then 4 else 1 :: nat) p)"
  show ?case
  proof (cases "c = SQUOTE")
    case True
    obtain r1 l1 where l: "quote_loop False ?rest True = (r1, l1)" by fastforce
    have "length r1 \<le> ?w ?rest" using "2.IH"(1) [OF True refl refl l] by simp
    moreover have "?w (?q @ ?rest) = ?w ?q + ?w ?rest" by (simp del: takeWhile_dropWhile_id)
    then have "?w p = ?w ?q + ?w ?rest" by simp
    moreover have "2 * length ?q \<le> ?w ?q" by (induction p) auto
    moreover have "length (concat (map (\<lambda>_. [BACKSLASH, SQUOTE]) ?q)) = 2 * length ?q" by (induction p) auto
    moreover have "length r \<le> 3 + length (concat (map (\<lambda>_. [BACKSLASH, SQUOTE]) ?q)) + 1 + length r1"
      using "2.prems" True l by (auto simp: Let_def)
    moreover have "?w (c # p) = 4 + ?w p" using True by simp
    ultimately show ?thesis by linarith
  next
    case False
    obtain r1 l1 where "quote_loop False p False = (r1, l1)" by fastforce
    then show ?thesis using "2.IH"(2) [OF False, of r1 l1] "2.prems" False by (auto simp: Let_def)
  qed
qed auto

text \<open>
  C13: shell quoting. The text that \<open>wshellquote\<close> returns is read back by the shell as exactly
  the given string, whatever characters it holds, and with its NUL it fits the buffer allocated
  for it.
\<close>

theorem shellquote_read_back:
  "\<exists>r. wshellquote (Some s) = Some r \<and> sh_word False r = Some s \<and> length r + 1 \<le> shellquote_size s"
proof (cases "s = [] \<or> (\<exists>c \<in> set s. \<not> shell_safe c)")
  case False
  have "length s \<le> sum_list (map (\<lambda>c. if c = SQUOTE then 4 else 1 :: nat) s)"
    by (induction s) auto
  then show ?thesis using False sh_word_safe [of s]
    by (auto simp: wshellquote_def wstrdup_def shellquote_size_def)
next
  case True
  let ?first = "s \<noteq> [] \<and> hd s = SQUOTE"
  obtain r lq where l: "quote_loop True s False = (r, lq)" by fastforce
  have out: "wshellquote (Some s) = Some ((if ?first then [] else [SQUOTE]) @ r @ (if lq then [] else [SQUOTE]))"
    unfolding wshellquote_def using True l by (simp add: Let_def)
  have "sh_word False ((if ?first then [] else [SQUOTE]) @ r @ (if lq then [] else [SQUOTE])) = Some s"
  proof (cases ?first)
    case True
    then show ?thesis using quote_loop_read [OF _ _ l] by simp
  next
    case False
    have "quote_loop True s False = quote_loop False s False" using False by (cases s) simp_all
    then have "sh_word True (r @ (if lq then [] else [SQUOTE])) = Some s"
      using quote_loop_read [of False s False r lq] l by simp
    then show ?thesis unfolding if_not_P [OF False] by simp
  qed
  moreover have "length r + 3 \<le> shellquote_size s"
    using quote_loop_size [OF l] by (simp add: shellquote_size_def)
  ultimately show ?thesis using out by auto
qed

section \<open>Trimming\<close>

lemma trim_end_take:
  "t < length s \<Longrightarrow> \<not> isspace (s ! 0) \<Longrightarrow>
   take (trim_end s t + 1) s = rev (dropWhile isspace (rev (take (Suc t) s)))"
proof (induction t)
  case 0
  then show ?case by (cases s) auto
next
  case (Suc t)
  then show ?case by (simp add: take_Suc_conv_app_nth)
qed

lemma trim_end_le: "trim_end s t \<le> t"
  by (induction t) auto

text \<open>
  Trimming: \<open>wtrimspace\<close> returns the string without the white space at its two ends.
\<close>

lemma trimspace_correct:
  assumes "EOS \<notin> set s"
  shows "wtrimspace (Some s) = Some (rev (dropWhile isspace (rev (dropWhile isspace s))))"
proof -
  have d: "dropWhile (\<lambda>c. isspace c \<and> c \<noteq> EOS) s = dropWhile isspace s"
    by (rule dropWhile_cong) (use assms in auto)
  show ?thesis
  proof (cases "dropWhile isspace s")
    case Nil
    then show ?thesis by (simp add: wtrimspace_def d wstrndup_def del: dropWhile_eq_Nil_conv)
  next
    case (Cons c u)
    then have "\<not> isspace c" by (metis hd_dropWhile list.discI list.sel(1))
    then show ?thesis using trim_end_take [of "length u" "c # u"] trim_end_le [of "c # u" "length u"] Cons
      by (simp add: wtrimspace_def d wstrndup_def min_def)
  qed
qed

text \<open>
  tokenizing always ends within its buffer: whatever the command line, the automaton reaches
  a final state before it would read past the NUL, the token it collects is no longer than the
  line (the \<open>strlen(word) + 1\<close> cells allocated for it), and \<open>wtokensplit\<close> returns.
\<close>

theorem tokenizer_total:
  "(\<exists>ret ctype ptr. token_loop line 0 [] = Some (ret, ctype, ptr) \<and> length ret \<le> length line) \<and>
   wtokensplit line \<noteq> None"
  using token_loop_total [of 0 line "[]"] wtokensplit_total [of line] by auto

end
