(* ===== verification/WMFindFile.thy ===== *)
theory WMFindFile
  imports WMPlistOperations WMStrings
begin

text \<open>
  \<open>WMcore/findfile.c\<close>: expanding a path (a leading tilde, environment variables) in buffers of
  fixed size, and finding a file in a list of directories. \<open>None\<close> is an access outside a buffer, of
  a cell nobody wrote, or through NULL. The static variable of \<open>wgethomedir\<close> is threaded through.
\<close>

section \<open>What the process gets from its surroundings\<close>

text \<open>
  \<open>path_max\<close> is \<open>PATH_MAX\<close>; \<open>secure_getenv\<close> is the function of that name where the library has
  it, else \<open>getenv\<close>. An entry of the password database is its \<open>pw_dir\<close>.
\<close>

record path_env =
  path_max :: nat
  getenv :: "string \<Rightarrow> string ptr"
  secure_getenv :: "string \<Rightarrow> string ptr"
  pw_of_user :: "string ptr ptr"
  pw_of_name :: "string \<Rightarrow> string ptr ptr"
  exists :: "string \<Rightarrow> bool"

text \<open>The home directory and the static variable \<open>home\<close>.\<close>

definition wgethomedir :: "path_env \<Rightarrow> string ptr \<Rightarrow> string \<times> string ptr" where
  "wgethomedir env home =
     (case home of
        Some h \<Rightarrow> (h, home)
      | None \<Rightarrow>
          (let h = (case secure_getenv env ''HOME'' of
                      Some tmp \<Rightarrow> wstrdup tmp
                    | None \<Rightarrow>
                        (case pw_of_user env of
                           None \<Rightarrow> ''/''
                         | Some None \<Rightarrow> ''/''
                         | Some (Some dir) \<Rightarrow> wstrdup dir))
           in (h, Some h)))"

definition getuserhomedir :: "path_env \<Rightarrow> string \<Rightarrow> string ptr" where
  "getuserhomedir env username =
     (case pw_of_name env username of
        None \<Rightarrow> NULL
      | Some None \<Rightarrow> Some ''/''
      | Some (Some dir) \<Rightarrow> Some dir)"

section \<open>Expanding a path\<close>

text \<open>
  Results are options twice: \<open>None\<close> is an invalid access, \<open>Some None\<close> the jump to \<open>error\<close>.
  The loops that collect a name in \<open>buffer2\<close> give the buffer, \<open>j\<close> and the rest of the path.
\<close>

abbreviation (input) SLASH :: char where "SLASH \<equiv> CHR ''/''"

fun collect_user :: "nat \<Rightarrow> char block \<Rightarrow> nat \<Rightarrow> string \<Rightarrow> (char block \<times> string) option option" where
  "collect_user pm buffer2 j [] = Some (Some (buffer2, []))"
| "collect_user pm buffer2 j (c # path) =
     (if c = SLASH then Some (Some (buffer2, c # path))
      else if j > pm then Some None
      else do {
        b \<leftarrow> cell_write buffer2 (int j) c;
        b' \<leftarrow> cell_write b (int (j + 1)) EOS;
        collect_user pm b' (j + 1) path })"

fun collect :: "char \<Rightarrow> nat \<Rightarrow> char block \<Rightarrow> nat \<Rightarrow> string \<Rightarrow> (char block \<times> nat \<times> string) option option" where
  "collect stop pm buffer2 j [] = Some (Some (buffer2, j, []))"
| "collect stop pm buffer2 j (c # path) =
     (if c = stop then Some (Some (buffer2, j, c # path))
      else if j > pm then Some None
      else do {
        b \<leftarrow> cell_write buffer2 (int j) c;
        collect stop pm b (j + 1) path })"

text \<open>\<open>i += n\<close> for \<open>int i\<close> and \<open>size_t n\<close>, and a string appended to the buffer.\<close>

definition add_size :: "int \<Rightarrow> nat \<Rightarrow> int" where
  "add_size i n = sint (word_of_int (i + int n) :: 32 word)"

definition append_buffer :: "nat \<Rightarrow> char block \<Rightarrow> string list \<Rightarrow> char block option option" where
  "append_buffer pm buffer ss = append_all (pm + 2) buffer ss"

definition add_text :: "nat \<Rightarrow> char block \<Rightarrow> int \<Rightarrow> nat \<Rightarrow> string list \<Rightarrow> (char block \<times> int) option option" where
  "add_text pm buffer i n ss =
     (let i1 = add_size i n in
      if i1 > int pm then Some None
      else do { r \<leftarrow> append_buffer pm buffer ss; Some (map_option (\<lambda>b. (b, i1)) r) })"

text \<open>
  \<open>$(NAME)\<close> and \<open>$NAME\<close>, after the dollar sign (and the parenthesis): the buffer, \<open>i\<close> and the
  rest of the path.
\<close>

definition expand_paren ::
    "path_env \<Rightarrow> char block \<Rightarrow> int \<Rightarrow> char block \<Rightarrow> string \<Rightarrow> (char block \<times> int \<times> char block \<times> string) option option" where
  "expand_paren env buffer i buffer2 path = do {
     let pm = path_max env;
     r \<leftarrow> collect (CHR '')'') pm buffer2 0 path;
     (case r of
        None \<Rightarrow> Some None
      | Some (b, j, path1) \<Rightarrow> do {
          b2 \<leftarrow> cell_write b (int j) EOS;
          name \<leftarrow> read_string b2;
          let closed = (path1 \<noteq> []);
          let path2 = (if closed then tl path1 else path1);
          (case (if closed then getenv env name else NULL) of
             None \<Rightarrow>
               (let i1 = add_size i (length name + 2) in
                if i1 > int pm then Some None
                else do {
                  b1 \<leftarrow> cell_write buffer i1 EOS;
                  r1 \<leftarrow> append_buffer pm b1 [''$('', name];
                  (case r1 of
                     None \<Rightarrow> Some None
                   | Some b3 \<Rightarrow>
                       if closed
                       then (if i1 + 1 > int pm then Some None
                             else do {
                               r2 \<leftarrow> append_buffer pm b3 ['')''];
                               Some (map_option (\<lambda>b4. (b4, i1 + 1, b2, path2)) r2) })
                       else Some (Some (b3, i1, b2, path2))) })
           | Some tmp \<Rightarrow> do {
               r1 \<leftarrow> add_text pm buffer i (length tmp) [tmp];
               Some (map_option (\<lambda>(b4, i1). (b4, i1, b2, path2)) r1) }) }) }"

definition expand_dollar ::
    "path_env \<Rightarrow> char block \<Rightarrow> int \<Rightarrow> char block \<Rightarrow> string \<Rightarrow> (char block \<times> int \<times> char block \<times> string) option option" where
  "expand_dollar env buffer i buffer2 path = do {
     let pm = path_max env;
     r \<leftarrow> collect SLASH pm buffer2 0 path;
     (case r of
        None \<Rightarrow> Some None
      | Some (b, j, path1) \<Rightarrow> do {
          b2 \<leftarrow> cell_write b (int j) EOS;
          name \<leftarrow> read_string b2;
          r1 \<leftarrow> (case getenv env name of
                   None \<Rightarrow> add_text pm buffer i (length name + 1) [''$'', name]
                 | Some tmp \<Rightarrow> add_text pm buffer i (length tmp) [tmp]);
          Some (map_option (\<lambda>(b3, i1). (b3, i1, b2, path1)) r1) }) }"

lemma collect_rest: "collect stop pm b j path = Some (Some (b', j', rest)) \<Longrightarrow> length rest \<le> length path"
  by (induction stop pm b j path rule: collect.induct) (auto split: if_splits Option.bind_splits)

lemma expand_paren_rest:
  "expand_paren env b i b2 path = Some (Some (b', i', b2', rest)) \<Longrightarrow> length rest \<le> length path"
  by (auto simp: expand_paren_def Let_def dest!: collect_rest split: if_splits Option.bind_splits option.splits)

lemma expand_dollar_rest:
  "expand_dollar env b i b2 path = Some (Some (b', i', b2', rest)) \<Longrightarrow> length rest \<le> length path"
  by (auto simp: expand_dollar_def Let_def dest!: collect_rest split: if_splits Option.bind_splits option.splits)

text \<open>The loop, and the rest of the path when it stops because the buffer is full.\<close>

function expand_loop ::
    "path_env \<Rightarrow> char block \<Rightarrow> int \<Rightarrow> char block \<Rightarrow> string \<Rightarrow> (char block \<times> string) option option" where
  "expand_loop env buffer i buffer2 [] = Some (Some (buffer, []))"
| "expand_loop env buffer i buffer2 (c # path) =
     (if i > int (path_max env) then Some (Some (buffer, c # path))
      else if c = CHR ''$''
      then do {
        r \<leftarrow> (if path \<noteq> [] \<and> hd path = CHR ''('' then expand_paren env buffer i buffer2 (tl path)
              else expand_dollar env buffer i buffer2 path);
        (case r of
           None \<Rightarrow> Some None
         | Some (b, i', b2, path') \<Rightarrow> expand_loop env b i' b2 path') }
      else do {
        b \<leftarrow> cell_write buffer i c;
        expand_loop env b (i + 1) buffer2 path })"
  by pat_completeness auto
termination
proof (relation "measure (\<lambda>(env, b, i, b2, path). length path)")
  fix env buffer i buffer2 c path a x2 x y xa ya xb yb
  assume r: "(if path \<noteq> [] \<and> hd path = CHR ''('' then expand_paren env buffer i buffer2 (tl path)
      else expand_dollar env buffer i buffer2 path) = Some a"
    and a: "a = Some x2" "(x, y) = x2" "(xa, ya) = y" "(xb, yb) = ya"
  have "length yb \<le> length path"
    using r expand_paren_rest [of env buffer i buffer2 "tl path" x xa xb yb]
      expand_dollar_rest [of env buffer i buffer2 path x xa xb yb]
    by (simp add: a(1) flip: a(2-4) split: if_splits)
  then show "((env, x, xa, xb, yb), env, buffer, i, buffer2, c # path)
      \<in> measure (\<lambda>(env, b, i, b2, path). length path)" by simp
qed auto

declare expand_loop.simps [simp del]

text \<open>The part before the loop: the buffers and the path after a tilde and a name.\<close>

definition expand_home ::
    "path_env \<Rightarrow> string ptr \<Rightarrow> char block \<Rightarrow> char block \<Rightarrow> string \<Rightarrow>
     (string ptr \<times> (char block \<times> char block \<times> string) option) option" where
  "expand_home env home buffer buffer2 path =
     (let pm = path_max env in
      if path \<noteq> [] \<and> hd path = CHR ''~''
      then (let path1 = tl path in
            if path1 = [] \<or> hd path1 = SLASH
            then (let (h, home') = wgethomedir env home in
                  if length h > pm then Some (home', None)
                  else do {
                    (b, n) \<leftarrow> wstrlcpy buffer h (pm + 2);
                    Some (home', if n \<ge> pm + 2 then None else Some (b, buffer2, path1)) })
            else do {
              r \<leftarrow> collect_user pm buffer2 0 path1;
              (case r of
                 None \<Rightarrow> Some (home, None)
               | Some (b2, path2) \<Rightarrow> do {
                   name \<leftarrow> read_string b2;
                   (case getuserhomedir env name of
                      None \<Rightarrow> Some (home, None)
                    | Some h \<Rightarrow> do {
                        (b, n) \<leftarrow> wstrlcat buffer h (pm + 2);
                        Some (home, if n \<ge> pm + 2 then None else Some (b, b2, path2)) }) }) })
      else Some (home, Some (buffer, buffer2, path)))"

text \<open>\<open>wexpandpath\<close> and the static variable of \<open>wgethomedir\<close>; NULL after a jump to \<open>error\<close>.\<close>

definition wexpandpath :: "path_env \<Rightarrow> string ptr \<Rightarrow> string \<Rightarrow> (string ptr \<times> string ptr) option" where
  "wexpandpath env home path = do {
     let pm = path_max env;
     let buffer2 = replicate (pm + 2) Undef;
     buffer \<leftarrow> mem_set (replicate (pm + 2) Undef) 0 EOS (int pm + 2);
     (home', r) \<leftarrow> expand_home env home buffer buffer2 path;
     (case r of
        None \<Rightarrow> Some (NULL, home')
      | Some (b, b2, path1) \<Rightarrow> do {
          s \<leftarrow> read_string b;
          r' \<leftarrow> expand_loop env b (int (length s)) b2 path1;
          (case r' of
             None \<Rightarrow> Some (NULL, home')
           | Some (b', rest) \<Rightarrow>
               if rest \<noteq> [] then Some (NULL, home')
               else do { t \<leftarrow> read_string b'; Some (Some (wstrdup t), home') }) }) }"

section \<open>Finding a file\<close>

text \<open>The beginning of the three searches: names that are not looked up in the list.\<close>

definition find_direct :: "path_env \<Rightarrow> string ptr \<Rightarrow> string \<Rightarrow> (string ptr \<times> string ptr) option" where
  "find_direct env home file =
     (if \<not> exists env file
      then do {
        (fullpath, home') \<leftarrow> wexpandpath env home file;
        (case fullpath of
           None \<Rightarrow> Some (NULL, home')
         | Some p \<Rightarrow> if \<not> exists env p then Some (NULL, home') else Some (Some p, home')) }
      else Some (Some (wstrdup file), home))"

text \<open>
  The path of a file in a directory, in a block of \<open>len + flen + 2\<close> characters. \<open>check\<close>: whether a slash
  at the end of the directory is looked for (only \<open>wfindfile\<close> does). NULL is the early return.
\<close>

definition build_path :: "bool \<Rightarrow> string \<Rightarrow> string \<Rightarrow> string ptr option" where
  "build_path check dir file = do {
     let len = length dir;
     let size = len + length file + 2;
     path \<leftarrow> mem_copy (wmalloc_block EOS (int size)) 0 (map Cell dir) 0 (int len);
     path1 \<leftarrow> cell_write path (int len) EOS;
     slash \<leftarrow> (if check then do { c \<leftarrow> cell_read path1 (int len - 1); Some (c \<noteq> SLASH) } else Some True);
     r \<leftarrow> append_all size path1 ((if slash then [''/''] else []) @ [file]);
     (case r of None \<Rightarrow> Some NULL | Some b \<Rightarrow> do { s \<leftarrow> read_string b; Some (Some s) }) }"

text \<open>One directory: \<open>None\<close> inside is the early return, else the file found or not.\<close>

definition try_dir ::
    "path_env \<Rightarrow> string ptr \<Rightarrow> bool \<Rightarrow> string \<Rightarrow> string \<Rightarrow> (string ptr option \<times> string ptr) option" where
  "try_dir env home check dir file = do {
     path \<leftarrow> build_path check dir file;
     (case path of
        None \<Rightarrow> Some (None, home)
      | Some p \<Rightarrow> do {
          (fullpath, home') \<leftarrow> wexpandpath env home p;
          Some (Some (case fullpath of None \<Rightarrow> NULL | Some f \<Rightarrow> if exists env f then Some f else NULL), home') }) }"

fun skipchar :: "string \<Rightarrow> char \<Rightarrow> string" where
  "skipchar [] tok = []"
| "skipchar (c # s) tok = (if c = tok then skipchar s tok else c # s)"

fun nextchar :: "string \<Rightarrow> char \<Rightarrow> string" where
  "nextchar [] tok = []"
| "nextchar (c # s) tok = (if c \<noteq> tok then nextchar s tok else c # s)"

lemma skipchar_length: "length (skipchar s tok) \<le> length s"
  by (induction s) auto

lemma nextchar_length: "length (nextchar s tok) \<le> length s"
  by (induction s) auto

lemma nextchar_skipchar: "skipchar s tok \<noteq> [] \<Longrightarrow> length (nextchar (skipchar s tok) tok) < length s"
proof (induction s)
  case (Cons c s)
  then show ?case using nextchar_length [of s tok] by (auto simp: less_Suc_eq_le)
qed simp

function find_paths :: "path_env \<Rightarrow> string ptr \<Rightarrow> string \<Rightarrow> string \<Rightarrow> (string ptr \<times> string ptr) option" where
  "find_paths env home file tmp =
     (if tmp = [] then Some (NULL, home)
      else let tmp1 = skipchar tmp (CHR '':'') in
      if tmp1 = [] then Some (NULL, home)
      else let tmp2 = nextchar tmp1 (CHR '':''); len = length tmp1 - length tmp2 in
      do {
        (r, home') \<leftarrow> try_dir env home True (take len tmp1) file;
        (case r of
           None \<Rightarrow> Some (NULL, home')
         | Some (Some f) \<Rightarrow> Some (Some f, home')
         | Some None \<Rightarrow> find_paths env home' file tmp2) })"
  by pat_completeness auto
termination
  by (relation "measure (\<lambda>(env, home, file, tmp). length tmp)") (auto simp: nextchar_skipchar)

declare find_paths.simps [simp del]

definition wfindfile ::
    "path_env \<Rightarrow> string ptr \<Rightarrow> string ptr \<Rightarrow> string ptr \<Rightarrow> (string ptr \<times> string ptr) option" where
  "wfindfile env home paths file =
     (case file of
        None \<Rightarrow> Some (NULL, home)
      | Some f \<Rightarrow>
          if f \<noteq> [] \<and> hd f \<in> {SLASH, CHR ''~'', CHR ''$''} \<or> paths = NULL \<or> paths = Some []
          then find_direct env home f
          else find_paths env home f (the paths))"

fun find_list :: "path_env \<Rightarrow> string ptr \<Rightarrow> string \<Rightarrow> string list \<Rightarrow> (string ptr \<times> string ptr) option" where
  "find_list env home file [] = Some (NULL, home)"
| "find_list env home file (dir # path_list) = do {
     (r, home') \<leftarrow> try_dir env home False dir file;
     (case r of
        None \<Rightarrow> Some (NULL, home')
      | Some (Some f) \<Rightarrow> Some (Some f, home')
      | Some None \<Rightarrow> find_list env home' file path_list) }"

definition wfindfileinlist ::
    "path_env \<Rightarrow> string ptr \<Rightarrow> string list ptr \<Rightarrow> string ptr \<Rightarrow> (string ptr \<times> string ptr) option" where
  "wfindfileinlist env home path_list file =
     (case file of
        None \<Rightarrow> Some (NULL, home)
      | Some f \<Rightarrow>
          if f \<noteq> [] \<and> hd f \<in> {SLASH, CHR ''~''} \<or> path_list = NULL
          then find_direct env home f
          else find_list env home f (the path_list))"

text \<open>The loop of \<open>wfindfileinarray\<close> over the indices. The element is used as a string whatever it is.\<close>

function find_array ::
    "path_env \<Rightarrow> string ptr \<Rightarrow> string \<Rightarrow> W_PropList \<Rightarrow> nat \<Rightarrow> (string ptr \<times> string ptr) option" where
  "find_array env home file array i =
     (if i < WMGetPropListItemCount array
      then (case WMGetFromPLArray array (int i) of
              None \<Rightarrow> find_array env home file array (i + 1)
            | Some prop \<Rightarrow> do {
                p \<leftarrow> WMGetFromPLString prop;
                (r, home') \<leftarrow> try_dir env home False p file;
                (case r of
                   None \<Rightarrow> Some (NULL, home')
                 | Some (Some f) \<Rightarrow> Some (Some f, home')
                 | Some None \<Rightarrow> find_array env home' file array (i + 1)) })
      else Some (NULL, home))"
  by pat_completeness auto
termination
  by (relation "measure (\<lambda>(env, home, file, array, i). WMGetPropListItemCount array - i)") auto

declare find_array.simps [simp del]

definition wfindfileinarray ::
    "path_env \<Rightarrow> string ptr \<Rightarrow> W_PropList ptr \<Rightarrow> string ptr \<Rightarrow> (string ptr \<times> string ptr) option" where
  "wfindfileinarray env home array file =
     (case file of
        None \<Rightarrow> Some (NULL, home)
      | Some f \<Rightarrow>
          if f \<noteq> [] \<and> hd f \<in> {SLASH, CHR ''~''} \<or> array = NULL
          then find_direct env home f
          else find_array env home f (the array) 0)"

end
