(* ===== verification/WMFindFileSpec.thy ===== *)
theory WMFindFileSpec
  imports WMFindFile
begin

text \<open>
  What \<open>findfile.c\<close> computes: \<open>expansion\<close> is the path with its names replaced, when it fits, and a search
  gives the first directory of the list that has the file.
\<close>

section \<open>What it computes\<close>

text \<open>
  A path as literal characters and names to replace: the expansion of the name and the
  length of the name.
\<close>

datatype piece = Literal char | Name nat string

function pieces :: "path_env \<Rightarrow> string \<Rightarrow> piece list" where
  "pieces env [] = []"
| "pieces env (c # path) =
     (if c \<noteq> CHR ''$'' then Literal c # pieces env path
      else if path \<noteq> [] \<and> hd path = CHR ''(''
      then (let name = takeWhile (\<lambda>c. c \<noteq> CHR '')'') (tl path);
                rest = dropWhile (\<lambda>c. c \<noteq> CHR '')'') (tl path)
            in if rest = [] then [Name (length name) (''$('' @ name)]
               else (case getenv env name of
                       None \<Rightarrow> Name (length name) (''$('' @ name @ '')'')
                     | Some text \<Rightarrow> Name (length name) text) # pieces env (tl rest))
      else (let name = takeWhile (\<lambda>c. c \<noteq> SLASH) path
            in (case getenv env name of
                  None \<Rightarrow> Name (length name) (''$'' @ name)
                | Some text \<Rightarrow> Name (length name) text) # pieces env (dropWhile (\<lambda>c. c \<noteq> SLASH) path)))"
  by pat_completeness auto
termination
  by (relation "measure (\<lambda>(env, path). length path)")
    (auto simp: less_Suc_eq_le intro: le_trans [OF length_dropWhile_le] intro!: le_trans [OF diff_le_self])

declare pieces.simps [simp del]

fun piece_text :: "piece \<Rightarrow> string" where
  "piece_text (Literal c) = [c]"
| "piece_text (Name n text) = text"

text \<open>When the pieces fit a buffer that \<open>i\<close> characters are already in.\<close>

fun fits :: "nat \<Rightarrow> nat \<Rightarrow> piece list \<Rightarrow> bool" where
  "fits pm i [] = True"
| "fits pm i (Literal c # ps) \<longleftrightarrow> i \<le> pm \<and> fits pm (i + 1) ps"
| "fits pm i (Name n text # ps) \<longleftrightarrow> n \<le> pm + 1 \<and> i + length text \<le> pm \<and> fits pm (i + length text) ps"

text \<open>A buffer of \<open>n\<close> characters with a string and zeros, and the lemmas about it.\<close>

definition zbuf :: "nat \<Rightarrow> string \<Rightarrow> char block" where
  "zbuf n s = map Cell (s @ replicate (n - length s) EOS)"

lemma holds_zbuf: "EOS \<notin> set s \<Longrightarrow> length s < n \<Longrightarrow> holds (zbuf n s) s"
  by (cases "n - length s") (auto simp: holds_def zbuf_def)

lemma read_zbuf: "EOS \<notin> set s \<Longrightarrow> length s < n \<Longrightarrow> read_string (zbuf n s) = Some s"
  by (rule read_string_holds) (rule holds_zbuf)

lemma length_zbuf [simp]: "length s \<le> n \<Longrightarrow> length (zbuf n s) = n"
  by (simp add: zbuf_def)

lemma zbuf_write: "length s < n \<Longrightarrow> cell_write (zbuf n s) (int (length s)) c = Some (zbuf n (s @ [c]))"
  using cell_write_end [of s "Cell EOS" "map Cell (replicate (n - Suc (length s)) EOS)" c]
    Suc_diff_Suc [of "length s" n]
  by (simp add: zbuf_def flip: replicate_Suc)

lemma zbuf_write_zero:
  assumes "length s \<le> i" "i < n"
  shows "cell_write (zbuf n s) (int i) EOS = Some (zbuf n s)"
proof -
  have c: "zbuf n s ! i = Cell EOS" using assms by (simp add: zbuf_def nth_append)
  have "(zbuf n s)[i := Cell EOS] = zbuf n s" using list_update_id [of "zbuf n s" i] unfolding c .
  then show ?thesis using assms by (simp only: cell_write_def length_zbuf) simp
qed

lemma wstrlcat_zbuf:
  assumes "EOS \<notin> set s" "length s < n" "length s + length src < n"
  shows "wstrlcat (zbuf n s) src n = Some (zbuf n (s @ src), length s + length src)"
proof -
  let ?k = "n - length s"
  have z: "zbuf n s = map Cell s @ replicate ?k (Cell EOS)" by (simp add: zbuf_def map_replicate)
  have e: "find_end (zbuf n s) 0 n = Some (length s)"
    using find_end_holds [OF assms(1), of 0 "replicate (?k - 1) (Cell EOS)" n] assms(2)
    by (cases ?k) (auto simp: z)
  have c: "cat_loop (zbuf n s) (length s) ?k src = Some (zbuf n (s @ src), length s + length src)"
    using cat_loop_prefix [of ?k "replicate ?k (Cell EOS)" s src] assms
    by (simp add: z) (simp add: zbuf_def map_replicate min_def)
  show ?thesis
    using e c assms zbuf_write_zero [of "s @ src" "length (s @ src)" n]
    by (simp add: wstrlcat_def)
qed

lemma wstrlcat_zbuf_full:
  assumes "EOS \<notin> set s" "EOS \<notin> set src" "length s < n" "n \<le> length s + length src"
  shows "\<exists>b. wstrlcat (zbuf n s) src n = Some (b, length s + length src)"
  using wstrlcat_holds [OF holds_zbuf [OF assms(1,3)], of n src] assms by auto

text \<open>The loops that collect a name.\<close>

lemma collect_prefix:
  "length p + length rest = pm + 2 \<Longrightarrow> length p \<le> pm + 1 \<Longrightarrow>
   (let name = takeWhile (\<lambda>c. c \<noteq> stop) path in
    if length p + length name \<le> pm + 1
    then \<exists>rest'. collect stop pm (map Cell p @ rest) (length p) path =
           Some (Some (map Cell (p @ name) @ rest', length p + length name, dropWhile (\<lambda>c. c \<noteq> stop) path)) \<and>
           length p + length name + length rest' = pm + 2
    else collect stop pm (map Cell p @ rest) (length p) path = Some None)"
proof (induction path arbitrary: p rest)
  case (Cons c path)
  show ?case
  proof (cases "c = stop \<or> length p > pm")
    case False
    then obtain x r where rest: "rest = x # r" using Cons.prems by (cases rest) auto
    have "cell_write (map Cell p @ rest) (int (length p)) c = Some (map Cell (p @ [c]) @ r)"
      unfolding rest by (rule cell_write_end)
    then show ?thesis using Cons.IH [of "p @ [c]" r] Cons.prems False rest by (auto simp: Let_def split: if_splits)
  qed (use Cons.prems in \<open>auto simp: Let_def\<close>)
qed simp

lemma collect_name:
  fixes stop :: char
  assumes "length b2 = pm + 2" "EOS \<notin> set path"
  defines "name \<equiv> takeWhile (\<lambda>c. c \<noteq> stop) path"
  shows "if length name \<le> pm + 1
    then \<exists>b b'. collect stop pm b2 0 path = Some (Some (b, length name, dropWhile (\<lambda>c. c \<noteq> stop) path)) \<and>
      cell_write b (int (length name)) EOS = Some b' \<and> read_string b' = Some name \<and> length b' = pm + 2
    else collect stop pm b2 0 path = Some None"
proof (cases "length name \<le> pm + 1")
  case True
  obtain rest' where c: "collect stop pm b2 0 path =
      Some (Some (map Cell name @ rest', length name, dropWhile (\<lambda>c. c \<noteq> stop) path))"
    and len: "length name + length rest' = pm + 2"
    using collect_prefix [of "[]" b2 pm stop path] assms(1) True unfolding name_def by (auto simp: Let_def)
  obtain x r where r: "rest' = x # r" using len True by (cases rest') auto
  have w: "cell_write (map Cell name @ rest') (int (length name)) EOS = Some (map Cell (name @ [EOS]) @ r)"
    unfolding r by (rule cell_write_end)
  have "EOS \<notin> set name" using assms(2) unfolding name_def by (auto dest: set_takeWhileD)
  then have "read_string (map Cell (name @ [EOS]) @ r) = Some name"
    by (intro read_string_holds) (auto simp: holds_def)
  moreover have "length (map Cell (name @ [EOS]) @ r) = pm + 2" using len r by simp
  ultimately show ?thesis using c w True by (simp del: map_append)
next
  case False
  then show ?thesis
    using collect_prefix [of "[]" b2 pm stop path] assms(1) unfolding name_def by (auto simp: Let_def)
qed

lemma collect_user_prefix:
  "length p + length rest = pm + 2 \<Longrightarrow> length p \<le> pm + 1 \<Longrightarrow> path \<noteq> [] \<and> hd path \<noteq> SLASH \<or> (\<exists>r. rest = Cell EOS # r) \<Longrightarrow>
   (let name = takeWhile (\<lambda>c. c \<noteq> SLASH) path in
    if length p + length name \<le> pm + 1
    then \<exists>rest'. collect_user pm (map Cell p @ rest) (length p) path =
           Some (Some (map Cell (p @ name @ [EOS]) @ rest', dropWhile (\<lambda>c. c \<noteq> SLASH) path)) \<and>
           length p + length name + length rest' = pm + 1
    else collect_user pm (map Cell p @ rest) (length p) path = Some None)"
proof (induction path arbitrary: p rest)
  case (Cons c path)
  show ?case
  proof (cases "c = SLASH \<or> length p > pm")
    case False
    then obtain x y r where rest: "rest = x # y # r"
      using Cons.prems by (cases rest; cases "tl rest") auto
    have "cell_write (map Cell p @ rest) (int (length p)) c = Some (map Cell (p @ [c]) @ y # r)"
      unfolding rest by (rule cell_write_end)
    moreover have "cell_write (map Cell (p @ [c]) @ y # r) (int (length (p @ [c]))) EOS =
        Some (map Cell (p @ [c]) @ Cell EOS # r)"
      using cell_write_end [of "p @ [c]" y r EOS] by simp
    ultimately show ?thesis using Cons.IH [of "p @ [c]" "Cell EOS # r"] Cons.prems False rest
      by (auto simp: Let_def split: if_splits)
  qed (use Cons.prems in \<open>auto simp: Let_def\<close>)
qed auto

lemma collect_user_name:
  assumes "length b2 = pm + 2" "EOS \<notin> set path" "path \<noteq> []" "hd path \<noteq> SLASH"
  defines "name \<equiv> takeWhile (\<lambda>c. c \<noteq> SLASH) path"
  shows "if length name \<le> pm + 1
    then \<exists>b. collect_user pm b2 0 path = Some (Some (b, dropWhile (\<lambda>c. c \<noteq> SLASH) path)) \<and>
      read_string b = Some name \<and> length b = pm + 2
    else collect_user pm b2 0 path = Some None"
proof (cases "length name \<le> pm + 1")
  case True
  obtain rest' where c: "collect_user pm b2 0 path =
      Some (Some (map Cell (name @ [EOS]) @ rest', dropWhile (\<lambda>c. c \<noteq> SLASH) path))"
    and len: "length name + length rest' = pm + 1"
    using collect_user_prefix [of "[]" b2 pm path] assms(1,3,4) True unfolding name_def by (auto simp: Let_def)
  have "EOS \<notin> set name" using assms(2) unfolding name_def by (auto dest: set_takeWhileD)
  then have "read_string (map Cell (name @ [EOS]) @ rest') = Some name"
    by (intro read_string_holds) (auto simp: holds_def)
  then show ?thesis using c len True by (simp del: map_append)
next
  case False
  then show ?thesis
    using collect_user_prefix [of "[]" b2 pm path] assms(1,3,4) unfolding name_def by (auto simp: Let_def)
qed

text \<open>Appending to the buffer.\<close>

lemma append_to_zbuf:
  assumes "EOS \<notin> set s" "EOS \<notin> set t" "length s < n"
  shows "append_to n (zbuf n s) t = Some (if length s + length t < n then Some (zbuf n (s @ t)) else None)"
proof (cases "length s + length t < n")
  case True
  then show ?thesis using wstrlcat_zbuf [OF assms(1,3) True] by (simp add: append_to_def)
next
  case False
  then show ?thesis using wstrlcat_zbuf_full [OF assms, of] by (auto simp: append_to_def)
qed

lemma append_buffer_zbuf:
  "EOS \<notin> set s \<Longrightarrow> EOS \<notin> set (concat ts) \<Longrightarrow> length s < pm + 2 \<Longrightarrow>
   append_buffer pm (zbuf (pm + 2) s) ts =
     Some (if length s + length (concat ts) < pm + 2 then Some (zbuf (pm + 2) (s @ concat ts)) else None)"
proof (induction ts arbitrary: s)
  case (Cons t ts)
  then show ?case
    using append_to_zbuf [of s t "pm + 2"] Cons.IH [of "s @ t"] by (auto simp: append_buffer_def)
qed (simp add: append_buffer_def)

lemma add_size_small: "0 \<le> i \<Longrightarrow> i + int n < 2 ^ 31 \<Longrightarrow> add_size i n = i + int n"
  by (simp only: add_size_def sint_sbintrunc') (simp add: signed_take_bit_int_eq_self)

text \<open>A name that is replaced by one text.\<close>

lemma add_text_zbuf:
  assumes "EOS \<notin> set s" "EOS \<notin> set (concat ts)" "length s \<le> pm + 1" "pm < 2 ^ 29" "n = length (concat ts)"
  shows "add_text pm (zbuf (pm + 2) s) (int (length s)) n ts =
    Some (if length s + n \<le> pm then Some (zbuf (pm + 2) (s @ concat ts), int (length s + n)) else None)"
proof (cases "length s + n \<le> pm + 1")
  case True
  then have "add_size (int (length s)) n = int (length s + n)"
    using assms(4) by (subst add_size_small) auto
  then show ?thesis using append_buffer_zbuf [OF assms(1,2), of pm] assms(3,5) True
    by (auto simp: add_text_def Let_def)
next
  case False
  then show ?thesis using append_buffer_zbuf [OF assms(1,2), of pm] assms(3,5)
    by (auto simp: add_text_def Let_def)
qed

section \<open>Correctness of the expansion\<close>

text \<open>The environment has C strings, and sums of sizes below \<open>PATH_MAX\<close> do not overflow.\<close>

definition env_ok :: "path_env \<Rightarrow> bool" where
  "env_ok env \<longleftrightarrow> path_max env < 2 ^ 29 \<and> (\<forall>n v. getenv env n = Some v \<longrightarrow> EOS \<notin> set v) \<and>
     (\<forall>n v. secure_getenv env n = Some v \<longrightarrow> EOS \<notin> set v) \<and> (\<forall>d. pw_of_user env = Some (Some d) \<longrightarrow> EOS \<notin> set d) \<and>
     (\<forall>n d. pw_of_name env n = Some (Some d) \<longrightarrow> EOS \<notin> set d)"

text \<open>What \<open>$NAME\<close> and \<open>$(NAME)\<close> become: the length of the name, the text and the rest of the path.\<close>

definition dollar_piece :: "path_env \<Rightarrow> string \<Rightarrow> nat \<times> string \<times> string" where
  "dollar_piece env path =
     (let name = takeWhile (\<lambda>c. c \<noteq> SLASH) path
      in (length name, case getenv env name of None \<Rightarrow> ''$'' @ name | Some text \<Rightarrow> text,
          dropWhile (\<lambda>c. c \<noteq> SLASH) path))"

definition paren_piece :: "path_env \<Rightarrow> string \<Rightarrow> nat \<times> string \<times> string" where
  "paren_piece env path =
     (let name = takeWhile (\<lambda>c. c \<noteq> CHR '')'') path; rest = dropWhile (\<lambda>c. c \<noteq> CHR '')'') path
      in (length name,
          if rest = [] then ''$('' @ name
          else (case getenv env name of None \<Rightarrow> ''$('' @ name @ '')'' | Some text \<Rightarrow> text),
          if rest = [] then rest else tl rest))"

definition expands_to where
  "expands_to pm s n text rest r \<longleftrightarrow>
     (\<exists>b2. length b2 = pm + 2 \<and>
        r = Some (if n \<le> pm + 1 \<and> length s + length text \<le> pm
                  then Some (zbuf (pm + 2) (s @ text), int (length s + length text), b2, rest) else None))"

lemma expand_dollar_correct:
  assumes env: "env_ok env" and m: "path_max env = pm" and s: "EOS \<notin> set s" "length s \<le> pm + 1"
    and b2: "length b2 = pm + 2" and path: "EOS \<notin> set path"
    and piece: "dollar_piece env path = (n, text, rest)"
  shows "expands_to pm s n text rest (expand_dollar env (zbuf (pm + 2) s) (int (length s)) b2 path)"
proof -
  define name where "name = takeWhile (\<lambda>c. c \<noteq> SLASH) path"
  have pm: "pm < 2 ^ 29" using env by (simp add: env_ok_def m)
  have n: "n = length name" "rest = dropWhile (\<lambda>c. c \<noteq> SLASH) path"
    "text = (case getenv env name of None \<Rightarrow> ''$'' @ name | Some text \<Rightarrow> text)"
    using piece unfolding name_def by (auto simp: dollar_piece_def Let_def)
  have name: "EOS \<notin> set name" using path by (auto simp: name_def dest: set_takeWhileD)
  show ?thesis
  proof (cases "n \<le> pm + 1")
    case True
    obtain b b' where c: "collect SLASH pm b2 0 path = Some (Some (b, length name, rest))"
      "cell_write b (int (length name)) EOS = Some b'" "read_string b' = Some name" "length b' = pm + 2"
      using collect_name [of b2 pm path SLASH] b2 path True unfolding n(1,2) name_def by auto
    have "(case getenv env name of
             None \<Rightarrow> add_text pm (zbuf (pm + 2) s) (int (length s)) (length name + 1) [''$'', name]
           | Some tmp \<Rightarrow> add_text pm (zbuf (pm + 2) s) (int (length s)) (length tmp) [tmp]) =
        Some (if length s + length text \<le> pm then Some (zbuf (pm + 2) (s @ text), int (length s + length text)) else None)"
      using add_text_zbuf [OF s(1) _ s(2), of "[''$'', name]" "length name + 1"] name pm n(3) env
        add_text_zbuf [OF s(1) _ s(2), of "[text]" "length text"]
      by (auto simp: env_ok_def split: option.splits)
    then show ?thesis
      unfolding expands_to_def
      by (intro exI [of _ b']) (use c True in \<open>simp add: expand_dollar_def Let_def m del: add_2_eq_Suc'\<close>)
  next
    case False
    then have "collect SLASH pm b2 0 path = Some None"
      using collect_name [of b2 pm path SLASH] b2 path unfolding n(1) name_def by auto
    then show ?thesis using False b2 by (auto simp: expands_to_def expand_dollar_def Let_def m)
  qed
qed

lemma expand_paren_correct:
  assumes env: "env_ok env" and m: "path_max env = pm" and s: "EOS \<notin> set s" "length s \<le> pm + 1"
    and b2: "length b2 = pm + 2" and path: "EOS \<notin> set path"
    and piece: "paren_piece env path = (n, text, rest)"
  shows "expands_to pm s n text rest (expand_paren env (zbuf (pm + 2) s) (int (length s)) b2 path)"
proof -
  define name where "name = takeWhile (\<lambda>c. c \<noteq> CHR '')'') path"
  define path1 where "path1 = dropWhile (\<lambda>c. c \<noteq> CHR '')'') path"
  have pm: "pm < 2 ^ 29" using env by (simp add: env_ok_def m)
  have n: "n = length name" "rest = (if path1 = [] then path1 else tl path1)"
    "text = (if path1 = [] then ''$('' @ name
             else case getenv env name of None \<Rightarrow> ''$('' @ name @ '')'' | Some text \<Rightarrow> text)"
    using piece unfolding name_def path1_def by (auto simp: paren_piece_def Let_def)
  have name: "EOS \<notin> set name" using path by (auto simp: name_def dest: set_takeWhileD)
  show ?thesis
  proof (cases "n \<le> pm + 1")
    case True
    obtain b b' where c: "collect (CHR '')'') pm b2 0 path = Some (Some (b, length name, path1))"
      "cell_write b (int (length name)) EOS = Some b'" "read_string b' = Some name" "length b' = pm + 2"
      using collect_name [of b2 pm path "CHR '')''"] b2 path True unfolding n(1,2) name_def path1_def by auto
    have i1: "add_size (int (length s)) (length name + 2) = int (length s + length name + 2)"
      using s(2) True n(1) pm by (subst add_size_small) auto
    have z: "cell_write (zbuf (pm + 2) s) (int (length s + length name + 2)) EOS = Some (zbuf (pm + 2) s)"
      if "length s + length name + 2 \<le> pm" by (rule zbuf_write_zero) (use that in auto)
    have a: "append_buffer pm (zbuf (pm + 2) s) [''$('', name] = Some (Some (zbuf (pm + 2) (s @ ''$('' @ name)))"
      if "length s + length name + 2 \<le> pm"
      using append_buffer_zbuf [OF s(1), of "[''$('', name]" pm] name that by simp
    have a': "append_buffer pm (zbuf (pm + 2) (s @ ''$('' @ name)) ['')''] =
        Some (Some (zbuf (pm + 2) (s @ ''$('' @ name @ '')'')))"
      if "length s + length name + 3 \<le> pm"
      using append_buffer_zbuf [of "s @ ''$('' @ name" "['')'']" pm] s(1) name that by simp
    show ?thesis
    proof (cases "path1 \<noteq> [] \<and> getenv env name \<noteq> NULL")
      case True
      then obtain t where t: "getenv env name = Some t" "text = t" "EOS \<notin> set t" using n(3) env
        by (auto simp: env_ok_def)
      then show ?thesis
        unfolding expands_to_def
        by (intro exI [of _ b'])
          (use c True \<open>n \<le> pm + 1\<close> n add_text_zbuf [OF s(1) _ s(2), of "[text]" "length text"] pm in
            \<open>simp add: expand_paren_def Let_def m del: add_2_eq_Suc'\<close>)
    next
      case False
      then have e: "(if path1 \<noteq> [] then getenv env name else NULL) = NULL" by auto
      have shown: "text = (if path1 = [] then ''$('' @ name else ''$('' @ name @ '')'')"
        using False n(3) by auto
      show ?thesis
        unfolding expands_to_def
        by (intro exI [of _ b'])
          (use c \<open>n \<le> pm + 1\<close> n(1,2) e shown i1 z a a' in
            \<open>auto simp: expand_paren_def Let_def m simp del: add_2_eq_Suc'\<close>)
    qed
  next
    case False
    then have "collect (CHR '')'') pm b2 0 path = Some None"
      using collect_name [of b2 pm path "CHR '')''"] b2 path unfolding n(1) name_def by auto
    then show ?thesis using False b2 by (auto simp: expands_to_def expand_paren_def Let_def m)
  qed
qed

lemma pieces_dollar:
  "pieces env (CHR ''$'' # path) =
     (if path \<noteq> [] \<and> hd path = CHR ''(''
      then (case paren_piece env (tl path) of (n, text, rest) \<Rightarrow> Name n text # pieces env rest)
      else (case dollar_piece env path of (n, text, rest) \<Rightarrow> Name n text # pieces env rest))"
proof -
  have *: "pieces env (CHR ''$'' # path) =
     (if path \<noteq> [] \<and> hd path = CHR ''(''
      then (let name = takeWhile (\<lambda>c. c \<noteq> CHR '')'') (tl path);
                rest = dropWhile (\<lambda>c. c \<noteq> CHR '')'') (tl path)
            in if rest = [] then [Name (length name) (''$('' @ name)]
               else (case getenv env name of
                       None \<Rightarrow> Name (length name) (''$('' @ name @ '')'')
                     | Some text \<Rightarrow> Name (length name) text) # pieces env (tl rest))
      else (let name = takeWhile (\<lambda>c. c \<noteq> SLASH) path
            in (case getenv env name of
                  None \<Rightarrow> Name (length name) (''$'' @ name)
                | Some text \<Rightarrow> Name (length name) text) # pieces env (dropWhile (\<lambda>c. c \<noteq> SLASH) path)))"
    by (subst pieces.simps(2)) simp
  show ?thesis
    unfolding * paren_piece_def dollar_piece_def Let_def prod.case
    by (cases "dropWhile (\<lambda>c. c \<noteq> CHR '')'') (tl path) = []")
      (simp_all add: pieces.simps(1) del: dropWhile_eq_Nil_conv split: option.split)
qed

lemma set_tl: "x \<in> set (tl xs) \<Longrightarrow> x \<in> set xs"
  by (cases xs) auto

lemma piece_rest:
  assumes "paren_piece env path = (n, text, rest) \<or> dollar_piece env path = (n, text, rest)"
    and "EOS \<notin> set path" and "env_ok env"
  shows "length rest \<le> length path" "EOS \<notin> set rest" "EOS \<notin> set text"
proof -
  have t: "EOS \<notin> set (takeWhile P path)" "EOS \<notin> set (dropWhile P path)" "EOS \<notin> set (tl (dropWhile P path))" for P
    using assms(2) by (auto dest: set_takeWhileD set_dropWhileD dest!: set_tl)
  have l: "length (dropWhile P path) \<le> length path" "length (tl (dropWhile P path)) \<le> length path" for P
    using length_dropWhile_le [of P path] by simp_all
  have v: "EOS \<notin> set v" if "getenv env m = Some v" for m v using assms(3) that by (auto simp: env_ok_def)
  show "length rest \<le> length path" "EOS \<notin> set rest" "EOS \<notin> set text"
    using assms(1) t l v
    by (auto simp: paren_piece_def dollar_piece_def Let_def simp del: length_tl split: if_splits option.splits)
qed

lemma expand_loop_correct:
  "EOS \<notin> set s \<Longrightarrow> length s \<le> pm + 1 \<Longrightarrow> length b2 = pm + 2 \<Longrightarrow> EOS \<notin> set path \<Longrightarrow> env_ok env \<Longrightarrow> path_max env = pm \<Longrightarrow>
   if fits pm (length s) (pieces env path)
   then expand_loop env (zbuf (pm + 2) s) (int (length s)) b2 path =
     Some (Some (zbuf (pm + 2) (s @ concat (map piece_text (pieces env path))), []))
   else \<exists>r. expand_loop env (zbuf (pm + 2) s) (int (length s)) b2 path = Some r \<and> (\<forall>b. r \<noteq> Some (b, []))"
proof (induction "length path" arbitrary: path s b2 rule: less_induct)
  case less
  show ?case
  proof (cases path)
    case Nil
    then show ?thesis by (simp add: expand_loop.simps pieces.simps)
  next
    case (Cons c p)
    consider (full) "length s > pm" | (literal) "length s \<le> pm" "c \<noteq> CHR ''$''" | (dollar) "length s \<le> pm" "c = CHR ''$''"
      by linarith
    then show ?thesis
    proof cases
      case full
      then have "\<not> fits pm (length s) (pieces env path)"
        by (auto simp: Cons pieces.simps(2) Let_def split: if_splits option.splits)
      then show ?thesis using full less.prems(6) by (simp add: Cons expand_loop.simps)
    next
      case literal
      have "cell_write (zbuf (pm + 2) s) (int (length s)) c = Some (zbuf (pm + 2) (s @ [c]))"
        using literal(1) by (intro zbuf_write) simp
      then show ?thesis
        using less.hyps [of p "s @ [c]" b2] less.prems literal
        by (auto simp: Cons expand_loop.simps pieces.simps add.commute)
    next
      case dollar
      define paren where "paren \<longleftrightarrow> p \<noteq> [] \<and> hd p = CHR ''(''"
      obtain n tx rest where piece: "(if paren then paren_piece env (tl p) else dollar_piece env p) = (n, tx, rest)"
        by (metis prod_cases3)
      have p: "EOS \<notin> set p" "EOS \<notin> set (tl p)" using less.prems(4) Cons by (auto dest: set_tl)
      have rest: "length rest < length path" "EOS \<notin> set rest" "EOS \<notin> set tx"
        using piece_rest [of env "tl p" n tx rest, OF _ p(2) less.prems(5)]
          piece_rest [of env p n tx rest, OF _ p(1) less.prems(5)] piece Cons
        by (cases paren; cases p; force)+
      have ps: "pieces env path = Name n tx # pieces env rest"
        using piece unfolding Cons dollar(2) pieces_dollar paren_def by (auto split: if_splits)
      define r where "r = (if paren then expand_paren env (zbuf (pm + 2) s) (int (length s)) b2 (tl p)
         else expand_dollar env (zbuf (pm + 2) s) (int (length s)) b2 p)"
      have "expands_to pm s n tx rest r"
        using expand_paren_correct [OF less.prems(5,6,1,2,3) p(2)] expand_dollar_correct [OF less.prems(5,6,1,2,3) p(1)]
          piece unfolding r_def by (auto split: if_splits)
      then obtain b2' where b2': "length b2' = pm + 2" and r: "r = Some (if n \<le> pm + 1 \<and> length s + length tx \<le> pm
          then Some (zbuf (pm + 2) (s @ tx), int (length s + length tx), b2', rest) else None)"
        unfolding expands_to_def by blast
      have e: "expand_loop env (zbuf (pm + 2) s) (int (length s)) b2 path = do {
          r' \<leftarrow> r;
          (case r' of None \<Rightarrow> Some None | Some (b, i', b2, path') \<Rightarrow> expand_loop env b i' b2 path') }"
        using dollar less.prems(6) unfolding Cons r_def paren_def by (subst expand_loop.simps) simp
      show ?thesis
      proof (cases "n \<le> pm + 1 \<and> length s + length tx \<le> pm")
        case True
        then show ?thesis
          using less.hyps [of rest "s @ tx" b2'] less.prems rest b2' unfolding e r ps
          by (simp add: Let_def del: add_2_eq_Suc' split: if_splits)
      next
        case False
        then show ?thesis unfolding e r ps by (auto simp del: add_2_eq_Suc')
      qed
    qed
  qed
qed

text \<open>The directory that a tilde stands for, the part of the path it replaces, and its bound.\<close>

definition home_piece :: "path_env \<Rightarrow> string ptr \<Rightarrow> string \<Rightarrow> (string \<times> string) option" where
  "home_piece env home path =
     (if path = [] \<or> hd path \<noteq> CHR ''~'' then Some ([], path)
      else (let name = takeWhile (\<lambda>c. c \<noteq> SLASH) (tl path); rest = dropWhile (\<lambda>c. c \<noteq> SLASH) (tl path)
            in if name = []
               then (let h = fst (wgethomedir env home) in if length h \<le> path_max env then Some (h, rest) else None)
               else if length name > path_max env + 1 then None
               else (case getuserhomedir env name of
                       None \<Rightarrow> None
                     | Some h \<Rightarrow> if length h \<le> path_max env + 1 then Some (h, rest) else None)))"

definition home_after :: "path_env \<Rightarrow> string ptr \<Rightarrow> string \<Rightarrow> string ptr" where
  "home_after env home path =
     (if path \<noteq> [] \<and> hd path = CHR ''~'' \<and> (tl path = [] \<or> hd (tl path) = SLASH)
      then snd (wgethomedir env home) else home)"

definition expansion :: "path_env \<Rightarrow> string ptr \<Rightarrow> string \<Rightarrow> string ptr" where
  "expansion env home path =
     (case home_piece env home path of
        None \<Rightarrow> NULL
      | Some (h, rest) \<Rightarrow>
          if fits (path_max env) (length h) (pieces env rest)
          then Some (h @ concat (map piece_text (pieces env rest))) else NULL)"

lemma wstrlcpy_zbuf:
  assumes "length src < n"
  shows "wstrlcpy (zbuf n []) src n = Some (zbuf n src, length src)"
proof -
  have "cpy_loop (zbuf n p) (length p) m src = Some (zbuf n (p @ src), length (p @ src) + (if length src < m then 1 else 0), length src < m)"
    if "length p + m < n" "length src \<le> m" for p m
    using that
  proof (induction src arbitrary: p m)
    case Nil
    then show ?case using zbuf_write_zero [of p "length p" n] by (cases m) auto
  next
    case (Cons c src)
    then obtain k where k: "m = Suc k" by (cases m) auto
    show ?case using Cons.IH [of "p @ [c]" k] Cons.prems zbuf_write [of p n c] by (simp add: k)
  qed
  from this [of "[]" "n - 1"] show ?thesis
    using assms zbuf_write_zero [of src "length src" n]
    by (cases "length src < n - 1") (auto simp: wstrlcpy_def simp flip: of_nat_diff dest!: not_less_less_Suc_eq [THEN iffD1])
qed

lemma expand_home_correct:
  assumes env: "env_ok env" and m: "path_max env = pm" and path: "EOS \<notin> set path" and b2: "length b2 = pm + 2"
    and home: "\<forall>h. home = Some h \<longrightarrow> EOS \<notin> set h"
  shows "\<exists>b2'. length b2' = pm + 2 \<and>
    expand_home env home (zbuf (pm + 2) []) b2 path =
      Some (home_after env home path,
            map_option (\<lambda>(h, rest). (zbuf (pm + 2) h, b2', rest)) (home_piece env home path))"
    and "home_piece env home path = Some (h, rest) \<Longrightarrow> EOS \<notin> set h \<and> EOS \<notin> set rest \<and> length h \<le> pm + 1"
proof -
  have h: "EOS \<notin> set (fst (wgethomedir env home))"
    using env home by (auto simp: wgethomedir_def env_ok_def Let_def wstrdup_def split: option.splits)
  have u: "EOS \<notin> set d" if "getuserhomedir env n = Some d" for n d
    using env that by (auto simp: getuserhomedir_def env_ok_def split: option.splits)
  have p: "EOS \<notin> set (tl path)" using path by (auto dest: set_tl)
  have d: "EOS \<notin> set (dropWhile P (tl path))" for P using p by (auto dest: set_dropWhileD)
  show "home_piece env home path = Some (h, rest) \<Longrightarrow> EOS \<notin> set h \<and> EOS \<notin> set rest \<and> length h \<le> pm + 1"
    using h u d path by (auto simp: home_piece_def Let_def m split: if_splits option.splits)
  let ?name = "takeWhile (\<lambda>c. c \<noteq> SLASH) (tl path)"
  consider (plain) "path = [] \<or> hd path \<noteq> CHR ''~''"
    | (own) "path \<noteq> []" "hd path = CHR ''~''" "tl path = [] \<or> hd (tl path) = SLASH"
    | (user) "path \<noteq> []" "hd path = CHR ''~''" "tl path \<noteq> []" "hd (tl path) \<noteq> SLASH" by blast
  then show "\<exists>b2'. length b2' = pm + 2 \<and>
    expand_home env home (zbuf (pm + 2) []) b2 path =
      Some (home_after env home path,
            map_option (\<lambda>(h, rest). (zbuf (pm + 2) h, b2', rest)) (home_piece env home path))"
  proof cases
    case plain
    then show ?thesis using b2 by (intro exI [of _ b2]) (auto simp: expand_home_def home_piece_def home_after_def)
  next
    case own
    obtain hd' home' where w: "wgethomedir env home = (hd', home')" by fastforce
    have n: "?name = []" "dropWhile (\<lambda>c. c \<noteq> SLASH) (tl path) = tl path"
      using own(3) by (cases "tl path"; auto)+
    have "wstrlcpy (zbuf (pm + 2) []) hd' (pm + 2) = Some (zbuf (pm + 2) hd', length hd')" if "length hd' \<le> pm"
      by (rule wstrlcpy_zbuf) (use that in simp)
    then show ?thesis
      using own b2 by (intro exI [of _ b2]) (auto simp: expand_home_def home_piece_def home_after_def n w m Let_def)
  next
    case user
    then have n: "?name \<noteq> []" by (cases "tl path") auto
    show ?thesis
    proof (cases "length ?name \<le> pm + 1")
      case True
      obtain b where b: "collect_user pm b2 0 (tl path) = Some (Some (b, dropWhile (\<lambda>c. c \<noteq> SLASH) (tl path)))"
        "read_string b = Some ?name" "length b = pm + 2"
        using collect_user_name [OF b2 p user(3,4)] True by auto
      have "\<exists>b'. wstrlcat (zbuf (pm + 2) []) dir (pm + 2) = Some (b', length dir) \<and> (length dir < pm + 2 \<longrightarrow> b' = zbuf (pm + 2) dir)"
        if "EOS \<notin> set dir" for dir
        using wstrlcat_zbuf [of "[]" "pm + 2" dir] wstrlcat_zbuf_full [of "[]" dir "pm + 2"] that
        by (cases "length dir < pm + 2") auto
      then have w: "getuserhomedir env ?name = Some dir \<Longrightarrow> \<exists>b'. wstrlcat (zbuf (pm + 2) []) dir (pm + 2) = Some (b', length dir) \<and>
          (length dir < pm + 2 \<longrightarrow> b' = zbuf (pm + 2) dir)" for dir using u by blast
      show ?thesis
      proof (cases "getuserhomedir env ?name")
        case None
        then show ?thesis
          using user b n True
          by (intro exI [of _ b]) (simp add: expand_home_def home_piece_def home_after_def m Let_def)
      next
        case (Some dir)
        obtain b' where "wstrlcat (zbuf (pm + 2) []) dir (pm + 2) = Some (b', length dir)"
          "length dir < pm + 2 \<longrightarrow> b' = zbuf (pm + 2) dir" using w [OF Some] by blast
        then show ?thesis
          using user b n True Some
          by (intro exI [of _ b])
            (auto simp: expand_home_def home_piece_def home_after_def m Let_def simp del: add_2_eq_Suc')
      qed
    next
      case False
      then have "collect_user pm b2 0 (tl path) = Some None"
        using collect_user_name [OF b2 p user(3,4)] by auto
      then show ?thesis
        using user b2 n False
        by (intro exI [of _ b2]) (auto simp: expand_home_def home_piece_def home_after_def m Let_def)
    qed
  qed
qed

lemma fits_text: "fits pm i ps \<Longrightarrow> i \<le> pm + 1 \<Longrightarrow> i + length (concat (map piece_text ps)) \<le> pm + 1"
  by (induction pm i ps rule: fits.induct) auto

lemma pieces_text: "EOS \<notin> set path \<Longrightarrow> env_ok env \<Longrightarrow> EOS \<notin> set (concat (map piece_text (pieces env path)))"
proof (induction "length path" arbitrary: path rule: less_induct)
  case less
  show ?case
  proof (cases path)
    case (Cons c p)
    show ?thesis
    proof (cases "c = CHR ''$''")
      case True
      have p: "EOS \<notin> set p" "EOS \<notin> set (tl p)" using less.prems(1) Cons by (auto dest: set_tl)
      obtain n tx rest where q: "(if p \<noteq> [] \<and> hd p = CHR ''('' then paren_piece env (tl p) else dollar_piece env p) = (n, tx, rest)"
        by (metis prod_cases3)
      then have "EOS \<notin> set rest \<and> EOS \<notin> set tx \<and> length rest < length path"
        using piece_rest [of env "tl p" n tx rest, OF _ p(2) less.prems(2)]
          piece_rest [of env p n tx rest, OF _ p(1) less.prems(2)] Cons
        by (cases "p \<noteq> [] \<and> hd p = CHR ''(''"; cases p; force)
      then show ?thesis using less.hyps [of rest] less.prems(2) q
        unfolding Cons True pieces_dollar by (auto split: if_splits)
    next
      case False
      then show ?thesis using less.hyps [of p] less.prems Cons by (auto simp: pieces.simps)
    qed
  qed (simp add: pieces.simps)
qed

definition home_ok :: "string ptr \<Rightarrow> bool" where
  "home_ok home \<longleftrightarrow> (\<forall>h. home = Some h \<longrightarrow> EOS \<notin> set h)"

lemma wexpandpath_expansion:
  assumes "env_ok env" and "home_ok home" and "EOS \<notin> set path"
  shows "wexpandpath env home path = Some (expansion env home path, home_after env home path)"
proof -
  define pm where "pm = path_max env"
  have ms: "mem_set (replicate (pm + 2) Undef) 0 EOS (int pm + 2) = Some (zbuf (pm + 2) [])"
    by (simp add: mem_set_def zbuf_def map_replicate nat_add_distrib)
  obtain b2 where b2: "length b2 = pm + 2" and h: "expand_home env home (zbuf (pm + 2) []) (replicate (pm + 2) Undef) path =
      Some (home_after env home path, map_option (\<lambda>(h, rest). (zbuf (pm + 2) h, b2, rest)) (home_piece env home path))"
    using expand_home_correct(1) [OF assms(1) pm_def [symmetric] assms(3) _ assms(2) [unfolded home_ok_def]]
    by (metis length_replicate)
  show ?thesis
  proof (cases "home_piece env home path")
    case None
    then show ?thesis using ms h by (simp add: wexpandpath_def expansion_def Let_def pm_def [symmetric] del: add_2_eq_Suc')
  next
    case (Some hr)
    obtain hm rest where hr: "hr = (hm, rest)" by fastforce
    have ok: "EOS \<notin> set hm" "EOS \<notin> set rest" "length hm \<le> pm + 1"
      using expand_home_correct(2) [OF assms(1) pm_def [symmetric] assms(3) b2 assms(2) [unfolded home_ok_def]] Some hr by auto
    have rd: "read_string (zbuf (pm + 2) hm) = Some hm" using ok by (intro read_zbuf) auto
    note loop = expand_loop_correct [OF ok(1,3) b2 ok(2) assms(1) pm_def [symmetric]]
    show ?thesis
    proof (cases "fits pm (length hm) (pieces env rest)")
      case True
      let ?t = "hm @ concat (map piece_text (pieces env rest))"
      have "read_string (zbuf (pm + 2) ?t) = Some ?t"
        using fits_text [OF True] ok pieces_text [OF ok(2) assms(1)] by (intro read_zbuf) auto
      then show ?thesis
        using loop ms h rd True Some hr
        by (simp add: wexpandpath_def expansion_def Let_def wstrdup_def pm_def [symmetric] del: add_2_eq_Suc')
    next
      case False
      then obtain r where "expand_loop env (zbuf (pm + 2) hm) (int (length hm)) b2 rest = Some r" "\<forall>b. r \<noteq> Some (b, [])"
        using loop by auto
      then show ?thesis
        using ms h rd False Some hr
        by (auto simp: wexpandpath_def expansion_def Let_def pm_def [symmetric] simp del: add_2_eq_Suc' split: option.split)
    qed
  qed
qed


text \<open>
  C30: \<open>wexpandpath\<close> never accesses its two buffers outside, whatever the path and the environment
  contain. It returns the path with a leading tilde (with or without the name of a user) replaced by the home directory and
  with \<open>$(NAME)\<close> and \<open>$NAME\<close> replaced by their values, where names without a value stay as they
  are written, and NULL exactly when the user is unknown or an intermediate result does not fit \<open>PATH_MAX\<close>;
  what it returns has at most \<open>PATH_MAX + 1\<close> characters.
\<close>

theorem expand_path_correct:
  assumes "env_ok env" and "home_ok home" and "EOS \<notin> set path"
  shows "wexpandpath env home path = Some (expansion env home path, home_after env home path) \<and>
    (case expansion env home path of None \<Rightarrow> True | Some t \<Rightarrow> length t \<le> path_max env + 1 \<and> EOS \<notin> set t)"
proof -
  have "length t \<le> path_max env + 1 \<and> EOS \<notin> set t" if t: "expansion env home path = Some t" for t
  proof -
    obtain h rest where hr: "home_piece env home path = Some (h, rest)" "fits (path_max env) (length h) (pieces env rest)"
      and t: "t = h @ concat (map piece_text (pieces env rest))"
      using t by (auto simp: expansion_def split: option.splits if_splits)
    have "EOS \<notin> set h \<and> EOS \<notin> set rest \<and> length h \<le> path_max env + 1"
      using expand_home_correct(2) [OF assms(1) refl assms(3) _ assms(2) [unfolded home_ok_def] hr(1)]
      by (metis length_replicate)
    then show ?thesis using fits_text [OF hr(2)] pieces_text [of rest env] assms(1) unfolding t by simp
  qed
  then show ?thesis using wexpandpath_expansion [OF assms] by (auto split: option.split)
qed

definition example_env :: path_env where
  "example_env = \<lparr>path_max = 20, getenv = (\<lambda>n. if n = ''A'' then Some ''/a'' else NULL),
     secure_getenv = (\<lambda>n. if n = ''HOME'' then Some ''/h'' else NULL), pw_of_user = NULL,
     pw_of_name = (\<lambda>n. if n = ''joe'' then Some (Some ''/joe'') else NULL),
     exists = (\<lambda>f. f = ''/a/x'')\<rparr>"

lemma example_env_ok: "env_ok example_env" "home_ok NULL"
  by (auto simp: env_ok_def example_env_def home_ok_def split: if_splits)

lemma expand_path_correct_witness:
  "wexpandpath example_env NULL ''~joe/$(A)$B'' = Some (Some ''/joe//a$B'', NULL) \<and>
   wexpandpath example_env NULL ''~joe/$(A)$(A)$(A)$(A)$(A)$(A)$(A)$(A)$(A)'' = Some (NULL, NULL)"
proof -
  have "expansion example_env NULL ''~joe/$(A)$B'' = Some ''/joe//a$B''"
    "expansion example_env NULL ''~joe/$(A)$(A)$(A)$(A)$(A)$(A)$(A)$(A)$(A)'' = NULL"
    by (simp_all add: expansion_def home_piece_def getuserhomedir_def example_env_def pieces.simps Let_def)
  moreover have "home_after example_env NULL ''~joe/$(A)$B'' = NULL"
    "home_after example_env NULL ''~joe/$(A)$(A)$(A)$(A)$(A)$(A)$(A)$(A)$(A)'' = NULL"
    by (simp_all add: home_after_def)
  ultimately show ?thesis
    using expand_path_correct [OF example_env_ok, of "''~joe/$(A)$B''"]
      expand_path_correct [OF example_env_ok, of "''~joe/$(A)$(A)$(A)$(A)$(A)$(A)$(A)$(A)$(A)''"] by simp
qed

text \<open>A path without special characters stays as it is.\<close>

lemma pieces_plain: "CHR ''$'' \<notin> set path \<Longrightarrow> pieces env path = map Literal path"
  by (induction path) (auto simp: pieces.simps)

lemma fits_plain: "fits pm i (map Literal path) \<longleftrightarrow> path = [] \<or> i + length path \<le> pm + 1"
  by (induction path arbitrary: i) auto

lemma expansion_plain:
  assumes "CHR ''$'' \<notin> set path" "path = [] \<or> hd path \<noteq> CHR ''~''" "length path \<le> path_max env + 1"
  shows "expansion env home path = Some path"
  using assms by (auto simp: expansion_def home_piece_def pieces_plain fits_plain comp_def)

section \<open>Searches\<close>

definition candidate :: "bool \<Rightarrow> string \<Rightarrow> string \<Rightarrow> string" where
  "candidate check dir file = (if check \<and> last dir = SLASH then dir @ file else dir @ SLASH # file)"

lemma append_all_zbuf:
  "EOS \<notin> set s \<Longrightarrow> EOS \<notin> set (concat ts) \<Longrightarrow> length s + length (concat ts) < n \<Longrightarrow>
   append_all n (zbuf n s) ts = Some (Some (zbuf n (s @ concat ts)))"
proof (induction ts arbitrary: s)
  case (Cons t ts)
  then show ?case using append_to_zbuf [of s t n] Cons.IH [of "s @ t"] by auto
qed simp

lemma build_path_candidate:
  assumes "EOS \<notin> set dir" "EOS \<notin> set file" "check \<longrightarrow> dir \<noteq> []"
  shows "build_path check dir file = Some (Some (candidate check dir file))"
proof -
  let ?n = "length dir + length file + 2"
  have m: "mem_copy (wmalloc_block EOS (int ?n)) 0 (map Cell dir) 0 (int (length dir)) = Some (zbuf ?n dir)"
    by (simp add: mem_copy_def wmalloc_block_def zbuf_def map_replicate del: add_2_eq_Suc')
  have w: "cell_write (zbuf ?n dir) (int (length dir)) EOS = Some (zbuf ?n dir)"
    by (rule zbuf_write_zero) simp_all
  have r: "cell_read (zbuf ?n dir) (int (length dir) - 1) = Some (last dir)" if "dir \<noteq> []"
    using that cell_read_map_Cell [of "int (length dir) - 1" dir "map Cell (replicate (?n - length dir) EOS)"]
    by (cases dir) (auto simp: zbuf_def last_conv_nth nat_diff_distrib)
  define slash where "slash = (\<not> (check \<and> last dir = SLASH))"
  let ?ts = "(if slash then [''/''] else []) @ [file]"
  have t: "concat ?ts = (if slash then SLASH # file else file)" by simp
  have a: "append_all ?n (zbuf ?n dir) ?ts = Some (Some (zbuf ?n (dir @ concat ?ts)))"
    by (rule append_all_zbuf) (use assms in auto)
  have rd: "read_string (zbuf ?n (dir @ concat ?ts)) = Some (dir @ concat ?ts)"
    by (rule read_zbuf) (use assms in auto)
  have s: "(if check then do { c \<leftarrow> cell_read (zbuf ?n dir) (int (length dir) - 1); Some (c \<noteq> SLASH) } else Some True) = Some slash"
    using r assms(3) by (auto simp: slash_def)
  have c: "candidate check dir file = dir @ concat ?ts" unfolding t by (auto simp: candidate_def slash_def)
  show ?thesis
    unfolding build_path_def Let_def m c using w s a rd by (simp del: add_2_eq_Suc' concat.simps concat_append)
qed

text \<open>The static variable caches the home directory, so the order of the expansions does not matter.\<close>

lemma wgethomedir_after: "fst (wgethomedir env (home_after env home p)) = fst (wgethomedir env home)"
  by (auto simp: home_after_def wgethomedir_def Let_def split: option.splits)

lemma expansion_after: "expansion env (home_after env home p) q = expansion env home q"
  by (simp add: expansion_def home_piece_def wgethomedir_after Let_def)

lemma home_ok_after: "env_ok env \<Longrightarrow> home_ok home \<Longrightarrow> home_ok (home_after env home p)"
  by (auto simp: home_ok_def home_after_def wgethomedir_def env_ok_def wstrdup_def Let_def split: option.splits if_splits)

text \<open>The first directory that has the file; \<open>ds\<close> are the directories.\<close>

definition first_found :: "path_env \<Rightarrow> string ptr \<Rightarrow> bool \<Rightarrow> string \<Rightarrow> string list \<Rightarrow> string ptr" where
  "first_found env home check file ds =
     find (exists env) (List.map_filter (\<lambda>dir. expansion env home (candidate check dir file)) ds)"

lemma first_found_after: "first_found env (home_after env home p) = first_found env home"
  by (intro ext) (simp add: first_found_def expansion_after)

lemma first_found_Cons:
  "first_found env home check file (d # ds) =
     (case expansion env home (candidate check d file) of
        Some f \<Rightarrow> if exists env f then Some f else first_found env home check file ds
      | None \<Rightarrow> first_found env home check file ds)"
  by (simp add: first_found_def List.map_filter_simps split: option.split)

lemma try_dir_correct:
  assumes "env_ok env" "home_ok home" "EOS \<notin> set dir" "EOS \<notin> set file" "check \<longrightarrow> dir \<noteq> []"
  shows "try_dir env home check dir file =
    Some (Some (case expansion env home (candidate check dir file) of
                  None \<Rightarrow> NULL | Some f \<Rightarrow> if exists env f then Some f else NULL),
          home_after env home (candidate check dir file))"
proof -
  have "EOS \<notin> set (candidate check dir file)" using assms by (auto simp: candidate_def)
  then show ?thesis
    using wexpandpath_expansion [OF assms(1)] assms(2) build_path_candidate [OF assms(3-5)]
    by (simp add: try_dir_def)
qed

text \<open>The list of the directories between the colons.\<close>

fun split_at :: "char \<Rightarrow> string \<Rightarrow> string list" where
  "split_at x [] = [[]]"
| "split_at x (c # s) =
     (if c = x then [] # split_at x s else (c # hd (split_at x s)) # tl (split_at x s))"

definition dirs :: "string \<Rightarrow> string list" where
  "dirs paths = filter (\<lambda>d. d \<noteq> []) (split_at (CHR '':'') paths)"

lemma split_at_nonempty [simp]: "split_at x s \<noteq> []"
  by (cases s) auto

lemma dirs_skipchar: "dirs (skipchar s (CHR '':'')) = dirs s"
  by (induction s) (auto simp: dirs_def)

lemma split_at_nextchar:
  "split_at x s = take (length s - length (nextchar s x)) s #
     (case nextchar s x of [] \<Rightarrow> [] | c # r \<Rightarrow> split_at x r)"
proof (induction s)
  case (Cons c s)
  then show ?case
    using nextchar_length [of s x] by (auto simp: Suc_diff_le)
qed simp

lemma skipchar_hd: "skipchar s x \<noteq> [] \<Longrightarrow> hd (skipchar s x) \<noteq> x"
  by (induction s) auto

lemma nextchar_hd: "nextchar s x = c # r \<Longrightarrow> c = x"
  by (induction s) (auto split: if_splits)

lemma dirs_nextchar:
  "dirs s = (let d = take (length s - length (nextchar s (CHR '':''))) s in
     (if d = [] then [] else [d]) @ dirs (nextchar s (CHR '':'')))"
proof (cases "nextchar s (CHR '':'')")
  case Nil
  then show ?thesis using split_at_nextchar [of "CHR '':''" s] by (simp add: dirs_def)
next
  case (Cons c r)
  then show ?thesis
    using split_at_nextchar [of "CHR '':''" s] nextchar_hd [OF Cons] by (simp add: dirs_def Let_def)
qed

lemma dirs_step:
  assumes "skipchar s (CHR '':'') = c # t"
  shows "dirs s = take (length (c # t) - length (nextchar (c # t) (CHR '':''))) (c # t) #
           dirs (nextchar (c # t) (CHR '':''))"
proof -
  have "c \<noteq> CHR '':''" using skipchar_hd [of s "CHR '':''"] assms by simp
  then have "length (nextchar (c # t) (CHR '':'')) < length (c # t)"
    using nextchar_length [of t "CHR '':''"] by simp
  then have ne: "take (length (c # t) - length (nextchar (c # t) (CHR '':''))) (c # t) \<noteq> []" by simp
  have "dirs s = dirs (c # t)" using dirs_skipchar [of s] assms by simp
  also have "\<dots> = take (length (c # t) - length (nextchar (c # t) (CHR '':''))) (c # t) #
      dirs (nextchar (c # t) (CHR '':''))"
    by (subst dirs_nextchar) (simp only: Let_def ne if_False append_Cons append_Nil)
  finally show ?thesis .
qed

lemma set_skipchar: "set (skipchar s x) \<subseteq> set s"
  by (induction s) auto

lemma set_nextchar: "set (nextchar s x) \<subseteq> set s"
  by (induction s) auto

lemma find_paths_correct:
  "env_ok env \<Longrightarrow> home_ok home \<Longrightarrow> EOS \<notin> set file \<Longrightarrow> EOS \<notin> set tmp \<Longrightarrow>
   \<exists>home'. find_paths env home file tmp = Some (first_found env home True file (dirs tmp), home')"
proof (induction "length tmp" arbitrary: tmp home rule: less_induct)
  case less
  show ?case
  proof (cases "skipchar tmp (CHR '':'')")
    case Nil
    then have "dirs tmp = []" using dirs_skipchar [of tmp] by (simp add: dirs_def)
    then show ?thesis using Nil by (simp add: find_paths.simps [of env home] first_found_def List.map_filter_simps)
  next
    case (Cons c t)
    let ?rest = "nextchar (c # t) (CHR '':'')"
    let ?d = "take (length (c # t) - length ?rest) (c # t)"
    have ds: "dirs tmp = ?d # dirs ?rest" by (rule dirs_step [OF Cons])
    have "?d \<in> set (dirs tmp)" unfolding ds by (rule list.set_intros(1))
    then have ne: "?d \<noteq> []" by (simp only: dirs_def set_filter mem_Collect_eq) simp
    have chars: "set (c # t) \<subseteq> set tmp" "set ?rest \<subseteq> set tmp" "set ?d \<subseteq> set tmp"
      using set_skipchar [of tmp "CHR '':''"] set_nextchar [of "c # t" "CHR '':''"] set_take_subset [of _ "c # t"]
      unfolding Cons by blast+
    have step: "try_dir env home True ?d file =
      Some (Some (case expansion env home (candidate True ?d file) of
                  None \<Rightarrow> NULL | Some f \<Rightarrow> if exists env f then Some f else NULL),
          home_after env home (candidate True ?d file))" (is "_ = Some (Some ?r, ?h)")
      by (rule try_dir_correct [OF less.prems(1,2) _ less.prems(3)]) (use chars less.prems(4) ne in auto)
    obtain home' where ih: "find_paths env ?h file ?rest = Some (first_found env home True file (dirs ?rest), home')"
      using less.hyps [of ?rest ?h] nextchar_skipchar [of tmp "CHR '':''"] less.prems chars home_ok_after [OF less.prems(1,2)]
      unfolding Cons first_found_after by blast
    have "tmp \<noteq> []" using Cons by auto
    then have "find_paths env home file tmp = do {
        (r, home') \<leftarrow> try_dir env home True ?d file;
        (case r of
           None \<Rightarrow> Some (NULL, home')
         | Some (Some f) \<Rightarrow> Some (Some f, home')
         | Some None \<Rightarrow> find_paths env home' file ?rest) }"
      by (subst find_paths.simps) (simp only: Cons Let_def if_False list.distinct)
    also have "\<dots> = (case ?r of Some f \<Rightarrow> Some (Some f, ?h) | None \<Rightarrow> find_paths env ?h file ?rest)"
      unfolding step by (simp split: option.split)
    finally have "find_paths env home file tmp =
        (case ?r of Some f \<Rightarrow> Some (Some f, ?h) | None \<Rightarrow> find_paths env ?h file ?rest)" .
    then show ?thesis unfolding ds first_found_Cons ih by (auto split: option.splits if_splits)
  qed
qed

lemma find_list_correct:
  "env_ok env \<Longrightarrow> home_ok home \<Longrightarrow> EOS \<notin> set file \<Longrightarrow> \<forall>d \<in> set ds. EOS \<notin> set d \<Longrightarrow>
   \<exists>home'. find_list env home file ds = Some (first_found env home False file ds, home')"
proof (induction ds arbitrary: home)
  case (Cons d ds)
  let ?h = "home_after env home (candidate False d file)"
  obtain home' where ih: "find_list env ?h file ds = Some (first_found env home False file ds, home')"
    using Cons.IH [of ?h] Cons.prems home_ok_after [OF Cons.prems(1,2)] unfolding first_found_after by auto
  show ?case
    using try_dir_correct [OF Cons.prems(1,2) _ Cons.prems(3), of d False] Cons.prems(4) ih
    by (auto simp: first_found_Cons split: option.split)
qed (simp add: first_found_def List.map_filter_simps)

lemma find_array_list:
  assumes "length xs = length ds" "\<forall>i < length xs. xs ! i = PLString (ds ! i)"
  shows "i \<le> length xs \<Longrightarrow> find_array env home file (PLArray xs) i = find_list env home file (drop i ds)"
proof (induction "length xs - i" arbitrary: i home)
  case 0
  then show ?case using assms(1) by (subst find_array.simps) (simp add: WMGetPropListItemCount_def)
next
  case (Suc n)
  then have i: "i < length xs" "drop i ds = ds ! i # drop (Suc i) ds"
    using assms(1) by (auto simp: Cons_nth_drop_Suc)
  have "find_array env home' file (PLArray xs) (i + 1) = find_list env home' file (drop (Suc i) ds)" for home'
    using Suc by (simp only:) simp
  then show ?case
    using i assms(2)
    by (subst find_array.simps)
      (simp add: WMGetPropListItemCount_def WMGetFromPLArray_def WMGetFromPLString_def cong: option.case_cong)
qed

text \<open>A name that is looked up in the list, and what happens to the others.\<close>

definition found_directly :: "path_env \<Rightarrow> string ptr \<Rightarrow> string \<Rightarrow> string ptr" where
  "found_directly env home file =
     (if exists env file then Some file
      else case expansion env home file of None \<Rightarrow> NULL | Some f \<Rightarrow> if exists env f then Some f else NULL)"

lemma find_direct_correct:
  "env_ok env \<Longrightarrow> home_ok home \<Longrightarrow> EOS \<notin> set file \<Longrightarrow>
   \<exists>home'. find_direct env home file = Some (found_directly env home file, home')"
  using wexpandpath_expansion [of env home "file"]
  by (auto simp: find_direct_def found_directly_def wstrdup_def split: option.split)

text \<open>
  C31: \<open>wfindfile\<close> returns the expanded path of the file in the first directory of the colon separated
  list that has it, NULL if none has. Empty directories are skipped, and a directory whose path
  does not fit \<open>PATH_MAX\<close> counts as one without the file. A name that starts with a slash, a tilde or a
  dollar sign is not looked up: it is taken as it is when it exists, else expanded. No buffer is
  accessed outside, whatever the environment contains.
\<close>

theorem find_file_first:
  assumes "env_ok env" and "home_ok home" and "EOS \<notin> set file" and "EOS \<notin> set paths"
  shows "map_option fst (wfindfile env home (Some paths) (Some file)) =
    Some (if file \<noteq> [] \<and> hd file \<in> {SLASH, CHR ''~'', CHR ''$''} \<or> paths = []
          then found_directly env home file
          else first_found env home True file (dirs paths))"
  using find_paths_correct [OF assms] find_direct_correct [OF assms(1-3)]
  by (auto simp: wfindfile_def)

lemma find_file_first_witness:
  "map_option fst (wfindfile example_env NULL (Some ''~:$(A)/'') (Some ''x'')) = Some (Some ''/a/x'')"
proof -
  have "first_found example_env NULL True ''x'' (dirs ''~:$(A)/'') = Some ''/a/x''"
    by (simp add: first_found_def dirs_def List.map_filter_simps candidate_def expansion_def home_piece_def
        wgethomedir_def getuserhomedir_def example_env_def pieces.simps wstrdup_def Let_def)
  then show ?thesis
    using find_file_first [OF example_env_ok, of "''x''" "''~:$(A)/''"] by simp
qed

lemma find_in_list_first:
  assumes "env_ok env" and "home_ok home" and "EOS \<notin> set file" and "\<forall>d \<in> set ds. EOS \<notin> set d"
  shows "map_option fst (wfindfileinlist env home (Some ds) (Some file)) =
    Some (if file \<noteq> [] \<and> hd file \<in> {SLASH, CHR ''~''} then found_directly env home file
          else first_found env home False file ds)"
  using find_list_correct [OF assms] find_direct_correct [OF assms(1-3)]
  by (auto simp: wfindfileinlist_def)

lemma find_in_array_first:
  assumes "env_ok env" and "home_ok home" and "EOS \<notin> set file" and "\<forall>d \<in> set ds. EOS \<notin> set d"
  shows "map_option fst (wfindfileinarray env home (Some (PLArray (map PLString ds))) (Some file)) =
    Some (if file \<noteq> [] \<and> hd file \<in> {SLASH, CHR ''~''} then found_directly env home file
          else first_found env home False file ds)"
  using find_list_correct [OF assms] find_direct_correct [OF assms(1-3)]
    find_array_list [of "map PLString ds" ds 0 env home "file"]
  by (auto simp: wfindfileinarray_def)

text \<open>An element that is not a string is used as one: \<open>strlen\<close> of NULL.\<close>

lemma find_in_array_needs_strings:
  "wfindfileinarray env home (Some (PLArray [PLArray []])) (Some ''x'') = None"
  by (simp add: wfindfileinarray_def find_array.simps WMGetPropListItemCount_def WMGetFromPLArray_def WMGetFromPLString_def)

end
