(* ===== verification/WMCopyFile.thy ===== *)
theory WMCopyFile
  imports WMStrings
begin

text \<open>
  \<open>wcopy_file\<close> of \<open>WMcore/findfile.c\<close>. The system calls are a parameter, functions of a state of the
  system. \<open>None\<close> is a copy that does not return.
\<close>

section \<open>System calls\<close>

text \<open>A call that fails leaves \<open>errno\<close>, of which the code looks at \<open>EINTR\<close> only.\<close>

datatype errno = EINTR | EOTHER

type_synonym byte = "8 word"

record 'w sys =
  open_source :: "string \<Rightarrow> 'w \<Rightarrow> (errno + unit) \<times> 'w"
  fstat_source :: "'w \<Rightarrow> 32 word option \<times> 'w"
  open_target :: "string \<Rightarrow> 'w \<Rightarrow> (errno + unit) \<times> 'w"
  malloc_buffer :: "nat \<Rightarrow> 'w \<Rightarrow> bool \<times> 'w"
  read_source :: "nat \<Rightarrow> 'w \<Rightarrow> (errno + byte list) \<times> 'w"
  write_target :: "byte list \<Rightarrow> 'w \<Rightarrow> (errno + nat) \<times> 'w"
  fchmod_target :: "32 word \<Rightarrow> 'w \<Rightarrow> bool \<times> 'w"
  close_target :: "'w \<Rightarrow> bool \<times> 'w"
  close_source :: "'w \<Rightarrow> bool \<times> 'w"
  unlink_file :: "string \<Rightarrow> 'w \<Rightarrow> bool \<times> 'w"

text \<open>\<open>S_ISREG\<close>, and the bits of the mode that are kept (\<open>07777\<close>).\<close>

unbundle bit_operations_syntax

definition S_ISREG :: "32 word \<Rightarrow> bool" where
  "S_ISREG m \<longleftrightarrow> m AND 0xF000 = 0x8000"

definition permissions :: "32 word \<Rightarrow> 32 word" where
  "permissions m = m AND (0x1C0 OR 0x38 OR 0x7 OR 0x800 OR 0x400 OR 0x200)"

section \<open>The copy\<close>

text \<open>The jumps back to a call that was interrupted (\<open>try_again_src\<close>, \<open>try_again_dst\<close>, \<open>try_again_read\<close>).\<close>

partial_function (option) try_again :: "('w \<Rightarrow> (errno + 'a) \<times> 'w) \<Rightarrow> 'w \<Rightarrow> ((errno + 'a) \<times> 'w) option" where
  "try_again call w =
     (case call w of
        (Inl e, w1) \<Rightarrow> if e = EINTR then try_again call w1 else Some (Inl e, w1)
      | (Inr x, w1) \<Rightarrow> Some (Inr x, w1))"

text \<open>Writing what is in the buffer, from \<open>write_ptr\<close> on.\<close>

partial_function (option) write_loop :: "'w sys \<Rightarrow> byte list \<Rightarrow> 'w \<Rightarrow> ((errno + unit) \<times> 'w) option" where
  "write_loop os bs w =
     (if bs = [] then Some (Inr (), w)
      else (case write_target os bs w of
              (Inl e, w1) \<Rightarrow> if e = EINTR then write_loop os bs w1 else Some (Inl e, w1)
            | (Inr n, w1) \<Rightarrow> write_loop os (drop n bs) w1))"

definition buffer_size :: nat where
  "buffer_size = 2 * 1024 * 1024"

text \<open>The copying loop. \<open>Inl\<close> is a jump to the cleanup, the target closed.\<close>

partial_function (option) copy_loop :: "'w sys \<Rightarrow> 'w \<Rightarrow> ((errno + unit) \<times> 'w) option" where
  "copy_loop os w = do {
     (r, w1) \<leftarrow> try_again (read_source os buffer_size) w;
     (case r of
        Inl e \<Rightarrow> Some (Inl e, snd (close_target os w1))
      | Inr bs \<Rightarrow>
          if bs = [] then Some (Inr (), w1)
          else do {
            (r2, w2) \<leftarrow> write_loop os bs w1;
            (case r2 of
               Inl e \<Rightarrow> Some (Inl e, snd (close_target os w2))
             | Inr u \<Rightarrow> copy_loop os w2) }) }"

text \<open>\<open>cleanup_and_return_failure\<close>\<close>

definition cleanup_failure :: "'w sys \<Rightarrow> string \<Rightarrow> 'w \<Rightarrow> int \<times> 'w" where
  "cleanup_failure os path_dst w = (-1, snd (unlink_file os path_dst (snd (close_source os w))))"

text \<open>From the allocation of the buffer on, the two files being open.\<close>

definition copy_opened :: "'w sys \<Rightarrow> string \<Rightarrow> 32 word \<Rightarrow> 'w \<Rightarrow> (int \<times> 'w) option" where
  "copy_opened os path_dst st_mode w =
     (case malloc_buffer os buffer_size w of
        (False, w1) \<Rightarrow> Some (cleanup_failure os path_dst (snd (close_target os w1)))
      | (True, w1) \<Rightarrow> do {
          (r, w2) \<leftarrow> copy_loop os w1;
          (case r of
             Inl e \<Rightarrow> Some (cleanup_failure os path_dst w2)
           | Inr _ \<Rightarrow>
               (case close_target os (snd (fchmod_target os (permissions st_mode) w2)) of
                  (False, w3) \<Rightarrow> Some (cleanup_failure os path_dst w3)
                | (True, w3) \<Rightarrow> Some (0, snd (close_source os w3)))) })"

text \<open>From the name of the target on.\<close>

definition copy_regular :: "'w sys \<Rightarrow> string \<Rightarrow> string \<Rightarrow> 32 word \<Rightarrow> 'w \<Rightarrow> (int \<times> 'w) option" where
  "copy_regular os dest_dir dest_file st_mode w = do {
     path \<leftarrow> wstrconcat (Some dest_dir) (Some dest_file);
     path_dst \<leftarrow> path;
     (fd_dst, w1) \<leftarrow> try_again (open_target os path_dst) w;
     (case fd_dst of
        Inl e \<Rightarrow> Some (-1, snd (close_source os w1))
      | Inr _ \<Rightarrow> copy_opened os path_dst st_mode w1) }"

definition wcopy_file :: "'w sys \<Rightarrow> string \<Rightarrow> string \<Rightarrow> string \<Rightarrow> 'w \<Rightarrow> (int \<times> 'w) option" where
  "wcopy_file os dest_dir src_file dest_file w = do {
     (fd_src, w1) \<leftarrow> try_again (open_source os src_file) w;
     (case fd_src of
        Inl e \<Rightarrow> Some (-1, w1)
      | Inr _ \<Rightarrow>
          (case fstat_source os w1 of
             (None, w2) \<Rightarrow> Some (-1, snd (close_source os w2))
           | (Some st_mode, w2) \<Rightarrow>
               if \<not> S_ISREG st_mode then Some (-1, snd (close_source os w2))
               else copy_regular os dest_dir dest_file st_mode w2)) }"

section \<open>What is assumed of the system\<close>

text \<open>
  The view of a copy: the bytes of the source that are not read yet, the contents of the target
  (\<open>None\<close>: there is no such file), the open descriptors, and how many calls in a row may still be
  interrupted or write nothing.
\<close>

record files =
  unread :: "byte list"
  target :: "byte list option"
  src_open :: bool
  dst_open :: bool
  patience :: nat

definition same :: "files \<Rightarrow> files \<Rightarrow> bool" where
  "same v v' \<longleftrightarrow> unread v' = unread v \<and> target v' = target v \<and> src_open v' = src_open v \<and> dst_open v' = dst_open v"

definition failed :: "files \<Rightarrow> files \<Rightarrow> errno \<Rightarrow> bool" where
  "failed v v' e \<longleftrightarrow> same v v' \<and> (e = EINTR \<longrightarrow> patience v' < patience v)"

text \<open>
  \<open>posix\<close> is what the manuals say of the calls for a source with the bytes \<open>C\<close> and a target that is another
  file. A failed call changes nothing.
\<close>

definition posix_open :: "'w sys \<Rightarrow> ('w \<Rightarrow> files) \<Rightarrow> string \<Rightarrow> string \<Rightarrow> byte list \<Rightarrow> bool" where
  "posix_open os view src dst C \<longleftrightarrow>
     (\<forall>w. case open_source os src w of
        (Inl e, w1) \<Rightarrow> failed (view w) (view w1) e
      | (Inr u, w1) \<Rightarrow> same ((view w)\<lparr>unread := C, src_open := True\<rparr>) (view w1)) \<and>
     (\<forall>w. case open_target os dst w of
        (Inl e, w1) \<Rightarrow> failed (view w) (view w1) e
      | (Inr u, w1) \<Rightarrow> same ((view w)\<lparr>target := Some [], dst_open := True\<rparr>) (view w1))"

definition posix_io :: "'w sys \<Rightarrow> ('w \<Rightarrow> files) \<Rightarrow> bool" where
  "posix_io os view \<longleftrightarrow>
     (\<forall>n w. case read_source os n w of
        (Inl e, w1) \<Rightarrow> failed (view w) (view w1) e
      | (Inr bs, w1) \<Rightarrow> length bs \<le> n \<and> (bs = [] \<and> 0 < n \<longrightarrow> unread (view w) = []) \<and>
          (\<exists>rest. unread (view w) = bs @ rest \<and> same ((view w)\<lparr>unread := rest\<rparr>) (view w1))) \<and>
     (\<forall>bs w. case write_target os bs w of
        (Inl e, w1) \<Rightarrow> failed (view w) (view w1) e
      | (Inr n, w1) \<Rightarrow> n \<le> length bs \<and> (n = 0 \<and> bs \<noteq> [] \<longrightarrow> patience (view w1) < patience (view w)) \<and>
          same ((view w)\<lparr>target := map_option (\<lambda>t. t @ take n bs) (target (view w))\<rparr>) (view w1))"

definition posix_other :: "'w sys \<Rightarrow> ('w \<Rightarrow> files) \<Rightarrow> string \<Rightarrow> bool" where
  "posix_other os view dst \<longleftrightarrow>
     (\<forall>w. same (view w) (view (snd (fstat_source os w)))) \<and>
     (\<forall>n w. same (view w) (view (snd (malloc_buffer os n w)))) \<and>
     (\<forall>m w. same (view w) (view (snd (fchmod_target os m w)))) \<and>
     (\<forall>w. same ((view w)\<lparr>src_open := False\<rparr>) (view (snd (close_source os w)))) \<and>
     (\<forall>w. same ((view w)\<lparr>dst_open := False\<rparr>) (view (snd (close_target os w)))) \<and>
     (\<forall>w. same (if fst (unlink_file os dst w) then (view w)\<lparr>target := None\<rparr> else view w) (view (snd (unlink_file os dst w))))"

definition posix :: "'w sys \<Rightarrow> ('w \<Rightarrow> files) \<Rightarrow> string \<Rightarrow> string \<Rightarrow> byte list \<Rightarrow> bool" where
  "posix os view src dst C \<longleftrightarrow> posix_open os view src dst C \<and> posix_io os view \<and> posix_other os view dst"

text \<open>A system on which no call of a copy fails.\<close>

definition reliable :: "'w sys \<Rightarrow> string \<Rightarrow> string \<Rightarrow> bool" where
  "reliable os src dst \<longleftrightarrow>
     (\<forall>w w1. open_source os src w \<noteq> (Inl EOTHER, w1)) \<and> (\<forall>w. \<exists>m w1. fstat_source os w = (Some m, w1) \<and> S_ISREG m) \<and>
     (\<forall>w w1. open_target os dst w \<noteq> (Inl EOTHER, w1)) \<and> (\<forall>n w. fst (malloc_buffer os n w)) \<and>
     (\<forall>n w w1. read_source os n w \<noteq> (Inl EOTHER, w1)) \<and> (\<forall>bs w w1. write_target os bs w \<noteq> (Inl EOTHER, w1)) \<and>
     (\<forall>w. fst (close_target os w))"

section \<open>The loops\<close>

lemma errno_cases: "e \<noteq> EINTR \<longleftrightarrow> e = EOTHER"
  by (cases e) auto

text \<open>What a call may do: \<open>ok v x v'\<close> when it succeeds with \<open>x\<close>.\<close>

definition call_spec :: "('w \<Rightarrow> files) \<Rightarrow> (files \<Rightarrow> 'a \<Rightarrow> files \<Rightarrow> bool) \<Rightarrow> ('w \<Rightarrow> (errno + 'a) \<times> 'w) \<Rightarrow> bool" where
  "call_spec view ok call \<longleftrightarrow>
     (\<forall>w. case call w of (Inl e, w1) \<Rightarrow> failed (view w) (view w1) e | (Inr x, w1) \<Rightarrow> ok (view w) x (view w1))"

lemma try_again_returns:
  assumes "call_spec view ok call" and ok: "\<And>u v x v'. same u v \<Longrightarrow> ok v x v' \<Longrightarrow> ok u x v'"
  shows "\<exists>r w1. try_again call w = Some (r, w1) \<and>
    (case r of Inl e \<Rightarrow> same (view w) (view w1) \<and> (\<exists>u u'. call u = (Inl EOTHER, u')) | Inr x \<Rightarrow> ok (view w) x (view w1))"
proof (induction "patience (view w)" arbitrary: w rule: less_induct)
  case less
  obtain r w1 where c: "call w = (r, w1)" by fastforce
  have p: "case r of Inl e \<Rightarrow> failed (view w) (view w1) e | Inr x \<Rightarrow> ok (view w) x (view w1)"
    using assms(1) c unfolding call_spec_def by (metis (no_types, lifting) prod.case)
  show ?case
  proof (cases "r = Inl EINTR")
    case True
    then have s: "same (view w) (view w1)" "patience (view w1) < patience (view w)" using p by (auto simp: failed_def)
    obtain r2 w2 where r2: "try_again call w1 = Some (r2, w2)"
      "case r2 of Inl e \<Rightarrow> same (view w1) (view w2) \<and> (\<exists>u u'. call u = (Inl EOTHER, u'))
        | Inr x \<Rightarrow> ok (view w1) x (view w2)"
      using less [OF s(2)] by blast
    have "try_again call w = Some (r2, w2)"
      using r2(1) by (subst try_again.simps) (simp add: c True)
    then show ?thesis using r2(2) s(1) ok [OF s(1)] by (auto simp: same_def split: sum.splits)
  next
    case False
    then have "try_again call w = Some (r, w1)"
      by (subst try_again.simps) (auto simp: c split: sum.splits)
    then show ?thesis using p c False by (auto simp: failed_def errno_cases split: sum.splits)
  qed
qed

lemma write_loop_returns:
  assumes "posix_io os view" and "target (view w) = Some t"
  shows "\<exists>r w1. write_loop os bs w = Some (r, w1) \<and> unread (view w1) = unread (view w) \<and>
    src_open (view w1) = src_open (view w) \<and> dst_open (view w1) = dst_open (view w) \<and>
    (case r of Inl e \<Rightarrow> (\<exists>u u' cs. write_target os cs u = (Inl EOTHER, u'))
     | Inr _ \<Rightarrow> target (view w1) = Some (t @ bs))"
  using assms(2)
proof (induction "(length bs, patience (view w))" arbitrary: bs w t
      rule: wf_induct_rule [OF wf_lex_prod [OF wf_less_than wf_less_than]])
  case (1 bs w t)
  show ?case
  proof (cases "bs = []")
    case True
    then show ?thesis using "1.prems" by (subst write_loop.simps) simp
  next
    case False
    obtain r w1 where c: "write_target os bs w = (r, w1)" by fastforce
    have p: "case r of Inl e \<Rightarrow> failed (view w) (view w1) e
      | Inr n \<Rightarrow> n \<le> length bs \<and> (n = 0 \<and> bs \<noteq> [] \<longrightarrow> patience (view w1) < patience (view w)) \<and>
          same ((view w)\<lparr>target := map_option (\<lambda>t. t @ take n bs) (target (view w))\<rparr>) (view w1)"
      using assms(1) c unfolding posix_io_def by (metis (no_types, lifting) prod.case)
    show ?thesis
    proof (cases "r = Inl EOTHER")
      case True
      then have "write_loop os bs w = Some (Inl EOTHER, w1)" using False by (subst write_loop.simps) (simp add: c)
      then show ?thesis using True p c by (auto simp: failed_def same_def)
    next
      case again: False
      define n where "n = (case r of Inl e \<Rightarrow> 0 | Inr n \<Rightarrow> n)"
      have w: "write_loop os bs w = write_loop os (drop n bs) w1"
        using False again by (subst write_loop.simps) (auto simp: c n_def errno_cases split: sum.splits)
      have v: "target (view w1) = Some (t @ take n bs)" "n \<le> length bs" "n = 0 \<longrightarrow> patience (view w1) < patience (view w)"
        "unread (view w1) = unread (view w)" "src_open (view w1) = src_open (view w)" "dst_open (view w1) = dst_open (view w)"
        using p "1.prems" again False by (auto simp: n_def failed_def same_def errno_cases split: sum.splits)
      have "((length (drop n bs), patience (view w1)), length bs, patience (view w)) \<in> less_than <*lex*> less_than"
        using v(2,3) False by (cases "n = 0") auto
      from "1.hyps" [OF this v(1)] show ?thesis unfolding w by (simp only: v(4-6) append_assoc append_take_drop_id)
    qed
  qed
qed

text \<open>A call other than the interrupted ones failed.\<close>

definition io_failed :: "'w sys \<Rightarrow> bool" where
  "io_failed os \<longleftrightarrow>
     (\<exists>u u' n. read_source os n u = (Inl EOTHER, u')) \<or> (\<exists>u u' cs. write_target os cs u = (Inl EOTHER, u'))"

lemma copy_loop_returns:
  assumes io: "posix_io os view" and other: "posix_other os view dst" and "target (view w) = Some t"
  shows "\<exists>r w1. copy_loop os w = Some (r, w1) \<and> src_open (view w1) = src_open (view w) \<and>
    (case r of Inl e \<Rightarrow> \<not> dst_open (view w1) \<and> io_failed os
     | Inr _ \<Rightarrow> dst_open (view w1) = dst_open (view w) \<and> target (view w1) = Some (t @ unread (view w)))"
  using assms(3)
proof (induction "length (unread (view w))" arbitrary: w t rule: less_induct)
  case less
  have close: "same ((view w)\<lparr>dst_open := False\<rparr>) (view (snd (close_target os w)))" for w
    using other by (simp add: posix_other_def)
  define ok where "ok v bs v' \<longleftrightarrow> length bs \<le> buffer_size \<and> (bs = [] \<and> 0 < buffer_size \<longrightarrow> unread v = []) \<and>
      (\<exists>rest. unread v = bs @ rest \<and> same (v\<lparr>unread := rest\<rparr>) v')" for v bs v'
  have okI: "ok u x v'" if "same u v" "ok v x v'" for u v x v'
    using that unfolding ok_def same_def by auto
  have spec: "call_spec view ok (read_source os buffer_size)"
    using io unfolding call_spec_def posix_io_def ok_def by (elim conjE) (erule spec)
  have "\<exists>r w1. try_again (read_source os buffer_size) w = Some (r, w1) \<and>
    (case r of Inl e \<Rightarrow> same (view w) (view w1) \<and> (\<exists>u u'. read_source os buffer_size u = (Inl EOTHER, u')) | Inr x \<Rightarrow> ok (view w) x (view w1))"
    by (rule try_again_returns [OF spec]) (erule okI)
  then obtain r w1 where r: "try_again (read_source os buffer_size) w = Some (r, w1)"
    "case r of Inl e \<Rightarrow> same (view w) (view w1) \<and> (\<exists>u u'. read_source os buffer_size u = (Inl EOTHER, u')) | Inr x \<Rightarrow> ok (view w) x (view w1)"
    by blast
  show ?case
  proof (cases r)
    case (Inl e)
    then show ?thesis
      using r close [of w1] by (subst copy_loop.simps) (auto simp: same_def io_failed_def)
  next
    case (Inr bs)
    then obtain rest where rest: "unread (view w) = bs @ rest" "same ((view w)\<lparr>unread := rest\<rparr>) (view w1)"
      and e: "bs = [] \<longrightarrow> unread (view w) = []"
      using r(2) by (auto simp: ok_def buffer_size_def)
    show ?thesis
    proof (cases "bs = []")
      case True
      then show ?thesis
        using r(1) Inr rest e less.prems by (subst copy_loop.simps) (auto simp: same_def)
    next
      case False
      obtain r2 w2 where w2: "write_loop os bs w1 = Some (r2, w2)" "unread (view w2) = rest"
        "src_open (view w2) = src_open (view w)" "dst_open (view w2) = dst_open (view w)"
        "case r2 of Inl e \<Rightarrow> (\<exists>u u' cs. write_target os cs u = (Inl EOTHER, u')) | Inr _ \<Rightarrow> target (view w2) = Some (t @ bs)"
        using write_loop_returns [OF io, of w1 t bs] rest(2) less.prems by (auto simp: same_def)
      show ?thesis
      proof (cases r2)
        case (Inl e)
        then show ?thesis
          using r(1) Inr False w2 close [of w2] by (subst copy_loop.simps) (auto simp: same_def io_failed_def)
      next
        case (Inr u)
        have "copy_loop os w = copy_loop os w2"
          using r(1) \<open>r = Inr bs\<close> False w2(1) Inr by (subst copy_loop.simps) simp
        moreover obtain r3 w3 where "copy_loop os w2 = Some (r3, w3)" "src_open (view w3) = src_open (view w2)"
          "case r3 of Inl e \<Rightarrow> \<not> dst_open (view w3) \<and> io_failed os
             | Inr _ \<Rightarrow> dst_open (view w3) = dst_open (view w2) \<and> target (view w3) = Some ((t @ bs) @ unread (view w2))"
          using less.hyps [of w2 "t @ bs"] rest(1) False w2 Inr by auto
        ultimately show ?thesis
          using rest(1) w2 by (auto split: sum.splits)
      qed
    qed
  qed
qed

definition closed :: "files \<Rightarrow> bool" where
  "closed v \<longleftrightarrow> \<not> src_open v \<and> \<not> dst_open v"

text \<open>What a failed copy leaves: the target as it was, or none, or what could not be unlinked.\<close>

definition target_gone :: "'w sys \<Rightarrow> string \<Rightarrow> files \<Rightarrow> files \<Rightarrow> bool" where
  "target_gone os dst v v' \<longleftrightarrow> target v' = target v \<or> target v' = None \<or> (\<exists>u. \<not> fst (unlink_file os dst u))"

lemma cleanup_correct:
  assumes "posix_other os view dst" "\<not> dst_open (view w)"
  shows "\<exists>w1. cleanup_failure os dst w = (-1, w1) \<and> closed (view w1) \<and> target_gone os dst v (view w1)"
proof -
  let ?w = "snd (close_source os w)"
  have "same ((view w)\<lparr>src_open := False\<rparr>) (view ?w)"
    "same (if fst (unlink_file os dst ?w) then (view ?w)\<lparr>target := None\<rparr> else view ?w) (view (snd (unlink_file os dst ?w)))"
    using assms(1) by (simp_all add: posix_other_def)
  then show ?thesis
    using assms(2) by (auto simp: cleanup_failure_def closed_def target_gone_def same_def split: if_splits)
qed

text \<open>The outcome of a copy that began with the target of \<open>v\<close>.\<close>

definition outcome :: "'w sys \<Rightarrow> string \<Rightarrow> byte list \<Rightarrow> files \<Rightarrow> int \<Rightarrow> files \<Rightarrow> bool" where
  "outcome os dst C v r v' \<longleftrightarrow> closed v' \<and> (r = 0 \<and> target v' = Some C \<or> r = -1 \<and> target_gone os dst v v')"

lemma copy_opened_returns:
  assumes io: "posix_io os view" and ot: "posix_other os view dst" and w: "target (view w) = Some []"
  shows "\<exists>r w1. copy_opened os dst m w = Some (r, w1) \<and> outcome os dst (unread (view w)) v r (view w1) \<and>
    (reliable os src dst \<longrightarrow> r = 0)"
proof -
  have calls: "same (view w) (view (snd (malloc_buffer os n w)))" "same (view w) (view (snd (fchmod_target os m w)))"
    "same ((view w)\<lparr>src_open := False\<rparr>) (view (snd (close_source os w)))"
    "same ((view w)\<lparr>dst_open := False\<rparr>) (view (snd (close_target os w)))" for w n m
    using ot by (simp_all add: posix_other_def)
  note clean = cleanup_correct [OF ot, of _ v]
  obtain a w1 where a: "malloc_buffer os buffer_size w = (a, w1)" by fastforce
  have v1: "same (view w) (view w1)" using calls(1) [of w buffer_size] a by simp
  show ?thesis
  proof (cases a)
    case False
    have "\<not> reliable os src dst" using a False by (metis fst_conv reliable_def)
    then show ?thesis
      using a False clean [of "snd (close_target os w1)"] calls(4) [of w1]
      by (auto simp: copy_opened_def outcome_def same_def)
  next
    case True
    obtain r2 w2 where w2: "copy_loop os w1 = Some (r2, w2)" "src_open (view w2) = src_open (view w1)"
      "case r2 of Inl e \<Rightarrow> \<not> dst_open (view w2) \<and> io_failed os
         | Inr _ \<Rightarrow> dst_open (view w2) = dst_open (view w1) \<and> target (view w2) = Some ([] @ unread (view w1))"
      using copy_loop_returns [OF io ot, of w1 "[]"] v1 w by (auto simp: same_def)
    show ?thesis
    proof (cases r2)
      case (Inl e)
      have "\<not> reliable os src dst" using w2(3) Inl unfolding reliable_def io_failed_def by auto
      then show ?thesis
        using a True w2 Inl clean [of w2] by (auto simp: copy_opened_def outcome_def)
    next
      case (Inr u)
      let ?w3 = "snd (fchmod_target os (permissions m) w2)"
      obtain b w4 where b: "close_target os ?w3 = (b, w4)" by fastforce
      have v4: "\<not> dst_open (view w4)" "target (view w4) = Some (unread (view w))"
        using calls(4) [of ?w3] calls(2) [of w2 "permissions m"] w2(3) v1 Inr b by (auto simp: same_def)
      show ?thesis
      proof (cases b)
        case True
        then show ?thesis
          using a \<open>a\<close> w2 Inr b v4 calls(3) [of w4] by (auto simp: copy_opened_def outcome_def closed_def same_def)
      next
        case False
        have "\<not> reliable os src dst" using b False by (metis fst_conv reliable_def)
        then show ?thesis
          using a \<open>a\<close> w2 Inr b False clean [of w4] v4 by (auto simp: copy_opened_def outcome_def)
      qed
    qed
  qed
qed

lemma copy_regular_returns:
  assumes px: "posix os view src (dir @ name) C" and strings: "EOS \<notin> set dir" "EOS \<notin> set name"
    and w: "unread (view w) = C" "\<not> dst_open (view w)"
  shows "\<exists>r w1. copy_regular os dir name m w = Some (r, w1) \<and> outcome os (dir @ name) C (view w) r (view w1) \<and>
    (reliable os src (dir @ name) \<longrightarrow> r = 0)"
proof -
  let ?dst = "dir @ name" and ?ok = "\<lambda>v u v'. same (v\<lparr>target := Some [], dst_open := True\<rparr>) v'"
  have op: "posix_open os view src ?dst C" and io: "posix_io os view" and ot: "posix_other os view ?dst"
    using px by (auto simp: posix_def)
  have "call_spec view ?ok (open_target os ?dst)"
    using op by (simp add: call_spec_def posix_open_def)
  then obtain r1 w1 where r1: "try_again (open_target os ?dst) w = Some (r1, w1)"
    "case r1 of Inl e \<Rightarrow> same (view w) (view w1) \<and> (\<exists>u u'. open_target os ?dst u = (Inl EOTHER, u')) | Inr u \<Rightarrow> ?ok (view w) u (view w1)"
    using try_again_returns [of view ?ok "open_target os ?dst" w] by (auto simp: same_def)
  show ?thesis
  proof (cases r1)
    case (Inl e)
    moreover have "same ((view w1)\<lparr>src_open := False\<rparr>) (view (snd (close_source os w1)))"
      using ot by (simp add: posix_other_def)
    ultimately show ?thesis
      using r1 w wstrconcat_both [OF strings]
      by (auto simp: copy_regular_def outcome_def target_gone_def closed_def same_def reliable_def)
  next
    case (Inr u)
    then have "target (view w1) = Some []" "unread (view w1) = C" using r1(2) w by (auto simp: same_def)
    then show ?thesis
      using copy_opened_returns [OF io ot, of w1 m "view w" src] r1(1) Inr wstrconcat_both [OF strings]
      by (simp add: copy_regular_def)
  qed
qed

text \<open>
  C32: \<open>wcopy_file\<close> returns, and leaves no descriptor open. It returns 0 only when the target has exactly
  the bytes of the source, however the system splits the reads and writes and interrupts them;
  otherwise it returns -1 and the target is as before or removed (unless its removal fails too). When no call
  fails it returns 0. Assumed of the system: \<open>posix\<close>, in particular that the target is not the source.
\<close>

theorem copy_file_copies:
  fixes os :: "'w sys"
  assumes px: "posix os view src (dir @ name) C" and strings: "EOS \<notin> set dir" "EOS \<notin> set name" and "closed (view w)"
  shows "\<exists>r w1. wcopy_file os dir src name w = Some (r, w1) \<and> closed (view w1) \<and>
    (r = 0 \<and> target (view w1) = Some C \<or> r = -1 \<and> target_gone os (dir @ name) (view w) (view w1)) \<and>
    (reliable os src (dir @ name) \<longrightarrow> r = 0)"
proof -
  let ?dst = "dir @ name" and ?ok = "\<lambda>v u v'. same (v\<lparr>unread := C, src_open := True\<rparr>) v'"
  have op: "posix_open os view src ?dst C" and ot: "posix_other os view ?dst"
    using px by (auto simp: posix_def)
  have calls: "same (view w) (view (snd (fstat_source os w)))"
    "same ((view w)\<lparr>src_open := False\<rparr>) (view (snd (close_source os w)))" for w
    using ot by (simp_all add: posix_other_def)
  have "call_spec view ?ok (open_source os src)"
    using op by (simp add: call_spec_def posix_open_def)
  then obtain r1 w1 where r1: "try_again (open_source os src) w = Some (r1, w1)"
    "case r1 of Inl e \<Rightarrow> same (view w) (view w1) \<and> (\<exists>u u'. open_source os src u = (Inl EOTHER, u')) | Inr u \<Rightarrow> ?ok (view w) u (view w1)"
    using try_again_returns [of view ?ok "open_source os src" w] by (auto simp: same_def)
  show ?thesis
  proof (cases r1)
    case (Inl e)
    then show ?thesis
      using r1 assms(4) by (auto simp: wcopy_file_def target_gone_def closed_def same_def reliable_def)
  next
    case (Inr u1)
    obtain st w2 where w2: "fstat_source os w1 = (st, w2)" by fastforce
    have v2: "?ok (view w) u1 (view w2)" using r1(2) Inr calls(1) [of w1] w2 by (auto simp: same_def)
    show ?thesis
    proof (cases "st = None \<or> \<not> S_ISREG (the st)")
      case True
      have "\<not> reliable os src ?dst"
      proof
        assume "reliable os src ?dst"
        then obtain m w' where "fstat_source os w1 = (Some m, w')" "S_ISREG m" unfolding reliable_def by blast
        then show False using w2 True by simp
      qed
      moreover have "wcopy_file os dir src name w = Some (-1, snd (close_source os w2))"
        using r1(1) Inr w2 True by (auto simp: wcopy_file_def split: option.splits)
      ultimately show ?thesis
        using calls(2) [of w2] v2 assms(4) by (auto simp: target_gone_def closed_def same_def)
    next
      case False
      then obtain m where m: "st = Some m" "S_ISREG m" by auto
      have "wcopy_file os dir src name w = copy_regular os dir name m w2"
        using r1(1) Inr w2 m by (simp add: wcopy_file_def)
      then show ?thesis
        using copy_regular_returns [OF px strings, of w2 m] v2 assms(4)
        by (auto simp: outcome_def closed_def same_def target_gone_def)
    qed
  qed
qed

text \<open>A system that interrupts calls while it has patience, reads two bytes at a time and writes one.\<close>

definition toy_call :: "(files \<Rightarrow> 'a \<times> files) \<Rightarrow> files \<Rightarrow> (errno + 'a) \<times> files" where
  "toy_call f v =
     (if patience v > 0 then (Inl EINTR, v\<lparr>patience := patience v - 1\<rparr>)
      else (case f v of (x, v') \<Rightarrow> (Inr x, v'\<lparr>patience := 2\<rparr>)))"

definition toy_system :: "byte list \<Rightarrow> files sys" where
  "toy_system C = \<lparr>
     open_source = (\<lambda>f. toy_call (\<lambda>v. ((), v\<lparr>unread := C, src_open := True\<rparr>))),
     fstat_source = (\<lambda>v. (Some 0x81A4, v)),
     open_target = (\<lambda>f. toy_call (\<lambda>v. ((), v\<lparr>target := Some [], dst_open := True\<rparr>))),
     malloc_buffer = (\<lambda>n v. (True, v)),
     read_source = (\<lambda>n. toy_call (\<lambda>v. (take (min n 2) (unread v), v\<lparr>unread := drop (min n 2) (unread v)\<rparr>))),
     write_target = (\<lambda>bs. toy_call (\<lambda>v. (if bs = [] then 0 else 1, v\<lparr>target := map_option (\<lambda>t. t @ take 1 bs) (target v)\<rparr>))),
     fchmod_target = (\<lambda>m v. (True, v)),
     close_target = (\<lambda>v. (True, v\<lparr>dst_open := False\<rparr>)),
     close_source = (\<lambda>v. (True, v\<lparr>src_open := False\<rparr>)),
     unlink_file = (\<lambda>f v. (True, v\<lparr>target := None\<rparr>))\<rparr>"

lemma toy_posix: "posix (toy_system C) (\<lambda>v. v) src dst C" "reliable (toy_system C) src dst"
proof -
  have "posix_open (toy_system C) (\<lambda>v. v) src dst C"
    by (auto simp: posix_open_def toy_system_def toy_call_def failed_def same_def)
  moreover have "posix_io (toy_system C) (\<lambda>v. v)"
    by (auto simp: posix_io_def toy_system_def toy_call_def failed_def same_def Suc_le_eq)
  moreover have "posix_other (toy_system C) (\<lambda>v. v) dst"
    by (auto simp: posix_other_def toy_system_def same_def)
  ultimately show "posix (toy_system C) (\<lambda>v. v) src dst C" by (simp add: posix_def)
  show "reliable (toy_system C) src dst"
    by (auto simp: reliable_def toy_system_def toy_call_def S_ISREG_def)
qed

lemma copy_file_copies_witness:
  "\<exists>v. wcopy_file (toy_system [3, 4, 5]) ''/d/'' ''/s/x'' ''x'' \<lparr>unread = [], target = None, src_open = False, dst_open = False, patience = 3\<rparr> = Some (0, v) \<and>
     target v = Some [3, 4, 5]"
  using copy_file_copies [OF toy_posix(1), of "''/d/''" "''x''" "\<lparr>unread = [], target = None, src_open = False, dst_open = False, patience = 3\<rparr>" "[3, 4, 5]" "''/s/x''"]
    toy_posix(2) [of "[3, 4, 5]" "''/s/x''" "''/d/x''"]
  by (auto simp: closed_def)

end
