(* ===== verification/WMPlistFiles.thy ===== *)
theory WMPlistFiles
  imports WMPlistParser WMFindFile
begin

text \<open>
  The files of \<open>WMcore/proplist.c\<close>: writing a property list through a temporary file, reading one from
  a pipe, making and removing the directories above a file; and the paths of the user's directory in
  \<open>WMcore/userdefaults.c\<close>. The system calls are a parameter, functions of a state of the system. \<open>None\<close> is
  an access outside a buffer. Descriptors and \<open>FILE\<close>s stand for the name they were opened with.
\<close>

section \<open>The user's directory\<close>

text \<open>The static variables \<open>path\<close> of \<open>wusergnusteppath\<close> and \<open>home\<close> of \<open>wgethomedir\<close>.\<close>

record user_paths =
  gnustep_path :: "string ptr"
  home_path :: "string ptr"

definition wusergnusteppath :: "path_env \<Rightarrow> user_paths \<Rightarrow> (string \<times> user_paths) option" where
  "wusergnusteppath env u =
     (case gnustep_path u of
        Some p \<Rightarrow> Some (p, u)
      | None \<Rightarrow> do {
          (gspath, u1) \<leftarrow>
            (case secure_getenv env ''GNUSTEP_USER_ROOT'' of
               None \<Rightarrow> Some (NULL, u)
             | Some v \<Rightarrow> do { (r, home') \<leftarrow> wexpandpath env (home_path u) v; Some (r, u\<lparr>home_path := home'\<rparr>) });
          (case gspath of
             Some p \<Rightarrow> Some (p, u1\<lparr>gnustep_path := Some p\<rparr>)
           | None \<Rightarrow>
               (let (h, home') = wgethomedir env (home_path u1); p = h @ ''/Library''
                in Some (p, u1\<lparr>gnustep_path := Some p, home_path := home'\<rparr>))) })"

text \<open>\<open>DEFAULTS_DIR\<close> as it is under \<open>NEXTSPACE\<close>; \<open>SYSCONFDIR\<close> is a parameter of the build.\<close>

definition wdefaultspathfordomain :: "path_env \<Rightarrow> user_paths \<Rightarrow> string \<Rightarrow> (string \<times> user_paths) option" where
  "wdefaultspathfordomain env u domain = do {
     (gspath, u1) \<leftarrow> wusergnusteppath env u;
     Some (gspath @ ''/Preferences/.WindowMaker'' @ ''/'' @ domain, u1) }"

definition wglobaldefaultspathfordomain :: "string \<Rightarrow> string \<Rightarrow> string" where
  "wglobaldefaultspathfordomain sysconfdir domain = sysconfdir @ ''/'' @ ''WindowMaker'' @ ''/'' @ domain"

section \<open>System calls\<close>

datatype mkdir_result = MkdirDone | MkdirExists | MkdirFailed

record 'w fs =
  fs_stat :: "string \<Rightarrow> 'w \<Rightarrow> bool option \<times> 'w"
  fs_mkdir :: "string \<Rightarrow> 'w \<Rightarrow> mkdir_result \<times> 'w"
  fs_umask :: "32 word \<Rightarrow> 'w \<Rightarrow> 32 word \<times> 'w"
  fs_mkstemp :: "string \<Rightarrow> 'w \<Rightarrow> (bool \<times> string) \<times> 'w"
  fs_fchmod :: "string \<Rightarrow> 32 word \<Rightarrow> 'w \<Rightarrow> 'w"
  fs_fdopen :: "string \<Rightarrow> 'w \<Rightarrow> bool \<times> 'w"
  fs_close :: "string \<Rightarrow> 'w \<Rightarrow> 'w"
  fs_fprintf :: "string \<Rightarrow> string \<Rightarrow> 'w \<Rightarrow> bool \<times> 'w"
  fs_fclose :: "string \<Rightarrow> 'w \<Rightarrow> bool \<times> 'w"
  fs_rename :: "string \<Rightarrow> string \<Rightarrow> 'w \<Rightarrow> bool \<times> 'w"
  fs_unlink :: "string \<Rightarrow> 'w \<Rightarrow> bool \<times> 'w"

text \<open>
  \<open>fs_stat\<close> says whether the file is a directory, when there is one; \<open>fs_mkstemp\<close> gives the name it
  made of the template; \<open>fs_fprintf\<close> whether everything was written.
\<close>

section \<open>Directories\<close>

text \<open>The index of the last slash, or 0.\<close>

fun strip_loop :: "string \<Rightarrow> nat \<Rightarrow> nat" where
  "strip_loop thePath 0 = 0"
| "strip_loop thePath (Suc p) =
     (if (thePath @ [EOS]) ! Suc p \<noteq> SLASH then strip_loop thePath p else Suc p)"

definition strncpy :: "char block \<Rightarrow> string \<Rightarrow> nat \<Rightarrow> char block option" where
  "strncpy buf s n =
     (if n \<le> length buf then Some (map Cell (take n s @ replicate (n - length s) EOS) @ drop n buf) else None)"

text \<open>The loop \<open>while (p++ < plen && thePath[p] != '/')\<close>.\<close>

function next_slash :: "string \<Rightarrow> nat \<Rightarrow> nat" where
  "next_slash thePath p =
     (if p < length thePath \<and> (thePath @ [EOS]) ! (p + 1) \<noteq> SLASH then next_slash thePath (p + 1) else p + 1)"
  by pat_completeness auto
termination by (relation "measure (\<lambda>(thePath, p). length thePath - p)") auto

declare next_slash.simps [simp del]

lemma next_slash_greater: "p < next_slash thePath p"
proof (induction thePath p rule: next_slash.induct)
  case (1 thePath p)
  then show ?case by (subst next_slash.simps) auto
qed

function mkdir_loop :: "'w fs \<Rightarrow> string \<Rightarrow> char block \<Rightarrow> nat \<Rightarrow> 'w \<Rightarrow> (int \<times> 'w) option" where
  "mkdir_loop fs thePath buf p w = do {
     let p' = next_slash thePath p;
     buf' \<leftarrow> strncpy buf thePath p';
     dir \<leftarrow> read_string buf';
     let (r, w1) = fs_mkdir fs dir w;
     let (st, w2) = (if r = MkdirExists then fs_stat fs dir w1 else (NULL, w1));
     (if st = Some False then Some (0, w2)
      else if p' < length thePath then mkdir_loop fs thePath buf' p' w2
      else Some (1, w2)) }"
  by pat_completeness auto
termination
  by (relation "measure (\<lambda>(fs, thePath, buf, p, w). length thePath - p)")
    (auto intro: diff_less_mono2 next_slash_greater less_trans)

declare mkdir_loop.simps [simp del]

definition wmkdirhier ::
    "path_env \<Rightarrow> 'w fs \<Rightarrow> user_paths \<Rightarrow> string \<Rightarrow> 'w \<Rightarrow> (int \<times> user_paths \<times> 'w) option" where
  "wmkdirhier env fs u path w = do {
     (t, u1) \<leftarrow> wusergnusteppath env u;
     (if take (length t) path \<noteq> t then Some (0, u1, w)
      else
        let thePath = take (strip_loop path (length path)) path;
            (st, w1) = fs_stat fs thePath w
        in (case st of
              Some isdir \<Rightarrow> Some (if isdir then 1 else 0, u1, w1)
            | None \<Rightarrow> do {
                buf \<leftarrow> mem_set (replicate 1024 Undef) 0 EOS 1024;
                buf1 \<leftarrow> strncpy buf t 1023;
                b \<leftarrow> read_string buf1;
                (r, w2) \<leftarrow> mkdir_loop fs thePath buf1 (length b) w1;
                Some (r, u1, w2) })) }"

text \<open>Removing: the types of entries that \<open>nftw\<close> reports, and \<open>EPERM\<close> and \<open>ENOENT\<close>.\<close>

datatype ftw_type = FTW_D | FTW_DP | FTW_F | FTW_SL | FTW_SLN | FTW_DNR | FTW_NS

definition EPERM :: int where "EPERM = 1"
definition ENOENT :: int where "ENOENT = 2"

definition wrmdirhier_fn ::
    "(string \<Rightarrow> 'w \<Rightarrow> int \<times> 'w) \<Rightarrow> (string \<Rightarrow> 'w \<Rightarrow> int \<times> 'w) \<Rightarrow> string \<Rightarrow> ftw_type \<Rightarrow> 'w \<Rightarrow> int \<times> 'w" where
  "wrmdirhier_fn rmdir unlink path type w =
     (case type of
        FTW_D \<Rightarrow> (0, w)
      | FTW_DP \<Rightarrow> rmdir path w
      | FTW_F \<Rightarrow> unlink path w
      | FTW_SL \<Rightarrow> unlink path w
      | FTW_SLN \<Rightarrow> unlink path w
      | _ \<Rightarrow> (EPERM, w))"

definition wrmdirhier ::
    "path_env \<Rightarrow> 'w fs \<Rightarrow> (string \<Rightarrow> 'w \<Rightarrow> int \<times> 'w) \<Rightarrow> user_paths \<Rightarrow> string \<Rightarrow> 'w \<Rightarrow> (int \<times> user_paths \<times> 'w) option" where
  "wrmdirhier env fs nftw u path w = do {
     (t, u1) \<leftarrow> wusergnusteppath env u;
     (if take (length t) path \<noteq> t then Some (EPERM, u1, w)
      else
        let (st, w1) = fs_stat fs path w
        in if st = NULL then Some (ENOENT, u1, w1)
           else let (error, w2) = nftw path w1 in Some (error, u1, w2)) }"

section \<open>Writing\<close>

definition write_failure :: "'w fs \<Rightarrow> string \<Rightarrow> user_paths \<Rightarrow> 'w \<Rightarrow> bool \<times> user_paths \<times> 'w" where
  "write_failure fs thePath u w = (False, u, snd (fs_unlink fs thePath w))"

text \<open>From the temporary file on. The mask is \<open>S_IRWXG | S_IRWXO\<close>, the mode \<open>0666 & ~mask\<close>. \<open>fsync\<close> is left out.\<close>

unbundle bit_operations_syntax

definition write_temp :: "'w fs \<Rightarrow> user_paths \<Rightarrow> W_PropList \<Rightarrow> string \<Rightarrow> string \<Rightarrow> 'w \<Rightarrow> bool \<times> user_paths \<times> 'w" where
  "write_temp fs u1 plist path thePath0 w1 =
     (let (old_mask, w2) = fs_umask fs 0x3F w1; ((fd_ok, thePath), w3) = fs_mkstemp fs thePath0 w2
      in if \<not> fd_ok then write_failure fs thePath u1 w3
         else
           let (_, w4) = fs_umask fs old_mask w3;
               w5 = fs_fchmod fs thePath (0x1B6 AND NOT old_mask) w4;
               (theFile, w6) = fs_fdopen fs thePath w5
           in if \<not> theFile then write_failure fs thePath u1 (fs_close fs thePath w6)
           else
             let (all, w7) = fs_fprintf fs thePath (written_text plist) w6
             in if \<not> all then write_failure fs thePath u1 w7
             else
               let (closed, w8) = fs_fclose fs thePath w7
               in if \<not> closed then write_failure fs thePath u1 w8
               else
                 let (renamed, w9) = fs_rename fs thePath path w8
                 in if \<not> renamed then write_failure fs thePath u1 w9
                 else (True, u1, w9))"

definition WMWritePropListToFile ::
    "path_env \<Rightarrow> 'w fs \<Rightarrow> user_paths \<Rightarrow> W_PropList \<Rightarrow> string \<Rightarrow> 'w \<Rightarrow> (bool \<times> user_paths \<times> 'w) option" where
  "WMWritePropListToFile env fs u plist path w = do {
     (made, u1, w1) \<leftarrow> wmkdirhier env fs u path w;
     (if made = 0 then Some (False, u1, w1)
      else do {
        template \<leftarrow> wstrconcat (Some path) (Some ''.XXXXXX'');
        thePath \<leftarrow> template;
        Some (write_temp fs u1 plist path thePath w1) }) }"

section \<open>Reading from a pipe\<close>

text \<open>
  \<open>fgets\<close> on the output that is left: the characters of a line that fit in a buffer of \<open>n\<close>, and the rest.
  \<open>NULL\<close> at the end.
\<close>

definition fgets :: "nat \<Rightarrow> string \<Rightarrow> (string \<times> string) option" where
  "fgets n text =
     (if text = [] then NULL
      else
        let line = takeWhile (\<lambda>c. c \<noteq> NL) text;
            len = min (n - 1) (if length line < length text then length line + 1 else length line)
        in Some (take len text, drop len text))"

definition block_read_size :: nat where "block_read_size = 4096"
definition block_read_margin :: nat where "block_read_margin = 512"

text \<open>The reading loop: the block, the offset of \<open>read_ptr\<close> and the room left.\<close>

partial_function (option) pipe_loop :: "string \<Rightarrow> char block \<Rightarrow> nat \<Rightarrow> nat \<Rightarrow> char block option" where
  "pipe_loop text read_buf read_ptr remain_size =
     (case fgets remain_size text of
        None \<Rightarrow> Some read_buf
      | Some (line, text') \<Rightarrow> do {
          buf1 \<leftarrow> mem_copy read_buf (int read_ptr) (map Cell (line @ [EOS])) 0 (int (length line + 1));
          let remain = remain_size - length line;
          let ptr = read_ptr + length line;
          (if remain < block_read_margin
           then pipe_loop text' (wrealloc_block buf1 (int (ptr + block_read_size))) ptr block_read_size
           else pipe_loop text' buf1 ptr remain) })"

definition WMReadPropListFromPipe :: "bool \<Rightarrow> string option \<Rightarrow> (W_PropList ptr \<times> PLData option) option" where
  "WMReadPropListFromPipe cs command =
     (case command of
        None \<Rightarrow> Some (NULL, None)
      | Some text \<Rightarrow> do {
          read_buf \<leftarrow> pipe_loop text (wmalloc_block EOS (int block_read_size)) 0 block_read_size;
          desc \<leftarrow> read_string read_buf;
          map_option (\<lambda>(p, s). (p, Some s)) (WMCreatePropListFromDescription cs desc) })"

end
