(* ===== verification/WMPlistFilesSpec.thy ===== *)
theory WMPlistFilesSpec
  imports WMPlistFiles WMFindFileSpec WMPlistUnreadable
begin

text \<open>
  The properties of the files of \<open>proplist.c\<close>: which directories are made, that a file is written completely or
  not at all, that everything a command prints is read; and where these functions do not do what they say.
\<close>

section \<open>Directories\<close>

text \<open>The directories that the loop makes, and what making them one after the other does.\<close>

function dirs_from :: "string \<Rightarrow> nat \<Rightarrow> string list" where
  "dirs_from thePath p =
     (let p' = next_slash thePath p
      in take p' thePath # (if p' < length thePath then dirs_from thePath p' else []))"
  by pat_completeness auto
termination
  by (relation "measure (\<lambda>(thePath, p). length thePath - p)")
    (auto intro: diff_less_mono2 next_slash_greater less_trans)

declare dirs_from.simps [simp del]

fun make_dirs :: "'w fs \<Rightarrow> string list \<Rightarrow> 'w \<Rightarrow> int \<times> 'w" where
  "make_dirs fs [] w = (1, w)"
| "make_dirs fs (dir # ds) w =
     (let (r, w1) = fs_mkdir fs dir w;
          (st, w2) = (if r = MkdirExists then fs_stat fs dir w1 else (NULL, w1))
      in if st = Some False then (0, w2) else make_dirs fs ds w2)"

lemma next_slash_le: "p < length thePath \<Longrightarrow> next_slash thePath p \<le> length thePath + 1"
proof (induction thePath p rule: next_slash.induct)
  case (1 thePath p)
  then show ?case
    by (subst next_slash.simps) (cases "Suc p < length thePath"; auto simp: next_slash.simps [of _ "Suc p"])
qed

lemma next_slash_bound: "next_slash thePath p \<le> max p (length thePath) + 1"
  using next_slash_le [of p thePath] by (cases "p < length thePath") (auto simp: next_slash.simps [of thePath p])

lemma next_slash_at:
  "next_slash thePath p < length thePath \<Longrightarrow> thePath ! next_slash thePath p = SLASH"
proof (induction thePath p rule: next_slash.induct)
  case (1 thePath p)
  then show ?case
    by (subst next_slash.simps, subst (asm) (3) next_slash.simps) (auto simp: nth_append split: if_splits)
qed

lemma strncpy_zbuf:
  assumes "p \<le> q" "q \<le> n"
  shows "strncpy (zbuf n (take p s)) s q = Some (zbuf n (take q s))"
proof -
  have "drop q (zbuf n (take p s)) = replicate (n - q) (Cell EOS)"
    using assms by (simp add: zbuf_def drop_map map_replicate)
  moreover have "length (zbuf n (take p s)) = n" using assms by (intro length_zbuf) simp
  moreover have "replicate (q - length s) (Cell EOS) @ replicate (n - q) (Cell EOS) =
      replicate (n - min q (length s)) (Cell EOS)"
    using assms by (simp flip: replicate_add add: min_def)
  ultimately show ?thesis
    using assms by (simp add: strncpy_def zbuf_def map_replicate min.commute)
qed

lemma mkdir_loop_dirs:
  assumes "EOS \<notin> set thePath" "length thePath < n"
  shows "p < n \<Longrightarrow> mkdir_loop fs thePath (zbuf n (take p thePath)) p w = Some (make_dirs fs (dirs_from thePath p) w)"
proof (induction "length thePath - p" arbitrary: p w rule: less_induct)
  case less
  let ?q = "next_slash thePath p"
  have q: "p < ?q" "?q \<le> n" using next_slash_greater next_slash_bound [of thePath p] less.prems assms(2)
    by (auto simp: max_def split: if_splits)
  have no: "EOS \<notin> set (take ?q thePath)" using assms(1) by (meson in_set_takeD)
  have b: "strncpy (zbuf n (take p thePath)) thePath ?q = Some (zbuf n (take ?q thePath))"
    using q by (intro strncpy_zbuf) auto
  have r: "read_string (zbuf n (take ?q thePath)) = Some (take ?q thePath)"
    by (intro read_zbuf no) (use assms(2) in auto)
  have step: "mkdir_loop fs thePath (zbuf n (take p thePath)) p w =
     (let (r, w1) = fs_mkdir fs (take ?q thePath) w;
          (st, w2) = (if r = MkdirExists then fs_stat fs (take ?q thePath) w1 else (NULL, w1))
      in if st = Some False then Some (0, w2)
         else if ?q < length thePath then mkdir_loop fs thePath (zbuf n (take ?q thePath)) ?q w2
         else Some (1, w2))"
    by (subst mkdir_loop.simps) (simp only: b r Let_def bind.bind_lunit)
  show ?case
  proof (cases "?q < length thePath")
    case True
    then have "mkdir_loop fs thePath (zbuf n (take ?q thePath)) ?q w' = Some (make_dirs fs (dirs_from thePath ?q) w')" for w'
      using less.hyps [of ?q w'] q assms(2) by auto
    then show ?thesis
      unfolding step using True by (subst dirs_from.simps) (simp add: Let_def split: prod.split)
  next
    case False
    then show ?thesis
      unfolding step by (subst dirs_from.simps) (simp add: Let_def del: take_all take_all_iff split: prod.split)
  qed
qed

lemma dirs_from_prefixes:
  "d \<in> set (dirs_from thePath p) \<Longrightarrow>
   \<exists>q > p. d = take q thePath \<and> (q < length thePath \<longrightarrow> thePath ! q = SLASH)"
proof (induction "length thePath - p" arbitrary: p rule: less_induct)
  case less
  let ?q = "next_slash thePath p"
  have q: "p < ?q" by (rule next_slash_greater)
  from less.prems consider "d = take ?q thePath" | "?q < length thePath" "d \<in> set (dirs_from thePath ?q)"
    by (subst (asm) dirs_from.simps) (auto simp: Let_def split: if_splits)
  then show ?case
  proof cases
    case 1
    then show ?thesis using q next_slash_at [of thePath p] by blast
  next
    case 2
    then show ?thesis using less.hyps [of ?q] q by (meson diff_less_mono2 less_trans)
  qed
qed

lemma dirs_from_last: "last (dirs_from thePath p) = thePath"
proof (induction "length thePath - p" arbitrary: p rule: less_induct)
  case less
  let ?q = "next_slash thePath p"
  have q: "p < ?q" by (rule next_slash_greater)
  have ne: "dirs_from thePath r \<noteq> []" for r by (subst dirs_from.simps) (simp add: Let_def)
  show ?case
  proof (cases "?q < length thePath")
    case True
    then show ?thesis using less.hyps [of ?q] q ne by (subst dirs_from.simps) (simp add: Let_def)
  qed (subst dirs_from.simps, simp add: Let_def)
qed

text \<open>The user's directory, the same at every call.\<close>

definition paths_ok :: "user_paths \<Rightarrow> bool" where
  "paths_ok u \<longleftrightarrow> home_ok (gnustep_path u) \<and> home_ok (home_path u)"

lemma wusergnusteppath_total:
  assumes "env_ok env" "paths_ok u"
  shows "\<exists>t u1. wusergnusteppath env u = Some (t, u1) \<and> EOS \<notin> set t \<and> paths_ok u1 \<and> wusergnusteppath env u1 = Some (t, u1)"
proof (cases "gnustep_path u")
  case (Some p)
  then show ?thesis using assms by (auto simp: wusergnusteppath_def paths_ok_def home_ok_def)
next
  case None
  have fallback: "\<exists>t. (case wgethomedir env h of (d, home') \<Rightarrow> Some (d @ ''/Library'', v\<lparr>gnustep_path := Some (d @ ''/Library''), home_path := home'\<rparr>)) =
      Some (t, v\<lparr>gnustep_path := Some t, home_path := snd (wgethomedir env h)\<rparr>) \<and> EOS \<notin> set t \<and> home_ok (snd (wgethomedir env h))"
    if "home_ok h" for h and v :: user_paths
    using that assms(1)
    by (auto simp: wgethomedir_def home_ok_def env_ok_def wstrdup_def Let_def split: option.splits)
  show ?thesis
  proof (cases "secure_getenv env ''GNUSTEP_USER_ROOT''")
    case no: None
    then show ?thesis
      using fallback [of "home_path u" u] None assms(2)
      by (force simp: wusergnusteppath_def paths_ok_def home_ok_def Let_def split: prod.splits)
  next
    case (Some v)
    have "EOS \<notin> set v" using assms(1) Some by (auto simp: env_ok_def)
    note e = wexpandpath_expansion [OF assms(1) _ this, of "home_path u"]
    have h: "home_ok (home_after env (home_path u) v)" using home_ok_after assms by (simp add: paths_ok_def)
    have t: "EOS \<notin> set p" if "expansion env (home_path u) v = Some p" for p
      using expand_path_correct [OF assms(1) _ \<open>EOS \<notin> set v\<close>, of "home_path u"] assms(2) that by (auto simp: paths_ok_def)
    show ?thesis
      using fallback [OF h, of "u\<lparr>home_path := home_after env (home_path u) v\<rparr>"] None Some assms(2) e t h
      by (cases "expansion env (home_path u) v")
        (force simp: wusergnusteppath_def paths_ok_def home_ok_def Let_def split: prod.splits)+
  qed
qed

text \<open>The directory part of a path.\<close>

lemma strip_loop_le: "strip_loop path p \<le> p"
  by (induction path p rule: strip_loop.induct) auto

lemma mkdirhier_chain:
  assumes "env_ok env" "paths_ok u" "EOS \<notin> set path"
    and t: "wusergnusteppath env u = Some (t, u1)"
    and dir: "dir = take (strip_loop path (length path)) path" and st: "fs_stat fs dir w = (st, w1)"
    and fits: "length t < 1024" "length dir < 1024" "length t \<le> length dir"
  shows "wmkdirhier env fs u path w =
      Some (if take (length t) path \<noteq> t then (0, u1, w)
            else case st of
                   Some isdir \<Rightarrow> (if isdir then 1 else 0, u1, w1)
                 | None \<Rightarrow> (case make_dirs fs (dirs_from dir (length t)) w1 of (r, w2) \<Rightarrow> (r, u1, w2))) \<and>
    last (dirs_from dir (length t)) = dir \<and>
    (\<forall>d \<in> set (dirs_from dir (length t)). \<exists>q > length t. d = take q dir \<and> (q < length dir \<longrightarrow> dir ! q = SLASH))"
proof -
  have "wmkdirhier env fs u path w =
      Some (case make_dirs fs (dirs_from dir (length t)) w1 of (r, w2) \<Rightarrow> (r, u1, w2))"
    if p: "take (length t) path = t" and n: "st = None"
  proof -
    have "length t \<le> strip_loop path (length path)" using fits(3) by (simp add: dir)
    then have td: "take (length t) dir = t" using p unfolding dir by (simp add: min_absorb1)
    have no: "EOS \<notin> set t" "EOS \<notin> set dir" using assms(3) p unfolding dir by (metis in_set_takeD)+
    have m: "mem_set (replicate 1024 Undef) 0 EOS 1024 = Some (zbuf 1024 (take 0 t))"
      by (simp add: mem_set_def zbuf_def map_replicate)
    have c: "strncpy (zbuf 1024 (take 0 t)) t 1023 = Some (zbuf 1024 (take (length t) dir))"
      using strncpy_zbuf [of 0 1023 1024 t] fits(1) td by simp
    have r: "read_string (zbuf 1024 t) = Some t" using no fits(1) by (intro read_zbuf) auto
    show ?thesis
      unfolding wmkdirhier_def Let_def dir [symmetric]
      using p n st m c r mkdir_loop_dirs [OF no(2) fits(2,1), of fs w1] td
      by (simp add: t split: prod.split)
  qed
  moreover have "wmkdirhier env fs u path w = Some (0, u1, w)" if "take (length t) path \<noteq> t"
    using that by (simp add: wmkdirhier_def t)
  moreover have "wmkdirhier env fs u path w = Some (if isdir then 1 else 0, u1, w1)"
    if "take (length t) path = t" "st = Some isdir" for isdir
    using that st unfolding dir by (simp add: wmkdirhier_def t Let_def)
  ultimately show ?thesis
    using dirs_from_last [of dir "length t"] dirs_from_prefixes [of _ dir "length t"] by (auto split: option.split)
qed

text \<open>
  \<open>wmkdirhier\<close> makes nothing unless the path begins with the user's directory. Otherwise, when the
  directory of the file does not exist, it makes the directories from the user's directory (which it does
  not make itself) down to it, in this order, and stops at a component that exists and is not a directory. The names must
  fit its buffer of 1024 characters: that is the only way for it to access it outside.
\<close>

theorem mkdirhier_makes_chain:
  assumes "env_ok env" "paths_ok u" "EOS \<notin> set path"
    and t: "wusergnusteppath env u = Some (t, u1)"
    and dir: "dir = take (strip_loop path (length path)) path" and st: "fs_stat fs dir w = (st, w1)"
    and fits: "length t < 1024" "length dir < 1024" "length t \<le> length dir"
  shows "wmkdirhier env fs u path w =
      Some (if take (length t) path \<noteq> t then (0, u1, w)
            else case st of
                   Some isdir \<Rightarrow> (if isdir then 1 else 0, u1, w1)
                 | None \<Rightarrow> (case make_dirs fs (dirs_from dir (length t)) w1 of (r, w2) \<Rightarrow> (r, u1, w2))) \<and>
    last (dirs_from dir (length t)) = dir \<and>
    (\<forall>d \<in> set (dirs_from dir (length t)). \<exists>q > length t. d = take q dir \<and> (q < length dir \<longrightarrow> dir ! q = SLASH))"
  using mkdirhier_chain [OF assms] .

text \<open>A system with the directories in its state; everything else fails.\<close>

definition dir_system :: "string list fs" where
  "dir_system = \<lparr>
     fs_stat = (\<lambda>f w. (if f \<in> set w then Some True else NULL, w)),
     fs_mkdir = (\<lambda>f w. if f \<in> set w then (MkdirExists, w) else (MkdirDone, w @ [f])),
     fs_umask = (\<lambda>m w. (0x12, w)), fs_mkstemp = (\<lambda>f w. ((False, f), w)), fs_fchmod = (\<lambda>f m w. w),
     fs_fdopen = (\<lambda>f w. (False, w)), fs_close = (\<lambda>f w. w), fs_fprintf = (\<lambda>f t w. (False, w)),
     fs_fclose = (\<lambda>f w. (False, w)), fs_rename = (\<lambda>f g w. (False, w)), fs_unlink = (\<lambda>f w. (False, w))\<rparr>"

lemma mkdirhier_makes_chain_witness:
  "wmkdirhier example_env dir_system \<lparr>gnustep_path = Some ''/h/L'', home_path = NULL\<rparr> ''/h/L/P/.W/A'' [''/h'', ''/h/L''] =
     Some (1, \<lparr>gnustep_path = Some ''/h/L'', home_path = NULL\<rparr>, [''/h'', ''/h/L'', ''/h/L/P'', ''/h/L/P/.W''])"
proof -
  have "dirs_from ''/h/L/P/.W'' 4 = [''/h/L/P'', ''/h/L/P/.W'']"
    by (simp add: dirs_from.simps next_slash.simps numeral_eq_Suc)
  then show ?thesis
    using mkdirhier_makes_chain [OF example_env_ok(1), of "\<lparr>gnustep_path = Some ''/h/L'', home_path = NULL\<rparr>"
        "''/h/L/P/.W/A''" "''/h/L''" _ "''/h/L/P/.W''" dir_system "[''/h'', ''/h/L'']"]
    by (simp add: paths_ok_def home_ok_def wusergnusteppath_def dir_system_def numeral_eq_Suc)
qed

text \<open>
  The test of the beginning of the path lets directories outside the user's directory through, those with a
  longer name and those with dots; failures of \<open>mkdir\<close> other than a component that is a file are not reported;
  and a longer path overflows the buffer.
\<close>

lemma sibling_directory_is_made:
  "wmkdirhier example_env dir_system \<lparr>gnustep_path = Some ''/h/L'', home_path = NULL\<rparr> ''/h/L2/x'' [''/h'', ''/h/L''] =
     Some (1, \<lparr>gnustep_path = Some ''/h/L'', home_path = NULL\<rparr>, [''/h'', ''/h/L'', ''/h/L2''])"
proof -
  have "dirs_from ''/h/L2'' 4 = [''/h/L2'']"
    by (simp add: dirs_from.simps next_slash.simps numeral_eq_Suc)
  then show ?thesis
    using mkdirhier_makes_chain [OF example_env_ok(1), of "\<lparr>gnustep_path = Some ''/h/L'', home_path = NULL\<rparr>"
        "''/h/L2/x''" "''/h/L''" _ "''/h/L2''" dir_system "[''/h'', ''/h/L'']"]
    by (simp add: paths_ok_def home_ok_def wusergnusteppath_def dir_system_def numeral_eq_Suc)
qed

lemma failed_mkdir_unreported:
  assumes "\<And>d w. fst (fs_mkdir fs d w) = MkdirFailed"
  shows "fst (make_dirs fs ds w) = 1"
proof (induction ds arbitrary: w)
  case (Cons d ds)
  obtain r w1 where m: "fs_mkdir fs d w = (r, w1)" by fastforce
  then have "r = MkdirFailed" using assms [of d w] by simp
  then show ?case using Cons.IH [of w1] m by simp
qed simp

lemma long_directory_overflows:
  assumes "1024 < next_slash thePath p" "length buf = 1024"
  shows "mkdir_loop fs thePath buf p w = None"
  by (subst mkdir_loop.simps) (use assms in \<open>simp add: strncpy_def Let_def\<close>)

text \<open>The result of \<open>wrmdirhier\<close> is not what its comment says: 0 is success, and a refusal is 1.\<close>

lemma refused_removal_is_1:
  assumes "wusergnusteppath env u = Some (t, u1)" "take (length t) path \<noteq> t"
  shows "wrmdirhier env fs nftw u path w = Some (1, u1, w)"
  using assms by (simp add: wrmdirhier_def EPERM_def)

section \<open>Writing a file\<close>

text \<open>
  The view of a writer: the contents of the files, the mask and the number of open descriptors; and what
  the manuals say of the calls. A template of \<open>mkstemp\<close> keeps its length, and the file it makes is new.
\<close>

record disk_view =
  contents :: "string \<Rightarrow> string option"
  file_mask :: "32 word"
  descriptors :: nat

definition posix_dirs :: "'w fs \<Rightarrow> ('w \<Rightarrow> disk_view) \<Rightarrow> bool" where
  "posix_dirs fs view \<longleftrightarrow> (\<forall>d w. view (snd (fs_mkdir fs d w)) = view w) \<and> (\<forall>d w. view (snd (fs_stat fs d w)) = view w)"

definition posix_temp :: "'w fs \<Rightarrow> ('w \<Rightarrow> disk_view) \<Rightarrow> bool" where
  "posix_temp fs view \<longleftrightarrow>
     (\<forall>m w. fst (fs_umask fs m w) = file_mask (view w) \<and> view (snd (fs_umask fs m w)) = (view w)\<lparr>file_mask := m\<rparr>) \<and>
     (\<forall>t w. case fs_mkstemp fs t w of ((ok, name), w1) \<Rightarrow>
        length name = length t \<and> (ok \<longrightarrow> contents (view w) name = None) \<and>
        view w1 = (if ok then (view w)\<lparr>contents := (contents (view w))(name := Some []), descriptors := descriptors (view w) + 1\<rparr>
                   else view w)) \<and>
     (\<forall>f m w. view (fs_fchmod fs f m w) = view w) \<and>
     (\<forall>f w. view (snd (fs_fdopen fs f w)) = view w) \<and>
     (\<forall>f w. view (fs_close fs f w) = (view w)\<lparr>descriptors := descriptors (view w) - 1\<rparr>)"

definition posix_data :: "'w fs \<Rightarrow> ('w \<Rightarrow> disk_view) \<Rightarrow> bool" where
  "posix_data fs view \<longleftrightarrow>
     (\<forall>f text w. case fs_fprintf fs f text w of (ok, w1) \<Rightarrow>
        \<exists>x. view w1 = (view w)\<lparr>contents := (contents (view w))(f := Some x)\<rparr> \<and> (ok \<longrightarrow> x = text)) \<and>
     (\<forall>f w. case fs_fclose fs f w of (ok, w1) \<Rightarrow>
        \<exists>x. view w1 = (view w)\<lparr>contents := (contents (view w))(f := x), descriptors := descriptors (view w) - 1\<rparr> \<and>
          (ok \<longrightarrow> x = contents (view w) f)) \<and>
     (\<forall>f g w. case fs_rename fs f g w of (ok, w1) \<Rightarrow>
        view w1 = (if ok then (view w)\<lparr>contents := (contents (view w))(g := contents (view w) f, f := None)\<rparr> else view w)) \<and>
     (\<forall>f w. case fs_unlink fs f w of (ok, w1) \<Rightarrow>
        view w1 = (if ok then (view w)\<lparr>contents := (contents (view w))(f := None)\<rparr> else view w))"

definition posix_fs :: "'w fs \<Rightarrow> ('w \<Rightarrow> disk_view) \<Rightarrow> bool" where
  "posix_fs fs view \<longleftrightarrow> posix_dirs fs view \<and> posix_temp fs view \<and> posix_data fs view"

text \<open>What a writer leaves: only the file and one new temporary name may differ.\<close>

definition only_temp :: "string \<Rightarrow> string \<Rightarrow> disk_view \<Rightarrow> disk_view \<Rightarrow> bool" where
  "only_temp path tmp v v' \<longleftrightarrow> tmp \<noteq> path \<and> (contents v tmp = None \<or> contents v' tmp = None \<or> contents v' tmp = contents v tmp) \<and>
     (\<forall>f. f \<noteq> path \<and> f \<noteq> tmp \<longrightarrow> contents v' f = contents v f)"

lemma make_dirs_view: "posix_dirs fs view \<Longrightarrow> view (snd (make_dirs fs ds w)) = view w"
proof (induction ds arbitrary: w)
  case (Cons d ds)
  obtain r w1 where m: "fs_mkdir fs d w = (r, w1)" by fastforce
  obtain st w2 where s: "fs_stat fs d w1 = (st, w2)" by fastforce
  have v: "view w1 = view w" "view w2 = view w1" using Cons.prems m s unfolding posix_dirs_def by (metis snd_conv)+
  show ?case
    using Cons.IH [OF Cons.prems, of w1] Cons.IH [OF Cons.prems, of w2] v by (simp add: m s)
qed simp

lemma posix_calls:
  assumes "posix_fs fs view"
  shows "fs_umask fs m w = (x, w1) \<Longrightarrow> contents (view w1) = contents (view w)"
    "fs_mkstemp fs t w = ((ok, name), w1) \<Longrightarrow> length name = length t \<and> (ok \<longrightarrow> contents (view w) name = None) \<and>
       contents (view w1) = (if ok then (contents (view w))(name := Some []) else contents (view w))"
    "contents (view (fs_fchmod fs f m w)) = contents (view w)"
    "fs_fdopen fs f w = (ok, w1) \<Longrightarrow> contents (view w1) = contents (view w)"
    "contents (view (fs_close fs f w)) = contents (view w)"
    "fs_fprintf fs f content w = (ok, w1) \<Longrightarrow>
       \<exists>x. contents (view w1) = (contents (view w))(f := Some x) \<and> (ok \<longrightarrow> x = content)"
    "fs_fclose fs f w = (ok, w1) \<Longrightarrow>
       \<exists>x. contents (view w1) = (contents (view w))(f := x) \<and> (ok \<longrightarrow> x = contents (view w) f)"
    "fs_rename fs f g w = (ok, w1) \<Longrightarrow>
       contents (view w1) = (if ok then (contents (view w))(g := contents (view w) f, f := None) else contents (view w))"
    "fs_unlink fs f w = (ok, w1) \<Longrightarrow>
       contents (view w1) = (if ok then (contents (view w))(f := None) else contents (view w))"
proof -
  have td: "posix_temp fs view" "posix_data fs view" using assms by (auto simp: posix_fs_def)
  have u: "view (snd (fs_umask fs m w)) = (view w)\<lparr>file_mask := m\<rparr>"
    and c: "view (fs_fchmod fs f m w) = view w" and o: "view (snd (fs_fdopen fs f w)) = view w"
    and l: "view (fs_close fs f w) = (view w)\<lparr>descriptors := descriptors (view w) - 1\<rparr>"
    using td(1) unfolding posix_temp_def by blast+
  have k: "case fs_mkstemp fs t w of ((ok, name), w1) \<Rightarrow>
        length name = length t \<and> (ok \<longrightarrow> contents (view w) name = None) \<and>
        view w1 = (if ok then (view w)\<lparr>contents := (contents (view w))(name := Some []), descriptors := descriptors (view w) + 1\<rparr>
                   else view w)"
    by (rule td(1) [unfolded posix_temp_def, THEN conjunct2, THEN conjunct1, THEN spec, THEN spec])
  have p: "case fs_fprintf fs f content w of (ok, w1) \<Rightarrow>
        \<exists>x. view w1 = (view w)\<lparr>contents := (contents (view w))(f := Some x)\<rparr> \<and> (ok \<longrightarrow> x = content)"
    by (rule td(2) [unfolded posix_data_def, THEN conjunct1, THEN spec, THEN spec, THEN spec])
  have q: "case fs_fclose fs f w of (ok, w1) \<Rightarrow>
        \<exists>x. view w1 = (view w)\<lparr>contents := (contents (view w))(f := x), descriptors := descriptors (view w) - 1\<rparr> \<and>
          (ok \<longrightarrow> x = contents (view w) f)"
    by (rule td(2) [unfolded posix_data_def, THEN conjunct2, THEN conjunct1, THEN spec, THEN spec])
  have r: "case fs_rename fs f g w of (ok, w1) \<Rightarrow>
        view w1 = (if ok then (view w)\<lparr>contents := (contents (view w))(g := contents (view w) f, f := None)\<rparr> else view w)"
    by (rule td(2) [unfolded posix_data_def, THEN conjunct2, THEN conjunct2, THEN conjunct1, THEN spec, THEN spec, THEN spec])
  have n: "case fs_unlink fs f w of (ok, w1) \<Rightarrow>
        view w1 = (if ok then (view w)\<lparr>contents := (contents (view w))(f := None)\<rparr> else view w)"
    by (rule td(2) [unfolded posix_data_def, THEN conjunct2, THEN conjunct2, THEN conjunct2, THEN spec, THEN spec])
  show "fs_umask fs m w = (x, w1) \<Longrightarrow> contents (view w1) = contents (view w)" using u by simp
  show "fs_mkstemp fs t w = ((ok, name), w1) \<Longrightarrow> length name = length t \<and> (ok \<longrightarrow> contents (view w) name = None) \<and>
       contents (view w1) = (if ok then (contents (view w))(name := Some []) else contents (view w))" using k by simp
  show "contents (view (fs_fchmod fs f m w)) = contents (view w)" using c by simp
  show "fs_fdopen fs f w = (ok, w1) \<Longrightarrow> contents (view w1) = contents (view w)" using o by simp
  show "contents (view (fs_close fs f w)) = contents (view w)" using l by simp
  show "fs_fprintf fs f content w = (ok, w1) \<Longrightarrow>
       \<exists>x. contents (view w1) = (contents (view w))(f := Some x) \<and> (ok \<longrightarrow> x = content)" using p by auto
  show "fs_fclose fs f w = (ok, w1) \<Longrightarrow>
       \<exists>x. contents (view w1) = (contents (view w))(f := x) \<and> (ok \<longrightarrow> x = contents (view w) f)"
  proof -
    assume "fs_fclose fs f w = (ok, w1)"
    then obtain x where "view w1 = (view w)\<lparr>contents := (contents (view w))(f := x), descriptors := descriptors (view w) - 1\<rparr>"
      "ok \<longrightarrow> x = contents (view w) f" using q by auto
    then show ?thesis by (intro exI [of _ x]) simp
  qed
  show "fs_rename fs f g w = (ok, w1) \<Longrightarrow>
       contents (view w1) = (if ok then (contents (view w))(g := contents (view w) f, f := None) else contents (view w))" using r by simp
  show "fs_unlink fs f w = (ok, w1) \<Longrightarrow>
       contents (view w1) = (if ok then (contents (view w))(f := None) else contents (view w))" using n by simp
qed

lemma write_failure_keeps:
  assumes "posix_fs fs view" "contents (view w) = (contents v)(tmp := x)" "tmp \<noteq> path" "contents v tmp = None \<or> x = contents v tmp"
  shows "\<exists>w1. write_failure fs tmp u w = (False, u, w1) \<and> only_temp path tmp v (view w1) \<and>
    contents (view w1) path = contents v path"
proof -
  obtain ok w1 where c: "fs_unlink fs tmp w = (ok, w1)" by fastforce
  show ?thesis using posix_calls(9) [OF assms(1) c] assms(2-4) c by (auto simp: write_failure_def only_temp_def)
qed

lemma write_temp_atomic:
  assumes px: "posix_fs fs view"
  shows "\<exists>ok w' tmp. write_temp fs u plist path (path @ ''.XXXXXX'') w = (ok, u, w') \<and> only_temp path tmp (view w) (view w') \<and>
    contents (view w') path = (if ok then Some (written_text plist) else contents (view w) path)"
proof -
  let ?v = "view w"
  note calls = posix_calls [OF px]
  obtain m w2 where c2: "fs_umask fs 0x3F w = (m, w2)" by fastforce
  obtain ok3 tmp w3 where c3: "fs_mkstemp fs (path @ ''.XXXXXX'') w2 = ((ok3, tmp), w3)" by (metis prod.exhaust)
  have t: "tmp \<noteq> path" "ok3 \<longrightarrow> contents ?v tmp = None"
    "contents (view w3) = (contents ?v)(tmp := if ok3 then Some [] else contents ?v tmp)"
    using calls(2) [OF c3] calls(1) [OF c2] by auto
  have via: ?thesis if e: "write_temp fs u plist path (path @ ''.XXXXXX'') w = write_failure fs tmp u w8"
    and w8: "contents (view w8) = (contents ?v)(tmp := x)" and x: "ok3 \<or> x = contents ?v tmp" for w8 x
  proof -
    obtain w' where "write_failure fs tmp u w8 = (False, u, w')" "only_temp path tmp ?v (view w')" "contents (view w') path = contents ?v path"
      using write_failure_keeps [OF px w8 t(1), of u] t(2) x by blast
    then show ?thesis unfolding e by (intro exI [of _ False] exI [of _ w'] exI [of _ tmp]) simp
  qed
  show ?thesis
  proof (cases ok3)
    case False
    then have "write_temp fs u plist path (path @ ''.XXXXXX'') w = write_failure fs tmp u w3"
      by (simp add: write_temp_def c2 c3)
    then show ?thesis by (rule via) (use t(3) False in auto)
  next
    case ok3: True
    obtain m4 w4 where c4: "fs_umask fs m w3 = (m4, w4)" by fastforce
    obtain ok6 w6 where c6: "fs_fdopen fs tmp (fs_fchmod fs tmp (0x1B6 AND NOT m) w4) = (ok6, w6)" by fastforce
    have v6: "contents (view w6) = (contents ?v)(tmp := Some [])"
      using calls(4) [OF c6] calls(3) calls(1) [OF c4] t(3) ok3 by simp
    obtain ok7 w7 where c7: "fs_fprintf fs tmp (written_text plist) w6 = (ok7, w7)" by fastforce
    obtain x7 where v7: "contents (view w7) = (contents ?v)(tmp := Some x7)" "ok7 \<longrightarrow> x7 = written_text plist"
      using calls(6) [OF c7] v6 by auto
    obtain ok8 w8 where c8: "fs_fclose fs tmp w7 = (ok8, w8)" by fastforce
    obtain x8 where v8: "contents (view w8) = (contents ?v)(tmp := x8)" "ok8 \<longrightarrow> x8 = Some x7"
      using calls(7) [OF c8] v7 by auto
    obtain ok9 w9 where c9: "fs_rename fs tmp path w8 = (ok9, w9)" by fastforce
    have v9: "contents (view w9) = (if ok9 then (contents ?v)(tmp := None, path := x8) else (contents ?v)(tmp := x8))"
      using calls(8) [OF c9] v8 t(1) by (auto simp: fun_upd_twist)
    have done_v: "only_temp path tmp ?v (view w9)" if "ok9" using v9 that t by (auto simp: only_temp_def)
    have e: "write_temp fs u plist path (path @ ''.XXXXXX'') w =
      (if \<not> ok6 then write_failure fs tmp u (fs_close fs tmp w6)
       else if \<not> ok7 then write_failure fs tmp u w7
       else if \<not> ok8 then write_failure fs tmp u w8
       else if \<not> ok9 then write_failure fs tmp u w9 else (True, u, w9))"
      by (simp add: write_temp_def c2 c3 c4 c6 c7 c8 c9 ok3 Let_def)
    have v6': "contents (view (fs_close fs tmp w6)) = (contents ?v)(tmp := Some [])" using calls(5) v6 by simp
    consider "\<not> ok6" | "ok6" "\<not> ok7" | "ok6" "ok7" "\<not> ok8" | "ok6" "ok7" "ok8" "\<not> ok9" | "ok6" "ok7" "ok8" "ok9" by blast
    then show ?thesis
    proof cases
      case 1
      then show ?thesis by (intro via [OF _ v6']) (simp_all add: e ok3)
    next
      case 2
      then show ?thesis by (intro via [OF _ v7(1)]) (simp_all add: e ok3)
    next
      case 3
      then show ?thesis by (intro via [OF _ v8(1)]) (simp_all add: e ok3)
    next
      case 4
      then show ?thesis by (intro via [of w9 x8]) (simp_all add: e v9 ok3)
    next
      case 5
      then show ?thesis
        unfolding e using done_v v9 v8(2) v7(2) t(1)
        by (intro exI [of _ True] exI [of _ w9] exI [of _ tmp]) simp
    qed
  qed
qed

text \<open>When the directory part of a path fits the buffer of \<open>wmkdirhier\<close>.\<close>

definition dir_fits :: "string \<Rightarrow> string \<Rightarrow> bool" where
  "dir_fits t path \<longleftrightarrow>
     (let dir = take (strip_loop path (length path)) path
      in length t < 1024 \<and> length dir < 1024 \<and> length t \<le> length dir)"

definition others_kept :: "string \<Rightarrow> disk_view \<Rightarrow> disk_view \<Rightarrow> bool" where
  "others_kept path v v' \<longleftrightarrow>
     (\<exists>tmp. \<forall>f. f \<noteq> path \<and> contents v' f \<noteq> contents v f \<longrightarrow> f = tmp \<and> (contents v f = None \<or> contents v' f = None))"

lemma write_file_outcome:
  assumes "env_ok env" "paths_ok u" "EOS \<notin> set path" and px: "posix_fs fs view"
    and t: "wusergnusteppath env u = Some (t, u1)" and fits: "dir_fits t path"
  shows "\<exists>ok w'. WMWritePropListToFile env fs u plist path w = Some (ok, u1, w') \<and>
    contents (view w') path = (if ok then Some (written_text plist) else contents (view w) path) \<and>
    others_kept path (view w) (view w')"
proof -
  let ?dir = "take (strip_loop path (length path)) path"
  obtain st w1 where st: "fs_stat fs ?dir w = (st, w1)" by fastforce
  have pd: "posix_dirs fs view" using px by (simp add: posix_fs_def)
  have v1: "view w1 = view w" using pd st unfolding posix_dirs_def by (metis snd_conv)
  have l: "length t < 1024" "length ?dir < 1024" "length t \<le> length ?dir" using fits by (simp_all add: dir_fits_def Let_def)
  obtain r w2 where d: "wmkdirhier env fs u path w = Some (r, u1, w2)" "view w2 = view w"
  proof -
    obtain r2 w3 where m: "make_dirs fs (dirs_from ?dir (length t)) w1 = (r2, w3)" by fastforce
    have "view w3 = view w" using make_dirs_view [OF pd, of "dirs_from ?dir (length t)" w1] m v1 by simp
    then show thesis
      using mkdirhier_chain [OF assms(1-3) t refl st l] m v1 that by (auto split: if_splits option.splits)
  qed
  have tm: "wstrconcat (Some path) (Some ''.XXXXXX'') = Some (Some (path @ ''.XXXXXX''))"
    by (rule wstrconcat_both) (use assms(3) in auto)
  show ?thesis
  proof (cases "r = 0")
    case True
    then show ?thesis using d by (intro exI [of _ False] exI [of _ w2]) (simp add: WMWritePropListToFile_def others_kept_def)
  next
    case False
    obtain ok w' tmp where w': "write_temp fs u1 plist path (path @ ''.XXXXXX'') w2 = (ok, u1, w')"
      "only_temp path tmp (view w2) (view w')"
      "contents (view w') path = (if ok then Some (written_text plist) else contents (view w2) path)"
      using write_temp_atomic [OF px] by blast
    have "others_kept path (view w) (view w')"
      using w'(2) d(2) unfolding others_kept_def only_temp_def by metis
    then show ?thesis
      using d w' tm False by (intro exI [of _ ok] exI [of _ w']) (simp add: WMWritePropListToFile_def)
  qed
qed

text \<open>
  C33: For a path whose directory fits the buffers of \<open>wmkdirhier\<close>, \<open>WMWritePropListToFile\<close> returns, and it changes the file completely or not at all: after True the file holds
  the printed value, after False it is as before, whichever call failed. No other file changes, apart from one
  temporary name, which may be left over, or be removed. Reading the file after True gives a value equal to the one written when that is
  valid and \<open>readable\<close>, and NULL when it is valid and has a string with a dollar sign that is printed without quotes.
\<close>

theorem write_file_atomic:
  assumes "env_ok env" "paths_ok u" "EOS \<notin> set path" and px: "posix_fs fs view"
    and t: "wusergnusteppath env u = Some (t, u1)" and fits: "dir_fits t path"
  shows "\<exists>ok w'. WMWritePropListToFile env fs u plist path w = Some (ok, u1, w') \<and>
    contents (view w') path = (if ok then Some (written_text plist) else contents (view w) path) \<and>
    others_kept path (view w) (view w') \<and>
    (ok \<and> valid_plist cs plist \<longrightarrow>
      (if readable plist
       then \<exists>q s. WMReadPropListFromFile cs (contents (view w') path) = Some (Some q, Some s) \<and> WMIsPropListEqualTo cs plist q
       else \<exists>s. WMReadPropListFromFile cs (contents (view w') path) = Some (NULL, Some s)))"
proof -
  have "if readable plist
      then \<exists>q s. WMReadPropListFromFile cs (Some (written_text plist)) = Some (Some q, Some s) \<and> WMIsPropListEqualTo cs plist q
      else \<exists>s. WMReadPropListFromFile cs (Some (written_text plist)) = Some (NULL, Some s)"
    if "valid_plist cs plist"
    using written_file_read [OF that] by (auto split: if_splits)
  moreover obtain ok w' where "WMWritePropListToFile env fs u plist path w = Some (ok, u1, w')"
    "contents (view w') path = (if ok then Some (written_text plist) else contents (view w) path)"
    "others_kept path (view w) (view w')"
    using write_file_outcome [OF assms] by blast
  ultimately show ?thesis by (intro exI [of _ ok] exI [of _ w']) (auto split: if_splits)
qed

text \<open>A system where every call works, directories exist, and temporary names end in six letters \<open>a\<close>.\<close>

definition temp_name :: "string \<Rightarrow> string" where
  "temp_name t = take (length t - 6) t @ (if length t < 6 then replicate (length t) (CHR ''a'') else ''aaaaaa'')"

definition view_system :: "disk_view fs" where
  "view_system = \<lparr>
     fs_stat = (\<lambda>f v. (Some True, v)), fs_mkdir = (\<lambda>f v. (MkdirExists, v)),
     fs_umask = (\<lambda>m v. (file_mask v, v\<lparr>file_mask := m\<rparr>)),
     fs_mkstemp = (\<lambda>t v. if contents v (temp_name t) = None
        then ((True, temp_name t), v\<lparr>contents := (contents v)(temp_name t := Some []), descriptors := descriptors v + 1\<rparr>)
        else ((False, t), v)),
     fs_fchmod = (\<lambda>f m v. v), fs_fdopen = (\<lambda>f v. (True, v)),
     fs_close = (\<lambda>f v. v\<lparr>descriptors := descriptors v - 1\<rparr>),
     fs_fprintf = (\<lambda>f text v. (True, v\<lparr>contents := (contents v)(f := Some text)\<rparr>)),
     fs_fclose = (\<lambda>f v. (True, v\<lparr>descriptors := descriptors v - 1\<rparr>)),
     fs_rename = (\<lambda>f g v. (True, v\<lparr>contents := (contents v)(g := contents v f, f := None)\<rparr>)),
     fs_unlink = (\<lambda>f v. (True, v\<lparr>contents := (contents v)(f := None)\<rparr>))\<rparr>"

lemma view_system_posix: "posix_fs view_system (\<lambda>v. v)"
proof -
  have n: "length (temp_name t) = length t" for t by (auto simp: temp_name_def)
  have "posix_dirs view_system (\<lambda>v. v)" by (simp add: posix_dirs_def view_system_def)
  moreover have "posix_temp view_system (\<lambda>v. v)" by (simp add: posix_temp_def view_system_def n)
  moreover have "posix_data view_system (\<lambda>v. v)" by (auto simp: posix_data_def view_system_def)
  ultimately show ?thesis by (simp add: posix_fs_def)
qed

lemma write_file_atomic_witness:
  "\<exists>ok w'. WMWritePropListToFile example_env view_system \<lparr>gnustep_path = Some ''/h/L'', home_path = NULL\<rparr> example_plist ''/h/L/P/A''
       \<lparr>contents = Map.empty, file_mask = 18, descriptors = 3\<rparr> = Some (ok, \<lparr>gnustep_path = Some ''/h/L'', home_path = NULL\<rparr>, w') \<and>
     contents w' ''/h/L/P/A'' = (if ok then Some (written_text example_plist) else None)"
  using write_file_atomic [OF example_env_ok(1) _ _ view_system_posix, of "\<lparr>gnustep_path = Some ''/h/L'', home_path = NULL\<rparr>"
      "''/h/L/P/A''" "''/h/L''" _ example_plist "\<lparr>contents = Map.empty, file_mask = 18, descriptors = 3\<rparr>" True]
  by (fastforce simp: paths_ok_def home_ok_def wusergnusteppath_def dir_fits_def)

text \<open>Two calls are not undone: after a failed \<open>mkstemp\<close> the mask stays, after a failed \<open>fprintf\<close> the file stays open.\<close>

lemma failed_mkstemp_keeps_mask:
  assumes "posix_fs fs view" "\<And>t w. \<not> fst (fst (fs_mkstemp fs t w))"
  shows "\<exists>w'. write_temp fs u plist path template w = (False, u, w') \<and> file_mask (view w') = 0x3F"
proof -
  obtain m w2 where c2: "fs_umask fs 0x3F w = (m, w2)" by fastforce
  obtain tmp w3 where c3: "fs_mkstemp fs template w2 = ((False, tmp), w3)"
    using assms(2) [of template w2] by (metis fst_conv prod.exhaust)
  obtain ok w4 where c4: "fs_unlink fs tmp w3 = (ok, w4)" by fastforce
  have "view w2 = (view w)\<lparr>file_mask := 0x3F\<rparr>" using assms(1) c2 unfolding posix_fs_def posix_temp_def by (metis snd_conv)
  moreover have "view w3 = view w2"
    using assms(1) [unfolded posix_fs_def posix_temp_def, THEN conjunct2, THEN conjunct1, THEN conjunct2, THEN conjunct1, THEN spec [of _ template], THEN spec [of _ w2]] c3 by simp
  moreover have "view w4 = (if ok then (view w3)\<lparr>contents := (contents (view w3))(tmp := None)\<rparr> else view w3)"
    using assms(1) [unfolded posix_fs_def posix_data_def, THEN conjunct2, THEN conjunct2, THEN conjunct2, THEN conjunct2, THEN conjunct2, THEN spec [of _ tmp], THEN spec [of _ w3]] c4 by simp
  ultimately show ?thesis by (simp add: write_temp_def write_failure_def c2 c3 c4)
qed

section \<open>Reading from a pipe\<close>

lemma fgets_line:
  assumes "2 \<le> n" "printed \<noteq> []"
  shows "\<exists>line rest. fgets n printed = Some (line, rest) \<and> printed = line @ rest \<and> line \<noteq> [] \<and> length line < n"
proof -
  let ?line = "takeWhile (\<lambda>c. c \<noteq> NL) printed"
  let ?len = "min (n - 1) (if length ?line < length printed then length ?line + 1 else length ?line)"
  have "0 < ?len" using assms by (cases printed) auto
  then show ?thesis
    using assms
    by (intro exI [of _ "take ?len printed"] exI [of _ "drop ?len printed"]) (auto simp: fgets_def Let_def)
qed

lemma pipe_loop_reads:
  "EOS \<notin> set s \<Longrightarrow> EOS \<notin> set printed \<Longrightarrow> length s + n = length (map Cell (s @ [EOS]) @ junk) \<Longrightarrow> 2 \<le> n \<Longrightarrow>
   \<exists>junk'. pipe_loop printed (map Cell (s @ [EOS]) @ junk) (length s) n = Some (map Cell (s @ printed @ [EOS]) @ junk')"
proof (induction "length printed" arbitrary: printed s n junk rule: less_induct)
  case less
  show ?case
  proof (cases "printed = []")
    case True
    then show ?thesis by (subst pipe_loop.simps) (simp add: fgets_def)
  next
    case False
    then obtain line rest where f: "fgets n printed = Some (line, rest)" "printed = line @ rest" "line \<noteq> []" "length line < n"
      using fgets_line less.prems(4) by blast
    let ?buf = "map Cell (s @ [EOS]) @ junk" and ?s = "s @ line"
    define junk1 where "junk1 = drop (length line) junk"
    have c: "mem_copy ?buf (int (length s)) (map Cell (line @ [EOS])) 0 (int (length line + 1)) =
        Some (map Cell (?s @ [EOS]) @ junk1)"
      using less.prems(3) f(4) by (auto simp: mem_copy_def junk1_def nat_add_distrib)
    have l1: "length ?s + (n - length line) = length (map Cell (?s @ [EOS]) @ junk1)"
      using less.prems(3) f(4) by (simp add: junk1_def)
    have no: "EOS \<notin> set ?s" "EOS \<notin> set rest" using less.prems(1,2) f(2) by auto
    have sh: "length rest < length printed" using f(2,3) by simp
    show ?thesis
    proof (cases "n - length line < block_read_margin")
      case True
      define junk2 where "junk2 = junk1 @ replicate (length ?s + block_read_size - length (map Cell (?s @ [EOS]) @ junk1)) Undef"
      have r: "wrealloc_block (map Cell (?s @ [EOS]) @ junk1) (int (length ?s + block_read_size)) = map Cell (?s @ [EOS]) @ junk2"
        using l1 True by (subst wrealloc_block_grow) (simp_all add: junk2_def block_read_size_def block_read_margin_def)
      have "length ?s + block_read_size = length (map Cell (?s @ [EOS]) @ junk2)"
        using l1 True by (simp add: junk2_def block_read_size_def block_read_margin_def)
      from less.hyps [OF sh no this] obtain junk' where
        "pipe_loop rest (map Cell (?s @ [EOS]) @ junk2) (length ?s) block_read_size = Some (map Cell (?s @ rest @ [EOS]) @ junk')"
        by (auto simp: block_read_size_def)
      then show ?thesis
        using f(1,2) c r True by (subst pipe_loop.simps) (simp add: Let_def)
    next
      case False
      from less.hyps [OF sh no l1] False obtain junk' where
        "pipe_loop rest (map Cell (?s @ [EOS]) @ junk1) (length ?s) (n - length line) = Some (map Cell (?s @ rest @ [EOS]) @ junk')"
        by (auto simp: block_read_margin_def)
      then show ?thesis
        using f(1,2) c False by (subst pipe_loop.simps) (simp add: Let_def)
    qed
  qed
qed

text \<open>
  C34: \<open>WMReadPropListFromPipe\<close> reads everything that the command prints, in lines of any length, growing its block
  as it goes and never writing outside it: the result is that of parsing the whole printed.
\<close>

theorem pipe_reads_output:
  assumes "EOS \<notin> set printed"
  shows "WMReadPropListFromPipe cs (Some printed) = map_option (\<lambda>(p, s). (p, Some s)) (WMCreatePropListFromDescription cs printed) \<and>
    WMReadPropListFromPipe cs (Some printed) \<noteq> None"
proof -
  have z: "wmalloc_block EOS (int block_read_size) = map Cell ([] @ [EOS]) @ replicate 4095 (Cell EOS)"
    by (simp add: wmalloc_block_def block_read_size_def flip: replicate_Suc)
  obtain junk where l: "pipe_loop printed (wmalloc_block EOS (int block_read_size)) 0 block_read_size = Some (map Cell (printed @ [EOS]) @ junk)"
    using pipe_loop_reads [of "[]" printed block_read_size "replicate 4095 (Cell EOS)"] assms unfolding z
    by (auto simp: block_read_size_def)
  have "read_string (map Cell (printed @ [EOS]) @ junk) = Some printed"
    by (rule read_string_holds) (use assms in \<open>auto simp: holds_def\<close>)
  then show ?thesis using l description_returns [of cs printed] by (auto simp: WMReadPropListFromPipe_def)
qed

lemma pipe_reads_output_witness:
  "WMReadPropListFromPipe True (Some ''(a, b)'') \<noteq> None"
  by (rule conjunct2 [OF pipe_reads_output]) simp

end
