(* ===== verification/WMUserDefaults.thy ===== *)
theory WMUserDefaults
  imports WMPlistFiles WMPlistOperations
begin

text \<open>
  \<open>WMcore/userdefaults.c\<close>: databases of user defaults. A database has a dictionary from names of domains to
  domains, which are dictionaries again; the first domain of its search list is the application's, and it is
  shared: \<open>appDomain\<close> and the entry of \<open>defaults\<close> are one object. So the domains live in a heap. Objects that are released stay
  allocated here. The floating point values and the timer that synchronizes the databases where \<open>inotify\<close> is missing are left out.
\<close>

section \<open>The state\<close>

record UserDefaults =
  defaults :: "(W_PropList, nat) W_HashTable"
  appDomain :: "nat ptr"
  searchListArray :: W_PropList
  searchList :: "W_PropList list"
  dirty :: bool
  dontSync :: bool
  db_path :: "string ptr"
  timestamp :: int

text \<open>
  The surroundings: \<open>mtime\<close> is \<open>stat\<close>, \<open>read_file\<close> what can be read of a file, \<open>applicationName\<close> the name that
  \<open>WMGetApplicationName\<close> gives, \<open>caseSensitive\<close> the variable of \<open>proplist.c\<close>.
\<close>

record 'w ud_env =
  paths_env :: path_env
  file_system :: "'w fs"
  mtime :: "string \<Rightarrow> 'w \<Rightarrow> int option"
  read_file :: "string \<Rightarrow> 'w \<Rightarrow> string option"
  applicationName :: string
  caseSensitive :: bool

text \<open>
  \<open>sharedUserDefaults\<close> is the list linked by \<open>next\<close>; \<open>fresh\<close> the next address; \<open>posted\<close> the databases that
  \<open>WMUserDefaultsDidChangeNotification\<close> was posted for.
\<close>

record 'w ud_state =
  world :: 'w
  user :: user_paths
  domains :: "nat \<Rightarrow> W_PropList option"
  databases :: "nat \<Rightarrow> UserDefaults option"
  sharedUserDefaults :: "nat list"
  fresh :: nat
  posted :: "nat list"
  registeredSaveOnExit :: bool

definition alloc_domain :: "W_PropList \<Rightarrow> 'w ud_state \<Rightarrow> nat \<times> 'w ud_state" where
  "alloc_domain v s = (fresh s, s\<lparr>domains := (domains s)(fresh s := Some v), fresh := fresh s + 1\<rparr>)"

definition set_db :: "nat \<Rightarrow> UserDefaults \<Rightarrow> 'w ud_state \<Rightarrow> 'w ud_state" where
  "set_db d db s = s\<lparr>databases := (databases s)(d := Some db)\<rparr>"

section \<open>Files\<close>

definition read_plist :: "'w ud_env \<Rightarrow> string \<Rightarrow> 'w ud_state \<Rightarrow> W_PropList ptr option" where
  "read_plist env path s = map_option fst (WMReadPropListFromFile (caseSensitive env) (read_file env path (world s)))"

definition write_plist :: "'w ud_env \<Rightarrow> W_PropList \<Rightarrow> string \<Rightarrow> 'w ud_state \<Rightarrow> 'w ud_state option" where
  "write_plist env plist path s = do {
     (written, u, w) \<leftarrow> WMWritePropListToFile (paths_env env) (file_system env) (user s) plist path (world s);
     Some (s\<lparr>user := u, world := w\<rparr>) }"

definition domain_file :: "'w ud_env \<Rightarrow> string \<Rightarrow> 'w ud_state \<Rightarrow> (string \<times> 'w ud_state) option" where
  "domain_file env domain s = do {
     (path, u) \<leftarrow> wdefaultspathfordomain (paths_env env) (user s) domain;
     Some (path, s\<lparr>user := u\<rparr>) }"

text \<open>The file of a database; only the standard one has no path of its own.\<close>

definition database_file :: "'w ud_env \<Rightarrow> UserDefaults \<Rightarrow> 'w ud_state \<Rightarrow> (string \<times> 'w ud_state) option" where
  "database_file env db s =
     (case db_path db of None \<Rightarrow> domain_file env (applicationName env) s | Some path \<Rightarrow> Some (path, s))"

text \<open>\<open>stat\<close> and the field \<open>timestamp\<close>.\<close>

definition new_timestamp :: "'w ud_env \<Rightarrow> string \<Rightarrow> 'w ud_state \<Rightarrow> int \<Rightarrow> int" where
  "new_timestamp env path s old = (case mtime env path (world s) of Some t \<Rightarrow> t | None \<Rightarrow> old)"

section \<open>Synchronization\<close>

definition WMEnableUDPeriodicSynchronization :: "nat \<Rightarrow> bool \<Rightarrow> 'w ud_state \<Rightarrow> 'w ud_state option" where
  "WMEnableUDPeriodicSynchronization d enable s = do {
     db \<leftarrow> databases s d;
     Some (set_db d (db\<lparr>dontSync := \<not> enable\<rparr>) s) }"

text \<open>
  The domain read from a file becomes the application's, under the first name of the search list. A NULL
  domain (\<open>WMMergePLDictionaries\<close> returns it when the file has no dictionary) is retained by
  \<open>WMPutInPLDictionary\<close>: an access through NULL.
\<close>

definition replace_domain :: "'w ud_env \<Rightarrow> nat \<Rightarrow> UserDefaults \<Rightarrow> W_PropList ptr \<Rightarrow> 'w ud_state \<Rightarrow> (UserDefaults \<times> 'w ud_state) option" where
  "replace_domain env d db plF s = do {
     v \<leftarrow> plF;
     key \<leftarrow> (case searchList db of [] \<Rightarrow> None | k # ks \<Rightarrow> Some k);
     let (a, s1) = alloc_domain v s;
     Some (db\<lparr>appDomain := Some a, defaults := put_key (caseSensitive env) (defaults db) key a\<rparr>, s1) }"

text \<open>The database after the file was read or written, and whether the change is to be notified.\<close>

definition reconcile ::
    "'w ud_env \<Rightarrow> nat \<Rightarrow> UserDefaults \<Rightarrow> W_PropList \<Rightarrow> bool \<Rightarrow> string \<Rightarrow> 'w ud_state \<Rightarrow> (UserDefaults \<times> bool \<times> 'w ud_state) option" where
  "reconcile env d db domain fileIsNewer path s =
     (if fileIsNewer
      then do {
        plF \<leftarrow> read_plist env path s;
        (case plF of
           Some f \<Rightarrow> do {
             plF' \<leftarrow> (if dirty db
                      then map_option snd (WMMergePLDictionaries (caseSensitive env) False f domain False)
                      else Some (Some f));
             (db1, s1) \<leftarrow> replace_domain env d db plF' s;
             Some (db1, True, s1) }
         | None \<Rightarrow> do { s1 \<leftarrow> write_plist env domain path s; Some (db, False, s1) }) }
      else do { s1 \<leftarrow> write_plist env domain path s; Some (db, False, s1) })"

definition WMSynchronizeUserDefaults :: "'w ud_env \<Rightarrow> nat \<Rightarrow> 'w ud_state \<Rightarrow> 'w ud_state option" where
  "WMSynchronizeUserDefaults env d s = do {
     db \<leftarrow> databases s d;
     (path, s1) \<leftarrow> database_file env db s;
     let fileIsNewer = (case mtime env path (world s1) of Some t \<Rightarrow> t > timestamp db | None \<Rightarrow> False);
     (case appDomain db of
        None \<Rightarrow> Some s1
      | Some a \<Rightarrow>
          if dirty db \<or> fileIsNewer
          then do {
            domain \<leftarrow> domains s1 a;
            (db1, notify, s2) \<leftarrow> reconcile env d db domain fileIsNewer path s1;
            let db2 = db1\<lparr>dirty := False, timestamp := new_timestamp env path s2 (timestamp db1)\<rparr>;
            let s3 = set_db d db2 s2;
            Some (if notify then s3\<lparr>posted := posted s3 @ [d]\<rparr> else s3) }
          else Some s1) }"

definition WMSaveUserDefaults :: "'w ud_env \<Rightarrow> nat \<Rightarrow> 'w ud_state \<Rightarrow> 'w ud_state option" where
  "WMSaveUserDefaults env d s = do {
     db \<leftarrow> databases s d;
     (case appDomain db of
        None \<Rightarrow> Some s
      | Some a \<Rightarrow> do {
          (path, s1) \<leftarrow> database_file env db s;
          domain \<leftarrow> domains s1 a;
          s2 \<leftarrow> write_plist env domain path s1;
          Some (set_db d (db\<lparr>dirty := False, timestamp := new_timestamp env path s2 (timestamp db)\<rparr>) s2) }) }"

fun sync_loop :: "'w ud_env \<Rightarrow> nat list \<Rightarrow> 'w ud_state \<Rightarrow> 'w ud_state option" where
  "sync_loop env [] s = Some s"
| "sync_loop env (d # ds) s = do {
     db \<leftarrow> databases s d;
     s1 \<leftarrow> (if \<not> dontSync db then WMSynchronizeUserDefaults env d s else Some s);
     sync_loop env ds s1 }"

definition synchronizeUserDefaults :: "'w ud_env \<Rightarrow> 'w ud_state \<Rightarrow> 'w ud_state option" where
  "synchronizeUserDefaults env s = sync_loop env (sharedUserDefaults s) s"

text \<open>At the end of the program; \<open>running\<close>: the application name is still set.\<close>

definition w_save_defaults_changes :: "'w ud_env \<Rightarrow> bool \<Rightarrow> 'w ud_state \<Rightarrow> 'w ud_state option" where
  "w_save_defaults_changes env running s = (if \<not> running then Some s else synchronizeUserDefaults env s)"

section \<open>Opening a database\<close>

fun find_db :: "(UserDefaults \<Rightarrow> bool) \<Rightarrow> nat list \<Rightarrow> 'w ud_state \<Rightarrow> nat ptr option" where
  "find_db P [] s = Some NULL"
| "find_db P (d # ds) s = do { db \<leftarrow> databases s d; (if P db then Some (Some d) else find_db P ds s) }"

text \<open>A domain from a file: an empty dictionary when it cannot be read.\<close>

definition load_domain :: "'w ud_env \<Rightarrow> string \<Rightarrow> 'w ud_state \<Rightarrow> (nat \<times> 'w ud_state) option" where
  "load_domain env path s = do {
     domain \<leftarrow> read_plist env path s;
     Some (alloc_domain (case domain of None \<Rightarrow> WMCreatePLDictionary | Some v \<Rightarrow> v) s) }"

definition add_database :: "UserDefaults \<Rightarrow> 'w ud_state \<Rightarrow> nat \<times> 'w ud_state" where
  "add_database db s =
     (fresh s,
      s\<lparr>databases := (databases s)(fresh s := Some db), sharedUserDefaults := fresh s # sharedUserDefaults s,
        fresh := fresh s + 1, registeredSaveOnExit := True\<rparr>)"

definition WMGetStandardUserDefaults :: "'w ud_env \<Rightarrow> 'w ud_state \<Rightarrow> (nat \<times> 'w ud_state) option" where
  "WMGetStandardUserDefaults env s = do {
     found \<leftarrow> find_db (\<lambda>db. db_path db = NULL) (sharedUserDefaults s) s;
     (case found of
        Some d \<Rightarrow> Some (d, s)
      | None \<Rightarrow> do {
          let cs = caseSensitive env;
          let key = WMCreatePLString (applicationName env);
          name \<leftarrow> WMGetFromPLString key;
          (path, s1) \<leftarrow> domain_file env name s;
          let stamp = new_timestamp env path s1 0;
          (a, s2) \<leftarrow> load_domain env path s1;
          let global = WMCreatePLString ''WMGLOBAL'';
          gname \<leftarrow> WMGetFromPLString global;
          (gpath, s3) \<leftarrow> domain_file env gname s2;
          (b, s4) \<leftarrow> load_domain env gpath s3;
          Some (add_database
            \<lparr>defaults = put_key cs (put_key cs WMCreateHashTable key a) global b, appDomain = Some a,
              searchListArray = PLArray [key, global], searchList = [key, global], dirty = False,
              dontSync = (applicationName env = ''WindowMaker''), db_path = NULL, timestamp = stamp\<rparr> s4) }) }"

text \<open>\<open>strrchr\<close>: the name after the last slash.\<close>

definition last_component :: "string \<Rightarrow> string" where
  "last_component path = rev (takeWhile (\<lambda>c. c \<noteq> SLASH) (rev path))"

definition WMGetDefaultsFromPath :: "'w ud_env \<Rightarrow> string \<Rightarrow> 'w ud_state \<Rightarrow> (nat \<times> 'w ud_state) option" where
  "WMGetDefaultsFromPath env path s = do {
     found \<leftarrow> find_db (\<lambda>db. db_path db = Some path) (sharedUserDefaults s) s;
     (case found of
        Some d \<Rightarrow> Some (d, s)
      | None \<Rightarrow> do {
          let key = WMCreatePLString (last_component path);
          let stamp = new_timestamp env path s 0;
          (a, s1) \<leftarrow> load_domain env path s;
          Some (add_database
            \<lparr>defaults = put_key (caseSensitive env) WMCreateHashTable key a, appDomain = Some a,
              searchListArray = PLArray [key], searchList = [key], dirty = False,
              dontSync = False, db_path = Some (wstrdup path), timestamp = stamp\<rparr> s1) }) }"

section \<open>Objects\<close>

definition WMGetUDKeys :: "nat \<Rightarrow> 'w ud_state \<Rightarrow> W_PropList ptr option" where
  "WMGetUDKeys d s = do {
     db \<leftarrow> databases s d;
     a \<leftarrow> appDomain db;
     domain \<leftarrow> domains s a;
     Some (WMGetPLDictionaryKeys domain) }"

fun search_loop :: "bool \<Rightarrow> UserDefaults \<Rightarrow> (nat \<Rightarrow> W_PropList option) \<Rightarrow> W_PropList \<Rightarrow> W_PropList list \<Rightarrow> W_PropList ptr option" where
  "search_loop cs db objs key [] = Some NULL"
| "search_loop cs db objs key (domainName # ks) = do {
     object \<leftarrow> (case WMHashGet (WMPropListHashCallbacks cs) (defaults db) domainName of
                 None \<Rightarrow> Some NULL
               | Some a \<Rightarrow> do { domain \<leftarrow> objs a; Some (WMGetFromPLDictionary cs domain key) });
     (if object \<noteq> NULL then Some object else search_loop cs db objs key ks) }"

definition WMGetUDObjectForKey :: "'w ud_env \<Rightarrow> nat \<Rightarrow> string \<Rightarrow> 'w ud_state \<Rightarrow> W_PropList ptr option" where
  "WMGetUDObjectForKey env d defaultName s = do {
     db \<leftarrow> databases s d;
     search_loop (caseSensitive env) db (domains s) (WMCreatePLString defaultName) (searchList db) }"

definition update_domain :: "nat \<Rightarrow> (W_PropList \<Rightarrow> W_PropList) \<Rightarrow> 'w ud_state \<Rightarrow> 'w ud_state option" where
  "update_domain d f s = do {
     db \<leftarrow> databases s d;
     a \<leftarrow> appDomain db;
     domain \<leftarrow> domains s a;
     Some (set_db d (db\<lparr>dirty := True\<rparr>) (s\<lparr>domains := (domains s)(a := Some (f domain))\<rparr>)) }"

definition WMSetUDObjectForKey :: "'w ud_env \<Rightarrow> nat \<Rightarrow> W_PropList \<Rightarrow> string \<Rightarrow> 'w ud_state \<Rightarrow> 'w ud_state option" where
  "WMSetUDObjectForKey env d object defaultName =
     update_domain d (\<lambda>domain. WMPutInPLDictionary (caseSensitive env) domain (WMCreatePLString defaultName) object)"

definition WMRemoveUDObjectForKey :: "'w ud_env \<Rightarrow> nat \<Rightarrow> string \<Rightarrow> 'w ud_state \<Rightarrow> 'w ud_state option" where
  "WMRemoveUDObjectForKey env d defaultName =
     update_domain d (\<lambda>domain. WMRemoveFromPLDictionary (caseSensitive env) domain (WMCreatePLString defaultName))"

section \<open>Strings, integers and truth values\<close>

definition WMGetUDStringForKey :: "'w ud_env \<Rightarrow> nat \<Rightarrow> string \<Rightarrow> 'w ud_state \<Rightarrow> string ptr option" where
  "WMGetUDStringForKey env d defaultName s = do {
     val \<leftarrow> WMGetUDObjectForKey env d defaultName s;
     Some (case val of None \<Rightarrow> NULL | Some v \<Rightarrow> if \<not> WMIsPLString v then NULL else WMGetFromPLString v) }"

text \<open>
  \<open>sscanf(str, "%i", ..)\<close>: blanks, a sign, and digits in base 16, 8 or 10 by the prefix. \<open>None\<close>: no number.
\<close>

definition digit_value :: "char \<Rightarrow> nat" where
  "digit_value c =
     (let n = of_char c in
      if 48 \<le> n \<and> n \<le> 57 then n - 48
      else if 97 \<le> n \<and> n \<le> 102 then n - 87
      else if 65 \<le> n \<and> n \<le> 70 then n - 55
      else 99)"

fun scan_digits :: "nat \<Rightarrow> nat \<Rightarrow> string \<Rightarrow> nat" where
  "scan_digits base acc [] = acc"
| "scan_digits base acc (c # s) =
     (if digit_value c < base then scan_digits base (base * acc + digit_value c) s else acc)"

definition scan_nat :: "string \<Rightarrow> nat option" where
  "scan_nat s =
     (case s of
        c # x # h # r \<Rightarrow>
          if c = CHR ''0'' \<and> (x = CHR ''x'' \<or> x = CHR ''X'') \<and> digit_value h < 16 then Some (scan_digits 16 0 (h # r))
          else if c = CHR ''0'' then Some (scan_digits 8 0 s)
          else if digit_value c < 10 then Some (scan_digits 10 0 s) else None
      | c # r \<Rightarrow>
          if c = CHR ''0'' then Some (scan_digits 8 0 s)
          else if digit_value c < 10 then Some (scan_digits 10 0 s) else None
      | [] \<Rightarrow> None)"

definition scan_int :: "string \<Rightarrow> int option" where
  "scan_int str =
     (case dropWhile isspace str of
        c # s \<Rightarrow>
          if c = CHR ''-'' then map_option (\<lambda>n. - int n) (scan_nat s)
          else if c = CHR ''+'' then map_option int (scan_nat s)
          else map_option int (scan_nat (c # s))
      | [] \<Rightarrow> None)"

definition int_range :: "int \<Rightarrow> bool" where
  "int_range v \<longleftrightarrow> - (2 ^ 31) \<le> v \<and> v < 2 ^ 31"

text \<open>A number that is no \<open>int\<close> is undefined behaviour: \<open>None\<close>.\<close>

definition WMGetUDIntegerForKey :: "'w ud_env \<Rightarrow> nat \<Rightarrow> string \<Rightarrow> 'w ud_state \<Rightarrow> int option" where
  "WMGetUDIntegerForKey env d defaultName s = do {
     str \<leftarrow> WMGetUDStringForKey env d defaultName s;
     (case str of
        None \<Rightarrow> Some 0
      | Some t \<Rightarrow> (case scan_int t of None \<Rightarrow> Some 0 | Some v \<Rightarrow> if int_range v then Some v else None)) }"

definition strcasecmp0 :: "string \<Rightarrow> string \<Rightarrow> bool" where
  "strcasecmp0 a b \<longleftrightarrow> map tolower a = map tolower b"

definition WMGetUDBoolForKey :: "'w ud_env \<Rightarrow> nat \<Rightarrow> string \<Rightarrow> 'w ud_state \<Rightarrow> bool option" where
  "WMGetUDBoolForKey env d defaultName s = do {
     str \<leftarrow> WMGetUDStringForKey env d defaultName s;
     (case str of
        None \<Rightarrow> Some False
      | Some t \<Rightarrow> do {
          value \<leftarrow> (case scan_int t of None \<Rightarrow> Some 0 | Some v \<Rightarrow> if int_range v then Some v else None);
          Some (value \<noteq> 0 \<or> strcasecmp0 t ''YES'' \<or> strcasecmp0 t ''Y'') }) }"

text \<open>\<open>sprintf(buffer, "%i", value)\<close>; the buffer has room for 127 characters.\<close>

function show_nat :: "nat \<Rightarrow> string" where
  "show_nat n = (if n < 10 then [char_of (48 + n)] else show_nat (n div 10) @ [char_of (48 + n mod 10)])"
  by pat_completeness auto
termination by (relation "measure (\<lambda>n. n)") auto

declare show_nat.simps [simp del]

definition show_int :: "int \<Rightarrow> string" where
  "show_int v = (if v < 0 then CHR ''-'' # show_nat (nat (- v)) else show_nat (nat v))"

definition WMSetUDIntegerForKey :: "'w ud_env \<Rightarrow> nat \<Rightarrow> int \<Rightarrow> string \<Rightarrow> 'w ud_state \<Rightarrow> 'w ud_state option" where
  "WMSetUDIntegerForKey env d v defaultName s =
     WMSetUDObjectForKey env d (WMCreatePLString (show_int v)) defaultName s"

definition WMSetUDStringForKey :: "'w ud_env \<Rightarrow> nat \<Rightarrow> string \<Rightarrow> string \<Rightarrow> 'w ud_state \<Rightarrow> 'w ud_state option" where
  "WMSetUDStringForKey env d v defaultName s = WMSetUDObjectForKey env d (WMCreatePLString v) defaultName s"

definition WMSetUDBoolForKey :: "'w ud_env \<Rightarrow> nat \<Rightarrow> bool \<Rightarrow> string \<Rightarrow> 'w ud_state \<Rightarrow> 'w ud_state option" where
  "WMSetUDBoolForKey env d v defaultName s =
     WMSetUDObjectForKey env d (if v then WMCreatePLString ''YES'' else WMCreatePLString ''NO'') defaultName s"

section \<open>The search list\<close>

definition WMGetUDSearchList :: "nat \<Rightarrow> 'w ud_state \<Rightarrow> W_PropList option" where
  "WMGetUDSearchList d s = do { db \<leftarrow> databases s d; Some (searchListArray db) }"

text \<open>The block of names ends at its first NULL.\<close>

definition WMSetUDSearchList :: "'w ud_env \<Rightarrow> nat \<Rightarrow> W_PropList \<Rightarrow> 'w ud_state \<Rightarrow> 'w ud_state option" where
  "WMSetUDSearchList env d lst s = do {
     db \<leftarrow> databases s d;
     let c = WMGetPropListItemCount lst;
     let names = takeWhile (\<lambda>p. p \<noteq> NULL) (map (\<lambda>i. WMGetFromPLArray lst (int i)) [0..<c]);
     arr \<leftarrow> WMDeepCopyPropList (caseSensitive env) lst;
     Some (set_db d (db\<lparr>searchList := map the names, searchListArray := arr\<rparr>) s) }"

end
