(* ===== verification/WMUserDefaultsSpec.thy ===== *)
theory WMUserDefaultsSpec
  imports WMUserDefaults WMPlistFilesSpec WMPlistBindings
begin

text \<open>
  Correctness of \<open>WMcore/userdefaults.c\<close>: the invariant of a database (\<open>db_ok\<close>), that setting and reading are those of
  a finite map, that numbers, truth values and strings survive as text, what a synchronization reads and writes, and that
  a saved database opens again with equal values. The file system is the one of \<open>WMPlistFilesSpec\<close>.
\<close>

section \<open>Databases\<close>

abbreviation domain_of :: "bool \<Rightarrow> (W_PropList, nat) W_HashTable \<Rightarrow> W_PropList \<Rightarrow> nat ptr" where
  "domain_of cs t k \<equiv> WMHashGet (WMPropListHashCallbacks cs) t k"

lemma domain_of_put:
  assumes "dict_wf cs t" "is_key k" "is_key l"
  shows "domain_of cs (put_key cs t k a) l = (if WMIsPropListEqualTo cs l k then Some a else domain_of cs t l)"
  using put_key_spec(2) [OF assms(1,2,3), of a] by (simp add: WMHashGet_ht_map)

text \<open>
  What holds of a database: its names are keys, the first is the application's domain, and every name has a
  valid dictionary.
\<close>

definition dictionary_at :: "bool \<Rightarrow> (nat \<Rightarrow> W_PropList option) \<Rightarrow> nat \<Rightarrow> bool" where
  "dictionary_at cs objs a \<longleftrightarrow> (\<exists>t. objs a = Some (PLDictionary t) \<and> valid_plist cs (PLDictionary t))"

definition db_ok :: "bool \<Rightarrow> (nat \<Rightarrow> W_PropList option) \<Rightarrow> UserDefaults \<Rightarrow> bool" where
  "db_ok cs objs db \<longleftrightarrow> dict_wf cs (defaults db) \<and>
     (\<exists>k ks a. searchList db = k # ks \<and> appDomain db = Some a \<and> domain_of cs (defaults db) k = Some a) \<and>
     (\<forall>k \<in> set (searchList db). is_key k \<and> valid_plist cs k) \<and>
     (\<forall>k a. is_key k \<longrightarrow> domain_of cs (defaults db) k = Some a \<longrightarrow> dictionary_at cs objs a)"

lemma db_okE:
  assumes "db_ok cs objs db"
  obtains k ks a t where "searchList db = k # ks" "appDomain db = Some a" "domain_of cs (defaults db) k = Some a"
    "objs a = Some (PLDictionary t)" "valid_plist cs (PLDictionary t)" "is_key k" "dict_wf cs (defaults db)"
  using assms unfolding db_ok_def dictionary_at_def by (metis list.set_intros(1))

lemma db_ok_update:
  assumes "db_ok cs objs db" "\<forall>b. dictionary_at cs objs b \<longrightarrow> dictionary_at cs objs' b"
    "defaults db' = defaults db" "searchList db' = searchList db" "appDomain db' = appDomain db"
  shows "db_ok cs objs' db'"
  using assms unfolding db_ok_def by simp

text \<open>The object that the application's domain has for a key.\<close>

definition app_object :: "bool \<Rightarrow> (nat \<Rightarrow> W_PropList option) \<Rightarrow> UserDefaults \<Rightarrow> W_PropList \<Rightarrow> W_PropList ptr" where
  "app_object cs objs db l = do { a \<leftarrow> appDomain db; dom \<leftarrow> objs a; WMGetFromPLDictionary cs dom l }"

lemma search_loop_cong:
  assumes "\<And>a. rel_option (\<lambda>p q. WMGetFromPLDictionary cs p key = WMGetFromPLDictionary cs q key) (objs a) (objs' a)"
    and "defaults db' = defaults db"
  shows "search_loop cs db' objs' key ks = search_loop cs db objs key ks"
proof (induction ks)
  case (Cons k ks)
  show ?case
  proof (cases "domain_of cs (defaults db) k")
    case (Some a)
    then show ?thesis using assms(1) [of a] Cons.IH assms(2)
      by (cases "objs a"; cases "objs' a") auto
  qed (use Cons.IH assms(2) in simp)
qed simp

lemma search_loop_first:
  assumes "db_ok cs objs db" "app_object cs objs db key = Some v"
  shows "search_loop cs db objs key (searchList db) = Some (Some v)"
  using assms by (auto simp: app_object_def elim!: db_okE)

lemma single_search:
  assumes "db_ok cs objs db" "length (searchList db) = 1"
  shows "search_loop cs db objs key (searchList db) = Some (app_object cs objs db key)"
proof -
  obtain k a t where "searchList db = [k]" "appDomain db = Some a" "domain_of cs (defaults db) k = Some a"
    "objs a = Some (PLDictionary t)"
    using db_okE [OF assms(1)] assms(2) by (metis length_0_conv length_Cons One_nat_def nat.inject)
  then show ?thesis by (simp add: app_object_def)
qed

lemma equal_lookups:
  assumes "valid_plist cs (PLDictionary t)" "valid_plist cs (PLDictionary u)"
    "WMIsPropListEqualTo cs (PLDictionary t) (PLDictionary u)" "is_key l"
  shows "rel_option (WMIsPropListEqualTo cs) (lookup cs t l) (lookup cs u l)"
proof -
  note t = assms(3) [unfolded dictionaries_equal_lookup [OF assms(1,2)]]
  have "WMIsPropListEqualTo cs (PLDictionary u) (PLDictionary t)"
    using assms(3) plist_equal_sym [OF assms(1,2)] by blast
  note u = this [unfolded dictionaries_equal_lookup [OF assms(2,1)]]
  have tu: "\<exists>b. lookup cs u l = Some b \<and> WMIsPropListEqualTo cs a b" if "lookup cs t l = Some a" for a
    using t assms(4) that by blast
  have "lookup cs t l \<noteq> None" if "lookup cs u l = Some b" for b
    using u assms(4) that by blast
  then show ?thesis using tu by (cases "lookup cs t l"; cases "lookup cs u l") auto
qed

section \<open>Setting and reading\<close>

lemma get_put:
  assumes "valid_plist cs (PLDictionary t)" "is_key k" "is_key l"
  shows "WMGetFromPLDictionary cs (WMPutInPLDictionary cs (PLDictionary t) k v) l =
    (if WMIsPropListEqualTo cs l k then Some v else WMGetFromPLDictionary cs (PLDictionary t) l)"
  using lookup_put [OF assms] by (simp add: WMGetFromPLDictionary_def WMPutInPLDictionary_def)

lemma set_object_get:
  assumes ok: "db_ok (caseSensitive env) (domains s) db" and db: "databases s d = Some db" and v: "valid_plist (caseSensitive env) v"
  shows "\<exists>s' db'. WMSetUDObjectForKey env d v name s = Some s' \<and> databases s' d = Some db' \<and> dirty db' \<and>
    db_ok (caseSensitive env) (domains s') db' \<and>
    WMGetUDObjectForKey env d other s' =
      (if WMIsPropListEqualTo (caseSensitive env) (WMCreatePLString other) (WMCreatePLString name) then Some (Some v)
       else WMGetUDObjectForKey env d other s)"
proof -
  let ?cs = "caseSensitive env" and ?k = "WMCreatePLString name" and ?l = "WMCreatePLString other"
  obtain k ks a t where f: "searchList db = k # ks" "appDomain db = Some a" "domain_of ?cs (defaults db) k = Some a"
    "domains s a = Some (PLDictionary t)" "valid_plist ?cs (PLDictionary t)" "is_key k" "dict_wf ?cs (defaults db)"
    using db_okE [OF ok] by blast
  let ?dom = "WMPutInPLDictionary ?cs (PLDictionary t) ?k v"
  define db' where "db' = db\<lparr>dirty := True\<rparr>"
  define s' where "s' = set_db d db' (s\<lparr>domains := (domains s)(a := Some ?dom)\<rparr>)"
  have set_eq: "WMSetUDObjectForKey env d v name s = Some s'"
    using db f by (simp add: WMSetUDObjectForKey_def update_domain_def s'_def db'_def)
  have doms: "domains s' = (domains s)(a := Some ?dom)" "databases s' d = Some db'"
    by (simp_all add: s'_def set_db_def)
  have vd: "dictionary_at ?cs (domains s') a"
    using valid_put [OF f(5) created_string(1) created_string(2) v] doms
    by (simp add: dictionary_at_def WMPutInPLDictionary_def del: valid_plist.simps)
  have ok': "db_ok ?cs (domains s') db'"
    by (rule db_ok_update [OF ok]) (use vd doms in \<open>auto simp: db'_def dictionary_at_def\<close>)
  have get: "WMGetFromPLDictionary ?cs ?dom ?l = (if WMIsPropListEqualTo ?cs ?l ?k then Some v else WMGetFromPLDictionary ?cs (PLDictionary t) ?l)"
    by (rule get_put [OF f(5)]) simp_all
  have res: "WMGetUDObjectForKey env d other s' =
      (if WMIsPropListEqualTo ?cs ?l ?k then Some (Some v) else WMGetUDObjectForKey env d other s)"
  proof (cases "WMIsPropListEqualTo ?cs ?l ?k")
    case True
    then have "app_object ?cs (domains s') db' ?l = Some v"
      using get doms f(2) by (simp add: app_object_def db'_def)
    then show ?thesis
      using search_loop_first [OF ok'] doms True by (simp add: WMGetUDObjectForKey_def)
  next
    case False
    have "search_loop ?cs db' (domains s') ?l (searchList db) = search_loop ?cs db (domains s) ?l (searchList db)"
      by (rule search_loop_cong)
        (use get False doms f(4) in \<open>auto simp: db'_def option.rel_refl intro: option.rel_refl\<close>)
    then show ?thesis using doms db False by (simp add: WMGetUDObjectForKey_def db'_def)
  qed
  show ?thesis using set_eq doms(2) ok' res by (intro exI [of _ s'] exI [of _ db']) (simp add: db'_def)
qed

section \<open>Numbers\<close>

lemma digit_char:
  fixes k :: nat
  assumes "k < 10"
  shows "digit_value (char_of (48 + k)) = k" "char_of (48 + k) = CHR ''0'' \<longleftrightarrow> k = 0"
    "\<not> isspace (char_of (48 + k))" "char_of (48 + k) \<noteq> CHR ''-''" "char_of (48 + k) \<noteq> CHR ''+''" "char_of (48 + k) \<noteq> NUL"
proof -
  have m: "(48 + k) mod 256 = 48 + k" using assms by simp
  have c: "char_of (48 + k) = c \<longleftrightarrow> 48 + k = of_char c" for c :: char
    using m by (auto simp: char_of_eq_iff take_bit_eq_mod)
  show "digit_value (char_of (48 + k)) = k" using assms by (simp add: digit_value_def Let_def)
  show "char_of (48 + k) = CHR ''0'' \<longleftrightarrow> k = 0" "char_of (48 + k) \<noteq> CHR ''-''" "char_of (48 + k) \<noteq> CHR ''+''"
    "char_of (48 + k) \<noteq> NUL" "\<not> isspace (char_of (48 + k))"
    using m unfolding c isspace_def by (simp_all add: Let_def)
qed

lemma scan_digits_append:
  "\<forall>c \<in> set xs. digit_value c < b \<Longrightarrow> scan_digits b acc (xs @ ys) = scan_digits b (scan_digits b acc xs) ys"
  by (induction xs arbitrary: acc) auto

lemma show_nat_digits:
  "(\<forall>c \<in> set (show_nat n). \<exists>k. k < (10 :: nat) \<and> c = char_of (48 + k)) \<and> show_nat n \<noteq> [] \<and> (hd (show_nat n) = CHR ''0'' \<longleftrightarrow> n = 0)"
proof (induction n rule: show_nat.induct)
  case (1 n)
  show ?case
  proof (cases "n < 10")
    case True
    then show ?thesis using digit_char(2) [OF True] by (subst (1 2 3) show_nat.simps) auto
  next
    case False
    then have "\<exists>k. k < (10 :: nat) \<and> char_of (48 + n mod 10) = (char_of (48 + k) :: char)" "n div 10 \<noteq> 0"
      by (auto intro: exI [of _ "n mod 10"])
    moreover have "show_nat n = show_nat (n div 10) @ [char_of (48 + n mod 10)]"
      using False by (subst show_nat.simps) simp
    ultimately show ?thesis using 1 [OF False] False by (simp only: set_append hd_append2 Un_iff ball_Un) simp
  qed
qed

lemma scan_show_digits: "scan_digits 10 0 (show_nat n) = n"
proof (induction n rule: show_nat.induct)
  case (1 n)
  show ?case
  proof (cases "n < 10")
    case True
    then show ?thesis using digit_char(1) [OF True] by (subst show_nat.simps) simp
  next
    case False
    have d: "\<forall>c \<in> set (show_nat (n div 10)). digit_value c < 10" using show_nat_digits digit_char(1) by fastforce
    have m: "n mod 10 < 10" by simp
    show ?thesis
      using 1 [OF False] False digit_char(1) [OF m]
      by (subst show_nat.simps) (simp add: scan_digits_append [OF d])
  qed
qed

lemma scan_nat_show: "scan_nat (show_nat n) = Some n"
proof (cases "n = 0")
  case True
  then show ?thesis by (simp add: show_nat.simps scan_nat_def digit_value_def)
next
  case False
  obtain c r where s: "show_nat n = c # r" using show_nat_digits [of n] by (cases "show_nat n") auto
  then have "c \<noteq> CHR ''0''" "digit_value c < 10"
    using show_nat_digits [of n] False digit_char(1) by auto
  then have "scan_nat (c # r) = Some (scan_digits 10 0 (c # r))"
    by (auto simp: scan_nat_def split: list.split)
  then show ?thesis using scan_show_digits [of n] s by simp
qed

lemma scan_show: "scan_int (show_int v) = Some v"
proof -
  obtain c r where s: "show_nat (nat \<bar>v\<bar>) = c # r" using show_nat_digits [of "nat \<bar>v\<bar>"] by (cases "show_nat (nat \<bar>v\<bar>)") auto
  then obtain k where k: "k < (10 :: nat)" "c = char_of (48 + k)" using show_nat_digits [of "nat \<bar>v\<bar>"] by auto
  note n = scan_nat_show [of "nat \<bar>v\<bar>", unfolded s]
  show ?thesis
  proof (cases "v < 0")
    case True
    then have "show_int v = CHR ''-'' # c # r" using s by (simp add: show_int_def abs_if)
    then show ?thesis using n True by (simp add: scan_int_def isspace_def)
  next
    case False
    then have "show_int v = c # r" using s by (simp add: show_int_def abs_if)
    then show ?thesis using n False digit_char(3-5) [OF k(1)] by (simp add: scan_int_def k(2))
  qed
qed

lemma show_int_string: "c_string (show_int v) = show_int v"
proof -
  have "\<forall>c \<in> set (show_nat n). c \<noteq> NUL" for n using show_nat_digits [of n] digit_char(6) by metis
  then show ?thesis by (auto simp: show_int_def c_string_def takeWhile_eq_all_conv)
qed

section \<open>Synchronization\<close>

text \<open>What is in the application's domain after a synchronization: the file's objects, over them the changes.\<close>

definition newer :: "'w ud_env \<Rightarrow> string \<Rightarrow> UserDefaults \<Rightarrow> 'w ud_state \<Rightarrow> bool" where
  "newer env path db s = (case mtime env path (world s) of Some t \<Rightarrow> t > timestamp db | None \<Rightarrow> False)"

lemma replace_domain_ok:
  assumes ok: "db_ok (caseSensitive env) (domains s) db" and v: "valid_plist (caseSensitive env) (PLDictionary t)"
    and fresh: "domains s (fresh s) = None"
  shows "\<exists>db' s'. replace_domain env d db (Some (PLDictionary t)) s = Some (db', s') \<and>
    db_ok (caseSensitive env) (domains s') db' \<and>
    app_object (caseSensitive env) (domains s') db' l = WMGetFromPLDictionary (caseSensitive env) (PLDictionary t) l \<and>
    world s' = world s \<and> user s' = user s \<and> posted s' = posted s \<and> timestamp db' = timestamp db \<and> db_path db' = db_path db"
proof -
  let ?cs = "caseSensitive env"
  obtain k ks a u where f: "searchList db = k # ks" "is_key k" "dict_wf ?cs (defaults db)"
    using db_okE [OF ok] by metis
  define s' where "s' = snd (alloc_domain (PLDictionary t) s)"
  define db' where "db' = db\<lparr>appDomain := Some (fresh s), defaults := put_key ?cs (defaults db) k (fresh s)\<rparr>"
  have r: "replace_domain env d db (Some (PLDictionary t)) s = Some (db', s')"
    using f by (simp add: replace_domain_def alloc_domain_def s'_def db'_def)
  have doms: "domains s' = (domains s)(fresh s := Some (PLDictionary t))" by (simp add: s'_def alloc_domain_def)
  have dom_of: "domain_of ?cs (defaults db') l = (if WMIsPropListEqualTo ?cs l k then Some (fresh s) else domain_of ?cs (defaults db) l)"
    if "is_key l" for l using domain_of_put [OF f(3,2) that] by (simp add: db'_def)
  have new: "dictionary_at ?cs (domains s') (fresh s)" using v doms by (simp add: dictionary_at_def)
  have old: "dictionary_at ?cs (domains s') b" if "dictionary_at ?cs (domains s) b" for b
    using that fresh doms by (auto simp: dictionary_at_def)
  have "db_ok ?cs (domains s') db'"
  proof -
    have "dict_wf ?cs (defaults db')" using put_key_spec(1) [OF f(3,2)] by (simp add: db'_def)
    moreover have "domain_of ?cs (defaults db') k = Some (fresh s)" using dom_of [OF f(2)] key_refl [OF f(2)] by simp
    moreover have "dictionary_at ?cs (domains s') b" if "is_key l" "domain_of ?cs (defaults db') l = Some b" for l b
      using that new old ok dom_of [OF that(1)] unfolding db_ok_def by (auto split: if_splits)
    ultimately show ?thesis using ok f(1) unfolding db_ok_def by (simp add: db'_def)
  qed
  then show ?thesis using r doms
    by (intro exI [of _ db'] exI [of _ s']) (simp add: app_object_def db'_def s'_def alloc_domain_def)
qed

text \<open>
  The outcome of \<open>reconcile\<close>, \<open>f\<close> being the dictionary in the file: the objects of the changed domain win
  over those of the file.
\<close>

lemma reconcile_reload:
  assumes ok: "db_ok (caseSensitive env) (domains s) db" and a: "appDomain db = Some a" "domains s a = Some domain"
    and fresh: "domains s (fresh s) = None"
    and f: "read_plist env path s = Some (Some (PLDictionary t))" "valid_plist (caseSensitive env) (PLDictionary t)"
  shows "\<exists>db' s'. reconcile env d db domain True path s = Some (db', True, s') \<and>
    db_ok (caseSensitive env) (domains s') db' \<and> world s' = world s \<and> user s' = user s \<and> posted s' = posted s \<and>
    timestamp db' = timestamp db \<and> db_path db' = db_path db \<and>
    (\<forall>l. is_key l \<longrightarrow> app_object (caseSensitive env) (domains s') db' l =
       (if dirty db \<and> app_object (caseSensitive env) (domains s) db l \<noteq> NULL
        then app_object (caseSensitive env) (domains s) db l
        else WMGetFromPLDictionary (caseSensitive env) (PLDictionary t) l))"
proof -
  let ?cs = "caseSensitive env"
  obtain u where u: "domain = PLDictionary u" "valid_plist ?cs (PLDictionary u)"
    using db_okE [OF ok] a by (metis option.inject)
  obtain w where w: "(if dirty db then map_option snd (WMMergePLDictionaries ?cs False (PLDictionary t) domain False)
       else Some (Some (PLDictionary t))) = Some (Some (PLDictionary w))" "valid_plist ?cs (PLDictionary w)"
    "\<And>l. is_key l \<Longrightarrow> WMGetFromPLDictionary ?cs (PLDictionary w) l =
       (if dirty db \<and> WMGetFromPLDictionary ?cs domain l \<noteq> NULL then WMGetFromPLDictionary ?cs domain l
        else WMGetFromPLDictionary ?cs (PLDictionary t) l)"
  proof (cases "dirty db")
    case True
    obtain m where m: "merge_loop ?cs False t (concat (tTable u)) = Some m" "valid_dict ?cs m"
      "\<forall>l. is_key l \<longrightarrow> lookup ?cs m l = merged ?cs False (lookup ?cs t l) (binding ?cs (concat (tTable u)) l)"
      using merge_ok(2) [OF f(2) table_items_good(1) [OF u(2)]] by blast
    have "WMGetFromPLDictionary ?cs (PLDictionary m) l =
       (if WMGetFromPLDictionary ?cs domain l \<noteq> NULL then WMGetFromPLDictionary ?cs domain l
        else WMGetFromPLDictionary ?cs (PLDictionary t) l)" if "is_key l" for l
      using m(3) that table_items_good(2) [OF u(2) that] u(1)
      by (auto simp: WMGetFromPLDictionary_def merged_def split: option.splits)
    then show thesis
      using m True u(1) by (intro that [of m]) (simp_all add: WMMergePLDictionaries_def WMIsPLDictionary_def del: valid_plist.simps)
  next
    case False
    then show thesis using f(2) by (intro that [of t]) simp_all
  qed
  have ex: "\<exists>db' s'. replace_domain env d db (Some (PLDictionary w)) s = Some (db', s') \<and>
    db_ok ?cs (domains s') db' \<and> app_object ?cs (domains s') db' l = WMGetFromPLDictionary ?cs (PLDictionary w) l \<and>
    world s' = world s \<and> user s' = user s \<and> posted s' = posted s \<and> timestamp db' = timestamp db \<and> db_path db' = db_path db" for l
    by (rule replace_domain_ok [OF ok w(2) fresh])
  then obtain db' s' where r: "replace_domain env d db (Some (PLDictionary w)) s = Some (db', s')"
    "db_ok ?cs (domains s') db'" "world s' = world s" "user s' = user s" "posted s' = posted s"
    "timestamp db' = timestamp db" "db_path db' = db_path db" by blast
  have obj: "app_object ?cs (domains s') db' l = WMGetFromPLDictionary ?cs (PLDictionary w) l" for l
    using ex [of l] r(1) by auto
  have "reconcile env d db domain True path s = Some (db', True, s')"
    using f(1) w(1) r(1) by (simp add: reconcile_def)
  then show ?thesis
    using r obj w(3) a by (intro exI [of _ db'] exI [of _ s']) (auto simp: app_object_def)
qed

lemma database_file_state:
  assumes "database_file env db s = Some (path, s1)"
  shows "\<exists>u. s1 = s\<lparr>user := u\<rparr>"
  using assms
  by (cases "db_path db") (auto simp: database_file_def domain_file_def intro: exI [of _ "user s"] split: Option.bind_splits)

lemma write_plist_state:
  assumes "write_plist env p path s = Some s2"
  shows "\<exists>u w. s2 = s\<lparr>user := u, world := w\<rparr>"
  using assms by (auto simp: write_plist_def split: Option.bind_splits)

lemma db_ok_fields:
  "db_ok cs objs (db\<lparr>dirty := b, timestamp := t\<rparr>) = db_ok cs objs db"
  "app_object cs objs (db\<lparr>dirty := b, timestamp := t\<rparr>) l = app_object cs objs db l"
  by (simp_all add: db_ok_def app_object_def)

text \<open>The path of the user's defaults is computed once: the file of a database stays the same.\<close>

lemma database_file_again:
  assumes "database_file env db s = Some (path, s1)" "user s' = user s1" "db_path db' = db_path db"
  shows "database_file env db' s' = Some (path, s')"
proof (cases "db_path db")
  case None
  have cached: "wusergnusteppath e u1 = Some (g, u1)" if "wusergnusteppath e u = Some (g, u1)" for e u g u1
    using that by (auto simp: wusergnusteppath_def Let_def split: option.splits Option.bind_splits prod.splits)
  obtain g where "wusergnusteppath (paths_env env) (user s) = Some (g, user s1)"
    "path = g @ ''/Preferences/.WindowMaker'' @ ''/'' @ applicationName env"
    using assms(1) None by (auto simp: database_file_def domain_file_def wdefaultspathfordomain_def split: Option.bind_splits prod.splits)
  then show ?thesis
    using cached None assms(2,3) by (simp add: database_file_def domain_file_def wdefaultspathfordomain_def)
qed (use assms in \<open>simp add: database_file_def\<close>)

text \<open>The assumptions of the next two properties: a database, its file and its domain.\<close>

definition opened :: "'w ud_env \<Rightarrow> nat \<Rightarrow> UserDefaults \<Rightarrow> string \<Rightarrow> 'w ud_state \<Rightarrow> 'w ud_state \<Rightarrow> bool" where
  "opened env d db path s s1 \<longleftrightarrow>
     databases s d = Some db \<and> db_ok (caseSensitive env) (domains s) db \<and> domains s (fresh s) = None \<and>
     database_file env db s = Some (path, s1)"

definition file_has :: "'w ud_env \<Rightarrow> string \<Rightarrow> 'w ud_state \<Rightarrow> (W_PropList, W_PropList) W_HashTable \<Rightarrow> bool" where
  "file_has env path s t \<longleftrightarrow> read_plist env path s = Some (Some (PLDictionary t))"

lemma read_valid: "read_plist env path s = Some (Some p) \<Longrightarrow> valid_plist (caseSensitive env) p"
  using file_valid by (fastforce simp: read_plist_def)

lemma synchronize_reload:
  assumes op: "opened env d db path s s1" and n: "newer env path db s1" and f: "file_has env path s1 t"
  shows "\<exists>s' db'. WMSynchronizeUserDefaults env d s = Some s' \<and> databases s' d = Some db' \<and> \<not> dirty db' \<and>
    db_ok (caseSensitive env) (domains s') db' \<and> world s' = world s1 \<and> posted s' = posted s @ [d] \<and>
    mtime env path (world s) = Some (timestamp db') \<and> db_path db' = db_path db \<and> user s' = user s1 \<and>
    (\<forall>l. is_key l \<longrightarrow> app_object (caseSensitive env) (domains s') db' l =
       (if dirty db \<and> app_object (caseSensitive env) (domains s) db l \<noteq> NULL
        then app_object (caseSensitive env) (domains s) db l
        else WMGetFromPLDictionary (caseSensitive env) (PLDictionary t) l))"
proof -
  let ?cs = "caseSensitive env"
  have o: "databases s d = Some db" "db_ok ?cs (domains s) db" "domains s (fresh s) = None" "database_file env db s = Some (path, s1)"
    using op by (simp_all add: opened_def)
  obtain u where s1: "s1 = s\<lparr>user := u\<rparr>" using database_file_state [OF o(4)] by blast
  obtain a dom where a: "appDomain db = Some a" "domains s a = Some dom" using db_okE [OF o(2)] by metis
  obtain db1 s2 where r: "reconcile env d db dom True path s1 = Some (db1, True, s2)"
    "db_ok ?cs (domains s2) db1" "world s2 = world s1" "posted s2 = posted s1" "timestamp db1 = timestamp db" "db_path db1 = db_path db"
    "user s2 = user s1"
    "\<forall>l. is_key l \<longrightarrow> app_object ?cs (domains s2) db1 l =
       (if dirty db \<and> app_object ?cs (domains s1) db l \<noteq> NULL then app_object ?cs (domains s1) db l
        else WMGetFromPLDictionary ?cs (PLDictionary t) l)"
    using reconcile_reload [of env s1 db a dom path t d] o a s1 f [unfolded file_has_def] read_valid [OF f [unfolded file_has_def]] by auto
  obtain m where m: "mtime env path (world s) = Some m" "m > timestamp db"
    using n s1 by (auto simp: newer_def split: option.splits)
  define db2 where "db2 = db1\<lparr>dirty := False, timestamp := m\<rparr>"
  have "WMSynchronizeUserDefaults env d s = Some ((set_db d db2 s2)\<lparr>posted := posted s2 @ [d]\<rparr>)"
    using o a r(1,3,5) m s1 by (simp add: WMSynchronizeUserDefaults_def new_timestamp_def db2_def set_db_def Let_def)
  then show ?thesis
    using r m s1
    by (intro exI [of _ "(set_db d db2 s2)\<lparr>posted := posted s2 @ [d]\<rparr>"] exI [of _ db2])
      (auto simp: set_db_def db2_def db_ok_fields)
qed

lemma synchronize_keep:
  assumes op: "opened env d db path s s1" and n: "\<not> newer env path db s1"
    and a: "appDomain db = Some a" "domains s a = Some domain" and wr: "write_plist env domain path s1 = Some s2"
  shows "\<exists>s' db'. WMSynchronizeUserDefaults env d s = Some s' \<and> databases s' d = Some db' \<and> \<not> dirty db' \<and>
    db_ok (caseSensitive env) (domains s') db' \<and> world s' = (if dirty db then world s2 else world s1) \<and> posted s' = posted s \<and>
    (\<forall>l. app_object (caseSensitive env) (domains s') db' l = app_object (caseSensitive env) (domains s) db l)"
proof -
  let ?cs = "caseSensitive env"
  have o: "databases s d = Some db" "db_ok ?cs (domains s) db" "database_file env db s = Some (path, s1)"
    using op by (simp_all add: opened_def)
  obtain u where s1: "s1 = s\<lparr>user := u\<rparr>" using database_file_state [OF o(3)] by blast
  have f: "(case mtime env path (world s1) of Some t \<Rightarrow> t > timestamp db | None \<Rightarrow> False) = False"
    using n by (simp add: newer_def)
  show ?thesis
  proof (cases "dirty db")
    case False
    then have "WMSynchronizeUserDefaults env d s = Some s1"
      using o a f by (simp add: WMSynchronizeUserDefaults_def)
    then show ?thesis using o False s1 by (intro exI [of _ s1] exI [of _ db]) simp
  next
    case True
    obtain u2 w2 where s2: "s2 = s1\<lparr>user := u2, world := w2\<rparr>" using write_plist_state [OF wr] by blast
    define db2 where "db2 = db\<lparr>dirty := False, timestamp := new_timestamp env path s2 (timestamp db)\<rparr>"
    have "WMSynchronizeUserDefaults env d s = Some (set_db d db2 s2)"
      using o a f True wr s1 by (simp add: WMSynchronizeUserDefaults_def reconcile_def db2_def)
    then show ?thesis
      using o True s1 s2
      by (intro exI [of _ "set_db d db2 s2"] exI [of _ db2]) (simp add: set_db_def db2_def db_ok_fields)
  qed
qed

text \<open>A newer file that cannot be read is overwritten.\<close>

lemma synchronize_overwrite:
  assumes op: "opened env d db path s s1" and n: "newer env path db s1" and r: "read_plist env path s1 = Some NULL"
    and a: "appDomain db = Some a" "domains s a = Some domain" and wr: "write_plist env domain path s1 = Some s2"
  shows "\<exists>s' db'. WMSynchronizeUserDefaults env d s = Some s' \<and> databases s' d = Some db' \<and> \<not> dirty db' \<and>
    db_ok (caseSensitive env) (domains s') db' \<and> world s' = world s2 \<and> posted s' = posted s \<and>
    (\<forall>l. app_object (caseSensitive env) (domains s') db' l = app_object (caseSensitive env) (domains s) db l)"
proof -
  let ?cs = "caseSensitive env"
  have o: "databases s d = Some db" "db_ok ?cs (domains s) db" "database_file env db s = Some (path, s1)"
    using op by (simp_all add: opened_def)
  obtain u where s1: "s1 = s\<lparr>user := u\<rparr>" using database_file_state [OF o(3)] by blast
  obtain u2 w2 where s2: "s2 = s1\<lparr>user := u2, world := w2\<rparr>" using write_plist_state [OF wr] by blast
  have f: "(case mtime env path (world s1) of Some t \<Rightarrow> t > timestamp db | None \<Rightarrow> False) = True"
    using n by (simp add: newer_def)
  define db2 where "db2 = db\<lparr>dirty := False, timestamp := new_timestamp env path s2 (timestamp db)\<rparr>"
  have "WMSynchronizeUserDefaults env d s = Some (set_db d db2 s2)"
    using o a f wr s1 r by (simp add: WMSynchronizeUserDefaults_def reconcile_def db2_def)
  then show ?thesis
    using o s1 s2
    by (intro exI [of _ "set_db d db2 s2"] exI [of _ db2]) (simp add: set_db_def db2_def db_ok_fields)
qed


section \<open>Opening and saving\<close>

lemma new_database_ok:
  fixes t :: "(W_PropList, W_PropList) W_HashTable"
  assumes k: "is_key k" "valid_plist cs k" and v: "valid_plist cs (PLDictionary t)" and o: "objs a = Some (PLDictionary t)"
    and db: "defaults db = put_key cs WMCreateHashTable k a" "appDomain db = Some a" "searchList db = [k]"
  shows "db_ok cs objs db" "app_object cs objs db l = WMGetFromPLDictionary cs (PLDictionary t) l"
proof -
  have w: "dict_wf cs (WMCreateHashTable :: (W_PropList, nat) W_HashTable)" by (rule plist_keys.WMCreateHashTable_wf)
  have e: "domain_of cs (WMCreateHashTable :: (W_PropList, nat) W_HashTable) m = None" for m
    by (simp add: WMHashGet_ht_map plist_keys.WMCreateHashTable_map)
  have d: "domain_of cs (defaults db) m = (if WMIsPropListEqualTo cs m k then Some a else None)" if "is_key m" for m
    using domain_of_put [OF w k(1) that, of a] db(1) e [of m] by simp
  have "dict_wf cs (defaults db)" using put_key_spec(1) [OF w k(1)] db(1) by simp
  then show "db_ok cs objs db"
    using d k key_refl [OF k(1)] v o db(2,3) unfolding db_ok_def dictionary_at_def by auto
  show "app_object cs objs db l = WMGetFromPLDictionary cs (PLDictionary t) l" using o db by (simp add: app_object_def)
qed

lemma open_database:
  assumes none: "sharedUserDefaults s = []" and fresh: "\<forall>n \<ge> fresh s. domains s n = None"
    and r: "read_plist env path s = Some r" "(case r of None \<Rightarrow> WMCreatePLDictionary | Some v \<Rightarrow> v) = PLDictionary t"
  shows "\<exists>d s' db. WMGetDefaultsFromPath env path s = Some (d, s') \<and> databases s' d = Some db \<and> \<not> dirty db \<and>
    db_path db = Some path \<and> timestamp db = new_timestamp env path s 0 \<and> world s' = world s \<and> user s' = user s \<and>
    domains s' (fresh s') = None \<and> sharedUserDefaults s' = [d] \<and> length (searchList db) = 1 \<and> db_ok (caseSensitive env) (domains s') db \<and>
    (\<forall>l. app_object (caseSensitive env) (domains s') db l = WMGetFromPLDictionary (caseSensitive env) (PLDictionary t) l)"
proof -
  let ?cs = "caseSensitive env" and ?k = "WMCreatePLString (last_component path)"
  let ?a = "fresh s"
  have v: "valid_plist ?cs (PLDictionary t)"
  proof (cases r)
    case None
    then have "t = WMCreateHashTable" using r(2) by (simp add: WMCreatePLDictionary_def)
    then show ?thesis using empty_table_valid by simp
  next
    case (Some p)
    then show ?thesis using r read_valid [of env path s p] by simp
  qed
  define db where "db = \<lparr>defaults = put_key ?cs WMCreateHashTable ?k ?a, appDomain = Some ?a,
    searchListArray = PLArray [?k], searchList = [?k], dirty = False, dontSync = False,
    db_path = Some (wstrdup path), timestamp = new_timestamp env path s 0\<rparr>"
  define s1 where "s1 = s\<lparr>domains := (domains s)(?a := Some (PLDictionary t)), fresh := ?a + 1\<rparr>"
  obtain d s' where add: "add_database db s1 = (d, s')" by fastforce
  have l: "load_domain env path s = Some (?a, s1)"
    using r by (cases r) (simp_all add: load_domain_def alloc_domain_def s1_def)
  have get: "WMGetDefaultsFromPath env path s = Some (d, s')"
    using none l add by (simp add: WMGetDefaultsFromPath_def db_def Let_def)
  have s': "databases s' d = Some db" "domains s' = domains s1" "world s' = world s" "user s' = user s" "sharedUserDefaults s' = [d]"
    "fresh s' = ?a + 2"
    using add none by (auto simp: add_database_def s1_def)
  have o: "domains s1 ?a = Some (PLDictionary t)" by (simp add: s1_def)
  have fr: "domains s' (fresh s') = None" using fresh by (simp add: s'(2,6)) (simp add: s1_def)
  have path: "db_path db = Some path" by (simp add: db_def wstrdup_def)
  have defs: "defaults db = put_key ?cs WMCreateHashTable ?k ?a" "appDomain db = Some ?a" "searchList db = [?k]"
    by (simp_all add: db_def)
  note ok = new_database_ok [where k = ?k and cs = ?cs and objs = "domains s1" and t = t,
      OF created_string(1) created_string(2) v o defs, folded s'(2)]
  have "\<not> dirty db" "timestamp db = new_timestamp env path s 0" by (simp_all add: db_def)
  then show ?thesis
    using get s'(1,3-5) fr path defs(3) ok by (intro exI [of _ d] exI [of _ s'] exI [of _ db]) simp
qed

lemma save_database:
  assumes db: "databases s d = Some db" "db_ok (caseSensitive env) (domains s) db" "db_path db = Some path"
    "appDomain db = Some a" "domains s a = Some domain"
    and e: "env_ok (paths_env env)" "paths_ok (user s)" "EOS \<notin> set path" "posix_fs (file_system env) view"
    and t: "wusergnusteppath (paths_env env) (user s) = Some (t, u1)" "dir_fits t path"
  shows "\<exists>s' db'. WMSaveUserDefaults env d s = Some s' \<and> databases s' d = Some db' \<and> \<not> dirty db' \<and>
    db_ok (caseSensitive env) (domains s') db' \<and> db_path db' = Some path \<and>
    contents (view (world s')) path \<in> {Some (written_text domain), contents (view (world s)) path} \<and>
    (\<forall>l. app_object (caseSensitive env) (domains s') db' l = app_object (caseSensitive env) (domains s) db l)"
proof -
  obtain ok w' where w: "WMWritePropListToFile (paths_env env) (file_system env) (user s) domain path (world s) = Some (ok, u1, w')"
    "contents (view w') path = (if ok then Some (written_text domain) else contents (view (world s)) path)"
    using write_file_outcome [OF e(1,2,3,4) t, of domain "world s"] by blast
  define s2 where "s2 = s\<lparr>user := u1, world := w'\<rparr>"
  define db2 where "db2 = db\<lparr>dirty := False, timestamp := new_timestamp env path s2 (timestamp db)\<rparr>"
  have "write_plist env domain path s = Some s2" using w(1) by (simp add: write_plist_def s2_def)
  then have "WMSaveUserDefaults env d s = Some (set_db d db2 s2)"
    using db by (simp add: WMSaveUserDefaults_def database_file_def db2_def)
  then show ?thesis
    using db w(2) by (intro exI [of _ "set_db d db2 s2"] exI [of _ db2]) (simp add: set_db_def db2_def s2_def db_ok_fields)
qed

section \<open>An example\<close>

text \<open>
  A system with one file that has its contents as its state; \<open>stamp\<close> is the time of its last change. The database has the
  file's dictionary.
\<close>

definition example_ud :: "int \<Rightarrow> disk_view ud_env" where
  "example_ud stamp = \<lparr>paths_env = example_env, file_system = view_system, mtime = (\<lambda>f v. Some stamp),
     read_file = (\<lambda>f v. contents v f), applicationName = ''App'', caseSensitive = True\<rparr>"

definition example_disk :: disk_view where
  "example_disk = \<lparr>contents = [''/h/L/P/A'' \<mapsto> written_text example_plist], file_mask = 18, descriptors = 3\<rparr>"

definition example_db :: "bool \<Rightarrow> UserDefaults" where
  "example_db changed = \<lparr>defaults = put_key True WMCreateHashTable (PLString ''A'') 0, appDomain = Some 0,
     searchListArray = PLArray [PLString ''A''], searchList = [PLString ''A''], dirty = changed, dontSync = False,
     db_path = Some ''/h/L/P/A'', timestamp = 1\<rparr>"

definition example_state :: "bool \<Rightarrow> disk_view ud_state" where
  "example_state changed = \<lparr>world = example_disk, user = \<lparr>gnustep_path = Some ''/h/L'', home_path = NULL\<rparr>,
     domains = [0 \<mapsto> example_plist], databases = [1 \<mapsto> example_db changed], sharedUserDefaults = [1], fresh = 2, posted = [],
     registeredSaveOnExit = True\<rparr>"

lemma example_ok:
  "databases (example_state changed) 1 = Some (example_db changed)"
  "caseSensitive (example_ud stamp) = True"
  "db_ok True (domains (example_state changed)) (example_db changed)"
  "app_object True (domains (example_state changed)) (example_db changed) l = WMGetFromPLDictionary True example_plist l"
proof -
  obtain t where t: "example_plist = PLDictionary t" by (simp add: example_plist_def)
  have o: "domains (example_state changed) 0 = Some (PLDictionary t)" using t by (simp add: example_state_def)
  have v: "valid_plist True (PLDictionary t)" using example_valid(1) t by simp
  have k: "is_key (PLString ''A'')" "valid_plist True (PLString ''A'')" by simp_all
  have d: "defaults (example_db changed) = put_key True WMCreateHashTable (PLString ''A'') 0"
    "appDomain (example_db changed) = Some 0" "searchList (example_db changed) = [PLString ''A'']"
    by (simp_all add: example_db_def)
  show "db_ok True (domains (example_state changed)) (example_db changed)"
    by (rule new_database_ok(1) [where k = "PLString ''A''" and cs = True and objs = "domains (example_state changed)" and t = t, OF k v o d])
  show "app_object True (domains (example_state changed)) (example_db changed) l = WMGetFromPLDictionary True example_plist l"
    using new_database_ok(2) [where k = "PLString ''A''" and cs = True and objs = "domains (example_state changed)" and t = t, OF k v o d] t by simp
qed (simp_all add: example_state_def example_ud_def)

lemma example_opened:
  "opened (example_ud stamp) 1 (example_db changed) ''/h/L/P/A'' (example_state changed) (example_state changed)"
  "newer (example_ud stamp) ''/h/L/P/A'' (example_db changed) (example_state changed) \<longleftrightarrow> stamp > 1"
  "\<exists>t. file_has (example_ud stamp) ''/h/L/P/A'' (example_state changed) t"
proof -
  show "opened (example_ud stamp) 1 (example_db changed) ''/h/L/P/A'' (example_state changed) (example_state changed)"
    using example_ok by (simp add: opened_def database_file_def) (simp add: example_state_def example_db_def)
  show "newer (example_ud stamp) ''/h/L/P/A'' (example_db changed) (example_state changed) \<longleftrightarrow> stamp > 1"
    by (simp add: newer_def example_ud_def example_db_def)
  obtain q where q: "read_plist (example_ud stamp) ''/h/L/P/A'' (example_state changed) = Some (Some q)" "WMIsPropListEqualTo True example_plist q"
    using file_reads_back [OF example_valid] by (auto simp: read_plist_def example_ud_def example_state_def example_disk_def)
  then show "\<exists>t. file_has (example_ud stamp) ''/h/L/P/A'' (example_state changed) t"
    by (cases q) (auto simp: file_has_def example_plist_def)
qed

section \<open>Properties\<close>

text \<open>
  C35: A value set under a name is what is read under that name, or an equal one, whatever the other domains of the
  search list hold; every other name reads as before, and the database is marked for saving.
\<close>

theorem defaults_set_get:
  assumes "databases s d = Some db" "db_ok (caseSensitive env) (domains s) db" "valid_plist (caseSensitive env) v"
  shows "\<exists>s' db'. WMSetUDObjectForKey env d v name s = Some s' \<and> databases s' d = Some db' \<and> dirty db' \<and>
    db_ok (caseSensitive env) (domains s') db' \<and>
    WMGetUDObjectForKey env d other s' =
      (if WMIsPropListEqualTo (caseSensitive env) (WMCreatePLString other) (WMCreatePLString name) then Some (Some v)
       else WMGetUDObjectForKey env d other s)"
  using set_object_get [OF assms(2,1,3)] .

theorem defaults_set_get_witness:
  "\<exists>s'. WMSetUDObjectForKey (example_ud 1) 1 (PLArray []) ''k'' (example_state False) = Some s' \<and>
     WMGetUDObjectForKey (example_ud 1) 1 ''k'' s' = Some (Some (PLArray []))"
  using defaults_set_get [of "example_state False" 1 "example_db False" "example_ud 1" "PLArray []" "''k''" "''k''"] example_ok
    key_refl [OF created_string(1) [of "''k''"], of True] by fastforce

lemma set_string_get:
  assumes "databases s d = Some db" "db_ok (caseSensitive env) (domains s) db"
  shows "\<exists>s'. WMSetUDObjectForKey env d (WMCreatePLString x) name s = Some s' \<and>
    WMGetUDStringForKey env d name s' = Some (Some (c_string x))"
proof -
  obtain s' where "WMSetUDObjectForKey env d (WMCreatePLString x) name s = Some s'"
    "WMGetUDObjectForKey env d name s' = Some (Some (WMCreatePLString x))"
    using set_object_get [OF assms(2,1) created_string(2), of x name name] key_refl [OF created_string(1)] by auto
  then show ?thesis by (simp add: WMGetUDStringForKey_def WMCreatePLString_def WMIsPLString_def WMGetFromPLString_def)
qed

text \<open>
  C36: Integers of the machine's \<open>int\<close>, truth values and strings (up to their first NUL) read back as they were set: the text
  that \<open>sprintf\<close> makes of a number is the one \<open>sscanf\<close> scans to it again.
\<close>

theorem defaults_values_round_trip:
  assumes "databases s d = Some db" "db_ok (caseSensitive env) (domains s) db"
  shows "(int_range v \<longrightarrow> (\<exists>s'. WMSetUDIntegerForKey env d v name s = Some s' \<and> WMGetUDIntegerForKey env d name s' = Some v)) \<and>
    (\<exists>s'. WMSetUDBoolForKey env d b name s = Some s' \<and> WMGetUDBoolForKey env d name s' = Some b) \<and>
    (\<exists>s'. WMSetUDStringForKey env d x name s = Some s' \<and> WMGetUDStringForKey env d name s' = Some (Some (c_string x)))"
proof -
  note set = set_string_get [OF assms]
  have "\<exists>s'. WMSetUDIntegerForKey env d v name s = Some s' \<and> WMGetUDIntegerForKey env d name s' = Some v" if "int_range v"
    using set [of "show_int v" name] that
    by (auto simp: WMSetUDIntegerForKey_def WMGetUDIntegerForKey_def show_int_string scan_show)
  moreover have "scan_int ''YES'' = None" "scan_int ''NO'' = None" "c_string ''YES'' = ''YES''" "c_string ''NO'' = ''NO''"
    by (simp_all add: scan_int_def scan_nat_def isspace_def digit_value_def c_string_def)
  moreover have "strcasecmp0 ''YES'' ''YES''" "\<not> strcasecmp0 ''NO'' ''YES''" "\<not> strcasecmp0 ''NO'' ''Y''"
    by (simp_all add: strcasecmp0_def tolower_def)
  ultimately show ?thesis
    using set [of x name] set [of "if b then ''YES'' else ''NO''" name]
    by (cases b) (auto simp: WMSetUDBoolForKey_def WMGetUDBoolForKey_def WMSetUDStringForKey_def)
qed

theorem defaults_values_round_trip_witness:
  "\<exists>s'. WMSetUDIntegerForKey (example_ud 1) 1 (- 12) ''k'' (example_state False) = Some s' \<and>
     WMGetUDIntegerForKey (example_ud 1) 1 ''k'' s' = Some (- 12)"
  using defaults_values_round_trip [of "example_state False" 1 "example_db False" "example_ud 1" "- 12" "''k''" True "[]"] example_ok
  by (simp add: int_range_def)

text \<open>
  C37: What a synchronization does, for a database with its domain in memory. When the file is newer and holds a dictionary, that
  becomes the domain and nothing is written; if the database has changes, every name with a value in memory keeps it (so
  changes and additions win, and what was removed in memory comes back from the file); the change is notified. When the
  file is newer and cannot be read, it is overwritten with the domain. When it is older or missing, the domain is
  written if the database has changes, else nothing happens. In the last two cases no value changes.
  (A newer file whose property list is no dictionary is left out, as is a call in which writing the domain does not
  return; \<open>s2\<close> is the state after writing it.)
\<close>

theorem synchronize_reconciles:
  assumes "opened env d db path s s1"
    and "newer env path db s1 \<Longrightarrow> read_plist env path s1 = Some (map_option PLDictionary found)"
    and "appDomain db = Some a" "domains s a = Some domain" "write_plist env domain path s1 = Some s2"
  shows "\<exists>s' db'. WMSynchronizeUserDefaults env d s = Some s' \<and> databases s' d = Some db' \<and> \<not> dirty db' \<and>
    db_ok (caseSensitive env) (domains s') db' \<and>
    (case (newer env path db s1, found) of
       (True, Some t) \<Rightarrow> world s' = world s1 \<and> posted s' = posted s @ [d] \<and>
         (\<forall>l. is_key l \<longrightarrow> app_object (caseSensitive env) (domains s') db' l =
            (if dirty db \<and> app_object (caseSensitive env) (domains s) db l \<noteq> NULL
             then app_object (caseSensitive env) (domains s) db l
             else WMGetFromPLDictionary (caseSensitive env) (PLDictionary t) l))
     | (True, None) \<Rightarrow> world s' = world s2 \<and> posted s' = posted s \<and>
         (\<forall>l. app_object (caseSensitive env) (domains s') db' l = app_object (caseSensitive env) (domains s) db l)
     | (False, _) \<Rightarrow> world s' = (if dirty db then world s2 else world s1) \<and> posted s' = posted s \<and>
         (\<forall>l. app_object (caseSensitive env) (domains s') db' l = app_object (caseSensitive env) (domains s) db l))"
proof (cases "newer env path db s1")
  case True
  show ?thesis
  proof (cases found)
    case None
    then have "read_plist env path s1 = Some NULL" using assms(2) [OF True] by simp
    from synchronize_overwrite [OF assms(1) True this assms(3-5)] show ?thesis using True None by simp
  next
    case (Some t)
    then have "file_has env path s1 t" using assms(2) [OF True] by (simp add: file_has_def)
    from synchronize_reload [OF assms(1) True this] obtain s' db' where
      "WMSynchronizeUserDefaults env d s = Some s'" "databases s' d = Some db'" "\<not> dirty db'"
      "db_ok (caseSensitive env) (domains s') db'" "world s' = world s1" "posted s' = posted s @ [d]"
      "\<forall>l. is_key l \<longrightarrow> app_object (caseSensitive env) (domains s') db' l =
         (if dirty db \<and> app_object (caseSensitive env) (domains s) db l \<noteq> NULL
          then app_object (caseSensitive env) (domains s) db l
          else WMGetFromPLDictionary (caseSensitive env) (PLDictionary t) l)"
      by blast
    then show ?thesis by (intro exI [of _ s'] exI [of _ db']) (simp only: True Some prod.case option.case bool.case simp_thms)
  qed
next
  case False
  from synchronize_keep [OF assms(1) False assms(3-5)] show ?thesis using False by simp
qed

theorem synchronize_reconciles_witness:
  "\<exists>s' db'. WMSynchronizeUserDefaults (example_ud 2) 1 (example_state False) = Some s' \<and> databases s' 1 = Some db' \<and> posted s' = [1]"
proof -
  obtain t where t: "file_has (example_ud 2) ''/h/L/P/A'' (example_state False) t" using example_opened(3) by blast
  obtain ok u w where "WMWritePropListToFile example_env view_system (user (example_state False)) example_plist ''/h/L/P/A'' example_disk = Some (ok, u, w)"
    using write_file_outcome [OF example_env_ok(1) _ _ view_system_posix, of "user (example_state False)"
      "''/h/L/P/A''" "''/h/L''" _ example_plist example_disk]
    by (fastforce simp: paths_ok_def home_ok_def wusergnusteppath_def dir_fits_def example_state_def)
  then have "\<exists>s2. write_plist (example_ud 2) example_plist ''/h/L/P/A'' (example_state False) = Some s2"
    by (simp add: write_plist_def example_ud_def) (simp add: example_state_def)
  then obtain s2 where "write_plist (example_ud 2) example_plist ''/h/L/P/A'' (example_state False) = Some s2" by blast
  moreover have "appDomain (example_db False) = Some 0" "domains (example_state False) 0 = Some example_plist"
    by (simp_all add: example_db_def example_state_def)
  moreover have "read_plist (example_ud 2) ''/h/L/P/A'' (example_state False) = Some (map_option PLDictionary (Some t))"
    using t by (simp add: file_has_def)
  ultimately obtain s' db' where "WMSynchronizeUserDefaults (example_ud 2) 1 (example_state False) = Some s'" "databases s' 1 = Some db'"
    "posted s' = posted (example_state False) @ [1]"
    using synchronize_reconciles [OF example_opened(1), of 2 False "Some t" 0 example_plist s2] example_opened(2) [of 2 False] by fastforce
  then show ?thesis by (intro exI [of _ s'] exI [of _ db']) (simp add: example_state_def)
qed

text \<open>
  C38: When a database has changes and its file is newer and holds a dictionary, a synchronization keeps the changes in memory, over
  what the file has, and marks the database as saved although it wrote no file. A second synchronization, as the one at
  exit, then does nothing: without another change or an explicit \<open>WMSaveUserDefaults\<close>, the changes are not saved.
\<close>

theorem conflicting_changes_not_saved:
  assumes "opened env d db path s s1" "newer env path db s1" "file_has env path s1 t" "dirty db"
  shows "\<exists>s' db'. WMSynchronizeUserDefaults env d s = Some s' \<and> databases s' d = Some db' \<and> \<not> dirty db' \<and> world s' = world s \<and>
    (\<forall>l. is_key l \<longrightarrow> app_object (caseSensitive env) (domains s') db' l =
       (if app_object (caseSensitive env) (domains s) db l \<noteq> NULL then app_object (caseSensitive env) (domains s) db l
        else WMGetFromPLDictionary (caseSensitive env) (PLDictionary t) l)) \<and>
    WMSynchronizeUserDefaults env d s' = Some s'"
proof -
  have f: "database_file env db s = Some (path, s1)" using assms(1) by (simp add: opened_def)
  obtain s' db' where r: "WMSynchronizeUserDefaults env d s = Some s'" "databases s' d = Some db'" "\<not> dirty db'"
    "db_ok (caseSensitive env) (domains s') db'" "world s' = world s1"
    "mtime env path (world s) = Some (timestamp db')" "db_path db' = db_path db" "user s' = user s1"
    "\<forall>l. is_key l \<longrightarrow> app_object (caseSensitive env) (domains s') db' l =
       (if dirty db \<and> app_object (caseSensitive env) (domains s) db l \<noteq> NULL
        then app_object (caseSensitive env) (domains s) db l
        else WMGetFromPLDictionary (caseSensitive env) (PLDictionary t) l)"
    using synchronize_reload [OF assms(1,2,3)] by auto
  have w: "world s' = world s" using r(5) database_file_state [OF f] by auto
  have "WMSynchronizeUserDefaults env d s' = Some s'"
    using r(2,3,6) database_file_again [OF f r(8,7)] w by (auto simp: WMSynchronizeUserDefaults_def split: option.split)
  then show ?thesis using r w assms(4) by (intro exI [of _ s'] exI [of _ db']) simp
qed

theorem conflicting_changes_not_saved_witness:
  "\<exists>s'. WMSynchronizeUserDefaults (example_ud 2) 1 (example_state True) = Some s' \<and> world s' = example_disk \<and>
     WMSynchronizeUserDefaults (example_ud 2) 1 s' = Some s'"
proof -
  obtain t where t: "file_has (example_ud 2) ''/h/L/P/A'' (example_state True) t" using example_opened(3) by blast
  have "world (example_state True) = example_disk" by (simp add: example_state_def)
  then show ?thesis
    using conflicting_changes_not_saved [OF example_opened(1) _ t] example_opened(2) [of 2 True]
    by (auto simp: example_db_def)
qed

text \<open>
  C39: What one process saves, another reads, for a database with a domain and a path whose directory fits the buffers: after \<open>WMSaveUserDefaults\<close> the file has the text of the domain, or what it had
  before when a call failed (the database counts as saved all the same). In the first case opening the file in a process
  that has no database yet gives one that reads an equal value for every name, and none where there was none, as long as
  the domain is \<open>readable\<close>; with a string that has a dollar sign and is printed without quotes, anywhere in it, the
  other process gets an empty domain and reads nothing under any name.
\<close>

theorem saved_defaults_reopen:
  assumes db: "databases s d = Some db" "db_ok (caseSensitive env) (domains s) db" "db_path db = Some path"
    "appDomain db = Some a" "domains s a = Some (PLDictionary t)"
    and e: "env_ok (paths_env env)" "paths_ok (user s)" "EOS \<notin> set path" "posix_fs (file_system env) view"
    "\<And>w. read_file env path w = contents (view w) path"
    and p: "wusergnusteppath (paths_env env) (user s) = Some (g, u1)" "dir_fits g path"
  shows "\<exists>s' db'. WMSaveUserDefaults env d s = Some s' \<and> databases s' d = Some db' \<and> \<not> dirty db' \<and>
    contents (view (world s')) path \<in> {Some (written_text (PLDictionary t)), contents (view (world s)) path} \<and>
    (\<forall>s2. world s2 = world s' \<and> contents (view (world s')) path = Some (written_text (PLDictionary t)) \<and>
       sharedUserDefaults s2 = [] \<and> (\<forall>n \<ge> fresh s2. domains s2 n = None) \<longrightarrow>
       (\<exists>e s3. WMGetDefaultsFromPath env path s2 = Some (e, s3) \<and>
          (\<forall>name. \<exists>r. WMGetUDObjectForKey env e name s3 = Some r \<and>
             (if readable (PLDictionary t)
              then rel_option (WMIsPropListEqualTo (caseSensitive env))
                (app_object (caseSensitive env) (domains s) db (WMCreatePLString name)) r
              else r = NULL))))"
proof -
  let ?cs = "caseSensitive env" and ?p = "PLDictionary t"
  have v: "valid_plist ?cs ?p" using db_okE [OF db(2)] db(4,5) by (metis option.inject)
  obtain s' db' where save: "WMSaveUserDefaults env d s = Some s'" "databases s' d = Some db'" "\<not> dirty db'"
    "contents (view (world s')) path \<in> {Some (written_text ?p), contents (view (world s)) path}"
    using save_database [OF db(1-5) e(1-4) p] by blast
  have "\<exists>e s3. WMGetDefaultsFromPath env path s2 = Some (e, s3) \<and>
      (\<forall>name. \<exists>r. WMGetUDObjectForKey env e name s3 = Some r \<and>
         (if readable ?p
          then rel_option (WMIsPropListEqualTo ?cs) (app_object ?cs (domains s) db (WMCreatePLString name)) r else r = NULL))"
    if s2: "world s2 = world s'" "contents (view (world s')) path = Some (written_text ?p)" "sharedUserDefaults s2 = []"
      "\<forall>n \<ge> fresh s2. domains s2 n = None" for s2
  proof -
    obtain r u where r: "read_plist env path s2 = Some r"
      "(case r of None \<Rightarrow> WMCreatePLDictionary | Some v \<Rightarrow> v) = PLDictionary u"
      "if readable ?p then r = Some (PLDictionary u) \<and> WMIsPropListEqualTo ?cs ?p (PLDictionary u) else u = WMCreateHashTable"
    proof (cases "readable ?p")
      case True
      then obtain q where q: "read_plist env path s2 = Some (Some q)" "WMIsPropListEqualTo ?cs ?p q"
        using file_reads_back [OF v] s2 e(5) by (auto simp: read_plist_def)
      then obtain u where "q = PLDictionary u" by (cases q) auto
      then show thesis using that [of "Some q" u] q True by simp
    next
      case False
      then have "read_plist env path s2 = Some NULL"
        using unreadable_file [OF v] s2 e(5) by (auto simp: read_plist_def)
      then show thesis using that [of NULL WMCreateHashTable] False by (simp add: WMCreatePLDictionary_def)
    qed
    obtain e' s3 db3 where o: "WMGetDefaultsFromPath env path s2 = Some (e', s3)" "databases s3 e' = Some db3"
      "db_ok ?cs (domains s3) db3" "length (searchList db3) = 1"
      "\<And>l. app_object ?cs (domains s3) db3 l = WMGetFromPLDictionary ?cs (PLDictionary u) l"
      using open_database [OF s2(3,4) r(1,2)] by blast
    have get: "WMGetUDObjectForKey env e' name s3 = Some (lookup ?cs u (WMCreatePLString name))" for name
      using single_search [OF o(3,4)] o(2,5) by (simp add: WMGetUDObjectForKey_def WMGetFromPLDictionary_def)
    show ?thesis
    proof (cases "readable ?p")
      case True
      then have q: "WMIsPropListEqualTo ?cs ?p (PLDictionary u)" and ru: "r = Some (PLDictionary u)" using r(3) by simp_all
      have vq: "valid_plist ?cs (PLDictionary u)" by (rule read_valid [OF r(1) [unfolded ru]])
      have "rel_option (WMIsPropListEqualTo ?cs) (lookup ?cs t (WMCreatePLString name)) (lookup ?cs u (WMCreatePLString name))" for name
        by (rule equal_lookups) (use v vq q in simp_all)
      then show ?thesis using o(1) get db(4,5) True by (auto simp: app_object_def WMGetFromPLDictionary_def)
    next
      case False
      then have "lookup ?cs u k = NULL" for k
        using r(3) by (simp add: WMHashGet_ht_map plist_keys.WMCreateHashTable_map)
      then show ?thesis using o(1) get False by auto
    qed
  qed
  then show ?thesis using save by (intro exI [of _ s'] exI [of _ db']) simp
qed

theorem saved_defaults_reopen_witness:
  "\<exists>s' db'. WMSaveUserDefaults (example_ud 1) 1 (example_state True) = Some s' \<and> databases s' 1 = Some db' \<and> \<not> dirty db' \<and>
     contents (world s') ''/h/L/P/A'' = Some (written_text example_plist)"
proof -
  obtain t where t: "example_plist = PLDictionary t" by (simp add: example_plist_def)
  have "\<exists>s' db'. WMSaveUserDefaults (example_ud 1) 1 (example_state True) = Some s' \<and> databases s' 1 = Some db' \<and> \<not> dirty db' \<and>
     contents (world s') ''/h/L/P/A'' \<in> {Some (written_text (PLDictionary t)), contents (world (example_state True)) ''/h/L/P/A''}"
    using saved_defaults_reopen [of "example_state True" 1 "example_db True" "example_ud 1" "''/h/L/P/A''" 0 t "\<lambda>v. v" "''/h/L''"
       "user (example_state True)"] example_ok example_valid t example_env_ok(1) view_system_posix
    by (simp add: paths_ok_def home_ok_def wusergnusteppath_def dir_fits_def example_state_def example_db_def example_ud_def) blast
  then show ?thesis using t by (auto simp: example_state_def example_disk_def)
qed

end
