(* ===== verification/WMBag.thy ===== *)
theory WMBag
  imports WMArrays "HOL-Library.Tree"
begin

text \<open>
  \<open>WMcore/bagtree.c\<close>: bags, ordered collections kept in red-black trees whose keys are the
  positions. The nodes live in an explicit heap with parent, left and right pointers and a
  sentinel \<open>nil\<close>, and every function follows the code pointer by pointer: \<open>None\<close> is an access
  to a node that is not allocated, or a loop that does not end. The halves of the code that are
  mirror images of each other are one definition with a \<open>side\<close>.
\<close>

section \<open>Nodes and bags\<close>

record 'a W_Node =
  parent :: nat
  left :: nat
  right :: nat
  color :: nat
  data :: "'a ptr"
  index :: int

text \<open>A bag together with the heap its nodes live in; \<open>brk\<close> is the next address to allocate.\<close>

record 'a W_Bag =
  nodes :: "nat \<rightharpoonup> 'a W_Node"
  brk :: nat
  root :: nat
  nil :: nat
  bcount :: int
  has_destructor :: bool

definition WBNotFound :: int where "WBNotFound = - 2147483648"

text \<open>The characters \<open>'R'\<close> and \<open>'B'\<close>; \<open>wmalloc\<close> leaves the colour 0.\<close>

definition RED :: nat where "RED = 82"
definition BLACK :: nat where "BLACK = 66"

text \<open>Reading and writing a field through a pointer.\<close>

definition fld :: "('a W_Node \<Rightarrow> 'f) \<Rightarrow> 'a W_Bag \<Rightarrow> nat \<Rightarrow> 'f option" where
  "fld f b p = map_option f (nodes b p)"

definition modify :: "('a W_Node \<Rightarrow> 'a W_Node) \<Rightarrow> nat \<Rightarrow> 'a W_Bag \<Rightarrow> 'a W_Bag option" where
  "modify f p b =
     (case nodes b p of None \<Rightarrow> None | Some n \<Rightarrow> Some (b\<lparr>nodes := (nodes b)(p \<mapsto> f n)\<rparr>))"

definition set_parent :: "nat \<Rightarrow> nat \<Rightarrow> 'a W_Bag \<Rightarrow> 'a W_Bag option" where
  "set_parent p q = modify (parent_update (\<lambda>_. q)) p"

definition set_color :: "nat \<Rightarrow> nat \<Rightarrow> 'a W_Bag \<Rightarrow> 'a W_Bag option" where
  "set_color p c = modify (color_update (\<lambda>_. c)) p"

definition set_index :: "nat \<Rightarrow> int \<Rightarrow> 'a W_Bag \<Rightarrow> 'a W_Bag option" where
  "set_index p i = modify (index_update (\<lambda>_. i)) p"

definition set_data :: "nat \<Rightarrow> 'a ptr \<Rightarrow> 'a W_Bag \<Rightarrow> 'a W_Bag option" where
  "set_data p x = modify (data_update (\<lambda>_. x)) p"

datatype side = LEFT | RIGHT

fun opp :: "side \<Rightarrow> side" where
  "opp LEFT = RIGHT"
| "opp RIGHT = LEFT"

fun child :: "side \<Rightarrow> 'a W_Node \<Rightarrow> nat" where
  "child LEFT n = left n"
| "child RIGHT n = right n"

fun child_update :: "side \<Rightarrow> nat \<Rightarrow> 'a W_Node \<Rightarrow> 'a W_Node" where
  "child_update LEFT v n = n\<lparr>left := v\<rparr>"
| "child_update RIGHT v n = n\<lparr>right := v\<rparr>"

definition set_child :: "side \<Rightarrow> nat \<Rightarrow> nat \<Rightarrow> 'a W_Bag \<Rightarrow> 'a W_Bag option" where
  "set_child s p v = modify (child_update s v) p"

text \<open>\<open>IS_LEFT\<close> and \<open>IS_RIGHT\<close>.\<close>

definition is_child :: "side \<Rightarrow> 'a W_Bag \<Rightarrow> nat \<Rightarrow> bool option" where
  "is_child s b p = do { q \<leftarrow> fld parent b p; c \<leftarrow> fld (child s) b q; Some (p = c) }"

section \<open>Rotations\<close>

text \<open>\<open>rotate LEFT\<close> is \<open>leftRotate\<close>, \<open>rotate RIGHT\<close> is \<open>rightRotate\<close>.\<close>

definition rotate :: "side \<Rightarrow> 'a W_Bag \<Rightarrow> nat \<Rightarrow> 'a W_Bag option" where
  "rotate s b x = do {
     node2 \<leftarrow> fld (child (opp s)) b x;
     m \<leftarrow> fld (child s) b node2;
     b \<leftarrow> set_child (opp s) x m b;
     m \<leftarrow> fld (child s) b node2;
     b \<leftarrow> set_parent m x b;
     q \<leftarrow> fld parent b x;
     b \<leftarrow> set_parent node2 q b;
     q \<leftarrow> fld parent b x;
     b \<leftarrow> (if q = nil b then Some (b\<lparr>root := node2\<rparr>)
          else do {
            l \<leftarrow> is_child LEFT b x;
            (if l then set_child LEFT q node2 b else set_child RIGHT q node2 b) });
     b \<leftarrow> set_child s node2 x b;
     set_parent x node2 b }"

definition leftRotate :: "'a W_Bag \<Rightarrow> nat \<Rightarrow> 'a W_Bag option" where
  "leftRotate = rotate LEFT"

definition rightRotate :: "'a W_Bag \<Rightarrow> nat \<Rightarrow> 'a W_Bag option" where
  "rightRotate = rotate RIGHT"

section \<open>Insertion\<close>

text \<open>The search for the parent of the new node: the values of \<open>y\<close> and \<open>x\<close>.\<close>

partial_function (option) insert_descend :: "'a W_Bag \<Rightarrow> int \<Rightarrow> nat \<Rightarrow> nat \<Rightarrow> nat option" where
  "insert_descend b i y x =
     (if x = nil b then Some y
      else do {
        xi \<leftarrow> fld index b x;
        x' \<leftarrow> (if i \<le> xi then fld left b x else fld right b x);
        insert_descend b i x x' })"

definition treeInsert :: "'a W_Bag \<Rightarrow> nat \<Rightarrow> 'a W_Bag option" where
  "treeInsert b node = do {
     i \<leftarrow> fld index b node;
     y \<leftarrow> insert_descend b i (nil b) (root b);
     b \<leftarrow> set_parent node y b;
     (if y = nil b then Some (b\<lparr>root := node\<rparr>)
      else do {
        yi \<leftarrow> fld index b y;
        (if i \<le> yi then set_child LEFT y node b else set_child RIGHT y node b) }) }"

text \<open>The test of the repair loop, and its body for a parent that is the \<open>s\<close> child.\<close>

definition insert_goes_on :: "'a W_Bag \<Rightarrow> nat \<Rightarrow> bool option" where
  "insert_goes_on b node =
     (if node = root b then Some False
      else do { p \<leftarrow> fld parent b node; c \<leftarrow> fld color b p; Some (c = RED) })"

definition insert_step :: "side \<Rightarrow> 'a W_Bag \<Rightarrow> nat \<Rightarrow> ('a W_Bag \<times> nat) option" where
  "insert_step s b node = do {
     p \<leftarrow> fld parent b node;
     g \<leftarrow> fld parent b p;
     y \<leftarrow> fld (child (opp s)) b g;
     yc \<leftarrow> fld color b y;
     (if yc = RED
      then do {
        b \<leftarrow> set_color p BLACK b;
        b \<leftarrow> set_color y BLACK b;
        b \<leftarrow> set_color g RED b;
        Some (b, g) }
      else do {
        inner \<leftarrow> is_child (opp s) b node;
        (b, node) \<leftarrow> (if inner then do { b \<leftarrow> rotate s b p; Some (b, p) } else Some (b, node));
        p \<leftarrow> fld parent b node;
        b \<leftarrow> set_color p BLACK b;
        g \<leftarrow> fld parent b p;
        b \<leftarrow> set_color g RED b;
        b \<leftarrow> rotate (opp s) b g;
        Some (b, node) }) }"

partial_function (option) insert_fixup :: "'a W_Bag \<Rightarrow> nat \<Rightarrow> 'a W_Bag option" where
  "insert_fixup b node = do {
     go_on \<leftarrow> insert_goes_on b node;
     (if go_on
      then do {
        p \<leftarrow> fld parent b node;
        l \<leftarrow> is_child LEFT b p;
        r \<leftarrow> insert_step (if l then LEFT else RIGHT) b node;
        insert_fixup (fst r) (snd r) }
      else Some b) }"

definition rbTreeInsert :: "'a W_Bag \<Rightarrow> nat \<Rightarrow> 'a W_Bag option" where
  "rbTreeInsert b node = do {
     b \<leftarrow> treeInsert b node;
     b \<leftarrow> set_color node RED b;
     b \<leftarrow> insert_fixup b node;
     set_color (root b) BLACK b }"

section \<open>Walking the tree\<close>

text \<open>\<open>treeMinimum\<close> goes down on the left, \<open>treeMaximum\<close> on the right.\<close>

partial_function (option) tree_extreme :: "side \<Rightarrow> 'a W_Bag \<Rightarrow> nat \<Rightarrow> nat option" where
  "tree_extreme s b node = do {
     l \<leftarrow> fld (child s) b node;
     (if l \<noteq> nil b then tree_extreme s b l else Some node) }"

definition treeMinimum :: "'a W_Bag \<Rightarrow> nat \<Rightarrow> nat option" where
  "treeMinimum = tree_extreme LEFT"

definition treeMaximum :: "'a W_Bag \<Rightarrow> nat \<Rightarrow> nat option" where
  "treeMaximum = tree_extreme RIGHT"

text \<open>The climb of \<open>treeSuccessor\<close> (from a right child) and \<open>treePredecessor\<close> (from a left one).\<close>

partial_function (option) tree_climb :: "side \<Rightarrow> 'a W_Bag \<Rightarrow> nat \<Rightarrow> nat \<Rightarrow> nat option" where
  "tree_climb s b node y =
     (if y = nil b then Some y
      else do {
        c \<leftarrow> fld (child s) b y;
        (if node = c then do { y' \<leftarrow> fld parent b y; tree_climb s b y y' } else Some y) })"

definition tree_neighbour :: "side \<Rightarrow> 'a W_Bag \<Rightarrow> nat \<Rightarrow> nat option" where
  "tree_neighbour s b node = do {
     c \<leftarrow> fld (child s) b node;
     (if c \<noteq> nil b then tree_extreme (opp s) b c
      else do { y \<leftarrow> fld parent b node; tree_climb s b node y }) }"

definition treeSuccessor :: "'a W_Bag \<Rightarrow> nat \<Rightarrow> nat option" where
  "treeSuccessor = tree_neighbour RIGHT"

definition treePredecessor :: "'a W_Bag \<Rightarrow> nat \<Rightarrow> nat option" where
  "treePredecessor = tree_neighbour LEFT"

partial_function (option) treeSearch :: "'a W_Bag \<Rightarrow> nat \<Rightarrow> int \<Rightarrow> nat option" where
  "treeSearch b r i =
     (if r = nil b then Some r
      else do {
        ri \<leftarrow> fld index b r;
        (if ri = i then Some r
         else do {
           c \<leftarrow> (if i < ri then fld left b r else fld right b r);
           treeSearch b c i }) })"

partial_function (option) treeFind :: "'a W_Bag \<Rightarrow> nat \<Rightarrow> 'a ptr \<Rightarrow> nat option" where
  "treeFind b r x =
     (if r = nil b then Some r
      else do {
        d \<leftarrow> fld data b r;
        (if d = x then Some r
         else do {
           l \<leftarrow> fld left b r;
           tmp \<leftarrow> treeFind b l x;
           (if tmp \<noteq> nil b then Some tmp
            else do { r' \<leftarrow> fld right b r; treeFind b r' x }) }) })"

partial_function (option) treeCount :: "'a W_Bag \<Rightarrow> nat \<Rightarrow> 'a ptr \<Rightarrow> int option" where
  "treeCount b r x =
     (if r = nil b then Some 0
      else do {
        d \<leftarrow> fld data b r;
        l \<leftarrow> fld left b r;
        cl \<leftarrow> (if l \<noteq> nil b then treeCount b l x else Some 0);
        r' \<leftarrow> fld right b r;
        cr \<leftarrow> (if r' \<noteq> nil b then treeCount b r' x else Some 0);
        Some ((if d = x then 1 else 0) + cl + cr) })"

section \<open>Deletion\<close>

text \<open>The body of the repair loop for a node that is the \<open>s\<close> child.\<close>

definition delete_step :: "side \<Rightarrow> 'a W_Bag \<Rightarrow> nat \<Rightarrow> ('a W_Bag \<times> nat) option" where
  "delete_step s b node = do {
     p \<leftarrow> fld parent b node;
     w \<leftarrow> fld (child (opp s)) b p;
     wc \<leftarrow> fld color b w;
     (b, w) \<leftarrow>
       (if wc = RED
        then do {
          b \<leftarrow> set_color w BLACK b;
          b \<leftarrow> set_color p RED b;
          b \<leftarrow> rotate s b p;
          p \<leftarrow> fld parent b node;
          w \<leftarrow> fld (child (opp s)) b p;
          Some (b, w) }
        else Some (b, w));
     near \<leftarrow> fld (child s) b w;
     nc \<leftarrow> fld color b near;
     far \<leftarrow> fld (child (opp s)) b w;
     fc \<leftarrow> fld color b far;
     (if nc = BLACK \<and> fc = BLACK
      then do {
        b \<leftarrow> set_color w RED b;
        p \<leftarrow> fld parent b node;
        Some (b, p) }
      else do {
        (b, w) \<leftarrow>
          (if fc = BLACK
           then do {
             b \<leftarrow> set_color near BLACK b;
             b \<leftarrow> set_color w RED b;
             b \<leftarrow> rotate (opp s) b w;
             p \<leftarrow> fld parent b node;
             w \<leftarrow> fld (child (opp s)) b p;
             Some (b, w) }
           else Some (b, w));
        p \<leftarrow> fld parent b node;
        pc \<leftarrow> fld color b p;
        b \<leftarrow> set_color w pc b;
        b \<leftarrow> set_color p BLACK b;
        far \<leftarrow> fld (child (opp s)) b w;
        b \<leftarrow> set_color far BLACK b;
        b \<leftarrow> rotate s b p;
        Some (b, root b) }) }"

partial_function (option) delete_fixup_loop :: "'a W_Bag \<Rightarrow> nat \<Rightarrow> ('a W_Bag \<times> nat) option" where
  "delete_fixup_loop b node = do {
     c \<leftarrow> fld color b node;
     (if node \<noteq> root b \<and> c = BLACK
      then do {
        l \<leftarrow> is_child LEFT b node;
        r \<leftarrow> delete_step (if l then LEFT else RIGHT) b node;
        delete_fixup_loop (fst r) (snd r) }
      else Some (b, node)) }"

definition rbDeleteFixup :: "'a W_Bag \<Rightarrow> nat \<Rightarrow> 'a W_Bag option" where
  "rbDeleteFixup b node = do {
     r \<leftarrow> delete_fixup_loop b node;
     set_color (snd r) BLACK (fst r) }"

text \<open>The bag and the node that was taken out of the tree.\<close>

definition rbTreeDelete :: "'a W_Bag \<Rightarrow> nat \<Rightarrow> ('a W_Bag \<times> nat) option" where
  "rbTreeDelete b node = do {
     l \<leftarrow> fld left b node;
     r \<leftarrow> fld right b node;
     y \<leftarrow> (if l = nil b \<or> r = nil b then Some node else treeSuccessor b node);
     yl \<leftarrow> fld left b y;
     x \<leftarrow> (if yl \<noteq> nil b then Some yl else fld right b y);
     q \<leftarrow> fld parent b y;
     b \<leftarrow> set_parent x q b;
     q \<leftarrow> fld parent b y;
     b \<leftarrow> (if q = nil b then Some (b\<lparr>root := x\<rparr>)
          else do {
            is_l \<leftarrow> is_child LEFT b y;
            (if is_l then set_child LEFT q x b else set_child RIGHT q x b) });
     b \<leftarrow> (if y \<noteq> node
          then do {
            i \<leftarrow> fld index b y;
            b \<leftarrow> set_index node i b;
            d \<leftarrow> fld data b y;
            set_data node d b }
          else Some b);
     yc \<leftarrow> fld color b y;
     b \<leftarrow> (if yc = BLACK then rbDeleteFixup b x else Some b);
     Some (b, y) }"

section \<open>The operations on bags\<close>

definition WMCreateTreeBagWithDestructor :: "bool \<Rightarrow> 'a W_Bag" where
  "WMCreateTreeBagWithDestructor d =
     \<lparr>nodes = [1 \<mapsto> \<lparr>parent = 1, left = 1, right = 1, color = 0, data = NULL, index = WBNotFound\<rparr>],
      brk = 2, root = 1, nil = 1, bcount = 0, has_destructor = d\<rparr>"

definition WMCreateTreeBag :: "'a W_Bag" where
  "WMCreateTreeBag = WMCreateTreeBagWithDestructor False"

definition WMGetBagItemCount :: "'a W_Bag \<Rightarrow> int" where
  "WMGetBagItemCount self = bcount self"

text \<open>The node that \<open>wmalloc\<close> returns, with the fields every insertion sets.\<close>

definition new_node :: "'a ptr \<Rightarrow> int \<Rightarrow> 'a W_Bag \<Rightarrow> 'a W_Bag \<times> nat" where
  "new_node item i b =
     (b\<lparr>nodes := (nodes b)(brk b \<mapsto> \<lparr>parent = nil b, left = nil b, right = nil b, color = 0,
                                    data = item, index = i\<rparr>),
        brk := Suc (brk b)\<rparr>, brk b)"

definition WMPutInBag :: "'a W_Bag \<Rightarrow> 'a ptr \<Rightarrow> 'a W_Bag option" where
  "WMPutInBag self item = do {
     let (b, p) = new_node item (bcount self) self;
     b \<leftarrow> rbTreeInsert b p;
     Some (b\<lparr>bcount := bcount b + 1\<rparr>) }"

text \<open>The loop that adds \<open>k\<close> to the index of every node after \<open>p\<close>.\<close>

partial_function (option) shift_after :: "int \<Rightarrow> 'a W_Bag \<Rightarrow> nat \<Rightarrow> 'a W_Bag option" where
  "shift_after k b p = do {
     p \<leftarrow> treeSuccessor b p;
     (if p = nil b then Some b
      else do {
        i \<leftarrow> fld index b p;
        b \<leftarrow> set_index p (i + k) b;
        shift_after k b p }) }"

definition WMInsertInBag :: "'a W_Bag \<Rightarrow> int \<Rightarrow> 'a ptr \<Rightarrow> 'a W_Bag option" where
  "WMInsertInBag self i item = do {
     let (b, p) = new_node item i self;
     b \<leftarrow> rbTreeInsert b p;
     b \<leftarrow> shift_after 1 b p;
     Some (b\<lparr>bcount := bcount b + 1\<rparr>) }"

text \<open>
  The end of every deletion: the node is taken out, the destructor is called with its data (the
  second result lists those calls) and the node is freed.
\<close>

definition drop_node :: "'a W_Bag \<Rightarrow> nat \<Rightarrow> ('a W_Bag \<times> 'a ptr list) option" where
  "drop_node self p = do {
     (b, y) \<leftarrow> rbTreeDelete self p;
     d \<leftarrow> fld data b y;
     Some (b\<lparr>nodes := (nodes b)(y := None)\<rparr>, if has_destructor b then [d] else []) }"

definition treeDeleteNode :: "'a W_Bag \<Rightarrow> nat \<Rightarrow> ('a W_Bag \<times> int \<times> 'a ptr list) option" where
  "treeDeleteNode self p =
     (if p \<noteq> nil self
      then do {
        b \<leftarrow> shift_after (- 1) (self\<lparr>bcount := bcount self - 1\<rparr>) p;
        (b, dead) \<leftarrow> drop_node b p;
        Some (b, 1, dead) }
      else Some (self, 0, []))"

definition WMRemoveFromBag :: "'a W_Bag \<Rightarrow> 'a ptr \<Rightarrow> ('a W_Bag \<times> int \<times> 'a ptr list) option" where
  "WMRemoveFromBag self item = do { p \<leftarrow> treeFind self (root self) item; treeDeleteNode self p }"

definition WMEraseFromBag :: "'a W_Bag \<Rightarrow> int \<Rightarrow> ('a W_Bag \<times> int \<times> 'a ptr list) option" where
  "WMEraseFromBag self i = do {
     p \<leftarrow> treeSearch self (root self) i;
     (if p \<noteq> nil self
      then do {
        (b, dead) \<leftarrow> drop_node (self\<lparr>bcount := bcount self - 1\<rparr>) p;
        Some (b, 1, dead) }
      else Some (self, 0, [])) }"

definition WMDeleteFromBag :: "'a W_Bag \<Rightarrow> int \<Rightarrow> ('a W_Bag \<times> int \<times> 'a ptr list) option" where
  "WMDeleteFromBag self i = do { p \<leftarrow> treeSearch self (root self) i; treeDeleteNode self p }"

definition WMGetFromBag :: "'a W_Bag \<Rightarrow> int \<Rightarrow> 'a ptr option" where
  "WMGetFromBag self i = do {
     p \<leftarrow> treeSearch self (root self) i;
     (if p \<noteq> nil self then fld data self p else Some NULL) }"

definition WMGetFirstInBag :: "'a W_Bag \<Rightarrow> 'a ptr \<Rightarrow> int option" where
  "WMGetFirstInBag self item = do {
     p \<leftarrow> treeFind self (root self) item;
     (if p \<noteq> nil self then fld index self p else Some WBNotFound) }"

definition WMCountInBag :: "'a W_Bag \<Rightarrow> 'a ptr \<Rightarrow> int option" where
  "WMCountInBag self item = treeCount self (root self) item"

text \<open>The bag, the old item and the calls of the destructor.\<close>

definition WMReplaceInBag :: "'a W_Bag \<Rightarrow> int \<Rightarrow> 'a ptr \<Rightarrow> ('a W_Bag \<times> 'a ptr \<times> 'a ptr list) option" where
  "WMReplaceInBag self i item = do {
     p \<leftarrow> treeSearch self (root self) i;
     (if item = NULL
      then do {
        (b, dead) \<leftarrow> drop_node (self\<lparr>bcount := bcount self - 1\<rparr>) p;
        Some (b, NULL, dead) }
      else if p \<noteq> nil self
      then do { old \<leftarrow> fld data self p; b \<leftarrow> set_data p item self; Some (b, old, []) }
      else do {
        let (b, q) = new_node item i self;
        b \<leftarrow> rbTreeInsert b q;
        Some (b\<lparr>bcount := bcount b + 1\<rparr>, NULL, []) }) }"

section \<open>Iteration\<close>

text \<open>An iterator is NULL or a node. Each function gives the item and the new iterator.\<close>

definition at_node :: "'a W_Bag \<Rightarrow> nat \<Rightarrow> ('a ptr \<times> nat ptr) option" where
  "at_node self p =
     (if p = nil self then Some (NULL, NULL) else do { d \<leftarrow> fld data self p; Some (d, Some p) })"

definition WMBagFirst :: "'a W_Bag \<Rightarrow> ('a ptr \<times> nat ptr) option" where
  "WMBagFirst self = do { p \<leftarrow> treeMinimum self (root self); at_node self p }"

definition WMBagLast :: "'a W_Bag \<Rightarrow> ('a ptr \<times> nat ptr) option" where
  "WMBagLast self = do { p \<leftarrow> treeMaximum self (root self); at_node self p }"

definition WMBagNext :: "'a W_Bag \<Rightarrow> nat ptr \<Rightarrow> ('a ptr \<times> nat ptr) option" where
  "WMBagNext self it =
     (case it of None \<Rightarrow> Some (NULL, NULL) | Some p \<Rightarrow> do { q \<leftarrow> treeSuccessor self p; at_node self q })"

definition WMBagPrevious :: "'a W_Bag \<Rightarrow> nat ptr \<Rightarrow> ('a ptr \<times> nat ptr) option" where
  "WMBagPrevious self it =
     (case it of None \<Rightarrow> Some (NULL, NULL) | Some p \<Rightarrow> do { q \<leftarrow> treePredecessor self p; at_node self q })"

definition WMBagIteratorAtIndex :: "'a W_Bag \<Rightarrow> int \<Rightarrow> ('a ptr \<times> nat ptr) option" where
  "WMBagIteratorAtIndex self i = do { p \<leftarrow> treeSearch self (root self) i; at_node self p }"

definition WMBagIndexForIterator :: "'a W_Bag \<Rightarrow> nat \<Rightarrow> int option" where
  "WMBagIndexForIterator self p = fld index self p"

text \<open>\<open>WM_ITERATE_BAG\<close> and \<open>WM_ETARETI_BAG\<close>: the items that the loop visits.\<close>

partial_function (option) iterate_from :: "side \<Rightarrow> 'a W_Bag \<Rightarrow> 'a ptr \<times> nat ptr \<Rightarrow> 'a ptr list option" where
  "iterate_from s self vi =
     (if snd vi = NULL then Some []
      else do {
        vi' \<leftarrow> (if s = RIGHT then WMBagNext self (snd vi) else WMBagPrevious self (snd vi));
        vs \<leftarrow> iterate_from s self vi';
        Some (fst vi # vs) })"

definition WM_ITERATE_BAG :: "'a W_Bag \<Rightarrow> 'a ptr list option" where
  "WM_ITERATE_BAG self = do { vi \<leftarrow> WMBagFirst self; iterate_from RIGHT self vi }"

definition WM_ETARETI_BAG :: "'a W_Bag \<Rightarrow> 'a ptr list option" where
  "WM_ETARETI_BAG self = do { vi \<leftarrow> WMBagLast self; iterate_from LEFT self vi }"

text \<open>\<open>WMAppendBag\<close> of another bag: its loop stops at the first NULL item.\<close>

partial_function (option) append_from :: "'a W_Bag \<Rightarrow> 'a W_Bag \<Rightarrow> 'a ptr \<times> nat ptr \<Rightarrow> 'a W_Bag option" where
  "append_from self bag vi =
     (if fst vi = NULL then Some self
      else do {
        self \<leftarrow> WMPutInBag self (fst vi);
        vi \<leftarrow> WMBagNext bag (snd vi);
        append_from self bag vi })"

definition WMAppendBag :: "'a W_Bag \<Rightarrow> 'a W_Bag \<Rightarrow> 'a W_Bag option" where
  "WMAppendBag self bag = do { vi \<leftarrow> WMBagFirst bag; append_from self bag vi }"

section \<open>Sorting, emptying, mapping and searching\<close>

text \<open>
  The two loops of \<open>WMSortBag\<close> from the node \<open>p\<close>; \<open>qs\<close> is \<open>qsort\<close> with the comparer. The buffer
  has \<open>count\<close> cells that \<open>wmalloc\<close> has set to NULL.
\<close>

partial_function (option) collect_items :: "'a W_Bag \<Rightarrow> nat \<Rightarrow> 'a ptr list option" where
  "collect_items b p =
     (if p = nil b then Some []
      else do {
        d \<leftarrow> fld data b p;
        q \<leftarrow> treeSuccessor b p;
        ds \<leftarrow> collect_items b q;
        Some (d # ds) })"

partial_function (option) store_items :: "'a W_Bag \<Rightarrow> nat \<Rightarrow> int \<Rightarrow> 'a ptr list \<Rightarrow> 'a W_Bag option" where
  "store_items b p i ds =
     (if p = nil b then Some b
      else if ds = [] then None
      else do {
        b \<leftarrow> set_index p i b;
        b \<leftarrow> set_data p (hd ds) b;
        q \<leftarrow> treeSuccessor b p;
        store_items b q (i + 1) (tl ds) })"

definition WMSortBag :: "('a ptr list \<Rightarrow> 'a ptr list) \<Rightarrow> 'a W_Bag \<Rightarrow> 'a W_Bag option" where
  "WMSortBag qs self =
     (if bcount self = 0 then Some self
      else do {
        p \<leftarrow> treeMinimum self (root self);
        items \<leftarrow> collect_items self p;
        (if int (length items) > bcount self then None
         else do {
           let items = items @ replicate (nat (bcount self) - length items) NULL;
           p \<leftarrow> treeMinimum self (root self);
           store_items self p 0 (qs items) }) })"

text \<open>\<open>deleteTree\<close>: the calls of the destructor and the heap without the nodes.\<close>

partial_function (option) deleteTree :: "'a W_Bag \<Rightarrow> nat \<Rightarrow> ('a W_Bag \<times> 'a ptr list) option" where
  "deleteTree self node =
     (if node = nil self then Some (self, [])
      else do {
        l \<leftarrow> fld left self node;
        r1 \<leftarrow> deleteTree self l;
        d \<leftarrow> fld data (fst r1) node;
        r \<leftarrow> fld right (fst r1) node;
        r2 \<leftarrow> deleteTree (fst r1) r;
        (if nodes (fst r2) node = None then None
         else Some ((fst r2)\<lparr>nodes := (nodes (fst r2))(node := None)\<rparr>,
                    snd r1 @ (if has_destructor self then [d] else []) @ snd r2)) })"

definition WMEmptyBag :: "'a W_Bag \<Rightarrow> ('a W_Bag \<times> 'a ptr list) option" where
  "WMEmptyBag self = do {
     (b, dead) \<leftarrow> deleteTree self (root self);
     Some (b\<lparr>root := nil b, bcount := 0\<rparr>, dead) }"

text \<open>The heap that is left over and the calls of the destructor.\<close>

definition WMFreeBag :: "'a W_Bag \<Rightarrow> ((nat \<rightharpoonup> 'a W_Node) \<times> 'a ptr list) option" where
  "WMFreeBag self = do {
     (b, dead) \<leftarrow> WMEmptyBag self;
     Some ((nodes b)(nil b := None), dead) }"

text \<open>The function that \<open>WMMapBag\<close> calls acts on a state of its own and leaves the bag alone.\<close>

partial_function (option) mapTree :: "'a W_Bag \<Rightarrow> nat \<Rightarrow> ('a ptr \<Rightarrow> 's \<Rightarrow> 's) \<Rightarrow> 's \<Rightarrow> 's option" where
  "mapTree tree node f s =
     (if node = nil tree then Some s
      else do {
        l \<leftarrow> fld left tree node;
        s \<leftarrow> mapTree tree l f s;
        d \<leftarrow> fld data tree node;
        r \<leftarrow> fld right tree node;
        mapTree tree r f (f d s) })"

definition WMMapBag :: "'a W_Bag \<Rightarrow> ('a ptr \<Rightarrow> 's \<Rightarrow> 's) \<Rightarrow> 's \<Rightarrow> 's option" where
  "WMMapBag self f s = mapTree self (root self) f s"

partial_function (option) findInTree :: "'a W_Bag \<Rightarrow> nat \<Rightarrow> ('a ptr \<Rightarrow> bool) \<Rightarrow> int option" where
  "findInTree tree node f =
     (if node = nil tree then Some WBNotFound
      else do {
        l \<leftarrow> fld left tree node;
        i \<leftarrow> findInTree tree l f;
        (if i \<noteq> WBNotFound then Some i
         else do {
           d \<leftarrow> fld data tree node;
           (if f d then fld index tree node
            else do { r \<leftarrow> fld right tree node; findInTree tree r f }) }) })"

definition WMFindInBag :: "'a W_Bag \<Rightarrow> ('a ptr \<Rightarrow> bool) \<Rightarrow> int option" where
  "WMFindInBag self f = findInTree self (root self) f"

declare
  insert_descend.simps [code] and
  insert_fixup.simps [code] and
  tree_extreme.simps [code] and
  tree_climb.simps [code] and
  treeSearch.simps [code] and
  treeFind.simps [code] and
  treeCount.simps [code] and
  delete_fixup_loop.simps [code] and
  shift_after.simps [code] and
  iterate_from.simps [code] and
  append_from.simps [code] and
  collect_items.simps [code] and
  store_items.simps [code] and
  deleteTree.simps [code] and
  mapTree.simps [code] and
  findInTree.simps [code]

end
