(* ===== verification/WMBagTrees.thy ===== *)
theory WMBagTrees
  imports WMBag
begin

text \<open>
  The trees behind the pointers of a bag: which heaps represent which tree of addresses, what a
  rotation does to the tree, and what the pointer operations leave alone. A position in a tree is
  a path (the side, the address and the other subtree of every node above), so that a statement
  about a node and its surroundings is a statement about a tree plugged into a path.
\<close>

section \<open>Sides and fields\<close>

named_theorems bag_simps \<open>reading and writing nodes\<close>

lemma opp_opp [simp]: "opp (opp s) = s"
  by (cases s) auto

lemma opp_neq [simp]: "opp s \<noteq> s" "s \<noteq> opp s"
  by (cases s; simp)+

lemma child_child_update [simp]:
  "child s (child_update s v n) = v"
  "child (opp s) (child_update s v n) = child (opp s) n"
  "child s (child_update (opp s) v n) = child s n"
  by (cases s; simp)+

lemma child_update_fields [simp]:
  "parent (child_update s v n) = parent n" "color (child_update s v n) = color n"
  "data (child_update s v n) = data n" "index (child_update s v n) = index n"
  by (cases s; simp)+

lemma child_other_update [simp]:
  "child s (parent_update f n) = child s n" "child s (color_update g n) = child s n"
  "child s (data_update d n) = child s n" "child s (index_update i n) = child s n"
  by (cases s; simp)+

lemma fld_Some [bag_simps]: "nodes b p = Some n \<Longrightarrow> fld f b p = Some (f n)"
  by (simp add: fld_def)

lemma modify_Some [bag_simps]:
  "nodes b p = Some n \<Longrightarrow> modify f p b = Some (b\<lparr>nodes := (nodes b)(p \<mapsto> f n)\<rparr>)"
  by (simp add: modify_def)

lemmas setters = set_parent_def set_color_def set_index_def set_data_def set_child_def

section \<open>The tree behind the pointers\<close>

fun mk :: "side \<Rightarrow> nat tree \<Rightarrow> nat \<Rightarrow> nat tree \<Rightarrow> nat tree" where
  "mk LEFT u a v = Node u a v"
| "mk RIGHT u a v = Node v a u"

fun tree_at :: "(nat \<rightharpoonup> 'a W_Node) \<Rightarrow> nat \<Rightarrow> nat \<Rightarrow> nat \<Rightarrow> nat tree \<Rightarrow> bool" where
  "tree_at h z p q Leaf \<longleftrightarrow> p = z"
| "tree_at h z p q (Node l a r) \<longleftrightarrow>
     p = a \<and> a \<noteq> z \<and>
     (\<exists>n. h a = Some n \<and> parent n = q \<and> tree_at h z (left n) a l \<and> tree_at h z (right n) a r)"

type_synonym tree_path = "(side \<times> nat \<times> nat tree) list"

fun path_at :: "(nat \<rightharpoonup> 'a W_Node) \<Rightarrow> nat \<Rightarrow> nat \<Rightarrow> nat \<Rightarrow> nat \<Rightarrow> tree_path \<Rightarrow> bool" where
  "path_at h z rt p q [] \<longleftrightarrow> rt = p \<and> q = z"
| "path_at h z rt p q ((s, a, u) # c) \<longleftrightarrow>
     q = a \<and> a \<noteq> z \<and>
     (\<exists>n. h a = Some n \<and> child s n = p \<and> tree_at h z (child (opp s) n) a u \<and> path_at h z rt a (parent n) c)"

fun plug :: "tree_path \<Rightarrow> nat tree \<Rightarrow> nat tree" where
  "plug [] t = t"
| "plug ((s, a, u) # c) t = plug c (mk s t a u)"

fun path_nodes :: "tree_path \<Rightarrow> nat list" where
  "path_nodes [] = []"
| "path_nodes ((s, a, u) # c) = a # inorder u @ path_nodes c"

lemma tree_at_mk:
  "tree_at h z p q (mk s u a v) \<longleftrightarrow>
     p = a \<and> a \<noteq> z \<and>
     (\<exists>n. h a = Some n \<and> parent n = q \<and> tree_at h z (child s n) a u \<and> tree_at h z (child (opp s) n) a v)"
  by (cases s) auto

lemma set_mk [simp]: "set_tree (mk s u a v) = insert a (set_tree u \<union> set_tree v)"
  by (cases s) auto

lemma mset_mk [simp]: "mset (inorder (mk s u a v)) = add_mset a (mset (inorder u) + mset (inorder v))"
  by (cases s) auto

lemma mk_not_Leaf [simp]: "mk s u a v \<noteq> Leaf"
  by (cases s) auto

lemma tree_at_plug:
  "tree_at h z rt z (plug c t) \<longleftrightarrow> (\<exists>p q. tree_at h z p q t \<and> path_at h z rt p q c)"
  by (induction c t rule: plug.induct) (auto simp: tree_at_mk)

lemma mset_plug: "mset (inorder (plug c t)) = mset (inorder t) + mset (path_nodes c)"
  by (induction c t rule: plug.induct) auto

lemma distinct_plug: "distinct (inorder (plug c t)) \<longleftrightarrow> distinct (inorder t @ path_nodes c)"
  by (rule mset_eq_imp_distinct_iff) (simp add: mset_plug)

lemma set_plug: "set_tree (plug c t) = set_tree t \<union> set (path_nodes c)"
  using arg_cong [OF mset_plug [of c t], of set_mset] by simp

section \<open>Frames\<close>

definition links :: "'a W_Node \<Rightarrow> nat \<times> nat \<times> nat" where
  "links n = (parent n, left n, right n)"

definition same_links :: "nat set \<Rightarrow> (nat \<rightharpoonup> 'a W_Node) \<Rightarrow> (nat \<rightharpoonup> 'a W_Node) \<Rightarrow> bool" where
  "same_links A h h' \<longleftrightarrow> (\<forall>a \<in> A. map_option links (h' a) = map_option links (h a))"

lemma same_links_Un: "same_links (A \<union> B) h h' \<longleftrightarrow> same_links A h h' \<and> same_links B h h'"
  by (auto simp: same_links_def)

lemma links_child: "links n = links m \<Longrightarrow> child s n = child s m"
  by (cases s) (auto simp: links_def)

lemma tree_at_frame:
  "tree_at h z p q t \<Longrightarrow> same_links (set_tree t) h h' \<Longrightarrow> tree_at h' z p q t"
proof (induction t arbitrary: p q)
  case (Node l a r)
  then obtain n where n: "p = a" "a \<noteq> z" "h a = Some n" "parent n = q"
    "tree_at h z (left n) a l" "tree_at h z (right n) a r" by auto
  then obtain n' where n': "h' a = Some n'" "links n' = links n"
    using Node.prems(2) by (auto simp: same_links_def dest!: bspec [of _ _ a])
  then show ?case using n Node.IH Node.prems(2) by (auto simp: links_def same_links_def)
qed simp

lemma path_at_frame:
  "path_at h z rt p q c \<Longrightarrow> same_links (set (path_nodes c)) h h' \<Longrightarrow> path_at h' z rt p q c"
proof (induction c arbitrary: p q rule: path_nodes.induct)
  case (2 s a u c)
  then obtain n where n: "q = a" "a \<noteq> z" "h a = Some n" "child s n = p"
    "tree_at h z (child (opp s) n) a u" "path_at h z rt a (parent n) c" by auto
  then obtain n' where n': "h' a = Some n'" "links n' = links n"
    using "2.prems"(2) by (auto simp: same_links_def dest!: bspec [of _ _ a])
  moreover have "tree_at h' z (child (opp s) n) a u"
    by (rule tree_at_frame [OF n(5)]) (use "2.prems"(2) in \<open>auto simp: same_links_def\<close>)
  moreover have "path_at h' z rt a (parent n) c"
    by (rule "2.IH" [OF n(6)]) (use "2.prems"(2) in \<open>auto simp: same_links_def\<close>)
  ultimately show ?case using n links_child [OF n'(2)] by (auto simp: links_def)
qed simp

text \<open>A tree whose root gets another parent.\<close>

lemma tree_at_reparent:
  "tree_at h z p q t \<Longrightarrow> distinct (inorder t) \<Longrightarrow> same_links (set_tree t - {p}) h h' \<Longrightarrow>
   h p = Some n \<Longrightarrow> h' p = Some n' \<Longrightarrow> parent n' = q' \<Longrightarrow> left n' = left n \<Longrightarrow> right n' = right n \<Longrightarrow>
   tree_at h' z p q' t"
proof (cases t)
  case (Node l a r)
  assume a: "tree_at h z p q t" "distinct (inorder t)" "same_links (set_tree t - {p}) h h'"
   "h p = Some n" "h' p = Some n'" "parent n' = q'" "left n' = left n" "right n' = right n"
  then have "tree_at h' z (left n) a l" "tree_at h' z (right n) a r"
    using Node by (auto intro!: tree_at_frame [of h] simp: same_links_def)
  then show ?thesis using a Node by auto
qed auto

text \<open>The pointer to the subtree at a path is replaced.\<close>

lemma path_at_replace:
  assumes "path_at h z rt p q ((s, a, u) # c)" and "distinct (path_nodes ((s, a, u) # c))"
    and "h a = Some n" and "h' a = Some n'" and "child s n' = p'" and "child (opp s) n' = child (opp s) n"
    and "parent n' = parent n" and "same_links (set (path_nodes ((s, a, u) # c)) - {a}) h h'"
  shows "path_at h' z rt p' q ((s, a, u) # c)"
proof -
  have "tree_at h' z (child (opp s) n) a u"
    by (rule tree_at_frame [of h]) (use assms in \<open>auto simp: same_links_def\<close>)
  moreover have "path_at h' z rt a (parent n) c"
    by (rule path_at_frame [of h]) (use assms in \<open>auto simp: same_links_def\<close>)
  ultimately show ?thesis using assms by auto
qed

lemma tree_at_root: "tree_at h z p q t \<Longrightarrow> p \<in> insert z (set_tree t)"
  by (cases t) auto

lemma tree_at_nil: "tree_at h z p q t \<Longrightarrow> z \<notin> set_tree t"
  by (induction t arbitrary: p q) auto

lemma tree_at_dom: "tree_at h z p q t \<Longrightarrow> a \<in> set_tree t \<Longrightarrow> \<exists>n. h a = Some n"
  by (induction t arbitrary: p q) auto

lemma path_at_nil: "path_at h z rt p q c \<Longrightarrow> z \<notin> set (path_nodes c)"
  by (induction c arbitrary: p q rule: path_nodes.induct) (auto dest: tree_at_nil)

text \<open>Which child a node is.\<close>

lemma path_at_is_child:
  assumes "path_at (nodes b) (nil b) rt p q ((s, a, u) # c)" and "p \<noteq> nil b"
    and "p \<notin> set (path_nodes ((s, a, u) # c))" and "nodes b p = Some m" and "parent m = q"
  shows "is_child s' b p = Some (s' = s)"
proof -
  obtain n where n: "q = a" "nodes b a = Some n" "child s n = p"
    "tree_at (nodes b) (nil b) (child (opp s) n) a u"
    using assms(1) by auto
  have "child (opp s) n \<noteq> p" using tree_at_root [OF n(4)] assms(2,3) by auto
  then have "(p = child s' n) = (s' = s)" using n(3) by (cases s; cases s') auto
  then show ?thesis using n assms(4,5) by (simp add: is_child_def bag_simps)
qed

section \<open>What the pointer operations keep\<close>

text \<open>Everything but the links: colours, items, indices, and the fields of the bag itself.\<close>

definition keeps :: "'a W_Bag \<Rightarrow> 'a W_Bag \<Rightarrow> bool" where
  "keeps b b' \<longleftrightarrow>
     (\<forall>a. map_option (\<lambda>n. (color n, data n, index n)) (nodes b' a) =
          map_option (\<lambda>n. (color n, data n, index n)) (nodes b a)) \<and>
     nil b' = nil b \<and> brk b' = brk b \<and> bcount b' = bcount b \<and> has_destructor b' = has_destructor b"

lemma rotate_top:
  assumes "nodes b x = Some n" and "nodes b (child (opp s) n) = Some m" and "nodes b (child s m) = Some k"
    and "parent n = nil b" and "distinct [x, child (opp s) n, child s m]"
  shows "rotate s b x = Some (b\<lparr>nodes := (nodes b)
      (child s m \<mapsto> k\<lparr>parent := x\<rparr>,
       x \<mapsto> (child_update (opp s) (child s m) n)\<lparr>parent := child (opp s) n\<rparr>,
       child (opp s) n \<mapsto> child_update s x (m\<lparr>parent := nil b\<rparr>)), root := child (opp s) n\<rparr>)"
  using assms by (simp add: rotate_def setters bag_simps fun_upd_twist)

lemma rotate_inner:
  assumes "nodes b x = Some n" and "nodes b (child (opp s) n) = Some m" and "nodes b (child s m) = Some k"
    and "nodes b (parent n) = Some g" and "parent n \<noteq> nil b"
    and "distinct [parent n, x, child (opp s) n, child s m]"
    and "child s' g = x" and "child (opp s') g \<noteq> x"
  shows "rotate s b x = Some (b\<lparr>nodes := (nodes b)
      (child s m \<mapsto> k\<lparr>parent := x\<rparr>,
       x \<mapsto> (child_update (opp s) (child s m) n)\<lparr>parent := child (opp s) n\<rparr>,
       child (opp s) n \<mapsto> child_update s x (m\<lparr>parent := parent n\<rparr>),
       parent n \<mapsto> child_update s' (child (opp s) n) g)\<rparr>)"
proof -
  have l: "x = left g \<longleftrightarrow> s' = LEFT" using assms(7,8) by (cases s') auto
  have r: "child_update s' v k = (if s' = LEFT then k\<lparr>left := v\<rparr> else k\<lparr>right := v\<rparr>)" for v k
    by (cases s') auto
  show ?thesis
    using assms(1-6) unfolding r by (simp add: rotate_def setters bag_simps is_child_def l fun_upd_twist)
qed


text \<open>The bag's pointers form the tree \<open>t\<close>, and the sentinel is its own left and right child.\<close>

definition nil_ok :: "(nat \<rightharpoonup> 'a W_Node) \<Rightarrow> nat \<Rightarrow> bool" where
  "nil_ok h z \<longleftrightarrow> (\<exists>n. h z = Some n \<and> left n = z \<and> right n = z)"

definition tree_of :: "'a W_Bag \<Rightarrow> nat tree \<Rightarrow> bool" where
  "tree_of b t \<longleftrightarrow>
     tree_at (nodes b) (nil b) (root b) (nil b) t \<and> distinct (inorder t) \<and> nil_ok (nodes b) (nil b)"

lemma tree_of_plugE:
  assumes "tree_of b (plug c t)"
  obtains p q where "tree_at (nodes b) (nil b) p q t" "path_at (nodes b) (nil b) (root b) p q c"
    "distinct (inorder t)" "distinct (path_nodes c)" "set_tree t \<inter> set (path_nodes c) = {}"
    "nil b \<notin> set_tree t" "nil b \<notin> set (path_nodes c)"
proof -
  obtain p q where pq: "tree_at (nodes b) (nil b) p q t" "path_at (nodes b) (nil b) (root b) p q c"
    using assms tree_at_plug unfolding tree_of_def by blast
  moreover have "distinct (inorder t @ path_nodes c)" using assms by (simp add: tree_of_def distinct_plug)
  ultimately show ?thesis by (intro that [OF pq]) (auto dest: tree_at_nil path_at_nil)
qed

lemma tree_of_plugI:
  "tree_at (nodes b) (nil b) p q t \<Longrightarrow> path_at (nodes b) (nil b) (root b) p q c \<Longrightarrow>
   distinct (inorder t @ path_nodes c) \<Longrightarrow> nil_ok (nodes b) (nil b) \<Longrightarrow> tree_of b (plug c t)"
  using tree_at_plug [of "nodes b" "nil b" "root b" c t] distinct_plug [of c t] by (auto simp: tree_of_def)

lemma distinct_mk:
  "distinct (inorder (mk s u a v) @ xs) \<longleftrightarrow> distinct (a # inorder u @ inorder v @ xs)"
  by (rule mset_eq_imp_distinct_iff) simp

lemma distinct_mk_alone:
  "distinct (inorder (mk s u a v)) \<longleftrightarrow> distinct (a # inorder u @ inorder v)"
  using distinct_mk [of s u a v "[]"] by simp

lemma keeps_refl [simp]: "keeps b b"
  by (simp add: keeps_def)

lemma keeps_trans: "keeps a b \<Longrightarrow> keeps b c \<Longrightarrow> keeps a c"
  by (simp add: keeps_def)

lemma keeps_nodes: "keeps b b' \<Longrightarrow> nodes b a = Some n \<Longrightarrow>
  \<exists>n'. nodes b' a = Some n' \<and> color n' = color n \<and> data n' = data n \<and> index n' = index n"
  by (auto simp: keeps_def dest!: spec [of _ a])

lemma rotate_tree:
  assumes "tree_of b (plug c (mk s u x (mk s M y V)))"
  shows "\<exists>b'. rotate s b x = Some b' \<and> tree_of b' (plug c (mk s (mk s u x M) y V)) \<and> keeps b b'"
proof -
  let ?z = "nil b"
  obtain q where t: "tree_at (nodes b) ?z x q (mk s u x (mk s M y V))"
    and c: "path_at (nodes b) ?z (root b) x q c"
    and d: "distinct (inorder (mk s u x (mk s M y V)))" "distinct (path_nodes c)"
      "set_tree (mk s u x (mk s M y V)) \<inter> set (path_nodes c) = {}"
    and z: "?z \<notin> set_tree (mk s u x (mk s M y V))" "?z \<notin> set (path_nodes c)"
    using tree_of_plugE [OF assms] by (metis tree_at_mk)
  have dis: "distinct (x # y # inorder u @ inorder M @ inorder V @ path_nodes c)"
    using d(1,2,3) distinct_mk [of s u x "mk s M y V" "[]"]
      distinct_mk [of s M y V "[]"] by auto
  obtain n where n: "nodes b x = Some n" "parent n = q" "tree_at (nodes b) ?z (child s n) x u" "child (opp s) n = y"
    and "tree_at (nodes b) ?z y x (mk s M y V)"
    using t by (auto simp: tree_at_mk)
  then obtain m where m: "nodes b y = Some m" "parent m = x" "tree_at (nodes b) ?z (child s m) y M"
    "tree_at (nodes b) ?z (child (opp s) m) y V"
    by (auto simp: tree_at_mk)
  obtain k where k: "nodes b (child s m) = Some k"
    using tree_at_root [OF m(3)] tree_at_dom [OF m(3)] assms by (auto simp: tree_of_def nil_ok_def)
  have pm: "child s m \<in> insert ?z (set_tree M)" by (rule tree_at_root [OF m(3)])
  have ne: "child s m \<noteq> x" "child s m \<noteq> y" "x \<noteq> ?z" "y \<noteq> ?z" using pm dis z by auto
  have out: "child s m \<notin> set_tree u" "child s m \<notin> set_tree V" "child s m \<notin> set (path_nodes c)"
    using pm dis z by auto
  note facts = n m k ne out dis pm
  show ?thesis
  proof (cases c)
    case Nil
    let ?b' = "b\<lparr>nodes := (nodes b)
      (child s m \<mapsto> k\<lparr>parent := x\<rparr>,
       x \<mapsto> (child_update (opp s) (child s m) n)\<lparr>parent := child (opp s) n\<rparr>,
       child (opp s) n \<mapsto> child_update s x (m\<lparr>parent := ?z\<rparr>)), root := child (opp s) n\<rparr>"
    have q: "q = ?z" "root b = x" using c Nil by auto
    have r: "rotate s b x = Some ?b'"
      by (rule rotate_top) (use facts q in auto)
    have "tree_at (nodes ?b') ?z (child s n) x u"
      by (rule tree_at_frame [OF n(3)]) (use facts in \<open>auto simp: same_links_def\<close>)
    moreover have "tree_at (nodes ?b') ?z (child s m) x M"
      by (rule tree_at_reparent [OF m(3) _ _ k, where n' = "k\<lparr>parent := x\<rparr>"]) (use facts in \<open>auto simp: same_links_def\<close>)
    moreover have "tree_at (nodes ?b') ?z (child (opp s) m) y V"
      by (rule tree_at_frame [OF m(4)]) (use facts in \<open>auto simp: same_links_def\<close>)
    ultimately have "tree_at (nodes ?b') (nil ?b') y ?z (mk s (mk s u x M) y V)"
      using facts by (simp add: tree_at_mk)
    moreover have "distinct (inorder (mk s (mk s u x M) y V) @ path_nodes [])"
      using dis by (simp add: distinct_mk_alone) blast
    moreover have "nil_ok (nodes ?b') (nil ?b')"
      using assms k ne n(4) by (auto simp: tree_of_def nil_ok_def)
    ultimately have "tree_of ?b' (plug [] (mk s (mk s u x M) y V))"
      using n(4) by (intro tree_of_plugI [of ?b' y ?z]) simp_all
    moreover have "keeps b ?b'" using facts by (auto simp: keeps_def)
    ultimately show ?thesis using r Nil by auto
  next
    case (Cons st c')
    obtain s' g w where st: "st = (s', g, w)" by (cases st)
    obtain ng where g: "q = g" "g \<noteq> ?z" "nodes b g = Some ng" "child s' ng = x"
      "tree_at (nodes b) ?z (child (opp s') ng) g w"
      using c Cons st by auto
    have gx: "child (opp s') ng \<noteq> x" "g \<noteq> x" "g \<noteq> y" "g \<noteq> child s m" "g \<notin> set_tree u" "g \<notin> set_tree M" "g \<notin> set_tree V"
      using tree_at_root [OF g(5)] dis Cons st ne out by auto
    let ?b' = "b\<lparr>nodes := (nodes b)
      (child s m \<mapsto> k\<lparr>parent := x\<rparr>,
       x \<mapsto> (child_update (opp s) (child s m) n)\<lparr>parent := child (opp s) n\<rparr>,
       child (opp s) n \<mapsto> child_update s x (m\<lparr>parent := parent n\<rparr>),
       parent n \<mapsto> child_update s' (child (opp s) n) ng)\<rparr>"
    have r: "rotate s b x = Some ?b'"
      by (rule rotate_inner) (use facts g gx in auto)
    have "tree_at (nodes ?b') ?z (child s n) x u"
      by (rule tree_at_frame [OF n(3)]) (use facts g gx in \<open>auto simp: same_links_def\<close>)
    moreover have "tree_at (nodes ?b') ?z (child s m) x M"
      by (rule tree_at_reparent [OF m(3) _ _ k, where n' = "k\<lparr>parent := x\<rparr>"]) (use facts g gx in \<open>auto simp: same_links_def\<close>)
    moreover have "tree_at (nodes ?b') ?z (child (opp s) m) y V"
      by (rule tree_at_frame [OF m(4)]) (use facts g gx in \<open>auto simp: same_links_def\<close>)
    ultimately have new: "tree_at (nodes ?b') (nil ?b') y g (mk s (mk s u x M) y V)"
      using facts g gx by (simp add: tree_at_mk)
    have same: "same_links (set (path_nodes ((s', g, w) # c')) - {g}) (nodes b) (nodes ?b')"
      unfolding same_links_def
    proof
      fix a assume "a \<in> set (path_nodes ((s', g, w) # c')) - {g}"
      then have "a \<in> set (path_nodes c)" "a \<noteq> g" using Cons st by auto
      then have "a \<noteq> x" "a \<noteq> y" "a \<noteq> child s m" "a \<noteq> g" using dis out by auto
      then show "map_option links (nodes ?b' a) = map_option links (nodes b a)" using n(2,4) g(1) by simp
    qed
    have "path_at (nodes ?b') ?z (root b) y q ((s', g, w) # c')"
      by (rule path_at_replace [where h = "nodes b" and n = ng and n' = "child_update s' y ng" and p = x])
        (use same c d(2) Cons st n(4) g gx n(2) in simp_all)
    then have "path_at (nodes ?b') (nil ?b') (root ?b') y g c" using Cons st g by simp
    moreover have "distinct (inorder (mk s (mk s u x M) y V) @ path_nodes c)"
      using dis by (simp add: distinct_mk distinct_mk_alone) blast
    moreover have "nil_ok (nodes ?b') (nil ?b')"
      using assms k ne g(2) n(2,4) g(1) by (auto simp: tree_of_def nil_ok_def)
    ultimately have "tree_of ?b' (plug c (mk s (mk s u x M) y V))" by (rule tree_of_plugI [OF new])
    moreover have "keeps b ?b'" using facts g by (auto simp: keeps_def)
    ultimately show ?thesis using r by blast
  qed
qed

section \<open>Colours, items and indices of a bag\<close>

definition col :: "'a W_Bag \<Rightarrow> nat \<Rightarrow> nat" where "col b a = color (the (nodes b a))"
definition item_of :: "'a W_Bag \<Rightarrow> nat \<Rightarrow> 'a ptr" where "item_of b a = data (the (nodes b a))"
definition idx :: "'a W_Bag \<Rightarrow> nat \<Rightarrow> int" where "idx b a = index (the (nodes b a))"

definition keeps_items :: "'a W_Bag \<Rightarrow> 'a W_Bag \<Rightarrow> bool" where
  "keeps_items b b' \<longleftrightarrow>
     (\<forall>a. map_option (\<lambda>n. (data n, index n)) (nodes b' a) = map_option (\<lambda>n. (data n, index n)) (nodes b a)) \<and>
     nil b' = nil b \<and> brk b' = brk b \<and> bcount b' = bcount b \<and> has_destructor b' = has_destructor b"

lemma keeps_keeps_items: "keeps b b' \<Longrightarrow> keeps_items b b'"
proof -
  assume k: "keeps b b'"
  have e: "map_option (\<lambda>n. (data n, index n)) x = map_option snd (map_option (\<lambda>n. (color n, data n, index n)) x)"
    for x :: "'a W_Node option" by (cases x) auto
  have "map_option (\<lambda>n. (data n, index n)) (nodes b' a) = map_option (\<lambda>n. (data n, index n)) (nodes b a)" for a
    unfolding e using k unfolding keeps_def by metis
  then show ?thesis using k unfolding keeps_def keeps_items_def by blast
qed

lemma keeps_items_refl [simp]: "keeps_items b b"
  by (simp add: keeps_items_def)

lemma keeps_items_trans [trans]: "keeps_items a b \<Longrightarrow> keeps_items b c \<Longrightarrow> keeps_items a c"
  by (simp add: keeps_items_def)

lemma keeps_items_nil: "keeps_items b b' \<Longrightarrow> nil b' = nil b"
  by (simp add: keeps_items_def)

lemma keeps_items_node:
  assumes "keeps_items b b'"
  shows "(nodes b' a = None) = (nodes b a = None)"
proof -
  have "map_option (\<lambda>n. (data n, index n)) (nodes b' a) = map_option (\<lambda>n. (data n, index n)) (nodes b a)"
    using assms unfolding keeps_items_def by blast
  then show ?thesis by (cases "nodes b a"; cases "nodes b' a") simp_all
qed

lemma keeps_items_eqs:
  assumes "keeps_items b b'" and "nodes b a \<noteq> None"
  shows "item_of b' a = item_of b a \<and> idx b' a = idx b a"
proof -
  have "map_option (\<lambda>n. (data n, index n)) (nodes b' a) = map_option (\<lambda>n. (data n, index n)) (nodes b a)"
    using assms(1) unfolding keeps_items_def by blast
  then show ?thesis using assms(2) unfolding item_of_def idx_def by (auto simp: map_option_case split: option.splits)
qed

lemma keeps_col:
  assumes "keeps b b'" and "nodes b a \<noteq> None"
  shows "col b' a = col b a"
proof -
  have "map_option (\<lambda>n. (color n, data n, index n)) (nodes b' a) =
      map_option (\<lambda>n. (color n, data n, index n)) (nodes b a)"
    using assms(1) unfolding keeps_def by blast
  then show ?thesis using assms(2) unfolding col_def by (auto simp: map_option_case split: option.splits)
qed

lemma set_color_tree:
  assumes "nodes b a \<noteq> None"
  shows "\<exists>b'. set_color a c b = Some b' \<and> (\<forall>t. tree_of b' t = tree_of b t) \<and> col b' = (col b)(a := c) \<and>
    keeps_items b b' \<and> root b' = root b"
proof -
  obtain n where n: "nodes b a = Some n" using assms by auto
  let ?b' = "b\<lparr>nodes := (nodes b)(a \<mapsto> n\<lparr>color := c\<rparr>)\<rparr>"
  have l: "same_links A (nodes b) (nodes ?b')" "same_links A (nodes ?b') (nodes b)" for A
    using n by (auto simp: same_links_def links_def)
  have "tree_of ?b' t = tree_of b t" for t
    using tree_at_frame [OF _ l(1)] tree_at_frame [OF _ l(2)] by (auto simp: tree_of_def nil_ok_def n)
  moreover have "col ?b' = (col b)(a := c)" by (auto simp: col_def)
  moreover have "keeps_items b ?b'" using n by (simp add: keeps_items_def)
  ultimately show ?thesis using n by (auto simp: set_color_def bag_simps)
qed

section \<open>The surroundings of a node\<close>

definition ptr :: "nat \<Rightarrow> nat tree \<Rightarrow> nat" where
  "ptr z t = (case t of Leaf \<Rightarrow> z | Node l a r \<Rightarrow> a)"

lemma ptr_simps [simp]: "ptr z Leaf = z" "ptr z (Node l a r) = a" "ptr z (mk s u a v) = a"
  by (simp_all add: ptr_def, cases s, simp_all add: ptr_def)

lemma tree_at_ptr: "tree_at h z p q t \<Longrightarrow> p = ptr z t"
  by (cases t) auto

lemma mk_opp: "mk (opp s) u a v = mk s v a u"
  by (cases s) auto

lemma Node_mk: "\<exists>u v. Node l p r = mk s u p v"
  by (cases s; rule exI, rule exI) (auto intro: mk.simps [symmetric])

lemma path_at_root: "path_at h z rt p q c \<Longrightarrow> c \<noteq> [] \<Longrightarrow> rt \<in> set (path_nodes c)"
proof (induction c arbitrary: p q rule: path_nodes.induct)
  case (2 s a u c)
  then show ?case by (cases c) auto
qed simp

lemma tree_of_nodes: "tree_of b t \<Longrightarrow> a \<in> insert (nil b) (set_tree t) \<Longrightarrow> nodes b a \<noteq> None"
  by (auto simp: tree_of_def nil_ok_def dest: tree_at_dom)

lemma tree_of_ptr: "tree_of b t \<Longrightarrow> root b = ptr (nil b) t"
  by (auto simp: tree_of_def dest: tree_at_ptr)

lemma focus_below:
  assumes "tree_of b (plug ((s, a, u) # c) t)"
  shows "fld (child s) b a = Some (ptr (nil b) t)" "fld (child (opp s)) b a = Some (ptr (nil b) u)" "a \<noteq> nil b"
proof -
  obtain p q where pq: "tree_at (nodes b) (nil b) p q t" "path_at (nodes b) (nil b) (root b) p q ((s, a, u) # c)"
    by (rule tree_of_plugE [OF assms])
  then show "fld (child s) b a = Some (ptr (nil b) t)" "fld (child (opp s)) b a = Some (ptr (nil b) u)" "a \<noteq> nil b"
    by (auto simp: bag_simps dest: tree_at_ptr)
qed

lemma focus_above:
  assumes "tree_of b (plug ((s, a, u) # c) (Node l p r))"
  shows "fld parent b p = Some a" "is_child s' b p = Some (s' = s)" "p \<noteq> root b"
proof -
  obtain q where pq: "tree_at (nodes b) (nil b) p q (Node l p r)"
    "path_at (nodes b) (nil b) (root b) p q ((s, a, u) # c)"
    and d: "set_tree (Node l p r) \<inter> set (path_nodes ((s, a, u) # c)) = {}" and z: "nil b \<notin> set_tree (Node l p r)"
    by (rule tree_of_plugE [OF assms]) auto
  then obtain n where n: "nodes b p = Some n" "parent n = q" by auto
  show "fld parent b p = Some a" using n pq by (simp add: bag_simps)
  show "is_child s' b p = Some (s' = s)"
    by (rule path_at_is_child [OF pq(2) _ _ n]) (use d z in auto)
  show "p \<noteq> root b" using path_at_root [OF pq(2)] d by auto
qed

lemma focus_above_mk:
  assumes "tree_of b (plug ((s, a, u) # c) (mk s'' l p r))"
  shows "fld parent b p = Some a" "is_child s' b p = Some (s' = s)" "p \<noteq> root b"
  using assms focus_above [of b s a u c] by (cases s''; auto)+

lemma plug_mem: "a \<in> set_tree t \<Longrightarrow> a \<in> set_tree (plug c t)" "a \<in> set (path_nodes c) \<Longrightarrow> a \<in> set_tree (plug c t)"
  by (simp_all add: set_plug)

end
