(* ===== verification/WMBagOperations.thy ===== *)
theory WMBagOperations
  imports WMBagTrees
begin

text \<open>
  Correctness of the operations on bags: an insertion puts the node where its index belongs and
  the repair loop ends and keeps the order, the walks follow the order, and so a bag represents
  a list of items sorted by index. The last section shows what deletion does instead.
\<close>

section \<open>Insertion\<close>

text \<open>The nodes before and after a position.\<close>

fun before :: "tree_path \<Rightarrow> nat list" where
  "before [] = []"
| "before ((LEFT, a, u) # c) = before c"
| "before ((RIGHT, a, u) # c) = before c @ inorder u @ [a]"

fun after :: "tree_path \<Rightarrow> nat list" where
  "after [] = []"
| "after ((LEFT, a, u) # c) = a # inorder u @ after c"
| "after ((RIGHT, a, u) # c) = after c"

lemma inorder_plug: "inorder (plug c t) = before c @ inorder t @ after c"
proof (induction c arbitrary: t)
  case (Cons st c)
  obtain s a u where st: "st = (s, a, u)" by (cases st)
  show ?case using Cons.IH by (cases s) (auto simp: st)
qed simp

lemma insert_descend_path:
  "tree_at (nodes b) (nil b) x y t \<Longrightarrow> path_at (nodes b) (nil b) rt x y c \<Longrightarrow>
   sorted (map (idx b) (inorder t)) \<Longrightarrow> \<forall>a \<in> set (before c). idx b a < i \<Longrightarrow>
   \<forall>a \<in> set (after c). i \<le> idx b a \<Longrightarrow>
   \<exists>y' c'. insert_descend b i y x = Some y' \<and> path_at (nodes b) (nil b) rt (nil b) y' c' \<and>
     plug c' Leaf = plug c t \<and> (\<forall>a \<in> set (before c'). idx b a < i) \<and> (\<forall>a \<in> set (after c'). i \<le> idx b a)"
proof (induction t arbitrary: x y c)
  case Leaf
  then show ?case by (subst insert_descend.simps) auto
next
  case (Node l a r)
  obtain n where n: "x = a" "a \<noteq> nil b" "nodes b a = Some n" "parent n = y"
    "tree_at (nodes b) (nil b) (left n) a l" "tree_at (nodes b) (nil b) (right n) a r"
    using Node.prems(1) by auto
  have i: "idx b a = index n" by (simp add: idx_def n)
  have sl: "sorted (map (idx b) (inorder l))" "sorted (map (idx b) (inorder r))"
    and order: "\<forall>x \<in> set_tree l. idx b x \<le> idx b a" "\<forall>x \<in> set_tree r. idx b a \<le> idx b x"
    using Node.prems(3) by (auto simp: sorted_append)
  show ?case
  proof (cases "i \<le> index n")
    case True
    have p: "path_at (nodes b) (nil b) rt (left n) a ((LEFT, a, r) # c)" using n Node.prems(2) by auto
    have "insert_descend b i y x = insert_descend b i a (left n)"
      using True n by (subst insert_descend.simps) (simp add: bag_simps)
    then show ?thesis using Node.IH(1) [OF n(5) p sl(1)] Node.prems(4,5) True order i by fastforce
  next
    case False
    have p: "path_at (nodes b) (nil b) rt (right n) a ((RIGHT, a, l) # c)" using n Node.prems(2) by auto
    have "insert_descend b i y x = insert_descend b i a (right n)"
      using False n by (subst insert_descend.simps) (simp add: bag_simps)
    then show ?thesis using Node.IH(2) [OF n(6) p sl(2)] Node.prems(4,5) False order i by fastforce
  qed
qed

lemma treeInsert_tree:
  assumes t: "tree_of b t" and so: "sorted (map (idx b) (inorder t))"
    and p: "nodes b p = Some n" "p \<notin> set_tree t" "p \<noteq> nil b" "left n = nil b" "right n = nil b"
  shows "\<exists>b' c. treeInsert b p = Some b' \<and> tree_of b' (plug c (Node Leaf p Leaf)) \<and> plug c Leaf = t \<and>
    keeps b b' \<and> (\<forall>a \<in> set (before c). idx b a < index n) \<and> (\<forall>a \<in> set (after c). index n \<le> idx b a)"
proof -
  have t': "tree_at (nodes b) (nil b) (root b) (nil b) t" using t by (simp add: tree_of_def)
  have "path_at (nodes b) (nil b) (root b) (root b) (nil b) []" by simp
  from insert_descend_path [OF t' this so, of "index n"]
  obtain y c where d: "insert_descend b (index n) (nil b) (root b) = Some y"
    and c: "path_at (nodes b) (nil b) (root b) (nil b) y c" "plug c Leaf = t"
    and order: "\<forall>a \<in> set (before c). idx b a < index n" "\<forall>a \<in> set (after c). index n \<le> idx b a"
    by auto
  have dis: "distinct (path_nodes c)" "p \<notin> set (path_nodes c)" "nil b \<notin> set (path_nodes c)"
    using t p(2) distinct_plug [of c Leaf] set_plug [of c Leaf] path_at_nil [OF c(1)] c(2)
    by (auto simp: tree_of_def)
  show ?thesis
  proof (cases c)
    case Nil
    let ?b' = "b\<lparr>nodes := (nodes b)(p \<mapsto> n\<lparr>parent := y\<rparr>), root := p\<rparr>"
    have y: "y = nil b" using c Nil by simp
    have "treeInsert b p = Some ?b'" using d y p by (simp add: treeInsert_def bag_simps setters)
    moreover have "tree_of ?b' (plug [] (Node Leaf p Leaf))"
      by (rule tree_of_plugI [of _ p "nil b"]) (use p y t in \<open>auto simp: tree_of_def nil_ok_def\<close>)
    moreover have "keeps b ?b'" using p by (auto simp: keeps_def)
    ultimately show ?thesis using Nil c(2) order by (intro exI [of _ ?b'] exI [of _ "[]"]) auto
  next
    case (Cons st c')
    obtain s a u where st: "st = (s, a, u)" by (cases st)
    obtain na where a: "y = a" "a \<noteq> nil b" "nodes b a = Some na" "child s na = nil b"
      using c Cons st by auto
    have "(index n \<le> index na) = (s = LEFT)"
      using order Cons st a(3) by (cases s) (auto simp: idx_def)
    let ?b' = "b\<lparr>nodes := (nodes b)(p \<mapsto> n\<lparr>parent := y\<rparr>, a \<mapsto> child_update s p na)\<rparr>"
    have pa: "p \<noteq> a" using dis Cons st by auto
    have "treeInsert b p = Some ?b'"
      using d a p pa \<open>(index n \<le> index na) = (s = LEFT)\<close>
      by (cases s) (simp_all add: treeInsert_def bag_simps setters)
    moreover have "tree_of ?b' (plug c (Node Leaf p Leaf))"
    proof (rule tree_of_plugI)
      show "tree_at (nodes ?b') (nil ?b') p y (Node Leaf p Leaf)" using p pa by simp
      have same: "same_links (set (path_nodes c) - {a}) (nodes b) (nodes ?b')"
        using dis by (auto simp: same_links_def)
      show "path_at (nodes ?b') (nil ?b') (root ?b') p y c"
        unfolding Cons st
        by (rule path_at_replace [where h = "nodes b" and n = na and n' = "child_update s p na" and p = "nil b"])
          (use same c dis a pa Cons st in simp_all)
      show "distinct (inorder (Node Leaf p Leaf) @ path_nodes c)" using dis by simp
      show "nil_ok (nodes ?b') (nil ?b')" using t p a(2) by (auto simp: tree_of_def nil_ok_def)
    qed
    moreover have "keeps b ?b'" using p a pa by (auto simp: keeps_def)
    ultimately show ?thesis using c(2) order by blast
  qed
qed

text \<open>One round of the repair: it moves two levels up, or it ends the loop.\<close>

lemma col_fld: "nodes b a \<noteq> None \<Longrightarrow> fld color b a = Some (col b a)"
  by (auto simp: fld_def col_def)

lemma insert_goes_on_above:
  assumes "tree_of b (plug ((s, a, u) # c) (Node l p r))"
  shows "insert_goes_on b p = Some (col b a = RED)"
  using focus_above [OF assms] col_fld [of b a] tree_of_nodes [OF assms, of a] plug_mem(2) [of a "(s, a, u) # c"]
  by (simp add: insert_goes_on_def)

lemma insert_step_red:
  assumes t: "tree_of b (plug ((s', q, v) # (s, g, w) # c) (Node l p r))" and y: "col b (ptr (nil b) w) = RED"
  shows "\<exists>b'. insert_step s b p = Some (b', g) \<and>
    tree_of b' (plug ((s', q, v) # (s, g, w) # c) (Node l p r)) \<and> keeps_items b b' \<and>
    col b' = (col b)(q := BLACK, ptr (nil b) w := BLACK, g := RED) \<and> root b' = root b"
proof -
  let ?y = "ptr (nil b) w" and ?t = "plug ((s', q, v) # (s, g, w) # c) (Node l p r)"
  have in_t: "a \<in> {q, g, ?y} \<Longrightarrow> a \<in> insert (nil b) (set_tree ?t)" for a
    by (auto simp: set_plug ptr_def split: tree.splits)
  have n: "nodes b q \<noteq> None" "nodes b g \<noteq> None" "nodes b ?y \<noteq> None"
    using tree_of_nodes [OF t] in_t by blast+
  obtain b1 where b1: "set_color q BLACK b = Some b1" "tree_of b1 = tree_of b" "col b1 = (col b)(q := BLACK)"
    "keeps_items b b1" "root b1 = root b" using set_color_tree [OF n(1)] by blast
  have "nodes b1 ?y \<noteq> None" using keeps_items_node [OF b1(4)] n(3) by simp
  from set_color_tree [OF this, of BLACK]
  obtain b2 where b2: "set_color ?y BLACK b1 = Some b2" "tree_of b2 = tree_of b1" "col b2 = (col b1)(?y := BLACK)"
    "keeps_items b1 b2" "root b2 = root b1" by blast
  have "nodes b2 g \<noteq> None" using keeps_items_node [OF b1(4)] keeps_items_node [OF b2(4)] n(2) by simp
  from set_color_tree [OF this, of RED]
  obtain b3 where b3: "set_color g RED b2 = Some b3" "tree_of b3 = tree_of b2" "col b3 = (col b2)(g := RED)"
    "keeps_items b2 b3" "root b3 = root b2" by blast
  have "fld parent b p = Some q" by (rule focus_above(1) [OF t])
  moreover have t2: "tree_of b (plug ((s, g, w) # c) (mk s' (Node l p r) q v))" using t by simp
  note g = focus_above_mk(1) [OF t2] focus_below(2) [OF t2]
  have "insert_step s b p = Some (b3, g)"
    using calculation g col_fld [OF n(3)] y b1(1) b2(1) b3(1) by (simp add: insert_step_def)
  moreover have "keeps_items b b3" using b1(4) b2(4) b3(4) by (blast intro: keeps_items_trans)
  ultimately show ?thesis using b1 b2 b3 t by auto
qed

lemma insert_step_rotation:
  assumes t: "tree_of b (plug ((s, q, v) # (s, g, w) # c) (Node l p r))"
  shows "\<exists>b1 b2 b3. set_color q BLACK b = Some b1 \<and> fld parent b1 q = Some g \<and> set_color g RED b1 = Some b2 \<and>
    rotate (opp s) b2 g = Some b3 \<and> keeps_items b b3 \<and> col b3 q = BLACK \<and> 
    tree_of b3 (plug ((s, q, mk (opp s) w g v) # c) (Node l p r))"
proof -
  let ?t = "plug ((s, q, v) # (s, g, w) # c) (Node l p r)"
  have n: "nodes b q \<noteq> None" "nodes b g \<noteq> None"
    using tree_of_nodes [OF t] by (auto simp: set_plug)
  obtain b1 where b1: "set_color q BLACK b = Some b1" "tree_of b1 = tree_of b" "col b1 = (col b)(q := BLACK)"
    "keeps_items b b1" "root b1 = root b" using set_color_tree [OF n(1)] by blast
  have n1: "nodes b1 g \<noteq> None" using keeps_items_node [OF b1(4)] n(2) by simp
  obtain b2 where b2: "set_color g RED b1 = Some b2" "tree_of b2 = tree_of b1" "col b2 = (col b1)(g := RED)"
    "keeps_items b1 b2" "root b2 = root b1" using set_color_tree [OF n1] by blast
  have q: "fld parent b1 q = Some g"
    by (rule focus_above_mk(1) [of b1 s g w c s "Node l p r" q v]) (use t b1(2) in simp)
  have gq: "g \<noteq> q" using t by (auto simp: tree_of_def distinct_plug distinct_mk distinct_mk_alone)
  have "tree_of b2 (plug c (mk (opp s) w g (mk (opp s) v q (Node l p r))))"
    using t b1(2) b2(2) by (simp add: mk_opp)
  from rotate_tree [OF this]
  obtain b3 where b3: "rotate (opp s) b2 g = Some b3" "keeps b2 b3"
    "tree_of b3 (plug c (mk (opp s) (mk (opp s) w g v) q (Node l p r)))" by blast
  have "nodes b2 q \<noteq> None" using keeps_items_node [OF b1(4)] keeps_items_node [OF b2(4)] n(1) by simp
  then have "col b3 q = BLACK" using keeps_col [OF b3(2)] b2(3) b1(3) gq by simp
  moreover have "keeps_items b b3"
    using b1(4) b2(4) keeps_keeps_items [OF b3(2)] by (blast intro: keeps_items_trans)
  moreover have "tree_of b3 (plug ((s, q, mk (opp s) w g v) # c) (Node l p r))" using b3(3) by (simp add: mk_opp)
  ultimately show ?thesis using b1 b2 b3 q by blast
qed

lemma insert_step_black:
  assumes t: "tree_of b (plug ((s', q, v) # (s, g, w) # c) (Node l p r))" and y: "col b (ptr (nil b) w) \<noteq> RED"
  shows "\<exists>b' p' t'. insert_step s b p = Some (b', p') \<and> tree_of b' t' \<and>
    inorder t' = inorder (plug ((s', q, v) # (s, g, w) # c) (Node l p r)) \<and> keeps_items b b' \<and>
    insert_goes_on b' p' = Some False"
proof -
  let ?y = "ptr (nil b) w" and ?t = "plug ((s', q, v) # (s, g, w) # c) (Node l p r)"
  have "?y \<in> insert (nil b) (set_tree ?t)" by (auto simp: set_plug ptr_def split: tree.splits)
  then have ny: "nodes b ?y \<noteq> None" by (rule tree_of_nodes [OF t])
  have reads: "fld parent b p = Some q" "is_child (opp s) b p = Some (opp s = s')" by (rule focus_above [OF t])+
  have t2: "tree_of b (plug ((s, g, w) # c) (mk s' (Node l p r) q v))" using t by simp
  note g = focus_above_mk(1) [OF t2] focus_below(2) [OF t2]
  have stop: "insert_goes_on b3 p' = Some False"
    if "tree_of b3 (plug ((s, x, u) # c) (Node l' p' r'))" "col b3 x = BLACK" for b3 x u l' p' r'
    using insert_goes_on_above [OF that(1)] that(2) by (simp add: RED_def BLACK_def)
  show ?thesis
  proof (cases "s' = s")
    case True
    from insert_step_rotation [OF t [unfolded True]]
    obtain b1 b2 b3 where r: "set_color q BLACK b = Some b1" "fld parent b1 q = Some g" "set_color g RED b1 = Some b2"
      "rotate (opp s) b2 g = Some b3" "keeps_items b b3" "col b3 q = BLACK"
      "tree_of b3 (plug ((s, q, mk (opp s) w g v) # c) (Node l p r))" by blast
    have "insert_step s b p = Some (b3, p)"
      using reads g col_fld [OF ny] y r True by (simp add: insert_step_def)
    moreover have "inorder (mk s (Node l p r) q (mk (opp s) w g v)) = inorder (mk s (mk s (Node l p r) q v) g w)"
      by (cases s) auto
    then have "inorder (plug ((s, q, mk (opp s) w g v) # c) (Node l p r)) = inorder ?t"
      using True by (simp add: inorder_plug)
    ultimately show ?thesis using r(5,7) stop [OF r(7,6)] by blast
  next
    case False
    then have s': "s' = opp s" by (cases s; cases s') auto
    obtain u1 u2 where u: "Node l p r = mk s u1 p u2" using Node_mk by blast
    have "tree_of b (plug ((s, g, w) # c) (mk s v q (mk s u1 p u2)))" using t2 s' u by (simp add: mk_opp)
    from rotate_tree [OF this]
    obtain b0 where b0: "rotate s b q = Some b0" "keeps b b0"
      "tree_of b0 (plug ((s, g, w) # c) (mk s (mk s v q u1) p u2))" by blast
    obtain l' r' where l': "mk s v q u1 = Node l' q r'" by (cases s) auto
    have t0: "tree_of b0 (plug ((s, p, u2) # (s, g, w) # c) (Node l' q r'))" using b0(3) l' by simp
    from insert_step_rotation [OF this]
    obtain b1 b2 b3 where r: "set_color p BLACK b0 = Some b1" "fld parent b1 p = Some g" "set_color g RED b1 = Some b2"
      "rotate (opp s) b2 g = Some b3" "keeps_items b0 b3" "col b3 p = BLACK"
      "tree_of b3 (plug ((s, p, mk (opp s) w g u2) # c) (Node l' q r'))" by blast
    have "insert_step s b p = Some (b3, q)"
      using reads g col_fld [OF ny] y r s' b0(1) focus_above(1) [OF t0] by (simp add: insert_step_def)
    moreover have "inorder (mk s (mk s v q u1) p (mk (opp s) w g u2)) =
        inorder (mk s (mk s' (mk s u1 p u2) q v) g w)"
      unfolding s' by (cases s) auto
    then have "inorder (plug ((s, p, mk (opp s) w g u2) # c) (Node l' q r')) = inorder ?t"
      using u l' by (simp add: inorder_plug)
    moreover have "keeps_items b b3" using keeps_keeps_items [OF b0(2)] r(5) by (rule keeps_items_trans)
    ultimately show ?thesis using r(7) stop [OF r(7,6)] by blast
  qed
qed

text \<open>The whole loop, from a node below a root that is not red.\<close>

lemma insert_fixup_tree:
  "tree_of b (plug c (Node l p r)) \<Longrightarrow> (c \<noteq> [] \<longrightarrow> col b (root b) \<noteq> RED) \<Longrightarrow>
   \<exists>b' t'. insert_fixup b p = Some b' \<and> tree_of b' t' \<and> inorder t' = inorder (plug c (Node l p r)) \<and>
     keeps_items b b'"
proof (induction "length c" arbitrary: c b l p r rule: less_induct)
  case less
  show ?case
  proof (cases "insert_goes_on b p = Some True")
    case False
    have "insert_goes_on b p = Some False"
    proof (cases c)
      case Nil
      then show ?thesis using tree_of_ptr [OF less.prems(1)] by (simp add: insert_goes_on_def)
    next
      case (Cons st c')
      then obtain s a u where "st = (s, a, u)" by (cases st)
      then show ?thesis using insert_goes_on_above [of b s a u c' l p r] less.prems(1) Cons False by simp
    qed
    then show ?thesis using less.prems(1) by (subst insert_fixup.simps) auto
  next
    case True
    then have "p \<noteq> root b" by (auto simp: insert_goes_on_def)
    then obtain s' q v c1 where c: "c = (s', q, v) # c1"
      using tree_of_ptr [OF less.prems(1)] by (cases c) auto
    have red: "col b q = RED" using insert_goes_on_above [of b s' q v c1 l p r] less.prems(1) c True by simp
    have "c1 \<noteq> []"
    proof
      assume "c1 = []"
      then have "root b = q" using tree_of_ptr [OF less.prems(1)] c by simp
      then show False using less.prems(2) c red by simp
    qed
    then obtain s g w c2 where c1: "c1 = (s, g, w) # c2" by (cases c1) auto
    have t: "tree_of b (plug ((s', q, v) # (s, g, w) # c2) (Node l p r))" using less.prems(1) c c1 by simp
    have t2: "tree_of b (plug ((s, g, w) # c2) (mk s' (Node l p r) q v))" using t by simp
    have step: "insert_fixup b p = do { r \<leftarrow> insert_step s b p; insert_fixup (fst r) (snd r) }"
      using True focus_above(1) [OF t] focus_above_mk(2) [OF t2, of LEFT]
      by (subst insert_fixup.simps) (cases s, simp_all)
    show ?thesis
    proof (cases "col b (ptr (nil b) w) = RED")
      case True
      obtain b' where b': "insert_step s b p = Some (b', g)"
        "tree_of b' (plug ((s', q, v) # (s, g, w) # c2) (Node l p r))" "keeps_items b b'"
        "col b' = (col b)(q := BLACK, ptr (nil b) w := BLACK, g := RED)" "root b' = root b"
        using insert_step_red [OF t True] by blast
      let ?T = "mk s (mk s' (Node l p r) q v) g w"
      obtain l' r' where T: "?T = Node l' g r'" by (cases s) auto
      have t': "tree_of b' (plug c2 (Node l' g r'))" using b'(2) T by simp
      have "c2 \<noteq> [] \<longrightarrow> col b' (root b') \<noteq> RED"
      proof
        assume "c2 \<noteq> []"
        then obtain s2 a2 u2 c3 where "c2 = (s2, a2, u2) # c3" by (cases c2) auto
        then have "g \<noteq> root b'" using focus_above(3) [of b' s2 a2 u2 c3 l' g r'] t' by simp
        then show "col b' (root b') \<noteq> RED" using b'(4,5) less.prems(2) c by (simp add: RED_def BLACK_def)
      qed
      then obtain b'' t'' where f: "insert_fixup b' g = Some b''" "tree_of b'' t''"
        "inorder t'' = inorder (plug c2 (Node l' g r'))" "keeps_items b' b''"
        using less.hyps [OF _ t'] c c1 by auto
      moreover have "plug c (Node l p r) = plug c2 (Node l' g r')" using T c c1 by simp
      moreover have "keeps_items b b''" using b'(3) f(4) by (rule keeps_items_trans)
      ultimately show ?thesis using step b'(1) by auto
    next
      case False
      obtain b' p' t' where b': "insert_step s b p = Some (b', p')" "tree_of b' t'"
        "inorder t' = inorder (plug ((s', q, v) # (s, g, w) # c2) (Node l p r))" "keeps_items b b'"
        "insert_goes_on b' p' = Some False"
        using insert_step_black [OF t False] by blast
      have "insert_fixup b' p' = Some b'" using b'(5) by (subst insert_fixup.simps) simp
      then have "insert_fixup b p = Some b'" using step b'(1) by simp
      then show ?thesis using b' c c1 by blast
    qed
  qed
qed

lemma ptr_plug: "c \<noteq> [] \<Longrightarrow> ptr z (plug c t) = ptr z (plug c t')"
proof (induction c arbitrary: t t')
  case (Cons st c)
  obtain s a u where "st = (s, a, u)" by (cases st)
  then show ?case using Cons.IH by (cases c) auto
qed simp

definition root_not_red :: "'a W_Bag \<Rightarrow> bool" where
  "root_not_red b \<longleftrightarrow> root b = nil b \<or> col b (root b) \<noteq> RED"

lemma rbTreeInsert_tree:
  assumes t: "tree_of b t" and so: "sorted (map (idx b) (inorder t))" and rt: "root_not_red b"
    and p: "nodes b p = Some n" "p \<notin> set_tree t" "p \<noteq> nil b" "left n = nil b" "right n = nil b"
  shows "\<exists>b' t' xs ys. rbTreeInsert b p = Some b' \<and> tree_of b' t' \<and> inorder t' = xs @ p # ys \<and>
    inorder t = xs @ ys \<and> keeps_items b b' \<and> root_not_red b' \<and>
    (\<forall>a \<in> set xs. idx b a < index n) \<and> (\<forall>a \<in> set ys. index n \<le> idx b a)"
proof -
  obtain b1 c where b1: "treeInsert b p = Some b1" "tree_of b1 (plug c (Node Leaf p Leaf))" "plug c Leaf = t"
    "keeps b b1" and order: "\<forall>a \<in> set (before c). idx b a < index n" "\<forall>a \<in> set (after c). index n \<le> idx b a"
    using treeInsert_tree [OF t so p] by blast
  have "nodes b1 p \<noteq> None" using keeps_items_node [OF keeps_keeps_items [OF b1(4)]] p(1) by simp
  from set_color_tree [OF this, of RED]
  obtain b2 where b2: "set_color p RED b1 = Some b2" "tree_of b2 = tree_of b1" "col b2 = (col b1)(p := RED)"
    "keeps_items b1 b2" "root b2 = root b1" by blast
  have nil: "nil b1 = nil b" "nil b2 = nil b" using b1(4) b2(4) by (simp_all add: keeps_def keeps_items_def)
  have "c \<noteq> [] \<longrightarrow> col b2 (root b2) \<noteq> RED"
  proof
    assume c: "c \<noteq> []"
    have r: "root b1 = root b"
      using tree_of_ptr [OF b1(2)] tree_of_ptr [OF t] ptr_plug [OF c, of "nil b" "Node Leaf p Leaf" Leaf] nil b1(3)
      by simp
    have "set (path_nodes c) \<noteq> {}" using c by (cases c rule: path_nodes.cases) auto
    then have "t \<noteq> Leaf" using set_plug [of c Leaf] b1(3) by auto
    then have m: "root b \<in> set_tree t" using tree_of_ptr [OF t] by (cases t) auto
    then have "root b \<noteq> nil b" using t by (auto simp: tree_of_def dest: tree_at_nil)
    moreover have "col b1 (root b) = col b (root b)"
      by (rule keeps_col [OF b1(4)]) (use tree_of_nodes [OF t] m in blast)
    ultimately show "col b2 (root b2) \<noteq> RED" using rt b2(3,5) r m p(2) by (auto simp: root_not_red_def)
  qed
  moreover have "tree_of b2 (plug c (Node Leaf p Leaf))" using b1(2) b2(2) by simp
  ultimately obtain b3 t' where b3: "insert_fixup b2 p = Some b3" "tree_of b3 t'"
    "inorder t' = inorder (plug c (Node Leaf p Leaf))" "keeps_items b2 b3"
    using insert_fixup_tree by blast
  have in3: "inorder t' = before c @ p # after c" using b3(3) by (simp add: inorder_plug)
  then have "t' \<noteq> Leaf" by auto
  then have m3: "root b3 \<in> set_tree t'" using tree_of_ptr [OF b3(2)] by (cases t') auto
  have "nodes b3 (root b3) \<noteq> None" using tree_of_nodes [OF b3(2)] m3 by blast
  from set_color_tree [OF this, of BLACK]
  obtain b4 where b4: "set_color (root b3) BLACK b3 = Some b4" "tree_of b4 = tree_of b3"
    "col b4 = (col b3)(root b3 := BLACK)" "keeps_items b3 b4" "root b4 = root b3" by blast
  have "rbTreeInsert b p = Some b4" using b1(1) b2(1) b3(1) b4(1) by (simp add: rbTreeInsert_def)
  moreover have "keeps_items b b4"
    using keeps_keeps_items [OF b1(4)] b2(4) b3(4) b4(4) by (blast intro: keeps_items_trans)
  moreover have "root_not_red b4" using b4(3,5) by (simp add: root_not_red_def RED_def BLACK_def)
  moreover have "inorder t = before c @ after c" using inorder_plug [of c Leaf] b1(3) by simp
  ultimately show ?thesis using b3(2) b4(2) in3 order by metis
qed

section \<open>The walks\<close>

text \<open>The nodes in the order in which a walk to the given side visits them.\<close>

definition walk :: "side \<Rightarrow> nat tree \<Rightarrow> nat list" where
  "walk s t = (if s = RIGHT then inorder t else rev (inorder t))"

fun beyond :: "side \<Rightarrow> tree_path \<Rightarrow> nat list" where
  "beyond s [] = []"
| "beyond s ((s', a, u) # c) = (if s' = s then beyond s c else a # walk s u @ beyond s c)"

lemma walk_Leaf [simp]: "walk s Leaf = []"
  by (simp add: walk_def)

lemma side_neq: "s' \<noteq> s \<longleftrightarrow> s' = opp s"
  by (cases s; cases s') auto

lemma walk_mk: "walk s (mk s u a v) = walk s v @ a # walk s u"
    "walk s (mk (opp s) u a v) = walk s u @ a # walk s v"
  by (cases s; simp add: walk_def)+

lemma set_walk [simp]: "set (walk s t) = set_tree t"
  by (simp add: walk_def)

lemma distinct_walk [simp]: "distinct (walk s t) = distinct (inorder t)"
  by (simp add: walk_def)

lemma walk_opp: "walk (opp s) t = rev (walk s t)"
  by (cases s) (auto simp: walk_def)

lemma walk_plug: "walk s (plug c t) = rev (beyond (opp s) c) @ walk s t @ beyond s c"
proof (induction c arbitrary: t)
  case (Cons st c)
  obtain s' a u where st: "st = (s', a, u)" by (cases st)
  show ?case
  proof (cases "s' = s")
    case False
    then have "s' = opp s" by (simp add: side_neq)
    then show ?thesis using Cons.IH by (simp add: st walk_mk walk_opp)
  qed (use Cons.IH in \<open>simp add: st walk_mk walk_opp\<close>)
qed simp

lemma plug_append: "plug (c @ d) t = plug d (plug c t)"
  by (induction c t rule: plug.induct) auto

lemma locate: "p \<in> set_tree t \<Longrightarrow> \<exists>c l r. t = plug c (Node l p r)"
proof (induction t)
  case (Node l a r)
  consider "p = a" | "p \<in> set_tree l" | "p \<in> set_tree r" using Node.prems by auto
  then show ?case
  proof cases
    case 1
    then show ?thesis by (intro exI [of _ "[]"]) auto
  next
    case 2
    then obtain c l' r' where "l = plug c (Node l' p r')" using Node.IH by blast
    then have "Node l a r = plug (c @ [(LEFT, a, r)]) (Node l' p r')" by (simp add: plug_append)
    then show ?thesis by blast
  next
    case 3
    then obtain c l' r' where "r = plug c (Node l' p r')" using Node.IH by blast
    then have "Node l a r = plug (c @ [(RIGHT, a, l)]) (Node l' p r')" by (simp add: plug_append)
    then show ?thesis by blast
  qed
qed simp

lemma tree_extreme_walk:
  "tree_at (nodes b) (nil b) p q t \<Longrightarrow> t \<noteq> Leaf \<Longrightarrow> tree_extreme (opp s) b p = Some (hd (walk s t))"
proof (induction t arbitrary: p q)
  case (Node l a r)
  obtain u v where uv: "Node l a r = mk (opp s) u a v" using Node_mk by blast
  then have sub: "u \<in> {l, r}" by (cases s) auto
  obtain n where n: "p = a" "nodes b a = Some n" "tree_at (nodes b) (nil b) (child (opp s) n) a u"
    using Node.prems(1) unfolding uv by (auto simp: tree_at_mk)
  show ?case
  proof (cases u)
    case Leaf
    then show ?thesis using n uv by (subst tree_extreme.simps) (simp add: bag_simps walk_mk)
  next
    case (Node l' a' r')
    then have "child (opp s) n \<noteq> nil b" using n(3) by auto
    moreover have "tree_extreme (opp s) b (child (opp s) n) = Some (hd (walk s u))"
      using Node.IH sub n(3) Node by auto
    moreover have "walk s u \<noteq> []" using Node by (simp add: walk_def)
    ultimately show ?thesis using n uv by (subst tree_extreme.simps) (simp add: bag_simps walk_mk)
  qed
qed simp

lemma first_of: "(case xs of [] \<Rightarrow> z | x # _ \<Rightarrow> x) = (if xs = [] then z else hd xs)"
  by (cases xs) auto

lemma tree_climb_beyond:
  "path_at (nodes b) (nil b) rt p q c \<Longrightarrow> p \<notin> insert (nil b) (set (path_nodes c)) \<Longrightarrow> distinct (path_nodes c) \<Longrightarrow>
   tree_climb s b p q = Some (if beyond s c = [] then nil b else hd (beyond s c))"
proof (induction c arbitrary: p q)
  case Nil
  then show ?case by (subst tree_climb.simps) simp
next
  case (Cons st c)
  obtain s' a u where st: "st = (s', a, u)" by (cases st)
  obtain n where n: "q = a" "a \<noteq> nil b" "nodes b a = Some n" "child s' n = p"
    "tree_at (nodes b) (nil b) (child (opp s') n) a u" "path_at (nodes b) (nil b) rt a (parent n) c"
    using Cons.prems(1) st by auto
  have "child (opp s') n \<noteq> p" using tree_at_root [OF n(5)] Cons.prems(2) st by auto
  then have "(p = child s n) = (s' = s)" using n(4) by (cases s; cases s') auto
  moreover have "tree_climb s b a (parent n) = Some (if beyond s c = [] then nil b else hd (beyond s c))"
    by (rule Cons.IH [OF n(6)]) (use Cons.prems st n(2) in auto)
  ultimately show ?case using n(1-3) by (subst tree_climb.simps) (simp add: bag_simps st)
qed

lemma tree_neighbour_walk:
  assumes "tree_of b t" and w: "walk s t = xs @ p # ys"
  shows "tree_neighbour s b p = Some (if ys = [] then nil b else hd ys)"
proof -
  have "p \<in> set_tree t" using arg_cong [OF w, of set] by auto
  then obtain c l r where t: "t = plug c (Node l p r)" using locate by blast
  obtain u v where uv: "Node l p r = mk (opp s) u p v" using Node_mk by blast
  have tr: "tree_of b (plug c (mk (opp s) u p v))" using assms(1) t uv by simp
  obtain q where q: "tree_at (nodes b) (nil b) p q (mk (opp s) u p v)"
    "path_at (nodes b) (nil b) (root b) p q c" "distinct (path_nodes c)"
    "set_tree (mk (opp s) u p v) \<inter> set (path_nodes c) = {}" "nil b \<notin> set_tree (mk (opp s) u p v)"
    by (rule tree_of_plugE [OF tr]) (auto simp: tree_at_mk)
  obtain n where n: "nodes b p = Some n" "parent n = q" "tree_at (nodes b) (nil b) (child s n) p v"
    using q(1) by (auto simp: tree_at_mk)
  have "distinct (walk s t)" using assms(1) by (simp add: tree_of_def)
  moreover have "walk s t = (rev (beyond (opp s) c) @ walk s u) @ p # (walk s v @ beyond s c)"
    unfolding t uv walk_plug by (simp add: walk_mk)
  ultimately have ys: "ys = walk s v @ beyond s c" using w by (metis append_Cons_eq_iff distinct_append not_distinct_conv_prefix distinct.simps(2) Un_iff disjoint_iff list.set_intros(1))
  show ?thesis
  proof (cases "v = Leaf")
    case True
    then have "child s n = nil b" using n(3) by simp
    then show ?thesis using n ys True tree_climb_beyond [OF q(2), of s] q(3,4,5)
      by (simp add: tree_neighbour_def bag_simps)
  next
    case False
    then have "child s n \<noteq> nil b" using n(3) by (cases v) auto
    moreover have "walk s v \<noteq> []" using False by (simp add: walk_def)
    ultimately show ?thesis using n ys tree_extreme_walk [OF n(3) False, of s]
      by (simp add: tree_neighbour_def bag_simps)
  qed
qed

section \<open>The list behind a bag\<close>

definition entries :: "'a W_Bag \<Rightarrow> nat tree \<Rightarrow> (int \<times> 'a ptr) list" where
  "entries b t = map (\<lambda>a. (idx b a, item_of b a)) (inorder t)"

definition bag_inv :: "'a W_Bag \<Rightarrow> nat tree \<Rightarrow> bool" where
  "bag_inv b t \<longleftrightarrow>
     tree_of b t \<and> sorted_wrt (<) (map (idx b) (inorder t)) \<and> root_not_red b \<and>
     bcount b = int (length (inorder t)) \<and> (\<forall>a \<ge> brk b. nodes b a = None)"

definition bag_rep :: "'a W_Bag \<Rightarrow> (int \<times> 'a ptr) list \<Rightarrow> bool" where
  "bag_rep b kvs \<longleftrightarrow> (\<exists>t. bag_inv b t \<and> entries b t = kvs)"

lemma entries_fst: "map fst (entries b t) = map (idx b) (inorder t)"
  and entries_snd: "map snd (entries b t) = map (item_of b) (inorder t)"
  by (simp_all add: entries_def)

lemma bag_repE:
  assumes "bag_rep b kvs"
  obtains t where "bag_inv b t" "entries b t = kvs" "tree_of b t" "sorted_wrt (<) (map (idx b) (inorder t))"
    "sorted (map (idx b) (inorder t))" "tree_at (nodes b) (nil b) (root b) (nil b) t"
    "sorted_wrt (<) (map fst kvs)" "bcount b = int (length kvs)"
proof -
  obtain t where t: "bag_inv b t" "entries b t = kvs" using assms by (auto simp: bag_rep_def)
  then have s: "sorted_wrt (<) (map (idx b) (inorder t))" and tr: "tree_of b t"
    and n: "bcount b = int (length (inorder t))" by (simp_all add: bag_inv_def)
  have "length kvs = length (inorder t)" "map fst kvs = map (idx b) (inorder t)"
    using t(2) entries_fst [of b t] by (auto simp: entries_def)
  then show ?thesis
    using that [OF t tr s strict_sorted_imp_sorted [OF s]] tr s n by (simp add: tree_of_def)
qed

text \<open>Updates of one item, and of indices.\<close>

definition like :: "'a W_Bag \<Rightarrow> 'a W_Bag \<Rightarrow> bool" where
  "like b b' \<longleftrightarrow>
     (\<forall>t. tree_of b' t = tree_of b t) \<and> col b' = col b \<and> (\<forall>a. (nodes b' a = None) = (nodes b a = None)) \<and>
     root b' = root b \<and> nil b' = nil b \<and> brk b' = brk b \<and> bcount b' = bcount b \<and>
     has_destructor b' = has_destructor b"

lemma like_refl [simp]: "like b b"
  by (simp add: like_def)

lemma like_trans: "like a b \<Longrightarrow> like b c \<Longrightarrow> like a c"
  by (simp add: like_def)

lemma like_modify:
  assumes n: "nodes b a = Some n" and f: "links (f n) = links n" "color (f n) = color n"
    and b': "b' = b\<lparr>nodes := (nodes b)(a \<mapsto> f n)\<rparr>"
  shows "like b b'" "item_of b' = (item_of b)(a := data (f n))" "idx b' = (idx b)(a := index (f n))"
proof -
  have l: "same_links A (nodes b) (nodes b')" "same_links A (nodes b') (nodes b)" for A
    using n f(1) by (auto simp: same_links_def b')
  have "tree_of b' t = tree_of b t" for t
    using tree_at_frame [OF _ l(1)] tree_at_frame [OF _ l(2)] f(1) by (auto simp: tree_of_def nil_ok_def links_def n b')
  then show "like b b'" using n f by (auto simp: like_def b' col_def)
  show "item_of b' = (item_of b)(a := data (f n))" "idx b' = (idx b)(a := index (f n))"
    by (auto simp: b' item_of_def idx_def)
qed

lemma set_index_like:
  assumes "nodes b a \<noteq> None"
  shows "\<exists>b'. set_index a i b = Some b' \<and> like b b' \<and> item_of b' = item_of b \<and> idx b' = (idx b)(a := i)"
proof -
  obtain n where n: "nodes b a = Some n" using assms by auto
  have "item_of b a = data n" by (simp add: item_of_def n)
  then show ?thesis using like_modify [OF n, of "index_update (\<lambda>_. i)", OF _ _ refl] n
    by (auto simp: set_index_def bag_simps links_def)
qed

lemma set_data_like:
  assumes "nodes b a \<noteq> None"
  shows "\<exists>b'. set_data a x b = Some b' \<and> like b b' \<and> item_of b' = (item_of b)(a := x) \<and> idx b' = idx b"
proof -
  obtain n where n: "nodes b a = Some n" using assms by auto
  have "idx b a = index n" by (simp add: idx_def n)
  then show ?thesis using like_modify [OF n, of "data_update (\<lambda>_. x)", OF _ _ refl] n
    by (auto simp: set_data_def bag_simps links_def)
qed

lemma fld_of: "nodes b a \<noteq> None \<Longrightarrow> fld index b a = Some (idx b a)" "nodes b a \<noteq> None \<Longrightarrow> fld data b a = Some (item_of b a)"
  by (auto simp: fld_def idx_def item_of_def)

lemma succ_in_order:
  assumes "tree_of b t" and "inorder t = xs @ p # ys"
  shows "treeSuccessor b p = Some (if ys = [] then nil b else hd ys)"
  unfolding treeSuccessor_def by (rule tree_neighbour_walk [OF assms(1)]) (simp add: walk_def assms(2))

lemma nodes_in_order:
  assumes "tree_of b t" and "a \<in> set (inorder t)"
  shows "nodes b a \<noteq> None" "a \<noteq> nil b"
  using assms tree_of_nodes [OF assms(1)] by (auto simp: tree_of_def dest: tree_at_nil)

lemma shift_after_order:
  "tree_of b t \<Longrightarrow> inorder t = xs @ p # ys \<Longrightarrow>
   \<exists>b'. shift_after k b p = Some b' \<and> like b b' \<and> item_of b' = item_of b \<and>
     idx b' = (\<lambda>a. if a \<in> set ys then idx b a + k else idx b a)"
proof (induction ys arbitrary: b xs p)
  case Nil
  then show ?case using succ_in_order [OF Nil.prems] by (subst shift_after.simps) simp
next
  case (Cons y ys)
  have y: "nodes b y \<noteq> None" "y \<noteq> nil b" using nodes_in_order [OF Cons.prems(1)] Cons.prems(2) by auto
  have dy: "y \<notin> set ys" using Cons.prems by (auto simp: tree_of_def)
  obtain b1 where b1: "set_index y (idx b y + k) b = Some b1" "like b b1" "item_of b1 = item_of b"
    "idx b1 = (idx b)(y := idx b y + k)"
    using set_index_like [OF y(1)] by blast
  have t1: "tree_of b1 t" using b1(2) Cons.prems(1) by (simp add: like_def)
  obtain b2 where b2: "shift_after k b1 y = Some b2" "like b1 b2" "item_of b2 = item_of b1"
    "idx b2 = (\<lambda>a. if a \<in> set ys then idx b1 a + k else idx b1 a)"
    using Cons.IH [OF t1, of "xs @ [p]"] Cons.prems(2) by auto
  have "shift_after k b p = Some b2"
    using succ_in_order [OF Cons.prems] y b1(1) b2(1) by (subst shift_after.simps) (simp add: fld_of)
  moreover have "idx b2 = (\<lambda>a. if a \<in> set (y # ys) then idx b a + k else idx b a)"
    using b2(4) b1(4) dy by (auto intro!: ext)
  ultimately show ?case using like_trans [OF b1(2) b2(2)] b1(3) b2(3) by auto
qed

text \<open>A new node with index \<open>i\<close>, inserted in the tree of a bag.\<close>

lemma insert_new_node:
  assumes inv: "bag_inv b t" and new: "new_node x i b = (b1, p)"
  shows "\<exists>b2 t2 xs ys. rbTreeInsert b1 p = Some b2 \<and> tree_of b2 t2 \<and> inorder t2 = xs @ p # ys \<and> inorder t = xs @ ys \<and>
    p \<notin> set (xs @ ys) \<and> root_not_red b2 \<and> item_of b2 p = x \<and> idx b2 p = i \<and>
    (\<forall>a \<in> set (xs @ ys). item_of b2 a = item_of b a \<and> idx b2 a = idx b a) \<and>
    (\<forall>a \<in> set xs. idx b a < i) \<and> (\<forall>a \<in> set ys. i \<le> idx b a) \<and>
    nil b2 = nil b \<and> bcount b2 = bcount b \<and> has_destructor b2 = has_destructor b \<and> (\<forall>a \<ge> brk b2. nodes b2 a = None)"
proof -
  have t: "tree_of b t" and s: "sorted (map (idx b) (inorder t))" and r: "root_not_red b"
    and free: "\<forall>a \<ge> brk b. nodes b a = None"
    using inv strict_sorted_imp_sorted by (auto simp: bag_inv_def)
  let ?n = "\<lparr>parent = nil b, left = nil b, right = nil b, color = 0, data = x, index = i\<rparr>"
  have p: "p = brk b" "b1 = b\<lparr>nodes := (nodes b)(brk b \<mapsto> ?n), brk := Suc (brk b)\<rparr>"
    using new by (auto simp: new_node_def)
  have fresh: "nodes b p = None" using free p(1) by simp
  then have out: "p \<notin> set_tree t" "p \<noteq> nil b" using tree_of_nodes [OF t, of p] by auto
  have same: "same_links (set_tree t) (nodes b) (nodes b1)" using out p by (auto simp: same_links_def)
  have t1: "tree_of b1 t" using t tree_at_frame [OF _ same] out p by (auto simp: tree_of_def nil_ok_def)
  have eq: "idx b1 a = idx b a" "item_of b1 a = item_of b a" "col b1 a = col b a" if "a \<noteq> p" for a
    using that p by (auto simp: idx_def item_of_def col_def)
  have "map (idx b1) (inorder t) = map (idx b) (inorder t)" using eq(1) out(1) by (intro map_cong) force+
  then have s1: "sorted (map (idx b1) (inorder t))" using s by (simp only:)
  have "root b \<in> insert (nil b) (set_tree t)" using tree_of_ptr [OF t] by (cases t) auto
  then have "root b \<noteq> p" using out by auto
  then have "col b1 (root b) = col b (root b)" by (rule eq(3))
  then have r1: "root_not_red b1" using r by (simp add: root_not_red_def p(2))
  obtain b2 t2 xs ys where b2: "rbTreeInsert b1 p = Some b2" "tree_of b2 t2" "inorder t2 = xs @ p # ys"
    "inorder t = xs @ ys" "keeps_items b1 b2" "root_not_red b2"
    "\<forall>a \<in> set xs. idx b1 a < i" "\<forall>a \<in> set ys. i \<le> idx b1 a"
    using rbTreeInsert_tree [OF t1 s1 r1, of p ?n] out p by auto
  have pn: "nodes b1 p \<noteq> None" "item_of b1 p = x" "idx b1 p = i" using p by (auto simp: item_of_def idx_def)
  have d: "p \<notin> set (xs @ ys)" using out(1) b2(4) by (metis set_inorder)
  have "item_of b2 a = item_of b a \<and> idx b2 a = idx b a" if "a \<in> set (xs @ ys)" for a
  proof -
    have "a \<noteq> p" using that d by blast
    moreover have "nodes b1 a \<noteq> None" using nodes_in_order(1) [OF t1, of a] that b2(4) by simp
    ultimately show ?thesis using keeps_items_eqs [OF b2(5), of a] eq by simp
  qed
  moreover have "\<forall>a \<in> set xs. idx b a < i" "\<forall>a \<in> set ys. i \<le> idx b a"
    using b2(7,8) eq(1) d by (metis Un_iff set_append)+
  moreover have "\<forall>a \<ge> brk b2. nodes b2 a = None"
    using keeps_items_node [OF b2(5)] b2(5) p free by (auto simp: keeps_items_def)
  moreover have "nil b2 = nil b" "bcount b2 = bcount b" "has_destructor b2 = has_destructor b"
    using b2(5) p(2) by (auto simp: keeps_items_def)
  ultimately show ?thesis using b2(1-4,6) d keeps_items_eqs [OF b2(5) pn(1)] pn by blast
qed

lemma split_sorted_keys:
  assumes "\<forall>a \<in> set xs. f a < i" and "\<forall>a \<in> set ys. i \<le> (f a :: int)"
  shows "takeWhile (\<lambda>a. f a < i) (xs @ ys) = xs" "dropWhile (\<lambda>a. f a < i) (xs @ ys) = ys"
  using assms by (induction xs) (cases ys; auto)+

section \<open>Insertion and replacement on entries\<close>

definition insert_entry :: "int \<Rightarrow> 'a ptr \<Rightarrow> (int \<times> 'a ptr) list \<Rightarrow> (int \<times> 'a ptr) list" where
  "insert_entry i x kvs =
     takeWhile (\<lambda>kv. fst kv < i) kvs @ (i, x) #
     map (\<lambda>kv. (fst kv + 1, snd kv)) (dropWhile (\<lambda>kv. fst kv < i) kvs)"

definition set_entry :: "int \<Rightarrow> 'a ptr \<Rightarrow> (int \<times> 'a ptr) list \<Rightarrow> (int \<times> 'a ptr) list" where
  "set_entry i x kvs =
     takeWhile (\<lambda>kv. fst kv < i) kvs @ (i, x) # dropWhile (\<lambda>kv. fst kv \<le> i) kvs"

lemma split_at_key:
  assumes "\<forall>kv \<in> set us. fst kv < (i :: int)" and "\<forall>kv \<in> set vs. i \<le> fst kv"
  shows "takeWhile (\<lambda>kv. fst kv < i) (us @ vs) = us" "dropWhile (\<lambda>kv. fst kv < i) (us @ vs) = vs"
  using assms by (induction us) (cases vs; auto)+

lemma drop_above_key:
  assumes "\<forall>kv \<in> set us. fst kv \<le> (i :: int)" and "\<forall>kv \<in> set vs. i < fst kv"
  shows "dropWhile (\<lambda>kv. fst kv \<le> i) (us @ vs) = vs"
  using assms by (induction us) (cases vs; auto)+

lemma bag_repI:
  assumes "tree_of b t" and "root_not_red b" and "\<forall>a \<ge> brk b. nodes b a = None"
    and "bcount b = int (length (inorder t))" and "sorted_wrt (<) (map (idx b) (inorder t))" and "entries b t = kvs"
  shows "bag_rep b kvs"
  using assms by (auto simp: bag_rep_def bag_inv_def)

lemma entries_at: "inorder t = xs @ a # ys \<Longrightarrow>
  entries b t = map (\<lambda>a. (idx b a, item_of b a)) xs @ (idx b a, item_of b a) # map (\<lambda>a. (idx b a, item_of b a)) ys"
  by (simp add: entries_def)

lemma entries_split: "inorder t = xs @ ys \<Longrightarrow>
  entries b t = map (\<lambda>a. (idx b a, item_of b a)) xs @ map (\<lambda>a. (idx b a, item_of b a)) ys"
  by (simp add: entries_def)

lemma tree_of_bcount [simp]:
  "tree_of (b\<lparr>bcount := n\<rparr>) t = tree_of b t" "idx (b\<lparr>bcount := n\<rparr>) = idx b" "item_of (b\<lparr>bcount := n\<rparr>) = item_of b"
  "root_not_red (b\<lparr>bcount := n\<rparr>) = root_not_red b" "col (b\<lparr>bcount := n\<rparr>) = col b" "entries (b\<lparr>bcount := n\<rparr>) t = entries b t"
  by (auto simp: tree_of_def idx_def item_of_def root_not_red_def col_def entries_def)

lemma sorted_split:
  "sorted_wrt (<) (xs @ ys) \<longleftrightarrow>
   sorted_wrt (<) xs \<and> sorted_wrt (<) ys \<and> (\<forall>x \<in> set xs. \<forall>y \<in> set ys. x < (y :: int))"
  by (simp add: sorted_wrt_append)

lemma WMPutInBag_rep:
  assumes rep: "bag_rep b kvs" and lt: "\<forall>kv \<in> set kvs. fst kv < bcount b"
  shows "\<exists>b'. WMPutInBag b x = Some b' \<and> bag_rep b' (kvs @ [(bcount b, x)]) \<and> has_destructor b' = has_destructor b"
proof -
  obtain t where t: "bag_inv b t" "entries b t = kvs" "sorted_wrt (<) (map (idx b) (inorder t))"
    "bcount b = int (length kvs)" by (rule bag_repE [OF rep])
  obtain b1 p where new: "new_node x (bcount b) b = (b1, p)" by fastforce
  obtain b2 t2 xs ys where b2: "rbTreeInsert b1 p = Some b2" "tree_of b2 t2" "inorder t2 = xs @ p # ys"
    "inorder t = xs @ ys" "root_not_red b2" "item_of b2 p = x" "idx b2 p = bcount b"
    "\<forall>a \<in> set (xs @ ys). item_of b2 a = item_of b a \<and> idx b2 a = idx b a"
    "\<forall>a \<in> set xs. idx b a < bcount b" "\<forall>a \<in> set ys. bcount b \<le> idx b a"
    "bcount b2 = bcount b" "has_destructor b2 = has_destructor b" "\<forall>a \<ge> brk b2. nodes b2 a = None"
    using insert_new_node [OF t(1) new] by blast
  have all: "\<forall>a \<in> set (inorder t). idx b a < bcount b" using lt t(2) by (auto simp: entries_def)
  then have ys: "ys = []" using b2(4,10) by (cases ys) auto
  let ?b = "b2\<lparr>bcount := bcount b2 + 1\<rparr>"
  have e: "entries ?b t2 = kvs @ [(bcount b, x)]"
    using b2(3,4,6,7,8) ys t(2) by (auto simp: entries_def)
  have "map (idx b2) (inorder t2) = map (idx b) (inorder t) @ [bcount b]" using b2(3,4,7,8) ys by simp
  then have s: "sorted_wrt (<) (map (idx ?b) (inorder t2))" using t(3) all by (simp add: sorted_wrt_append)
  have n: "bcount ?b = int (length (inorder t2))" 
    using arg_cong [OF b2(3), of length] arg_cong [OF b2(4), of length] arg_cong [OF t(2), of length] b2(11) t(4)
    by (simp add: entries_def)
  have "bag_rep ?b (kvs @ [(bcount b, x)])"
    by (rule bag_repI [OF _ _ _ n s e]) (use b2 in simp_all)
  then show ?thesis using b2(1,12) new by (auto simp: WMPutInBag_def)
qed

lemma sorted_shift: "sorted_wrt (<) ks \<Longrightarrow> sorted_wrt (<) (map (\<lambda>k. k + (1 :: int)) ks)"
  by (induction ks) auto

lemma WMInsertInBag_rep:
  assumes rep: "bag_rep b kvs"
  shows "\<exists>b'. WMInsertInBag b i x = Some b' \<and> bag_rep b' (insert_entry i x kvs) \<and> has_destructor b' = has_destructor b"
proof -
  obtain t where t: "bag_inv b t" "entries b t = kvs" "sorted_wrt (<) (map (idx b) (inorder t))"
    "bcount b = int (length kvs)" by (rule bag_repE [OF rep])
  obtain b1 p where new: "new_node x i b = (b1, p)" by fastforce
  obtain b2 t2 xs ys where b2: "rbTreeInsert b1 p = Some b2" "tree_of b2 t2" "inorder t2 = xs @ p # ys"
    "inorder t = xs @ ys" "p \<notin> set (xs @ ys)" "root_not_red b2" "item_of b2 p = x" "idx b2 p = i"
    "\<forall>a \<in> set (xs @ ys). item_of b2 a = item_of b a \<and> idx b2 a = idx b a"
    "\<forall>a \<in> set xs. idx b a < i" "\<forall>a \<in> set ys. i \<le> idx b a"
    "bcount b2 = bcount b" "has_destructor b2 = has_destructor b" "\<forall>a \<ge> brk b2. nodes b2 a = None"
    using insert_new_node [OF t(1) new] by blast
  obtain b3 where b3: "shift_after 1 b2 p = Some b3" "like b2 b3" "item_of b3 = item_of b2"
    "idx b3 = (\<lambda>a. if a \<in> set ys then idx b2 a + 1 else idx b2 a)"
    using shift_after_order [OF b2(2,3)] by blast
  have dis: "set xs \<inter> set ys = {}" using t(1) b2(4) by (auto simp: bag_inv_def tree_of_def)
  let ?b = "b3\<lparr>bcount := bcount b3 + 1\<rparr>"
  have e1: "map (\<lambda>a. (idx b3 a, item_of b3 a)) xs = map (\<lambda>a. (idx b a, item_of b a)) xs"
    "map (idx b3) xs = map (idx b) xs"
    using b2(9) b3(3,4) dis by auto
  have e2: "map (\<lambda>a. (idx b3 a, item_of b3 a)) ys = map (\<lambda>kv. (fst kv + 1, snd kv)) (map (\<lambda>a. (idx b a, item_of b a)) ys)"
    "map (idx b3) ys = map (\<lambda>k. k + 1) (map (idx b) ys)"
    using b2(9) b3(3,4) by auto
  have pk: "idx b3 p = i" "item_of b3 p = x" using b2(5,7,8) b3(3,4) by auto
  have kvs: "kvs = map (\<lambda>a. (idx b a, item_of b a)) xs @ map (\<lambda>a. (idx b a, item_of b a)) ys"
    using t(2) entries_split [OF b2(4), of b] by simp
  have "takeWhile (\<lambda>kv. fst kv < i) kvs = map (\<lambda>a. (idx b a, item_of b a)) xs"
    "dropWhile (\<lambda>kv. fst kv < i) kvs = map (\<lambda>a. (idx b a, item_of b a)) ys"
    unfolding kvs by (rule split_at_key; use b2(10,11) in auto)+
  then have e: "entries ?b t2 = insert_entry i x kvs"
    using entries_at [OF b2(3), of b3] e1(1) e2(1) pk by (simp add: insert_entry_def)
  have "map (idx b3) (inorder t2) = map (idx b) xs @ i # map (\<lambda>k. k + 1) (map (idx b) ys)"
    using b2(3) e1(2) e2(2) pk by simp
  moreover have "sorted_wrt (<) (map (\<lambda>k. k + 1) (map (idx b) ys))"
    by (rule sorted_shift) (use t(3) b2(4) in \<open>simp only: map_append sorted_wrt_append\<close>)
  ultimately have s: "sorted_wrt (<) (map (idx ?b) (inorder t2))"
    using t(3) b2(4,10,11) by (fastforce simp: sorted_wrt_append)
  have n: "bcount ?b = int (length (inorder t2))"
    using arg_cong [OF b2(3), of length] arg_cong [OF b2(4), of length] arg_cong [OF t(2), of length] b2(12) b3(2) t(4)
    by (simp add: entries_def like_def)
  have "bag_rep ?b (insert_entry i x kvs)"
    by (rule bag_repI [OF _ _ _ n s e]) (use b2 b3(2) in \<open>auto simp: like_def root_not_red_def\<close>)
  then show ?thesis using b2(1,13) b3(1,2) new by (auto simp: WMInsertInBag_def like_def)
qed

lemma treeSearch_order:
  "tree_at (nodes b) (nil b) r q t \<Longrightarrow> sorted_wrt (<) (map (idx b) (inorder t)) \<Longrightarrow>
   \<exists>a. treeSearch b r i = Some a \<and> (if i \<in> idx b ` set_tree t then a \<in> set_tree t \<and> idx b a = i else a = nil b)"
proof (induction t arbitrary: r q)
  case Leaf
  then show ?case by (subst treeSearch.simps) simp
next
  case (Node t1 a t2)
  obtain n where n: "r = a" "a \<noteq> nil b" "nodes b a = Some n"
    "tree_at (nodes b) (nil b) (left n) a t1" "tree_at (nodes b) (nil b) (right n) a t2"
    using Node.prems(1) by auto
  have i: "idx b a = index n" by (simp add: idx_def n(3))
  have s: "sorted_wrt (<) (map (idx b) (inorder t1))" "sorted_wrt (<) (map (idx b) (inorder t2))"
    "\<forall>x \<in> set_tree t1. idx b x < idx b a" "\<forall>x \<in> set_tree t2. idx b a < idx b x"
    using Node.prems(2) by (auto simp: sorted_wrt_append)
  consider "index n = i" | "i < index n" | "index n < i" by linarith
  then show ?case
  proof cases
    case 1
    then show ?thesis using n i by (subst treeSearch.simps) (simp add: bag_simps)
  next
    case 2
    have "treeSearch b r i = treeSearch b (left n) i"
      using 2 n by (subst treeSearch.simps) (simp add: bag_simps)
    moreover have "i \<in> idx b ` set_tree (Node t1 a t2) \<longleftrightarrow> i \<in> idx b ` set_tree t1" using 2 i s(4) by fastforce
    moreover obtain c where "treeSearch b (left n) i = Some c"
      "if i \<in> idx b ` set_tree t1 then c \<in> set_tree t1 \<and> idx b c = i else c = nil b"
      using Node.IH(1) [OF n(4) s(1)] by blast
    ultimately show ?thesis by (intro exI [of _ c]) (simp split: if_splits)
  next
    case 3
    have "treeSearch b r i = treeSearch b (right n) i"
      using 3 n by (subst treeSearch.simps) (simp add: bag_simps)
    moreover have "i \<in> idx b ` set_tree (Node t1 a t2) \<longleftrightarrow> i \<in> idx b ` set_tree t2" using 3 i s(3) by fastforce
    moreover obtain c where "treeSearch b (right n) i = Some c"
      "if i \<in> idx b ` set_tree t2 then c \<in> set_tree t2 \<and> idx b c = i else c = nil b"
      using Node.IH(2) [OF n(5) s(2)] by blast
    ultimately show ?thesis by (intro exI [of _ c]) (simp split: if_splits)
  qed
qed

definition lookup :: "(int \<times> 'a ptr) list \<Rightarrow> int \<Rightarrow> 'a ptr" where
  "lookup kvs i = (case map_of kvs i of None \<Rightarrow> NULL | Some v \<Rightarrow> v)"

lemma search_entry:
  assumes "bag_inv b t"
  shows "\<exists>a. treeSearch b (root b) i = Some a \<and>
    (if i \<in> fst ` set (entries b t)
     then a \<in> set_tree t \<and> idx b a = i \<and> map_of (entries b t) i = Some (item_of b a) else a = nil b)"
proof -
  have t: "tree_at (nodes b) (nil b) (root b) (nil b) t" "sorted_wrt (<) (map (idx b) (inorder t))"
    using assms by (simp_all add: bag_inv_def tree_of_def)
  have keys: "fst ` set (entries b t) = idx b ` set_tree t" by (force simp: entries_def)
  have "distinct (map fst (entries b t))" unfolding entries_fst using t(2) strict_sorted_iff by blast
  then have m: "a \<in> set_tree t \<Longrightarrow> map_of (entries b t) (idx b a) = Some (item_of b a)" for a
    by (rule map_of_is_SomeI) (force simp: entries_def)
  obtain a where "treeSearch b (root b) i = Some a"
    "if i \<in> idx b ` set_tree t then a \<in> set_tree t \<and> idx b a = i else a = nil b"
    using treeSearch_order [OF t] by blast
  then show ?thesis unfolding keys using m [of a] by (intro exI [of _ a]) (simp split: if_splits)
qed

lemma WMGetFromBag_rep:
  assumes "bag_rep b kvs"
  shows "WMGetFromBag b i = Some (lookup kvs i)"
proof -
  obtain t where t: "bag_inv b t" "entries b t = kvs" "tree_of b t" by (rule bag_repE [OF assms])
  obtain a where a: "treeSearch b (root b) i = Some a"
    "if i \<in> fst ` set kvs then a \<in> set_tree t \<and> idx b a = i \<and> map_of kvs i = Some (item_of b a) else a = nil b"
    using search_entry [OF t(1), of i] t(2) by auto
  show ?thesis
  proof (cases "i \<in> fst ` set kvs")
    case True
    then show ?thesis using a nodes_in_order [OF t(3), of a] by (simp add: WMGetFromBag_def lookup_def fld_of)
  next
    case False
    then have "map_of kvs i = None" by (simp add: map_of_eq_None_iff)
    then show ?thesis using a False by (simp add: WMGetFromBag_def lookup_def)
  qed
qed

lemma WMReplaceInBag_rep:
  assumes rep: "bag_rep b kvs" and x: "x \<noteq> NULL"
  shows "\<exists>b'. WMReplaceInBag b i x = Some (b', lookup kvs i, []) \<and> bag_rep b' (set_entry i x kvs) \<and>
    has_destructor b' = has_destructor b"
proof -
  obtain t where t: "bag_inv b t" "entries b t = kvs" "tree_of b t" "sorted_wrt (<) (map (idx b) (inorder t))"
    "bcount b = int (length kvs)" by (rule bag_repE [OF rep])
  obtain a where a: "treeSearch b (root b) i = Some a"
    "if i \<in> fst ` set kvs then a \<in> set_tree t \<and> idx b a = i \<and> map_of kvs i = Some (item_of b a) else a = nil b"
    using search_entry [OF t(1), of i] t(2) by auto
  show ?thesis
  proof (cases "i \<in> fst ` set kvs")
    case True
    then have at: "a \<in> set_tree t" "idx b a = i" "map_of kvs i = Some (item_of b a)" using a(2) by simp_all
    have na: "nodes b a \<noteq> None" "a \<noteq> nil b" using nodes_in_order [OF t(3), of a] at by auto
    obtain b1 where b1: "set_data a x b = Some b1" "like b b1" "item_of b1 = (item_of b)(a := x)" "idx b1 = idx b"
      using set_data_like [OF na(1)] by blast
    obtain xs ys where xy: "inorder t = xs @ a # ys" using at(1) by (metis set_inorder split_list)
    have out: "a \<notin> set xs" "a \<notin> set ys" using t(3) xy by (auto simp: tree_of_def)
    have lt: "\<forall>c \<in> set xs. idx b c < i" "\<forall>c \<in> set ys. i < idx b c"
      using t(4) xy at(2) by (auto simp: sorted_wrt_append)
    let ?m = "map (\<lambda>a. (idx b a, item_of b a))"
    have kvs: "kvs = ?m xs @ (i, item_of b a) # ?m ys" using entries_at [OF xy, of b] t(2) at(2) by simp
    have "takeWhile (\<lambda>kv. fst kv < i) kvs = ?m xs"
      unfolding kvs by (rule split_at_key) (use lt in auto)
    moreover have "dropWhile (\<lambda>kv. fst kv \<le> i) ((?m xs @ [(i, item_of b a)]) @ ?m ys) = ?m ys"
      by (rule drop_above_key) (use lt in auto)
    then have "dropWhile (\<lambda>kv. fst kv \<le> i) kvs = ?m ys" by (simp add: kvs)
    ultimately have "entries b1 t = set_entry i x kvs"
      using entries_at [OF xy, of b1] b1(3,4) at(2) out by (simp add: set_entry_def)
    then have "bag_rep b1 (set_entry i x kvs)"
      by (intro bag_repI [of b1 t]) (use t b1(2,4) in \<open>auto simp: like_def bag_inv_def root_not_red_def\<close>)
    then show ?thesis using a(1) na x b1(1,2) at(3) by (auto simp: WMReplaceInBag_def fld_of lookup_def like_def)
  next
    case False
    then have anil: "a = nil b" and "map_of kvs i = None" using a(2) by (simp_all add: map_of_eq_None_iff)
    then have l: "lookup kvs i = NULL" by (simp add: lookup_def)
    obtain b1 p where new: "new_node x i b = (b1, p)" by fastforce
    obtain b2 t2 xs ys where b2: "rbTreeInsert b1 p = Some b2" "tree_of b2 t2" "inorder t2 = xs @ p # ys"
      "inorder t = xs @ ys" "root_not_red b2" "item_of b2 p = x" "idx b2 p = i"
      "\<forall>a \<in> set (xs @ ys). item_of b2 a = item_of b a \<and> idx b2 a = idx b a"
      "\<forall>a \<in> set xs. idx b a < i" "\<forall>a \<in> set ys. i \<le> idx b a"
      "bcount b2 = bcount b" "has_destructor b2 = has_destructor b" "\<forall>a \<ge> brk b2. nodes b2 a = None"
      using insert_new_node [OF t(1) new] by blast
    have gt: "\<forall>a \<in> set ys. i < idx b a"
    proof
      fix c assume c: "c \<in> set ys"
      have "(idx b c, item_of b c) \<in> set kvs" using c b2(4) t(2) by (auto simp: entries_def)
      then have "idx b c \<noteq> i" using False by force
      then show "i < idx b c" using b2(10) c by force
    qed
    let ?m = "map (\<lambda>a. (idx b a, item_of b a))" and ?b = "b2\<lparr>bcount := bcount b2 + 1\<rparr>"
    have kvs: "kvs = ?m xs @ ?m ys" using entries_split [OF b2(4), of b] t(2) by simp
    have "takeWhile (\<lambda>kv. fst kv < i) kvs = ?m xs"
      unfolding kvs by (rule split_at_key) (use b2(9) gt in auto)
    moreover have "dropWhile (\<lambda>kv. fst kv \<le> i) kvs = ?m ys"
      unfolding kvs by (rule drop_above_key) (use b2(9) gt in auto)
    ultimately have e: "entries ?b t2 = set_entry i x kvs"
      using entries_at [OF b2(3), of b2] b2(6,7,8) by (simp add: set_entry_def)
    have "map (idx b2) (inorder t2) = map (idx b) xs @ i # map (idx b) ys" using b2(3,7,8) by simp
    then have s: "sorted_wrt (<) (map (idx ?b) (inorder t2))"
      using t(4) b2(4,9) gt by (fastforce simp: sorted_wrt_append)
    have n: "bcount ?b = int (length (inorder t2))" 
      using arg_cong [OF b2(3), of length] arg_cong [OF b2(4), of length] arg_cong [OF t(2), of length] b2(11) t(5)
      by (simp add: entries_def)
    have "bag_rep ?b (set_entry i x kvs)"
      by (rule bag_repI [OF _ _ _ n s e]) (use b2 in simp_all)
    then show ?thesis using a(1) anil x b2(1,12) new l by (auto simp: WMReplaceInBag_def)
  qed
qed

end
