(* ===== verification/WMBagLists.thy ===== *)
theory WMBagLists
  imports WMBagOperations
begin

text \<open>
  What a client sees of a bag: the iterations and searches follow the order of the indices, so
  a bag built by insertions and replacements answers like a list, or like a finite map from
  indices to items. The last section evaluates deletions, which do not keep this up.
\<close>

section \<open>Iteration and searches\<close>

lemma extreme_of_bag:
  assumes "tree_of b t"
  shows "tree_extreme (opp s) b (root b) = Some (if t = Leaf then nil b else hd (walk s t))"
proof (cases "t = Leaf")
  case True
  then have "root b = nil b" using tree_of_ptr [OF assms] by simp
  moreover obtain n where "nodes b (nil b) = Some n" "left n = nil b" "right n = nil b"
    using assms by (auto simp: tree_of_def nil_ok_def)
  moreover then have "child (opp s) n = nil b" by (cases s) auto
  ultimately show ?thesis using True by (subst tree_extreme.simps) (simp add: bag_simps)
next
  case False
  then show ?thesis using tree_extreme_walk [of b "root b" "nil b" t s] assms by (simp add: tree_of_def)
qed

lemma at_node_in: "nodes b p \<noteq> None \<Longrightarrow> p \<noteq> nil b \<Longrightarrow> at_node b p = Some (item_of b p, Some p)"
  by (simp add: at_node_def fld_of)

lemma nodes_in_walk:
  "tree_of b t \<Longrightarrow> walk s t = xs @ p # ys \<Longrightarrow> nodes b p \<noteq> None \<and> p \<noteq> nil b"
  using nodes_in_order [of b t p] by (metis in_set_conv_decomp set_inorder set_walk)

lemma iterate_from_walk:
  "tree_of b t \<Longrightarrow> walk s t = xs @ p # ys \<Longrightarrow>
   iterate_from s b (item_of b p, Some p) = Some (map (item_of b) (p # ys))"
proof (induction ys arbitrary: xs p)
  case Nil
  have "tree_neighbour s b p = Some (nil b)" using tree_neighbour_walk [OF Nil.prems] by simp
  then show ?case
    by (subst iterate_from.simps, cases s)
      (simp_all add: WMBagNext_def WMBagPrevious_def treeSuccessor_def treePredecessor_def at_node_def iterate_from.simps)
next
  case (Cons y ys)
  have y: "nodes b y \<noteq> None" "y \<noteq> nil b" using nodes_in_walk [OF Cons.prems(1), of s "xs @ [p]" y ys] Cons.prems(2) by auto
  have n: "tree_neighbour s b p = Some y" using tree_neighbour_walk [OF Cons.prems] by simp
  have "iterate_from s b (item_of b y, Some y) = Some (map (item_of b) (y # ys))"
    using Cons.IH [OF Cons.prems(1), of "xs @ [p]"] Cons.prems(2) by simp
  then show ?case using n at_node_in [OF y]
    by (subst iterate_from.simps, cases s)
      (simp_all add: WMBagNext_def WMBagPrevious_def treeSuccessor_def treePredecessor_def)
qed

lemma iterate_walk:
  assumes "tree_of b t"
  shows "WM_ITERATE_BAG b = Some (map (item_of b) (inorder t))"
    "WM_ETARETI_BAG b = Some (rev (map (item_of b) (inorder t)))"
proof -
  have w: "do { p \<leftarrow> tree_extreme (opp s) b (root b); vi \<leftarrow> at_node b p; iterate_from s b vi } =
      Some (map (item_of b) (walk s t))" for s
  proof (cases "walk s t")
    case Nil
    then have "t = Leaf" by (cases t) (auto simp: walk_def split: if_splits)
    then show ?thesis using extreme_of_bag [OF assms, of s] by (simp add: at_node_def iterate_from.simps)
  next
    case (Cons p ys)
    then have "t \<noteq> Leaf" by auto
    then show ?thesis using extreme_of_bag [OF assms, of s] Cons nodes_in_walk [OF assms, of s "[]" p ys]
        iterate_from_walk [OF assms, of s "[]" p ys] by (simp add: at_node_in)
  qed
  show "WM_ITERATE_BAG b = Some (map (item_of b) (inorder t))"
    using w [of RIGHT] by (simp add: WM_ITERATE_BAG_def WMBagFirst_def treeMinimum_def walk_def)
  show "WM_ETARETI_BAG b = Some (rev (map (item_of b) (inorder t)))"
    using w [of LEFT] by (simp add: WM_ETARETI_BAG_def WMBagLast_def treeMaximum_def walk_def rev_map)
qed

lemma treeCount_order:
  "tree_at (nodes b) (nil b) p q t \<Longrightarrow>
   treeCount b p x = Some (int (count_list (map (item_of b) (inorder t)) x))"
proof (induction t arbitrary: p q)
  case Leaf
  then show ?case by (subst treeCount.simps) simp
next
  case (Node l a r)
  then obtain n where n: "p = a" "a \<noteq> nil b" "nodes b a = Some n"
    "tree_at (nodes b) (nil b) (left n) a l" "tree_at (nodes b) (nil b) (right n) a r" by auto
  have e: "left n = nil b \<Longrightarrow> l = Leaf" "right n = nil b \<Longrightarrow> r = Leaf"
    using n(4) by (cases l; auto) (use n(5) in \<open>cases r; auto\<close>)
  have d: "item_of b a = data n" by (simp add: item_of_def n(3))
  show ?case using n e d Node.IH(1) [OF n(4)] Node.IH(2) [OF n(5)]
    by (subst treeCount.simps) (auto simp: bag_simps)
qed

lemma treeFind_order:
  "tree_at (nodes b) (nil b) p q t \<Longrightarrow>
   \<exists>a. treeFind b p x = Some a \<and>
     (if x \<in> item_of b ` set_tree t then a \<in> set_tree t \<and> item_of b a = x else a = nil b)"
proof (induction t arbitrary: p q)
  case Leaf
  then show ?case by (subst treeFind.simps) simp
next
  case (Node l a r)
  then obtain n where n: "p = a" "a \<noteq> nil b" "nodes b a = Some n"
    "tree_at (nodes b) (nil b) (left n) a l" "tree_at (nodes b) (nil b) (right n) a r" by auto
  have d: "item_of b a = data n" by (simp add: item_of_def n(3))
  obtain c1 where c1: "treeFind b (left n) x = Some c1"
    "if x \<in> item_of b ` set_tree l then c1 \<in> set_tree l \<and> item_of b c1 = x else c1 = nil b"
    using Node.IH(1) [OF n(4)] by blast
  obtain c2 where c2: "treeFind b (right n) x = Some c2"
    "if x \<in> item_of b ` set_tree r then c2 \<in> set_tree r \<and> item_of b c2 = x else c2 = nil b"
    using Node.IH(2) [OF n(5)] by blast
  have z: "nil b \<notin> set_tree l" using tree_at_nil [OF n(4)] .
  show ?case
  proof (cases "data n = x")
    case True
    then show ?thesis using n d by (subst treeFind.simps) (auto simp: bag_simps)
  next
    case False
    have "treeFind b p x = Some (if c1 \<noteq> nil b then c1 else c2)"
      using n False c1(1) c2(1) by (subst treeFind.simps) (simp add: bag_simps)
    then show ?thesis using c1(2) c2(2) z False d
      by (intro exI [of _ "if c1 \<noteq> nil b then c1 else c2"]) (auto split: if_splits)
  qed
qed

lemma findInTree_order:
  "tree_at (nodes b) (nil b) p q t \<Longrightarrow> \<forall>a \<in> set_tree t. idx b a \<noteq> WBNotFound \<Longrightarrow>
   findInTree b p f = Some (case find (\<lambda>a. f (item_of b a)) (inorder t) of None \<Rightarrow> WBNotFound | Some a \<Rightarrow> idx b a)"
proof (induction t arbitrary: p q)
  case Leaf
  then show ?case by (subst findInTree.simps) simp
next
  case (Node l a r)
  then obtain n where n: "p = a" "a \<noteq> nil b" "nodes b a = Some n"
    "tree_at (nodes b) (nil b) (left n) a l" "tree_at (nodes b) (nil b) (right n) a r" by auto
  have d: "item_of b a = data n" "idx b a = index n" by (simp_all add: item_of_def idx_def n(3))
  have f: "find g (xs @ ys) = (case find g xs of None \<Rightarrow> find g ys | Some x \<Rightarrow> Some x)" for g :: "nat \<Rightarrow> bool" and xs ys
    by (induction xs) auto
  have "find (\<lambda>a. f (item_of b a)) (inorder l) = Some c \<Longrightarrow> idx b c \<noteq> WBNotFound" for c
    using Node.prems(2) nth_mem [of _ "inorder l"] by (auto simp: find_Some_iff)
  then show ?case using n d Node.IH(1) [OF n(4)] Node.IH(2) [OF n(5)] Node.prems(2)
    by (subst findInTree.simps) (auto simp: bag_simps f split: option.splits)
qed

lemma mapTree_order:
  "tree_at (nodes b) (nil b) p q t \<Longrightarrow> mapTree b p f s = Some (fold f (map (item_of b) (inorder t)) s)"
proof (induction t arbitrary: p q s)
  case Leaf
  then show ?case by (subst mapTree.simps) simp
next
  case (Node l a r)
  then obtain n where n: "p = a" "a \<noteq> nil b" "nodes b a = Some n"
    "tree_at (nodes b) (nil b) (left n) a l" "tree_at (nodes b) (nil b) (right n) a r" by auto
  have d: "item_of b a = data n" by (simp add: item_of_def n(3))
  show ?case using n d Node.IH(1) [OF n(4)] Node.IH(2) [OF n(5)]
    by (subst mapTree.simps) (simp add: bag_simps)
qed

section \<open>Sorting and emptying\<close>

lemma collect_items_order:
  "tree_of b t \<Longrightarrow> inorder t = xs @ ys \<Longrightarrow>
   collect_items b (if ys = [] then nil b else hd ys) = Some (map (item_of b) ys)"
proof (induction ys arbitrary: xs)
  case Nil
  then show ?case by (subst collect_items.simps) simp
next
  case (Cons y ys)
  have y: "nodes b y \<noteq> None" "y \<noteq> nil b" using nodes_in_order [OF Cons.prems(1)] Cons.prems(2) by auto
  have "treeSuccessor b y = Some (if ys = [] then nil b else hd ys)" by (rule succ_in_order [OF Cons.prems])
  then show ?case using y Cons.IH [OF Cons.prems(1), of "xs @ [y]"] Cons.prems(2)
    by (subst collect_items.simps) (simp add: fld_of)
qed

lemma store_items_order:
  "tree_of b t \<Longrightarrow> inorder t = xs @ ys \<Longrightarrow> length ds = length ys \<Longrightarrow>
   \<exists>b'. store_items b (if ys = [] then nil b else hd ys) i ds = Some b' \<and> like b b' \<and>
     map (item_of b') ys = ds \<and> map (idx b') ys = map (\<lambda>k. i + int k) [0..<length ys] \<and>
     (\<forall>a. a \<notin> set ys \<longrightarrow> item_of b' a = item_of b a \<and> idx b' a = idx b a)"
proof (induction ys arbitrary: b xs i ds)
  case Nil
  then show ?case by (subst store_items.simps) simp
next
  case (Cons y ys)
  obtain d ds' where ds: "ds = d # ds'" "length ds' = length ys" using Cons.prems(3) by (cases ds) auto
  have y: "nodes b y \<noteq> None" "y \<noteq> nil b" using nodes_in_order [OF Cons.prems(1)] Cons.prems(2) by auto
  have dy: "y \<notin> set ys" using Cons.prems by (auto simp: tree_of_def)
  obtain b1 where b1: "set_index y i b = Some b1" "like b b1" "item_of b1 = item_of b" "idx b1 = (idx b)(y := i)"
    using set_index_like [OF y(1)] by blast
  have "nodes b1 y \<noteq> None" using b1(2) y(1) by (simp add: like_def)
  from set_data_like [OF this, of d]
  obtain b2 where b2: "set_data y d b1 = Some b2" "like b1 b2" "item_of b2 = (item_of b1)(y := d)" "idx b2 = idx b1"
    by blast
  have l: "like b b2" by (rule like_trans [OF b1(2) b2(2)])
  have t2: "tree_of b2 t" using l Cons.prems(1) by (simp add: like_def)
  obtain b3 where b3: "store_items b2 (if ys = [] then nil b2 else hd ys) (i + 1) ds' = Some b3" "like b2 b3"
    "map (item_of b3) ys = ds'" "map (idx b3) ys = map (\<lambda>k. i + 1 + int k) [0..<length ys]"
    "\<forall>a. a \<notin> set ys \<longrightarrow> item_of b3 a = item_of b2 a \<and> idx b3 a = idx b2 a"
    using Cons.IH [OF t2, of "xs @ [y]" ds' "i + 1"] Cons.prems(2) ds(2) by auto
  have "store_items b y i ds = Some b3"
    using y ds(1) b1(1) b2(1) b3(1) succ_in_order [OF t2 Cons.prems(2)] l
    by (subst store_items.simps) (simp add: like_def)
  moreover have "map (idx b3) (y # ys) = map (\<lambda>k. i + int k) [0..<length (y # ys)]"
    using b3(4,5) dy b2(4) b1(4) by (simp add: upt_conv_Cons map_Suc_upt [symmetric] del: upt_Suc)
  ultimately show ?case using like_trans [OF l b3(2)] b3(3,5) dy b1 b2 ds by auto
qed

lemma deleteTree_order:
  "tree_at (nodes b) (nil b) p q t \<Longrightarrow> distinct (inorder t) \<Longrightarrow>
   deleteTree b p = Some (b\<lparr>nodes := (\<lambda>a. if a \<in> set_tree t then None else nodes b a)\<rparr>,
     if has_destructor b then map (item_of b) (inorder t) else [])"
proof (induction t arbitrary: b p q)
  case Leaf
  then show ?case by (subst deleteTree.simps) simp
next
  case (Node l a r)
  obtain n where n: "p = a" "a \<noteq> nil b" "nodes b a = Some n"
    "tree_at (nodes b) (nil b) (left n) a l" "tree_at (nodes b) (nil b) (right n) a r"
    using Node.prems(1) by auto
  have d: "a \<notin> set_tree l" "a \<notin> set_tree r" "set_tree l \<inter> set_tree r = {}"
    "distinct (inorder l)" "distinct (inorder r)"
    using Node.prems(2) by auto
  let ?b1 = "b\<lparr>nodes := (\<lambda>c. if c \<in> set_tree l then None else nodes b c)\<rparr>"
  have l: "deleteTree b (left n) = Some (?b1, if has_destructor b then map (item_of b) (inorder l) else [])"
    by (rule Node.IH(1) [OF n(4) d(4)])
  have "tree_at (nodes ?b1) (nil ?b1) (right n) a r"
  proof -
    have "same_links (set_tree r) (nodes b) (nodes ?b1)" using d(3) by (auto simp: same_links_def)
    from tree_at_frame [OF n(5) this] show ?thesis by simp
  qed
  from Node.IH(2) [OF this d(5)]
  have r: "deleteTree ?b1 (right n) = Some (?b1\<lparr>nodes := (\<lambda>c. if c \<in> set_tree r then None else nodes ?b1 c)\<rparr>,
      if has_destructor b then map (item_of ?b1) (inorder r) else [])" by simp
  have i: "map (item_of ?b1) (inorder r) = map (item_of b) (inorder r)"
    using d(3) by (auto simp: item_of_def)
  have "item_of b a = data n" by (simp add: item_of_def n(3))
  moreover have "(\<lambda>c. if c \<in> set_tree r then None else nodes ?b1 c)(a := None) =
      (\<lambda>c. if c \<in> set_tree (Node l a r) then None else nodes b c)" by auto
  ultimately show ?case using n l r i d(1,2) by (subst deleteTree.simps) (simp add: bag_simps)
qed

section \<open>What the operations show of the list\<close>

text \<open>Everything that a client can ask a bag with the given entries.\<close>

definition answers :: "'a W_Bag \<Rightarrow> (int \<times> 'a ptr) list \<Rightarrow> bool" where
  "answers b kvs \<longleftrightarrow>
     WM_ITERATE_BAG b = Some (map snd kvs) \<and> WM_ETARETI_BAG b = Some (rev (map snd kvs)) \<and>
     WMGetBagItemCount b = int (length kvs) \<and> (\<forall>i. WMGetFromBag b i = Some (lookup kvs i)) \<and>
     (\<forall>x. WMCountInBag b x = Some (int (count_list (map snd kvs) x)))"

lemma bag_rep_answers:
  assumes "bag_rep b kvs"
  shows "answers b kvs"
proof -
  obtain t where t: "entries b t = kvs" "tree_of b t" "tree_at (nodes b) (nil b) (root b) (nil b) t"
    "bcount b = int (length kvs)" by (rule bag_repE [OF assms])
  have "map snd kvs = map (item_of b) (inorder t)" using entries_snd [of b t] t(1) by simp
  then show ?thesis using iterate_walk [OF t(2)] treeCount_order [OF t(3)] t(4) WMGetFromBag_rep [OF assms]
    by (simp add: answers_def WMGetBagItemCount_def WMCountInBag_def)
qed

lemma WMFindInBag_rep:
  assumes "bag_rep b kvs" and "\<forall>kv \<in> set kvs. fst kv \<noteq> WBNotFound"
  shows "WMFindInBag b f = Some (case find (\<lambda>kv. f (snd kv)) kvs of None \<Rightarrow> WBNotFound | Some kv \<Rightarrow> fst kv)"
proof -
  obtain t where t: "entries b t = kvs" "tree_at (nodes b) (nil b) (root b) (nil b) t" by (rule bag_repE [OF assms(1)])
  have f: "find P (map g as) = map_option g (find (\<lambda>a. P (g a)) as)"
    for P and g :: "nat \<Rightarrow> int \<times> 'a ptr" and as by (induction as) auto
  have "\<forall>a \<in> set_tree t. idx b a \<noteq> WBNotFound" using assms(2) t(1) by (auto simp: entries_def)
  from findInTree_order [OF t(2) this, of f] show ?thesis
    unfolding t(1) [symmetric] entries_def f by (simp add: WMFindInBag_def option.case_eq_if map_option_case)
qed

lemma WMGetFirstInBag_rep:
  assumes "bag_rep b kvs"
  shows "\<exists>i. WMGetFirstInBag b x = Some i \<and> (if x \<in> snd ` set kvs then (i, x) \<in> set kvs else i = WBNotFound)"
proof -
  obtain t where t: "entries b t = kvs" "tree_of b t" "tree_at (nodes b) (nil b) (root b) (nil b) t"
    by (rule bag_repE [OF assms])
  have k: "snd ` set kvs = item_of b ` set_tree t" "set kvs = (\<lambda>a. (idx b a, item_of b a)) ` set_tree t"
    unfolding t(1) [symmetric] entries_def by force+
  obtain a where a: "treeFind b (root b) x = Some a"
    "if x \<in> item_of b ` set_tree t then a \<in> set_tree t \<and> item_of b a = x else a = nil b"
    using treeFind_order [OF t(3)] by blast
  show ?thesis
  proof (cases "x \<in> item_of b ` set_tree t")
    case True
    then have "a \<in> set_tree t" "item_of b a = x" using a(2) by auto
    then show ?thesis using a(1) True nodes_in_order [OF t(2), of a] k
      by (auto simp: WMGetFirstInBag_def fld_of)
  next
    case False
    then show ?thesis using a k by (simp add: WMGetFirstInBag_def)
  qed
qed

lemma WMMapBag_rep: "bag_rep b kvs \<Longrightarrow> WMMapBag b f s = Some (fold f (map snd kvs) s)"
  by (erule bag_repE) (auto simp: WMMapBag_def mapTree_order entries_snd [symmetric])

lemma bag_rep_create: "bag_rep (WMCreateTreeBagWithDestructor d) []"
  by (rule bag_repI [of _ Leaf])
    (auto simp: WMCreateTreeBagWithDestructor_def tree_of_def nil_ok_def root_not_red_def entries_def)

definition enumerate_items :: "'a ptr list \<Rightarrow> (int \<times> 'a ptr) list" where
  "enumerate_items xs = zip (map int [0..<length xs]) xs"

lemma WMSortBag_rep:
  assumes "bag_rep b kvs" and "length (qs (map snd kvs)) = length kvs"
  shows "\<exists>b'. WMSortBag qs b = Some b' \<and>
    bag_rep b' (if kvs = [] then [] else enumerate_items (qs (map snd kvs))) \<and> has_destructor b' = has_destructor b"
proof (cases "kvs = []")
  case True
  then have "bcount b = 0" using assms(1) by (auto elim: bag_repE)
  then show ?thesis using assms(1) True by (simp add: WMSortBag_def)
next
  case False
  obtain t where t: "bag_inv b t" "entries b t = kvs" "tree_of b t" "bcount b = int (length kvs)"
    by (rule bag_repE [OF assms(1)])
  let ?ys = "inorder t" and ?ds = "qs (map snd kvs)"
  have ys: "?ys \<noteq> []" "length ?ys = length kvs" "map (item_of b) ?ys = map snd kvs"
    using False t(2) entries_snd [of b t] by (auto simp: entries_def)
  then have "t \<noteq> Leaf" by auto
  then have m: "treeMinimum b (root b) = Some (hd ?ys)"
    using extreme_of_bag [OF t(3), of RIGHT] by (simp add: treeMinimum_def walk_def)
  have c: "collect_items b (hd ?ys) = Some (map snd kvs)"
    using collect_items_order [OF t(3), of "[]" ?ys] ys by simp
  obtain b' where b': "store_items b (hd ?ys) 0 ?ds = Some b'" "like b b'" "map (item_of b') ?ys = ?ds"
    "map (idx b') ?ys = map (\<lambda>k. 0 + int k) [0..<length ?ys]"
    using store_items_order [OF t(3), of "[]" ?ys ?ds 0] ys assms(2) by auto
  have e: "entries b' t = enumerate_items ?ds"
    using zip_map_map [of "idx b'" ?ys "item_of b'" ?ys] b'(3,4) ys(2) assms(2)
    by (simp add: entries_def enumerate_items_def zip_same_conv_map)
  have "bag_rep b' (enumerate_items ?ds)"
  proof (rule bag_repI [OF _ _ _ _ _ e])
    show "sorted_wrt (<) (map (idx b') ?ys)" unfolding b'(4) by (simp add: sorted_wrt_map)
  qed (use t b'(2) in \<open>auto simp: like_def bag_inv_def root_not_red_def\<close>)
  moreover have "WMSortBag qs b = Some b'"
    using False t(4) m c b'(1) by (simp add: WMSortBag_def)
  ultimately show ?thesis using False b'(2) by (auto simp: like_def)
qed

lemma WMEmptyBag_rep:
  assumes "bag_rep b kvs"
  shows "\<exists>b'. WMEmptyBag b = Some (b', if has_destructor b then map snd kvs else []) \<and> bag_rep b' [] \<and>
    has_destructor b' = has_destructor b"
proof -
  obtain t where t: "bag_inv b t" "entries b t = kvs" "tree_of b t" "tree_at (nodes b) (nil b) (root b) (nil b) t"
    by (rule bag_repE [OF assms])
  have d: "distinct (inorder t)" using t(3) by (simp add: tree_of_def)
  let ?b = "b\<lparr>nodes := (\<lambda>a. if a \<in> set_tree t then None else nodes b a), root := nil b, bcount := 0\<rparr>"
  have "WMEmptyBag b = Some (?b, if has_destructor b then map snd kvs else [])"
    using deleteTree_order [OF t(4) d] entries_snd [of b t] t(2) by (simp add: WMEmptyBag_def)
  moreover have "bag_rep ?b []"
    by (rule bag_repI [of _ Leaf])
      (use t(1,3) tree_at_nil [OF t(4)] in \<open>auto simp: bag_inv_def tree_of_def nil_ok_def root_not_red_def entries_def\<close>)
  ultimately show ?thesis by auto
qed

section \<open>A bag is a list\<close>

lemma enumerate_items_nth [simp]: "length (enumerate_items xs) = length xs"
    "k < length xs \<Longrightarrow> enumerate_items xs ! k = (int k, xs ! k)"
  by (simp_all add: enumerate_items_def)

lemma snd_enumerate_items [simp]: "map snd (enumerate_items xs) = xs"
  by (simp add: enumerate_items_def)

lemma lookup_enumerate_items:
  "lookup (enumerate_items xs) i = (if 0 \<le> i \<and> i < int (length xs) then xs ! nat i else NULL)"
proof (cases "0 \<le> i \<and> i < int (length xs)")
  case True
  then have "(i, xs ! nat i) \<in> set (enumerate_items xs)"
    using nth_mem [of "nat i" "enumerate_items xs"] by (simp add: nat_less_iff)
  moreover have "distinct (map fst (enumerate_items xs))"
    by (simp add: enumerate_items_def distinct_map inj_on_def)
  ultimately show ?thesis using True by (simp add: lookup_def)
next
  case False
  then have "map_of (enumerate_items xs) i = None"
    by (auto simp: map_of_eq_None_iff enumerate_items_def dest!: set_zip_leftD)
  then show ?thesis unfolding if_not_P [OF False] by (simp add: lookup_def)
qed

lemma enumerate_items_split:
  assumes "i \<le> length xs"
  shows "takeWhile (\<lambda>kv. fst kv < int i) (enumerate_items xs) = take i (enumerate_items xs)"
    "dropWhile (\<lambda>kv. fst kv < int i) (enumerate_items xs) = drop i (enumerate_items xs)"
proof -
  have "\<forall>kv \<in> set (take i (enumerate_items xs)). fst kv < int i"
    by (auto simp: in_set_conv_nth)
  moreover have "\<forall>kv \<in> set (drop i (enumerate_items xs)). int i \<le> fst kv"
    by (auto simp: in_set_conv_nth)
  ultimately show "takeWhile (\<lambda>kv. fst kv < int i) (enumerate_items xs) = take i (enumerate_items xs)"
    "dropWhile (\<lambda>kv. fst kv < int i) (enumerate_items xs) = drop i (enumerate_items xs)"
    using split_at_key [of "take i (enumerate_items xs)" "int i" "drop i (enumerate_items xs)"] by simp_all
qed

lemma insert_entry_enumerate:
  "i \<le> length xs \<Longrightarrow> insert_entry (int i) x (enumerate_items xs) = enumerate_items (take i xs @ x # drop i xs)"
  unfolding insert_entry_def
  by (rule nth_equalityI) (auto simp: enumerate_items_split nth_append nth_Cons' min_def)

lemma set_entry_enumerate:
  assumes "i < length xs"
  shows "set_entry (int i) x (enumerate_items xs) = enumerate_items (xs[i := x])"
proof -
  have "dropWhile (\<lambda>kv. fst kv \<le> int i) (enumerate_items xs) = drop (Suc i) (enumerate_items xs)"
  proof -
    have "(\<lambda>kv :: int \<times> 'a ptr. fst kv \<le> int i) = (\<lambda>kv. fst kv < int (Suc i))" by auto
    then show ?thesis using enumerate_items_split(2) [of "Suc i" xs] assms by simp
  qed
  then show ?thesis
    using assms unfolding set_entry_def
    by (intro nth_equalityI) (auto simp: enumerate_items_split nth_append nth_Cons' min_def nth_list_update)
qed

text \<open>The operations that build a bag, on the bag and on a list.\<close>

datatype 'a bag_op = Put "'a ptr" | Insert nat "'a ptr" | Replace nat "'a ptr" | Sort | Empty

fun bag_step :: "('a ptr list \<Rightarrow> 'a ptr list) \<Rightarrow> 'a bag_op \<Rightarrow> 'a W_Bag \<Rightarrow> 'a W_Bag option" where
  "bag_step qs (Put x) b = WMPutInBag b x"
| "bag_step qs (Insert i x) b = WMInsertInBag b (int i) x"
| "bag_step qs (Replace i x) b = map_option fst (WMReplaceInBag b (int i) x)"
| "bag_step qs Sort b = WMSortBag qs b"
| "bag_step qs Empty b = map_option fst (WMEmptyBag b)"

fun bag_run :: "('a ptr list \<Rightarrow> 'a ptr list) \<Rightarrow> 'a bag_op list \<Rightarrow> 'a W_Bag \<Rightarrow> 'a W_Bag option" where
  "bag_run qs [] b = Some b"
| "bag_run qs (f # fs) b = do { b \<leftarrow> bag_step qs f b; bag_run qs fs b }"

fun list_step :: "('a ptr list \<Rightarrow> 'a ptr list) \<Rightarrow> 'a bag_op \<Rightarrow> 'a ptr list \<Rightarrow> 'a ptr list" where
  "list_step qs (Put x) xs = xs @ [x]"
| "list_step qs (Insert i x) xs = take i xs @ x # drop i xs"
| "list_step qs (Replace i x) xs = xs[i := x]"
| "list_step qs Sort xs = (if xs = [] then [] else qs xs)"
| "list_step qs Empty xs = []"

fun list_run :: "('a ptr list \<Rightarrow> 'a ptr list) \<Rightarrow> 'a bag_op list \<Rightarrow> 'a ptr list \<Rightarrow> 'a ptr list" where
  "list_run qs [] xs = xs"
| "list_run qs (f # fs) xs = list_run qs fs (list_step qs f xs)"

text \<open>Indices within the list (insertion also at its end), no NULL by replacement.\<close>

fun op_ok :: "'a bag_op \<Rightarrow> 'a ptr list \<Rightarrow> bool" where
  "op_ok (Insert i x) xs \<longleftrightarrow> i \<le> length xs"
| "op_ok (Replace i x) xs \<longleftrightarrow> i < length xs \<and> x \<noteq> NULL"
| "op_ok _ xs \<longleftrightarrow> True"

fun ops_ok :: "('a ptr list \<Rightarrow> 'a ptr list) \<Rightarrow> 'a bag_op list \<Rightarrow> 'a ptr list \<Rightarrow> bool" where
  "ops_ok qs [] xs \<longleftrightarrow> True"
| "ops_ok qs (f # fs) xs \<longleftrightarrow> op_ok f xs \<and> ops_ok qs fs (list_step qs f xs)"

lemma bag_step_rep:
  assumes b: "bag_rep b (enumerate_items xs)" and ok: "op_ok f xs" and qs: "\<forall>xs. length (qs xs) = length xs"
  shows "\<exists>b'. bag_step qs f b = Some b' \<and> bag_rep b' (enumerate_items (list_step qs f xs))"
proof (cases f)
  case (Put x)
  have n: "bcount b = int (length xs)" using b by (auto elim: bag_repE)
  then have "\<forall>kv \<in> set (enumerate_items xs). fst kv < bcount b"
    by (fastforce simp: enumerate_items_def dest: set_zip_leftD)
  from WMPutInBag_rep [OF b this, of x] show ?thesis using Put n by (simp add: enumerate_items_def) metis
next
  case (Insert i x)
  then show ?thesis using WMInsertInBag_rep [OF b, of "int i" x] ok insert_entry_enumerate [of i xs x] by auto
next
  case (Replace i x)
  then show ?thesis using WMReplaceInBag_rep [OF b, of x "int i"] ok set_entry_enumerate [of i xs x] by fastforce
next
  case Sort
  then show ?thesis using WMSortBag_rep [OF b, of qs] qs by (cases "xs = []") (auto simp: enumerate_items_def)
next
  case Empty
  then show ?thesis using WMEmptyBag_rep [OF b] by (auto simp: enumerate_items_def)
qed

lemma bag_run_rep:
  "bag_rep b (enumerate_items xs) \<Longrightarrow> ops_ok qs fs xs \<Longrightarrow> \<forall>xs. length (qs xs) = length xs \<Longrightarrow>
   \<exists>b'. bag_run qs fs b = Some b' \<and> bag_rep b' (enumerate_items (list_run qs fs xs))"
proof (induction fs arbitrary: b xs)
  case (Cons f fs)
  then obtain b1 where "bag_step qs f b = Some b1" "bag_rep b1 (enumerate_items (list_step qs f xs))"
    using bag_step_rep [of b xs f qs] by auto
  then show ?case using Cons.IH [of b1 "list_step qs f xs"] Cons.prems by auto
qed auto

text \<open>
  C14: a bag is a list. For every sequence of insertions, replacements, sorting and emptying with
  indices inside the bag, started on a new bag, the red-black trees of \<open>bagtree.c\<close> touch only
  allocated nodes, every loop ends, and the resulting bag answers every question (both
  iterations, the number of items, the item at every index, the number of occurrences) as the
  list does that the same operations build.
\<close>

theorem bag_run_refines_list:
  assumes "ops_ok qs fs []" and "\<forall>xs. length (qs xs) = length xs"
  shows "\<exists>b. bag_run qs fs (WMCreateTreeBagWithDestructor d) = Some b \<and>
    answers b (enumerate_items (list_run qs fs []))"
  using bag_run_rep [of "WMCreateTreeBagWithDestructor d" "[]" qs fs] assms bag_rep_create [of d] bag_rep_answers
  by (auto simp: enumerate_items_def)

lemma bag_run_refines_list_witness:
  "\<exists>b. bag_run rev [Put (Some ''a''), Insert 0 (Some ''b''), Put NULL, Replace 2 (Some ''c''), Sort] 
        (WMCreateTreeBagWithDestructor True) = Some b \<and>
    answers b (enumerate_items (list_run rev
      [Put (Some ''a''), Insert 0 (Some ''b''), Put NULL, Replace 2 (Some ''c''), Sort] []))"
  by (rule bag_run_refines_list) simp_all

section \<open>A bag is a finite map\<close>

text \<open>\<open>WMSetInBag\<close> with arbitrary indices, as the stacking order of the windows uses it.\<close>

fun set_all :: "(int \<times> 'a ptr) list \<Rightarrow> 'a W_Bag \<Rightarrow> 'a W_Bag option" where
  "set_all [] b = Some b"
| "set_all (kv # kvs) b = do { (b, old, dead) \<leftarrow> WMReplaceInBag b (fst kv) (snd kv); set_all kvs b }"

definition map_fun :: "(int \<times> 'a ptr) list \<Rightarrow> int \<Rightarrow> 'a ptr" where
  "map_fun kvs = foldl (\<lambda>m kv. m(fst kv := snd kv)) (\<lambda>_. NULL) kvs"

lemma lookup_set_entry:
  assumes "sorted_wrt (<) (map fst kvs)"
  shows "lookup (set_entry i x kvs) = (lookup kvs)(i := x)"
proof
  fix j
  let ?us = "takeWhile (\<lambda>kv. fst kv < i) kvs" and ?vs = "dropWhile (\<lambda>kv. fst kv \<le> i) kvs"
  have parts: "\<exists>ms. kvs = ?us @ ms @ ?vs \<and> (\<forall>kv \<in> set ms. fst kv = i)"
    using assms
  proof (induction kvs)
    case (Cons kv kvs)
    then obtain ms where ms: "kvs = takeWhile (\<lambda>kv. fst kv < i) kvs @ ms @ dropWhile (\<lambda>kv. fst kv \<le> i) kvs"
      "\<forall>kv \<in> set ms. fst kv = i" by auto
    consider "fst kv < i" | "fst kv = i" | "i < fst kv" by linarith
    then show ?case
    proof cases
      case 2
      have "takeWhile (\<lambda>kv. fst kv < i) kvs = []" using Cons.prems 2 by (cases kvs) auto
      then show ?thesis using ms 2 by (intro exI [of _ "kv # ms"]) auto
    qed (use ms in \<open>auto intro!: exI [of _ ms]\<close>)
  qed simp
  then obtain ms where ms: "kvs = ?us @ ms @ ?vs" "\<forall>kv \<in> set ms. fst kv = i" by blast
  have us: "map_of ?us i = None" by (auto simp: map_of_eq_None_iff dest: set_takeWhileD)
  have mj: "j \<noteq> i \<Longrightarrow> map_of ms j = None" using ms(2) by (auto simp: map_of_eq_None_iff)
  have e: "map_of kvs j = map_of (?us @ ms @ ?vs) j" using ms(1) by simp
  have "map_of (set_entry i x kvs) j = map_of kvs j" if "j \<noteq> i"
    unfolding e set_entry_def using that mj [OF that]
    by (auto simp: map_add_def simp del: append_assoc split: option.splits)
  then show "lookup (set_entry i x kvs) j = ((lookup kvs)(i := x)) j"
    using us by (cases "j = i") (auto simp: lookup_def set_entry_def map_add_def)
qed

lemma set_all_rep:
  "bag_rep b kvs \<Longrightarrow> \<forall>kv \<in> set new. snd kv \<noteq> NULL \<Longrightarrow>
   \<exists>b' kvs'. set_all new b = Some b' \<and> bag_rep b' kvs' \<and>
     lookup kvs' = foldl (\<lambda>m kv. m(fst kv := snd kv)) (lookup kvs) new"
proof (induction new arbitrary: b kvs)
  case (Cons kv new)
  obtain b1 where b1: "WMReplaceInBag b (fst kv) (snd kv) = Some (b1, lookup kvs (fst kv), [])"
    "bag_rep b1 (set_entry (fst kv) (snd kv) kvs)"
    using WMReplaceInBag_rep [OF Cons.prems(1), of "snd kv" "fst kv"] Cons.prems(2) by auto
  have s: "sorted_wrt (<) (map fst kvs)" by (rule bag_repE [OF Cons.prems(1)])
  show ?case using Cons.IH [OF b1(2)] Cons.prems(2) b1(1) lookup_set_entry [OF s] by auto
qed auto

text \<open>
  a bag is a finite map. After any sequence of \<open>WMSetInBag\<close> with items that are not NULL and
  arbitrary indices, \<open>WMGetFromBag\<close> returns the item last set at the index, or NULL, and both
  iterations visit the items in the order of their indices.
\<close>

theorem bag_set_get_map:
  assumes "\<forall>kv \<in> set new. snd kv \<noteq> NULL"
  shows "\<exists>b kvs. set_all new (WMCreateTreeBagWithDestructor d) = Some b \<and> answers b kvs \<and>
    sorted_wrt (<) (map fst kvs) \<and> (\<forall>i. WMGetFromBag b i = Some (map_fun new i))"
proof -
  have e: "lookup [] = (\<lambda>_. NULL)" by (auto simp: lookup_def)
  obtain b kvs where b: "set_all new (WMCreateTreeBagWithDestructor d) = Some b" "bag_rep b kvs"
    "lookup kvs = map_fun new"
    using set_all_rep [OF bag_rep_create assms, of d] unfolding e map_fun_def by blast
  have "sorted_wrt (<) (map fst kvs)" by (rule bag_repE [OF b(2)])
  then show ?thesis using b bag_rep_answers [OF b(2)] by (auto simp: answers_def)
qed

lemma bag_set_get_map_witness:
  "\<exists>b kvs. set_all [(5, Some ''dock''), (-1, Some ''sunken''), (5, Some ''clip'')] (WMCreateTreeBagWithDestructor False) =
      Some b \<and> answers b kvs \<and> sorted_wrt (<) (map fst kvs) \<and>
    (\<forall>i. WMGetFromBag b i = Some (map_fun [(5, Some ''dock''), (-1, Some ''sunken''), (5, Some ''clip'')] i))"
  by (rule bag_set_get_map) simp

section \<open>Deletion\<close>

definition filled :: "bool \<Rightarrow> nat list \<Rightarrow> nat W_Bag option" where
  "filled d xs = bag_run id (map (\<lambda>x. Put (Some x)) xs) (WMCreateTreeBagWithDestructor d)"

text \<open>
  deleting an item with two subtrees calls the destructor on the wrong item. In a bag of
  three items, \<open>WMDeleteFromBag\<close> of the middle one takes it out, but the destructor gets the last
  one, which stays in the bag: \<open>rbTreeDelete\<close> moves the successor's data into the node and returns
  the successor, whose data \<open>treeDeleteNode\<close> then destroys.
\<close>

theorem delete_destroys_successor:
  "do { b \<leftarrow> filled True [1, 2, 3];
        (b, n, destroyed) \<leftarrow> WMDeleteFromBag b 1;
        items \<leftarrow> WM_ITERATE_BAG b;
        Some (items, destroyed) } = Some ([Some 1, Some 3], [Some 3])"
  by code_simp

text \<open>
  deletions lose items. Seven items, of which those at the indices 0, 1 and 3 are deleted in
  turn: four items are left and the count is 4, but the tree holds only three of them, item 4 is
  unreachable. The rotation in \<open>rbDeleteFixup\<close> overwrites the parent of the sentinel, which the
  loop then follows.
\<close>

theorem delete_loses_item:
  "do { b \<leftarrow> filled False [1, 2, 3, 4, 5, 6, 7];
        (b, _) \<leftarrow> WMDeleteFromBag b 0;
        (b, _) \<leftarrow> WMDeleteFromBag b 1;
        (b, _) \<leftarrow> WMDeleteFromBag b 3;
        items \<leftarrow> WM_ITERATE_BAG b;
        Some (WMGetBagItemCount b, items) } = Some (4, [Some 2, Some 5, Some 7])"
  by code_simp

end
