(* ===== verification/WMTables.thy ===== *)
theory WMTables
  imports WMHashTables
begin

text \<open>
  The interface of hash tables that the notification center (\<open>notification.c\<close>) relies on: a table
  maps keys to pointers, NULL where there is no entry. The locale states the laws, proves what
  its client needs once, and is interpreted on the two kinds of table that the client creates.
\<close>

locale pointer_map =
  fixes lookup :: "'t \<Rightarrow> 'k \<Rightarrow> 'v ptr"
    and insert_entry :: "'t \<Rightarrow> 'k \<Rightarrow> 'v ptr \<Rightarrow> 't \<times> 'v ptr \<times> 'k list"
    and remove_entry :: "'t \<Rightarrow> 'k \<Rightarrow> 't \<times> 'k list"
    and ok :: "'t \<Rightarrow> bool"
    and fresh :: 't
  assumes fresh_ok: "ok fresh" and fresh_lookup: "lookup fresh k = NULL"
    and insert_ok: "ok t \<Longrightarrow> ok (fst (insert_entry t k v))"
    and insert_lookup: "ok t \<Longrightarrow> lookup (fst (insert_entry t k v)) = (lookup t)(k := v)"
    and insert_old: "ok t \<Longrightarrow> fst (snd (insert_entry t k v)) = lookup t k"
    and remove_ok: "ok t \<Longrightarrow> ok (fst (remove_entry t k))"
    and remove_lookup: "ok t \<Longrightarrow> lookup (fst (remove_entry t k)) = (lookup t)(k := NULL)"
begin

text \<open>The pattern of the client: an entry is replaced by a pointer, or removed when it is NULL.\<close>

definition set_head :: "'t \<Rightarrow> 'k \<Rightarrow> 'v ptr \<Rightarrow> 't" where
  "set_head t k v = (if v \<noteq> NULL then fst (insert_entry t k v) else fst (remove_entry t k))"

lemma set_head_ok: "ok t \<Longrightarrow> ok (set_head t k v)"
  by (simp add: set_head_def insert_ok remove_ok)

lemma set_head_lookup: "ok t \<Longrightarrow> lookup (set_head t k v) = (lookup t)(k := v)"
  by (simp add: set_head_def insert_lookup remove_lookup)

lemma set_head_if:
  "(if v \<noteq> NULL then fst (insert_entry t k v) else fst (remove_entry t k)) = set_head t k v"
  by (simp add: set_head_def)

end

text \<open>The laws hold for callbacks whose equality is that of the keys, in a lemma of the table's locale.\<close>

context hash_identity
begin

lemma pointer_map_laws:
  "pointer_map (WMHashGet cb) (WMHashInsert cb) (WMHashRemove cb) wf
     (WMCreateHashTable :: ('k, 'v) W_HashTable)"
proof
  fix t :: "('k, 'v) W_HashTable" and k :: 'k and v :: "'v ptr"
  show "wf WMCreateHashTable" by (rule WMCreateHashTable_wf)
  show "WMHashGet cb WMCreateHashTable k = NULL" by (simp add: WMHashGet_ht_map WMCreateHashTable_map)
  assume t: "wf t"
  obtain t' old released where i: "WMHashInsert cb t k v = (t', old, released)" by (metis prod_cases3)
  show "wf (fst (WMHashInsert cb t k v))" using insert_map [OF t i] i by simp
  show "WMHashGet cb (fst (WMHashInsert cb t k v)) = (WMHashGet cb t)(k := v)"
    using insert_map [OF t i] i by (auto simp: WMHashGet_ht_map fun_eq_iff)
  show "fst (snd (WMHashInsert cb t k v)) = WMHashGet cb t k" using insert_map [OF t i] i by simp
  obtain t'' released' where r: "WMHashRemove cb t k = (t'', released')" by fastforce
  show "wf (fst (WMHashRemove cb t k))" using remove_map [OF t r] r by simp
  show "WMHashGet cb (fst (WMHashRemove cb t k)) = (WMHashGet cb t)(k := NULL)"
    using remove_map [OF t r] r by (auto simp: WMHashGet_ht_map fun_eq_iff)
qed

end

text \<open>The tables of the notification center: names to observer records, addresses to them.\<close>

interpretation name_table: pointer_map
  "WMHashGet WMStringPointerHashCallbacks" "WMHashInsert WMStringPointerHashCallbacks"
  "WMHashRemove WMStringPointerHashCallbacks" "ht_wf WMStringPointerHashCallbacks (\<lambda>_. True)" WMCreateHashTable
  by (rule string_pointer_table.pointer_map_laws)

interpretation address_table: pointer_map
  "WMHashGet WMIntHashCallbacks" "WMHashInsert WMIntHashCallbacks"
  "WMHashRemove WMIntHashCallbacks" "ht_wf WMIntHashCallbacks (\<lambda>_. True)" WMCreateHashTable
  by (rule pointer_table.pointer_map_laws)

end
