(* ===== verification/WMNotification.thy ===== *)
theory WMNotification
  imports WMArrays WMTables
begin

text \<open>
  \<open>WMcore/notification.c\<close>: notifications with their reference counts, the notification center
  (observer records in doubly linked lists that hang off hash tables) and the notification
  queues. Everything lives in one explicit state: a heap of notifications, a heap of observer
  records, a heap of queues. \<open>None\<close> is an access through NULL or to a freed record, a failed
  \<open>assert\<close>, or a loop that does not end. The code of the observers is a parameter: it gets its
  observer, the notification and the state, and may do anything to the state.
\<close>

section \<open>Notifications, observers, queues\<close>

type_synonym pointer = "64 word"

text \<open>A C string constant: its address, which some code compares, and its text.\<close>

datatype cstring = CString (cs_addr: pointer) (cs_text: string)

record Notification =
  nname :: "cstring ptr"
  nobject :: pointer
  clientData :: pointer
  refCount :: int

record NotificationObserver =
  observerAction :: "nat ptr"
  observer :: pointer
  name :: "cstring ptr"
  object :: pointer
  oprev :: "nat ptr"
  onext :: "nat ptr"
  nextAction :: "nat ptr"

record NotificationCenter =
  nameTable :: "(string, nat) W_HashTable"
  objectTable :: "(pointer, nat) W_HashTable"
  nilList :: "nat ptr"
  observerTable :: "(pointer, nat) W_HashTable"

record NotificationQueue =
  asapQueue :: "nat W_Array"
  idleQueue :: "nat W_Array"
  qnext :: "nat ptr"

text \<open>
  The state; \<open>told\<close> records the calls of observers: the action, the observer, the notification.
\<close>

record notif_state =
  notifs :: "nat \<rightharpoonup> Notification"
  observers :: "nat \<rightharpoonup> NotificationObserver"
  queues :: "nat \<rightharpoonup> NotificationQueue"
  brk :: nat
  notificationCenter :: "NotificationCenter ptr"
  notificationQueueList :: "nat ptr"
  notificationQueue :: "nat ptr"
  told :: "(nat \<times> pointer \<times> nat) list"

type_synonym 'z action = "nat \<Rightarrow> pointer \<Rightarrow> nat \<Rightarrow> 'z notif_state_scheme \<Rightarrow> 'z notif_state_scheme option"

section \<open>Notifications\<close>

definition WMGetNotificationName :: "nat \<Rightarrow> 'z notif_state_scheme \<Rightarrow> cstring ptr option" where
  "WMGetNotificationName n s = map_option nname (notifs s n)"

definition WMGetNotificationObject :: "nat \<Rightarrow> 'z notif_state_scheme \<Rightarrow> pointer option" where
  "WMGetNotificationObject n s = map_option nobject (notifs s n)"

definition WMGetNotificationClientData :: "nat \<Rightarrow> 'z notif_state_scheme \<Rightarrow> pointer option" where
  "WMGetNotificationClientData n s = map_option clientData (notifs s n)"

definition WMCreateNotification :: "cstring ptr \<Rightarrow> pointer \<Rightarrow> pointer \<Rightarrow> 'z notif_state_scheme \<Rightarrow> 'z notif_state_scheme \<times> nat" where
  "WMCreateNotification nm ob cd s =
     (s\<lparr>notifs := (notifs s)(brk s \<mapsto> \<lparr>nname = nm, nobject = ob, clientData = cd, refCount = 1\<rparr>),
        brk := Suc (brk s)\<rparr>, brk s)"

definition WMReleaseNotification :: "nat \<Rightarrow> 'z notif_state_scheme \<Rightarrow> 'z notif_state_scheme option" where
  "WMReleaseNotification n s = do {
     note \<leftarrow> notifs s n;
     let note = note\<lparr>refCount := refCount note - 1\<rparr>;
     Some (s\<lparr>notifs := (notifs s)(n := if refCount note < 1 then None else Some note)\<rparr>) }"

definition WMRetainNotification :: "nat \<Rightarrow> 'z notif_state_scheme \<Rightarrow> 'z notif_state_scheme option" where
  "WMRetainNotification n s = do {
     note \<leftarrow> notifs s n;
     Some (s\<lparr>notifs := (notifs s)(n \<mapsto> note\<lparr>refCount := refCount note + 1\<rparr>)\<rparr>) }"

section \<open>The notification center\<close>

definition W_InitNotificationCenter :: "'z notif_state_scheme \<Rightarrow> 'z notif_state_scheme" where
  "W_InitNotificationCenter s =
     s\<lparr>notificationCenter := Some \<lparr>nameTable = WMCreateHashTable, objectTable = WMCreateHashTable,
         nilList = NULL, observerTable = WMCreateHashTable\<rparr>\<rparr>"

definition W_ReleaseNotificationCenter :: "'z notif_state_scheme \<Rightarrow> 'z notif_state_scheme" where
  "W_ReleaseNotificationCenter s = s\<lparr>notificationCenter := NULL\<rparr>"

abbreviation (input) name_get where "name_get \<equiv> WMHashGet WMStringPointerHashCallbacks"
abbreviation (input) name_insert where "name_insert \<equiv> WMHashInsert WMStringPointerHashCallbacks"
abbreviation (input) name_remove where "name_remove \<equiv> WMHashRemove WMStringPointerHashCallbacks"
abbreviation (input) address_get where "address_get \<equiv> WMHashGet WMIntHashCallbacks"
abbreviation (input) address_insert where "address_insert \<equiv> WMHashInsert WMIntHashCallbacks"
abbreviation (input) address_remove where "address_remove \<equiv> WMHashRemove WMIntHashCallbacks"

text \<open>Writing a field of an observer record, and the accesses guarded by \<open>if (p)\<close>.\<close>

definition set_orec :: "(NotificationObserver \<Rightarrow> NotificationObserver) \<Rightarrow> nat \<Rightarrow> 'z notif_state_scheme \<Rightarrow> 'z notif_state_scheme option" where
  "set_orec f p s = do { r \<leftarrow> observers s p; Some (s\<lparr>observers := (observers s)(p \<mapsto> f r)\<rparr>) }"

definition set_if :: "(NotificationObserver \<Rightarrow> NotificationObserver) \<Rightarrow> nat ptr \<Rightarrow> 'z notif_state_scheme \<Rightarrow> 'z notif_state_scheme option" where
  "set_if f q s = (case q of None \<Rightarrow> Some s | Some p \<Rightarrow> set_orec f p s)"

definition set_center :: "NotificationCenter \<Rightarrow> 'z notif_state_scheme \<Rightarrow> 'z notif_state_scheme" where
  "set_center c s = s\<lparr>notificationCenter := Some c\<rparr>"

definition WMAddNotificationObserver ::
  "nat ptr \<Rightarrow> pointer \<Rightarrow> cstring ptr \<Rightarrow> pointer \<Rightarrow> 'z notif_state_scheme \<Rightarrow> 'z notif_state_scheme option" where
  "WMAddNotificationObserver act obs nm ob s = do {
     let p = brk s;
     c \<leftarrow> notificationCenter s;
     let (ot, rec, _) = address_insert (observerTable c) obs (Some p);
     let s = s\<lparr>observers := (observers s)(p \<mapsto>
                 \<lparr>observerAction = act, observer = obs, name = nm, object = ob, oprev = NULL, onext = NULL,
                  nextAction = rec\<rparr>), brk := Suc p\<rparr>;
     let c = c\<lparr>observerTable := ot\<rparr>;
     (case nm of
        None \<Rightarrow>
          if ob = 0
          then do {
            s \<leftarrow> set_orec (onext_update (\<lambda>_. nilList c)) p s;
            s \<leftarrow> set_if (oprev_update (\<lambda>_. Some p)) (nilList c) s;
            Some (set_center (c\<lparr>nilList := Some p\<rparr>) s) }
          else do {
            let (t, rec, _) = address_insert (objectTable c) ob (Some p);
            s \<leftarrow> set_orec (onext_update (\<lambda>_. rec)) p s;
            s \<leftarrow> set_if (oprev_update (\<lambda>_. Some p)) rec s;
            Some (set_center (c\<lparr>objectTable := t\<rparr>) s) }
      | Some n \<Rightarrow> do {
          let (t, rec, _) = name_insert (nameTable c) (cs_text n) (Some p);
          s \<leftarrow> set_orec (onext_update (\<lambda>_. rec)) p s;
          s \<leftarrow> set_if (oprev_update (\<lambda>_. Some p)) rec s;
          Some (set_center (c\<lparr>nameTable := t\<rparr>) s) }) }"

text \<open>
  The three loops of \<open>WMPostNotification\<close>: \<open>next\<close> is read before the observer is told, \<open>wants\<close> is
  the condition of the first loop.
\<close>

partial_function (option) tell ::
  "'z action \<Rightarrow> (NotificationObserver \<Rightarrow> Notification \<Rightarrow> bool) \<Rightarrow> nat \<Rightarrow> nat ptr \<Rightarrow> 'z notif_state_scheme \<Rightarrow> 'z notif_state_scheme option" where
  "tell act wants n orec s =
     (case orec of
        None \<Rightarrow> Some s
      | Some p \<Rightarrow> do {
          r \<leftarrow> observers s p;
          note \<leftarrow> notifs s n;
          s \<leftarrow> (if wants r note
               then (case observerAction r of
                       None \<Rightarrow> Some s
                     | Some a \<Rightarrow> act a (observer r) n (s\<lparr>told := told s @ [(a, observer r, n)]\<rparr>))
               else Some s);
          tell act wants n (onext r) s })"

definition wants_object :: "NotificationObserver \<Rightarrow> Notification \<Rightarrow> bool" where
  "wants_object r note \<longleftrightarrow> object r = 0 \<or> nobject note = 0 \<or> object r = nobject note"

definition WMPostNotification :: "'z action \<Rightarrow> nat \<Rightarrow> 'z notif_state_scheme \<Rightarrow> 'z notif_state_scheme option" where
  "WMPostNotification act n s = do {
     s \<leftarrow> WMRetainNotification n s;
     c \<leftarrow> notificationCenter s;
     note \<leftarrow> notifs s n;
     nm \<leftarrow> nname note;
     s \<leftarrow> tell act wants_object n (name_get (nameTable c) (cs_text nm)) s;
     c \<leftarrow> notificationCenter s;
     note \<leftarrow> notifs s n;
     s \<leftarrow> tell act (\<lambda>_ _. True) n (address_get (objectTable c) (nobject note)) s;
     c \<leftarrow> notificationCenter s;
     s \<leftarrow> tell act (\<lambda>_ _. True) n (nilList c) s;
     WMReleaseNotification n s }"

definition WMPostNotificationName ::
  "'z action \<Rightarrow> cstring ptr \<Rightarrow> pointer \<Rightarrow> pointer \<Rightarrow> 'z notif_state_scheme \<Rightarrow> 'z notif_state_scheme option" where
  "WMPostNotificationName act nm ob cd s = do {
     let (s, n) = WMCreateNotification nm ob cd s;
     s \<leftarrow> WMPostNotification act n s;
     WMReleaseNotification n s }"

text \<open>
  The part that the two removing functions share: the record \<open>p\<close> leaves the list that it is in.
  The table entry is replaced when \<open>p\<close> is the head; only the second function asserts, for the lists
  of the tables, that a head has no predecessor (\<open>checked\<close>).
\<close>

definition replace_head :: "bool \<Rightarrow> nat \<Rightarrow> NotificationObserver \<Rightarrow> NotificationCenter \<Rightarrow> NotificationCenter option" where
  "replace_head checked p r c =
     (case name r of
        None \<Rightarrow>
          if object r = 0
          then Some (if nilList c = Some p then c\<lparr>nilList := onext r\<rparr> else c)
          else if address_get (objectTable c) (object r) = Some p
          then if checked \<and> oprev r \<noteq> NULL then None
               else Some (c\<lparr>objectTable :=
                 (if onext r \<noteq> NULL then fst (address_insert (objectTable c) (object r) (onext r))
                  else fst (address_remove (objectTable c) (object r)))\<rparr>)
          else Some c
      | Some n \<Rightarrow>
          if name_get (nameTable c) (cs_text n) = Some p
          then if checked \<and> oprev r \<noteq> NULL then None
               else Some (c\<lparr>nameTable :=
                 (if onext r \<noteq> NULL then fst (name_insert (nameTable c) (cs_text n) (onext r))
                  else fst (name_remove (nameTable c) (cs_text n)))\<rparr>)
          else Some c)"

definition unlink :: "bool \<Rightarrow> nat \<Rightarrow> 'z notif_state_scheme \<Rightarrow> 'z notif_state_scheme option" where
  "unlink checked p s = do {
     r \<leftarrow> observers s p;
     c \<leftarrow> notificationCenter s;
     c \<leftarrow> replace_head checked p r c;
     let s = set_center c s;
     s \<leftarrow> set_if (onext_update (\<lambda>_. onext r)) (oprev r) s;
     r \<leftarrow> observers s p;
     s \<leftarrow> set_if (oprev_update (\<lambda>_. oprev r)) (onext r) s;
     Some (s\<lparr>observers := (observers s)(p := None)\<rparr>) }"

partial_function (option) remove_actions :: "nat ptr \<Rightarrow> 'z notif_state_scheme \<Rightarrow> 'z notif_state_scheme option" where
  "remove_actions orec s =
     (case orec of
        None \<Rightarrow> Some s
      | Some p \<Rightarrow> do {
          r \<leftarrow> observers s p;
          s \<leftarrow> unlink False p s;
          remove_actions (nextAction r) s })"

definition WMRemoveNotificationObserver :: "pointer \<Rightarrow> 'z notif_state_scheme \<Rightarrow> 'z notif_state_scheme option" where
  "WMRemoveNotificationObserver obs s = do {
     c \<leftarrow> notificationCenter s;
     s \<leftarrow> remove_actions (address_get (observerTable c) obs) s;
     c \<leftarrow> notificationCenter s;
     Some (set_center (c\<lparr>observerTable := fst (address_remove (observerTable c) obs)\<rparr>) s) }"

text \<open>The walk to the end of the new action list.\<close>

partial_function (option) last_action :: "'z notif_state_scheme \<Rightarrow> nat \<Rightarrow> nat option" where
  "last_action s p = do {
     r \<leftarrow> observers s p;
     (case nextAction r of None \<Rightarrow> Some p | Some q \<Rightarrow> last_action s q) }"

text \<open>\<open>orec->name == name\<close> compares the addresses.\<close>

definition same_address :: "cstring ptr \<Rightarrow> cstring ptr \<Rightarrow> bool" where
  "same_address x y \<longleftrightarrow> map_option cs_addr x = map_option cs_addr y"

partial_function (option) rebuild_actions ::
  "cstring ptr \<Rightarrow> pointer \<Rightarrow> nat ptr \<Rightarrow> nat ptr \<Rightarrow> 'z notif_state_scheme \<Rightarrow> ('z notif_state_scheme \<times> nat ptr) option" where
  "rebuild_actions nm ob orec newList s =
     (case orec of
        None \<Rightarrow> Some (s, newList)
      | Some p \<Rightarrow> do {
          r \<leftarrow> observers s p;
          (if same_address (name r) nm \<and> object r = ob
           then do {
             s \<leftarrow> unlink True p s;
             rebuild_actions nm ob (nextAction r) newList s }
           else do {
             s \<leftarrow> set_orec (nextAction_update (\<lambda>_. NULL)) p s;
             (case newList of
                None \<Rightarrow> rebuild_actions nm ob (nextAction r) (Some p) s
              | Some h \<Rightarrow> do {
                  q \<leftarrow> last_action s h;
                  s \<leftarrow> set_orec (nextAction_update (\<lambda>_. Some p)) q s;
                  rebuild_actions nm ob (nextAction r) newList s }) }) })"

definition WMRemoveNotificationObserverWithName ::
  "pointer \<Rightarrow> cstring ptr \<Rightarrow> pointer \<Rightarrow> 'z notif_state_scheme \<Rightarrow> 'z notif_state_scheme option" where
  "WMRemoveNotificationObserverWithName obs nm ob s = do {
     c \<leftarrow> notificationCenter s;
     let orec = address_get (observerTable c) obs;
     let s = set_center (c\<lparr>observerTable := fst (address_remove (observerTable c) obs)\<rparr>) s;
     r \<leftarrow> rebuild_actions nm ob orec NULL s;
     let s = fst r;
     let newList = snd r;
     (if newList \<noteq> NULL
      then do {
        c \<leftarrow> notificationCenter s;
        Some (set_center (c\<lparr>observerTable := fst (address_insert (observerTable c) obs newList)\<rparr>) s) }
      else Some s) }"

section \<open>Notification queues\<close>

datatype WMPostingStyle = WMPostWhenIdle | WMPostASAP | WMPostNow

definition WNCNone :: "32 word" where "WNCNone = 0"
definition WNCOnName :: "32 word" where "WNCOnName = 1"
definition WNCOnSender :: "32 word" where "WNCOnSender = 2"

definition WMCreateNotificationQueue :: "'z notif_state_scheme \<Rightarrow> 'z notif_state_scheme \<times> nat" where
  "WMCreateNotificationQueue s =
     (s\<lparr>queues := (queues s)(brk s \<mapsto>
          \<lparr>asapQueue = WMCreateArrayWithDestructor 8 True, idleQueue = WMCreateArrayWithDestructor 8 True,
           qnext = notificationQueueList s\<rparr>),
        notificationQueueList := Some (brk s), brk := Suc (brk s)\<rparr>, brk s)"

definition WMGetDefaultNotificationQueue :: "'z notif_state_scheme \<Rightarrow> 'z notif_state_scheme \<times> nat" where
  "WMGetDefaultNotificationQueue s =
     (case notificationQueue s of
        None \<Rightarrow> (let (s, q) = WMCreateNotificationQueue s in (s\<lparr>notificationQueue := Some q\<rparr>, q))
      | Some q \<Rightarrow> (s, q))"

text \<open>
  The matching functions, on notifications with a name; the notifications in a queue are
  allocated, since the queue holds a reference to them.
\<close>

definition matchSender :: "Notification \<Rightarrow> Notification \<Rightarrow> bool" where
  "matchSender item cdata \<longleftrightarrow> nobject cdata = nobject item"

definition matchName :: "Notification \<Rightarrow> Notification \<Rightarrow> bool" where
  "matchName item cdata \<longleftrightarrow> map_option cs_text (nname cdata) = map_option cs_text (nname item)"

definition matchSenderAndName :: "Notification \<Rightarrow> Notification \<Rightarrow> bool" where
  "matchSenderAndName item cdata \<longleftrightarrow> matchSender item cdata \<and> matchName item cdata"

text \<open>The destructor of the queues' arrays.\<close>

fun release_all :: "nat ptr list \<Rightarrow> 'z notif_state_scheme \<Rightarrow> 'z notif_state_scheme option" where
  "release_all [] s = Some s"
| "release_all (x # xs) s = do { n \<leftarrow> x; s \<leftarrow> WMReleaseNotification n s; release_all xs s }"

definition set_queue :: "nat \<Rightarrow> NotificationQueue \<Rightarrow> 'z notif_state_scheme \<Rightarrow> 'z notif_state_scheme" where
  "set_queue q qr s = s\<lparr>queues := (queues s)(q \<mapsto> qr)\<rparr>"

definition match_item :: "(Notification \<Rightarrow> Notification \<Rightarrow> bool) \<Rightarrow> 'z notif_state_scheme \<Rightarrow> Notification \<Rightarrow> nat ptr \<Rightarrow> bool" where
  "match_item m s note x =
     (case x of None \<Rightarrow> False | Some a \<Rightarrow> (case notifs s a of None \<Rightarrow> False | Some item \<Rightarrow> m item note))"

definition dequeue_matching ::
  "(Notification \<Rightarrow> Notification \<Rightarrow> bool) \<Rightarrow> nat \<Rightarrow> nat \<Rightarrow> 'z notif_state_scheme \<Rightarrow> 'z notif_state_scheme option" where
  "dequeue_matching m q n s = do {
     qr \<leftarrow> queues s q;
     note \<leftarrow> notifs s n;
     (a, _, dead) \<leftarrow> WMRemoveFromArrayMatching (Some (asapQueue qr)) (Some (match_item m s note)) (Some n);
     a \<leftarrow> a;
     s \<leftarrow> release_all dead (set_queue q (qr\<lparr>asapQueue := a\<rparr>) s);
     qr \<leftarrow> queues s q;
     note \<leftarrow> notifs s n;
     (a, _, dead) \<leftarrow> WMRemoveFromArrayMatching (Some (idleQueue qr)) (Some (match_item m s note)) (Some n);
     a \<leftarrow> a;
     release_all dead (set_queue q (qr\<lparr>idleQueue := a\<rparr>) s) }"

definition WMDequeueNotificationMatching :: "nat \<Rightarrow> nat \<Rightarrow> 32 word \<Rightarrow> 'z notif_state_scheme \<Rightarrow> 'z notif_state_scheme option" where
  "WMDequeueNotificationMatching q n coalesceMask s =
     (if and coalesceMask WNCOnName \<noteq> 0 \<and> and coalesceMask WNCOnSender \<noteq> 0 then dequeue_matching matchSenderAndName q n s
      else if and coalesceMask WNCOnName \<noteq> 0 then dequeue_matching matchName q n s
      else if and coalesceMask WNCOnSender \<noteq> 0 then dequeue_matching matchSender q n s
      else Some s)"

definition WMEnqueueCoalesceNotification ::
  "'z action \<Rightarrow> nat \<Rightarrow> nat \<Rightarrow> WMPostingStyle \<Rightarrow> 32 word \<Rightarrow> 'z notif_state_scheme \<Rightarrow> 'z notif_state_scheme option" where
  "WMEnqueueCoalesceNotification act q n style coalesceMask s = do {
     s \<leftarrow> (if coalesceMask \<noteq> WNCNone then WMDequeueNotificationMatching q n coalesceMask s else Some s);
     (case style of
        WMPostNow \<Rightarrow> do { s \<leftarrow> WMPostNotification act n s; WMReleaseNotification n s }
      | WMPostASAP \<Rightarrow> do {
          qr \<leftarrow> queues s q;
          a \<leftarrow> WMAddToArray (Some (asapQueue qr)) (Some n);
          a \<leftarrow> a;
          Some (set_queue q (qr\<lparr>asapQueue := a\<rparr>) s) }
      | WMPostWhenIdle \<Rightarrow> do {
          qr \<leftarrow> queues s q;
          a \<leftarrow> WMAddToArray (Some (idleQueue qr)) (Some n);
          a \<leftarrow> a;
          Some (set_queue q (qr\<lparr>idleQueue := a\<rparr>) s) }) }"

definition WMEnqueueNotification ::
  "'z action \<Rightarrow> nat \<Rightarrow> nat \<Rightarrow> WMPostingStyle \<Rightarrow> 'z notif_state_scheme \<Rightarrow> 'z notif_state_scheme option" where
  "WMEnqueueNotification act q n style s =
     WMEnqueueCoalesceNotification act q n style (or WNCOnName WNCOnSender) s"

text \<open>The two loops of the flushing functions, for the ASAP queues (\<open>True\<close>) and the idle ones.\<close>

definition queue_array :: "bool \<Rightarrow> NotificationQueue \<Rightarrow> nat W_Array" where
  "queue_array asap qr = (if asap then asapQueue qr else idleQueue qr)"

definition set_queue_array :: "bool \<Rightarrow> nat W_Array \<Rightarrow> NotificationQueue \<Rightarrow> NotificationQueue" where
  "set_queue_array asap a qr = (if asap then qr\<lparr>asapQueue := a\<rparr> else qr\<lparr>idleQueue := a\<rparr>)"

partial_function (option) flush_queue :: "'z action \<Rightarrow> bool \<Rightarrow> nat \<Rightarrow> 'z notif_state_scheme \<Rightarrow> 'z notif_state_scheme option" where
  "flush_queue act asap q s = do {
     qr \<leftarrow> queues s q;
     (if WMGetArrayItemCount (Some (queue_array asap qr)) \<noteq> 0
      then do {
        x \<leftarrow> WMGetFromArray (Some (queue_array asap qr)) 0;
        n \<leftarrow> x;
        s \<leftarrow> WMPostNotification act n s;
        qr \<leftarrow> queues s q;
        r \<leftarrow> WMDeleteFromArray (Some (queue_array asap qr)) 0;
        a \<leftarrow> fst r;
        s \<leftarrow> release_all (snd (snd r)) (set_queue q (set_queue_array asap a qr) s);
        flush_queue act asap q s }
      else Some s) }"

partial_function (option) flush_queues :: "'z action \<Rightarrow> bool \<Rightarrow> nat ptr \<Rightarrow> 'z notif_state_scheme \<Rightarrow> 'z notif_state_scheme option" where
  "flush_queues act asap queue s =
     (case queue of
        None \<Rightarrow> Some s
      | Some q \<Rightarrow> do {
          s \<leftarrow> flush_queue act asap q s;
          qr \<leftarrow> queues s q;
          flush_queues act asap (qnext qr) s })"

definition W_FlushASAPNotificationQueue :: "'z action \<Rightarrow> 'z notif_state_scheme \<Rightarrow> 'z notif_state_scheme option" where
  "W_FlushASAPNotificationQueue act s = flush_queues act True (notificationQueueList s) s"

definition W_FlushIdleNotificationQueue :: "'z action \<Rightarrow> 'z notif_state_scheme \<Rightarrow> 'z notif_state_scheme option" where
  "W_FlushIdleNotificationQueue act s = flush_queues act False (notificationQueueList s) s"

declare
  tell.simps [code] and
  remove_actions.simps [code] and
  last_action.simps [code] and
  rebuild_actions.simps [code] and
  flush_queue.simps [code] and
  flush_queues.simps [code]

end
