(* ===== verification/WMObservers.thy ===== *)
theory WMObservers
  imports WMNotification
begin

text \<open>
  The notification center and the queues of \<open>WMcore/notification.c\<close> refine a registry: a list of
  registrations and two lists of waiting notifications. The invariant \<open>center_inv\<close> says that the
  records at the addresses \<open>as\<close> (the newest first) form one doubly linked list per name, object and
  the nil list, and one action list per observer; every operation keeps it. \<open>queue_inv\<close> is the
  invariant of the default queue. The last section has the properties, two of them about
  observers that call the module back.
\<close>

section \<open>Linked lists\<close>

text \<open>
  Doubly linked lists and action lists, over the functions that give the \<open>next\<close>, \<open>prev\<close> and
  \<open>nextAction\<close> fields.
\<close>

fun dll :: "(nat \<Rightarrow> nat ptr) \<Rightarrow> (nat \<Rightarrow> nat ptr) \<Rightarrow> nat ptr \<Rightarrow> nat ptr \<Rightarrow> nat list \<Rightarrow> bool" where
  "dll nx pv p q [] \<longleftrightarrow> p = NULL"
| "dll nx pv p q (a # as) \<longleftrightarrow> p = Some a \<and> pv a = q \<and> dll nx pv (nx a) (Some a) as"

fun chain :: "(nat \<Rightarrow> nat ptr) \<Rightarrow> nat ptr \<Rightarrow> nat list \<Rightarrow> bool" where
  "chain na p [] \<longleftrightarrow> p = NULL"
| "chain na p (a # as) \<longleftrightarrow> p = Some a \<and> chain na (na a) as"

lemma dll_frame: "\<forall>a \<in> set as. nx' a = nx a \<and> pv' a = pv a \<Longrightarrow> dll nx' pv' p q as = dll nx pv p q as"
  by (induction as arbitrary: p q) auto

lemma chain_frame: "\<forall>a \<in> set as. na' a = na a \<Longrightarrow> chain na' p as = chain na p as"
  by (induction as arbitrary: p) auto

lemma dll_at:
  "dll nx pv p q (xs @ a # ys) \<Longrightarrow>
   pv a = (if xs = [] then q else Some (last xs)) \<and> nx a = (if ys = [] then NULL else Some (hd ys)) \<and>
   p = Some (hd (xs @ [a]))"
proof (induction xs arbitrary: p q)
  case Nil
  then show ?case by (cases ys) auto
qed auto

definition unlink_next :: "(nat \<Rightarrow> nat ptr) \<Rightarrow> (nat \<Rightarrow> nat ptr) \<Rightarrow> nat \<Rightarrow> nat \<Rightarrow> nat ptr" where
  "unlink_next nx pv a = (case pv a of None \<Rightarrow> nx | Some b \<Rightarrow> nx(b := nx a))"

definition unlink_prev :: "(nat \<Rightarrow> nat ptr) \<Rightarrow> (nat \<Rightarrow> nat ptr) \<Rightarrow> nat \<Rightarrow> nat \<Rightarrow> nat ptr" where
  "unlink_prev nx pv a = (case nx a of None \<Rightarrow> pv | Some b \<Rightarrow> pv(b := pv a))"

lemma dll_unlink:
  "dll nx pv p q (xs @ a # ys) \<Longrightarrow> distinct (xs @ a # ys) \<Longrightarrow> q \<notin> Some ` set (xs @ a # ys) \<Longrightarrow>
   dll (unlink_next nx pv a) (unlink_prev nx pv a) (if p = Some a then nx a else p) q (xs @ ys)"
proof (induction xs arbitrary: p q)
  case Nil
  then have n: "nx a = (if ys = [] then NULL else Some (hd ys))" "pv a = q" "dll nx pv (nx a) (Some a) ys" "p = Some a"
    by (cases ys; auto)+
  show ?case
  proof (cases ys)
    case (Cons y zs)
    have "dll (unlink_next nx pv a) (unlink_prev nx pv a) (nx y) (Some y) zs = dll nx pv (nx y) (Some y) zs"
      by (rule dll_frame) (use Nil.prems n Cons in \<open>auto simp: unlink_next_def unlink_prev_def split: option.splits\<close>)
    moreover have "unlink_next nx pv a y = nx y"
      using Nil.prems n(2) Cons by (auto simp: unlink_next_def split: option.splits)
    moreover have "unlink_prev nx pv a y = q" using n(1,2) Cons by (simp add: unlink_prev_def)
    ultimately show ?thesis using n Cons by simp
  qed (use n in auto)
next
  case (Cons x xs)
  have d: "p = Some x" "pv x = q" "dll nx pv (nx x) (Some x) (xs @ a # ys)" using Cons.prems(1) by auto
  have i: "dll (unlink_next nx pv a) (unlink_prev nx pv a) (if nx x = Some a then nx a else nx x) (Some x) (xs @ ys)"
    by (rule Cons.IH [OF d(3)]) (use Cons.prems(2) in auto)
  note at = dll_at [OF d(3)]
  have "unlink_next nx pv a x = (if nx x = Some a then nx a else nx x)"
  proof (cases "xs = []")
    case True
    then show ?thesis using at by (auto simp: unlink_next_def)
  next
    case False
    have "last xs \<noteq> x" "hd xs \<noteq> a" using Cons.prems(2) False by (auto dest: last_in_set hd_in_set)
    then show ?thesis using at False by (auto simp: unlink_next_def hd_append)
  qed
  moreover have "unlink_prev nx pv a x = q"
  proof (cases ys)
    case (Cons y zs)
    then show ?thesis using at d(2) Cons.prems(2) \<open>distinct ((x # xs) @ a # ys)\<close> by (auto simp: unlink_prev_def)
  qed (use at d(2) in \<open>auto simp: unlink_prev_def\<close>)
  ultimately show ?case using i d(1,2) Cons.prems(2) by auto
qed

section \<open>The lists of the center\<close>

definition orec :: "notif_state \<Rightarrow> nat \<Rightarrow> NotificationObserver" where
  "orec s a = the (observers s a)"

definition nx :: "notif_state \<Rightarrow> nat \<Rightarrow> nat ptr" where "nx s a = onext (orec s a)"
definition pv :: "notif_state \<Rightarrow> nat \<Rightarrow> nat ptr" where "pv s a = oprev (orec s a)"
definition na :: "notif_state \<Rightarrow> nat \<Rightarrow> nat ptr" where "na s a = nextAction (orec s a)"

text \<open>What a record registers, and the list it belongs to.\<close>

type_synonym registration = "nat ptr \<times> pointer \<times> cstring ptr \<times> pointer"

definition registration :: "NotificationObserver \<Rightarrow> registration" where
  "registration r = (observerAction r, observer r, name r, object r)"

datatype topic = Everything | FromObject pointer | Named string

fun topic_of :: "registration \<Rightarrow> topic" where
  "topic_of (act, obs, nm, ob) =
     (case nm of Some n \<Rightarrow> Named (cs_text n) | None \<Rightarrow> if ob = 0 then Everything else FromObject ob)"

fun reg_observer :: "registration \<Rightarrow> pointer" where
  "reg_observer (act, obs, nm, ob) = obs"

definition reg :: "notif_state \<Rightarrow> nat \<Rightarrow> registration" where
  "reg s a = registration (orec s a)"

fun head :: "NotificationCenter \<Rightarrow> topic \<Rightarrow> nat ptr" where
  "head c Everything = nilList c"
| "head c (FromObject ob) = address_get (objectTable c) ob"
| "head c (Named n) = name_get (nameTable c) n"

definition tables_ok :: "NotificationCenter \<Rightarrow> bool" where
  "tables_ok c \<longleftrightarrow>
     ht_wf WMStringPointerHashCallbacks (\<lambda>_. True) (nameTable c) \<and>
     ht_wf WMIntHashCallbacks (\<lambda>_. True) (objectTable c) \<and>
     ht_wf WMIntHashCallbacks (\<lambda>_. True) (observerTable c)"

definition lists_ok :: "notif_state \<Rightarrow> NotificationCenter \<Rightarrow> nat list \<Rightarrow> bool" where
  "lists_ok s c as \<longleftrightarrow>
     distinct as \<and> (\<forall>a \<in> set as. observers s a \<noteq> None) \<and> tables_ok c \<and>
     (\<forall>k. dll (nx s) (pv s) (head c k) NULL [a \<leftarrow> as. topic_of (reg s a) = k])"

definition chains_ok :: "notif_state \<Rightarrow> NotificationCenter \<Rightarrow> nat list \<Rightarrow> bool" where
  "chains_ok s c as \<longleftrightarrow>
     (\<forall>obs. chain (na s) (address_get (observerTable c) obs) [a \<leftarrow> as. reg_observer (reg s a) = obs])"

text \<open>Writing the head of a list.\<close>

fun set_head_of :: "topic \<Rightarrow> nat ptr \<Rightarrow> NotificationCenter \<Rightarrow> NotificationCenter" where
  "set_head_of Everything p c = c\<lparr>nilList := p\<rparr>"
| "set_head_of (FromObject ob) p c = c\<lparr>objectTable := address_table.set_head (objectTable c) ob p\<rparr>"
| "set_head_of (Named n) p c = c\<lparr>nameTable := name_table.set_head (nameTable c) n p\<rparr>"

lemma head_set_head_of:
  "tables_ok c \<Longrightarrow> head (set_head_of k p c) k' = (if k' = k then p else head c k')"
  by (cases k; cases k') (auto simp: tables_ok_def address_table.set_head_lookup name_table.set_head_lookup)

lemma tables_ok_set_head_of: "tables_ok c \<Longrightarrow> tables_ok (set_head_of k p c)"
  by (cases k) (auto simp: tables_ok_def address_table.set_head_ok name_table.set_head_ok)

lemma observerTable_set_head_of [simp]: "observerTable (set_head_of k p c) = observerTable c"
  by (cases k) auto

lemma replace_head_eq:
  "replace_head checked p r c =
     (if head c (topic_of (registration r)) = Some p
      then if checked \<and> topic_of (registration r) \<noteq> Everything \<and> oprev r \<noteq> NULL then None
           else Some (set_head_of (topic_of (registration r)) (onext r) c)
      else Some c)"
  by (auto simp: replace_head_def registration_def address_table.set_head_def name_table.set_head_def split: option.splits)

section \<open>Unlinking a record\<close>

definition upd_orec :: "(NotificationObserver \<Rightarrow> NotificationObserver) \<Rightarrow> nat ptr \<Rightarrow> notif_state \<Rightarrow> notif_state" where
  "upd_orec f q s =
     (case q of None \<Rightarrow> s | Some b \<Rightarrow> s\<lparr>observers := (observers s)(b \<mapsto> f (orec s b))\<rparr>)"

lemma set_if_upd: "(\<forall>b. q = Some b \<longrightarrow> observers s b \<noteq> None) \<Longrightarrow> set_if f q s = Some (upd_orec f q s)"
  by (auto simp: set_if_def set_orec_def upd_orec_def orec_def split: option.splits)

lemma orec_set_center [simp]: "orec (set_center c s) = orec s"
  by (simp add: orec_def set_center_def fun_eq_iff)

lemma orec_freed: "b \<noteq> a \<Longrightarrow> orec (s\<lparr>observers := (observers s)(a := None)\<rparr>) b = orec s b"
  by (simp add: orec_def)

lemma orec_upd: "orec (upd_orec f q s) a = (if q = Some a then f (orec s a) else orec s a)"
  by (auto simp: upd_orec_def orec_def split: option.splits)

lemma upd_orec_same [simp]:
  "notificationCenter (upd_orec f q s) = notificationCenter s" "notifs (upd_orec f q s) = notifs s"
  "queues (upd_orec f q s) = queues s" "brk (upd_orec f q s) = brk s" "told (upd_orec f q s) = told s"
  "notificationQueueList (upd_orec f q s) = notificationQueueList s"
  "notificationQueue (upd_orec f q s) = notificationQueue s"
  by (auto simp: upd_orec_def split: option.splits)

lemma observers_upd_orec: "observers s b \<noteq> None \<Longrightarrow> observers (upd_orec f q s) b \<noteq> None"
  by (auto simp: upd_orec_def split: option.splits)

lemma observers_upd_orec_None:
  "(\<forall>b. q = Some b \<longrightarrow> observers s b \<noteq> None) \<Longrightarrow> (observers (upd_orec f q s) a = None) = (observers s a = None)"
  by (auto simp: upd_orec_def split: option.splits)

text \<open>Nothing but the observer records and the center differs.\<close>

definition same_rest :: "notif_state \<Rightarrow> notif_state \<Rightarrow> bool" where
  "same_rest s s' \<longleftrightarrow> notifs s' = notifs s \<and> queues s' = queues s \<and> told s' = told s \<and>
     notificationQueueList s' = notificationQueueList s \<and> notificationQueue s' = notificationQueue s"

lemma same_rest_trans: "same_rest a b \<Longrightarrow> same_rest b c \<Longrightarrow> same_rest a c"
  by (simp add: same_rest_def)

lemma unlink_ok:
  assumes c: "notificationCenter s = Some c" and ok: "lists_ok s c as" and a: "a \<in> set as"
  shows "\<exists>s' c'. unlink checked a s = Some s' \<and> notificationCenter s' = Some c' \<and>
    lists_ok s' c' (filter ((\<noteq>) a) as) \<and> observerTable c' = observerTable c \<and>
    (\<forall>b. b \<noteq> a \<longrightarrow> reg s' b = reg s b \<and> na s' b = na s b) \<and> same_rest s s' \<and> brk s' = brk s \<and>
    (\<forall>b. observers s b = None \<longrightarrow> observers s' b = None)"
proof -
  let ?k = "topic_of (reg s a)" and ?L = "\<lambda>k. [b \<leftarrow> as. topic_of (reg s b) = k]"
  obtain r where r: "observers s a = Some r" using ok a by (auto simp: lists_ok_def)
  have rr: "orec s a = r" "registration r = reg s a" using r by (simp_all add: orec_def reg_def)
  have dl: "dll (nx s) (pv s) (head c k) NULL (?L k)" for k using ok by (simp add: lists_ok_def)
  have di: "distinct (?L k)" for k using ok by (simp add: lists_ok_def)
  obtain xs ys where xy: "?L ?k = xs @ a # ys" 
    using split_list [of a "?L ?k"] a by auto
  have sub: "set xs \<subseteq> set as" "set ys \<subseteq> set as" using arg_cong [OF xy, of set] by auto
  note at = dll_at [OF dl [of ?k, unfolded xy]]
  have f: "oprev r = pv s a" "onext r = nx s a" by (simp_all add: pv_def nx_def rr)
  have pn: "oprev r = Some b \<Longrightarrow> b \<in> set as \<and> b \<noteq> a" "onext r = Some b \<Longrightarrow> b \<in> set as \<and> b \<noteq> a" for b
    using at f sub di [of ?k] unfolding xy by (auto split: if_splits dest: last_in_set hd_in_set)
  let ?h = "head c ?k = Some a"
  have "?h \<longrightarrow> oprev r = NULL" using at f di [of ?k] unfolding xy by (cases xs) auto
  then have rh: "replace_head checked a r c = Some (if ?h then set_head_of ?k (onext r) c else c)"
    by (simp add: replace_head_eq rr)
  define c' where "c' = (if ?h then set_head_of ?k (onext r) c else c)"
  define s1 where "s1 = upd_orec (onext_update (\<lambda>_. onext r)) (oprev r) (set_center c' s)"
  define s2 where "s2 = upd_orec (oprev_update (\<lambda>_. oprev r)) (onext r) s1"
  define s' where "s' = s2\<lparr>observers := (observers s2)(a := None)\<rparr>"
  have al: "\<forall>b \<in> set as. observers s b \<noteq> None" using ok by (simp add: lists_ok_def)
  have e1: "set_if (onext_update (\<lambda>_. onext r)) (oprev r) (set_center c' s) = Some s1"
    unfolding s1_def by (rule set_if_upd) (use pn(1) al in \<open>auto simp: set_center_def\<close>)
  have al1: "\<forall>b \<in> set as. observers s1 b \<noteq> None"
  proof
    fix b assume "b \<in> set as"
    then have "observers (set_center c' s) b \<noteq> None" using al by (simp add: set_center_def)
    then show "observers s1 b \<noteq> None" unfolding s1_def by (rule observers_upd_orec)
  qed
  have o1: "orec s1 a = r" using pn(1) [of a] rr(1) by (auto simp: s1_def orec_upd)
  then have r1: "observers s1 a = Some r" using al1 a by (auto simp: orec_def)
  have e2: "set_if (oprev_update (\<lambda>_. oprev r)) (onext r) s1 = Some s2"
    unfolding s2_def by (rule set_if_upd) (use pn(2) al1 in auto)
  have u: "unlink checked a s = Some s'"
    using r c rh e1 r1 e2 by (simp add: unlink_def c'_def [symmetric] s'_def)
  have os: "orec s' b = (if onext r = Some b then oprev_update (\<lambda>_. oprev r) else id)
      ((if oprev r = Some b then onext_update (\<lambda>_. onext r) else id) (orec s b))" if "b \<noteq> a" for b
    using that by (auto simp: s'_def s2_def s1_def orec_upd orec_freed)
  have keep: "reg s' b = reg s b" "na s' b = na s b" if "b \<noteq> a" for b
    using os [OF that] by (auto simp: reg_def na_def registration_def)
  have links: "nx s' b = unlink_next (nx s) (pv s) a b" "pv s' b = unlink_prev (nx s) (pv s) a b" if "b \<noteq> a" for b
    using os [OF that] by (auto simp: unlink_next_def unlink_prev_def f nx_def pv_def split: option.splits)
  have tc: "tables_ok c" using ok by (simp add: lists_ok_def)
  have hc: "head c' k = (if k = ?k \<and> ?h then nx s a else head c k)" for k
    using head_set_head_of [OF tc] by (simp add: c'_def f)
  have "dll (nx s') (pv s') (head c' k) NULL [b \<leftarrow> filter ((\<noteq>) a) as. topic_of (reg s' b) = k]" for k
  proof -
    have fe: "[b \<leftarrow> filter ((\<noteq>) a) as. topic_of (reg s' b) = k] = filter ((\<noteq>) a) (?L k)"
      using keep(1) by (auto simp: filter_filter intro!: filter_cong)
    show ?thesis
    proof (cases "k = ?k")
      case True
      have "filter ((\<noteq>) a) (xs @ a # ys) = xs @ ys"
      proof -
        have "\<forall>b \<in> set xs. a \<noteq> b" "\<forall>b \<in> set ys. a \<noteq> b" using di [of ?k] unfolding xy by auto
        then have "filter ((\<noteq>) a) xs = xs \<and> filter ((\<noteq>) a) ys = ys" by (intro conjI filter_True)
        then show ?thesis by simp
      qed
      moreover have "dll (unlink_next (nx s) (pv s) a) (unlink_prev (nx s) (pv s) a)
          (if head c ?k = Some a then nx s a else head c ?k) NULL (xs @ ys)"
        using dll_unlink [OF dl [of ?k, unfolded xy]] di [of ?k] unfolding xy by auto
      moreover have "\<forall>b \<in> set (xs @ ys). b \<noteq> a" using di [of ?k] unfolding xy by auto
      then have "dll (nx s') (pv s') p NULL (xs @ ys) =
          dll (unlink_next (nx s) (pv s) a) (unlink_prev (nx s) (pv s) a) p NULL (xs @ ys)" for p
        using links by (intro dll_frame) blast
      ultimately show ?thesis unfolding fe unfolding True xy using hc [of ?k] by simp
    next
      case False
      have "a \<notin> set (?L k)" using False by auto
      then have "filter ((\<noteq>) a) (?L k) = ?L k" by (intro filter_True) auto
      moreover have "nx s' b = nx s b \<and> pv s' b = pv s b" if b: "b \<in> set (?L k)" for b
      proof -
        have "topic_of (reg s b) = k" "b \<noteq> a" using b False by auto
        then have "b \<notin> set xs \<and> b \<notin> set ys" using arg_cong [OF xy, of set] False by auto
        then have "oprev r \<noteq> Some b" "onext r \<noteq> Some b"
          using at f by (auto split: if_splits dest: last_in_set hd_in_set)
        then show ?thesis using links [OF \<open>b \<noteq> a\<close>] f by (auto simp: unlink_next_def unlink_prev_def split: option.splits)
      qed
      ultimately show ?thesis
        unfolding fe using dll_frame [of "?L k" "nx s'" "nx s" "pv s'" "pv s"] dl [of k] hc [of k] False by simp
    qed
  qed
  moreover have "\<forall>b \<in> set as. observers s2 b \<noteq> None" unfolding s2_def using al1 observers_upd_orec by blast
  then have "\<forall>b \<in> set (filter ((\<noteq>) a) as). observers s' b \<noteq> None" by (simp add: s'_def)
  moreover have "tables_ok c'" using tc by (simp add: c'_def tables_ok_set_head_of)
  ultimately have "lists_ok s' c' (filter ((\<noteq>) a) as)" using ok by (simp add: lists_ok_def)
  moreover have "notificationCenter s' = Some c'" by (simp add: s'_def s2_def s1_def set_center_def)
  moreover have "same_rest s s'" "brk s' = brk s"
    by (simp_all add: same_rest_def s'_def s2_def s1_def set_center_def)
  moreover have "observerTable c' = observerTable c" by (simp add: c'_def)
  moreover have "observers s b = None \<longrightarrow> observers s' b = None" for b
    using pn al al1 by (auto simp: s'_def s2_def s1_def set_center_def upd_orec_def split: option.splits)
  ultimately show ?thesis using u keep by blast
qed

lemma remove_actions_ok:
  "notificationCenter s = Some c \<Longrightarrow> lists_ok s c as \<Longrightarrow> chain (na s) p xs \<Longrightarrow> distinct xs \<Longrightarrow> set xs \<subseteq> set as \<Longrightarrow>
   \<exists>s' c'. remove_actions p s = Some s' \<and> notificationCenter s' = Some c' \<and>
     lists_ok s' c' [a \<leftarrow> as. a \<notin> set xs] \<and> observerTable c' = observerTable c \<and>
     (\<forall>b. b \<notin> set xs \<longrightarrow> reg s' b = reg s b \<and> na s' b = na s b) \<and> same_rest s s' \<and> brk s' = brk s \<and>
     (\<forall>b. observers s b = None \<longrightarrow> observers s' b = None)"
proof (induction xs arbitrary: s c as p)
  case Nil
  then show ?case by (subst remove_actions.simps) (simp add: same_rest_def)
next
  case (Cons x xs)
  have x: "p = Some x" "chain (na s) (na s x) xs" "x \<in> set as" using Cons.prems by auto
  obtain r where r: "observers s x = Some r" using Cons.prems(2) x(3) by (auto simp: lists_ok_def)
  have nr: "nextAction r = na s x" by (simp add: na_def orec_def r)
  obtain s1 c1 where s1: "unlink False x s = Some s1" "notificationCenter s1 = Some c1"
    "lists_ok s1 c1 (filter ((\<noteq>) x) as)" "observerTable c1 = observerTable c"
    "\<forall>b. b \<noteq> x \<longrightarrow> reg s1 b = reg s b \<and> na s1 b = na s b" "same_rest s s1" "brk s1 = brk s"
    "\<forall>b. observers s b = None \<longrightarrow> observers s1 b = None"
    using unlink_ok [OF Cons.prems(1,2) x(3)] by blast
  have "\<forall>a \<in> set xs. na s1 a = na s a" using Cons.prems(4) s1(5) by auto
  then have "chain (na s1) (na s x) xs" using x(2) chain_frame by blast
  moreover have "set xs \<subseteq> set (filter ((\<noteq>) x) as)" using Cons.prems(4,5) by auto
  ultimately obtain s' c' where s': "remove_actions (na s x) s1 = Some s'" "notificationCenter s' = Some c'"
     "lists_ok s' c' [a \<leftarrow> filter ((\<noteq>) x) as. a \<notin> set xs]" "observerTable c' = observerTable c1"
     "\<forall>b. b \<notin> set xs \<longrightarrow> reg s' b = reg s1 b \<and> na s' b = na s1 b" "same_rest s1 s'" "brk s' = brk s1"
     "\<forall>b. observers s1 b = None \<longrightarrow> observers s' b = None"
    using Cons.IH [OF s1(2,3)] Cons.prems(4) by fastforce
  have "remove_actions p s = Some s'"
    using x(1) r s1(1) s'(1) by (subst remove_actions.simps) (simp add: nr)
  moreover have "[a \<leftarrow> filter ((\<noteq>) x) as. a \<notin> set xs] = [a \<leftarrow> as. a \<notin> set (x # xs)]"
    by (auto simp: filter_filter intro!: filter_cong)
  ultimately show ?case using s' s1 same_rest_trans [OF s1(6) s'(6)] by auto
qed

text \<open>The whole invariant of the center, for the records at the addresses \<open>as\<close>, the newest first.\<close>

definition center_inv :: "notif_state \<Rightarrow> nat list \<Rightarrow> bool" where
  "center_inv s as \<longleftrightarrow>
     (\<exists>c. notificationCenter s = Some c \<and> lists_ok s c as \<and> chains_ok s c as) \<and>
     (\<forall>a \<ge> brk s. observers s a = None)"

lemma lists_ok_set_table:
  assumes "lists_ok s c as" and "ht_wf WMIntHashCallbacks (\<lambda>_. True) t"
  shows "lists_ok (set_center (c\<lparr>observerTable := t\<rparr>) s) (c\<lparr>observerTable := t\<rparr>) as"
proof -
  have "head (c\<lparr>observerTable := t\<rparr>) k = head c k" for k by (cases k) auto
  moreover have "nx (set_center c' s) = nx s" "pv (set_center c' s) = pv s" "reg (set_center c' s) = reg s" for c'
    by (simp_all add: nx_def pv_def reg_def fun_eq_iff)
  moreover have "observers (set_center c' s) = observers s" for c' by (simp add: set_center_def)
  ultimately show ?thesis using assms by (simp add: lists_ok_def tables_ok_def)
qed

lemma state_set_center [simp]:
  "reg (set_center c s) = reg s" "na (set_center c s) = na s" "nx (set_center c s) = nx s" "pv (set_center c s) = pv s"
  "observers (set_center c s) = observers s" "brk (set_center c s) = brk s"
  "notificationCenter (set_center c s) = Some c" "told (set_center c s) = told s"
  "same_rest s (set_center c s)" "same_rest (set_center c s) s"
  by (simp_all add: reg_def na_def nx_def pv_def fun_eq_iff) (simp_all add: set_center_def same_rest_def)

lemma table_wf: "tables_ok c \<Longrightarrow> ht_wf WMIntHashCallbacks (\<lambda>_. True) (observerTable c)"
  by (simp add: tables_ok_def)

lemma WMRemoveNotificationObserver_ok:
  assumes inv: "center_inv s as"
  shows "\<exists>s'. WMRemoveNotificationObserver obs s = Some s' \<and>
    center_inv s' [a \<leftarrow> as. reg_observer (reg s a) \<noteq> obs] \<and>
    (\<forall>a \<in> set as. reg_observer (reg s a) \<noteq> obs \<longrightarrow> reg s' a = reg s a) \<and> same_rest s s' \<and> brk s' = brk s"
proof -
  obtain c where c: "notificationCenter s = Some c" "lists_ok s c as" "chains_ok s c as"
    and free: "\<forall>a \<ge> brk s. observers s a = None" using inv by (auto simp: center_inv_def)
  let ?xs = "[a \<leftarrow> as. reg_observer (reg s a) = obs]" and ?as = "[a \<leftarrow> as. reg_observer (reg s a) \<noteq> obs]"
  have ch: "chain (na s) (address_get (observerTable c) obs) ?xs" using c(3) by (simp add: chains_ok_def)
  have d: "distinct as" using c(2) by (simp add: lists_ok_def)
  obtain s1 c1 where s1: "remove_actions (address_get (observerTable c) obs) s = Some s1"
    "notificationCenter s1 = Some c1" "lists_ok s1 c1 [a \<leftarrow> as. a \<notin> set ?xs]" "observerTable c1 = observerTable c"
    "\<forall>b. b \<notin> set ?xs \<longrightarrow> reg s1 b = reg s b \<and> na s1 b = na s b" "same_rest s s1" "brk s1 = brk s"
    "\<forall>b. observers s b = None \<longrightarrow> observers s1 b = None"
    using remove_actions_ok [OF c(1,2) ch] d by auto
  have as: "[a \<leftarrow> as. a \<notin> set ?xs] = ?as" by (auto intro!: filter_cong)
  have t1: "tables_ok c1" using s1(3) by (simp add: lists_ok_def)
  let ?t = "fst (address_remove (observerTable c1) obs)"
  let ?c = "c1\<lparr>observerTable := ?t\<rparr>" and ?s = "set_center (c1\<lparr>observerTable := ?t\<rparr>) s1"
  have l: "lists_ok ?s ?c ?as"
    using lists_ok_set_table [OF s1(3) address_table.remove_ok [OF table_wf [OF t1]]] as by simp
  have "chain (na s1) (address_get ?t o') [a \<leftarrow> ?as. reg_observer (reg s1 a) = o']" for o'
  proof -
    have g: "address_get ?t o' = (if o' = obs then NULL else address_get (observerTable c) o')"
      using address_table.remove_lookup [OF table_wf [OF t1]] s1(4) by auto
    have r: "\<forall>a \<in> set ?as. reg s1 a = reg s a \<and> na s1 a = na s a" using s1(5) by auto
    show ?thesis
    proof (cases "o' = obs")
      case True
      then have "[a \<leftarrow> ?as. reg_observer (reg s1 a) = o'] = []" using r by (auto simp: filter_empty_conv)
      then show ?thesis using g True by simp
    next
      case False
      then have "[a \<leftarrow> ?as. reg_observer (reg s1 a) = o'] = [a \<leftarrow> as. reg_observer (reg s a) = o']"
        using r by (auto simp: filter_filter intro!: filter_cong)
      moreover have "chain (na s1) p [a \<leftarrow> as. reg_observer (reg s a) = o'] =
          chain (na s) p [a \<leftarrow> as. reg_observer (reg s a) = o']" for p
        by (rule chain_frame) (use r False in auto)
      ultimately show ?thesis using g False c(3) by (simp add: chains_ok_def)
    qed
  qed
  then have "chains_ok ?s ?c ?as" by (simp add: chains_ok_def)
  then have "center_inv ?s ?as" using l free s1(7,8) by (simp add: center_inv_def)
  moreover have "WMRemoveNotificationObserver obs s = Some ?s"
    using c(1) s1(1,2) by (simp add: WMRemoveNotificationObserver_def)
  moreover have "same_rest s ?s" by (rule same_rest_trans [OF s1(6)]) simp
  ultimately show ?thesis using s1(5,7) by (intro exI [of _ ?s]) auto
qed

section \<open>Adding a record\<close>

lemma dll_push:
  assumes "dll f g p NULL as" and "a \<notin> set as" and "distinct as" and "f' a = p" and "g' a = NULL"
    and "\<forall>b \<in> set as. f' b = f b \<and> g' b = (if p = Some b then Some a else g b)"
  shows "dll f' g' (Some a) NULL (a # as)"
proof (cases as)
  case (Cons b bs)
  have p: "p = Some b" "dll f g (f b) (Some b) bs" using assms(1) Cons by auto
  have "\<forall>x \<in> set bs. f' x = f x \<and> g' x = g x" using assms(3,6) Cons p(1) by auto
  then have "dll f' g' (f b) (Some b) bs" using p(2) dll_frame by blast
  then show ?thesis using assms Cons p by auto
qed (use assms in auto)

lemma WMAddNotificationObserver_eq:
  assumes c: "notificationCenter s = Some c" and t: "tables_ok c"
  shows "WMAddNotificationObserver act obs nm ob s =
     (let p = brk s; k = topic_of (act, obs, nm, ob);
          s1 = s\<lparr>observers := (observers s)(p \<mapsto>
                 \<lparr>observerAction = act, observer = obs, name = nm, object = ob, oprev = NULL, onext = NULL,
                  nextAction = address_get (observerTable c) obs\<rparr>), brk := Suc p\<rparr>;
          c1 = c\<lparr>observerTable := address_table.set_head (observerTable c) obs (Some p)\<rparr>
      in do {
        s \<leftarrow> set_orec (onext_update (\<lambda>_. head c k)) p s1;
        s \<leftarrow> set_if (oprev_update (\<lambda>_. Some p)) (head c k) s;
        Some (set_center (set_head_of k (Some p) c1) s) })"
proof -
  have "fst (snd (address_insert (observerTable c) obs (Some p))) = address_get (observerTable c) obs" for p
    using address_table.insert_old [OF table_wf [OF t]] by simp
  moreover have "fst (snd (address_insert (objectTable c) ob (Some p))) = address_get (objectTable c) ob" for p
    using address_table.insert_old [of "objectTable c"] t by (simp add: tables_ok_def)
  moreover have "fst (snd (name_insert (nameTable c) n (Some p))) = name_get (nameTable c) n" for n p
    using name_table.insert_old [of "nameTable c"] t by (simp add: tables_ok_def)
  ultimately show ?thesis
    unfolding WMAddNotificationObserver_def Let_def case_prod_unfold
    by (simp add: c address_table.set_head_def name_table.set_head_def split: option.split)
qed

lemma set_orec_same: "observers s p = Some r \<Longrightarrow> set_orec f p s = Some (upd_orec f (Some p) s)"
  by (simp add: set_orec_def upd_orec_def orec_def)

lemma WMAddNotificationObserver_ok:
  assumes inv: "center_inv s as"
  shows "\<exists>s'. WMAddNotificationObserver act obs nm ob s = Some s' \<and> center_inv s' (brk s # as) \<and>
    reg s' (brk s) = (act, obs, nm, ob) \<and> (\<forall>a \<in> set as. reg s' a = reg s a) \<and> same_rest s s' \<and> brk s' = Suc (brk s)"
proof -
  obtain c where c: "notificationCenter s = Some c" "lists_ok s c as" "chains_ok s c as"
    and free: "\<forall>a \<ge> brk s. observers s a = None" using inv by (auto simp: center_inv_def)
  have t: "tables_ok c" and al: "\<forall>a \<in> set as. observers s a \<noteq> None" and di: "distinct as"
    and dl: "\<And>k. dll (nx s) (pv s) (head c k) NULL [a \<leftarrow> as. topic_of (reg s a) = k]"
    using c(2) by (simp_all add: lists_ok_def)
  define p where "p = brk s"
  define k where "k = topic_of (act, obs, nm, ob)"
  have new: "p \<notin> set as" using al free p_def by auto
  define s1 where "s1 = s\<lparr>observers := (observers s)(p \<mapsto>
                 \<lparr>observerAction = act, observer = obs, name = nm, object = ob, oprev = NULL, onext = NULL,
                  nextAction = address_get (observerTable c) obs\<rparr>), brk := Suc p\<rparr>"
  define c1 where "c1 = c\<lparr>observerTable := address_table.set_head (observerTable c) obs (Some p)\<rparr>"
  define s2 where "s2 = upd_orec (onext_update (\<lambda>_. head c k)) (Some p) s1"
  define s3 where "s3 = upd_orec (oprev_update (\<lambda>_. Some p)) (head c k) s2"
  define c' where "c' = set_head_of k (Some p) c1"
  have hin: "head c k = Some b \<Longrightarrow> b \<in> set as \<and> topic_of (reg s b) = k" for b
    using dl [of k] by (cases "[a \<leftarrow> as. topic_of (reg s a) = k]") (auto simp: filter_eq_Cons_iff)
  have e1: "set_orec (onext_update (\<lambda>_. head c k)) p s1 = Some s2"
    unfolding s2_def by (rule set_orec_same) (simp add: s1_def)
  have al2: "\<forall>a \<in> set as. observers s2 a \<noteq> None" using al by (auto simp: s2_def upd_orec_def s1_def)
  have e2: "set_if (oprev_update (\<lambda>_. Some p)) (head c k) s2 = Some s3"
    unfolding s3_def by (rule set_if_upd) (use al2 hin in blast)
  have run: "WMAddNotificationObserver act obs nm ob s = Some (set_center c' s3)"
    unfolding WMAddNotificationObserver_eq [OF c(1) t] Let_def
    using e1 e2 by (simp add: k_def p_def s1_def c1_def c'_def)
  have orec1: "orec s1 a = (if a = p then \<lparr>observerAction = act, observer = obs, name = nm, object = ob, oprev = NULL,
      onext = NULL, nextAction = address_get (observerTable c) obs\<rparr> else orec s a)" for a
    by (simp add: s1_def orec_def)
  have hp: "head c k \<noteq> Some p" using hin new by auto
  have os: "reg s3 a = (if a = p then (act, obs, nm, ob) else reg s a)"
     "na s3 a = (if a = p then address_get (observerTable c) obs else na s a)"
     "nx s3 a = (if a = p then head c k else nx s a)"
     "pv s3 a = (if a = p then NULL else if head c k = Some a then Some p else pv s a)" for a
    using hp by (auto simp: s3_def s2_def orec_upd orec1 reg_def na_def nx_def pv_def registration_def)
  have tp: "topic_of (reg s3 p) = k" by (simp only: os k_def simp_thms if_True)
  have h1: "head c1 k' = head c k'" for k' by (cases k') (simp_all add: c1_def)
  have t1: "tables_ok c1"
    using t by (simp add: c1_def tables_ok_def address_table.set_head_ok)
  have h: "head c' k' = (if k' = k then Some p else head c k')" for k'
    using head_set_head_of [OF t1] by (simp add: c'_def h1)
  have same: "[a \<leftarrow> as. f (reg s3 a) = v] = [a \<leftarrow> as. f (reg s a) = v]" for f :: "registration \<Rightarrow> 'z" and v
    using new by (auto simp: os intro!: filter_cong)
  have "dll (nx s3) (pv s3) (head c' k') NULL [a \<leftarrow> p # as. topic_of (reg s3 a) = k']" for k'
  proof (cases "k' = k")
    case True
    have "dll (nx s3) (pv s3) (Some p) NULL (p # [a \<leftarrow> as. topic_of (reg s a) = k])"
      by (rule dll_push [OF dl]) (use new di in \<open>auto simp: os\<close>)
    then show ?thesis using True h by (simp add: tp same)
  next
    case False
    have "\<forall>a \<in> set [a \<leftarrow> as. topic_of (reg s a) = k']. nx s3 a = nx s a \<and> pv s3 a = pv s a"
      using new hin False by (auto simp: os)
    then have "dll (nx s3) (pv s3) (head c k') NULL [a \<leftarrow> as. topic_of (reg s a) = k']"
      using dl dll_frame by blast
    then show ?thesis using False h by (simp add: tp same)
  qed
  then have l: "lists_ok (set_center c' s3) c' (p # as)"
    using di new t1 al2 hin by (auto simp: lists_ok_def c'_def tables_ok_set_head_of observers_upd_orec s3_def s2_def s1_def upd_orec_def split: option.splits)
  have "chain (na s3) (address_get (observerTable c') o') [a \<leftarrow> p # as. reg_observer (reg s3 a) = o']" for o'
  proof -
    have "\<forall>a \<in> set as. na s3 a = na s a" using new by (auto simp: os)
    then have "chain (na s3) (address_get (observerTable c) o') [a \<leftarrow> as. reg_observer (reg s a) = o']"
      using c(3) chain_frame [of "[a \<leftarrow> as. reg_observer (reg s a) = o']" "na s3" "na s"] by (auto simp: chains_ok_def)
    moreover have "reg_observer (reg s3 p) = obs" by (simp add: os)
    ultimately show ?thesis
      using address_table.set_head_lookup [OF table_wf [OF t]] os(2) [of p] by (auto simp: c'_def c1_def same)
  qed
  then have ch: "chains_ok (set_center c' s3) c' (p # as)" by (simp add: chains_ok_def)
  have "brk (set_center c' s3) = Suc p" by (simp add: s3_def s2_def s1_def)
  moreover have "\<forall>a \<ge> Suc p. observers s3 a = None"
  proof (intro allI impI)
    fix a assume a: "Suc p \<le> a"
    then have "a \<notin> set as" "observers s a = None" using al free p_def by auto
    then show "observers s3 a = None"
      using hin a by (auto simp: s3_def s2_def s1_def upd_orec_def split: option.splits)
  qed
  ultimately have "center_inv (set_center c' s3) (p # as)" using l ch by (simp add: center_inv_def)
  moreover have "same_rest s s3" by (simp add: s3_def s2_def s1_def same_rest_def)
  then have "same_rest s (set_center c' s3)" by (rule same_rest_trans) simp
  ultimately show ?thesis
    using run new \<open>brk (set_center c' s3) = Suc p\<close> unfolding p_def [symmetric]
    by (intro exI [of _ "set_center c' s3"]) (auto simp: os)
qed

section \<open>Removing the records of a name and an object\<close>

fun hit :: "cstring ptr \<Rightarrow> pointer \<Rightarrow> registration \<Rightarrow> bool" where
  "hit nm ob (act, obs, nm', ob') \<longleftrightarrow> same_address nm' nm \<and> ob' = ob"

lemma last_action_last:
  "chain (na s) (Some h) ks \<Longrightarrow> \<forall>a \<in> set ks. observers s a \<noteq> None \<Longrightarrow> last_action s h = Some (last ks)"
proof (induction ks arbitrary: h)
  case (Cons a ks)
  obtain r where r: "observers s h = Some r" "na s h = nextAction r" using Cons.prems by (auto simp: na_def orec_def)
  show ?case
  proof (cases ks)
    case Nil
    then show ?thesis using Cons.prems r by (subst last_action.simps) auto
  next
    case (Cons b bs)
    then have "nextAction r = Some b" using Cons.prems r by auto
    then show ?thesis using Cons.IH [of b] Cons.prems r Cons by (subst last_action.simps) auto
  qed
qed simp

lemma chain_append: "chain f p ks \<Longrightarrow> ks \<noteq> [] \<Longrightarrow> distinct ks \<Longrightarrow> a \<notin> set ks \<Longrightarrow>
   chain (f(a := NULL, last ks := Some a)) p (ks @ [a])"
  by (induction ks arbitrary: p) (auto simp: chain_frame)

definition set_na :: "nat ptr \<Rightarrow> nat \<Rightarrow> notif_state \<Rightarrow> notif_state" where
  "set_na q p s = upd_orec (nextAction_update (\<lambda>_. q)) (Some p) s"

lemma set_orec_na: "observers s p \<noteq> None \<Longrightarrow> set_orec (nextAction_update (\<lambda>_. q)) p s = Some (set_na q p s)"
  by (auto simp: set_na_def set_orec_same)

lemma set_na_same:
  "reg (set_na q p s) = reg s" "nx (set_na q p s) = nx s" "pv (set_na q p s) = pv s" "na (set_na q p s) = (na s)(p := q)"
  "notificationCenter (set_na q p s) = notificationCenter s" "brk (set_na q p s) = brk s" "same_rest s (set_na q p s)"
  by (auto simp: fun_eq_iff set_na_def reg_def nx_def pv_def na_def orec_upd registration_def same_rest_def)

lemma set_na_observers:
  "observers s p \<noteq> None \<Longrightarrow> (observers (set_na q p s) a = None) = (observers s a = None)"
  by (auto simp: set_na_def upd_orec_def)

lemma set_na_lists_ok: "lists_ok s c as \<Longrightarrow> p \<in> set as \<Longrightarrow> lists_ok (set_na q p s) c as"
  using set_na_observers [of s p q] by (auto simp: lists_ok_def set_na_same)

definition removed_from ::
  "notif_state \<Rightarrow> NotificationCenter \<Rightarrow> nat list \<Rightarrow> nat list \<Rightarrow> notif_state \<Rightarrow> nat list \<Rightarrow> bool" where
  "removed_from s c as touched s' as' \<longleftrightarrow>
     (\<exists>c'. notificationCenter s' = Some c' \<and> lists_ok s' c' as' \<and> observerTable c' = observerTable c) \<and>
     (\<forall>b \<in> set as'. reg s' b = reg s b) \<and> (\<forall>b. b \<notin> set touched \<longrightarrow> na s' b = na s b) \<and>
     same_rest s s' \<and> brk s' = brk s \<and> (\<forall>b. observers s b = None \<longrightarrow> observers s' b = None)"

lemma rebuild_actions_ok:
  "notificationCenter s = Some c \<Longrightarrow> lists_ok s c as \<Longrightarrow> chain (na s) p xs \<Longrightarrow> chain (na s) newList ks \<Longrightarrow>
   distinct (xs @ ks) \<Longrightarrow> set (xs @ ks) \<subseteq> set as \<Longrightarrow>
   \<exists>s' newList'. rebuild_actions nm ob p newList s = Some (s', newList') \<and>
     removed_from s c as (xs @ ks) s' [a \<leftarrow> as. \<not> (a \<in> set xs \<and> hit nm ob (reg s a))] \<and>
     chain (na s') newList' (ks @ [a \<leftarrow> xs. \<not> hit nm ob (reg s a)])"
proof (induction xs arbitrary: s c as p newList ks)
  case Nil
  then show ?case by (subst rebuild_actions.simps) (simp add: same_rest_def removed_from_def)
next
  case (Cons x xs)
  have x: "p = Some x" "chain (na s) (na s x) xs" "x \<in> set as" using Cons.prems by auto
  have alive: "\<forall>a \<in> set as. observers s a \<noteq> None" using Cons.prems(2) by (simp add: lists_ok_def)
  obtain r where r: "observers s x = Some r" using alive x(3) by auto
  have nr: "nextAction r = na s x" by (simp add: na_def orec_def r)
  have hr: "(same_address (name r) nm \<and> object r = ob) = hit nm ob (reg s x)"
    by (simp add: reg_def orec_def r registration_def)
  show ?case
  proof (cases "hit nm ob (reg s x)")
    case True
    obtain s1 c1 where s1: "unlink True x s = Some s1" "notificationCenter s1 = Some c1"
      "lists_ok s1 c1 (filter ((\<noteq>) x) as)" "observerTable c1 = observerTable c"
      "\<forall>b. b \<noteq> x \<longrightarrow> reg s1 b = reg s b \<and> na s1 b = na s b" "same_rest s s1" "brk s1 = brk s"
      "\<forall>b. observers s b = None \<longrightarrow> observers s1 b = None"
      using unlink_ok [OF Cons.prems(1,2) x(3)] by blast
    have "\<forall>a \<in> set xs. na s1 a = na s a" "\<forall>a \<in> set ks. na s1 a = na s a" using Cons.prems(5) s1(5) by auto
    then have "chain (na s1) (na s x) xs" "chain (na s1) newList ks" using x(2) Cons.prems(4) chain_frame by blast+
    moreover have "distinct (xs @ ks)" "set (xs @ ks) \<subseteq> set (filter ((\<noteq>) x) as)" using Cons.prems(5,6) by auto
    ultimately obtain s' nl where s': "rebuild_actions nm ob (na s x) newList s1 = Some (s', nl)"
      "removed_from s1 c1 (filter ((\<noteq>) x) as) (xs @ ks) s' [a \<leftarrow> filter ((\<noteq>) x) as. \<not> (a \<in> set xs \<and> hit nm ob (reg s1 a))]"
      "chain (na s') nl (ks @ [a \<leftarrow> xs. \<not> hit nm ob (reg s1 a)])"
      using Cons.IH [OF s1(2,3)] by blast
    have "rebuild_actions nm ob p newList s = Some (s', nl)"
      using x(1) r s1(1) s'(1) True hr by (subst rebuild_actions.simps) (simp add: nr)
    moreover have e1: "[a \<leftarrow> filter ((\<noteq>) x) as. \<not> (a \<in> set xs \<and> hit nm ob (reg s1 a))] =
        [a \<leftarrow> as. \<not> (a \<in> set (x # xs) \<and> hit nm ob (reg s a))]"
      using s1(5) True unfolding filter_filter by (intro filter_cong) auto
    moreover have "[a \<leftarrow> xs. \<not> hit nm ob (reg s1 a)] = [a \<leftarrow> x # xs. \<not> hit nm ob (reg s a)]"
      using s1(5) True Cons.prems(5) by (auto intro!: filter_cong)
    moreover have rx: "\<forall>b \<in> set [a \<leftarrow> as. \<not> (a \<in> set (x # xs) \<and> hit nm ob (reg s a))]. reg s1 b = reg s b"
    proof
      fix b assume "b \<in> set [a \<leftarrow> as. \<not> (a \<in> set (x # xs) \<and> hit nm ob (reg s a))]"
      then have "b \<noteq> x" using True by auto
      then show "reg s1 b = reg s b" using s1(5) by simp
    qed
    moreover have "removed_from s c as ((x # xs) @ ks) s' [a \<leftarrow> as. \<not> (a \<in> set (x # xs) \<and> hit nm ob (reg s a))]"
      using rx s'(2) s1(4-8) same_rest_trans [OF s1(6)] True unfolding removed_from_def e1 by auto
    ultimately show ?thesis using s'(3) by auto
  next
    case False
    define s1 where "s1 = set_na NULL x s"
    have e1: "set_orec (nextAction_update (\<lambda>_. NULL)) x s = Some s1"
      unfolding s1_def by (rule set_orec_na) (simp add: r)
    define s2 where "s2 = (if ks = [] then s1 else set_na (Some x) (last ks) s1)"
    define nl where "nl = (if ks = [] then Some x else newList)"
    have l1: "lists_ok s1 c as" using set_na_lists_ok [OF Cons.prems(2) x(3)] by (simp add: s1_def)
    have kl: "ks \<noteq> [] \<Longrightarrow> last ks \<in> set as" using Cons.prems(6) by auto
    have l2: "lists_ok s2 c as" using set_na_lists_ok [OF l1] l1 kl by (simp add: s2_def)
    have alive1: "\<forall>a \<in> set as. observers s1 a \<noteq> None" using l1 by (simp add: lists_ok_def)
    have step: "rebuild_actions nm ob p newList s = rebuild_actions nm ob (na s x) nl s2"
    proof (cases ks)
      case Nil
      then show ?thesis using x(1) r e1 False Cons.prems(4)
        by (subst rebuild_actions.simps) (simp add: hr nr nl_def s2_def)
    next
      case (Cons k ks')
      have nk: "newList = Some k" using Cons.prems(4) Cons by simp
      have "\<forall>a \<in> set ks. na s1 a = na s a" using Cons.prems(5) by (auto simp: s1_def set_na_same)
      then have "chain (na s1) (Some k) ks" using Cons.prems(4) nk chain_frame by blast
      moreover have "\<forall>a \<in> set ks. observers s1 a \<noteq> None" using alive1 Cons.prems(6) by auto
      ultimately have la: "last_action s1 k = Some (last ks)" by (rule last_action_last)
      have "set_orec (nextAction_update (\<lambda>_. Some x)) (last ks) s1 = Some s2"
        using set_orec_na [of s1 "last ks"] alive1 kl Cons by (simp add: s2_def)
      then show ?thesis using x(1) r e1 False la nk Cons
        by (subst rebuild_actions.simps) (simp add: hr nr nl_def)
    qed
    have na2: "na s2 = (if ks = [] then (na s)(x := NULL) else (na s)(x := NULL, last ks := Some x))"
      by (simp add: s2_def s1_def set_na_same)
    have "\<forall>a \<in> set xs. na s2 a = na s a" using Cons.prems(5) by (auto simp: na2)
    then have c1: "chain (na s2) (na s x) xs" using x(2) chain_frame by blast
    have c2: "chain (na s2) nl (ks @ [x])"
      using chain_append [OF Cons.prems(4)] Cons.prems(5) by (auto simp: na2 nl_def)
    have nc: "notificationCenter s2 = Some c" using Cons.prems(1) by (simp add: s2_def s1_def set_na_same)
    have "distinct (xs @ ks @ [x])" "set (xs @ ks @ [x]) \<subseteq> set as" using Cons.prems(5,6) by auto
    then obtain s' nl' where s': "rebuild_actions nm ob (na s x) nl s2 = Some (s', nl')"
      "removed_from s2 c as (xs @ ks @ [x]) s' [a \<leftarrow> as. \<not> (a \<in> set xs \<and> hit nm ob (reg s2 a))]"
      "chain (na s') nl' ((ks @ [x]) @ [a \<leftarrow> xs. \<not> hit nm ob (reg s2 a)])"
      using Cons.IH [OF nc l2 c1 c2] by blast
    have sr: "reg s2 = reg s" "same_rest s s2" "brk s2 = brk s"
      using same_rest_trans [OF set_na_same(7) set_na_same(7)] by (auto simp: s2_def s1_def set_na_same)
    have ob2: "observers s2 a = None" if "observers s a = None" for a
      using that r alive1 kl by (auto simp: s2_def s1_def set_na_observers)
    have "[a \<leftarrow> as. \<not> (a \<in> set xs \<and> hit nm ob (reg s a))] = [a \<leftarrow> as. \<not> (a \<in> set (x # xs) \<and> hit nm ob (reg s a))]"
      using False by (intro filter_cong) auto
    moreover have "na s2 b = na s b" if "b \<notin> set (x # xs @ ks)" for b
      using that by (auto simp: na2)
    ultimately have "removed_from s c as ((x # xs) @ ks) s' [a \<leftarrow> as. \<not> (a \<in> set (x # xs) \<and> hit nm ob (reg s a))]"
      using s'(2) sr same_rest_trans [OF sr(2)] ob2 unfolding removed_from_def by auto
    then show ?thesis using step s'(1,3) sr(1) False by auto
  qed
qed

lemma WMRemoveNotificationObserverWithName_ok:
  assumes inv: "center_inv s as"
  shows "\<exists>s'. WMRemoveNotificationObserverWithName obs nm ob s = Some s' \<and>
    center_inv s' [a \<leftarrow> as. \<not> (reg_observer (reg s a) = obs \<and> hit nm ob (reg s a))] \<and>
    (\<forall>a \<in> set as. \<not> (reg_observer (reg s a) = obs \<and> hit nm ob (reg s a)) \<longrightarrow> reg s' a = reg s a) \<and>
    same_rest s s' \<and> brk s' = brk s"
proof -
  obtain c where c: "notificationCenter s = Some c" "lists_ok s c as" "chains_ok s c as"
    and free: "\<forall>a \<ge> brk s. observers s a = None" using inv by (auto simp: center_inv_def)
  let ?xs = "[a \<leftarrow> as. reg_observer (reg s a) = obs]"
  let ?as = "[a \<leftarrow> as. \<not> (reg_observer (reg s a) = obs \<and> hit nm ob (reg s a))]"
  define t where "t = fst (address_remove (observerTable c) obs)"
  define c0 where "c0 = c\<lparr>observerTable := t\<rparr>"
  define s0 where "s0 = set_center c0 s"
  have tc: "tables_ok c" using c(2) by (simp add: lists_ok_def)
  have t: "ht_wf WMIntHashCallbacks (\<lambda>_. True) t" "address_get t = (address_get (observerTable c))(obs := NULL)"
    unfolding t_def using address_table.remove_ok address_table.remove_lookup table_wf [OF tc] by auto
  have l0: "lists_ok s0 c0 as" unfolding s0_def c0_def by (rule lists_ok_set_table [OF c(2) t(1)])
  have p0: "chain (na s0) (address_get (observerTable c) obs) ?xs" "distinct (?xs @ [])" "set (?xs @ []) \<subseteq> set as"
    using c(2,3) by (auto simp: chains_ok_def lists_ok_def s0_def)
  have rs0: "reg s0 = reg s" by (simp add: s0_def)
  have nc0: "notificationCenter s0 = Some c0" "chain (na s0) NULL []" by (simp_all add: s0_def)
  obtain s1 nl where s1: "rebuild_actions nm ob (address_get (observerTable c) obs) NULL s0 = Some (s1, nl)"
    "removed_from s0 c0 as ?xs s1 [a \<leftarrow> as. \<not> (a \<in> set ?xs \<and> hit nm ob (reg s a))]"
    "chain (na s1) nl [a \<leftarrow> ?xs. \<not> hit nm ob (reg s a)]"
    using rebuild_actions_ok [OF nc0(1) l0 p0(1) nc0(2) p0(2,3), of nm ob] unfolding rs0 append_Nil append_Nil2 by blast
  have as: "[a \<leftarrow> as. \<not> (a \<in> set ?xs \<and> hit nm ob (reg s a))] = ?as" by (auto intro!: filter_cong)
  note rm = s1(2) [unfolded as removed_from_def]
  obtain c1 where c1: "notificationCenter s1 = Some c1" "lists_ok s1 c1 ?as" "observerTable c1 = t"
    using rm by (auto simp: c0_def)
  define c' where "c' = (if nl = NULL then c1 else c1\<lparr>observerTable := fst (address_insert t obs nl)\<rparr>)"
  define s' where "s' = (if nl = NULL then s1 else set_center c' s1)"
  have run: "WMRemoveNotificationObserverWithName obs nm ob s = Some s'"
    using c(1) s1(1) c1(1,3) by (simp add: WMRemoveNotificationObserverWithName_def t_def [symmetric] c0_def [symmetric]
      s0_def [symmetric] s'_def c'_def)
  have g: "address_get (observerTable c') = (address_get (observerTable c))(obs := nl)"
    using t address_table.insert_lookup [OF t(1)] c1(3) by (auto simp: c'_def)
  have f: "reg s' = reg s1" "na s' = na s1" "notificationCenter s' = Some c'" "brk s' = brk s" "observers s' = observers s1"
    "same_rest s1 s'"
    using rm c1(1) by (auto simp: s'_def c'_def s0_def same_rest_def [of s1 s1])
  have l: "lists_ok s' c' ?as"
    using lists_ok_set_table [OF c1(2) address_table.insert_ok [OF t(1)]] c1(2,3) by (simp add: s'_def c'_def)
  have r: "\<forall>a \<in> set ?as. reg s1 a = reg s a" using rm by (simp add: s0_def)
  have "chain (na s') (address_get (observerTable c') o') [a \<leftarrow> ?as. reg_observer (reg s' a) = o']" for o'
  proof (cases "o' = obs")
    case True
    have "[a \<leftarrow> ?as. reg_observer (reg s1 a) = obs] = [a \<leftarrow> ?as. reg_observer (reg s a) = obs]"
      using r by (intro filter_cong) auto
    also have "\<dots> = [a \<leftarrow> ?xs. \<not> hit nm ob (reg s a)]" unfolding filter_filter by (intro filter_cong) auto
    finally show ?thesis using s1(3) True f(1,2) g by simp
  next
    case False
    have "[a \<leftarrow> ?as. reg_observer (reg s1 a) = o'] = [a \<leftarrow> ?as. reg_observer (reg s a) = o']"
      using r by (intro filter_cong) auto
    also have "\<dots> = [a \<leftarrow> as. reg_observer (reg s a) = o']" unfolding filter_filter using False by (intro filter_cong) auto
    finally have e: "[a \<leftarrow> ?as. reg_observer (reg s1 a) = o'] = [a \<leftarrow> as. reg_observer (reg s a) = o']" .
    have "\<forall>a \<in> set [a \<leftarrow> as. reg_observer (reg s a) = o']. na s1 a = na s a" using rm False by (auto simp: s0_def)
    moreover have "chain (na s) (address_get (observerTable c) o') [a \<leftarrow> as. reg_observer (reg s a) = o']"
      using c(3) by (simp add: chains_ok_def)
    ultimately have "chain (na s1) (address_get (observerTable c) o') [a \<leftarrow> as. reg_observer (reg s a) = o']"
      using chain_frame by blast
    then show ?thesis using False e f(1,2) g by simp
  qed
  then have "chains_ok s' c' ?as" by (simp add: chains_ok_def)
  moreover have "observers s' a = None" if "brk s' \<le> a" for a using that rm free f(4,5) by (simp add: s0_def)
  ultimately have "center_inv s' ?as" using l f(3) by (simp add: center_inv_def)
  moreover have "same_rest s s'"
    using rm f(6) same_rest_trans [of s s0 s1] same_rest_trans [of s s1 s'] by (simp add: s0_def)
  ultimately show ?thesis using run f(1,4) r by auto
qed

section \<open>Posting\<close>

text \<open>Observers whose code does not call this module back.\<close>

definition inert :: "unit action \<Rightarrow> bool" where
  "inert act \<longleftrightarrow> (\<forall>a obs n s. act a obs n s = Some s)"

lemma inertD: "inert act \<Longrightarrow> act = (\<lambda>a obs n. Some)"
  by (simp add: inert_def fun_eq_iff)

fun calls_of :: "registration \<Rightarrow> (nat \<times> pointer) list" where
  "calls_of (act, obs, nm, ob) = (case act of None \<Rightarrow> [] | Some a \<Rightarrow> [(a, obs)])"

fun reg_object :: "registration \<Rightarrow> pointer" where
  "reg_object (act, obs, nm, ob) = ob"

definition tell_all :: "nat \<Rightarrow> registration list \<Rightarrow> (nat \<times> pointer \<times> nat) list" where
  "tell_all n rs = map (\<lambda>(a, obs). (a, obs, n)) (concat (map calls_of rs))"

lemma tell_all_append: "tell_all n (xs @ ys) = tell_all n xs @ tell_all n ys"
  by (simp add: tell_all_def)

lemma tell_all_dll:
  assumes pas: "inert act" and n: "notifs s n = Some note"
    and w: "\<And>r. wants r note = w (registration r)"
  shows "dll (nx s) v p q xs \<Longrightarrow> \<forall>a \<in> set xs. observers s a \<noteq> None \<Longrightarrow>
    tell act wants n p (s\<lparr>told := l\<rparr>) = Some (s\<lparr>told := l @ tell_all n (filter w (map (reg s) xs))\<rparr>)"
  unfolding inertD [OF pas]
proof (induction xs arbitrary: p q l)
  case Nil
  then show ?case by (subst tell.simps) (simp add: tell_all_def)
next
  case (Cons x xs)
  obtain r where r: "observers s x = Some r" using Cons.prems by auto
  have e: "nx s x = onext r" "reg s x = registration r" using r by (simp_all add: nx_def orec_def reg_def)
  have st: "dll (nx s) v (onext r) (Some x) xs" "\<forall>a \<in> set xs. observers s a \<noteq> None" "p = Some x"
    using Cons.prems e by auto
  show ?case
    using n r Cons.IH [OF st(1,2)] st(3)
    by (subst tell.simps)
      (simp add: w e tell_all_def registration_def split: option.split)
qed

definition told_by :: "string \<Rightarrow> pointer \<Rightarrow> registration list \<Rightarrow> registration list" where
  "told_by nm ob rs =
     [r \<leftarrow> rs. topic_of r = Named nm \<and> (reg_object r = 0 \<or> ob = 0 \<or> reg_object r = ob)] @
     [r \<leftarrow> rs. topic_of r = FromObject ob] @ [r \<leftarrow> rs. topic_of r = Everything]"

lemma center_inv_same:
  "center_inv s as \<Longrightarrow> observers s' = observers s \<Longrightarrow> notificationCenter s' = notificationCenter s \<Longrightarrow>
   brk s \<le> brk s' \<Longrightarrow> center_inv s' as \<and> reg s' = reg s"
proof -
  assume a: "center_inv s as" "observers s' = observers s" "notificationCenter s' = notificationCenter s" "brk s \<le> brk s'"
  have "orec s' = orec s" using a(2) by (simp add: orec_def fun_eq_iff)
  then have "reg s' = reg s" "nx s' = nx s" "pv s' = pv s" "na s' = na s"
    by (simp_all add: reg_def nx_def pv_def na_def fun_eq_iff)
  then show ?thesis using a by (auto simp: center_inv_def lists_ok_def chains_ok_def)
qed

lemma WMPostNotification_told:
  assumes pas: "inert act" and inv: "center_inv s as" and n: "notifs s n = Some note" and nm: "nname note = Some nm"
    and rc: "0 < refCount note"
  shows "WMPostNotification act n s =
    Some (s\<lparr>told := told s @ tell_all n (told_by (cs_text nm) (nobject note) (map (reg s) as))\<rparr>)"
proof -
  define note' where "note' = note\<lparr>refCount := refCount note + 1\<rparr>"
  define s0 where "s0 = s\<lparr>notifs := (notifs s)(n \<mapsto> note')\<rparr>"
  have ret: "WMRetainNotification n s = Some s0" using n by (simp add: WMRetainNotification_def s0_def note'_def)
  have inv0: "center_inv s0 as" "reg s0 = reg s" using center_inv_same [OF inv, of s0] by (auto simp: s0_def)
  obtain c where c: "notificationCenter s0 = Some c" "lists_ok s0 c as" using inv0(1) by (auto simp: center_inv_def)
  have dl: "dll (nx s0) (pv s0) (head c k) NULL [a \<leftarrow> as. topic_of (reg s0 a) = k]" for k
    using c(2) by (simp add: lists_ok_def)
  have al: "\<forall>a \<in> set [a \<leftarrow> as. topic_of (reg s0 a) = k]. observers s0 a \<noteq> None" for k using c(2) by (simp add: lists_ok_def)
  have n0: "notifs s0 n = Some note'" "nname note' = Some nm" "nobject note' = nobject note"
    using nm by (simp_all add: s0_def note'_def)
  let ?w = "\<lambda>r. reg_object r = 0 \<or> nobject note = 0 \<or> reg_object r = nobject note"
  let ?on = "\<lambda>k. map (reg s0) [a \<leftarrow> as. topic_of (reg s0 a) = k]"
  have w: "wants_object r note' = ?w (registration r)" for r by (simp add: wants_object_def registration_def n0)
  have t1: "tell act wants_object n (head c k) (s0\<lparr>told := l\<rparr>) = Some (s0\<lparr>told := l @ tell_all n (filter ?w (?on k))\<rparr>)" for k l
    by (rule tell_all_dll [where w = "?w", OF pas n0(1)]) (rule w dl al)+
  have t2: "tell act (\<lambda>_ _. True) n (head c k) (s0\<lparr>told := l\<rparr>) = Some (s0\<lparr>told := l @ tell_all n (?on k)\<rparr>)" for k l
    using tell_all_dll [where wants = "\<lambda>_ _. True" and w = "\<lambda>_. True", OF pas n0(1) refl dl [of k] al [of k]] by simp
  have rel: "WMReleaseNotification n (s0\<lparr>told := l\<rparr>) = Some (s\<lparr>told := l\<rparr>)" for l
    using n rc by (simp add: WMReleaseNotification_def s0_def note'_def fun_upd_idem)
  have "WMPostNotification act n s = Some (s\<lparr>told := ((told s0 @ tell_all n (filter ?w (?on (Named (cs_text nm))))) @
      tell_all n (?on (FromObject (nobject note)))) @ tell_all n (?on Everything)\<rparr>)"
    using t1 [of "Named (cs_text nm)" "told s0"] t2 [of "FromObject (nobject note)"] t2 [of Everything]
    by (simp add: WMPostNotification_def ret c(1) n0 rel)
  moreover have "filter ?w (?on (Named (cs_text nm))) @ ?on (FromObject (nobject note)) @ ?on Everything =
      told_by (cs_text nm) (nobject note) (map (reg s) as)"
    by (simp add: told_by_def filter_map o_def inv0(2) conj_commute)
  ultimately show ?thesis by (simp add: tell_all_append [symmetric]) (simp add: s0_def)
qed

section \<open>The queues\<close>

text \<open>What is in a queue: names and objects.\<close>

type_synonym entry = "cstring \<times> pointer"

definition note_of :: "(nat \<rightharpoonup> Notification) \<Rightarrow> nat \<Rightarrow> entry \<Rightarrow> bool" where
  "note_of h n e \<longleftrightarrow> (\<exists>note. h n = Some note \<and> nname note = Some (fst e) \<and> nobject note = snd e \<and> refCount note = 1)"

fun drop_first :: "('a \<Rightarrow> bool) \<Rightarrow> 'a list \<Rightarrow> 'a list" where
  "drop_first P [] = []"
| "drop_first P (x # xs) = (if P x then xs else x # drop_first P xs)"

lemma drop_first_none: "\<forall>x \<in> set xs. \<not> P x \<Longrightarrow> drop_first P xs = xs"
  by (induction xs) auto

lemma drop_first_split: "\<forall>x \<in> set ys. \<not> P x \<Longrightarrow> P x \<Longrightarrow> drop_first P (ys @ x # zs) = ys @ zs"
  by (induction ys) auto

lemma set_drop_first: "set (drop_first P xs) \<subseteq> set xs"
  by (induction xs) auto

lemma distinct_drop_first: "distinct xs \<Longrightarrow> distinct (drop_first P xs)"
  by (induction xs) (auto dest: subsetD [OF set_drop_first])

lemma list_all2_drop_first:
  "list_all2 R xs ys \<Longrightarrow> \<forall>x \<in> set xs. \<forall>y. R x y \<longrightarrow> P x = Q y \<Longrightarrow> list_all2 R (drop_first P xs) (drop_first Q ys)"
  by (induction rule: list_all2_induct) auto

definition same_entry :: "entry \<Rightarrow> entry \<Rightarrow> bool" where
  "same_entry e f \<longleftrightarrow> cs_text (fst e) = cs_text (fst f) \<and> snd e = snd f"

lemma match_item_same:
  "note_of (notifs s) n e \<Longrightarrow> nname note = Some (fst f) \<Longrightarrow> nobject note = snd f \<Longrightarrow>
   match_item matchSenderAndName s note (Some n) = same_entry f e"
  by (auto simp: note_of_def match_item_def matchSenderAndName_def matchSender_def matchName_def same_entry_def)

lemma note_of_frame: "list_all2 (note_of h) ns es \<Longrightarrow> \<forall>n \<in> set ns. h' n = h n \<Longrightarrow> list_all2 (note_of h') ns es"
  by (auto simp: list_all2_conv_all_nth note_of_def)

lemma release_one:
  "note_of (notifs s) n e \<Longrightarrow> WMReleaseNotification n s = Some (s\<lparr>notifs := (notifs s)(n := None)\<rparr>)"
  by (auto simp: note_of_def WMReleaseNotification_def)

definition without :: "(nat \<rightharpoonup> Notification) \<Rightarrow> nat set \<Rightarrow> (nat \<rightharpoonup> Notification)" where
  "without h A = (\<lambda>n. if n \<in> A then None else h n)"

lemma dom_without: "dom (without h A) = dom h - A"
  by (auto simp: without_def split: if_splits)

lemma dequeue_array:
  fixes s :: notif_state
  assumes a: "array_rep a (map Some ns)" "destructor a" and ns: "list_all2 (note_of (notifs s)) ns es" "distinct ns"
    and nt: "nname note = Some (fst f)" "nobject note = snd f"
  obtains a' k dead ns' where
    "WMRemoveFromArrayMatching (Some a) (Some (match_item matchSenderAndName s note)) (Some n) = Some (Some a', k, dead)"
    "array_rep a' (map Some ns')" "destructor a'" "distinct ns'" "set ns' \<subseteq> set ns"
    "\<And>s' :: notif_state. notifs s' = notifs s \<Longrightarrow> release_all dead s' = Some (s'\<lparr>notifs := without (notifs s) (set ns - set ns')\<rparr>)"
    "list_all2 (note_of (notifs s)) ns' (drop_first (same_entry f) es)"
proof -
  let ?m = "match_item matchSenderAndName s note"
  let ?P = "\<lambda>x. ?m (Some x)" and ?ns = "drop_first (\<lambda>x. ?m (Some x)) ns"
  have l: "list_all2 (note_of (notifs s)) ?ns (drop_first (same_entry f) es)"
    using ns(1) match_item_same nt by (intro list_all2_drop_first) blast+
  have im: "item_matches (Some ?m) (Some n) y = ?m y" for y by (simp add: item_matches_def)
  show ?thesis
  proof (cases "\<exists>x \<in> set ns. ?P x")
    case True
    then obtain ys x zs where x: "ns = ys @ x # zs" "?P x" "\<forall>y \<in> set ys. \<not> ?P y"
      using split_list_first_prop [of ns ?P] by blast
    have e: "?ns = ys @ zs" using x by (simp add: drop_first_split)
    then have di: "set ns - set ?ns = {x}" using ns(2) x(1) by auto
    obtain g where g: "note_of (notifs s) x g" using ns(1) x(1) by (auto simp: list_all2_append1 list_all2_Cons1)
    have sp: "array_rep a (map Some ys @ Some x # map Some zs)" using a(1) x(1) by simp
    obtain a' where a': "WMRemoveFromArrayMatching (Some a) (Some ?m) (Some n) = Some (Some a', 1, [Some x])"
      "array_rep a' (map Some ys @ map Some zs)" "destructor a'"
      using WMRemoveFromArrayMatching_found [OF sp, of "Some ?m" "Some n"] x(2,3) a(2) im by auto
    have rel: "release_all [Some x] s' = Some (s'\<lparr>notifs := without (notifs s) (set ns - set ?ns)\<rparr>)"
      if "notifs s' = notifs s" for s' :: notif_state
      using release_one [of s' x g] g that unfolding di by (auto simp: without_def fun_upd_def)
    show ?thesis
    proof (rule that [of a' 1 "[Some x]" "ys @ zs"])
      show "array_rep a' (map Some (ys @ zs))" using a'(2) by simp
      show "distinct (ys @ zs)" "set (ys @ zs) \<subseteq> set ns" using ns(2) x(1) by auto
    qed (use a' l rel in \<open>simp_all only: e\<close>)
  next
    case False
    then have e: "?ns = ns" by (intro drop_first_none) auto
    have "WMRemoveFromArrayMatching (Some a) (Some ?m) (Some n) = Some (Some a, 0, [])"
      using WMRemoveFromArrayMatching_none [OF a(1)] False im by auto
    then show ?thesis
      by (rule that [of a 0 "[]" ns]) (use a l e ns(2) in \<open>auto simp: without_def\<close>)
  qed
qed

text \<open>A queue that holds the notifications \<open>ns\<close> and \<open>ms\<close>, and the invariant of the default queue.\<close>

definition queue_at :: "notif_state \<Rightarrow> nat \<Rightarrow> nat list \<Rightarrow> nat list \<Rightarrow> bool" where
  "queue_at s q ns ms \<longleftrightarrow> (\<exists>qr. queues s q = Some qr \<and> qnext qr = NULL \<and>
     array_rep (asapQueue qr) (map Some ns) \<and> destructor (asapQueue qr) \<and>
     array_rep (idleQueue qr) (map Some ms) \<and> destructor (idleQueue qr))"

definition contents :: "(nat \<rightharpoonup> Notification) \<Rightarrow> nat list \<Rightarrow> nat list \<Rightarrow> entry list \<Rightarrow> entry list \<Rightarrow> bool" where
  "contents h ns ms es fs \<longleftrightarrow>
     list_all2 (note_of h) ns es \<and> list_all2 (note_of h) ms fs \<and> distinct (ns @ ms)"

definition queue_inv :: "notif_state \<Rightarrow> nat list \<Rightarrow> nat list \<Rightarrow> entry list \<Rightarrow> entry list \<Rightarrow> bool" where
  "queue_inv s ns ms es fs \<longleftrightarrow>
     contents (notifs s) ns ms es fs \<and> dom (notifs s) = set (ns @ ms) \<and> (\<forall>n \<in> set (ns @ ms). n < brk s) \<and>
     notificationQueueList s = notificationQueue s \<and>
     (case notificationQueue s of None \<Rightarrow> ns = [] \<and> ms = [] | Some q \<Rightarrow> queue_at s q ns ms)"

definition only_queues :: "notif_state \<Rightarrow> notif_state \<Rightarrow> bool" where
  "only_queues s s' \<longleftrightarrow> observers s' = observers s \<and> notificationCenter s' = notificationCenter s \<and>
     told s' = told s \<and> brk s \<le> brk s'"

definition same_queues :: "notif_state \<Rightarrow> notif_state \<Rightarrow> bool" where
  "same_queues s s' \<longleftrightarrow> brk s' = brk s \<and> notificationQueue s' = notificationQueue s \<and>
     notificationQueueList s' = notificationQueueList s"

lemma dequeue_ok:
  assumes q: "queue_at s q ns ms" and c: "contents (notifs s) ns ms es fs"
    and n: "notifs s n = Some note" "n \<notin> set (ns @ ms)" and nt: "nname note = Some (fst f)" "nobject note = snd f"
  shows "\<exists>s' ns' ms'. WMDequeueNotificationMatching q n (or WNCOnName WNCOnSender) s = Some s' \<and>
    queue_at s' q ns' ms' \<and> contents (notifs s') ns' ms' (drop_first (same_entry f) es) (drop_first (same_entry f) fs) \<and>
    notifs s' = without (notifs s) (set (ns @ ms) - set (ns' @ ms')) \<and> set (ns' @ ms') \<subseteq> set (ns @ ms) \<and>
    only_queues s s' \<and> same_queues s s'"
proof -
  obtain qr where qr: "queues s q = Some qr" "qnext qr = NULL"
     "array_rep (asapQueue qr) (map Some ns)" "destructor (asapQueue qr)"
     "array_rep (idleQueue qr) (map Some ms)" "destructor (idleQueue qr)"
    using q by (auto simp: queue_at_def)
  have cn: "list_all2 (note_of (notifs s)) ns es" "list_all2 (note_of (notifs s)) ms fs" "distinct ns" "distinct ms"
    "set ns \<inter> set ms = {}"
    using c by (simp_all add: contents_def)
  obtain a1 k1 dead1 ns' where 1:
    "WMRemoveFromArrayMatching (Some (asapQueue qr)) (Some (match_item matchSenderAndName s note)) (Some n) = Some (Some a1, k1, dead1)"
    "array_rep a1 (map Some ns')" "destructor a1" "distinct ns'" "set ns' \<subseteq> set ns"
    "\<And>s' :: notif_state. notifs s' = notifs s \<Longrightarrow> release_all dead1 s' = Some (s'\<lparr>notifs := without (notifs s) (set ns - set ns')\<rparr>)"
    "list_all2 (note_of (notifs s)) ns' (drop_first (same_entry f) es)"
    by (rule dequeue_array [where n = n, OF qr(3,4) cn(1,3) nt]) (rule that)
  define s1 where "s1 = (set_queue q (qr\<lparr>asapQueue := a1\<rparr>) s)\<lparr>notifs := without (notifs s) (set ns - set ns')\<rparr>"
  have rel1: "release_all dead1 (set_queue q (qr\<lparr>asapQueue := a1\<rparr>) s) = Some s1"
    unfolding s1_def by (rule 1(6)) (simp add: set_queue_def)
  have h1: "notifs s1 = without (notifs s) (set ns - set ns')" "queues s1 q = Some (qr\<lparr>asapQueue := a1\<rparr>)"
    by (simp_all add: s1_def set_queue_def)
  have ms1: "list_all2 (note_of (notifs s1)) ms fs"
    by (rule note_of_frame [OF cn(2)]) (use cn(5) in \<open>auto simp: h1 without_def\<close>)
  obtain a2 k2 dead2 ms' where 2:
    "WMRemoveFromArrayMatching (Some (idleQueue qr)) (Some (match_item matchSenderAndName s1 note)) (Some n) = Some (Some a2, k2, dead2)"
    "array_rep a2 (map Some ms')" "destructor a2" "distinct ms'" "set ms' \<subseteq> set ms"
    "\<And>s' :: notif_state. notifs s' = notifs s1 \<Longrightarrow> release_all dead2 s' = Some (s'\<lparr>notifs := without (notifs s1) (set ms - set ms')\<rparr>)"
    "list_all2 (note_of (notifs s1)) ms' (drop_first (same_entry f) fs)"
    by (rule dequeue_array [where n = n, OF qr(5,6) ms1 cn(4) nt]) (rule that)
  define s2 where "s2 = (set_queue q (qr\<lparr>asapQueue := a1, idleQueue := a2\<rparr>) s1)\<lparr>notifs := without (notifs s1) (set ms - set ms')\<rparr>"
  have rel2: "release_all dead2 (set_queue q (qr\<lparr>asapQueue := a1, idleQueue := a2\<rparr>) s1) = Some s2"
    unfolding s2_def by (rule 2(6)) (simp add: set_queue_def)
  have n1: "notifs s1 n = Some note" using n by (auto simp: h1 without_def)
  have run: "WMDequeueNotificationMatching q n (or WNCOnName WNCOnSender) s = Some s2"
    using 1(1) 2(1) rel1 rel2 qr(1) n(1) n1 h1(2)
    by (simp add: WMDequeueNotificationMatching_def dequeue_matching_def WNCOnName_def WNCOnSender_def)
  have h2: "notifs s2 = without (notifs s) (set (ns @ ms) - set (ns' @ ms'))"
    using 1(5) 2(5) cn(5) unfolding s2_def h1 by (auto simp: without_def fun_eq_iff)
  have "contents (notifs s2) ns' ms' (drop_first (same_entry f) es) (drop_first (same_entry f) fs)"
    unfolding contents_def
  proof (intro conjI)
    show "list_all2 (note_of (notifs s2)) ns' (drop_first (same_entry f) es)"
      by (rule note_of_frame [OF 1(7)]) (auto simp: h2 without_def)
    show "list_all2 (note_of (notifs s2)) ms' (drop_first (same_entry f) fs)"
      by (rule note_of_frame [OF 2(7)]) (use 2(5) cn(5) in \<open>auto simp: h1 h2 without_def\<close>)
    show "distinct (ns' @ ms')" using 1(4,5) 2(4,5) cn(5) by auto
  qed
  moreover have "queue_at s2 q ns' ms'"
    using qr(2) 1(2,3) 2(2,3) by (simp add: queue_at_def s2_def set_queue_def)
  moreover have "set (ns' @ ms') \<subseteq> set (ns @ ms)" using 1(5) 2(5) by auto
  moreover have "only_queues s s2" "same_queues s s2"
    by (simp_all add: only_queues_def same_queues_def s2_def s1_def set_queue_def)
  ultimately show ?thesis using run h2 by blast
qed

lemma get_default_ok:
  assumes "queue_inv s ns ms es fs"
  obtains s' q where "WMGetDefaultNotificationQueue s = (s', q)" "queue_inv s' ns ms es fs" "notificationQueue s' = Some q"
    "only_queues s s'" "notifs s' = notifs s"
proof (cases "notificationQueue s")
  case None
  define s' where "s' = fst (WMGetDefaultNotificationQueue s)"
  have e: "WMGetDefaultNotificationQueue s = (s', brk s)"
    by (simp add: s'_def WMGetDefaultNotificationQueue_def None WMCreateNotificationQueue_def)
  have "queue_inv s' ns ms es fs" "notificationQueue s' = Some (brk s)"
    using assms None
    by (auto simp: s'_def WMGetDefaultNotificationQueue_def WMCreateNotificationQueue_def queue_inv_def queue_at_def array_laws)
  moreover have "only_queues s s'" "notifs s' = notifs s"
    by (simp_all add: s'_def WMGetDefaultNotificationQueue_def WMCreateNotificationQueue_def None only_queues_def)
  ultimately show ?thesis using e that by blast
next
  case (Some q)
  then show ?thesis using assms that [of s q] by (simp add: WMGetDefaultNotificationQueue_def only_queues_def)
qed

section \<open>The center and the queues refine a registry\<close>

text \<open>
  The operations of a client. \<open>Enqueue\<close> creates a notification and enqueues it in the default queue with
  the default coalescing.
\<close>

datatype operation =
    Subscribe "nat ptr" pointer "cstring ptr" pointer
  | Unsubscribe pointer
  | UnsubscribeFrom pointer "cstring ptr" pointer
  | Publish cstring pointer pointer
  | Enqueue WMPostingStyle cstring pointer pointer
  | FlushASAP
  | FlushIdle

fun perform :: "unit action \<Rightarrow> operation \<Rightarrow> notif_state \<Rightarrow> notif_state option" where
  "perform act (Subscribe a obs nm ob) s = WMAddNotificationObserver a obs nm ob s"
| "perform act (Unsubscribe obs) s = WMRemoveNotificationObserver obs s"
| "perform act (UnsubscribeFrom obs nm ob) s = WMRemoveNotificationObserverWithName obs nm ob s"
| "perform act (Publish nm ob cd) s = WMPostNotificationName act (Some nm) ob cd s"
| "perform act (Enqueue style nm ob cd) s =
     (let (s, q) = WMGetDefaultNotificationQueue s; (s, n) = WMCreateNotification (Some nm) ob cd s
      in WMEnqueueNotification act q n style s)"
| "perform act FlushASAP s = W_FlushASAPNotificationQueue act s"
| "perform act FlushIdle s = W_FlushIdleNotificationQueue act s"

fun perform_all :: "unit action \<Rightarrow> operation list \<Rightarrow> notif_state \<Rightarrow> notif_state option" where
  "perform_all act [] s = Some s"
| "perform_all act (x # xs) s = do { s \<leftarrow> perform act x s; perform_all act xs s }"

text \<open>
  The specification: the registrations, the newest first; the calls made; the two queues.
\<close>

record registry =
  registered :: "registration list"
  called :: "(nat \<times> pointer) list"
  asap :: "entry list"
  idle :: "entry list"

definition publish :: "entry \<Rightarrow> registry \<Rightarrow> registry" where
  "publish e g = g\<lparr>called := called g @
     concat (map calls_of (told_by (cs_text (fst e)) (snd e) (registered g)))\<rparr>"

fun spec_step :: "operation \<Rightarrow> registry \<Rightarrow> registry" where
  "spec_step (Subscribe a obs nm ob) g = g\<lparr>registered := (a, obs, nm, ob) # registered g\<rparr>"
| "spec_step (Unsubscribe obs) g = g\<lparr>registered := [r \<leftarrow> registered g. reg_observer r \<noteq> obs]\<rparr>"
| "spec_step (UnsubscribeFrom obs nm ob) g =
     g\<lparr>registered := [r \<leftarrow> registered g. \<not> (reg_observer r = obs \<and> hit nm ob r)]\<rparr>"
| "spec_step (Publish nm ob cd) g = publish (nm, ob) g"
| "spec_step (Enqueue style nm ob cd) g =
     (let g = g\<lparr>asap := drop_first (same_entry (nm, ob)) (asap g), idle := drop_first (same_entry (nm, ob)) (idle g)\<rparr>
      in case style of
           WMPostNow \<Rightarrow> publish (nm, ob) g
         | WMPostASAP \<Rightarrow> g\<lparr>asap := asap g @ [(nm, ob)]\<rparr>
         | WMPostWhenIdle \<Rightarrow> g\<lparr>idle := idle g @ [(nm, ob)]\<rparr>)"
| "spec_step FlushASAP g = fold publish (asap g) (g\<lparr>asap := []\<rparr>)"
| "spec_step FlushIdle g = fold publish (idle g) (g\<lparr>idle := []\<rparr>)"

definition refines :: "notif_state \<Rightarrow> registry \<Rightarrow> bool" where
  "refines s g \<longleftrightarrow>
     (\<exists>as. center_inv s as \<and> registered g = map (reg s) as) \<and>
     (\<exists>ns ms. queue_inv s ns ms (asap g) (idle g)) \<and>
     called g = map (\<lambda>(a, obs, n). (a, obs)) (told s)"

lemma told_tell_all: "map (\<lambda>(a, obs, n). (a, obs)) (tell_all n rs) = concat (map calls_of rs)"
  by (simp add: tell_all_def comp_def case_prod_unfold)

lemma queue_told [simp]:
  "queue_at (s\<lparr>told := l\<rparr>) q ns ms = queue_at s q ns ms" "queue_inv (s\<lparr>told := l\<rparr>) ns ms es fs = queue_inv s ns ms es fs"
  by (auto simp: queue_inv_def queue_at_def split: option.splits)

lemma queue_inv_same:
  "queue_inv s ns ms es fs \<Longrightarrow> same_rest s s' \<Longrightarrow> brk s \<le> brk s' \<Longrightarrow> queue_inv s' ns ms es fs"
proof -
  assume a: "queue_inv s ns ms es fs" "same_rest s s'" "brk s \<le> brk s'"
  have "\<forall>n \<in> set (ns @ ms). n < brk s'" using a(1,3) unfolding queue_inv_def by (meson less_le_trans)
  moreover have "queue_at s' q ns ms = queue_at s q ns ms" for q using a(2) by (simp add: queue_at_def same_rest_def)
  ultimately show ?thesis using a(1,2) unfolding queue_inv_def same_rest_def by (cases "notificationQueue s") auto
qed

lemma refines_subscribe:
  "refines s g \<Longrightarrow> \<exists>s'. perform act (Subscribe a obs nm ob) s = Some s' \<and> refines s' (spec_step (Subscribe a obs nm ob) g)"
proof -
  assume r: "refines s g"
  then obtain as where as: "center_inv s as" "registered g = map (reg s) as" by (auto simp: refines_def)
  obtain s' where s': "WMAddNotificationObserver a obs nm ob s = Some s'" "center_inv s' (brk s # as)"
    "reg s' (brk s) = (a, obs, nm, ob)" "\<forall>b \<in> set as. reg s' b = reg s b" "same_rest s s'" "brk s' = Suc (brk s)"
    using WMAddNotificationObserver_ok [OF as(1)] by blast
  have "registered (spec_step (Subscribe a obs nm ob) g) = map (reg s') (brk s # as)" using as(2) s'(3,4) by simp
  moreover have "told s' = told s" using s'(5) by (simp add: same_rest_def)
  moreover have "\<exists>ns ms. queue_inv s' ns ms (asap g) (idle g)"
    using r queue_inv_same [OF _ s'(5)] s'(6) unfolding refines_def by (metis le_Suc_eq order_refl)
  ultimately show ?thesis using r s'(1,2) unfolding refines_def by auto
qed

lemma refines_removed:
  assumes r: "refines s g" and as: "center_inv s as" "registered g = map (reg s) as"
    and s': "center_inv s' [a \<leftarrow> as. P (reg s a)]" "\<forall>a \<in> set as. P (reg s a) \<longrightarrow> reg s' a = reg s a" "same_rest s s'" "brk s' = brk s"
  shows "refines s' (g\<lparr>registered := filter P (registered g)\<rparr>)"
proof -
  have "map (reg s') [a \<leftarrow> as. P (reg s a)] = map (reg s) [a \<leftarrow> as. P (reg s a)]" using s'(2) by auto
  also have "\<dots> = filter P (registered g)" by (simp add: as(2) filter_map comp_def)
  finally have "registered (g\<lparr>registered := filter P (registered g)\<rparr>) = map (reg s') [a \<leftarrow> as. P (reg s a)]" by simp
  moreover have "told s' = told s" using s'(3) by (simp add: same_rest_def)
  moreover have "\<exists>ns ms. queue_inv s' ns ms (asap g) (idle g)"
    using r queue_inv_same [OF _ s'(3)] s'(4) unfolding refines_def by (metis order_refl)
  ultimately show ?thesis using r s'(1) unfolding refines_def by auto
qed

lemma refines_same:
  "refines s g \<Longrightarrow> only_queues s (s'\<lparr>told := told s\<rparr>) \<Longrightarrow> queue_inv s' ns ms (asap g') (idle g') \<Longrightarrow>
   registered g' = registered g \<Longrightarrow> called g' = map (\<lambda>(a, obs, n). (a, obs)) (told s') \<Longrightarrow> refines s' g'"
  using center_inv_same [of s _ s'] unfolding refines_def only_queues_def by fastforce

definition calls_for :: "registration list \<Rightarrow> entry \<Rightarrow> (nat \<times> pointer) list" where
  "calls_for rs e = concat (map calls_of (told_by (cs_text (fst e)) (snd e) rs))"

lemma publish_calls: "publish e g = g\<lparr>called := called g @ calls_for (registered g) e\<rparr>"
  by (simp add: publish_def calls_for_def)

lemma fold_publish: "fold publish es g = g\<lparr>called := called g @ concat (map (calls_for (registered g)) es)\<rparr>"
  by (induction es arbitrary: g) (simp_all add: publish_calls)

text \<open>Posting a notification that nothing else holds, and releasing it.\<close>

lemma post_note:
  assumes "inert act" and "center_inv s as" and "note_of (notifs s) n e"
  shows "\<exists>l. WMPostNotification act n s = Some (s\<lparr>told := l\<rparr>) \<and>
    map (\<lambda>(a, obs, n). (a, obs)) l = map (\<lambda>(a, obs, n). (a, obs)) (told s) @ calls_for (map (reg s) as) e"
proof -
  obtain nt where n: "notifs s n = Some nt" "nname nt = Some (fst e)" "nobject nt = snd e" "refCount nt = 1"
    using assms(3) by (auto simp: note_of_def)
  show ?thesis
    by (rule exI [of _ "told s @ tell_all n (told_by (cs_text (fst e)) (snd e) (map (reg s) as))"])
      (use WMPostNotification_told [OF assms(1,2) n(1,2)] n(3,4) in \<open>simp add: calls_for_def told_tell_all\<close>)
qed

lemma create_note:
  "WMCreateNotification (Some nm) ob cd s =
     (s\<lparr>notifs := (notifs s)(brk s \<mapsto> \<lparr>nname = Some nm, nobject = ob, clientData = cd, refCount = 1\<rparr>), brk := Suc (brk s)\<rparr>, brk s)"
  by (simp add: WMCreateNotification_def)

lemma queue_inv_fresh: "queue_inv s ns ms es fs \<Longrightarrow> notifs s (brk s) = None"
  by (auto simp: queue_inv_def dom_def)

lemma refines_publish:
  assumes act: "inert act" and r: "refines s g"
  shows "\<exists>s'. perform act (Publish nm ob cd) s = Some s' \<and> refines s' (spec_step (Publish nm ob cd) g)"
proof -
  obtain as ns ms where as: "center_inv s as" "registered g = map (reg s) as" and q: "queue_inv s ns ms (asap g) (idle g)"
    and cl: "called g = map (\<lambda>(a, obs, n). (a, obs)) (told s)"
    using r by (auto simp: refines_def)
  let ?note = "\<lparr>nname = Some nm, nobject = ob, clientData = cd, refCount = 1\<rparr>"
  define s1 where "s1 = s\<lparr>notifs := (notifs s)(brk s \<mapsto> ?note), brk := Suc (brk s)\<rparr>"
  have n1: "note_of (notifs s1) (brk s) (nm, ob)" by (simp add: s1_def note_of_def)
  have i1: "center_inv s1 as" "reg s1 = reg s" using center_inv_same [OF as(1), of s1] by (simp_all add: s1_def)
  obtain l where l: "WMPostNotification act (brk s) s1 = Some (s1\<lparr>told := l\<rparr>)"
    "map (\<lambda>(a, obs, n). (a, obs)) l = map (\<lambda>(a, obs, n). (a, obs)) (told s1) @ calls_for (map (reg s1) as) (nm, ob)"
    using post_note [OF act i1(1) n1] by blast
  define s' where "s' = s\<lparr>brk := Suc (brk s), told := l\<rparr>"
  have "WMReleaseNotification (brk s) (s1\<lparr>told := l\<rparr>) = Some s'"
    using release_one [of "s1\<lparr>told := l\<rparr>" "brk s"] n1 queue_inv_fresh [OF q]
    by (auto simp: s'_def s1_def fun_upd_idem)
  then have run: "perform act (Publish nm ob cd) s = Some s'"
    using l(1) by (simp add: WMPostNotificationName_def create_note s1_def)
  have "queue_inv (s'\<lparr>told := told s\<rparr>) ns ms (asap g) (idle g)"
    by (rule queue_inv_same [OF q]) (simp_all add: s'_def same_rest_def)
  then have "queue_inv s' ns ms (asap g) (idle g)" by simp
  then have "refines s' (spec_step (Publish nm ob cd) g)"
    using refines_same [OF r, of s'] l(2) i1(2) as(2) cl
    by (simp add: publish_calls only_queues_def s'_def s1_def)
  then show ?thesis using run by blast
qed

section \<open>Flushing\<close>

definition holds :: "bool \<Rightarrow> notif_state \<Rightarrow> nat \<Rightarrow> nat list \<Rightarrow> nat list \<Rightarrow> bool" where
  "holds a s q ns ms \<longleftrightarrow> (\<exists>qr. queues s q = Some qr \<and> qnext qr = NULL \<and>
     array_rep (queue_array a qr) (map Some ns) \<and> destructor (queue_array a qr) \<and>
     array_rep (queue_array (\<not> a) qr) (map Some ms) \<and> destructor (queue_array (\<not> a) qr))"

lemma holds_queue_at: "holds True s q ns ms = queue_at s q ns ms" "holds False s q ns ms = queue_at s q ms ns"
  by (auto simp: holds_def queue_at_def queue_array_def)

lemma contents_sym: "contents h ns ms es fs = contents h ms ns fs es"
  by (auto simp: contents_def)

lemma queue_array_set [simp]:
  "queue_array a (set_queue_array a arr qr) = arr" "queue_array (\<not> a) (set_queue_array a arr qr) = queue_array (\<not> a) qr"
  "qnext (set_queue_array a arr qr) = qnext qr"
  by (auto simp: queue_array_def set_queue_array_def)

lemma flush_queue_ok:
  assumes act: "inert act"
  shows "center_inv s as \<Longrightarrow> holds a s q ns ms \<Longrightarrow> contents (notifs s) ns ms es fs \<Longrightarrow>
    \<exists>s'. flush_queue act a q s = Some s' \<and> holds a s' q [] ms \<and> contents (notifs s') [] ms [] fs \<and>
      notifs s' = without (notifs s) (set ns) \<and> only_queues s (s'\<lparr>told := told s\<rparr>) \<and> same_queues s s' \<and>
      map (\<lambda>(a, obs, n). (a, obs)) (told s') =
        map (\<lambda>(a, obs, n). (a, obs)) (told s) @ concat (map (calls_for (map (reg s) as)) es)"
proof (induction ns arbitrary: s es)
  case Nil
  obtain qr where "queues s q = Some qr" "array_rep (queue_array a qr) []" using Nil.prems(2) by (auto simp: holds_def)
  then have "flush_queue act a q s = Some s"
    by (subst flush_queue.simps) (simp add: WMGetArrayItemCount_def array_laws)
  moreover have "es = []" using Nil.prems(3) by (simp add: contents_def)
  ultimately show ?case using Nil.prems by (simp add: without_def only_queues_def same_queues_def)
next
  case (Cons n ns)
  obtain e es' where e: "es = e # es'" "note_of (notifs s) n e" "list_all2 (note_of (notifs s)) ns es'"
    "list_all2 (note_of (notifs s)) ms fs" "distinct (n # ns @ ms)"
    using Cons.prems(3) by (auto simp: contents_def list_all2_Cons1)
  obtain qr where qr: "queues s q = Some qr" "qnext qr = NULL" "array_rep (queue_array a qr) (map Some (n # ns))"
    "destructor (queue_array a qr)" "array_rep (queue_array (\<not> a) qr) (map Some ms)" "destructor (queue_array (\<not> a) qr)"
    using Cons.prems(2) by (auto simp: holds_def)
  obtain l where l: "WMPostNotification act n s = Some (s\<lparr>told := l\<rparr>)"
    "map (\<lambda>(a, obs, n). (a, obs)) l = map (\<lambda>(a, obs, n). (a, obs)) (told s) @ calls_for (map (reg s) as) e"
    using post_note [OF act Cons.prems(1) e(2)] by blast
  obtain arr where arr: "WMDeleteFromArray (Some (queue_array a qr)) 0 = Some (Some arr, 1, [Some n])"
    "array_rep arr (map Some ns)" "destructor arr"
    using WMDeleteFromArray_rep [OF qr(3), of 0] qr(4) by (auto simp del: One_nat_def)
  define s1 where "s1 = (set_queue q (set_queue_array a arr qr) (s\<lparr>told := l\<rparr>))\<lparr>notifs := (notifs s)(n := None)\<rparr>"
  have rel: "release_all [Some n] (set_queue q (set_queue_array a arr qr) (s\<lparr>told := l\<rparr>)) = Some s1"
    using release_one [of "set_queue q (set_queue_array a arr qr) (s\<lparr>told := l\<rparr>)" n e] e(2)
    by (simp add: s1_def set_queue_def)
  have get: "WMGetFromArray (Some (queue_array a qr)) 0 = Some (Some n)" "itemCount (queue_array a qr) \<noteq> 0"
    using WMGetFromArray_rep [OF qr(3), of 0] array_rep_count [OF qr(3)] by simp_all
  have step: "flush_queue act a q s = flush_queue act a q s1"
    using qr(1) get l(1) arr(1) rel
    by (subst flush_queue.simps) (simp add: WMGetArrayItemCount_def del: release_all.simps)
  have f1: "notifs s1 = (notifs s)(n := None)" "only_queues s (s1\<lparr>told := told s\<rparr>)" "same_queues s s1" "told s1 = l"
    by (simp_all add: s1_def set_queue_def only_queues_def same_queues_def)
  have i1: "center_inv s1 as" "reg s1 = reg s"
    using center_inv_same [OF Cons.prems(1), of s1] by (simp_all add: s1_def set_queue_def)
  have h1: "holds a s1 q ns ms" using qr arr by (simp add: holds_def s1_def set_queue_def)
  have "list_all2 (note_of (notifs s1)) ns es'" "list_all2 (note_of (notifs s1)) ms fs"
    using e(5) by (auto intro: note_of_frame [OF e(3)] note_of_frame [OF e(4)] simp: f1)
  then have c1: "contents (notifs s1) ns ms es' fs" using e(5) by (simp add: contents_def)
  obtain s' where s': "flush_queue act a q s1 = Some s'" "holds a s' q [] ms" "contents (notifs s') [] ms [] fs"
    "notifs s' = without (notifs s1) (set ns)" "only_queues s1 (s'\<lparr>told := told s1\<rparr>)" "same_queues s1 s'"
    "map (\<lambda>(a, obs, n). (a, obs)) (told s') =
       map (\<lambda>(a, obs, n). (a, obs)) (told s1) @ concat (map (calls_for (map (reg s1) as)) es')"
    using Cons.IH [OF i1(1) h1 c1] by blast
  have "notifs s' = without (notifs s) (set (n # ns))" using s'(4) by (auto simp: f1 without_def fun_eq_iff)
  moreover have "only_queues s (s'\<lparr>told := told s\<rparr>)" "same_queues s s'"
    using s'(5,6) f1(2,3) by (auto simp: only_queues_def same_queues_def)
  ultimately show ?case using step s'(1-3,7) l(2) f1(4) i1(2) e(1) by auto
qed

lemma refines_enqueue:
  assumes act: "inert act" and r: "refines s g"
  shows "\<exists>s'. perform act (Enqueue style nm ob cd) s = Some s' \<and> refines s' (spec_step (Enqueue style nm ob cd) g)"
proof -
  obtain as ns ms where as: "center_inv s as" "registered g = map (reg s) as" and q: "queue_inv s ns ms (asap g) (idle g)"
    and cl: "called g = map (\<lambda>(a, obs, n). (a, obs)) (told s)"
    using r by (auto simp: refines_def)
  obtain s0 q0 where s0: "WMGetDefaultNotificationQueue s = (s0, q0)" "queue_inv s0 ns ms (asap g) (idle g)"
    "notificationQueue s0 = Some q0" "only_queues s s0" "notifs s0 = notifs s"
    by (rule get_default_ok [OF q])
  let ?note = "\<lparr>nname = Some nm, nobject = ob, clientData = cd, refCount = 1\<rparr>" and ?e = "(nm, ob)"
  let ?g = "g\<lparr>asap := drop_first (same_entry ?e) (asap g), idle := drop_first (same_entry ?e) (idle g)\<rparr>"
  define n where "n = brk s0"
  define s1 where "s1 = s0\<lparr>notifs := (notifs s0)(n \<mapsto> ?note), brk := Suc n\<rparr>"
  have lt: "\<forall>x \<in> set (ns @ ms). x < n" "dom (notifs s0) = set (ns @ ms)" "notificationQueueList s0 = Some q0"
    using s0(2,3) by (simp_all add: queue_inv_def n_def)
  have nn: "n \<notin> set (ns @ ms)" using lt(1) by auto
  have c0: "contents (notifs s0) ns ms (asap g) (idle g)" using s0(2) by (simp add: queue_inv_def)
  have c1: "contents (notifs s1) ns ms (asap g) (idle g)"
    using c0 nn note_of_frame [of "notifs s0" _ _ "notifs s1"] by (auto simp: contents_def s1_def)
  have q1: "queue_at s1 q0 ns ms" using s0(2,3) by (simp add: queue_inv_def queue_at_def s1_def)
  obtain s2 ns' ms' where s2: "WMDequeueNotificationMatching q0 n (or WNCOnName WNCOnSender) s1 = Some s2"
    "queue_at s2 q0 ns' ms'" "contents (notifs s2) ns' ms' (asap ?g) (idle ?g)"
    "notifs s2 = without (notifs s1) (set (ns @ ms) - set (ns' @ ms'))" "set (ns' @ ms') \<subseteq> set (ns @ ms)"
    "only_queues s1 s2" "same_queues s1 s2"
    using dequeue_ok [OF q1 c1, of n ?note ?e] nn by (auto simp: s1_def)
  have "dom (notifs s2) = insert n (set (ns @ ms)) - (set (ns @ ms) - set (ns' @ ms'))"
    unfolding s2(4) dom_without using lt(2) by (simp add: s1_def)
  then have d2: "notifs s2 n = Some ?note" "dom (notifs s2) = insert n (set (ns' @ ms'))"
    using nn s2(5) unfolding s2(4) by (auto simp: without_def s1_def)
  have lt2: "\<forall>x \<in> set (ns' @ ms'). x < n" "n \<notin> set (ns' @ ms')" using lt(1) nn s2(5) by blast+
  have b2: "brk s2 = Suc n" "notificationQueueList s2 = Some q0" "notificationQueue s2 = Some q0"
    using s2(7) lt(3) s0(3) by (simp_all add: same_queues_def s1_def)
  have o2: "only_queues s s2" using s2(6) s0(4) by (simp add: only_queues_def s1_def n_def)
  then have i2: "center_inv s2 as" "reg s2 = reg s" using center_inv_same [OF as(1), of s2] by (simp_all add: only_queues_def)
  have t2: "told s2 = told s" using o2 by (simp add: only_queues_def)
  have N2: "note_of (notifs s2) n ?e" using d2(1) by (simp add: note_of_def)
  have run0: "perform act (Enqueue style nm ob cd) s =
      (case style of
        WMPostNow \<Rightarrow> do { s \<leftarrow> WMPostNotification act n s2; WMReleaseNotification n s }
      | WMPostASAP \<Rightarrow> do { qr \<leftarrow> queues s2 q0; a \<leftarrow> WMAddToArray (Some (asapQueue qr)) (Some n); a \<leftarrow> a;
          Some (set_queue q0 (qr\<lparr>asapQueue := a\<rparr>) s2) }
      | WMPostWhenIdle \<Rightarrow> do { qr \<leftarrow> queues s2 q0; a \<leftarrow> WMAddToArray (Some (idleQueue qr)) (Some n); a \<leftarrow> a;
          Some (set_queue q0 (qr\<lparr>idleQueue := a\<rparr>) s2) })"
    using s2(1) by (simp add: s0(1) create_note WMEnqueueNotification_def WMEnqueueCoalesceNotification_def s1_def n_def
      WNCNone_def WNCOnName_def WNCOnSender_def cong: WMPostingStyle.case_cong)
  obtain qr where qr: "queues s2 q0 = Some qr" "qnext qr = NULL"
     "array_rep (asapQueue qr) (map Some ns')" "destructor (asapQueue qr)"
     "array_rep (idleQueue qr) (map Some ms')" "destructor (idleQueue qr)"
    using s2(2) by (auto simp: queue_at_def)
  note cc = s2(3) [unfolded contents_def]
  show ?thesis
  proof (cases style)
    case WMPostNow
    obtain l where l: "WMPostNotification act n s2 = Some (s2\<lparr>told := l\<rparr>)"
      "map (\<lambda>(a, obs, n). (a, obs)) l = map (\<lambda>(a, obs, n). (a, obs)) (told s2) @ calls_for (map (reg s2) as) ?e"
      using post_note [OF act i2(1) N2] by blast
    define s' where "s' = s2\<lparr>told := l, notifs := (notifs s2)(n := None)\<rparr>"
    have "WMReleaseNotification n (s2\<lparr>told := l\<rparr>) = Some s'"
      using release_one [of "s2\<lparr>told := l\<rparr>" n ?e] N2 by (simp add: s'_def)
    then have run: "perform act (Enqueue style nm ob cd) s = Some s'" using run0 l(1) WMPostNow by simp
    have "contents (notifs s') ns' ms' (asap ?g) (idle ?g)"
      using cc lt2(2) note_of_frame [of "notifs s2" _ _ "notifs s'"] by (auto simp: contents_def s'_def)
    moreover have "dom (notifs s') = set (ns' @ ms')" using d2(2) lt2(2) by (auto simp: s'_def)
    moreover have "queue_at s' q0 ns' ms'" using s2(2) by (simp add: s'_def queue_at_def)
    moreover have "\<forall>x \<in> set (ns' @ ms'). x < brk s'" using lt2(1) b2(1) by (auto simp: s'_def less_Suc_eq)
    ultimately have "queue_inv s' ns' ms' (asap ?g) (idle ?g)" using b2(2,3) by (simp add: queue_inv_def s'_def)
    then have "refines s' (spec_step (Enqueue style nm ob cd) g)"
      using refines_same [OF r, of s'] o2 l(2) i2(2) as(2) cl t2 WMPostNow
      by (simp add: publish_calls Let_def only_queues_def s'_def)
    then show ?thesis using run by blast
  next
    case WMPostASAP
    obtain a where a: "WMAddToArray (Some (asapQueue qr)) (Some n) = Some (Some a)" "array_rep a (map Some ns' @ [Some n])"
      "destructor a = destructor (asapQueue qr)"
      by (rule WMAddToArray_rep [OF qr(3)])
    define s' where "s' = set_queue q0 (qr\<lparr>asapQueue := a\<rparr>) s2"
    have run: "perform act (Enqueue style nm ob cd) s = Some s'" using run0 a(1) qr(1) WMPostASAP by (simp add: s'_def)
    have "queue_at s' q0 (ns' @ [n]) ms'" using qr a(2,3) by (simp add: s'_def set_queue_def queue_at_def)
    moreover have "contents (notifs s') (ns' @ [n]) ms' (asap ?g @ [?e]) (idle ?g)"
      using cc N2 lt2(2) by (auto simp: contents_def s'_def set_queue_def list_all2_appendI)
    moreover have "\<forall>x \<in> set ((ns' @ [n]) @ ms'). x < brk s'" using lt2(1) b2(1) by (auto simp: s'_def set_queue_def less_Suc_eq)
    moreover have "dom (notifs s') = set ((ns' @ [n]) @ ms')" using d2(2) by (auto simp: s'_def set_queue_def)
    ultimately have "queue_inv s' (ns' @ [n]) ms' (asap ?g @ [?e]) (idle ?g)"
      using b2(2,3) by (simp add: queue_inv_def s'_def set_queue_def)
    then have "refines s' (spec_step (Enqueue style nm ob cd) g)"
      using refines_same [OF r, of s'] o2 cl WMPostASAP t2
      by (simp add: Let_def only_queues_def s'_def set_queue_def)
    then show ?thesis using run by blast
  next
    case WMPostWhenIdle
    obtain a where a: "WMAddToArray (Some (idleQueue qr)) (Some n) = Some (Some a)" "array_rep a (map Some ms' @ [Some n])"
      "destructor a = destructor (idleQueue qr)"
      by (rule WMAddToArray_rep [OF qr(5)])
    define s' where "s' = set_queue q0 (qr\<lparr>idleQueue := a\<rparr>) s2"
    have run: "perform act (Enqueue style nm ob cd) s = Some s'" using run0 a(1) qr(1) WMPostWhenIdle by (simp add: s'_def)
    have "queue_at s' q0 ns' (ms' @ [n])" using qr a(2,3) by (simp add: s'_def set_queue_def queue_at_def)
    moreover have "contents (notifs s') ns' (ms' @ [n]) (asap ?g) (idle ?g @ [?e])"
      using cc N2 lt2(2) by (auto simp: contents_def s'_def set_queue_def list_all2_appendI)
    moreover have "\<forall>x \<in> set (ns' @ ms' @ [n]). x < brk s'" using lt2(1) b2(1) by (auto simp: s'_def set_queue_def less_Suc_eq)
    moreover have "dom (notifs s') = set (ns' @ ms' @ [n])" using d2(2) by (auto simp: s'_def set_queue_def)
    ultimately have "queue_inv s' ns' (ms' @ [n]) (asap ?g) (idle ?g @ [?e])"
      using b2(2,3) by (simp add: queue_inv_def s'_def set_queue_def)
    then have "refines s' (spec_step (Enqueue style nm ob cd) g)"
      using refines_same [OF r, of s'] o2 cl WMPostWhenIdle t2
      by (simp add: Let_def only_queues_def s'_def set_queue_def)
    then show ?thesis using run by blast
  qed
qed

lemma flush_queues_ok:
  assumes act: "inert act" and r: "refines s g"
  shows "\<exists>s'. flush_queues act a (notificationQueueList s) s = Some s' \<and>
    refines s' (fold publish (if a then asap g else idle g) (if a then g\<lparr>asap := []\<rparr> else g\<lparr>idle := []\<rparr>))"
    (is "\<exists>s'. _ \<and> refines s' ?g")
proof -
  obtain as ns ms where as: "center_inv s as" "registered g = map (reg s) as" and q: "queue_inv s ns ms (asap g) (idle g)"
    and cl: "called g = map (\<lambda>(a, obs, n). (a, obs)) (told s)"
    using r by (auto simp: refines_def)
  let ?es = "if a then asap g else idle g"
  have g: "registered ?g = registered g" "called ?g = called g @ concat (map (calls_for (registered g)) ?es)"
    "asap ?g = (if a then [] else asap g)" "idle ?g = (if a then idle g else [])"
    by (simp_all add: fold_publish)
  show ?thesis
  proof (cases "notificationQueue s")
    case None
    then have e: "notificationQueueList s = NULL" "?es = []" using q by (auto simp: queue_inv_def contents_def)
    then have "?g = g" by (cases g) auto
    then show ?thesis using r e(1) by (subst flush_queues.simps) simp
  next
    case (Some q0)
    let ?ns = "if a then ns else ms" and ?ms = "if a then ms else ns" and ?fs = "if a then idle g else asap g"
    have h: "holds a s q0 ?ns ?ms" "contents (notifs s) ?ns ?ms ?es ?fs" "notificationQueueList s = Some q0"
      "dom (notifs s) = set (ns @ ms)" "\<forall>x \<in> set (ns @ ms). x < brk s" "distinct (ns @ ms)"
      using q Some contents_sym by (auto simp: queue_inv_def holds_queue_at contents_def)
    obtain s' where s': "flush_queue act a q0 s = Some s'" "holds a s' q0 [] ?ms" "contents (notifs s') [] ?ms [] ?fs"
      "notifs s' = without (notifs s) (set ?ns)" "only_queues s (s'\<lparr>told := told s\<rparr>)" "same_queues s s'"
      "map (\<lambda>(a, obs, n). (a, obs)) (told s') =
         map (\<lambda>(a, obs, n). (a, obs)) (told s) @ concat (map (calls_for (map (reg s) as)) ?es)"
      using flush_queue_ok [OF act as(1) h(1,2)] by blast
    obtain qr where qr: "queues s' q0 = Some qr" "qnext qr = NULL" using s'(2) by (auto simp: holds_def)
    have run: "flush_queues act a (notificationQueueList s) s = Some s'"
      unfolding h(3) by (subst flush_queues.simps, simp add: s'(1) qr) (subst flush_queues.simps, simp)
    have "dom (notifs s') = set ?ms" unfolding s'(4) dom_without using h(4,6) by auto
    then have "queue_inv s' (if a then [] else ns) (if a then ms else []) (asap ?g) (idle ?g)"
      using s'(2,3,6) Some h(3,5) unfolding g(3,4)
      by (auto simp: queue_inv_def holds_queue_at same_queues_def contents_def)
    moreover have "called ?g = map (\<lambda>(a, obs, n). (a, obs)) (told s')"
      using s'(7) g(2) cl as(2) by simp
    ultimately have "refines s' ?g" using refines_same [OF r s'(5)] g(1) by blast
    then show ?thesis using run by blast
  qed
qed

lemma perform_refines:
  assumes act: "inert act" and r: "refines s g"
  shows "\<exists>s'. perform act x s = Some s' \<and> refines s' (spec_step x g)"
proof -
  obtain as where as: "center_inv s as" "registered g = map (reg s) as" using r by (auto simp: refines_def)
  show ?thesis
  proof (cases x)
    case (Subscribe a obs nm ob)
    then show ?thesis using refines_subscribe [OF r] by blast
  next
    case (Unsubscribe obs)
    obtain s' where "WMRemoveNotificationObserver obs s = Some s'"
      "center_inv s' [a \<leftarrow> as. reg_observer (reg s a) \<noteq> obs]"
      "\<forall>a \<in> set as. reg_observer (reg s a) \<noteq> obs \<longrightarrow> reg s' a = reg s a" "same_rest s s'" "brk s' = brk s"
      using WMRemoveNotificationObserver_ok [OF as(1)] by blast
    then show ?thesis using refines_removed [OF r as, of s' "\<lambda>r. reg_observer r \<noteq> obs"] Unsubscribe by simp
  next
    case (UnsubscribeFrom obs nm ob)
    obtain s' where "WMRemoveNotificationObserverWithName obs nm ob s = Some s'"
      "center_inv s' [a \<leftarrow> as. \<not> (reg_observer (reg s a) = obs \<and> hit nm ob (reg s a))]"
      "\<forall>a \<in> set as. \<not> (reg_observer (reg s a) = obs \<and> hit nm ob (reg s a)) \<longrightarrow> reg s' a = reg s a"
      "same_rest s s'" "brk s' = brk s"
      using WMRemoveNotificationObserverWithName_ok [OF as(1)] by blast
    then show ?thesis
      using refines_removed [OF r as, of s' "\<lambda>r. \<not> (reg_observer r = obs \<and> hit nm ob r)"] UnsubscribeFrom by simp
  next
    case (Publish nm ob cd)
    then show ?thesis using refines_publish [OF act r] by blast
  next
    case (Enqueue style nm ob cd)
    then show ?thesis using refines_enqueue [OF act r] by blast
  next
    case FlushASAP
    then show ?thesis using flush_queues_ok [OF act r, of True] by (simp add: W_FlushASAPNotificationQueue_def)
  next
    case FlushIdle
    then show ?thesis using flush_queues_ok [OF act r, of False] by (simp add: W_FlushIdleNotificationQueue_def)
  qed
qed

lemma perform_all_refines:
  "inert act \<Longrightarrow> refines s g \<Longrightarrow> \<exists>s'. perform_all act xs s = Some s' \<and> refines s' (fold spec_step xs g)"
proof (induction xs arbitrary: s g)
  case (Cons x xs)
  then show ?case using perform_refines [OF Cons.prems, of x] by fastforce
qed simp

definition startup :: notif_state where
  "startup = W_InitNotificationCenter \<lparr>notifs = Map.empty, observers = Map.empty, queues = Map.empty, brk = 0,
     notificationCenter = NULL, notificationQueueList = NULL, notificationQueue = NULL, told = []\<rparr>"

definition empty_registry :: registry where
  "empty_registry = \<lparr>registered = [], called = [], asap = [], idle = []\<rparr>"

lemma startup_refines: "refines startup empty_registry"
proof -
  let ?c = "\<lparr>nameTable = WMCreateHashTable, objectTable = WMCreateHashTable, nilList = NULL, observerTable = WMCreateHashTable\<rparr>"
  have "tables_ok ?c" by (simp add: tables_ok_def address_table.fresh_ok name_table.fresh_ok)
  moreover have "head ?c k = NULL" for k
    by (cases k) (simp_all add: address_table.fresh_lookup name_table.fresh_lookup)
  ultimately have "center_inv startup []"
    by (simp add: center_inv_def startup_def W_InitNotificationCenter_def lists_ok_def chains_ok_def address_table.fresh_lookup)
  moreover have "queue_inv startup [] [] [] []"
    by (simp add: queue_inv_def startup_def W_InitNotificationCenter_def contents_def)
  ultimately show ?thesis
    by (auto simp: refines_def empty_registry_def startup_def W_InitNotificationCenter_def)
qed

section \<open>Properties\<close>

text \<open>
  C15: whatever sequence of registrations, removals, postings, enqueueings and flushes a client makes,
  with observers that do not call the module back, every access is to a live record, every loop
  ends, and the observers called, in their order, are those that the registry calls: for a
  notification first the observers of its name that want its object, then those of its object,
  then those of everything, the newest first; a queued notification replaces an equal one that
  waits. No notification leaks: those allocated are those that wait in the queues.
\<close>

theorem notifications_refine_registry:
  assumes "inert act"
  shows "\<exists>s. perform_all act xs startup = Some s \<and>
    map (\<lambda>(a, obs, n). (a, obs)) (told s) = called (fold spec_step xs empty_registry) \<and>
    card (dom (notifs s)) = length (asap (fold spec_step xs empty_registry)) + length (idle (fold spec_step xs empty_registry))"
proof -
  let ?g = "fold spec_step xs empty_registry"
  obtain s where s: "perform_all act xs startup = Some s" "refines s ?g"
    using perform_all_refines [OF assms startup_refines] by blast
  then obtain ns ms where q: "queue_inv s ns ms (asap ?g) (idle ?g)" by (auto simp: refines_def)
  then have "card (dom (notifs s)) = length (asap ?g) + length (idle ?g)"
    using distinct_card [of "ns @ ms"] by (auto simp: queue_inv_def contents_def dest!: list_all2_lengthD)
  then show ?thesis using s by (auto simp: refines_def)
qed

definition wm_name :: cstring where "wm_name = CString 100 ''Name''"

definition other_name :: cstring where "other_name = CString 200 ''Other''"

theorem notifications_refine_registry_witness:
  "\<exists>s. perform_all (\<lambda>_ _ _. Some)
      [Subscribe (Some 7) 1 (Some wm_name) 0, Subscribe (Some 7) 2 NULL 5, Subscribe (Some 7) 3 NULL 0,
       Publish wm_name 5 0, Unsubscribe 2, Enqueue WMPostASAP wm_name 5 0, Enqueue WMPostASAP wm_name 5 0,
       Enqueue WMPostWhenIdle other_name 5 0, FlushASAP] startup = Some s \<and>
    map (\<lambda>(a, obs, n). (a, obs)) (told s) = [(7, 1), (7, 2), (7, 3), (7, 1), (7, 3)] \<and>
    card (dom (notifs s)) = 1"
  using notifications_refine_registry [of "\<lambda>_ _ _. Some"
      "[Subscribe (Some 7) 1 (Some wm_name) 0, Subscribe (Some 7) 2 NULL 5, Subscribe (Some 7) 3 NULL 0,
       Publish wm_name 5 0, Unsubscribe 2, Enqueue WMPostASAP wm_name 5 0, Enqueue WMPostASAP wm_name 5 0,
       Enqueue WMPostWhenIdle other_name 5 0, FlushASAP]"]
  by (simp add: inert_def empty_registry_def publish_calls calls_for_def told_by_def wm_name_def other_name_def same_entry_def)

definition removes_second :: "unit action" where
  "removes_second a obs n s = (if obs = 1 then WMRemoveNotificationObserver 2 s else Some s)"

text \<open>
  a posting reads a freed record when an observer that is told removes the observer after it:
  \<open>next\<close> is read before the call, and the record it points to is freed by the call.
\<close>

theorem posting_reads_freed_observer:
  "perform_all removes_second [Subscribe (Some 0) 2 (Some wm_name) 0, Subscribe (Some 0) 1 (Some wm_name) 0] startup \<noteq> None \<and>
   perform_all removes_second
     [Subscribe (Some 0) 2 (Some wm_name) 0, Subscribe (Some 0) 1 (Some wm_name) 0, Publish wm_name 0 0] startup = None"
  by code_simp

definition enqueues_again :: "unit action" where
  "enqueues_again a obs n s =
     (if length (told s) = 1 then perform (\<lambda>_ _ _. Some) (Enqueue WMPostASAP wm_name 0 0) s else Some s)"

text \<open>
  a flush loses a notification when an observer enqueues again the notification it is told of:
  coalescing takes the old one out of the array, and the deletion of the first item after the
  posting then hits another notification, whose observer is never called.
\<close>

theorem flush_loses_notification:
  "map_option (\<lambda>s. (map (\<lambda>(a, obs, n). (a, obs)) (told s)))
     (perform_all enqueues_again
       [Subscribe (Some 0) 1 (Some wm_name) 0, Subscribe (Some 0) 2 (Some other_name) 0,
        Enqueue WMPostASAP wm_name 0 0, Enqueue WMPostASAP other_name 0 0, FlushASAP, FlushASAP] startup) =
   Some [(0, 1), (0, 1)]"
  by code_simp

end
