(* ===== verification/WMHandlers.thy ===== *)
theory WMHandlers
  imports WMNotification "HOL-Library.Signed_Division"
begin

text \<open>
  \<open>WMcore/handlers.c\<close>: timer, idle and input handlers, and the three functions of the event loop
  that call them. The state extends the one of the notifications, since these functions flush the
  notification queues. The timers are a linked list in an explicit heap. What the code calls is in
  the record \<open>env\<close>: the clock, \<open>malloc\<close>, \<open>select\<close> and the client's callbacks, which may do anything to
  the state. \<open>None\<close> is an access to a freed handler, or a loop that does not end.
\<close>

unbundle bit_operations_syntax

section \<open>Handlers\<close>

record timeval =
  tv_sec :: int
  tv_usec :: int

record TimerHandler =
  tcallback :: nat
  twhen :: timeval
  tdata :: pointer
  tnext :: "nat ptr"
  nextDelay :: int

record IdleHandler =
  icallback :: nat
  idata :: pointer

record InputHandler =
  ncallback :: "nat ptr"
  ndata :: pointer
  fd :: int
  nmask :: "32 word"

text \<open>The calls of callbacks, recorded in the state by the three functions that make them.\<close>

datatype call = TimerCall nat nat pointer | IdleCall nat nat pointer | InputCall nat nat int "32 word" pointer

record handler_state = notif_state +
  timers :: "nat \<rightharpoonup> TimerHandler"
  timerHandler :: "nat ptr"
  idles :: "nat \<rightharpoonup> IdleHandler"
  idleHandler :: "nat W_Array ptr"
  inputs :: "nat \<rightharpoonup> InputHandler"
  inputHandler :: "nat W_Array ptr"
  ticks :: nat
  ran :: "call list"

text \<open>
  \<open>clock n\<close> is what the n-th system call sees, \<open>malloc_fails p\<close> whether the allocation of \<open>p\<close> fails,
  \<open>select\<close> gets the number of the call, its arguments, and gives its result and the three sets.
\<close>

record env =
  clock :: "nat \<Rightarrow> timeval"
  malloc_fails :: "nat \<Rightarrow> bool"
  select :: "nat \<Rightarrow> int \<Rightarrow> int set \<Rightarrow> int set \<Rightarrow> int set \<Rightarrow> timeval ptr \<Rightarrow> int \<times> int set \<times> int set \<times> int set"
  run_timer :: "nat \<Rightarrow> pointer \<Rightarrow> handler_state \<Rightarrow> handler_state option"
  run_idle :: "nat \<Rightarrow> pointer \<Rightarrow> handler_state \<Rightarrow> handler_state option"
  run_input :: "nat \<Rightarrow> int \<Rightarrow> 32 word \<Rightarrow> pointer \<Rightarrow> handler_state \<Rightarrow> handler_state option"
  run_observer :: "nat \<Rightarrow> pointer \<Rightarrow> nat \<Rightarrow> handler_state \<Rightarrow> handler_state option"

section \<open>Times\<close>

definition rightNow :: "env \<Rightarrow> handler_state \<Rightarrow> timeval \<times> handler_state" where
  "rightNow env s = (clock env (ticks s), s\<lparr>ticks := Suc (ticks s)\<rparr>)"

definition IS_AFTER :: "timeval \<Rightarrow> timeval \<Rightarrow> bool" where
  "IS_AFTER t1 t2 \<longleftrightarrow> tv_sec t1 > tv_sec t2 \<or> (tv_sec t1 = tv_sec t2 \<and> tv_usec t1 > tv_usec t2)"

definition IS_ZERO :: "timeval \<Rightarrow> bool" where
  "IS_ZERO tv \<longleftrightarrow> tv_sec tv = 0 \<and> tv_usec tv = 0"

definition SET_ZERO :: "timeval" where
  "SET_ZERO = \<lparr>tv_sec = 0, tv_usec = 0\<rparr>"

text \<open>
  The product is an \<open>int\<close> of 32 bits, which wraps (the overflow is undefined in C); the division
  and the remainder of C truncate towards zero.
\<close>

definition addmillisecs :: "timeval \<Rightarrow> int \<Rightarrow> timeval" where
  "addmillisecs tv milliseconds =
     (let usec = tv_usec tv + sint (word_of_int (milliseconds * 1000) :: 32 word)
      in \<lparr>tv_sec = tv_sec tv + usec sdiv 1000000, tv_usec = usec smod 1000000\<rparr>)"

section \<open>Timer handlers\<close>

definition set_timer :: "(TimerHandler \<Rightarrow> TimerHandler) \<Rightarrow> nat \<Rightarrow> handler_state \<Rightarrow> handler_state option" where
  "set_timer f p s = do { h \<leftarrow> timers s p; Some (s\<lparr>timers := (timers s)(p \<mapsto> f h)\<rparr>) }"

definition free_timer :: "nat \<Rightarrow> handler_state \<Rightarrow> handler_state" where
  "free_timer p s = s\<lparr>timers := (timers s)(p := None)\<rparr>"

text \<open>The loop that looks for the place of \<open>p\<close>, from the handler \<open>tmp\<close> on.\<close>

partial_function (option) enqueue_after :: "nat \<Rightarrow> nat \<Rightarrow> handler_state \<Rightarrow> handler_state option" where
  "enqueue_after p tmp s = do {
     h \<leftarrow> timers s p;
     t \<leftarrow> timers s tmp;
     further \<leftarrow> (case tnext t of
                  None \<Rightarrow> Some None
                | Some q \<Rightarrow> do { n \<leftarrow> timers s q; Some (if IS_AFTER (twhen h) (twhen n) then Some q else None) });
     (case further of
        Some q \<Rightarrow> enqueue_after p q s
      | None \<Rightarrow> do {
          s \<leftarrow> set_timer (tnext_update (\<lambda>_. tnext t)) p s;
          set_timer (tnext_update (\<lambda>_. Some p)) tmp s }) }"

definition enqueueTimerHandler :: "nat \<Rightarrow> handler_state \<Rightarrow> handler_state option" where
  "enqueueTimerHandler p s = do {
     h \<leftarrow> timers s p;
     first \<leftarrow> (case timerHandler s of
                None \<Rightarrow> Some None
              | Some q \<Rightarrow> do { n \<leftarrow> timers s q; Some (if IS_AFTER (twhen h) (twhen n) then Some q else None) });
     (case first of
        None \<Rightarrow> do {
          s' \<leftarrow> set_timer (tnext_update (\<lambda>_. timerHandler s)) p s;
          Some (s'\<lparr>timerHandler := Some p\<rparr>) }
      | Some q \<Rightarrow> enqueue_after p q s) }"

partial_function (option) skip_running :: "nat ptr \<Rightarrow> handler_state \<Rightarrow> (nat ptr) option" where
  "skip_running handler s =
     (case handler of
        None \<Rightarrow> Some None
      | Some p \<Rightarrow> do {
          h \<leftarrow> timers s p;
          (if IS_ZERO (twhen h) then skip_running (tnext h) s else Some (Some p)) })"

definition delayUntilNextTimerEvent :: "env \<Rightarrow> handler_state \<Rightarrow> (timeval \<times> handler_state) option" where
  "delayUntilNextTimerEvent env s = do {
     handler \<leftarrow> skip_running (timerHandler s) s;
     (case handler of
        None \<Rightarrow> Some (\<lparr>tv_sec = 0, tv_usec = 0\<rparr>, s)
      | Some p \<Rightarrow> do {
          let (now, s) = rightNow env s;
          h \<leftarrow> timers s p;
          (if IS_AFTER now (twhen h) then Some (\<lparr>tv_sec = 0, tv_usec = 0\<rparr>, s)
           else let sec = tv_sec (twhen h) - tv_sec now; usec = tv_usec (twhen h) - tv_usec now
                in Some (if usec < 0 then \<lparr>tv_sec = sec - 1, tv_usec = usec + 1000000\<rparr>
                         else \<lparr>tv_sec = sec, tv_usec = usec\<rparr>, s)) }) }"

definition WMAddTimerHandler :: "env \<Rightarrow> int \<Rightarrow> nat \<Rightarrow> pointer \<Rightarrow> handler_state \<Rightarrow> (handler_state \<times> nat ptr) option" where
  "WMAddTimerHandler env milliseconds cb cdata s =
     (if malloc_fails env (brk s) then Some (s, NULL)
      else do {
        let p = brk s;
        let (now, s) = rightNow env s;
        s \<leftarrow> enqueueTimerHandler p
          (s\<lparr>timers := (timers s)(p \<mapsto> \<lparr>tcallback = cb, twhen = addmillisecs now milliseconds, tdata = cdata,
               tnext = NULL, nextDelay = 0\<rparr>), brk := Suc p\<rparr>);
        Some (s, Some p) })"

definition WMAddPersistentTimerHandler ::
  "env \<Rightarrow> int \<Rightarrow> nat \<Rightarrow> pointer \<Rightarrow> handler_state \<Rightarrow> (handler_state \<times> nat ptr) option" where
  "WMAddPersistentTimerHandler env milliseconds cb cdata s = do {
     (s, handler) \<leftarrow> WMAddTimerHandler env milliseconds cb cdata s;
     (case handler of
        None \<Rightarrow> Some (s, handler)
      | Some p \<Rightarrow> do { s \<leftarrow> set_timer (nextDelay_update (\<lambda>_. milliseconds)) p s; Some (s, handler) }) }"

partial_function (option) delete_data_after :: "pointer \<Rightarrow> nat \<Rightarrow> handler_state \<Rightarrow> handler_state option" where
  "delete_data_after cdata tmp s = do {
     t \<leftarrow> timers s tmp;
     (case tnext t of
        None \<Rightarrow> Some s
      | Some q \<Rightarrow> do {
          h \<leftarrow> timers s q;
          (if tdata h = cdata
           then do {
             s \<leftarrow> set_timer (nextDelay_update (\<lambda>_. 0)) q s;
             (if IS_ZERO (twhen h) then Some s
              else do {
                s \<leftarrow> set_timer (tnext_update (\<lambda>_. tnext h)) tmp s;
                Some (free_timer q s) }) }
           else delete_data_after cdata q s) }) }"

definition WMDeleteTimerWithClientData :: "pointer \<Rightarrow> handler_state \<Rightarrow> handler_state option" where
  "WMDeleteTimerWithClientData cdata s =
     (if cdata = 0 then Some s
      else case timerHandler s of
        None \<Rightarrow> Some s
      | Some tmp \<Rightarrow> do {
          t \<leftarrow> timers s tmp;
          (if tdata t = cdata
           then do {
             s \<leftarrow> set_timer (nextDelay_update (\<lambda>_. 0)) tmp s;
             Some (if \<not> IS_ZERO (twhen t) then free_timer tmp (s\<lparr>timerHandler := tnext t\<rparr>) else s) }
           else delete_data_after cdata tmp s) })"

partial_function (option) delete_after :: "nat \<Rightarrow> nat \<Rightarrow> handler_state \<Rightarrow> handler_state option" where
  "delete_after handler tmp s = do {
     t \<leftarrow> timers s tmp;
     (case tnext t of
        None \<Rightarrow> Some s
      | Some q \<Rightarrow>
          (if q = handler
           then do {
             h \<leftarrow> timers s handler;
             s \<leftarrow> set_timer (tnext_update (\<lambda>_. tnext h)) tmp s;
             Some (free_timer handler s) }
           else delete_after handler q s)) }"

definition WMDeleteTimerHandler :: "nat ptr \<Rightarrow> handler_state \<Rightarrow> handler_state option" where
  "WMDeleteTimerHandler handlerID s =
     (case handlerID of
        None \<Rightarrow> Some s
      | Some handler \<Rightarrow>
          (case timerHandler s of
             None \<Rightarrow> Some s
           | Some tmp \<Rightarrow> do {
               s \<leftarrow> set_timer (nextDelay_update (\<lambda>_. 0)) handler s;
               h \<leftarrow> timers s handler;
               (if IS_ZERO (twhen h) then Some s
                else if tmp = handler then Some (free_timer handler (s\<lparr>timerHandler := tnext h\<rparr>))
                else delete_after handler tmp s) }))"

text \<open>The two loops of \<open>W_CheckTimerHandlers\<close>: the due timers are called, then dropped or enqueued again.\<close>

partial_function (option) fire :: "env \<Rightarrow> timeval \<Rightarrow> nat ptr \<Rightarrow> handler_state \<Rightarrow> handler_state option" where
  "fire env now handler s =
     (case handler of
        None \<Rightarrow> Some s
      | Some p \<Rightarrow> do {
          h \<leftarrow> timers s p;
          (if IS_AFTER now (twhen h)
           then do {
             s \<leftarrow> (if \<not> IS_ZERO (twhen h)
                  then do {
                    s \<leftarrow> set_timer (twhen_update (\<lambda>_. SET_ZERO)) p s;
                    run_timer env (tcallback h) (tdata h) (s\<lparr>ran := ran s @ [TimerCall p (tcallback h) (tdata h)]\<rparr>) }
                  else Some s);
             h \<leftarrow> timers s p;
             fire env now (tnext h) s }
           else Some s) })"

partial_function (option) requeue :: "timeval \<Rightarrow> handler_state \<Rightarrow> handler_state option" where
  "requeue now s =
     (case timerHandler s of
        None \<Rightarrow> Some s
      | Some p \<Rightarrow> do {
          h \<leftarrow> timers s p;
          (if IS_ZERO (twhen h)
           then do {
             let s = s\<lparr>timerHandler := tnext h\<rparr>;
             s \<leftarrow> (if nextDelay h > 0
                  then do {
                    s \<leftarrow> set_timer (twhen_update (\<lambda>_. addmillisecs now (nextDelay h))) p s;
                    enqueueTimerHandler p s }
                  else Some (free_timer p s));
             requeue now s }
           else Some s) })"

definition W_CheckTimerHandlers :: "env \<Rightarrow> handler_state \<Rightarrow> handler_state option" where
  "W_CheckTimerHandlers env s =
     (case timerHandler s of
        None \<Rightarrow> W_FlushASAPNotificationQueue (run_observer env) s
      | Some p \<Rightarrow> do {
          let (now, s) = rightNow env s;
          s \<leftarrow> fire env now (timerHandler s) s;
          s \<leftarrow> requeue now s;
          W_FlushASAPNotificationQueue (run_observer env) s })"

section \<open>Idle handlers\<close>

definition WMAddIdleHandler :: "env \<Rightarrow> nat \<Rightarrow> pointer \<Rightarrow> handler_state \<Rightarrow> (handler_state \<times> nat ptr) option" where
  "WMAddIdleHandler env cb cdata s =
     (if malloc_fails env (brk s) then Some (s, NULL)
      else do {
        let p = brk s;
        let arr = (case idleHandler s of None \<Rightarrow> WMCreateArrayWithDestructor 16 True | Some a \<Rightarrow> a);
        arr \<leftarrow> WMAddToArray (Some arr) (Some p);
        Some (s\<lparr>idles := (idles s)(p \<mapsto> \<lparr>icallback = cb, idata = cdata\<rparr>), brk := Suc p, idleHandler := arr\<rparr>, Some p) })"

text \<open>What the destructor \<open>wfree\<close> of the arrays frees.\<close>

definition freed :: "nat ptr list \<Rightarrow> (nat \<rightharpoonup> 'h) \<Rightarrow> (nat \<rightharpoonup> 'h)" where
  "freed dead h = (\<lambda>p. if Some p \<in> set dead then None else h p)"

definition WMDeleteIdleHandler :: "nat ptr \<Rightarrow> handler_state \<Rightarrow> handler_state option" where
  "WMDeleteIdleHandler handlerID s =
     (if handlerID = NULL \<or> idleHandler s = NULL then Some s
      else do {
        (arr, _, dead) \<leftarrow> WMRemoveFromArrayMatching (idleHandler s) None handlerID;
        Some (s\<lparr>idleHandler := arr, idles := freed dead (idles s)\<rparr>) })"

fun run_idles :: "env \<Rightarrow> nat ptr list \<Rightarrow> handler_state \<Rightarrow> handler_state option" where
  "run_idles env [] s = Some s"
| "run_idles env (handler # rest) s = do {
     i \<leftarrow> WMFindInArray (idleHandler s) None handler;
     (if i = WANotFound then run_idles env rest s
      else do {
        p \<leftarrow> handler;
        h \<leftarrow> idles s p;
        s \<leftarrow> run_idle env (icallback h) (idata h) (s\<lparr>ran := ran s @ [IdleCall p (icallback h) (idata h)]\<rparr>);
        s \<leftarrow> WMDeleteIdleHandler handler s;
        run_idles env rest s }) }"

definition W_CheckIdleHandlers :: "env \<Rightarrow> handler_state \<Rightarrow> (handler_state \<times> bool) option" where
  "W_CheckIdleHandlers env s =
     (if idleHandler s = NULL \<or> WMGetArrayItemCount (idleHandler s) = 0
      then do {
        s \<leftarrow> W_FlushIdleNotificationQueue (run_observer env) s;
        Some (s, idleHandler s \<noteq> NULL \<and> WMGetArrayItemCount (idleHandler s) > 0) }
      else do {
        arr \<leftarrow> idleHandler s;
        handlerCopy \<leftarrow> WMCreateArrayWithArray arr;
        handlers \<leftarrow> WM_ITERATE_ARRAY handlerCopy;
        s \<leftarrow> run_idles env handlers s;
        s \<leftarrow> W_FlushIdleNotificationQueue (run_observer env) s;
        Some (s, WMGetArrayItemCount (idleHandler s) > 0) })"

section \<open>Input handlers\<close>

definition WIReadMask :: "32 word" where "WIReadMask = 1"
definition WIWriteMask :: "32 word" where "WIWriteMask = 2"
definition WIExceptMask :: "32 word" where "WIExceptMask = 4"

definition WMAddInputHandler ::
  "int \<Rightarrow> 32 word \<Rightarrow> nat ptr \<Rightarrow> pointer \<Rightarrow> handler_state \<Rightarrow> (handler_state \<times> nat ptr) option" where
  "WMAddInputHandler descriptor condition proc cdata s = do {
     let p = brk s;
     let arr = (case inputHandler s of None \<Rightarrow> WMCreateArrayWithDestructor 16 True | Some a \<Rightarrow> a);
     arr \<leftarrow> WMAddToArray (Some arr) (Some p);
     Some (s\<lparr>inputs := (inputs s)(p \<mapsto> \<lparr>ncallback = proc, ndata = cdata, fd = descriptor, nmask = condition\<rparr>),
             brk := Suc p, inputHandler := arr\<rparr>, Some p) }"

definition WMDeleteInputHandler :: "nat ptr \<Rightarrow> handler_state \<Rightarrow> handler_state option" where
  "WMDeleteInputHandler handlerID s =
     (if handlerID = NULL \<or> inputHandler s = NULL then Some s
      else do {
        (arr, _, dead) \<leftarrow> WMRemoveFromArrayMatching (inputHandler s) None handlerID;
        Some (s\<lparr>inputHandler := arr, inputs := freed dead (inputs s)\<rparr>) })"

text \<open>\<open>FD_SET\<close> writes outside the set for a descriptor that is not below \<open>FD_SETSIZE\<close>.\<close>

definition FD_SET :: "int \<Rightarrow> int set \<Rightarrow> int set option" where
  "FD_SET n S = (if 0 \<le> n \<and> n < 1024 then Some (insert n S) else None)"

definition FD_SET_if :: "bool \<Rightarrow> int \<Rightarrow> int set \<Rightarrow> int set option" where
  "FD_SET_if b n S = (if b then FD_SET n S else Some S)"

text \<open>The loop that fills the three sets.\<close>

function collect_fds ::
  "int \<Rightarrow> int \<Rightarrow> handler_state \<Rightarrow> int set \<times> int set \<times> int set \<times> int \<Rightarrow> (int set \<times> int set \<times> int set \<times> int) option" where
  "collect_fds i nfds s sets =
     (if i < nfds
      then do {
        handler \<leftarrow> WMGetFromArray (inputHandler s) i;
        p \<leftarrow> handler;
        h \<leftarrow> inputs s p;
        let (rset, wset, eset, maxfd) = sets;
        rset \<leftarrow> FD_SET_if (nmask h AND WIReadMask \<noteq> 0) (fd h) rset;
        wset \<leftarrow> FD_SET_if (nmask h AND WIWriteMask \<noteq> 0) (fd h) wset;
        eset \<leftarrow> FD_SET_if (nmask h AND WIExceptMask \<noteq> 0) (fd h) eset;
        collect_fds (i + 1) nfds s (rset, wset, eset, if maxfd < fd h then fd h else maxfd) }
      else Some sets)"
  by pat_completeness auto
termination by (relation "measure (\<lambda>(i, nfds, s, sets). nat (nfds - i))") auto

declare collect_fds.simps [simp del]

definition ready_mask :: "InputHandler \<Rightarrow> int set \<Rightarrow> int set \<Rightarrow> int set \<Rightarrow> 32 word" where
  "ready_mask h rset wset eset =
     (if nmask h AND WIReadMask \<noteq> 0 \<and> fd h \<in> rset then WIReadMask else 0) OR
     (if nmask h AND WIWriteMask \<noteq> 0 \<and> fd h \<in> wset then WIWriteMask else 0) OR
     (if nmask h AND WIExceptMask \<noteq> 0 \<and> fd h \<in> eset then WIExceptMask else 0)"

fun run_inputs :: "env \<Rightarrow> int set \<times> int set \<times> int set \<Rightarrow> nat ptr list \<Rightarrow> handler_state \<Rightarrow> handler_state option" where
  "run_inputs env sets [] s = Some s"
| "run_inputs env sets (handler # rest) s = do {
     i \<leftarrow> WMFindInArray (inputHandler s) None handler;
     (if i = WANotFound then run_inputs env sets rest s
      else do {
        p \<leftarrow> handler;
        h \<leftarrow> inputs s p;
        let (rset, wset, eset) = sets;
        let m = ready_mask h rset wset eset;
        s \<leftarrow> (case ncallback h of
               None \<Rightarrow> Some s
             | Some cb \<Rightarrow>
                 if m \<noteq> 0 then run_input env cb (fd h) m (ndata h) (s\<lparr>ran := ran s @ [InputCall p cb (fd h) m (ndata h)]\<rparr>)
                 else Some s);
        run_inputs env sets rest s }) }"

text \<open>The version that uses \<open>select\<close>.\<close>

definition W_HandleInputEvents :: "env \<Rightarrow> bool \<Rightarrow> int \<Rightarrow> handler_state \<Rightarrow> (handler_state \<times> bool) option" where
  "W_HandleInputEvents env waitForInput inputfd s = do {
     let nfds = WMGetArrayItemCount (inputHandler s);
     (if inputfd < 0 \<and> nfds = 0
      then do {
        s \<leftarrow> W_FlushASAPNotificationQueue (run_observer env) s;
        Some (s, False) }
      else do {
        rset \<leftarrow> FD_SET_if (0 \<le> inputfd) inputfd {};
        (rset, wset, eset, maxfd) \<leftarrow> collect_fds 0 nfds s (rset, {}, {}, if inputfd < 0 then 0 else inputfd);
        (timeout, s) \<leftarrow> (if \<not> waitForInput then Some (Some SET_ZERO, s)
                        else if timerHandler s \<noteq> NULL
                        then do { (delay, s) \<leftarrow> delayUntilNextTimerEvent env s; Some (Some delay, s) }
                        else Some (NULL, s));
        let (count, rset, wset, eset) = select env (ticks s) (1 + maxfd) rset wset eset timeout;
        let s = s\<lparr>ticks := Suc (ticks s)\<rparr>;
        s \<leftarrow> (if count > 0 \<and> nfds > 0
             then do {
               arr \<leftarrow> inputHandler s;
               handlerCopy \<leftarrow> WMCreateArrayWithArray arr;
               handlers \<leftarrow> WM_ITERATE_ARRAY handlerCopy;
               run_inputs env (rset, wset, eset) handlers s }
             else Some s);
        s \<leftarrow> W_FlushASAPNotificationQueue (run_observer env) s;
        Some (s, count > 0) }) }"

declare
  enqueue_after.simps [code] and
  skip_running.simps [code] and
  delete_data_after.simps [code] and
  delete_after.simps [code] and
  fire.simps [code] and
  requeue.simps [code]

end
