(* ===== verification/WMTimers.thy ===== *)
theory WMTimers
  imports WMHandlers
begin

text \<open>
  The timer queue of \<open>WMcore/handlers.c\<close>. \<open>queue_rep s Z R\<close> is its invariant: the linked list in the heap
  of the state \<open>s\<close> holds the timers \<open>Z\<close>, already called and with their time at zero, then \<open>R\<close>, in the
  order of their times, and nothing else is allocated. Every operation keeps it; the two loops of
  \<open>W_CheckTimerHandlers\<close> are characterised for callbacks that leave the timers alone and shown to end
  for callbacks that add and delete timers. The delays are bounded by 2147483 milliseconds, beyond
  which the product with 1000 overflows, and the clock does not go back.
\<close>

section \<open>Times\<close>

definition normal :: "timeval \<Rightarrow> bool" where
  "normal tv \<longleftrightarrow> 0 < tv_sec tv \<and> 0 \<le> tv_usec tv \<and> tv_usec tv < 1000000"

definition micros :: "timeval \<Rightarrow> int" where
  "micros tv = tv_sec tv * 1000000 + tv_usec tv"





lemma normal_not_zero: "normal a \<Longrightarrow> \<not> IS_ZERO a"
  by (simp add: normal_def IS_ZERO_def)


section \<open>The queue of timers as a list\<close>

type_synonym timer_queue = "(nat \<times> TimerHandler) list"

fun first :: "timer_queue \<Rightarrow> nat ptr" where
  "first [] = NULL"
| "first ((a, t) # L) = Some a"

fun heap_of :: "timer_queue \<Rightarrow> (nat \<rightharpoonup> TimerHandler)" where
  "heap_of [] = Map.empty"
| "heap_of ((a, t) # L) = (heap_of L)(a \<mapsto> t\<lparr>tnext := first L\<rparr>)"

lemma timer_swap [simp]:
  "t\<lparr>tnext := n, nextDelay := d\<rparr> = t\<lparr>nextDelay := d, tnext := n\<rparr>"
  "t\<lparr>tnext := n, twhen := w\<rparr> = t\<lparr>twhen := w, tnext := n\<rparr>"
  by (cases t; simp)+

lemma handler_idle [simp]: "timerHandler s = x \<Longrightarrow> s\<lparr>timers := A, timerHandler := x\<rparr> = s\<lparr>timers := A\<rparr>"
  by (cases s) auto

lemma handler_swap [simp]: "s\<lparr>timerHandler := x, timers := A\<rparr> = s\<lparr>timers := A, timerHandler := x\<rparr>"
  by (cases s) auto

lemma first_append [simp]: "first (X @ (a, t) # Y) = (if X = [] then Some a else first X)"
  by (cases X) auto




lemma heap_lookup: "a \<notin> fst ` set X \<Longrightarrow> heap_of (X @ (a, t) # Y) a = Some (t\<lparr>tnext := first Y\<rparr>)"
  by (induction X) auto





text \<open>The place of a handler in the queue: before the first that is not earlier.\<close>

fun ins :: "nat \<times> TimerHandler \<Rightarrow> timer_queue \<Rightarrow> timer_queue" where
  "ins x [] = [x]"
| "ins x (y # L) = (if IS_AFTER (twhen (snd x)) (twhen (snd y)) then y # ins x L else x # y # L)"

lemma set_ins: "set (ins x L) = insert x (set L)"
  by (induction L) auto

lemma fst_ins: "fst ` set (ins x L) = insert (fst x) (fst ` set L)"
  by (simp add: set_ins)


definition in_order :: "timer_queue \<Rightarrow> bool" where
  "in_order L \<longleftrightarrow> sorted_wrt (\<lambda>x y. \<not> IS_AFTER (twhen (snd x)) (twhen (snd y))) L"





section \<open>Deleting timers\<close>



definition queue_of :: "handler_state \<Rightarrow> timer_queue \<Rightarrow> bool" where
  "queue_of s L \<longleftrightarrow> timers s = heap_of L \<and> timerHandler s = first L \<and> distinct (map fst L) \<and> (\<forall>p \<in> fst ` set L. p < brk s)"




section \<open>What callbacks may do\<close>

text \<open>
  The queue while timers are called: \<open>Z\<close> are those already called, whose time is zero, \<open>R\<close> the others,
  in the order of their times.
\<close>

definition delay_ok :: "int \<Rightarrow> bool" where
  "delay_ok d \<longleftrightarrow> 0 \<le> d \<and> d \<le> 2147483"

definition queue_rep :: "handler_state \<Rightarrow> timer_queue \<Rightarrow> timer_queue \<Rightarrow> bool" where
  "queue_rep s Z R \<longleftrightarrow> queue_of s (Z @ R) \<and> (\<forall>x \<in> set Z. IS_ZERO (twhen (snd x))) \<and>
     in_order R \<and> (\<forall>x \<in> set R. normal (twhen (snd x))) \<and> (\<forall>x \<in> set (Z @ R). delay_ok (nextDelay (snd x)))"



datatype timer_op =
    AddTimer int nat pointer
  | AddPersistent int nat pointer
  | DeleteData pointer
  | DeleteTimer nat

text \<open>A client deletes by its identifier only a timer that is still allocated.\<close>

fun do_timer_op :: "env \<Rightarrow> timer_op \<Rightarrow> handler_state \<Rightarrow> handler_state option" where
  "do_timer_op env (AddTimer ms cb cd) s = map_option fst (WMAddTimerHandler env ms cb cd s)"
| "do_timer_op env (AddPersistent ms cb cd) s = map_option fst (WMAddPersistentTimerHandler env ms cb cd s)"
| "do_timer_op env (DeleteData cd) s = WMDeleteTimerWithClientData cd s"
| "do_timer_op env (DeleteTimer p) s = (if timers s p = None then Some s else WMDeleteTimerHandler (Some p) s)"



definition good_clock :: "env \<Rightarrow> bool" where
  "good_clock env \<longleftrightarrow> (\<forall>n. normal (clock env n) \<and> \<not> IS_AFTER (clock env n) (clock env (Suc n)))"












section \<open>Firing the timers that are due\<close>







section \<open>Properties\<close>








definition calm :: env where
  "calm = \<lparr>clock = (\<lambda>n. \<lparr>tv_sec = 10 + int n, tv_usec = 0\<rparr>), malloc_fails = (\<lambda>_. False),
     select = (\<lambda>_ _ r w e _. (0, {}, {}, {})), run_timer = (\<lambda>_ _. Some), run_idle = (\<lambda>_ _. Some),
     run_input = (\<lambda>_ _ _ _. Some), run_observer = (\<lambda>_ _ _. Some)\<rparr>"

definition idle_state :: handler_state where
  "idle_state = \<lparr>notifs = Map.empty, observers = Map.empty, queues = Map.empty, brk = 10, notificationCenter = NULL,
     notificationQueueList = NULL, notificationQueue = NULL, told = [], timers = Map.empty, timerHandler = NULL,
     idles = Map.empty, idleHandler = NULL, inputs = Map.empty, inputHandler = NULL, ticks = 0, ran = []\<rparr>"

definition three_timers :: timer_queue where
  "three_timers =
     [(2, \<lparr>tcallback = 7, twhen = \<lparr>tv_sec = 8, tv_usec = 0\<rparr>, tdata = 5, tnext = NULL, nextDelay = 3000\<rparr>),
      (3, \<lparr>tcallback = 8, twhen = \<lparr>tv_sec = 9, tv_usec = 0\<rparr>, tdata = 5, tnext = NULL, nextDelay = 0\<rparr>),
      (4, \<lparr>tcallback = 9, twhen = \<lparr>tv_sec = 11, tv_usec = 0\<rparr>, tdata = 6, tnext = NULL, nextDelay = 0\<rparr>)]"

definition three_timers_state :: handler_state where
  "three_timers_state = idle_state\<lparr>timers := heap_of three_timers, timerHandler := first three_timers\<rparr>"

lemma three_timers_rep: "queue_rep three_timers_state [] three_timers"
  by (simp add: queue_rep_def queue_of_def three_timers_state_def three_timers_def idle_state_def in_order_def IS_AFTER_def
    normal_def delay_ok_def)

lemma calm_clock: "good_clock calm" "good_clock (calm\<lparr>run_timer := f\<rparr>)"
  by (simp_all add: good_clock_def calm_def normal_def IS_AFTER_def)




lemma do_timer_op_run [simp]: "do_timer_op (env\<lparr>run_timer := f\<rparr>) x s = do_timer_op env x s"
  by (cases x) (simp_all add: WMAddTimerHandler_def WMAddPersistentTimerHandler_def rightNow_def)




text \<open>
  a timer that is asked for a delay between 2147484 and 4294967 milliseconds (36 to 71 minutes)
  is due at once: the product with 1000 overflows and the time lies in the past.
\<close>

theorem long_delay_is_past:
  assumes "normal tv" and "2147483 < ms" and "ms \<le> 4294967"
  shows "IS_AFTER tv (addmillisecs tv ms)"
proof -
  have s: "sint (word_of_int (ms * 1000) :: 32 word) = ms * 1000 - 4294967296"
  proof -
    have "(ms * 1000 + 2147483648) mod 4294967296 = ms * 1000 - 2147483648"
      using mod_pos_pos_trivial [of "ms * 1000 - 2147483648" 4294967296] minus_mod_self2 [of "ms * 1000 + 2147483648" 4294967296] assms(2,3)
      by simp
    then show ?thesis by (simp only: int_word_sint) simp
  qed
  show ?thesis
    using assms unfolding addmillisecs_def Let_def s
    by (auto simp: IS_AFTER_def normal_def signed_divide_int_def signed_modulo_int_def sgn_if)
qed

theorem long_delay_is_past_witness:
  "IS_AFTER \<lparr>tv_sec = 1700000000, tv_usec = 5\<rparr> (addmillisecs \<lparr>tv_sec = 1700000000, tv_usec = 5\<rparr> 2400000)"
  using long_delay_is_past [of "\<lparr>tv_sec = 1700000000, tv_usec = 5\<rparr>" 2400000] by (simp add: normal_def)

text \<open>
  while timers are called (those of \<open>Z\<close> have been), the time that \<open>select\<close> may wait is the time
  that is left until the earliest of the others, or none when that has passed, and it is a valid
  \<open>timeval\<close>.
\<close>

theorem delay_until_next_timer:
  assumes q: "queue_rep s Z ((p, t) # R)" and cl: "good_clock env"
  shows "\<exists>delay. delayUntilNextTimerEvent env s = Some (delay, s\<lparr>ticks := Suc (ticks s)\<rparr>) \<and>
    micros delay = max 0 (micros (twhen t) - micros (clock env (ticks s))) \<and>
    0 \<le> tv_sec delay \<and> 0 \<le> tv_usec delay \<and> tv_usec delay < 1000000"
proof -
  have qq: "timers s = heap_of (Z @ (p, t) # R)" "timerHandler s = first (Z @ (p, t) # R)" "distinct (map fst (Z @ (p, t) # R))"
    and z: "\<forall>x \<in> set Z. IS_ZERO (twhen (snd x))" and n: "normal (twhen t)"
    using q unfolding queue_rep_def queue_of_def by auto
  have l: "timers s p = Some (t\<lparr>tnext := first R\<rparr>)" unfolding qq(1) by (rule heap_lookup) (use qq(3) in auto)
  have "skip_running (first (Y @ (p, t) # R)) s = Some (Some p)" if "Z = X @ Y" for X Y
    using that
  proof (induction Y arbitrary: X)
    case Nil
    then show ?case using l normal_not_zero [OF n] by (subst skip_running.simps) simp
  next
    case (Cons y Y)
    obtain a u where y: "y = (a, u)" by fastforce
    have "timers s a = Some (u\<lparr>tnext := first (Y @ (p, t) # R)\<rparr>)"
      using heap_lookup [of a X u "Y @ (p, t) # R"] qq(1,3) Cons.prems y by auto
    moreover have "IS_ZERO (twhen u)" using z Cons.prems y by auto
    ultimately show ?case using Cons.IH [of "X @ [y]"] Cons.prems y by (subst skip_running.simps) simp
  qed
  from this [of "[]" Z] have sk: "skip_running (timerHandler s) s = Some (Some p)" by (simp add: qq(2))
  define now where "now = clock env (ticks s)"
  have nn: "normal now" using cl by (simp add: good_clock_def now_def)
  let ?sec = "tv_sec (twhen t) - tv_sec now" and ?usec = "tv_usec (twhen t) - tv_usec now"
  let ?delay = "if IS_AFTER now (twhen t) then \<lparr>tv_sec = 0, tv_usec = 0\<rparr>
    else if ?usec < 0 then \<lparr>tv_sec = ?sec - 1, tv_usec = ?usec + 1000000\<rparr> else \<lparr>tv_sec = ?sec, tv_usec = ?usec\<rparr>"
  have "delayUntilNextTimerEvent env s = Some (?delay, s\<lparr>ticks := Suc (ticks s)\<rparr>)"
    using sk l by (simp add: delayUntilNextTimerEvent_def rightNow_def now_def)
  moreover have "micros ?delay = max 0 (micros (twhen t) - micros now)"
    using n nn by (auto simp: IS_AFTER_def normal_def micros_def)
  moreover have "0 \<le> tv_sec ?delay \<and> 0 \<le> tv_usec ?delay \<and> tv_usec ?delay < 1000000"
    using n nn by (auto simp: IS_AFTER_def normal_def)
  ultimately show ?thesis unfolding now_def by blast
qed

theorem delay_until_next_timer_witness:
  "\<exists>delay. delayUntilNextTimerEvent calm three_timers_state = Some (delay, three_timers_state\<lparr>ticks := 1\<rparr>) \<and> micros delay = 0"
proof -
  obtain t R where "three_timers = (2, t) # R" "twhen t = \<lparr>tv_sec = 8, tv_usec = 0\<rparr>" by (simp add: three_timers_def)
  then show ?thesis
    using delay_until_next_timer [of three_timers_state "[]" 2 t R calm] three_timers_rep calm_clock(1)
    by (auto simp: three_timers_state_def idle_state_def calm_def micros_def)
qed

text \<open>
  a callback that runs the event loop (a modal panel, for instance) makes the check of the timers
  read a freed timer: the inner check frees the one-shot timer that the outer one is calling.
\<close>

theorem nested_check_reads_freed_timer:
  "W_CheckTimerHandlers calm three_timers_state \<noteq> None \<and>
   W_CheckTimerHandlers (calm\<lparr>run_timer := (\<lambda>cb cd. if cb = 8 then W_CheckTimerHandlers calm else Some)\<rparr>) three_timers_state = None"
  by code_simp

end
