(* ===== verification/WMTree.thy ===== *)
theory WMTree
  imports WMArrays
begin

text \<open>
  \<open>WMcore/tree.c\<close>: trees of nodes with a parent pointer, a depth and an array of leaves. The nodes
  live in an explicit heap; \<open>None\<close> is an access through NULL or to a freed node, or a recursion that
  does not end. The state also records the data that destructors were called on, and the calls of
  the walk procedure. The loops over the leaves are functions of the node and the index that call
  themselves for a leaf and for the next index, as the recursion of the code does.
\<close>

section \<open>Nodes\<close>

type_synonym pointer = "64 word"

record W_TreeNode =
  data :: pointer
  leaves :: "nat W_Array ptr"
  depth :: int
  parent :: "nat ptr"
  hasDestructor :: bool

record tree_state =
  nodes :: "nat \<rightharpoonup> W_TreeNode"
  brk :: nat
  destroyed :: "pointer list"
  walked :: "nat list"

definition set_node :: "(W_TreeNode \<Rightarrow> W_TreeNode) \<Rightarrow> nat \<Rightarrow> tree_state \<Rightarrow> tree_state option" where
  "set_node f n s = do { node \<leftarrow> nodes s n; Some (s\<lparr>nodes := (nodes s)(n \<mapsto> f node)\<rparr>) }"

text \<open>\<open>destroyNode\<close> for the nodes of a list: freeing the array of leaves calls it on them, the last first.\<close>

partial_function (option) destroy_nodes :: "nat ptr list \<Rightarrow> tree_state \<Rightarrow> tree_state option" where
  "destroy_nodes xs s =
     (case xs of
        [] \<Rightarrow> Some s
      | x # rest \<Rightarrow> do {
          n \<leftarrow> x;
          node \<leftarrow> nodes s n;
          let s = (if hasDestructor node then s\<lparr>destroyed := destroyed s @ [data node]\<rparr> else s);
          dead \<leftarrow> WMFreeArray (leaves node);
          s \<leftarrow> destroy_nodes dead s;
          destroy_nodes rest (s\<lparr>nodes := (nodes s)(n := None)\<rparr>) })"

definition destroyNode :: "nat \<Rightarrow> tree_state \<Rightarrow> tree_state option" where
  "destroyNode n s = destroy_nodes [Some n] s"

definition WMCreateTreeNodeWithDestructor :: "pointer \<Rightarrow> bool \<Rightarrow> tree_state \<Rightarrow> tree_state \<times> nat" where
  "WMCreateTreeNodeWithDestructor x destroy s =
     (s\<lparr>nodes := (nodes s)(brk s \<mapsto>
          \<lparr>data = x, leaves = NULL, depth = 0, parent = NULL, hasDestructor = destroy\<rparr>), brk := Suc (brk s)\<rparr>, brk s)"

definition WMCreateTreeNode :: "pointer \<Rightarrow> tree_state \<Rightarrow> tree_state \<times> nat" where
  "WMCreateTreeNode x s = WMCreateTreeNodeWithDestructor x False s"

section \<open>Inserting\<close>

text \<open>The end of both inserting functions.\<close>

definition add_leaf :: "nat \<Rightarrow> int \<Rightarrow> nat \<Rightarrow> tree_state \<Rightarrow> tree_state option" where
  "add_leaf p index n s = do {
     node \<leftarrow> nodes s p;
     let arr = (case leaves node of None \<Rightarrow> WMCreateArrayWithDestructor 1 True | Some a \<Rightarrow> a);
     arr \<leftarrow> (if index < 0 then WMAddToArray (Some arr) (Some n) else WMInsertInArray (Some arr) index (Some n));
     set_node (leaves_update (\<lambda>_. arr)) p s }"

definition WMInsertItemInTree :: "nat ptr \<Rightarrow> int \<Rightarrow> pointer \<Rightarrow> tree_state \<Rightarrow> (tree_state \<times> nat ptr) option" where
  "WMInsertItemInTree par index item s =
     (case par of
        None \<Rightarrow> Some (s, NULL)
      | Some p \<Rightarrow> do {
          pnode \<leftarrow> nodes s p;
          let (s, n) = WMCreateTreeNodeWithDestructor item (hasDestructor pnode) s;
          s \<leftarrow> set_node (\<lambda>node. node\<lparr>parent := Some p, depth := depth pnode + 1\<rparr>) n s;
          s \<leftarrow> add_leaf p index n s;
          Some (s, Some n) })"

partial_function (option) depth_loop :: "nat \<Rightarrow> int \<Rightarrow> int \<Rightarrow> tree_state \<Rightarrow> tree_state option" where
  "depth_loop n i d s = do {
     node \<leftarrow> nodes s n;
     (if i < WMGetArrayItemCount (leaves node)
      then do {
        leaf \<leftarrow> WMGetFromArray (leaves node) i;
        l \<leftarrow> leaf;
        s \<leftarrow> set_node (depth_update (\<lambda>_. d + 1)) l s;
        s \<leftarrow> depth_loop l 0 (d + 1) s;
        depth_loop n (i + 1) d s }
      else Some s) }"

definition updateNodeDepth :: "nat \<Rightarrow> int \<Rightarrow> tree_state \<Rightarrow> tree_state option" where
  "updateNodeDepth n d s = do { s \<leftarrow> set_node (depth_update (\<lambda>_. d)) n s; depth_loop n 0 d s }"

definition WMInsertNodeInTree :: "nat ptr \<Rightarrow> int \<Rightarrow> nat ptr \<Rightarrow> tree_state \<Rightarrow> (tree_state \<times> nat ptr) option" where
  "WMInsertNodeInTree par index aNode s =
     (case (par, aNode) of
        (Some p, Some n) \<Rightarrow> do {
          s \<leftarrow> set_node (parent_update (\<lambda>_. Some p)) n s;
          pnode \<leftarrow> nodes s p;
          s \<leftarrow> updateNodeDepth n (depth pnode + 1) s;
          s \<leftarrow> add_leaf p index n s;
          Some (s, Some n) }
      | _ \<Rightarrow> Some (s, NULL))"

section \<open>Removing\<close>

definition WMDestroyTreeNode :: "nat ptr \<Rightarrow> tree_state \<Rightarrow> tree_state option" where
  "WMDestroyTreeNode aNode s =
     (case aNode of
        None \<Rightarrow> Some s
      | Some n \<Rightarrow> do {
          node \<leftarrow> nodes s n;
          siblings \<leftarrow> (case parent node of
                        None \<Rightarrow> Some NULL
                      | Some p \<Rightarrow> do { pnode \<leftarrow> nodes s p; Some (leaves pnode) });
          (if siblings \<noteq> NULL
           then do {
             p \<leftarrow> parent node;
             (arr, _, dead) \<leftarrow> WMRemoveFromArrayMatching siblings None (Some n);
             s \<leftarrow> set_node (leaves_update (\<lambda>_. arr)) p s;
             destroy_nodes dead s }
           else destroyNode n s) })"

definition delete_leaf :: "nat \<Rightarrow> int \<Rightarrow> tree_state \<Rightarrow> tree_state option" where
  "delete_leaf n index s = do {
     node \<leftarrow> nodes s n;
     (arr, _, dead) \<leftarrow> WMDeleteFromArray (leaves node) index;
     s \<leftarrow> set_node (leaves_update (\<lambda>_. arr)) n s;
     destroy_nodes dead s }"

definition WMDeleteLeafForTreeNode :: "nat ptr \<Rightarrow> int \<Rightarrow> tree_state \<Rightarrow> tree_state option" where
  "WMDeleteLeafForTreeNode aNode index s =
     (case aNode of
        None \<Rightarrow> Some s
      | Some n \<Rightarrow> do {
          node \<leftarrow> nodes s n;
          (if leaves node = NULL then Some s else delete_leaf n index s) })"

definition sameData :: "tree_state \<Rightarrow> pointer \<Rightarrow> nat ptr \<Rightarrow> bool" where
  "sameData s x item = (case item of None \<Rightarrow> False | Some l \<Rightarrow> map_option data (nodes s l) = Some x)"

definition WMRemoveLeafForTreeNode :: "nat ptr \<Rightarrow> pointer \<Rightarrow> tree_state \<Rightarrow> tree_state option" where
  "WMRemoveLeafForTreeNode aNode leaf s =
     (case aNode of
        None \<Rightarrow> Some s
      | Some n \<Rightarrow> do {
          node \<leftarrow> nodes s n;
          (if leaves node = NULL then Some s
           else do {
             index \<leftarrow> WMFindInArray (leaves node) (Some (sameData s leaf)) NULL;
             (if index \<noteq> WANotFound then delete_leaf n index s else Some s) }) })"

section \<open>Reading\<close>

definition WMReplaceDataForTreeNode :: "nat ptr \<Rightarrow> pointer \<Rightarrow> tree_state \<Rightarrow> (tree_state \<times> pointer) option" where
  "WMReplaceDataForTreeNode aNode newData s =
     (case aNode of
        None \<Rightarrow> Some (s, 0)
      | Some n \<Rightarrow> do {
          node \<leftarrow> nodes s n;
          s \<leftarrow> set_node (data_update (\<lambda>_. newData)) n s;
          Some (s, data node) })"

definition WMGetDataForTreeNode :: "nat \<Rightarrow> tree_state \<Rightarrow> pointer option" where
  "WMGetDataForTreeNode n s = map_option data (nodes s n)"

definition WMGetTreeNodeDepth :: "nat \<Rightarrow> tree_state \<Rightarrow> int option" where
  "WMGetTreeNodeDepth n s = map_option depth (nodes s n)"

definition WMGetParentForTreeNode :: "nat \<Rightarrow> tree_state \<Rightarrow> nat ptr option" where
  "WMGetParentForTreeNode n s = map_option parent (nodes s n)"

section \<open>Sorting\<close>

text \<open>\<open>qsort\<close> with the comparer is the parameter \<open>qs\<close>; the comparer may read the nodes.\<close>

definition WMSortLeavesForTreeNode ::
  "(tree_state \<Rightarrow> nat ptr list \<Rightarrow> nat ptr list) \<Rightarrow> nat ptr \<Rightarrow> tree_state \<Rightarrow> tree_state option" where
  "WMSortLeavesForTreeNode qs aNode s =
     (case aNode of
        None \<Rightarrow> Some s
      | Some n \<Rightarrow> do {
          node \<leftarrow> nodes s n;
          (if leaves node = NULL then Some s
           else do {
             arr \<leftarrow> WMSortArray (qs s) (leaves node);
             set_node (leaves_update (\<lambda>_. arr)) n s }) })"

partial_function (option) sort_loop ::
  "(tree_state \<Rightarrow> nat ptr list \<Rightarrow> nat ptr list) \<Rightarrow> nat \<Rightarrow> int \<Rightarrow> tree_state \<Rightarrow> tree_state option" where
  "sort_loop qs n i s = do {
     node \<leftarrow> nodes s n;
     (if i < WMGetArrayItemCount (leaves node)
      then do {
        leaf \<leftarrow> WMGetFromArray (leaves node) i;
        l \<leftarrow> leaf;
        s \<leftarrow> WMSortLeavesForTreeNode qs (Some l) s;
        s \<leftarrow> sort_loop qs l 0 s;
        sort_loop qs n (i + 1) s }
      else Some s) }"

definition sortLeavesForNode ::
  "(tree_state \<Rightarrow> nat ptr list \<Rightarrow> nat ptr list) \<Rightarrow> nat \<Rightarrow> tree_state \<Rightarrow> tree_state option" where
  "sortLeavesForNode qs n s = do { s \<leftarrow> WMSortLeavesForTreeNode qs (Some n) s; sort_loop qs n 0 s }"

definition WMSortTree ::
  "(tree_state \<Rightarrow> nat ptr list \<Rightarrow> nat ptr list) \<Rightarrow> nat ptr \<Rightarrow> tree_state \<Rightarrow> tree_state option" where
  "WMSortTree qs aNode s = (case aNode of None \<Rightarrow> Some s | Some n \<Rightarrow> sortLeavesForNode qs n s)"

section \<open>Searching\<close>

text \<open>\<open>m\<close> is the callback applied to \<open>cdata\<close>, or the comparison with \<open>cdata\<close> when there is none.\<close>

partial_function (option) find_loop :: "(pointer \<Rightarrow> bool) \<Rightarrow> int \<Rightarrow> nat \<Rightarrow> int \<Rightarrow> tree_state \<Rightarrow> (nat ptr) option" where
  "find_loop m limit n i s = do {
     node \<leftarrow> nodes s n;
     (if limit \<noteq> 0 \<and> i < WMGetArrayItemCount (leaves node)
      then do {
        leaf \<leftarrow> WMGetFromArray (leaves node) i;
        l \<leftarrow> leaf;
        lnode \<leftarrow> nodes s l;
        r \<leftarrow> (if m (data lnode) then Some (Some l)
             else find_loop m (if limit > 0 then limit - 1 else limit) l 0 s);
        (case r of Some x \<Rightarrow> Some (Some x) | None \<Rightarrow> find_loop m limit n (i + 1) s) }
      else Some NULL) }"

definition findNodeInTree :: "(pointer \<Rightarrow> bool) \<Rightarrow> int \<Rightarrow> nat \<Rightarrow> tree_state \<Rightarrow> (nat ptr) option" where
  "findNodeInTree m limit n s = do {
     node \<leftarrow> nodes s n;
     (if m (data node) then Some (Some n) else find_loop m limit n 0 s) }"

definition WMFindInTree :: "(pointer \<Rightarrow> bool) \<Rightarrow> nat ptr \<Rightarrow> tree_state \<Rightarrow> (nat ptr) option" where
  "WMFindInTree m aTree s = (case aTree of None \<Rightarrow> Some NULL | Some n \<Rightarrow> findNodeInTree m (- 1) n s)"

definition WMFindInTreeWithDepthLimit :: "(pointer \<Rightarrow> bool) \<Rightarrow> int \<Rightarrow> nat ptr \<Rightarrow> tree_state \<Rightarrow> (nat ptr) option" where
  "WMFindInTreeWithDepthLimit m limit aTree s =
     (case aTree of
        None \<Rightarrow> Some NULL
      | Some n \<Rightarrow> if limit \<ge> 0 then findNodeInTree m limit n s else Some NULL)"

section \<open>Walking\<close>

definition call_walk :: "(nat \<Rightarrow> tree_state \<Rightarrow> tree_state option) \<Rightarrow> bool \<Rightarrow> nat \<Rightarrow> tree_state \<Rightarrow> tree_state option" where
  "call_walk walk b n s = (if b then walk n (s\<lparr>walked := walked s @ [n]\<rparr>) else Some s)"

partial_function (option) walk_loop ::
  "(nat \<Rightarrow> tree_state \<Rightarrow> tree_state option) \<Rightarrow> bool \<Rightarrow> nat \<Rightarrow> int \<Rightarrow> tree_state \<Rightarrow> tree_state option" where
  "walk_loop walk DepthFirst n i s = do {
     node \<leftarrow> nodes s n;
     (if i < WMGetArrayItemCount (leaves node)
      then do {
        leaf \<leftarrow> WMGetFromArray (leaves node) i;
        l \<leftarrow> leaf;
        s \<leftarrow> call_walk walk DepthFirst l s;
        s \<leftarrow> walk_loop walk DepthFirst l 0 s;
        s \<leftarrow> call_walk walk (\<not> DepthFirst) l s;
        walk_loop walk DepthFirst n (i + 1) s }
      else Some s) }"

definition WMTreeWalk ::
  "(nat \<Rightarrow> tree_state \<Rightarrow> tree_state option) \<Rightarrow> bool \<Rightarrow> nat ptr \<Rightarrow> tree_state \<Rightarrow> tree_state option" where
  "WMTreeWalk walk DepthFirst aNode s =
     (case aNode of
        None \<Rightarrow> Some s
      | Some n \<Rightarrow> do {
          s \<leftarrow> call_walk walk DepthFirst n s;
          s \<leftarrow> walk_loop walk DepthFirst n 0 s;
          call_walk walk (\<not> DepthFirst) n s })"

declare
  destroy_nodes.simps [code] and
  depth_loop.simps [code] and
  sort_loop.simps [code] and
  find_loop.simps [code] and
  walk_loop.simps [code]

end
