(* ===== verification/WMTreeSpec.thy ===== *)
theory WMTreeSpec
  imports WMTree
begin

text \<open>
  What the functions of \<open>tree.c\<close> do to a tree, seen as a value: \<open>tree_is\<close> relates an address and the
  heap to the tree below it. The searches give the first match of \<open>entries\<close>, the walk visits
  \<open>visits\<close>, inserting is \<open>graft\<close>, destroying is \<open>prune\<close>.
\<close>

section \<open>Trees in the heap\<close>

datatype ttree = T (addr: nat) (val: pointer) (subs: "ttree list")

fun addrs :: "ttree \<Rightarrow> nat list" where
  "addrs (T a v ts) = a # concat (map addrs ts)"

definition leaves_ok :: "nat W_Array ptr \<Rightarrow> nat list \<Rightarrow> bool" where
  "leaves_ok l as \<longleftrightarrow> (case l of None \<Rightarrow> as = [] | Some a \<Rightarrow> array_rep a (map Some as) \<and> destructor a)"

text \<open>
  The tree at an address: data, parents, leaves and, with \<open>c\<close>, the depths of all its nodes.
\<close>

fun tree_is :: "bool \<Rightarrow> tree_state \<Rightarrow> int \<Rightarrow> nat ptr \<Rightarrow> ttree \<Rightarrow> bool" where
  "tree_is c s d p (T a v ts) \<longleftrightarrow>
     (\<exists>node. nodes s a = Some node \<and> data node = v \<and> (c \<longrightarrow> depth node = d) \<and> parent node = p \<and>
        leaves_ok (leaves node) (map addr ts)) \<and>
     (\<forall>t \<in> set ts. tree_is c s (d + 1) (Some a) t)"

abbreviation tree_ok :: "tree_state \<Rightarrow> int \<Rightarrow> nat ptr \<Rightarrow> ttree \<Rightarrow> bool" where
  "tree_ok \<equiv> tree_is True"

lemma tree_is_subtrees: "tree_is c s d p (T a v ts) \<Longrightarrow> t \<in> set ts \<Longrightarrow> tree_is c s (d + 1) (Some a) t"
  by simp

lemma tree_is_weaken: "tree_is c s d p t \<Longrightarrow> tree_is False s d' p t"
proof (induction t arbitrary: d d' p)
  case (T a v ts)
  then show ?case by fastforce
qed

lemma addr_in_addrs: "addr t \<in> set (addrs t)"
  by (cases t) simp

lemma leaves_count: "leaves_ok l as \<Longrightarrow> WMGetArrayItemCount l = int (length as)"
  by (auto simp: leaves_ok_def WMGetArrayItemCount_def array_rep_count split: option.splits)

lemma leaves_get: "leaves_ok l as \<Longrightarrow> i < length as \<Longrightarrow> WMGetFromArray l (int i) = Some (Some (as ! i))"
  by (auto simp: leaves_ok_def WMGetFromArray_rep split: option.splits)

lemma tree_is_frame: "tree_is c s d p t \<Longrightarrow> \<forall>a \<in> set (addrs t). nodes s' a = nodes s a \<Longrightarrow> tree_is c s' d p t"
proof (induction t arbitrary: d p)
  case (T a v ts)
  have "tree_is c s' (d + 1) (Some a) t" if t: "t \<in> set ts" for t
  proof (rule T.IH [OF t])
    show "tree_is c s (d + 1) (Some a) t" by (rule tree_is_subtrees [OF T.prems(1) t])
    show "\<forall>a \<in> set (addrs t). nodes s' a = nodes s a" using T.prems(2) t by auto
  qed
  then show ?case using T.prems by auto
qed

section \<open>Searching\<close>

text \<open>The nodes in the order in which the search looks at them, with their depths below the root.\<close>

fun entries :: "int \<Rightarrow> ttree \<Rightarrow> (int \<times> nat \<times> pointer) list" where
  "entries d (T a v ts) = (d, a, v) # concat (map (entries (d + 1)) ts)"

lemma entries_ge: "(e, a, v) \<in> set (entries d t) \<Longrightarrow> d \<le> e"
proof (induction t arbitrary: d)
  case (T b w ts)
  then show ?case by fastforce
qed

definition first_within :: "(pointer \<Rightarrow> bool) \<Rightarrow> int \<Rightarrow> (int \<times> nat \<times> pointer) list \<Rightarrow> nat ptr" where
  "first_within m limit es = map_option (\<lambda>(d, a, v). a) (find (\<lambda>(d, a, v). m v \<and> (limit < 0 \<or> d \<le> limit)) es)"

lemma first_within_append:
  "first_within m limit (xs @ ys) = (case first_within m limit xs of None \<Rightarrow> first_within m limit ys | r \<Rightarrow> r)"
  by (induction xs) (auto simp: first_within_def)

text \<open>\<open>find_loop\<close> looks below a node that has no match itself.\<close>

definition find_below :: "(pointer \<Rightarrow> bool) \<Rightarrow> int \<Rightarrow> ttree list \<Rightarrow> nat ptr" where
  "find_below m limit ts = first_within m limit (concat (map (entries 1) ts))"

lemma entries_shift: "entries (d + k) t = map (\<lambda>(e, r). (e + k, r)) (entries d t)"
proof (induction t arbitrary: d)
  case (T a v ts)
  have e: "map (entries (d + k + 1)) ts = map (\<lambda>t. map (\<lambda>(e, r). (e + k, r)) (entries (d + 1) t)) ts"
    using T [of _ "d + 1"] by (simp add: algebra_simps)
  have "entries (d + k) (T a v ts) = (d + k, a, v) # concat (map (entries (d + k + 1)) ts)" by simp
  then show ?case unfolding e by (simp add: map_concat comp_def)
qed

lemma first_within_shift: "0 < limit \<Longrightarrow>
   first_within m limit (map (\<lambda>(e, r). (e + 1, r)) es) = first_within m (limit - 1) es"
  by (induction es) (auto simp: first_within_def)

lemma first_within_shift_unlimited: "limit < 0 \<Longrightarrow>
   first_within m limit (map (\<lambda>(e, r). (e + 1, r)) es) = first_within m limit es"
  by (induction es) (auto simp: first_within_def)

lemma find_below_Cons:
  assumes "limit \<noteq> 0"
  shows "find_below m limit (T a v ts # us) =
    (case if m v then Some a else find_below m (if limit > 0 then limit - 1 else limit) ts of
       None \<Rightarrow> find_below m limit us | r \<Rightarrow> r)"
proof -
  have e: "entries 1 (T a v ts) = map (\<lambda>(e, r). (e + 1, r)) (entries 0 (T a v ts))"
    using entries_shift [of 0 1 "T a v ts"] by (simp only: add_0)
  have "first_within m limit (entries 1 (T a v ts)) =
      (if m v then Some a else find_below m (if limit > 0 then limit - 1 else limit) ts)"
  proof (cases "limit > 0")
    case True
    have "first_within m limit (entries 1 (T a v ts)) = first_within m (limit - 1) (entries 0 (T a v ts))"
      unfolding e by (rule first_within_shift [OF True])
    then show ?thesis using True by (simp add: first_within_def find_below_def)
  next
    case False
    have "first_within m limit (entries 1 (T a v ts)) = first_within m limit (entries 0 (T a v ts))"
      unfolding e by (rule first_within_shift_unlimited) (use False assms in simp)
    then show ?thesis using False assms by (simp add: first_within_def find_below_def)
  qed
  moreover have "find_below m limit (T a v ts # us) =
      (case first_within m limit (entries 1 (T a v ts)) of None \<Rightarrow> find_below m limit us | r \<Rightarrow> r)"
    unfolding find_below_def by (simp add: first_within_append del: entries.simps)
  ultimately show ?thesis by simp
qed

lemma find_below_zero: "find_below m 0 ts = NULL"
proof -
  have "1 \<le> e" if "t \<in> set ts" "(e, a, v) \<in> set (entries 1 t)" for e a v t
    using entries_ge [OF that(2)] .
  then have "find (\<lambda>(d, a, v). m v \<and> ((0::int) < 0 \<or> d \<le> 0)) (concat (map (entries 1) ts)) = None"
    unfolding find_None_iff by fastforce
  then show ?thesis by (simp add: find_below_def first_within_def)
qed

lemma find_loop_ok:
  "tree_ok s d p (T a v ts) \<Longrightarrow> i \<le> length ts \<Longrightarrow>
   find_loop m limit a (int i) s = Some (find_below m limit (drop i ts))"
proof (induction "T a v ts" arbitrary: a v ts d p limit i rule: measure_induct_rule [of size])
  case (less a v ts)
  note size_IH = less.hyps and prem = less.prems
  show ?case
    using prem(2)
  proof (induction "length ts - i" arbitrary: i)
    case 0
    obtain node where n: "nodes s a = Some node" "leaves_ok (leaves node) (map addr ts)" using prem(1) by auto
    show ?case using n 0 leaves_count [OF n(2)]
      by (subst find_loop.simps) (simp add: find_below_def first_within_def)
  next
    case (Suc k)
    obtain node where n: "nodes s a = Some node" "leaves_ok (leaves node) (map addr ts)" using prem(1) by auto
    have i: "i < length ts" using Suc.hyps(2) by simp
    obtain b w us where t: "ts ! i = T b w us" by (cases "ts ! i")
    have tin: "T b w us \<in> set ts" using i t nth_mem by metis
    have tok: "tree_ok s (d + 1) (Some a) (T b w us)" by (rule tree_is_subtrees [OF prem(1) tin])
    have sz: "size (T b w us) < size (T a v ts)" using tin by (induction ts) auto
    obtain bnode where bn: "nodes s b = Some bnode" "data bnode = w" using tok by auto
    have sub: "find_loop m (if limit > 0 then limit - 1 else limit) b (int 0) s =
        Some (find_below m (if limit > 0 then limit - 1 else limit) (drop 0 us))"
      by (rule size_IH [OF sz tok]) simp
    have rest: "find_loop m limit a (int (Suc i)) s = Some (find_below m limit (drop (Suc i) ts))"
      by (rule Suc.hyps(1)) (use Suc.hyps(2) i in auto)
    have dr: "drop i ts = T b w us # drop (Suc i) ts" using i t by (metis Cons_nth_drop_Suc)
    show ?case
    proof (cases "limit = 0")
      case True
      then show ?thesis using n by (subst find_loop.simps) (simp add: find_below_zero)
    next
      case False
      have "find_loop m limit a (int i) s =
          (case if m w then Some b else find_below m (if limit > 0 then limit - 1 else limit) us of
             None \<Rightarrow> find_loop m limit a (int (Suc i)) s | Some x \<Rightarrow> Some (Some x))"
        using n bn sub False i leaves_count [OF n(2)] leaves_get [OF n(2), of i] t
        by (subst find_loop.simps) (auto simp: add.commute split: option.splits)
      then show ?thesis unfolding dr find_below_Cons [OF False] rest by (simp split: option.splits)
    qed
  qed
qed

section \<open>Walking\<close>

fun visits :: "bool \<Rightarrow> ttree \<Rightarrow> nat list" where
  "visits b (T a v ts) = (if b then [a] else []) @ concat (map (visits b) ts) @ (if b then [] else [a])"

lemma subtree_size: "t \<in> set ts \<Longrightarrow> size t < size (T a v ts)"
  by (induction ts) auto

lemma walk_loop_ok:
  assumes walk: "\<And>n s. walk n s = Some s"
  shows "tree_is c s d p (T a v ts) \<Longrightarrow> i \<le> length ts \<Longrightarrow>
    walk_loop walk b a (int i) s = Some (s\<lparr>walked := walked s @ concat (map (visits b) (drop i ts))\<rparr>)"
proof (induction "T a v ts" arbitrary: a v ts d p i s rule: measure_induct_rule [of size])
  case (less a v ts)
  note size_IH = less.hyps
  show ?case
    using less.prems
  proof (induction "length ts - i" arbitrary: i s)
    case 0
    obtain node where n: "nodes s a = Some node" "leaves_ok (leaves node) (map addr ts)" using "0.prems"(1) by auto
    show ?case using n "0.hyps" leaves_count [OF n(2)] by (subst walk_loop.simps) simp
  next
    case (Suc k)
    obtain node where n: "nodes s a = Some node" "leaves_ok (leaves node) (map addr ts)" using Suc.prems(1) by auto
    have i: "i < length ts" using Suc.hyps(2) by simp
    obtain e w us where t: "ts ! i = T e w us" by (cases "ts ! i")
    have tin: "T e w us \<in> set ts" using i t nth_mem by metis
    have dr: "drop i ts = T e w us # drop (Suc i) ts" using i t by (metis Cons_nth_drop_Suc)
    define s1 where "s1 = (if b then s\<lparr>walked := walked s @ [e]\<rparr> else s)"
    define s2 where "s2 = s1\<lparr>walked := walked s1 @ concat (map (visits b) us)\<rparr>"
    define s3 where "s3 = (if b then s2 else s2\<lparr>walked := walked s2 @ [e]\<rparr>)"
    have ok: "tree_is c s' d p (T a v ts)" if "nodes s' = nodes s" for s'
      by (rule tree_is_frame [OF Suc.prems(1)]) (simp add: that)
    have n1: "nodes s1 = nodes s" "nodes s3 = nodes s" by (simp_all add: s1_def s2_def s3_def)
    have "tree_is c s1 (d + 1) (Some a) (T e w us)" by (rule tree_is_subtrees [OF ok [OF n1(1)] tin])
    then have sub: "walk_loop walk b e (int 0) s1 = Some s2"
      using size_IH [OF subtree_size [OF tin], of s1 "d + 1" "Some a" 0] by (simp add: s2_def del: tree_is.simps)
    have rest: "walk_loop walk b a (int (Suc i)) s3 = Some (s3\<lparr>walked := walked s3 @ concat (map (visits b) (drop (Suc i) ts))\<rparr>)"
      by (rule Suc.hyps(1) [OF _ ok [OF n1(2)]]) (use Suc.hyps(2) i in auto)
    have c: "call_walk walk b e s = Some s1" "call_walk walk (\<not> b) e s2 = Some s3"
      by (auto simp: call_walk_def s1_def s3_def walk)
    have "walk_loop walk b a (int i) s = walk_loop walk b a (int (Suc i)) s3"
      using n c sub i leaves_count [OF n(2)] leaves_get [OF n(2), of i] t
      by (subst walk_loop.simps) (simp add: add.commute)
    also have "\<dots> = Some (s\<lparr>walked := walked s @ concat (map (visits b) (drop i ts))\<rparr>)"
      unfolding rest dr by (simp add: s3_def s2_def s1_def)
    finally show ?case .
  qed
qed

lemma WMTreeWalk_ok:
  assumes "\<And>n s. walk n s = Some s" and "tree_is c s d p t"
  shows "WMTreeWalk walk b (Some (addr t)) s = Some (s\<lparr>walked := walked s @ visits b t\<rparr>)"
proof -
  obtain a v ts where t: "t = T a v ts" by (cases t)
  define s1 where "s1 = (if b then s\<lparr>walked := walked s @ [a]\<rparr> else s)"
  have "tree_is c s1 d p (T a v ts)" by (rule tree_is_frame [OF assms(2) [unfolded t]]) (simp add: s1_def)
  then have "walk_loop walk b a (int 0) s1 = Some (s1\<lparr>walked := walked s1 @ concat (map (visits b) (drop 0 ts))\<rparr>)"
    by (rule walk_loop_ok [where walk = walk, OF assms(1)]) simp
  moreover have "call_walk walk b a s = Some s1" "call_walk walk (\<not> b) a s' = Some (if b then s' else s'\<lparr>walked := walked s' @ [a]\<rparr>)" for s'
    by (simp_all add: call_walk_def s1_def assms(1))
  ultimately show ?thesis using t by (cases b) (simp_all add: WMTreeWalk_def s1_def)
qed

section \<open>Depths\<close>

lemma concat_disjoint:
  "distinct (concat (map f ts)) \<Longrightarrow> t \<in> set ts \<Longrightarrow> u \<in> set ts \<Longrightarrow> t \<noteq> u \<Longrightarrow> set (f t) \<inter> set (f u) = {}"
  by (induction ts) auto

lemma depth_loop_ok:
  "tree_is False s d' p (T a v ts) \<Longrightarrow> distinct (addrs (T a v ts)) \<Longrightarrow> i \<le> length ts \<Longrightarrow>
   \<exists>h. depth_loop a (int i) d s = Some (s\<lparr>nodes := h\<rparr>) \<and>
     (\<forall>t \<in> set (drop i ts). tree_ok (s\<lparr>nodes := h\<rparr>) (d + 1) (Some a) t) \<and>
     (\<forall>b. b \<notin> set (concat (map addrs (drop i ts))) \<longrightarrow> h b = nodes s b)"
proof (induction "T a v ts" arbitrary: a v ts d d' p i s rule: measure_induct_rule [of size])
  case (less a v ts)
  note size_IH = less.hyps
  have dis: "distinct (addrs (T a v ts))" by (rule less.prems(2))
  show ?case
    using less.prems(1,3)
  proof (induction "length ts - i" arbitrary: i s)
    case 0
    obtain node where n: "nodes s a = Some node" "leaves_ok (leaves node) (map addr ts)" using "0.prems"(1) by auto
    have "depth_loop a (int i) d s = Some (s\<lparr>nodes := nodes s\<rparr>)"
      using n "0.hyps" leaves_count [OF n(2)] by (subst depth_loop.simps) simp
    then show ?case using "0.hyps" by (intro exI [of _ "nodes s"]) simp
  next
    case (Suc k)
    obtain node where n: "nodes s a = Some node" "leaves_ok (leaves node) (map addr ts)" using Suc.prems(1) by auto
    have i: "i < length ts" using Suc.hyps(2) by simp
    obtain e w us where t: "ts ! i = T e w us" by (cases "ts ! i")
    have tin: "T e w us \<in> set ts" using i t nth_mem by metis
    have sub: "tree_is False s (d' + 1) (Some a) (T e w us)" by (rule tree_is_subtrees [OF Suc.prems(1) tin])
    then obtain en where en: "nodes s e = Some en" "data en = w" "parent en = Some a" "leaves_ok (leaves en) (map addr us)" by auto
    define s1 where "s1 = s\<lparr>nodes := (nodes s)(e \<mapsto> en\<lparr>depth := d + 1\<rparr>)\<rparr>"
    have dr: "drop i ts = T e w us # drop (Suc i) ts" using i t by (metis Cons_nth_drop_Suc)
    have disj: "distinct (addrs (T e w us))" "distinct (concat (map addrs (drop i ts)))" "a \<notin> set (concat (map addrs ts))"
      using dis tin distinct_concat_iff [of "map addrs ts"] append_take_drop_id [of i ts]
      by (auto, metis concat_append distinct_append map_append)
    have far: "set (addrs (T e w us)) \<inter> set (concat (map addrs (drop (Suc i) ts))) = {}"
      using disj(2) unfolding dr by auto
    have s1: "tree_is False s1 (d' + 1) (Some a) (T e w us)"
    proof -
      have "tree_is False s1 (d' + 1 + 1) (Some e) u" if u: "u \<in> set us" for u
          by (rule tree_is_frame [OF tree_is_weaken [OF tree_is_subtrees [OF sub u]]]) (use u disj(1) in \<open>auto simp: s1_def\<close>)
      then show ?thesis using en by (auto simp: s1_def)
    qed
    obtain h where h: "depth_loop e (int 0) (d + 1) s1 = Some (s1\<lparr>nodes := h\<rparr>)"
      "\<forall>t \<in> set us. tree_ok (s1\<lparr>nodes := h\<rparr>) (d + 1 + 1) (Some e) t"
      "\<forall>b. b \<notin> set (concat (map addrs us)) \<longrightarrow> h b = nodes s1 b"
      using size_IH [OF subtree_size [OF tin] s1 disj(1), of 0 "d + 1"] by auto
    define s2 where "s2 = s1\<lparr>nodes := h\<rparr>"
    have e_ok: "tree_ok s2 (d + 1) (Some a) (T e w us)"
    proof -
      have "h e = nodes s1 e" using h(3) disj(1) by auto
      then show ?thesis using h(2) en by (auto simp: s2_def s1_def)
    qed
    have same: "nodes s2 b = nodes s b" if "b \<notin> set (addrs (T e w us))" for b
      using h(3) that by (auto simp: s2_def s1_def)
    have a_same: "nodes s2 a = nodes s a" by (rule same) (use disj(3) tin in auto)
    have "tree_is False s2 (d' + 1) (Some a) u" if u: "u \<in> set ts" for u
    proof (cases "u = T e w us")
      case True
      then show ?thesis using tree_is_weaken [OF e_ok] by (simp only:)
    next
      case False
      have "set (addrs u) \<inter> set (addrs (T e w us)) = {}"
        by (rule concat_disjoint [where f = addrs, OF _ u tin False]) (use dis in simp)
      then show ?thesis
        using tree_is_frame [OF tree_is_subtrees [OF Suc.prems(1) u], of s2] same by blast
    qed
    then have ok2: "tree_is False s2 d' p (T a v ts)" using n a_same Suc.prems(1) by auto
    have k: "k = length ts - Suc i" and le: "Suc i \<le> length ts" using Suc.hyps(2) i by auto
    obtain h' where h': "depth_loop a (int (Suc i)) d s2 = Some (s2\<lparr>nodes := h'\<rparr>)"
      "\<forall>t \<in> set (drop (Suc i) ts). tree_ok (s2\<lparr>nodes := h'\<rparr>) (d + 1) (Some a) t"
      "\<forall>b. b \<notin> set (concat (map addrs (drop (Suc i) ts))) \<longrightarrow> h' b = nodes s2 b"
      using Suc.hyps(1) [OF k ok2 le] by blast
    have "set_node (depth_update (\<lambda>_. d + 1)) e s = Some s1" using en by (simp add: set_node_def s1_def)
    then have "depth_loop a (int i) d s = depth_loop a (int (Suc i)) d s2"
      using n h(1) i leaves_count [OF n(2)] leaves_get [OF n(2), of i] t
      by (subst depth_loop.simps) (simp add: add.commute s2_def)
    moreover have "s2\<lparr>nodes := h'\<rparr> = s\<lparr>nodes := h'\<rparr>" by (simp add: s2_def s1_def)
    moreover have "tree_ok (s2\<lparr>nodes := h'\<rparr>) (d + 1) (Some a) (T e w us)"
      by (rule tree_is_frame [OF e_ok]) (use h'(3) far in auto)
    moreover have "h' b = nodes s b" if "b \<notin> set (concat (map addrs (drop i ts)))" for b
      using that h'(3) same unfolding dr by simp
    ultimately show ?case using h'(1,2) unfolding dr by (intro exI [of _ h']) auto
  qed
qed

lemma updateNodeDepth_ok:
  assumes t: "tree_is False s d' p t" and dis: "distinct (addrs t)"
  shows "\<exists>h. updateNodeDepth (addr t) d s = Some (s\<lparr>nodes := h\<rparr>) \<and> tree_ok (s\<lparr>nodes := h\<rparr>) d p t \<and>
    (\<forall>b. b \<notin> set (addrs t) \<longrightarrow> h b = nodes s b)"
proof -
  obtain a v ts where tt: "t = T a v ts" by (cases t)
  obtain node where n: "nodes s a = Some node" "data node = v" "parent node = p" "leaves_ok (leaves node) (map addr ts)"
    using t tt by auto
  define s1 where "s1 = s\<lparr>nodes := (nodes s)(a \<mapsto> node\<lparr>depth := d\<rparr>)\<rparr>"
  have "tree_is False s1 (d' + 1) (Some a) u" if u: "u \<in> set ts" for u
    by (rule tree_is_frame [of False s]) (use t tt u dis in \<open>auto simp: s1_def\<close>)
  then have s1: "tree_is False s1 d' p (T a v ts)" using n by (auto simp: s1_def)
  obtain h where h: "depth_loop a (int 0) d s1 = Some (s1\<lparr>nodes := h\<rparr>)"
    "\<forall>t \<in> set ts. tree_ok (s1\<lparr>nodes := h\<rparr>) (d + 1) (Some a) t"
    "\<forall>b. b \<notin> set (concat (map addrs ts)) \<longrightarrow> h b = nodes s1 b"
    using depth_loop_ok [OF s1, of 0 d] dis tt by auto
  have "h a = nodes s1 a" using h(3) dis tt by auto
  moreover have "s1\<lparr>nodes := h\<rparr> = s\<lparr>nodes := h\<rparr>" by (simp add: s1_def)
  ultimately show ?thesis
    using h n tt by (intro exI [of _ h]) (auto simp: updateNodeDepth_def set_node_def s1_def)
qed

section \<open>Inserting\<close>

definition put_at :: "int \<Rightarrow> 'x \<Rightarrow> 'x list \<Rightarrow> 'x list" where
  "put_at index x xs =
     (if index < 0 then xs @ [x]
      else if index \<le> int (length xs) then take (nat index) xs @ x # drop (nat index) xs else xs)"

fun graft :: "nat \<Rightarrow> int \<Rightarrow> ttree \<Rightarrow> ttree \<Rightarrow> ttree" where
  "graft q index u (T a v ts) = T a v (if a = q then put_at index u ts else map (graft q index u) ts)"

lemma map_put_at: "map f (put_at index x xs) = put_at index (f x) (map f xs)"
  by (simp add: put_at_def take_map drop_map)

lemma set_put_at: "set (put_at index x xs) \<subseteq> insert x (set xs)"
  by (auto simp: put_at_def dest: in_set_takeD in_set_dropD)

lemma addr_graft [simp]: "addr (graft q index u t) = addr t"
  by (cases t) simp

lemma graft_outside: "q \<notin> set (addrs t) \<Longrightarrow> graft q index u t = t"
proof (induction t)
  case (T a v ts)
  then have "map (graft q index u) ts = ts" by (intro map_idI) auto
  then show ?case using T.prems by auto
qed

lemma graft_ok:
  assumes q: "nodes s q = Some nq" "nodes s' = (nodes s)(q \<mapsto> nq\<lparr>leaves := l\<rparr>)"
    and l: "\<And>as. leaves_ok (leaves nq) as \<Longrightarrow> leaves_ok l (put_at index (addr u) as)"
    and u: "tree_ok s (depth nq + 1) (Some q) u" "q \<notin> set (addrs u)"
  shows "tree_ok s d p t \<Longrightarrow> distinct (addrs t) \<Longrightarrow> tree_ok s' d p (graft q index u t)"
proof (induction t arbitrary: d p)
  case (T a v ts)
  have u': "tree_ok s' (depth nq + 1) (Some q) u"
    by (rule tree_is_frame [OF u(1)]) (use u(2) q(2) in auto)
  obtain node where n: "nodes s a = Some node" "data node = v" "depth node = d" "parent node = p" "leaves_ok (leaves node) (map addr ts)"
    using T.prems(1) by auto
  show ?case
  proof (cases "a = q")
    case True
    have "tree_ok s' (d + 1) (Some a) t" if t: "t \<in> set ts" for t
      by (rule tree_is_frame [OF tree_is_subtrees [OF T.prems(1) t]]) (use T.prems(2) True t q(2) in auto)
    then have "\<forall>t \<in> set (put_at index u ts). tree_ok s' (d + 1) (Some a) t"
      using u' n(1,3) q(1) True set_put_at [of index u ts] by auto
    moreover have nn: "node = nq" using n(1) q(1) True by simp
    then have "leaves_ok l (put_at index (addr u) (map addr ts))" using l n(5) by simp
    ultimately show ?thesis using n q True nn by (simp add: map_put_at)
  next
    case False
    have "tree_ok s' (d + 1) (Some a) (graft q index u t)" if t: "t \<in> set ts" for t
      by (rule T.IH [OF t tree_is_subtrees [OF T.prems(1) t]]) (use T.prems(2) t distinct_concat_iff [of "map addrs ts"] in auto)
    then show ?thesis using False n q by (auto simp: comp_def)
  qed
qed

lemma add_leaf_leaves:
  assumes "nodes s q = Some nq" and "leaves_ok (leaves nq) as"
  shows "\<exists>l. add_leaf q index n s = Some (s\<lparr>nodes := (nodes s)(q \<mapsto> nq\<lparr>leaves := l\<rparr>)\<rparr>) \<and> leaves_ok l (put_at index n as)"
proof -
  define arr where "arr = (case leaves nq of None \<Rightarrow> WMCreateArrayWithDestructor 1 True | Some a \<Rightarrow> a)"
  have arr: "array_rep arr (map Some as)" "destructor arr"
    using assms(2) by (auto simp: leaves_ok_def arr_def array_laws split: option.splits)
  obtain arr' where a: "(if index < 0 then WMAddToArray (Some arr) (Some n) else WMInsertInArray (Some arr) index (Some n)) = Some (Some arr')"
    "array_rep arr' (map Some (put_at index n as))" "destructor arr'"
  proof (cases "index < 0")
    case True
    then show ?thesis using WMAddToArray_rep [OF arr(1), of "Some n"] arr(2) that by (auto simp: put_at_def)
  next
    case False
    show ?thesis
    proof (cases "nat index \<le> length as")
      case True
      obtain arr' where "WMInsertInArray (Some arr) (int (nat index)) (Some n) = Some (Some arr')"
        "array_rep arr' (take (nat index) (map Some as) @ Some n # drop (nat index) (map Some as))" "destructor arr' = destructor arr"
        by (rule WMInsertInArray_rep [OF arr(1), of "nat index" "Some n"]) (use True in auto)
      moreover have "index \<le> int (length as)" using True False by linarith
      ultimately show ?thesis using False arr(2) that [of arr'] by (simp add: put_at_def take_map drop_map)
    next
      case f: False
      then have "int (length as) < index" using False by linarith
      then show ?thesis using WMInsertInArray_out_of_range [OF arr(1), of index "Some n"] False arr that [of arr]
        by (simp add: put_at_def)
    qed
  qed
  have "add_leaf q index n s = Some (s\<lparr>nodes := (nodes s)(q \<mapsto> nq\<lparr>leaves := Some arr'\<rparr>)\<rparr>)"
    using assms(1) a(1) by (simp add: add_leaf_def arr_def [symmetric] set_node_def)
  moreover have "leaves_ok (Some arr') (put_at index n as)" using a(2,3) by (simp add: leaves_ok_def)
  ultimately show ?thesis by blast
qed


lemma leaves_ok_unique: "leaves_ok l as \<Longrightarrow> leaves_ok l bs \<Longrightarrow> as = bs"
proof (cases l)
  case (Some x)
  assume "leaves_ok l as" "leaves_ok l bs"
  then have "map Some as = map Some bs"
    using Some array_rep_unique [of x "map Some as" "map Some bs"] by (simp add: leaves_ok_def)
  then show ?thesis by (rule map_injective) (simp add: inj_def)
qed (simp add: leaves_ok_def)

lemma tree_nodes: "tree_is c s d p t \<Longrightarrow> a \<in> set (addrs t) \<Longrightarrow> \<exists>node as. nodes s a = Some node \<and> leaves_ok (leaves node) as"
proof (induction t arbitrary: d p)
  case (T b v ts)
  show ?case
  proof (cases "a = b")
    case True
    then show ?thesis using T.prems(1) by auto
  next
    case False
    then obtain t where t: "t \<in> set ts" "a \<in> set (addrs t)" using T.prems(2) by auto
    show ?thesis by (rule T.IH [OF t(1) tree_is_subtrees [OF T.prems(1) t(1)] t(2)])
  qed
qed

text \<open>C18: inserting a node, with all that is below it, under a node of a well-formed tree makes it the
  leaf at the index (the last for a negative one) and gives its nodes the depths of their new place;
  nothing else changes. Beyond the last index the node keeps its new parent and depth, but the tree
  does not get it.\<close>

theorem insert_node_grafts:
  assumes t: "tree_ok s d p t" "distinct (addrs t)" "q \<in> set (addrs t)"
    and u: "tree_is False s d' p' u" "distinct (addrs u)" "set (addrs t) \<inter> set (addrs u) = {}"
  shows "\<exists>h. WMInsertNodeInTree (Some q) index (Some (addr u)) s = Some (s\<lparr>nodes := h\<rparr>, Some (addr u)) \<and>
    tree_ok (s\<lparr>nodes := h\<rparr>) d p (graft q index u t) \<and>
    (\<forall>b. b \<notin> set (addrs u) \<longrightarrow> b \<noteq> q \<longrightarrow> h b = nodes s b)"
proof -
  obtain a v us where uu: "u = T a v us" by (cases u)
  obtain node where n: "nodes s a = Some node" "data node = v" "parent node = p'" "leaves_ok (leaves node) (map addr us)"
    using u(1) uu by auto
  have q: "q \<notin> set (addrs u)" using t(3) u(3) by auto
  obtain nq as where nq: "nodes s q = Some nq" "leaves_ok (leaves nq) as" using tree_nodes [OF t(1,3)] by blast
  define s1 where "s1 = s\<lparr>nodes := (nodes s)(a \<mapsto> node\<lparr>parent := Some q\<rparr>)\<rparr>"
  have "tree_is False s1 (d' + 1) (Some a) t" if t: "t \<in> set us" for t
    by (rule tree_is_frame [of False s]) (use u uu t in \<open>auto simp: s1_def\<close>)
  then have s1: "tree_is False s1 d' (Some q) u" using n by (auto simp: s1_def uu)
  obtain h where h: "updateNodeDepth (addr u) (depth nq + 1) s1 = Some (s1\<lparr>nodes := h\<rparr>)"
    "tree_ok (s1\<lparr>nodes := h\<rparr>) (depth nq + 1) (Some q) u" "\<forall>b. b \<notin> set (addrs u) \<longrightarrow> h b = nodes s1 b"
    using updateNodeDepth_ok [OF s1 u(2)] by blast
  have aq: "a \<noteq> q" using q uu by auto
  define s2 where "s2 = s1\<lparr>nodes := h\<rparr>"
  have same: "h b = nodes s b" if "b \<notin> set (addrs u)" for b
    using that h(3) uu by (auto simp: s1_def)
  have q2: "nodes s2 q = Some nq" using same [OF q] nq by (simp add: s2_def)
  have ok2: "tree_ok s2 d p t" by (rule tree_is_frame [OF t(1)]) (use same u(3) in \<open>auto simp: s2_def\<close>)
  have u2: "tree_ok s2 (depth nq + 1) (Some q) u" using h(2) by (simp add: s2_def)
  obtain l where l: "add_leaf q index (addr u) s2 = Some (s2\<lparr>nodes := (nodes s2)(q \<mapsto> nq\<lparr>leaves := l\<rparr>)\<rparr>)"
    "leaves_ok l (put_at index (addr u) as)"
    using add_leaf_leaves [where s = s2 and q = q and index = index and n = "addr u", OF q2 nq(2)] by blast
  define s3 where "s3 = s2\<lparr>nodes := (nodes s2)(q \<mapsto> nq\<lparr>leaves := l\<rparr>)\<rparr>"
  have "tree_ok s3 d p (graft q index u t)"
  proof (rule graft_ok [OF q2 _ _ u2 q ok2 t(2)])
    show "nodes s3 = (nodes s2)(q \<mapsto> nq\<lparr>leaves := l\<rparr>)" by (simp add: s3_def)
    show "leaves_ok l (put_at index (addr u) as')" if "leaves_ok (leaves nq) as'" for as'
      using leaves_ok_unique [OF nq(2) that] l(2) by simp
  qed
  moreover have "nodes s1 q = Some nq" using nq aq by (simp add: s1_def)
  moreover have "set_node (parent_update (\<lambda>_. Some q)) a s = Some s1" using n by (simp add: set_node_def s1_def)
  moreover have "s3 = s\<lparr>nodes := nodes s3\<rparr>" by (simp add: s3_def s2_def s1_def)
  moreover have "nodes s3 b = nodes s b" if "b \<notin> set (addrs u)" "b \<noteq> q" for b
    using same that by (simp add: s3_def s2_def)
  moreover have "WMInsertNodeInTree (Some q) index (Some (addr u)) s = Some (s3, Some (addr u))"
    using calculation(2,3) h(1) l(1) uu by (simp add: WMInsertNodeInTree_def s2_def s3_def)
  ultimately show ?thesis by (intro exI [of _ "nodes s3"]) simp
qed

section \<open>Destroying\<close>

fun doomed :: "(nat \<Rightarrow> bool) \<Rightarrow> ttree \<Rightarrow> pointer list" where
  "doomed D (T a v ts) = (if D a then [v] else []) @ concat (map (doomed D) (rev ts))"

lemma leaves_free: "leaves_ok l as \<Longrightarrow> WMFreeArray l = Some (map Some (rev as))"
  by (cases l) (auto simp: leaves_ok_def WMFreeArray_rep rev_map, simp add: WMFreeArray_def)

lemma destroy_nodes_ok:
  "\<forall>t \<in> set ts. tree_is False s d p t \<Longrightarrow> distinct (concat (map addrs ts)) \<Longrightarrow>
   \<forall>a \<in> set (concat (map addrs ts)). \<forall>node. nodes s a = Some node \<longrightarrow> hasDestructor node = D a \<Longrightarrow>
   destroy_nodes (map (\<lambda>t. Some (addr t)) ts) s =
     Some (s\<lparr>nodes := (nodes s) |` (- set (concat (map addrs ts))), destroyed := destroyed s @ concat (map (doomed D) ts)\<rparr>)"
proof (induction ts arbitrary: s d p rule: measure_induct_rule [of "size_list size"])
  case (less ts)
  show ?case
  proof (cases ts)
    case Nil
    then show ?thesis by (subst destroy_nodes.simps) (simp add: restrict_map_def)
  next
    case (Cons t rest)
    obtain a v us where t: "t = T a v us" by (cases t)
    have tok: "tree_is False s d p (T a v us)" using less.prems(1) Cons t by auto
    then obtain node where n: "nodes s a = Some node" "data node = v" "leaves_ok (leaves node) (map addr us)" by auto
    define s1 where "s1 = (if hasDestructor node then s\<lparr>destroyed := destroyed s @ [v]\<rparr> else s)"
    define s2 where "s2 = s1\<lparr>nodes := (nodes s1) |` (- set (concat (map addrs (rev us)))),
      destroyed := destroyed s1 @ concat (map (doomed D) (rev us))\<rparr>"
    define s3 where "s3 = s2\<lparr>nodes := (nodes s2)(a := None)\<rparr>"
    have n1: "nodes s1 = nodes s" by (simp add: s1_def)
    have dis: "distinct (addrs (T a v us))" "distinct (concat (map addrs rest))"
      "set (addrs (T a v us)) \<inter> set (concat (map addrs rest)) = {}"
      using less.prems(2) Cons t by auto
    have sub: "destroy_nodes (map (\<lambda>t. Some (addr t)) (rev us)) s1 = Some s2"
      unfolding s2_def
    proof (rule less.IH)
      show "size_list size (rev us) < size_list size ts" using Cons t by (simp add: size_list_conv_sum_list sum_list_rev rev_map [symmetric])
      show "\<forall>t \<in> set (rev us). tree_is False s1 (d + 1) (Some a) t"
        using tree_is_frame [where s' = s1, OF tree_is_subtrees [OF tok]] n1 by simp
      show "distinct (concat (map addrs (rev us)))" using dis(1)
        using distinct_concat_rev [of "map addrs us"] by (simp add: rev_map)
      show "\<forall>a \<in> set (concat (map addrs (rev us))). \<forall>node. nodes s1 a = Some node \<longrightarrow> hasDestructor node = D a"
        using less.prems(3) Cons t n1 by simp
    qed
    have n3: "nodes s3 = nodes s |` (- set (addrs t))"
      using t by (auto simp: s3_def s2_def n1 restrict_map_def fun_eq_iff)
    have rest: "destroy_nodes (map (\<lambda>t. Some (addr t)) rest) s3 =
       Some (s3\<lparr>nodes := (nodes s3) |` (- set (concat (map addrs rest))), destroyed := destroyed s3 @ concat (map (doomed D) rest)\<rparr>)"
    proof (rule less.IH)
      show "size_list size rest < size_list size ts" using Cons by simp
      show "\<forall>t \<in> set rest. tree_is False s3 d p t"
      proof
        fix r assume r: "r \<in> set rest"
        show "tree_is False s3 d p r"
          by (rule tree_is_frame [of False s]) (use less.prems(1) Cons r dis(3) t in \<open>auto simp: n3 restrict_map_def\<close>)
      qed
      show "distinct (concat (map addrs rest))" by (rule dis(2))
      show "\<forall>a \<in> set (concat (map addrs rest)). \<forall>node. nodes s3 a = Some node \<longrightarrow> hasDestructor node = D a"
        using less.prems(3) Cons by (auto simp: n3 restrict_map_def)
    qed
    have D: "hasDestructor node = D a" using less.prems(3) Cons t n(1) by auto
    have "destroy_nodes (map (\<lambda>t. Some (addr t)) ts) s = destroy_nodes (map (\<lambda>t. Some (addr t)) rest) s3"
      using n sub leaves_free [OF n(3)] Cons t
      by (subst destroy_nodes.simps) (auto simp: s1_def s3_def rev_map comp_def)
    also note rest
    also have "s3\<lparr>nodes := (nodes s3) |` (- set (concat (map addrs rest))), destroyed := destroyed s3 @ concat (map (doomed D) rest)\<rparr>
      = s\<lparr>nodes := (nodes s) |` (- set (concat (map addrs ts))), destroyed := destroyed s @ concat (map (doomed D) ts)\<rparr>"
    proof -
      have "nodes s |` (- set (addrs t)) |` (- set (concat (map addrs rest))) = nodes s |` (- set (concat (map addrs ts)))"
        using Cons by (auto simp: restrict_map_def fun_eq_iff)
      moreover have "destroyed s3 @ concat (map (doomed D) rest) = destroyed s @ concat (map (doomed D) ts)"
        using Cons t D by (simp add: s3_def s2_def s1_def)
      ultimately show ?thesis unfolding n3 by (simp add: s3_def s2_def s1_def)
    qed
    finally show ?thesis .
  qed
qed


lemma destroyNode_ok:
  assumes "tree_is c s d p u" "distinct (addrs u)"
    and "\<forall>a \<in> set (addrs u). \<forall>node. nodes s a = Some node \<longrightarrow> hasDestructor node = D a"
  shows "destroyNode (addr u) s =
    Some (s\<lparr>nodes := (nodes s) |` (- set (addrs u)), destroyed := destroyed s @ doomed D u\<rparr>)"
  using destroy_nodes_ok [of "[u]" s d p D] tree_is_weaken [OF assms(1)] assms(2,3)
  by (simp add: destroyNode_def)

fun subtrees :: "ttree \<Rightarrow> ttree list" where
  "subtrees (T a v ts) = T a v ts # concat (map subtrees ts)"

fun prune :: "nat \<Rightarrow> ttree \<Rightarrow> ttree" where
  "prune q (T a v ts) = T a v (map (prune q) (filter (\<lambda>t. addr t \<noteq> q) ts))"

lemma addr_prune [simp]: "addr (prune q t) = addr t"
  by (cases t) simp

lemma subtrees_addrs: "u \<in> set (subtrees t) \<Longrightarrow> set (addrs u) \<subseteq> set (addrs t)"
proof (induction t)
  case (T a v ts)
  then show ?case by fastforce
qed

lemma subtree_refl: "t \<in> set (subtrees t)"
  by (cases t) simp

lemma subtree_parent:
  "u \<in> set (subtrees t) \<Longrightarrow> u \<noteq> t \<Longrightarrow> \<exists>b w us. T b w us \<in> set (subtrees t) \<and> u \<in> set us"
proof (induction t)
  case (T a v ts)
  then obtain t where t: "t \<in> set ts" "u \<in> set (subtrees t)" by auto
  show ?case
  proof (cases "u = t")
    case True
    then show ?thesis using t by auto
  next
    case False
    show ?thesis using T.IH [OF t False] t(1) by auto
  qed
qed

lemma subtree_is: "tree_is c s d p t \<Longrightarrow> T b w us \<in> set (subtrees t) \<Longrightarrow> \<exists>d p. tree_is c s d p (T b w us)"
proof (induction t arbitrary: d p)
  case (T a v ts)
  show ?case
  proof (cases "T b w us = T a v ts")
    case True
    then show ?thesis using T.prems(1) by metis
  next
    case False
    then obtain t where t: "t \<in> set ts" "T b w us \<in> set (subtrees t)" using T.prems(2) by auto
    show ?thesis by (rule T.IH [OF t(1) tree_is_subtrees [OF T.prems(1) t(1)] t(2)])
  qed
qed

lemma distinct_subtree: "distinct (addrs t) \<Longrightarrow> u \<in> set (subtrees t) \<Longrightarrow> distinct (addrs u)"
proof (induction t)
  case (T a v ts)
  then show ?case by (auto simp: distinct_concat_iff)
qed

lemma prune_outside: "q \<notin> set (addrs t) \<Longrightarrow> prune q t = t"
proof (induction t)
  case (T a v ts)
  have "filter (\<lambda>t. addr t \<noteq> q) ts = ts" using T.prems addr_in_addrs by (auto simp: filter_id_conv)
  moreover have "map (prune q) ts = ts" using T by (intro map_idI) auto
  ultimately show ?case by simp
qed

lemma leaves_split:
  assumes "distinct (concat (map addrs ts))" "u \<in> set ts"
  obtains ys zs where "ts = ys @ u # zs" "filter (\<lambda>t. addr t \<noteq> addr u) ts = ys @ zs"
    "set (addrs u) \<inter> set (concat (map addrs (ys @ zs))) = {}" "addr u \<notin> set (map addr ys)"
proof -
  obtain ys zs where ts: "ts = ys @ u # zs" using assms(2) by (meson split_list)
  have d: "set (addrs u) \<inter> set (concat (map addrs (ys @ zs))) = {}" using assms(1) ts by auto
  then have n: "addr t \<noteq> addr u" if "t \<in> set (ys @ zs)" for t
  proof -
    have "set (addrs t) \<subseteq> set (concat (map addrs (ys @ zs)))" using that by auto
    then have "addr t \<in> set (concat (map addrs (ys @ zs)))" using addr_in_addrs [of t] by blast
    moreover have "addr u \<notin> set (concat (map addrs (ys @ zs)))" using d addr_in_addrs [of u] by blast
    ultimately show ?thesis by metis
  qed
  have "filter (\<lambda>t. addr t \<noteq> addr u) ys = ys" "filter (\<lambda>t. addr t \<noteq> addr u) zs = zs"
    using n by (auto simp: filter_id_conv)
  moreover have "addr u \<notin> set (map addr ys)"
  proof
    assume "addr u \<in> set (map addr ys)"
    then obtain r where "r \<in> set ys" "addr r = addr u" by auto
    then show False using n [of r] by simp
  qed
  ultimately show ?thesis using that [OF ts _ d] ts by auto
qed

lemma below_root: "distinct (addrs t) \<Longrightarrow> T b w us \<in> set (subtrees t) \<Longrightarrow> u \<in> set us \<Longrightarrow> addr t \<notin> set (addrs u)"
proof (cases t)
  case (T a v ts)
  assume d: "distinct (addrs t)" and b: "T b w us \<in> set (subtrees t)" and u: "u \<in> set us"
  have "set (addrs u) \<subseteq> set (concat (map addrs ts))"
  proof (cases "T b w us = t")
    case True
    then show ?thesis using T u by auto
  next
    case False
    then obtain r where r: "r \<in> set ts" "T b w us \<in> set (subtrees r)" using b T by auto
    then have "set (addrs u) \<subseteq> set (addrs r)" using subtrees_addrs [OF r(2)] u by auto
    then show ?thesis using r(1) by auto
  qed
  then show ?thesis using d T by auto
qed

lemma prune_ok:
  assumes b: "nodes s b = Some nb" "u \<in> set us"
    and h: "h = (nodes s)(b \<mapsto> nb\<lparr>leaves := l\<rparr>) |` (- set (addrs u))" "nodes s' = h"
    and l: "leaves_ok l (map addr (filter (\<lambda>t. addr t \<noteq> addr u) us))"
  shows "tree_ok s d p t \<Longrightarrow> distinct (addrs t) \<Longrightarrow> T b w us \<in> set (subtrees t) \<Longrightarrow>
    tree_ok s' d p (prune (addr u) t)"
proof (induction t arbitrary: d p)
  case (T a v ts)
  obtain node where n: "nodes s a = Some node" "data node = v" "depth node = d" "parent node = p" "leaves_ok (leaves node) (map addr ts)"
    using T.prems(1) by auto
  have uin: "set (addrs u) \<subseteq> set (concat (map addrs us))" using b(2) by auto
  have frame: "tree_ok s' (d + 1) (Some a) t"
    if "t \<in> set ts" "b \<notin> set (addrs t)" "set (addrs t) \<inter> set (addrs u) = {}" for t
    by (rule tree_is_frame [OF tree_is_subtrees [OF T.prems(1) that(1)]])
      (use that(2,3) in \<open>auto simp: h restrict_map_def\<close>)
  show ?case
  proof (cases "T b w us = T a v ts")
    case True
    have dis: "distinct (concat (map addrs ts))" "a \<notin> set (concat (map addrs ts))" using T.prems(2) by auto
    have u: "u \<in> set ts" using True b(2) by simp
    obtain ys zs where yz: "ts = ys @ u # zs" "filter (\<lambda>t. addr t \<noteq> addr u) ts = ys @ zs"
      "set (addrs u) \<inter> set (concat (map addrs (ys @ zs))) = {}" by (rule leaves_split [OF dis(1) u])
    have "tree_ok s' (d + 1) (Some a) t \<and> prune (addr u) t = t" if t: "t \<in> set (ys @ zs)" for t
    proof
      show "tree_ok s' (d + 1) (Some a) t" by (rule frame) (use t yz dis True in auto)
      show "prune (addr u) t = t" by (rule prune_outside) (use t yz addr_in_addrs [of u] in auto)
    qed
    then have "map (prune (addr u)) (ys @ zs) = ys @ zs" "\<forall>t \<in> set (ys @ zs). tree_ok s' (d + 1) (Some a) t"
      by (auto intro: map_idI)
    moreover have "h a = Some (nb\<lparr>leaves := l\<rparr>)" using True uin T.prems(2) u by (auto simp: h restrict_map_def)
    moreover have "node = nb" "leaves_ok l (map addr (ys @ zs))" using b(1) n(1) True l yz(2) by auto
    ultimately show ?thesis using n h(2) yz(2) by simp
  next
    case False
    then obtain t where t: "t \<in> set ts" "T b w us \<in> set (subtrees t)" using T.prems(3) by auto
    have bt: "b \<in> set (addrs t)" "set (addrs u) \<subseteq> set (addrs t)"
      using subtrees_addrs [OF t(2)] uin by auto
    have dis: "distinct (concat (map addrs ts))" "a \<notin> set (concat (map addrs ts))" using T.prems(2) by auto
    have "tree_ok s' (d + 1) (Some a) (prune (addr u) r)" if r: "r \<in> set ts" for r
    proof (cases "r = t")
      case True
      show ?thesis unfolding True
        by (rule T.IH [OF t(1) tree_is_subtrees [OF T.prems(1) t(1)] _ t(2)])
          (use dis(1) t(1) in \<open>auto simp: distinct_concat_iff\<close>)
    next
      case f: False
      have "set (addrs r) \<inter> set (addrs t) = {}" by (rule concat_disjoint [where f = addrs, OF dis(1) r t(1) f])
      then have "b \<notin> set (addrs r)" "set (addrs r) \<inter> set (addrs u) = {}" using bt by auto
      moreover have "addr u \<notin> set (addrs r)" using calculation(2) addr_in_addrs [of u] by blast
      ultimately show ?thesis using frame [OF r] prune_outside [of "addr u" r] by (simp only: simp_thms)
    qed
    moreover have "addr r \<noteq> addr u" if r: "r \<in> set ts" for r
    proof (cases "r = t")
      case True
      have "addr t \<notin> set (addrs u)"
        by (rule below_root [OF _ t(2) b(2)]) (use dis(1) t(1) in \<open>auto simp: distinct_concat_iff\<close>)
      then show ?thesis using True addr_in_addrs [of u] by auto
    next
      case f: False
      have "set (addrs r) \<inter> set (addrs t) = {}" by (rule concat_disjoint [where f = addrs, OF dis(1) r t(1) f])
      then show ?thesis using bt(2) addr_in_addrs [of u] addr_in_addrs [of r] by auto
    qed
    moreover have "a \<noteq> b" "a \<notin> set (addrs u)" using bt dis(2) t(1) by auto
    moreover have "filter (\<lambda>t. addr t \<noteq> addr u) ts = ts" using calculation(2) by (simp add: filter_id_conv)
    ultimately show ?thesis using n by (auto simp: h restrict_map_def comp_def)
  qed
qed

lemma leaves_remove:
  assumes "leaves_ok l (map addr us)" "distinct (concat (map addrs us))" "u \<in> set us"
  shows "\<exists>l'. WMRemoveFromArrayMatching l None (Some (addr u)) = Some (l', 1, [Some (addr u)]) \<and>
    leaves_ok l' (map addr (filter (\<lambda>t. addr t \<noteq> addr u) us))"
proof -
  obtain ys zs where yz: "us = ys @ u # zs" "filter (\<lambda>t. addr t \<noteq> addr u) us = ys @ zs" "addr u \<notin> set (map addr ys)"
    by (rule leaves_split [OF assms(2,3)])
  obtain a where a: "l = Some a" "array_rep a (map (\<lambda>t. Some (addr t)) ys @ Some (addr u) # map (\<lambda>t. Some (addr t)) zs)" "destructor a"
    using assms(1) yz(1) by (auto simp: leaves_ok_def comp_def split: option.splits)
  obtain a' where "WMRemoveFromArrayMatching (Some a) None (Some (addr u)) = Some (Some a', 1, if destructor a then [Some (addr u)] else [])"
    "array_rep a' (map (\<lambda>t. Some (addr t)) ys @ map (\<lambda>t. Some (addr t)) zs)" "destructor a' = destructor a"
    by (rule WMRemoveFromArrayMatching_found [OF a(2), of None "Some (addr u)"]) (use yz(3) in \<open>force simp: item_matches_def\<close>)+
  then show ?thesis using a yz(2) by (auto simp: leaves_ok_def comp_def)
qed

text \<open>C19: destroying a node of a tree frees the nodes below it and no other, calls the destructors of
  their data, and leaves the rest of the tree well-formed without the node.\<close>

theorem destroy_node_prunes:
  assumes t: "tree_ok s d None t" "distinct (addrs t)" and u: "u \<in> set (subtrees t)" "u \<noteq> t"
    and D: "\<forall>a \<in> set (addrs u). \<forall>node. nodes s a = Some node \<longrightarrow> hasDestructor node = D a"
  shows "\<exists>s'. WMDestroyTreeNode (Some (addr u)) s = Some s' \<and> tree_ok s' d None (prune (addr u) t) \<and>
    dom (nodes s') = dom (nodes s) - set (addrs u) \<and> destroyed s' = destroyed s @ doomed D u"
proof -
  obtain b w us where b: "T b w us \<in> set (subtrees t)" "u \<in> set us" using subtree_parent [OF u] by blast
  obtain e r where bt: "tree_ok s e r (T b w us)" using subtree_is [OF t(1) b(1)] by blast
  obtain nb where nb: "nodes s b = Some nb" "leaves_ok (leaves nb) (map addr us)" using bt by auto
  have dis: "distinct (addrs (T b w us))" by (rule distinct_subtree [OF t(2) b(1)])
  obtain l where l: "WMRemoveFromArrayMatching (leaves nb) None (Some (addr u)) = Some (l, 1, [Some (addr u)])"
    "leaves_ok l (map addr (filter (\<lambda>t. addr t \<noteq> addr u) us))"
    using leaves_remove [OF nb(2) _ b(2)] dis by auto
  have ut: "tree_ok s (e + 1) (Some b) u" by (rule tree_is_subtrees [OF bt b(2)])
  then obtain nu where nu: "nodes s (addr u) = Some nu" "parent nu = Some b" by (cases u) auto
  define s1 where "s1 = s\<lparr>nodes := (nodes s)(b \<mapsto> nb\<lparr>leaves := l\<rparr>)\<rparr>"
  have bu: "b \<notin> set (addrs u)" "distinct (addrs u)"
    using dis b(2) by (auto simp: distinct_concat_iff)
  define s2 where "s2 = s1\<lparr>nodes := (nodes s1) |` (- set (addrs u)), destroyed := destroyed s1 @ doomed D u\<rparr>"
  have "destroyNode (addr u) s1 = Some s2"
    unfolding s2_def
    by (rule destroyNode_ok [where c = True, OF tree_is_frame [OF ut] bu(2)]) (use bu D in \<open>auto simp: s1_def\<close>)
  moreover have "leaves nb \<noteq> NULL"
    using nb(2) b(2) by (auto simp: leaves_ok_def split: option.splits)
  ultimately have "WMDestroyTreeNode (Some (addr u)) s = Some s2"
    using nb(1) nu l(1) by (simp add: WMDestroyTreeNode_def destroyNode_def set_node_def s1_def)
  moreover have "tree_ok s2 d None (prune (addr u) t)"
    by (rule prune_ok [OF nb(1) b(2) _ _ l(2) t b(1)]) (auto simp: s2_def s1_def)
  moreover have "dom (nodes s2) = dom (nodes s) - set (addrs u)"
    using nb(1) by (auto simp: s2_def s1_def restrict_map_def split: if_splits)
  moreover have "destroyed s2 = destroyed s @ doomed D u" by (simp add: s2_def s1_def)
  ultimately show ?thesis by blast
qed

text \<open>the searches give the first node, parents before leaves and leaves in their order, whose data
  match, among those at most the limit below the root.\<close>

theorem find_in_tree_finds_first:
  assumes "tree_ok s d p t"
  shows "WMFindInTree m (Some (addr t)) s = Some (first_within m (- 1) (entries 0 t)) \<and>
    WMFindInTreeWithDepthLimit m limit (Some (addr t)) s =
      Some (if limit < 0 then NULL else first_within m limit (entries 0 t))"
proof -
  obtain a v ts where t: "t = T a v ts" by (cases t)
  have "findNodeInTree m limit a s = Some (first_within m limit (entries 0 t))" for limit
    using find_loop_ok [of s d p a v ts 0 m limit] assms t
    by (auto simp: findNodeInTree_def find_below_def first_within_def)
  then show ?thesis using t by (auto simp: WMFindInTree_def WMFindInTreeWithDepthLimit_def)
qed

section \<open>An example\<close>

definition example_tree :: tree_state where
  "example_tree = \<lparr>nodes = [0 \<mapsto> \<lparr>data = 7, leaves = Some \<lparr>items = [Cell (Some 3)], itemCount = 1, allocSize = 1, destructor = True\<rparr>,
       depth = 0, parent = NULL, hasDestructor = True\<rparr>,
     3 \<mapsto> \<lparr>data = 8, leaves = NULL, depth = 1, parent = Some 0, hasDestructor = True\<rparr>,
     2 \<mapsto> \<lparr>data = 9, leaves = NULL, depth = 0, parent = NULL, hasDestructor = False\<rparr>],
   brk = 4, destroyed = [], walked = []\<rparr>"

lemma example_tree_ok: "tree_ok example_tree 0 None (T 0 7 [T 3 8 []])" "tree_ok example_tree 0 None (T 2 9 [])"
  by (auto simp: example_tree_def leaves_ok_def array_rep_def)

theorem insert_node_grafts_witness: "\<exists>h. WMInsertNodeInTree (Some 0) 0 (Some 2) example_tree = Some (example_tree\<lparr>nodes := h\<rparr>, Some 2) \<and>
    tree_ok (example_tree\<lparr>nodes := h\<rparr>) 0 None (T 0 7 [T 2 9 [], T 3 8 []])"
  using insert_node_grafts [of example_tree 0 None "T 0 7 [T 3 8 []]" 0 0 None "T 2 9 []" 0]
    example_tree_ok tree_is_weaken [OF example_tree_ok(2), of 0]
  by (auto simp: put_at_def simp del: tree_is.simps)

theorem destroy_node_prunes_witness: "\<exists>s'. WMDestroyTreeNode (Some 3) example_tree = Some s' \<and>
    tree_ok s' 0 None (T 0 7 []) \<and> destroyed s' = [8]"
proof -
  have d: "\<forall>a \<in> set (addrs (T 3 8 [])). \<forall>node. nodes example_tree a = Some node \<longrightarrow> hasDestructor node = True"
    and n: "destroyed example_tree = []"
    by (auto simp: example_tree_def)
  show ?thesis
    using destroy_node_prunes [OF example_tree_ok(1), of "T 3 8 []" "\<lambda>_. True"] d n
    by (auto simp del: tree_is.simps)
qed

theorem find_in_tree_finds_first_witness:
  "WMFindInTree (\<lambda>x. x = 8) (Some 0) example_tree = Some (Some 3)"
  using find_in_tree_finds_first [of example_tree 0 None "T 0 7 [T 3 8 []]" "\<lambda>x. x = 8"] example_tree_ok(1)
  by (simp add: first_within_def del: tree_is.simps)

end
