(* ===== verification/WMStacking.thy ===== *)
theory WMStacking
  imports WMBagLists
begin

text \<open>
  \<open>WM/src/stacking.c\<close>: the stacking order of the frames of a screen. Every level has a doubly linked
  list of frames, from the top to the bottom; the bag \<open>stacking_list\<close> has the top frame of every
  level that has frames. A frame stands for its window: \<open>window\<close> is its address. \<open>None\<close> is an access
  through NULL or outside a block, or a loop that does not end. The X server is a parameter: a state
  and what the requests of the code do to it.
\<close>

section \<open>Frames and screens\<close>

record WStacking =
  above :: "nat ptr"
  under :: "nat ptr"
  window_level :: int
  child_of :: "nat ptr"

text \<open>What \<open>wRaiseLowerFrame\<close> looks at in the window whose frame it is.\<close>

record WWindow =
  frame_x :: int
  frame_y :: int
  width :: int
  height :: int
  workspace :: int
  omnipresent :: bool
  mapped :: bool

record WCoreWindow =
  stacking :: WStacking
  parent :: "WWindow ptr"

datatype stack_note = ChangedStacking nat string | ResetStacking

record 'x WScreen =
  frames :: "nat \<rightharpoonup> WCoreWindow"
  stacking_list :: "nat W_Bag"
  window_count :: int
  stack_context :: "nat \<rightharpoonup> nat"
  server :: 'x
  posted :: "stack_note list"

record 'x xlib =
  XRestackWindows :: "nat list \<Rightarrow> 'x \<Rightarrow> 'x"
  XRaiseWindow :: "nat \<Rightarrow> 'x \<Rightarrow> 'x"
  XLowerWindow :: "nat \<Rightarrow> 'x \<Rightarrow> 'x"
  XQueryTree :: "'x \<Rightarrow> nat list option"

definition get :: "(WStacking \<Rightarrow> 'r) \<Rightarrow> nat \<Rightarrow> 'x WScreen \<Rightarrow> 'r option" where
  "get f x s = map_option (\<lambda>c. f (stacking c)) (frames s x)"

definition put :: "(WStacking \<Rightarrow> WStacking) \<Rightarrow> nat \<Rightarrow> 'x WScreen \<Rightarrow> 'x WScreen option" where
  "put f x s = do { c \<leftarrow> frames s x; Some (s\<lparr>frames := (frames s)(x \<mapsto> c\<lparr>stacking := f (stacking c)\<rparr>)\<rparr>) }"

text \<open>\<open>if (p) p->stacking->field = value\<close>.\<close>

definition put_if :: "(WStacking \<Rightarrow> WStacking) \<Rightarrow> nat ptr \<Rightarrow> 'x WScreen \<Rightarrow> 'x WScreen option" where
  "put_if f p s = (case p of None \<Rightarrow> Some s | Some x \<Rightarrow> put f x s)"

abbreviation set_above :: "nat ptr \<Rightarrow> WStacking \<Rightarrow> WStacking" where
  "set_above p \<equiv> above_update (\<lambda>_. p)"

abbreviation set_under :: "nat ptr \<Rightarrow> WStacking \<Rightarrow> WStacking" where
  "set_under p \<equiv> under_update (\<lambda>_. p)"

definition top_of :: "int \<Rightarrow> 'x WScreen \<Rightarrow> (nat ptr) option" where
  "top_of level s = WMGetFromBag (stacking_list s) level"

definition set_top :: "int \<Rightarrow> nat ptr \<Rightarrow> 'x WScreen \<Rightarrow> 'x WScreen option" where
  "set_top level p s = do { (b, _, _) \<leftarrow> WMReplaceInBag (stacking_list s) level p; Some (s\<lparr>stacking_list := b\<rparr>) }"

definition post :: "stack_note \<Rightarrow> 'x WScreen \<Rightarrow> 'x WScreen" where
  "post n s = s\<lparr>posted := posted s @ [n]\<rparr>"

definition notifyStackChange :: "nat \<Rightarrow> string \<Rightarrow> 'x WScreen \<Rightarrow> 'x WScreen" where
  "notifyStackChange frame detail s = post (ChangedStacking frame detail) s"

section \<open>Committing\<close>

text \<open>The frames from \<open>p\<close> downwards.\<close>

partial_function (option) downwards :: "'x WScreen \<Rightarrow> nat ptr \<Rightarrow> nat list option" where
  "downwards s p =
     (case p of
        None \<Rightarrow> Some []
      | Some x \<Rightarrow> do { q \<leftarrow> get under x s; xs \<leftarrow> downwards s q; Some (x # xs) })"

fun commit_loop :: "'x WScreen \<Rightarrow> nat ptr list \<Rightarrow> nat list option" where
  "commit_loop s [] = Some []"
| "commit_loop s (p # ps) = do { xs \<leftarrow> downwards s p; ys \<leftarrow> commit_loop s ps; Some (xs @ ys) }"

definition CommitStacking :: "'x xlib \<Rightarrow> 'x WScreen \<Rightarrow> 'x WScreen option" where
  "CommitStacking X s = do {
     tops \<leftarrow> WM_ETARETI_BAG (stacking_list s);
     windows \<leftarrow> commit_loop s tops;
     (if int (length windows) > window_count s then None
      else Some (post ResetStacking (s\<lparr>server := XRestackWindows X windows (server s)\<rparr>))) }"

fun remake_loop :: "nat list \<Rightarrow> int \<Rightarrow> 'x WScreen \<Rightarrow> ('x WScreen \<times> int) option" where
  "remake_loop [] c s = Some (s, c)"
| "remake_loop (w # windows) c s =
     (case stack_context s w of
        None \<Rightarrow> remake_loop windows c s
      | Some frame \<Rightarrow> do {
          level \<leftarrow> get window_level frame s;
          tmp \<leftarrow> top_of level s;
          s \<leftarrow> put_if (set_above (Some frame)) tmp s;
          s \<leftarrow> put (set_under tmp) frame s;
          s \<leftarrow> put (set_above NULL) frame s;
          s \<leftarrow> set_top level (Some frame) s;
          remake_loop windows (c + 1) s })"

definition RemakeStackList :: "'x xlib \<Rightarrow> 'x WScreen \<Rightarrow> 'x WScreen option" where
  "RemakeStackList X s =
     (case XQueryTree X (server s) of
        None \<Rightarrow> Some s
      | Some windows \<Rightarrow> do {
          (b, _) \<leftarrow> WMEmptyBag (stacking_list s);
          (s, c) \<leftarrow> remake_loop windows 0 (s\<lparr>stacking_list := b\<rparr>);
          CommitStacking X (s\<lparr>window_count := c\<rparr>) })"

definition moveFrameToUnder :: "'x xlib \<Rightarrow> nat \<Rightarrow> nat \<Rightarrow> 'x WScreen \<Rightarrow> 'x WScreen" where
  "moveFrameToUnder X upper frame s = s\<lparr>server := XRestackWindows X [upper, frame] (server s)\<rparr>"

text \<open>\<open>for (i = level + 1, above = NULL; i <= last; i++)\<close>: the top of the next level that has frames.\<close>

function next_level :: "'x WScreen \<Rightarrow> int \<Rightarrow> int \<Rightarrow> (nat ptr) option" where
  "next_level s i final =
     (if i \<le> final then do {
        p \<leftarrow> top_of i s;
        (if p \<noteq> NULL then Some p else next_level s (i + 1) final) }
      else Some NULL)"
  by pat_completeness auto
termination by (relation "measure (\<lambda>(s, i, final). nat (final + 1 - i))") auto

declare next_level.simps [simp del]

partial_function (option) bottom :: "'x WScreen \<Rightarrow> nat \<Rightarrow> nat option" where
  "bottom s x = do {
     q \<leftarrow> get under x s;
     (case q of None \<Rightarrow> Some x | Some y \<Rightarrow> bottom s y) }"

text \<open>
  What the end of raising, lowering and committing a frame have in common: under the frame above it,
  or, for the top of a level, under the bottom of the next level, or the request \<open>alone\<close>.
\<close>

definition place :: "'x xlib \<Rightarrow> (nat \<Rightarrow> 'x \<Rightarrow> 'x) \<Rightarrow> nat \<Rightarrow> int \<Rightarrow> 'x WScreen \<Rightarrow> 'x WScreen option" where
  "place X alone frame level s = do {
     a \<leftarrow> get above frame s;
     (case a of
        None \<Rightarrow> do {
          (t, _) \<leftarrow> WMBagLast (stacking_list s);
          t \<leftarrow> t;
          last \<leftarrow> get window_level t s;
          upper \<leftarrow> next_level s (level + 1) last;
          (case upper of
             Some u \<Rightarrow>
               if u \<noteq> frame then do { u \<leftarrow> bottom s u; Some (moveFrameToUnder X u frame s) }
               else Some (s\<lparr>server := alone frame (server s)\<rparr>)
           | None \<Rightarrow> Some (s\<lparr>server := alone frame (server s)\<rparr>)) }
      | Some u \<Rightarrow> Some (moveFrameToUnder X u frame s)) }"

definition CommitStackingForWindow :: "'x xlib \<Rightarrow> nat \<Rightarrow> 'x WScreen \<Rightarrow> 'x WScreen option" where
  "CommitStackingForWindow X frame s = do {
     level \<leftarrow> get window_level frame s;
     place X (XRaiseWindow X) frame level s }"

section \<open>Raising and lowering\<close>

text \<open>Taking a frame out of its list: the links of its neighbours.\<close>

definition unlink_frame :: "nat \<Rightarrow> 'x WScreen \<Rightarrow> 'x WScreen option" where
  "unlink_frame frame s = do {
     a \<leftarrow> get above frame s;
     u \<leftarrow> get under frame s;
     s \<leftarrow> put_if (set_above a) u s;
     put_if (set_under u) a s }"

text \<open>The first loop of \<open>again\<close>, upwards from a frame: the first transient of \<open>frame\<close>.\<close>

partial_function (option) scan_up :: "'x WScreen \<Rightarrow> nat \<Rightarrow> nat ptr \<Rightarrow> (nat ptr) option" where
  "scan_up s frame w =
     (case w of
        None \<Rightarrow> Some NULL
      | Some x \<Rightarrow>
          if x = frame then Some NULL
          else do {
            c \<leftarrow> get child_of x s;
            (if c = Some frame then Some (Some x)
             else do { a \<leftarrow> get above x s; scan_up s frame a }) })"

definition lowest_transient :: "nat \<Rightarrow> 'x WScreen \<Rightarrow> (nat ptr) option" where
  "lowest_transient frame s = do {
     u \<leftarrow> get under frame s;
     (case u of None \<Rightarrow> Some NULL | Some x \<Rightarrow> do { b \<leftarrow> bottom s x; scan_up s frame (Some b) }) }"

text \<open>\<open>wRaiseFrame\<close>; with \<open>again\<close>, from the label on.\<close>

partial_function (option) raise :: "'x xlib \<Rightarrow> bool \<Rightarrow> nat \<Rightarrow> 'x WScreen \<Rightarrow> 'x WScreen option" where
  "raise X again frame s = do {
     level \<leftarrow> get window_level frame s;
     (if \<not> again
      then do {
        a \<leftarrow> get above frame s;
        (if a = NULL then Some s
         else do {
           s \<leftarrow> unlink_frame frame s;
           s \<leftarrow> put (set_above NULL) frame s;
           t \<leftarrow> top_of level s;
           s \<leftarrow> put (set_under t) frame s;
           s \<leftarrow> put_if (set_above (Some frame)) t s;
           s \<leftarrow> set_top level (Some frame) s;
           raise X True frame s }) }
      else do {
        w \<leftarrow> lowest_transient frame s;
        (case w of
           Some x \<Rightarrow> do { s \<leftarrow> raise X False x s; raise X True frame s }
         | None \<Rightarrow> do {
             s \<leftarrow> place X (XRaiseWindow X) frame level s;
             Some (notifyStackChange frame ''raise'' s) }) }) }"

definition wRaiseFrame :: "'x xlib \<Rightarrow> nat \<Rightarrow> 'x WScreen \<Rightarrow> 'x WScreen option" where
  "wRaiseFrame X frame s = raise X False frame s"

text \<open>The place for a lowered frame: the bottom, or above its owner.\<close>

partial_function (option) lower_place :: "'x WScreen \<Rightarrow> nat ptr \<Rightarrow> nat \<Rightarrow> nat option" where
  "lower_place s owner w = do {
     u \<leftarrow> get under w s;
     (case u of
        None \<Rightarrow> Some w
      | Some x \<Rightarrow> if owner = Some x then Some w else lower_place s owner x) }"

definition wLowerFrame :: "'x xlib \<Rightarrow> nat \<Rightarrow> 'x WScreen \<Rightarrow> 'x WScreen option" where
  "wLowerFrame X frame s = do {
     level \<leftarrow> get window_level frame s;
     u \<leftarrow> get under frame s;
     owner \<leftarrow> get child_of frame s;
     (if u = NULL \<or> u = owner then Some s
      else do {
        first \<leftarrow> top_of level s;
        s \<leftarrow> (if first = Some frame
             then do { s \<leftarrow> set_top level u s; x \<leftarrow> u; put (set_above NULL) x s }
             else unlink_frame frame s);
        wlist \<leftarrow> top_of level s;
        wlist \<leftarrow> (case wlist of
                    None \<Rightarrow> Some NULL
                  | Some w \<Rightarrow> if owner \<noteq> Some w then map_option Some (lower_place s owner w) else Some (Some w));
        s \<leftarrow> put (set_above wlist) frame s;
        s \<leftarrow> (case wlist of
               None \<Rightarrow> put (set_under NULL) frame s
             | Some w \<Rightarrow> do {
                 v \<leftarrow> get under w s;
                 s \<leftarrow> put (set_under v) frame s;
                 s \<leftarrow> put_if (set_above (Some frame)) v s;
                 put (set_under (Some frame)) w s });
        s \<leftarrow> place X (XLowerWindow X) frame level s;
        Some (notifyStackChange frame ''lower'' s) }) }"

definition wWindowObscuresWindow :: "WWindow \<Rightarrow> WWindow \<Rightarrow> bool" where
  "wWindowObscuresWindow wwin obscured =
     (if \<not> omnipresent wwin \<and> \<not> omnipresent obscured \<and> workspace wwin \<noteq> workspace obscured then False
      else if frame_x wwin + width wwin < frame_x obscured
           \<or> frame_y wwin + height wwin < frame_y obscured
           \<or> frame_x wwin > frame_x obscured + width obscured
           \<or> frame_y wwin > frame_y obscured + height obscured then False
      else True)"

partial_function (option) obscured_scan :: "'x WScreen \<Rightarrow> WWindow ptr \<Rightarrow> nat ptr \<Rightarrow> (nat ptr) option" where
  "obscured_scan s wwin scan =
     (case scan of
        None \<Rightarrow> Some NULL
      | Some x \<Rightarrow> do {
          c \<leftarrow> frames s x;
          hit \<leftarrow> (case parent c of
                   None \<Rightarrow> Some False
                 | Some w \<Rightarrow> do { v \<leftarrow> wwin; Some (wWindowObscuresWindow w v \<and> mapped w) });
          (if hit then Some (Some x) else obscured_scan s wwin (above (stacking c))) })"

definition wRaiseLowerFrame :: "'x xlib \<Rightarrow> nat \<Rightarrow> 'x WScreen \<Rightarrow> 'x WScreen option" where
  "wRaiseLowerFrame X frame s = do {
     c \<leftarrow> frames s frame;
     lower \<leftarrow> (case above (stacking c) of
                None \<Rightarrow> Some True
              | Some a \<Rightarrow> do { l \<leftarrow> get window_level a s; Some (window_level (stacking c) \<noteq> l) });
     (if lower then wLowerFrame X frame s
      else do {
        scan \<leftarrow> obscured_scan s (parent c) (above (stacking c));
        (if scan \<noteq> NULL then wRaiseFrame X frame s else wLowerFrame X frame s) }) }"

section \<open>Adding, moving and removing\<close>

text \<open>The lowest transient of \<open>frame\<close> in the list from \<open>w\<close> on.\<close>

partial_function (option) find_transient :: "'x WScreen \<Rightarrow> nat \<Rightarrow> nat ptr \<Rightarrow> nat ptr \<Rightarrow> (nat ptr) option" where
  "find_transient s frame tr w =
     (case w of
        None \<Rightarrow> Some tr
      | Some x \<Rightarrow> do {
          c \<leftarrow> get child_of x s;
          u \<leftarrow> get under x s;
          find_transient s frame (if c = Some frame then Some x else tr) u })"

definition AddToStackList :: "'x xlib \<Rightarrow> nat \<Rightarrow> 'x WScreen \<Rightarrow> 'x WScreen option" where
  "AddToStackList X frame s = do {
     index \<leftarrow> get window_level frame s;
     let s = s\<lparr>window_count := window_count s + 1, stack_context := (stack_context s)(frame \<mapsto> frame)\<rparr>;
     curtop \<leftarrow> top_of index s;
     (case curtop of
        None \<Rightarrow> do {
          s \<leftarrow> set_top index (Some frame) s;
          s \<leftarrow> put (set_above NULL) frame s;
          s \<leftarrow> put (set_under NULL) frame s;
          CommitStacking X s }
      | Some first \<Rightarrow> do {
          trans \<leftarrow> find_transient s frame NULL (Some first);
          s \<leftarrow> put (set_above trans) frame s;
          s \<leftarrow> (case trans of
                 Some t \<Rightarrow> do {
                   u \<leftarrow> get under t s;
                   s \<leftarrow> put (set_under u) frame s;
                   s \<leftarrow> put_if (set_above (Some frame)) u s;
                   put (set_under (Some frame)) t s }
               | None \<Rightarrow> do {
                   s \<leftarrow> put (set_under (Some first)) frame s;
                   s \<leftarrow> put (set_above (Some frame)) first s;
                   set_top index (Some frame) s });
          CommitStacking X s }) }"

definition RemoveFromStackList :: "nat \<Rightarrow> 'x WScreen \<Rightarrow> 'x WScreen option" where
  "RemoveFromStackList frame s = do {
     index \<leftarrow> get window_level frame s;
     (if stack_context s frame = None then Some s
      else do {
        let s = s\<lparr>stack_context := (stack_context s)(frame := None)\<rparr>;
        a \<leftarrow> get above frame s;
        u \<leftarrow> get under frame s;
        s \<leftarrow> put_if (set_above a) u s;
        s \<leftarrow> (case a of Some x \<Rightarrow> put (set_under u) x s | None \<Rightarrow> set_top index u s);
        Some (post ResetStacking (s\<lparr>window_count := window_count s - 1\<rparr>)) }) }"

text \<open>The field is a \<open>short\<close>.\<close>

definition short :: "int \<Rightarrow> int" where
  "short n = sint (word_of_int n :: 16 word)"

definition ChangeStackingLevel :: "'x xlib \<Rightarrow> nat \<Rightarrow> int \<Rightarrow> 'x WScreen \<Rightarrow> 'x WScreen option" where
  "ChangeStackingLevel X frame new_level s = do {
     old_level \<leftarrow> get window_level frame s;
     (if old_level = new_level then Some s
      else do {
        s \<leftarrow> RemoveFromStackList frame s;
        s \<leftarrow> put (window_level_update (\<lambda>_. short new_level)) frame s;
        s \<leftarrow> AddToStackList X frame s;
        (if old_level > new_level then wRaiseFrame X frame s else wLowerFrame X frame s) }) }"

definition MoveInStackListAbove :: "'x xlib \<Rightarrow> nat ptr \<Rightarrow> nat \<Rightarrow> 'x WScreen \<Rightarrow> 'x WScreen option" where
  "MoveInStackListAbove X next frame s =
     (case next of
        None \<Rightarrow> Some s
      | Some n \<Rightarrow> do {
          u \<leftarrow> get under frame s;
          (if u = Some n then Some s
           else do {
             l \<leftarrow> get window_level frame s;
             m \<leftarrow> get window_level n s;
             s \<leftarrow> (if l \<noteq> m then ChangeStackingLevel X frame m s else Some s);
             index \<leftarrow> get window_level frame s;
             tmpw \<leftarrow> top_of index s;
             u \<leftarrow> get under frame s;
             s \<leftarrow> (if tmpw = Some frame then set_top index u s else Some s);
             s \<leftarrow> unlink_frame frame s;
             a \<leftarrow> get above n s;
             s \<leftarrow> put_if (set_under (Some frame)) a s;
             s \<leftarrow> put (set_under (Some n)) frame s;
             a \<leftarrow> get above n s;
             s \<leftarrow> put (set_above a) frame s;
             s \<leftarrow> put (set_above (Some frame)) n s;
             s \<leftarrow> (if tmpw = Some n then set_top index (Some frame) s else Some s);
             a \<leftarrow> get above frame s;
             s \<leftarrow> (case a of
                    None \<Rightarrow> do {
                      (upper, _) \<leftarrow> WMBagIteratorAtIndex (stacking_list s) (index + 1);
                      (case upper of
                         None \<Rightarrow> Some (s\<lparr>server := XRaiseWindow X frame (server s)\<rparr>)
                       | Some x \<Rightarrow> do { x \<leftarrow> bottom s x; Some (moveFrameToUnder X x frame s) }) }
                  | Some x \<Rightarrow> Some (moveFrameToUnder X x frame s));
             Some (post ResetStacking s) }) })"

definition MoveInStackListUnder :: "'x xlib \<Rightarrow> nat ptr \<Rightarrow> nat \<Rightarrow> 'x WScreen \<Rightarrow> 'x WScreen option" where
  "MoveInStackListUnder X prev frame s =
     (case prev of
        None \<Rightarrow> Some s
      | Some p \<Rightarrow> do {
          a \<leftarrow> get above frame s;
          (if a = Some p then Some s
           else do {
             l \<leftarrow> get window_level frame s;
             m \<leftarrow> get window_level p s;
             s \<leftarrow> (if l \<noteq> m then ChangeStackingLevel X frame m s else Some s);
             index \<leftarrow> get window_level frame s;
             tmpw \<leftarrow> top_of index s;
             u \<leftarrow> get under frame s;
             s \<leftarrow> (if tmpw = Some frame then set_top index u s else Some s);
             s \<leftarrow> unlink_frame frame s;
             u \<leftarrow> get under p s;
             s \<leftarrow> put_if (set_above (Some frame)) u s;
             s \<leftarrow> put (set_above (Some p)) frame s;
             u \<leftarrow> get under p s;
             s \<leftarrow> put (set_under u) frame s;
             s \<leftarrow> put (set_under (Some frame)) p s;
             Some (post ResetStacking (moveFrameToUnder X p frame s)) }) })"

declare
  downwards.simps [code] and bottom.simps [code] and scan_up.simps [code] and raise.simps [code] and
  lower_place.simps [code] and obscured_scan.simps [code] and find_transient.simps [code]

end
