(* ===== verification/WMStackingLists.thy ===== *)
theory WMStackingLists
  imports WMStacking
begin

text \<open>
  The shape of a screen: \<open>lists_ok s L\<close> says that the links of the frames and the bag of their tops hold
  the lists \<open>L\<close>, one for every level; and how the order of the windows on the server agrees with them.
\<close>

section \<open>The bag of the top frames\<close>

text \<open>\<open>L\<close> gives the frames of every level from the top to the bottom.\<close>

type_synonym lists = "int \<Rightarrow> nat list"

definition levels :: "lists \<Rightarrow> int list" where
  "levels L = sorted_list_of_set {i. L i \<noteq> []}"

definition bag_tops :: "nat W_Bag \<Rightarrow> lists \<Rightarrow> bool" where
  "bag_tops b L \<longleftrightarrow> finite {i. L i \<noteq> []} \<and> bag_rep b (map (\<lambda>i. (i, Some (hd (L i)))) (levels L))"

definition top_frame :: "nat list \<Rightarrow> nat ptr" where
  "top_frame xs = (case xs of [] \<Rightarrow> NULL | x # _ \<Rightarrow> Some x)"

lemma top_frame_simps [simp]: "top_frame [] = NULL" "top_frame (x # xs) = Some x"
  by (simp_all add: top_frame_def)

lemma lookup_levels: "finite {i. L i \<noteq> []} \<Longrightarrow> lookup (map (\<lambda>i. (i, Some (hd (L i)))) (levels L)) i = top_frame (L i)"
  by (auto simp: lookup_def map_of_map_restrict levels_def restrict_map_def top_frame_def split: list.split)

lemma entries_canonical:
  assumes "sorted_wrt (<) (map fst kvs)" "\<forall>kv \<in> set kvs. snd kv \<noteq> NULL" "\<And>i. lookup kvs i = top_frame (L i)"
  shows "kvs = map (\<lambda>i. (i, Some (hd (L i)))) (levels L)" "finite {i. L i \<noteq> []}"
proof -
  have dis: "distinct (map fst kvs)" using assms(1) strict_sorted_iff by blast
  have v: "snd kv = lookup kvs (fst kv)" if "kv \<in> set kvs" for kv
    using map_of_is_SomeI [OF dis, of "fst kv" "snd kv"] that by (simp add: lookup_def)
  have "i \<in> set (map fst kvs) \<longleftrightarrow> L i \<noteq> []" for i
  proof
    assume "i \<in> set (map fst kvs)"
    then obtain kv where "kv \<in> set kvs" "fst kv = i" by auto
    then show "L i \<noteq> []" using v assms(2,3) by fastforce
  next
    assume "L i \<noteq> []"
    then have "lookup kvs i \<noteq> NULL" using assms(3) by (simp add: top_frame_def split: list.splits)
    then obtain v where "map_of kvs i = Some v" by (auto simp: lookup_def split: option.splits)
    then show "i \<in> set (map fst kvs)" by (force dest: map_of_SomeD)
  qed
  then have s: "set (map fst kvs) = {i. L i \<noteq> []}" by blast
  then show fin: "finite {i. L i \<noteq> []}" by (metis List.finite_set)
  have k: "map fst kvs = levels L"
    unfolding levels_def s [symmetric] using assms(1) by (simp only: sorted_list_of_set_unique [symmetric] strict_sorted_iff sorted_list_of_set.idem_if_sorted_distinct)
  have "snd kv = Some (hd (L (fst kv)))" if "kv \<in> set kvs" for kv
    using v [OF that] assms(2,3) that by (auto simp: top_frame_def split: list.splits)
  then have "kvs = map (\<lambda>i. (i, Some (hd (L i)))) (map fst kvs)"
    by (auto intro!: map_idI [symmetric] simp: comp_def prod_eq_iff)
  then show "kvs = map (\<lambda>i. (i, Some (hd (L i)))) (levels L)" unfolding k .
qed

lemma bag_tops_get: "bag_tops b L \<Longrightarrow> WMGetFromBag b i = Some (top_frame (L i))"
  using WMGetFromBag_rep [of b "map (\<lambda>i. (i, Some (hd (L i)))) (levels L)" i] lookup_levels [of L i]
  by (simp add: bag_tops_def)

lemma bag_tops_set:
  assumes "bag_tops b L"
  shows "\<exists>b' old d. WMReplaceInBag b i (Some x) = Some (b', old, d) \<and> bag_tops b' (L(i := x # xs))"
proof -
  let ?kvs = "map (\<lambda>i. (i, Some (hd (L i)))) (levels L)"
  have b: "bag_rep b ?kvs" "finite {i. L i \<noteq> []}" using assms by (simp_all add: bag_tops_def)
  obtain b' where b': "WMReplaceInBag b i (Some x) = Some (b', lookup ?kvs i, [])" "bag_rep b' (set_entry i (Some x) ?kvs)"
    using WMReplaceInBag_rep [OF b(1), of "Some x" i] by blast
  have s: "sorted_wrt (<) (map fst ?kvs)" by (rule bag_repE [OF b(1)])
  have l: "lookup (set_entry i (Some x) ?kvs) j = top_frame ((L(i := x # xs)) j)" for j
    unfolding lookup_set_entry [OF s] using lookup_levels [OF b(2)] by simp
  have n: "\<forall>kv \<in> set (set_entry i (Some x) ?kvs). snd kv \<noteq> NULL"
    by (auto simp: set_entry_def dest!: set_takeWhileD set_dropWhileD)
  have "sorted_wrt (<) (map fst (set_entry i (Some x) ?kvs))" by (rule bag_repE [OF b'(2)])
  note c = entries_canonical [OF this n l]
  have "bag_tops b' (L(i := x # xs))" unfolding bag_tops_def c(1) [symmetric] using b'(2) c(2) by blast
  then show ?thesis using b'(1) by blast
qed

lemma bag_tops_iterate: "bag_tops b L \<Longrightarrow> WM_ETARETI_BAG b = Some (map (\<lambda>i. Some (hd (L i))) (rev (levels L)))"
  using bag_rep_answers [of b] by (auto simp: bag_tops_def answers_def rev_map comp_def)

lemma bag_tops_last:
  assumes "bag_tops b L" "L i \<noteq> []"
  shows "\<exists>it. WMBagLast b = Some (Some (hd (L (last (levels L)))), it)"
proof -
  let ?kvs = "map (\<lambda>i. (i, Some (hd (L i)))) (levels L)"
  have b: "bag_rep b ?kvs" "finite {i. L i \<noteq> []}" using assms by (simp_all add: bag_tops_def)
  then have ne: "levels L \<noteq> []" using assms(2) by (auto simp: levels_def)
  obtain t where t: "tree_of b t" "entries b t = ?kvs" using bag_repE [OF b(1)] by metis
  then have e: "map (item_of b) (inorder t) = map snd ?kvs" using entries_snd [of b t] by simp
  have w: "inorder t \<noteq> []" "item_of b (last (inorder t)) = Some (hd (L (last (levels L))))"
  proof -
    show "inorder t \<noteq> []" using e ne by auto
    then have "item_of b (last (inorder t)) = last (map (item_of b) (inorder t))" by (simp add: last_map)
    also have "\<dots> = Some (hd (L (last (levels L))))" unfolding e using ne by (simp add: last_map comp_def)
    finally show "item_of b (last (inorder t)) = Some (hd (L (last (levels L))))" .
  qed
  then have "t \<noteq> Leaf" by auto
  then have "treeMaximum b (root b) = Some (last (inorder t))"
    using extreme_of_bag [OF t(1), of LEFT] by (simp add: treeMaximum_def walk_def hd_rev)
  moreover have "nodes b (last (inorder t)) \<noteq> None \<and> last (inorder t) \<noteq> nil b"
    by (rule nodes_in_walk [OF t(1), of RIGHT "butlast (inorder t)" _ "[]"]) (use w(1) in \<open>simp add: walk_def\<close>)
  ultimately show ?thesis using w(2) at_node_in [of b "last (inorder t)"] by (simp add: WMBagLast_def)
qed


section \<open>Linked lists of frames\<close>

definition stackings :: "'x WScreen \<Rightarrow> nat \<rightharpoonup> WStacking" where
  "stackings s x = map_option stacking (frames s x)"

fun linked :: "(nat \<rightharpoonup> WStacking) \<Rightarrow> nat ptr \<Rightarrow> nat list \<Rightarrow> nat ptr \<Rightarrow> bool" where
  "linked h p [] q \<longleftrightarrow> True"
| "linked h p (x # xs) q \<longleftrightarrow>
     (\<exists>n. h x = Some n \<and> above n = p \<and> under n = (case xs of [] \<Rightarrow> q | y # _ \<Rightarrow> Some y)) \<and> linked h (Some x) xs q"

definition first_or :: "nat ptr \<Rightarrow> nat list \<Rightarrow> nat ptr" where
  "first_or q xs = (case xs of [] \<Rightarrow> q | x # _ \<Rightarrow> Some x)"

definition last_or :: "nat ptr \<Rightarrow> nat list \<Rightarrow> nat ptr" where
  "last_or p xs = (if xs = [] then p else Some (last xs))"

lemma first_or_simps [simp]: "first_or q [] = q" "first_or q (x # xs) = Some x" "first_or q (xs @ ys) = first_or (first_or q ys) xs"
  by (simp_all add: first_or_def split: list.split)

lemma last_or_simps [simp]: "last_or p [] = p" "last_or p (xs @ [x]) = Some x" "last_or p (x # xs) = last_or (Some x) xs"
  by (simp_all add: last_or_def)

lemma last_or_in: "last_or NULL xs = Some x \<Longrightarrow> x \<in> set xs"
  by (auto simp: last_or_def split: if_splits)

lemma first_or_in: "first_or NULL xs = Some x \<Longrightarrow> x \<in> set xs"
  by (auto simp: first_or_def split: list.splits)

lemma top_frame_first: "top_frame xs = first_or NULL xs"
  by (simp add: top_frame_def first_or_def)

lemma linked_append: "linked h p (xs @ ys) q \<longleftrightarrow> linked h p xs (first_or q ys) \<and> linked h (last_or p xs) ys q"
  by (induction xs arbitrary: p) (auto split: list.split)

lemma linked_frame: "linked h p xs q \<Longrightarrow> \<forall>x \<in> set xs. h' x = h x \<Longrightarrow> linked h' p xs q"
  by (induction xs arbitrary: p) auto

lemma linked_allocated: "linked h p xs q \<Longrightarrow> x \<in> set xs \<Longrightarrow> h x \<noteq> None"
  by (induction xs arbitrary: p) auto

lemma linked_at:
  "linked h p (xs @ x # ys) q \<Longrightarrow> \<exists>n. h x = Some n \<and> above n = last_or p xs \<and> under n = first_or q ys"
  by (auto simp: linked_append first_or_def)

text \<open>Changing the link at the end of a list, and at its beginning.\<close>

lemma linked_end:
  assumes "linked h p xs q" "distinct xs" "\<forall>x \<in> set xs. Some x \<noteq> last_or NULL xs \<longrightarrow> h' x = h x"
    "\<And>x. last_or NULL xs = Some x \<Longrightarrow> h' x = map_option (under_update (\<lambda>_. q')) (h x)"
  shows "linked h' p xs q'"
proof (cases xs rule: rev_cases)
  case (snoc ys y)
  have "linked h p ys (Some y)" "linked h (last_or p ys) [y] q" using assms(1) by (simp_all add: snoc linked_append)
  moreover have "linked h' p ys (Some y)"
    by (rule linked_frame [OF calculation(1)]) (use assms(2,3) in \<open>auto simp: snoc\<close>)
  ultimately show ?thesis using assms(4) [of y] by (auto simp: snoc linked_append)
qed simp

lemma linked_begin:
  assumes "linked h p xs q" "distinct xs" "\<forall>x \<in> set xs. Some x \<noteq> first_or NULL xs \<longrightarrow> h' x = h x"
    "\<And>x. first_or NULL xs = Some x \<Longrightarrow> h' x = map_option (above_update (\<lambda>_. p')) (h x)"
  shows "linked h' p' xs q"
proof (cases xs)
  case (Cons y ys)
  have "linked h' (Some y) ys q"
    by (rule linked_frame [of h]) (use assms(1-3) in \<open>auto simp: Cons\<close>)
  then show ?thesis using assms(1,4) by (auto simp: Cons)
qed simp

text \<open>Updates of the stacking records.\<close>

definition upd :: "(WStacking \<Rightarrow> WStacking) \<Rightarrow> nat ptr \<Rightarrow> (nat \<rightharpoonup> WStacking) \<Rightarrow> nat \<rightharpoonup> WStacking" where
  "upd f p h = (case p of None \<Rightarrow> h | Some x \<Rightarrow> h(x := map_option f (h x)))"

lemma upd_apply: "upd f p h x = (if p = Some x then map_option f (h x) else h x)"
  by (simp add: upd_def split: option.split)

text \<open>Taking a frame out, and putting one in, leave linked lists.\<close>

lemma linked_remove:
  assumes l: "linked h NULL (xs @ f # ys) NULL" and d: "distinct (xs @ f # ys)"
    and h': "h' = upd (set_under (first_or NULL ys)) (last_or NULL xs) (upd (set_above (last_or NULL xs)) (first_or NULL ys) h)"
  shows "linked h' NULL (xs @ ys) NULL"
proof -
  have l1: "linked h NULL xs (Some f)" "linked h (Some f) ys NULL" using l by (auto simp: linked_append)
  have "linked h' NULL xs (first_or NULL ys)"
  proof (rule linked_end [OF l1(1)])
    show "\<forall>x \<in> set xs. Some x \<noteq> last_or NULL xs \<longrightarrow> h' x = h x"
      using d by (auto simp: h' upd_apply dest: last_or_in first_or_in)
    show "h' x = map_option (set_under (first_or NULL ys)) (h x)" if "last_or NULL xs = Some x" for x
      using d that by (auto simp: h' upd_apply dest: last_or_in first_or_in)
  qed (use d in simp)
  moreover have "linked h' (last_or NULL xs) ys NULL"
  proof (rule linked_begin [OF l1(2)])
    show "\<forall>x \<in> set ys. Some x \<noteq> first_or NULL ys \<longrightarrow> h' x = h x"
      using d by (auto simp: h' upd_apply dest: last_or_in first_or_in)
    show "h' x = map_option (set_above (last_or NULL xs)) (h x)" if "first_or NULL ys = Some x" for x
      using d that by (auto simp: h' upd_apply dest: last_or_in first_or_in)
  qed (use d in simp)
  ultimately show ?thesis by (simp add: linked_append)
qed

lemma linked_insert:
  assumes l: "linked h NULL (xs @ ys) NULL" and d: "distinct (xs @ f # ys)"
    and f: "h' f = Some n" "above n = last_or NULL xs" "under n = first_or NULL ys"
    and h': "\<And>x. x \<noteq> f \<Longrightarrow> h' x = upd (set_under (Some f)) (last_or NULL xs) (upd (set_above (Some f)) (first_or NULL ys) h) x"
  shows "linked h' NULL (xs @ f # ys) NULL"
proof -
  have l1: "linked h NULL xs (first_or NULL ys)" "linked h (last_or NULL xs) ys NULL" using l by (auto simp: linked_append)
  have "linked h' NULL xs (Some f)"
  proof (rule linked_end [OF l1(1)])
    show "\<forall>x \<in> set xs. Some x \<noteq> last_or NULL xs \<longrightarrow> h' x = h x"
    proof (intro ballI impI)
      fix x assume x: "x \<in> set xs" "Some x \<noteq> last_or NULL xs"
      then have "x \<noteq> f" "first_or NULL ys \<noteq> Some x" using d by (auto dest: first_or_in)
      then show "h' x = h x" using h' [of x] x(2) by (simp add: upd_apply)
    qed
    show "h' x = map_option (set_under (Some f)) (h x)" if "last_or NULL xs = Some x" for x
    proof -
      have "x \<in> set xs" using that by (auto simp: last_or_def split: if_splits)
      then have "x \<noteq> f" "first_or NULL ys \<noteq> Some x" using d by (auto dest: first_or_in)
      then show ?thesis using that h' [of x] by (simp add: upd_apply)
    qed
  qed (use d in simp)
  moreover have "linked h' (Some f) ys NULL"
  proof (rule linked_begin [OF l1(2)])
    show "\<forall>x \<in> set ys. Some x \<noteq> first_or NULL ys \<longrightarrow> h' x = h x"
    proof (intro ballI impI)
      fix x assume x: "x \<in> set ys" "Some x \<noteq> first_or NULL ys"
      then have "x \<noteq> f" "last_or NULL xs \<noteq> Some x" using d by (auto dest: last_or_in)
      then show "h' x = h x" using h' [of x] x(2) by (simp add: upd_apply)
    qed
    show "h' x = map_option (set_above (Some f)) (h x)" if "first_or NULL ys = Some x" for x
    proof -
      have "x \<in> set ys" using that by (rule first_or_in)
      then have "x \<noteq> f" "last_or NULL xs \<noteq> Some x" using d by (auto dest: last_or_in)
      then show ?thesis using that h' [of x] by (simp add: upd_apply)
    qed
  qed (use d in simp)
  moreover have "linked h' (last_or NULL xs) [f] (first_or NULL ys)" using f by simp
  ultimately show ?thesis using f by (simp add: linked_append) (simp add: first_or_def)
qed


section \<open>The lists of a screen\<close>

definition stack_order :: "lists \<Rightarrow> nat list" where
  "stack_order L = concat (map L (rev (levels L)))"

definition lists_ok :: "'x WScreen \<Rightarrow> lists \<Rightarrow> bool" where
  "lists_ok s L \<longleftrightarrow> bag_tops (stacking_list s) L \<and>
     (\<forall>i. linked (stackings s) NULL (L i) NULL \<and> distinct (L i) \<and> (\<forall>x \<in> set (L i). get window_level x s = Some i))"

lemma lists_okD:
  assumes "lists_ok s L"
  shows "bag_tops (stacking_list s) L" "linked (stackings s) NULL (L i) NULL" "distinct (L i)"
    "x \<in> set (L i) \<Longrightarrow> get window_level x s = Some i" "finite {i. L i \<noteq> []}"
  using assms by (simp_all add: lists_ok_def bag_tops_def)

lemma get_eq: "get f x s = map_option f (stackings s x)"
  by (simp add: get_def stackings_def option.map_comp comp_def)

lemma level_unique: "lists_ok s L \<Longrightarrow> x \<in> set (L i) \<Longrightarrow> x \<in> set (L j) \<Longrightarrow> i = j"
  using lists_okD(4) by (metis option.inject)

lemma set_levels: "finite {i. L i \<noteq> []} \<Longrightarrow> i \<in> set (levels L) \<longleftrightarrow> L i \<noteq> []"
  by (simp add: levels_def)

lemma set_stack_order: "finite {i. L i \<noteq> []} \<Longrightarrow> set (stack_order L) = (\<Union>i. set (L i))"
proof -
  assume f: "finite {i. L i \<noteq> []}"
  have "x \<in> set (L i) \<Longrightarrow> i \<in> set (levels L)" for x i unfolding set_levels [OF f] by auto
  then show ?thesis unfolding stack_order_def by fastforce
qed

lemma sorted_levels: "sorted_wrt (<) (levels L)"
  by (simp add: levels_def)

lemma levels_split:
  assumes "finite {i. L i \<noteq> []}" "L i \<noteq> []"
  obtains lo hi where "levels L = lo @ i # hi" "stack_order L = concat (map L (rev hi)) @ L i @ concat (map L (rev lo))"
    "\<forall>j \<in> set hi. i < j" "\<forall>j \<in> set lo. j < i"
proof -
  have "i \<in> set (levels L)" using assms set_levels by simp
  then obtain lo hi where e: "levels L = lo @ i # hi" by (meson split_list)
  moreover have "sorted_wrt (<) (lo @ i # hi)" using sorted_levels [of L] e by simp
  ultimately show ?thesis using that by (auto simp: stack_order_def sorted_wrt_append)
qed

lemma distinct_stack_order:
  assumes "lists_ok s L"
  shows "distinct (stack_order L)"
proof -
  have "distinct (levels L)" using sorted_levels strict_sorted_iff by blast
  moreover have "distinct (concat (map L js))" if "distinct js" for js
    using that
  proof (induction js)
    case (Cons j js)
    have "set (L j) \<inter> set (concat (map L js)) = {}"
      using Cons.prems level_unique [OF assms] by fastforce
    then show ?case using Cons lists_okD(3) [OF assms] by simp
  qed simp
  ultimately show ?thesis by (simp add: stack_order_def)
qed

lemma get_top: "lists_ok s L \<Longrightarrow> top_of i s = Some (top_frame (L i))"
  using bag_tops_get [of "stacking_list s" L i] by (simp add: top_of_def lists_ok_def)

lemma linked_bottom: "linked (stackings s) p (x # xs) NULL \<Longrightarrow> bottom s x = Some (last (x # xs))"
proof (induction xs arbitrary: p x)
  case Nil
  then show ?case by (subst bottom.simps) (auto simp: get_eq)
next
  case (Cons y ys)
  have "bottom s y = Some (last (y # ys))" by (rule Cons.IH) (use Cons.prems in auto)
  then show ?case using Cons.prems by (subst bottom.simps) (auto simp: get_eq)
qed

lemma linked_downwards: "linked (stackings s) p xs NULL \<Longrightarrow> downwards s (top_frame xs) = Some xs"
proof (induction xs arbitrary: p)
  case Nil
  then show ?case by (subst downwards.simps) simp
next
  case (Cons x xs)
  have "downwards s (top_frame xs) = Some xs" by (rule Cons.IH) (use Cons.prems in auto)
  moreover have "get under x s = Some (top_frame xs)" using Cons.prems by (auto simp: get_eq top_frame_def)
  ultimately show ?case by (subst downwards.simps) simp
qed

lemma next_level_ok:
  assumes ok: "lists_ok s L" and e: "levels L = lo @ i # hi"
  shows "next_level s (i + 1) (last (levels L)) = Some (case hi of [] \<Rightarrow> NULL | j # _ \<Rightarrow> Some (hd (L j)))"
proof -
  have srt: "sorted_wrt (<) (lo @ i # hi)" using sorted_levels [of L] e by simp
  have empty: "L k = []" if "i < k" "\<forall>j \<in> set hi. k < j" for k
    using set_levels [OF lists_okD(5) [OF ok], of k] e srt that by (auto simp: sorted_wrt_append)
  show ?thesis
  proof (cases hi)
    case Nil
    then have "last (levels L) = i" using e by simp
    then show ?thesis using Nil by (subst next_level.simps) simp
  next
    case (Cons j js)
    have "L j \<noteq> []" using set_levels [OF lists_okD(5) [OF ok], of j] e Cons by simp
    then have top: "top_of j s = Some (Some (hd (L j)))" using get_top [OF ok] by (cases "L j") simp_all
    have le: "j \<le> last (levels L)"
    proof -
      have "\<forall>k \<in> set js. j < k" using srt Cons by (simp add: sorted_wrt_append)
      then show ?thesis using e Cons by (cases js rule: rev_cases) auto
    qed
    have "next_level s k (last (levels L)) = Some (Some (hd (L j)))" if "i < k" "k \<le> j" for k
      using that
    proof (induction "nat (j - k)" arbitrary: k)
      case 0
      then show ?case using top le by (subst next_level.simps) simp
    next
      case (Suc n)
      then have "\<forall>l \<in> set hi. k < l" using srt Cons by (auto simp: sorted_wrt_append)
      then have "top_of k s = Some NULL" using empty [OF Suc.prems(1)] get_top [OF ok] by simp
      then show ?case using Suc le by (subst next_level.simps) simp
    qed
    then show ?thesis using Cons e srt by (simp add: sorted_wrt_append)
  qed
qed

section \<open>The order on the server\<close>

text \<open>
  What the manual of Xlib says of the requests. \<open>ord\<close> reads the stacking order of the windows, from
  the top. \<open>XRestackWindows\<close> leaves the first window where it is and stacks every other one under
  the window before it.
\<close>

fun insert_after :: "nat \<Rightarrow> nat \<Rightarrow> nat list \<Rightarrow> nat list" where
  "insert_after w v [] = []"
| "insert_after w v (x # xs) = (if x = w then x # v # xs else x # insert_after w v xs)"

definition place_below :: "nat \<Rightarrow> nat \<Rightarrow> nat list \<Rightarrow> nat list" where
  "place_below w v xs = insert_after w v (filter (\<lambda>x. x \<noteq> v) xs)"

fun restack :: "nat list \<Rightarrow> nat list \<Rightarrow> nat list" where
  "restack (w # v # vs) xs = restack (v # vs) (place_below w v xs)"
| "restack _ xs = xs"

definition xlib_documented :: "'x xlib \<Rightarrow> ('x \<Rightarrow> nat list) \<Rightarrow> bool" where
  "xlib_documented X ord \<longleftrightarrow> (\<forall>x. distinct (ord x) \<and>
     (\<forall>w \<in> set (ord x). ord (XRaiseWindow X w x) = w # filter (\<lambda>y. y \<noteq> w) (ord x) \<and>
        ord (XLowerWindow X w x) = filter (\<lambda>y. y \<noteq> w) (ord x) @ [w]) \<and>
     (\<forall>ws. distinct ws \<longrightarrow> set ws \<subseteq> set (ord x) \<longrightarrow> ord (XRestackWindows X ws x) = restack ws (ord x)) \<and>
     (\<forall>ws. XQueryTree X x = Some ws \<longrightarrow> ws = rev (ord x)))"

lemma filter_insert_after: "Q w \<Longrightarrow> Q v \<Longrightarrow> filter Q (insert_after w v xs) = insert_after w v (filter Q xs)"
  by (induction xs) auto

lemma filter_place_below: "Q w \<Longrightarrow> Q v \<Longrightarrow> filter Q (place_below w v xs) = place_below w v (filter Q xs)"
  by (simp add: place_below_def filter_insert_after conj_commute)

lemma insert_after_split: "w \<notin> set xs \<Longrightarrow> insert_after w v (xs @ w # ys) = xs @ w # v # ys"
  by (induction xs) auto

lemma set_insert_after: "w \<in> set xs \<Longrightarrow> set (insert_after w v xs) = insert v (set xs)"
  by (induction xs) auto

lemma set_place_below: "w \<in> set xs \<Longrightarrow> w \<noteq> v \<Longrightarrow> set (place_below w v xs) = insert v (set xs)"
  by (auto simp: place_below_def set_insert_after)

lemma restack_ok:
  "distinct (w # vs) \<Longrightarrow> filter (\<lambda>x. x \<notin> set vs) xs = ys @ w # zs \<Longrightarrow> w \<notin> set ys \<Longrightarrow>
   restack (w # vs) xs = ys @ w # vs @ zs"
proof (induction vs arbitrary: w xs ys)
  case Nil
  then show ?case by simp
next
  case (Cons v vs)
  let ?Q = "\<lambda>x. x \<notin> set vs"
  have v: "v \<notin> set (ys @ w # zs)"
    unfolding Cons.prems(2) [symmetric] by simp
  have "filter ?Q (place_below w v xs) = place_below w v (filter ?Q xs)"
    by (rule filter_place_below) (use Cons.prems(1) in auto)
  also have "\<dots> = insert_after w v (ys @ w # zs)"
    unfolding place_below_def using Cons.prems(2) by (simp add: conj_commute)
  also have "\<dots> = ys @ w # v # zs" using Cons.prems(3) by (rule insert_after_split)
  finally have "filter ?Q (place_below w v xs) = (ys @ [w]) @ v # zs" by simp
  then have "restack (v # vs) (place_below w v xs) = (ys @ [w]) @ v # vs @ zs"
    by (rule Cons.IH [rotated]) (use Cons.prems(1) v in auto)
  then show ?case by simp
qed

text \<open>
  The server agrees with the lists, where the frames of \<open>P\<close> are yet to be placed; it may have other
  windows.
\<close>

definition agrees :: "nat set \<Rightarrow> ('x \<Rightarrow> nat list) \<Rightarrow> 'x WScreen \<Rightarrow> lists \<Rightarrow> bool" where
  "agrees P ord s L \<longleftrightarrow> set (stack_order L) \<subseteq> set (ord (server s)) \<and>
     filter (\<lambda>x. x \<in> set (stack_order L) \<and> x \<notin> P) (ord (server s)) = filter (\<lambda>x. x \<notin> P) (stack_order L)"


section \<open>Updates of the frames\<close>

definition updf :: "(WStacking \<Rightarrow> WStacking) \<Rightarrow> nat ptr \<Rightarrow> (nat \<rightharpoonup> WCoreWindow) \<Rightarrow> nat \<rightharpoonup> WCoreWindow" where
  "updf f p fr = (case p of None \<Rightarrow> fr | Some x \<Rightarrow> fr(x := map_option (stacking_update f) (fr x)))"

lemma put_if_eq: "(\<And>x. p = Some x \<Longrightarrow> frames s x \<noteq> None) \<Longrightarrow> put_if f p s = Some (s\<lparr>frames := updf f p (frames s)\<rparr>)"
proof (cases p)
  case (Some x)
  assume "\<And>x. p = Some x \<Longrightarrow> frames s x \<noteq> None"
  then obtain c where "frames s x = Some c" using Some by blast
  then have "put_if f p s = Some (s\<lparr>frames := (frames s)(x \<mapsto> c\<lparr>stacking := f (stacking c)\<rparr>)\<rparr>)"
    using Some by (simp add: put_if_def put_def)
  also have "c\<lparr>stacking := f (stacking c)\<rparr> = stacking_update f c" by (cases c) simp
  finally show ?thesis using Some \<open>frames s x = Some c\<close> by (simp add: updf_def fun_upd_def)
qed (simp add: put_if_def updf_def)

lemma stackings_updf: "stackings (s\<lparr>frames := updf f p fr\<rparr>) = upd f p (stackings (s\<lparr>frames := fr\<rparr>))"
  by (rule ext) (auto simp: stackings_def updf_def upd_def option.map_comp comp_def split: option.split)

lemma stackings_frames: "frames s = frames s' \<Longrightarrow> stackings s = stackings s'"
  by (rule ext) (simp add: stackings_def)

lemma stackings_same [simp]: "stackings (s\<lparr>frames := frames s'\<rparr>) = stackings s'"
  "stackings (s\<lparr>stacking_list := b\<rparr>) = stackings s" "stackings (s\<lparr>server := v\<rparr>) = stackings s"
  "stackings (s\<lparr>window_count := n\<rparr>) = stackings s" "stackings (s\<lparr>stack_context := m\<rparr>) = stackings s"
  "stackings (s\<lparr>posted := ns\<rparr>) = stackings s"
  by (rule ext; simp add: stackings_def)+

lemma updf_None [simp]: "updf f p fr x = None \<longleftrightarrow> fr x = None"
  by (auto simp: updf_def split: option.split)

text \<open>What the links do not touch.\<close>

definition core :: "WCoreWindow \<Rightarrow> WWindow ptr \<times> nat ptr \<times> int" where
  "core c = (parent c, child_of (stacking c), window_level (stacking c))"

definition same_cores :: "'x WScreen \<Rightarrow> 'x WScreen \<Rightarrow> bool" where
  "same_cores s s' \<longleftrightarrow> (\<forall>x. map_option core (frames s' x) = map_option core (frames s x)) \<and>
     window_count s' = window_count s \<and> stack_context s' = stack_context s"

lemma core_updf:
  "(\<And>n. child_of (f n) = child_of n \<and> window_level (f n) = window_level n) \<Longrightarrow>
   map_option core (updf f p fr x) = map_option core (fr x)"
proof -
  assume "\<And>n. child_of (f n) = child_of n \<and> window_level (f n) = window_level n"
  then have "core (stacking_update f c) = core c" for c by (simp add: core_def)
  then have "map_option core (map_option (stacking_update f) w) = map_option core w" for w
    by (simp add: option.map_comp comp_def)
  then show ?thesis by (simp add: updf_def split: option.split)
qed

lemma same_coresD:
  assumes "same_cores s s'"
  shows "get child_of x s' = get child_of x s" "get window_level x s' = get window_level x s"
    "frames s' x = None \<longleftrightarrow> frames s x = None" "map_option parent (frames s' x) = map_option parent (frames s x)"
    "window_count s' = window_count s" "stack_context s' = stack_context s"
proof -
  have e: "map_option core (frames s' x) = map_option core (frames s x)" using assms by (simp add: same_cores_def)
  then have "map_option (fst \<circ> snd) (map_option core (frames s' x)) = map_option (fst \<circ> snd) (map_option core (frames s x))"
    "map_option (snd \<circ> snd) (map_option core (frames s' x)) = map_option (snd \<circ> snd) (map_option core (frames s x))"
    "map_option fst (map_option core (frames s' x)) = map_option fst (map_option core (frames s x))" by simp_all
  then show "get child_of x s' = get child_of x s" "get window_level x s' = get window_level x s"
    "map_option parent (frames s' x) = map_option parent (frames s x)"
    by (simp_all add: get_def option.map_comp comp_def core_def)
  show "frames s' x = None \<longleftrightarrow> frames s x = None" using e by (metis map_option_is_None)
qed (use assms in \<open>simp_all add: same_cores_def\<close>)

lemma same_cores_refl: "same_cores s s"
  by (simp add: same_cores_def)

lemma same_cores_trans: "same_cores s s' \<Longrightarrow> same_cores s' s'' \<Longrightarrow> same_cores s s''"
  by (simp add: same_cores_def)

lemma linked_frames: "linked (stackings s) p xs q \<Longrightarrow> x \<in> set xs \<Longrightarrow> frames s x \<noteq> None"
  using linked_allocated [of "stackings s" p xs q x] by (simp add: stackings_def)

text \<open>Replacing the list of one level.\<close>

lemma lists_ok_update:
  assumes ok: "lists_ok s L" and same: "same_cores s s'" and bag: "bag_tops (stacking_list s') (L(i := ys))"
    and ys: "linked (stackings s') NULL ys NULL" "distinct ys" "\<forall>x \<in> set ys. get window_level x s = Some i"
    and other: "\<And>x. x \<notin> set (L i) \<Longrightarrow> x \<notin> set ys \<Longrightarrow> stackings s' x = stackings s x"
  shows "lists_ok s' (L(i := ys))"
  unfolding lists_ok_def
proof (intro conjI allI)
  fix j
  show "linked (stackings s') NULL ((L(i := ys)) j) NULL"
  proof (cases "j = i")
    case False
    have "\<forall>x \<in> set (L j). stackings s' x = stackings s x"
    proof
      fix x assume x: "x \<in> set (L j)"
      then have "get window_level x s = Some j" using lists_okD(4) [OF ok] by blast
      then have "x \<notin> set ys" using ys(3) False by auto
      moreover have "x \<notin> set (L i)" using level_unique [OF ok x] False by blast
      ultimately show "stackings s' x = stackings s x" using other by blast
    qed
    then show ?thesis using linked_frame [OF lists_okD(2) [OF ok]] False by simp
  qed (simp add: ys)
  show "distinct ((L(i := ys)) j)" using ys(2) lists_okD(3) [OF ok] by simp
  show "\<forall>x \<in> set ((L(i := ys)) j). get window_level x s' = Some j"
    using ys(3) lists_okD(4) [OF ok] same_coresD(2) [OF same] by auto
qed (rule bag)

text \<open>\<open>unlink_frame\<close> on the list of a level.\<close>

lemma unlink_frame_ok:
  assumes ok: "lists_ok s L" and L: "L i = xs @ f # ys"
  shows "\<exists>s'. unlink_frame f s = Some s' \<and> same_cores s s' \<and> server s' = server s \<and> stacking_list s' = stacking_list s \<and>
    linked (stackings s') NULL (xs @ ys) NULL \<and> (\<forall>x. x \<notin> set (xs @ ys) \<longrightarrow> stackings s' x = stackings s x)"
proof -
  have l: "linked (stackings s) NULL (xs @ f # ys) NULL" using lists_okD(2) [OF ok, of i] L by simp
  have d: "distinct (xs @ f # ys)" using lists_okD(3) [OF ok, of i] L by simp
  obtain n where n: "stackings s f = Some n" "above n = last_or NULL xs" "under n = first_or NULL ys"
    using linked_at [OF l] by blast
  have al: "frames s x \<noteq> None" if "x \<in> set xs \<union> set ys" for x
    using linked_frames [OF l] that by auto
  define s1 where "s1 = s\<lparr>frames := updf (set_above (last_or NULL xs)) (first_or NULL ys) (frames s)\<rparr>"
  define s2 where "s2 = s1\<lparr>frames := updf (set_under (first_or NULL ys)) (last_or NULL xs) (frames s1)\<rparr>"
  have "put_if (set_above (last_or NULL xs)) (first_or NULL ys) s = Some s1"
    unfolding s1_def by (rule put_if_eq) (use al first_or_in in blast)
  moreover have "put_if (set_under (first_or NULL ys)) (last_or NULL xs) s1 = Some s2"
    unfolding s2_def by (rule put_if_eq) (use al last_or_in in \<open>simp add: s1_def\<close>)
  ultimately have "unlink_frame f s = Some s2" using n by (simp add: unlink_frame_def get_eq)
  moreover have h: "stackings s2 = upd (set_under (first_or NULL ys)) (last_or NULL xs) (upd (set_above (last_or NULL xs)) (first_or NULL ys) (stackings s))"
    by (simp add: s2_def s1_def stackings_updf)
  moreover have "linked (stackings s2) NULL (xs @ ys) NULL" by (rule linked_remove [OF l d h])
  moreover have "same_cores s s2" by (simp add: same_cores_def s2_def s1_def core_updf)
  moreover have "stackings s2 x = stackings s x" if "x \<notin> set (xs @ ys)" for x
    using that unfolding h by (auto simp: upd_apply dest: first_or_in last_or_in)
  ultimately show ?thesis by (intro exI [of _ s2]) (simp add: s2_def s1_def)
qed

text \<open>The frame put on the top of its list, or in between.\<close>

lemma link_ok:
  assumes l: "linked (stackings s) NULL (xs @ ys) NULL" and d: "distinct (xs @ f # ys)" and f: "frames s f \<noteq> None"
    and s': "frames s' = updf (set_under (Some f)) (last_or NULL xs) (updf (set_above (Some f)) (first_or NULL ys)
      (updf (set_under (first_or NULL ys)) (Some f) (updf (set_above (last_or NULL xs)) (Some f) (frames s))))"
  shows "linked (stackings s') NULL (xs @ f # ys) NULL" "x \<notin> set (xs @ f # ys) \<Longrightarrow> stackings s' x = stackings s x"
    "map_option core (frames s' x) = map_option core (frames s x)"
proof -
  have h: "stackings s' = upd (set_under (Some f)) (last_or NULL xs) (upd (set_above (Some f)) (first_or NULL ys)
      (upd (set_under (first_or NULL ys)) (Some f) (upd (set_above (last_or NULL xs)) (Some f) (stackings s))))"
    using stackings_frames [of s' "s\<lparr>frames := frames s'\<rparr>"] by (simp add: s' stackings_updf)
  obtain c where c: "stackings s f = Some c" using f by (auto simp: stackings_def)
  have nf: "first_or NULL ys \<noteq> Some f" "last_or NULL xs \<noteq> Some f" using d by (auto dest: first_or_in last_or_in)
  show "linked (stackings s') NULL (xs @ f # ys) NULL"
  proof (rule linked_insert [OF l d])
    show "stackings s' f = Some (c\<lparr>above := last_or NULL xs, under := first_or NULL ys\<rparr>)"
      using c nf unfolding h by (simp add: upd_apply)
    show "stackings s' x = upd (set_under (Some f)) (last_or NULL xs) (upd (set_above (Some f)) (first_or NULL ys) (stackings s)) x"
      if "x \<noteq> f" for x
      using that unfolding h by (simp add: upd_apply)
  qed simp_all
  show "x \<notin> set (xs @ f # ys) \<Longrightarrow> stackings s' x = stackings s x"
    unfolding h by (auto simp: upd_apply dest: first_or_in last_or_in)
  show "map_option core (frames s' x) = map_option core (frames s x)" by (simp add: s' core_updf)
qed

end
