(* ===== verification/WMStackingRaise.thy ===== *)
theory WMStackingRaise
  imports WMStackingLists
begin

text \<open>
  What raising a frame does to the lists and to the server: the frame and everything that is transient
  for it, directly or not, go to the top of the level, every owner below its transients; and what
  a commit of all lists does.
\<close>

section \<open>Steps\<close>

lemma put_eq: "frames s x \<noteq> None \<Longrightarrow> put f x s = Some (s\<lparr>frames := updf f (Some x) (frames s)\<rparr>)"
  using put_if_eq [of "Some x" s f] by (simp add: put_if_def)

lemma set_top_ok:
  assumes "bag_tops (stacking_list s) L"
  obtains b where "set_top i (Some x) s = Some (s\<lparr>stacking_list := b\<rparr>)" "\<And>xs. bag_tops b (L(i := x # xs))"
proof -
  obtain b old d where b: "WMReplaceInBag (stacking_list s) i (Some x) = Some (b, old, d)" "bag_tops b (L(i := x # []))"
    using bag_tops_set [OF assms] by blast
  moreover have "bag_tops b (L(i := x # xs))" for xs
    using bag_tops_set [OF assms, of i x xs] b(1) by auto
  ultimately show ?thesis using that [of b] by (simp add: set_top_def)
qed

lemma top_of_same: "stacking_list s' = stacking_list s \<Longrightarrow> top_of i s' = top_of i s"
  by (simp add: top_of_def)

text \<open>The head of a list changes: the bag holds the tops of the lists also when only the rest of a list changes.\<close>

lemma bag_tops_cong:
  assumes "bag_tops b L" "\<And>j. top_frame (L' j) = top_frame (L j)"
  shows "bag_tops b L'"
proof -
  have n: "L' j \<noteq> [] \<longleftrightarrow> L j \<noteq> []" for j
    using assms(2) [of j] by (cases "L' j"; cases "L j") auto
  then have l: "levels L' = levels L" by (simp add: levels_def)
  have "hd (L' j) = hd (L j)" if "L j \<noteq> []" for j
    using that assms(2) [of j] n [of j] by (cases "L' j"; cases "L j") auto
  moreover have "finite {j. L j \<noteq> []}" using assms(1) by (simp add: bag_tops_def)
  then have "\<forall>j \<in> set (levels L). L j \<noteq> []" using set_levels by blast
  ultimately have eq: "map (\<lambda>i. (i, Some (hd (L' i)))) (levels L) = map (\<lambda>i. (i, Some (hd (L i)))) (levels L)" by simp
  show ?thesis using assms(1) unfolding bag_tops_def n l eq .
qed

text \<open>A frame linked in between \<open>xs\<close> and \<open>ys\<close>: the four writes of the code, in any order.\<close>

definition linked_in :: "'x WScreen \<Rightarrow> nat list \<Rightarrow> nat \<Rightarrow> nat list \<Rightarrow> 'x WScreen \<Rightarrow> bool" where
  "linked_in s xs f ys s' \<longleftrightarrow> frames s' = updf (set_under (Some f)) (last_or NULL xs) (updf (set_above (Some f)) (first_or NULL ys)
      (updf (set_under (first_or NULL ys)) (Some f) (updf (set_above (last_or NULL xs)) (Some f) (frames s))))"

lemma relink_ok:
  assumes ok: "lists_ok s L" and same: "same_cores s s1"
    and l: "linked (stackings s1) NULL (xs @ ys) NULL" and f: "frames s f \<noteq> None" "get window_level f s = Some i"
    and x: "set (xs @ ys) \<subseteq> set (L i)" "distinct (xs @ f # ys)"
    and other: "\<And>x. x \<notin> set (L i) \<Longrightarrow> x \<noteq> f \<Longrightarrow> stackings s1 x = stackings s x"
    and s': "linked_in s1 xs f ys s'" "window_count s' = window_count s1" "stack_context s' = stack_context s1"
    and bag: "bag_tops (stacking_list s') (L(i := xs @ f # ys))"
    and sub: "set (L i) \<subseteq> set (xs @ f # ys)"
  shows "lists_ok s' (L(i := xs @ f # ys))" "same_cores s s'"
proof -
  have f1: "frames s1 f \<noteq> None" using f same_coresD(3) [OF same] by simp
  note k = link_ok [OF l x(2) f1 s'(1) [unfolded linked_in_def]]
  have same': "same_cores s1 s'" using k(3) s'(2,3) by (simp add: same_cores_def)
  then show ss: "same_cores s s'" using same same_cores_trans by blast
  show "lists_ok s' (L(i := xs @ f # ys))"
  proof (rule lists_ok_update [OF ok ss bag k(1) x(2)])
    show "\<forall>x \<in> set (xs @ f # ys). get window_level x s = Some i"
      using x(1) f(2) lists_okD(4) [OF ok, of _ i] by auto
    show "stackings s' x = stackings s x" if "x \<notin> set (L i)" "x \<notin> set (xs @ f # ys)" for x
      using that k(2) other by auto
  qed
qed

lemma raise_top:
  assumes ok: "lists_ok s L" and L: "L i = xs @ f # ys" and xs: "xs \<noteq> []"
  shows "\<exists>s'. raise X False f s = raise X True f s' \<and> lists_ok s' (L(i := f # xs @ ys)) \<and> same_cores s s' \<and> server s' = server s"
proof -
  note l = lists_okD(2) [OF ok, of i, unfolded L]
  have fi: "get window_level f s = Some i" "frames s f \<noteq> None"
    using lists_okD(4) [OF ok, of f i] linked_frames [OF l, of f] L by auto
  have d: "distinct (f # xs @ ys)" using lists_okD(3) [OF ok, of i] L by auto
  obtain n where n: "stackings s f = Some n" "above n = Some (last xs)"
    using linked_at [OF l] xs by (auto simp: last_or_def)
  obtain s1 where s1: "unlink_frame f s = Some s1" "same_cores s s1" "server s1 = server s" "stacking_list s1 = stacking_list s"
    "linked (stackings s1) NULL (xs @ ys) NULL" "\<And>x. x \<notin> set (xs @ ys) \<Longrightarrow> stackings s1 x = stackings s x"
    using unlink_frame_ok [OF ok L] by blast
  have al: "frames s1 x \<noteq> None" if "x \<in> set (f # xs @ ys)" for x
    using linked_frames [OF l, of x] that same_coresD(3) [OF s1(2)] by auto
  define t where "t = first_or NULL (xs @ ys)"
  have at: "frames s1 x \<noteq> None" if "t = Some x" for x
    using that al first_or_in [of "xs @ ys" x] by (auto simp: t_def)
  have nt: "t \<noteq> Some f" using d first_or_in [of "xs @ ys" f] by (auto simp: t_def)
  define s2 where "s2 = s1\<lparr>frames := updf (set_above NULL) (Some f) (frames s1)\<rparr>"
  define s3 where "s3 = s2\<lparr>frames := updf (set_under t) (Some f) (frames s2)\<rparr>"
  define s4 where "s4 = s3\<lparr>frames := updf (set_above (Some f)) t (frames s3)\<rparr>"
  have "put (set_above NULL) f s1 = Some s2" unfolding s2_def by (rule put_eq) (use al in simp)
  moreover have top: "top_of i s2 = Some t"
    using get_top [OF ok, of i] L xs s1(4) by (cases xs) (simp_all add: top_of_def s2_def t_def)
  moreover have "put (set_under t) f s2 = Some s3" unfolding s3_def by (rule put_eq) (use al in \<open>simp add: s2_def\<close>)
  moreover have "put_if (set_above (Some f)) t s3 = Some s4"
    unfolding s4_def by (rule put_if_eq) (use at in \<open>simp add: s3_def s2_def\<close>)
  moreover obtain b where b: "set_top i (Some f) s4 = Some (s4\<lparr>stacking_list := b\<rparr>)" "bag_tops b (L(i := f # xs @ ys))"
    using set_top_ok [of s4 L i f] lists_okD(1) [OF ok] s1(4) by (auto simp: s4_def s3_def s2_def)
  ultimately have r: "raise X False f s = raise X True f (s4\<lparr>stacking_list := b\<rparr>)"
    using n s1(1) fi by (subst raise.simps) (simp add: get_eq)
  let ?s = "s4\<lparr>stacking_list := b\<rparr>"
  have li: "linked_in s1 [] f (xs @ ys) ?s"
    by (simp add: linked_in_def s4_def s3_def s2_def t_def updf_def)
  have other: "stackings s1 x = stackings s x" if "x \<notin> set (L i)" for x
    using that L s1(6) by auto
  have "lists_ok ?s (L(i := [] @ f # (xs @ ys)))" "same_cores s ?s"
    by (rule relink_ok [OF ok s1(2) _ fi(2) fi(1) _ _ other li]; use s1(5) d L b(2) in \<open>auto simp: s4_def s3_def s2_def\<close>)+
  then show ?thesis using r s1(3) by (intro exI [of _ ?s]) (simp add: s4_def s3_def s2_def)
qed

text \<open>The requests put a frame where the lists say.\<close>

lemma agrees_below:
  assumes a: "agrees (insert f P) ord s L" and o: "stack_order L = A @ u # f # B" "distinct (stack_order L)"
    and P: "u \<notin> P" "f \<notin> P" and X: "xlib_documented X ord"
  shows "agrees P ord (moveFrameToUnder X u f s) L"
proof -
  let ?S = "set (stack_order L)" and ?v = "XRestackWindows X [u, f] (server s)"
  have sub: "?S \<subseteq> set (ord (server s))" using a by (simp add: agrees_def)
  have uf: "u \<noteq> f" "u \<in> ?S" "f \<in> ?S" "u \<notin> set A" using o by auto
  have v: "ord ?v = place_below u f (ord (server s))"
    using X sub uf by (simp add: xlib_documented_def subset_eq)
  have "filter (\<lambda>x. x \<in> ?S \<and> x \<notin> P) (ord ?v) = place_below u f (filter (\<lambda>x. x \<in> ?S \<and> x \<notin> P) (ord (server s)))"
    unfolding v by (rule filter_place_below) (use uf P in auto)
  also have "\<dots> = insert_after u f (filter (\<lambda>x. x \<in> ?S \<and> x \<notin> insert f P) (ord (server s)))"
    by (simp add: place_below_def conj_ac)
  also have "\<dots> = insert_after u f (filter (\<lambda>x. x \<notin> insert f P) (stack_order L))"
    using a by (simp add: agrees_def)
  also have "filter (\<lambda>x. x \<notin> insert f P) (stack_order L) = filter (\<lambda>x. x \<notin> P) A @ u # filter (\<lambda>x. x \<notin> P) B"
  proof -
    have "filter (\<lambda>x. x \<notin> insert f P) A = filter (\<lambda>x. x \<notin> P) A" "filter (\<lambda>x. x \<notin> insert f P) B = filter (\<lambda>x. x \<notin> P) B"
      using o by (auto intro: filter_cong)
    then show ?thesis using P uf(1) unfolding o(1) by simp
  qed
  also have "insert_after u f \<dots> = filter (\<lambda>x. x \<notin> P) (stack_order L)"
    using P uf(4) unfolding o(1) by (simp add: insert_after_split)
  finally have "filter (\<lambda>x. x \<in> ?S \<and> x \<notin> P) (ord ?v) = filter (\<lambda>x. x \<notin> P) (stack_order L)" .
  moreover have "?S \<subseteq> set (ord ?v)" unfolding v using sub uf by (subst set_place_below) auto
  ultimately show ?thesis by (simp add: agrees_def moveFrameToUnder_def)
qed

lemma agrees_first:
  assumes a: "agrees (insert f P) ord s L" and o: "stack_order L = f # B" "distinct (stack_order L)"
    and P: "f \<notin> P" and X: "xlib_documented X ord"
  shows "agrees P ord (s\<lparr>server := XRaiseWindow X f (server s)\<rparr>) L"
proof -
  let ?S = "set (stack_order L)" and ?v = "XRaiseWindow X f (server s)"
  have sub: "?S \<subseteq> set (ord (server s))" using a by (simp add: agrees_def)
  have f: "f \<in> ?S" using o by simp
  have v: "ord ?v = f # filter (\<lambda>y. y \<noteq> f) (ord (server s))"
    using X sub f by (simp add: xlib_documented_def subset_eq)
  have "filter (\<lambda>x. x \<in> ?S \<and> x \<notin> P) (ord ?v) = f # filter (\<lambda>x. x \<in> ?S \<and> x \<notin> insert f P) (ord (server s))"
    unfolding v using f P by (simp add: conj_ac)
  also have "\<dots> = f # filter (\<lambda>x. x \<notin> insert f P) (stack_order L)" using a by (simp add: agrees_def)
  also have "\<dots> = filter (\<lambda>x. x \<notin> P) (stack_order L)" using o(2) P unfolding o(1) by (auto intro!: filter_cong)
  finally show ?thesis using sub f unfolding agrees_def by (simp add: v subset_eq)
qed

text \<open>The highest level that has frames, as the bag gives it.\<close>

lemma bag_last_level:
  assumes ok: "lists_ok s L" and L: "L i \<noteq> []"
  shows "\<exists>t it. WMBagLast (stacking_list s) = Some (Some t, it) \<and> get window_level t s = Some (last (levels L))"
proof -
  have "i \<in> set (levels L)" using set_levels [OF lists_okD(5) [OF ok]] L by blast
  then have "last (levels L) \<in> set (levels L)" by (metis last_in_set list.set_cases neq_Nil_conv)
  then have "L (last (levels L)) \<noteq> []" using set_levels [OF lists_okD(5) [OF ok]] by blast
  then have "get window_level (hd (L (last (levels L)))) s = Some (last (levels L))"
    using lists_okD(4) [OF ok] by simp
  then show ?thesis using bag_tops_last [OF lists_okD(1) [OF ok] L] by blast
qed

lemma place_ok:
  assumes ok: "lists_ok s L" and L: "L i = xs @ f # ys" and a: "agrees (insert f P) ord s L"
    and P: "f \<notin> P" "P \<subseteq> set (L i)" "xs \<noteq> [] \<longrightarrow> last xs \<notin> P" and X: "xlib_documented X ord"
    and alone: "xs = [] \<longrightarrow> alone = XRaiseWindow X"
  shows "\<exists>v. place X alone f i s = Some (s\<lparr>server := v\<rparr>) \<and> agrees P ord (s\<lparr>server := v\<rparr>) L"
proof -
  have dis: "distinct (stack_order L)" by (rule distinct_stack_order [OF ok])
  have ne: "L i \<noteq> []" using L by simp
  obtain lo hi where e: "levels L = lo @ i # hi" "stack_order L = concat (map L (rev hi)) @ L i @ concat (map L (rev lo))"
    "\<forall>j \<in> set hi. i < j" using levels_split [OF lists_okD(5) [OF ok] ne] by metis
  have n: "get above f s = Some (last_or NULL xs)"
    using linked_at [of "stackings s" NULL xs f ys NULL] lists_okD(2) [OF ok, of i] L by (auto simp: get_eq)
  show ?thesis
  proof (cases xs rule: rev_cases)
    case (snoc us u)
    have "place X alone f i s = Some (moveFrameToUnder X u f s)" using n snoc by (simp add: place_def)
    moreover have "agrees P ord (moveFrameToUnder X u f s) L"
      by (rule agrees_below [OF a, of "concat (map L (rev hi)) @ us" u "ys @ concat (map L (rev lo))"])
        (use e L P snoc dis X in auto)
    ultimately show ?thesis by (auto simp: moveFrameToUnder_def)
  next
    case Nil
    obtain t it where t: "WMBagLast (stacking_list s) = Some (Some t, it)" "get window_level t s = Some (last (levels L))"
      using bag_last_level [OF ok ne] by blast
    note nl = next_level_ok [OF ok e(1)]
    show ?thesis
    proof (cases hi)
      case Nil': Nil
      have "place X alone f i s = Some (s\<lparr>server := XRaiseWindow X f (server s)\<rparr>)"
        using n Nil t nl Nil' alone by (simp add: place_def)
      moreover have "agrees P ord (s\<lparr>server := XRaiseWindow X f (server s)\<rparr>) L"
        by (rule agrees_first [OF a _ dis P(1) X]) (use e L Nil Nil' in simp)
      ultimately show ?thesis by blast
    next
      case (Cons j js)
      have j: "L j \<noteq> []" "i < j" using e Cons set_levels [OF lists_okD(5) [OF ok], of j] by auto
      have fj: "x \<notin> set (L i)" if "x \<in> set (L j)" for x
        using level_unique [OF ok that] j(2) by blast
      then have "hd (L j) \<noteq> f" using j(1) L hd_in_set by (metis in_set_conv_decomp)
      moreover have "bottom s (hd (L j)) = Some (last (L j))"
        using linked_bottom [of s NULL "hd (L j)" "tl (L j)"] lists_okD(2) [OF ok, of j] j(1) by simp
      ultimately have "place X alone f i s = Some (moveFrameToUnder X (last (L j)) f s)"
        using n Nil t nl Cons by (simp add: place_def)
      moreover have "agrees P ord (moveFrameToUnder X (last (L j)) f s) L"
      proof (rule agrees_below [OF a _ dis _ P(1) X])
        have "L j = butlast (L j) @ [last (L j)]" using j(1) by simp
        then show "stack_order L = (concat (map L (rev js)) @ butlast (L j)) @ last (L j) # f # ys @ concat (map L (rev lo))"
          using e(2) L Nil Cons by simp
        show "last (L j) \<notin> P" using fj j(1) P(2) by (meson last_in_set subsetD)
      qed
      ultimately show ?thesis by (auto simp: moveFrameToUnder_def)
    qed
  qed
qed

section \<open>Raising a frame and its transients\<close>

definition transients :: "'x WScreen \<Rightarrow> nat set \<Rightarrow> (nat \<times> nat) set" where
  "transients s S = {(x, f). x \<in> S \<and> get child_of x s = Some (Some f)}"

lemma transients_same: "same_cores s s' \<Longrightarrow> transients s' S = transients s S"
  by (simp add: transients_def same_coresD(1))

lemma transients_single: "(x, p) \<in> transients s S \<Longrightarrow> (x, q) \<in> transients s S \<Longrightarrow> p = q"
  by (simp add: transients_def)

lemma transients_finite: "finite S \<Longrightarrow> finite (transients s S)"
proof -
  assume "finite S"
  moreover have "transients s S \<subseteq> (\<lambda>x. (x, the (the (get child_of x s)))) ` S" by (auto simp: transients_def)
  ultimately show ?thesis using finite_surj by blast
qed

lemma scan_up_list:
  "linked (stackings s) (Some f) ys q \<Longrightarrow> f \<notin> set ys \<Longrightarrow>
   scan_up s f (last_or (Some f) ys) = Some (List.find (\<lambda>x. get child_of x s = Some (Some f)) (rev ys))"
proof (induction ys arbitrary: q rule: rev_induct)
  case Nil
  then show ?case by (subst scan_up.simps) simp
next
  case (snoc y ys)
  then obtain n where n: "stackings s y = Some n" "above n = last_or (Some f) ys"
    by (auto simp: linked_append)
  moreover have "scan_up s f (last_or (Some f) ys) = Some (List.find (\<lambda>x. get child_of x s = Some (Some f)) (rev ys))"
    by (rule snoc.IH) (use snoc.prems in \<open>auto simp: linked_append\<close>)
  ultimately show ?case using snoc.prems by (subst scan_up.simps) (auto simp: get_eq)
qed

lemma lowest_transient_ok:
  assumes "lists_ok s L" "L i = xs @ f # ys"
  shows "lowest_transient f s = Some (List.find (\<lambda>x. get child_of x s = Some (Some f)) (rev ys))"
proof -
  have l: "linked (stackings s) NULL (xs @ f # ys) NULL" "f \<notin> set ys"
    using lists_okD(2,3) [OF assms(1), of i] assms(2) by simp_all
  then have l2: "linked (stackings s) (Some f) ys NULL" and u: "get under f s = Some (first_or NULL ys)"
    by (auto simp: linked_append get_eq first_or_def)
  show ?thesis
  proof (cases ys)
    case (Cons y zs)
    have "bottom s y = Some (last ys)" using linked_bottom [of s "Some f" y zs] l2 Cons by simp
    then show ?thesis using scan_up_list [OF l2 l(2)] u Cons by (simp add: lowest_transient_def last_or_def)
  qed (use u in \<open>simp add: lowest_transient_def\<close>)
qed

lemma find_SomeD: "List.find Q xs = Some x \<Longrightarrow> x \<in> set xs \<and> Q x"
  by (induction xs) (auto split: if_splits)

lemma stack_order_upd:
  assumes "L i \<noteq> []" "zs \<noteq> []" "filter Q zs = filter Q (L i)"
  shows "filter Q (stack_order (L(i := zs))) = filter Q (stack_order L)"
proof -
  have l: "levels (L(i := zs)) = levels L" unfolding levels_def
    by (rule arg_cong [where f = sorted_list_of_set]) (use assms in auto)
  have "map (filter Q) (map (L(i := zs)) js) = map (filter Q) (map L js)" for js using assms(3) by simp
  then show ?thesis unfolding stack_order_def l filter_concat by (simp only:)
qed

lemma agrees_move:
  assumes ok: "lists_ok s L" and a: "agrees P ord s L" and z: "set zs = set (L i)" "L i \<noteq> []"
    and q: "filter (\<lambda>x. x \<notin> P') zs = filter (\<lambda>x. x \<notin> P') (L i)" "P \<subseteq> P'" and s': "server s' = server s"
  shows "agrees P' ord s' (L(i := zs))"
proof -
  have ne: "zs \<noteq> []" using z by auto
  have fin: "finite {j. L j \<noteq> []}" by (rule lists_okD(5) [OF ok])
  then have fin': "finite {j. (L(i := zs)) j \<noteq> []}" by (rule rev_finite_subset) (use z in auto)
  have S: "set (stack_order (L(i := zs))) = set (stack_order L)"
    unfolding set_stack_order [OF fin] set_stack_order [OF fin']
    by (rule SUP_cong) (use z(1) in simp_all)
  have "filter (\<lambda>x. x \<in> set (stack_order L) \<and> x \<notin> P') (ord (server s)) =
      filter (\<lambda>x. x \<notin> P') (filter (\<lambda>x. x \<in> set (stack_order L) \<and> x \<notin> P) (ord (server s)))"
    using q(2) by (auto intro!: filter_cong)
  also have "\<dots> = filter (\<lambda>x. x \<notin> P') (filter (\<lambda>x. x \<notin> P) (stack_order L))" using a by (simp add: agrees_def)
  also have "\<dots> = filter (\<lambda>x. x \<notin> P') (stack_order L)" using q(2) by (auto intro!: filter_cong)
  also have "\<dots> = filter (\<lambda>x. x \<notin> P') (stack_order (L(i := zs)))" 
    using stack_order_upd [where Q = "\<lambda>x. x \<notin> P'", of L i zs] z(2) ne q(1) by simp
  finally show ?thesis using a s' unfolding agrees_def S by simp
qed

text \<open>
  \<open>R\<close> relates every transient of a level to its owner. In \<open>families\<close> every owner has its transients
  above it; \<open>raised\<close> gives the frames that end up above a raised frame.
\<close>

definition precedes :: "nat list \<Rightarrow> nat \<Rightarrow> nat \<Rightarrow> bool" where
  "precedes xs x y \<longleftrightarrow> (\<exists>as bs. xs = as @ y # bs \<and> x \<in> set as)"

definition families :: "(nat \<times> nat) set \<Rightarrow> nat list \<Rightarrow> bool" where
  "families R xs \<longleftrightarrow> (\<forall>p \<in> set xs. \<forall>x. (x, p) \<in> R \<longrightarrow> precedes xs x p)"

definition raised :: "(nat \<times> nat) set \<Rightarrow> nat \<Rightarrow> nat list \<Rightarrow> bool" where
  "raised R f ds \<longleftrightarrow> set ds = {x. (x, f) \<in> R\<^sup>+} \<and> families R (ds @ [f])"

definition raised_order :: "nat \<Rightarrow> nat list \<Rightarrow> nat list \<Rightarrow> nat list" where
  "raised_order f ds xs = ds @ f # filter (\<lambda>x. x \<noteq> f \<and> x \<notin> set ds) xs"

lemma precedes_in: "precedes xs x p \<Longrightarrow> x \<in> set xs"
  by (auto simp: precedes_def)

lemma precedes_append: "precedes xs x p \<Longrightarrow> precedes (xs @ ys) x p" "precedes ys x p \<Longrightarrow> precedes (xs @ ys) x p"
proof -
  show "precedes (xs @ ys) x p" if l: "precedes xs x p"
  proof -
    obtain as bs where "xs = as @ p # bs" "x \<in> set as" using l unfolding precedes_def by blast
    then have "xs @ ys = as @ p # (bs @ ys)" "x \<in> set as" by simp_all
    then show ?thesis unfolding precedes_def by blast
  qed
  show "precedes (xs @ ys) x p" if l: "precedes ys x p"
  proof -
    obtain as bs where "ys = as @ p # bs" "x \<in> set as" using l unfolding precedes_def by blast
    then have "xs @ ys = (xs @ as) @ p # bs" "x \<in> set (xs @ as)" by simp_all
    then show ?thesis unfolding precedes_def by blast
  qed
qed

lemma families_append: "families R xs \<Longrightarrow> families R ys \<Longrightarrow> families R (xs @ ys)"
  unfolding families_def using precedes_append by (metis Un_iff set_append)

lemma families_below:
  assumes "families R es" "c \<in> set es" "(x, c) \<in> R\<^sup>*"
  shows "x \<in> set es"
  using assms(3)
proof (induction rule: converse_rtrancl_induct)
  case (step y z)
  then show ?case using assms(1) precedes_in unfolding families_def by blast
qed (rule assms(2))

text \<open>Going up from a transient below \<open>x\<close>, the owner is \<open>x\<close> or still below \<open>x\<close>.\<close>

lemma up_one:
  assumes "\<And>y p q. (y, p) \<in> R \<Longrightarrow> (y, q) \<in> R \<Longrightarrow> p = q" "(d, x) \<in> R\<^sup>+" "(d, p) \<in> R"
  shows "p = x \<or> (p, x) \<in> R\<^sup>+"
proof -
  obtain q where "(d, q) \<in> R" "(q, x) \<in> R\<^sup>*" using assms(2) by (meson tranclD)
  then show ?thesis using assms(1,3) by (metis rtranclD)
qed

lemma raised_set: "raised R f ds \<Longrightarrow> R = transients s S \<Longrightarrow> set ds \<subseteq> S"
proof
  fix x assume "raised R f ds" "R = transients s S" "x \<in> set ds"
  then have "(x, f) \<in> R\<^sup>+" by (simp add: raised_def)
  then obtain p where "(x, p) \<in> R" by (meson tranclD)
  then show "x \<in> S" using \<open>R = transients s S\<close> by (simp add: transients_def)
qed

lemma lists_ok_same:
  "lists_ok s L \<Longrightarrow> frames s' = frames s \<Longrightarrow> stacking_list s' = stacking_list s \<Longrightarrow> lists_ok s' L"
  using stackings_frames [of s' s] by (simp add: lists_ok_def get_eq)

definition can_raise :: "(nat \<times> nat) set \<Rightarrow> int \<Rightarrow> nat set \<Rightarrow> ('x \<Rightarrow> nat list) \<Rightarrow> nat \<Rightarrow> nat set \<Rightarrow> 'x WScreen \<Rightarrow> lists \<Rightarrow> bool" where
  "can_raise R i S ord f P s L \<longleftrightarrow> lists_ok s L \<and> set (L i) = S \<and> transients s S = R \<and> agrees P ord s L \<and>
     P \<subseteq> S \<and> (\<forall>p \<in> P. (p, f) \<notin> R\<^sup>*) \<and> f \<in> S"

definition has_raised :: "(nat \<times> nat) set \<Rightarrow> int \<Rightarrow> ('x \<Rightarrow> nat list) \<Rightarrow> nat \<Rightarrow> nat set \<Rightarrow> 'x WScreen \<Rightarrow> lists \<Rightarrow> 'x WScreen option \<Rightarrow> bool" where
  "has_raised R i ord f P s L r \<longleftrightarrow> (\<exists>s' ds. r = Some s' \<and> raised R f ds \<and> same_cores s s' \<and>
     lists_ok s' (L(i := raised_order f ds (L i))) \<and> agrees P ord s' (L(i := raised_order f ds (L i))))"

lemma raise_loop:
  assumes X: "xlib_documented X ord" and acyc: "acyclic R"
    and IH: "\<And>x s L P. (x, f) \<in> R \<Longrightarrow> can_raise R i S ord x P s L \<Longrightarrow> hd (L i) \<noteq> x \<Longrightarrow>
        has_raised R i ord x P s L (raise X False x s)"
    and ok: "lists_ok s L" "transients s S = R" "agrees (insert f P) ord s L"
    and P: "P \<subseteq> S" "\<And>p. p \<in> P \<Longrightarrow> (p, f) \<notin> R\<^sup>*"
    and L: "L i = es @ f # rest" "set (L i) = S"
    and es: "families R es" "\<And>e. e \<in> set es \<Longrightarrow> (e, f) \<in> R\<^sup>+" "\<And>e p. e \<in> set es \<Longrightarrow> (e, p) \<in> R \<Longrightarrow> p = f \<or> p \<in> set es"
  shows "has_raised R i ord f P s L (raise X True f s)"
  using ok L es
proof (induction "length rest" arbitrary: s L es rest rule: less_induct)
  case less
  note ok = less.prems(1) and tr = less.prems(2) and ag = less.prems(3) and L = less.prems(4) and S = less.prems(5)
    and es = less.prems(6-8)
  have single: "p = q" if "(x, p) \<in> R" "(x, q) \<in> R" for x p q
    using transients_single [of x p s S q] that tr by simp
  have irr: "(x, x) \<notin> R\<^sup>+" for x using acyc by (simp add: acyclic_def)
  have fi: "get window_level f s = Some i" using lists_okD(4) [OF ok, of f i] L by simp
  have dis: "distinct (es @ f # rest)" using lists_okD(3) [OF ok, of i] L by simp
  note lt = lowest_transient_ok [OF ok L]
  have fS: "f \<in> S" using L S by auto
  have child: "(x, f) \<in> R \<longleftrightarrow> x \<in> S \<and> get child_of x s = Some (Some f)" for x using tr by (auto simp: transients_def)
  show ?case
  proof (cases "List.find (\<lambda>x. get child_of x s = Some (Some f)) (rev rest)")
    case None
    then have none: "x \<notin> set rest" if "(x, f) \<in> R" for x
      using that child by (auto simp: find_None_iff)
    have kids: "x \<in> set es" if "(x, f) \<in> R" for x
    proof -
      have "x \<in> S" using that child by blast
      moreover have "x \<noteq> f" using that irr [of f] by blast
      ultimately show ?thesis using none [OF that] L S by auto
    qed
    have "set es = {x. (x, f) \<in> R\<^sup>+}"
    proof (intro equalityI subsetI)
      fix x assume "x \<in> {x. (x, f) \<in> R\<^sup>+}"
      then obtain c where "(x, c) \<in> R\<^sup>*" "(c, f) \<in> R" by (auto dest: tranclD2)
      then show "x \<in> set es" using families_below [OF es(1)] kids by blast
    qed (use es(2) in blast)
    moreover have "families R (es @ [f])"
      unfolding families_def
    proof (intro ballI allI impI)
      fix p x assume p: "p \<in> set (es @ [f])" "(x, p) \<in> R"
      show "precedes (es @ [f]) x p"
      proof (cases "p = f")
        case True
        then show ?thesis using kids p(2) unfolding precedes_def by blast
      next
        case False
        then show ?thesis using p es(1) precedes_append(1) unfolding families_def by auto
      qed
    qed
    ultimately have r: "raised R f es" by (simp add: raised_def)
    have "\<exists>v. place X (XRaiseWindow X) f i s = Some (s\<lparr>server := v\<rparr>) \<and> agrees P ord (s\<lparr>server := v\<rparr>) L"
    proof (rule place_ok [OF ok L ag _ _ _ X])
      show "f \<notin> P" using P(2) [of f] by auto
      show "P \<subseteq> set (L i)" using P(1) S by simp
      show "es \<noteq> [] \<longrightarrow> last es \<notin> P" using P(2) es(2) by (meson last_in_set trancl_into_rtrancl)
    qed simp
    then obtain v where v: "place X (XRaiseWindow X) f i s = Some (s\<lparr>server := v\<rparr>)" "agrees P ord (s\<lparr>server := v\<rparr>) L" by blast
    let ?s = "notifyStackChange f ''raise'' (s\<lparr>server := v\<rparr>)"
    have "raise X True f s = Some ?s" using lt None fi v(1) by (subst raise.simps) simp
    moreover have o: "raised_order f es (L i) = L i"
      using dis by (auto simp: raised_order_def L intro!: filter_True)
    moreover have "lists_ok ?s L" by (rule lists_ok_same [OF ok]) (simp_all add: notifyStackChange_def post_def)
    moreover have "agrees P ord ?s L" using v(2) by (simp add: agrees_def notifyStackChange_def post_def)
    moreover have "same_cores s ?s" by (simp add: same_cores_def notifyStackChange_def post_def)
    moreover have "L(i := raised_order f es (L i)) = L" unfolding o by simp
    ultimately show ?thesis using r unfolding has_raised_def by (intro exI [of _ ?s] exI [of _ es]) presburger
  next
    case (Some x)
    then have x: "x \<in> set rest" "get child_of x s = Some (Some f)"
      using find_SomeD [OF Some] by simp_all
    then have xf: "(x, f) \<in> R" using child L S by auto
    have "can_raise R i S ord x (insert f P) s L"
      unfolding can_raise_def
    proof (intro conjI ballI)
      show "insert f P \<subseteq> S" "x \<in> S" using P(1) fS child xf by auto
      show "(p, x) \<notin> R\<^sup>*" if "p \<in> insert f P" for p
      proof
        assume "(p, x) \<in> R\<^sup>*"
        then have "(p, f) \<in> R\<^sup>+" using xf by simp
        then show False using that irr P(2) by (auto dest: trancl_into_rtrancl)
      qed
    qed (use ok S tr ag in auto)
    moreover have "hd (L i) \<noteq> x" using L dis x(1) by (cases es) auto
    ultimately have "has_raised R i ord x (insert f P) s L (raise X False x s)" by (rule IH [OF xf])
    then obtain s1 dx where s1: "raise X False x s = Some s1" "raised R x dx" "same_cores s s1"
      "lists_ok s1 (L(i := raised_order x dx (L i)))" "agrees (insert f P) ord s1 (L(i := raised_order x dx (L i)))"
      unfolding has_raised_def by blast
    have dxR: "set dx = {y. (y, x) \<in> R\<^sup>+}" and fam: "families R (dx @ [x])" using s1(2) by (simp_all add: raised_def)
    define rest' where "rest' = filter (\<lambda>y. y \<noteq> x \<and> y \<notin> set dx) rest"
    have up: "d \<in> set es \<Longrightarrow> (d, x) \<in> R\<^sup>* \<Longrightarrow> False" for d
    proof -
      assume d: "d \<in> set es" "(d, x) \<in> R\<^sup>*"
      from d(2,1) show False
      proof (induction rule: converse_rtrancl_induct)
        case base
        then show ?case using x(1) dis by auto
      next
        case (step y z)
        have "(z, f) \<in> R\<^sup>+" using step(2) xf by simp
        then have "z \<noteq> f" using irr by auto
        then show ?case using es(3) step by blast
      qed
    qed
    have "f \<notin> set dx" "f \<noteq> x" using dxR xf irr by (auto dest: trancl_into_trancl)
    moreover have "filter (\<lambda>y. y \<noteq> x \<and> y \<notin> set dx) es = es"
      using up dxR by (auto intro!: filter_True dest: trancl_into_rtrancl)
    ultimately have o: "raised_order x dx (L i) = (dx @ x # es) @ f # rest'"
      by (auto simp: raised_order_def L rest'_def)
    let ?L = "L(i := (dx @ x # es) @ f # rest')"
    have "has_raised R i ord f P s1 ?L (raise X True f s1)"
    proof (rule less.hyps)
      show "length rest' < length rest" unfolding rest'_def by (rule length_filter_less [OF x(1)]) simp
      show "lists_ok s1 ?L" "agrees (insert f P) ord s1 ?L" using s1(4,5) o by simp_all
      show "transients s1 S = R" using transients_same [OF s1(3)] tr by simp
      have "set (raised_order x dx (L i)) = S"
        using raised_set [OF s1(2), of s S] tr S xf child unfolding raised_order_def by auto
      then show "set (?L i) = S" by (simp only: fun_upd_same o)
      show "families R (dx @ x # es)" using families_append [OF fam es(1)] by simp
      show "(e, f) \<in> R\<^sup>+" if "e \<in> set (dx @ x # es)" for e
      proof -
        have "(x, f) \<in> R\<^sup>+" using xf by simp
        moreover have "(e, f) \<in> R\<^sup>+" if "e \<in> set dx" using that xf dxR by (blast intro: trancl_into_trancl)
        ultimately show ?thesis using that es(2) by auto
      qed
      show "p = f \<or> p \<in> set (dx @ x # es)" if "e \<in> set (dx @ x # es)" "(e, p) \<in> R" for e p
      proof -
        have "e \<in> set dx \<or> e = x \<or> e \<in> set es" using that(1) by auto
        then consider "(e, x) \<in> R\<^sup>+" | "e = x" | "e \<in> set es" using dxR by blast
        then show ?thesis
        proof cases
          case 1
          have "p = x \<or> (p, x) \<in> R\<^sup>+" by (rule up_one [OF _ 1 that(2)]) (rule single)
          moreover have "(p, x) \<in> R\<^sup>+ \<Longrightarrow> p \<in> set dx" using dxR by blast
          ultimately show ?thesis by auto
        next
          case 2
          then show ?thesis using single xf that(2) by blast
        next
          case 3
          then show ?thesis using es(3) that(2) by auto
        qed
      qed
    qed simp
    then obtain s2 ds where s2: "raise X True f s1 = Some s2" "raised R f ds" "same_cores s1 s2"
      "lists_ok s2 (L(i := raised_order f ds ((dx @ x # es) @ f # rest')))"
      "agrees P ord s2 (L(i := raised_order f ds ((dx @ x # es) @ f # rest')))"
      unfolding has_raised_def by auto
    have sub: "y \<in> set ds" if "y = x \<or> y \<in> set dx \<or> y \<in> set es" for y
    proof -
      have "(x, f) \<in> R\<^sup>+" using xf by simp
      moreover have "(y, f) \<in> R\<^sup>+" if "y \<in> set dx" using that xf dxR by (blast intro: trancl_into_trancl)
      ultimately have "(y, f) \<in> R\<^sup>+" using that es(2) by blast
      then show ?thesis using s2(2) unfolding raised_def by blast
    qed
    have "raised_order f ds ((dx @ x # es) @ f # rest') = raised_order f ds (L i)"
      unfolding raised_order_def L rest'_def using sub by (auto intro!: filter_cong)
    moreover have "raise X True f s = raise X True f s1"
      using lt Some fi s1(1) by (subst raise.simps) simp
    ultimately show ?thesis using s2 same_cores_trans [OF s1(3)] unfolding has_raised_def by auto
  qed
qed

lemma raise_ok:
  assumes X: "xlib_documented X ord" and acyc: "acyclic R" and fin: "finite R"
  shows "can_raise R i S ord f P s L \<Longrightarrow> hd (L i) \<noteq> f \<Longrightarrow> has_raised R i ord f P s L (raise X False f s)"
  using finite_acyclic_wf [OF fin acyc]
proof (induction f arbitrary: s L P rule: wf_induct_rule)
  case (less f)
  note c = less.prems(1) [unfolded can_raise_def]
  have ok: "lists_ok s L" and S: "set (L i) = S" and tr: "transients s S = R" and ag: "agrees P ord s L"
    and P: "P \<subseteq> S" "\<And>p. p \<in> P \<Longrightarrow> (p, f) \<notin> R\<^sup>*" and f: "f \<in> set (L i)"
    using c by auto
  obtain xs ys where L: "L i = xs @ f # ys" using split_list [OF f] by blast
  then have xs: "xs \<noteq> []" using less.prems(2) by (cases xs) auto
  have dis: "distinct (xs @ f # ys)" using lists_okD(3) [OF ok, of i] L by simp
  obtain s1 where s1: "raise X False f s = raise X True f s1" "lists_ok s1 (L(i := f # xs @ ys))" "same_cores s s1"
    "server s1 = server s" using raise_top [OF ok L xs] by blast
  let ?L = "L(i := f # xs @ ys)"
  have "has_raised R i ord f P s1 ?L (raise X True f s1)"
  proof (rule raise_loop [OF X acyc, where es = "[]" and rest = "xs @ ys" and S = S])
    show "has_raised R i ord x P s L (raise X False x s)"
      if "(x, f) \<in> R" "can_raise R i S ord x P s L" "hd (L i) \<noteq> x" for x s L P
      by (rule less.IH) (use that in auto)
    show "transients s1 S = R" using transients_same [OF s1(3)] tr by simp
    show "agrees (insert f P) ord s1 ?L"
    proof (rule agrees_move [OF ok ag _ _ _ _ s1(4)])
      show "filter (\<lambda>x. x \<notin> insert f P) (f # xs @ ys) = filter (\<lambda>x. x \<notin> insert f P) (L i)" using L by simp
    qed (use L in auto)
    show "set (?L i) = S" using S L by auto
  qed (use s1 P in \<open>auto simp: families_def\<close>)
  moreover have "raised_order f ds (f # xs @ ys) = raised_order f ds (L i)" for ds by (simp add: raised_order_def L)
  ultimately show ?case using same_cores_trans [OF s1(3)] s1(1) unfolding has_raised_def by auto
qed

text \<open>A frame at the top of its level stays there.\<close>

lemma raise_top_frame:
  assumes "lists_ok s L" "L i = f # ys"
  shows "wRaiseFrame X f s = Some s"
  using lists_okD(2) [OF assms(1), of i] lists_okD(4) [OF assms(1), of f i] assms(2)
  by (auto simp: wRaiseFrame_def get_eq raise.simps [of X False])

section \<open>Committing\<close>

lemma commit_loop_ok:
  "lists_ok s L \<Longrightarrow> \<forall>i \<in> set js. L i \<noteq> [] \<Longrightarrow> commit_loop s (map (\<lambda>i. Some (hd (L i))) js) = Some (concat (map L js))"
proof (induction js)
  case (Cons j js)
  have "downwards s (top_frame (L j)) = Some (L j)" by (rule linked_downwards) (rule lists_okD(2) [OF Cons.prems(1)])
  moreover have "top_frame (L j) = Some (hd (L j))" using Cons.prems(2) by (cases "L j") auto
  ultimately show ?case using Cons by simp
qed simp

lemma CommitStacking_ok:
  assumes ok: "lists_ok s L" and n: "int (length (stack_order L)) \<le> window_count s"
  shows "CommitStacking X s = Some (post ResetStacking (s\<lparr>server := XRestackWindows X (stack_order L) (server s)\<rparr>))"
proof -
  have "\<forall>i \<in> set (rev (levels L)). L i \<noteq> []" using set_levels [OF lists_okD(5) [OF ok]] by simp
  then have "commit_loop s (map (\<lambda>i. Some (hd (L i))) (rev (levels L))) = Some (stack_order L)"
    using commit_loop_ok [OF ok] by (simp add: stack_order_def)
  then show ?thesis using bag_tops_iterate [OF lists_okD(1) [OF ok]] n by (simp add: CommitStacking_def)
qed

text \<open>After the request the order of the server is the one of the lists, whatever it was.\<close>

lemma agrees_commit:
  assumes ok: "lists_ok s L" and X: "xlib_documented X ord" and sub: "set (stack_order L) \<subseteq> set (ord (server s))"
  shows "agrees {} ord (s\<lparr>server := XRestackWindows X (stack_order L) (server s)\<rparr>) L"
proof -
  let ?v = "XRestackWindows X (stack_order L) (server s)" and ?S = "set (stack_order L)"
  have dis: "distinct (stack_order L)" by (rule distinct_stack_order [OF ok])
  have v: "ord ?v = restack (stack_order L) (ord (server s))" and d: "distinct (ord (server s))"
    using X dis sub by (auto simp: xlib_documented_def)
  show ?thesis
  proof (cases "stack_order L")
    case (Cons w vs)
    have w: "w \<in> set (filter (\<lambda>x. x \<notin> set vs) (ord (server s)))" using Cons sub dis by auto
    then obtain ys zs where f: "filter (\<lambda>x. x \<notin> set vs) (ord (server s)) = ys @ w # zs" by (meson split_list)
    moreover have "distinct (ys @ w # zs)" unfolding f [symmetric] using d by simp
    ultimately have r: "ord ?v = ys @ w # vs @ zs"
      using v [unfolded Cons] unfolding Cons using restack_ok [of w vs "ord (server s)" ys zs] dis Cons by simp
    have "x \<notin> ?S" if "x \<in> set (ys @ zs)" for x
    proof -
      have "x \<in> set (filter (\<lambda>x. x \<notin> set vs) (ord (server s)))" unfolding f using that by auto
      moreover have "x \<noteq> w" using \<open>distinct (ys @ w # zs)\<close> that by auto
      ultimately show ?thesis using Cons by auto
    qed
    then have "filter (\<lambda>x. x \<in> ?S) ys = []" "filter (\<lambda>x. x \<in> ?S) zs = []" by (auto simp: filter_empty_conv)
    moreover have "filter (\<lambda>x. x \<in> ?S) (w # vs) = w # vs" using Cons by (intro filter_True) auto
    ultimately have "filter (\<lambda>x. x \<in> ?S) (ord ?v) = stack_order L" unfolding r using Cons by simp
    then show ?thesis using r Cons by (auto simp: agrees_def)
  qed (simp add: agrees_def)
qed

end
