(* ===== verification/WMStackingScreen.thy ===== *)
theory WMStackingScreen
  imports WMStackingRaise
begin

text \<open>
  The invariant of a screen, \<open>screen_ok\<close>: the lists, the counter and the contexts hold the same frames,
  and the server has their windows in the order of the lists. What adding, removing, lowering and
  raising a frame, changing its level and reading the order from the server do to it.
\<close>

section \<open>Screens\<close>

definition frames_of :: "lists \<Rightarrow> nat set" where
  "frames_of L = (\<Union>i. set (L i))"

definition screen_ok :: "('x \<Rightarrow> nat list) \<Rightarrow> 'x WScreen \<Rightarrow> lists \<Rightarrow> bool" where
  "screen_ok ord s L \<longleftrightarrow> lists_ok s L \<and> agrees {} ord s L \<and> window_count s = int (length (stack_order L)) \<and>
     (\<forall>x. stack_context s x = (if x \<in> frames_of L then Some x else None))"

lemma frames_of_upd: "frames_of (L(i := zs)) = set zs \<union> (\<Union>j \<in> - {i}. set (L j))"
  by (auto simp: frames_of_def split: if_splits)

lemma frames_of_split: "frames_of L = set (L i) \<union> (\<Union>j \<in> - {i}. set (L j))"
  by (auto simp: frames_of_def)

lemma set_order: "lists_ok s L \<Longrightarrow> set (stack_order L) = frames_of L"
  using set_stack_order [OF lists_okD(5)] by (simp add: frames_of_def)

lemma length_order: "lists_ok s L \<Longrightarrow> length (stack_order L) = card (frames_of L)"
  using distinct_card [OF distinct_stack_order] set_order by metis

lemma other_levels: "lists_ok s L \<Longrightarrow> x \<in> set (L i) \<Longrightarrow> x \<notin> (\<Union>j \<in> - {i}. set (L j))"
  using level_unique by blast

lemma finite_frames_of: "lists_ok s L \<Longrightarrow> finite (frames_of L)"
  using set_order by (metis List.finite_set)

lemma screen_okD:
  assumes "screen_ok ord s L"
  shows "lists_ok s L" "agrees {} ord s L" "window_count s = int (length (stack_order L))"
    "stack_context s x = (if x \<in> frames_of L then Some x else None)"
  using assms by (simp_all add: screen_ok_def)

text \<open>A permutation of a level keeps the number of the windows and the context.\<close>

lemma screen_ok_move:
  assumes ok: "screen_ok ord s L" and same: "same_cores s s'" and l: "lists_ok s' (L(i := zs))" "agrees {} ord s' (L(i := zs))"
    and z: "set zs = set (L i)"
  shows "screen_ok ord s' (L(i := zs))"
proof -
  have f: "frames_of (L(i := zs)) = frames_of L" unfolding frames_of_upd frames_of_split [of L i] z ..
  have "length (stack_order (L(i := zs))) = length (stack_order L)"
    using length_order [OF l(1)] length_order [OF screen_okD(1) [OF ok]] f by simp
  then show ?thesis using screen_okD(3,4) [OF ok] l same_coresD(5,6) [OF same] f by (simp add: screen_ok_def)
qed

text \<open>Linking a frame that is in no list: the writes of the code one by one.\<close>

lemma link_steps:
  assumes l: "linked (stackings s) NULL (as @ bs) NULL" and f: "frames s f \<noteq> None" "f \<notin> set (as @ bs)" and d: "distinct (as @ bs)"
  obtains s1 s2 s3 s4 where "put (set_above (last_or NULL as)) f s = Some s1" "put (set_under (first_or NULL bs)) f s1 = Some s2"
    "put_if (set_above (Some f)) (first_or NULL bs) s2 = Some s3" "put_if (set_under (Some f)) (last_or NULL as) s3 = Some s4"
    "linked_in s as f bs s4" "\<exists>fr. s4 = s\<lparr>frames := fr\<rparr>" "\<forall>x. x \<noteq> f \<longrightarrow> stackings s1 x = stackings s x" "stacking_list s3 = stacking_list s"
proof -
  have al: "frames s x \<noteq> None" if "x \<in> set (as @ bs)" for x using linked_frames [OF l that] .
  then have n: "frames s x \<noteq> None" if "first_or NULL bs = Some x \<or> last_or NULL as = Some x" for x
    using that by (auto dest: first_or_in last_or_in)
  define s1 where "s1 = s\<lparr>frames := updf (set_above (last_or NULL as)) (Some f) (frames s)\<rparr>"
  define s2 where "s2 = s1\<lparr>frames := updf (set_under (first_or NULL bs)) (Some f) (frames s1)\<rparr>"
  define s3 where "s3 = s2\<lparr>frames := updf (set_above (Some f)) (first_or NULL bs) (frames s2)\<rparr>"
  define s4 where "s4 = s3\<lparr>frames := updf (set_under (Some f)) (last_or NULL as) (frames s3)\<rparr>"
  have "put (set_above (last_or NULL as)) f s = Some s1" unfolding s1_def by (rule put_eq) (use f in simp)
  moreover have "put (set_under (first_or NULL bs)) f s1 = Some s2" unfolding s2_def by (rule put_eq) (use f in \<open>simp add: s1_def\<close>)
  moreover have "put_if (set_above (Some f)) (first_or NULL bs) s2 = Some s3"
    unfolding s3_def by (rule put_if_eq) (use n in \<open>simp add: s2_def s1_def\<close>)
  moreover have "put_if (set_under (Some f)) (last_or NULL as) s3 = Some s4"
    unfolding s4_def by (rule put_if_eq) (use n in \<open>simp add: s3_def s2_def s1_def\<close>)
  moreover have "linked_in s as f bs s4" by (simp add: linked_in_def s4_def s3_def s2_def s1_def)
  moreover have "s4 = s\<lparr>frames := frames s4\<rparr>" by (simp add: s4_def s3_def s2_def s1_def)
  moreover have "stackings s1 x = stackings s x" if "x \<noteq> f" for x
    using that by (simp add: s1_def stackings_updf upd_apply)
  moreover have "stacking_list s3 = stacking_list s" by (simp add: s3_def s2_def s1_def)
  ultimately show ?thesis using that by blast
qed

section \<open>Adding a frame\<close>

lemma find_transient_list:
  "linked (stackings s) p xs NULL \<Longrightarrow>
   find_transient s f tr (first_or NULL xs) = Some (foldl (\<lambda>t x. if get child_of x s = Some (Some f) then Some x else t) tr xs)"
proof (induction xs arbitrary: p tr)
  case Nil
  then show ?case by (subst find_transient.simps) simp
next
  case (Cons x xs)
  then obtain n where n: "stackings s x = Some n" "under n = first_or NULL xs" by (auto simp: first_or_def)
  have l: "linked (stackings s) (Some x) xs NULL" using Cons.prems by simp
  show ?case using n Cons.IH [OF l] by (subst find_transient.simps) (simp add: get_eq)
qed

text \<open>Where a new frame goes: below the lowest of its transients.\<close>

definition added_between :: "'x WScreen \<Rightarrow> nat \<Rightarrow> nat list \<Rightarrow> nat list \<Rightarrow> bool" where
  "added_between s f as bs \<longleftrightarrow> (as \<noteq> [] \<longrightarrow> get child_of (last as) s = Some (Some f)) \<and>
     (\<forall>x \<in> set bs. get child_of x s \<noteq> Some (Some f))"

lemma added_between_exists: "\<exists>as bs. xs = as @ bs \<and> added_between s f as bs"
proof (cases "\<exists>x \<in> set xs. get child_of x s = Some (Some f)")
  case True
  then obtain as x bs where "xs = as @ x # bs" "get child_of x s = Some (Some f)" "\<forall>y \<in> set bs. get child_of y s \<noteq> Some (Some f)"
    using split_list_last_prop [of xs "\<lambda>x. get child_of x s = Some (Some f)"] by blast
  then show ?thesis by (intro exI [of _ "as @ [x]"] exI [of _ bs]) (simp add: added_between_def)
next
  case False
  then show ?thesis by (intro exI [of _ "[]"] exI [of _ xs]) (simp add: added_between_def)
qed

lemma find_transient_between:
  assumes "linked (stackings s) NULL (as @ bs) NULL" "added_between s f as bs"
  shows "find_transient s f NULL (first_or NULL (as @ bs)) = Some (last_or NULL as)"
proof -
  have none: "foldl (\<lambda>t x. if get child_of x s = Some (Some f) then Some x else t) tr bs = tr" for tr
    using assms(2) unfolding added_between_def by (induction bs) auto
  show ?thesis
  proof (cases as rule: rev_cases)
    case Nil
    then show ?thesis using find_transient_list [OF assms(1), of f NULL] none by simp
  next
    case (snoc us u)
    then show ?thesis using find_transient_list [OF assms(1), of f NULL] none assms(2) by (simp add: added_between_def)
  qed
qed

text \<open>The lists and the counters after a frame was linked in.\<close>

lemma insert_ok:
  assumes ok: "lists_ok s L" and L: "L i = as @ bs" and f: "f \<notin> frames_of L" "frames s f \<noteq> None" "get window_level f s = Some i"
    and s': "linked_in s as f bs s'" "window_count s' = window_count s" "stack_context s' = stack_context s"
    and bag: "bag_tops (stacking_list s') (L(i := as @ f # bs))"
  shows "lists_ok s' (L(i := as @ f # bs))" "length (stack_order (L(i := as @ f # bs))) = Suc (length (stack_order L))"
    "frames_of (L(i := as @ f # bs)) = insert f (frames_of L)"
proof -
  have fL: "f \<notin> set (as @ bs)" using f(1) L by (auto simp: frames_of_split [of L i])
  have d: "distinct (as @ f # bs)" using lists_okD(3) [OF ok, of i] fL L by simp
  have l: "linked (stackings s) NULL (as @ bs) NULL" using lists_okD(2) [OF ok, of i] L by simp
  show ok': "lists_ok s' (L(i := as @ f # bs))"
    by (rule relink_ok(1) [OF ok same_cores_refl l f(2,3) _ d _ s' bag]) (use L in auto)
  show F: "frames_of (L(i := as @ f # bs)) = insert f (frames_of L)"
    unfolding frames_of_upd frames_of_split [of L i] L by auto
  show "length (stack_order (L(i := as @ f # bs))) = Suc (length (stack_order L))"
    unfolding length_order [OF ok'] length_order [OF ok] F using f(1) finite_frames_of [OF ok] by simp
qed

lemma AddToStackList_ok:
  assumes ok: "screen_ok ord s L" and X: "xlib_documented X ord" and f: "f \<notin> frames_of L" "get window_level f s = Some i"
    and srv: "f \<in> set (ord (server s))"
  shows "\<exists>s' as bs. AddToStackList X f s = Some s' \<and> L i = as @ bs \<and> added_between s f as bs \<and>
    screen_ok ord s' (L(i := as @ f # bs)) \<and> (\<forall>x. map_option core (frames s' x) = map_option core (frames s x))"
proof -
  obtain as bs where L: "L i = as @ bs" "added_between s f as bs" using added_between_exists by blast
  let ?L = "L(i := as @ f # bs)"
  define s0 where "s0 = s\<lparr>window_count := window_count s + 1, stack_context := (stack_context s)(f \<mapsto> f)\<rparr>"
  have fr: "frames s0 = frames s" "stacking_list s0 = stacking_list s" "server s0 = server s" by (simp_all add: s0_def)
  have st: "stackings s0 = stackings s" by (rule stackings_frames [OF fr(1)])
  have ok0: "lists_ok s0 L" by (rule lists_ok_same [OF screen_okD(1) [OF ok] fr(1,2)])
  have al: "frames s0 f \<noteq> None" using f(2) fr(1) by (auto simp: get_def)
  have fi: "get window_level f s0 = Some i" using f(2) st by (simp add: get_eq)
  have fL: "f \<notin> set (as @ bs)" using f(1) L by (auto simp: frames_of_split [of L i])
  have l: "linked (stackings s0) NULL (as @ bs) NULL" "distinct (as @ bs)"
    using lists_okD(2) [OF ok0, of i] lists_okD(3) [OF ok0, of i] L by simp_all
  obtain s1 s2 s3 s4 where w: "put (set_above (last_or NULL as)) f s0 = Some s1" "put (set_under (first_or NULL bs)) f s1 = Some s2"
    "put_if (set_above (Some f)) (first_or NULL bs) s2 = Some s3" "put_if (set_under (Some f)) (last_or NULL as) s3 = Some s4"
    "linked_in s0 as f bs s4" "\<exists>fr. s4 = s0\<lparr>frames := fr\<rparr>" "\<forall>x. x \<noteq> f \<longrightarrow> stackings s1 x = stackings s0 x" "stacking_list s3 = stacking_list s0"
    using link_steps [OF l(1) al fL l(2)] by blast
  have top: "top_of i s0 = Some (first_or NULL (as @ bs))" using get_top [OF ok0, of i] L by (simp add: top_frame_first)
  have "\<exists>b. AddToStackList X f s = CommitStacking X (s4\<lparr>stacking_list := b\<rparr>) \<and> bag_tops b ?L"
  proof (cases as rule: rev_cases)
    case Nil
    show ?thesis
    proof (cases bs)
      case Nil': Nil
      obtain b where b: "set_top i (Some f) s0 = Some (s0\<lparr>stacking_list := b\<rparr>)" "\<And>xs. bag_tops b (L(i := f # xs))"
        using set_top_ok [OF lists_okD(1) [OF ok0], of i f] by blast
      have "put (set_above NULL) f (s0\<lparr>stacking_list := b\<rparr>) = Some (s1\<lparr>stacking_list := b\<rparr>)"
        "put (set_under NULL) f (s1\<lparr>stacking_list := b\<rparr>) = Some (s2\<lparr>stacking_list := b\<rparr>)" "s4 = s2"
        using w(1-4) Nil Nil' by (auto simp: put_def put_if_def split: Option.bind_splits)
      then have "AddToStackList X f s = CommitStacking X (s4\<lparr>stacking_list := b\<rparr>)"
        using b(1) top fi f(2) Nil Nil' by (simp add: AddToStackList_def s0_def [symmetric])
      then show ?thesis using b(2) [of "[]"] Nil Nil' by auto
    next
      case (Cons b bs')
      obtain c where c: "set_top i (Some f) s3 = Some (s3\<lparr>stacking_list := c\<rparr>)" "\<And>xs. bag_tops c (L(i := f # xs))"
        using set_top_ok [of s3 L i f] lists_okD(1) [OF ok0] w(8) by auto
      have "find_transient s0 f NULL (Some b) = Some NULL"
        using find_transient_between [OF l(1)] L(2) st Nil Cons by (simp add: added_between_def get_eq)
      then have "AddToStackList X f s = CommitStacking X (s4\<lparr>stacking_list := c\<rparr>)"
        using c(1) top fi f(2) w(1-4) Nil Cons by (simp add: AddToStackList_def s0_def [symmetric] put_if_def)
      then show ?thesis using c(2) Nil Cons by auto
    qed
  next
    case (snoc us u)
    have "find_transient s0 f NULL (first_or NULL (as @ bs)) = Some (Some u)"
      using find_transient_between [OF l(1)] L(2) st snoc by (simp add: added_between_def get_eq)
    moreover have "u \<noteq> f" using fL snoc by auto
    then have "get under u s1 = Some (first_or NULL bs)"
      using w(7) linked_at [of "stackings s0" NULL us u bs NULL] l(1) snoc by (auto simp: get_eq)
    moreover obtain h where "first_or NULL (as @ bs) = Some h" using snoc by (cases us) auto
    ultimately have "AddToStackList X f s = CommitStacking X s4"
      using top fi f(2) w(1-4) snoc by (simp add: AddToStackList_def s0_def [symmetric] put_if_def)
    moreover have "stacking_list s4 = stacking_list s0" using w(6) by auto
    moreover have "bag_tops (stacking_list s0) ?L"
      by (rule bag_tops_cong [OF lists_okD(1) [OF ok0]]) (use L snoc in \<open>cases us; auto\<close>)
    moreover have "s4\<lparr>stacking_list := stacking_list s4\<rparr> = s4" by (cases s4) simp
    ultimately show ?thesis by metis
  qed
  then obtain b where b: "AddToStackList X f s = CommitStacking X (s4\<lparr>stacking_list := b\<rparr>)" "bag_tops b ?L" by blast
  let ?s = "s4\<lparr>stacking_list := b\<rparr>"
  have s4: "window_count s4 = window_count s0" "stack_context s4 = stack_context s0" "server s4 = server s" using w(6) fr by auto
  note i = insert_ok [OF ok0 L(1) f(1) al fi, of ?s]
  have li: "linked_in s0 as f bs ?s" using w(5) by (simp add: linked_in_def)
  have ok': "lists_ok ?s ?L" and len: "length (stack_order ?L) = Suc (length (stack_order L))" and F: "frames_of ?L = insert f (frames_of L)"
    by (rule i [OF li]; use s4 b(2) in simp)+
  let ?s' = "post ResetStacking (?s\<lparr>server := XRestackWindows X (stack_order ?L) (server ?s)\<rparr>)"
  have n: "int (length (stack_order ?L)) = window_count ?s"
    using len s4(1) screen_okD(3) [OF ok] by (simp add: s0_def)
  then have "AddToStackList X f s = Some ?s'" using CommitStacking_ok [OF ok'] b(1) by simp
  moreover have "agrees {} ord ?s' ?L"
  proof -
    have "set (stack_order ?L) \<subseteq> set (ord (server ?s))"
      unfolding set_order [OF ok'] F using srv s4(3) screen_okD(2) [OF ok] set_order [OF screen_okD(1) [OF ok]]
      by (simp add: agrees_def)
    then show ?thesis using agrees_commit [OF ok' X] by (simp add: agrees_def post_def)
  qed
  moreover have "lists_ok ?s' ?L" by (rule lists_ok_same [OF ok']) (simp_all add: post_def)
  moreover have "stack_context ?s' x = (if x \<in> frames_of ?L then Some x else None)" for x
    unfolding F using s4(2) screen_okD(4) [OF ok, of x] by (simp add: post_def s0_def)
  moreover have "window_count ?s' = int (length (stack_order ?L))" using n by (simp add: post_def)
  ultimately have "screen_ok ord ?s' ?L" by (simp add: screen_ok_def)
  moreover have "map_option core (frames ?s' x) = map_option core (frames s x)" for x
    using link_ok(3) [OF l(1) _ al, of s4] w(5) fL l(2) fr(1) by (simp add: linked_in_def post_def)
  ultimately show ?thesis using \<open>AddToStackList X f s = Some ?s'\<close> L by blast
qed

section \<open>Removing a frame\<close>

lemma filter_mem_filter: "filter (\<lambda>x. x \<in> set (filter Q xs)) ys = filter Q (filter (\<lambda>x. x \<in> set xs) ys)"
  by (auto intro: filter_cong)

lemma stack_order_remove:
  assumes ok: "lists_ok s L" and L: "L i = xs @ f # ys" and ne: "xs @ ys \<noteq> []"
  shows "stack_order (L(i := xs @ ys)) = filter (\<lambda>x. x \<noteq> f) (stack_order L)"
proof -
  have l: "levels (L(i := xs @ ys)) = levels L" unfolding levels_def
    by (rule arg_cong [where f = sorted_list_of_set]) (use L ne in auto)
  have "(L(i := xs @ ys)) j = filter (\<lambda>x. x \<noteq> f) (L j)" for j
  proof (cases "j = i")
    case True
    have "filter (\<lambda>x. x \<noteq> f) (xs @ ys) = xs @ ys" using lists_okD(3) [OF ok, of i] L by (intro filter_True) auto
    then show ?thesis using True L by simp
  next
    case False
    then have "f \<notin> set (L j)" using level_unique [OF ok, of f i j] L by auto
    then show ?thesis using False by (auto intro!: filter_True [symmetric])
  qed
  then have "L(i := xs @ ys) = filter (\<lambda>x. x \<noteq> f) \<circ> L" by (simp add: fun_eq_iff)
  then show ?thesis unfolding stack_order_def l filter_concat by simp
qed

lemma agrees_remove:
  assumes "agrees {} ord s L" "stack_order L' = filter (\<lambda>x. x \<noteq> f) (stack_order L)" "server s' = server s"
  shows "agrees {} ord s' L'"
proof -
  have "filter (\<lambda>x. x \<in> set (stack_order L')) (ord (server s)) = stack_order L'"
    unfolding assms(2) filter_mem_filter using assms(1) by (simp add: agrees_def)
  then show ?thesis using assms by (auto simp: agrees_def)
qed

lemma RemoveFromStackList_ok:
  assumes ok: "screen_ok ord s L" and L: "L i = xs @ f # ys" and ne: "xs @ ys \<noteq> []"
  shows "\<exists>s'. RemoveFromStackList f s = Some s' \<and> screen_ok ord s' (L(i := xs @ ys)) \<and>
    (\<forall>x. map_option core (frames s' x) = map_option core (frames s x)) \<and> server s' = server s"
proof -
  let ?L = "L(i := xs @ ys)"
  define s0 where "s0 = s\<lparr>stack_context := (stack_context s)(f := None)\<rparr>"
  have fr: "frames s0 = frames s" "stacking_list s0 = stacking_list s" "server s0 = server s" by (simp_all add: s0_def)
  have ok0: "lists_ok s0 L" by (rule lists_ok_same [OF screen_okD(1) [OF ok] fr(1,2)])
  have l: "linked (stackings s0) NULL (xs @ f # ys) NULL" and d: "distinct (xs @ f # ys)"
    using lists_okD(2) [OF ok0, of i] lists_okD(3) [OF ok0, of i] L by simp_all
  have f: "get window_level f s = Some i" "get above f s0 = Some (last_or NULL xs)" "get under f s0 = Some (first_or NULL ys)"
    using lists_okD(4) [OF screen_okD(1) [OF ok], of f i] L linked_at [OF l] by (auto simp: get_eq)
  obtain s1 where s1: "unlink_frame f s0 = Some s1" "same_cores s0 s1" "server s1 = server s0" "stacking_list s1 = stacking_list s0"
    "linked (stackings s1) NULL (xs @ ys) NULL" "\<forall>x. x \<notin> set (xs @ ys) \<longrightarrow> stackings s1 x = stackings s0 x"
    using unlink_frame_ok [OF ok0 L] by blast
  have F: "f \<in> frames_of L" using L by (auto simp: frames_of_split [of L i])
  have ctx: "stack_context s f = Some f" using screen_okD(4) [OF ok, of f] F by simp
  have "\<exists>b. RemoveFromStackList f s = Some (post ResetStacking (s1\<lparr>stacking_list := b, window_count := window_count s1 - 1\<rparr>)) \<and> bag_tops b ?L"
  proof (cases xs rule: rev_cases)
    case (snoc us u)
    have "bag_tops (stacking_list s1) ?L" unfolding s1(4)
      by (rule bag_tops_cong [OF lists_okD(1) [OF ok0]]) (use L snoc in \<open>cases us; auto\<close>)
    moreover have "s1\<lparr>stacking_list := stacking_list s1, window_count := n\<rparr> = s1\<lparr>window_count := n\<rparr>" for n by (cases s1) simp
    moreover obtain t where "put_if (set_above (Some u)) (first_or NULL ys) s0 = Some t" "put (set_under (first_or NULL ys)) u t = Some s1"
      using f s1(1) snoc by (auto simp: unlink_frame_def put_if_def [of _ "Some u"] split: Option.bind_splits)
    then have "RemoveFromStackList f s = Some (post ResetStacking (s1\<lparr>window_count := window_count s1 - 1\<rparr>))"
      using f ctx snoc by (simp add: RemoveFromStackList_def s0_def [symmetric])
    ultimately show ?thesis by metis
  next
    case Nil
    then obtain y ys' where y: "ys = y # ys'" using ne by (cases ys) auto
    have p: "put_if (set_above NULL) (Some y) s0 = Some s1"
      using s1(1) f Nil y by (auto simp: unlink_frame_def put_if_def [of _ NULL] split: Option.bind_splits)
    obtain b where b: "set_top i (Some y) s1 = Some (s1\<lparr>stacking_list := b\<rparr>)" "\<And>zs. bag_tops b (L(i := y # zs))"
      using set_top_ok [of s1 L i y] lists_okD(1) [OF ok0] s1(4) by auto
    have "RemoveFromStackList f s = Some (post ResetStacking (s1\<lparr>stacking_list := b, window_count := window_count s1 - 1\<rparr>))"
      using f p b(1) ctx Nil y by (simp add: RemoveFromStackList_def s0_def [symmetric])
    then show ?thesis using b(2) Nil y by auto
  qed
  then obtain b where b: "RemoveFromStackList f s = Some (post ResetStacking (s1\<lparr>stacking_list := b, window_count := window_count s1 - 1\<rparr>))"
    "bag_tops b ?L" by blast
  let ?s = "post ResetStacking (s1\<lparr>stacking_list := b, window_count := window_count s1 - 1\<rparr>)"
  have s2: "same_cores s0 (s1\<lparr>stacking_list := b\<rparr>)" using s1(2) by (simp add: same_cores_def)
  have "lists_ok (s1\<lparr>stacking_list := b\<rparr>) ?L"
  proof (rule lists_ok_update [OF ok0 s2])
    show "\<forall>x \<in> set (xs @ ys). get window_level x s0 = Some i" using lists_okD(4) [OF ok0, of _ i] L by auto
    show "stackings (s1\<lparr>stacking_list := b\<rparr>) x = stackings s0 x" if "x \<notin> set (L i)" for x
      using s1(6) that L by simp
  qed (use b(2) s1(5) d in auto)
  then have ok': "lists_ok ?s ?L" by (rule lists_ok_same) (simp_all add: post_def)
  have o: "stack_order ?L = filter (\<lambda>x. x \<noteq> f) (stack_order L)" by (rule stack_order_remove [OF ok0 L ne])
  have F': "frames_of ?L = frames_of L - {f}" unfolding set_order [OF ok', symmetric] set_order [OF ok0, symmetric] o by auto
  have len: "int (length (stack_order ?L)) = int (length (stack_order L)) - 1"
    unfolding length_order [OF ok'] length_order [OF ok0] F' using F finite_frames_of [OF ok0]
    by (simp add: of_nat_diff card_gt_0_iff Suc_le_eq) (metis card_gt_0_iff empty_iff Suc_leI of_nat_1 of_nat_diff One_nat_def)
  have "agrees {} ord ?s ?L" by (rule agrees_remove [OF screen_okD(2) [OF ok] o]) (simp add: post_def s1(3) fr)
  moreover have "window_count ?s = int (length (stack_order ?L))"
    using len screen_okD(3) [OF ok] same_coresD(5) [OF s1(2)] by (simp add: post_def s0_def)
  moreover have "stack_context ?s x = (if x \<in> frames_of ?L then Some x else None)" for x
    unfolding F' using screen_okD(4) [OF ok, of x] same_coresD(6) [OF s1(2)] by (simp add: post_def s0_def)
  ultimately have "screen_ok ord ?s ?L" using ok' by (simp add: screen_ok_def)
  moreover have "map_option core (frames ?s x) = map_option core (frames s x)" for x
    using s1(2) fr by (simp add: same_cores_def post_def)
  moreover have "server ?s = server s" using s1(3) fr by (simp add: post_def)
  ultimately show ?thesis using b(1) by blast
qed

section \<open>Lowering a frame\<close>

text \<open>Where a lowered frame goes in the list of the others: to the bottom or directly above its owner.\<close>

definition lowered_between :: "nat ptr \<Rightarrow> nat list \<Rightarrow> nat list \<Rightarrow> bool" where
  "lowered_between owner as bs \<longleftrightarrow> as \<noteq> [] \<and> (if owner = Some (hd as) then tl as = []
     else owner \<notin> Some ` set as \<and> (bs \<noteq> [] \<longrightarrow> owner = Some (hd bs)))"

lemma lower_place_list:
  "linked (stackings s) p (w # vs) NULL \<Longrightarrow>
   \<exists>as bs. w # vs = as @ bs \<and> as \<noteq> [] \<and> lower_place s owner w = Some (last as) \<and>
     owner \<notin> Some ` set (tl as) \<and> (bs \<noteq> [] \<longrightarrow> owner = Some (hd bs))"
proof (induction vs arbitrary: w p)
  case Nil
  then have "lower_place s owner w = Some w" by (subst lower_place.simps) (auto simp: get_eq)
  then show ?case by (intro exI [of _ "[w]"] exI [of _ "[]"]) simp
next
  case (Cons v vs)
  have u: "get under w s = Some (Some v)" using Cons.prems by (auto simp: get_eq)
  show ?case
  proof (cases "owner = Some v")
    case True
    then have "lower_place s owner w = Some w" using u by (subst lower_place.simps) simp
    then show ?thesis using True by (intro exI [of _ "[w]"] exI [of _ "v # vs"]) simp
  next
    case False
    obtain as bs where c: "v # vs = as @ bs" "as \<noteq> []" "lower_place s owner v = Some (last as)"
      "owner \<notin> Some ` set (tl as)" "bs \<noteq> [] \<longrightarrow> owner = Some (hd bs)"
      using Cons.IH [of "Some w" v] Cons.prems by auto
    moreover have "lower_place s owner w = Some (last as)" using u False c(3) by (subst lower_place.simps) simp
    moreover have "hd as = v" using c(1,2) by (cases as) auto
    moreover have "set as = insert v (set (tl as))" using c(2) \<open>hd as = v\<close> by (cases as) auto
    ultimately show ?thesis using False by (intro exI [of _ "w # as"] exI [of _ bs]) auto
  qed
qed

lemma lowered_place:
  assumes l: "linked (stackings s) NULL zs NULL" and z: "zs \<noteq> []"
  obtains as bs where "zs = as @ bs" "lowered_between owner as bs"
    "(if owner \<noteq> Some (hd zs) then map_option Some (lower_place s owner (hd zs)) else Some (Some (hd zs))) = Some (last_or NULL as)"
proof (cases "owner = Some (hd zs)")
  case True
  then show ?thesis using that [of "[hd zs]" "tl zs"] z by (simp add: lowered_between_def)
next
  case False
  have e: "hd zs # tl zs = zs" using z by simp
  obtain as bs where c: "zs = as @ bs" "as \<noteq> []" "lower_place s owner (hd zs) = Some (last as)"
    "owner \<notin> Some ` set (tl as)" "bs \<noteq> [] \<longrightarrow> owner = Some (hd bs)"
    using lower_place_list [of s NULL "hd zs" "tl zs" owner, unfolded e, OF l] by blast
  have "hd zs = hd as" using c(1,2) by simp
  moreover have "set as = insert (hd as) (set (tl as))" using c(2) by (cases as) auto
  ultimately have "lowered_between owner as bs" using c False by (auto simp: lowered_between_def)
  then show ?thesis using that [of as bs] c(1-3) False by (simp add: last_or_def)
qed

text \<open>Taking the frame out, from the top or from within.\<close>

lemma lower_unlink:
  assumes ok: "lists_ok s L" and L: "L i = xs @ f # ys" and ne: "ys \<noteq> []"
  shows "\<exists>s1. (if top_of i s = Some (Some f)
       then do { s \<leftarrow> set_top i (first_or NULL ys) s; x \<leftarrow> first_or NULL ys; put (set_above NULL) x s }
       else unlink_frame f s) = Some s1 \<and> same_cores s s1 \<and> server s1 = server s \<and> bag_tops (stacking_list s1) (L(i := xs @ ys)) \<and>
    linked (stackings s1) NULL (xs @ ys) NULL \<and> (\<forall>x. x \<notin> set (xs @ ys) \<longrightarrow> stackings s1 x = stackings s x)"
proof -
  obtain s1 where s1: "unlink_frame f s = Some s1" "same_cores s s1" "server s1 = server s" "stacking_list s1 = stacking_list s"
    "linked (stackings s1) NULL (xs @ ys) NULL" "\<forall>x. x \<notin> set (xs @ ys) \<longrightarrow> stackings s1 x = stackings s x"
    using unlink_frame_ok [OF ok L] by blast
  have top: "top_of i s = Some (first_or NULL (xs @ [f]))"
    using get_top [OF ok, of i] L by (cases xs) simp_all
  show ?thesis
  proof (cases xs)
    case (Cons x xs')
    have "bag_tops (stacking_list s1) (L(i := xs @ ys))" unfolding s1(4)
      by (rule bag_tops_cong [OF lists_okD(1) [OF ok]]) (use L Cons in auto)
    moreover have "x \<noteq> f" using lists_okD(3) [OF ok, of i] L Cons by auto
    ultimately show ?thesis using s1 top Cons by simp
  next
    case Nil
    obtain y ys' where y: "ys = y # ys'" using ne by (cases ys) auto
    have f: "get above f s = Some NULL" "get under f s = Some (Some y)"
      using linked_at [of "stackings s" NULL "[]" f ys NULL] lists_okD(2) [OF ok, of i] L Nil y by (auto simp: get_eq)
    have p: "put (set_above NULL) y s = Some s1"
      using s1(1) f by (auto simp: unlink_frame_def put_if_def split: Option.bind_splits)
    obtain b where b: "set_top i (Some y) s = Some (s\<lparr>stacking_list := b\<rparr>)" "bag_tops b (L(i := y # ys'))"
      using set_top_ok [OF lists_okD(1) [OF ok], of i y] by blast
    have "put (set_above NULL) y (s\<lparr>stacking_list := b\<rparr>) = Some (s1\<lparr>stacking_list := b\<rparr>)"
      using p by (auto simp: put_def split: Option.bind_splits)
    then show ?thesis using b s1 top Nil y by (intro exI [of _ "s1\<lparr>stacking_list := b\<rparr>"]) (simp add: same_cores_def)
  qed
qed

lemma wLowerFrame_bottom:
  assumes "lists_ok s L" "L i = xs @ f # ys" "ys = [] \<or> get child_of f s = Some (Some (hd ys))"
  shows "wLowerFrame X f s = Some s"
  using linked_at [of "stackings s" NULL xs f ys NULL] lists_okD(2) [OF assms(1), of i] lists_okD(4) [OF assms(1), of f i] assms(2,3)
  by (auto simp: wLowerFrame_def get_eq first_or_def split: list.splits)

lemma wLowerFrame_ok:
  assumes ok: "screen_ok ord s L" and X: "xlib_documented X ord" and L: "L i = xs @ f # ys"
    and ys: "ys \<noteq> []" "get child_of f s = Some owner" "owner \<noteq> Some (hd ys)"
  shows "\<exists>s' as bs. wLowerFrame X f s = Some s' \<and> xs @ ys = as @ bs \<and> lowered_between owner as bs \<and>
    same_cores s s' \<and> screen_ok ord s' (L(i := as @ f # bs))"
proof -
  note ok0 = screen_okD(1) [OF ok]
  have l: "linked (stackings s) NULL (xs @ f # ys) NULL" and d: "distinct (xs @ f # ys)"
    using lists_okD(2) [OF ok0, of i] lists_okD(3) [OF ok0, of i] L by simp_all
  have f: "get window_level f s = Some i" "get under f s = Some (first_or NULL ys)" "frames s f \<noteq> None"
    using lists_okD(4) [OF ok0, of f i] L linked_at [OF l] linked_frames [OF l, of f] by (auto simp: get_eq)
  have u: "first_or NULL ys = Some (hd ys)" using ys(1) by (cases ys) auto
  obtain s1 where s1: "(if top_of i s = Some (Some f)
       then do { s \<leftarrow> set_top i (first_or NULL ys) s; x \<leftarrow> first_or NULL ys; put (set_above NULL) x s }
       else unlink_frame f s) = Some s1" "same_cores s s1" "server s1 = server s" "bag_tops (stacking_list s1) (L(i := xs @ ys))"
    "linked (stackings s1) NULL (xs @ ys) NULL" "\<forall>x. x \<notin> set (xs @ ys) \<longrightarrow> stackings s1 x = stackings s x"
    using lower_unlink [OF ok0 L ys(1)] by blast
  obtain as bs where c: "xs @ ys = as @ bs" "lowered_between owner as bs"
    "(if owner \<noteq> Some (hd (xs @ ys)) then map_option Some (lower_place s1 owner (hd (xs @ ys))) else Some (Some (hd (xs @ ys)))) = Some (last_or NULL as)"
    using lowered_place [OF s1(5), of owner] ys(1) by blast
  have as: "as \<noteq> []" using c(2) by (simp add: lowered_between_def)
  have "distinct (xs @ ys)" "f \<notin> set (xs @ ys)" using d by auto
  then have fx: "f \<notin> set (as @ bs)" and d': "distinct (as @ f # bs)" and d2: "distinct (as @ bs)" unfolding c(1) by auto
  have al: "frames s1 f \<noteq> None" using f(3) same_coresD(3) [OF s1(2)] by simp
  obtain t1 t2 t3 t4 where w: "put (set_above (last_or NULL as)) f s1 = Some t1" "put (set_under (first_or NULL bs)) f t1 = Some t2"
    "put_if (set_above (Some f)) (first_or NULL bs) t2 = Some t3" "put_if (set_under (Some f)) (last_or NULL as) t3 = Some t4"
    "linked_in s1 as f bs t4" "\<exists>fr. t4 = s1\<lparr>frames := fr\<rparr>" "\<forall>x. x \<noteq> f \<longrightarrow> stackings t1 x = stackings s1 x" "stacking_list t3 = stacking_list s1"
    using link_steps [OF s1(5) [unfolded c(1)] al fx d2] by blast
  have t4: "stacking_list t4 = stacking_list s1" "server t4 = server s" "window_count t4 = window_count s1" "stack_context t4 = stack_context s1"
    using w(6) s1(3) by auto
  have top: "top_of i s1 = Some (Some (hd (xs @ ys)))"
    using bag_tops_get [OF s1(4), of i] ys(1) by (cases "xs @ ys") (auto simp: top_of_def)
  let ?w = "last as"
  have lw: "last_or NULL as = Some ?w" using as by (simp add: last_or_def)
  have "?w \<noteq> f" using fx as by auto
  moreover have "get under ?w s1 = Some (first_or NULL bs)"
  proof -
    have "butlast as @ ?w # bs = as @ bs" using append_butlast_last_id [OF as] by (metis append.assoc append_Cons append_Nil)
    then have "linked (stackings s1) NULL (butlast as @ ?w # bs) NULL" using s1(5) unfolding c(1) by (simp only:)
    from linked_at [OF this] show ?thesis by (auto simp: get_eq)
  qed
  ultimately have v: "get under ?w t1 = Some (first_or NULL bs)" using w(7) by (simp add: get_eq)
  have r: "wLowerFrame X f s = do { s \<leftarrow> place X (XLowerWindow X) f i t4; Some (notifyStackChange f ''lower'' s) }"
  proof -
    obtain tp where tp: "top_of i s = Some tp" using get_top [OF ok0, of i] by blast
    note facts = f(1,2) u ys(2,3) top c(3) w(1-4) v lw tp
    show ?thesis
    proof (cases "tp = Some f")
      case True
      then obtain m where "set_top i (Some (hd ys)) s = Some m" "put (set_above NULL) (hd ys) m = Some s1"
        using s1(1) tp u by (auto split: Option.bind_splits)
      then show ?thesis using facts True by (simp add: wLowerFrame_def put_if_def [of _ "Some ?w"])
    next
      case False
      then have "unlink_frame f s = Some s1" using s1(1) tp by simp
      then show ?thesis using facts False by (simp add: wLowerFrame_def put_if_def [of _ "Some ?w"])
    qed
  qed
  let ?L = "L(i := as @ f # bs)"
  have bag: "bag_tops (stacking_list t4) ?L"
    unfolding t4 by (rule bag_tops_cong [OF s1(4)]) (use c(1) as in \<open>cases as; auto\<close>)
  have z: "set (as @ f # bs) = set (L i)"
  proof -
    have "set (as @ f # bs) = insert f (set (as @ bs))" by simp
    also have "\<dots> = set (L i)" unfolding c(1) [symmetric] L by simp
    finally show ?thesis .
  qed
  have ok': "lists_ok t4 ?L" "same_cores s t4"
  proof -
    have sub: "set (as @ bs) \<subseteq> set (L i)" "set (L i) \<subseteq> set (as @ f # bs)" unfolding z [symmetric] by auto
    have other: "stackings s1 x = stackings s x" if "x \<notin> set (L i)" for x using s1(6) that L by simp
    show "lists_ok t4 ?L" "same_cores s t4"
      by (rule relink_ok [OF ok0 s1(2) s1(5) [unfolded c(1)] f(3,1) sub(1) d' other w(5) t4(3,4) bag sub(2)]; assumption)+
  qed
  have "agrees {f} ord t4 ?L"
  proof (rule agrees_move [OF ok0 screen_okD(2) [OF ok] z _ _ _ t4(2)])
    have "filter (\<lambda>x. x \<notin> {f}) (as @ f # bs) = filter (\<lambda>x. x \<notin> {f}) (as @ bs)" by simp
    also have "\<dots> = filter (\<lambda>x. x \<notin> {f}) (L i)" unfolding c(1) [symmetric] L by simp
    finally show "filter (\<lambda>x. x \<notin> {f}) (as @ f # bs) = filter (\<lambda>x. x \<notin> {f}) (L i)" .
  qed (use L in auto)
  then obtain v where v: "place X (XLowerWindow X) f i t4 = Some (t4\<lparr>server := v\<rparr>)" "agrees {} ord (t4\<lparr>server := v\<rparr>) ?L"
    using place_ok [OF ok'(1), of i as f bs "{}" ord X "XLowerWindow X"] as X by auto
  let ?s = "notifyStackChange f ''lower'' (t4\<lparr>server := v\<rparr>)"
  have "same_cores s ?s" using ok'(2) by (simp add: same_cores_def notifyStackChange_def post_def)
  moreover have "screen_ok ord ?s ?L"
  proof (rule screen_ok_move [OF ok calculation _ _ z])
    show "lists_ok ?s ?L" by (rule lists_ok_same [OF ok'(1)]) (simp_all add: notifyStackChange_def post_def)
    show "agrees {} ord ?s ?L" using v(2) by (simp add: agrees_def notifyStackChange_def post_def)
  qed
  ultimately show ?thesis using r v(1) c by (intro exI [of _ ?s] exI [of _ as] exI [of _ bs]) simp
qed

section \<open>Raising, and changing the level\<close>

definition owners :: "'x WScreen \<Rightarrow> (nat \<times> nat) set" where
  "owners s = transients s UNIV"

lemma transients_sub: "transients s S \<subseteq> owners s"
  by (auto simp: transients_def owners_def)

lemma owners_same: "(\<And>x. map_option core (frames s' x) = map_option core (frames s x)) \<Longrightarrow> owners s' = owners s"
proof -
  assume "\<And>x. map_option core (frames s' x) = map_option core (frames s x)"
  then have "map_option (fst \<circ> snd) (map_option core (frames s' x)) = map_option (fst \<circ> snd) (map_option core (frames s x))" for x
    by simp
  then have "get child_of x s' = get child_of x s" for x by (simp add: get_def option.map_comp comp_def core_def)
  then show ?thesis by (simp add: owners_def transients_def)
qed

lemma wRaiseFrame_ok:
  assumes ok: "screen_ok ord s L" and X: "xlib_documented X ord" and acyc: "acyclic (owners s)"
    and f: "f \<in> set (L i)" "hd (L i) \<noteq> f"
  shows "\<exists>s' ds. wRaiseFrame X f s = Some s' \<and> raised (transients s (set (L i))) f ds \<and> same_cores s s' \<and>
    screen_ok ord s' (L(i := raised_order f ds (L i))) \<and> set (raised_order f ds (L i)) = set (L i)"
proof -
  let ?R = "transients s (set (L i))"
  have "acyclic ?R" by (rule acyclic_subset [OF acyc transients_sub])
  moreover have "finite ?R" by (simp add: transients_finite)
  moreover have "can_raise ?R i (set (L i)) ord f {} s L" using screen_okD(1,2) [OF ok] f(1) by (simp add: can_raise_def)
  ultimately have "has_raised ?R i ord f {} s L (raise X False f s)" using raise_ok [OF X] f(2) by blast
  then obtain s' ds where r: "raise X False f s = Some s'" "raised ?R f ds" "same_cores s s'"
    "lists_ok s' (L(i := raised_order f ds (L i)))" "agrees {} ord s' (L(i := raised_order f ds (L i)))"
    unfolding has_raised_def by blast
  have z: "set (raised_order f ds (L i)) = set (L i)"
    using raised_set [OF r(2) refl] f(1) by (auto simp: raised_order_def)
  then show ?thesis using screen_ok_move [OF ok r(3,4,5)] r by (auto simp: wRaiseFrame_def)
qed

text \<open>The level of a frame that is in no list may change.\<close>

lemma put_level_ok:
  assumes ok: "screen_ok ord s L" and f: "f \<notin> frames_of L" "frames s f \<noteq> None"
  shows "\<exists>s'. put (window_level_update (\<lambda>_. n)) f s = Some s' \<and> screen_ok ord s' L \<and> get window_level f s' = Some n \<and>
    owners s' = owners s \<and> server s' = server s"
proof -
  define s' where "s' = s\<lparr>frames := updf (window_level_update (\<lambda>_. n)) (Some f) (frames s)\<rparr>"
  have p: "put (window_level_update (\<lambda>_. n)) f s = Some s'" unfolding s'_def by (rule put_eq [OF f(2)])
  have st: "stackings s' x = (if x = f then map_option (window_level_update (\<lambda>_. n)) (stackings s x) else stackings s x)" for x
    by (simp add: s'_def stackings_updf upd_apply)
  have fL: "x \<noteq> f" if "x \<in> set (L i)" for x i using f(1) that by (auto simp: frames_of_def)
  have "linked (stackings s') NULL (L i) NULL" for i
    by (rule linked_frame [OF lists_okD(2) [OF screen_okD(1) [OF ok]]]) (use fL st in auto)
  moreover have "\<forall>x \<in> set (L i). get window_level x s' = Some i" for i
    using lists_okD(4) [OF screen_okD(1) [OF ok], of _ i] fL st by (simp add: get_eq)
  ultimately have "lists_ok s' L" using screen_okD(1) [OF ok] by (simp add: lists_ok_def s'_def)
  then have "screen_ok ord s' L" using screen_okD(2-4) [OF ok] by (simp add: screen_ok_def agrees_def s'_def)
  moreover have "get window_level f s' = Some n" using f(2) st [of f] by (auto simp: get_eq stackings_def)
  moreover have "get child_of x s' = get child_of x s" for x using st [of x] by (cases "stackings s x") (auto simp: get_eq)
  then have "owners s' = owners s" by (simp add: owners_def transients_def)
  moreover have "server s' = server s" by (simp add: s'_def)
  ultimately show ?thesis using p by blast
qed

lemma raise_or_lower_ok:
  assumes ok: "screen_ok ord s L" and X: "xlib_documented X ord" and acyc: "acyclic (owners s)" and f: "f \<in> set (L i)"
  shows "\<exists>s' zs. (if up then wRaiseFrame X f s else wLowerFrame X f s) = Some s' \<and> set zs = set (L i) \<and>
    screen_ok ord s' (L(i := zs)) \<and> same_cores s s'"
proof (cases up)
  case True
  show ?thesis
  proof (cases "hd (L i) = f")
    case hd: True
    then obtain ys where "L i = f # ys" using f by (cases "L i") auto
    then have "wRaiseFrame X f s = Some s" by (rule raise_top_frame [OF screen_okD(1) [OF ok]])
    then show ?thesis using True ok same_cores_refl by (intro exI [of _ s] exI [of _ "L i"]) simp
  next
    case False
    then show ?thesis using wRaiseFrame_ok [OF ok X acyc f] True by (simp only: if_True) blast
  qed
next
  case False
  obtain xs ys where L: "L i = xs @ f # ys" using split_list [OF f] by blast
  have "frames s f \<noteq> None" using linked_frames [OF lists_okD(2) [OF screen_okD(1) [OF ok]] f] .
  then obtain owner where o: "get child_of f s = Some owner" by (auto simp: get_def)
  show ?thesis
  proof (cases "ys = [] \<or> owner = Some (hd ys)")
    case True
    then have "wLowerFrame X f s = Some s" by (intro wLowerFrame_bottom [OF screen_okD(1) [OF ok] L]) (use o in auto)
    then show ?thesis using False ok same_cores_refl by (intro exI [of _ s] exI [of _ "L i"]) simp
  next
    case 2: False
    obtain s' as bs where "wLowerFrame X f s = Some s'" "xs @ ys = as @ bs" "same_cores s s'" "screen_ok ord s' (L(i := as @ f # bs))"
      using wLowerFrame_ok [OF ok X L _ o] 2 by blast
    moreover have "set (as @ f # bs) = set (L i)" using arg_cong [OF calculation(2), of "\<lambda>l. insert f (set l)"] by (simp add: L)
    ultimately show ?thesis using False by (intro exI [of _ s'] exI [of _ "as @ f # bs"]) simp
  qed
qed

lemma ChangeStackingLevel_ok:
  assumes ok: "screen_ok ord s L" and X: "xlib_documented X ord" and acyc: "acyclic (owners s)"
    and L: "L i = xs @ f # ys" "xs @ ys \<noteq> []" and n: "short n = n" "n \<noteq> i"
  shows "\<exists>s' zs. ChangeStackingLevel X f n s = Some s' \<and> set zs = insert f (set (L n)) \<and>
    screen_ok ord s' (L(i := xs @ ys, n := zs))"
proof -
  note ok0 = screen_okD(1) [OF ok]
  have f: "get window_level f s = Some i" using lists_okD(4) [OF ok0, of f i] L by simp
  have F: "f \<in> frames_of L" using L by (auto simp: frames_of_split [of L i])
  obtain s1 where s1: "RemoveFromStackList f s = Some s1" "screen_ok ord s1 (L(i := xs @ ys))"
    "\<And>x. map_option core (frames s1 x) = map_option core (frames s x)" "server s1 = server s"
    using RemoveFromStackList_ok [OF ok L] by blast
  let ?L1 = "L(i := xs @ ys)"
  have d: "distinct (xs @ f # ys)" using lists_okD(3) [OF ok0, of i] L by simp
  have f1: "f \<notin> frames_of ?L1" using d other_levels [OF ok0, of f i] L by (simp add: frames_of_upd)
  have al: "frames s1 f \<noteq> None" using s1(3) [of f] f by (auto simp: get_def)
  obtain s2 where s2: "put (window_level_update (\<lambda>_. short n)) f s1 = Some s2" "screen_ok ord s2 ?L1"
    "get window_level f s2 = Some (short n)" "owners s2 = owners s1" "server s2 = server s1"
    using put_level_ok [OF s1(2) f1 al] by blast
  have "f \<in> set (ord (server s2))" using screen_okD(2) [OF ok] F s1(4) s2(5) set_order [OF ok0] by (auto simp: agrees_def)
  then obtain s3 as bs where s3: "AddToStackList X f s2 = Some s3" "?L1 n = as @ bs" "screen_ok ord s3 (?L1(n := as @ f # bs))"
    "\<And>x. map_option core (frames s3 x) = map_option core (frames s2 x)"
    using AddToStackList_ok [OF s2(2) X f1] s2(3) n(1) by metis
  have "owners s3 = owners s" using owners_same [OF s3(4)] s2(4) owners_same [OF s1(3)] by simp
  then have ac: "acyclic (owners s3)" using acyc by simp
  obtain s4 zs where s4: "(if i > n then wRaiseFrame X f s3 else wLowerFrame X f s3) = Some s4"
    "set zs = set ((?L1(n := as @ f # bs)) n)" "screen_ok ord s4 (?L1(n := as @ f # bs, n := zs))"
    using raise_or_lower_ok [OF s3(3) X ac, of f n "i > n"] by auto
  have "ChangeStackingLevel X f n s = Some s4"
    using f n s1(1) s2(1) s3(1) s4(1) by (simp add: ChangeStackingLevel_def)
  moreover have "set zs = insert f (set (L n))" using s4(2) s3(2) n(2) by auto
  ultimately show ?thesis using s4(3) by auto
qed

section \<open>Reading the order from the server\<close>

lemma updf_commute: "p \<noteq> q \<Longrightarrow> updf f p (updf g q fr) = updf g q (updf f p fr)"
  by (rule ext) (auto simp: updf_def split: option.split)

lemma updf_same: "(\<And>n. f (g n) = g (f n)) \<Longrightarrow> updf f p (updf g p fr) = updf g p (updf f p fr)"
proof -
  assume "\<And>n. f (g n) = g (f n)"
  then show ?thesis by (cases p) (simp_all add: updf_def option.map_comp comp_def)
qed

text \<open>A step of the loop puts the frame on the top of its level.\<close>

lemma remake_step:
  assumes ok: "lists_ok s L" and w: "w \<notin> frames_of L" "frames s w \<noteq> None" "get window_level w s = Some i"
    and ctx: "stack_context s w = Some w"
  shows "\<exists>s'. remake_loop (w # ws) c s = remake_loop ws (c + 1) s' \<and> lists_ok s' (L(i := w # L i)) \<and> same_cores s s' \<and> server s' = server s"
proof -
  define t where "t = first_or NULL (L i)"
  have l: "linked (stackings s) NULL (L i) NULL" by (rule lists_okD(2) [OF ok])
  have al: "frames s x \<noteq> None" if "t = Some x" for x
    using linked_frames [OF l, of x] that first_or_in [of "L i" x] by (simp add: t_def)
  have wL: "w \<notin> set (L i)" using w(1) by (auto simp: frames_of_split [of L i])
  then have tw: "t \<noteq> Some w" using first_or_in [of "L i" w] by (auto simp: t_def)
  define s1 where "s1 = s\<lparr>frames := updf (set_above (Some w)) t (frames s)\<rparr>"
  define s2 where "s2 = s1\<lparr>frames := updf (set_under t) (Some w) (frames s1)\<rparr>"
  define s3 where "s3 = s2\<lparr>frames := updf (set_above NULL) (Some w) (frames s2)\<rparr>"
  have p1: "put_if (set_above (Some w)) t s = Some s1" unfolding s1_def by (rule put_if_eq) (use al in simp)
  have p2: "put (set_under t) w s1 = Some s2" unfolding s2_def by (rule put_eq) (use w(2) in \<open>simp add: s1_def\<close>)
  have p3: "put (set_above NULL) w s2 = Some s3" unfolding s3_def by (rule put_eq) (use w(2) in \<open>simp add: s2_def s1_def\<close>)
  obtain b where b: "set_top i (Some w) s3 = Some (s3\<lparr>stacking_list := b\<rparr>)" "\<And>xs. bag_tops b (L(i := w # xs))"
    using set_top_ok [of s3 L i w] lists_okD(1) [OF ok] by (auto simp: s3_def s2_def s1_def)
  let ?s = "s3\<lparr>stacking_list := b\<rparr>"
  have r: "remake_loop (w # ws) c s = remake_loop ws (c + 1) ?s"
    using ctx w(3) get_top [OF ok, of i] p1 p2 p3 b(1) by (simp add: top_frame_first t_def [symmetric])
  have "frames ?s = updf (set_above NULL) (Some w) (updf (set_under t) (Some w) (updf (set_above (Some w)) t (frames s)))"
    by (simp add: s3_def s2_def s1_def)
  also have "\<dots> = updf (set_above (Some w)) t (updf (set_under t) (Some w) (updf (set_above NULL) (Some w) (frames s)))"
    using tw by (simp add: updf_commute [of "Some w" t] updf_same [of "set_above NULL" "set_under t" "Some w"])
  finally have li: "linked_in s [] w (L i) ?s" by (simp add: linked_in_def t_def updf_def [of _ NULL])
  have "lists_ok ?s (L(i := [] @ w # L i))"
    by (rule insert_ok(1) [OF ok _ w li]) (use b(2) in \<open>simp_all add: s3_def s2_def s1_def\<close>)
  moreover have "map_option core (frames ?s x) = map_option core (frames s x)" for x
    by (simp add: s3_def s2_def s1_def core_updf)
  then have "same_cores s ?s" by (simp add: same_cores_def s3_def s2_def s1_def)
  moreover have "server ?s = server s" by (simp add: s3_def s2_def s1_def)
  ultimately show ?thesis using r by auto
qed

text \<open>The frames with a context, by levels.\<close>

definition by_level :: "'x WScreen \<Rightarrow> nat list \<Rightarrow> lists" where
  "by_level s xs i = filter (\<lambda>x. stack_context s x \<noteq> None \<and> get window_level x s = Some i) xs"

lemma by_level_same: "same_cores s s' \<Longrightarrow> by_level s' xs = by_level s xs"
  by (rule ext) (simp add: by_level_def same_coresD)

lemma remake_loop_ok:
  assumes "lists_ok s L" "distinct ws" "set ws \<inter> frames_of L = {}"
    "\<And>w f. stack_context s w = Some f \<Longrightarrow> f = w \<and> frames s w \<noteq> None"
  shows "\<exists>s'. remake_loop ws c s = Some (s', c + int (length (filter (\<lambda>w. stack_context s w \<noteq> None) ws))) \<and>
    lists_ok s' (\<lambda>i. by_level s (rev ws) i @ L i) \<and> same_cores s s' \<and> server s' = server s"
  using assms
proof (induction ws arbitrary: s L c)
  case Nil
  then show ?case using same_cores_refl by (simp add: by_level_def)
next
  case (Cons w ws)
  show ?case
  proof (cases "stack_context s w")
    case None
    then have "by_level s (rev (w # ws)) i = by_level s (rev ws) i" for i by (simp add: by_level_def)
    then show ?thesis using Cons.IH [OF Cons.prems(1), of c] Cons.prems None by simp
  next
    case (Some f)
    then have f: "f = w" "frames s w \<noteq> None" using Cons.prems(4) by auto
    then obtain i where i: "get window_level w s = Some i" by (auto simp: get_def)
    obtain s1 where s1: "remake_loop (w # ws) c s = remake_loop ws (c + 1) s1" "lists_ok s1 (L(i := w # L i))" "same_cores s s1" "server s1 = server s"
      using remake_step [OF Cons.prems(1) _ f(2) i, of ws c] Some f(1) Cons.prems(3) by auto
    note sc = same_coresD [OF s1(3)]
    have dis: "set ws \<inter> frames_of (L(i := w # L i)) = {}"
      using Cons.prems(2,3) by (auto simp: frames_of_upd frames_of_split [of L i])
    have ctx: "f = w \<and> frames s1 w \<noteq> None" if "stack_context s1 w = Some f" for w f
      using Cons.prems(4) [of w f] that sc(3,6) by simp
    have "distinct ws" using Cons.prems(2) by simp
    then obtain s2 where s2: "remake_loop ws (c + 1) s1 = Some (s2, c + 1 + int (length (filter (\<lambda>w. stack_context s1 w \<noteq> None) ws)))"
      "lists_ok s2 (\<lambda>j. by_level s1 (rev ws) j @ (L(i := w # L i)) j)" "same_cores s1 s2" "server s2 = server s1"
      using Cons.IH [OF s1(2) _ dis ctx, of "c + 1"] by blast
    have "by_level s1 (rev ws) j @ (L(i := w # L i)) j = by_level s (rev (w # ws)) j @ L j" for j
      unfolding by_level_same [OF s1(3)] using Some i by (simp add: by_level_def)
    then have "lists_ok s2 (\<lambda>j. by_level s (rev (w # ws)) j @ L j)" using s2(2) by simp
    then show ?thesis using s1(1,4) s2(1,3,4) same_cores_trans [OF s1(3)] Some sc(6) by simp
  qed
qed

lemma RemakeStackList_ok:
  assumes X: "xlib_documented X ord" and q: "XQueryTree X (server s) = Some ws" and b: "bag_rep (stacking_list s) kvs"
    and ctx: "\<And>w f. stack_context s w = Some f \<Longrightarrow> f = w \<and> frames s w \<noteq> None \<and> w \<in> set (ord (server s))"
  shows "\<exists>s'. RemakeStackList X s = Some s' \<and> screen_ok ord s' (by_level s (ord (server s))) \<and>
    (\<forall>x. map_option core (frames s' x) = map_option core (frames s x)) \<and>
    server s' = XRestackWindows X (stack_order (by_level s (ord (server s)))) (server s)"
proof -
  let ?L = "by_level s (ord (server s))"
  have ws: "ws = rev (ord (server s))" "distinct (ord (server s))" using X q by (simp_all add: xlib_documented_def)
  obtain b' d where b': "WMEmptyBag (stacking_list s) = Some (b', d)" "bag_rep b' []"
    using WMEmptyBag_rep [OF b] by blast
  define s0 where "s0 = s\<lparr>stacking_list := b'\<rparr>"
  have ok0: "lists_ok s0 (\<lambda>_. [])" using b'(2) by (simp add: lists_ok_def bag_tops_def levels_def s0_def)
  have "f = w \<and> frames s0 w \<noteq> None" if "stack_context s0 w = Some f" for w f
    using ctx [of w f] that by (simp add: s0_def)
  then obtain s1 where s1: "remake_loop ws 0 s0 = Some (s1, int (length (filter (\<lambda>w. stack_context s0 w \<noteq> None) ws)))"
    "lists_ok s1 (\<lambda>i. by_level s0 (rev ws) i)" "same_cores s0 s1" "server s1 = server s0"
    using remake_loop_ok [OF ok0, of ws 0] ws by (auto simp: frames_of_def)
  have "by_level s0 (rev ws) = ?L" by (rule ext) (simp add: by_level_def ws get_def s0_def)
  then have ok1: "lists_ok s1 ?L" using s1(2) by simp
  define n where "n = int (length (filter (\<lambda>w. stack_context s0 w \<noteq> None) ws))"
  note loop = s1(1) [folded n_def]
  define s2 where "s2 = s1\<lparr>window_count := n\<rparr>"
  have ok2: "lists_ok s2 ?L" by (rule lists_ok_same [OF ok1]) (simp_all add: s2_def)
  have F: "frames_of ?L = {w. stack_context s w \<noteq> None}"
  proof (intro equalityI subsetI)
    fix w assume "w \<in> {w. stack_context s w \<noteq> None}"
    then obtain f where "stack_context s w = Some f" by auto
    moreover from this ctx have "frames s w \<noteq> None" "w \<in> set (ord (server s))" by blast+
    ultimately show "w \<in> frames_of ?L" by (auto simp: frames_of_def by_level_def get_def)
  qed (auto simp: frames_of_def by_level_def)
  have "card (frames_of ?L) = length (filter (\<lambda>w. stack_context s0 w \<noteq> None) ws)"
  proof -
    have "frames_of ?L = set (filter (\<lambda>w. stack_context s0 w \<noteq> None) ws)"
      unfolding F using ctx by (auto simp: ws s0_def)
    then show ?thesis using distinct_card [of "filter (\<lambda>w. stack_context s0 w \<noteq> None) ws"] ws by simp
  qed
  then have n: "window_count s2 = int (length (stack_order ?L))" using length_order [OF ok2] by (simp add: s2_def n_def)
  let ?s = "post ResetStacking (s2\<lparr>server := XRestackWindows X (stack_order ?L) (server s2)\<rparr>)"
  have "RemakeStackList X s = Some ?s"
    using q b'(1) loop CommitStacking_ok [OF ok2] n by (simp add: RemakeStackList_def s0_def [symmetric] s2_def [symmetric])
  moreover have "agrees {} ord ?s ?L"
  proof -
    have "set (stack_order ?L) \<subseteq> set (ord (server s2))"
      unfolding set_order [OF ok2] F using ctx s1(4) by (auto simp: s2_def s0_def)
    then show ?thesis using agrees_commit [OF ok2 X] by (simp add: agrees_def post_def)
  qed
  moreover have "lists_ok ?s ?L" by (rule lists_ok_same [OF ok2]) (simp_all add: post_def)
  moreover have "stack_context ?s x = (if x \<in> frames_of ?L then Some x else None)" for x
  proof -
    have "stack_context ?s x = stack_context s x" using same_coresD(6) [OF s1(3)] by (simp add: post_def s2_def s0_def)
    then show ?thesis unfolding F using ctx [of x] by (cases "stack_context s x") auto
  qed
  moreover have "window_count ?s = int (length (stack_order ?L))" using n by (simp add: post_def)
  ultimately have "screen_ok ord ?s ?L" by (simp add: screen_ok_def)
  moreover have "map_option core (frames ?s x) = map_option core (frames s x)" for x
    using s1(3) by (simp add: same_cores_def post_def s2_def s0_def)
  moreover have "server ?s = XRestackWindows X (stack_order ?L) (server s)" using s1(4) by (simp add: post_def s2_def s0_def)
  ultimately show ?thesis using \<open>RemakeStackList X s = Some ?s\<close> by blast
qed

end
