(* ===== verification/WMStackingSpec.thy ===== *)
theory WMStackingSpec
  imports WMStackingScreen
begin

text \<open>
  The properties of the window stacking, over any X server that does what the manual of Xlib says, and
  a server for which they are not empty.
\<close>

section \<open>A server\<close>

text \<open>A server that keeps the windows in a list, from the top, and does what the manual says.\<close>

definition list_server :: "(nat list) xlib" where
  "list_server = \<lparr>XRestackWindows = \<lambda>ws x. restack ws (remdups x), XRaiseWindow = \<lambda>w x. w # filter (\<lambda>y. y \<noteq> w) (remdups x),
     XLowerWindow = \<lambda>w x. filter (\<lambda>y. y \<noteq> w) (remdups x) @ [w], XQueryTree = \<lambda>x. Some (rev (remdups x))\<rparr>"

lemma set_insert_after_sub: "set (insert_after w v xs) \<subseteq> insert v (set xs)"
  by (induction xs) auto

lemma distinct_insert_after: "distinct xs \<Longrightarrow> v \<notin> set xs \<Longrightarrow> distinct (insert_after w v xs)"
proof (induction xs)
  case (Cons x xs)
  then have "x \<notin> set (insert_after w v xs)" using set_insert_after_sub [of w v xs] by auto
  then show ?case using Cons by auto
qed simp

lemma distinct_restack: "distinct xs \<Longrightarrow> distinct (restack ws xs)"
  by (induction ws xs rule: restack.induct) (simp_all add: place_below_def distinct_insert_after)

lemma list_server_documented: "xlib_documented list_server remdups"
  unfolding xlib_documented_def
proof (intro allI conjI ballI impI)
  fix x :: "nat list" and w :: nat assume "w \<in> set (remdups x)"
  show "remdups (XRaiseWindow list_server w x) = w # filter (\<lambda>y. y \<noteq> w) (remdups x)"
    by (simp add: list_server_def distinct_remdups_id)
  have "distinct (filter (\<lambda>y. y \<noteq> w) (remdups x) @ [w])" by simp
  then show "remdups (XLowerWindow list_server w x) = filter (\<lambda>y. y \<noteq> w) (remdups x) @ [w]"
    unfolding list_server_def by (simp only: xlib.simps distinct_remdups_id)
next
  fix x ws :: "nat list"
  show "remdups (XRestackWindows list_server ws x) = restack ws (remdups x)"
    by (simp add: list_server_def distinct_remdups_id distinct_restack)
  show "ws = rev (remdups x)" if "XQueryTree list_server x = Some ws" using that by (simp add: list_server_def)
qed simp

lemma restack_keeps: "x \<in> set xs \<Longrightarrow> x \<notin> set ws \<Longrightarrow> x \<in> set (restack ws xs)"
proof (induction ws xs rule: restack.induct)
  case (1 w v vs xs)
  have "set ys \<subseteq> set (insert_after w v ys)" for ys by (induction ys) auto
  then have "x \<in> set (place_below w v xs)" using 1(2,3) unfolding place_below_def by fastforce
  then show ?case using 1 by simp
qed simp_all

text \<open>
  A screen with the frames 10, 2, 3 and 4 on level 0 and 5 on level 3, where 3 is transient for 10, read from the
  order \<open>ws\<close> of the windows.
\<close>

definition sample_frame :: "int \<Rightarrow> nat ptr \<Rightarrow> WCoreWindow" where
  "sample_frame level owner = \<lparr>stacking = \<lparr>above = NULL, under = NULL, window_level = level, child_of = owner\<rparr>, parent = NULL\<rparr>"

definition raw_screen :: "nat list \<Rightarrow> nat list WScreen" where
  "raw_screen ws = \<lparr>frames = [10 \<mapsto> sample_frame 0 NULL, 2 \<mapsto> sample_frame 0 NULL, 3 \<mapsto> sample_frame 0 (Some 10),
       4 \<mapsto> sample_frame 0 NULL, 5 \<mapsto> sample_frame 3 NULL, 6 \<mapsto> sample_frame 0 (Some 2)],
     stacking_list = WMCreateTreeBagWithDestructor False, window_count = 0, stack_context = [10 \<mapsto> 10, 2 \<mapsto> 2, 3 \<mapsto> 3, 4 \<mapsto> 4, 5 \<mapsto> 5],
     server = ws, posted = []\<rparr>"

definition sample_screen :: "nat list \<Rightarrow> nat list WScreen" where
  "sample_screen ws = the (RemakeStackList list_server (raw_screen ws))"

definition sample_lists :: "nat list \<Rightarrow> lists" where
  "sample_lists ws i = (if i = 0 then filter (\<lambda>x. x \<in> {10, 2, 3, 4}) ws else if i = 3 then filter (\<lambda>x. x = 5) ws else [])"

lemma raw_get: "get f x (raw_screen ws) = (if x \<in> {10, 2, 4} then Some (f (stacking (sample_frame 0 NULL)))
    else if x = 3 then Some (f (stacking (sample_frame 0 (Some 10)))) else if x = 5 then Some (f (stacking (sample_frame 3 NULL)))
    else if x = 6 then Some (f (stacking (sample_frame 0 (Some 2)))) else None)"
  by (simp add: get_def raw_screen_def)

lemma sample_remake:
  assumes "distinct ws" "{10, 2, 3, 4, 5} \<subseteq> set ws"
  shows "\<exists>s'. RemakeStackList list_server (raw_screen ws) = Some s' \<and> screen_ok remdups s' (sample_lists ws) \<and>
    (\<forall>x. map_option core (frames s' x) = map_option core (frames (raw_screen ws) x)) \<and>
    server s' = XRestackWindows list_server (stack_order (sample_lists ws)) (server (raw_screen ws))"
proof -
  have b: "bag_rep (stacking_list (raw_screen ws)) []"
    by (simp add: raw_screen_def bag_rep_create)
  have q: "XQueryTree list_server (server (raw_screen ws)) = Some (rev ws)"
    using assms(1) by (simp add: list_server_def raw_screen_def distinct_remdups_id)
  have ctx: "f = w \<and> frames (raw_screen ws) w \<noteq> None \<and> w \<in> set (remdups (server (raw_screen ws)))"
    if "stack_context (raw_screen ws) w = Some f" for w f
    using that assms(2) by (auto simp: raw_screen_def split: if_splits)
  have l: "by_level (raw_screen ws) (remdups (server (raw_screen ws))) = sample_lists ws"
  proof (rule ext)
    fix i
    have "by_level (raw_screen ws) ws i = sample_lists ws i"
      unfolding by_level_def raw_get sample_lists_def
      by (auto simp: raw_screen_def sample_frame_def intro!: filter_cong)
    then show "by_level (raw_screen ws) (remdups (server (raw_screen ws))) i = sample_lists ws i"
      using assms(1) by (simp add: raw_screen_def distinct_remdups_id)
  qed
  show ?thesis using RemakeStackList_ok [OF list_server_documented q b ctx] unfolding l .
qed

lemma sample_ok:
  assumes "distinct ws" "{10, 2, 3, 4, 5} \<subseteq> set ws"
  shows "screen_ok remdups (sample_screen ws) (sample_lists ws)"
    "map_option core (frames (sample_screen ws) x) = map_option core (frames (raw_screen ws) x)"
  using sample_remake [OF assms] by (auto simp: sample_screen_def)

lemma sample_server:
  assumes "distinct ws" "{10, 2, 3, 4, 5} \<subseteq> set ws" "x \<in> set ws" "x \<notin> set (stack_order (sample_lists ws))"
  shows "x \<in> set (server (sample_screen ws))"
  using sample_remake [OF assms(1,2)] restack_keeps [OF assms(3), of "stack_order (sample_lists ws)"] assms
  by (auto simp: sample_screen_def list_server_def raw_screen_def distinct_remdups_id)

lemma sample_get:
  assumes "distinct ws" "{10, 2, 3, 4, 5} \<subseteq> set ws"
  shows "get child_of x (sample_screen ws) = get child_of x (raw_screen ws)"
    "get window_level x (sample_screen ws) = get window_level x (raw_screen ws)"
proof -
  have e: "map_option core (frames (sample_screen ws) x) = map_option core (frames (raw_screen ws) x)"
    by (rule sample_ok(2) [OF assms])
  have "map_option (fst \<circ> snd) (map_option core (frames (sample_screen ws) x)) = map_option (fst \<circ> snd) (map_option core (frames (raw_screen ws) x))"
    "map_option (snd \<circ> snd) (map_option core (frames (sample_screen ws) x)) = map_option (snd \<circ> snd) (map_option core (frames (raw_screen ws) x))"
    unfolding e by simp_all
  then show "get child_of x (sample_screen ws) = get child_of x (raw_screen ws)"
    "get window_level x (sample_screen ws) = get window_level x (raw_screen ws)"
    by (simp_all add: get_def option.map_comp comp_def core_def)
qed

lemma sample_owners:
  assumes "distinct ws" "{10, 2, 3, 4, 5} \<subseteq> set ws"
  shows "owners (sample_screen ws) = {(3, 10), (6, 2)}"
  unfolding owners_def transients_def sample_get(1) [OF assms] raw_get by (auto simp: sample_frame_def split: if_splits)

lemma sample_acyclic: "acyclic {(3, 10), (6, 2) :: nat \<times> nat}"
proof -
  have "(10, 3) \<notin> {(6, 2) :: nat \<times> nat}\<^sup>*" by (auto elim: converse_rtranclE)
  moreover have "acyclic ({} :: (nat \<times> nat) set)" by (simp add: acyclic_def)
  ultimately show ?thesis by simp
qed

section \<open>Properties\<close>

text \<open>
  C20: Raising a frame never fails, and unless the frame is the top of its level already it goes to the top
  together with everything transient for it, directly or not, and with nothing else: every owner among
  them is below its transients, the other frames keep their order, and the server has the windows in the order of
  the new lists. No cycle of transients is assumed.
\<close>

theorem raise_restacks_family:
  assumes "screen_ok ord s L" "xlib_documented X ord" "acyclic (owners s)" "f \<in> set (L i)"
  shows "\<exists>s'. wRaiseFrame X f s = Some s' \<and>
    (if hd (L i) = f then s' = s
     else \<exists>ds. set ds = {x. (x, f) \<in> (transients s (set (L i)))\<^sup>+} \<and> families (transients s (set (L i))) (ds @ [f]) \<and>
       screen_ok ord s' (L(i := ds @ f # filter (\<lambda>x. x \<noteq> f \<and> x \<notin> set ds) (L i))))"
proof (cases "hd (L i) = f")
  case True
  then obtain ys where "L i = f # ys" using assms(4) by (cases "L i") auto
  then show ?thesis using raise_top_frame [OF screen_okD(1) [OF assms(1)]] True by simp
next
  case False
  then show ?thesis
    using wRaiseFrame_ok [OF assms False] unfolding raised_def raised_order_def by (simp only: if_False) blast
qed

theorem raise_restacks_family_witness:
  "\<exists>s'. wRaiseFrame list_server 10 (sample_screen [7, 5, 4, 3, 10, 2]) = Some s' \<and>
    screen_ok remdups s' ((sample_lists [7, 5, 4, 3, 10, 2])(0 := [3, 10, 4, 2]))"
proof -
  let ?ws = "[7, 5, 4, 3, 10, 2] :: nat list" and ?s = "sample_screen [7, 5, 4, 3, 10, 2]" and ?L = "sample_lists [7, 5, 4, 3, 10, 2]"
  have L: "?L 0 = [4, 3, 10, 2]" by (simp add: sample_lists_def)
  have ws: "distinct ?ws" "{10, 2, 3, 4, 5} \<subseteq> set ?ws" by auto
  have R: "transients ?s (set (?L 0)) = {(3, 10)}"
    unfolding transients_def sample_get(1) [OF ws] raw_get by (auto simp: sample_frame_def L split: if_splits)
  have T: "{x. (x, 10) \<in> ({(3, 10)} :: (nat \<times> nat) set)\<^sup>+} = {3}" by (simp add: trancl_id trans_def)
  have ac: "acyclic (owners ?s)" unfolding sample_owners [OF ws] by (rule sample_acyclic)
  obtain s' ds where r: "wRaiseFrame list_server 10 ?s = Some s'" "set ds = {3}"
    "screen_ok remdups s' (?L(0 := ds @ 10 # filter (\<lambda>x. x \<noteq> 10 \<and> x \<notin> set ds) (?L 0)))"
    using raise_restacks_family [OF sample_ok(1) [OF ws] list_server_documented ac, of 10 0] unfolding R T by (auto simp: L)
  have "distinct (ds @ 10 # filter (\<lambda>x. x \<noteq> 10 \<and> x \<notin> set ds) (?L 0))"
    using lists_okD(3) [OF screen_okD(1) [OF r(3)], of 0] by simp
  then have "length ds = card (set ds)" by (simp add: distinct_card)
  then have "length ds = 1" using r(2) by simp
  then obtain d where "ds = [d]" by (cases ds) auto
  then have "ds = [3]" using r(2) by simp
  then show ?thesis using r(1,3) by (simp add: L)
qed

text \<open>
  C21: Lowering a frame that is at the bottom of its level, or directly above its owner, changes nothing. Otherwise the frame
  goes to the bottom of its level or, when its owner is in the level, directly above the owner; except that it goes
  directly under the owner when that is the top of the level. The others keep their order, and the server follows.
\<close>

theorem lower_places_frame:
  assumes "screen_ok ord s L" "xlib_documented X ord" "L i = xs @ f # ys" "get child_of f s = Some owner"
  shows "\<exists>s'. wLowerFrame X f s = Some s' \<and>
    (if ys = [] \<or> owner = Some (hd ys) then s' = s
     else if owner = Some (hd (xs @ ys)) then screen_ok ord s' (L(i := hd xs # f # tl xs @ ys)) \<and> owner = Some (hd xs)
     else \<exists>as bs. xs @ ys = as @ bs \<and> owner \<notin> Some ` set as \<and> (bs \<noteq> [] \<longrightarrow> owner = Some (hd bs)) \<and>
       screen_ok ord s' (L(i := as @ f # bs)))"
proof (cases "ys = [] \<or> owner = Some (hd ys)")
  case True
  then show ?thesis using wLowerFrame_bottom [OF screen_okD(1) [OF assms(1)] assms(3)] assms(4) by auto
next
  case False
  then obtain s' as bs where r: "wLowerFrame X f s = Some s'" "xs @ ys = as @ bs" "lowered_between owner as bs" "screen_ok ord s' (L(i := as @ f # bs))"
    using wLowerFrame_ok [OF assms(1-3) _ assms(4)] by blast
  have "as \<noteq> []" using r(3) by (simp add: lowered_between_def)
  then have h: "hd (xs @ ys) = hd as" unfolding r(2) by simp
  show ?thesis
  proof (cases "owner = Some (hd (xs @ ys))")
    case True
    then have a: "as = [hd as]" using r(3) h \<open>as \<noteq> []\<close> by (cases as) (simp_all add: lowered_between_def)
    have x: "xs \<noteq> []" using True False by auto
    then have e: "hd xs = hd as" "tl xs @ ys = bs" using h r(2) a by (cases xs; cases as; simp)+
    have "as @ f # bs = hd xs # f # tl xs @ ys" using a e by (cases as) simp_all
    then show ?thesis using r(1,4) True False x by simp
  qed (use r False h in \<open>auto simp: lowered_between_def\<close>)
qed

theorem lower_places_frame_witness:
  "\<exists>s' as bs. wLowerFrame list_server 3 (sample_screen [5, 3, 4, 2, 10]) = Some s' \<and> [4, 2, 10] = as @ bs \<and>
     (bs \<noteq> [] \<longrightarrow> hd bs = 10) \<and> 10 \<notin> set as \<and> screen_ok remdups s' ((sample_lists [5, 3, 4, 2, 10])(0 := as @ 3 # bs))"
proof -
  let ?ws = "[5, 3, 4, 2, 10] :: nat list"
  have ws: "distinct ?ws" "{10, 2, 3, 4, 5} \<subseteq> set ?ws" by auto
  have o: "get child_of 3 (sample_screen ?ws) = Some (Some 10)"
    unfolding sample_get(1) [OF ws] raw_get by (simp add: sample_frame_def)
  have L: "sample_lists ?ws 0 = [] @ 3 # [4, 2, 10]" by (simp add: sample_lists_def)
  show ?thesis
    using lower_places_frame [OF sample_ok(1) [OF ws] list_server_documented L o] by (auto simp: image_iff)
qed

text \<open>
  The code means to keep a transient above its owner, but when the owner is the top of the level,
  lowering its transient puts the transient directly under the owner: below it, and above
  all the frames that were above the transient before.
\<close>

theorem lower_puts_transient_below_owner:
  assumes "screen_ok ord s L" "xlib_documented X ord" "L i = p # xs @ f # ys" "ys \<noteq> []" "get child_of f s = Some (Some p)"
  shows "\<exists>s'. wLowerFrame X f s = Some s' \<and> screen_ok ord s' (L(i := p # f # xs @ ys))"
proof -
  have "distinct (p # xs @ f # ys)" using lists_okD(3) [OF screen_okD(1) [OF assms(1)], of i] assms(3) by simp
  then have "Some p \<noteq> Some (hd ys)" using assms(4) by (cases ys) auto
  moreover have "L i = (p # xs) @ f # ys" using assms(3) by simp
  ultimately obtain s' as bs where r: "wLowerFrame X f s = Some s'" "(p # xs) @ ys = as @ bs" "lowered_between (Some p) as bs"
    "screen_ok ord s' (L(i := as @ f # bs))"
    using wLowerFrame_ok [OF assms(1,2) _ assms(4,5)] by blast
  have "as \<noteq> []" using r(3) by (simp add: lowered_between_def)
  then have "as = [p]" "bs = xs @ ys" using r(2,3) by (cases as; auto simp: lowered_between_def)+
  then show ?thesis using r(1,4) by auto
qed

theorem lower_puts_transient_below_owner_witness:
  "\<exists>s'. wLowerFrame list_server 3 (sample_screen [5, 10, 4, 3, 2]) = Some s' \<and>
     screen_ok remdups s' ((sample_lists [5, 10, 4, 3, 2])(0 := [10, 3, 4, 2]))"
proof -
  let ?ws = "[5, 10, 4, 3, 2] :: nat list"
  have ws: "distinct ?ws" "{10, 2, 3, 4, 5} \<subseteq> set ?ws" by auto
  have o: "get child_of 3 (sample_screen ?ws) = Some (Some 10)"
    unfolding sample_get(1) [OF ws] raw_get by (simp add: sample_frame_def)
  have L: "sample_lists ?ws 0 = 10 # [4] @ 3 # [2]" by (simp add: sample_lists_def)
  show ?thesis
    using lower_puts_transient_below_owner [OF sample_ok(1) [OF ws] list_server_documented L _ o] by simp
qed

text \<open>
  C22: A frame that is in no list is added to its level directly below the lowest of its transients, or on the top when
  the level has none; everything else keeps its place, and the server gets the order of the lists.
\<close>

theorem add_to_stack_list:
  assumes "screen_ok ord s L" "xlib_documented X ord" "f \<notin> frames_of L" "get window_level f s = Some i" "f \<in> set (ord (server s))"
  shows "\<exists>s' as bs. AddToStackList X f s = Some s' \<and> L i = as @ bs \<and> (as \<noteq> [] \<longrightarrow> get child_of (last as) s = Some (Some f)) \<and>
    (\<forall>x \<in> set bs. get child_of x s \<noteq> Some (Some f)) \<and> screen_ok ord s' (L(i := as @ f # bs))"
  using AddToStackList_ok [OF assms] unfolding added_between_def by blast

theorem add_to_stack_list_witness:
  "\<exists>s'. AddToStackList list_server 6 (sample_screen [6, 5, 10, 4, 3, 2]) = Some s' \<and>
     screen_ok remdups s' ((sample_lists [6, 5, 10, 4, 3, 2])(0 := [6, 10, 4, 3, 2]))"
proof -
  let ?ws = "[6, 5, 10, 4, 3, 2] :: nat list"
  have ws: "distinct ?ws" "{10, 2, 3, 4, 5} \<subseteq> set ?ws" by auto
  note ok = sample_ok(1) [OF ws]
  have n: "6 \<notin> frames_of (sample_lists ?ws)" by (auto simp: frames_of_def sample_lists_def split: if_splits)
  have l: "get window_level 6 (sample_screen ?ws) = Some 0"
    unfolding sample_get(2) [OF ws] raw_get by (simp add: sample_frame_def)
  have c: "get child_of x (sample_screen ?ws) \<noteq> Some (Some 6)" for x
    unfolding sample_get(1) [OF ws] raw_get by (simp add: sample_frame_def)
  have "6 \<in> set (remdups (server (sample_screen ?ws)))"
    using sample_server [OF ws, of 6] n set_order [OF screen_okD(1) [OF ok]] by simp
  from add_to_stack_list [OF ok list_server_documented n l this] show ?thesis
    using c by (auto simp: sample_lists_def)
qed

text \<open>
  C23: Moving a frame to another level, when it is not the last frame of its level, takes it out of the level, whose other frames
  keep their order, and puts it into the new one, whose frames stay; all other levels are unchanged, and the counter, the
  contexts and the order on the server follow. The new level is a \<open>short\<close>, and no frame owns itself through others. (The last
  frame of a level is left out: its entry of the bag is erased, and \<open>rbTreeDelete\<close> can lose other entries.)
\<close>

theorem change_level_keeps_screen:
  assumes "screen_ok ord s L" "xlib_documented X ord" "acyclic (owners s)" "L i = xs @ f # ys" "xs @ ys \<noteq> []" "short n = n" "n \<noteq> i"
  shows "\<exists>s' zs. ChangeStackingLevel X f n s = Some s' \<and> set zs = insert f (set (L n)) \<and> screen_ok ord s' (L(i := xs @ ys, n := zs))"
  by (rule ChangeStackingLevel_ok [OF assms])

theorem change_level_keeps_screen_witness:
  "\<exists>s' zs. ChangeStackingLevel list_server 4 3 (sample_screen [5, 10, 4, 3, 2]) = Some s' \<and> set zs = {4, 5} \<and>
     screen_ok remdups s' ((sample_lists [5, 10, 4, 3, 2])(0 := [10, 3, 2], 3 := zs))"
proof -
  let ?ws = "[5, 10, 4, 3, 2] :: nat list"
  have ws: "distinct ?ws" "{10, 2, 3, 4, 5} \<subseteq> set ?ws" by auto
  have ac: "acyclic (owners (sample_screen ?ws))" unfolding sample_owners [OF ws] by (rule sample_acyclic)
  have L: "sample_lists ?ws 0 = [10] @ 4 # [3, 2]" by (simp add: sample_lists_def)
  have "short 3 = 3" by (simp add: short_def)
  moreover have "insert 4 (set (sample_lists ?ws 3)) = {4, 5}" by (simp add: sample_lists_def)
  ultimately show ?thesis
    using change_level_keeps_screen [OF sample_ok(1) [OF ws] list_server_documented ac L, of 3] by simp
qed

text \<open>
  C24: Reading the stacking order from the server, whatever the links of the frames and the bag held, gives every level
  the frames in the order the server has their windows in, counts them, and restacks the windows by levels.
\<close>

theorem remake_reads_server:
  assumes "xlib_documented X ord" "XQueryTree X (server s) = Some ws" "bag_rep (stacking_list s) kvs"
    "\<And>w f. stack_context s w = Some f \<Longrightarrow> f = w \<and> frames s w \<noteq> None \<and> w \<in> set (ord (server s))"
  shows "\<exists>s'. RemakeStackList X s = Some s' \<and>
    screen_ok ord s' (\<lambda>i. filter (\<lambda>x. stack_context s x \<noteq> None \<and> get window_level x s = Some i) (ord (server s)))"
proof -
  have "by_level s (ord (server s)) = (\<lambda>i. filter (\<lambda>x. stack_context s x \<noteq> None \<and> get window_level x s = Some i) (ord (server s)))"
    by (rule ext) (simp add: by_level_def)
  then show ?thesis using RemakeStackList_ok [OF assms(1-3), of] assms(4) by metis
qed

theorem remake_reads_server_witness:
  "\<exists>s'. RemakeStackList list_server (raw_screen [5, 10, 4, 3, 2]) = Some s' \<and>
     screen_ok remdups s' (\<lambda>i. filter (\<lambda>x. stack_context (raw_screen [5, 10, 4, 3, 2]) x \<noteq> None \<and>
       get window_level x (raw_screen [5, 10, 4, 3, 2]) = Some i) [5, 10, 4, 3, 2])"
proof -
  let ?ws = "[5, 10, 4, 3, 2] :: nat list"
  have q: "XQueryTree list_server (server (raw_screen ?ws)) = Some (rev ?ws)" by (simp add: list_server_def raw_screen_def)
  have b: "bag_rep (stacking_list (raw_screen ?ws)) []" by (simp add: raw_screen_def bag_rep_create)
  have "f = w \<and> frames (raw_screen ?ws) w \<noteq> None \<and> w \<in> set (remdups (server (raw_screen ?ws)))"
    if "stack_context (raw_screen ?ws) w = Some f" for w f
    using that by (auto simp: raw_screen_def split: if_splits)
  from remake_reads_server [OF list_server_documented q b this] show ?thesis by (simp add: raw_screen_def)
qed


section \<open>What \<open>MoveInStackListAbove\<close> does wrong\<close>

text \<open>The frames that the lists hold, and the order of the windows on the server.\<close>

definition listed :: "'x WScreen \<Rightarrow> nat list option" where
  "listed s = do { tops \<leftarrow> WM_ETARETI_BAG (stacking_list s); commit_loop s tops }"

text \<open>
  A frame that comes from a higher level and goes above the top of the lower one is in no list any more:
  the bag keeps the old top.
\<close>

lemma move_above_loses_frame:
  "listed (sample_screen [5, 10, 4, 3, 2]) = Some [5, 10, 4, 3, 2]"
  "(case MoveInStackListAbove list_server (Some 10) 5 (sample_screen [5, 10, 4, 3, 2]) of
      None \<Rightarrow> None | Some s \<Rightarrow> listed s) = Some [10, 4, 3, 2]"
  by code_simp+

text \<open>
  A frame that goes above the top of its level is raised above all windows of the server, because only the level
  directly above is looked at.
\<close>

lemma move_above_covers_higher_level:
  "(case MoveInStackListAbove list_server (Some 10) 3 (sample_screen [5, 10, 4, 3, 2]) of
      None \<Rightarrow> None | Some s \<Rightarrow> Some (listed s, server s)) = Some (Some [5, 3, 10, 4, 2], [3, 5, 10, 4, 2])"
  by code_simp

end
