(* ===== verification/WMHeads.thy ===== *)
theory WMHeads
  imports WMStacking
begin

text \<open>
  \<open>WM/src/xrandr.c\<close> and the geometry of \<open>WM/src/placement.c\<close> it uses: the heads of a screen, the one
  a rectangle or a point is on, and the area of a head that windows may use. Unsigned values are taken modulo
  \<open>2 ^ 32\<close> or \<open>2 ^ 64\<close>. Lengths, areas and their sums are 32-bit numbers that wrap around (\<open>signed\<close>), which is what
  compilers make of the overflow that C leaves undefined; coordinates and their differences elsewhere are integers.
  \<open>None\<close> is an access outside a block.
\<close>

section \<open>Integers and rectangles\<close>

definition unsigned :: "int \<Rightarrow> int" where
  "unsigned n = n mod 2 ^ 32"

definition signed :: "int \<Rightarrow> int" where
  "signed n = (n + 2 ^ 31) mod 2 ^ 32 - 2 ^ 31"

definition unsigned_long :: "int \<Rightarrow> int" where
  "unsigned_long n = n mod 2 ^ 64"

record WMPoint =
  pt_x :: int
  pt_y :: int

record WMRect =
  pos :: WMPoint
  size_width :: int
  size_height :: int

record WArea =
  area_x1 :: int
  area_y1 :: int
  area_x2 :: int
  area_y2 :: int

definition at :: "'a list \<Rightarrow> int \<Rightarrow> 'a option" where
  "at xs i = (if 0 \<le> i \<and> i < int (length xs) then Some (xs ! nat i) else None)"

definition calcIntersectionLength :: "int \<Rightarrow> int \<Rightarrow> int \<Rightarrow> int \<Rightarrow> int" where
  "calcIntersectionLength p1 l1 p2 l2 =
     (let (p1, l1, p2, l2) = (if p1 > p2 then (p2, l2, p1, l1) else (p1, l1, p2, l2)) in
      if signed (p1 + l1) < p2 then 0
      else if signed (p2 + l2) < signed (p1 + l1) then l2
      else signed (signed (p1 + l1) - p2))"

definition calcIntersectionArea :: "int \<Rightarrow> int \<Rightarrow> int \<Rightarrow> int \<Rightarrow> int \<Rightarrow> int \<Rightarrow> int \<Rightarrow> int \<Rightarrow> int" where
  "calcIntersectionArea x1 y1 w1 h1 x2 y2 w2 h2 =
     signed (calcIntersectionLength x1 w1 x2 w2 * calcIntersectionLength y1 h1 y2 h2)"

section \<open>Heads\<close>

record WXrandrInfo =
  primary_head :: int
  screens :: "WMRect list option"
  hcount :: int

text \<open>An output of the server: its identifier and the rectangle of its CRTC when it has one.\<close>

record XRROutput =
  output_id :: nat
  crtc :: "WMRect option"

definition wInitXrandr_info :: WXrandrInfo where
  "wInitXrandr_info = \<lparr>primary_head = 0, screens = None, hcount = 0\<rparr>"

definition zero_rect :: WMRect where
  "zero_rect = \<lparr>pos = \<lparr>pt_x = 0, pt_y = 0\<rparr>, size_width = 0, size_height = 0\<rparr>"

fun update_outputs :: "nat \<Rightarrow> XRROutput list \<Rightarrow> nat \<Rightarrow> WMRect list \<Rightarrow> int \<Rightarrow> (WMRect list \<times> int) option" where
  "update_outputs primary_output [] i block primary = Some (block, primary)"
| "update_outputs primary_output (out # outputs) i block primary =
     (let primary = (if output_id out = primary_output then int i else primary) in
      case crtc out of
        None \<Rightarrow> update_outputs primary_output outputs (Suc i) block primary
      | Some r \<Rightarrow>
          if i < length block then update_outputs primary_output outputs (Suc i) (block[i := r]) primary
          else None)"

text \<open>\<open>wUpdateXrandrInfo\<close> for what \<open>XRRGetScreenResources\<close> and \<open>XRRGetOutputPrimary\<close> return.\<close>

definition wUpdateXrandrInfo :: "XRROutput list option \<Rightarrow> nat \<Rightarrow> WXrandrInfo \<Rightarrow> WXrandrInfo option" where
  "wUpdateXrandrInfo screen_res primary_output info =
     (case screen_res of
        None \<Rightarrow> Some info
      | Some outputs \<Rightarrow>
          let block = (case screens info of None \<Rightarrow> replicate (length outputs + 1) zero_rect | Some b \<Rightarrow> b) in
          if outputs = [] then Some (info\<lparr>screens := Some block\<rparr>)
          else do {
            (block, primary) \<leftarrow> update_outputs primary_output outputs 0 block (primary_head info);
            Some (info\<lparr>screens := Some block, primary_head := primary, hcount := int (length outputs)\<rparr>) })"

definition wInitXrandr :: "bool \<Rightarrow> XRROutput list option \<Rightarrow> nat \<Rightarrow> WXrandrInfo option" where
  "wInitXrandr extension screen_res primary_output =
     (if extension then wUpdateXrandrInfo screen_res primary_output wInitXrandr_info else Some wInitXrandr_info)"

text \<open>
  What the code reads of a screen, its dock and the preferences. \<open>pointer\<close> is what \<open>XQueryPointer\<close> gives; the icon
  of the dock is \<open>icon_array[0]\<close>, \<open>None\<close> when its \<open>icon\<close> is NULL.
\<close>

record WDock =
  dock_mapped :: bool
  on_right_side :: bool
  dock_icon :: "(int \<times> int \<times> int \<times> int) option"

record HScreen =
  xrandr_info :: WXrandrInfo
  scr_width :: int
  scr_height :: int
  usableArea :: "WArea list"
  totalUsableArea :: "WArea list"
  dock :: "WDock option"
  icon_yard_mapped :: bool
  pointer :: "WMPoint option"

record WPreferences =
  icon_size :: int
  icon_yard :: int
  no_window_over_dock :: bool
  no_window_over_icons :: bool
  sticky_icons :: bool
  window_place_origin :: WMPoint
  window_title_clearance :: int
  window_title_max_height :: int
  window_title_min_height :: int

definition IY_VERT :: int where "IY_VERT = 1"

definition IY_TOP :: int where "IY_TOP = 2"

definition IY_RIGHT :: int where "IY_RIGHT = 4"

definition DOCK_EXTRA_SPACE :: int where "DOCK_EXTRA_SPACE = 3"

definition flag :: "int \<Rightarrow> int \<Rightarrow> bool" where
  "flag n m = (and n m \<noteq> 0)"

definition XFLAG_DEAD :: int where "XFLAG_DEAD = 1"

definition XFLAG_MULTIPLE :: int where "XFLAG_MULTIPLE = 2"

definition XFLAG_PARTIAL :: int where "XFLAG_PARTIAL = 4"

definition wScreenHeads :: "HScreen \<Rightarrow> int" where
  "wScreenHeads scr = (if hcount (xrandr_info scr) \<noteq> 0 then hcount (xrandr_info scr) else 1)"

definition head_rect :: "HScreen \<Rightarrow> int \<Rightarrow> WMRect option" where
  "head_rect scr i = do { b \<leftarrow> screens (xrandr_info scr); at b i }"

definition rect_area :: "WMRect \<Rightarrow> WMRect \<Rightarrow> int" where
  "rect_area rect head = calcIntersectionArea (pt_x (pos rect)) (pt_y (pos rect)) (signed (size_width rect)) (signed (size_height rect))
     (pt_x (pos head)) (pt_y (pos head)) (signed (size_width head)) (signed (size_height head))"

fun point_loop :: "WMPoint \<Rightarrow> HScreen \<Rightarrow> int list \<Rightarrow> int option" where
  "point_loop point scr [] = Some (primary_head (xrandr_info scr))"
| "point_loop point scr (i # is) = do {
     rect \<leftarrow> head_rect scr i;
     (if unsigned (pt_x point - pt_x (pos rect)) < size_width rect \<and> unsigned (pt_y point - pt_y (pos rect)) < size_height rect
      then Some i else point_loop point scr is) }"

definition wGetHeadForPoint :: "HScreen \<Rightarrow> WMPoint \<Rightarrow> int option" where
  "wGetHeadForPoint scr point = point_loop point scr [0..hcount (xrandr_info scr) - 1]"

definition wGetHeadForPointerLocation :: "HScreen \<Rightarrow> int option" where
  "wGetHeadForPointerLocation scr =
     (if hcount (xrandr_info scr) = 0 then Some (primary_head (xrandr_info scr))
      else case pointer scr of None \<Rightarrow> Some (primary_head (xrandr_info scr)) | Some point \<Rightarrow> wGetHeadForPoint scr point)"

text \<open>The loop of \<open>wGetRectPlacementInfo\<close>: best head, its area, the total and the flags.\<close>

fun placement_loop :: "HScreen \<Rightarrow> WMRect \<Rightarrow> int list \<Rightarrow> int \<times> int \<times> int \<times> int \<Rightarrow> (int \<times> int \<times> int \<times> int) option" where
  "placement_loop scr rect [] st = Some st"
| "placement_loop scr rect (i # is) (best, area, totalArea, flags) = do {
     head \<leftarrow> head_rect scr i;
     let a = unsigned_long (rect_area rect head);
     let totalArea = unsigned_long (totalArea + a);
     placement_loop scr rect is
       (if a > area then (i, a, totalArea, if best \<noteq> -1 then or flags XFLAG_MULTIPLE else flags)
        else (best, area, totalArea, flags)) }"

definition wGetRectPlacementInfo :: "HScreen \<Rightarrow> WMRect \<Rightarrow> (int \<times> int) option" where
  "wGetRectPlacementInfo scr rect =
     (let rw = signed (size_width rect); rh = signed (size_height rect) in
      if hcount (xrandr_info scr) \<le> 1 then
        let a = unsigned_long (calcIntersectionArea (pt_x (pos rect)) (pt_y (pos rect)) rw rh 0 0 (scr_width scr) (scr_height scr)) in
        Some (primary_head (xrandr_info scr),
              if a = 0 then XFLAG_DEAD else if a \<noteq> unsigned_long (signed (rw * rh)) then XFLAG_PARTIAL else 0)
      else do {
        (best, area, totalArea, flags) \<leftarrow> placement_loop scr rect [0..wScreenHeads scr - 1] (-1, 0, 0, 0);
        (if best = -1 then do { best \<leftarrow> wGetHeadForPointerLocation scr; Some (best, or flags XFLAG_DEAD) }
         else Some (best, if totalArea \<noteq> unsigned_long (signed (rw * rh)) then or flags XFLAG_PARTIAL else flags)) })"

fun best_head :: "HScreen \<Rightarrow> WMRect \<Rightarrow> int list \<Rightarrow> int \<times> int \<Rightarrow> (int \<times> int) option" where
  "best_head scr rect [] st = Some st"
| "best_head scr rect (i # is) (best, area) = do {
     head \<leftarrow> head_rect scr i;
     let a = unsigned_long (rect_area rect head);
     best_head scr rect is (if a > area then (i, a) else (best, area)) }"

definition wGetHeadForRect :: "HScreen \<Rightarrow> WMRect \<Rightarrow> int option" where
  "wGetHeadForRect scr rect =
     (if hcount (xrandr_info scr) = 0 then Some (primary_head (xrandr_info scr))
      else do {
        (best, area) \<leftarrow> best_head scr rect [0..wScreenHeads scr - 1] (-1, 0);
        (if best = -1 then wGetHeadForPointerLocation scr else Some best) })"

definition wGetRectForHead :: "HScreen \<Rightarrow> int \<Rightarrow> WMRect option" where
  "wGetRectForHead scr head =
     (if head < hcount (xrandr_info scr) then head_rect scr head
      else Some \<lparr>pos = \<lparr>pt_x = 0, pt_y = 0\<rparr>, size_width = unsigned (scr_width scr), size_height = unsigned (scr_height scr)\<rparr>)"

text \<open>A window or an application icon that has a frame or an icon: its place and size.\<close>

definition touches_head :: "(int \<times> int \<times> int \<times> int) option \<Rightarrow> HScreen \<Rightarrow> int \<Rightarrow> bool option" where
  "touches_head box scr head =
     (case box of
        None \<Rightarrow> Some False
      | Some (x, y, w, h) \<Rightarrow> do {
          rect \<leftarrow> wGetRectForHead scr head;
          Some (calcIntersectionArea x y w h (pt_x (pos rect)) (pt_y (pos rect)) (signed (size_width rect)) (signed (size_height rect)) \<noteq> 0) })"

definition wWindowTouchesHead :: "(int \<times> int \<times> int \<times> int) option \<Rightarrow> HScreen \<Rightarrow> int \<Rightarrow> bool option" where
  "wWindowTouchesHead wwin scr head = touches_head wwin scr head"

definition wAppIconTouchesHead :: "(int \<times> int \<times> int \<times> int) option \<Rightarrow> HScreen \<Rightarrow> int \<Rightarrow> bool option" where
  "wAppIconTouchesHead aicon scr head = touches_head aicon scr head"

definition wGetHeadForWindow :: "(int \<times> int \<times> int \<times> int) option \<Rightarrow> HScreen \<Rightarrow> int option" where
  "wGetHeadForWindow wwin scr =
     (case wwin of
        None \<Rightarrow> Some (primary_head (xrandr_info scr))
      | Some (x, y, w, h) \<Rightarrow>
          wGetHeadForRect scr \<lparr>pos = \<lparr>pt_x = x, pt_y = y\<rparr>, size_width = unsigned w, size_height = unsigned h\<rparr>)"

definition wGetUsableAreaForHead :: "WPreferences \<Rightarrow> HScreen \<Rightarrow> int \<Rightarrow> bool \<Rightarrow> WArea option" where
  "wGetUsableAreaForHead prefs scr head noicons = do {
     rect \<leftarrow> wGetRectForHead scr head;
     let totalArea = \<lparr>area_x1 = pt_x (pos rect), area_y1 = pt_y (pos rect),
       area_x2 = signed (pt_x (pos rect) + size_width rect), area_y2 = signed (pt_y (pos rect) + size_height rect)\<rparr>;
     area \<leftarrow> (if head < wScreenHeads scr then at (if noicons then totalUsableArea scr else usableArea scr) head
              else Some totalArea);
     (if noicons then do {
        let offset = icon_size prefs + DOCK_EXTRA_SPACE;
        area \<leftarrow> (case dock scr of
                   None \<Rightarrow> Some area
                 | Some d \<Rightarrow>
                     if dock_mapped d \<and> no_window_over_dock prefs then do {
                       t \<leftarrow> wAppIconTouchesHead (dock_icon d) scr head;
                       Some (if \<not> t then area
                             else if on_right_side d then area\<lparr>area_x2 := area_x2 area - offset\<rparr>
                             else area\<lparr>area_x1 := area_x1 area + offset\<rparr>) }
                     else Some area);
        let area = (if icon_yard_mapped scr then area else area\<lparr>area_y2 := area_y2 area + icon_size prefs\<rparr>);
        Some (case dock scr of
                None \<Rightarrow> area
              | Some d \<Rightarrow>
                  if no_window_over_icons prefs \<and> \<not> no_window_over_dock prefs \<and> flag (icon_yard prefs) IY_VERT then
                    if on_right_side d \<and> flag (icon_yard prefs) IY_RIGHT then area\<lparr>area_x2 := area_x2 area - offset\<rparr>
                    else if \<not> on_right_side d \<and> \<not> flag (icon_yard prefs) IY_RIGHT then area\<lparr>area_x1 := area_x1 area + offset\<rparr>
                    else area
                  else area) }
      else Some area) }"

definition wGetPointToCenterRectInHead :: "HScreen \<Rightarrow> int \<Rightarrow> int \<Rightarrow> int \<Rightarrow> WMPoint option" where
  "wGetPointToCenterRectInHead scr head w h = do {
     rect \<leftarrow> wGetRectForHead scr head;
     Some \<lparr>pt_x = signed (pt_x (pos rect) + unsigned (size_width rect - w) div 2),
       pt_y = signed (pt_y (pos rect) + unsigned (size_height rect - h) div 2)\<rparr> }"

end
