(* ===== verification/WMPlacement.thy ===== *)
theory WMPlacement
  imports WMHeads "HOL-Library.Signed_Division"
begin

text \<open>
  \<open>WM/src/placement.c\<close>: where a new window or icon goes. The windows of a screen are a list that is linked both
  ways, entered at the focused one; the icons are found through the stacking lists. The usable area is the one of
  \<open>xrandr.c\<close>. \<open>None\<close> is an access outside a block, through NULL, or a loop that does not end; a division by zero too.
\<close>

section \<open>Windows\<close>

record WClient = WWindow +
  client_level :: int
  shaded :: bool
  miniaturized :: bool
  hidden :: bool
  prev_window :: "nat ptr"
  next_window :: "nat ptr"

record PScreen =
  clients :: "nat \<rightharpoonup> WClient"
  focused_window :: "nat ptr"
  current_workspace :: int
  frame_border_width :: int
  cascade_index :: int
  title_font_height :: int

text \<open>The window that is placed: its decorations. \<open>frame_widths\<close> are \<open>top_width\<close> and \<open>bottom_width\<close> of its frame.\<close>

record NewWindow =
  frame_widths :: "(int \<times> int) option"
  has_titlebar :: bool
  has_resizebar :: bool
  has_border :: bool

definition TITLEBAR_HEIGHT :: int where "TITLEBAR_HEIGHT = 18"

definition RESIZEBAR_HEIGHT :: int where "RESIZEBAR_HEIGHT = 8"

definition TITLEBAR_EXTEND_SPACE :: int where "TITLEBAR_EXTEND_SPACE = 4"

definition PLACETEST_HSTEP :: int where "PLACETEST_HSTEP = 8"

definition PLACETEST_VSTEP :: int where "PLACETEST_VSTEP = 8"

definition X_ORIGIN :: "WPreferences \<Rightarrow> WArea \<Rightarrow> int" where
  "X_ORIGIN prefs area = max (area_x1 area) (pt_x (window_place_origin prefs))"

definition Y_ORIGIN :: "WPreferences \<Rightarrow> WArea \<Rightarrow> int" where
  "Y_ORIGIN prefs area = max (area_y1 area) (pt_y (window_place_origin prefs))"

text \<open>\<open>mapped\<close>, or shaded on the current workspace.\<close>

definition counts :: "PScreen \<Rightarrow> WClient \<Rightarrow> bool" where
  "counts scr w \<longleftrightarrow> mapped w \<or> (shaded w \<and> workspace w = current_workspace scr \<and> \<not> (miniaturized w \<or> hidden w))"

partial_function (option) first_window :: "PScreen \<Rightarrow> nat ptr \<Rightarrow> (nat ptr) option" where
  "first_window scr p =
     (case p of
        None \<Rightarrow> Some NULL
      | Some i \<Rightarrow> do {
          w \<leftarrow> clients scr i;
          (if prev_window w = NULL then Some p else first_window scr (prev_window w)) })"

partial_function (option) sum_covered :: "PScreen \<Rightarrow> int \<Rightarrow> int \<Rightarrow> int \<Rightarrow> int \<Rightarrow> nat ptr \<Rightarrow> int \<Rightarrow> int option" where
  "sum_covered scr x y w h p sum_isect =
     (case p of
        None \<Rightarrow> Some sum_isect
      | Some i \<Rightarrow> do {
          t \<leftarrow> clients scr i;
          sum_covered scr x y w h (next_window t)
            (if client_level t < 0 then sum_isect
             else if counts scr t then signed (sum_isect + calcIntersectionArea (frame_x t) (frame_y t) (width t) (height t) x y w h)
             else sum_isect) })"

definition calcSumOfCoveredAreas :: "PScreen \<Rightarrow> int \<Rightarrow> int \<Rightarrow> int \<Rightarrow> int \<Rightarrow> int option" where
  "calcSumOfCoveredAreas scr x y w h = do {
     p \<leftarrow> first_window scr (focused_window scr);
     sum_covered scr x y w h p 0 }"

definition set_width_height :: "PScreen \<Rightarrow> NewWindow \<Rightarrow> int \<times> int \<Rightarrow> int \<times> int" where
  "set_width_height scr wwin = (\<lambda>(w, h).
     (let h = (case frame_widths wwin of
                 Some (t, b) \<Rightarrow> unsigned (h + t + b)
               | None \<Rightarrow>
                   (let h = (if has_titlebar wwin then unsigned (h + TITLEBAR_HEIGHT) else h) in
                    if has_resizebar wwin then unsigned (h + RESIZEBAR_HEIGHT) else h)) in
      if has_border wwin then (unsigned (w + 2 * frame_border_width scr), unsigned (h + 2 * frame_border_width scr))
      else (w, h)))"

definition window_overlaps :: "PScreen \<Rightarrow> WClient \<Rightarrow> int \<Rightarrow> int \<Rightarrow> int \<Rightarrow> int \<Rightarrow> bool \<Rightarrow> bool" where
  "window_overlaps scr win x y w h ignore_sunken =
     (if ignore_sunken \<and> client_level win < 0 then False
      else frame_x win < x + w \<and> frame_x win + width win > x \<and> frame_y win < y + h \<and> frame_y win + height win > y \<and>
        counts scr win)"

text \<open>The two loops of \<open>screen_has_space\<close>: forwards or backwards until a window is in the way.\<close>

definition other_window :: "bool \<Rightarrow> WClient \<Rightarrow> nat ptr" where
  "other_window forwards w = (if forwards then next_window w else prev_window w)"

partial_function (option) no_overlap :: "bool \<Rightarrow> PScreen \<Rightarrow> int \<Rightarrow> int \<Rightarrow> int \<Rightarrow> int \<Rightarrow> bool \<Rightarrow> nat ptr \<Rightarrow> bool option" where
  "no_overlap forwards scr x y w h ignore_sunken p =
     (case p of
        None \<Rightarrow> Some True
      | Some i \<Rightarrow> do {
          c \<leftarrow> clients scr i;
          (if window_overlaps scr c x y w h ignore_sunken then Some False
           else no_overlap forwards scr x y w h ignore_sunken (other_window forwards c)) })"

definition screen_has_space :: "PScreen \<Rightarrow> int \<Rightarrow> int \<Rightarrow> int \<Rightarrow> int \<Rightarrow> bool \<Rightarrow> bool option" where
  "screen_has_space scr x y w h ignore_sunken = do {
     a \<leftarrow> no_overlap True scr x y w h ignore_sunken (focused_window scr);
     (if a then no_overlap False scr x y w h ignore_sunken (focused_window scr) else Some False) }"

section \<open>Smart placement\<close>

text \<open>\<open>min_isect\<close>, \<open>min_isect_x\<close> and \<open>min_isect_y\<close>, and a test of one place.\<close>

type_synonym best_place = "int \<times> int \<times> int"

definition try_place :: "(int \<Rightarrow> int \<Rightarrow> int option) \<Rightarrow> int \<Rightarrow> int \<Rightarrow> best_place \<Rightarrow> best_place option" where
  "try_place covered x y best = do {
     sum_isect \<leftarrow> covered x y;
     Some (if sum_isect < fst best then (sum_isect, x, y) else best) }"

partial_function (option) smart_row :: "(int \<Rightarrow> int \<Rightarrow> int option) \<Rightarrow> int \<Rightarrow> int \<Rightarrow> int \<Rightarrow> int \<Rightarrow> best_place \<Rightarrow> best_place option" where
  "smart_row covered w x2 test_y test_x best =
     (if unsigned (test_x + w) < unsigned x2 then do {
        best \<leftarrow> try_place covered test_x test_y best;
        smart_row covered w x2 test_y (test_x + PLACETEST_HSTEP) best }
      else Some best)"

partial_function (option) smart_rows :: "(int \<Rightarrow> int \<Rightarrow> int option) \<Rightarrow> int \<Rightarrow> int \<Rightarrow> int \<Rightarrow> int \<Rightarrow> int \<Rightarrow> int \<Rightarrow> best_place \<Rightarrow> best_place option" where
  "smart_rows covered w h x2 y2 sx test_y best =
     (if unsigned (test_y + h) < unsigned y2 then do {
        best \<leftarrow> smart_row covered w x2 test_y sx best;
        smart_rows covered w h x2 y2 sx (test_y + PLACETEST_VSTEP) best }
      else Some best)"

text \<open>The second pair of loops, by single pixels.\<close>

fun refine_column :: "(int \<Rightarrow> int \<Rightarrow> int option) \<Rightarrow> int \<Rightarrow> int list \<Rightarrow> best_place \<Rightarrow> best_place option" where
  "refine_column covered test_x [] best = Some best"
| "refine_column covered test_x (test_y # ys) best = do {
     best \<leftarrow> try_place covered test_x test_y best;
     refine_column covered test_x ys best }"

fun refine_columns :: "(int \<Rightarrow> int \<Rightarrow> int option) \<Rightarrow> int list \<Rightarrow> int list \<Rightarrow> best_place \<Rightarrow> best_place option" where
  "refine_columns covered ys [] best = Some best"
| "refine_columns covered ys (test_x # xs) best = do {
     best \<leftarrow> refine_column covered test_x ys best;
     refine_columns covered ys xs best }"

definition INT_MAX :: int where "INT_MAX = 2 ^ 31 - 1"

definition smartPlaceWindow :: "WPreferences \<Rightarrow> PScreen \<Rightarrow> NewWindow \<Rightarrow> int \<Rightarrow> int \<Rightarrow> WArea \<Rightarrow> (int \<times> int) option" where
  "smartPlaceWindow prefs scr wwin w h area = do {
     let (w, h) = set_width_height scr wwin (w, h);
     let covered = (\<lambda>x y. calcSumOfCoveredAreas scr x y (signed w) (signed h));
     let sx = X_ORIGIN prefs area;
     let sy = Y_ORIGIN prefs area;
     best \<leftarrow> smart_rows covered w h (area_x2 area) (area_y2 area) sx sy (INT_MAX, sx, sy);
     let (min_isect, min_x, min_y) = best;
     let from_x = max (min_x - PLACETEST_HSTEP + 1) (X_ORIGIN prefs area);
     let to_x = min_x + PLACETEST_HSTEP;
     let to_x = (if unsigned (to_x + w) > unsigned (area_x2 area) then signed (area_x2 area - w) else to_x);
     let from_y = max (min_y - PLACETEST_VSTEP + 1) (Y_ORIGIN prefs area);
     let to_y = min_y + PLACETEST_VSTEP;
     let to_y = (if unsigned (to_y + h) > unsigned (area_y2 area) then signed (area_y2 area - h) else to_y);
     best \<leftarrow> refine_columns covered [from_y..to_y - 1] [from_x..to_x - 1] best;
     Some (snd best) }"

section \<open>The other placements\<close>

definition center_place_window :: "PScreen \<Rightarrow> NewWindow \<Rightarrow> int \<Rightarrow> int \<Rightarrow> WArea \<Rightarrow> (int \<times> int) option" where
  "center_place_window scr wwin w h area =
     (let (w, h) = set_width_height scr wwin (w, h);
          swidth = area_x2 area - area_x1 area;
          sheight = area_y2 area - area_y1 area in
      if w > unsigned swidth \<or> h > unsigned sheight then None
      else Some (signed (unsigned (area_x1 area + area_x2 area - w) div 2), signed (unsigned (area_y1 area + area_y2 area - h) div 2)))"

text \<open>The two loops of \<open>autoPlaceWindow\<close>; the outer \<open>option\<close> is an error, the inner one the result.\<close>

partial_function (option) auto_row :: "(int \<Rightarrow> int \<Rightarrow> bool option) \<Rightarrow> int \<Rightarrow> int \<Rightarrow> int \<Rightarrow> int \<Rightarrow> ((int \<times> int) option) option" where
  "auto_row space w sw y x =
     (if unsigned (x + w) < unsigned sw then do {
        s \<leftarrow> space x y;
        (if s then Some (Some (x, y)) else auto_row space w sw y (x + PLACETEST_HSTEP)) }
      else Some None)"

partial_function (option) auto_rows :: "(int \<Rightarrow> int \<Rightarrow> bool option) \<Rightarrow> int \<Rightarrow> int \<Rightarrow> int \<Rightarrow> int \<Rightarrow> int \<Rightarrow> int \<Rightarrow> ((int \<times> int) option) option" where
  "auto_rows space w h sw sh ox y =
     (if unsigned (y + h) < unsigned sh then do {
        r \<leftarrow> auto_row space w sw y ox;
        (case r of Some p \<Rightarrow> Some (Some p) | None \<Rightarrow> auto_rows space w h sw sh ox (y + PLACETEST_VSTEP)) }
      else Some None)"

definition autoPlaceWindow ::
  "WPreferences \<Rightarrow> PScreen \<Rightarrow> NewWindow \<Rightarrow> int \<Rightarrow> int \<Rightarrow> bool \<Rightarrow> WArea \<Rightarrow> ((int \<times> int) option) option" where
  "autoPlaceWindow prefs scr wwin w h ignore_sunken area = do {
     let (w, h) = set_width_height scr wwin (w, h);
     let sw = area_x2 area - area_x1 area;
     let sh = area_y2 area - area_y1 area;
     c \<leftarrow> (case center_place_window scr wwin w h area of
              None \<Rightarrow> Some None
            | Some (x, y) \<Rightarrow> do {
                s \<leftarrow> screen_has_space scr x y (signed w) (signed h) False;
                Some (if s then Some (x, y) else None) });
     (case c of
        Some p \<Rightarrow> Some (Some p)
      | None \<Rightarrow>
          auto_rows (\<lambda>x y. screen_has_space scr x y (signed w) (signed h) ignore_sunken) w h sw sh
            (X_ORIGIN prefs area) (Y_ORIGIN prefs area)) }"

definition cascadeWindow :: "WPreferences \<Rightarrow> PScreen \<Rightarrow> NewWindow \<Rightarrow> int \<Rightarrow> int \<Rightarrow> int \<Rightarrow> WArea \<Rightarrow> PScreen \<times> int \<times> int" where
  "cascadeWindow prefs scr wwin w h step area =
     (let (w, h) = set_width_height scr wwin (w, h);
          x = step * cascade_index scr + X_ORIGIN prefs area;
          y = step * cascade_index scr + Y_ORIGIN prefs area in
      if unsigned (w + x) > unsigned (area_x2 area) \<or> unsigned (h + y) > unsigned (area_y2 area)
      then (scr\<lparr>cascade_index := 0\<rparr>, X_ORIGIN prefs area, Y_ORIGIN prefs area)
      else (scr, x, y))"

text \<open>\<open>r1\<close> and \<open>r2\<close> are what \<open>rand\<close> returns.\<close>

definition randomPlaceWindow :: "WPreferences \<Rightarrow> PScreen \<Rightarrow> NewWindow \<Rightarrow> int \<Rightarrow> int \<Rightarrow> WArea \<Rightarrow> int \<Rightarrow> int \<Rightarrow> int \<times> int" where
  "randomPlaceWindow prefs scr wwin w h area r1 r2 =
     (let (w, h) = set_width_height scr wwin (w, h);
          w = signed ((area_x2 area - X_ORIGIN prefs area) - w);
          h = signed ((area_y2 area - Y_ORIGIN prefs area) - h);
          w = (if w < 1 then 1 else w);
          h = (if h < 1 then 1 else h) in
      (X_ORIGIN prefs area + r1 smod w, Y_ORIGIN prefs area + r2 smod h))"

datatype placement = WPM_MANUAL | WPM_CASCADE | WPM_SMART | WPM_RANDOM | WPM_AUTO | WPM_CENTER

text \<open>The cascade of \<open>PlaceWindow\<close>, also reached from the automatic placements.\<close>

definition place_cascade :: "placement \<Rightarrow> WPreferences \<Rightarrow> PScreen \<Rightarrow> NewWindow \<Rightarrow> int \<Rightarrow> int \<Rightarrow> int \<Rightarrow> WArea \<Rightarrow> PScreen \<times> int \<times> int" where
  "place_cascade how prefs scr wwin w h step area =
     (let scr = (if how = WPM_AUTO \<or> how = WPM_CENTER then scr\<lparr>cascade_index := cascade_index scr + 1\<rparr> else scr);
          (scr, x, y) = cascadeWindow prefs scr wwin w h step area in
      (if how = WPM_CASCADE then scr\<lparr>cascade_index := cascade_index scr + 1\<rparr> else scr, x, y))"

definition place_auto :: "placement \<Rightarrow> WPreferences \<Rightarrow> PScreen \<Rightarrow> NewWindow \<Rightarrow> int \<Rightarrow> int \<Rightarrow> int \<Rightarrow> WArea \<Rightarrow> (PScreen \<times> int \<times> int) option" where
  "place_auto how prefs scr wwin w h step area = do {
     a \<leftarrow> autoPlaceWindow prefs scr wwin w h False area;
     (case a of
        Some (x, y) \<Rightarrow> Some (scr, x, y)
      | None \<Rightarrow> do {
          a \<leftarrow> autoPlaceWindow prefs scr wwin w h True area;
          (case a of
             Some (x, y) \<Rightarrow> Some (scr, x, y)
           | None \<Rightarrow> Some (place_cascade how prefs scr wwin w h step area)) }) }"

text \<open>
  \<open>PlaceWindow\<close> after the usable area is known. \<open>manual\<close> is what \<open>InteractivePlaceWindow\<close> returns.
\<close>

definition title_step :: "WPreferences \<Rightarrow> PScreen \<Rightarrow> int" where
  "title_step prefs scr =
     (let h = title_font_height scr + (window_title_clearance prefs + TITLEBAR_EXTEND_SPACE) * 2;
          h = (if h > window_title_max_height prefs then window_title_max_height prefs else h) in
      if h < window_title_min_height prefs then window_title_min_height prefs else h)"

definition clip_place :: "WArea \<Rightarrow> int \<Rightarrow> int \<Rightarrow> int \<times> int \<Rightarrow> int \<times> int" where
  "clip_place area w h = (\<lambda>(x, y).
     (let x = (if unsigned (x + w) > unsigned (area_x2 area) then signed (area_x2 area - w) else x);
          x = (if x < area_x1 area then area_x1 area else x);
          y = (if unsigned (y + h) > unsigned (area_y2 area) then signed (area_y2 area - h) else y);
          y = (if y < area_y1 area then area_y1 area else y) in (x, y)))"

definition PlaceWindow ::
  "placement \<Rightarrow> WPreferences \<Rightarrow> HScreen \<Rightarrow> PScreen \<Rightarrow> NewWindow \<Rightarrow> int \<times> int \<Rightarrow> int \<Rightarrow> int \<Rightarrow> int \<Rightarrow> int \<Rightarrow> (PScreen \<times> int \<times> int) option" where
  "PlaceWindow how prefs heads scr wwin manual r1 r2 w h = do {
     let step = title_step prefs scr;
     head \<leftarrow> wGetHeadForPointerLocation heads;
     area \<leftarrow> wGetUsableAreaForHead prefs heads head True;
     (scr, p) \<leftarrow> (case how of
        WPM_MANUAL \<Rightarrow> Some (scr, manual)
      | WPM_SMART \<Rightarrow> map_option (Pair scr) (smartPlaceWindow prefs scr wwin w h area)
      | WPM_CENTER \<Rightarrow>
          (case center_place_window scr wwin w h area of
             Some p \<Rightarrow> Some (scr, p)
           | None \<Rightarrow> place_auto how prefs scr wwin w h step area)
      | WPM_AUTO \<Rightarrow> place_auto how prefs scr wwin w h step area
      | WPM_CASCADE \<Rightarrow> Some (place_cascade how prefs scr wwin w h step area)
      | WPM_RANDOM \<Rightarrow> Some (scr, randomPlaceWindow prefs scr wwin w h area r1 r2));
     Some (scr, clip_place area w h p) }"

section \<open>Icons\<close>

text \<open>The descriptor of a frame, as far as \<open>iconPosition\<close> reads it.\<close>

datatype WObjDescriptor =
    APPICON bool int int
  | MINIWINDOW int bool bool bool int int
  | WINDOW bool int bool int int
  | OTHER_CLASS

definition iconPosition :: "WPreferences \<Rightarrow> WObjDescriptor \<Rightarrow> int \<Rightarrow> int \<Rightarrow> int \<Rightarrow> int \<Rightarrow> int \<Rightarrow> (int \<times> int) option" where
  "iconPosition prefs desc sx1 sy1 sx2 sy2 ws = do {
     (x, y) \<leftarrow> (case desc of
        APPICON docked x y \<Rightarrow> if \<not> docked then Some (x, y) else None
      | MINIWINDOW owner_workspace owner_omnipresent icon_mapped yard_mapped x y \<Rightarrow>
          if (owner_workspace = ws \<or> owner_omnipresent \<or> sticky_icons prefs) \<and> (icon_mapped \<or> \<not> yard_mapped)
          then Some (x, y) else None
      | WINDOW icon_moved window_workspace omni x y \<Rightarrow>
          if icon_moved \<and> (window_workspace = ws \<or> omni \<or> sticky_icons prefs) then Some (x, y) else None
      | OTHER_CLASS \<Rightarrow> None);
     (if x < sx1 - icon_size prefs \<or> x > sx2 \<or> y < sy1 - icon_size prefs \<or> y > sy2 then None else Some (x, y)) }"

definition cdiv :: "int \<Rightarrow> int \<Rightarrow> int option" where
  "cdiv a b = (if b = 0 then None else Some (a sdiv b))"

definition INDEX :: "int \<Rightarrow> int \<Rightarrow> int \<Rightarrow> int" where
  "INDEX sw x y = (y + 1) * (sw + 2) + x + 1"

text \<open>The map: its size and the indices that hold 1.\<close>

definition mark :: "int \<Rightarrow> int list \<Rightarrow> int \<Rightarrow> (int list) option" where
  "mark sz m i = (if 0 \<le> i \<and> i < sz then Some (i # m) else None)"

definition marked :: "int \<Rightarrow> int list \<Rightarrow> int \<Rightarrow> bool option" where
  "marked sz m i = (if 0 \<le> i \<and> i < sz then Some (i \<in> set m) else None)"

fun mark_icons :: "int \<Rightarrow> int \<Rightarrow> int \<Rightarrow> (int \<times> int) list \<Rightarrow> int list \<Rightarrow> (int list) option" where
  "mark_icons isize sz sw [] m = Some m"
| "mark_icons isize sz sw ((x, y) # icons) m = do {
     xdi \<leftarrow> cdiv x isize;
     ydi \<leftarrow> cdiv y isize;
     half \<leftarrow> cdiv isize 2;
     xui \<leftarrow> cdiv (x + half) isize;
     yui \<leftarrow> cdiv (y + half) isize;
     m \<leftarrow> mark sz m (INDEX sw xdi ydi);
     m \<leftarrow> mark sz m (INDEX sw xdi yui);
     m \<leftarrow> mark sz m (INDEX sw xui ydi);
     m \<leftarrow> mark sz m (INDEX sw xui yui);
     mark_icons isize sz sw icons m }"

text \<open>The search for a free slot, along the list of the places in the order of the two loops.\<close>

fun free_slot :: "int \<Rightarrow> int \<Rightarrow> int \<Rightarrow> int list \<Rightarrow> (int \<times> int) list \<Rightarrow> ((int \<times> int) option) option" where
  "free_slot isize sz sw m [] = Some None"
| "free_slot isize sz sw m ((x, y) # places) = do {
     xi \<leftarrow> cdiv x isize;
     yi \<leftarrow> cdiv y isize;
     b \<leftarrow> marked sz m (INDEX sw xi yi);
     (if \<not> b then Some (Some (x, y)) else free_slot isize sz sw m places) }"

definition slot_places :: "WPreferences \<Rightarrow> WArea \<Rightarrow> int \<Rightarrow> int \<Rightarrow> (int \<times> int) list" where
  "slot_places prefs area pf sf =
     (let isize = icon_size prefs;
          (xo, xs) = (if flag (icon_yard prefs) IY_RIGHT then (area_x2 area - isize, -1) else (area_x1 area, 1));
          (yo, ys) = (if flag (icon_yard prefs) IY_TOP then (area_y1 area, 1) else (area_y2 area - isize, -1)) in
      concat (map (\<lambda>si. map (\<lambda>pi.
        if flag (icon_yard prefs) IY_VERT then (xo + xs * (si * isize), yo + ys * (pi * isize))
        else (xo + xs * (pi * isize), yo + ys * (si * isize))) [0..pf - 1]) [0..sf - 1]))"

text \<open>\<open>objs\<close> are the descriptors of the frames in the stacking lists.\<close>

definition place_icon :: "WPreferences \<Rightarrow> WArea \<Rightarrow> int \<Rightarrow> WObjDescriptor list \<Rightarrow> (int \<times> int) option" where
  "place_icon prefs area ws objs = do {
     let isize = icon_size prefs;
     fullW \<leftarrow> cdiv (area_x2 area - area_x1 area) isize;
     fullH \<leftarrow> cdiv (area_y2 area - area_y1 area) isize;
     let sw = isize * fullW;
     let sh = isize * fullH;
     let (pf, sf) = (if flag (icon_yard prefs) IY_VERT then (fullH, fullW) else (fullW, fullH));
     let sz = (sw + 2) * (sh + 2);
     m \<leftarrow> mark_icons isize sz sw
       (List.map_filter (\<lambda>d. iconPosition prefs d (area_x1 area) (area_y1 area) (area_x2 area) (area_y2 area) ws) objs) [];
     r \<leftarrow> free_slot isize sz sw m (slot_places prefs area pf sf);
     Some (case r of Some p \<Rightarrow> p | None \<Rightarrow> (0, 0)) }"

definition PlaceIcon :: "WPreferences \<Rightarrow> HScreen \<Rightarrow> 'x WScreen \<Rightarrow> (nat \<Rightarrow> WObjDescriptor) \<Rightarrow> int \<Rightarrow> int \<Rightarrow> (int \<times> int) option" where
  "PlaceIcon prefs heads s descriptor ws head = do {
     area \<leftarrow> wGetUsableAreaForHead prefs heads head False;
     tops \<leftarrow> WM_ETARETI_BAG (stacking_list s);
     objs \<leftarrow> commit_loop s tops;
     place_icon prefs area ws (map descriptor objs) }"

declare
  first_window.simps [code] and sum_covered.simps [code] and no_overlap.simps [code] and smart_row.simps [code] and
  smart_rows.simps [code] and auto_row.simps [code] and auto_rows.simps [code]

end
