(* ===== verification/WMHeadsSpec.thy ===== *)
theory WMHeadsSpec
  imports WMHeads
begin

text \<open>
  The properties of the heads: the areas of intersections are numbers of pixels, the head of a rectangle is the
  one that shows most of it, and what the updates of the heads do to their block.
\<close>

section \<open>Rectangles\<close>

text \<open>The pixels of a rectangle.\<close>

definition pixels :: "int \<Rightarrow> int \<Rightarrow> int \<Rightarrow> int \<Rightarrow> (int \<times> int) set" where
  "pixels x y w h = {x..<x + w} \<times> {y..<y + h}"

lemma pixels_Int: "pixels x1 y1 w1 h1 \<inter> pixels x2 y2 w2 h2 =
    ({x1..<x1 + w1} \<inter> {x2..<x2 + w2}) \<times> ({y1..<y1 + h1} \<inter> {y2..<y2 + h2})"
  by (auto simp: pixels_def)

text \<open>A section of a line that starts and ends at 32-bit numbers: no overflow.\<close>

definition section_ok :: "int \<Rightarrow> int \<Rightarrow> bool" where
  "section_ok p l \<longleftrightarrow> - (2 ^ 31) \<le> p \<and> 0 \<le> l \<and> l < 2 ^ 31 \<and> p + l < 2 ^ 31"

lemma signed_id: "- (2 ^ 31) \<le> n \<Longrightarrow> n < 2 ^ 31 \<Longrightarrow> signed n = n"
  by (simp add: signed_def)

lemma intersection_length:
  assumes "section_ok p1 l1" "section_ok p2 l2"
  shows "calcIntersectionLength p1 l1 p2 l2 = int (card ({p1..<p1 + l1} \<inter> {p2..<p2 + l2}))"
proof -
  have s: "signed (p1 + l1) = p1 + l1" "signed (p2 + l2) = p2 + l2"
    using assms by (simp_all add: section_ok_def signed_id)
  have d: "signed (p1 + l1 - p2) = p1 + l1 - p2" if "p1 \<le> p2" "p2 \<le> p1 + l1"
    by (rule signed_id) (use assms that in \<open>auto simp: section_ok_def\<close>)
  have e: "signed (p2 + l2 - p1) = p2 + l2 - p1" if "p2 \<le> p1" "p1 \<le> p2 + l2"
    by (rule signed_id) (use assms that in \<open>auto simp: section_ok_def\<close>)
  have "{p1..<p1 + l1} \<inter> {p2..<p2 + l2} = {max p1 p2..<min (p1 + l1) (p2 + l2)}" by auto
  then show ?thesis using assms by (auto simp: calcIntersectionLength_def Let_def max_def min_def s d e section_ok_def)
qed

text \<open>The area is the number of common pixels, when that is an \<open>int\<close>.\<close>

lemma intersection_area:
  assumes "section_ok x1 w1" "section_ok y1 h1" "section_ok x2 w2" "section_ok y2 h2"
    and "card (pixels x1 y1 w1 h1 \<inter> pixels x2 y2 w2 h2) < 2 ^ 31"
  shows "calcIntersectionArea x1 y1 w1 h1 x2 y2 w2 h2 = int (card (pixels x1 y1 w1 h1 \<inter> pixels x2 y2 w2 h2))"
proof -
  have "calcIntersectionLength x1 w1 x2 w2 * calcIntersectionLength y1 h1 y2 h2 =
      int (card (pixels x1 y1 w1 h1 \<inter> pixels x2 y2 w2 h2))"
    unfolding pixels_Int card_cartesian_product of_nat_mult
    using intersection_length [OF assms(1,3)] intersection_length [OF assms(2,4)] by simp
  then show ?thesis using assms(5) by (simp add: calcIntersectionArea_def signed_id)
qed

lemma card_pixels_le:
  assumes "0 \<le> w" "0 \<le> h" shows "int (card (pixels x y w h \<inter> A)) \<le> w * h"
proof -
  have "card (pixels x y w h \<inter> A) \<le> card (pixels x y w h)" by (rule card_mono) (auto simp: pixels_def)
  also have "int (card (pixels x y w h)) = w * h" using assms by (simp add: pixels_def)
  finally show ?thesis by simp
qed

section \<open>Heads\<close>

text \<open>The corners of a rectangle are 32-bit numbers; a head has fewer than \<open>2 ^ 31\<close> pixels.\<close>

definition rect_ok :: "WMRect \<Rightarrow> bool" where
  "rect_ok r \<longleftrightarrow> section_ok (pt_x (pos r)) (size_width r) \<and> section_ok (pt_y (pos r)) (size_height r)"

definition rect_pixels :: "WMRect \<Rightarrow> (int \<times> int) set" where
  "rect_pixels r = pixels (pt_x (pos r)) (pt_y (pos r)) (size_width r) (size_height r)"

lemma signed_small: "0 \<le> n \<Longrightarrow> n < 2 ^ 31 \<Longrightarrow> signed n = n"
  by (simp add: signed_def)

lemma finite_rect_pixels [simp]: "finite (rect_pixels r)"
  by (simp add: rect_pixels_def pixels_def)

definition heads_ok :: "HScreen \<Rightarrow> WMRect list \<Rightarrow> bool" where
  "heads_ok scr b \<longleftrightarrow> screens (xrandr_info scr) = Some b \<and> 0 \<le> hcount (xrandr_info scr) \<and>
     hcount (xrandr_info scr) \<le> int (length b) \<and> (\<forall>r \<in> set b. rect_ok r \<and> size_width r * size_height r < 2 ^ 31)"

lemma rect_area_pixels:
  assumes "rect_ok r" "rect_ok q" "size_width q * size_height q < 2 ^ 31"
  shows "rect_area r q = int (card (rect_pixels r \<inter> rect_pixels q))"
proof -
  have "int (card (rect_pixels q \<inter> rect_pixels r)) \<le> size_width q * size_height q"
    unfolding rect_pixels_def by (rule card_pixels_le) (use assms(2) in \<open>simp_all add: rect_ok_def section_ok_def\<close>)
  then have "card (rect_pixels r \<inter> rect_pixels q) < 2 ^ 31" using assms(3) by (simp add: Int_commute)
  moreover have "signed (size_width x) = size_width x" "signed (size_height x) = size_height x" if "rect_ok x" for x
    using that by (simp_all add: rect_ok_def section_ok_def signed_small)
  ultimately show ?thesis
    using assms(1,2) by (simp add: rect_area_def rect_pixels_def rect_ok_def intersection_area)
qed

text \<open>The area that a rectangle shares with the head \<open>i\<close>.\<close>

definition shared :: "WMRect list \<Rightarrow> WMRect \<Rightarrow> int \<Rightarrow> int" where
  "shared b rect i = int (card (rect_pixels rect \<inter> rect_pixels (b ! nat i)))"

lemma head_shared:
  assumes "heads_ok scr b" "rect_ok rect" "0 \<le> i" "i < hcount (xrandr_info scr)"
  shows "\<exists>head. head_rect scr i = Some head \<and> unsigned_long (rect_area rect head) = shared b rect i"
proof -
  let ?q = "b ! nat i"
  have "head_rect scr i = Some ?q" using assms by (simp add: heads_ok_def head_rect_def at_def)
  moreover have "?q \<in> set b" using assms by (intro nth_mem) (auto simp: heads_ok_def)
  then have q: "rect_ok ?q" "size_width ?q * size_height ?q < 2 ^ 31" using assms(1) by (simp_all add: heads_ok_def)
  have "int (card (rect_pixels ?q \<inter> rect_pixels rect)) \<le> size_width ?q * size_height ?q"
    unfolding rect_pixels_def by (rule card_pixels_le) (use q(1) in \<open>simp_all add: rect_ok_def section_ok_def\<close>)
  then have "unsigned_long (rect_area rect ?q) = shared b rect i"
    using q by (simp add: rect_area_pixels [OF assms(2)] unsigned_long_def shared_def Int_commute)
  ultimately show ?thesis by blast
qed

lemma shared_nonneg: "0 \<le> shared b rect i"
  by (simp add: shared_def)

text \<open>The loop keeps the first head that shares the most.\<close>

definition first_best :: "(int \<Rightarrow> int) \<Rightarrow> int \<Rightarrow> int \<Rightarrow> int \<Rightarrow> bool" where
  "first_best f n best area \<longleftrightarrow>
     (if best = -1 then area = 0 \<and> (\<forall>i. 0 \<le> i \<longrightarrow> i < n \<longrightarrow> f i = 0)
      else 0 \<le> best \<and> best < n \<and> f best = area \<and> 0 < area \<and> (\<forall>i. 0 \<le> i \<longrightarrow> i < n \<longrightarrow> f i \<le> area) \<and>
        (\<forall>i. 0 \<le> i \<longrightarrow> i < best \<longrightarrow> f i < area))"

lemma first_best_step:
  assumes "first_best f k best area" "0 \<le> k" "0 \<le> f k"
  shows "if f k > area then first_best f (k + 1) k (f k) else first_best f (k + 1) best area"
proof (cases "f k > area")
  case True
  have lt: "f i < f k" if "0 \<le> i" "i < k" for i
  proof (cases "best = -1")
    case b: True
    then have "f i = 0" "area = 0" using assms(1) that by (simp_all add: first_best_def)
    then show ?thesis using True by simp
  next
    case False
    then have "f i \<le> area" using assms(1) that by (simp add: first_best_def)
    then show ?thesis using True by simp
  qed
  moreover have "f i \<le> f k" if "0 \<le> i" "i < k + 1" for i
    using that lt [of i] by (cases "i = k") auto
  moreover have "0 < f k"
    using True assms(1) by (cases "best = -1") (simp_all add: first_best_def)
  ultimately show ?thesis using True assms(2) by (simp add: first_best_def)
next
  case False
  have "f i \<le> area" if "0 \<le> i" "i < k + 1" for i
    using that False assms(1) by (cases "i = k"; cases "best = -1") (simp_all add: first_best_def)
  moreover have "f k = 0" if "best = -1" using that False assms by (simp add: first_best_def)
  ultimately show ?thesis using False assms by (cases "best = -1") (auto simp: first_best_def)
qed

lemma best_head_loop:
  assumes "heads_ok scr b" "rect_ok rect" "n = hcount (xrandr_info scr)"
  shows "0 \<le> k \<Longrightarrow> k \<le> n \<Longrightarrow> first_best (shared b rect) k best area \<Longrightarrow>
    \<exists>best' area'. best_head scr rect [k..n - 1] (best, area) = Some (best', area') \<and> first_best (shared b rect) n best' area'"
proof (induction "nat (n - k)" arbitrary: k best area)
  case 0
  then show ?case by simp
next
  case (Suc m)
  then have k: "k < n" "[k..n - 1] = k # [k + 1..n - 1]" by (simp_all add: upto_rec1)
  obtain head where h: "head_rect scr k = Some head" "unsigned_long (rect_area rect head) = shared b rect k"
    using head_shared [OF assms(1,2)] k(1) Suc.prems(1) assms(3) by blast
  note st = first_best_step [OF Suc.prems(3,1) shared_nonneg]
  show ?case
    using Suc.hyps(1) [of "k + 1" k "shared b rect k"] Suc.hyps(1) [of "k + 1" best area] st Suc.hyps(2) Suc.prems k h
    by (simp split: if_splits)
qed

text \<open>
  C25: The head of a rectangle is the one that covers most of its pixels, the first of them when several do;
  only a rectangle that no head shows is given to the head of the pointer. The corners of the rectangle and of the heads
  are 32-bit numbers, and no head has \<open>2 ^ 31\<close> pixels or more: then no product of \<open>calcIntersectionArea\<close>
  overflows (\<open>large_overlap_overlooked\<close> shows a larger one).
\<close>

theorem head_for_rect_covers_most:
  assumes "heads_ok scr b" "rect_ok rect" "0 < hcount (xrandr_info scr)"
  shows "if \<forall>i. 0 \<le> i \<longrightarrow> i < hcount (xrandr_info scr) \<longrightarrow> rect_pixels rect \<inter> rect_pixels (b ! nat i) = {}
    then wGetHeadForRect scr rect = wGetHeadForPointerLocation scr
    else \<exists>i. wGetHeadForRect scr rect = Some i \<and> 0 \<le> i \<and> i < hcount (xrandr_info scr) \<and>
      (\<forall>j. 0 \<le> j \<longrightarrow> j < hcount (xrandr_info scr) \<longrightarrow> shared b rect j \<le> shared b rect i) \<and>
      (\<forall>j. 0 \<le> j \<longrightarrow> j < i \<longrightarrow> shared b rect j < shared b rect i)"
proof -
  let ?n = "hcount (xrandr_info scr)"
  have "first_best (shared b rect) 0 (-1) 0" by (simp add: first_best_def)
  then obtain best area where r: "best_head scr rect [0..?n - 1] (-1, 0) = Some (best, area)" "first_best (shared b rect) ?n best area"
    using best_head_loop [OF assms(1,2) refl, of 0 "-1" 0] assms(3) by auto
  have e: "wGetHeadForRect scr rect = (if best = -1 then wGetHeadForPointerLocation scr else Some best)"
    using r(1) assms(3) by (simp add: wGetHeadForRect_def wScreenHeads_def)
  have z: "shared b rect i = 0 \<longleftrightarrow> rect_pixels rect \<inter> rect_pixels (b ! nat i) = {}" for i
    by (simp add: shared_def)
  show ?thesis
  proof (cases "best = -1")
    case True
    then have "\<forall>i. 0 \<le> i \<longrightarrow> i < ?n \<longrightarrow> rect_pixels rect \<inter> rect_pixels (b ! nat i) = {}"
      using r(2) unfolding first_best_def z [symmetric] by simp
    then show ?thesis using e True by simp
  next
    case False
    then have b: "0 \<le> best" "best < ?n" "shared b rect best = area" "0 < area"
      "\<forall>i. 0 \<le> i \<longrightarrow> i < ?n \<longrightarrow> shared b rect i \<le> area" "\<forall>i. 0 \<le> i \<longrightarrow> i < best \<longrightarrow> shared b rect i < area"
      using r(2) by (simp_all add: first_best_def)
    then have "rect_pixels rect \<inter> rect_pixels (b ! nat best) \<noteq> {}" using z [of best] by auto
    then have n: "\<not> (\<forall>i. 0 \<le> i \<longrightarrow> i < ?n \<longrightarrow> rect_pixels rect \<inter> rect_pixels (b ! nat i) = {})" using b(1,2) by blast
    show ?thesis unfolding if_not_P [OF n] using e False b by (intro exI [of _ best]) simp
  qed
qed

lemma update_outputs_ok:
  "i + length outputs \<le> length block \<Longrightarrow>
   \<exists>block' primary'. update_outputs p outputs i block primary = Some (block', primary') \<and> length block' = length block \<and>
     (\<forall>k < length outputs. block' ! (i + k) = (case crtc (outputs ! k) of Some r \<Rightarrow> r | None \<Rightarrow> block ! (i + k))) \<and>
     (\<forall>k < i. block' ! k = block ! k)"
proof (induction outputs arbitrary: i block primary)
  case Nil
  then show ?case by simp
next
  case (Cons out outputs)
  define block1 where "block1 = (case crtc out of Some r \<Rightarrow> block[i := r] | None \<Rightarrow> block)"
  have l: "length block1 = length block" by (simp add: block1_def split: option.split)
  then have "Suc i + length outputs \<le> length block1" using Cons.prems by simp
  from Cons.IH [OF this] obtain block' primary' where
    r: "update_outputs p outputs (Suc i) block1 (if output_id out = p then int i else primary) = Some (block', primary')"
    "length block' = length block1"
    "\<forall>k < length outputs. block' ! (Suc i + k) = (case crtc (outputs ! k) of Some r \<Rightarrow> r | None \<Rightarrow> block1 ! (Suc i + k))"
    "\<forall>k < Suc i. block' ! k = block1 ! k" by metis
  have "update_outputs p (out # outputs) i block primary = Some (block', primary')"
    using r(1) Cons.prems by (simp add: block1_def Let_def split: option.splits if_splits)
  moreover have "block' ! (i + k) = (case crtc ((out # outputs) ! k) of Some r \<Rightarrow> r | None \<Rightarrow> block ! (i + k))"
    if "k < length (out # outputs)" for k
  proof (cases k)
    case 0
    then show ?thesis using r(4) Cons.prems by (simp add: block1_def split: option.split)
  next
    case (Suc m)
    then show ?thesis using r(3) that by (simp add: block1_def split: option.split)
  qed
  moreover have "block' ! k = block ! k" if "k < i" for k
    using r(4) that by (simp add: block1_def split: option.split)
  ultimately show ?case using r(2) l by auto
qed

lemma update_outputs_returns:
  "update_outputs p outputs i block primary \<noteq> None \<longleftrightarrow>
   (\<forall>k < length outputs. crtc (outputs ! k) \<noteq> None \<longrightarrow> i + k < length block)"
proof (induction outputs arbitrary: i block primary)
  case (Cons out outputs)
  have split: "(\<forall>k < length (out # outputs). crtc ((out # outputs) ! k) \<noteq> None \<longrightarrow> i + k < length block) \<longleftrightarrow>
      (crtc out \<noteq> None \<longrightarrow> i < length block) \<and> (\<forall>k < length outputs. crtc (outputs ! k) \<noteq> None \<longrightarrow> Suc i + k < length block)"
    by (auto simp: less_Suc_eq_0_disj)
  show ?case unfolding split by (simp add: Let_def Cons.IH del: not_None_eq not_Some_eq split: option.split)
qed simp

text \<open>
  The block of the heads is allocated once, for the outputs of the first update. An update returns if and only if
  every output that has a CRTC is inside that block: when more outputs are connected later, the update writes past
  the end of the block.
\<close>

theorem update_heads_in_block:
  "wUpdateXrandrInfo (Some outputs) primary info \<noteq> None \<longleftrightarrow>
   screens info = None \<or> (\<forall>k < length outputs. crtc (outputs ! k) \<noteq> None \<longrightarrow> k < length (the (screens info)))"
proof (cases "outputs = []")
  case False
  define block where "block = (case screens info of None \<Rightarrow> replicate (length outputs + 1) zero_rect | Some b \<Rightarrow> b)"
  have "wUpdateXrandrInfo (Some outputs) primary info \<noteq> None \<longleftrightarrow> update_outputs primary outputs 0 block (primary_head info) \<noteq> None"
    using False by (auto simp: wUpdateXrandrInfo_def block_def Let_def split: Option.bind_splits)
  then show ?thesis unfolding update_outputs_returns by (auto simp: block_def split: option.split)
qed (simp add: wUpdateXrandrInfo_def Let_def)

definition sample_output :: "nat \<Rightarrow> int \<Rightarrow> XRROutput" where
  "sample_output n x = \<lparr>output_id = n, crtc = Some \<lparr>pos = \<lparr>pt_x = x, pt_y = 0\<rparr>, size_width = 1920, size_height = 1080\<rparr>\<rparr>"

theorem update_heads_in_block_witness:
  "\<exists>info. wUpdateXrandrInfo (Some [sample_output 7 0]) 7 wInitXrandr_info = Some info \<and>
     wUpdateXrandrInfo (Some [sample_output 7 0, sample_output 8 1920, sample_output 9 3840]) 7 info = None"
proof -
  obtain info where i: "wUpdateXrandrInfo (Some [sample_output 7 0]) 7 wInitXrandr_info = Some info"
    using update_heads_in_block [of "[sample_output 7 0]" 7 wInitXrandr_info] by (auto simp: wInitXrandr_info_def)
  then obtain b where b: "screens info = Some b" "length b = 2"
    by (auto simp: wUpdateXrandrInfo_def wInitXrandr_info_def Let_def sample_output_def)
  have "\<not> (\<forall>k < length [sample_output 7 0, sample_output 8 1920, sample_output 9 3840].
      crtc ([sample_output 7 0, sample_output 8 1920, sample_output 9 3840] ! k) \<noteq> None \<longrightarrow> k < length (the (screens info)))"
    using b by (auto simp: sample_output_def intro!: exI [of _ 2])
  then show ?thesis
    using i b update_heads_in_block [of "[sample_output 7 0, sample_output 8 1920, sample_output 9 3840]" 7 info] by auto
qed

text \<open>An output without a CRTC keeps the rectangle it had and still counts as a head.\<close>

lemma unplugged_head_stays:
  assumes "screens info = Some b" "length outputs \<le> length b" "k < length outputs" "crtc (outputs ! k) = None"
  shows "\<exists>info'. wUpdateXrandrInfo (Some outputs) primary info = Some info' \<and> hcount info' = int (length outputs) \<and>
    (\<exists>b'. screens info' = Some b' \<and> b' ! k = b ! k)"
proof -
  obtain b' p' where "update_outputs primary outputs 0 b (primary_head info) = Some (b', p')"
    "\<forall>k < length outputs. b' ! (0 + k) = (case crtc (outputs ! k) of Some r \<Rightarrow> r | None \<Rightarrow> b ! (0 + k))"
    using update_outputs_ok [of 0 outputs b] assms(2) by (metis add_0)
  then show ?thesis using assms by (auto simp: wUpdateXrandrInfo_def Let_def)
qed

text \<open>
  The flag that a rectangle is on several heads depends on the order of the heads: it is set only when a later head
  shows more of the rectangle.
\<close>

definition two_heads :: HScreen where
  "two_heads = \<lparr>xrandr_info = \<lparr>primary_head = 0, screens = Some (map (the \<circ> crtc) [sample_output 7 0, sample_output 8 1920]), hcount = 2\<rparr>,
     scr_width = 3840, scr_height = 1080, usableArea = [], totalUsableArea = [], dock = None, icon_yard_mapped = True, pointer = None\<rparr>"

lemma multiple_flag_depends_on_order:
  "wGetRectPlacementInfo two_heads \<lparr>pos = \<lparr>pt_x = 1800, pt_y = 0\<rparr>, size_width = 200, size_height = 100\<rparr> = Some (0, 0)"
  "wGetRectPlacementInfo two_heads \<lparr>pos = \<lparr>pt_x = 1900, pt_y = 0\<rparr>, size_width = 200, size_height = 100\<rparr> = Some (1, XFLAG_MULTIPLE)"
  by code_simp+

text \<open>
  The area is an \<open>int\<close>: a rectangle of \<open>65536\<close> times \<open>65536\<close> pixels has area 0 in a head that shows all of it, and
  the head that shows one row of it wins.
\<close>

lemma large_overlap_overlooked:
  "wGetHeadForRect (two_heads\<lparr>xrandr_info := \<lparr>primary_head = 0,
       screens = Some [\<lparr>pos = \<lparr>pt_x = 0, pt_y = 0\<rparr>, size_width = 65536, size_height = 65536\<rparr>,
         \<lparr>pos = \<lparr>pt_x = 0, pt_y = 0\<rparr>, size_width = 65535, size_height = 1\<rparr>], hcount = 2\<rparr>\<rparr>)
     \<lparr>pos = \<lparr>pt_x = 0, pt_y = 0\<rparr>, size_width = 65536, size_height = 65536\<rparr> = Some 1"
  by code_simp

text \<open>A rectangle wider than the head is not centred: the difference is unsigned and wraps around.\<close>

lemma wide_rectangle_is_placed_far_off:
  "map_option pt_x (wGetPointToCenterRectInHead two_heads 0 2000 100) = Some (2 ^ 31 - 40)"
  by code_simp

theorem head_for_rect_covers_most_witness:
  "wGetHeadForRect two_heads \<lparr>pos = \<lparr>pt_x = 1900, pt_y = 0\<rparr>, size_width = 200, size_height = 100\<rparr> = Some 1"
proof -
  let ?r = "\<lparr>pos = \<lparr>pt_x = 1900, pt_y = 0\<rparr>, size_width = 200, size_height = 100\<rparr>"
  let ?b = "map (the \<circ> crtc) [sample_output 7 0, sample_output 8 1920]"
  have ok: "heads_ok two_heads ?b" "rect_ok ?r" "0 < hcount (xrandr_info two_heads)"
    by (simp_all add: heads_ok_def rect_ok_def section_ok_def two_heads_def sample_output_def)
  have m: "(1950, 50) \<in> rect_pixels ?r \<inter> rect_pixels (?b ! nat 1)"
    by (simp add: rect_pixels_def pixels_def sample_output_def)
  have n: "\<not> (\<forall>i. 0 \<le> i \<longrightarrow> i < hcount (xrandr_info two_heads) \<longrightarrow> rect_pixels ?r \<inter> rect_pixels (?b ! nat i) = {})"
    using m by (auto simp: two_heads_def intro!: exI [of _ 1])
  have r: "rect_pixels ?r \<inter> rect_pixels (?b ! nat 0) = {1900..<1920} \<times> {0..<100}"
    "rect_pixels ?r \<inter> rect_pixels (?b ! nat 1) = {1920..<2100} \<times> {0..<100}"
    by (auto simp: rect_pixels_def pixels_def sample_output_def)
  have s: "shared ?b ?r 0 = 2000" "shared ?b ?r 1 = 18000"
    unfolding shared_def r card_cartesian_product by simp_all
  obtain i where "wGetHeadForRect two_heads ?r = Some i" "0 \<le> i" "i < 2"
    "\<forall>j. 0 \<le> j \<longrightarrow> j < 2 \<longrightarrow> shared ?b ?r j \<le> shared ?b ?r i"
    using head_for_rect_covers_most [OF ok] unfolding if_not_P [OF n] by (auto simp: two_heads_def)
  moreover have "i \<noteq> 0"
  proof
    assume "i = 0"
    then have "shared ?b ?r 1 \<le> shared ?b ?r 0" using calculation(4) by simp
    then show False unfolding s by simp
  qed
  ultimately have "i = 1" by simp
  then show ?thesis using \<open>wGetHeadForRect two_heads ?r = Some i\<close> by simp
qed

end
