(* ===== verification/WMPlacementSpec.thy ===== *)
theory WMPlacementSpec
  imports WMPlacement WMHeadsSpec
begin

text \<open>
  The properties of the placement of windows: what the automatic and the smart search find, on any list
  of windows, and that a window is always placed inside the usable area.
\<close>

section \<open>The list of the windows\<close>

text \<open>\<open>cs\<close> are linked both ways, and \<open>p\<close> is before the first.\<close>

fun chained :: "PScreen \<Rightarrow> nat ptr \<Rightarrow> nat list \<Rightarrow> bool" where
  "chained scr p [] \<longleftrightarrow> True"
| "chained scr p (x # xs) \<longleftrightarrow>
     (\<exists>w. clients scr x = Some w \<and> prev_window w = p \<and> next_window w = (case xs of [] \<Rightarrow> NULL | y # _ \<Rightarrow> Some y)) \<and>
     chained scr (Some x) xs"

definition client_list :: "PScreen \<Rightarrow> nat list \<Rightarrow> bool" where
  "client_list scr cs \<longleftrightarrow> chained scr NULL cs \<and>
     (case focused_window scr of None \<Rightarrow> cs = [] | Some f \<Rightarrow> f \<in> set cs)"

definition client :: "PScreen \<Rightarrow> nat \<Rightarrow> WClient" where
  "client scr i = the (clients scr i)"

lemma chained_append: "chained scr p (xs @ ys) \<Longrightarrow> chained scr (if xs = [] then p else Some (last xs)) ys"
  by (induction xs arbitrary: p) (auto split: if_splits)

lemma chained_client: "chained scr p cs \<Longrightarrow> x \<in> set cs \<Longrightarrow> clients scr x = Some (client scr x)"
  by (induction cs arbitrary: p) (auto simp: client_def)

lemma no_overlap_forwards:
  "chained scr p (x # xs) \<Longrightarrow>
   no_overlap True scr a b w h ign (Some x) = Some (\<forall>i \<in> set (x # xs). \<not> window_overlaps scr (client scr i) a b w h ign)"
proof (induction xs arbitrary: p x)
  case Nil
  then show ?case by (subst no_overlap.simps) (auto simp: client_def other_window_def no_overlap.simps [of _ _ _ _ _ _ _ NULL])
next
  case (Cons y ys)
  have "no_overlap True scr a b w h ign (Some y) = Some (\<forall>i \<in> set (y # ys). \<not> window_overlaps scr (client scr i) a b w h ign)"
    by (rule Cons.IH [of "Some x"]) (use Cons.prems in auto)
  then show ?case using Cons.prems by (subst no_overlap.simps) (auto simp: client_def other_window_def)
qed

lemma no_overlap_backwards:
  "chained scr NULL (us @ f # vs) \<Longrightarrow>
   no_overlap False scr a b w h ign (Some f) = Some (\<forall>i \<in> set (us @ [f]). \<not> window_overlaps scr (client scr i) a b w h ign)"
proof (induction us arbitrary: f vs rule: rev_induct)
  case Nil
  then show ?case by (subst no_overlap.simps) (auto simp: client_def other_window_def no_overlap.simps [of _ _ _ _ _ _ _ NULL])
next
  case (snoc u us)
  have "no_overlap False scr a b w h ign (Some u) = Some (\<forall>i \<in> set (us @ [u]). \<not> window_overlaps scr (client scr i) a b w h ign)"
    by (rule snoc.IH [of u "f # vs"]) (use snoc.prems in simp)
  moreover obtain c where "clients scr f = Some c" "prev_window c = Some u"
    using chained_append [OF snoc.prems] by auto
  ultimately show ?case by (subst no_overlap.simps) (auto simp: client_def other_window_def)
qed

lemma screen_has_space_ok:
  assumes "client_list scr cs"
  shows "screen_has_space scr x y w h ign = Some (\<forall>i \<in> set cs. \<not> window_overlaps scr (client scr i) x y w h ign)"
proof (cases "focused_window scr")
  case None
  then show ?thesis using assms by (simp add: client_list_def screen_has_space_def no_overlap.simps [of _ _ _ _ _ _ _ NULL])
next
  case (Some f)
  then have "f \<in> set cs" using assms by (simp add: client_list_def)
  then obtain us vs where cs: "cs = us @ f # vs" by (meson split_list)
  have c: "chained scr NULL (us @ f # vs)" using assms cs by (simp add: client_list_def)
  have "chained scr (if us = [] then NULL else Some (last us)) (f # vs)" by (rule chained_append [OF c])
  then have "no_overlap True scr x y w h ign (Some f) = Some (\<forall>i \<in> set (f # vs). \<not> window_overlaps scr (client scr i) x y w h ign)"
    by (rule no_overlap_forwards)
  then show ?thesis using no_overlap_backwards [OF c, of x y w h ign] Some
    by (auto simp: screen_has_space_def cs)
qed

lemma first_window_ok:
  "chained scr NULL (us @ f # vs) \<Longrightarrow> first_window scr (Some f) = Some (Some (hd (us @ [f])))"
proof (induction us arbitrary: f vs rule: rev_induct)
  case Nil
  then show ?case by (subst first_window.simps) auto
next
  case (snoc u us)
  have "first_window scr (Some u) = Some (Some (hd (us @ [u])))"
    by (rule snoc.IH [of u "f # vs"]) (use snoc.prems in simp)
  moreover obtain c where "clients scr f = Some c" "prev_window c = Some u"
    using chained_append [OF snoc.prems] by auto
  ultimately show ?case by (subst first_window.simps) (cases us; simp)
qed

text \<open>The windows that count for a place, and one step of the sum of what they cover of it, in 32 bits.\<close>

definition counted :: "PScreen \<Rightarrow> nat \<Rightarrow> bool" where
  "counted scr i \<longleftrightarrow> 0 \<le> client_level (client scr i) \<and> counts scr (client scr i)"

definition add_covered :: "PScreen \<Rightarrow> int \<Rightarrow> int \<Rightarrow> int \<Rightarrow> int \<Rightarrow> int \<Rightarrow> nat \<Rightarrow> int" where
  "add_covered scr x y w h s i =
     (let t = client scr i in
      if counted scr i then signed (s + calcIntersectionArea (frame_x t) (frame_y t) (width t) (height t) x y w h) else s)"

lemma sum_covered_ok:
  "chained scr p cs \<Longrightarrow>
   sum_covered scr x y w h (case cs of [] \<Rightarrow> NULL | c # _ \<Rightarrow> Some c) s = Some (foldl (add_covered scr x y w h) s cs)"
proof (induction cs arbitrary: p s)
  case Nil
  then show ?case by (subst sum_covered.simps) simp
next
  case (Cons c cs)
  have n: "clients scr c = Some (client scr c)" "next_window (client scr c) = (case cs of [] \<Rightarrow> NULL | y # _ \<Rightarrow> Some y)"
    using Cons.prems by (auto simp: client_def)
  have t: "chained scr (Some c) cs" using Cons.prems by simp
  show ?case
    by (subst sum_covered.simps) (simp add: n Cons.IH [OF t] add_covered_def [of _ _ _ _ _ _ c] counted_def Let_def)
qed

lemma calcSumOfCoveredAreas_ok:
  assumes "client_list scr cs"
  shows "calcSumOfCoveredAreas scr x y w h = Some (foldl (add_covered scr x y w h) 0 cs)"
proof (cases "focused_window scr")
  case None
  then show ?thesis using assms
    by (simp add: client_list_def calcSumOfCoveredAreas_def first_window.simps [of _ NULL] sum_covered.simps [of _ _ _ _ _ NULL])
next
  case (Some f)
  then have "f \<in> set cs" using assms by (simp add: client_list_def)
  then obtain us vs where cs: "cs = us @ f # vs" by (meson split_list)
  have c: "chained scr NULL cs" using assms by (simp add: client_list_def)
  have "first_window scr (Some f) = Some (Some (hd cs))" using first_window_ok [of scr us f vs] c unfolding cs by (cases us) simp_all
  moreover have "(case cs of [] \<Rightarrow> NULL | c # _ \<Rightarrow> Some c) = Some (hd cs)" using \<open>f \<in> set cs\<close> by (cases cs) simp_all
  ultimately show ?thesis using sum_covered_ok [OF c, of x y w h 0] Some by (simp add: calcSumOfCoveredAreas_def)
qed

section \<open>Unsigned sums\<close>

lemma unsigned_small: "0 \<le> n \<Longrightarrow> n < 2 ^ 32 \<Longrightarrow> unsigned n = n"
  by (simp add: unsigned_def)

text \<open>A window of size \<open>w\<close>, \<open>h\<close> whose decorations keep it below \<open>2 ^ 31\<close>, and an area of a screen.\<close>

definition area_ok :: "WPreferences \<Rightarrow> WArea \<Rightarrow> bool" where
  "area_ok prefs area \<longleftrightarrow> 0 \<le> area_x1 area \<and> area_x1 area \<le> area_x2 area \<and> area_x2 area < 2 ^ 30 \<and>
     0 \<le> area_y1 area \<and> area_y1 area \<le> area_y2 area \<and> area_y2 area < 2 ^ 30 \<and>
     X_ORIGIN prefs area < 2 ^ 30 \<and> Y_ORIGIN prefs area < 2 ^ 30"

lemma area_okD:
  assumes "area_ok prefs area"
  shows "0 \<le> area_x1 area" "area_x1 area \<le> area_x2 area" "area_x2 area < 2 ^ 30" "0 \<le> area_y1 area" "area_y1 area \<le> area_y2 area"
    "area_y2 area < 2 ^ 30" "X_ORIGIN prefs area < 2 ^ 30" "Y_ORIGIN prefs area < 2 ^ 30"
    "area_x1 area \<le> X_ORIGIN prefs area" "area_y1 area \<le> Y_ORIGIN prefs area" "0 \<le> X_ORIGIN prefs area" "0 \<le> Y_ORIGIN prefs area"
  using assms by (auto simp: area_ok_def X_ORIGIN_def Y_ORIGIN_def)

definition size_ok :: "PScreen \<Rightarrow> NewWindow \<Rightarrow> int \<Rightarrow> int \<Rightarrow> bool" where
  "size_ok scr wwin w h \<longleftrightarrow> 0 < w \<and> w < 2 ^ 28 \<and> 0 < h \<and> h < 2 ^ 28 \<and> 0 \<le> frame_border_width scr \<and> frame_border_width scr < 2 ^ 26 \<and>
     (case frame_widths wwin of None \<Rightarrow> True | Some (t, b) \<Rightarrow> 0 \<le> t \<and> t < 2 ^ 26 \<and> 0 \<le> b \<and> b < 2 ^ 26)"

text \<open>What the decorations add.\<close>

definition deco_width :: "PScreen \<Rightarrow> NewWindow \<Rightarrow> int" where
  "deco_width scr wwin = (if has_border wwin then 2 * frame_border_width scr else 0)"

definition deco_height :: "PScreen \<Rightarrow> NewWindow \<Rightarrow> int" where
  "deco_height scr wwin = (case frame_widths wwin of
       Some (t, b) \<Rightarrow> t + b
     | None \<Rightarrow> (if has_titlebar wwin then 18 else 0) + (if has_resizebar wwin then 8 else 0)) + deco_width scr wwin"

lemma deco_bounds:
  assumes "size_ok scr wwin w h"
  shows "0 \<le> deco_width scr wwin" "deco_width scr wwin < 2 ^ 27" "0 \<le> deco_height scr wwin" "deco_height scr wwin < 2 ^ 28"
  using assms by (auto simp: size_ok_def deco_width_def deco_height_def split: option.splits)

lemma set_width_height_eq:
  assumes "size_ok scr wwin w h" "0 \<le> w'" "w' < 2 ^ 30" "0 \<le> h'" "h' < 2 ^ 30"
  shows "set_width_height scr wwin (w', h') = (w' + deco_width scr wwin, h' + deco_height scr wwin)"
proof (cases "frame_widths wwin")
  case None
  then show ?thesis using assms
    by (cases "has_titlebar wwin"; cases "has_resizebar wwin"; cases "has_border wwin")
      (simp_all add: size_ok_def set_width_height_def deco_width_def deco_height_def TITLEBAR_HEIGHT_def RESIZEBAR_HEIGHT_def unsigned_small)
next
  case (Some tb)
  then show ?thesis using assms
    by (cases tb; cases "has_border wwin")
      (simp_all add: size_ok_def set_width_height_def deco_width_def deco_height_def unsigned_small)
qed

section \<open>Automatic placement\<close>

lemma auto_row_ok:
  assumes space: "\<And>x y. space x y = Some (free x y)" and w: "0 \<le> w" "w < 2 ^ 30" and sw: "0 \<le> sw" "sw < 2 ^ 30"
  shows "0 \<le> x \<Longrightarrow> x < 2 ^ 31 \<Longrightarrow> \<exists>r. auto_row space w sw y x = Some r \<and>
    (case r of
       Some (a, b) \<Rightarrow> b = y \<and> free a y \<and> (\<exists>k. a = x + 8 * int k) \<and> a + w < sw
     | None \<Rightarrow> \<forall>k. x + 8 * int k + w < sw \<longrightarrow> \<not> free (x + 8 * int k) y)"
proof (induction "nat (sw - x)" arbitrary: x rule: less_induct)
  case less
  have u: "unsigned (x + w) < unsigned sw \<longleftrightarrow> x + w < sw"
    using less.prems w sw by (simp add: unsigned_small)
  show ?case
  proof (cases "x + w < sw")
    case False
    have "auto_row space w sw y x = Some None" using u False by (subst auto_row.simps) simp
    moreover have "\<not> x + 8 * int k + w < sw" for k using False by linarith
    ultimately show ?thesis by auto
  next
    case True
    show ?thesis
    proof (cases "free x y")
      case f: True
      have "auto_row space w sw y x = Some (Some (x, y))" using u True f by (subst auto_row.simps) (simp add: space)
      then show ?thesis using f True by (auto intro!: exI [of _ 0])
    next
      case False
      have e: "auto_row space w sw y x = auto_row space w sw y (x + 8)"
        using u True False by (subst auto_row.simps) (simp add: space PLACETEST_HSTEP_def)
      obtain r where r: "auto_row space w sw y (x + 8) = Some r"
        "case r of Some (a, b) \<Rightarrow> b = y \<and> free a y \<and> (\<exists>k. a = x + 8 + 8 * int k) \<and> a + w < sw
         | None \<Rightarrow> \<forall>k. x + 8 + 8 * int k + w < sw \<longrightarrow> \<not> free (x + 8 + 8 * int k) y"
        using less.hyps [of "x + 8"] less.prems True w sw by auto
      have s: "x + 8 + 8 * int k = x + 8 * int (Suc k)" for k by simp
      have c: "case r of Some (a, b) \<Rightarrow> b = y \<and> free a y \<and> (\<exists>k. a = x + 8 * int k) \<and> a + w < sw
         | None \<Rightarrow> \<forall>k. x + 8 * int k + w < sw \<longrightarrow> \<not> free (x + 8 * int k) y"
      proof (cases r)
        case None
        have "\<not> free (x + 8 * int k) y" if "x + 8 * int k + w < sw" for k
          using r(2) None that False s by (cases k) (auto simp del: of_nat_Suc)
        then show ?thesis using None by simp
      next
        case (Some p)
        then obtain a b k where p: "p = (a, b)" "b = y" "free a y" "a = x + 8 + 8 * int k" "a + w < sw"
          using r(2) by (cases p) auto
        then have "a = x + 8 * int (Suc k)" by simp
        then show ?thesis unfolding Some p(1) option.case prod.case using p(2,3,5) by blast
      qed
      show ?thesis by (rule exI [of _ r], rule conjI, simp add: e r(1), rule c)
    qed
  qed
qed

text \<open>The places that the loops test.\<close>

definition grid :: "int \<Rightarrow> int \<Rightarrow> int \<Rightarrow> int \<Rightarrow> int \<Rightarrow> int \<Rightarrow> (int \<times> int) set" where
  "grid ox oy w h limit_x limit_y =
     {(x, y). (\<exists>k. x = ox + 8 * int k) \<and> (\<exists>l. y = oy + 8 * int l) \<and> x + w < limit_x \<and> y + h < limit_y}"

lemma step_by_8: "(\<exists>l. b = y + 8 * int l) \<longleftrightarrow> b = y \<or> (\<exists>l. b = y + 8 + 8 * int l)"
proof
  assume "\<exists>l. b = y + 8 * int l"
  then obtain l where "b = y + 8 * int l" by blast
  then show "b = y \<or> (\<exists>l. b = y + 8 + 8 * int l)" by (cases l) auto
next
  assume "b = y \<or> (\<exists>l. b = y + 8 + 8 * int l)"
  then show "\<exists>l. b = y + 8 * int l"
  proof
    assume "\<exists>l. b = y + 8 + 8 * int l"
    then obtain l where "b = y + 8 + 8 * int l" by blast
    then have "b = y + 8 * int (Suc l)" by simp
    then show ?thesis by blast
  qed (auto intro: exI [of _ 0])
qed

lemma auto_rows_ok:
  assumes space: "\<And>x y. space x y = Some (free x y)" and w: "0 \<le> w" "w < 2 ^ 30" and h: "0 \<le> h" "h < 2 ^ 30"
    and sw: "0 \<le> sw" "sw < 2 ^ 30" and sh: "0 \<le> sh" "sh < 2 ^ 30" and ox: "0 \<le> ox" "ox < 2 ^ 31"
  shows "0 \<le> y \<Longrightarrow> y < 2 ^ 31 \<Longrightarrow> \<exists>r. auto_rows space w h sw sh ox y = Some r \<and>
    (case r of
       Some (a, b) \<Rightarrow> (a, b) \<in> grid ox y w h sw sh \<and> free a b
     | None \<Rightarrow> \<forall>(a, b) \<in> grid ox y w h sw sh. \<not> free a b)"
proof (induction "nat (sh - y)" arbitrary: y rule: less_induct)
  case less
  have u: "unsigned (y + h) < unsigned sh \<longleftrightarrow> y + h < sh"
    using less.prems h sh by (simp add: unsigned_small)
  show ?case
  proof (cases "y + h < sh")
    case False
    have "auto_rows space w h sw sh ox y = Some None" using u False by (subst auto_rows.simps) simp
    moreover have "grid ox y w h sw sh = {}" using False by (auto simp: grid_def)
    ultimately show ?thesis by auto
  next
    case True
    obtain q where q: "auto_row space w sw y ox = Some q"
      "case q of Some (a, b) \<Rightarrow> b = y \<and> free a y \<and> (\<exists>k. a = ox + 8 * int k) \<and> a + w < sw
       | None \<Rightarrow> \<forall>k. ox + 8 * int k + w < sw \<longrightarrow> \<not> free (ox + 8 * int k) y"
      using auto_row_ok [of space free w sw ox y] space w sw ox by blast
    show ?thesis
    proof (cases q)
      case (Some p)
      then obtain a k where a: "p = (a, y)" "free a y" "a = ox + 8 * int k" "a + w < sw" using q(2) by (cases p) auto
      have "auto_rows space w h sw sh ox y = Some (Some (a, y))" using u True q(1) Some a(1) by (subst auto_rows.simps) simp
      moreover have "y = y + 8 * int 0" by simp
      then have "(a, y) \<in> grid ox y w h sw sh" unfolding grid_def using a(3,4) True by blast
      ultimately show ?thesis using a(2) by auto
    next
      case None
      have e: "auto_rows space w h sw sh ox y = auto_rows space w h sw sh ox (y + 8)"
        using u True q(1) None by (subst auto_rows.simps) (simp add: PLACETEST_VSTEP_def)
      obtain r where r: "auto_rows space w h sw sh ox (y + 8) = Some r"
        "case r of Some (a, b) \<Rightarrow> (a, b) \<in> grid ox (y + 8) w h sw sh \<and> free a b
         | None \<Rightarrow> \<forall>(a, b) \<in> grid ox (y + 8) w h sw sh. \<not> free a b"
        using less.hyps [of "y + 8"] less.prems True h sh by auto
      have g: "(a, b) \<in> grid ox y w h sw sh \<longleftrightarrow>
          (a, b) \<in> grid ox (y + 8) w h sw sh \<or> (b = y \<and> (\<exists>k. a = ox + 8 * int k) \<and> a + w < sw)" for a b
      proof -
        show ?thesis using True step_by_8 [of b y] by (auto simp: grid_def)
      qed
      have n: "\<not> free (ox + 8 * int k) y" if "ox + 8 * int k + w < sw" for k using q(2) None that by simp
      have c: "case r of Some (a, b) \<Rightarrow> (a, b) \<in> grid ox y w h sw sh \<and> free a b
         | None \<Rightarrow> \<forall>(a, b) \<in> grid ox y w h sw sh. \<not> free a b"
      proof (cases r)
        case None
        then have "\<not> free a b" if "(a, b) \<in> grid ox (y + 8) w h sw sh" for a b using r(2) that by auto
        then have "\<not> free a b" if "(a, b) \<in> grid ox y w h sw sh" for a b using that n unfolding g by blast
        then show ?thesis unfolding None by auto
      next
        case (Some p)
        then show ?thesis using r(2) g by (cases p) simp
      qed
      show ?thesis by (rule exI [of _ r], rule conjI, simp add: e r(1), rule c)
    qed
  qed
qed

text \<open>A window is in the way of a rectangle when they share a pixel.\<close>

definition in_the_way :: "PScreen \<Rightarrow> bool \<Rightarrow> int \<Rightarrow> int \<Rightarrow> int \<Rightarrow> int \<Rightarrow> nat \<Rightarrow> bool" where
  "in_the_way scr ignore_sunken x y w h i \<longleftrightarrow> counts scr (client scr i) \<and> (ignore_sunken \<longrightarrow> 0 \<le> client_level (client scr i)) \<and>
     pixels (frame_x (client scr i)) (frame_y (client scr i)) (width (client scr i)) (height (client scr i)) \<inter> pixels x y w h \<noteq> {}"

lemma intervals_meet: "(0::int) < l1 \<Longrightarrow> 0 < l2 \<Longrightarrow> {p1..<p1 + l1} \<inter> {p2..<p2 + l2} \<noteq> {} \<longleftrightarrow> p1 < p2 + l2 \<and> p1 + l1 > p2"
proof
  assume "0 < l1" "0 < l2" "p1 < p2 + l2 \<and> p1 + l1 > p2"
  then have "max p1 p2 \<in> {p1..<p1 + l1} \<inter> {p2..<p2 + l2}" by auto
  then show "{p1..<p1 + l1} \<inter> {p2..<p2 + l2} \<noteq> {}" by blast
qed auto

lemma window_overlaps_eq:
  assumes "0 < width win" "0 < height win" "0 < w" "0 < h"
  shows "window_overlaps scr win x y w h ign \<longleftrightarrow> counts scr win \<and> (ign \<longrightarrow> 0 \<le> client_level win) \<and>
    pixels (frame_x win) (frame_y win) (width win) (height win) \<inter> pixels x y w h \<noteq> {}"
proof -
  have "A \<times> B \<noteq> {} \<longleftrightarrow> A \<noteq> {} \<and> B \<noteq> {}" for A B :: "int set" by auto
  then show ?thesis
    unfolding pixels_Int by (simp only: intervals_meet [OF assms(1,3)] intervals_meet [OF assms(2,4)]) (auto simp: window_overlaps_def)
qed

definition clients_ok :: "PScreen \<Rightarrow> nat list \<Rightarrow> bool" where
  "clients_ok scr cs \<longleftrightarrow> client_list scr cs \<and> (\<forall>i \<in> set cs. 0 < width (client scr i) \<and> 0 < height (client scr i))"

lemma space_ok:
  assumes "clients_ok scr cs" "0 < w" "0 < h"
  shows "screen_has_space scr x y w h ign = Some (\<forall>i \<in> set cs. \<not> in_the_way scr ign x y w h i)"
proof -
  have l: "client_list scr cs" using assms(1) by (simp add: clients_ok_def)
  have "window_overlaps scr (client scr i) x y w h ign = in_the_way scr ign x y w h i" if "i \<in> set cs" for i
    using window_overlaps_eq [of "client scr i" w h] assms that by (simp add: clients_ok_def in_the_way_def)
  then show ?thesis using screen_has_space_ok [OF l] by simp
qed

lemma in_the_way_sunken: "in_the_way scr True x y w h i \<Longrightarrow> in_the_way scr False x y w h i"
  by (simp add: in_the_way_def)

text \<open>The centre when it is free of every window, else what the search of the grid gives.\<close>

definition free_centre :: "PScreen \<Rightarrow> nat list \<Rightarrow> NewWindow \<Rightarrow> int \<Rightarrow> int \<Rightarrow> WArea \<Rightarrow> (int \<times> int) option" where
  "free_centre scr cs wwin w h area =
     (case center_place_window scr wwin w h area of
        None \<Rightarrow> None
      | Some (x, y) \<Rightarrow> if \<forall>i \<in> set cs. \<not> in_the_way scr False x y w h i then Some (x, y) else None)"

lemma auto_place_parts:
  assumes "clients_ok scr cs" "area_ok prefs area" "size_ok scr wwin w h"
  defines "w' \<equiv> w + deco_width scr wwin" and "h' \<equiv> h + deco_height scr wwin"
    and "G \<equiv> grid (X_ORIGIN prefs area) (Y_ORIGIN prefs area) (w + deco_width scr wwin) (h + deco_height scr wwin)
           (area_x2 area - area_x1 area) (area_y2 area - area_y1 area)"
  shows "\<exists>q. autoPlaceWindow prefs scr wwin w h ign area = Some (case free_centre scr cs wwin w' h' area of Some p \<Rightarrow> Some p | None \<Rightarrow> q) \<and>
    (case q of Some p \<Rightarrow> p \<in> G \<and> (\<forall>i \<in> set cs. \<not> in_the_way scr ign (fst p) (snd p) w' h' i)
     | None \<Rightarrow> \<forall>(x, y) \<in> G. \<exists>i \<in> set cs. in_the_way scr ign x y w' h' i)"
proof -
  note d = deco_bounds [OF assms(3)] and a = area_okD [OF assms(2)]
  have wh: "0 < w'" "w' < 2 ^ 29" "0 < h'" "h' < 2 ^ 29" using d assms(3) by (auto simp: size_ok_def w'_def h'_def)
  have e: "set_width_height scr wwin (w, h) = (w', h')"
    unfolding w'_def h'_def by (rule set_width_height_eq [OF assms(3)]) (use assms(3) in \<open>auto simp: size_ok_def\<close>)
  have sg: "signed w' = w'" "signed h' = h'" using wh by (simp_all add: signed_small)
  note sp = space_ok [OF assms(1) wh(1,3)]
  define free where "free = (\<lambda>x y. \<forall>i \<in> set cs. \<not> in_the_way scr ign x y w' h' i)"
  have sp': "screen_has_space scr x y w' h' ign = Some (free x y)" for x y by (simp add: sp free_def)
  have "\<exists>r. auto_rows (\<lambda>x y. screen_has_space scr x y w' h' ign) w' h' (area_x2 area - area_x1 area) (area_y2 area - area_y1 area)
      (X_ORIGIN prefs area) (Y_ORIGIN prefs area) = Some r \<and>
    (case r of Some (a, b) \<Rightarrow> (a, b) \<in> G \<and> free a b | None \<Rightarrow> \<forall>(a, b) \<in> G. \<not> free a b)"
    unfolding G_def w'_def [symmetric] h'_def [symmetric]
    by (rule auto_rows_ok) (use sp' wh a in auto)
  then obtain q where q: "auto_rows (\<lambda>x y. screen_has_space scr x y w' h' ign) w' h' (area_x2 area - area_x1 area) (area_y2 area - area_y1 area)
      (X_ORIGIN prefs area) (Y_ORIGIN prefs area) = Some q"
    "case q of Some (a, b) \<Rightarrow> (a, b) \<in> G \<and> free a b | None \<Rightarrow> \<forall>(a, b) \<in> G. \<not> free a b" by blast
  have "autoPlaceWindow prefs scr wwin w h ign area = Some (case free_centre scr cs wwin w' h' area of Some p \<Rightarrow> Some p | None \<Rightarrow> q)"
    using q(1) by (auto simp: autoPlaceWindow_def free_centre_def e sg sp split: option.splits prod.splits)
  moreover have "case q of Some p \<Rightarrow> p \<in> G \<and> (\<forall>i \<in> set cs. \<not> in_the_way scr ign (fst p) (snd p) w' h' i)
     | None \<Rightarrow> \<forall>(x, y) \<in> G. \<exists>i \<in> set cs. in_the_way scr ign x y w' h' i"
    using q(2) by (cases q) (auto simp: free_def)
  ultimately show ?thesis by (intro exI [of _ q] conjI)
qed

lemma auto_place_returns:
  assumes "clients_ok scr cs" "area_ok prefs area" "size_ok scr wwin w h"
  shows "\<exists>r. autoPlaceWindow prefs scr wwin w h ign area = Some r"
  using auto_place_parts [OF assms] by blast

text \<open>
  C27: Automatic placement always returns. The place it finds is free of every mapped window (with \<open>ignore_sunken\<close>, of
  every one that is not below the normal level); when it finds none, every place of the grid it searches is taken.
\<close>

theorem auto_place_finds_free:
  assumes "clients_ok scr cs" "area_ok prefs area" "size_ok scr wwin w h"
  shows "\<exists>r. autoPlaceWindow prefs scr wwin w h ign area = Some r \<and>
    (case r of
       Some (x, y) \<Rightarrow> \<forall>i \<in> set cs. \<not> in_the_way scr ign x y (w + deco_width scr wwin) (h + deco_height scr wwin) i
     | None \<Rightarrow> \<forall>(x, y) \<in> grid (X_ORIGIN prefs area) (Y_ORIGIN prefs area) (w + deco_width scr wwin) (h + deco_height scr wwin)
           (area_x2 area - area_x1 area) (area_y2 area - area_y1 area).
         \<exists>i \<in> set cs. in_the_way scr ign x y (w + deco_width scr wwin) (h + deco_height scr wwin) i)"
proof -
  let ?w = "w + deco_width scr wwin" and ?h = "h + deco_height scr wwin"
  obtain q where q: "autoPlaceWindow prefs scr wwin w h ign area = Some (case free_centre scr cs wwin ?w ?h area of Some p \<Rightarrow> Some p | None \<Rightarrow> q)"
    "case q of Some p \<Rightarrow> p \<in> grid (X_ORIGIN prefs area) (Y_ORIGIN prefs area) ?w ?h (area_x2 area - area_x1 area) (area_y2 area - area_y1 area) \<and>
       (\<forall>i \<in> set cs. \<not> in_the_way scr ign (fst p) (snd p) ?w ?h i)
     | None \<Rightarrow> \<forall>(x, y) \<in> grid (X_ORIGIN prefs area) (Y_ORIGIN prefs area) ?w ?h (area_x2 area - area_x1 area) (area_y2 area - area_y1 area).
         \<exists>i \<in> set cs. in_the_way scr ign x y ?w ?h i"
    using auto_place_parts [OF assms] by blast
  show ?thesis
  proof (cases "free_centre scr cs wwin ?w ?h area")
    case None
    then show ?thesis using q by (cases q) auto
  next
    case (Some p)
    then have "\<forall>i \<in> set cs. \<not> in_the_way scr False (fst p) (snd p) ?w ?h i" by (auto simp: free_centre_def split: option.splits if_splits)
    then have "\<forall>i \<in> set cs. \<not> in_the_way scr ign (fst p) (snd p) ?w ?h i" using in_the_way_sunken by (cases ign) auto
    then show ?thesis using q(1) Some by (cases p) auto
  qed
qed

text \<open>
  The bounds of the search are the width and height of the area, not its right and bottom edges: on a
  head whose origin is so far to the right (or down) that the window does not fit between the origin and that bound,
  automatic placement knows no place but the centre.
\<close>

theorem auto_place_on_second_head:
  assumes "clients_ok scr cs" "area_ok prefs area" "size_ok scr wwin w h"
    "area_x2 area - area_x1 area \<le> X_ORIGIN prefs area + w \<or> area_y2 area - area_y1 area \<le> Y_ORIGIN prefs area + h"
  shows "autoPlaceWindow prefs scr wwin w h ign area = Some (free_centre scr cs wwin (w + deco_width scr wwin) (h + deco_height scr wwin) area)"
proof -
  let ?G = "grid (X_ORIGIN prefs area) (Y_ORIGIN prefs area) (w + deco_width scr wwin) (h + deco_height scr wwin)
      (area_x2 area - area_x1 area) (area_y2 area - area_y1 area)"
  have G: "?G = {}" using assms(4) deco_bounds [OF assms(3)] unfolding grid_def by auto
  obtain q where q: "autoPlaceWindow prefs scr wwin w h ign area =
      Some (case free_centre scr cs wwin (w + deco_width scr wwin) (h + deco_height scr wwin) area of Some p \<Rightarrow> Some p | None \<Rightarrow> q)"
    "case q of Some p \<Rightarrow> p \<in> ?G \<and> (\<forall>i \<in> set cs. \<not> in_the_way scr ign (fst p) (snd p) (w + deco_width scr wwin) (h + deco_height scr wwin) i)
     | None \<Rightarrow> \<forall>(x, y) \<in> ?G. \<exists>i \<in> set cs. in_the_way scr ign x y (w + deco_width scr wwin) (h + deco_height scr wwin) i"
    using auto_place_parts [OF assms(1-3), of ign] by blast
  have "q = None" using q(2) unfolding G by (cases q) auto
  then show ?thesis using q(1) by (simp split: option.split)
qed

section \<open>Smart placement\<close>

text \<open>What a search over the places \<open>T\<close> makes of the best place.\<close>

definition improved :: "(int \<Rightarrow> int \<Rightarrow> int) \<Rightarrow> (int \<times> int) set \<Rightarrow> best_place \<Rightarrow> best_place \<Rightarrow> bool" where
  "improved S T best best' \<longleftrightarrow> fst best' \<le> fst best \<and> (\<forall>(x, y) \<in> T. fst best' \<le> S x y) \<and>
     (best' = best \<or> (\<exists>(x, y) \<in> T. best' = (S x y, x, y)))"

lemma improved_empty [simp]: "improved S {} best best' \<longleftrightarrow> best' = best"
  by (auto simp: improved_def)

lemma improved_Un: "improved S T best best1 \<Longrightarrow> improved S U best1 best2 \<Longrightarrow> improved S (T \<union> U) best best2"
  unfolding improved_def by fastforce

lemma try_place_ok:
  "covered x y = Some (S x y) \<Longrightarrow> \<exists>best'. try_place covered x y best = Some best' \<and> improved S {(x, y)} best best'"
  by (auto simp: try_place_def improved_def)

lemma smart_row_ok:
  assumes c: "\<And>x y. covered x y = Some (S x y)" and w: "0 \<le> w" "w < 2 ^ 30" and x2: "0 \<le> x2" "x2 < 2 ^ 30"
  shows "0 \<le> x \<Longrightarrow> x < 2 ^ 31 \<Longrightarrow> \<exists>best'. smart_row covered w x2 y x best = Some best' \<and>
    improved S {(a, y) |a. (\<exists>k. a = x + 8 * int k) \<and> a + w < x2} best best'"
proof (induction "nat (x2 - x)" arbitrary: x best rule: less_induct)
  case less
  have u: "unsigned (x + w) < unsigned x2 \<longleftrightarrow> x + w < x2"
    using less.prems w x2 by (simp add: unsigned_small)
  show ?case
  proof (cases "x + w < x2")
    case False
    then have E: "{(a, y) |a. (\<exists>k. a = x + 8 * int k) \<and> a + w < x2} = {}" by auto
    have "smart_row covered w x2 y x best = Some best" using u False by (subst smart_row.simps) simp
    then show ?thesis unfolding E by simp
  next
    case True
    obtain b1 where b1: "try_place covered x y best = Some b1" "improved S {(x, y)} best b1"
      using try_place_ok [of covered x y S] c by blast
    obtain b2 where b2: "smart_row covered w x2 y (x + 8) b1 = Some b2"
      "improved S {(a, y) |a. (\<exists>k. a = x + 8 + 8 * int k) \<and> a + w < x2} b1 b2"
      using less.hyps [of "x + 8" b1] less.prems True w x2 by auto
    have "{(x, y)} \<union> {(a, y) |a. (\<exists>k. a = x + 8 + 8 * int k) \<and> a + w < x2} = {(a, y) |a. (\<exists>k. a = x + 8 * int k) \<and> a + w < x2}"
      unfolding step_by_8 [of _ x] using True by auto
    then have "improved S {(a, y) |a. (\<exists>k. a = x + 8 * int k) \<and> a + w < x2} best b2"
      using improved_Un [OF b1(2) b2(2)] by simp
    moreover have "smart_row covered w x2 y x best = Some b2"
      using u True b1(1) b2(1) by (subst smart_row.simps) (simp add: PLACETEST_HSTEP_def)
    ultimately show ?thesis by blast
  qed
qed

lemma smart_rows_ok:
  assumes c: "\<And>x y. covered x y = Some (S x y)" and w: "0 \<le> w" "w < 2 ^ 30" and x2: "0 \<le> x2" "x2 < 2 ^ 30"
    and h: "0 \<le> h" "h < 2 ^ 30" and y2: "0 \<le> y2" "y2 < 2 ^ 30" and sx: "0 \<le> sx" "sx < 2 ^ 31"
  shows "0 \<le> y \<Longrightarrow> y < 2 ^ 31 \<Longrightarrow> \<exists>best'. smart_rows covered w h x2 y2 sx y best = Some best' \<and>
    improved S (grid sx y w h x2 y2) best best'"
proof (induction "nat (y2 - y)" arbitrary: y best rule: less_induct)
  case less
  have u: "unsigned (y + h) < unsigned y2 \<longleftrightarrow> y + h < y2"
    using less.prems h y2 by (simp add: unsigned_small)
  show ?case
  proof (cases "y + h < y2")
    case False
    then have E: "grid sx y w h x2 y2 = {}" by (auto simp: grid_def)
    have "smart_rows covered w h x2 y2 sx y best = Some best" using u False by (subst smart_rows.simps) simp
    then show ?thesis unfolding E by simp
  next
    case True
    let ?R = "{(a, y) |a. (\<exists>k. a = sx + 8 * int k) \<and> a + w < x2}"
    obtain b1 where b1: "smart_row covered w x2 y sx best = Some b1" "improved S ?R best b1"
      using smart_row_ok [of covered S w x2 sx y best] c w x2 sx by blast
    obtain b2 where b2: "smart_rows covered w h x2 y2 sx (y + 8) b1 = Some b2" "improved S (grid sx (y + 8) w h x2 y2) b1 b2"
      using less.hyps [of "y + 8" b1] less.prems True h y2 by auto
    have "?R \<union> grid sx (y + 8) w h x2 y2 = grid sx y w h x2 y2"
      unfolding grid_def step_by_8 [of _ y] using True by auto
    then have "improved S (grid sx y w h x2 y2) best b2" using improved_Un [OF b1(2) b2(2)] by simp
    moreover have "smart_rows covered w h x2 y2 sx y best = Some b2"
      using u True b1(1) b2(1) by (subst smart_rows.simps) (simp add: PLACETEST_VSTEP_def)
    ultimately show ?thesis by blast
  qed
qed

lemma refine_column_ok:
  assumes c: "\<And>x y. covered x y = Some (S x y)"
  shows "\<exists>best'. refine_column covered x ys best = Some best' \<and> improved S ({x} \<times> set ys) best best'"
proof (induction ys arbitrary: best)
  case (Cons y ys)
  obtain b1 where b1: "try_place covered x y best = Some b1" "improved S {(x, y)} best b1"
    using try_place_ok [of covered x y S] c by blast
  obtain b2 where b2: "refine_column covered x ys b1 = Some b2" "improved S ({x} \<times> set ys) b1 b2" using Cons.IH by blast
  have "{(x, y)} \<union> {x} \<times> set ys = {x} \<times> set (y # ys)" by auto
  then show ?case using b1(1) b2(1) improved_Un [OF b1(2) b2(2)] by simp
qed simp

lemma refine_columns_ok:
  assumes c: "\<And>x y. covered x y = Some (S x y)"
  shows "\<exists>best'. refine_columns covered ys xs best = Some best' \<and> improved S (set xs \<times> set ys) best best'"
proof (induction xs arbitrary: best)
  case (Cons x xs)
  obtain b1 where b1: "refine_column covered x ys best = Some b1" "improved S ({x} \<times> set ys) best b1"
    using refine_column_ok [of covered S x ys best] c by blast
  obtain b2 where b2: "refine_columns covered ys xs b1 = Some b2" "improved S (set xs \<times> set ys) b1 b2" using Cons.IH by blast
  have "{x} \<times> set ys \<union> set xs \<times> set ys = set (x # xs) \<times> set ys" by auto
  then show ?case using b1(1) b2(1) improved_Un [OF b1(2) b2(2)] by simp
qed simp

text \<open>What the code adds up for a place, and the pixels of the place that the windows cover, each counted once per window.\<close>

definition total_covered :: "PScreen \<Rightarrow> nat list \<Rightarrow> int \<Rightarrow> int \<Rightarrow> int \<Rightarrow> int \<Rightarrow> int" where
  "total_covered scr cs w h x y = foldl (add_covered scr x y w h) 0 cs"

definition covered_by :: "PScreen \<Rightarrow> int \<Rightarrow> int \<Rightarrow> int \<Rightarrow> int \<Rightarrow> nat \<Rightarrow> int" where
  "covered_by scr x y w h i =
     (let t = client scr i in
      if counted scr i then int (card (pixels (frame_x t) (frame_y t) (width t) (height t) \<inter> pixels x y w h)) else 0)"

definition covered_pixels :: "PScreen \<Rightarrow> nat list \<Rightarrow> int \<Rightarrow> int \<Rightarrow> int \<Rightarrow> int \<Rightarrow> int" where
  "covered_pixels scr cs w h x y = (\<Sum>i \<leftarrow> cs. covered_by scr x y w h i)"

text \<open>
  The windows have 32-bit corners, and those that count have, all together, fewer pixels than \<open>INT_MAX\<close>: then the sum does
  not overflow at any place.
\<close>

definition window_pixels :: "PScreen \<Rightarrow> nat \<Rightarrow> int" where
  "window_pixels scr i = (if counted scr i then width (client scr i) * height (client scr i) else 0)"

definition windows_small :: "PScreen \<Rightarrow> nat list \<Rightarrow> bool" where
  "windows_small scr cs \<longleftrightarrow>
     (\<forall>i \<in> set cs. section_ok (frame_x (client scr i)) (width (client scr i)) \<and>
        section_ok (frame_y (client scr i)) (height (client scr i))) \<and>
     (\<Sum>i \<leftarrow> cs. window_pixels scr i) < INT_MAX"

lemma covered_by_bounds:
  assumes "section_ok (frame_x (client scr i)) (width (client scr i))" "section_ok (frame_y (client scr i)) (height (client scr i))"
  shows "0 \<le> covered_by scr x y w h i" "covered_by scr x y w h i \<le> window_pixels scr i"
  using card_pixels_le [of "width (client scr i)" "height (client scr i)"] assms
  by (simp_all add: covered_by_def window_pixels_def section_ok_def Let_def)

lemma covered_pixels_bounds:
  assumes "\<forall>i \<in> set cs. section_ok (frame_x (client scr i)) (width (client scr i)) \<and>
    section_ok (frame_y (client scr i)) (height (client scr i))"
  shows "0 \<le> covered_pixels scr cs w h x y" "covered_pixels scr cs w h x y \<le> (\<Sum>i \<leftarrow> cs. window_pixels scr i)"
  using assms covered_by_bounds [of scr _ x y w h]
  by (auto simp: covered_pixels_def intro!: sum_list_nonneg sum_list_mono)

lemma add_covered_pixels:
  assumes "\<forall>i \<in> set cs. section_ok (frame_x (client scr i)) (width (client scr i)) \<and>
      section_ok (frame_y (client scr i)) (height (client scr i))"
    and "section_ok x w" "section_ok y h" "0 \<le> s" "s + (\<Sum>i \<leftarrow> cs. window_pixels scr i) < INT_MAX"
  shows "foldl (add_covered scr x y w h) s cs = s + covered_pixels scr cs w h x y"
  using assms
proof (induction cs arbitrary: s)
  case Nil
  then show ?case by (simp add: covered_pixels_def)
next
  case (Cons i cs)
  let ?t = "client scr i" and ?c = "covered_by scr x y w h i"
  have i: "section_ok (frame_x ?t) (width ?t)" "section_ok (frame_y ?t) (height ?t)" using Cons.prems(1) by simp_all
  note B = covered_by_bounds [OF i, of x y w h]
  have rest: "0 \<le> (\<Sum>j \<leftarrow> cs. window_pixels scr j)"
    using covered_pixels_bounds [of cs scr w h x y] Cons.prems(1) by auto
  have small: "s + ?c < INT_MAX" "s + ?c + (\<Sum>j \<leftarrow> cs. window_pixels scr j) < INT_MAX"
    using Cons.prems(5) B rest by simp_all
  have "add_covered scr x y w h s i = s + ?c"
  proof (cases "counted scr i")
    case True
    have "?c < 2 ^ 31" using small(1) Cons.prems(4) by (simp add: INT_MAX_def)
    then have "calcIntersectionArea (frame_x ?t) (frame_y ?t) (width ?t) (height ?t) x y w h = ?c"
      using intersection_area [OF i Cons.prems(2,3)] True by (simp add: covered_by_def Let_def)
    then show ?thesis
      using True small(1) Cons.prems(4) B(1) by (simp add: add_covered_def Let_def signed_id INT_MAX_def)
  qed (simp add: add_covered_def covered_by_def)
  then show ?case
    using Cons.IH [of "s + ?c"] Cons.prems(1-4) B(1) small(2) by (simp add: covered_pixels_def)
qed

lemma total_covered_pixels:
  assumes "windows_small scr cs" "section_ok x w" "section_ok y h"
  shows "total_covered scr cs w h x y = covered_pixels scr cs w h x y" "covered_pixels scr cs w h x y < INT_MAX"
  using assms add_covered_pixels [of cs scr x w y h 0] covered_pixels_bounds [of cs scr w h x y]
  by (auto simp: windows_small_def total_covered_def)

text \<open>The end of a search by pixels.\<close>

definition refine_limit :: "int \<Rightarrow> int \<Rightarrow> int \<Rightarrow> int" where
  "refine_limit m w limit = (if m + 8 + w > limit then limit - w else m + 8)"

lemma refine_limit_eq:
  assumes "0 \<le> m" "m < 2 ^ 30" "0 \<le> w" "w < 2 ^ 29" "0 \<le> limit" "limit < 2 ^ 30"
  shows "(if unsigned (m + 8 + w) > unsigned limit then signed (limit - w) else m + 8) = refine_limit m w limit"
  using assms by (auto simp: refine_limit_def unsigned_small signed_def)

lemma smart_place_parts:
  assumes "clients_ok scr cs" "area_ok prefs area" "size_ok scr wwin w h"
  defines "w' \<equiv> w + deco_width scr wwin" and "h' \<equiv> h + deco_height scr wwin"
    and "X \<equiv> X_ORIGIN prefs area" and "Y \<equiv> Y_ORIGIN prefs area"
  shows "\<exists>c gx gy b. improved (total_covered scr cs w' h') (grid X Y w' h' (area_x2 area) (area_y2 area)) (INT_MAX, X, Y) (c, gx, gy) \<and>
    improved (total_covered scr cs w' h')
      ({max (gx - 7) X..<refine_limit gx w' (area_x2 area)} \<times> {max (gy - 7) Y..<refine_limit gy h' (area_y2 area)}) (c, gx, gy) b \<and>
    smartPlaceWindow prefs scr wwin w h area = Some (snd b) \<and> X \<le> gx \<and> gx < 2 ^ 30 \<and> Y \<le> gy \<and> gy < 2 ^ 30"
proof -
  note d = deco_bounds [OF assms(3)] and a = area_okD [OF assms(2), folded X_def Y_def]
  have wh: "0 < w'" "w' < 2 ^ 29" "0 < h'" "h' < 2 ^ 29" using d assms(3) by (auto simp: size_ok_def w'_def h'_def)
  have e: "set_width_height scr wwin (w, h) = (w', h')"
    unfolding w'_def h'_def by (rule set_width_height_eq [OF assms(3)]) (use assms(3) in \<open>auto simp: size_ok_def\<close>)
  have sg: "signed w' = w'" "signed h' = h'" using wh by (simp_all add: signed_small)
  have l: "client_list scr cs" using assms(1) by (simp add: clients_ok_def)
  define covered where "covered = (\<lambda>x y. calcSumOfCoveredAreas scr x y w' h')"
  have c: "covered x y = Some (total_covered scr cs w' h' x y)" for x y
    using calcSumOfCoveredAreas_ok [OF l] by (simp add: covered_def total_covered_def)
  obtain cc gx gy where r1: "smart_rows covered w' h' (area_x2 area) (area_y2 area) X Y (INT_MAX, X, Y) = Some (cc, gx, gy)"
    "improved (total_covered scr cs w' h') (grid X Y w' h' (area_x2 area) (area_y2 area)) (INT_MAX, X, Y) (cc, gx, gy)"
  proof -
    have "\<exists>best'. smart_rows covered w' h' (area_x2 area) (area_y2 area) X Y (INT_MAX, X, Y) = Some best' \<and>
      improved (total_covered scr cs w' h') (grid X Y w' h' (area_x2 area) (area_y2 area)) (INT_MAX, X, Y) best'"
      by (rule smart_rows_ok) (use c wh a in auto)
    then show ?thesis using that by (metis prod_cases3)
  qed
  have g: "X \<le> gx" "gx < 2 ^ 30" "Y \<le> gy" "gy < 2 ^ 30"
    using r1(2) a wh by (auto simp: improved_def grid_def)
  obtain b where b: "refine_columns covered [max (gy - 7) Y..refine_limit gy h' (area_y2 area) - 1]
      [max (gx - 7) X..refine_limit gx w' (area_x2 area) - 1] (cc, gx, gy) = Some b"
    "improved (total_covered scr cs w' h')
      (set [max (gx - 7) X..refine_limit gx w' (area_x2 area) - 1] \<times> set [max (gy - 7) Y..refine_limit gy h' (area_y2 area) - 1]) (cc, gx, gy) b"
    using refine_columns_ok [of covered "total_covered scr cs w' h'"] c by blast
  have s: "set [m..n - 1] = {m..<n}" for m n :: int by auto
  have "refine_limit gx w' (area_x2 area) = (if unsigned (gx + 8 + w') > unsigned (area_x2 area) then signed (area_x2 area - w') else gx + 8)"
    "refine_limit gy h' (area_y2 area) = (if unsigned (gy + 8 + h') > unsigned (area_y2 area) then signed (area_y2 area - h') else gy + 8)"
    by (rule refine_limit_eq [symmetric]; use g a wh in simp)+
  note lim = this [symmetric]
  have "smartPlaceWindow prefs scr wwin w h area = Some (snd b)"
    using r1(1) b(1) by (simp add: smartPlaceWindow_def e sg covered_def [symmetric] X_def [symmetric] Y_def [symmetric]
      PLACETEST_HSTEP_def PLACETEST_VSTEP_def lim)
  then show ?thesis using r1(2) b(2) g unfolding s by blast
qed

lemma improved_cong: "\<forall>(x, y) \<in> P. f x y = g x y \<Longrightarrow> improved f P b c \<Longrightarrow> improved g P b c"
  unfolding improved_def by fastforce

text \<open>
  C28: A window that fits into the usable area, below \<open>2 ^ 30\<close>, is placed inside it by the smart placement, at a place of which the other
  windows cover fewest pixels among all places of the grid, and no place less than eight pixels around the best
  place of the grid has fewer. The windows that count have 32-bit corners and all together fewer than
  \<open>INT_MAX\<close> pixels, which keeps the \<open>int\<close> sums of the code from overflowing.
\<close>

theorem smart_place_least_covered:
  assumes "clients_ok scr cs" "area_ok prefs area" "size_ok scr wwin w h" "windows_small scr cs"
    "X_ORIGIN prefs area + w + deco_width scr wwin < area_x2 area" "Y_ORIGIN prefs area + h + deco_height scr wwin < area_y2 area"
  shows "\<exists>x y. smartPlaceWindow prefs scr wwin w h area = Some (x, y) \<and>
    X_ORIGIN prefs area \<le> x \<and> x + w + deco_width scr wwin < area_x2 area \<and>
    Y_ORIGIN prefs area \<le> y \<and> y + h + deco_height scr wwin < area_y2 area \<and>
    (let S = covered_pixels scr cs (w + deco_width scr wwin) (h + deco_height scr wwin);
         G = grid (X_ORIGIN prefs area) (Y_ORIGIN prefs area) (w + deco_width scr wwin) (h + deco_height scr wwin) (area_x2 area) (area_y2 area) in
     (\<forall>(a, b) \<in> G. S x y \<le> S a b) \<and>
     (\<exists>(gx, gy) \<in> G. \<forall>a b. \<bar>a - gx\<bar> < 8 \<longrightarrow> \<bar>b - gy\<bar> < 8 \<longrightarrow> X_ORIGIN prefs area \<le> a \<longrightarrow> Y_ORIGIN prefs area \<le> b \<longrightarrow>
        a + w + deco_width scr wwin < area_x2 area \<longrightarrow> b + h + deco_height scr wwin < area_y2 area \<longrightarrow> S x y \<le> S a b))"
proof -
  let ?w = "w + deco_width scr wwin" and ?h = "h + deco_height scr wwin" and ?X = "X_ORIGIN prefs area" and ?Y = "Y_ORIGIN prefs area"
  let ?T = "total_covered scr cs ?w ?h" and ?S = "covered_pixels scr cs ?w ?h" and ?G = "grid ?X ?Y ?w ?h (area_x2 area) (area_y2 area)"
  note a = area_okD [OF assms(2)] and d = deco_bounds [OF assms(3)]
  have S: "?T a b = ?S a b" "?S a b < INT_MAX" if "?X \<le> a" "a + ?w < area_x2 area" "?Y \<le> b" "b + ?h < area_y2 area" for a b
  proof -
    have "section_ok a ?w" "section_ok b ?h"
      using that a d assms(3) by (auto simp: section_ok_def size_ok_def)
    then show "?T a b = ?S a b" "?S a b < INT_MAX" using total_covered_pixels [OF assms(4)] by blast+
  qed
  have G: "?X \<le> a \<and> a + ?w < area_x2 area \<and> ?Y \<le> b \<and> b + ?h < area_y2 area" if "(a, b) \<in> ?G" for a b
    using that by (auto simp: grid_def)
  obtain c gx gy b where r0: "improved ?T ?G (INT_MAX, ?X, ?Y) (c, gx, gy)"
    "improved ?T ({max (gx - 7) ?X..<refine_limit gx ?w (area_x2 area)} \<times> {max (gy - 7) ?Y..<refine_limit gy ?h (area_y2 area)}) (c, gx, gy) b"
    "smartPlaceWindow prefs scr wwin w h area = Some (snd b)"
    using smart_place_parts [OF assms(1-3)] by blast
  have r1: "improved ?S ?G (INT_MAX, ?X, ?Y) (c, gx, gy)"
    by (rule improved_cong [OF _ r0(1)]) (use S(1) G in auto)
  have r2: "improved ?S ({max (gx - 7) ?X..<refine_limit gx ?w (area_x2 area)} \<times> {max (gy - 7) ?Y..<refine_limit gy ?h (area_y2 area)}) (c, gx, gy) b"
    by (rule improved_cong [OF _ r0(2)]) (auto intro!: S(1) simp: refine_limit_def split: if_splits)
  note r = r1 r2
  have "?X = ?X + 8 * int 0" "?Y = ?Y + 8 * int 0" by simp_all
  then have o: "(?X, ?Y) \<in> ?G" using assms(5,6) unfolding grid_def mem_Collect_eq prod.case by (simp only: add.assoc) blast
  have "c \<le> ?S ?X ?Y" using r(1) o by (auto simp: improved_def)
  moreover have "?S ?X ?Y < INT_MAX" using S(2) G [OF o] by blast
  ultimately have g: "(gx, gy) \<in> ?G" "c = ?S gx gy" using r(1) by (auto simp: improved_def)
  obtain x y where b: "b = (?S x y, x, y)" "?S x y \<le> c"
    "(x, y) = (gx, gy) \<or> (x, y) \<in> {max (gx - 7) ?X..<refine_limit gx ?w (area_x2 area)} \<times> {max (gy - 7) ?Y..<refine_limit gy ?h (area_y2 area)}"
    using r(2) g(2) by (auto simp: improved_def)
  have gg: "?X \<le> gx" "gx + ?w < area_x2 area" "?Y \<le> gy" "gy + ?h < area_y2 area" using g(1) by (auto simp: grid_def)
  have "?X \<le> x" "x + ?w < area_x2 area" "?Y \<le> y" "y + ?h < area_y2 area"
    using b(3) gg by (auto simp: refine_limit_def split: if_splits)
  moreover have "\<forall>(a, b) \<in> ?G. ?S x y \<le> ?S a b" using r(1) b(2) by (auto simp: improved_def)
  moreover have "?S x y \<le> ?S a b'" if "\<bar>a - gx\<bar> < 8" "\<bar>b' - gy\<bar> < 8" "?X \<le> a" "?Y \<le> b'" "a + ?w < area_x2 area" "b' + ?h < area_y2 area" for a b'
  proof -
    have "(a, b') \<in> {max (gx - 7) ?X..<refine_limit gx ?w (area_x2 area)} \<times> {max (gy - 7) ?Y..<refine_limit gy ?h (area_y2 area)}"
      using that by (auto simp: refine_limit_def)
    then show ?thesis using r(2) b(1) by (auto simp: improved_def)
  qed
  ultimately show ?thesis using r0(3) b(1) g(1) unfolding Let_def
    by (intro exI [of _ x] exI [of _ y] conjI bexI [of _ "(gx, gy)"]) (simp_all add: add.assoc)
qed

section \<open>Placing a window\<close>

text \<open>The last step keeps the window inside the area, wherever it was put.\<close>

lemma clip_place_inside:
  assumes "area_ok prefs area" "0 \<le> w" "w \<le> area_x2 area - area_x1 area" "0 \<le> h" "h \<le> area_y2 area - area_y1 area"
    and p: "- (2 ^ 31) \<le> x" "x < 2 ^ 31" "- (2 ^ 31) \<le> y" "y < 2 ^ 31"
  shows "\<exists>x' y'. clip_place area w h (x, y) = (x', y') \<and> area_x1 area \<le> x' \<and> x' + w \<le> area_x2 area \<and> area_y1 area \<le> y' \<and> y' + h \<le> area_y2 area"
proof -
  note a = area_okD [OF assms(1)]
  have one: "lo \<le> (let z = (if unsigned (z + n) > unsigned hi then signed (hi - n) else z) in if z < lo then lo else z) \<and>
      (let z = (if unsigned (z + n) > unsigned hi then signed (hi - n) else z) in if z < lo then lo else z) + n \<le> hi"
    if "0 \<le> lo" "lo \<le> hi" "hi < 2 ^ 30" "0 \<le> n" "n \<le> hi - lo" "- (2 ^ 31) \<le> z" "z < 2 ^ 31" for lo hi n z :: int
  proof -
    have hi: "unsigned hi = hi" "signed (hi - n) = hi - n" using that by (simp_all add: unsigned_small signed_def)
    show ?thesis
    proof (cases "0 \<le> z + n")
      case True
      then have "unsigned (z + n) = z + n" using that by (simp add: unsigned_small)
      then show ?thesis using hi that by (simp add: Let_def)
    next
      case False
      have "(z + n + 2 ^ 32) mod 2 ^ 32 = z + n + 2 ^ 32" by (rule mod_pos_pos_trivial) (use False that in auto)
      then have "unsigned (z + n) = z + n + 2 ^ 32" by (simp only: unsigned_def mod_add_self2)
      then show ?thesis using hi that by (simp add: Let_def)
    qed
  qed
  show ?thesis
    using one [of "area_x1 area" "area_x2 area" w x] one [of "area_y1 area" "area_y2 area" h y] a assms(2-5) p
    by (simp add: clip_place_def Let_def)
qed

text \<open>The place that every method gives is in the range of \<open>int\<close>.\<close>

definition in_range :: "int \<times> int \<Rightarrow> bool" where
  "in_range p \<longleftrightarrow> - (2 ^ 31) \<le> fst p \<and> fst p < 2 ^ 31 \<and> - (2 ^ 31) \<le> snd p \<and> snd p < 2 ^ 31"

lemma signed_range: "- (2 ^ 31) \<le> signed n \<and> signed n < 2 ^ 31"
  by (simp add: signed_def)

lemma center_in_range: "center_place_window scr wwin w h area = Some p \<Longrightarrow> in_range p"
  using signed_range by (auto simp: center_place_window_def Let_def in_range_def split: prod.splits if_splits)

lemma auto_in_range:
  assumes "clients_ok scr cs" "area_ok prefs area" "size_ok scr wwin w h" "autoPlaceWindow prefs scr wwin w h ign area = Some (Some p)"
  shows "in_range p"
proof -
  note a = area_okD [OF assms(2)] and d = deco_bounds [OF assms(3)]
  have "in_range p" if "free_centre scr cs wwin w' h' area = Some p" for w' h'
    using that center_in_range by (auto simp: free_centre_def split: option.splits if_splits)
  moreover have "in_range p" if "p \<in> grid (X_ORIGIN prefs area) (Y_ORIGIN prefs area) (w + deco_width scr wwin) (h + deco_height scr wwin)
           (area_x2 area - area_x1 area) (area_y2 area - area_y1 area)"
    using that a d assms(3) by (auto simp: grid_def in_range_def size_ok_def)
  moreover obtain q where q: "autoPlaceWindow prefs scr wwin w h ign area =
      Some (case free_centre scr cs wwin (w + deco_width scr wwin) (h + deco_height scr wwin) area of Some p \<Rightarrow> Some p | None \<Rightarrow> q)"
    "case q of Some p \<Rightarrow> p \<in> grid (X_ORIGIN prefs area) (Y_ORIGIN prefs area) (w + deco_width scr wwin) (h + deco_height scr wwin)
           (area_x2 area - area_x1 area) (area_y2 area - area_y1 area) \<and>
         (\<forall>i \<in> set cs. \<not> in_the_way scr ign (fst p) (snd p) (w + deco_width scr wwin) (h + deco_height scr wwin) i)
     | None \<Rightarrow> \<forall>(x, y) \<in> grid (X_ORIGIN prefs area) (Y_ORIGIN prefs area) (w + deco_width scr wwin) (h + deco_height scr wwin)
           (area_x2 area - area_x1 area) (area_y2 area - area_y1 area).
         \<exists>i \<in> set cs. in_the_way scr ign x y (w + deco_width scr wwin) (h + deco_height scr wwin) i"
    using auto_place_parts [OF assms(1-3), of ign] by blast
  ultimately show ?thesis
    using assms(4) by (cases "free_centre scr cs wwin (w + deco_width scr wwin) (h + deco_height scr wwin) area") auto
qed

lemma smart_in_range:
  assumes "clients_ok scr cs" "area_ok prefs area" "size_ok scr wwin w h"
  shows "\<exists>p. smartPlaceWindow prefs scr wwin w h area = Some p \<and> in_range p"
proof -
  note a = area_okD [OF assms(2)] and d = deco_bounds [OF assms(3)]
  let ?w = "w + deco_width scr wwin" and ?h = "h + deco_height scr wwin" and ?X = "X_ORIGIN prefs area" and ?Y = "Y_ORIGIN prefs area"
  obtain c gx gy b where r:
    "improved (total_covered scr cs ?w ?h) ({max (gx - 7) ?X..<refine_limit gx ?w (area_x2 area)} \<times> {max (gy - 7) ?Y..<refine_limit gy ?h (area_y2 area)}) (c, gx, gy) b"
    "smartPlaceWindow prefs scr wwin w h area = Some (snd b)" "?X \<le> gx" "gx < 2 ^ 30" "?Y \<le> gy" "gy < 2 ^ 30"
    using smart_place_parts [OF assms] by blast
  have "in_range (snd b)"
    using r(1,3-6) a d assms(3) by (auto simp: improved_def in_range_def refine_limit_def size_ok_def split: if_splits)
  then show ?thesis using r(2) by blast
qed

lemma random_in_range:
  assumes "area_ok prefs area" "size_ok scr wwin w h" "0 \<le> r1" "0 \<le> r2"
  shows "in_range (randomPlaceWindow prefs scr wwin w h area r1 r2)"
proof -
  note a = area_okD [OF assms(1)] and d = deco_bounds [OF assms(2)]
  have m: "0 \<le> r smod n \<and> r smod n < n" if "0 \<le> r" "1 \<le> n" for r n :: int
    using that by (simp add: smod_int_alt_def sgn_if)
  have e: "set_width_height scr wwin (w, h) = (w + deco_width scr wwin, h + deco_height scr wwin)"
    by (rule set_width_height_eq [OF assms(2)]) (use assms(2) in \<open>auto simp: size_ok_def\<close>)
  let ?n = "\<lambda>k. if signed k < 1 then 1 else signed k"
  have b: "1 \<le> ?n k \<and> ?n k \<le> 2 ^ 30" if "- (2 ^ 31) \<le> k" "k \<le> 2 ^ 30" for k
    using that by (auto simp: signed_def)
  show ?thesis
    using m [OF assms(3), of "?n (area_x2 area - X_ORIGIN prefs area - (w + deco_width scr wwin))"]
      m [OF assms(4), of "?n (area_y2 area - Y_ORIGIN prefs area - (h + deco_height scr wwin))"]
      b [of "area_x2 area - X_ORIGIN prefs area - (w + deco_width scr wwin)"] b [of "area_y2 area - Y_ORIGIN prefs area - (h + deco_height scr wwin)"]
      a d assms(2)
    by (simp add: randomPlaceWindow_def e Let_def in_range_def size_ok_def)
qed

lemma cascade_in_range:
  assumes "area_ok prefs area" "0 \<le> step * (cascade_index scr + 1)" "step * (cascade_index scr + 1) < 2 ^ 30"
    "0 \<le> step * cascade_index scr" "step * cascade_index scr < 2 ^ 30"
  shows "in_range (snd (place_cascade how prefs scr wwin w h step area))"
proof -
  note a = area_okD [OF assms(1)]
  have "in_range (snd (cascadeWindow prefs s wwin w h step area))" if "0 \<le> step * cascade_index s" "step * cascade_index s < 2 ^ 30" for s
    using that a by (simp add: cascadeWindow_def Let_def in_range_def split: prod.split)
  then have c: "in_range (snd (cascadeWindow prefs scr wwin w h step area))"
    "in_range (snd (cascadeWindow prefs (scr\<lparr>cascade_index := cascade_index scr + 1\<rparr>) wwin w h step area))"
    using assms by simp_all
  then show ?thesis by (auto simp: place_cascade_def Let_def split: prod.split)
qed

text \<open>
  C26: However windows are placed, \<open>PlaceWindow\<close> returns, and a window that fits into the usable area of the head of the
  pointer is placed inside it, also when \<open>InteractivePlaceWindow\<close> returns a place far away.
\<close>

theorem place_window_inside_area:
  assumes "clients_ok scr cs" "area_ok prefs area" "size_ok scr wwin w h"
    "wGetHeadForPointerLocation heads = Some head" "wGetUsableAreaForHead prefs heads head True = Some area"
    "w \<le> area_x2 area - area_x1 area" "h \<le> area_y2 area - area_y1 area"
    "in_range manual" "0 \<le> r1" "0 \<le> r2"
    "0 \<le> title_step prefs scr * cascade_index scr" "title_step prefs scr * cascade_index scr < 2 ^ 30"
    "0 \<le> title_step prefs scr * (cascade_index scr + 1)" "title_step prefs scr * (cascade_index scr + 1) < 2 ^ 30"
  shows "\<exists>scr' x y. PlaceWindow how prefs heads scr wwin manual r1 r2 w h = Some (scr', x, y) \<and>
    area_x1 area \<le> x \<and> x + w \<le> area_x2 area \<and> area_y1 area \<le> y \<and> y + h \<le> area_y2 area"
proof -
  let ?step = "title_step prefs scr"
  have "size_ok scr wwin w h" by (rule assms(3))
  then have wh: "0 \<le> w" "0 \<le> h" by (simp_all add: size_ok_def)
  have cas: "\<exists>scr' p. Some (place_cascade how prefs scr wwin w h ?step area) = Some (scr', p) \<and> in_range p"
    using cascade_in_range [OF assms(2,13,14,11,12), of how wwin w h] by (metis prod.collapse)
  have auto_returns: "\<exists>r. autoPlaceWindow prefs scr wwin w h ign area = Some r" for ign
    using auto_place_returns [OF assms(1-3)] by blast
  have auto: "\<exists>scr' p. place_auto how prefs scr wwin w h ?step area = Some (scr', p) \<and> in_range p"
  proof -
    obtain q1 q2 where q: "autoPlaceWindow prefs scr wwin w h False area = Some q1" "autoPlaceWindow prefs scr wwin w h True area = Some q2"
      using auto_returns by blast
    have "in_range p" if "q1 = Some p \<or> q2 = Some p" for p
      using auto_in_range [OF assms(1-3)] q that by blast
    then show ?thesis using q cas by (cases q1; cases q2) (auto simp: place_auto_def)
  qed
  have "\<exists>scr' p. (case how of
        WPM_MANUAL \<Rightarrow> Some (scr, manual)
      | WPM_SMART \<Rightarrow> map_option (Pair scr) (smartPlaceWindow prefs scr wwin w h area)
      | WPM_CENTER \<Rightarrow>
          (case center_place_window scr wwin w h area of
             Some p \<Rightarrow> Some (scr, p)
           | None \<Rightarrow> place_auto how prefs scr wwin w h ?step area)
      | WPM_AUTO \<Rightarrow> place_auto how prefs scr wwin w h ?step area
      | WPM_CASCADE \<Rightarrow> Some (place_cascade how prefs scr wwin w h ?step area)
      | WPM_RANDOM \<Rightarrow> Some (scr, randomPlaceWindow prefs scr wwin w h area r1 r2)) = Some (scr', p) \<and> in_range p"
  proof (cases how)
    case WPM_CENTER
    then show ?thesis using auto center_in_range by (cases "center_place_window scr wwin w h area") auto
  next
    case WPM_SMART
    then show ?thesis using smart_in_range [OF assms(1-3)] by auto
  next
    case WPM_RANDOM
    then show ?thesis using random_in_range [OF assms(2,3,9,10)] by auto
  qed (use auto cas assms(8) in auto)
  then obtain scr' x y where p: "(case how of
        WPM_MANUAL \<Rightarrow> Some (scr, manual)
      | WPM_SMART \<Rightarrow> map_option (Pair scr) (smartPlaceWindow prefs scr wwin w h area)
      | WPM_CENTER \<Rightarrow>
          (case center_place_window scr wwin w h area of
             Some p \<Rightarrow> Some (scr, p)
           | None \<Rightarrow> place_auto how prefs scr wwin w h ?step area)
      | WPM_AUTO \<Rightarrow> place_auto how prefs scr wwin w h ?step area
      | WPM_CASCADE \<Rightarrow> Some (place_cascade how prefs scr wwin w h ?step area)
      | WPM_RANDOM \<Rightarrow> Some (scr, randomPlaceWindow prefs scr wwin w h area r1 r2)) = Some (scr', x, y)" "in_range (x, y)" by auto
  have "PlaceWindow how prefs heads scr wwin manual r1 r2 w h = Some (scr', clip_place area w h (x, y))"
    unfolding PlaceWindow_def Let_def using p(1) by (simp add: assms(4,5))
  then show ?thesis
    using clip_place_inside [OF assms(2) wh(1) assms(6) wh(2) assms(7), of x y] p(2) by (auto simp: in_range_def)
qed

section \<open>A screen with windows\<close>

definition sample_client :: "int \<Rightarrow> int \<Rightarrow> int \<Rightarrow> int \<Rightarrow> nat ptr \<Rightarrow> nat ptr \<Rightarrow> WClient" where
  "sample_client x y w h p n = \<lparr>frame_x = x, frame_y = y, width = w, height = h, workspace = 0, omnipresent = False, mapped = True,
     client_level = 0, shaded = False, miniaturized = False, hidden = False, prev_window = p, next_window = n\<rparr>"

definition place_screen :: "int \<Rightarrow> PScreen" where
  "place_screen x = \<lparr>clients = [1 \<mapsto> sample_client (x + 400) 300 800 600 NULL (Some 2), 2 \<mapsto> sample_client x 0 100 100 (Some 1) NULL],
     focused_window = Some 2, current_workspace = 0, frame_border_width = 1, cascade_index = 3, title_font_height = 14\<rparr>"

definition new_window :: NewWindow where
  "new_window = \<lparr>frame_widths = Some (22, 9), has_titlebar = True, has_resizebar = True, has_border = True\<rparr>"

definition full_hd :: "int \<Rightarrow> WArea" where
  "full_hd x = \<lparr>area_x1 = x, area_y1 = 0, area_x2 = x + 1920, area_y2 = 1080\<rparr>"

definition place_prefs :: WPreferences where
  "place_prefs = \<lparr>icon_size = 64, icon_yard = 3, no_window_over_dock = False, no_window_over_icons = False, sticky_icons = False,
     window_place_origin = \<lparr>pt_x = 0, pt_y = 0\<rparr>, window_title_clearance = 2, window_title_max_height = 24, window_title_min_height = 16\<rparr>"

lemma place_screen_ok:
  "clients_ok (place_screen x) [1, 2]" "0 \<le> x \<Longrightarrow> x \<le> 2000 \<Longrightarrow> area_ok place_prefs (full_hd x)"
  "size_ok (place_screen x) new_window 300 200"
  "deco_width (place_screen x) new_window = 2" "deco_height (place_screen x) new_window = 33"
  by (auto simp: clients_ok_def client_list_def client_def place_screen_def sample_client_def area_ok_def X_ORIGIN_def Y_ORIGIN_def
    place_prefs_def full_hd_def size_ok_def new_window_def deco_width_def deco_height_def)

lemma full_hd_ok: "area_ok place_prefs (full_hd 0)" "area_ok place_prefs (full_hd 1920)"
  by (simp_all add: place_screen_ok(2))

lemma first_head: "X_ORIGIN place_prefs (full_hd 0) = 0" "Y_ORIGIN place_prefs (full_hd 0) = 0" "area_x2 (full_hd 0) = 1920" "area_y2 (full_hd 0) = 1080"
  "area_x1 (full_hd 0) = 0" "area_y1 (full_hd 0) = 0" "(300 :: int) + 2 = 302" "(200 :: int) + 33 = 233" "(n :: int) - 0 = n" "set [1, 2 :: nat] = {1, 2}"
  by (auto simp: X_ORIGIN_def Y_ORIGIN_def full_hd_def place_prefs_def)

lemmas first_head_ok = place_screen_ok(1) [of 0] full_hd_ok(1) place_screen_ok(3) [of 0]

lemmas second_head_ok = place_screen_ok(1) [of 1920] full_hd_ok(2) place_screen_ok(3) [of 1920]

text \<open>The window in the middle takes the centre.\<close>

lemma centre_taken: "free_centre (place_screen x) [1, 2] new_window 302 233 (full_hd x) = None" if "0 \<le> x" "x \<le> 2000"
proof -
  have c: "center_place_window (place_screen x) new_window 302 233 (full_hd x) = Some (x + 808, 407)"
    using that by (simp add: center_place_window_def set_width_height_def full_hd_def place_screen_def new_window_def unsigned_def signed_def Let_def)
  have "(x + 900, 500) \<in> pixels (x + 400) 300 800 600 \<inter> pixels (x + 808) 407 302 233" by (simp add: pixels_def)
  then have "in_the_way (place_screen x) False (x + 808) 407 302 233 1"
    by (auto simp: in_the_way_def client_def place_screen_def sample_client_def counts_def)
  then show ?thesis by (simp add: free_centre_def c)
qed

theorem auto_place_finds_free_witness:
  "\<exists>r. autoPlaceWindow place_prefs (place_screen 0) new_window 300 200 False (full_hd 0) = Some r \<and>
    (case r of
       Some (x, y) \<Rightarrow> \<forall>i \<in> {1, 2}. \<not> in_the_way (place_screen 0) False x y 302 233 i
     | None \<Rightarrow> \<forall>(x, y) \<in> grid 0 0 302 233 1920 1080. \<exists>i \<in> {1, 2}. in_the_way (place_screen 0) False x y 302 233 i)"
  using auto_place_finds_free [OF first_head_ok, of False]
  unfolding place_screen_ok(4,5) first_head .

theorem auto_place_on_second_head_witness:
  "autoPlaceWindow place_prefs (place_screen 1920) new_window 300 200 False (full_hd 1920) = Some None \<and>
   screen_has_space (place_screen 1920) 2028 8 302 233 False = Some True"
proof
  show "autoPlaceWindow place_prefs (place_screen 1920) new_window 300 200 False (full_hd 1920) = Some None"
    using auto_place_on_second_head [OF second_head_ok, of False] centre_taken [of 1920]
    unfolding place_screen_ok(4,5) by (simp add: X_ORIGIN_def Y_ORIGIN_def full_hd_def place_prefs_def)
  show "screen_has_space (place_screen 1920) 2028 8 302 233 False = Some True"
    using screen_has_space_ok [of "place_screen 1920" "[1, 2]"] place_screen_ok(1) [of 1920]
    by (simp add: clients_ok_def window_overlaps_def client_def place_screen_def sample_client_def)
qed

theorem smart_place_least_covered_witness:
  "\<exists>x y. smartPlaceWindow place_prefs (place_screen 0) new_window 300 200 (full_hd 0) = Some (x, y) \<and>
     0 \<le> x \<and> x + 302 < 1920 \<and> 0 \<le> y \<and> y + 233 < 1080 \<and>
     covered_pixels (place_screen 0) [1, 2] 302 233 x y \<le> covered_pixels (place_screen 0) [1, 2] 302 233 0 0"
proof -
  have "windows_small (place_screen 0) [1, 2]"
    by (simp add: windows_small_def window_pixels_def counted_def section_ok_def client_def place_screen_def sample_client_def counts_def INT_MAX_def)
  moreover have "(0, 0) \<in> grid 0 0 302 233 1920 1080" by (auto simp: grid_def intro: exI [of _ 0])
  ultimately show ?thesis
    using smart_place_least_covered [OF first_head_ok]
    unfolding place_screen_ok(4,5) first_head Let_def by (fastforce simp: add.assoc)
qed

text \<open>
  The sum is an \<open>int\<close>: when it overflows, a place that windows cover again and again has a negative sum and is taken for
  the least covered one. Two windows of \<open>32768\<close> times \<open>32768\<close> pixels are enough.
\<close>

lemma covered_sum_overflows:
  "calcSumOfCoveredAreas (place_screen 0\<lparr>clients := [1 \<mapsto> sample_client 0 0 32768 32768 NULL (Some 2),
     2 \<mapsto> sample_client 0 0 32768 32768 (Some 1) NULL]\<rparr>) 0 0 32768 32768 = Some (- (2 ^ 31))"
  by code_simp

definition place_heads :: HScreen where
  "place_heads = \<lparr>xrandr_info = \<lparr>primary_head = 0, screens = Some (map (the \<circ> crtc) [sample_output 7 0, sample_output 8 1920]), hcount = 2\<rparr>,
     scr_width = 3840, scr_height = 1080, usableArea = [full_hd 0, full_hd 1920], totalUsableArea = [full_hd 0, full_hd 1920],
     dock = None, icon_yard_mapped = True, pointer = Some \<lparr>pt_x = 2000, pt_y = 10\<rparr>\<rparr>"

theorem place_window_inside_area_witness:
  "\<exists>scr' x y. PlaceWindow WPM_AUTO place_prefs place_heads (place_screen 1920) new_window (0, 0) 5 7 300 200 = Some (scr', x, y) \<and>
     1920 \<le> x \<and> x + 300 \<le> 3840 \<and> 0 \<le> y \<and> y + 200 \<le> 1080"
proof -
  have h: "wGetHeadForPointerLocation place_heads = Some 1" by code_simp
  have a: "wGetUsableAreaForHead place_prefs place_heads 1 True = Some (full_hd 1920)"
    by (simp add: wGetUsableAreaForHead_def wGetRectForHead_def head_rect_def at_def place_heads_def sample_output_def wScreenHeads_def Let_def)
  have s: "title_step place_prefs (place_screen 1920) = 24" "cascade_index (place_screen 1920) = 3"
    by (simp_all add: title_step_def place_prefs_def place_screen_def TITLEBAR_EXTEND_SPACE_def Let_def)
  show ?thesis
    using place_window_inside_area [OF second_head_ok h a, of "(0, 0)" 5 7 WPM_AUTO]
    by (simp add: s in_range_def full_hd_def)
qed

text \<open>
  On an empty screen, automatic placement counts the decorations of the window twice when it computes the centre,
  as \<open>center_place_window\<close> adds them again; placement in the centre counts them once.
\<close>

lemma centre_counts_decorations_twice:
  "autoPlaceWindow place_prefs (place_screen 0\<lparr>focused_window := NULL\<rparr>) new_window 300 200 False (full_hd 0) = Some (Some (808, 407))"
  "center_place_window (place_screen 0\<lparr>focused_window := NULL\<rparr>) new_window 300 200 (full_hd 0) = Some (809, 423)"
  by code_simp+

end
