(* ===== verification/WMIconPlacement.thy ===== *)
theory WMIconPlacement
  imports WMPlacement WMHeadsSpec
begin

text \<open>
  The placement of icons: the slots of the icon yard, their cells in the map of \<open>PlaceIcon\<close>, and what happens to
  icons that are not on slots.
\<close>

lemma sdiv_nonneg: "0 \<le> a \<Longrightarrow> 0 < b \<Longrightarrow> a sdiv b = a div (b :: int)"
  by (simp add: signed_divide_int_def sgn_if)

text \<open>The number of the slots, and the cell of a place in the map.\<close>

definition slots_x :: "WPreferences \<Rightarrow> WArea \<Rightarrow> int" where
  "slots_x prefs area = (area_x2 area - area_x1 area) div icon_size prefs"

definition slots_y :: "WPreferences \<Rightarrow> WArea \<Rightarrow> int" where
  "slots_y prefs area = (area_y2 area - area_y1 area) div icon_size prefs"

definition cell :: "WPreferences \<Rightarrow> WArea \<Rightarrow> int \<times> int \<Rightarrow> int" where
  "cell prefs area p = INDEX (icon_size prefs * slots_x prefs area) (fst p div icon_size prefs) (snd p div icon_size prefs)"

definition map_size :: "WPreferences \<Rightarrow> WArea \<Rightarrow> int" where
  "map_size prefs area = (icon_size prefs * slots_x prefs area + 2) * (icon_size prefs * slots_y prefs area + 2)"

text \<open>All slots, in the order of the search.\<close>

definition slots :: "WPreferences \<Rightarrow> WArea \<Rightarrow> (int \<times> int) list" where
  "slots prefs area = (if flag (icon_yard prefs) IY_VERT then slot_places prefs area (slots_y prefs area) (slots_x prefs area)
     else slot_places prefs area (slots_x prefs area) (slots_y prefs area))"

definition origin_x :: "WPreferences \<Rightarrow> WArea \<Rightarrow> int" where
  "origin_x prefs area = (if flag (icon_yard prefs) IY_RIGHT then area_x2 area - icon_size prefs else area_x1 area)"

definition origin_y :: "WPreferences \<Rightarrow> WArea \<Rightarrow> int" where
  "origin_y prefs area = (if flag (icon_yard prefs) IY_TOP then area_y1 area else area_y2 area - icon_size prefs)"

text \<open>
  An area for icons: it is not to the left of the screen or above it, the first slot is aligned to the size of
  the icons up to less than half of it, and the cells of the places are inside the map.
\<close>

definition icon_area_ok :: "WPreferences \<Rightarrow> WArea \<Rightarrow> bool" where
  "icon_area_ok prefs area \<longleftrightarrow> 1 < icon_size prefs \<and> 0 \<le> area_x1 area \<and> area_x1 area \<le> area_x2 area \<and>
     0 \<le> area_y1 area \<and> area_y1 area \<le> area_y2 area \<and>
     2 * (origin_x prefs area mod icon_size prefs) < icon_size prefs \<and> 2 * (origin_y prefs area mod icon_size prefs) < icon_size prefs \<and>
     area_x2 area div icon_size prefs \<le> icon_size prefs * slots_x prefs area \<and>
     area_y2 area div icon_size prefs \<le> icon_size prefs * slots_y prefs area"

lemma slot_coordinate:
  fixes s :: int
  assumes "1 < s" "0 \<le> lo" "lo \<le> hi" "0 \<le> k" "k < (hi - lo) div s"
    "x = (if high then hi - s - k * s else lo + k * s)"
  shows "lo \<le> x" "x + s \<le> hi" "x mod s = (if high then hi - s else lo) mod s"
proof -
  have "(k + 1) * s \<le> (hi - lo) div s * s" using assms(1,5) by (intro mult_right_mono) auto
  also have "\<dots> \<le> hi - lo" using div_mult_mod_eq [of "hi - lo" s] pos_mod_sign [of s "hi - lo"] assms(1) by linarith
  finally have b: "k * s + s \<le> hi - lo" by (simp add: algebra_simps)
  then show "lo \<le> x" "x + s \<le> hi" using assms by (auto simp: zero_le_mult_iff)
  have "hi - s - k * s = hi - s + (- k) * s" by simp
  then have "(hi - s - k * s) mod s = (hi - s) mod s" by (simp only: mod_mult_self1)
  then show "x mod s = (if high then hi - s else lo) mod s" using assms(6) by simp
qed

lemma slots_in_area:
  assumes "icon_area_ok prefs area" "(x, y) \<in> set (slots prefs area)"
  shows "0 \<le> x" "x \<le> area_x2 area" "x mod icon_size prefs = origin_x prefs area mod icon_size prefs"
    "0 \<le> y" "y \<le> area_y2 area" "y mod icon_size prefs = origin_y prefs area mod icon_size prefs"
proof -
  obtain k l where k: "0 \<le> k" "k < slots_x prefs area" "0 \<le> l" "l < slots_y prefs area"
    "x = (if flag (icon_yard prefs) IY_RIGHT then area_x2 area - icon_size prefs - k * icon_size prefs else area_x1 area + k * icon_size prefs)"
    "y = (if \<not> flag (icon_yard prefs) IY_TOP then area_y2 area - icon_size prefs - l * icon_size prefs else area_y1 area + l * icon_size prefs)"
    using assms(2) by (auto simp: slots_def slot_places_def Let_def split: if_splits)
  have i: "1 < icon_size prefs" "0 \<le> area_x1 area" "area_x1 area \<le> area_x2 area" "0 \<le> area_y1 area" "area_y1 area \<le> area_y2 area"
    using assms(1) by (simp_all add: icon_area_ok_def)
  note X = slot_coordinate [OF i(1-3) k(1) k(2) [unfolded slots_x_def] k(5)]
    and Y = slot_coordinate [OF i(1,4,5) k(3) k(4) [unfolded slots_y_def] k(6)]
  show "0 \<le> x" "x \<le> area_x2 area" "x mod icon_size prefs = origin_x prefs area mod icon_size prefs"
    using X i by (auto simp: origin_x_def)
  show "0 \<le> y" "y \<le> area_y2 area" "y mod icon_size prefs = origin_y prefs area mod icon_size prefs"
    using Y i by (auto simp: origin_y_def)
qed

text \<open>The cell of a slot is inside the map, and two slots have different cells.\<close>

lemma slot_columns:
  assumes "icon_area_ok prefs area" "(x, y) \<in> set (slots prefs area)"
  shows "0 \<le> x div icon_size prefs" "x div icon_size prefs \<le> icon_size prefs * slots_x prefs area"
    "0 \<le> y div icon_size prefs" "y div icon_size prefs \<le> icon_size prefs * slots_y prefs area"
proof -
  note s = slots_in_area [OF assms]
  have i: "0 < icon_size prefs" using assms(1) by (simp add: icon_area_ok_def)
  show "0 \<le> x div icon_size prefs" "0 \<le> y div icon_size prefs" using s i by (simp_all add: pos_imp_zdiv_nonneg_iff)
  have "x div icon_size prefs \<le> area_x2 area div icon_size prefs" "y div icon_size prefs \<le> area_y2 area div icon_size prefs"
    using s i by (simp_all add: zdiv_mono1)
  then show "x div icon_size prefs \<le> icon_size prefs * slots_x prefs area" "y div icon_size prefs \<le> icon_size prefs * slots_y prefs area"
    using assms(1) by (auto simp: icon_area_ok_def)
qed

lemma index_bounds: "0 \<le> a \<Longrightarrow> a \<le> sw \<Longrightarrow> 0 \<le> b \<Longrightarrow> b \<le> sh \<Longrightarrow> 0 \<le> INDEX sw a b \<and> INDEX sw a b < (sw + 2) * (sh + 2)"
proof -
  assume a: "0 \<le> a" "a \<le> sw" "0 \<le> b" "b \<le> sh"
  have "(b + 1) * (sw + 2) \<le> (sh + 1) * (sw + 2)" by (rule mult_right_mono) (use a in auto)
  moreover have "0 \<le> (b + 1) * (sw + 2)" using a by simp
  moreover have "(sw + 2) * (sh + 2) = (sh + 1) * (sw + 2) + (sw + 2)" by (simp add: algebra_simps)
  ultimately show ?thesis using a unfolding INDEX_def by linarith
qed

lemma index_inject:
  assumes "0 \<le> a" "a \<le> sw" "0 \<le> a'" "a' \<le> sw" "INDEX sw a b = INDEX sw a' b'"
  shows "a = a' \<and> b = b'"
proof -
  have m: "INDEX sw a b mod (sw + 2) = a + 1 \<and> INDEX sw a b div (sw + 2) = b + 1" if "0 \<le> a" "a \<le> sw" for a b
  proof -
    have e: "INDEX sw a b = (a + 1) + (b + 1) * (sw + 2)" by (simp add: INDEX_def)
    have s: "sw + 2 \<noteq> 0" "(a + 1) mod (sw + 2) = a + 1" "(a + 1) div (sw + 2) = 0"
      using that by (auto intro: mod_pos_pos_trivial div_pos_pos_trivial)
    show ?thesis unfolding e mod_mult_self1 div_mult_self1 [OF s(1)] s(2,3) by simp
  qed
  have "a + 1 = a' + 1" "b + 1 = b' + 1"
    using m [OF assms(1,2), of b] m [OF assms(3,4), of b'] unfolding assms(5) by (metis, metis)
  then show ?thesis by simp
qed

lemma cell_inject:
  assumes "icon_area_ok prefs area" "p \<in> set (slots prefs area)" "q \<in> set (slots prefs area)" "cell prefs area p = cell prefs area q"
  shows "p = q"
proof -
  obtain x y x' y' where p: "p = (x, y)" "q = (x', y')" by (cases p; cases q)
  note s = slots_in_area [OF assms(1) assms(2) [unfolded p]] and s' = slots_in_area [OF assms(1) assms(3) [unfolded p]]
  note c = slot_columns [OF assms(1) assms(2) [unfolded p]] and c' = slot_columns [OF assms(1) assms(3) [unfolded p]]
  have "x div icon_size prefs = x' div icon_size prefs \<and> y div icon_size prefs = y' div icon_size prefs"
    using index_inject [OF c(1,2) c'(1,2)] assms(4) by (simp add: cell_def p)
  then show ?thesis unfolding p using s(3,6) s'(3,6) by (metis div_mult_mod_eq)
qed

lemma cell_in_map: "icon_area_ok prefs area \<Longrightarrow> p \<in> set (slots prefs area) \<Longrightarrow> 0 \<le> cell prefs area p \<and> cell prefs area p < map_size prefs area"
  using slot_columns [of prefs area "fst p" "snd p"] by (simp add: cell_def map_size_def index_bounds)

text \<open>Marking icons that are on slots marks exactly their cells.\<close>

lemma round_up_slot:
  fixes s :: int
  assumes "1 < s" "0 \<le> x" "2 * (x mod s) < s"
  shows "(x + s sdiv 2) sdiv s = x div s"
proof -
  have h: "s sdiv 2 = s div 2" using assms(1) by (simp add: sdiv_nonneg)
  have "x mod s + s div 2 < s" "0 \<le> x mod s + s div 2" using assms by auto
  then have "(x mod s + s div 2) div s = 0" by simp
  moreover have "x + s div 2 = (x mod s + s div 2) + (x div s) * s" using div_mult_mod_eq [of x s] by linarith
  then have "(x + s div 2) div s = ((x mod s + s div 2) + (x div s) * s) div s" by (rule arg_cong)
  moreover have "((x mod s + s div 2) + (x div s) * s) div s = x div s + (x mod s + s div 2) div s"
    using assms(1) by (intro div_mult_self1) simp
  ultimately have "(x + s div 2) div s = x div s" by linarith
  then show ?thesis using assms by (simp add: h sdiv_nonneg)
qed

lemma mark_icons_ok:
  assumes "icon_area_ok prefs area"
  shows "set icons \<subseteq> set (slots prefs area) \<Longrightarrow>
    \<exists>m'. mark_icons (icon_size prefs) (map_size prefs area) (icon_size prefs * slots_x prefs area) icons m = Some m' \<and>
      set m' = set m \<union> cell prefs area ` set icons"
proof (induction icons arbitrary: m)
  case (Cons p icons)
  obtain x y where p: "p = (x, y)" by (cases p)
  have ps: "(x, y) \<in> set (slots prefs area)" using Cons.prems p by simp
  note s = slots_in_area [OF assms ps] and i = assms [unfolded icon_area_ok_def]
  have r: "(x + icon_size prefs sdiv 2) sdiv icon_size prefs = x div icon_size prefs"
    "(y + icon_size prefs sdiv 2) sdiv icon_size prefs = y div icon_size prefs"
    by (rule round_up_slot; use s i in simp)+
  have d: "x sdiv icon_size prefs = x div icon_size prefs" "y sdiv icon_size prefs = y div icon_size prefs"
    using s i by (simp_all add: sdiv_nonneg)
  let ?c = "cell prefs area p"
  have e: "INDEX (icon_size prefs * slots_x prefs area) (x div icon_size prefs) (y div icon_size prefs) = ?c" by (simp add: cell_def p)
  have b: "0 \<le> ?c" "?c < map_size prefs area" using cell_in_map [OF assms, of p] ps p by simp_all
  obtain m' where m': "mark_icons (icon_size prefs) (map_size prefs area) (icon_size prefs * slots_x prefs area) icons (?c # ?c # ?c # ?c # m) = Some m'"
    "set m' = set (?c # ?c # ?c # ?c # m) \<union> cell prefs area ` set icons"
    using Cons.IH [of "?c # ?c # ?c # ?c # m"] Cons.prems by auto
  have "icon_size prefs \<noteq> 0" using i by simp
  then have "mark_icons (icon_size prefs) (map_size prefs area) (icon_size prefs * slots_x prefs area) (p # icons) m = Some m'"
    using m'(1) b by (simp add: p cdiv_def r d e [unfolded p] mark_def)
  then show ?case using m'(2) by auto
qed simp

lemma free_slot_ok:
  assumes "icon_area_ok prefs area" "set icons \<subseteq> set (slots prefs area)" "set m = cell prefs area ` set icons"
  shows "set ps \<subseteq> set (slots prefs area) \<Longrightarrow>
    free_slot (icon_size prefs) (map_size prefs area) (icon_size prefs * slots_x prefs area) m ps = Some (List.find (\<lambda>p. p \<notin> set icons) ps)"
proof (induction ps)
  case (Cons p ps)
  obtain x y where p: "p = (x, y)" by (cases p)
  have ps: "(x, y) \<in> set (slots prefs area)" using Cons.prems p by simp
  note s = slots_in_area [OF assms(1) ps] and i = assms(1) [unfolded icon_area_ok_def]
  have d: "x sdiv icon_size prefs = x div icon_size prefs" "y sdiv icon_size prefs = y div icon_size prefs" "icon_size prefs \<noteq> 0"
    using s i by (simp_all add: sdiv_nonneg)
  have e: "INDEX (icon_size prefs * slots_x prefs area) (x div icon_size prefs) (y div icon_size prefs) = cell prefs area p" by (simp add: cell_def p)
  have b: "0 \<le> cell prefs area p" "cell prefs area p < map_size prefs area" using cell_in_map [OF assms(1), of p] ps p by simp_all
  have "cell prefs area p \<in> set m \<longleftrightarrow> p \<in> set icons"
    using cell_inject [OF assms(1), of p] ps p assms(2,3) by auto
  then have "marked (map_size prefs area) m (cell prefs area p) = Some (p \<in> set icons)" using b by (simp add: marked_def)
  then show ?case using Cons d e by (simp add: p cdiv_def)
qed simp

text \<open>
  C29: When the area for icons is aligned and the icons that are shown are all on slots, the place for a new icon is the first
  slot, in the order of the icon yard, that no icon is on, or the corner when all are taken; the map is never accessed outside.
  Aligned means that the first slot starts less than half an icon past a multiple of the icon size, in both directions, and
  that the cells of the area are inside the map (\<open>icon_area_ok\<close>). In other areas a free slot can be skipped and
  an icon be placed on another (\<open>free_slot_skipped\<close>, \<open>placed_icon_overlaps\<close>).
\<close>

theorem place_icon_first_free_slot:
  assumes "icon_area_ok prefs area"
    "icons = List.map_filter (\<lambda>d. iconPosition prefs d (area_x1 area) (area_y1 area) (area_x2 area) (area_y2 area) ws) objs"
    "set icons \<subseteq> set (slots prefs area)"
  shows "place_icon prefs area ws objs =
    Some (case List.find (\<lambda>p. p \<notin> set icons) (slots prefs area) of Some p \<Rightarrow> p | None \<Rightarrow> (0, 0))"
proof -
  note i = assms(1) [unfolded icon_area_ok_def]
  have d: "cdiv (area_x2 area - area_x1 area) (icon_size prefs) = Some (slots_x prefs area)"
    "cdiv (area_y2 area - area_y1 area) (icon_size prefs) = Some (slots_y prefs area)"
    using i by (simp_all add: cdiv_def sdiv_nonneg slots_x_def slots_y_def)
  obtain m where m: "mark_icons (icon_size prefs) (map_size prefs area) (icon_size prefs * slots_x prefs area) icons [] = Some m"
    "set m = cell prefs area ` set icons"
    using mark_icons_ok [OF assms(1,3), of "[]"] by auto
  have "free_slot (icon_size prefs) (map_size prefs area) (icon_size prefs * slots_x prefs area) m (slots prefs area) =
      Some (List.find (\<lambda>p. p \<notin> set icons) (slots prefs area))"
    by (rule free_slot_ok [OF assms(1,3) m(2)]) simp
  then show ?thesis
    using m(1) assms(2) by (simp add: place_icon_def d map_size_def slots_def Let_def split: prod.split if_splits)
qed

definition sample_prefs :: WPreferences where
  "sample_prefs = \<lparr>icon_size = 64, icon_yard = 3, no_window_over_dock = False, no_window_over_icons = False, sticky_icons = False,
     window_place_origin = \<lparr>pt_x = 0, pt_y = 0\<rparr>, window_title_clearance = 2, window_title_max_height = 24, window_title_min_height = 16\<rparr>"

definition icon_area :: "int \<Rightarrow> WArea" where
  "icon_area h = \<lparr>area_x1 = 0, area_y1 = 0, area_x2 = 640, area_y2 = h\<rparr>"

theorem place_icon_first_free_slot_witness:
  "place_icon sample_prefs (icon_area 512) 0 [APPICON False 0 0, OTHER_CLASS, APPICON True 0 64, APPICON False 0 128] = Some (0, 64)"
proof -
  let ?objs = "[APPICON False 0 0, OTHER_CLASS, APPICON True 0 64, APPICON False 0 128]"
  let ?icons = "[(0, 0), (0, 128)] :: (int \<times> int) list"
  have "icon_area_ok sample_prefs (icon_area 512)" by code_simp
  moreover have "?icons = List.map_filter (\<lambda>d. iconPosition sample_prefs d (area_x1 (icon_area 512)) (area_y1 (icon_area 512))
      (area_x2 (icon_area 512)) (area_y2 (icon_area 512)) 0) ?objs" by code_simp
  moreover have "set ?icons \<subseteq> set (slots sample_prefs (icon_area 512))" by code_simp
  moreover have "List.find (\<lambda>p. p \<notin> set ?icons) (slots sample_prefs (icon_area 512)) = Some (0, 64)" by code_simp
  ultimately show ?thesis using place_icon_first_free_slot [of sample_prefs "icon_area 512" ?icons 0 ?objs] by simp
qed

text \<open>
  An icon that was moved off the slots: on an area whose height is not a multiple of the icon size the place
  found overlaps it, and a single icon on a slot can make the slot before it count as taken.
\<close>

lemma placed_icon_overlaps:
  "place_icon (sample_prefs\<lparr>icon_yard := 1\<rparr>) (icon_area 504) 0 [APPICON False 0 400] = Some (0, 376)"
  "pixels 0 400 64 64 \<inter> pixels 0 376 64 64 = {0..<64} \<times> {400..<440}"
  by code_simp (auto simp: pixels_def)

lemma free_slot_skipped:
  "hd (slots (sample_prefs\<lparr>icon_yard := 1\<rparr>) (icon_area 504)) = (0, 440)"
  "place_icon (sample_prefs\<lparr>icon_yard := 1\<rparr>) (icon_area 504) 0 [APPICON False 0 376] = Some (0, 312)"
  by code_simp+

end
