(* ===== verification/WMDock.thy ===== *)
theory WMDock
  imports WMHeads "HOL-Library.Signed_Division"
begin

text \<open>
  \<open>WM/src/dock.c\<close>: the dock, the clips of the workspaces and the drawers, and which slot every icon is on. A dock has a
  block \<open>icon_array\<close> of \<open>max_icons\<close> pointers, the first to its own tile; an icon's \<open>xindex\<close> and \<open>yindex\<close> are its
  slot, relative to the tile. Docks and icons live in heaps. What is drawn, the stacking of the icons' windows, the menus, the timers
  and the saved state are left out. \<open>None\<close> is an access outside a block, through NULL or to a freed address, or a failed
  \<open>assert\<close>. Coordinates are integers without the overflow that C leaves undefined; \<open>xindex\<close> and \<open>yindex\<close> are \<open>short\<close>.
\<close>

section \<open>State\<close>

datatype dock_type = WM_DOCK | WM_CLIP | WM_DRAWER

record Dock =
  x_pos :: int
  y_pos :: int
  icon_array :: "nat ptr list"
  icon_count :: int
  dock_type :: dock_type
  right_side :: bool

abbreviation max_icons :: "Dock \<Rightarrow> nat" where "max_icons d \<equiv> length (icon_array d)"

text \<open>
  \<open>window_command\<close> is what \<open>GetCommandForWindow\<close> gives for the owner of the icon (NULL without an owner), \<open>has_application\<close>
  whether \<open>wApplicationOf\<close> finds the application of its main window.
\<close>

record WAppIcon =
  xindex :: int
  yindex :: int
  icon_x :: int
  icon_y :: int
  command :: "string ptr"
  dnd_command :: "string ptr"
  paste_command :: "string ptr"
  in_dock :: "nat ptr"
  docked :: bool
  omnipresent :: bool
  attracted :: bool
  launching :: bool
  running :: bool
  auto_launch :: bool
  editing :: bool
  icon_shadowed :: bool
  icon_selected :: bool
  window_command :: "string ptr"
  has_application :: bool
  lock :: bool

text \<open>
  The screen: \<open>clips\<close> are the \<open>clip\<close> fields of its workspaces, so its length is \<open>workspace_count\<close>. \<open>ICON_SIZE\<close> and the flags are
  of the preferences.
\<close>

record DScreen =
  heads :: HScreen
  ICON_SIZE :: int
  noupdates :: bool
  nodock :: bool
  noclip :: bool
  nodrawer :: bool
  aicons :: "nat \<rightharpoonup> WAppIcon"
  docks :: "nat \<rightharpoonup> Dock"
  main_dock :: "nat ptr"
  drawers :: "nat list"
  drawer_count :: int
  clips :: "nat ptr list"
  workspace :: nat
  clip_icon :: "nat ptr"
  global_icons :: "nat list"
  global_icon_count :: int

definition to_short :: "int \<Rightarrow> int" where
  "to_short n = (n + 2 ^ 15) mod 2 ^ 16 - 2 ^ 15"

definition DOCK_DETTACH_THRESHOLD :: int where "DOCK_DETTACH_THRESHOLD = 2"

definition CLIP_ATTACH_VICINITY :: int where "CLIP_ATTACH_VICINITY = 1"

definition put_icon :: "nat \<Rightarrow> WAppIcon \<Rightarrow> DScreen \<Rightarrow> DScreen" where
  "put_icon a icon s = s\<lparr>aicons := (aicons s)(a \<mapsto> icon)\<rparr>"

definition put_dock :: "nat \<Rightarrow> Dock \<Rightarrow> DScreen \<Rightarrow> DScreen" where
  "put_dock d dk s = s\<lparr>docks := (docks s)(d \<mapsto> dk)\<rparr>"

definition onScreen :: "DScreen \<Rightarrow> int \<Rightarrow> int \<Rightarrow> bool option" where
  "onScreen s x y = do {
     (head, flags) \<leftarrow> wGetRectPlacementInfo (heads s)
        \<lparr>pos = \<lparr>pt_x = x, pt_y = y\<rparr>, size_width = unsigned (ICON_SIZE s), size_height = unsigned (ICON_SIZE s)\<rparr>;
     Some (\<not> flag flags (or XFLAG_DEAD XFLAG_PARTIAL)) }"

text \<open>The loops that look for a pointer from index 1 on; the length when there is none.\<close>

fun index_of :: "'a \<Rightarrow> 'a list \<Rightarrow> nat" where
  "index_of p [] = 0"
| "index_of p (x # xs) = (if x = p then 0 else index_of p xs + 1)"

definition array_index :: "nat ptr \<Rightarrow> Dock \<Rightarrow> nat" where
  "array_index p dk = index_of p (tl (icon_array dk)) + 1"

text \<open>The icons of an array, in its order.\<close>

fun array_icons :: "nat ptr list \<Rightarrow> (nat \<rightharpoonup> WAppIcon) \<Rightarrow> (nat \<times> WAppIcon) list option" where
  "array_icons [] h = Some []"
| "array_icons (None # ps) h = array_icons ps h"
| "array_icons (Some a # ps) h = do { icon \<leftarrow> h a; r \<leftarrow> array_icons ps h; Some ((a, icon) # r) }"

definition dock_icons :: "DScreen \<Rightarrow> Dock \<Rightarrow> (nat \<times> WAppIcon) list option" where
  "dock_icons s dk = array_icons (icon_array dk) (aicons s)"

definition icon_on :: "(WAppIcon \<Rightarrow> bool) \<Rightarrow> (nat \<times> WAppIcon) list \<Rightarrow> nat ptr" where
  "icon_on P xs = map_option fst (find (\<lambda>(a, icon). P icon) xs)"

section \<open>Drawers\<close>

fun drawer_loop :: "DScreen \<Rightarrow> int \<Rightarrow> nat list \<Rightarrow> nat ptr option" where
  "drawer_loop s y_index [] = Some NULL"
| "drawer_loop s y_index (d # ds) = do {
     adrawer \<leftarrow> docks s d;
     m \<leftarrow> main_dock s;
     dock \<leftarrow> docks s m;
     (if y_pos adrawer - y_pos dock = y_index * ICON_SIZE s then Some (Some d) else drawer_loop s y_index ds) }"

definition getDrawer :: "DScreen \<Rightarrow> int \<Rightarrow> nat ptr option" where
  "getDrawer s y_index = drawer_loop s y_index (drawers s)"

definition wIsADrawer :: "DScreen \<Rightarrow> nat \<Rightarrow> bool option" where
  "wIsADrawer s a = do {
     icon \<leftarrow> aicons s a;
     (case in_dock icon of
        None \<Rightarrow> Some False
      | Some d \<Rightarrow> do {
          dock \<leftarrow> docks s d;
          (if dock_type dock \<noteq> WM_DRAWER then Some False
           else case icon_array dock of [] \<Rightarrow> None | p # _ \<Rightarrow> Some (p = Some a)) }) }"

text \<open>The icons of a drawer but its tile, and but the one that is moved.\<close>

definition other_icons :: "DScreen \<Rightarrow> Dock \<Rightarrow> nat \<Rightarrow> (nat \<times> WAppIcon) list option" where
  "other_icons s drawer moving = do {
     r \<leftarrow> array_icons (tl (icon_array drawer)) (aicons s);
     Some (filter (\<lambda>(a, icon). a \<noteq> moving) r) }"

definition indexOfHole :: "DScreen \<Rightarrow> Dock \<Rightarrow> nat \<Rightarrow> bool \<Rightarrow> int option" where
  "indexOfHole s drawer moving redocking = do {
     let n = icon_count drawer;
     let index_of_hole = (if redocking then ((n - 1) * n) sdiv 2 else (n * (n + 1)) sdiv 2);
     r \<leftarrow> other_icons s drawer moving;
     Some (index_of_hole * (if right_side drawer then - 1 else 1) - sum_list (map (\<lambda>(a, icon). xindex icon) r)) }"

text \<open>
  \<open>wSlideAppicons\<close>: the icons are moved by one slot and then their windows, through an array \<open>wins\<close> of \<open>n\<close> windows that is filled
  at the distances from the leftmost icon.
\<close>

definition slide_icon :: "int \<Rightarrow> bool \<Rightarrow> WAppIcon \<Rightarrow> WAppIcon" where
  "slide_icon isize to_the_left icon =
     icon\<lparr>xindex := to_short (xindex icon + (if to_the_left then - 1 else 1)),
       icon_x := icon_x icon + (if to_the_left then - isize else isize)\<rparr>"

fun slide_loop :: "bool \<Rightarrow> nat list \<Rightarrow> int \<Rightarrow> DScreen \<Rightarrow> (int \<times> DScreen) option" where
  "slide_loop to_the_left [] min_index s = Some (min_index, s)"
| "slide_loop to_the_left (a # as) min_index s = do {
     icon \<leftarrow> aicons s a;
     let icon' = slide_icon (ICON_SIZE s) to_the_left icon;
     slide_loop to_the_left as (min min_index (xindex icon')) (put_icon a icon' s) }"

definition wins_ok :: "DScreen \<Rightarrow> nat list \<Rightarrow> int \<Rightarrow> bool" where
  "wins_ok s as min_index \<longleftrightarrow>
     (\<forall>a \<in> set as. case aicons s a of None \<Rightarrow> False
        | Some icon \<Rightarrow> 0 \<le> xindex icon - min_index \<and> xindex icon - min_index < int (length as)) \<and>
     (\<exists>a \<in> set as. case aicons s a of None \<Rightarrow> False | Some icon \<Rightarrow> xindex icon = min_index)"

definition wSlideAppicons :: "nat list \<Rightarrow> bool \<Rightarrow> DScreen \<Rightarrow> DScreen option" where
  "wSlideAppicons as to_the_left s =
     (if as = [] then Some s
      else do {
        (min_index, s1) \<leftarrow> slide_loop to_the_left as 9999 s;
        (if wins_ok s1 as min_index then Some s1 else None) })"

text \<open>Icons collected in an array \<open>aicons_to_shift\<close> of \<open>icon_count\<close> pointers.\<close>

definition to_shift :: "Dock \<Rightarrow> (WAppIcon \<Rightarrow> bool) \<Rightarrow> (nat \<times> WAppIcon) list \<Rightarrow> nat list option" where
  "to_shift drawer P xs =
     (let as = map fst (filter (\<lambda>(a, icon). P icon) xs)
      in if int (length as) \<le> icon_count drawer then Some as else None)"

definition wDrawerFillTheGap :: "nat \<Rightarrow> nat \<Rightarrow> bool \<Rightarrow> DScreen \<Rightarrow> DScreen option" where
  "wDrawerFillTheGap d aicon redocking s = do {
     drawer \<leftarrow> docks s d;
     index_of_hole \<leftarrow> indexOfHole s drawer aicon redocking;
     r \<leftarrow> dock_icons s drawer;
     as \<leftarrow> to_shift drawer (\<lambda>icon. \<bar>xindex icon\<bar> > \<bar>index_of_hole\<bar>) (filter (\<lambda>(a, icon). a \<noteq> aicon) r);
     wSlideAppicons as (\<not> right_side drawer) s }"

text \<open>\<open>drawerConsolidateIcons\<close>: the greatest index without an icon, and the loop that closes the gaps.\<close>

fun hole_below :: "(nat \<times> WAppIcon) list \<Rightarrow> nat \<Rightarrow> nat" where
  "hole_below r 0 = 0"
| "hole_below r (Suc n) = (if icon_on (\<lambda>icon. \<bar>xindex icon\<bar> = int (Suc n)) r \<noteq> NULL then hole_below r n else Suc n)"

partial_function (option) consolidate_loop :: "nat \<Rightarrow> int \<Rightarrow> int \<Rightarrow> DScreen \<Rightarrow> DScreen option" where
  "consolidate_loop d maxRemaining isum s = do {
     drawer \<leftarrow> docks s d;
     (if isum = (maxRemaining * (maxRemaining + 1)) sdiv 2 then Some s
      else do {
        r \<leftarrow> dock_icons s drawer;
        let maxDeleted = hole_below r (nat (maxRemaining - 1));
        (if maxDeleted = 0 then None
         else do {
           as \<leftarrow> to_shift drawer (\<lambda>icon. \<bar>xindex icon\<bar> > int maxDeleted) r;
           (if int (length as) \<noteq> maxRemaining - int maxDeleted then None
            else do {
              s1 \<leftarrow> wSlideAppicons as (\<not> right_side drawer) s;
              consolidate_loop d (maxRemaining - 1) (isum - int (length as)) s1 }) }) }) }"

definition drawerConsolidateIcons :: "nat \<Rightarrow> DScreen \<Rightarrow> DScreen option" where
  "drawerConsolidateIcons d s = do {
     drawer \<leftarrow> docks s d;
     r \<leftarrow> dock_icons s drawer;
     let indices = map (\<lambda>(a, icon). \<bar>xindex icon\<bar>) r;
     consolidate_loop d (foldl max 0 indices) (sum_list indices) s }"

text \<open>The list of the drawers.\<close>

definition drawerAppendToChain :: "nat \<Rightarrow> DScreen \<Rightarrow> DScreen" where
  "drawerAppendToChain d s = s\<lparr>drawers := drawers s @ [d], drawer_count := drawer_count s + 1\<rparr>"

definition drawerRemoveFromChain :: "nat \<Rightarrow> DScreen \<Rightarrow> DScreen" where
  "drawerRemoveFromChain d s =
     (if d \<in> set (drawers s) then s\<lparr>drawers := remove1 d (drawers s), drawer_count := drawer_count s - 1\<rparr> else s)"

section \<open>Moving docks\<close>

fun move_icons :: "(WAppIcon \<Rightarrow> WAppIcon) \<Rightarrow> nat ptr list \<Rightarrow> DScreen \<Rightarrow> DScreen option" where
  "move_icons f [] s = Some s"
| "move_icons f (None # ps) s = move_icons f ps s"
| "move_icons f (Some a # ps) s = do { icon \<leftarrow> aicons s a; move_icons f ps (put_icon a (f icon) s) }"

text \<open>A dock that is no main dock, and the main dock with its drawers.\<close>

definition move_one :: "nat \<Rightarrow> int \<Rightarrow> int \<Rightarrow> DScreen \<Rightarrow> DScreen option" where
  "move_one d new_x new_y s = do {
     dock \<leftarrow> docks s d;
     let s1 = put_dock d (dock\<lparr>x_pos := new_x, y_pos := new_y\<rparr>) s;
     move_icons (\<lambda>btn. btn\<lparr>icon_x := new_x + xindex btn * ICON_SIZE s, icon_y := new_y + yindex btn * ICON_SIZE s\<rparr>) (icon_array dock) s1 }"

fun move_drawers :: "nat list \<Rightarrow> int \<Rightarrow> int \<Rightarrow> DScreen \<Rightarrow> DScreen option" where
  "move_drawers [] new_x dy s = Some s"
| "move_drawers (d # ds) new_x dy s = do {
     drawer \<leftarrow> docks s d;
     s1 \<leftarrow> move_one d new_x (y_pos drawer + dy) s;
     move_drawers ds new_x dy s1 }"

definition moveDock :: "nat \<Rightarrow> int \<Rightarrow> int \<Rightarrow> DScreen \<Rightarrow> DScreen option" where
  "moveDock d new_x new_y s = do {
     dock \<leftarrow> docks s d;
     s1 \<leftarrow> (if dock_type dock = WM_DOCK then move_drawers (drawers s) new_x (new_y - y_pos dock) s else Some s);
     move_one d new_x new_y s1 }"

text \<open>The dock goes to the other side of the screen.\<close>

definition swapDrawer :: "nat \<Rightarrow> int \<Rightarrow> DScreen \<Rightarrow> DScreen option" where
  "swapDrawer d new_x s = do {
     drawer \<leftarrow> docks s d;
     let s1 = put_dock d (drawer\<lparr>right_side := \<not> right_side drawer, x_pos := new_x\<rparr>) s;
     move_icons (\<lambda>ai. (let i = to_short (- xindex ai) in ai\<lparr>xindex := i, icon_x := new_x + i * ICON_SIZE s\<rparr>)) (icon_array drawer) s1 }"

fun swapDrawers :: "nat list \<Rightarrow> int \<Rightarrow> DScreen \<Rightarrow> DScreen option" where
  "swapDrawers [] new_x s = Some s"
| "swapDrawers (d # ds) new_x s = do { s1 \<leftarrow> swapDrawer d new_x s; swapDrawers ds new_x s1 }"

definition swapDock :: "nat \<Rightarrow> DScreen \<Rightarrow> DScreen option" where
  "swapDock d s = do {
     dock \<leftarrow> docks s d;
     let x = (if right_side dock then scr_width (heads s) - ICON_SIZE s - DOCK_EXTRA_SPACE else DOCK_EXTRA_SPACE);
     s1 \<leftarrow> swapDrawers (drawers s) x (put_dock d (dock\<lparr>x_pos := x\<rparr>) s);
     move_icons (\<lambda>btn. btn\<lparr>icon_x := x\<rparr>) (icon_array dock) s1 }"

end
