(* ===== verification/WMDockSlots.thy ===== *)
theory WMDockSlots
  imports WMDock
begin

text \<open>
  \<open>WM/src/dock.c\<close>, continued: icons are attached, moved between docks and detached, are made omnipresent (on the clip of every
  workspace), and the slot for an icon is found, under the pointer or anywhere.
\<close>

section \<open>Omnipresent icons\<close>

datatype omni_status = WO_FAILED | WO_NOT_APPLICABLE | WO_SUCCESS

fun can_be_loop :: "DScreen \<Rightarrow> WAppIcon \<Rightarrow> nat ptr list \<Rightarrow> bool option" where
  "can_be_loop s aicon [] = Some True"
| "can_be_loop s aicon (clip # cs) =
     (if clip = in_dock aicon then can_be_loop s aicon cs
      else do {
        c \<leftarrow> clip;
        dk \<leftarrow> docks s c;
        (if icon_count dk + global_icon_count s \<ge> int (max_icons dk) then Some False
         else do {
           r \<leftarrow> dock_icons s dk;
           (if icon_on (\<lambda>btn. xindex btn = xindex aicon \<and> yindex btn = yindex aicon) r \<noteq> NULL then Some False
            else can_be_loop s aicon cs) }) })"

definition iconCanBeOmnipresent :: "DScreen \<Rightarrow> WAppIcon \<Rightarrow> bool option" where
  "iconCanBeOmnipresent s aicon = can_be_loop s aicon (clips s)"

definition wClipMakeIconOmnipresent :: "nat \<Rightarrow> bool \<Rightarrow> DScreen \<Rightarrow> (omni_status \<times> DScreen) option" where
  "wClipMakeIconOmnipresent a omni s = do {
     aicon \<leftarrow> aicons s a;
     (if (main_dock s \<noteq> NULL \<and> in_dock aicon = main_dock s) \<or> Some a = clip_icon s then Some (WO_NOT_APPLICABLE, s)
      else if omnipresent aicon = omni then Some (WO_SUCCESS, s)
      else if omni
      then do {
        can \<leftarrow> iconCanBeOmnipresent s aicon;
        Some (if can
              then (WO_SUCCESS, (put_icon a (aicon\<lparr>omnipresent := True\<rparr>) s)
                     \<lparr>global_icons := a # global_icons s, global_icon_count := global_icon_count s + 1\<rparr>)
              else (WO_FAILED, put_icon a (aicon\<lparr>omnipresent := False\<rparr>) s)) }
      else if global_icons s = [] then None
      else
        (let s1 = put_icon a (aicon\<lparr>omnipresent := False\<rparr>) s
         in Some (WO_SUCCESS,
              if a \<in> set (global_icons s)
              then s1\<lparr>global_icons := remove1 a (global_icons s), global_icon_count := global_icon_count s - 1\<rparr>
              else s1))) }"

section \<open>Attaching, moving and detaching\<close>

text \<open>The command of an icon, taken from its window when it has none. The alert panel is left out.\<close>

definition icon_command :: "WAppIcon \<Rightarrow> string ptr" where
  "icon_command icon = (case command icon of Some c \<Rightarrow> Some c | None \<Rightarrow> window_command icon)"

text \<open>
  An icon goes into the first free cell of an array; the cell before it is read for the stacking order, so it must have an icon.
\<close>

definition free_cell :: "DScreen \<Rightarrow> Dock \<Rightarrow> nat option" where
  "free_cell s dk =
     (let index = array_index NULL dk
      in if index < max_icons dk
         then do { p \<leftarrow> icon_array dk ! (index - 1); below \<leftarrow> aicons s p; Some index }
         else None)"

definition put_on_slot :: "DScreen \<Rightarrow> Dock \<Rightarrow> int \<Rightarrow> int \<Rightarrow> WAppIcon \<Rightarrow> WAppIcon" where
  "put_on_slot s dk x y icon =
     icon\<lparr>xindex := to_short x, yindex := to_short y, icon_x := x_pos dk + x * ICON_SIZE s, icon_y := y_pos dk + y * ICON_SIZE s\<rparr>"

definition with_arg :: "string \<Rightarrow> string ptr \<Rightarrow> string \<Rightarrow> string ptr" where
  "with_arg c old arg = (case old of Some p \<Rightarrow> Some p | None \<Rightarrow> Some (c @ arg))"

definition wDockAttachIcon :: "nat \<Rightarrow> nat \<Rightarrow> int \<Rightarrow> int \<Rightarrow> DScreen \<Rightarrow> (bool \<times> DScreen) option" where
  "wDockAttachIcon d a x y s = do {
     icon \<leftarrow> aicons s a;
     (case icon_command icon of
        None \<Rightarrow> Some (False, put_icon a (icon\<lparr>editing := False\<rparr>) s)
      | Some c \<Rightarrow> do {
          dk \<leftarrow> docks s d;
          index \<leftarrow> free_cell s dk;
          let dk1 = dk\<lparr>icon_array := (icon_array dk)[index := Some a], icon_count := icon_count dk + 1\<rparr>;
          let icon1 = (put_on_slot s dk x y icon)
            \<lparr>editing := False, command := Some c, omnipresent := False, running := True, launching := False, docked := True,
             in_dock := Some d, dnd_command := with_arg c (dnd_command icon) '' %d'',
             paste_command := with_arg c (paste_command icon) '' %s''\<rparr>;
          Some (True, put_icon a icon1 (put_dock d dk1 s)) }) }"

definition wDockReattachIcon :: "nat \<Rightarrow> nat \<Rightarrow> int \<Rightarrow> int \<Rightarrow> DScreen \<Rightarrow> DScreen option" where
  "wDockReattachIcon d a x y s = do {
     dk \<leftarrow> docks s d;
     icon \<leftarrow> aicons s a;
     (if array_index (Some a) dk < max_icons dk then Some (put_icon a (put_on_slot s dk x y icon) s) else None) }"

text \<open>The icon leaves the array of its dock.\<close>

definition remove_from_array :: "nat \<Rightarrow> nat \<Rightarrow> DScreen \<Rightarrow> DScreen option" where
  "remove_from_array d a s = do {
     dk \<leftarrow> docks s d;
     let index = array_index (Some a) dk;
     (if index < max_icons dk
      then Some (put_dock d (dk\<lparr>icon_array := (icon_array dk)[index := NULL], icon_count := icon_count dk - 1\<rparr>) s)
      else None) }"

definition wDockMoveIconBetweenDocks :: "nat \<Rightarrow> nat ptr \<Rightarrow> nat \<Rightarrow> int \<Rightarrow> int \<Rightarrow> DScreen \<Rightarrow> (bool \<times> DScreen) option" where
  "wDockMoveIconBetweenDocks src dest a x y s =
     (if Some src = dest then Some (True, s)
      else case dest of
        None \<Rightarrow> Some (False, s)
      | Some d \<Rightarrow> do {
          dk \<leftarrow> docks s d;
          icon \<leftarrow> aicons s a;
          (if dock_type dk = WM_DOCK \<and> icon_command icon = NULL then Some (False, s)
           else do {
             let icon1 = (if dock_type dk = WM_DOCK then icon\<lparr>command := icon_command icon\<rparr> else icon);
             let s1 = put_icon a icon1 s;
             s2 \<leftarrow> (if dock_type dk = WM_DOCK \<or> dock_type dk = WM_DRAWER
                    then map_option snd (wClipMakeIconOmnipresent a False s1) else Some s1);
             s3 \<leftarrow> remove_from_array src a s2;
             dk3 \<leftarrow> docks s3 d;
             icon3 \<leftarrow> aicons s3 a;
             index \<leftarrow> free_cell s3 dk3;
             let kept = command icon3 \<noteq> NULL \<and> (dock_type dk = WM_DOCK \<or> dock_type dk = WM_DRAWER);
             let icon4 = (put_on_slot s3 dk3 x y icon3)
               \<lparr>in_dock := Some d, icon_selected := False,
                attracted := (if kept then False else attracted icon3),
                icon_shadowed := (if kept then False else icon_shadowed icon3)\<rparr>;
             let dk4 = dk3\<lparr>icon_array := (icon_array dk3)[index := Some a], icon_count := icon_count dk3 + 1\<rparr>;
             Some (True, put_icon a icon4 (put_dock d dk4 s3)) }) })"

text \<open>\<open>wAppIconDestroy\<close> ends with \<open>wrelease\<close>: the icon is freed.\<close>

definition free_icon :: "nat \<Rightarrow> DScreen \<Rightarrow> DScreen" where
  "free_icon a s = s\<lparr>aicons := (aicons s)(a := None)\<rparr>"

definition wDockDetach :: "nat \<Rightarrow> nat \<Rightarrow> DScreen \<Rightarrow> DScreen option" where
  "wDockDetach d a s = do {
     (status, s1) \<leftarrow> wClipMakeIconOmnipresent a False s;
     icon \<leftarrow> aicons s1 a;
     s2 \<leftarrow> remove_from_array d a s1;
     let icon1 = icon
       \<lparr>docked := False, in_dock := NULL, attracted := False, auto_launch := False, icon_shadowed := False, icon_selected := False,
        command := NULL, dnd_command := NULL, paste_command := NULL, xindex := - 1, yindex := - 1\<rparr>;
     Some (if \<not> running icon \<or> \<not> has_application icon then free_icon a s2 else put_icon a icon1 s2) }"

text \<open>\<open>removeIcons\<close> and the part of \<open>removeIconsCallback\<close> after the questions. Where the icons go is left out.\<close>

fun removeIcons :: "nat list \<Rightarrow> nat \<Rightarrow> DScreen \<Rightarrow> DScreen option" where
  "removeIcons [] d s = Some s"
| "removeIcons (a # as) d s = do { s1 \<leftarrow> wDockDetach d a s; removeIcons as d s1 }"

definition remove_selected :: "nat list \<Rightarrow> nat \<Rightarrow> DScreen \<Rightarrow> DScreen option" where
  "remove_selected as d s = do {
     dk \<leftarrow> docks s d;
     s1 \<leftarrow> removeIcons as d s;
     (if dock_type dk = WM_DRAWER then drawerConsolidateIcons d s1 else Some s1) }"

text \<open>The clip tile and the omnipresent icons follow a change of the workspace.\<close>

fun follow_loop :: "nat ptr \<Rightarrow> nat list \<Rightarrow> DScreen \<Rightarrow> DScreen option" where
  "follow_loop clip [] s = Some s"
| "follow_loop clip (a # as) s = do {
     icon \<leftarrow> aicons s a;
     d \<leftarrow> in_dock icon;
     (moved, s1) \<leftarrow> wDockMoveIconBetweenDocks d clip a (xindex icon) (yindex icon) s;
     c \<leftarrow> clip;
     dk \<leftarrow> docks s1 c;
     follow_loop clip as s1 }"

definition wClipUpdateForWorkspaceChange :: "nat \<Rightarrow> DScreen \<Rightarrow> DScreen option" where
  "wClipUpdateForWorkspaceChange w s =
     (if noclip s then Some s
      else if length (clips s) \<le> w then None
      else do {
        c \<leftarrow> clip_icon s;
        tile \<leftarrow> aicons s c;
        let s1 = put_icon c (tile\<lparr>in_dock := clips s ! w\<rparr>) s;
        (if workspace s = w then Some s1
         else if length (clips s) \<le> workspace s then None
         else do {
           old_clip \<leftarrow> clips s ! workspace s;
           s2 \<leftarrow> follow_loop (clips s ! w) (global_icons s) s1;
           old \<leftarrow> docks s2 old_clip;
           Some s2 }) })"

section \<open>The slot under the pointer\<close>

definition nearest :: "int \<Rightarrow> int \<Rightarrow> int \<Rightarrow> int" where
  "nearest isize req origin =
     (if req < origin then (req - isize sdiv 2 - origin) sdiv isize else (req + isize sdiv 2 - origin) sdiv isize)"

text \<open>The rows of the dock around \<open>ex_y\<close>; \<open>i\<close> counts up to \<open>(DOCK_DETTACH_THRESHOLD + 1) * 2\<close>.\<close>

definition row_free :: "DScreen \<Rightarrow> Dock \<Rightarrow> nat \<Rightarrow> int \<Rightarrow> bool option" where
  "row_free s dk a closest = do {
     visible \<leftarrow> onScreen s (x_pos dk) (y_pos dk + closest * ICON_SIZE s);
     (if \<not> visible then Some False
      else do {
        r \<leftarrow> dock_icons s dk;
        (case icon_on (\<lambda>icon. yindex icon = closest) r of
           Some b \<Rightarrow> if b \<noteq> a then Some False else do { q \<leftarrow> getDrawer s closest; Some (q = NULL) }
         | None \<Rightarrow> do { q \<leftarrow> getDrawer s closest; Some (q = NULL) }) }) }"

fun closest_loop :: "DScreen \<Rightarrow> Dock \<Rightarrow> nat \<Rightarrow> int \<Rightarrow> int list \<Rightarrow> int \<Rightarrow> int ptr option" where
  "closest_loop s dk a ex_y [] sig = Some NULL"
| "closest_loop s dk a ex_y (i # is) sig = do {
     let closest = sig * (i sdiv 2) + ex_y;
     free \<leftarrow> row_free s dk a closest;
     (if free then Some (Some closest) else closest_loop s dk a ex_y is (- sig)) }"

definition snap_dock :: "DScreen \<Rightarrow> nat \<Rightarrow> Dock \<Rightarrow> nat \<Rightarrow> int \<Rightarrow> int \<Rightarrow> int \<Rightarrow> bool \<Rightarrow> (int \<times> int) ptr option" where
  "snap_dock s d dk a req_y ex_x ex_y redocking = do {
     icon \<leftarrow> aicons s a;
     tile \<leftarrow> wIsADrawer s a;
     (if in_dock icon \<noteq> Some d \<and> ex_x \<noteq> 0 \<and> \<not> tile then Some NULL
      else if \<not> redocking \<and> ex_x \<noteq> 0 then Some NULL
      else do {
        q \<leftarrow> getDrawer s ex_y;
        (if q \<noteq> NULL then Some NULL
         else do {
           r \<leftarrow> dock_icons s dk;
           let aicon = icon_on (\<lambda>icon. yindex icon = ex_y) r;
           (if redocking
            then (if \<bar>ex_x\<bar> > DOCK_DETTACH_THRESHOLD then Some NULL
                  else if aicon = Some a \<or> aicon = NULL then Some (Some (0, ex_y))
                  else do {
                    let sig = (if ex_y * ICON_SIZE s < req_y + ICON_SIZE s sdiv 2 - y_pos dk then 1 else - 1);
                    c \<leftarrow> closest_loop s dk a ex_y [0..(DOCK_DETTACH_THRESHOLD + 1) * 2 - 1] sig;
                    Some (case c of
                        None \<Rightarrow> NULL
                      | Some closest \<Rightarrow>
                          if ex_y \<ge> closest \<and> ex_y - closest < DOCK_DETTACH_THRESHOLD + 1 \<or>
                             ex_y < closest \<and> closest - ex_y \<le> DOCK_DETTACH_THRESHOLD + 1
                          then Some (0, closest) else NULL) })
            else Some (if aicon = NULL \<and> ex_x = 0 then Some (0, ex_y) else NULL)) }) }) }"

text \<open>The clips that count: the one of the workspace, or all of them for an omnipresent icon.\<close>

fun first_in :: "DScreen \<Rightarrow> (nat \<Rightarrow> WAppIcon \<Rightarrow> bool) \<Rightarrow> nat ptr list \<Rightarrow> nat ptr option" where
  "first_in s P [] = Some NULL"
| "first_in s P (None # cs) = first_in s P cs"
| "first_in s P (Some c # cs) = do {
     dk \<leftarrow> docks s c;
     r \<leftarrow> dock_icons s dk;
     (case find (\<lambda>(a, icon). P a icon) r of Some x \<Rightarrow> Some (Some (fst x)) | None \<Rightarrow> first_in s P cs) }"

definition snap_clip :: "DScreen \<Rightarrow> nat \<Rightarrow> int \<Rightarrow> int \<Rightarrow> bool \<Rightarrow> (int \<times> int) ptr option" where
  "snap_clip s a ex_x ex_y redocking = do {
     icon \<leftarrow> aicons s a;
     cs \<leftarrow> (if omnipresent icon then Some (clips s)
           else if workspace s < length (clips s) then Some [clips s ! workspace s] else None);
     aicon \<leftarrow> first_in s (\<lambda>b nicon. xindex nicon = ex_x \<and> yindex nicon = ex_y) cs;
     neighbour \<leftarrow> first_in s (\<lambda>b nicon. b \<noteq> a \<and> \<bar>xindex nicon - ex_x\<bar> \<le> CLIP_ATTACH_VICINITY \<and>
        \<bar>yindex nicon - ex_y\<bar> \<le> CLIP_ATTACH_VICINITY) cs;
     Some (if neighbour \<noteq> NULL \<and> (aicon = NULL \<or> redocking \<and> aicon = Some a) then Some (ex_x, ex_y) else NULL) }"

text \<open>A drawer makes room: the icons between the hole and the slot slide by one.\<close>

definition snap_drawer :: "DScreen \<Rightarrow> Dock \<Rightarrow> nat \<Rightarrow> int \<Rightarrow> int \<Rightarrow> bool \<Rightarrow> ((int \<times> int) ptr \<times> DScreen) option" where
  "snap_drawer s dk a ex_x0 ex_y redocking =
     (if ex_y \<noteq> 0 \<or> \<bar>ex_x0\<bar> - icon_count dk > DOCK_DETTACH_THRESHOLD \<or> ex_x0 < 0 \<and> \<not> right_side dk \<or> ex_x0 > 0 \<and> right_side dk
      then Some (NULL, s)
      else do {
        let ex_x1 = (if ex_x0 = 0 then (if right_side dk then - 1 else 1) else ex_x0);
        let n = (if redocking then icon_count dk - 1 else icon_count dk);
        let ex_x = (if \<bar>ex_x1\<bar> > n then (ex_x1 * n) sdiv \<bar>ex_x1\<bar> else ex_x1);
        index_of_hole \<leftarrow> indexOfHole s dk a redocking;
        r \<leftarrow> other_icons s dk a;
        as \<leftarrow> to_shift dk (\<lambda>icon. ex_x \<le> xindex icon \<and> xindex icon < index_of_hole \<or> index_of_hole < xindex icon \<and> xindex icon \<le> ex_x) r;
        (if int (length as) \<noteq> \<bar>ex_x - index_of_hole\<bar> then None
         else do {
           s1 \<leftarrow> wSlideAppicons as (index_of_hole < ex_x) s;
           Some (Some (ex_x, ex_y), s1) }) })"

definition wDockSnapIcon :: "nat \<Rightarrow> nat \<Rightarrow> int \<Rightarrow> int \<Rightarrow> bool \<Rightarrow> DScreen \<Rightarrow> ((int \<times> int) ptr \<times> DScreen) option" where
  "wDockSnapIcon d a req_x req_y redocking s = do {
     dk \<leftarrow> docks s d;
     (if noupdates s then Some (NULL, s)
      else if \<not> redocking \<and> icon_count dk \<ge> int (max_icons dk) then Some (NULL, s)
      else do {
        let ex_y = nearest (ICON_SIZE s) req_y (y_pos dk);
        let ex_x = nearest (ICON_SIZE s) req_x (x_pos dk);
        visible \<leftarrow> onScreen s (x_pos dk + ex_x * ICON_SIZE s) (y_pos dk + ex_y * ICON_SIZE s);
        (if \<not> visible then Some (NULL, s)
         else case dock_type dk of
             WM_DOCK \<Rightarrow> map_option (\<lambda>r. (r, s)) (snap_dock s d dk a req_y ex_x ex_y redocking)
           | WM_CLIP \<Rightarrow> map_option (\<lambda>r. (r, s)) (snap_clip s a ex_x ex_y redocking)
           | WM_DRAWER \<Rightarrow> snap_drawer s dk a ex_x ex_y redocking) }) }"

section \<open>A free slot\<close>

definition set_used :: "bool list \<Rightarrow> int \<Rightarrow> bool list option" where
  "set_used m i = (if 0 \<le> i \<and> i < int (length m) then Some (m[nat i := True]) else None)"

text \<open>
  In a corner of the screen a clip has its icons along the two borders: \<open>south\<close> and \<open>west\<close> say in which direction. The code has the
  four corners written out.
\<close>

definition corner_of :: "DScreen \<Rightarrow> Dock \<Rightarrow> int \<Rightarrow> int \<Rightarrow> (bool \<times> bool) option" where
  "corner_of s dk ex ey =
     (if dock_type dk \<noteq> WM_CLIP then None
      else if x_pos dk < 1 \<and> y_pos dk < 1 then Some (False, False)
      else if x_pos dk < 1 \<and> y_pos dk \<ge> ey - ICON_SIZE s then Some (True, False)
      else if x_pos dk \<ge> ex - ICON_SIZE s \<and> y_pos dk \<ge> ey - ICON_SIZE s then Some (True, True)
      else if x_pos dk \<ge> ex - ICON_SIZE s \<and> y_pos dk < 1 then Some (False, True)
      else None)"

fun mark_border :: "bool \<Rightarrow> bool \<Rightarrow> int \<Rightarrow> int \<Rightarrow> WAppIcon list \<Rightarrow> bool list \<times> bool list \<Rightarrow> (bool list \<times> bool list) option" where
  "mark_border south west hcells vcells [] m = Some m"
| "mark_border south west hcells vcells (btn # bs) (hmap, vmap) =
     (let v = (if south then - yindex btn else yindex btn); h = (if west then - xindex btn else xindex btn) in
      if xindex btn = 0 \<and> v > 0 \<and> v < vcells
      then do { vm \<leftarrow> set_used vmap v; mark_border south west hcells vcells bs (hmap, vm) }
      else if yindex btn = 0 \<and> h > 0 \<and> h < hcells
      then do { hm \<leftarrow> set_used hmap h; mark_border south west hcells vcells bs (hm, vmap) }
      else mark_border south west hcells vcells bs (hmap, vmap))"

fun vacant :: "int \<Rightarrow> int \<Rightarrow> bool list \<Rightarrow> bool list \<Rightarrow> int list \<Rightarrow> (int \<times> int) ptr option" where
  "vacant hcells vcells hmap vmap [] = Some NULL"
| "vacant hcells vcells hmap vmap (i # is) = do {
     v \<leftarrow> (if i < vcells then at vmap i else Some True);
     (if \<not> v then Some (Some (0, i))
      else do {
        h \<leftarrow> (if i < hcells then at hmap i else Some True);
        (if \<not> h then Some (Some (i, 0)) else vacant hcells vcells hmap vmap is) }) }"

text \<open>The icons on the global chain.\<close>

fun chain_icons :: "nat list \<Rightarrow> (nat \<rightharpoonup> WAppIcon) \<Rightarrow> WAppIcon list option" where
  "chain_icons [] h = Some []"
| "chain_icons (a # as) h = do { icon \<leftarrow> h a; r \<leftarrow> chain_icons as h; Some (icon # r) }"

definition border_slot :: "DScreen \<Rightarrow> Dock \<Rightarrow> bool \<Rightarrow> bool \<Rightarrow> (int \<times> int) ptr option" where
  "border_slot s dk south west = do {
     let hcells = min (int (max_icons dk)) (scr_width (heads s) sdiv ICON_SIZE s);
     let vcells = min (int (max_icons dk)) (scr_height (heads s) sdiv ICON_SIZE s);
     r \<leftarrow> dock_icons s dk;
     g \<leftarrow> chain_icons (global_icons s) (aicons s);
     (hmap, vmap) \<leftarrow> mark_border south west hcells vcells (map snd r @ g)
        (replicate (nat (hcells + 1)) False, replicate (nat (vcells + 1)) False);
     found \<leftarrow> vacant hcells vcells hmap vmap [1..max vcells hcells - 1];
     Some (map_option (\<lambda>(x, y). (if west then - x else x, if south then - y else y)) found) }"

text \<open>\<open>ceil(sqrt(n))\<close>, and the map around the tile. An index outside the map is taken for the first cell.\<close>

function root_above :: "nat \<Rightarrow> nat \<Rightarrow> nat" where
  "root_above n m = (if n \<le> m * m then m else root_above n (m + 1))"
  by pat_completeness auto
termination by (relation "measure (\<lambda>(n, m). n - m)") (auto simp: not_le intro: diff_less_mono2 le_less_trans [OF le_square])

declare root_above.simps [simp del]

definition XY2OFS :: "int \<Rightarrow> int \<Rightarrow> int \<Rightarrow> int \<Rightarrow> int" where
  "XY2OFS r mwidth x y = (if max \<bar>x\<bar> \<bar>y\<bar> > r then 0 else (y + r) * mwidth + x + r)"

fun mark_map :: "int \<Rightarrow> int \<Rightarrow> WAppIcon list \<Rightarrow> bool list \<Rightarrow> bool list option" where
  "mark_map r mwidth [] m = Some m"
| "mark_map r mwidth (btn # bs) m = do {
     m1 \<leftarrow> set_used m (XY2OFS r mwidth (xindex btn) (yindex btn));
     mark_map r mwidth bs m1 }"

definition slot_ok :: "DScreen \<Rightarrow> Dock \<Rightarrow> int \<Rightarrow> int \<Rightarrow> bool list \<Rightarrow> int \<Rightarrow> int \<Rightarrow> bool option" where
  "slot_ok s dk r mwidth m x y = do {
     used \<leftarrow> at m (XY2OFS r mwidth x y);
     (if used then Some False else onScreen s (x_pos dk + x * ICON_SIZE s) (y_pos dk + y * ICON_SIZE s)) }"

text \<open>The first of some slots. The left and right parts of a ring are searched even if the other parts had a slot, and win.\<close>

fun first_slot :: "(int \<Rightarrow> int \<Rightarrow> bool option) \<Rightarrow> (int \<times> int) list \<Rightarrow> (int \<times> int) ptr option" where
  "first_slot ok [] = Some NULL"
| "first_slot ok ((x, y) # ps) = do { b \<leftarrow> ok x y; (if b then Some (Some (x, y)) else first_slot ok ps) }"

definition top_bottom :: "int \<Rightarrow> (int \<times> int) list" where
  "top_bottom i = concat (map (\<lambda>x. [(x, - i), (x, i)]) [- i..i])"

definition left_right :: "int \<Rightarrow> (int \<times> int) list" where
  "left_right i = concat (map (\<lambda>y. [(- i, y), (i, y)]) [- i + 1..i - 1])"

fun ring_loop :: "(int \<Rightarrow> int \<Rightarrow> bool option) \<Rightarrow> int list \<Rightarrow> (int \<times> int) ptr option" where
  "ring_loop ok [] = Some NULL"
| "ring_loop ok (i # is) = do {
     t \<leftarrow> first_slot ok (top_bottom i);
     l \<leftarrow> first_slot ok (left_right i);
     (if l \<noteq> NULL then Some l else if t \<noteq> NULL then Some t else ring_loop ok is) }"

definition ring_slot :: "DScreen \<Rightarrow> Dock \<Rightarrow> (int \<times> int) ptr option" where
  "ring_slot s dk = do {
     let mwidth = 2 * int (root_above (max_icons dk) 0);
     let r = (mwidth - 1) sdiv 2;
     rs \<leftarrow> dock_icons s dk;
     g \<leftarrow> chain_icons (global_icons s) (aicons s);
     m \<leftarrow> mark_map r mwidth (map snd rs @ g) (replicate (nat (mwidth * mwidth)) False);
     ring_loop (slot_ok s dk r mwidth m) [1..r] }"

definition wDockFindFreeSlot :: "nat \<Rightarrow> DScreen \<Rightarrow> (int \<times> int) ptr option" where
  "wDockFindFreeSlot d s = do {
     dk \<leftarrow> docks s d;
     (if dock_type dk = WM_DRAWER
      then Some (if icon_count dk \<ge> int (max_icons dk) then NULL
                 else Some (icon_count dk * (if right_side dk then - 1 else 1), 0))
      else do {
        extra_count \<leftarrow> (if dock_type dk = WM_CLIP
          then do { clip \<leftarrow> at (clips s) (int (workspace s)); Some (if Some d \<noteq> clip then global_icon_count s else 0) }
          else Some 0);
        (if icon_count dk + extra_count \<ge> int (max_icons dk) then Some NULL
         else do {
           right \<leftarrow> (case main_dock s of None \<Rightarrow> Some False
                    | Some m \<Rightarrow> if nodock s then Some False else do { md \<leftarrow> docks s m; Some (right_side md) });
           let ex0 = (if right then scr_width (heads s) - (ICON_SIZE s + DOCK_EXTRA_SPACE) else scr_width (heads s));
           let ex = max ex0 (x_pos dk);
           border \<leftarrow> (case corner_of s dk ex (scr_height (heads s)) of
                       Some (south, west) \<Rightarrow> border_slot s dk south west
                     | None \<Rightarrow> Some NULL);
           (if border \<noteq> NULL then Some border else ring_slot s dk) }) }) }"

end
