(* ===== verification/WMIconDrag.thy ===== *)
theory WMIconDrag
  imports WMDockSlots
begin

text \<open>
  \<open>WM/src/appicon.c\<close>, \<open>wHandleAppIconMove\<close>: an icon is dragged over the docks, clips and drawers and released. Every motion
  asks the docks for a slot; a drawer makes room meanwhile, and closes the gap when the icon goes elsewhere. Hiding, showing,
  raising and drawing are left out.
\<close>

section \<open>The drag\<close>

text \<open>The local variables \<open>originalDock\<close>, \<open>lastDock\<close>, \<open>ondock\<close>, \<open>ix\<close> and \<open>iy\<close>.\<close>

record Drag =
  original :: "nat ptr"
  last_dock :: "nat ptr"
  ondock :: bool
  ix :: int
  iy :: int

text \<open>The array \<open>allDocks\<close> of \<open>drawer_count + 2\<close> pointers, without the NULLs that fill it up.\<close>

definition allDocks :: "DScreen \<Rightarrow> nat ptr \<Rightarrow> nat ptr list option" where
  "allDocks s orig = do {
     clip \<leftarrow> (if noclip s then Some NULL else at (clips s) (int (workspace s)));
     let ds = (if orig \<noteq> NULL then [orig] else []) @ map Some (filter (\<lambda>d. Some d \<noteq> orig) (drawers s)) @
       (if \<not> nodock s \<and> main_dock s \<noteq> orig then [main_dock s] else []) @
       (if \<not> noclip s \<and> orig \<noteq> clip then [clip] else []);
     (if int (length ds) \<le> drawer_count s + 2 then Some ds else None) }"

fun snap_first :: "nat \<Rightarrow> nat ptr \<Rightarrow> int \<Rightarrow> int \<Rightarrow> nat ptr list \<Rightarrow> int \<times> int \<Rightarrow> DScreen \<Rightarrow> (nat ptr \<times> (int \<times> int) \<times> DScreen) option" where
  "snap_first a orig x y [] p s = Some (NULL, p, s)"
| "snap_first a orig x y (None # ds) p s = Some (NULL, p, s)"
| "snap_first a orig x y (Some d # ds) p s = do {
     (r, s1) \<leftarrow> wDockSnapIcon d a x y (Some d = orig) s;
     (case r of Some q \<Rightarrow> Some (Some d, q, s1) | None \<Rightarrow> snap_first a orig x y ds p s1) }"

text \<open>A dock that the icon left: a drawer closes its gap.\<close>

definition leave_dock :: "nat \<Rightarrow> nat \<Rightarrow> bool \<Rightarrow> DScreen \<Rightarrow> DScreen option" where
  "leave_dock d a redocking s = do {
     dk \<leftarrow> docks s d;
     (if dock_type dk = WM_DRAWER then wDrawerFillTheGap d a redocking s else Some s) }"

text \<open>\<open>MotionNotify\<close>; \<open>detach\<close> says that the modifier for detaching is pressed.\<close>

definition icon_motion :: "nat \<Rightarrow> bool \<Rightarrow> int \<Rightarrow> int \<Rightarrow> bool \<Rightarrow> Drag \<Rightarrow> DScreen \<Rightarrow> (Drag \<times> DScreen) option" where
  "icon_motion a dockable x y detach g s0 = do {
     icon \<leftarrow> aicons s0 a;
     let s = put_icon a (icon\<lparr>icon_x := x, icon_y := y\<rparr>) s0;
     ds \<leftarrow> allDocks s (original g);
     (new, p, s1) \<leftarrow>
       (if \<not> detach \<or> launching icon \<or> lock icon \<or> original g = NULL
        then do {
          (new, p, s1) \<leftarrow> (if dockable then snap_first a (original g) x y ds (ix g, iy g) s else Some (NULL, (ix g, iy g), s));
          Some (if original g \<noteq> NULL \<and> new = NULL \<and> (launching icon \<or> lock icon) then last_dock g else new, p, s1) }
        else Some (NULL, (ix g, iy g), s));
     s2 \<leftarrow> (case last_dock g of
              None \<Rightarrow> Some s1
            | Some l \<Rightarrow> if last_dock g \<noteq> new then leave_dock l a (last_dock g = original g) s1 else Some s1);
     Some (g\<lparr>last_dock := new, ondock := (new \<noteq> NULL), ix := fst p, iy := snd p\<rparr>, s2) }"

text \<open>A docked icon goes back to the slot that it came from: a drawer makes room for it again.\<close>

definition go_back :: "nat \<Rightarrow> nat \<Rightarrow> DScreen \<Rightarrow> DScreen option" where
  "go_back d a s = do {
     dk \<leftarrow> docks s d;
     icon \<leftarrow> aicons s a;
     s1 \<leftarrow> (if dock_type dk = WM_DRAWER
            then do {
              r \<leftarrow> dock_icons s dk;
              as \<leftarrow> to_shift dk (\<lambda>ai. \<bar>xindex ai\<bar> \<ge> \<bar>xindex icon\<bar>) (filter (\<lambda>(b, i). b \<noteq> a) r);
              wSlideAppicons as (right_side dk) s }
            else Some s);
     wDockReattachIcon d a (xindex icon) (yindex icon) s1 }"

text \<open>\<open>ButtonRelease\<close>. Where an icon goes that is detached is left out.\<close>

definition icon_release :: "nat \<Rightarrow> Drag \<Rightarrow> DScreen \<Rightarrow> DScreen option" where
  "icon_release a g s =
     (if ondock g
      then do {
        l \<leftarrow> last_dock g;
        (case original g of
           None \<Rightarrow> do {
             (ok, s1) \<leftarrow> wDockAttachIcon l a (ix g) (iy g) s;
             (if ok then Some s1 else leave_dock l a False s1) }
         | Some d \<Rightarrow>
             if d = l then wDockReattachIcon d a (ix g) (iy g) s
             else do {
               (ok, s1) \<leftarrow> wDockMoveIconBetweenDocks d (Some l) a (ix g) (iy g) s;
               (if ok then Some s1 else do { s2 \<leftarrow> leave_dock l a False s1; go_back d a s2 }) }) }
      else case original g of None \<Rightarrow> Some s | Some d \<Rightarrow> wDockDetach d a s)"

fun icon_motions :: "nat \<Rightarrow> bool \<Rightarrow> (int \<times> int \<times> bool) list \<Rightarrow> Drag \<Rightarrow> DScreen \<Rightarrow> (Drag \<times> DScreen) option" where
  "icon_motions a dockable [] g s = Some (g, s)"
| "icon_motions a dockable ((x, y, detach) # ms) g s = do {
     (g1, s1) \<leftarrow> icon_motion a dockable x y detach g s;
     icon_motions a dockable ms g1 s1 }"

definition wHandleAppIconMove :: "nat \<Rightarrow> bool \<Rightarrow> (int \<times> int \<times> bool) list \<Rightarrow> DScreen \<Rightarrow> DScreen option" where
  "wHandleAppIconMove a dockable motions s = do {
     icon \<leftarrow> aicons s a;
     (if noupdates s \<and> in_dock icon \<noteq> NULL then Some s
      else do {
        ds \<leftarrow> allDocks s (in_dock icon);
        (g, s1) \<leftarrow> icon_motions a (in_dock icon \<noteq> NULL \<or> (dockable \<and> \<not> (nodock s \<and> noclip s \<and> nodrawer s))) motions
           \<lparr>original = in_dock icon, last_dock = in_dock icon, ondock = (in_dock icon \<noteq> NULL), ix = xindex icon, iy = yindex icon\<rparr> s;
        icon_release a g s1 }) }"

end
