(* ===== verification/WMDrawerSpec.thy ===== *)
theory WMDrawerSpec
  imports WMIconDrag
begin

text \<open>
  Drawers (\<open>WMDock\<close>, \<open>WMDockSlots\<close>): their icons are on the places 1, 2, ... without a gap, up to the one that is left for an icon that
  is dragged over the drawer. The hole is found from a sum, and moved by sliding the icons between it and the pointer.
\<close>

section \<open>Sliding icons\<close>

lemma to_short_small [simp]: "- (2 ^ 15) \<le> n \<Longrightarrow> n < 2 ^ 15 \<Longrightarrow> to_short n = n"
  by (simp add: to_short_def)

definition slid :: "nat list \<Rightarrow> bool \<Rightarrow> DScreen \<Rightarrow> DScreen" where
  "slid as to_the_left s = s\<lparr>aicons := \<lambda>b. map_option (\<lambda>i. if b \<in> set as then slide_icon (ICON_SIZE s) to_the_left i else i) (aicons s b)\<rparr>"

lemma slide_loop_slid:
  assumes "distinct as" "\<forall>a \<in> set as. aicons s a \<noteq> None"
  shows "slide_loop lft as m s =
    Some (foldl min m (map (\<lambda>a. xindex (slide_icon (ICON_SIZE s) lft (the (aicons s a)))) as), slid as lft s)"
  using assms
proof (induction as arbitrary: m s)
  case Nil
  then show ?case by (simp add: slid_def option.map_ident)
next
  case (Cons a as)
  obtain i where i: "aicons s a = Some i" using Cons.prems by auto
  let ?i = "slide_icon (ICON_SIZE s) lft i"
  let ?s = "put_icon a ?i s"
  have same: "aicons ?s b = aicons s b" if "b \<in> set as" for b using that Cons.prems by (auto simp: put_icon_def)
  have "slide_loop lft as (min m (xindex ?i)) ?s =
    Some (foldl min (min m (xindex ?i)) (map (\<lambda>b. xindex (slide_icon (ICON_SIZE ?s) lft (the (aicons ?s b)))) as), slid as lft ?s)"
    by (rule Cons.IH) (use Cons.prems same in auto)
  moreover have isz: "ICON_SIZE ?s = ICON_SIZE s" by (simp add: put_icon_def)
  moreover have "slid as lft ?s = slid (a # as) lft s"
  proof -
    have "aicons (slid as lft ?s) = aicons (slid (a # as) lft s)"
      unfolding slid_def isz by (rule ext) (use i Cons.prems in \<open>auto simp: put_icon_def\<close>)
    then show ?thesis by (simp add: slid_def put_icon_def)
  qed
  ultimately show ?case using i same by (simp add: Let_def cong: map_cong)
qed

lemma foldl_min: "foldl min (m :: int) xs = Min (insert m (set xs))"
proof (induction xs arbitrary: m)
  case (Cons x xs)
  have "foldl min m (x # xs) = Min (insert (min m x) (set xs))" using Cons by simp
  also have "\<dots> = Min (insert m (insert x (set xs)))"
    by (cases "set xs = {}") (auto simp: min.assoc)
  finally show ?case by simp
qed simp

text \<open>Sliding icons that are next to each other stays inside the array of windows.\<close>

lemma wSlide_ok:
  assumes d: "distinct as" and some: "\<forall>a \<in> set as. aicons s a \<noteq> None"
    and x: "(\<lambda>a. xindex (the (aicons s a))) ` set as = {lo..hi}" "int (length as) = hi - lo + 1" "- 9999 < lo" "hi < 9998"
  shows "wSlideAppicons as lft s = Some (slid as lft s)"
proof (cases "as = []")
  case True
  then show ?thesis by (simp add: wSlideAppicons_def slid_def option.map_ident)
next
  case False
  let ?d = "if lft then - 1 else 1 :: int"
  let ?x = "\<lambda>a. xindex (the (aicons s a))"
  have range: "lo \<le> ?x a" "?x a \<le> hi" if "a \<in> set as" for a using x(1) that by (metis atLeastAtMost_iff image_eqI)+
  have new: "xindex (slide_icon (ICON_SIZE s) lft (the (aicons s a))) = ?x a + ?d" if "a \<in> set as" for a
    using range [OF that] x(3,4) by (simp add: slide_icon_def)
  have le: "lo \<le> hi" using False x(1) range by (meson hd_in_set order_trans)
  have "(\<lambda>a. xindex (slide_icon (ICON_SIZE s) lft (the (aicons s a)))) ` set as = (\<lambda>v. v + ?d) ` (?x ` set as)"
    using new by (auto simp: image_image)
  also have "\<dots> = {lo + ?d..hi + ?d}" using x(1) by (simp add: image_add_atLeastAtMost')
  finally have img: "(\<lambda>a. xindex (slide_icon (ICON_SIZE s) lft (the (aicons s a)))) ` set as = {lo + ?d..hi + ?d}" .
  have mn: "foldl min 9999 (map (\<lambda>a. xindex (slide_icon (ICON_SIZE s) lft (the (aicons s a)))) as) = lo + ?d"
  proof -
    have "Min {lo + ?d..hi + ?d} = lo + ?d" using le by (intro Min_eqI) auto
    moreover have "Min (insert 9999 {lo + ?d..hi + ?d}) = min 9999 (Min {lo + ?d..hi + ?d})" using le by (intro Min_insert) auto
    ultimately show ?thesis using x(3,4) le by (simp add: foldl_min img)
  qed
  have "wins_ok (slid as lft s) as (lo + ?d)"
  proof -
    have "aicons (slid as lft s) a = Some (slide_icon (ICON_SIZE s) lft (the (aicons s a)))" if "a \<in> set as" for a
      using some that by (auto simp: slid_def)
    moreover have "\<exists>a \<in> set as. ?x a = lo" using x(1) le by (metis (no_types, lifting) atLeastAtMost_iff imageE order_refl)
    ultimately show ?thesis using new range x(2) by (auto simp: wins_ok_def)
  qed
  then show ?thesis using False slide_loop_slid [OF d some, of lft 9999] mn by (simp add: wSlideAppicons_def)
qed

section \<open>Rows with a hole\<close>

text \<open>The direction a drawer opens in, and its places: one for every icon but the tile, counting the one that is moved.\<close>

definition dirn :: "Dock \<Rightarrow> int" where
  "dirn dk = (if right_side dk then - 1 else 1)"

definition places :: "Dock \<Rightarrow> bool \<Rightarrow> int" where
  "places dk redocking = (if redocking then icon_count dk - 1 else icon_count dk)"

definition place_of :: "Dock \<Rightarrow> WAppIcon \<Rightarrow> int" where
  "place_of dk icon = dirn dk * xindex icon"

lemma dirn_simps [simp]: "dirn dk * dirn dk = 1" "dirn dk * (dirn dk * n) = n" "\<bar>dirn dk * n\<bar> = \<bar>n\<bar>"
  by (simp_all add: dirn_def)

text \<open>
  The icons of a drawer but the one that is moved fill the places \<open>1..m\<close> up to the place \<open>h\<close>, which is left for that icon.
\<close>

definition row :: "DScreen \<Rightarrow> Dock \<Rightarrow> nat \<Rightarrow> int \<Rightarrow> int \<Rightarrow> (nat \<times> WAppIcon) list \<Rightarrow> bool" where
  "row s dk a m h others \<longleftrightarrow>
     other_icons s dk a = Some others \<and> distinct (map fst others) \<and> int (length others) = m - 1 \<and> 1 \<le> h \<and> h \<le> m \<and> m < 9000 \<and>
     place_of dk ` snd ` set others = {1..m} - {h} \<and>
     (\<forall>i \<in> snd ` set others. yindex i = 0 \<and> icon_x i = x_pos dk + xindex i * ICON_SIZE s \<and> icon_y i = y_pos dk)"

text \<open>What becomes of an icon when the hole goes from \<open>h\<close> to \<open>h'\<close>: it keeps its rank.\<close>

definition rank :: "int \<Rightarrow> int \<Rightarrow> int" where
  "rank h k = (if k > h then k - 1 else k)"

definition unrank :: "int \<Rightarrow> int \<Rightarrow> int" where
  "unrank h r = (if r < h then r else r + 1)"

definition to_place :: "DScreen \<Rightarrow> Dock \<Rightarrow> int \<Rightarrow> WAppIcon \<Rightarrow> WAppIcon" where
  "to_place s dk k i = i\<lparr>xindex := dirn dk * k, icon_x := x_pos dk + dirn dk * k * ICON_SIZE s\<rparr>"

definition move_hole :: "DScreen \<Rightarrow> Dock \<Rightarrow> int \<Rightarrow> int \<Rightarrow> WAppIcon \<Rightarrow> WAppIcon" where
  "move_hole s dk h h' i = to_place s dk (unrank h' (rank h (place_of dk i))) i"

definition remap :: "DScreen \<Rightarrow> Dock \<Rightarrow> (nat \<times> WAppIcon) list \<Rightarrow> (int \<Rightarrow> int) \<Rightarrow> DScreen" where
  "remap s dk r f =
     s\<lparr>aicons := \<lambda>b. if b \<in> fst ` set r then map_option (\<lambda>i. to_place s dk (f (place_of dk i)) i) (aicons s b) else aicons s b\<rparr>"

definition with_hole :: "DScreen \<Rightarrow> Dock \<Rightarrow> (nat \<times> WAppIcon) list \<Rightarrow> int \<Rightarrow> int \<Rightarrow> DScreen" where
  "with_hole s dk others h h' = remap s dk others (\<lambda>k. unrank h' (rank h k))"

lemma array_icons_lookup: "array_icons ps h = Some r \<Longrightarrow> (b, i) \<in> set r \<Longrightarrow> h b = Some i"
  by (induction ps h arbitrary: r rule: array_icons.induct) (auto split: Option.bind_splits)

lemma array_icons_map:
  "array_icons ps h = Some r \<Longrightarrow> array_icons ps (\<lambda>b. map_option (f b) (h b)) = Some (map (\<lambda>(b, i). (b, f b i)) r)"
  by (induction ps h arbitrary: r rule: array_icons.induct) (auto split: Option.bind_splits)

lemma other_icons_lookup: "other_icons s dk a = Some r \<Longrightarrow> (b, i) \<in> set r \<Longrightarrow> aicons s b = Some i"
  using array_icons_lookup by (auto simp: other_icons_def split: Option.bind_splits)

lemma other_icons_map:
  assumes "other_icons s dk a = Some r" "aicons s' = (\<lambda>b. map_option (f b) (aicons s b))"
  shows "other_icons s' dk a = Some (map (\<lambda>(b, i). (b, f b i)) r)"
  using assms array_icons_map
  by (auto simp: other_icons_def filter_map comp_def case_prod_unfold split: Option.bind_splits)

lemma row_places:
  assumes "row s dk a m h others"
  shows "distinct (map (\<lambda>p. place_of dk (snd p)) others)" "set (map (\<lambda>p. place_of dk (snd p)) others) = {1..m} - {h}"
proof -
  show s: "set (map (\<lambda>p. place_of dk (snd p)) others) = {1..m} - {h}"
    using assms by (simp add: row_def image_image)
  have "int (card ({1..m} - {h})) = int (length others)" using assms by (auto simp: row_def)
  then have "card ({1..m} - {h}) = length others" by simp
  then show "distinct (map (\<lambda>p. place_of dk (snd p)) others)" using s by (intro card_distinct) simp
qed

lemma triangle: "0 \<le> m \<Longrightarrow> 2 * \<Sum> {1..m} = m * (m + 1 :: int)"
proof (induction m rule: int_ge_induct)
  case (step i)
  have "{1..i + 1} = insert (i + 1) {1..i}" using step.hyps by auto
  then show ?case using step.IH by (simp add: algebra_simps)
qed simp

lemma hole_index:
  assumes r: "row s dk a m h others" and m: "m = places dk redocking"
  shows "indexOfHole s dk a redocking = Some (dirn dk * h)"
proof -
  note p = row_places [OF r]
  have h: "h \<in> {1..m}" "other_icons s dk a = Some others" using r by (simp_all add: row_def)
  have "sum_list (map (\<lambda>p. place_of dk (snd p)) others) = \<Sum> ({1..m} - {h})"
    using distinct_sum_list_conv_Sum [OF p(1)] p(2) by simp
  also have "\<dots> = \<Sum> {1..m} - h" using h(1) by (simp add: sum_diff1)
  finally have s: "sum_list (map (\<lambda>p. place_of dk (snd p)) others) = \<Sum> {1..m} - h" .
  have x: "sum_list (map (\<lambda>(b, i). xindex i) others) = dirn dk * sum_list (map (\<lambda>p. place_of dk (snd p)) others)"
    by (simp add: place_of_def case_prod_unfold sum_list_const_mult)
  have "2 * \<Sum> {1..m} = m * (m + 1)" using triangle h(1) by simp
  moreover have "0 \<le> m * (m + 1)" using h(1) by simp
  ultimately have half: "(m * (m + 1)) sdiv 2 = \<Sum> {1..m}"
    by (auto simp: signed_divide_int_def sgn_if)
  have "(if redocking then ((icon_count dk - 1) * icon_count dk) sdiv 2 else (icon_count dk * (icon_count dk + 1)) sdiv 2) = \<Sum> {1..m}"
    using m half by (auto simp: places_def)
  then show ?thesis using h(2) x s by (simp add: indexOfHole_def dirn_def right_diff_distrib)
qed

text \<open>Icons on a run of places next to the hole slide into it.\<close>

definition run :: "int \<Rightarrow> int \<Rightarrow> int set" where
  "run h e = (if h < e then {h + 1..e} else {e..h - 1})"

lemma unrank_rank:
  assumes "k \<noteq> h"
  shows "unrank e (rank h k) = (if k \<in> run h e then (if h < e then k - 1 else k + 1) else k)"
  using assms by (auto simp: unrank_def rank_def run_def)

lemma ranks_image:
  assumes "1 \<le> h" "h \<le> m" "1 \<le> e" "e \<le> m"
  shows "(\<lambda>k. unrank e (rank h k)) ` ({1..m} - {h}) = {1..m} - {e}"
proof -
  have "k \<in> (\<lambda>k. unrank e (rank h k)) ` ({1..m} - {h})" if "k \<in> {1..m} - {e}" for k
    by (rule image_eqI [where x = "unrank h (rank e k)"]) (use that assms in \<open>auto simp: unrank_def rank_def\<close>)
  moreover have "unrank e (rank h k) \<in> {1..m} - {e}" if "k \<in> {1..m} - {h}" for k
    using that assms by (auto simp: unrank_def rank_def)
  ultimately show ?thesis by (intro subset_antisym image_subsetI subsetI)
qed

lemma to_place_same:
  assumes "icon_x i = x_pos dk + xindex i * ICON_SIZE s"
  shows "to_place s dk (place_of dk i) i = i"
  using assms by (simp add: to_place_def place_of_def)

lemma row_with_hole:
  assumes r: "row s dk a m h others" and e: "1 \<le> e" "e \<le> m"
  shows "row (with_hole s dk others h e) dk a m e (map (\<lambda>(b, i). (b, move_hole s dk h e i)) others)"
proof -
  let ?f = "\<lambda>b i. if b \<in> fst ` set others then move_hole s dk h e i else i"
  let ?s = "with_hole s dk others h e"
  have "aicons ?s = (\<lambda>b. map_option (?f b) (aicons s b))" by (rule ext) (simp add: with_hole_def remap_def move_hole_def [abs_def] option.map_ident)
  then have "other_icons ?s dk a = Some (map (\<lambda>(b, i). (b, ?f b i)) others)"
    by (rule other_icons_map [where f = ?f, rotated]) (use r in \<open>simp add: row_def\<close>)
  moreover have "map (\<lambda>(b, i). (b, ?f b i)) others = map (\<lambda>(b, i). (b, move_hole s dk h e i)) others"
    by (rule map_cong) force+
  moreover have "place_of dk (move_hole s dk h e i) = unrank e (rank h (place_of dk i))" for i
    by (simp add: move_hole_def to_place_def place_of_def)
  then have "place_of dk ` snd ` set (map (\<lambda>(b, i). (b, move_hole s dk h e i)) others) = (\<lambda>k. unrank e (rank h k)) ` (place_of dk ` snd ` set others)"
    by (simp add: image_image case_prod_unfold)
  ultimately show ?thesis
    using r e ranks_image [of h m e]
    by (auto simp: row_def with_hole_def remap_def move_hole_def to_place_def comp_def case_prod_unfold)
qed

lemma slide_run:
  assumes at: "\<And>b i. (b, i) \<in> set r \<Longrightarrow> aicons s b = Some i \<and> icon_x i = x_pos dk + xindex i * ICON_SIZE s \<and> \<bar>xindex i\<bar> < 9000"
    and d: "distinct (map fst r)" "distinct (map (\<lambda>p. place_of dk (snd p)) r)"
    and sub: "{lo..hi} \<subseteq> set (map (\<lambda>p. place_of dk (snd p)) r)"
    and as: "as = map fst (filter (\<lambda>(b, i). place_of dk i \<in> {lo..hi}) r)"
    and lft: "lft \<longleftrightarrow> (dirn dk = 1) = back"
  shows "wSlideAppicons as lft s = Some (remap s dk r (\<lambda>k. if k \<in> {lo..hi} then (if back then k - 1 else k + 1) else k))"
    "length as = card {lo..hi}"
proof -
  let ?R = "{lo..hi}" and ?k = "\<lambda>p. place_of dk (snd p)"
  let ?s = "remap s dk r (\<lambda>k. if k \<in> {lo..hi} then (if back then k - 1 else k + 1) else k)"
  have ks: "map ?k (filter (\<lambda>(b, i). place_of dk i \<in> ?R) r) = filter (\<lambda>k. k \<in> ?R) (map ?k r)"
    by (simp add: filter_map comp_def case_prod_unfold)
  have "length as = length (filter (\<lambda>k. k \<in> ?R) (map ?k r))" unfolding as ks [symmetric] by simp
  also have "\<dots> = card (set (filter (\<lambda>k. k \<in> ?R) (map ?k r)))"
    by (rule distinct_card [symmetric]) (rule distinct_filter [OF d(2)])
  also have "set (filter (\<lambda>k. k \<in> ?R) (map ?k r)) = ?R" unfolding set_filter using sub by blast
  finally show len: "length as = card ?R" .
  have in_as: "b \<in> set as \<longleftrightarrow> place_of dk i \<in> ?R" if "(b, i) \<in> set r" for b i
  proof
    assume "b \<in> set as"
    then obtain j where "(b, j) \<in> set r" "place_of dk j \<in> ?R" by (auto simp: as)
    then show "place_of dk i \<in> ?R" using at [of b j] at [OF that] by simp
  qed (use that in \<open>force simp: as\<close>)
  have "slid as lft s = ?s"
  proof -
    have "aicons (slid as lft s) b = aicons ?s b" for b
    proof (cases "b \<in> fst ` set r")
      case True
      then obtain i where i: "(b, i) \<in> set r" by auto
      note a = at [OF i]
      have "slide_icon (ICON_SIZE s) lft i = to_place s dk (if back then place_of dk i - 1 else place_of dk i + 1) i"
        using a lft by (auto simp: slide_icon_def to_place_def place_of_def dirn_def algebra_simps split: if_splits)
      then show ?thesis
        using True a in_as [OF i] to_place_same [of i dk s] by (simp add: slid_def remap_def)
    next
      case False
      then have "b \<notin> set as" by (auto simp: as)
      then show ?thesis using False by (simp add: slid_def remap_def option.map_ident)
    qed
    then have "aicons (slid as lft s) = aicons ?s" by (rule ext)
    then show ?thesis by (simp add: slid_def remap_def)
  qed
  moreover have "wSlideAppicons as lft s = Some (slid as lft s)"
  proof (cases "as = []")
    case True
    then show ?thesis by (simp add: wSlideAppicons_def slid_def option.map_ident)
  next
    case False
    then have "length as \<noteq> 0" by simp
    then have le: "lo \<le> hi" using len by simp
    have bound: "\<bar>k\<bar> < 9000" if k: "k \<in> ?R" for k
    proof -
      obtain p where "p \<in> set r" "k = place_of dk (snd p)" using k sub by auto
      then show ?thesis using at [of "fst p" "snd p"] by (simp add: place_of_def)
    qed
    show ?thesis
    proof (rule wSlide_ok)
      show "distinct as" unfolding as by (rule distinct_map_filter [OF d(1)])
      show "\<forall>a \<in> set as. aicons s a \<noteq> None" using at by (force simp: as)
      let ?lo = "if dirn dk = 1 then lo else - hi" and ?hi = "if dirn dk = 1 then hi else - lo"
      have "(\<lambda>b. xindex (the (aicons s b))) ` set as = (\<lambda>p. xindex (snd p)) ` {p \<in> set r. ?k p \<in> ?R}"
        using at by (force simp: as image_def)
      also have "\<dots> = (\<lambda>k. dirn dk * k) ` (?k ` {p \<in> set r. ?k p \<in> ?R})"
        by (simp add: image_image place_of_def)
      also have "?k ` {p \<in> set r. ?k p \<in> ?R} = ?k ` set r \<inter> ?R" by blast
      also have "\<dots> = ?R" using sub by auto
      also have "(\<lambda>k. dirn dk * k) ` ?R = {?lo..?hi}" by (auto simp: dirn_def image_iff intro: bexI [where x = "- _"])
      finally show "(\<lambda>b. xindex (the (aicons s b))) ` set as = {?lo..?hi}" .
      show "int (length as) = ?hi - ?lo + 1" using len le by (auto simp: dirn_def)
      show "- 9999 < ?lo" "?hi < 9998" using bound [of lo] bound [of hi] le by auto
    qed
  qed
  ultimately show "wSlideAppicons as lft s = Some ?s" by simp
qed

lemma remap_cong:
  assumes "\<And>b i. (b, i) \<in> set r \<Longrightarrow> aicons s b = Some i \<and> f (place_of dk i) = g (place_of dk i)"
  shows "remap s dk r f = remap s dk r g"
proof -
  have "aicons (remap s dk r f) b = aicons (remap s dk r g) b" for b using assms by (fastforce simp: remap_def)
  then have "aicons (remap s dk r f) = aicons (remap s dk r g)" by (rule ext)
  then show ?thesis by (simp add: remap_def)
qed

lemma row_icon:
  assumes "row s dk a m h others" "(b, i) \<in> set others"
  shows "aicons s b = Some i" "place_of dk i \<in> {1..m} - {h}" "icon_x i = x_pos dk + xindex i * ICON_SIZE s" "\<bar>xindex i\<bar> < 9000"
proof -
  have o: "other_icons s dk a = Some others" and p: "place_of dk ` snd ` set others = {1..m} - {h}" and m: "m < 9000"
    using assms(1) by (simp_all add: row_def)
  show "aicons s b = Some i" by (rule other_icons_lookup [OF o assms(2)])
  have "i \<in> snd ` set others" using assms(2) by force
  then show k: "place_of dk i \<in> {1..m} - {h}" unfolding p [symmetric] by (rule imageI)
  show "icon_x i = x_pos dk + xindex i * ICON_SIZE s" using \<open>i \<in> snd ` set others\<close> assms(1) unfolding row_def by blast
  show "\<bar>xindex i\<bar> < 9000" using k m by (auto simp: place_of_def dirn_def split: if_splits)
qed

lemma slide_block:
  assumes r: "row s dk a m h others" and e: "1 \<le> e" "e \<le> m"
    and as: "as = map fst (filter (\<lambda>(b, i). place_of dk i \<in> run h e) others)"
    and lft: "lft \<longleftrightarrow> (dirn dk = 1) = (h < e)"
  shows "wSlideAppicons as lft s = Some (with_hole s dk others h e)" "int (length as) = \<bar>e - h\<bar>"
proof -
  let ?lo = "if h < e then h + 1 else e" and ?hi = "if h < e then e else h - 1"
  have R: "run h e = {?lo..?hi}" by (simp add: run_def)
  have h: "1 \<le> h" "h \<le> m" "distinct (map fst others)" using r by (auto simp: row_def)
  note p = row_places [OF r]
  have sub: "{?lo..?hi} \<subseteq> set (map (\<lambda>p. place_of dk (snd p)) others)" unfolding p(2) using e h by auto
  note * = slide_run [OF _ h(3) p(1) sub as [unfolded R] lft, of s]
  have "wSlideAppicons as lft s =
      Some (remap s dk others (\<lambda>k. if k \<in> {?lo..?hi} then (if h < e then k - 1 else k + 1) else k))"
    by (rule *(1)) (use row_icon [OF r] in blast)
  also have "remap s dk others (\<lambda>k. if k \<in> {?lo..?hi} then (if h < e then k - 1 else k + 1) else k) = with_hole s dk others h e"
    unfolding with_hole_def
  proof (rule remap_cong)
    fix b i
    assume "(b, i) \<in> set others"
    then have "aicons s b = Some i" "place_of dk i \<noteq> h" using row_icon [OF r] by auto
    then show "aicons s b = Some i \<and> (if place_of dk i \<in> {?lo..?hi} then (if h < e then place_of dk i - 1 else place_of dk i + 1)
        else place_of dk i) = unrank e (rank h (place_of dk i))"
      using unrank_rank [of "place_of dk i" h e] by (simp add: R)
  qed
  finally show "wSlideAppicons as lft s = Some (with_hole s dk others h e)" .
  have "length as = card {?lo..?hi}" by (rule *(2)) (use row_icon [OF r] in blast)
  then show "int (length as) = \<bar>e - h\<bar>" by auto
qed

text \<open>The tile of a dock, in the first cell of its array.\<close>

definition tile_ok :: "DScreen \<Rightarrow> Dock \<Rightarrow> bool" where
  "tile_ok s dk \<longleftrightarrow> (\<exists>t ps i. icon_array dk = Some t # ps \<and> aicons s t = Some i \<and> xindex i = 0 \<and> yindex i = 0)"

lemma tile_other_icons:
  assumes "tile_ok s dk" "other_icons s dk a = Some others"
  obtains t i r where "dock_icons s dk = Some ((t, i) # r)" "xindex i = 0" "yindex i = 0" "others = filter (\<lambda>(b, i). b \<noteq> a) r"
  using assms by (fastforce simp: tile_ok_def other_icons_def dock_icons_def split: Option.bind_splits)

lemma to_shift_run:
  assumes r: "row s dk a m h others" and e: "1 \<le> e" "e \<le> m" and c: "m \<le> icon_count dk"
    and P: "\<And>b i. (b, i) \<in> set others \<Longrightarrow> P i = (place_of dk i \<in> run h e)"
  shows "to_shift dk P others = Some (map fst (filter (\<lambda>(b, i). place_of dk i \<in> run h e) others))"
proof -
  have "filter (\<lambda>(b, i). P i) others = filter (\<lambda>(b, i). place_of dk i \<in> run h e) others"
    by (rule filter_cong) (use P in auto)
  moreover have "1 \<le> h" "h \<le> m" using r by (simp_all add: row_def)
  ultimately show ?thesis
    using slide_block(2) [OF r e refl refl] c e by (simp add: to_shift_def Let_def)
qed

lemma places_le: "places dk redocking \<le> icon_count dk"
  by (simp add: places_def)

text \<open>
  The slot under the pointer is cut to the places of the drawer; the hole goes there. When the pointer is off the row, nothing changes.
\<close>

definition off_row :: "Dock \<Rightarrow> int \<Rightarrow> int \<Rightarrow> bool" where
  "off_row dk ex_x ex_y \<longleftrightarrow> ex_y \<noteq> 0 \<or> \<bar>ex_x\<bar> - icon_count dk > DOCK_DETTACH_THRESHOLD \<or> dirn dk * ex_x < 0"

definition place_at :: "int \<Rightarrow> int \<Rightarrow> int" where
  "place_at m ex_x = min m (max 1 \<bar>ex_x\<bar>)"

lemma snap_drawer_ok:
  assumes r: "row s dk a m h others" and m: "m = places dk redocking"
  shows "snap_drawer s dk a ex_x ex_y redocking = Some (if off_row dk ex_x ex_y then (NULL, s)
    else (Some (dirn dk * place_at m ex_x, 0), with_hole s dk others h (place_at m ex_x)))"
proof (cases "off_row dk ex_x ex_y")
  case True
  then have "ex_y \<noteq> 0 \<or> \<bar>ex_x\<bar> - icon_count dk > DOCK_DETTACH_THRESHOLD \<or> ex_x < 0 \<and> \<not> right_side dk \<or> ex_x > 0 \<and> right_side dk"
    by (auto simp: off_row_def dirn_def split: if_splits)
  then show ?thesis using True by (simp add: snap_drawer_def)
next
  case False
  let ?e = "place_at m ex_x"
  have hm: "1 \<le> h" "h \<le> m" using r by (simp_all add: row_def)
  have e: "1 \<le> ?e" "?e \<le> m" using hm by (auto simp: place_at_def)
  have stay: "\<not> (ex_y \<noteq> 0 \<or> \<bar>ex_x\<bar> - icon_count dk > DOCK_DETTACH_THRESHOLD \<or> ex_x < 0 \<and> \<not> right_side dk \<or> ex_x > 0 \<and> right_side dk)"
    using False by (auto simp: off_row_def dirn_def split: if_splits)
  define ex1 where "ex1 = (if ex_x = 0 then (if right_side dk then - 1 else 1) else ex_x)"
  have ex1: "ex1 = dirn dk * \<bar>ex1\<bar>" "\<bar>ex1\<bar> = max 1 \<bar>ex_x\<bar>" "\<bar>ex1\<bar> \<ge> 1"
    using stay by (auto simp: ex1_def dirn_def)
  have cut: "(if \<bar>ex1\<bar> > m then (ex1 * m) sdiv \<bar>ex1\<bar> else ex1) = dirn dk * ?e"
  proof (cases "\<bar>ex1\<bar> > m")
    case True
    define q where "q = \<bar>ex1\<bar>"
    have q: "0 < q * m" "q \<noteq> 0" "ex1 = dirn dk * q" using ex1(1,3) hm by (auto simp: q_def)
    have "(q * m) sdiv q = m" "(- (q * m)) sdiv q = - m"
      using q(1,2) ex1(3) by (simp_all add: signed_divide_int_def q_def)
    then have "(ex1 * m) sdiv q = dirn dk * m" unfolding q(3) by (auto simp: dirn_def)
    then have "(ex1 * m) sdiv \<bar>ex1\<bar> = dirn dk * m" by (simp add: q_def)
    then show ?thesis using True ex1(2) by (simp add: place_at_def)
  next
    case False
    then have "?e = \<bar>ex1\<bar>" unfolding place_at_def ex1(2) by linarith
    then show ?thesis using False ex1(1) by simp
  qed
  have sel: "(dirn dk * ?e \<le> xindex i \<and> xindex i < dirn dk * h \<or> dirn dk * h < xindex i \<and> xindex i \<le> dirn dk * ?e)
      = (place_of dk i \<in> run h ?e)" for i
    by (auto simp: run_def place_of_def dirn_def)
  have sh: "to_shift dk (\<lambda>icon. dirn dk * ?e \<le> xindex icon \<and> xindex icon < dirn dk * h \<or> dirn dk * h < xindex icon \<and> xindex icon \<le> dirn dk * ?e) others
      = Some (map fst (filter (\<lambda>(b, i). place_of dk i \<in> run h ?e) others))"
    by (rule to_shift_run [OF r e]) (use sel m places_le in auto)
  have "(dirn dk * h < dirn dk * ?e) = ((dirn dk = 1) = (h < ?e)) \<or> ?e = h" by (auto simp: dirn_def)
  moreover have "\<bar>dirn dk * ?e - dirn dk * h\<bar> = \<bar>?e - h\<bar>" by (auto simp: dirn_def)
  moreover have "wSlideAppicons (map fst (filter (\<lambda>(b, i). place_of dk i \<in> run h ?e) others)) (dirn dk * h < dirn dk * ?e) s
      = Some (with_hole s dk others h ?e)"
  proof (cases "?e = h")
    case True
    then have "map fst (filter (\<lambda>(b, i). place_of dk i \<in> run h ?e) others) = []" by (simp add: run_def filter_False)
    then show ?thesis using slide_block(1) [OF r e refl refl] by (simp add: wSlideAppicons_def)
  next
    case False
    show ?thesis by (rule slide_block(1) [OF r e refl]) (use False in \<open>auto simp: dirn_def\<close>)
  qed
  moreover have "other_icons s dk a = Some others" "ex_y = 0" using r stay by (simp_all add: row_def)
  ultimately show ?thesis
    unfolding snap_drawer_def Let_def ex1_def [symmetric] places_def [symmetric] m [symmetric] cut if_not_P [OF stay] if_not_P [OF False]
    using hole_index [OF r m] slide_block(2) [OF r e refl refl] sh by simp
qed

lemma fill_gap_ok:
  assumes d: "docks s d = Some dk" "tile_ok s dk" and r: "row s dk a m h others" and m: "m = places dk redocking"
  shows "wDrawerFillTheGap d a redocking s = Some (with_hole s dk others h m)"
proof -
  have hm: "1 \<le> h" "h \<le> m" "other_icons s dk a = Some others" using r by (simp_all add: row_def)
  obtain t i rs where ti: "dock_icons s dk = Some ((t, i) # rs)" "xindex i = 0" "others = filter (\<lambda>(b, i). b \<noteq> a) rs"
    using tile_other_icons [OF d(2) hm(3)] by metis
  have sel: "(\<bar>xindex j\<bar> > \<bar>dirn dk * h\<bar>) = (place_of dk j \<in> run h m)" if "(b, j) \<in> set others" for b j
  proof -
    have "place_of dk j \<in> place_of dk ` snd ` set others" using that by force
    then have "place_of dk j \<in> {1..m} - {h}" using r by (simp add: row_def)
    moreover have "\<bar>xindex j\<bar> = \<bar>place_of dk j\<bar>" by (simp add: place_of_def)
    ultimately show ?thesis using hm by (auto simp: run_def)
  qed
  have e: "1 \<le> m" "m \<le> m" using hm by auto
  have "to_shift dk (\<lambda>icon. \<bar>xindex icon\<bar> > \<bar>dirn dk * h\<bar>) (filter (\<lambda>(b, i). b \<noteq> a) ((t, i) # rs)) =
      to_shift dk (\<lambda>icon. \<bar>xindex icon\<bar> > \<bar>dirn dk * h\<bar>) others"
    using ti(2,3) by (simp add: to_shift_def)
  also have "\<dots> = Some (map fst (filter (\<lambda>(b, i). place_of dk i \<in> run h m) others))"
    by (rule to_shift_run [OF r e]) (use sel m places_le in auto)
  finally have sh: "to_shift dk (\<lambda>icon. \<bar>xindex icon\<bar> > \<bar>dirn dk * h\<bar>) (filter (\<lambda>(b, i). b \<noteq> a) ((t, i) # rs)) =
      Some (map fst (filter (\<lambda>(b, i). place_of dk i \<in> run h m) others))" .
  have "wSlideAppicons (map fst (filter (\<lambda>(b, i). place_of dk i \<in> run h m) others)) (\<not> right_side dk) s = Some (with_hole s dk others h m)"
  proof (cases "h = m")
    case True
    then have "map fst (filter (\<lambda>(b, i). place_of dk i \<in> run h m) others) = []" by (simp add: run_def filter_False)
    then show ?thesis using slide_block(1) [OF r e refl refl] by (simp add: wSlideAppicons_def)
  next
    case False
    show ?thesis by (rule slide_block(1) [OF r e refl]) (use False hm in \<open>auto simp: dirn_def\<close>)
  qed
  then show ?thesis
    using d(1) hole_index [OF r m] ti(1) sh by (simp add: wDrawerFillTheGap_def)
qed

section \<open>Snapping into a drawer\<close>

lemma onScreen_one_head: "hcount (xrandr_info (heads s)) \<le> 1 \<Longrightarrow> onScreen s x y \<noteq> None"
  by (simp add: onScreen_def wGetRectPlacementInfo_def Let_def)

text \<open>What \<open>wDockSnapIcon\<close> makes of a position over a drawer.\<close>

definition snapped_place :: "DScreen \<Rightarrow> Dock \<Rightarrow> bool \<Rightarrow> int \<Rightarrow> int \<Rightarrow> int ptr" where
  "snapped_place s dk redocking x y =
     (let ex_x = nearest (ICON_SIZE s) x (x_pos dk); ex_y = nearest (ICON_SIZE s) y (y_pos dk) in
      if noupdates s \<or> \<not> redocking \<and> icon_count dk \<ge> int (max_icons dk) \<or>
         onScreen s (x_pos dk + ex_x * ICON_SIZE s) (y_pos dk + ex_y * ICON_SIZE s) \<noteq> Some True \<or> off_row dk ex_x ex_y
      then NULL else Some (place_at (places dk redocking) ex_x))"

lemma snap_into_drawer:
  assumes d: "docks s d = Some dk" "dock_type dk = WM_DRAWER" and r: "row s dk a (places dk redocking) h others"
    and o: "\<forall>x y. onScreen s x y \<noteq> None"
  shows "wDockSnapIcon d a x y redocking s = Some (case snapped_place s dk redocking x y of
      None \<Rightarrow> (NULL, s) | Some e \<Rightarrow> (Some (dirn dk * e, 0), with_hole s dk others h e))"
proof -
  let ?x = "nearest (ICON_SIZE s) x (x_pos dk)" and ?y = "nearest (ICON_SIZE s) y (y_pos dk)"
  obtain b where b: "onScreen s (x_pos dk + ?x * ICON_SIZE s) (y_pos dk + ?y * ICON_SIZE s) = Some b" using o by blast
  show ?thesis
    using d b snap_drawer_ok [OF r refl, of ?x ?y]
    by (auto simp: wDockSnapIcon_def snapped_place_def Let_def)
qed

lemma snapped_place_range:
  assumes "snapped_place s dk redocking x y = Some e" "1 \<le> places dk redocking"
  shows "1 \<le> e" "e \<le> places dk redocking"
  using assms by (auto simp: snapped_place_def place_at_def Let_def split: if_splits)

text \<open>
  C40: An icon is dragged over a drawer whose other icons fill its places but one. \<open>wDockSnapIcon\<close> returns, inside its arrays and
  without a failed assertion; either it finds no slot and changes nothing, or it gives a slot of the row and has the other icons fill
  all the other places: each of them keeps its rank in the row, its window is where its slot is, and no other icon changes.
\<close>

theorem drawer_makes_room:
  assumes "docks s d = Some dk" "dock_type dk = WM_DRAWER" "row s dk a (places dk redocking) h others"
    "\<forall>x y. onScreen s x y \<noteq> None"
  shows "(snapped_place s dk redocking x y = NULL \<longrightarrow> wDockSnapIcon d a x y redocking s = Some (NULL, s)) \<and>
    (\<forall>e. snapped_place s dk redocking x y = Some e \<longrightarrow>
       wDockSnapIcon d a x y redocking s = Some (Some (dirn dk * e, 0), with_hole s dk others h e) \<and>
       row (with_hole s dk others h e) dk a (places dk redocking) e (map (\<lambda>(b, i). (b, move_hole s dk h e i)) others) \<and>
       (\<forall>(b, i) \<in> set others. aicons (with_hole s dk others h e) b = Some (move_hole s dk h e i) \<and>
          rank e (place_of dk (move_hole s dk h e i)) = rank h (place_of dk i)) \<and>
       (\<forall>b. b \<notin> fst ` set others \<longrightarrow> aicons (with_hole s dk others h e) b = aicons s b))"
proof -
  have m: "1 \<le> places dk redocking" using assms(3) by (simp add: row_def)
  have keep: "aicons (with_hole s dk others h e) b = Some (move_hole s dk h e i) \<and>
      rank e (place_of dk (move_hole s dk h e i)) = rank h (place_of dk i)" if "(b, i) \<in> set others" for b i e
  proof -
    have "b \<in> fst ` set others" using that by force
    then show ?thesis using row_icon(1) [OF assms(3) that]
      by (simp add: with_hole_def remap_def move_hole_def to_place_def place_of_def) (simp add: rank_def unrank_def)
  qed
  show ?thesis
    using snap_into_drawer [OF assms, of x y] row_with_hole [OF assms(3)] snapped_place_range [OF _ m, of s x y] keep
    by (auto simp: with_hole_def remap_def)
qed

text \<open>A drawer with three icons, of which the second is dragged.\<close>

definition example_icon :: "int \<Rightarrow> WAppIcon" where
  "example_icon x = \<lparr>xindex = x, yindex = 0, icon_x = 100 + x * 64, icon_y = 0, command = Some ''c'', dnd_command = NULL, paste_command = NULL,
     in_dock = Some 7, docked = True, omnipresent = False, attracted = False, launching = False, running = False, auto_launch = False,
     editing = False, icon_shadowed = False, icon_selected = False, window_command = NULL, has_application = False, lock = False\<rparr>"

definition example_drawer :: Dock where
  "example_drawer = \<lparr>x_pos = 100, y_pos = 0, icon_array = [Some 0, Some 1, NULL, Some 2, Some 3, NULL], icon_count = 4,
     dock_type = WM_DRAWER, right_side = False\<rparr>"

definition example_desk :: DScreen where
  "example_desk = \<lparr>heads = \<lparr>xrandr_info = \<lparr>primary_head = 0, screens = NULL, hcount = 0\<rparr>, scr_width = 800, scr_height = 600,
       usableArea = [], totalUsableArea = [], dock = NULL, icon_yard_mapped = True, pointer = NULL\<rparr>,
     ICON_SIZE = 64, noupdates = False, nodock = True, noclip = True, nodrawer = False,
     aicons = [0 \<mapsto> example_icon 0, 1 \<mapsto> example_icon 1, 2 \<mapsto> example_icon 2, 3 \<mapsto> example_icon 3],
     docks = [7 \<mapsto> example_drawer], main_dock = NULL, drawers = [7], drawer_count = 1, clips = [], workspace = 0, clip_icon = NULL,
     global_icons = [], global_icon_count = 0\<rparr>"

lemma example_row:
  "docks example_desk 7 = Some example_drawer" "dock_type example_drawer = WM_DRAWER" "tile_ok example_desk example_drawer"
  "row example_desk example_drawer 2 (places example_drawer True) 2 [(1, example_icon 1), (3, example_icon 3)]"
  "\<forall>x y. onScreen example_desk x y \<noteq> None"
proof -
  have "{1..3} - {2} = {1, 3 :: int}" by auto
  then show "row example_desk example_drawer 2 (places example_drawer True) 2 [(1, example_icon 1), (3, example_icon 3)]"
    by (simp add: row_def other_icons_def example_desk_def example_drawer_def places_def place_of_def dirn_def example_icon_def)
  show "\<forall>x y. onScreen example_desk x y \<noteq> None"
    by (intro allI onScreen_one_head) (simp add: example_desk_def)
qed (simp_all add: example_desk_def example_drawer_def tile_ok_def example_icon_def)

lemma example_snapped: "snapped_place example_desk example_drawer True 300 10 = Some 3"
proof -
  have "nearest 64 300 100 = 3" "nearest 64 10 0 = 0" "onScreen example_desk 292 0 = Some True"
    by code_simp+
  then show ?thesis
    by (simp add: snapped_place_def Let_def example_desk_def example_drawer_def off_row_def place_at_def places_def dirn_def DOCK_DETTACH_THRESHOLD_def)
qed

theorem drawer_makes_room_witness:
  "wDockSnapIcon 7 2 300 10 True example_desk =
     Some (Some (3, 0), with_hole example_desk example_drawer [(1, example_icon 1), (3, example_icon 3)] 2 3)"
  using drawer_makes_room [OF example_row(1,2,4,5), of 300 10] example_snapped
  by (simp add: dirn_def example_drawer_def)


end
