(* ===== verification/Spec2Isabelle.thy ===== *)
theory Spec2Isabelle
  imports WMArrays WMHashTables WMMemory WMData WMPlistBindings WMFindFileSpec WMCopyFile WMPlistFilesSpec WMUserDefaultsSpec WMStrings WMBagLists WMObservers WMTimers WMTreeSpec WMStackingSpec WMPlacementSpec WMIconPlacement WMDrawerSpec
begin

text \<open>
  \<^bold>\<open>The program.\<close> NEXTSPACE's Workspace application contains a window manager, a fork of Window
  Maker, under \<open>src/system/nextspace/Applications/Workspace/WM/\<close>. It has three layers: the library
  \<open>WMcore\<close> (containers, property lists, strings, notifications, the event loop, files and
  defaults), the toolkit \<open>WINGs\<close>, and the window manager itself in \<open>WM/src\<close>. This development
  models \<open>WMcore\<close> and the parts of \<open>WM/src\<close> that are algorithms on the manager's own state: the
  stacking order, the heads of a multi-head screen, the placement of windows and icons, and the
  others listed below.

  \<^bold>\<open>How the parts interact.\<close> Arrays, hash tables and bags hold what everything else keeps:
  reference counts (\<open>memory.c\<close>) and the notification center live in hash tables, tree nodes keep
  their leaves in arrays, property list dictionaries are hash tables whose keys are property lists
  again, and a screen keeps the top window of every level in a bag. The event loop
  (\<open>handlers.c\<close>) flushes the notification queues before it waits and after it has called a
  handler, so its state extends theirs. Placement reads the heads for the area it may use and the
  stacking lists for the windows and icons that are in the way.

  \<^bold>\<open>Conventions.\<close> The model keeps the names of the code. A pointer is an option (\<open>NULL\<close> is
  \<open>None\<close>), a \<open>malloc\<close>ed block is a list of cells (\<open>WMPrelude\<close>), structures that are shared or
  linked live in explicit heaps, that is maps from addresses. A function that may access memory
  returns an option, and \<open>None\<close> says that the call reads or writes outside a block, through
  NULL, at a freed address, or does not return. So every equation \<open>f x = Some y\<close> below says that the
  call returns and is memory safe. Functions that report errors return what the code returns.
  \<open>unsigned\<close> values wrap around (words, or \<open>mod 2 ^ 32\<close> written out), and so do the \<open>int\<close> products and sums
  of covered areas in \<open>placement.c\<close> (\<open>signed\<close>); other signed values are integers, with bounds as
  hypotheses where the range matters. What the code calls outside the
  repository (the allocator, \<open>qsort\<close>, the clock, \<open>select\<close>, the X server, the file system,
  callbacks of the client) is a parameter.

  \<^bold>\<open>The theories.\<close>
  \<^item> \<open>WMPrelude\<close>: pointers, blocks, cells and the lemmas that all theories rewrite with.
  \<^item> \<open>WMArrays\<close> (\<open>array.c\<close>): the record \<open>W_Array\<close> with its block, all operations, and the
    refinement of any sequence of them to operations on a list.
  \<^item> \<open>WMHashTables\<close> (\<open>hashtable.c\<close>): the table, rehashing, enumeration; the invariant, the
    refinement to finite maps. The operations take the callbacks, so the same definitions also run on string keys
    that carry the block \<open>wstrdup\<close> gave them, which shows that each block is released once. \<open>WMTables\<close> states what a client relies on
    as a locale, and interprets it on these tables.
  \<^item> \<open>WMMemory\<close> (\<open>memory.c\<close>): allocation, \<open>wretain\<close> and \<open>wrelease\<close> over a hash table of counters.
  \<^item> \<open>WMData\<close> (\<open>data.c\<close>): byte buffers with capacity and growth, refining lists of bytes.
  \<^item> \<open>WMPlist\<close>, \<open>WMPlistOperations\<close>, \<open>WMPlistBindings\<close> (\<open>proplist.c\<close>, values): hash and equality,
    arrays and dictionaries, merging, subtracting, copying; dictionaries by their bindings.
  \<^item> \<open>WMPlistText\<close>, \<open>WMPlistParser\<close>, \<open>WMPlistRoundTrip\<close>, \<open>WMPlistUnreadable\<close> (\<open>proplist.c\<close>, text): both
    printers with their buffer sizes, the recursive parser, and the round trips through descriptions and files: values are
    read back, except those with a string that has a dollar sign and is printed without quotes, which the parser rejects.
  \<^item> \<open>WMStrings\<close> (\<open>string.c\<close>): tokenizer, joining, trimming, \<open>wstrlcat\<close>, shell quoting.
  \<^item> \<open>WMBag\<close>, \<open>WMBagTrees\<close>, \<open>WMBagOperations\<close>, \<open>WMBagLists\<close> (\<open>bagtree.c\<close>): red-black trees with
    parent pointers and a sentinel; the trees behind the pointers, insertion with its repair loop,
    and bags as lists and as maps.
  \<^item> \<open>WMNotification\<close>, \<open>WMObservers\<close> (\<open>notification.c\<close>): the center and its queues, refining a
    registry of observers with two lists of waiting notifications.
  \<^item> \<open>WMHandlers\<close>, \<open>WMTimers\<close> (\<open>handlers.c\<close>): timers, idle and input handlers and the event
    loop; the queue of timers and what a check of it calls.
  \<^item> \<open>WMTree\<close>, \<open>WMTreeSpec\<close> (\<open>tree.c\<close>): trees on a heap, and what every function makes of the tree
    as a value.
  \<^item> \<open>WMFindFile\<close>, \<open>WMFindFileSpec\<close> (\<open>findfile.c\<close>): expanding tildes and variables in the two
    buffers of \<open>wexpandpath\<close>, against an expansion on texts; the searches along a list of directories.
  \<^item> \<open>WMCopyFile\<close> (\<open>findfile.c\<close>, \<open>wcopy_file\<close>): copying a file through system calls that may be
    interrupted, cut short or fail.
  \<^item> \<open>WMPlistFiles\<close>, \<open>WMPlistFilesSpec\<close> (\<open>proplist.c\<close>, files): directories below the user's one,
    property lists written through a temporary file and read from a pipe.
  \<^item> \<open>WMUserDefaults\<close>, \<open>WMUserDefaultsSpec\<close> (\<open>userdefaults.c\<close>): databases of defaults over the
    property lists, and their synchronization with files.
  \<^item> \<open>WMStacking\<close>, \<open>WMStackingLists\<close>, \<open>WMStackingRaise\<close>, \<open>WMStackingScreen\<close>,
    \<open>WMStackingSpec\<close> (\<open>WM/src/stacking.c\<close>): the lists of frames per level and the bag of their
    tops, the invariant that they agree with the order of the windows on the server, and what
    raising, lowering, adding, removing and changing the level do.
  \<^item> \<open>WMHeads\<close>, \<open>WMHeadsSpec\<close> (\<open>WM/src/xrandr.c\<close>): the heads and the areas they leave to windows.
  \<^item> \<open>WMPlacement\<close>, \<open>WMPlacementSpec\<close>, \<open>WMIconPlacement\<close> (\<open>WM/src/placement.c\<close>): the placement
    of windows and icons.
  \<^item> \<open>WMDock\<close>, \<open>WMDockSlots\<close>, \<open>WMIconDrag\<close> (\<open>WM/src/dock.c\<close>, \<open>appicon.c\<close>): the dock, clips and drawers and the
    slots of their icons, and the drag of an icon; \<open>WMDrawerSpec\<close>: the rows of drawers.

  \<^bold>\<open>What is shown.\<close> The containers refine the data types they stand for (lists, finite maps,
  ordered trees) under any sequence of operations. Reference counts are exact and free at zero.
  Property lists have an equality that is an equivalence, and for every value it is known whether it is read back from
  what is printed for it. Strings stay inside their buffers. Notifications and timers are delivered to
  the right clients in the right order, also when a client calls the module back, as far as the
  code supports that. A screen keeps the order of its windows on the server equal to its lists.
  Windows and icons are placed inside the area they may use, on a free place where the algorithm
  promises one. Where the code does not do what it means to, a lemma shows
  it on concrete values, and the manifest lists it as a finding.

  \<^bold>\<open>Loops, fuel and bounds.\<close> Loops over lists and indices are structural recursion or functions with a
  measure. Loops along pointers are \<open>partial_function (option)\<close>, and the properties of such a
  function show that it returns on well-formed structures. The parser is given twice the length of the
  text plus one as fuel, which \<open>getPropList_total\<close> shows to be enough for every text. Sizes of blocks and
  numbers of items are integers below the limit at which \<open>int\<close> overflows; coordinates in \<open>placement.c\<close>
  are bounded by \<open>2 ^ 30\<close> in the properties whose sums would overflow otherwise; where areas are compared, corners
  are 32-bit numbers, a head has fewer than \<open>2 ^ 31\<close> pixels and the windows that count fewer than \<open>INT_MAX\<close> in all;
  \<open>PATH_MAX\<close> is below \<open>2 ^ 29\<close>, so that the positions in \<open>wexpandpath\<close> do not wrap; the loops of
  \<open>wcopy_file\<close> return when every call is interrupted finitely often in a row;
  the delays of timers are at most 2147483 milliseconds, beyond which the code's product overflows.

  \<^bold>\<open>Not modelled.\<close>
  \<^item> In \<open>WMcore\<close>: the abort handlers of \<open>memory.c\<close>, the messages of \<open>error.c\<close>,
    \<open>usleep.c\<close> and the resource paths of \<open>wapplication.c\<close>, which only call the operating
    system; the reference counts of property lists, whose values are trees here; in \<open>handlers.c\<close>
    the variant for systems with \<open>poll\<close> but without \<open>select\<close>; in \<open>userdefaults.c\<close> the two functions
    on floating point values and the timer for systems without \<open>inotify\<close>.
  \<^item> In \<open>WM/src\<close>: what draws, grabs, or exchanges properties with the X server (menus, frames,
    icons, balloons, textures, session and desktop protocols), because its result is a sequence of
    requests and not a state of the program, and the event dispatcher, whose handlers
    belong to those parts. \<open>WINGs\<close> is left out for the same reason.
  \<^item> The other programs of the repository (\<open>gnustep-base\<close>, \<open>gnustep-gui\<close>, \<open>gnustep-back\<close>,
    \<open>libdispatch\<close>, \<open>libobjc2\<close>, and the applications) are separate projects, most of them in
    Objective-C, that the window manager's logic does not rest on.
\<close>

end
